(* ===== verification/NGIN_Prelude.thy ===== *)
theory NGIN_Prelude
  imports "HOL-Library.Word" "HOL-Library.Char_ord" "HOL-Library.Monad_Syntax"
begin

text \<open>
  Shared vocabulary of the development.

  \<^item> Types: a byte is an \<^typ>\<open>8 word\<close>; text is a \<^typ>\<open>string\<close>; \<open>std::span\<close>,
    \<open>std::string_view\<close>, \<open>std::string\<close> and \<open>ByteBuffer\<close> are lists.
  \<^item> Memory accesses: \<open>span_at\<close> and \<open>span_put\<close> read and write one element and give
    \<^term>\<open>None\<close> outside the span. A model that uses them has type \<open>_ option\<close>, and \<^term>\<open>None\<close>
    stands for the undefined behaviour of an access out of range. The components prove that
    they never return it.
  \<^item> C++ integer promotion: an expression over \<open>UInt8\<close> operands is computed in \<open>int\<close> and
    cast back. The models compute in \<^typ>\<open>nat\<close> with the bit operations of the library and cast
    with \<^const>\<open>word_of_nat\<close>, which truncates as the cast of the code does.
  \<^item> The collections \<open>bitarith\<close> (bit masks and shifts as division and remainder) and
    \<open>span_simps\<close> (accesses inside a span) carry the component proofs.
\<close>

unbundle bit_operations_syntax

named_theorems bitarith \<open>bit operations of the code as arithmetic\<close>
named_theorems span_simps \<open>accesses to spans that stay in range\<close>

section \<open>Types\<close>

type_synonym byte = "8 word"
type_synonym bytes = "byte list"
type_synonym u16 = "16 word"
type_synonym u32 = "32 word"
type_synonym u64 = "64 word"

section \<open>Characters\<close>

text \<open>
  A \<open>char\<close> of the code is one 8-bit unit. The range tests of the code compare with ASCII bounds
  only, so the order of the unsigned codes (\<open>Char_ord\<close>) decides them as the signed comparison
  does: a unit of 128 or more is outside every such range either way.
\<close>

abbreviation ord :: "char \<Rightarrow> nat" where
  "ord c \<equiv> of_char c"

abbreviation chr :: "nat \<Rightarrow> char" where
  "chr n \<equiv> char_of n"

text \<open>The test \<open>c >= lo && c <= hi\<close>.\<close>

abbreviation between :: "char \<Rightarrow> char \<Rightarrow> char \<Rightarrow> bool" where
  "between lo hi c \<equiv> lo \<le> c \<and> c \<le> hi"

named_theorems char_arith \<open>comparisons of characters as comparisons of their codes\<close>

lemma char_le_ord [char_arith]: "(c \<le> d) \<longleftrightarrow> ord c \<le> ord d"
  by (simp add: less_eq_char_def)

lemma char_eq_ord: "(c = d) \<longleftrightarrow> ord c = ord d"
  by simp

lemma ord_less [simp]: "ord c < 256"
  by simp

lemma char_eqI: "ord c = ord d \<Longrightarrow> c = d"
  by simp

section \<open>Spans\<close>

definition span_at :: "'a list \<Rightarrow> nat \<Rightarrow> 'a option" where
  "span_at xs i = (if i < length xs then Some (xs ! i) else None)"

definition span_put :: "'a list \<Rightarrow> nat \<Rightarrow> 'a \<Rightarrow> 'a list option" where
  "span_put xs i v = (if i < length xs then Some (xs[i := v]) else None)"

text \<open>\<open>substr(pos, count)\<close> and \<open>subspan(pos, count)\<close> with \<open>pos\<close> in range.\<close>

definition substr :: "'a list \<Rightarrow> nat \<Rightarrow> nat \<Rightarrow> 'a list" where
  "substr xs pos n = take n (drop pos xs)"

lemma span_at_in [span_simps]: "i < length xs \<Longrightarrow> span_at xs i = Some (xs ! i)"
  by (simp add: span_at_def)

lemma span_put_in [span_simps]: "i < length xs \<Longrightarrow> span_put xs i v = Some (xs[i := v])"
  by (simp add: span_put_def)

lemma span_put_length: "span_put xs i v = Some ys \<Longrightarrow> length ys = length xs"
  by (auto simp: span_put_def split: if_splits)

lemma span_at_append [span_simps]: "i = length xs \<Longrightarrow> span_at (xs @ y # ys) i = Some y"
  by (simp add: span_at_def)

lemma span_put_append [span_simps]:
  "i = length xs \<Longrightarrow> span_put (xs @ y # ys) i v = Some (xs @ v # ys)"
  by (simp add: span_put_def)

text \<open>\<open>output[outputIndex++] = value\<close> for each of a list of values.\<close>

fun emit :: "'a list \<times> nat \<Rightarrow> 'a list \<Rightarrow> ('a list \<times> nat) option" where
  "emit (out, k) [] = Some (out, k)"
| "emit (out, k) (v # vs) = do { out \<leftarrow> span_put out k v; emit (out, k + 1) vs }"

text \<open>
  A span that is being filled from the front: the values written so far, then the part not
  written yet. Writing values that fit extends the first part.
\<close>

lemma emit_spec [span_simps]:
  "length vs \<le> length rest \<Longrightarrow>
     emit (done @ rest, length done) vs = Some ((done @ vs) @ drop (length vs) rest, length (done @ vs))"
proof (induction vs arbitrary: "done" rest)
  case (Cons v vs)
  then obtain r rest' where rest: "rest = r # rest'" by (cases rest) auto
  with Cons.prems Cons.IH [of rest' "done @ [v]"] show ?case
    by (simp add: span_put_append)
qed simp

lemma takeWhile_pad: "c \<notin> set xs \<Longrightarrow> takeWhile (\<lambda>x. x \<noteq> c) (xs @ replicate n c) = xs"
  by (subst takeWhile_append2) (auto simp: takeWhile_eq_Nil_iff)

text \<open>A call whose error is returned to the caller: success means success of both parts.\<close>

lemma case_sum_Inr_iff:
  "(case y of Inl e \<Rightarrow> Some (Inl e) | Inr x \<Rightarrow> f x) = Some (Inr b) \<longleftrightarrow> (\<exists>x. y = Inr x \<and> f x = Some (Inr b))"
  by (cases y) simp_all

section \<open>Bit operations as arithmetic\<close>

lemma nat_and_mask: "(x::nat) AND (2 ^ n - 1) = x mod 2 ^ n"
  using take_bit_eq_mask [of n x] by (simp add: mask_eq_exp_minus_1 take_bit_eq_mod)

lemma nat_and_masks [bitarith]:
  fixes x :: nat
  shows "x AND 0x01 = x mod 2" "x AND 0x03 = x mod 4" "x AND 0x07 = x mod 8"
    "x AND 0x0f = x mod 16" "x AND 0x1f = x mod 32" "x AND 0x3f = x mod 64"
    "x AND 0x7f = x mod 128" "x AND 0xff = x mod 256" "x AND 0x3ff = x mod 1024"
  by (simp_all flip: nat_and_mask [of x 1, simplified] nat_and_mask [of x 2, simplified]
      nat_and_mask [of x 3, simplified] nat_and_mask [of x 4, simplified]
      nat_and_mask [of x 5, simplified] nat_and_mask [of x 6, simplified]
      nat_and_mask [of x 7, simplified] nat_and_mask [of x 8, simplified]
      nat_and_mask [of x 10, simplified])

lemma nat_shifts [bitarith]:
  fixes x :: nat
  shows "drop_bit n x = x div 2 ^ n" "push_bit n x = x * 2 ^ n"
  by (simp_all add: drop_bit_eq_div push_bit_eq_mult)

text \<open>An or of two values without a common bit is their sum.\<close>

lemma nat_or_disjoint:
  fixes x y :: nat
  assumes "y < 2 ^ n"
  shows "x * 2 ^ n OR y = x * 2 ^ n + y"
proof -
  have "take_bit n y = y"
    using assms by (simp add: take_bit_nat_eq_self_iff)
  then have "bit y m \<Longrightarrow> m < n" for m
    by (metis bit_take_bit_iff)
  then have "push_bit n x AND y = 0"
    by (fastforce simp: bit_eq_iff bit_simps)
  then have "push_bit n x OR y = push_bit n x + y"
    by (simp add: disjunctive_add_eq_or)
  then show ?thesis
    by (simp add: push_bit_eq_mult)
qed

lemma nat_exp_and: "((x::nat) AND 2 ^ n = 0) \<longleftrightarrow> even (x div 2 ^ n)"
  by (simp add: and_exp_eq_0_iff_not_bit bit_iff_odd)

lemma unat_byte_less [simp]: "unat (b::byte) < 256"
  using unsigned_less [of b] by simp

lemma unat_byte_of_nat: "n < 256 \<Longrightarrow> unat (word_of_nat n :: byte) = n"
  by (simp add: unsigned_of_nat take_bit_nat_eq_self_iff)

lemma unat_byte_div: "unat (b::byte) div 4 < 64" "unat b div 16 < 16" "unat b div 64 < 4"
  using unat_byte_less [of b] by (simp_all add: less_mult_imp_div_less del: unat_byte_less)

text \<open>\<open>static_cast<Byte>\<close> of a promoted value, kept folded in the simplifier.\<close>

definition to_byte :: "nat \<Rightarrow> byte" where
  "to_byte n = word_of_nat n"

lemma unat_to_byte [simp]: "unat (to_byte n) = n mod 256"
  by (simp add: to_byte_def unsigned_of_nat take_bit_eq_mod)

lemma to_byte_eqI: "n mod 256 = unat b \<Longrightarrow> to_byte n = b"
  by (rule word_unat_eq_iff [THEN iffD2]) simp

lemma to_byte_unat [simp]: "to_byte (unat b) = b"
  by (simp add: to_byte_eqI)

text \<open>\<open>static_cast<char16_t>\<close>, \<open>static_cast<UInt16>\<close>, kept folded in the simplifier.\<close>

definition to_u16 :: "nat \<Rightarrow> u16" where
  "to_u16 n = word_of_nat n"

lemma unat_u16 [simp]: "unat (to_u16 n :: u16) = n mod 65536"
  by (simp add: to_u16_def unsigned_of_nat take_bit_eq_mod)

lemma unat_u16_less: "unat (w :: u16) < 65536"
  using unsigned_less [of w] by simp

lemma u16_eqI: "unat (w :: u16) = n \<Longrightarrow> to_u16 n = w"
  using unat_u16_less [of w] by (intro word_unat_eq_iff [THEN iffD2]) simp

lemma to_u16_unat [simp]: "to_u16 (unat w) = w"
  by (rule u16_eqI) simp

lemma unat_byte_le [simp]: "unat (b::byte) \<le> 255"
  using unat_byte_less [of b] by linarith

lemma and_0x80 [bitarith]:
  fixes x :: nat
  assumes "x < 256"
  shows "(x AND 0x80 = 0) \<longleftrightarrow> x < 128"
proof -
  have "x AND 0x80 = 0 \<longleftrightarrow> even (x div 128)" using nat_exp_and [of x 7] by simp
  moreover have "x div 128 = 0 \<or> x div 128 = 1" using assms by auto
  ultimately show ?thesis by (auto simp: div_eq_0_iff)
qed

lemma or_0x80 [bitarith]:
  fixes x :: nat
  assumes "x < 128"
  shows "0x80 OR x = 128 + x"
proof -
  have "(1::nat) * 2 ^ 7 OR x = 1 * 2 ^ 7 + x" using assms by (intro nat_or_disjoint) simp
  moreover have "(1::nat) * 2 ^ 7 = 0x80" by simp
  ultimately show ?thesis by metis
qed

lemma not_overflow:
  fixes v :: nat
  shows "v \<le> drop_bit n (2 ^ 64 - 1) \<longleftrightarrow> v * 2 ^ n < 2 ^ 64"
proof -
  have "v \<le> (2 ^ 64 - 1) div 2 ^ n \<longleftrightarrow> v * 2 ^ n \<le> 2 ^ 64 - 1"
    by (rule less_eq_div_iff_mult_less_eq) simp
  then show ?thesis by (simp add: drop_bit_eq_div) linarith
qed

lemma shift_or:
  fixes v w :: nat
  assumes "v * 2 ^ n < 2 ^ 64" "w < 2 ^ n"
  shows "push_bit n v mod 2 ^ 64 OR w = v * 2 ^ n + w"
  using nat_or_disjoint [OF assms(2)] assms(1) by (simp add: push_bit_eq_mult)

lemma map_unat_mod: "map (\<lambda>d. d mod 256) (map unat (ds::bytes)) = map unat ds"
  by simp

lemma map_to_byte_unat: "map to_byte (map unat ds) = ds"
  by (simp add: comp_def)

lemma map_unat_to_byte: "(\<And>d. d \<in> set ds \<Longrightarrow> d < 256) \<Longrightarrow> map unat (map to_byte ds) = ds"
  by (induction ds) auto

end
