(* ===== verification/Codec_Spec.thy ===== *)
theory Codec_Spec
  imports NGIN_Prelude
begin

text \<open>
  The contracts of the encoders and decoders, as locales.

  \<open>codec\<close> is an encoder that always succeeds and a decoder that inverts it. \<open>strict_codec\<close> adds
  that the decoder accepts nothing but encodings, up to a canonical form of the text (the case of a
  hexadecimal digit, an omitted padding). \<open>stream_codec\<close> is the contract of a reader that consumes
  one self-delimiting item from the front of its input; its lemmas are prefix-freeness and unique
  decodability of a concatenation.
\<close>

section \<open>Whole-text codecs\<close>

locale codec =
  fixes enc :: "'a \<Rightarrow> ('e + 'b) option"
    and dec :: "'b \<Rightarrow> ('e + 'a) option"
  assumes enc_total: "\<exists>t. enc x = Some (Inr t)"
    and dec_enc: "enc x = Some (Inr t) \<Longrightarrow> dec t = Some (Inr x)"
begin

lemma enc_inj:
  assumes "enc x = enc y"
  shows "x = y"
proof -
  obtain t where t: "enc x = Some (Inr t)" using enc_total by blast
  from t have "dec t = Some (Inr x)" by (rule dec_enc)
  moreover from t assms have "dec t = Some (Inr y)" by (intro dec_enc) simp
  ultimately show ?thesis by simp
qed

lemma enc_never_fails: "enc x \<noteq> None" "enc x \<noteq> Some (Inl e)"
  using enc_total [of x] by auto

end

locale strict_codec = codec enc dec
  for enc :: "'a \<Rightarrow> ('e + 'b) option" and dec :: "'b \<Rightarrow> ('e + 'a) option" +
  fixes canon :: "'b \<Rightarrow> 'b"
  assumes enc_dec: "dec t = Some (Inr x) \<Longrightarrow> enc x = Some (Inr (canon t))"
    and dec_safe: "dec t \<noteq> None"
begin

lemma dec_same: "dec t = Some (Inr x) \<Longrightarrow> dec u = Some (Inr x) \<Longrightarrow> canon t = canon u"
  using enc_dec [of t x] enc_dec [of u x] by simp

lemma canon_decodes: "dec t = Some (Inr x) \<Longrightarrow> dec (canon t) = Some (Inr x)"
  using enc_dec dec_enc by blast

lemma canon_idem: "dec t = Some (Inr x) \<Longrightarrow> canon (canon t) = canon t"
  using canon_decodes dec_same by blast

lemma dec_cases: "(\<exists>x. dec t = Some (Inr x) \<and> enc x = Some (Inr (canon t))) \<or> (\<exists>e. dec t = Some (Inl e))"
  using dec_safe [of t] enc_dec [of t] by (metis option.exhaust sum.exhaust)

end

section \<open>Self-delimiting items\<close>

locale stream_codec =
  fixes put :: "'a \<Rightarrow> 'b list"
    and get :: "'b list \<Rightarrow> ('a \<times> nat) option"
    and ok :: "'a \<Rightarrow> bool"
  assumes get_put: "ok x \<Longrightarrow> get (put x @ rest) = Some (x, length (put x))"
    and put_nonempty: "ok x \<Longrightarrow> put x \<noteq> []"
begin

lemma prefix_free:
  assumes "ok x" "ok y" "put x @ r = put y @ s"
  shows "x = y \<and> r = s"
proof -
  have "Some (x, length (put x)) = Some (y, length (put y))"
    using assms get_put by metis
  then show ?thesis using assms(3) by simp
qed

lemma concat_inj:
  assumes "list_all ok xs" "list_all ok ys" "concat (map put xs) = concat (map put ys)"
  shows "xs = ys"
  using assms
proof (induction xs arbitrary: ys)
  case Nil
  then show ?case by (cases ys) (auto dest: put_nonempty)
next
  case (Cons x xs)
  then obtain y zs where ys: "ys = y # zs"
    by (cases ys) (auto dest: put_nonempty)
  with Cons.prems have "x = y \<and> concat (map put xs) = concat (map put zs)"
    by (intro prefix_free) simp_all
  with Cons ys show ?case by simp
qed

end

end
