(* ===== verification/Crypto_Hex.thy ===== *)
theory Crypto_Hex
  imports Codec_Spec
begin

text \<open>
  Hexadecimal text (\<open>src/NGIN/Crypto/Encoding/Hex.cpp\<close> and \<open>Hex.hpp\<close>) and the error codes shared
  by the crypto encodings.

  The \<open>\<dots>Into\<close> functions return a status and write into a span of the caller. Their models take the
  span's contents and return the status with the contents after the call, \<^const>\<open>None\<close> where an
  access would leave a span.
\<close>

section \<open>Error codes\<close>

datatype CryptoErrorCode =
    NoError | InvalidArgument | OutputBufferTooSmall | InvalidKey | InvalidNonce | InvalidTag
  | AuthenticationFailed | UnsupportedAlgorithm | UnsupportedBackend | BackendUnavailable
  | EntropyUnavailable | EncodingError | ParseError | PolicyRejected | InternalError

type_synonym 'a crypto = "(CryptoErrorCode + 'a) option"
type_synonym 'a crypto_into = "((CryptoErrorCode + unit) \<times> 'a list) option"

section \<open>Digits and lengths\<close>

definition HexEncodedLength :: "nat \<Rightarrow> nat" where
  "HexEncodedLength byteCount = byteCount * 2"

definition HexDecodedLength :: "string \<Rightarrow> nat" where
  "HexDecodedLength text = (if length text mod 2 = 0 then length text div 2 else 0)"

definition HexDigit :: "nat \<Rightarrow> char" where
  "HexDigit value = (if value < 10 then chr (ord (CHR ''0'') + value)
     else chr (ord (CHR ''a'') + (value - 10)))"

definition DecodeHexDigit :: "char \<Rightarrow> int" where
  "DecodeHexDigit value =
     (if CHR ''0'' \<le> value \<and> value \<le> CHR ''9'' then int (ord value) - int (ord (CHR ''0''))
      else if CHR ''a'' \<le> value \<and> value \<le> CHR ''f''
        then 10 + int (ord value) - int (ord (CHR ''a''))
      else if CHR ''A'' \<le> value \<and> value \<le> CHR ''F''
        then 10 + int (ord value) - int (ord (CHR ''A''))
      else -1)"

section \<open>Encoding\<close>

function EncodeHexInto_loop :: "bytes \<Rightarrow> string \<Rightarrow> nat \<Rightarrow> string option" where
  "EncodeHexInto_loop input output i =
     (if i < length input then do {
        value \<leftarrow> span_at input i;
        output \<leftarrow> span_put output (i * 2) (HexDigit (drop_bit 4 (unat value)));
        output \<leftarrow> span_put output (i * 2 + 1) (HexDigit (unat value AND 0x0f));
        EncodeHexInto_loop input output (i + 1)
      } else Some output)"
  by pat_completeness auto
termination
  by (relation "measure (\<lambda>(input, output, i). length input - i)") auto

declare EncodeHexInto_loop.simps [simp del]

definition EncodeHexInto :: "bytes \<Rightarrow> string \<Rightarrow> char crypto_into" where
  "EncodeHexInto input output =
     (if length output \<noteq> HexEncodedLength (length input) then Some (Inl OutputBufferTooSmall, output)
      else do { output \<leftarrow> EncodeHexInto_loop input output 0; Some (Inr (), output) })"

definition EncodeHex :: "bytes \<Rightarrow> string crypto" where
  "EncodeHex input = do {
     (result, output) \<leftarrow> EncodeHexInto input (replicate (HexEncodedLength (length input)) (CHR 0x00));
     (case result of Inl e \<Rightarrow> Some (Inl e) | Inr _ \<Rightarrow> Some (Inr output)) }"

section \<open>Decoding\<close>

function DecodeHexInto_loop :: "string \<Rightarrow> bytes \<Rightarrow> nat \<Rightarrow> byte crypto_into" where
  "DecodeHexInto_loop text output i =
     (if i < length output then do {
        high_char \<leftarrow> span_at text (i * 2);
        low_char \<leftarrow> span_at text (i * 2 + 1);
        let high = DecodeHexDigit high_char; low = DecodeHexDigit low_char in
        if high < 0 \<or> low < 0 then Some (Inl EncodingError, output)
        else do {
          output \<leftarrow> span_put output i (word_of_int (push_bit 4 high OR low));
          DecodeHexInto_loop text output (i + 1)
        }
      } else Some (Inr (), output))"
  by pat_completeness auto
termination
  by (relation "measure (\<lambda>(text, output, i). length output - i)") (auto dest: span_put_length)

declare DecodeHexInto_loop.simps [simp del]

definition DecodeHexInto :: "string \<Rightarrow> bytes \<Rightarrow> byte crypto_into" where
  "DecodeHexInto text output =
     (if length text mod 2 \<noteq> 0 then Some (Inl EncodingError, output)
      else if length output \<noteq> HexDecodedLength text then Some (Inl OutputBufferTooSmall, output)
      else DecodeHexInto_loop text output 0)"

definition DecodeHex :: "string \<Rightarrow> bytes crypto" where
  "DecodeHex text =
     (if length text mod 2 \<noteq> 0 then Some (Inl EncodingError)
      else do {
        (result, output) \<leftarrow> DecodeHexInto text (replicate (HexDecodedLength text) 0);
        (case result of Inl e \<Rightarrow> Some (Inl e) | Inr _ \<Rightarrow> Some (Inr output)) })"

section \<open>Reference definitions\<close>

text \<open>What the loops compute, without spans: a byte is two digits, and two digits are a byte.\<close>

definition hex_pair :: "byte \<Rightarrow> string" where
  "hex_pair b = [HexDigit (unat b div 16), HexDigit (unat b mod 16)]"

definition is_hex :: "char \<Rightarrow> bool" where
  "is_hex c \<longleftrightarrow> 0 \<le> DecodeHexDigit c"

fun unhex :: "string \<Rightarrow> bytes option" where
  "unhex [] = Some []"
| "unhex [c] = None"
| "unhex (h # l # t) =
     (if is_hex h \<and> is_hex l
      then map_option (Cons (word_of_int (push_bit 4 (DecodeHexDigit h) OR DecodeHexDigit l))) (unhex t)
      else None)"

definition hex_lower :: "char \<Rightarrow> char" where
  "hex_lower c = (if CHR ''A'' \<le> c \<and> c \<le> CHR ''F'' then chr (ord c + 32) else c)"

section \<open>Digits\<close>

lemma ord_HexDigit: "n < 16 \<Longrightarrow> ord (HexDigit n) = (if n < 10 then 48 + n else 87 + n)"
  by (simp add: HexDigit_def)

lemma DecodeHexDigit_ord:
  "DecodeHexDigit c =
     (if 48 \<le> ord c \<and> ord c \<le> 57 then int (ord c) - 48
      else if 97 \<le> ord c \<and> ord c \<le> 102 then int (ord c) - 87
      else if 65 \<le> ord c \<and> ord c \<le> 70 then int (ord c) - 55 else -1)"
  by (simp add: DecodeHexDigit_def char_arith)

lemma DecodeHexDigit_HexDigit: "n < 16 \<Longrightarrow> DecodeHexDigit (HexDigit n) = int n"
  by (simp add: DecodeHexDigit_ord ord_HexDigit)

lemma is_hex_HexDigit: "n < 16 \<Longrightarrow> is_hex (HexDigit n)"
  by (simp add: is_hex_def DecodeHexDigit_HexDigit)

lemma DecodeHexDigit_less: "DecodeHexDigit c < 16"
  by (simp add: DecodeHexDigit_ord)

lemma HexDigit_DecodeHexDigit: "is_hex c \<Longrightarrow> HexDigit (nat (DecodeHexDigit c)) = hex_lower c"
  by (rule char_eqI)
    (auto simp: ord_HexDigit is_hex_def DecodeHexDigit_ord hex_lower_def char_arith
      simp del: of_char_eq_iff split: if_splits)

lemma int_nibbles:
  assumes "0 \<le> h" "0 \<le> l" "l < 16"
  shows "push_bit 4 h OR l = h * 16 + (l::int)"
proof -
  define m n where "m = nat h" and "n = nat l"
  have hl: "h = int m" "l = int n" and n: "n < 2 ^ 4"
    using assms by (simp_all add: m_def n_def)
  have "push_bit 4 h OR l = int (m * 2 ^ 4 OR n)"
    by (simp add: hl of_nat_or_eq push_bit_eq_mult)
  also have "\<dots> = int (m * 2 ^ 4 + n)"
    using n by (simp only: nat_or_disjoint)
  finally show ?thesis by (simp add: hl)
qed

section \<open>The loops compute the reference definitions\<close>

lemma EncodeHexInto_loop_spec:
  assumes "length output = 2 * length input" "i \<le> length input"
  shows "EncodeHexInto_loop input output i =
    Some (take (2 * i) output @ concat (map hex_pair (drop i input)))"
  using assms
proof (induction input "output" i rule: EncodeHexInto_loop.induct)
  case (1 input out i)
  show ?case
  proof (cases "i < length input")
    case True
    let ?out = "out[i * 2 := HexDigit (drop_bit 4 (unat (input ! i))),
                  i * 2 + 1 := HexDigit (unat (input ! i) AND 0x0f)]"
    have "EncodeHexInto_loop input out i = EncodeHexInto_loop input ?out (i + 1)"
      using True "1.prems" by (simp add: EncodeHexInto_loop.simps [of input out i] span_simps)
    also have "\<dots> = Some (take (2 * (i + 1)) ?out @ concat (map hex_pair (drop (i + 1) input)))"
      using True "1.prems" by (intro "1.IH") (simp add: span_at_def span_put_def)+
    also have "take (2 * (i + 1)) ?out = take (2 * i) out @ hex_pair (input ! i)"
      using True "1.prems" by (simp add: hex_pair_def bitarith take_Suc_conv_app_nth mult.commute)
    finally show ?thesis
      using True by (simp add: Cons_nth_drop_Suc [symmetric])
  next
    case False
    with "1.prems" show ?thesis by (simp add: EncodeHexInto_loop.simps)
  qed
qed

lemma EncodeHexInto_eq:
  "EncodeHexInto input out =
     Some (if length out = 2 * length input then (Inr (), concat (map hex_pair input))
           else (Inl OutputBufferTooSmall, out))"
  by (simp add: EncodeHexInto_def HexEncodedLength_def EncodeHexInto_loop_spec mult.commute)

lemma EncodeHex_eq: "EncodeHex input = Some (Inr (concat (map hex_pair input)))"
  by (simp add: EncodeHex_def EncodeHexInto_eq HexEncodedLength_def mult.commute)

lemma length_unhex: "unhex t = Some bs \<Longrightarrow> length t = 2 * length bs"
  by (induction t arbitrary: bs rule: unhex.induct) (auto split: if_splits)

lemma DecodeHexInto_loop_spec:
  assumes "length text = 2 * length out" "i \<le> length out"
  shows "case unhex (drop (2 * i) text) of
      Some bs \<Rightarrow> DecodeHexInto_loop text out i = Some (Inr (), take i out @ bs)
    | None \<Rightarrow> (\<exists>out'. DecodeHexInto_loop text out i = Some (Inl EncodingError, out')
        \<and> length out' = length out \<and> take i out' = take i out)"
  using assms
proof (induction "text" out i rule: DecodeHexInto_loop.induct)
  case (1 t out i)
  show ?case
  proof (cases "i < length out")
    case True
    with "1.prems" have i: "2 * i < length t" "Suc (2 * i) < length t" by simp_all
    define h l where "h = t ! (i * 2)" and "l = t ! (i * 2 + 1)"
    have d: "drop (2 * i) t = h # l # drop (2 * (i + 1)) t"
      using i by (simp add: h_def l_def Cons_nth_drop_Suc mult.commute)
    define v :: byte where "v = word_of_int (push_bit 4 (DecodeHexDigit h) OR DecodeHexDigit l)"
    have step: "DecodeHexInto_loop t out i =
      (if is_hex h \<and> is_hex l then DecodeHexInto_loop t (out[i := v]) (i + 1)
       else Some (Inl EncodingError, out))"
      using True i by (auto simp: DecodeHexInto_loop.simps [of t out i] span_at_def span_put_def
          h_def l_def v_def is_hex_def Let_def mult.commute)
    show ?thesis
    proof (cases "is_hex h \<and> is_hex l")
      case hex: True
      have IH: "case unhex (drop (2 * (i + 1)) t) of
          Some bs \<Rightarrow> DecodeHexInto_loop t (out[i := v]) (i + 1) =
            Some (Inr (), take (i + 1) (out[i := v]) @ bs)
        | None \<Rightarrow> (\<exists>out'. DecodeHexInto_loop t (out[i := v]) (i + 1) =
            Some (Inl EncodingError, out') \<and> length out' = length (out[i := v]) \<and>
            take (i + 1) out' = take (i + 1) (out[i := v]))"
        using True i hex "1.prems" by (intro "1.IH" [of h l])
          (simp add: span_at_def span_put_def h_def l_def v_def is_hex_def mult.commute)+
      have t: "take i xs = take i ys" if "take (i + 1) xs = take (i + 1) (ys[i := v])" for xs ys
        using arg_cong [OF that, of "take i"] by simp
      show ?thesis
        using IH True hex unfolding d step
        by (auto simp: v_def take_Suc_conv_app_nth split: option.splits dest: t)
    next
      case False
      then show ?thesis unfolding d step by auto
    qed
  next
    case False
    with "1.prems" show ?thesis by (simp add: DecodeHexInto_loop.simps)
  qed
qed

lemma unhex_odd: "odd (length t) \<Longrightarrow> unhex t = None"
  by (induction t rule: unhex.induct) auto

lemma DecodeHexInto_safe: "\<exists>r out'. DecodeHexInto t out = Some (r, out') \<and> length out' = length out"
  using DecodeHexInto_loop_spec [of t out 0]
  by (auto simp: DecodeHexInto_def HexDecodedLength_def length_unhex split: option.splits
      dest!: length_unhex)

lemma DecodeHex_eq:
  "DecodeHex t = Some (case unhex t of None \<Rightarrow> Inl EncodingError | Some bs \<Rightarrow> Inr bs)"
proof (cases "even (length t)")
  case True
  then have "length t = 2 * length (replicate (HexDecodedLength t) (0::byte))"
    by (auto simp: HexDecodedLength_def)
  from DecodeHexInto_loop_spec [OF this, of 0] True show ?thesis
    by (auto simp: DecodeHex_def DecodeHexInto_def HexDecodedLength_def split: option.splits)
next
  case False
  then show ?thesis
    by (simp add: DecodeHex_def unhex_odd odd_iff_mod_2_eq_one)
qed

section \<open>Encoding and decoding are inverse\<close>

lemma byte_of_nibbles:
  assumes "0 \<le> h" "0 \<le> l" "l < 16"
  shows "(word_of_int (push_bit 4 h OR l) :: byte) = word_of_nat (nat h * 16 + nat l)"
proof -
  have "push_bit 4 h OR l = int (nat h * 16 + nat l)"
    using assms by (simp add: int_nibbles)
  then show ?thesis by (simp only: of_int_of_nat_eq)
qed

lemma unhex_encode: "unhex (concat (map hex_pair bs)) = Some bs"
proof (induction bs)
  case (Cons b bs)
  have "unat b div 16 < 16"
    using unat_byte_less [of b] by (simp add: less_mult_imp_div_less del: unat_byte_less)
  with Cons show ?case
    by (simp add: hex_pair_def is_hex_HexDigit DecodeHexDigit_HexDigit byte_of_nibbles
        del: of_nat_mod of_nat_div of_nat_add of_nat_mult)
qed simp

lemma encode_unhex: "unhex t = Some bs \<Longrightarrow> concat (map hex_pair bs) = map hex_lower t"
proof (induction t arbitrary: bs rule: unhex.induct)
  case (3 h l t)
  then obtain bs' where bs': "unhex t = Some bs'" and hl: "is_hex h" "is_hex l"
    and bs: "bs = word_of_int (push_bit 4 (DecodeHexDigit h) OR DecodeHexDigit l) # bs'"
    by (auto split: if_splits)
  have lt: "nat (DecodeHexDigit c) < 16" for c
    using DecodeHexDigit_less [of c] by linarith
  have "nat (DecodeHexDigit h) * 16 + nat (DecodeHexDigit l) < 256"
    using lt [of h] lt [of l] by linarith
  then show ?case
    using "3.IH" bs' bs hl lt by (simp add: hex_pair_def byte_of_nibbles HexDigit_DecodeHexDigit
        is_hex_def DecodeHexDigit_less unat_byte_of_nat del: of_nat_add of_nat_mult)
qed auto

lemma is_hex_lower: "is_hex (hex_lower c) \<Longrightarrow> is_hex c"
  by (auto simp: is_hex_def DecodeHexDigit_ord hex_lower_def char_arith split: if_splits)

lemma hex_lower_idem: "hex_lower (hex_lower c) = hex_lower c"
  by (auto simp: hex_lower_def char_arith)

lemma DecodeHexDigit_lower: "DecodeHexDigit (hex_lower c) = DecodeHexDigit c"
  by (auto simp: DecodeHexDigit_ord hex_lower_def char_arith)

lemma unhex_lower: "unhex (map hex_lower t) = unhex t"
  by (induction t rule: unhex.induct) (auto simp: is_hex_def DecodeHexDigit_lower)

interpretation hex: strict_codec EncodeHex DecodeHex "map hex_lower"
  by unfold_locales
    (auto simp: EncodeHex_eq DecodeHex_eq unhex_encode encode_unhex split: option.splits)

section \<open>Properties\<close>

text \<open>
  C12: hexadecimal decoding is exactly the inverse of encoding, up to the case of the digits:
  \<open>DecodeHex\<close> returns the bytes \<open>bs\<close> if and only if the text, with its digits in lower case, is what
  \<open>EncodeHex\<close> makes of \<open>bs\<close>; any other text is an \<open>EncodingError\<close>; and no access leaves a span.
\<close>

theorem DecodeHex_exact:
  "(DecodeHex t = Some (Inr bs) \<longleftrightarrow> EncodeHex bs = Some (Inr (map hex_lower t))) \<and>
   (DecodeHex t = Some (Inl EncodingError) \<or> (\<exists>bs. DecodeHex t = Some (Inr bs)))"
proof -
  have "DecodeHex (map hex_lower t) = DecodeHex t"
    by (simp add: DecodeHex_eq unhex_lower)
  then have "DecodeHex t = Some (Inr bs) \<longleftrightarrow> EncodeHex bs = Some (Inr (map hex_lower t))"
    using hex.enc_dec hex.dec_enc by metis
  then show ?thesis
    by (simp add: DecodeHex_eq split: option.splits)
qed

end
