(* ===== verification/Crypto_Base64.thy ===== *)
theory Crypto_Base64
  imports Crypto_Hex
begin

text \<open>
  Standard Base64 (\<open>src/NGIN/Crypto/Encoding/Base64.cpp\<close>): \<open>EncodeBase64\<close>, \<open>DecodeBase64\<close> and their
  \<open>\<dots>Into\<close> variants, with or without padding. \<open>DecodedLength\<close> validates the whole text before the
  decoder writes. The main results: the decoder accepts exactly the padded and the unpadded encoding
  of a byte string, and every read and write stays inside its span.
\<close>

section \<open>Alphabet\<close>

datatype Base64Padding = Required | Omit

definition BASE64_ALPHABET :: string where
  "BASE64_ALPHABET = ''ABCDEFGHIJKLMNOPQRSTUVWXYZabcdefghijklmnopqrstuvwxyz0123456789+/''"

definition DecodeValue :: "char \<Rightarrow> int" where
  "DecodeValue value =
     (if CHR ''A'' \<le> value \<and> value \<le> CHR ''Z'' then int (ord value) - int (ord (CHR ''A''))
      else if CHR ''a'' \<le> value \<and> value \<le> CHR ''z''
        then 26 + int (ord value) - int (ord (CHR ''a''))
      else if CHR ''0'' \<le> value \<and> value \<le> CHR ''9''
        then 52 + int (ord value) - int (ord (CHR ''0''))
      else if value = CHR ''+'' then 62
      else if value = CHR ''/'' then 63
      else -1)"

section \<open>Validation and lengths\<close>

definition Base64_padding :: "string \<Rightarrow> nat option" where
  "Base64_padding text =
     (if text \<noteq> [] \<and> last text = CHR ''=''
      then if 2 \<le> length text
        then do { c \<leftarrow> span_at text (length text - 2); Some (if c = CHR ''='' then 2 else 1) }
        else Some 1
      else Some 0)"

function DecodedLength_scan :: "string \<Rightarrow> nat \<Rightarrow> nat \<Rightarrow> unit crypto" where
  "DecodedLength_scan text padding i =
     (if i < length text then do {
        c \<leftarrow> span_at text i;
        if c = CHR ''='' then
          if i < length text - padding then Some (Inl EncodingError)
          else DecodedLength_scan text padding (i + 1)
        else if DecodeValue c < 0 then Some (Inl EncodingError)
        else DecodedLength_scan text padding (i + 1)
      } else Some (Inr ()))"
  by pat_completeness auto
termination
  by (relation "measure (\<lambda>(text, padding, i). length text - i)") auto

declare DecodedLength_scan.simps [simp del]

definition DecodedLength :: "string \<Rightarrow> nat crypto" where
  "DecodedLength text =
     (if text = [] then Some (Inr 0)
      else if length text mod 4 = 1 then Some (Inl EncodingError)
      else do {
        padding \<leftarrow> Base64_padding text;
        scan \<leftarrow> DecodedLength_scan text padding 0;
        (case scan of Inl e \<Rightarrow> Some (Inl e) | Inr _ \<Rightarrow>
          let fullGroups = length text div 4;
              remainder = length text mod 4;
              decoded = fullGroups * 3 + (if remainder = 2 then 1 else if remainder = 3 then 2 else 0)
          in if 0 < padding then
               if remainder \<noteq> 0 \<or> 2 < padding \<or> length text < 4 then Some (Inl EncodingError)
               else do {
                 c3 \<leftarrow> span_at text (length text - 3);
                 c2 \<leftarrow> span_at text (length text - 2);
                 if padding = 2 \<and> DecodeValue c3 AND 0x0f \<noteq> 0 then Some (Inl EncodingError)
                 else if padding = 1 \<and> DecodeValue c2 AND 0x03 \<noteq> 0 then Some (Inl EncodingError)
                 else Some (Inr (decoded - padding))
               }
             else do {
               c1 \<leftarrow> span_at text (length text - 1);
               if remainder = 2 \<and> DecodeValue c1 AND 0x0f \<noteq> 0 then Some (Inl EncodingError)
               else if remainder = 3 \<and> DecodeValue c1 AND 0x03 \<noteq> 0 then Some (Inl EncodingError)
               else Some (Inr decoded)
             })
      })"

definition Base64EncodedLength :: "nat \<Rightarrow> Base64Padding \<Rightarrow> nat" where
  "Base64EncodedLength byteCount padding =
     (let fullGroups = byteCount div 3;
          remainder = byteCount mod 3;
          len = fullGroups * 4
      in if remainder = 0 then len
         else if padding = Required then len + 4 else len + remainder + 1)"

section \<open>Encoding\<close>

definition sextet :: "nat \<Rightarrow> char option" where
  "sextet i = span_at BASE64_ALPHABET i"

text \<open>The index expressions of the four characters of a group, and of the last partial group.\<close>

definition Index0 :: "byte \<Rightarrow> nat" where
  "Index0 b0 = drop_bit 2 (unat b0) AND 0x3f"

definition Index1 :: "byte \<Rightarrow> byte \<Rightarrow> nat" where
  "Index1 b0 b1 = push_bit 4 (unat b0 AND 0x03) OR drop_bit 4 (unat b1)"

definition Index2 :: "byte \<Rightarrow> byte \<Rightarrow> nat" where
  "Index2 b1 b2 = push_bit 2 (unat b1 AND 0x0f) OR drop_bit 6 (unat b2)"

definition Index3 :: "byte \<Rightarrow> nat" where
  "Index3 b2 = unat b2 AND 0x3f"

definition Index1_last :: "byte \<Rightarrow> nat" where
  "Index1_last b0 = push_bit 4 (unat b0 AND 0x03)"

definition Index2_last :: "byte \<Rightarrow> nat" where
  "Index2_last b1 = push_bit 2 (unat b1 AND 0x0f)"

function EncodeBase64Into_groups :: "bytes \<Rightarrow> string \<times> nat \<Rightarrow> nat \<Rightarrow> ((string \<times> nat) \<times> nat) option" where
  "EncodeBase64Into_groups input out inputIndex =
     (if 3 \<le> length input - inputIndex then do {
        b0 \<leftarrow> span_at input inputIndex;
        b1 \<leftarrow> span_at input (inputIndex + 1);
        b2 \<leftarrow> span_at input (inputIndex + 2);
        c0 \<leftarrow> sextet (Index0 b0);
        c1 \<leftarrow> sextet (Index1 b0 b1);
        c2 \<leftarrow> sextet (Index2 b1 b2);
        c3 \<leftarrow> sextet (Index3 b2);
        out \<leftarrow> emit out [c0, c1, c2, c3];
        EncodeBase64Into_groups input out (inputIndex + 3)
      } else Some (out, inputIndex))"
  by pat_completeness auto
termination
  by (relation "measure (\<lambda>(input, out, inputIndex). length input - inputIndex)") auto

declare EncodeBase64Into_groups.simps [simp del]

definition EncodeBase64Into :: "bytes \<Rightarrow> string \<Rightarrow> Base64Padding \<Rightarrow> char crypto_into" where
  "EncodeBase64Into input output padding =
     (if length output \<noteq> Base64EncodedLength (length input) padding
      then Some (Inl OutputBufferTooSmall, output)
      else do {
        (out, inputIndex) \<leftarrow> EncodeBase64Into_groups input (output, 0) 0;
        let remaining = length input - inputIndex;
        out \<leftarrow>
          (if remaining = 1 then do {
             b0 \<leftarrow> span_at input inputIndex;
             c0 \<leftarrow> sextet (Index0 b0);
             c1 \<leftarrow> sextet (Index1_last b0);
             emit out ([c0, c1] @ (if padding = Required then ''=='' else []))
           }
           else if remaining = 2 then do {
             b0 \<leftarrow> span_at input inputIndex;
             b1 \<leftarrow> span_at input (inputIndex + 1);
             c0 \<leftarrow> sextet (Index0 b0);
             c1 \<leftarrow> sextet (Index1 b0 b1);
             c2 \<leftarrow> sextet (Index2_last b1);
             emit out ([c0, c1, c2] @ (if padding = Required then ''='' else []))
           }
           else Some out);
        Some (Inr (), fst out)
      })"

definition EncodeBase64 :: "bytes \<Rightarrow> Base64Padding \<Rightarrow> string crypto" where
  "EncodeBase64 input padding = do {
     (result, output) \<leftarrow> EncodeBase64Into input
       (replicate (Base64EncodedLength (length input) padding) (CHR 0x00)) padding;
     (case result of Inl e \<Rightarrow> Some (Inl e) | Inr _ \<Rightarrow> Some (Inr output)) }"

section \<open>Decoding\<close>

text \<open>The bytes made of the values of a quartet, cast to \<open>Byte\<close>.\<close>

definition Octet0 :: "byte \<Rightarrow> byte \<Rightarrow> byte" where
  "Octet0 q0 q1 = to_byte (push_bit 2 (unat q0) OR drop_bit 4 (unat q1))"

definition Octet1 :: "byte \<Rightarrow> byte \<Rightarrow> byte" where
  "Octet1 q1 q2 = to_byte (push_bit 4 (unat q1) OR drop_bit 2 (unat q2))"

definition Octet2 :: "byte \<Rightarrow> byte \<Rightarrow> byte" where
  "Octet2 q2 q3 = to_byte (push_bit 6 (unat q2) OR unat q3)"

text \<open>
  The state of the decoding loop: the output and its index, the array \<open>quartet\<close> and \<open>quartetSize\<close>.
  The loop ends at the first padding character; its result is the state, or the error with the
  output written so far.
\<close>

fun DecodeBase64Into_loop ::
  "string \<Rightarrow> bytes \<times> nat \<Rightarrow> bytes \<Rightarrow> nat \<Rightarrow>
     ((CryptoErrorCode \<times> bytes) + (bytes \<times> nat) \<times> bytes \<times> nat) option" where
  "DecodeBase64Into_loop [] out quartet quartetSize = Some (Inr (out, quartet, quartetSize))"
| "DecodeBase64Into_loop (character # rest) out quartet quartetSize =
     (if character = CHR ''='' then Some (Inr (out, quartet, quartetSize))
      else let value = DecodeValue character in
      if value < 0 then Some (Inl (EncodingError, fst out))
      else do {
        quartet \<leftarrow> span_put quartet quartetSize (to_byte (nat value));
        if quartetSize + 1 = 4 then do {
          q0 \<leftarrow> span_at quartet 0;
          q1 \<leftarrow> span_at quartet 1;
          q2 \<leftarrow> span_at quartet 2;
          q3 \<leftarrow> span_at quartet 3;
          out \<leftarrow> emit out [Octet0 q0 q1, Octet1 q1 q2, Octet2 q2 q3];
          DecodeBase64Into_loop rest out quartet 0
        }
        else DecodeBase64Into_loop rest out quartet (quartetSize + 1)
      })"

definition DecodeBase64Into :: "string \<Rightarrow> bytes \<Rightarrow> byte crypto_into" where
  "DecodeBase64Into text output = do {
     decodedLength \<leftarrow> DecodedLength text;
     (case decodedLength of Inl e \<Rightarrow> Some (Inl e, output) | Inr n \<Rightarrow>
       if length output \<noteq> n then Some (Inl OutputBufferTooSmall, output)
       else do {
         r \<leftarrow> DecodeBase64Into_loop text (output, 0) [0, 0, 0, 0] 0;
         (case r of Inl (e, output) \<Rightarrow> Some (Inl e, output) | Inr (out, quartet, quartetSize) \<Rightarrow> do {
           q0 \<leftarrow> span_at quartet 0;
           q1 \<leftarrow> span_at quartet 1;
           q2 \<leftarrow> span_at quartet 2;
           if quartetSize = 2 then do {
             out \<leftarrow> emit out [Octet0 q0 q1];
             Some (Inr (), fst out)
           }
           else if quartetSize = 3 then do {
             out \<leftarrow> emit out [Octet0 q0 q1, Octet1 q1 q2];
             Some (Inr (), fst out)
           }
           else if quartetSize = 1 then Some (Inl EncodingError, fst out)
           else Some (Inr (), fst out)
         })
       }) }"

definition DecodeBase64 :: "string \<Rightarrow> bytes crypto" where
  "DecodeBase64 text = do {
     decodedLength \<leftarrow> DecodedLength text;
     (case decodedLength of Inl e \<Rightarrow> Some (Inl e) | Inr n \<Rightarrow> do {
       (result, output) \<leftarrow> DecodeBase64Into text (replicate n 0);
       (case result of Inl e \<Rightarrow> Some (Inl e) | Inr _ \<Rightarrow> Some (Inr output)) }) }"

section \<open>Reference definitions\<close>

text \<open>Three bytes are four 6-bit values; one or two bytes left over are two or three.\<close>

fun sextets :: "bytes \<Rightarrow> nat list" where
  "sextets [] = []"
| "sextets [b0] = [unat b0 div 4, unat b0 mod 4 * 16]"
| "sextets [b0, b1] =
     [unat b0 div 4, unat b0 mod 4 * 16 + unat b1 div 16, unat b1 mod 16 * 4]"
| "sextets (b0 # b1 # b2 # bs) =
     [unat b0 div 4, unat b0 mod 4 * 16 + unat b1 div 16, unat b1 mod 16 * 4 + unat b2 div 64,
      unat b2 mod 64] @ sextets bs"

fun unsextets :: "nat list \<Rightarrow> bytes option" where
  "unsextets [] = Some []"
| "unsextets [v0] = None"
| "unsextets [v0, v1] = (if v1 mod 16 = 0 then Some [to_byte (v0 * 4 + v1 div 16)] else None)"
| "unsextets [v0, v1, v2] = (if v2 mod 4 = 0
     then Some [to_byte (v0 * 4 + v1 div 16), to_byte (v1 * 16 + v2 div 4)] else None)"
| "unsextets (v0 # v1 # v2 # v3 # vs) = map_option
     (\<lambda>bs. to_byte (v0 * 4 + v1 div 16) # to_byte (v1 * 16 + v2 div 4)
        # to_byte (v2 * 64 + v3) # bs) (unsextets vs)"

definition b64_char :: "nat \<Rightarrow> char" where
  "b64_char v = BASE64_ALPHABET ! v"

definition b64_ok :: "char \<Rightarrow> bool" where
  "b64_ok c \<longleftrightarrow> 0 \<le> DecodeValue c"

definition b64_val :: "char \<Rightarrow> nat" where
  "b64_val c = nat (DecodeValue c)"

definition b64_pad :: "nat \<Rightarrow> Base64Padding \<Rightarrow> string" where
  "b64_pad n padding = replicate (if padding = Required then (3 - n mod 3) mod 3 else 0) (CHR ''='')"

definition b64_text :: "bytes \<Rightarrow> Base64Padding \<Rightarrow> string" where
  "b64_text bs padding = map b64_char (sextets bs) @ b64_pad (length bs) padding"

section \<open>The alphabet\<close>

lemma length_BASE64_ALPHABET: "length BASE64_ALPHABET = 64"
  by (simp add: BASE64_ALPHABET_def)

lemma DecodeValue_ord:
  "DecodeValue c =
     (if 65 \<le> ord c \<and> ord c \<le> 90 then int (ord c) - 65
      else if 97 \<le> ord c \<and> ord c \<le> 122 then int (ord c) - 71
      else if 48 \<le> ord c \<and> ord c \<le> 57 then int (ord c) + 4
      else if ord c = 43 then 62
      else if ord c = 47 then 63
      else -1)"
  by (auto simp: DecodeValue_def char_arith char_eq_ord simp del: of_char_eq_iff)

text \<open>The alphabet, by ranges of values.\<close>

lemma BASE64_ALPHABET_upt:
  "map ord BASE64_ALPHABET = [65..<91] @ [97..<123] @ [48..<58] @ [43, 47]"
  by (simp add: BASE64_ALPHABET_def upt_rec)

lemma ord_b64_char:
  assumes "v < 64"
  shows "ord (b64_char v) = (if v < 26 then 65 + v else if v < 52 then 71 + v
      else if v < 62 then v - 4 else if v = 62 then 43 else 47)"
proof -
  have "ord (b64_char v) = map ord BASE64_ALPHABET ! v"
    using assms by (simp add: b64_char_def length_BASE64_ALPHABET)
  then show ?thesis
    using assms by (auto simp: BASE64_ALPHABET_upt nth_append nth_Cons' simp del: upt_rec_numeral)
qed

lemma b64_val_char: "v < 64 \<Longrightarrow> b64_val (b64_char v) = v"
  by (auto simp: b64_val_def DecodeValue_ord ord_b64_char)

lemma b64_ok_char: "v < 64 \<Longrightarrow> b64_ok (b64_char v)"
  by (auto simp: b64_ok_def DecodeValue_ord ord_b64_char)

lemma b64_char_val: "b64_ok c \<Longrightarrow> b64_char (b64_val c) = c"
  by (rule char_eqI)
    (auto simp: b64_ok_def b64_val_def ord_b64_char DecodeValue_ord simp del: of_char_eq_iff
      split: if_splits)

lemma DecodeValue_less: "DecodeValue c < 64"
  by (simp add: DecodeValue_ord)

lemma b64_val_less: "b64_val c < 64"
  using DecodeValue_less [of c] by (simp add: b64_val_def nat_less_iff)

lemma b64_ok_pad: "\<not> b64_ok (CHR ''='')"
  by (simp add: b64_ok_def DecodeValue_ord)

lemma sextet_char: "v < 64 \<Longrightarrow> sextet v = Some (b64_char v)"
  by (simp add: sextet_def span_at_def length_BASE64_ALPHABET b64_char_def)

section \<open>Encoding computes the reference text\<close>

lemma Index_eq:
  "Index0 b0 = unat b0 div 4"
  "Index1 b0 b1 = unat b0 mod 4 * 16 + unat b1 div 16"
  "Index2 b1 b2 = unat b1 mod 16 * 4 + unat b2 div 64"
  "Index3 b2 = unat b2 mod 64"
  "Index1_last b0 = unat b0 mod 4 * 16"
  "Index2_last b1 = unat b1 mod 16 * 4"
proof -
  show "Index1 b0 b1 = unat b0 mod 4 * 16 + unat b1 div 16"
    using nat_or_disjoint [of "unat b1 div 16" 4 "unat b0 mod 4"] unat_byte_div(2) [of b1]
    by (simp add: Index1_def nat_and_masks nat_shifts)
  show "Index2 b1 b2 = unat b1 mod 16 * 4 + unat b2 div 64"
    using nat_or_disjoint [of "unat b2 div 64" 2 "unat b1 mod 16"] unat_byte_div(3) [of b2]
    by (simp add: Index2_def nat_and_masks nat_shifts)
qed (use unat_byte_div(1) [of b0] in \<open>simp_all add: Index0_def Index3_def Index1_last_def
    Index2_last_def nat_and_masks nat_shifts\<close>)

lemma sextets_less: "v \<in> set (sextets bs) \<Longrightarrow> v < 64"
proof (induction bs rule: sextets.induct)
  case (2 b0)
  then show ?case using unat_byte_div(1) [of b0] by auto
next
  case (3 b0 b1)
  then show ?case
    using unat_byte_div(1) [of b0] unat_byte_div(2) [of b1] pos_mod_bound [of 4 "uint b0"]
    by (auto intro: less_le_trans [OF add_strict_mono, of _ 48 _ 16] simp: mod_less_divisor)
next
  case (4 b0 b1 b2 bs)
  have "unat b0 mod 4 \<le> 3" "unat b1 mod 16 \<le> 15"
    using mod_less_divisor [of 4 "unat b0"] mod_less_divisor [of 16 "unat b1"] by linarith+
  with 4 unat_byte_div(1) [of b0] unat_byte_div(2) [of b1] unat_byte_div(3) [of b2]
  show ?case by auto
qed simp

lemma steps_of_3 [simp]:
  "\<not> 3 dvd Suc 0" "\<not> 3 dvd Suc (Suc 0)" "3 dvd Suc (Suc (Suc n)) \<longleftrightarrow> 3 dvd n"
  "Suc (Suc (Suc n)) div 3 = Suc (n div 3)" "Suc (Suc (Suc n)) mod 3 = n mod 3"
  by presburger+

lemma sextets_append: "3 dvd length xs \<Longrightarrow> sextets (xs @ ys) = sextets xs @ sextets ys"
  by (induction xs rule: sextets.induct) auto

lemma length_sextets_full: "3 dvd length xs \<Longrightarrow> length (sextets xs) = length xs div 3 * 4"
  by (induction xs rule: sextets.induct) auto

lemma EncodeBase64Into_groups_spec:
  assumes "drop k input = xs @ ys" "3 dvd length xs" "length ys < 3"
    and "length xs div 3 * 4 \<le> length rest"
  shows "EncodeBase64Into_groups input (done @ rest, length done) k =
    Some (((done @ map b64_char (sextets xs)) @ drop (length xs div 3 * 4) rest,
           length (done @ map b64_char (sextets xs))), k + length xs)"
  using assms
proof (induction xs arbitrary: k "done" rest rule: sextets.induct)
  case 1
  then have "\<not> 3 \<le> length input - k"
    using length_drop [of k input] by simp
  then show ?case by (simp add: EncodeBase64Into_groups.simps)
next
  case (4 b0 b1 b2 bs)
  have d: "drop k input = b0 # b1 # b2 # bs @ ys" using "4.prems" by simp
  have len: "length input - k = 3 + length bs + length ys"
    using arg_cong [OF d, of length] by simp
  have nth: "input ! k = b0" "input ! (k + 1) = b1" "input ! (k + 2) = b2"
    using arg_cong [OF d, of "\<lambda>xs. xs ! 0"] arg_cong [OF d, of "\<lambda>xs. xs ! 1"]
      arg_cong [OF d, of "\<lambda>xs. xs ! 2"] len by (simp_all add: nth_drop)
  let ?cs = "map b64_char [unat b0 div 4, unat b0 mod 4 * 16 + unat b1 div 16,
      unat b1 mod 16 * 4 + unat b2 div 64, unat b2 mod 64]"
  have lt: "\<forall>v \<in> set (sextets [b0, b1, b2]). v < 64" using sextets_less by blast
  have "3 dvd length bs" using "4.prems"(2) by simp
  moreover have "drop (k + 3) input = bs @ ys"
    using arg_cong [OF d, of "drop 3"] by (simp add: add.commute)
  moreover have rest: "length rest \<ge> 4 + length bs div 3 * 4" using "4.prems"(4) by (simp add: div_add_self1)
  ultimately have IH: "EncodeBase64Into_groups input ((done @ ?cs) @ drop 4 rest, length (done @ ?cs)) (k + 3) =
    Some ((((done @ ?cs) @ map b64_char (sextets bs)) @ drop (length bs div 3 * 4) (drop 4 rest),
           length ((done @ ?cs) @ map b64_char (sextets bs))), k + 3 + length bs)"
    using "4.prems"(3) by (intro "4.IH") auto
  have l4: "length ?cs = 4" by simp
  have em: "emit (done @ rest, length done) ?cs = Some ((done @ ?cs) @ drop 4 rest, length (done @ ?cs))"
    using emit_spec [of ?cs rest "done"] rest unfolding l4 by linarith
  have "EncodeBase64Into_groups input (done @ rest, length done) k =
    EncodeBase64Into_groups input ((done @ ?cs) @ drop 4 rest, length (done @ ?cs)) (k + 3)"
    using len nth lt em
    by (simp add: EncodeBase64Into_groups.simps [of input "(done @ rest, length done)" k] span_at_in
        Index_eq sextet_char del: emit.simps)
  then show ?case
    unfolding IH by (simp add: add.commute [of 4] div_add_self1)
qed auto

lemma length_sextets: "length (sextets bs) = length bs div 3 * 4 + (if length bs mod 3 = 0 then 0 else length bs mod 3 + 1)"
  by (induction bs rule: sextets.induct) (auto simp: div_add_self1)

lemma b64_pad_simps:
  "b64_pad (Suc 0) Required = ''==''" "b64_pad 2 Required = ''=''" "b64_pad n Omit = []"
  by (simp_all add: b64_pad_def numeral_2_eq_2)

lemma EncodeBase64Into_eq:
  "EncodeBase64Into input out padding =
     Some (if length out = Base64EncodedLength (length input) padding
           then (Inr (), b64_text input padding) else (Inl OutputBufferTooSmall, out))"
proof (cases "length out = Base64EncodedLength (length input) padding")
  case True
  define m where "m = length input div 3 * 3"
  define xs ys where "xs = take m input" and "ys = drop m input"
  have input: "input = xs @ ys" by (simp add: xs_def ys_def)
  have m: "m \<le> length input" "length input mod 3 = length input - m"
    by (simp_all add: m_def minus_div_mult_eq_mod)
  have xs: "length xs = m" "3 dvd length xs" and ys: "length ys = length input mod 3" "length ys < 3"
    using m by (simp_all add: xs_def ys_def m_def)
  have len: "length xs div 3 * 4 \<le> length out"
    using True m by (auto simp: Base64EncodedLength_def xs m_def Let_def)
  have tx: "b64_text input padding = map b64_char (sextets xs) @ map b64_char (sextets ys) @
      b64_pad (length ys) padding"
    using sextets_append [OF xs(2), of ys] by (simp add: b64_text_def b64_pad_def ys(1) flip: input)
  have groups: "EncodeBase64Into_groups input (out, 0) 0 =
    Some ((map b64_char (sextets xs) @ drop (length xs div 3 * 4) out, length xs div 3 * 4), length xs)"
    using EncodeBase64Into_groups_spec [of 0 input xs ys out "[]"] xs(2) ys(2) len
    by (simp add: length_sextets_full flip: input)
  have rest: "length (drop (length xs div 3 * 4) out) = (if ys = [] then 0
      else if padding = Required then 4 else length ys + 1)"
    using True xs(1) ys(1) by (auto simp: Base64EncodedLength_def m_def Let_def)
  have em: "emit (map b64_char (sextets xs) @ drop (length xs div 3 * 4) out, length xs div 3 * 4) cs =
      Some (map b64_char (sextets xs) @ cs, length xs div 3 * 4 + length cs)"
    if "length cs = length (drop (length xs div 3 * 4) out)" for cs
    using emit_spec [of cs "drop (length xs div 3 * 4) out" "map b64_char (sextets xs)"] that xs
    by (simp add: length_sextets_full)
  have lt: "\<forall>v \<in> set (sextets ys). v < 64" using sextets_less by blast
  consider "ys = []" | b0 where "ys = [b0]" | b0 b1 where "ys = [b0, b1]"
    using ys(2) by (cases ys rule: sextets.cases) auto
  then show ?thesis
  proof cases
    case 1
    then have "drop (length xs div 3 * 4) out = []" using rest by simp
    then show ?thesis
      using True 1 groups input tx by (simp add: EncodeBase64Into_def b64_pad_def)
  next
    case (2 b0)
    then have in0: "length input - length xs = 1" "span_at input (length xs) = Some b0"
      using input by (simp_all add: span_at_def)
    have "emit (map b64_char (sextets xs) @ drop (length xs div 3 * 4) out, length xs div 3 * 4)
       (map b64_char (sextets [b0]) @ b64_pad 1 padding) =
      Some (b64_text input padding, length xs div 3 * 4 + (2 + length (b64_pad 1 padding)))"
      using rest 2 by (subst em) (simp_all add: tx b64_pad_def)
    then show ?thesis
      using True groups in0 lt 2 by (cases padding)
        (simp_all add: EncodeBase64Into_def Index_eq sextet_char b64_pad_simps
          del: emit.simps)
  next
    case (3 b0 b1)
    then have in0: "length input - length xs = 2" "span_at input (length xs) = Some b0"
      "span_at input (length xs + 1) = Some b1"
      using input by (simp_all add: span_at_def nth_append)
    have "emit (map b64_char (sextets xs) @ drop (length xs div 3 * 4) out, length xs div 3 * 4)
       (map b64_char (sextets [b0, b1]) @ b64_pad 2 padding) =
      Some (b64_text input padding, length xs div 3 * 4 + (3 + length (b64_pad 2 padding)))"
      using rest 3 by (subst em) (simp_all add: tx b64_pad_def)
    then show ?thesis
      using True groups in0 lt 3 by (cases padding)
        (simp_all add: EncodeBase64Into_def Index_eq sextet_char b64_pad_simps
          del: emit.simps)
  qed
next
  case False
  then show ?thesis by (simp add: EncodeBase64Into_def)
qed

lemma EncodeBase64_eq: "EncodeBase64 input padding = Some (Inr (b64_text input padding))"
  by (simp add: EncodeBase64_def EncodeBase64Into_eq)

section \<open>Sextets and bytes are inverse\<close>

lemma pack_mod:
  fixes a b m n :: nat
  assumes "b < m"
  shows "(a * m + b) mod (n * m) = a mod n * m + b"
  using assms by (simp add: mult.commute [of n m] mod_mult2_eq mult.commute)

lemma pack_div_mod:
  fixes a b m :: nat
  assumes "b < m"
  shows "(a * m + b) div m = a" "(a * m + b) mod m = b"
  using assms by simp_all

lemma octet_mods:
  "b < 4 \<Longrightarrow> (a * 4 + b) mod 256 = a mod 64 * 4 + b"
  "b < 16 \<Longrightarrow> (a * 16 + b) mod 256 = a mod 16 * 16 + b"
  "b < 64 \<Longrightarrow> (a * 64 + b) mod 256 = a mod 4 * 64 + (b::nat)"
  using pack_mod [of b 4 a 64] pack_mod [of b 16 a 16] pack_mod [of b 64 a 4] by simp_all

lemma unsextets_sextets: "unsextets (sextets bs) = Some bs"
proof (induction bs rule: sextets.induct)
  case (2 b0)
  then show ?case by (simp add: to_byte_eqI)
next
  case (3 b0 b1)
  have "to_byte (unat b0 div 4 * 4 + (unat b0 mod 4 * 16 + unat b1 div 16) div 16) = b0"
    using unat_byte_div(2) [of b1] by (simp add: pack_div_mod)
  moreover have "to_byte ((unat b0 mod 4 * 16 + unat b1 div 16) * 16 + unat b1 mod 16) = b1"
    using unat_byte_div(2) [of b1] by (intro to_byte_eqI) (simp add: octet_mods pack_div_mod)
  ultimately show ?case by simp
next
  case (4 b0 b1 b2 bs)
  have "to_byte (unat b0 div 4 * 4 + (unat b0 mod 4 * 16 + unat b1 div 16) div 16) = b0"
    using unat_byte_div(2) [of b1] by (simp add: pack_div_mod)
  moreover have "to_byte ((unat b0 mod 4 * 16 + unat b1 div 16) * 16 + (unat b1 mod 16 * 4 + unat b2 div 64) div 4) = b1"
    using unat_byte_div [of b1] unat_byte_div(3) [of b2]
    by (intro to_byte_eqI) (simp add: octet_mods pack_div_mod)
  moreover have "to_byte ((unat b1 mod 16 * 4 + unat b2 div 64) * 64 + unat b2 mod 64) = b2"
    using unat_byte_div(3) [of b2] by (intro to_byte_eqI) (simp add: octet_mods pack_div_mod)
  ultimately show ?case using 4 by simp
qed simp

lemma steps_of_4 [simp]:
  "\<not> 4 dvd Suc 0" "\<not> 4 dvd Suc (Suc 0)" "\<not> 4 dvd Suc (Suc (Suc 0))"
  "4 dvd Suc (Suc (Suc (Suc n))) \<longleftrightarrow> 4 dvd n"
  by presburger+

lemma octet_parts:
  fixes v0 v1 v2 v3 :: nat
  assumes "v0 < 64" "v1 < 64" "v2 < 64" "v3 < 64"
  shows "(v0 * 4 + v1 div 16) mod 256 = v0 * 4 + v1 div 16"
    "(v1 * 16 + v2 div 4) mod 256 = v1 mod 16 * 16 + v2 div 4"
    "(v2 * 64 + v3) mod 256 = v2 mod 4 * 64 + v3"
    "(v0 * 4 + v1 div 16) div 4 = v0" "(v0 * 4 + v1 div 16) mod 4 = v1 div 16"
    "(v1 mod 16 * 16 + v2 div 4) div 16 = v1 mod 16" "(v1 mod 16 * 16 + v2 div 4) mod 16 = v2 div 4"
    "(v2 mod 4 * 64 + v3) div 64 = v2 mod 4" "(v2 mod 4 * 64 + v3) mod 64 = v3"
proof -
  have "v1 div 16 < 4" "v2 div 4 < 16"
    using assms by (simp_all add: less_mult_imp_div_less)
  with assms octet_mods pack_div_mod show
    "(v0 * 4 + v1 div 16) mod 256 = v0 * 4 + v1 div 16"
    "(v1 * 16 + v2 div 4) mod 256 = v1 mod 16 * 16 + v2 div 4"
    "(v2 * 64 + v3) mod 256 = v2 mod 4 * 64 + v3"
    "(v0 * 4 + v1 div 16) div 4 = v0" "(v0 * 4 + v1 div 16) mod 4 = v1 div 16"
    "(v1 mod 16 * 16 + v2 div 4) div 16 = v1 mod 16" "(v1 mod 16 * 16 + v2 div 4) mod 16 = v2 div 4"
    "(v2 mod 4 * 64 + v3) div 64 = v2 mod 4" "(v2 mod 4 * 64 + v3) mod 64 = v3"
    by simp_all
qed

lemma sextets_unsextets:
  "unsextets vs = Some bs \<Longrightarrow> list_all (\<lambda>v. v < 64) vs \<Longrightarrow> sextets bs = vs"
proof (induction vs arbitrary: bs rule: unsextets.induct)
  case (3 v0 v1)
  then have "bs = [to_byte (v0 * 4 + v1 div 16)]" "v1 mod 16 = 0" by (auto split: if_splits)
  with 3 octet_parts [of v0 v1 0 0] show ?case by (simp add: mod_eq_0_iff_dvd dvd_div_mult_self)
next
  case (4 v0 v1 v2)
  then have "bs = [to_byte (v0 * 4 + v1 div 16), to_byte (v1 * 16 + v2 div 4)]" "v2 mod 4 = 0"
    by (auto split: if_splits)
  with 4 octet_parts [of v0 v1 v2 0] show ?case by (simp add: mod_eq_0_iff_dvd dvd_div_mult_self)
next
  case (5 v0 v1 v2 v3 vs)
  then obtain bs' where "unsextets vs = Some bs'"
    "bs = to_byte (v0 * 4 + v1 div 16) # to_byte (v1 * 16 + v2 div 4) # to_byte (v2 * 64 + v3) # bs'"
    by auto
  with 5 octet_parts [of v0 v1 v2 v3] show ?case by simp
qed auto

section \<open>The decoding loop\<close>

lemma Octet_eq:
  "q0 < 64 \<Longrightarrow> q1 < 64 \<Longrightarrow> Octet0 (to_byte q0) (to_byte q1) = to_byte (q0 * 4 + q1 div 16)"
  "q1 < 64 \<Longrightarrow> q2 < 64 \<Longrightarrow> Octet1 (to_byte q1) (to_byte q2) = to_byte (q1 * 16 + q2 div 4)"
  "q2 < 64 \<Longrightarrow> q3 < 64 \<Longrightarrow> Octet2 (to_byte q2) (to_byte q3) = to_byte (q2 * 64 + q3)"
  using nat_or_disjoint [of "q1 div 16" 2 q0] nat_or_disjoint [of "q2 div 4" 4 q1]
    nat_or_disjoint [of q3 6 q2]
  by (simp_all add: Octet0_def Octet1_def Octet2_def nat_shifts less_mult_imp_div_less)

definition b64_end :: "string \<Rightarrow> bool" where
  "b64_end t \<longleftrightarrow> t = [] \<or> hd t = CHR ''=''"

definition b64_octets :: "nat \<Rightarrow> nat \<Rightarrow> nat \<Rightarrow> nat \<Rightarrow> bytes" where
  "b64_octets v0 v1 v2 v3 =
     [to_byte (v0 * 4 + v1 div 16), to_byte (v1 * 16 + v2 div 4), to_byte (v2 * 64 + v3)]"

lemma length_b64_octets [simp]: "length (b64_octets v0 v1 v2 v3) = 3"
  by (simp add: b64_octets_def)

lemma unsextets_quartet:
  "unsextets (v0 # v1 # v2 # v3 # vs) = map_option (append (b64_octets v0 v1 v2 v3)) (unsextets vs)"
  by (cases "unsextets vs") (simp_all add: b64_octets_def)

lemma DecodeBase64Into_loop_end:
  "b64_end t \<Longrightarrow> DecodeBase64Into_loop t out quartet n = Some (Inr (out, quartet, n))"
  by (cases t) (auto simp: b64_end_def)

lemma DecodeBase64Into_loop_char:
  assumes "b64_ok c" "n < 3" "length q = 4"
  shows "DecodeBase64Into_loop (c # t) out q n =
    DecodeBase64Into_loop t out (q[n := to_byte (b64_val c)]) (n + 1)"
  using assms b64_ok_pad by (cases "c = CHR ''=''") (auto simp: b64_ok_def b64_val_def Let_def span_put_def)

lemma DecodeBase64Into_loop_quartet:
  assumes "list_all b64_ok [c0, c1, c2, c3]" "length q = 4" "3 \<le> length rest"
  defines "os \<equiv> b64_octets (b64_val c0) (b64_val c1) (b64_val c2) (b64_val c3)"
  shows "\<exists>q'. length q' = 4 \<and> DecodeBase64Into_loop (c0 # c1 # c2 # c3 # t) (done @ rest, length done) q 0 =
    DecodeBase64Into_loop t ((done @ os) @ drop 3 rest, length (done @ os)) q' 0"
proof -
  let ?v = "\<lambda>c. to_byte (b64_val c)"
  let ?q = "[?v c0, ?v c1, ?v c2, ?v c3]"
  obtain q0 q1 q2 q3 where q: "q = [q0, q1, q2, q3]"
    using assms(2) by (auto simp: numeral_eq_Suc length_Suc_conv)
  have os: "[Octet0 (?v c0) (?v c1), Octet1 (?v c1) (?v c2), Octet2 (?v c2) (?v c3)] = os"
    by (simp add: Octet_eq b64_val_less os_def b64_octets_def)
  have em: "emit (done @ rest, length done) os = Some ((done @ os) @ drop 3 rest, length (done @ os))"
    using emit_spec [of os rest "done"] assms(3) by (simp add: os_def)
  have "c3 \<noteq> CHR ''=''" "\<not> DecodeValue c3 < 0"
    using assms(1) b64_ok_pad by (auto simp: b64_ok_def)
  then have "DecodeBase64Into_loop (c3 # t) (done @ rest, length done) [?v c0, ?v c1, ?v c2, q3] 3 =
    DecodeBase64Into_loop t ((done @ os) @ drop 3 rest, length (done @ os)) ?q 0"
    using em by (simp add: span_put_def span_at_def os b64_val_def [symmetric] Let_def
        del: emit.simps)
  then have "DecodeBase64Into_loop (c0 # c1 # c2 # c3 # t) (done @ rest, length done) q 0 =
    DecodeBase64Into_loop t ((done @ os) @ drop 3 rest, length (done @ os)) ?q 0"
    using assms(1) by (simp add: q DecodeBase64Into_loop_char numeral_3_eq_3
        del: DecodeBase64Into_loop.simps)
  then show ?thesis
    by (intro exI [of _ ?q]) simp
qed

declare DecodeBase64Into_loop.simps [simp del] unsextets.simps(5) [simp del]

lemma quartet_induct [consumes 1, case_names Nil Quartet]:
  assumes "4 dvd length xs" "P []"
    and "\<And>c0 c1 c2 c3 xs. 4 dvd length xs \<Longrightarrow> P xs \<Longrightarrow> P (c0 # c1 # c2 # c3 # xs)"
  shows "P xs"
  using assms(1)
proof (induction xs rule: length_induct)
  case (1 xs)
  show ?case
  proof (cases "xs = []")
    case False
    with "1.prems" have "4 \<le> length xs" by (intro dvd_imp_le) simp_all
    then obtain c0 c1 c2 c3 ys where xs: "xs = c0 # c1 # c2 # c3 # ys"
      by (auto simp: numeral_eq_Suc Suc_le_length_iff)
    with 1 show ?thesis by (auto intro: assms(3))
  qed (simp add: assms(2))
qed

lemma DecodeBase64Into_loop_full:
  assumes "list_all b64_ok xs" "4 dvd length xs" "unsextets (map b64_val xs) = Some bs"
    and "length bs \<le> length rest" "length q = 4"
  shows "\<exists>q'. length q' = 4 \<and> DecodeBase64Into_loop (xs @ t) (done @ rest, length done) q 0 =
    DecodeBase64Into_loop t ((done @ bs) @ drop (length bs) rest, length (done @ bs)) q' 0"
  using assms(2,1,3,4,5)
proof (induction xs arbitrary: bs "done" rest q rule: quartet_induct)
  case Nil
  then show ?case by auto
next
  case (Quartet c0 c1 c2 c3 xs)
  define os where "os = b64_octets (b64_val c0) (b64_val c1) (b64_val c2) (b64_val c3)"
  have os: "length os = 3" by (simp add: os_def)
  obtain bs' where bs': "unsextets (map b64_val xs) = Some bs'" and bs: "bs = os @ bs'"
    using Quartet.prems(2) by (auto simp: unsextets_quartet os_def)
  have ok: "list_all b64_ok [c0, c1, c2, c3]" using Quartet.prems(1) by simp
  obtain q' where q': "length q' = 4"
    "DecodeBase64Into_loop (c0 # c1 # c2 # c3 # xs @ t) (done @ rest, length done) q 0 =
      DecodeBase64Into_loop (xs @ t) ((done @ os) @ drop 3 rest, length (done @ os)) q' 0"
    using DecodeBase64Into_loop_quartet [OF ok, of q rest "xs @ t" "done"] Quartet.prems os bs
    unfolding os_def [symmetric] by auto
  have "\<exists>q''. length q'' = 4 \<and>
    DecodeBase64Into_loop (xs @ t) ((done @ os) @ drop 3 rest, length (done @ os)) q' 0 =
    DecodeBase64Into_loop t (((done @ os) @ bs') @ drop (length bs') (drop 3 rest),
      length ((done @ os) @ bs')) q'' 0"
    using Quartet.prems q' bs os bs' by (intro Quartet.IH) auto
  then show ?case
    using q' bs os by (auto simp: add.commute)
qed

lemma unsextets_append:
  "4 dvd length xs \<Longrightarrow> unsextets (xs @ ys) =
     (case unsextets xs of None \<Rightarrow> None | Some bs \<Rightarrow> map_option (append bs) (unsextets ys))"
proof (induction xs rule: quartet_induct)
  case Nil
  then show ?case by (cases "unsextets ys") simp_all
next
  case (Quartet c0 c1 c2 c3 xs)
  then show ?case
    by (cases "unsextets ys") (auto simp: unsextets_quartet split: option.splits)
qed

lemma unsextets_total: "4 dvd length xs \<Longrightarrow> \<exists>bs. unsextets xs = Some bs \<and> length bs = length xs div 4 * 3"
  by (induction xs rule: quartet_induct) (auto simp: unsextets_quartet div_add_self1)

section \<open>Validation\<close>

text \<open>The texts the decoder accepts, and what they stand for.\<close>

definition b64_decode :: "string \<Rightarrow> bytes option" where
  "b64_decode t =
     (let body = takeWhile (\<lambda>c. c \<noteq> CHR ''='') t; pad = drop (length body) t
      in if list_all b64_ok body \<and> (pad = [] \<or> pad \<in> {''='', ''==''} \<and> length t mod 4 = 0)
         then unsextets (map b64_val body) else None)"

lemma DecodedLength_scan_spec:
  "DecodedLength_scan t p i =
     Some (if \<forall>j. i \<le> j \<and> j < length t \<longrightarrow>
               (if t ! j = CHR ''='' then length t - p \<le> j else b64_ok (t ! j))
           then Inr () else Inl EncodingError)"
proof (induction t p i rule: DecodedLength_scan.induct)
  case (1 t p i)
  show ?case
  proof (cases "i < length t")
    case True
    have split: "(\<forall>j. i \<le> j \<and> j < length t \<longrightarrow> Q j) \<longleftrightarrow> Q i \<and> (\<forall>j. i + 1 \<le> j \<and> j < length t \<longrightarrow> Q j)" for Q
      using True by (metis Suc_eq_plus1 Suc_leD le_eq_less_or_eq less_eq_Suc_le order_refl)
    show ?thesis
    proof (cases "t ! i = CHR ''=''")
      case eq: True
      show ?thesis
      proof (cases "i < length t - p")
        case False
        with True eq have "DecodedLength_scan t p i = DecodedLength_scan t p (i + 1)"
          by (simp add: DecodedLength_scan.simps [of t p i] span_at_def)
        also note "1.IH"(1) [OF True, of "t ! i"]
        finally show ?thesis
          using True eq False by (subst split) (simp add: span_at_def)
      qed (use True eq in \<open>subst split, simp add: DecodedLength_scan.simps [of t p i] span_at_def\<close>)
    next
      case neq: False
      show ?thesis
      proof (cases "b64_ok (t ! i)")
        case ok: True
        with True neq have "DecodedLength_scan t p i = DecodedLength_scan t p (i + 1)"
          by (simp add: DecodedLength_scan.simps [of t p i] span_at_def b64_ok_def)
        also note "1.IH"(2) [OF True, of "t ! i"]
        finally show ?thesis
          using True neq ok by (subst split) (simp add: span_at_def b64_ok_def)
      qed (use True neq in \<open>subst split, simp add: DecodedLength_scan.simps [of t p i] span_at_def b64_ok_def\<close>)
    qed
  next
    case False
    then show ?thesis by (simp add: DecodedLength_scan.simps [of t p i])
  qed
qed

lemma Base64_padding_drop:
  assumes "Base64_padding t = Some p"
  shows "p \<le> length t \<and> p \<le> 2 \<and> drop (length t - p) t = replicate p (CHR ''='')"
proof (cases t rule: rev_cases)
  case Nil
  with assms show ?thesis by (simp add: Base64_padding_def)
next
  case (snoc u c)
  then show ?thesis
    using assms by (cases u rule: rev_cases)
      (auto simp: Base64_padding_def span_at_def nth_append numeral_2_eq_2 split: if_splits)
qed

lemma Base64_padding_total: "\<exists>p. Base64_padding t = Some p"
  by (auto simp: Base64_padding_def span_at_def)

lemma Base64_padding_of:
  assumes "list_all b64_ok body" "p \<le> 2"
  shows "Base64_padding (body @ replicate p (CHR ''='')) = Some p"
proof -
  have "body \<noteq> [] \<Longrightarrow> last body \<noteq> CHR ''=''"
    using assms(1) b64_ok_pad by (metis last_in_set list_all_iff)
  then have last: "body = u @ [c] \<Longrightarrow> c \<noteq> CHR ''=''" for u c by simp
  have "p = 0 \<or> p = 1 \<or> p = 2" using assms(2) by linarith
  then show ?thesis
    using last by (cases body rule: rev_cases)
      (auto simp: Base64_padding_def span_at_def nth_append numeral_2_eq_2)
qed

lemma scan_ok_iff:
  assumes "Base64_padding t = Some p"
  shows "(\<forall>j. 0 \<le> j \<and> j < length t \<longrightarrow> (if t ! j = CHR ''='' then length t - p \<le> j else b64_ok (t ! j)))
    \<longleftrightarrow> (\<exists>body. t = body @ replicate p (CHR ''='') \<and> list_all b64_ok body)" (is "?L \<longleftrightarrow> ?R")
proof
  assume L: ?L
  let ?body = "take (length t - p) t"
  have "t = ?body @ replicate p (CHR ''='')"
    using Base64_padding_drop [OF assms] by (metis append_take_drop_id)
  moreover have "list_all b64_ok ?body"
    using L unfolding list_all_length by (metis (no_types, lifting) le0 length_take linorder_not_less
        min_less_iff_conj nth_take)
  ultimately show ?R by blast
next
  assume ?R
  then obtain body where t: "t = body @ replicate p (CHR ''='')" and ok: "list_all b64_ok body" by blast
  have "body ! j \<noteq> CHR ''=''" if "j < length body" for j
    using ok b64_ok_pad that by (metis list_all_length)
  with ok show ?L
    unfolding t by (auto simp: nth_append list_all_length)
qed

lemma b64_decode_eq:
  assumes "list_all b64_ok body" "p \<le> 2"
  shows "b64_decode (body @ replicate p (CHR ''='')) =
    (if p = 0 \<or> (length body + p) mod 4 = 0 then unsextets (map b64_val body) else None)"
proof -
  have "CHR ''='' \<notin> set body" using assms(1) b64_ok_pad by (auto simp: list_all_iff)
  then have tw: "takeWhile (\<lambda>c. c \<noteq> CHR ''='') (body @ replicate p (CHR ''='')) = body"
    by (rule takeWhile_pad)
  have "p = 0 \<or> p = 1 \<or> p = 2" using assms(2) by linarith
  then show ?thesis
    using assms(1) by (auto simp: b64_decode_def tw Let_def numeral_2_eq_2)
qed

lemma b64_decode_SomeD:
  assumes "b64_decode t = Some bs"
  shows "\<exists>body p. t = body @ replicate p (CHR ''='') \<and> list_all b64_ok body \<and> p \<le> 2 \<and>
    (p = 0 \<or> (length body + p) mod 4 = 0) \<and> unsextets (map b64_val body) = Some bs"
proof -
  define body where "body = takeWhile (\<lambda>c. c \<noteq> CHR ''='') t"
  define pad where "pad = drop (length body) t"
  have t: "t = body @ pad"
    unfolding pad_def body_def by (metis append_take_drop_id takeWhile_eq_take)
  from assms have ok: "list_all b64_ok body" "unsextets (map b64_val body) = Some bs"
    and pad: "pad = [] \<or> pad \<in> {''='', ''==''} \<and> length t mod 4 = 0"
    unfolding b64_decode_def Let_def body_def [symmetric] pad_def [symmetric]
    by (simp_all split: if_splits)
  have "pad = replicate (length pad) (CHR ''='')" "length pad \<le> 2"
    using pad by (auto simp: numeral_2_eq_2)
  with t ok pad show ?thesis
    by (intro exI [of _ body] exI [of _ "length pad"]) (auto simp: t)
qed

lemma DecodeValue_low_bits:
  assumes "b64_ok c"
  shows "DecodeValue c AND 0x0f = int (b64_val c mod 16)" "DecodeValue c AND 0x03 = int (b64_val c mod 4)"
proof -
  have "DecodeValue c = int (b64_val c)" using assms by (simp add: b64_ok_def b64_val_def)
  then show "DecodeValue c AND 0x0f = int (b64_val c mod 16)" "DecodeValue c AND 0x03 = int (b64_val c mod 4)"
    using of_nat_and_eq [of "b64_val c" 15, where 'a = int] of_nat_and_eq [of "b64_val c" 3, where 'a = int]
    by (simp_all add: nat_and_masks)
qed

lemma split_quartets: "\<exists>ys zs. xs = ys @ zs \<and> 4 dvd length ys \<and> length zs < 4"
proof (intro exI conjI)
  let ?n = "length xs div 4 * 4"
  show "xs = take ?n xs @ drop ?n xs" by simp
  show "4 dvd length (take ?n xs)" by simp
  show "length (drop ?n xs) < 4" by (simp add: minus_div_mult_eq_mod)
qed

lemma mod_div_4:
  "Suc (4 * n) mod 4 = 1" "Suc (Suc (4 * n)) mod 4 = 2" "Suc (Suc (Suc (4 * n))) mod 4 = 3"
  "Suc (Suc (Suc (Suc (4 * n)))) mod 4 = 0" "Suc (Suc (Suc (Suc (Suc (4 * n))))) mod 4 = 1"
  "Suc (4 * n) div 4 = n" "Suc (Suc (4 * n)) div 4 = n" "Suc (Suc (Suc (4 * n))) div 4 = n"
  "Suc (Suc (Suc (Suc (4 * n)))) div 4 = Suc n"
  by presburger+

text \<open>Four times \<open>n\<close> valid characters, up to three more, and the padding.\<close>

lemma DecodedLength_parts:
  assumes pad: "Base64_padding t = Some p" and scan: "DecodedLength_scan t p 0 = Some (Inr ())"
    and t: "t = xs @ ys @ replicate p (CHR ''='')" and n: "length xs = 4 * n"
    and ok: "list_all b64_ok ys" and ys: "length ys < 4" and p: "p \<le> 2"
  shows "DecodedLength t =
    Some (if (p = 0 \<or> (length ys + p) mod 4 = 0) \<and> unsextets (map b64_val ys) \<noteq> None
          then Inr (n * 3 + length (the (unsextets (map b64_val ys)))) else Inl EncodingError)"
proof -
  have nth: "t ! (4 * n + j) = (ys @ replicate p (CHR ''='')) ! j" for j
    by (simp add: t flip: n)
  have ne: "t = [] \<longleftrightarrow> n = 0 \<and> ys = [] \<and> p = 0" using n by (auto simp: t)
  have last: "n \<noteq> 0 \<Longrightarrow> 4 * n - Suc 0 < 4 * n" by simp
  have nths: "t ! (4 * n) = (ys @ replicate p (CHR ''='')) ! 0"
    "t ! Suc (4 * n) = (ys @ replicate p (CHR ''='')) ! 1"
    "t ! Suc (Suc (4 * n)) = (ys @ replicate p (CHR ''='')) ! 2"
    using nth [of 0] nth [of 1] nth [of 2] by simp_all
  have len: "length t = 4 * n + (length ys + p)" by (simp add: t n)
  have "p = 0 \<or> p = 1 \<or> p = 2" using p by linarith
  moreover have "ys = [] \<or> (\<exists>c0. ys = [c0]) \<or> (\<exists>c0 c1. ys = [c0, c1]) \<or> (\<exists>c0 c1 c2. ys = [c0, c1, c2])"
    using ys by (auto simp: less_Suc_eq numeral_eq_Suc length_Suc_conv)
  ultimately show ?thesis
    using pad scan len nths ne ok last
    by (elim disjE exE; simp add: DecodedLength_def span_at_def Let_def DecodeValue_low_bits mod_div_4)
qed

lemma DecodedLength_accepted:
  assumes ok: "list_all b64_ok body" and p2: "p \<le> 2"
  defines "t \<equiv> body @ replicate p (CHR ''='')"
  shows "DecodedLength t =
    Some (case b64_decode t of None \<Rightarrow> Inl EncodingError | Some bs \<Rightarrow> Inr (length bs))"
proof -
  have pad: "Base64_padding t = Some p"
    unfolding t_def by (rule Base64_padding_of [OF ok p2])
  have scan: "DecodedLength_scan t p 0 = Some (Inr ())"
    using scan_ok_iff [OF pad] ok by (auto simp: DecodedLength_scan_spec t_def)
  obtain xs ys where body: "body = xs @ ys" and xs: "4 dvd length xs" and ys: "length ys < 4"
    using split_quartets by blast
  then obtain n where n: "length xs = 4 * n" by blast
  obtain bs where bs: "unsextets (map b64_val xs) = Some bs" "length bs = n * 3"
    using unsextets_total [of "map b64_val xs"] xs n by auto
  have "b64_decode t = (if p = 0 \<or> (4 * n + (length ys + p)) mod 4 = 0
      then map_option (append bs) (unsextets (map b64_val ys)) else None)"
    using b64_decode_eq [OF ok p2] xs bs n by (simp add: t_def body unsextets_append add.assoc)
  then show ?thesis
    using DecodedLength_parts [OF pad scan _ n _ ys p2] ok bs by (auto simp: t_def body)
qed

lemma DecodedLength_eq:
  "DecodedLength t = Some (case b64_decode t of None \<Rightarrow> Inl EncodingError | Some bs \<Rightarrow> Inr (length bs))"
proof -
  obtain p where p: "Base64_padding t = Some p" using Base64_padding_total by blast
  show ?thesis
  proof (cases "\<exists>body. t = body @ replicate p (CHR ''='') \<and> list_all b64_ok body")
    case True
    then show ?thesis
      using DecodedLength_accepted Base64_padding_drop [OF p] by blast
  next
    case False
    have "b64_decode t = None"
    proof (rule ccontr)
      assume "b64_decode t \<noteq> None"
      then obtain body q where "t = body @ replicate q (CHR ''='')" "list_all b64_ok body" "q \<le> 2"
        using b64_decode_SomeD by blast
      with Base64_padding_of [of body q] p False show False by simp
    qed
    moreover have "t \<noteq> []" using False p by (auto simp: Base64_padding_def)
    moreover have "DecodedLength_scan t p 0 = Some (Inl EncodingError)"
      using False scan_ok_iff [OF p] by (simp add: DecodedLength_scan_spec)
    ultimately show ?thesis
      using p by (simp add: DecodedLength_def)
  qed
qed

section \<open>Decoding computes the reference result\<close>

lemma DecodeBase64Into_accepted:
  assumes dec: "b64_decode t = Some bs" and out: "length out = length bs"
  shows "DecodeBase64Into t out = Some (Inr (), bs)"
proof -
  obtain body p where t: "t = body @ replicate p (CHR ''='')" and ok: "list_all b64_ok body"
    and uns: "unsextets (map b64_val body) = Some bs"
    using b64_decode_SomeD [OF dec] by blast
  obtain xs ys where body: "body = xs @ ys" and xs: "4 dvd length xs" and ys: "length ys < 4"
    using split_quartets by blast
  obtain bs0 where bs0: "unsextets (map b64_val xs) = Some bs0"
    using unsextets_total [of "map b64_val xs"] xs by auto
  obtain bs1 where bs1: "unsextets (map b64_val ys) = Some bs1" and bs: "bs = bs0 @ bs1"
    using uns bs0 xs by (auto simp: body unsextets_append)
  define pad where "pad = replicate p (CHR ''='')"
  have fin: "b64_end pad" by (cases p) (auto simp: pad_def b64_end_def)
  obtain q where q: "length q = 4" and loop: "DecodeBase64Into_loop t (out, 0) [0, 0, 0, 0] 0 =
      DecodeBase64Into_loop (ys @ pad) (bs0 @ drop (length bs0) out, length bs0) q 0"
    using DecodeBase64Into_loop_full [of xs bs0 out "[0, 0, 0, 0]" "ys @ pad" "[]"] ok xs bs0 out bs
    by (auto simp: t body pad_def)
  obtain q0 q1 q2 q3 where q: "q = [q0, q1, q2, q3]"
    using q by (auto simp: numeral_eq_Suc length_Suc_conv)
  have em: "emit (bs0 @ drop (length bs0) out, length bs0) bs1 = Some (bs0 @ bs1, length bs0 + length bs1)"
    using emit_spec [of bs1 "drop (length bs0) out" bs0] out bs by simp
  have ok: "list_all b64_ok ys" using ok body by simp
  have "ys = [] \<or> (\<exists>c0. ys = [c0]) \<or> (\<exists>c0 c1. ys = [c0, c1]) \<or> (\<exists>c0 c1 c2. ys = [c0, c1, c2])"
    using ys by (auto simp: less_Suc_eq numeral_eq_Suc length_Suc_conv)
  then show ?thesis
  proof (elim disjE exE)
    fix c0 c1 assume "ys = [c0, c1]"
    with loop em ok bs1 fin show ?thesis
      using out by (auto simp: DecodeBase64Into_def DecodedLength_eq dec q DecodeBase64Into_loop_char
          DecodeBase64Into_loop_end span_at_def Octet_eq b64_val_less bs split: if_splits simp del: emit.simps)
  next
    fix c0 c1 c2 assume "ys = [c0, c1, c2]"
    with loop em ok bs1 fin show ?thesis
      using out by (auto simp: DecodeBase64Into_def DecodedLength_eq dec q DecodeBase64Into_loop_char
          DecodeBase64Into_loop_end span_at_def Octet_eq b64_val_less bs numeral_3_eq_3
          split: if_splits simp del: emit.simps)
  qed (use loop em bs1 fin out in \<open>auto simp: DecodeBase64Into_def DecodedLength_eq dec q
      DecodeBase64Into_loop_end span_at_def bs\<close>)
qed

lemma DecodeBase64Into_eq:
  "DecodeBase64Into t out =
     Some (case b64_decode t of None \<Rightarrow> (Inl EncodingError, out)
           | Some bs \<Rightarrow> if length out = length bs then (Inr (), bs) else (Inl OutputBufferTooSmall, out))"
proof (cases "b64_decode t")
  case None
  then show ?thesis by (simp add: DecodeBase64Into_def DecodedLength_eq)
next
  case (Some bs)
  then show ?thesis
    using DecodeBase64Into_accepted [OF Some, of out]
    by (cases "length out = length bs") (simp_all add: DecodeBase64Into_def DecodedLength_eq)
qed

lemma DecodeBase64_eq:
  "DecodeBase64 t = Some (case b64_decode t of None \<Rightarrow> Inl EncodingError | Some bs \<Rightarrow> Inr bs)"
  by (auto simp: DecodeBase64_def DecodedLength_eq DecodeBase64Into_eq split: option.splits)

section \<open>Encoding and decoding are inverse\<close>

lemma b64_text_Omit: "b64_text bs Omit = map b64_char (sextets bs)"
  by (simp add: b64_text_def b64_pad_simps)

lemma ok_sextets: "list_all b64_ok (map b64_char (sextets bs))"
  using sextets_less by (auto simp: list_all_iff intro: b64_ok_char)

lemma val_sextets: "map b64_val (map b64_char (sextets bs)) = sextets bs"
  using sextets_less by (auto intro!: map_idI simp: b64_val_char)

lemma length_sextets_mod:
  "length (sextets bs) mod 4 = (if length bs mod 3 = 0 then 0 else length bs mod 3 + 1)"
proof -
  have "length bs mod 3 < 3" by simp
  then have "length bs mod 3 + 1 < 4" by linarith
  then show ?thesis by (simp add: length_sextets)
qed

lemma length_padded: "(length (sextets bs) + (3 - length bs mod 3) mod 3) mod 4 = 0"
proof -
  have "length bs mod 3 = 0 \<or> length bs mod 3 = 1 \<or> length bs mod 3 = 2" by linarith
  then show ?thesis
    by (elim disjE) (simp_all add: length_sextets)
qed

lemma b64_decode_text: "b64_decode (b64_text bs padding) = Some bs"
proof -
  define p where "p = length (b64_pad (length bs) padding)"
  have p: "b64_pad (length bs) padding = replicate p (CHR ''='')" "p \<le> 2"
    "p = 0 \<or> (length (sextets bs) + p) mod 4 = 0"
    using length_padded [of bs] by (auto simp: p_def b64_pad_def)
  show ?thesis
    using b64_decode_eq [OF ok_sextets p(2)] p val_sextets [of bs] unsextets_sextets
    by (simp add: b64_text_def del: map_map)
qed

lemma b64_text_of_decode:
  assumes "b64_decode t = Some bs"
  shows "t = b64_text bs Required \<or> t = b64_text bs Omit"
proof -
  obtain body p where t: "t = body @ replicate p (CHR ''='')" and ok: "list_all b64_ok body"
    and p: "p \<le> 2" "p = 0 \<or> (length body + p) mod 4 = 0" and uns: "unsextets (map b64_val body) = Some bs"
    using b64_decode_SomeD [OF assms] by (elim exE conjE) (rule that)
  have sx: "sextets bs = map b64_val body"
    by (rule sextets_unsextets [OF uns]) (simp add: list_all_iff b64_val_less)
  have body: "map b64_char (sextets bs) = body"
    unfolding sx map_map using ok by (intro map_idI) (simp add: list_all_iff b64_char_val)
  have "p = 0 \<or> p = (3 - length bs mod 3) mod 3"
  proof (cases "p = 0")
    case False
    define r where "r = length bs mod 3"
    have "(length (sextets bs) + p) mod 4 = 0" using p False sx by simp
    then have "(length (sextets bs) mod 4 + p) mod 4 = 0" by (simp only: mod_add_left_eq)
    then have "((if r = 0 then 0 else r + 1) + p) mod 4 = 0"
      unfolding length_sextets_mod r_def .
    moreover have "r < 3" by (simp add: r_def)
    then have "r = 0 \<or> r = 1 \<or> r = 2" by linarith
    moreover have "p = 1 \<or> p = 2" using False p by linarith
    ultimately show ?thesis
      unfolding r_def [symmetric] by (elim disjE) simp_all
  qed simp
  then show ?thesis
    by (auto simp: t b64_text_def b64_pad_def body)
qed

text \<open>
  The canonical form of an accepted text under each padding policy: completed with padding
  characters to a multiple of four, or cut at the first one.
\<close>

fun b64_canon :: "Base64Padding \<Rightarrow> string \<Rightarrow> string" where
  "b64_canon Required t = t @ replicate ((4 - length t mod 4) mod 4) (CHR ''='')"
| "b64_canon Omit t = takeWhile (\<lambda>c. c \<noteq> CHR ''='') t"

lemma b64_canon_text: "b64_canon padding (b64_text bs p) = b64_text bs padding"
proof (cases padding)
  case Required
  have "length bs mod 3 = 0 \<or> length bs mod 3 = 1 \<or> length bs mod 3 = 2" by linarith
  then have "(4 - length (b64_text bs Omit) mod 4) mod 4 = (3 - length bs mod 3) mod 3"
    by (elim disjE) (simp_all add: b64_text_Omit length_sextets_mod)
  moreover have "length (b64_text bs Required) mod 4 = 0"
    using length_padded [of bs] by (simp add: b64_text_def b64_pad_def)
  ultimately show ?thesis
    unfolding Required by (cases p) (simp_all, simp add: b64_text_def b64_pad_def)
next
  case Omit
  have "CHR ''='' \<notin> set (map b64_char (sextets bs))"
    using ok_sextets [of bs] b64_ok_pad unfolding list_all_iff by blast
  from takeWhile_pad [OF this] show ?thesis
    unfolding Omit b64_canon.simps b64_text_def b64_pad_def by simp
qed

section \<open>Properties\<close>

interpretation b64: strict_codec "\<lambda>bs. EncodeBase64 bs padding" DecodeBase64 "b64_canon padding"
  by unfold_locales
    (auto simp: EncodeBase64_eq DecodeBase64_eq b64_decode_text b64_canon_text split: option.splits
      dest!: b64_text_of_decode)

text \<open>
  C8: strict Base64 decoding accepts exactly two texts for every byte string, its padded and its
  unpadded encoding, and returns that byte string for both; every other text (a stray or misplaced
  padding character, a character outside the alphabet, non-zero unused bits) is an \<open>EncodingError\<close>,
  and no access leaves a span.
\<close>

theorem DecodeBase64_exact:
  "(DecodeBase64 t = Some (Inr bs) \<longleftrightarrow> (\<exists>padding. EncodeBase64 bs padding = Some (Inr t))) \<and>
   (DecodeBase64 t = Some (Inl EncodingError) \<or> (\<exists>bs. DecodeBase64 t = Some (Inr bs)))"
proof -
  have "EncodeBase64 bs padding = Some (Inr t) \<Longrightarrow> DecodeBase64 t = Some (Inr bs)" for padding
    by (rule b64.dec_enc)
  moreover have "DecodeBase64 t = Some (Inr bs) \<Longrightarrow> \<exists>padding. EncodeBase64 bs padding = Some (Inr t)"
    by (auto simp: DecodeBase64_eq EncodeBase64_eq split: option.splits dest!: b64_text_of_decode)
  ultimately show ?thesis
    by (auto simp: DecodeBase64_eq split: option.splits)
qed

text \<open>
  The encoder and the decoder write exactly the span they are given. Into a span of
  \<open>Base64EncodedLength\<close> characters the encoder writes the whole text, which fills it; into a span of the
  decoded length the decoder writes the whole byte string; a span of another size is left as it
  was and the call reports \<open>OutputBufferTooSmall\<close>.
\<close>

lemma Base64Into_exact_fill:
  "EncodeBase64Into input out padding =
     (if length out = Base64EncodedLength (length input) padding
      then do { r \<leftarrow> EncodeBase64 input padding;
                (case r of Inl e \<Rightarrow> Some (Inl e, out)
                 | Inr s \<Rightarrow> if length s = length out then Some (Inr (), s) else None) }
      else Some (Inl OutputBufferTooSmall, out)) \<and>
   DecodeBase64Into t bout =
     (case DecodeBase64 t of None \<Rightarrow> None | Some (Inl e) \<Rightarrow> Some (Inl e, bout)
      | Some (Inr bs) \<Rightarrow> if length bout = length bs then Some (Inr (), bs)
                       else Some (Inl OutputBufferTooSmall, bout))"
proof -
  have "length (b64_text input padding) = Base64EncodedLength (length input) padding"
  proof -
    have "length input mod 3 = 0 \<or> length input mod 3 = 1 \<or> length input mod 3 = 2" by linarith
    then show ?thesis
      by (cases padding; elim disjE)
        (simp_all add: b64_text_def b64_pad_def length_sextets Base64EncodedLength_def Let_def)
  qed
  then show ?thesis
    by (auto simp: EncodeBase64Into_eq EncodeBase64_eq DecodeBase64Into_eq DecodeBase64_eq
        split: option.splits)
qed

end
