(* ===== verification/Crypto_Base64Url.thy ===== *)
theory Crypto_Base64Url
  imports Crypto_Base64
begin

text \<open>
  Base64 with the URL alphabet (\<open>src/NGIN/Crypto/Encoding/Base64Url.cpp\<close>), built on the standard
  codec: the encoder replaces two characters of its output, the decoder normalises its input
  (alphabet and padding) and hands it to \<open>DecodeBase64\<close>.
\<close>

section \<open>Model\<close>

definition ConvertStandardToUrl :: "string \<Rightarrow> string" where
  "ConvertStandardToUrl text =
     map (\<lambda>character. if character = CHR ''+'' then CHR ''-''
                      else if character = CHR ''/'' then CHR ''_'' else character) text"

fun NormalizeUrlInput_loop :: "string \<Rightarrow> bool \<Rightarrow> string \<Rightarrow> string crypto" where
  "NormalizeUrlInput_loop [] seenPadding normalized = Some (Inr normalized)"
| "NormalizeUrlInput_loop (character # rest) seenPadding normalized =
     (if character = CHR ''='' then NormalizeUrlInput_loop rest True (normalized @ [character])
      else if seenPadding then Some (Inl EncodingError)
      else if character = CHR ''-'' then NormalizeUrlInput_loop rest seenPadding (normalized @ ''+'')
      else if character = CHR ''_'' then NormalizeUrlInput_loop rest seenPadding (normalized @ ''/'')
      else if character = CHR ''+'' \<or> character = CHR ''/'' then Some (Inl EncodingError)
      else NormalizeUrlInput_loop rest seenPadding (normalized @ [character]))"

text \<open>\<open>while (size % 4 != 0) push_back('=')\<close>; the distance to the next multiple of four shrinks.\<close>

function PadToQuartet :: "string \<Rightarrow> string" where
  "PadToQuartet normalized =
     (if length normalized mod 4 \<noteq> 0 then PadToQuartet (normalized @ ''='') else normalized)"
  by pat_completeness auto
termination
proof (relation "measure (\<lambda>s. (4 - length s mod 4) mod 4)")
  fix s :: string
  assume "length s mod 4 \<noteq> 0"
  moreover have "length s mod 4 < 4" by simp
  ultimately have "length s mod 4 = 1 \<or> length s mod 4 = 2 \<or> length s mod 4 = 3" by linarith
  then show "(s @ ''='', s) \<in> measure (\<lambda>s. (4 - length s mod 4) mod 4)"
    by (auto simp: mod_Suc)
qed simp

declare PadToQuartet.simps [simp del]

definition NormalizeUrlInput :: "string \<Rightarrow> string crypto" where
  "NormalizeUrlInput text =
     (if length text mod 4 = 1 then Some (Inl EncodingError)
      else do {
        r \<leftarrow> NormalizeUrlInput_loop text False [];
        (case r of Inl e \<Rightarrow> Some (Inl e) | Inr normalized \<Rightarrow>
          if CHR ''='' \<notin> set normalized then Some (Inr (PadToQuartet normalized))
          else if length normalized mod 4 \<noteq> 0 then Some (Inl EncodingError)
          else Some (Inr normalized)) })"

definition EncodeBase64Url :: "bytes \<Rightarrow> Base64Padding \<Rightarrow> string crypto" where
  "EncodeBase64Url input padding = do {
     output \<leftarrow> EncodeBase64 input padding;
     (case output of Inl e \<Rightarrow> Some (Inl e) | Inr output \<Rightarrow> Some (Inr (ConvertStandardToUrl output))) }"

definition EncodeBase64UrlInto :: "bytes \<Rightarrow> string \<Rightarrow> Base64Padding \<Rightarrow> char crypto_into" where
  "EncodeBase64UrlInto input output padding = do {
     (result, output) \<leftarrow> EncodeBase64Into input output padding;
     (case result of Inl e \<Rightarrow> Some (Inl e, output)
      | Inr _ \<Rightarrow> Some (Inr (), ConvertStandardToUrl output)) }"

definition DecodeBase64Url :: "string \<Rightarrow> bytes crypto" where
  "DecodeBase64Url text = do {
     normalized \<leftarrow> NormalizeUrlInput text;
     (case normalized of Inl e \<Rightarrow> Some (Inl e) | Inr normalized \<Rightarrow> DecodeBase64 normalized) }"

function copy_loop :: "'a list \<Rightarrow> 'a list \<Rightarrow> nat \<Rightarrow> 'a list option" where
  "copy_loop source output i =
     (if i < length output then do {
        v \<leftarrow> span_at source i;
        output \<leftarrow> span_put output i v;
        copy_loop source output (i + 1)
      } else Some output)"
  by pat_completeness auto
termination
  by (relation "measure (\<lambda>(source, output, i). length output - i)") (auto dest: span_put_length)

declare copy_loop.simps [simp del]

definition DecodeBase64UrlInto :: "string \<Rightarrow> bytes \<Rightarrow> byte crypto_into" where
  "DecodeBase64UrlInto text output = do {
     normalized \<leftarrow> NormalizeUrlInput text;
     (case normalized of Inl e \<Rightarrow> Some (Inl e, output) | Inr normalized \<Rightarrow> do {
       decoded \<leftarrow> DecodeBase64 normalized;
       (case decoded of Inl e \<Rightarrow> Some (Inl e, output) | Inr decoded \<Rightarrow>
         if length output \<noteq> length decoded then Some (Inl OutputBufferTooSmall, output)
         else do { output \<leftarrow> copy_loop decoded output 0; Some (Inr (), output) }) }) }"

section \<open>The alphabets\<close>

definition s2u :: "char \<Rightarrow> char" where
  "s2u c = (if c = CHR ''+'' then CHR ''-'' else if c = CHR ''/'' then CHR ''_'' else c)"

definition u2s :: "char \<Rightarrow> char" where
  "u2s c = (if c = CHR ''-'' then CHR ''+'' else if c = CHR ''_'' then CHR ''/'' else c)"

definition url_body :: "char \<Rightarrow> bool" where
  "url_body c \<longleftrightarrow> c \<noteq> CHR ''='' \<and> c \<noteq> CHR ''+'' \<and> c \<noteq> CHR ''/''"

lemma ConvertStandardToUrl_map: "ConvertStandardToUrl t = map s2u t"
  by (simp add: ConvertStandardToUrl_def s2u_def)

lemma ok_std: "b64_ok c \<Longrightarrow> u2s (s2u c) = c \<and> url_body (s2u c) \<and> c \<noteq> CHR ''=''"
  by (auto simp: b64_ok_def DecodeValue_ord s2u_def u2s_def url_body_def)

lemma s2u_u2s: "url_body c \<Longrightarrow> s2u (u2s c) = c"
  by (auto simp: s2u_def u2s_def url_body_def)

lemma s2u_pad [simp]: "s2u (CHR ''='') = CHR ''=''" "u2s (CHR ''='') = CHR ''=''"
  by (simp_all add: s2u_def u2s_def)

lemma u2s_eq_pad: "url_body c \<Longrightarrow> u2s c \<noteq> CHR ''=''"
  by (auto simp: u2s_def url_body_def)

section \<open>Normalisation\<close>

lemma missing_Suc:
  assumes "n mod 4 \<noteq> 0"
  shows "(4 - n mod 4) mod 4 = Suc ((4 - Suc n mod 4) mod 4)"
proof -
  have "n mod 4 < 4" by simp
  with assms have "n mod 4 = 1 \<or> n mod 4 = 2 \<or> n mod 4 = 3" by linarith
  then show ?thesis by (auto simp: mod_Suc)
qed

lemma PadToQuartet_eq: "PadToQuartet s = s @ replicate ((4 - length s mod 4) mod 4) (CHR ''='')"
proof (induction s rule: PadToQuartet.induct)
  case (1 s)
  show ?case
  proof (cases "length s mod 4 = 0")
    case True
    then show ?thesis by (simp add: PadToQuartet.simps [of s])
  next
    case False
    then have "PadToQuartet s = PadToQuartet (s @ ''='')" by (simp add: PadToQuartet.simps [of s])
    also note "1.IH" [OF False]
    finally show ?thesis using missing_Suc [OF False] by simp
  qed
qed

lemma NormalizeUrlInput_loop_seen:
  "NormalizeUrlInput_loop t True acc =
     Some (if list_all (\<lambda>c. c = CHR ''='') t then Inr (acc @ t) else Inl EncodingError)"
  by (induction t arbitrary: acc) simp_all

lemma NormalizeUrlInput_loop_eq:
  "NormalizeUrlInput_loop t False acc =
     Some (let body = takeWhile (\<lambda>c. c \<noteq> CHR ''='') t; pad = drop (length body) t
           in if list_all url_body body \<and> list_all (\<lambda>c. c = CHR ''='') pad
              then Inr (acc @ map u2s body @ pad) else Inl EncodingError)"
proof (induction t arbitrary: acc)
  case (Cons c t)
  show ?case
  proof (cases "c = CHR ''=''")
    case False
    show ?thesis
    proof (cases "url_body c")
      case True
      then have "NormalizeUrlInput_loop (c # t) False acc = NormalizeUrlInput_loop t False (acc @ [u2s c])"
        by (auto simp: url_body_def u2s_def)
      then show ?thesis using True False by (simp add: Cons.IH Let_def)
    qed (use False in \<open>auto simp: url_body_def\<close>)
  qed (simp add: NormalizeUrlInput_loop_seen)
qed simp

lemma NormalizeUrlInput_std:
  assumes ok: "list_all b64_ok body"
    and t: "t = map s2u body @ replicate k (CHR ''='')" "length t mod 4 \<noteq> 1" "k = 0 \<or> length t mod 4 = 0"
  shows "NormalizeUrlInput t = Some (Inr (b64_canon Required (body @ replicate k (CHR ''=''))))"
proof -
  have each: "u2s (s2u c) = c \<and> url_body (s2u c) \<and> c \<noteq> CHR ''=''" if "c \<in> set body" for c
    using ok ok_std that by (simp add: list_all_iff)
  then have body: "list_all url_body (map s2u body)" "CHR ''='' \<notin> set body"
    by (auto simp: list_all_iff)
  have inv: "map u2s (map s2u body) = body"
    unfolding map_map using each by (intro map_idI) simp
  have "CHR ''='' \<notin> set (map s2u body)"
    using body(1) unfolding list_all_iff url_body_def by blast
  then have tw: "takeWhile (\<lambda>c. c \<noteq> CHR ''='') t = map s2u body"
    unfolding t(1) by (rule takeWhile_pad)
  have pad: "drop (length (map s2u body)) t = replicate k (CHR ''='')" by (simp add: t(1))
  have loop: "NormalizeUrlInput_loop t False [] = Some (Inr (body @ replicate k (CHR ''='')))"
    unfolding NormalizeUrlInput_loop_eq Let_def tw pad
    using body(1) by (simp add: inv list_all_iff del: map_map list.set_map)
  have len: "length (body @ replicate k (CHR ''='')) = length t" by (simp add: t(1))
  show ?thesis
  proof (cases k)
    case 0
    with t(2) loop body(2) show ?thesis
      by (simp add: NormalizeUrlInput_def PadToQuartet_eq)
  next
    case (Suc j)
    with t(2,3) loop len show ?thesis
      by (simp add: NormalizeUrlInput_def)
  qed
qed

lemma NormalizeUrlInput_SomeD:
  assumes "NormalizeUrlInput t = Some (Inr n)"
  shows "\<exists>body k. t = body @ replicate k (CHR ''='') \<and> list_all url_body body \<and>
    (k = 0 \<or> length t mod 4 = 0) \<and> n = b64_canon Required (map u2s body @ replicate k (CHR ''=''))"
proof -
  define body where "body = takeWhile (\<lambda>c. c \<noteq> CHR ''='') t"
  define pad where "pad = drop (length body) t"
  have t: "t = body @ pad"
    unfolding pad_def body_def by (metis append_take_drop_id takeWhile_eq_take)
  have "NormalizeUrlInput_loop t False [] = Some (if list_all url_body body \<and> list_all (\<lambda>c. c = CHR ''='') pad
      then Inr (map u2s body @ pad) else Inl EncodingError)"
    by (simp add: NormalizeUrlInput_loop_eq Let_def body_def pad_def)
  with assms have ok: "list_all url_body body" "list_all (\<lambda>c. c = CHR ''='') pad"
    and n: "n = (if CHR ''='' \<notin> set (map u2s body @ pad) then PadToQuartet (map u2s body @ pad)
        else map u2s body @ pad)"
      "CHR ''='' \<in> set (map u2s body @ pad) \<Longrightarrow> length (map u2s body @ pad) mod 4 = 0"
    by (auto simp: NormalizeUrlInput_def split: if_splits)
  have pad: "pad = replicate (length pad) (CHR ''='')"
    using ok(2) by (simp add: list_all_iff replicate_length_same)
  have "n = b64_canon Required (map u2s body @ pad)"
    using n by (auto simp: PadToQuartet_eq)
  moreover have "length pad = 0 \<or> length t mod 4 = 0"
    using n(2) ok(2) by (cases pad) (auto simp: t)
  ultimately show ?thesis
    using ok(1) t pad by metis
qed

section \<open>Encoding and decoding are inverse\<close>

lemma EncodeBase64Url_eq: "EncodeBase64Url bs padding = Some (Inr (map s2u (b64_text bs padding)))"
  by (simp add: EncodeBase64Url_def EncodeBase64_eq ConvertStandardToUrl_map)

lemma DecodeBase64Url_encode: "DecodeBase64Url (map s2u (b64_text bs padding)) = Some (Inr bs)"
proof -
  let ?body = "map b64_char (sextets bs)"
  define k where "k = length (b64_pad (length bs) padding)"
  have pad: "b64_pad (length bs) padding = replicate k (CHR ''='')" by (simp add: k_def b64_pad_def)
  have k: "k = 0 \<or> (length ?body + k) mod 4 = 0"
    using length_padded [of bs] by (auto simp: k_def b64_pad_def)
  have "length ?body mod 4 \<noteq> 1" by (simp add: length_sextets_mod)
  with k have len: "(length ?body + k) mod 4 \<noteq> 1" by auto
  have "NormalizeUrlInput (map s2u (b64_text bs padding)) =
      Some (Inr (b64_canon Required (?body @ replicate k (CHR ''=''))))"
    using k len by (intro NormalizeUrlInput_std [OF ok_sextets]) (auto simp: b64_text_def pad)
  moreover have "?body @ replicate k (CHR ''='') = b64_text bs padding"
    by (simp add: b64_text_def pad)
  ultimately have "DecodeBase64Url (map s2u (b64_text bs padding)) = DecodeBase64 (b64_text bs Required)"
    using b64_canon_text [of Required bs padding] by (simp add: DecodeBase64Url_def)
  then show ?thesis by (simp add: DecodeBase64_eq b64_decode_text)
qed

lemma DecodeBase64Url_SomeD:
  assumes "DecodeBase64Url t = Some (Inr bs)"
  shows "\<exists>padding. t = map s2u (b64_text bs padding)"
proof -
  obtain n where n: "NormalizeUrlInput t = Some (Inr n)" and dec: "DecodeBase64 n = Some (Inr bs)"
    using assms unfolding DecodeBase64Url_def bind_eq_Some_conv case_sum_Inr_iff by blast
  obtain body k where t: "t = body @ replicate k (CHR ''='')" and ok: "list_all url_body body"
    and k: "k = 0 \<or> length t mod 4 = 0" and n': "n = b64_canon Required (map u2s body @ replicate k (CHR ''=''))"
    using NormalizeUrlInput_SomeD [OF n] by (elim exE conjE) (rule that)
  define m where "m = map u2s body"
  have inv: "map s2u m = body"
    unfolding m_def map_map using ok by (intro map_idI) (simp add: list_all_iff s2u_u2s)
  have "CHR ''='' \<notin> set m"
    using ok u2s_eq_pad unfolding m_def list_all_iff set_map by (metis imageE)
  note tw = takeWhile_pad [OF this]
  have "\<exists>p. n = b64_text bs p"
    using dec b64_text_of_decode by (auto simp: DecodeBase64_eq split: option.splits)
  then have canon: "b64_canon q n = b64_text bs q" for q using b64_canon_text by auto
  obtain j where j: "n = m @ replicate j (CHR ''='')"
    using n' by (auto simp: m_def simp flip: replicate_add)
  have omit: "m = b64_text bs Omit"
    using canon [of Omit] tw unfolding j by simp
  show ?thesis
  proof (cases k)
    case 0
    then show ?thesis using omit inv t by (intro exI [of _ Omit]) simp
  next
    case (Suc i)
    have "length t mod 4 = 0" using k Suc by simp
    then have "b64_canon Required (m @ replicate k (CHR ''='')) = m @ replicate k (CHR ''='')"
      by (simp add: t m_def)
    then have "b64_text bs Required = m @ replicate k (CHR ''='')"
      using canon [of Required] n' m_def by simp
    then show ?thesis using inv t by (intro exI [of _ Required]) simp
  qed
qed

interpretation b64url: strict_codec "\<lambda>bs. EncodeBase64Url bs padding" DecodeBase64Url
  "\<lambda>t. map s2u (b64_canon padding (map u2s t))"
proof
  fix bs t
  show "\<exists>t. EncodeBase64Url bs padding = Some (Inr t)" by (simp add: EncodeBase64Url_eq)
  show "EncodeBase64Url bs padding = Some (Inr t) \<Longrightarrow> DecodeBase64Url t = Some (Inr bs)"
    using DecodeBase64Url_encode by (auto simp: EncodeBase64Url_eq)
  have inv: "map u2s (map s2u (b64_text bs p)) = b64_text bs p" for p
    unfolding map_map using ok_sextets [of bs]
    by (intro map_idI) (auto simp: b64_text_def b64_pad_def list_all_iff ok_std)
  show "DecodeBase64Url t = Some (Inr bs) \<Longrightarrow>
      EncodeBase64Url bs padding = Some (Inr (map s2u (b64_canon padding (map u2s t))))"
    using DecodeBase64Url_SomeD [of t bs] by (auto simp: EncodeBase64Url_eq inv b64_canon_text simp del: map_map)
  show "DecodeBase64Url t \<noteq> None"
    by (auto simp: DecodeBase64Url_def NormalizeUrlInput_def NormalizeUrlInput_loop_eq Let_def
        DecodeBase64_eq split: sum.splits)
qed

lemma copy_loop_spec:
  assumes "length src = length out" "i \<le> length out"
  shows "copy_loop src out i = Some (take i out @ drop i src)"
  using assms
proof (induction src out i rule: copy_loop.induct)
  case (1 src out i)
  show ?case
  proof (cases "i < length out")
    case True
    have "copy_loop src out i = copy_loop src (out[i := src ! i]) (i + 1)"
      using True "1.prems" by (simp add: copy_loop.simps [of src out i] span_simps)
    also have "\<dots> = Some (take (i + 1) (out[i := src ! i]) @ drop (i + 1) src)"
      using True "1.prems" by (intro "1.IH" [of "src ! i"]) (simp add: span_simps)+
    finally show ?thesis
      using True "1.prems" by (simp add: take_Suc_conv_app_nth Cons_nth_drop_Suc)
  next
    case False
    with "1.prems" show ?thesis by (simp add: copy_loop.simps)
  qed
qed

section \<open>Properties\<close>

text \<open>
  C13: URL Base64 decoding accepts exactly the padded and the unpadded URL encoding of a byte string
  (characters of the standard alphabet are refused), returns that byte string for both, and
  otherwise reports \<open>EncodingError\<close>; \<open>DecodeBase64UrlInto\<close> fills a span of the right size with the
  same bytes and leaves any other span as it was.
\<close>

theorem DecodeBase64Url_exact:
  "(DecodeBase64Url t = Some (Inr bs) \<longleftrightarrow> (\<exists>padding. EncodeBase64Url bs padding = Some (Inr t))) \<and>
   (DecodeBase64Url t = Some (Inl EncodingError) \<or> (\<exists>bs. DecodeBase64Url t = Some (Inr bs))) \<and>
   DecodeBase64UrlInto t out =
     (case DecodeBase64Url t of None \<Rightarrow> None | Some (Inl e) \<Rightarrow> Some (Inl e, out)
      | Some (Inr bs) \<Rightarrow> if length out = length bs then Some (Inr (), bs)
                       else Some (Inl OutputBufferTooSmall, out))"
proof -
  have norm: "NormalizeUrlInput t = Some (Inl EncodingError) \<or> (\<exists>n. NormalizeUrlInput t = Some (Inr n))"
    by (auto simp: NormalizeUrlInput_def NormalizeUrlInput_loop_eq Let_def)
  have "DecodeBase64Url t = Some (Inr bs) \<longleftrightarrow> (\<exists>padding. EncodeBase64Url bs padding = Some (Inr t))"
    using DecodeBase64Url_SomeD b64url.dec_enc by (auto simp: EncodeBase64Url_eq)
  moreover have "DecodeBase64UrlInto t out =
     (case DecodeBase64Url t of None \<Rightarrow> None | Some (Inl e) \<Rightarrow> Some (Inl e, out)
      | Some (Inr bs) \<Rightarrow> if length out = length bs then Some (Inr (), bs)
                       else Some (Inl OutputBufferTooSmall, out))"
    using norm by (auto simp: DecodeBase64UrlInto_def DecodeBase64Url_def DecodeBase64_eq
        copy_loop_spec split: option.splits)
  ultimately show ?thesis
    using norm by (auto simp: DecodeBase64Url_def DecodeBase64_eq split: option.splits)
qed

end
