(* ===== verification/Digits.thy ===== *)
theory Digits
  imports NGIN_Prelude
begin

text \<open>
  Positional notation, shared by the DER lengths (base 256), the base-128 integers and the decimal
  and hexadecimal numbers of the network addresses: the digits of a number, most significant first
  and without leading zeros, and the value of a list of digits.
\<close>

section \<open>Definitions\<close>

function be_digits :: "nat \<Rightarrow> nat \<Rightarrow> nat list" where
  "be_digits B n = (if n = 0 \<or> B < 2 then [] else be_digits B (n div B) @ [n mod B])"
  by pat_completeness auto
termination
  by (relation "measure snd") auto

declare be_digits.simps [simp del]

text \<open>The value read after a prefix of value \<open>v\<close>; only the residue of a digit counts.\<close>

definition be_val :: "nat \<Rightarrow> nat \<Rightarrow> nat list \<Rightarrow> nat" where
  "be_val B v ds = foldl (\<lambda>v d. v * B + d mod B) v ds"

section \<open>Values\<close>

lemma be_val_simps [simp]:
  "be_val B v [] = v"
  "be_val B v (d # ds) = be_val B (v * B + d mod B) ds"
  "be_val B v (ds @ es) = be_val B (be_val B v ds) es"
  by (simp_all add: be_val_def)

lemma be_val_mono: "v \<le> w \<Longrightarrow> be_val B v ds \<le> be_val B w ds"
  by (induction ds arbitrary: v w) (simp_all add: add_mono)

lemma be_val_ge: "0 < B \<Longrightarrow> v \<le> be_val B v ds"
proof (induction ds arbitrary: v)
  case (Cons d ds)
  have "v \<le> v * B + d mod B" using Cons.prems by (simp add: trans_le_add1)
  then show ?case using Cons.IH [of "v * B + d mod B"] Cons.prems by simp
qed simp

lemma be_val_less: "0 < B \<Longrightarrow> be_val B v ds < (v + 1) * B ^ length ds"
proof (induction ds arbitrary: v)
  case (Cons d ds)
  have "be_val B (v * B + d mod B) ds < (v * B + d mod B + 1) * B ^ length ds"
    using Cons by blast
  also have "\<dots> \<le> (v * B + B) * B ^ length ds"
    using Suc_leI [OF mod_less_divisor [OF Cons.prems, of d]] by (intro mult_right_mono) simp_all
  finally show ?case by (simp add: algebra_simps)
qed simp

section \<open>Digits\<close>

lemma be_digits_0 [simp]: "be_digits B 0 = []"
  by (simp add: be_digits.simps)

lemma be_digits_pos: "0 < n \<Longrightarrow> 2 \<le> B \<Longrightarrow> be_digits B n = be_digits B (n div B) @ [n mod B]"
  by (subst be_digits.simps) simp

lemma be_digits_eq_Nil: "2 \<le> B \<Longrightarrow> be_digits B n = [] \<longleftrightarrow> n = 0"
  by (cases "n = 0") (simp_all add: be_digits_pos)

lemma be_digits_less: "d \<in> set (be_digits B n) \<Longrightarrow> d < B"
proof (induction B n rule: be_digits.induct)
  case (1 B n)
  then show ?case
    by (cases "n = 0 \<or> B < 2") (auto simp: be_digits.simps [of B n])
qed

lemma be_val_digits: "2 \<le> B \<Longrightarrow> be_val B 0 (be_digits B n) = n"
proof (induction B n rule: be_digits.induct)
  case (1 B n)
  then show ?case
    by (cases "n = 0") (simp_all add: be_digits_pos)
qed

lemma be_digits_hd: "2 \<le> B \<Longrightarrow> 0 < n \<Longrightarrow> hd (be_digits B n) \<noteq> 0"
proof (induction B n rule: be_digits.induct)
  case (1 B n)
  show ?case
  proof (cases "n div B = 0")
    case True
    with "1.prems" show ?thesis by (simp add: be_digits_pos div_eq_0_iff)
  next
    case False
    with 1 have "hd (be_digits B (n div B)) \<noteq> 0" by simp
    moreover have "hd (be_digits B n) = hd (be_digits B (n div B))"
      using False "1.prems" be_digits_eq_Nil [of B "n div B"] by (simp add: be_digits_pos [of n B])
    ultimately show ?thesis by simp
  qed
qed

lemma be_digits_val:
  assumes "2 \<le> B" "ds = [] \<or> hd ds mod B \<noteq> 0"
  shows "be_digits B (be_val B 0 ds) = map (\<lambda>d. d mod B) ds"
  using assms(2)
proof (induction ds rule: rev_induct)
  case (snoc d ds)
  show ?case
  proof (cases "ds = []")
    case True
    with snoc.prems have "0 < d mod B" by simp
    then show ?thesis
      using True assms(1) be_digits_pos [of "d mod B" B] by simp
  next
    case False
    with snoc have IH: "be_digits B (be_val B 0 ds) = map (\<lambda>d. d mod B) ds" by simp
    with False have "be_val B 0 ds \<noteq> 0" by (metis be_digits_0 map_is_Nil_conv)
    with assms(1) IH show ?thesis
      by (simp add: be_digits_pos)
  qed
qed simp

lemma length_be_digits:
  assumes "2 \<le> B" "n < B ^ k"
  shows "length (be_digits B n) \<le> k"
  using assms(2)
proof (induction k arbitrary: n)
  case (Suc k)
  show ?case
  proof (cases "n = 0")
    case False
    have "n div B < B ^ k"
      using Suc.prems assms(1) by (simp add: less_mult_imp_div_less mult.commute)
    with Suc.IH False assms(1) show ?thesis by (simp add: be_digits_pos)
  qed simp
qed simp

lemma be_digits_inj: "2 \<le> B \<Longrightarrow> be_digits B m = be_digits B n \<Longrightarrow> m = n"
  by (metis be_val_digits)

end
