(* ===== verification/Crypto_Der.thy ===== *)
theory Crypto_Der
  imports Crypto_Hex Digits
begin

text \<open>
  Strict DER (\<open>src/NGIN/Crypto/Encoding/Der.cpp\<close> and \<open>Der.hpp\<close>): the streaming reader
  \<open>DerReader\<close>, the typed readers and the encoders.

  A \<open>UInt64\<close> or \<open>UIntSize\<close> is a \<^typ>\<open>nat\<close>; every left shift of the code is written with its
  truncation \<open>mod 2 ^ 64\<close>. The reader changes its offset also where it fails, so \<open>ReadElement\<close>
  returns the reader with the result. Fixed arrays (\<open>encoded[10]\<close>, \<open>encoded[8]\<close>) are spans, and a
  write past them would be \<^const>\<open>None\<close>.
\<close>

section \<open>Data\<close>

datatype DerTagClass = Universal | Application | ContextSpecific | Private

datatype DerUniversalTag =
    TagBoolean | TagInteger | TagBitString | TagOctetString | TagNull | TagObjectIdentifier
  | TagSequence | TagSet

record DerTag =
  tagClass :: DerTagClass
  constructed :: bool
  number :: nat

record DerElement =
  elem_tag :: DerTag
  elem_value :: bytes
  elem_encoded :: bytes

record DerBitString =
  unusedBitCount :: nat
  bit_bytes :: bytes

record DerReadOptions =
  maxElementBytes :: nat
  maxDepth :: nat

record DerReader =
  m_input :: bytes
  m_options :: DerReadOptions
  m_offset :: nat
  m_depth :: nat

fun universal_number :: "DerUniversalTag \<Rightarrow> nat" where
  "universal_number TagBoolean = 1"
| "universal_number TagInteger = 2"
| "universal_number TagBitString = 3"
| "universal_number TagOctetString = 4"
| "universal_number TagNull = 5"
| "universal_number TagObjectIdentifier = 6"
| "universal_number TagSequence = 16"
| "universal_number TagSet = 17"

definition MakeDerUniversalTag :: "DerUniversalTag \<Rightarrow> bool \<Rightarrow> DerTag" where
  "MakeDerUniversalTag t c = \<lparr>tagClass = Universal, constructed = c, number = universal_number t\<rparr>"

section \<open>Helpers\<close>

fun class_code :: "DerTagClass \<Rightarrow> nat" where
  "class_code Universal = 0"
| "class_code Application = 1"
| "class_code ContextSpecific = 2"
| "class_code Private = 3"

definition EncodeTagClass :: "DerTagClass \<Rightarrow> nat" where
  "EncodeTagClass c = push_bit 6 (class_code c)"

definition DecodeTagClass :: "nat \<Rightarrow> DerTagClass" where
  "DecodeTagClass identifier =
     (let k = drop_bit 6 identifier AND 0x03
      in if k = 0 then Universal else if k = 1 then Application
         else if k = 2 then ContextSpecific else Private)"

definition IsMinimalInteger :: "bytes \<Rightarrow> bool" where
  "IsMinimalInteger v =
     (case v of [] \<Rightarrow> False | [_] \<Rightarrow> True
      | first # second # _ \<Rightarrow>
          \<not> (unat first = 0x00 \<and> unat second AND 0x80 = 0) \<and>
          \<not> (unat first = 0xff \<and> unat second AND 0x80 \<noteq> 0))"

definition IsValidBitStringValue :: "nat \<Rightarrow> bytes \<Rightarrow> bool" where
  "IsValidBitStringValue unused bs =
     (if 7 < unused then False
      else if bs = [] then unused = 0
      else if unused = 0 then True
      else unat (last bs) AND (push_bit unused 1 - 1) = 0)"

section \<open>Base-128 integers\<close>

function ReadBase128Integer_loop ::
  "bytes \<Rightarrow> nat \<Rightarrow> nat \<Rightarrow> bool \<Rightarrow> bool \<Rightarrow> ((CryptoErrorCode + nat \<times> bool) \<times> nat) option" where
  "ReadBase128Integer_loop input offset v firstOctet hasMoreBytes =
     (if offset < length input \<and> hasMoreBytes then do {
        octet \<leftarrow> span_at input offset;
        let offset' = offset + 1; more = (unat octet AND 0x80 \<noteq> 0) in
        if firstOctet \<and> more \<and> unat octet AND 0x7f = 0 then Some (Inl ParseError, offset')
        else if drop_bit 7 (2 ^ 64 - 1) < v then Some (Inl ParseError, offset')
        else ReadBase128Integer_loop input offset'
               (push_bit 7 v mod 2 ^ 64 OR (unat octet AND 0x7f)) False more
      } else Some (Inr (v, hasMoreBytes), offset))"
  by pat_completeness auto
termination
  by (relation "measure (\<lambda>(input, offset, v, f, h). length input - offset)") auto

declare ReadBase128Integer_loop.simps [simp del]

definition ReadBase128Integer :: "bytes \<Rightarrow> nat \<Rightarrow> ((CryptoErrorCode + nat) \<times> nat) option" where
  "ReadBase128Integer input offset =
     (if length input \<le> offset then Some (Inl ParseError, offset)
      else do {
        (r, offset) \<leftarrow> ReadBase128Integer_loop input offset 0 True True;
        (case r of Inl e \<Rightarrow> Some (Inl e, offset)
         | Inr (v, hasMoreBytes) \<Rightarrow>
             if hasMoreBytes then Some (Inl ParseError, offset) else Some (Inr v, offset)) })"

function AppendBase128Integer_digits :: "nat \<Rightarrow> bytes \<times> nat \<Rightarrow> (bytes \<times> nat) option" where
  "AppendBase128Integer_digits v enc =
     (if v \<noteq> 0 then do {
        enc \<leftarrow> emit enc [to_byte (0x80 OR (v AND 0x7f))];
        AppendBase128Integer_digits (drop_bit 7 v) enc
      } else Some enc)"
  by pat_completeness auto
termination
  by (relation "measure fst") (auto simp: drop_bit_eq_div)

declare AppendBase128Integer_digits.simps [simp del]

text \<open>\<open>for (i = 0; i < count; ++i) AppendByte(output, encoded[count - i - 1])\<close>\<close>

function append_reversed :: "bytes \<Rightarrow> nat \<Rightarrow> nat \<Rightarrow> bytes \<Rightarrow> bytes option" where
  "append_reversed enc count i output =
     (if i < count then do {
        b \<leftarrow> span_at enc (count - i - 1);
        append_reversed enc count (i + 1) (output @ [b])
      } else Some output)"
  by pat_completeness auto
termination
  by (relation "measure (\<lambda>(enc, count, i, output). count - i)") auto

declare append_reversed.simps [simp del]

definition AppendBase128Integer :: "bytes \<Rightarrow> nat \<Rightarrow> bytes crypto" where
  "AppendBase128Integer output v = do {
     enc \<leftarrow> emit (replicate 10 0, 0) [to_byte (v AND 0x7f)];
     (enc, count) \<leftarrow> AppendBase128Integer_digits (drop_bit 7 v) enc;
     output \<leftarrow> append_reversed enc count 0 output;
     Some (Inr output) }"

section \<open>Identifier and length octets\<close>

definition AppendIdentifier :: "bytes \<Rightarrow> DerTag \<Rightarrow> bytes crypto" where
  "AppendIdentifier output t =
     (if number t < 31
      then Some (Inr (output @
        [to_byte (EncodeTagClass (tagClass t) OR (if constructed t then 0x20 else 0) OR number t)]))
      else AppendBase128Integer (output @
        [to_byte (EncodeTagClass (tagClass t) OR (if constructed t then 0x20 else 0) OR 0x1f)]) (number t))"

function AppendLength_digits :: "nat \<Rightarrow> bytes \<times> nat \<Rightarrow> (bytes \<times> nat) option" where
  "AppendLength_digits remaining enc =
     (if remaining \<noteq> 0 then do {
        enc \<leftarrow> emit enc [to_byte (remaining AND 0xff)];
        AppendLength_digits (drop_bit 8 remaining) enc
      } else Some enc)"
  by pat_completeness auto
termination
  by (relation "measure fst") (auto simp: drop_bit_eq_div)

declare AppendLength_digits.simps [simp del]

definition AppendLength :: "bytes \<Rightarrow> nat \<Rightarrow> bytes crypto" where
  "AppendLength output len =
     (if len \<le> 127 then Some (Inr (output @ [to_byte len]))
      else do {
        (enc, count) \<leftarrow> AppendLength_digits len (replicate 8 0, 0);
        if 126 < count then Some (Inl InvalidArgument)
        else do {
          output \<leftarrow> append_reversed enc count 0 (output @ [to_byte (0x80 OR count)]);
          Some (Inr output) } })"

section \<open>The reader\<close>

definition MakeDerReader :: "bytes \<Rightarrow> DerReadOptions \<Rightarrow> nat \<Rightarrow> DerReader" where
  "MakeDerReader input options depth =
     \<lparr>m_input = input, m_options = options, m_offset = 0, m_depth = depth\<rparr>"

definition IsAtEnd :: "DerReader \<Rightarrow> bool" where
  "IsAtEnd r \<longleftrightarrow> m_offset r = length (m_input r)"

definition Remaining :: "DerReader \<Rightarrow> nat" where
  "Remaining r = length (m_input r) - m_offset r"

fun ReadLength_loop :: "nat \<Rightarrow> bytes \<Rightarrow> nat \<Rightarrow> nat \<Rightarrow> ((CryptoErrorCode + nat) \<times> nat) option" where
  "ReadLength_loop 0 input len offset = Some (Inr len, offset)"
| "ReadLength_loop (Suc n) input len offset =
     (if drop_bit 8 (2 ^ 64 - 1) < len then Some (Inl ParseError, offset)
      else do {
        b \<leftarrow> span_at input offset;
        ReadLength_loop n input (push_bit 8 len mod 2 ^ 64 OR unat b) (offset + 1) })"

definition ReadTag :: "DerReader \<Rightarrow> ((CryptoErrorCode + DerTag) \<times> DerReader) option" where
  "ReadTag r =
     (if length (m_input r) \<le> m_offset r then Some (Inl ParseError, r)
      else do {
        b \<leftarrow> span_at (m_input r) (m_offset r);
        let identifier = unat b;
            r = r\<lparr>m_offset := m_offset r + 1\<rparr>;
            t = \<lparr>tagClass = DecodeTagClass identifier, constructed = identifier AND 0x20 \<noteq> 0,
                 number = identifier AND 0x1f\<rparr>
        in if number t = 0x1f then do {
             (h, offset) \<leftarrow> ReadBase128Integer (m_input r) (m_offset r);
             (case h of
                Inl e \<Rightarrow> Some (Inl ParseError, r\<lparr>m_offset := offset\<rparr>)
              | Inr v \<Rightarrow> if v < 31 \<or> 2 ^ 32 - 1 < v then Some (Inl ParseError, r\<lparr>m_offset := offset\<rparr>)
                        else Some (Inr (t\<lparr>number := v\<rparr>), r\<lparr>m_offset := offset\<rparr>)) }
           else Some (Inr t, r) })"

definition ReadLength :: "DerReader \<Rightarrow> ((CryptoErrorCode + nat) \<times> DerReader) option" where
  "ReadLength r =
     (if length (m_input r) \<le> m_offset r then Some (Inl ParseError, r)
      else do {
        b \<leftarrow> span_at (m_input r) (m_offset r);
        let first = unat b; r = r\<lparr>m_offset := m_offset r + 1\<rparr>
        in if first AND 0x80 = 0 then Some (Inr first, r)
           else let lengthOctets = first AND 0x7f in
             if lengthOctets = 0 \<or> 8 < lengthOctets \<or> Remaining r < lengthOctets
             then Some (Inl ParseError, r)
             else do {
               b0 \<leftarrow> span_at (m_input r) (m_offset r);
               if unat b0 = 0 then Some (Inl ParseError, r)
               else do {
                 (l, offset) \<leftarrow> ReadLength_loop lengthOctets (m_input r) 0 (m_offset r);
                 let r = r\<lparr>m_offset := offset\<rparr> in
                 (case l of Inl e \<Rightarrow> Some (Inl e, r)
                  | Inr len \<Rightarrow> if len \<le> 127 then Some (Inl ParseError, r) else Some (Inr len, r)) } } })"

definition ReadElement :: "DerReader \<Rightarrow> ((CryptoErrorCode + DerElement) \<times> DerReader) option" where
  "ReadElement r = do {
     let elementStart = m_offset r;
     (t, r) \<leftarrow> ReadTag r;
     (case t of Inl e \<Rightarrow> Some (Inl e, r)
      | Inr t \<Rightarrow> do {
          (l, r) \<leftarrow> ReadLength r;
          (case l of Inl e \<Rightarrow> Some (Inl e, r)
           | Inr len \<Rightarrow>
               if maxElementBytes (m_options r) < len \<or> Remaining r < len then Some (Inl ParseError, r)
               else let valueStart = m_offset r; r = r\<lparr>m_offset := m_offset r + len\<rparr> in
                 Some (Inr \<lparr>elem_tag = t, elem_value = substr (m_input r) valueStart len,
                            elem_encoded = substr (m_input r) elementStart (m_offset r - elementStart)\<rparr>, r)) }) }"

definition EnterConstructed :: "DerReader \<Rightarrow> DerElement \<Rightarrow> CryptoErrorCode + DerReader" where
  "EnterConstructed r e =
     (if \<not> constructed (elem_tag e) \<or> maxDepth (m_options r) \<le> m_depth r then Inl ParseError
      else Inr (MakeDerReader (elem_value e) (m_options r) (m_depth r + 1)))"

section \<open>Typed readers\<close>

definition IsDerUniversalElement :: "DerElement \<Rightarrow> DerUniversalTag \<Rightarrow> bool \<Rightarrow> bool" where
  "IsDerUniversalElement e t c \<longleftrightarrow> elem_tag e = MakeDerUniversalTag t c"

definition ReadDerInteger :: "DerElement \<Rightarrow> CryptoErrorCode + bytes" where
  "ReadDerInteger e =
     (if \<not> IsDerUniversalElement e TagInteger False \<or> \<not> IsMinimalInteger (elem_value e)
      then Inl ParseError else Inr (elem_value e))"

definition ReadDerBitString :: "DerElement \<Rightarrow> CryptoErrorCode + DerBitString" where
  "ReadDerBitString e =
     (if \<not> IsDerUniversalElement e TagBitString False then Inl ParseError
      else case elem_value e of [] \<Rightarrow> Inl ParseError
      | u # bs \<Rightarrow> if \<not> IsValidBitStringValue (unat u) bs then Inl ParseError
                 else Inr \<lparr>unusedBitCount = unat u, bit_bytes = bs\<rparr>)"

definition ReadDerOctetString :: "DerElement \<Rightarrow> CryptoErrorCode + bytes" where
  "ReadDerOctetString e =
     (if \<not> IsDerUniversalElement e TagOctetString False then Inl ParseError else Inr (elem_value e))"

text \<open>A base-128 read inside the input moves the offset forward, which ends the loop over the arcs.\<close>

lemma ReadBase128Integer_loop_stop:
  "ReadBase128Integer_loop input offset v f False = Some (Inr (v, False), offset)"
  "length input \<le> offset \<Longrightarrow> ReadBase128Integer_loop input offset v f h = Some (Inr (v, h), offset)"
  by (simp_all add: ReadBase128Integer_loop.simps [of input offset v f False]
      ReadBase128Integer_loop.simps [of input offset v f h])

lemma ReadBase128Integer_loop_step:
  assumes "offset < length input"
  shows "ReadBase128Integer_loop input offset v f True =
    (let octet = unat (input ! offset); more = (octet AND 0x80 \<noteq> 0) in
     if f \<and> more \<and> octet AND 0x7f = 0 then Some (Inl ParseError, offset + 1)
     else if drop_bit 7 (2 ^ 64 - 1) < v then Some (Inl ParseError, offset + 1)
     else ReadBase128Integer_loop input (offset + 1) (push_bit 7 v mod 2 ^ 64 OR (octet AND 0x7f)) False more)"
  using assms by (simp add: ReadBase128Integer_loop.simps [of input offset v f True] span_at_def Let_def)

lemma ReadBase128Integer_loop_mono:
  assumes "ReadBase128Integer_loop input offset v f h = Some (r, offset')" "offset \<le> length input"
  shows "offset \<le> offset' \<and> offset' \<le> length input \<and> (offset < length input \<and> h \<longrightarrow> offset < offset')"
  using assms
proof (induction "length input - offset" arbitrary: offset v f h)
  case 0
  then show ?case by (simp add: ReadBase128Integer_loop_stop)
next
  case (Suc n)
  show ?case
  proof (cases h)
    case True
    from Suc.hyps(2) have lt: "offset < length input" by simp
    show ?thesis
    proof (cases "offset' = offset + 1")
      case False
      with Suc.prems True lt obtain v' h' where "ReadBase128Integer_loop input (offset + 1) v' False h' = Some (r, offset')"
        by (auto simp: ReadBase128Integer_loop_step Let_def split: if_splits)
      moreover have "n = length input - (offset + 1)" using Suc.hyps(2) by simp
      ultimately show ?thesis using Suc.hyps(1) [of "offset + 1" v' False h'] lt by simp
    qed (use lt in simp)
  next
    case False
    with Suc.prems show ?thesis by (simp add: ReadBase128Integer_loop_stop)
  qed
qed

lemma ReadBase128Integer_mono:
  assumes "ReadBase128Integer input offset = Some (r, offset')" "offset < length input"
  shows "offset < offset' \<and> offset' \<le> length input"
proof -
  obtain r0 off0 where loop: "ReadBase128Integer_loop input offset 0 True True = Some (r0, off0)"
    using assms by (cases "ReadBase128Integer_loop input offset 0 True True")
      (auto simp: ReadBase128Integer_def)
  with assms have "off0 = offset'"
    by (cases r0) (auto simp: ReadBase128Integer_def split: if_splits)
  with loop show ?thesis using ReadBase128Integer_loop_mono assms(2) by fastforce
qed

function ReadDerObjectIdentifier_loop :: "bytes \<Rightarrow> nat \<Rightarrow> nat list \<Rightarrow> (nat list) crypto" where
  "ReadDerObjectIdentifier_loop v offset arcs =
     (if offset < length v then do {
        (arc, offset') \<leftarrow> ReadBase128Integer v offset;
        (case arc of Inl e \<Rightarrow> Some (Inl ParseError)
         | Inr a \<Rightarrow> if 2 ^ 32 - 1 < a then Some (Inl ParseError)
                   else ReadDerObjectIdentifier_loop v offset' (arcs @ [a])) }
      else Some (Inr arcs))"
  by pat_completeness auto
termination
  by (relation "measure (\<lambda>(v, offset, arcs). length v - offset)")
    (auto dest: ReadBase128Integer_mono)

declare ReadDerObjectIdentifier_loop.simps [simp del]

definition ReadDerObjectIdentifier :: "DerElement \<Rightarrow> (nat list) crypto" where
  "ReadDerObjectIdentifier e =
     (if \<not> IsDerUniversalElement e TagObjectIdentifier False \<or> elem_value e = []
      then Some (Inl ParseError)
      else do {
        (first, offset) \<leftarrow> ReadBase128Integer (elem_value e) 0;
        (case first of Inl err \<Rightarrow> Some (Inl err)
         | Inr firstValue \<Rightarrow>
             if firstValue < 40
             then ReadDerObjectIdentifier_loop (elem_value e) offset [0, firstValue]
             else if firstValue < 80
             then ReadDerObjectIdentifier_loop (elem_value e) offset [1, firstValue - 40]
             else if 2 ^ 32 - 1 < firstValue - 80 then Some (Inl ParseError)
             else ReadDerObjectIdentifier_loop (elem_value e) offset [2, firstValue - 80]) })"

definition ReadDerSequence :: "DerReader \<Rightarrow> DerElement \<Rightarrow> CryptoErrorCode + DerReader" where
  "ReadDerSequence parent e =
     (if \<not> IsDerUniversalElement e TagSequence True then Inl ParseError else EnterConstructed parent e)"

definition ReadDerSet :: "DerReader \<Rightarrow> DerElement \<Rightarrow> CryptoErrorCode + DerReader" where
  "ReadDerSet parent e =
     (if \<not> IsDerUniversalElement e TagSet True then Inl ParseError else EnterConstructed parent e)"

section \<open>Encoders\<close>

definition EncodeDerElement :: "DerTag \<Rightarrow> bytes \<Rightarrow> bytes crypto" where
  "EncodeDerElement t v = do {
     identifier \<leftarrow> AppendIdentifier [] t;
     (case identifier of Inl e \<Rightarrow> Some (Inl e) | Inr output \<Rightarrow> do {
       len \<leftarrow> AppendLength output (length v);
       (case len of Inl e \<Rightarrow> Some (Inl e) | Inr output \<Rightarrow> Some (Inr (output @ v))) }) }"

definition EncodeDerInteger :: "bytes \<Rightarrow> bytes crypto" where
  "EncodeDerInteger v =
     (if \<not> IsMinimalInteger v then Some (Inl InvalidArgument)
      else EncodeDerElement (MakeDerUniversalTag TagInteger False) v)"

definition EncodeDerBitString :: "nat \<Rightarrow> bytes \<Rightarrow> bytes crypto" where
  "EncodeDerBitString unused bs =
     (if \<not> IsValidBitStringValue unused bs then Some (Inl InvalidArgument)
      else EncodeDerElement (MakeDerUniversalTag TagBitString False) (to_byte unused # bs))"

definition EncodeDerOctetString :: "bytes \<Rightarrow> bytes crypto" where
  "EncodeDerOctetString v = EncodeDerElement (MakeDerUniversalTag TagOctetString False) v"

fun AppendArcs :: "bytes \<Rightarrow> nat list \<Rightarrow> bytes crypto" where
  "AppendArcs v [] = Some (Inr v)"
| "AppendArcs v (a # arcs) = do {
     r \<leftarrow> AppendBase128Integer v a;
     (case r of Inl e \<Rightarrow> Some (Inl e) | Inr v \<Rightarrow> AppendArcs v arcs) }"

definition EncodeDerObjectIdentifier :: "nat list \<Rightarrow> bytes crypto" where
  "EncodeDerObjectIdentifier arcs =
     (if length arcs < 2 \<or> 2 < arcs ! 0 \<or> (arcs ! 0 < 2 \<and> 39 < arcs ! 1)
      then Some (Inl InvalidArgument)
      else do {
        first \<leftarrow> AppendBase128Integer [] ((arcs ! 0 * 40 + arcs ! 1) mod 2 ^ 64);
        (case first of Inl e \<Rightarrow> Some (Inl e) | Inr v \<Rightarrow> do {
          rest \<leftarrow> AppendArcs v (drop 2 arcs);
          (case rest of Inl e \<Rightarrow> Some (Inl e)
           | Inr v \<Rightarrow> EncodeDerElement (MakeDerUniversalTag TagObjectIdentifier False) v) }) })"

definition EncodeDerSequence :: "bytes \<Rightarrow> bytes crypto" where
  "EncodeDerSequence encodedChildren = EncodeDerElement (MakeDerUniversalTag TagSequence True) encodedChildren"

definition EncodeDerSet :: "bytes \<Rightarrow> bytes crypto" where
  "EncodeDerSet encodedChildren = EncodeDerElement (MakeDerUniversalTag TagSet True) encodedChildren"

section \<open>Base-128 integers, against their digits\<close>

text \<open>The digits of a number in base 128, all but the last one marked with the top bit.\<close>

definition b128 :: "nat \<Rightarrow> bytes" where
  "b128 n = map (\<lambda>d. to_byte (128 + d)) (be_digits 128 (n div 128)) @ [to_byte (n mod 128)]"

lemma AppendBase128Integer_digits_spec:
  "length (be_digits 128 v) \<le> length rest \<Longrightarrow>
   AppendBase128Integer_digits v (done @ rest, length done) =
     (let ds = map (\<lambda>d. to_byte (128 + d)) (rev (be_digits 128 v))
      in Some ((done @ ds) @ drop (length ds) rest, length (done @ ds)))"
proof (induction v arbitrary: "done" rest rule: less_induct)
  case (less v)
  show ?case
  proof (cases "v = 0")
    case True
    then show ?thesis by (simp add: AppendBase128Integer_digits.simps [of 0])
  next
    case False
    then have ds: "be_digits 128 v = be_digits 128 (v div 128) @ [v mod 128]"
      by (simp add: be_digits_pos)
    with less.prems obtain r rest' where rest: "rest = r # rest'" by (cases rest) auto
    let ?d = "to_byte (128 + v mod 128)"
    have "AppendBase128Integer_digits v (done @ rest, length done) =
      AppendBase128Integer_digits (v div 128) ((done @ [?d]) @ rest', length (done @ [?d]))"
      using False rest by (simp add: AppendBase128Integer_digits.simps [of v] span_put_append
        nat_and_masks or_0x80 drop_bit_eq_div)
    also have "\<dots> = (let ds = map (\<lambda>d. to_byte (128 + d)) (rev (be_digits 128 (v div 128)))
      in Some (((done @ [?d]) @ ds) @ drop (length ds) rest', length ((done @ [?d]) @ ds)))"
      using False less.prems ds rest by (intro less.IH) simp_all
    finally show ?thesis using ds rest by (simp add: Let_def)
  qed
qed

lemma append_reversed_spec:
  "i \<le> length xs \<Longrightarrow> append_reversed (xs @ rest) (length xs) i out = Some (out @ drop i (rev xs))"
proof (induction "length xs - i" arbitrary: i out)
  case 0
  then show ?case by (simp add: append_reversed.simps [of _ _ i])
next
  case (Suc n)
  then have i: "i < length xs" by simp
  then have "drop i (rev xs) = rev xs ! i # drop (i + 1) (rev xs)"
    by (simp add: Cons_nth_drop_Suc)
  moreover have "rev xs ! i = xs ! (length xs - i - 1)"
    using i by (simp add: rev_nth)
  moreover have "append_reversed (xs @ rest) (length xs) (i + 1) (out @ [xs ! (length xs - i - 1)]) =
      Some ((out @ [xs ! (length xs - i - 1)]) @ drop (i + 1) (rev xs))"
    using Suc i by (intro Suc.hyps(1)) simp_all
  moreover have "length xs - i - 1 < length xs" using i by simp
  ultimately show ?case
    using i by (simp add: append_reversed.simps [of _ _ i] span_at_def nth_append)
qed

text \<open>A value of 64 bits has at most ten digits, so the array of the code is large enough.\<close>

lemma AppendBase128Integer_spec:
  assumes "n < 2 ^ 64"
  shows "AppendBase128Integer out n = Some (Inr (out @ b128 n))"
proof -
  have "n div 128 < 128 ^ 9" using assms by simp
  then have len: "length (be_digits 128 (n div 128)) \<le> 9" by (intro length_be_digits) simp_all
  have arr: "replicate 10 (0::byte) = 0 # replicate 9 0" by (simp add: numeral_eq_Suc)
  let ?f = "to_byte (n mod 128)"
  let ?ds = "map (\<lambda>d. to_byte (128 + d)) (rev (be_digits 128 (n div 128)))"
  have "AppendBase128Integer_digits (n div 128) ([?f] @ replicate 9 0, length [?f]) =
      Some (([?f] @ ?ds) @ drop (length ?ds) (replicate 9 0), length ([?f] @ ?ds))"
    using len by (subst AppendBase128Integer_digits_spec) (simp_all add: Let_def)
  moreover have "append_reversed (([?f] @ ?ds) @ drop (length ?ds) (replicate 9 0)) (length ([?f] @ ?ds)) 0 out =
      Some (out @ b128 n)"
    by (subst append_reversed_spec) (simp_all add: b128_def rev_map)
  ultimately show ?thesis
    by (simp add: AppendBase128Integer_def arr span_put_def nat_and_masks drop_bit_eq_div)
qed

text \<open>The octets that the reading loop accepts after a prefix of value \<open>v\<close>.\<close>

lemma mod_128_high: "128 \<le> unat (d::byte) \<Longrightarrow> unat d mod 128 = unat d - 128"
proof -
  assume "128 \<le> unat d"
  moreover have "unat d - 128 < 128" using unat_byte_less [of d] by linarith
  ultimately show ?thesis by (simp add: le_mod_geq)
qed

definition b128_octets :: "bool \<Rightarrow> bytes \<Rightarrow> byte \<Rightarrow> bool" where
  "b128_octets isFirst ds f \<longleftrightarrow>
     (\<forall>d\<in>set ds. 128 \<le> unat d) \<and> unat f < 128 \<and> (isFirst \<longrightarrow> ds = [] \<or> unat (hd ds) \<noteq> 128)"

lemma ReadBase128Integer_loop_arith:
  assumes "offset < length input"
  shows "ReadBase128Integer_loop input offset v f True =
    (let x = unat (input ! offset) in
     if f \<and> 128 \<le> x \<and> x mod 128 = 0 \<or> 2 ^ 57 \<le> v then Some (Inl ParseError, offset + 1)
     else ReadBase128Integer_loop input (offset + 1) (v * 128 + x mod 128) False (128 \<le> x))"
proof -
  let ?x = "unat (input ! offset)"
  have more: "(?x AND 0x80 \<noteq> 0) = (128 \<le> ?x)" by (simp add: and_0x80 not_less)
  have v: "drop_bit 7 (2 ^ 64 - 1) < v \<longleftrightarrow> 2 ^ 57 \<le> v" using not_overflow [of v 7] by auto
  have "\<not> 2 ^ 57 \<le> v \<Longrightarrow> push_bit 7 v mod 2 ^ 64 OR ?x mod 128 = v * 128 + ?x mod 128"
    using shift_or [of v 7 "?x mod 128"] by simp
  then show ?thesis
    unfolding ReadBase128Integer_loop_step [OF assms] Let_def more v nat_and_masks
    by (auto simp del: power_numeral)
qed

lemma ReadBase128Integer_loop_accept:
  assumes "b128_octets isFirst ds f" "be_val 128 v (map unat (ds @ [f])) < 2 ^ 64"
  shows "ReadBase128Integer_loop (pre @ ds @ f # rest) (length pre) v isFirst True =
    Some (Inr (be_val 128 v (map unat (ds @ [f])), False), length pre + length ds + 1)"
  using assms
proof (induction ds arbitrary: pre v isFirst)
  case Nil
  then have "v < 2 ^ 57" "unat f < 128" by (simp_all add: b128_octets_def)
  then show ?case
    by (simp add: ReadBase128Integer_loop_arith Let_def ReadBase128Integer_loop_stop)
next
  case (Cons d ds)
  let ?v = "v * 128 + unat d mod 128"
  have d: "128 \<le> unat d" "isFirst \<longrightarrow> unat d \<noteq> 128" and rec: "b128_octets False ds f"
    using Cons.prems(1) by (auto simp: b128_octets_def)
  have "\<not> (isFirst \<and> unat d mod 128 = 0)" using d by (auto simp: mod_128_high)
  moreover have v: "be_val 128 ?v (map unat (ds @ [f])) < 2 ^ 64" using Cons.prems(2) by simp
  moreover have "v < 2 ^ 57"
    using v be_val_ge [of 128 ?v "map unat (ds @ [f])"] by simp
  ultimately show ?case
    using d Cons.IH [OF rec v, of "pre @ [d]"] by (simp add: ReadBase128Integer_loop_arith Let_def)
qed

lemma ReadBase128Integer_loop_inv:
  assumes "ReadBase128Integer_loop (pre @ tail) (length pre) v isFirst True = Some (Inr (w, False), offset)"
  shows "\<exists>ds f rest. tail = ds @ f # rest \<and> b128_octets isFirst ds f \<and> w = be_val 128 v (map unat (ds @ [f])) \<and>
    w < 2 ^ 64 \<and> offset = length pre + length ds + 1"
  using assms
proof (induction tail arbitrary: pre v isFirst)
  case Nil
  then show ?case by (simp add: ReadBase128Integer_loop_stop)
next
  case (Cons d tail)
  let ?v = "v * 128 + unat d mod 128" and ?more = "128 \<le> unat d"
  from Cons.prems have v: "v < 2 ^ 57" and fst: "\<not> (isFirst \<and> ?more \<and> unat d mod 128 = 0)" and loop:
    "ReadBase128Integer_loop ((pre @ [d]) @ tail) (length (pre @ [d])) ?v False ?more = Some (Inr (w, False), offset)"
    by (auto simp: ReadBase128Integer_loop_arith Let_def not_le split: if_splits)
  show ?case
  proof (cases ?more)
    case True
    with loop have "ReadBase128Integer_loop ((pre @ [d]) @ tail) (length (pre @ [d])) ?v False True =
        Some (Inr (w, False), offset)" by simp
    from Cons.IH [OF this] obtain ds f rest where IH: "tail = ds @ f # rest" "b128_octets False ds f"
      "w = be_val 128 ?v (map unat (ds @ [f]))" "w < 2 ^ 64" "offset = length (pre @ [d]) + length ds + 1"
      by (elim exE conjE) (rule that)
    moreover have "b128_octets isFirst (d # ds) f"
      using IH(2) fst True by (auto simp: b128_octets_def)
    ultimately show ?thesis
      by (intro exI [of _ "d # ds"] exI [of _ f] exI [of _ rest]) simp
  next
    case False
    with loop have "w = ?v" "offset = length pre + 1" by (simp_all add: ReadBase128Integer_loop_stop)
    moreover have "?v < 2 ^ 64" using v mod_less_divisor [of 128 "unat d"] by simp
    ultimately show ?thesis using False
      by (intro exI [of _ "[]"] exI [of _ d] exI [of _ tail]) (simp add: b128_octets_def)
  qed
qed

lemma b128_split: "b128_octets True ds f \<Longrightarrow> b128 (be_val 128 0 (map unat (ds @ [f]))) = ds @ [f]"
proof -
  assume oct: "b128_octets True ds f"
  let ?n = "be_val 128 0 (map unat ds)"
  have "be_digits 128 ?n = map (\<lambda>d. d mod 128) (map unat ds)"
  proof (rule be_digits_val)
    show "map unat ds = [] \<or> hd (map unat ds) mod 128 \<noteq> 0"
      using oct by (cases ds) (auto simp: b128_octets_def mod_128_high)
  qed simp
  moreover have "to_byte (128 + unat d mod 128) = d" if "d \<in> set ds" for d
    using oct that by (intro to_byte_eqI) (auto simp: b128_octets_def mod_128_high)
  ultimately have "map (\<lambda>d. to_byte (128 + d)) (be_digits 128 ?n) = ds"
    by (simp add: map_idI)
  moreover have "unat f < 128" using oct by (simp add: b128_octets_def)
  ultimately show ?thesis by (simp add: b128_def)
qed

lemma b128_octets_b128:
  "\<exists>ds f. b128 n = ds @ [f] \<and> b128_octets True ds f \<and> be_val 128 0 (map unat (ds @ [f])) = n"
proof -
  let ?ds = "be_digits 128 (n div 128)"
  have less: "d \<in> set ?ds \<Longrightarrow> d < 128" for d by (rule be_digits_less)
  have val: "map (\<lambda>d. (128 + d) mod 256) ?ds = map (\<lambda>d. 128 + d) ?ds"
    using less by force
  have "?ds = [] \<or> hd ?ds \<noteq> 0"
    using be_digits_hd [of 128 "n div 128"] by (cases "n div 128 = 0") auto
  then have "b128_octets True (map (\<lambda>d. to_byte (128 + d)) ?ds) (to_byte (n mod 128))"
    using less by (auto simp: b128_octets_def hd_map)
  moreover have "be_val 128 0 (map (\<lambda>d. 128 + d) ?ds) = n div 128"
    using be_val_digits [of 128 "n div 128"] by (simp add: be_val_def foldl_map)
  ultimately show ?thesis
    by (intro exI [of _ "map (\<lambda>d. to_byte (128 + d)) ?ds"] exI [of _ "to_byte (n mod 128)"])
      (simp add: b128_def comp_def val)
qed

text \<open>Reading accepts exactly the minimal encodings of the values of 64 bits.\<close>

lemma ReadBase128Integer_Inr:
  "ReadBase128Integer input offset = Some (Inr n, offset') \<longleftrightarrow>
     offset < length input \<and> ReadBase128Integer_loop input offset 0 True True = Some (Inr (n, False), offset')"
proof (cases "ReadBase128Integer_loop input offset 0 True True")
  case (Some a)
  obtain r off where a: "a = (r, off)" by (cases a)
  with Some show ?thesis by (cases r) (auto simp: ReadBase128Integer_def split: if_splits)
qed (simp add: ReadBase128Integer_def)

lemma ReadBase128Integer_iff:
  "ReadBase128Integer (pre @ tail) (length pre) = Some (Inr n, offset) \<longleftrightarrow>
     n < 2 ^ 64 \<and> offset = length pre + length (b128 n) \<and> (\<exists>rest. tail = b128 n @ rest)"
  (is "?L \<longleftrightarrow> ?R")
proof
  assume ?L
  then have "ReadBase128Integer_loop (pre @ tail) (length pre) 0 True True = Some (Inr (n, False), offset)"
    by (simp add: ReadBase128Integer_Inr)
  from ReadBase128Integer_loop_inv [OF this] obtain ds f rest where "tail = ds @ f # rest" "b128_octets True ds f"
    "n = be_val 128 0 (map unat (ds @ [f]))" "n < 2 ^ 64" "offset = length pre + length ds + 1"
    by (elim exE conjE) (rule that)
  then show ?R using b128_split [of ds f] by auto
next
  assume R: ?R
  obtain ds f where ds: "b128 n = ds @ [f]" "b128_octets True ds f" "be_val 128 0 (map unat (ds @ [f])) = n"
    using b128_octets_b128 [of n] by (elim exE conjE) (rule that)
  then show ?L
    using R ReadBase128Integer_loop_accept [of True ds f 0 pre]
    by (auto simp: ReadBase128Integer_Inr)
qed

section \<open>Length octets, against their digits\<close>

definition len_octets :: "nat \<Rightarrow> bytes" where
  "len_octets n =
     (if n \<le> 127 then [to_byte n]
      else to_byte (128 + length (be_digits 256 n)) # map to_byte (be_digits 256 n))"

lemma AppendLength_digits_spec:
  "length (be_digits 256 v) \<le> length rest \<Longrightarrow>
   AppendLength_digits v (done @ rest, length done) =
     (let ds = map to_byte (rev (be_digits 256 v))
      in Some ((done @ ds) @ drop (length ds) rest, length (done @ ds)))"
proof (induction v arbitrary: "done" rest rule: less_induct)
  case (less v)
  show ?case
  proof (cases "v = 0")
    case True
    then show ?thesis by (simp add: AppendLength_digits.simps [of 0])
  next
    case False
    then have ds: "be_digits 256 v = be_digits 256 (v div 256) @ [v mod 256]"
      by (simp add: be_digits_pos)
    with less.prems obtain r rest' where rest: "rest = r # rest'" by (cases rest) auto
    let ?d = "to_byte (v mod 256)"
    have "AppendLength_digits v (done @ rest, length done) =
      AppendLength_digits (v div 256) ((done @ [?d]) @ rest', length (done @ [?d]))"
      using False rest by (simp add: AppendLength_digits.simps [of v] span_put_append
        nat_and_masks drop_bit_eq_div)
    also have "\<dots> = (let ds = map to_byte (rev (be_digits 256 (v div 256)))
      in Some (((done @ [?d]) @ ds) @ drop (length ds) rest', length ((done @ [?d]) @ ds)))"
      using False less.prems ds rest by (intro less.IH) simp_all
    finally show ?thesis using ds rest by (simp add: Let_def)
  qed
qed

lemma length_octets_le_8: "n < 2 ^ 64 \<Longrightarrow> length (be_digits 256 n) \<le> 8"
  by (rule length_be_digits) simp_all

lemma AppendLength_spec:
  assumes "n < 2 ^ 64"
  shows "AppendLength out n = Some (Inr (out @ len_octets n))"
proof (cases "n \<le> 127")
  case False
  let ?ds = "map to_byte (rev (be_digits 256 n))"
  let ?out = "out @ [to_byte (0x80 OR length ?ds)]"
  have len: "length ?ds \<le> 8" using assms by (simp add: length_octets_le_8)
  have "AppendLength_digits n ([] @ replicate 8 0, length ([] :: bytes)) =
      Some (([] @ ?ds) @ drop (length ?ds) (replicate 8 0), length ([] @ ?ds))"
    using len by (subst AppendLength_digits_spec) (simp_all add: Let_def)
  moreover have "append_reversed (?ds @ drop (length ?ds) (replicate 8 0)) (length ?ds) 0 ?out =
      Some (?out @ rev ?ds)"
    by (subst append_reversed_spec) simp_all
  ultimately show ?thesis
    using False len by (simp add: AppendLength_def len_octets_def or_0x80 rev_map)
qed (simp add: AppendLength_def len_octets_def)

lemma ReadLength_loop_spec:
  "(v + 1) * 256 ^ length ds \<le> 2 ^ 64 \<Longrightarrow>
   ReadLength_loop (length ds) (pre @ ds @ rest) v (length pre) =
     Some (Inr (be_val 256 v (map unat ds)), length pre + length ds)"
proof (induction ds arbitrary: pre v)
  case (Cons d ds)
  let ?v = "v * 256 + unat d"
  have "(?v + 1) * 256 ^ length ds \<le> (v * 256 + 256) * 256 ^ length ds"
    using unat_byte_less [of d] by (intro mult_right_mono) simp_all
  also have "\<dots> \<le> 2 ^ 64" using Cons.prems by (simp add: algebra_simps)
  finally have "ReadLength_loop (length ds) ((pre @ [d]) @ ds @ rest) ?v (length (pre @ [d])) =
      Some (Inr (be_val 256 ?v (map unat ds)), length (pre @ [d]) + length ds)"
    by (rule Cons.IH)
  moreover have "(v + 1) * 256 * 1 \<le> (v + 1) * 256 * 256 ^ length ds" by (intro mult_left_mono) simp_all
  with Cons.prems have "v * 256 < 2 ^ 64" by (simp add: algebra_simps)
  ultimately show ?case
    using not_overflow [of v 8] shift_or [of v 8 "unat d"]
    by (simp add: span_at_append not_less)
qed simp

text \<open>\<open>ReadLength\<close> on the octets that follow the offset.\<close>

lemma ReadLength_short:
  assumes "m_input r = pre @ b # tail" "m_offset r = length pre" "unat b < 128"
  shows "ReadLength r = Some (Inr (unat b), r\<lparr>m_offset := length pre + 1\<rparr>)"
  using assms by (simp add: ReadLength_def span_at_append Let_def and_0x80)

lemma ReadLength_long:
  assumes "m_input r = pre @ b # tail" "m_offset r = length pre" "128 \<le> unat b"
    and k: "k = unat b - 128" "n = be_val 256 0 (map unat (take k tail))"
  shows "ReadLength r =
    (if k = 0 \<or> 8 < k \<or> length tail < k \<or> unat (hd tail) = 0 then Some (Inl ParseError, r\<lparr>m_offset := length pre + 1\<rparr>)
     else if n \<le> 127 then Some (Inl ParseError, r\<lparr>m_offset := length pre + 1 + k\<rparr>)
     else Some (Inr n, r\<lparr>m_offset := length pre + 1 + k\<rparr>))"
proof -
  have first: "unat b AND 0x80 \<noteq> 0" "unat b AND 0x7f = k"
    using assms(3) k by (simp_all add: and_0x80 nat_and_masks mod_128_high)
  show ?thesis
  proof (cases "k = 0 \<or> 8 < k \<or> length tail < k")
    case True
    then show ?thesis
      using first assms by (auto simp: ReadLength_def span_at_append Let_def Remaining_def)
  next
    case False
    then obtain t tail' where t: "tail = t # tail'" by (cases tail) auto
    have split: "pre @ b # tail = (pre @ [b]) @ take k tail @ drop k tail" by simp
    have "(256::nat) ^ k \<le> 256 ^ 8" using False by (intro power_increasing) simp_all
    then have "(0 + 1) * 256 ^ length (take k tail) \<le> (2::nat) ^ 64" using False by simp
    then have "ReadLength_loop (length (take k tail)) ((pre @ [b]) @ take k tail @ drop k tail) 0 (length (pre @ [b])) =
        Some (Inr n, length (pre @ [b]) + length (take k tail))"
      unfolding k(2) by (rule ReadLength_loop_spec)
    with False have loop: "ReadLength_loop k (m_input r) 0 (length pre + 1) = Some (Inr n, length pre + 1 + k)"
      by (simp add: assms(1) min_absorb2)
    have at: "span_at (m_input r) (length pre) = Some b" "span_at (m_input r) (length pre + 1) = Some t"
      by (simp_all add: assms(1) t span_at_def nth_append)
    show ?thesis
      using False first loop at assms t by (simp add: ReadLength_def Let_def Remaining_def)
  qed
qed

lemma ReadLength_iff:
  assumes "m_input r = pre @ tail" "m_offset r = length pre"
  shows "ReadLength r = Some (Inr n, r') \<longleftrightarrow>
    n < 2 ^ 64 \<and> r' = r\<lparr>m_offset := length pre + length (len_octets n)\<rparr> \<and> (\<exists>rest. tail = len_octets n @ rest)"
    (is "?L \<longleftrightarrow> ?R")
proof
  assume L: ?L
  then obtain b t where tail: "tail = b # t"
    using assms by (cases tail) (auto simp: ReadLength_def)
  show ?R
  proof (cases "unat b < 128")
    case True
    with L tail show ?thesis by (auto simp: ReadLength_short assms len_octets_def)
  next
    case False
    define k where "k = unat b - 128"
    let ?ds = "take k t"
    from L have k: "0 < k" "k \<le> 8" "k \<le> length t" "unat (hd t) \<noteq> 0" "127 < n"
      "n = be_val 256 0 (map unat ?ds)" "r' = r\<lparr>m_offset := length pre + 1 + k\<rparr>"
      using ReadLength_long [of r pre b t k] False assms tail
      by (auto simp: k_def not_less split: if_splits)
    then have "hd (map unat ?ds) mod 256 \<noteq> 0" by (cases t) (auto simp: take_Cons')
    then have ds: "be_digits 256 n = map unat ?ds"
      using be_digits_val [of 256 "map unat ?ds"] unfolding k(6) map_unat_mod by simp
    moreover have "b = to_byte (128 + k)" using False by (simp add: k_def)
    moreover have "n < 1 * 256 ^ k" using be_val_less [of 256 0 "map unat ?ds"] k by simp
    then have "n < 256 ^ 8" using k(2) power_increasing [of k 8 "256::nat"] by simp
    ultimately show ?thesis
      using k tail by (auto simp: len_octets_def map_to_byte_unat simp del: map_map intro!: exI [of _ "drop k t"])
  qed
next
  assume R: ?R
  then obtain rest where tail: "tail = len_octets n @ rest" and n: "n < 2 ^ 64" by blast
  show ?L
  proof (cases "n \<le> 127")
    case True
    with R tail show ?thesis
      using ReadLength_short [of r pre "to_byte n" rest] assms by (simp add: len_octets_def)
  next
    case False
    let ?ds = "be_digits 256 n" and ?b = "to_byte (128 + length (be_digits 256 n))"
    have ds: "length ?ds \<le> 8" "?ds \<noteq> []" "hd ?ds \<noteq> 0"
      using length_octets_le_8 [OF n] False by (simp_all add: be_digits_eq_Nil be_digits_hd)
    have less: "d \<in> set ?ds \<Longrightarrow> d < 256" for d by (rule be_digits_less)
    then have hd: "unat (hd (map to_byte ?ds @ rest)) \<noteq> 0" using ds by (cases ?ds) auto
    have val: "be_val 256 0 (map unat (take (length ?ds) (map to_byte ?ds @ rest))) = n"
      using map_unat_to_byte [OF less] by (simp add: be_val_digits)
    show ?thesis
      using ReadLength_long [of r pre ?b "map to_byte ?ds @ rest" "length ?ds" n] assms tail ds hd val False R
      by (simp add: len_octets_def)
  qed
qed

section \<open>Identifier octets, against their parts\<close>

text \<open>The first identifier octet: class, constructed bit and the five low bits.\<close>

definition ident_octet :: "DerTagClass \<Rightarrow> bool \<Rightarrow> nat \<Rightarrow> nat" where
  "ident_octet c p m = class_code c * 64 + (if p then 32 else 0) + m"

lemma class_code_less: "class_code c < 4"
  by (cases c) simp_all

lemma ident_octet_less: "m < 32 \<Longrightarrow> ident_octet c p m < 256"
  using class_code_less [of c] by (simp add: ident_octet_def)

lemma ident_or:
  assumes "m < 32"
  shows "EncodeTagClass c OR (if p then 0x20 else 0) OR m = ident_octet c p m"
proof -
  have "(0x20 :: nat) OR m = 0x20 + m"
    using nat_or_disjoint [of m 5 1] assms by simp
  then have pm: "(if p then 0x20 else 0) OR m = (if p then 0x20 else 0) + m" by simp
  have "class_code c * 2 ^ 6 OR ((if p then 0x20 else 0) + m) = class_code c * 2 ^ 6 + ((if p then 0x20 else 0) + m)"
    using assms by (intro nat_or_disjoint) simp
  then show ?thesis
    by (simp add: EncodeTagClass_def ident_octet_def push_bit_eq_mult or.assoc pm)
qed

lemma and_0x20: "((x::nat) AND 0x20 \<noteq> 0) \<longleftrightarrow> odd (x div 32)"
  using nat_exp_and [of x 5] by simp

lemma DecodeTagClass_arith: "DecodeTagClass x = DecodeTagClass (x div 64 mod 4 * 64)"
  by (simp add: DecodeTagClass_def drop_bit_eq_div nat_and_masks)

lemma DecodeTagClass_code: "DecodeTagClass (class_code c * 64) = c"
  by (cases c) (simp_all add: DecodeTagClass_def drop_bit_eq_div nat_and_masks)

lemma class_code_Decode: "class_code (DecodeTagClass x) = x div 64 mod 4"
proof -
  have "x div 64 mod 4 < 4" by simp
  then show ?thesis
    by (auto simp: DecodeTagClass_def drop_bit_eq_div nat_and_masks Let_def)
qed

lemma ident_octet_parts:
  assumes "m < 32"
  shows "DecodeTagClass (ident_octet c p m) = c" "(ident_octet c p m AND 0x20 \<noteq> 0) = p"
    "ident_octet c p m AND 0x1f = m"
proof -
  let ?pm = "(if p then 32 else 0) + m"
  have "ident_octet c p m = ?pm + class_code c * 64" by (simp add: ident_octet_def)
  moreover have "?pm < 64" using assms by simp
  ultimately have "ident_octet c p m div 64 = class_code c" by simp
  then show "DecodeTagClass (ident_octet c p m) = c"
    using class_code_less [of c] DecodeTagClass_code [of c] by (subst DecodeTagClass_arith) simp
  have split: "ident_octet c p m = m + (class_code c * 2 + of_bool p) * 32"
    by (simp add: ident_octet_def)
  then have "ident_octet c p m div 32 = class_code c * 2 + of_bool p"
    using assms by (simp del: distrib_right_numeral)
  then show "(ident_octet c p m AND 0x20 \<noteq> 0) = p"
    unfolding and_0x20 by simp
  show "ident_octet c p m AND 0x1f = m"
    unfolding split nat_and_masks mod_mult_self1 using assms by simp
qed

lemma ident_octet_exhaust:
  assumes "x < 256"
  shows "x = ident_octet (DecodeTagClass x) (x AND 0x20 \<noteq> 0) (x AND 0x1f)"
proof -
  have cls: "x div 64 mod 4 = x div 32 div 2" using assms by (simp add: less_mult_imp_div_less div_mult2_eq)
  have con: "(if odd (x div 32) then 32 else 0) = (x div 32 mod 2) * (32::nat)" by (simp add: mod2_eq_if)
  have high: "x div 32 div 2 * 64 + (x div 32 mod 2) * 32 = x div 32 * 32"
    using div_mult_mod_eq [of "x div 32" 2] by linarith
  show ?thesis
    unfolding ident_octet_def class_code_Decode and_0x20 nat_and_masks cls con high div_mult_mod_eq by (rule refl)
qed

definition tag_octets :: "DerTag \<Rightarrow> bytes" where
  "tag_octets t =
     (if number t < 31 then [to_byte (ident_octet (tagClass t) (constructed t) (number t))]
      else to_byte (ident_octet (tagClass t) (constructed t) 31) # b128 (number t))"

lemma AppendIdentifier_spec:
  assumes "number t < 2 ^ 32"
  shows "AppendIdentifier out t = Some (Inr (out @ tag_octets t))"
proof (cases "number t < 31")
  case True
  then have "number t < 32" by simp
  with True show ?thesis by (simp add: AppendIdentifier_def tag_octets_def ident_or)
next
  case False
  have "number t < 2 ^ 64" using assms by simp
  with False show ?thesis
    using ident_or [of 31] by (simp add: AppendIdentifier_def tag_octets_def AppendBase128Integer_spec)
qed

lemma ReadTag_first:
  assumes "m_input r = pre @ b # tail" "m_offset r = length pre"
    "unat b = ident_octet c p m" "m < 32"
  shows "ReadTag r =
    (if m = 31 then do {
       (h, offset) \<leftarrow> ReadBase128Integer (pre @ b # tail) (length pre + 1);
       (case h of
          Inl e \<Rightarrow> Some (Inl ParseError, r\<lparr>m_offset := offset\<rparr>)
        | Inr v \<Rightarrow> if v < 31 \<or> 2 ^ 32 - 1 < v then Some (Inl ParseError, r\<lparr>m_offset := offset\<rparr>)
                  else Some (Inr \<lparr>tagClass = c, constructed = p, number = v\<rparr>, r\<lparr>m_offset := offset\<rparr>)) }
     else Some (Inr \<lparr>tagClass = c, constructed = p, number = m\<rparr>, r\<lparr>m_offset := length pre + 1\<rparr>))"
  using assms(1,2) ident_octet_parts [OF assms(4), of c p, folded assms(3)]
  by (simp add: ReadTag_def span_at_append Let_def cong: if_cong sum.case_cong)

lemma ReadTag_high:
  assumes "m_input r = pre @ b # tail" "m_offset r = length pre" "unat b = ident_octet c p 31"
  shows "ReadTag r = Some (Inr t, r') \<longleftrightarrow>
    (\<exists>v rest. tail = b128 v @ rest \<and> 31 \<le> v \<and> v < 2 ^ 32 \<and> t = \<lparr>tagClass = c, constructed = p, number = v\<rparr> \<and>
       r' = r\<lparr>m_offset := length pre + 1 + length (b128 v)\<rparr>)"
proof -
  let ?read = "ReadBase128Integer (pre @ b # tail) (length pre + 1)"
  have "ReadTag r = Some (Inr t, r') \<longleftrightarrow>
      (\<exists>v offset. ?read = Some (Inr v, offset) \<and> 31 \<le> v \<and> v < 2 ^ 32 \<and>
         t = \<lparr>tagClass = c, constructed = p, number = v\<rparr> \<and> r' = r\<lparr>m_offset := offset\<rparr>)"
    using ReadTag_first [OF assms] by (cases ?read) (auto split: sum.splits if_splits)
  moreover have "?read = Some (Inr v, offset) \<longleftrightarrow>
      v < 2 ^ 64 \<and> offset = length pre + 1 + length (b128 v) \<and> (\<exists>rest. tail = b128 v @ rest)" for v offset
    using ReadBase128Integer_iff [of "pre @ [b]" tail] by simp
  ultimately show ?thesis by auto
qed

lemma ReadTag_iff:
  assumes "m_input r = pre @ tail" "m_offset r = length pre"
  shows "ReadTag r = Some (Inr t, r') \<longleftrightarrow>
    number t < 2 ^ 32 \<and> r' = r\<lparr>m_offset := length pre + length (tag_octets t)\<rparr> \<and> (\<exists>rest. tail = tag_octets t @ rest)"
    (is "?L \<longleftrightarrow> ?R")
proof (cases tail)
  case Nil
  then show ?thesis using assms by (simp add: ReadTag_def tag_octets_def)
next
  case (Cons b tail')
  define c p m where "c = DecodeTagClass (unat b)" and "p = (unat b AND 0x20 \<noteq> 0)" and "m = unat b AND 0x1f"
  have m: "m < 32" by (simp add: m_def nat_and_masks)
  have b: "unat b = ident_octet c p m"
    using ident_octet_exhaust [of "unat b"] by (simp add: c_def p_def m_def)
  have octet: "to_byte (ident_octet d q n) = b \<longleftrightarrow> d = c \<and> q = p \<and> n = m" if "n < 32" for d q n
  proof
    assume "to_byte (ident_octet d q n) = b"
    then have "ident_octet d q n = ident_octet c p m"
      using b ident_octet_less [OF that] by auto
    then show "d = c \<and> q = p \<and> n = m"
      using ident_octet_parts [OF that, of d q] ident_octet_parts [OF m, of c p] by simp
  qed (simp add: b [symmetric])
  obtain c' p' n where t: "t = \<lparr>tagClass = c', constructed = p', number = n\<rparr>" by (cases t)
  show ?thesis
  proof (cases "m = 31")
    case True
    then show ?thesis
      using ReadTag_high [of r pre b tail' c p t r'] assms Cons b octet [of n c' p'] octet [of 31 c' p'] t
      by (auto simp: tag_octets_def)
  next
    case False
    with m have "m < 31" by simp
    then show ?thesis
      using ReadTag_first [of r pre b tail' c p m] assms Cons b m octet [of n c' p'] octet [of 31 c' p'] t
      by (auto simp: tag_octets_def)
  qed
qed

section \<open>Elements\<close>

definition elem_octets :: "DerTag \<Rightarrow> bytes \<Rightarrow> bytes" where
  "elem_octets t v = tag_octets t @ len_octets (length v) @ v"

lemma EncodeDerElement_spec:
  "number t < 2 ^ 32 \<Longrightarrow> length v < 2 ^ 64 \<Longrightarrow> EncodeDerElement t v = Some (Inr (elem_octets t v))"
  by (simp add: EncodeDerElement_def AppendIdentifier_spec AppendLength_spec elem_octets_def)

lemma ReadElement_bind:
  "ReadElement r = Some (Inr e, r') \<longleftrightarrow>
    (\<exists>t r1 len r2. ReadTag r = Some (Inr t, r1) \<and> ReadLength r1 = Some (Inr len, r2) \<and>
       len \<le> maxElementBytes (m_options r2) \<and> len \<le> Remaining r2 \<and> r' = r2\<lparr>m_offset := m_offset r2 + len\<rparr> \<and>
       e = \<lparr>elem_tag = t, elem_value = substr (m_input r2) (m_offset r2) len,
            elem_encoded = substr (m_input r2) (m_offset r) (m_offset r2 + len - m_offset r)\<rparr>)"
  (is "_ \<longleftrightarrow> ?R")
proof (cases "ReadTag r")
  case (Some a)
  obtain t0 r1 where a: "a = (t0, r1)" by (cases a)
  show ?thesis
  proof (cases t0)
    case (Inr t)
    show ?thesis
    proof (cases "ReadLength r1")
      case (Some b)
      obtain l r2 where b: "b = (l, r2)" by (cases b)
      then show ?thesis using \<open>ReadTag r = Some a\<close> a Inr Some
        by (cases l) (auto simp: ReadElement_def Let_def Remaining_def not_less split: if_splits)
    qed (use \<open>ReadTag r = Some a\<close> a Inr in \<open>simp add: ReadElement_def\<close>)
  qed (use Some a in \<open>simp add: ReadElement_def\<close>)
qed (simp add: ReadElement_def)

lemma ReadElement_iff:
  assumes r: "m_input r = pre @ tail" "m_offset r = length pre"
  shows "ReadElement r = Some (Inr e, r') \<longleftrightarrow>
    number (elem_tag e) < 2 ^ 32 \<and> length (elem_value e) < 2 ^ 64 \<and>
    length (elem_value e) \<le> maxElementBytes (m_options r) \<and>
    elem_encoded e = elem_octets (elem_tag e) (elem_value e) \<and>
    r' = r\<lparr>m_offset := length pre + length (elem_encoded e)\<rparr> \<and> (\<exists>rest. tail = elem_encoded e @ rest)"
    (is "?L \<longleftrightarrow> ?R")
proof
  assume ?L
  then obtain t r1 len r2 where *: "ReadTag r = Some (Inr t, r1)" "ReadLength r1 = Some (Inr len, r2)"
    "len \<le> maxElementBytes (m_options r2)" "len \<le> Remaining r2" "r' = r2\<lparr>m_offset := m_offset r2 + len\<rparr>"
    "e = \<lparr>elem_tag = t, elem_value = substr (m_input r2) (m_offset r2) len,
          elem_encoded = substr (m_input r2) (m_offset r) (m_offset r2 + len - m_offset r)\<rparr>"
    unfolding ReadElement_bind by (elim exE conjE) (rule that)
  from * r obtain u where t: "number t < 2 ^ 32" "r1 = r\<lparr>m_offset := length pre + length (tag_octets t)\<rparr>"
    "tail = tag_octets t @ u" by (auto simp: ReadTag_iff)
  from t r have r1: "m_input r1 = (pre @ tag_octets t) @ u" "m_offset r1 = length (pre @ tag_octets t)" by simp_all
  from *(2) obtain w where l: "len < 2 ^ 64"
    "r2 = r1\<lparr>m_offset := length (pre @ tag_octets t) + length (len_octets len)\<rparr>" "u = len_octets len @ w"
    unfolding ReadLength_iff [OF r1] by blast
  from *(4) l t r have w: "len \<le> length w" by (simp add: Remaining_def)
  then have "elem_value e = take len w" "elem_encoded e = tag_octets t @ len_octets len @ take len w"
    using *(6) l t r by (simp_all add: substr_def)
  then show ?R using * w t l r by (auto simp: elem_octets_def min_def intro!: exI [of _ "drop len w"])
next
  assume R: ?R
  then obtain rest where tail: "tail = elem_encoded e @ rest" by blast
  obtain t v b where e: "e = \<lparr>elem_tag = t, elem_value = v, elem_encoded = b\<rparr>" by (cases e)
  define r1 where "r1 = r\<lparr>m_offset := length pre + length (tag_octets t)\<rparr>"
  define r2 where "r2 = r1\<lparr>m_offset := length (pre @ tag_octets t) + length (len_octets (length v))\<rparr>"
  have tag: "ReadTag r = Some (Inr t, r1)"
    using R tail e r by (auto simp: ReadTag_iff r1_def elem_octets_def)
  have r1: "m_input r1 = (pre @ tag_octets t) @ len_octets (length v) @ v @ rest"
    "m_offset r1 = length (pre @ tag_octets t)"
    using R tail e r by (auto simp: r1_def elem_octets_def)
  have len: "ReadLength r1 = Some (Inr (length v), r2)"
    unfolding ReadLength_iff [OF r1] using R e by (auto simp: r2_def)
  have b: "b = elem_octets t v" using R e by simp
  show ?L
    unfolding ReadElement_bind
    by (intro exI conjI, rule tag, rule len)
      (use R e r r1 b in \<open>auto simp: r2_def r1_def Remaining_def substr_def elem_octets_def\<close>)
qed

end
