(* ===== verification/Crypto_Der_Props.thy ===== *)
theory Crypto_Der_Props
  imports Crypto_Der Codec_Spec
begin

text \<open>
  The properties of the DER reader and the DER encoders: reading is safe for every input, nested
  readers are bounded, elements form a self-delimiting code (the interpretation \<open>der\<close> of
  \<open>stream_codec\<close>), and every typed reader accepts exactly what the encoder of its type produces.
\<close>

section \<open>Safety of the reader\<close>

lemma ReadBase128Integer_loop_total: "ReadBase128Integer_loop input offset v f h \<noteq> None"
proof (induction "length input - offset" arbitrary: offset v f h)
  case 0
  then show ?case by (simp add: ReadBase128Integer_loop_stop)
next
  case (Suc n)
  then have "n = length input - (offset + 1)" "offset < length input" by simp_all
  with Suc.hyps(1) show ?case
    by (cases h) (simp_all add: ReadBase128Integer_loop_step ReadBase128Integer_loop_stop Let_def)
qed

lemma ReadBase128Integer_total: "\<exists>res offset'. ReadBase128Integer input offset = Some (res, offset')"
proof -
  obtain r off where "ReadBase128Integer_loop input offset 0 True True = Some (r, off)"
    using ReadBase128Integer_loop_total [of input offset 0 True True] by auto
  then show ?thesis by (cases r) (auto simp: ReadBase128Integer_def)
qed

lemma ReadBase128Integer_offset:
  assumes "ReadBase128Integer input offset = Some (res, offset')" "offset \<le> length input"
  shows "offset \<le> offset' \<and> offset' \<le> length input"
  using assms ReadBase128Integer_mono [OF assms(1)]
  by (cases "offset < length input") (auto simp: ReadBase128Integer_def)

text \<open>What every read leaves of the reader: the span, the options and the depth, and an offset inside the span.\<close>

definition advances :: "DerReader \<Rightarrow> DerReader \<Rightarrow> bool" where
  "advances r r' \<longleftrightarrow> (\<exists>k. r' = r\<lparr>m_offset := m_offset r + k\<rparr>) \<and> m_offset r' \<le> length (m_input r')"

lemma advancesI: "m_offset r \<le> k \<Longrightarrow> k \<le> length (m_input r) \<Longrightarrow> advances r (r\<lparr>m_offset := k\<rparr>)"
  by (auto simp: advances_def intro: exI [of _ "k - m_offset r"])

lemma advances_trans: "advances r r' \<Longrightarrow> advances r' r'' \<Longrightarrow> advances r r''"
  by (fastforce simp: advances_def add.assoc)

lemma ReadTag_total:
  assumes "m_offset r \<le> length (m_input r)"
  shows "\<exists>res r'. ReadTag r = Some (res, r') \<and> advances r r'"
proof (cases "m_offset r < length (m_input r)")
  case False
  then show ?thesis using assms by (auto simp: ReadTag_def advances_def intro: exI [of _ 0])
next
  case True
  let ?o = "m_offset r + 1"
  obtain res off where read: "ReadBase128Integer (m_input r) ?o = Some (res, off)"
    using ReadBase128Integer_total by blast
  then have "?o \<le> off" "off \<le> length (m_input r)" using ReadBase128Integer_offset True by fastforce+
  then have "advances r (r\<lparr>m_offset := off\<rparr>)"
    by (intro advancesI) simp_all
  moreover have "advances r (r\<lparr>m_offset := ?o\<rparr>)" using True by (intro advancesI) simp_all
  ultimately show ?thesis
    using True read by (cases res) (auto simp: ReadTag_def Let_def span_at_def)
qed

lemma reader_split:
  assumes "m_offset r \<le> length (m_input r)"
  obtains pre tail where "m_input r = pre @ tail" "m_offset r = length pre"
  using assms by (metis append_take_drop_id length_take min.absorb2)

lemma ReadLength_total:
  assumes "m_offset r \<le> length (m_input r)"
  shows "\<exists>res r'. ReadLength r = Some (res, r') \<and> advances r r'"
proof -
  obtain pre tail where split: "m_input r = pre @ tail" "m_offset r = length pre"
    using assms by (rule reader_split)
  show ?thesis
  proof (cases tail)
    case Nil
    then show ?thesis using split by (auto simp: ReadLength_def advances_def intro: exI [of _ 0])
  next
    case (Cons b t)
    show ?thesis
    proof (cases "unat b < 128")
      case True
      then show ?thesis using split Cons ReadLength_short [of r pre b t]
        by (auto intro: advancesI)
    next
      case False
      then show ?thesis using split Cons ReadLength_long [of r pre b t "unat b - 128"]
        by (auto intro: advancesI)
    qed
  qed
qed

lemma ReadElement_total:
  assumes "m_offset r \<le> length (m_input r)"
  shows "\<exists>res r'. ReadElement r = Some (res, r') \<and> advances r r'"
proof -
  obtain t r1 where t: "ReadTag r = Some (t, r1)" "advances r r1" using ReadTag_total [OF assms] by blast
  obtain l r2 where l: "ReadLength r1 = Some (l, r2)" "advances r1 r2"
    using ReadLength_total [of r1] t(2) by (auto simp: advances_def)
  have "advances r r2" using t(2) l(2) by (rule advances_trans)
  moreover have "advances r2 (r2\<lparr>m_offset := m_offset r2 + len\<rparr>)" if "len \<le> Remaining r2" for len
    using that l(2) by (auto simp: advances_def Remaining_def)
  ultimately show ?thesis
    using t l by (cases t; cases l) (auto simp: ReadElement_def Let_def intro: advances_trans)
qed

section \<open>Nested readers\<close>

text \<open>The readers that parsing of one document can reach, with the number of bytes it was given.\<close>

inductive der_reach :: "bytes \<Rightarrow> DerReadOptions \<Rightarrow> DerReader \<Rightarrow> bool" for input options where
  start: "der_reach input options (MakeDerReader input options 0)"
| read: "der_reach input options r \<Longrightarrow> ReadElement r = Some (res, r') \<Longrightarrow> der_reach input options r'"
| enter: "der_reach input options r \<Longrightarrow> ReadElement r = Some (Inr e, r') \<Longrightarrow>
    EnterConstructed r' e = Inr child \<Longrightarrow> der_reach input options child"

lemma tag_octets_nonempty [simp]: "tag_octets t \<noteq> []"
  by (simp add: tag_octets_def)

lemma len_octets_nonempty [simp]: "len_octets n \<noteq> []"
  by (simp add: len_octets_def)

lemma length_elem_octets: "length v + 2 \<le> length (elem_octets t v)"
proof -
  have "0 < length (tag_octets t)" "0 < length (len_octets (length v))" by simp_all
  then show ?thesis unfolding elem_octets_def length_append by linarith
qed

lemma ReadElement_value_length:
  assumes "ReadElement r = Some (Inr e, r')" "m_offset r \<le> length (m_input r)"
  shows "length (elem_value e) + 2 \<le> length (m_input r)"
proof -
  obtain pre tail where split: "m_input r = pre @ tail" "m_offset r = length pre"
    using assms(2) by (rule reader_split)
  with assms(1) obtain rest where "tail = elem_octets (elem_tag e) (elem_value e) @ rest"
    by (auto simp: ReadElement_iff)
  then show ?thesis using split length_elem_octets [of "elem_value e" "elem_tag e"] by simp
qed

lemma der_reach_invariant:
  assumes "der_reach input options r"
  shows "m_offset r \<le> length (m_input r) \<and> m_options r = options \<and> m_depth r \<le> maxDepth options \<and>
    2 * m_depth r + length (m_input r) \<le> length input"
  using assms
proof (induction rule: der_reach.induct)
  case start
  then show ?case by (simp add: MakeDerReader_def)
next
  case (read r res r')
  then have "advances r r'" using ReadElement_total [of r] by simp
  with read show ?case by (auto simp: advances_def)
next
  case (enter r e r' child)
  then have "advances r r'" using ReadElement_total [of r] by simp
  then obtain k where r': "r' = r\<lparr>m_offset := m_offset r + k\<rparr>" by (auto simp: advances_def)
  have "length (elem_value e) + 2 \<le> length (m_input r)" using enter ReadElement_value_length by blast
  then show ?case using enter r' by (auto simp: EnterConstructed_def MakeDerReader_def split: if_splits)
qed

section \<open>Elements as a self-delimiting code\<close>

definition der_put :: "DerTag \<times> bytes \<Rightarrow> bytes" where
  "der_put x = elem_octets (fst x) (snd x)"

definition der_get :: "bytes \<Rightarrow> ((DerTag \<times> bytes) \<times> nat) option" where
  "der_get bs =
     (case ReadElement (MakeDerReader bs \<lparr>maxElementBytes = 2 ^ 64 - 1, maxDepth = 64\<rparr> 0) of
        Some (Inr e, r) \<Rightarrow> Some ((elem_tag e, elem_value e), m_offset r)
      | _ \<Rightarrow> None)"

definition der_ok :: "DerTag \<times> bytes \<Rightarrow> bool" where
  "der_ok x \<longleftrightarrow> number (fst x) < 2 ^ 32 \<and> length (snd x) < 2 ^ 64"

interpretation der: stream_codec der_put der_get der_ok
proof
  fix x rest
  assume ok: "der_ok x"
  obtain t v where x: "x = (t, v)" by (cases x)
  let ?r = "MakeDerReader (elem_octets t v @ rest) \<lparr>maxElementBytes = 2 ^ 64 - 1, maxDepth = 64\<rparr> 0"
  let ?e = "\<lparr>elem_tag = t, elem_value = v, elem_encoded = elem_octets t v\<rparr>"
  have "ReadElement ?r = Some (Inr ?e, ?r\<lparr>m_offset := length (elem_octets t v)\<rparr>)"
    using ok x ReadElement_iff [of ?r "[]" "elem_octets t v @ rest" ?e]
    by (simp add: MakeDerReader_def der_ok_def)
  then show "der_get (der_put x @ rest) = Some (x, length (der_put x))"
    by (simp add: der_get_def der_put_def x)
  show "der_put x \<noteq> []" by (simp add: der_put_def elem_octets_def)
qed

lemma EncodeDerElement_inj:
  assumes "EncodeDerElement t v = Some (Inr b)" "EncodeDerElement u w = Some (Inr b)"
    and "number t < 2 ^ 32" "length v < 2 ^ 64" "number u < 2 ^ 32" "length w < 2 ^ 64"
  shows "t = u \<and> v = w"
  using assms der.prefix_free [of "(t, v)" "(u, w)" "[]" "[]"]
  by (simp add: EncodeDerElement_spec der_put_def der_ok_def)

lemma EncodeDerElement_length: "EncodeDerElement t v = Some (Inr b) \<Longrightarrow> length v \<le> length b"
  by (auto simp: EncodeDerElement_def bind_eq_Some_conv case_sum_Inr_iff)

section \<open>Object identifiers\<close>

lemma b128_nonempty [simp]: "b128 n \<noteq> []"
  by (simp add: b128_def)

lemma ReadDerObjectIdentifier_loop_step:
  assumes "tail \<noteq> []"
  shows "ReadDerObjectIdentifier_loop (pre @ tail) (length pre) arcs = Some (Inr res) \<longleftrightarrow>
    (\<exists>a rest. tail = b128 a @ rest \<and> a < 2 ^ 32 \<and>
       ReadDerObjectIdentifier_loop ((pre @ b128 a) @ rest) (length (pre @ b128 a)) (arcs @ [a]) = Some (Inr res))"
    (is "?L \<longleftrightarrow> ?R")
proof -
  let ?read = "ReadBase128Integer (pre @ tail) (length pre)"
  have read: "?L \<longleftrightarrow> (\<exists>a off. ?read = Some (Inr a, off) \<and> a < 2 ^ 32 \<and>
      ReadDerObjectIdentifier_loop (pre @ tail) off (arcs @ [a]) = Some (Inr res))"
  proof -
    obtain r off where "?read = Some (r, off)" using ReadBase128Integer_total by blast
    then show ?thesis using assms
      by (cases r) (auto simp: ReadDerObjectIdentifier_loop.simps [of "pre @ tail" "length pre" arcs])
  qed
  show ?thesis
  proof
    assume ?L
    then obtain a off where a: "?read = Some (Inr a, off)" "a < 2 ^ 32"
      "ReadDerObjectIdentifier_loop (pre @ tail) off (arcs @ [a]) = Some (Inr res)" unfolding read by blast
    from a(1) obtain rest where "tail = b128 a @ rest" "off = length pre + length (b128 a)"
      by (auto simp: ReadBase128Integer_iff)
    with a show ?R by auto
  next
    assume ?R
    then obtain a rest where a: "tail = b128 a @ rest" "a < 2 ^ 32"
       "ReadDerObjectIdentifier_loop ((pre @ b128 a) @ rest) (length (pre @ b128 a)) (arcs @ [a]) = Some (Inr res)"
      by blast
    then have "?read = Some (Inr a, length (pre @ b128 a))" by (auto simp: ReadBase128Integer_iff)
    with a show ?L unfolding read by auto
  qed
qed

lemma ReadDerObjectIdentifier_loop_iff:
  "ReadDerObjectIdentifier_loop (pre @ tail) (length pre) arcs = Some (Inr res) \<longleftrightarrow>
     (\<exists>as. tail = concat (map b128 as) \<and> (\<forall>a\<in>set as. a < 2 ^ 32) \<and> res = arcs @ as)"
    (is "?L \<longleftrightarrow> ?R")
proof (induction "length tail" arbitrary: pre tail arcs rule: less_induct)
  case less
  let ?as = "\<lambda>as. tail = concat (map b128 as) \<and> (\<forall>a\<in>set as. a < 2 ^ 32) \<and> res = arcs @ as"
  show ?case
  proof (cases "tail = []")
    case True
    have "as = []" if "concat (map b128 as) = []" for as using that by (cases as) simp_all
    with True show ?thesis
      by (auto simp: ReadDerObjectIdentifier_loop.simps [of pre "length pre" arcs])
  next
    case False
    note step = ReadDerObjectIdentifier_loop_step [OF False, of pre arcs res]
    show ?thesis
    proof
      assume "ReadDerObjectIdentifier_loop (pre @ tail) (length pre) arcs = Some (Inr res)"
      then obtain a rest where a: "tail = b128 a @ rest" "a < 2 ^ 32"
        "ReadDerObjectIdentifier_loop ((pre @ b128 a) @ rest) (length (pre @ b128 a)) (arcs @ [a]) = Some (Inr res)"
        unfolding step by blast
      have "length rest < length tail" using a(1) by simp
      from less [OF this] a(3) obtain as where "rest = concat (map b128 as)" "\<forall>a\<in>set as. a < 2 ^ 32"
        "res = (arcs @ [a]) @ as" by blast
      then have "?as (a # as)" using a by simp
      then show "\<exists>as. ?as as" by blast
    next
      assume "\<exists>as. ?as as"
      then obtain as0 where as0: "?as as0" by blast
      with False obtain a as where as: "as0 = a # as" by (cases as0) auto
      with as0 have "length (concat (map b128 as)) < length tail" by simp
      from less [OF this, of "pre @ b128 a" "arcs @ [a]"] as0 as show
        "ReadDerObjectIdentifier_loop (pre @ tail) (length pre) arcs = Some (Inr res)"
        unfolding step by (intro exI [of _ a] exI [of _ "concat (map b128 as)"]) simp
    qed
  qed
qed

text \<open>The arcs that the encoder takes, and their content octets.\<close>

definition valid_arcs :: "nat list \<Rightarrow> bool" where
  "valid_arcs arcs \<longleftrightarrow> 2 \<le> length arcs \<and> arcs ! 0 \<le> 2 \<and> (arcs ! 0 < 2 \<longrightarrow> arcs ! 1 \<le> 39) \<and> (\<forall>a\<in>set arcs. a < 2 ^ 32)"

definition oid_octets :: "nat list \<Rightarrow> bytes" where
  "oid_octets arcs = b128 (arcs ! 0 * 40 + arcs ! 1) @ concat (map b128 (drop 2 arcs))"

lemma AppendArcs_spec:
  "\<forall>a\<in>set as. a < 2 ^ 32 \<Longrightarrow> AppendArcs v as = Some (Inr (v @ concat (map b128 as)))"
  by (induction as arbitrary: v) (simp_all add: AppendBase128Integer_spec)

lemma EncodeDerObjectIdentifier_spec:
  assumes "\<forall>a\<in>set arcs. a < 2 ^ 32"
  shows "EncodeDerObjectIdentifier arcs =
    (if valid_arcs arcs then EncodeDerElement (MakeDerUniversalTag TagObjectIdentifier False) (oid_octets arcs)
     else Some (Inl InvalidArgument))"
proof (cases "valid_arcs arcs")
  case True
  then obtain a b as where arcs: "arcs = a # b # as"
    by (auto simp: valid_arcs_def numeral_2_eq_2 Suc_le_length_iff)
  with True have "a \<le> 2" "b < 2 ^ 32" "a < 2 \<longrightarrow> b \<le> 39" by (auto simp: valid_arcs_def)
  then have "a * 40 + b < 2 ^ 64" by simp
  with True arcs assms show ?thesis
    by (auto simp: EncodeDerObjectIdentifier_def AppendBase128Integer_spec AppendArcs_spec oid_octets_def
        valid_arcs_def)
next
  case False
  with assms show ?thesis
    by (auto simp: EncodeDerObjectIdentifier_def valid_arcs_def)
qed

definition oid_heads :: "nat \<Rightarrow> nat list" where
  "oid_heads n = (if n < 40 then [0, n] else if n < 80 then [1, n - 40] else [2, n - 80])"

lemma oid_heads_iff:
  "arcs = oid_heads n @ as \<and> n < 2 ^ 32 + 80 \<and> (\<forall>a\<in>set as. a < 2 ^ 32) \<longleftrightarrow>
     valid_arcs arcs \<and> as = drop 2 arcs \<and> n = arcs ! 0 * 40 + arcs ! 1"
proof
  assume "arcs = oid_heads n @ as \<and> n < 2 ^ 32 + 80 \<and> (\<forall>a\<in>set as. a < 2 ^ 32)"
  then show "valid_arcs arcs \<and> as = drop 2 arcs \<and> n = arcs ! 0 * 40 + arcs ! 1"
    by (cases "n < 40"; cases "n < 80") (auto simp: oid_heads_def valid_arcs_def)
next
  assume R: "valid_arcs arcs \<and> as = drop 2 arcs \<and> n = arcs ! 0 * 40 + arcs ! 1"
  then obtain a b cs where arcs: "arcs = a # b # cs"
    by (auto simp: valid_arcs_def numeral_2_eq_2 Suc_le_length_iff)
  with R have "a = 0 \<and> b < 40 \<or> a = 1 \<and> b < 40 \<or> a = 2" "b < 2 ^ 32" by (auto simp: valid_arcs_def)
  with R arcs show "arcs = oid_heads n @ as \<and> n < 2 ^ 32 + 80 \<and> (\<forall>a\<in>set as. a < 2 ^ 32)"
    by (auto simp: oid_heads_def valid_arcs_def)
qed

lemma ReadDerObjectIdentifier_iff:
  "ReadDerObjectIdentifier e = Some (Inr arcs) \<longleftrightarrow>
     elem_tag e = MakeDerUniversalTag TagObjectIdentifier False \<and> valid_arcs arcs \<and> elem_value e = oid_octets arcs"
    (is "?L \<longleftrightarrow> ?tag \<and> ?R")
proof -
  let ?v = "elem_value e" and ?read = "ReadBase128Integer (elem_value e) 0"
  have start: "?L \<longleftrightarrow> ?tag \<and> (\<exists>n off. ?read = Some (Inr n, off) \<and> n < 2 ^ 32 + 80 \<and>
      ReadDerObjectIdentifier_loop ?v off (oid_heads n) = Some (Inr arcs))"
  proof -
    obtain r off where "?read = Some (r, off)" using ReadBase128Integer_total by blast
    moreover have "?v = [] \<Longrightarrow> ?read = Some (Inl ParseError, 0)" by (simp add: ReadBase128Integer_def)
    ultimately show ?thesis
      by (cases r) (auto simp: ReadDerObjectIdentifier_def IsDerUniversalElement_def oid_heads_def)
  qed
  show ?thesis
  proof
    assume ?L
    then obtain n off where n: "?tag" "?read = Some (Inr n, off)" "n < 2 ^ 32 + 80"
      "ReadDerObjectIdentifier_loop ?v off (oid_heads n) = Some (Inr arcs)" unfolding start by blast
    from n(2) obtain rest where rest: "?v = b128 n @ rest" "off = length (b128 n)"
      using ReadBase128Integer_iff [of "[]" ?v n off] by auto
    with n(4) obtain as where "rest = concat (map b128 as)" "\<forall>a\<in>set as. a < 2 ^ 32" "arcs = oid_heads n @ as"
      by (auto simp: ReadDerObjectIdentifier_loop_iff)
    then show "?tag \<and> ?R" using n oid_heads_iff [of arcs n as] rest by (simp add: oid_octets_def)
  next
    assume R: "?tag \<and> ?R"
    let ?n = "arcs ! 0 * 40 + arcs ! 1"
    have n: "arcs = oid_heads ?n @ drop 2 arcs" "?n < 2 ^ 32 + 80" "\<forall>a\<in>set (drop 2 arcs). a < 2 ^ 32"
      using R oid_heads_iff [of arcs ?n "drop 2 arcs"] by simp_all
    have "?read = Some (Inr ?n, length (b128 ?n))"
      using ReadBase128Integer_iff [of "[]" ?v ?n] R n(2) by (auto simp: oid_octets_def)
    moreover have "ReadDerObjectIdentifier_loop ?v (length (b128 ?n)) (oid_heads ?n) = Some (Inr arcs)"
      using R n by (auto simp: oid_octets_def ReadDerObjectIdentifier_loop_iff)
    ultimately show ?L unfolding start using R n(2) by blast
  qed
qed
section \<open>Properties\<close>

lemma universal_number_less: "universal_number t < 2 ^ 32"
  by (cases t) simp_all

text \<open>
  C5: a reader over less than \<open>2 ^ 64\<close> bytes accepts, at any offset, exactly the DER encodings: it
  returns an element and the reader after it iff the bytes at the offset start with what
  \<open>EncodeDerElement\<close> produces for the tag and the value of the element, the tag number fits 32 bits
  and the value is within the limit of the options; the reader then stands after these bytes. So
  every element is read back, and nothing but its one minimal encoding is accepted.
\<close>

theorem ReadElement_exact:
  assumes "m_offset r \<le> length (m_input r)" "length (m_input r) < 2 ^ 64"
  shows "ReadElement r = Some (Inr e, r') \<longleftrightarrow>
    number (elem_tag e) < 2 ^ 32 \<and> length (elem_value e) \<le> maxElementBytes (m_options r) \<and>
    EncodeDerElement (elem_tag e) (elem_value e) = Some (Inr (elem_encoded e)) \<and>
    (\<exists>rest. drop (m_offset r) (m_input r) = elem_encoded e @ rest) \<and>
    r' = r\<lparr>m_offset := m_offset r + length (elem_encoded e)\<rparr>"
    (is "?L \<longleftrightarrow> ?R")
proof -
  obtain pre tail where r: "m_input r = pre @ tail" "m_offset r = length pre"
    using assms(1) by (rule reader_split)
  then have drop: "drop (m_offset r) (m_input r) = tail" by simp
  have len: "length (elem_value e) < 2 ^ 64" if ?R
  proof -
    from that obtain rest where "tail = elem_encoded e @ rest" unfolding drop by blast
    moreover have "length (elem_value e) \<le> length (elem_encoded e)"
      using that EncodeDerElement_length by blast
    ultimately show ?thesis using assms(2) r by simp
  qed
  show ?thesis
  proof
    assume ?L
    then show ?R unfolding ReadElement_iff [OF r] drop using r by (auto simp: EncodeDerElement_spec)
  next
    assume R: ?R
    then have "elem_encoded e = elem_octets (elem_tag e) (elem_value e)"
      using len EncodeDerElement_spec [of "elem_tag e" "elem_value e"] by auto
    with R len show ?L unfolding ReadElement_iff [OF r] drop using r by auto
  qed
qed

definition sample_reader :: "nat \<Rightarrow> DerReader" where
  "sample_reader offset = \<lparr>m_input = [0x30, 0x03, 0x02, 0x01, 0x05],
     m_options = \<lparr>maxElementBytes = 1024, maxDepth = 64\<rparr>, m_offset = offset, m_depth = 0\<rparr>"

definition sample_element :: DerElement where
  "sample_element = \<lparr>elem_tag = MakeDerUniversalTag TagSequence True, elem_value = [0x02, 0x01, 0x05],
     elem_encoded = [0x30, 0x03, 0x02, 0x01, 0x05]\<rparr>"

lemma sample_read: "ReadElement (sample_reader 0) = Some (Inr sample_element, sample_reader 5)"
  by code_simp

theorem ReadElement_exact_witness:
  "EncodeDerElement (MakeDerUniversalTag TagSequence True) [0x02, 0x01, 0x05] = Some (Inr [0x30, 0x03, 0x02, 0x01, 0x05])"
  using ReadElement_exact [of "sample_reader 0" sample_element "sample_reader 5"] sample_read
  by (simp add: sample_reader_def sample_element_def)

text \<open>
  C14: whatever the bytes are, reading them is safe and bounded. Of every reader that parsing a
  document can reach, by reading elements (also after a failed read) and by entering constructed
  elements, the offset is inside the span, the depth is at most the limit of the options and at most
  half of the bytes of the document, and the next \<open>ReadElement\<close> returns without an access out of
  range, leaving an offset that is not smaller.
\<close>

theorem der_reach_safe:
  assumes "der_reach input options r"
  shows "m_offset r \<le> length (m_input r) \<and> m_depth r \<le> maxDepth options \<and>
    2 * m_depth r + length (m_input r) \<le> length input \<and>
    (\<exists>res r'. ReadElement r = Some (res, r') \<and> m_offset r \<le> m_offset r' \<and> m_offset r' \<le> length (m_input r))"
proof -
  note inv = der_reach_invariant [OF assms]
  then obtain res r' where "ReadElement r = Some (res, r')" "advances r r'" using ReadElement_total by blast
  with inv show ?thesis by (fastforce simp: advances_def)
qed

theorem der_reach_safe_witness:
  "2 * m_depth (sample_reader 5) + length (m_input (sample_reader 5)) \<le> 5"
proof -
  have "sample_reader 0 = MakeDerReader (m_input (sample_reader 0)) (m_options (sample_reader 0)) 0"
    by (simp add: sample_reader_def MakeDerReader_def)
  then have "der_reach (m_input (sample_reader 0)) (m_options (sample_reader 0)) (sample_reader 0)"
    by (metis der_reach.start)
  then have "der_reach (m_input (sample_reader 0)) (m_options (sample_reader 0)) (sample_reader 5)"
    using sample_read by (rule der_reach.read)
  from der_reach_safe [OF this] show ?thesis by (simp add: sample_reader_def)
qed

text \<open>What a successful read says of the element, in the form the typed readers need.\<close>

lemma ReadElement_encoded:
  assumes "ReadElement r = Some (Inr e, r')" "m_offset r \<le> length (m_input r)"
  shows "number (elem_tag e) < 2 ^ 32" "length (elem_value e) < 2 ^ 64"
    "elem_encoded e = elem_octets (elem_tag e) (elem_value e)" "length (elem_encoded e) \<le> length (m_input r)"
proof -
  obtain pre tail where r: "m_input r = pre @ tail" "m_offset r = length pre"
    using assms(2) by (rule reader_split)
  note * = assms(1) [unfolded ReadElement_iff [OF r]]
  from * show "number (elem_tag e) < 2 ^ 32" "length (elem_value e) < 2 ^ 64"
    "elem_encoded e = elem_octets (elem_tag e) (elem_value e)" by simp_all
  from * obtain rest where "tail = elem_encoded e @ rest" by blast
  then show "length (elem_encoded e) \<le> length (m_input r)" using r by simp
qed

lemma EncodeDerElement_of_read:
  assumes "ReadElement r = Some (Inr e, r')" "m_offset r \<le> length (m_input r)" "length (m_input r) < 2 ^ 64"
    and "number t < 2 ^ 32"
  shows "EncodeDerElement t v = Some (Inr (elem_encoded e)) \<longleftrightarrow> elem_tag e = t \<and> elem_value e = v"
proof
  note e = ReadElement_encoded [OF assms(1,2)]
  have enc: "EncodeDerElement (elem_tag e) (elem_value e) = Some (Inr (elem_encoded e))"
    using e by (simp add: EncodeDerElement_spec)
  show "elem_tag e = t \<and> elem_value e = v" if L: "EncodeDerElement t v = Some (Inr (elem_encoded e))"
  proof (rule EncodeDerElement_inj [OF enc L e(1,2) assms(4)])
    show "length v < 2 ^ 64" using EncodeDerElement_length [OF L] e(4) assms(3) by linarith
  qed
  show "EncodeDerElement t v = Some (Inr (elem_encoded e))" if "elem_tag e = t \<and> elem_value e = v"
    using that enc by blast
qed

lemma number_universal: "number (MakeDerUniversalTag t c) < 2 ^ 32"
  by (cases t) (simp_all add: MakeDerUniversalTag_def)

lemma IsValidBitStringValue_less: "IsValidBitStringValue u bs \<Longrightarrow> u < 8"
  by (auto simp: IsValidBitStringValue_def split: if_splits)

text \<open>
  C15: the typed readers and the typed encoders agree on every element that was read from a
  document: \<open>ReadDerInteger\<close>, \<open>ReadDerBitString\<close> and \<open>ReadDerOctetString\<close> return a value iff encoding
  that value gives the bytes of the element. In particular an integer that is not minimal and a bit
  string with unused bits set are rejected on both sides.
\<close>

theorem typed_readers_exact:
  assumes "ReadElement r = Some (Inr e, r')" "m_offset r \<le> length (m_input r)" "length (m_input r) < 2 ^ 64"
  shows "(ReadDerInteger e = Inr v \<longleftrightarrow> EncodeDerInteger v = Some (Inr (elem_encoded e))) \<and>
    (ReadDerBitString e = Inr b \<longleftrightarrow>
       EncodeDerBitString (unusedBitCount b) (bit_bytes b) = Some (Inr (elem_encoded e))) \<and>
    (ReadDerOctetString e = Inr v \<longleftrightarrow> EncodeDerOctetString v = Some (Inr (elem_encoded e)))"
proof (intro conjI)
  note enc = EncodeDerElement_of_read [OF assms number_universal]
  show "ReadDerInteger e = Inr v \<longleftrightarrow> EncodeDerInteger v = Some (Inr (elem_encoded e))"
    by (auto simp: ReadDerInteger_def EncodeDerInteger_def enc IsDerUniversalElement_def)
  show "ReadDerOctetString e = Inr v \<longleftrightarrow> EncodeDerOctetString v = Some (Inr (elem_encoded e))"
    by (auto simp: ReadDerOctetString_def EncodeDerOctetString_def enc IsDerUniversalElement_def)
  obtain u bs where b: "b = \<lparr>unusedBitCount = u, bit_bytes = bs\<rparr>" by (cases b)
  have "to_byte u = c \<longleftrightarrow> unat c = u" if "IsValidBitStringValue u bs" for c
    using IsValidBitStringValue_less [OF that] by auto
  moreover have "u mod 256 = u" if "IsValidBitStringValue u bs"
    using IsValidBitStringValue_less [OF that] by simp
  ultimately show "ReadDerBitString e = Inr b \<longleftrightarrow>
      EncodeDerBitString (unusedBitCount b) (bit_bytes b) = Some (Inr (elem_encoded e))"
    by (auto simp: ReadDerBitString_def EncodeDerBitString_def enc IsDerUniversalElement_def b split: list.splits)
qed

definition sample_integer :: DerElement where
  "sample_integer = \<lparr>elem_tag = MakeDerUniversalTag TagInteger False, elem_value = [0x05],
     elem_encoded = [0x02, 0x01, 0x05]\<rparr>"

lemma sample_read_integer: "ReadElement (sample_reader 2) = Some (Inr sample_integer, sample_reader 5)"
  by code_simp

theorem typed_readers_exact_witness: "EncodeDerInteger [0x05] = Some (Inr [0x02, 0x01, 0x05])"
proof -
  have "ReadDerInteger sample_integer = Inr [0x05]" by code_simp
  then show ?thesis
    using typed_readers_exact [OF sample_read_integer, of "[0x05]"] by (simp add: sample_reader_def sample_integer_def)
qed

text \<open>
  C16: the same for object identifiers: for every element that was read, \<open>ReadDerObjectIdentifier\<close>
  returns a list of arcs iff the arcs fit 32 bits and \<open>EncodeDerObjectIdentifier\<close> of them is the
  bytes of the element. The packing of the first two arcs into one number loses nothing.
\<close>

theorem ReadDerObjectIdentifier_exact:
  assumes "ReadElement r = Some (Inr e, r')" "m_offset r \<le> length (m_input r)" "length (m_input r) < 2 ^ 64"
  shows "ReadDerObjectIdentifier e = Some (Inr arcs) \<longleftrightarrow>
    list_all (\<lambda>a. a < 2 ^ 32) arcs \<and> EncodeDerObjectIdentifier arcs = Some (Inr (elem_encoded e))"
proof -
  note enc = EncodeDerElement_of_read [OF assms number_universal]
  have "valid_arcs arcs \<Longrightarrow> list_all (\<lambda>a. a < 2 ^ 32) arcs" by (simp add: valid_arcs_def list_all_iff)
  then show ?thesis
    by (auto simp: ReadDerObjectIdentifier_iff EncodeDerObjectIdentifier_spec enc list_all_iff split: if_splits)
qed

definition sample_oid_reader :: "nat \<Rightarrow> DerReader" where
  "sample_oid_reader offset = \<lparr>m_input = [0x06, 0x03, 0x55, 0x04, 0x03],
     m_options = \<lparr>maxElementBytes = 1024, maxDepth = 64\<rparr>, m_offset = offset, m_depth = 0\<rparr>"

definition sample_oid :: DerElement where
  "sample_oid = \<lparr>elem_tag = MakeDerUniversalTag TagObjectIdentifier False, elem_value = [0x55, 0x04, 0x03],
     elem_encoded = [0x06, 0x03, 0x55, 0x04, 0x03]\<rparr>"

lemma sample_read_oid: "ReadElement (sample_oid_reader 0) = Some (Inr sample_oid, sample_oid_reader 5)"
  by code_simp

theorem ReadDerObjectIdentifier_exact_witness: "EncodeDerObjectIdentifier [2, 5, 4, 3] = Some (Inr [0x06, 0x03, 0x55, 0x04, 0x03])"
proof -
  have "b128 n = [to_byte n]" if "n < 128" for n using that by (simp add: b128_def)
  then have "ReadDerObjectIdentifier sample_oid = Some (Inr [2, 5, 4, 3])"
    by (simp add: ReadDerObjectIdentifier_iff sample_oid_def valid_arcs_def oid_octets_def to_byte_def)
  then show ?thesis
    using ReadDerObjectIdentifier_exact [OF sample_read_oid, of "[2, 5, 4, 3]"]
    by (simp add: sample_oid_reader_def sample_oid_def)
qed

definition encodes :: "DerTag \<times> bytes \<Rightarrow> bytes \<Rightarrow> bool" where
  "encodes x b \<longleftrightarrow> number (fst x) < 2 ^ 32 \<and> EncodeDerElement (fst x) (snd x) = Some (Inr b)"

lemma encodes_put:
  assumes "encodes x b" "length b < 2 ^ 64"
  shows "der_ok x \<and> b = der_put x"
  using assms EncodeDerElement_length [of "fst x" "snd x" b]
    EncodeDerElement_spec [of "fst x" "snd x"]
  by (auto simp: encodes_def der_ok_def der_put_def)

lemma encodes_all_put:
  assumes "list_all2 encodes xs bs" "length (concat bs) < 2 ^ 64"
  shows "list_all der_ok xs \<and> concat bs = concat (map der_put xs)"
  using assms by (induction rule: list_all2_induct) (simp_all add: encodes_put)

text \<open>
  The content of a sequence determines its children: if two lists of elements are encoded one by
  one and the concatenations give the same \<open>EncodeDerSequence\<close>, the lists are the same. (Each tag
  number fits 32 bits and the content less than \<open>2 ^ 64\<close> bytes.)
\<close>

lemma EncodeDerSequence_children:
  assumes "list_all2 encodes xs bs" "list_all2 encodes ys cs"
    and "length (concat bs) < 2 ^ 64" "length (concat cs) < 2 ^ 64"
    and "EncodeDerSequence (concat bs) = EncodeDerSequence (concat cs)"
  shows "xs = ys"
proof -
  obtain b where b: "EncodeDerSequence (concat bs) = Some (Inr b)"
    using EncodeDerElement_spec [OF number_universal assms(3)] unfolding EncodeDerSequence_def by blast
  with assms(5) have c: "EncodeDerSequence (concat cs) = Some (Inr b)" by simp
  have "concat bs = concat cs"
    using EncodeDerElement_inj [OF b [unfolded EncodeDerSequence_def] c [unfolded EncodeDerSequence_def]
      number_universal assms(3) number_universal assms(4)] by blast
  with assms show ?thesis
    using encodes_all_put [of xs bs] encodes_all_put [of ys cs] der.concat_inj by metis
qed

lemma EncodeDerSequence_children_witness:
  "\<exists>bs. list_all2 encodes [(MakeDerUniversalTag TagInteger False, [0x05])] bs \<and>
     (\<forall>xs. list_all2 encodes xs bs \<longrightarrow> xs = [(MakeDerUniversalTag TagInteger False, [0x05])])"
proof -
  let ?xs = "[(MakeDerUniversalTag TagInteger False, [0x05])]" and ?bs = "[[0x02, 0x01, 0x05]] :: bytes list"
  have "EncodeDerElement (MakeDerUniversalTag TagInteger False) [0x05] = Some (Inr [0x02, 0x01, 0x05])"
    by code_simp
  then have bs: "list_all2 encodes ?xs ?bs" using number_universal by (simp add: encodes_def)
  show ?thesis
    using bs EncodeDerSequence_children [OF _ bs, of _ ?bs] by (intro exI [of _ ?bs]) simp
qed

end
