(* ===== verification/Crypto_Pem.thy ===== *)
theory Crypto_Pem
  imports Crypto_Base64
begin

text \<open>
  The strict PEM parser (\<open>src/NGIN/Crypto/Encoding/Pem.cpp\<close>): reading of lines with the three line
  endings, boundary lines, labels, the size limit on a payload, and the loop of \<open>ParsePem\<close> with its
  local variables as a record.

  \<open>string_view\<close> values are strings. The size limit is computed in \<open>UIntSize\<close>, with its wrap-around
  written out. The payload and a line are disjoint parts of the input, so the sum of their sizes does
  not wrap.
\<close>

section \<open>Data\<close>

record PemBlock =
  label :: string
  pem_decoded :: bytes

record PemParseOptions =
  allowedLabels :: "string list"
  maxDecodedBytes :: nat
  allowMultipleBlocks :: bool

definition BEGIN_PREFIX :: string where
  "BEGIN_PREFIX = ''-----BEGIN ''"

definition END_PREFIX :: string where
  "END_PREFIX = ''-----END ''"

definition BOUNDARY_SUFFIX :: string where
  "BOUNDARY_SUFFIX = ''-----''"

section \<open>Lines and boundaries\<close>

definition StartsWith :: "string \<Rightarrow> string \<Rightarrow> bool" where
  "StartsWith tx pfx \<longleftrightarrow> length pfx \<le> length tx \<and> substr tx 0 (length pfx) = pfx"

definition EndsWith :: "string \<Rightarrow> string \<Rightarrow> bool" where
  "EndsWith tx sfx \<longleftrightarrow> length sfx \<le> length tx \<and> drop (length tx - length sfx) tx = sfx"

definition IsLineEnd :: "char \<Rightarrow> bool" where
  "IsLineEnd c \<longleftrightarrow> c = CHR 0x0D \<or> c = CHR 0x0A"

function ReadLine_scan :: "string \<Rightarrow> nat \<Rightarrow> nat" where
  "ReadLine_scan input offset =
     (if offset < length input \<and> \<not> IsLineEnd (input ! offset) then ReadLine_scan input (offset + 1) else offset)"
  by pat_completeness auto
termination
  by (relation "measure (\<lambda>(input, offset). length input - offset)") auto

declare ReadLine_scan.simps [simp del]

text \<open>\<^const>\<open>None\<close> stands for the result \<open>false\<close>; otherwise the line and the new offset.\<close>

definition ReadLine :: "string \<Rightarrow> nat \<Rightarrow> (string \<times> nat) option" where
  "ReadLine input offset =
     (if length input \<le> offset then None
      else
        let lineStart = offset; offset = ReadLine_scan input offset;
            line = substr input lineStart (offset - lineStart)
        in Some (line,
             if offset < length input then
               if input ! offset = CHR 0x0D \<and> offset + 1 < length input \<and> input ! (offset + 1) = CHR 0x0A
               then offset + 2 else offset + 1
             else offset))"

definition ExtractBoundaryLabel :: "string \<Rightarrow> string \<Rightarrow> string option" where
  "ExtractBoundaryLabel line pfx =
     (if \<not> StartsWith line pfx \<or> \<not> EndsWith line BOUNDARY_SUFFIX then None
      else
        let labelStart = length pfx;
            labelSize = (length line + 2 ^ 64 - length pfx - length BOUNDARY_SUFFIX) mod 2 ^ 64
        in Some (substr line labelStart labelSize))"

section \<open>Labels and sizes\<close>

definition IsLabelCharacter :: "char \<Rightarrow> bool" where
  "IsLabelCharacter c \<longleftrightarrow> between (CHR ''A'') (CHR ''Z'') c \<or> between (CHR ''0'') (CHR ''9'') c \<or> c = CHR '' ''"

fun IsValidLabel_loop :: "string \<Rightarrow> bool \<Rightarrow> bool" where
  "IsValidLabel_loop [] previousWasSpace = True"
| "IsValidLabel_loop (c # cs) previousWasSpace =
     (if \<not> IsLabelCharacter c then False
      else if c = CHR '' '' then if previousWasSpace then False else IsValidLabel_loop cs True
      else IsValidLabel_loop cs False)"

definition IsValidLabel :: "string \<Rightarrow> bool" where
  "IsValidLabel l \<longleftrightarrow> (if l = [] \<or> hd l = CHR '' '' \<or> last l = CHR '' '' then False else IsValidLabel_loop l False)"

definition IsAllowedLabel :: "string \<Rightarrow> PemParseOptions \<Rightarrow> bool" where
  "IsAllowedLabel l options \<longleftrightarrow>
     (if length (allowedLabels options) = 0 then True else list_ex (\<lambda>allowed. l = allowed) (allowedLabels options))"

definition IsBase64Character :: "char \<Rightarrow> bool" where
  "IsBase64Character c \<longleftrightarrow>
     between (CHR ''A'') (CHR ''Z'') c \<or> between (CHR ''a'') (CHR ''z'') c \<or>
     between (CHR ''0'') (CHR ''9'') c \<or> c = CHR ''+'' \<or> c = CHR ''/'' \<or> c = CHR ''=''"

definition CanFitEncodedBase64Length :: "nat \<Rightarrow> nat \<Rightarrow> bool" where
  "CanFitEncodedBase64Length encodedLength maxDecoded \<longleftrightarrow>
     (if 2 ^ 64 - 1 - 2 < maxDecoded then True
      else encodedLength \<le> (((maxDecoded + 2) div 3 * 4) mod 2 ^ 64 + 4) mod 2 ^ 64)"

section \<open>The parser\<close>

record PemState =
  blocks :: "PemBlock list"
  currentLabel :: string
  encodedPayload :: string
  insideBlock :: bool

text \<open>The body of the loop for one line; \<open>continue\<close> is the new state, \<open>return\<close> an error.\<close>

definition ParsePem_line :: "PemParseOptions \<Rightarrow> PemState \<Rightarrow> string \<Rightarrow> PemState crypto" where
  "ParsePem_line options st line =
     (if \<not> insideBlock st then
        if line = [] then Some (Inr st)
        else (case ExtractBoundaryLabel line BEGIN_PREFIX of
          None \<Rightarrow> Some (Inl ParseError)
        | Some l \<Rightarrow>
            if \<not> IsValidLabel l \<or> \<not> IsAllowedLabel l options then Some (Inl ParseError)
            else if \<not> allowMultipleBlocks options \<and> length (blocks st) \<noteq> 0 then Some (Inl ParseError)
            else Some (Inr (st\<lparr>currentLabel := l, encodedPayload := [], insideBlock := True\<rparr>)))
      else if StartsWith line BEGIN_PREFIX then Some (Inl ParseError)
      else (case ExtractBoundaryLabel line END_PREFIX of
        Some endLabel \<Rightarrow>
          if endLabel \<noteq> currentLabel st \<or> encodedPayload st = [] then Some (Inl ParseError)
          else if length (encodedPayload st) mod 4 \<noteq> 0 then Some (Inl EncodingError)
          else do {
            decoded \<leftarrow> DecodeBase64 (encodedPayload st);
            (case decoded of Inl e \<Rightarrow> Some (Inl e)
             | Inr bs \<Rightarrow>
                 if maxDecodedBytes options < length bs then Some (Inl ParseError)
                 else Some (Inr \<lparr>blocks = blocks st @ [\<lparr>label = currentLabel st, pem_decoded = bs\<rparr>],
                                 currentLabel = [], encodedPayload = [], insideBlock = False\<rparr>)) }
      | None \<Rightarrow>
          if line = [] then Some (Inl ParseError)
          else if \<not> list_all IsBase64Character line then Some (Inl EncodingError)
          else if \<not> CanFitEncodedBase64Length (length (encodedPayload st) + length line) (maxDecodedBytes options)
          then Some (Inl ParseError)
          else Some (Inr (st\<lparr>encodedPayload := encodedPayload st @ line\<rparr>))))"

lemma ReadLine_scan_bounds: "offset \<le> length input \<Longrightarrow> offset \<le> ReadLine_scan input offset \<and> ReadLine_scan input offset \<le> length input"
proof (induction "length input - offset" arbitrary: offset)
  case 0
  then show ?case by (simp add: ReadLine_scan.simps [of input offset])
next
  case (Suc n)
  then have "n = length input - (offset + 1)" by simp
  from Suc.hyps(1) [OF this] Suc.hyps(2) have "offset + 1 \<le> ReadLine_scan input (offset + 1)"
    "ReadLine_scan input (offset + 1) \<le> length input" by simp_all
  with Suc.prems show ?case
    by (simp add: ReadLine_scan.simps [of input offset])
qed

lemma ReadLine_progress: "ReadLine input offset = Some (line, offset') \<Longrightarrow> offset < offset' \<and> offset' \<le> length input"
  using ReadLine_scan_bounds [of offset input]
  by (auto simp: ReadLine_def Let_def split: if_splits)

function ParsePem_loop :: "string \<Rightarrow> PemParseOptions \<Rightarrow> nat \<Rightarrow> PemState \<Rightarrow> PemState crypto" where
  "ParsePem_loop input options offset st =
     (case ReadLine input offset of None \<Rightarrow> Some (Inr st)
      | Some (line, offset') \<Rightarrow> do {
          r \<leftarrow> ParsePem_line options st line;
          (case r of Inl e \<Rightarrow> Some (Inl e) | Inr st \<Rightarrow> ParsePem_loop input options offset' st) })"
  by pat_completeness auto
termination
proof (relation "measure (\<lambda>(input, options, offset, st). length input - offset)")
  fix input :: string and options :: PemParseOptions and offset :: nat and st :: PemState and x line offset' r st'
  assume "ReadLine input offset = Some x" "(line, offset') = x"
  then show "((input, options, offset', st'), input, options, offset, st)
      \<in> measure (\<lambda>(input, options, offset, st). length input - offset)"
    using ReadLine_progress [of input offset line offset'] by auto
qed simp

declare ParsePem_loop.simps [simp del]

definition ParsePem :: "string \<Rightarrow> PemParseOptions \<Rightarrow> (PemBlock list) crypto" where
  "ParsePem input options = do {
     r \<leftarrow> ParsePem_loop input options 0 \<lparr>blocks = [], currentLabel = [], encodedPayload = [], insideBlock = False\<rparr>;
     (case r of Inl e \<Rightarrow> Some (Inl e)
      | Inr st \<Rightarrow> if insideBlock st \<or> length (blocks st) = 0 then Some (Inl ParseError) else Some (Inr (blocks st))) }"

end
