(* ===== verification/Crypto_Pem_Props.thy ===== *)
theory Crypto_Pem_Props
  imports Crypto_Pem
begin

text \<open>
  The PEM parser accepts exactly the documents of a grammar over lines (\<open>pem_document\<close>), and for every
  input it returns a result that obeys the options.
\<close>

section \<open>Lines\<close>

text \<open>The lines of a text: cut at a carriage return, a line feed or the pair of both.\<close>

fun after_line :: "string \<Rightarrow> string" where
  "after_line [] = []"
| "after_line [c] = []"
| "after_line (c # d # s) = (if c = CHR 0x0D \<and> d = CHR 0x0A then s else d # s)"

lemma length_after_line: "length (after_line s) \<le> length s" "s \<noteq> [] \<Longrightarrow> length (after_line s) < length s"
  by (induction s rule: after_line.induct) auto

function pem_lines :: "string \<Rightarrow> string list" where
  "pem_lines s =
     (if s = [] then []
      else takeWhile (\<lambda>c. \<not> IsLineEnd c) s # pem_lines (after_line (dropWhile (\<lambda>c. \<not> IsLineEnd c) s)))"
  by pat_completeness auto
termination
proof (relation "measure length")
  fix s :: string
  assume s: "s \<noteq> []"
  define d where "d = dropWhile (\<lambda>c. \<not> IsLineEnd c) s"
  have "length d \<le> length s" by (simp add: d_def length_dropWhile_le)
  then have "length (after_line d) < length s"
    using s length_after_line [of d] by (cases "d = []") simp_all
  then show "(after_line (dropWhile (\<lambda>c. \<not> IsLineEnd c) s), s) \<in> measure length" by (simp add: d_def)
qed simp

declare pem_lines.simps [simp del]

lemma ReadLine_scan_spec:
  "ReadLine_scan (pre @ s) (length pre) = length pre + length (takeWhile (\<lambda>c. \<not> IsLineEnd c) s)"
proof (induction s arbitrary: pre)
  case Nil
  then show ?case by (simp add: ReadLine_scan.simps)
next
  case (Cons c s)
  show ?case using Cons.IH [of "pre @ [c]"]
    by (simp add: ReadLine_scan.simps [of "pre @ c # s"])
qed

lemma ReadLine_spec:
  assumes "s \<noteq> []"
  shows "\<exists>used. s = used @ after_line (dropWhile (\<lambda>c. \<not> IsLineEnd c) s) \<and>
    ReadLine (pre @ s) (length pre) = Some (takeWhile (\<lambda>c. \<not> IsLineEnd c) s, length (pre @ used))"
proof -
  define line rest where "line = takeWhile (\<lambda>c. \<not> IsLineEnd c) s" and "rest = dropWhile (\<lambda>c. \<not> IsLineEnd c) s"
  have s: "s = line @ rest" by (simp add: line_def rest_def)
  have scan: "ReadLine_scan (pre @ s) (length pre) = length pre + length line"
    by (simp add: ReadLine_scan_spec line_def)
  have sub: "substr (pre @ s) (length pre) (length line) = line" by (simp add: substr_def s)
  have "\<exists>used. s = used @ after_line rest \<and> ReadLine (pre @ s) (length pre) = Some (line, length (pre @ used))"
  proof (cases rest rule: after_line.cases)
    case 1
    then show ?thesis using assms s scan sub
      by (intro exI [of _ s]) (simp add: ReadLine_def Let_def)
  next
    case (2 c)
    then show ?thesis using assms s scan sub
      by (intro exI [of _ s]) (simp add: ReadLine_def Let_def)
  next
    case (3 c d s')
    then show ?thesis using assms s scan sub
      by (intro exI [of _ "line @ (if c = CHR 0x0D \<and> d = CHR 0x0A then [c, d] else [c])"])
        (simp add: ReadLine_def Let_def nth_append)
  qed
  then show ?thesis by (simp add: line_def rest_def)
qed

text \<open>The loop as a run over the lines.\<close>

fun pem_run :: "PemParseOptions \<Rightarrow> PemState \<Rightarrow> string list \<Rightarrow> PemState crypto" where
  "pem_run options st [] = Some (Inr st)"
| "pem_run options st (line # ls) = do {
     r \<leftarrow> ParsePem_line options st line;
     (case r of Inl e \<Rightarrow> Some (Inl e) | Inr st \<Rightarrow> pem_run options st ls) }"

lemma ParsePem_loop_run: "ParsePem_loop (pre @ s) options (length pre) st = pem_run options st (pem_lines s)"
proof (induction s arbitrary: pre st rule: pem_lines.induct)
  case (1 s)
  show ?case
  proof (cases "s = []")
    case True
    then show ?thesis by (simp add: ParsePem_loop.simps pem_lines.simps ReadLine_def)
  next
    case False
    let ?rest = "after_line (dropWhile (\<lambda>c. \<not> IsLineEnd c) s)"
    obtain used where used: "s = used @ ?rest"
      "ReadLine (pre @ s) (length pre) = Some (takeWhile (\<lambda>c. \<not> IsLineEnd c) s, length (pre @ used))"
      using ReadLine_spec [OF False] by blast
    have "ParsePem_loop ((pre @ used) @ ?rest) options (length (pre @ used)) st = pem_run options st (pem_lines ?rest)" for st
      by (rule 1 [OF False])
    then have "ParsePem_loop (pre @ s) options (length (pre @ used)) = (\<lambda>st. pem_run options st (pem_lines ?rest))"
      using used(1) by (simp add: fun_eq_iff)
    then show ?thesis
      using used(2) False by (simp add: ParsePem_loop.simps [of "pre @ s" options "length pre"] pem_lines.simps [of s])
  qed
qed

section \<open>Boundary lines\<close>

lemma StartsWith_iff: "StartsWith tx pfx \<longleftrightarrow> (\<exists>r. tx = pfx @ r)"
  by (auto simp: StartsWith_def substr_def) (metis append_take_drop_id)

lemma EndsWith_iff: "EndsWith tx sfx \<longleftrightarrow> (\<exists>r. tx = r @ sfx)"
  by (auto simp: EndsWith_def) (metis append_take_drop_id)

text \<open>A prefix that does not end in a dash cannot overlap the suffix, so the size of the label does not wrap.\<close>

lemma boundary_no_overlap:
  assumes "line = pfx @ r" "line = l @ BOUNDARY_SUFFIX" "pfx \<noteq> []" "last pfx \<noteq> CHR ''-''"
  shows "\<exists>m. line = pfx @ m @ BOUNDARY_SUFFIX"
proof -
  have dash: "set BOUNDARY_SUFFIX = {CHR ''-''}" by (simp add: BOUNDARY_SUFFIX_def)
  from assms(1,2) have "pfx @ r = l @ BOUNDARY_SUFFIX" by simp
  then consider u where "pfx = l @ u" "u @ r = BOUNDARY_SUFFIX" | u where "l = pfx @ u" "r = u @ BOUNDARY_SUFFIX"
    by (auto simp: append_eq_append_conv2)
  then show ?thesis
  proof cases
    case 1
    have "u = []"
    proof (rule ccontr)
      assume "u \<noteq> []"
      then have "last pfx \<in> set BOUNDARY_SUFFIX" using 1 by (metis Un_iff last_appendR last_in_set set_append)
      then show False using dash assms(4) by simp
    qed
    then show ?thesis using 1 assms by auto
  next
    case 2
    then show ?thesis using assms by auto
  qed
qed

lemma ExtractBoundaryLabel_iff:
  assumes "pfx = BEGIN_PREFIX \<or> pfx = END_PREFIX" "length line < 2 ^ 64"
  shows "ExtractBoundaryLabel line pfx = Some l \<longleftrightarrow> line = pfx @ l @ BOUNDARY_SUFFIX"
proof -
  have pfx: "pfx \<noteq> []" "last pfx \<noteq> CHR ''-''" using assms by (auto simp: BEGIN_PREFIX_def END_PREFIX_def)
  have label: "ExtractBoundaryLabel (pfx @ m @ BOUNDARY_SUFFIX) pfx = Some m" if "length m < 2 ^ 64" for m
  proof -
    have "StartsWith (pfx @ m @ BOUNDARY_SUFFIX) pfx" "EndsWith (pfx @ m @ BOUNDARY_SUFFIX) BOUNDARY_SUFFIX"
      by (auto simp: StartsWith_iff EndsWith_iff)
    then show ?thesis using that by (simp add: ExtractBoundaryLabel_def Let_def substr_def)
  qed
  show ?thesis
  proof
    assume L: "ExtractBoundaryLabel line pfx = Some l"
    then have "StartsWith line pfx" "EndsWith line BOUNDARY_SUFFIX"
      by (auto simp: ExtractBoundaryLabel_def split: if_splits)
    then obtain r k where "line = pfx @ r" "line = k @ BOUNDARY_SUFFIX"
      unfolding StartsWith_iff EndsWith_iff by blast
    then obtain m where m: "line = pfx @ m @ BOUNDARY_SUFFIX" using boundary_no_overlap pfx by metis
    then show "line = pfx @ l @ BOUNDARY_SUFFIX" using L label [of m] assms(2) by simp
  next
    assume "line = pfx @ l @ BOUNDARY_SUFFIX"
    then show "ExtractBoundaryLabel line pfx = Some l" using label [of l] assms(2) by simp
  qed
qed

section \<open>Payloads\<close>

lemma b64_ok_Base64: "b64_ok c \<Longrightarrow> IsBase64Character c"
  by (auto simp: b64_ok_def DecodeValue_def IsBase64Character_def split: if_splits)

lemma payload_text: "list_all IsBase64Character (b64_text bs Required)"
proof -
  have "IsBase64Character (CHR ''='')" by (simp add: IsBase64Character_def)
  then show ?thesis
    using ok_sextets [of bs] b64_ok_Base64 by (auto simp: b64_text_def b64_pad_def list_all_iff)
qed

lemma length_b64_text_Required: "length (b64_text bs Required) = (length bs + 2) div 3 * 4"
proof -
  have "length bs mod 3 = 0 \<or> length bs mod 3 = 1 \<or> length bs mod 3 = 2" by linarith
  moreover have "length bs + 2 = (length bs mod 3 + 2) + length bs div 3 * 3" by simp
  then have "(length bs + 2) div 3 = length bs div 3 + (length bs mod 3 + 2) div 3"
    by (simp only: div_mult_self1)
  ultimately show ?thesis
    by (elim disjE) (simp_all add: b64_text_def b64_pad_def length_sextets)
qed

lemma DecodeBase64_quartets:
  assumes "length t mod 4 = 0"
  shows "DecodeBase64 t = Some (Inr bs) \<longleftrightarrow> EncodeBase64 bs Required = Some (Inr t)"
proof
  assume "DecodeBase64 t = Some (Inr bs)"
  then have "EncodeBase64 bs Required = Some (Inr (b64_canon Required t))" by (rule b64.enc_dec)
  then show "EncodeBase64 bs Required = Some (Inr t)" using assms by simp
qed (rule b64.dec_enc)

lemma CanFit_iff:
  assumes "m < 2 ^ 62"
  shows "CanFitEncodedBase64Length n m \<longleftrightarrow> n \<le> (m + 2) div 3 * 4 + 4"
proof -
  have "(m + 2) div 3 * 3 \<le> m + 2" by (rule div_times_less_eq_dividend)
  then have "(m + 2) div 3 * 4 + 4 < 2 ^ 64" using assms by simp
  then show ?thesis using assms by (simp add: CanFitEncodedBase64Length_def)
qed

section \<open>The grammar of documents\<close>

definition boundary :: "string \<Rightarrow> string \<Rightarrow> string" where
  "boundary pfx l = pfx @ l @ BOUNDARY_SUFFIX"

text \<open>The blocks of a list of lines; blank lines are allowed between blocks only.\<close>

inductive pem_document :: "PemParseOptions \<Rightarrow> string list \<Rightarrow> PemBlock list \<Rightarrow> bool" for options where
  finish: "pem_document options [] []"
| blank: "pem_document options ls bs \<Longrightarrow> pem_document options ([] # ls) bs"
| block: "IsValidLabel l \<Longrightarrow> IsAllowedLabel l options \<Longrightarrow> payload \<noteq> [] \<Longrightarrow> [] \<notin> set payload \<Longrightarrow>
    EncodeBase64 decoded Required = Some (Inr (concat payload)) \<Longrightarrow> length decoded \<le> maxDecodedBytes options \<Longrightarrow>
    pem_document options ls bs \<Longrightarrow>
    pem_document options (boundary BEGIN_PREFIX l # payload @ boundary END_PREFIX l # ls)
      (\<lparr>label = l, pem_decoded = decoded\<rparr> # bs)"

definition outside :: "PemBlock list \<Rightarrow> PemState" where
  "outside bs = \<lparr>blocks = bs, currentLabel = [], encodedPayload = [], insideBlock = False\<rparr>"

definition inside :: "PemBlock list \<Rightarrow> string \<Rightarrow> string \<Rightarrow> PemState" where
  "inside bs l pay = \<lparr>blocks = bs, currentLabel = l, encodedPayload = pay, insideBlock = True\<rparr>"

text \<open>The three kinds of lines are different.\<close>

lemma Extract_None:
  "length line < 2 ^ 64 \<Longrightarrow> pfx = BEGIN_PREFIX \<or> pfx = END_PREFIX \<Longrightarrow>
     ExtractBoundaryLabel line pfx = None \<longleftrightarrow> (\<forall>l. line \<noteq> boundary pfx l)"
  using ExtractBoundaryLabel_iff [of pfx line] unfolding boundary_def
  by (cases "ExtractBoundaryLabel line pfx") auto

lemma base64_line:
  assumes "list_all IsBase64Character line" "line \<noteq> []"
  shows "\<not> StartsWith line BEGIN_PREFIX" "line \<noteq> boundary END_PREFIX l"
proof -
  have "CHR ''-'' \<notin> set line" using assms(1) by (auto simp: list_all_iff IsBase64Character_def less_eq_char_def)
  then show "\<not> StartsWith line BEGIN_PREFIX" "line \<noteq> boundary END_PREFIX l"
    by (auto simp: StartsWith_iff BEGIN_PREFIX_def END_PREFIX_def boundary_def)
qed

lemma line_outside:
  assumes "length line < 2 ^ 64"
  shows "ParsePem_line options (outside bs) line = Some (Inr st) \<longleftrightarrow>
    line = [] \<and> st = outside bs \<or>
    (\<exists>l. line = boundary BEGIN_PREFIX l \<and> IsValidLabel l \<and> IsAllowedLabel l options \<and>
       (allowMultipleBlocks options \<or> bs = []) \<and> st = inside bs l [])"
proof (cases "ExtractBoundaryLabel line BEGIN_PREFIX")
  case None
  then have "\<forall>l. line \<noteq> boundary BEGIN_PREFIX l" using assms by (simp add: Extract_None)
  then show ?thesis using None by (auto simp: ParsePem_line_def outside_def)
next
  case (Some l)
  then have line: "line = boundary BEGIN_PREFIX l" using assms by (simp add: ExtractBoundaryLabel_iff boundary_def)
  then have "line \<noteq> []" "\<And>k. line = boundary BEGIN_PREFIX k \<longleftrightarrow> k = l" by (auto simp: boundary_def BOUNDARY_SUFFIX_def)
  then show ?thesis using Some by (auto simp: ParsePem_line_def outside_def inside_def)
qed

lemma EncodeBase64_quartets: "EncodeBase64 bs Required = Some (Inr t) \<Longrightarrow> length t mod 4 = 0"
  using length_b64_text_Required [of bs] by (auto simp: EncodeBase64_eq)

lemma end_not_begin: "\<not> StartsWith (boundary END_PREFIX k) BEGIN_PREFIX"
  by (simp add: StartsWith_iff boundary_def END_PREFIX_def BEGIN_PREFIX_def)

text \<open>The line that ends a block.\<close>

lemma line_inside_end:
  assumes "length (boundary END_PREFIX k) < 2 ^ 64"
  shows "ParsePem_line options (inside bs l pay) (boundary END_PREFIX k) = Some (Inr st) \<longleftrightarrow>
    k = l \<and> pay \<noteq> [] \<and>
       (\<exists>decoded. EncodeBase64 decoded Required = Some (Inr pay) \<and> length decoded \<le> maxDecodedBytes options \<and>
          st = outside (bs @ [\<lparr>label = l, pem_decoded = decoded\<rparr>]))"
proof -
  have ext: "ExtractBoundaryLabel (boundary END_PREFIX k) END_PREFIX = Some k"
    using assms by (simp add: ExtractBoundaryLabel_iff boundary_def)
  show ?thesis
  proof (cases "length pay mod 4 = 0")
    case False
    then show ?thesis using ext EncodeBase64_quartets [of _ pay] end_not_begin [of k]
      by (auto simp: ParsePem_line_def inside_def)
  next
    case True
    obtain r where r: "DecodeBase64 pay = Some r" using b64.dec_safe [of pay] by auto
    have "EncodeBase64 decoded Required = Some (Inr pay) \<longleftrightarrow> r = Inr decoded" for decoded
      using DecodeBase64_quartets [OF True] r by auto
    then show ?thesis using ext end_not_begin [of k] r True
      by (cases r) (auto simp: ParsePem_line_def inside_def outside_def not_less)
  qed
qed

lemma line_inside:
  assumes "length line < 2 ^ 64"
  shows "ParsePem_line options (inside bs l pay) line = Some (Inr st) \<longleftrightarrow>
    (line = boundary END_PREFIX l \<and> pay \<noteq> [] \<and>
       (\<exists>decoded. EncodeBase64 decoded Required = Some (Inr pay) \<and> length decoded \<le> maxDecodedBytes options \<and>
          st = outside (bs @ [\<lparr>label = l, pem_decoded = decoded\<rparr>]))) \<or>
    (line \<noteq> [] \<and> list_all IsBase64Character line \<and>
       CanFitEncodedBase64Length (length pay + length line) (maxDecodedBytes options) \<and> st = inside bs l (pay @ line))"
proof (cases "\<exists>k. line = boundary END_PREFIX k")
  case True
  then obtain k where k: "line = boundary END_PREFIX k" by blast
  then have "\<not> list_all IsBase64Character line" "line = boundary END_PREFIX l \<longleftrightarrow> k = l"
    using base64_line(2) [of line k] by (auto simp: boundary_def END_PREFIX_def)
  then show ?thesis using line_inside_end [of k] assms k by auto
next
  case False
  then have "ExtractBoundaryLabel line END_PREFIX = None" using assms by (simp add: Extract_None)
  then show ?thesis using False base64_line(1) [of line] by (auto simp: ParsePem_line_def inside_def)
qed

section \<open>The parser accepts exactly the documents\<close>

lemma pem_run_Cons:
  "pem_run options st (line # ls) = Some (Inr res) \<longleftrightarrow>
     (\<exists>st'. ParsePem_line options st line = Some (Inr st') \<and> pem_run options st' ls = Some (Inr res))"
  by (auto simp: bind_eq_Some_conv case_sum_Inr_iff)

text \<open>What has been read of the block that a state is inside, and what the remaining lines must be.\<close>

definition completes :: "PemParseOptions \<Rightarrow> string \<Rightarrow> string \<Rightarrow> string list \<Rightarrow> PemBlock list \<Rightarrow> bool" where
  "completes options l pay ls bs \<longleftrightarrow>
     (\<exists>payload rest decoded tail. ls = payload @ boundary END_PREFIX l # rest \<and> [] \<notin> set payload \<and> pay @ concat payload \<noteq> [] \<and>
        EncodeBase64 decoded Required = Some (Inr (pay @ concat payload)) \<and> length decoded \<le> maxDecodedBytes options \<and>
        pem_document options rest tail \<and> bs = \<lparr>label = l, pem_decoded = decoded\<rparr> # tail)"

lemma pem_run_sound:
  assumes "\<forall>line\<in>set ls. length line < 2 ^ 64" "\<not> insideBlock res"
  shows "pem_run options (outside bs) ls = Some (Inr res) \<Longrightarrow>
      \<exists>new. pem_document options ls new \<and> res = outside (bs @ new) \<and> (allowMultipleBlocks options \<or> new = [] \<or> bs = [] \<and> length new = 1)"
    "pem_run options (inside bs l pay) ls = Some (Inr res) \<Longrightarrow>
      \<exists>new. completes options l pay ls new \<and> res = outside (bs @ new) \<and> (allowMultipleBlocks options \<or> length new = 1)"
  using assms
proof (induction ls arbitrary: bs l pay)
  case Nil
  {
    case 1
    then show ?case by (auto simp: outside_def intro: pem_document.finish)
  next
    case 2
    then show ?case by (auto simp: inside_def)
  }
next
  case (Cons line ls)
  {
    case 1
    have len: "length line < 2 ^ 64" "\<forall>line\<in>set ls. length line < 2 ^ 64" using 1 by simp_all
    from 1 obtain st where st: "ParsePem_line options (outside bs) line = Some (Inr st)" "pem_run options st ls = Some (Inr res)"
      unfolding pem_run_Cons by blast
    from st(1) [unfolded line_outside [OF len(1)]] consider (blank) "line = []" "st = outside bs"
      | (start) l where "line = boundary BEGIN_PREFIX l" "IsValidLabel l" "IsAllowedLabel l options"
        "allowMultipleBlocks options \<or> bs = []" "st = inside bs l []" by blast
    then show ?case
    proof cases
      case blank
      then show ?thesis using Cons.IH(1) [of bs] st(2) len(2) 1 by (auto intro: pem_document.blank)
    next
      case l: (start l)
      with Cons.IH(2) [of bs l "[]"] st(2) len(2) 1 obtain new where new: "completes options l [] ls new"
        "res = outside (bs @ new)" "allowMultipleBlocks options \<or> length new = 1" by auto
      from new(1) have "pem_document options (line # ls) new"
        unfolding completes_def l(1) using l(2,3) by (auto intro!: pem_document.block)
      then show ?thesis using new l(4) by auto
    qed
  next
    case 2
    have len: "length line < 2 ^ 64" "\<forall>line\<in>set ls. length line < 2 ^ 64" using 2 by simp_all
    from 2 obtain st where st: "ParsePem_line options (inside bs l pay) line = Some (Inr st)" "pem_run options st ls = Some (Inr res)"
      unfolding pem_run_Cons by blast
    from st(1) [unfolded line_inside [OF len(1)]] consider (finish) decoded where "line = boundary END_PREFIX l" "pay \<noteq> []"
        "EncodeBase64 decoded Required = Some (Inr pay)" "length decoded \<le> maxDecodedBytes options"
        "st = outside (bs @ [\<lparr>label = l, pem_decoded = decoded\<rparr>])"
      | (more) "line \<noteq> []" "list_all IsBase64Character line" "st = inside bs l (pay @ line)" by blast
    then show ?case
    proof cases
      case e: (finish decoded)
      let ?b = "\<lparr>label = l, pem_decoded = decoded\<rparr>"
      from e Cons.IH(1) [of "bs @ [?b]"] st(2) len(2) 2 obtain new where new: "pem_document options ls new"
        "res = outside ((bs @ [?b]) @ new)" "allowMultipleBlocks options \<or> new = []" by auto
      then have "completes options l pay (line # ls) (?b # new)"
        unfolding completes_def using e by (intro exI [of _ "[]"] exI [of _ ls] exI [of _ decoded] exI [of _ new]) auto
      then show ?thesis using new by (intro exI [of _ "?b # new"]) auto
    next
      case e: more
      with Cons.IH(2) [of bs l "pay @ line"] st(2) len(2) 2 obtain new where new: "completes options l (pay @ line) ls new"
        "res = outside (bs @ new)" "allowMultipleBlocks options \<or> length new = 1" by auto
      from new(1) obtain payload rest decoded tail where c: "ls = payload @ boundary END_PREFIX l # rest" "[] \<notin> set payload"
        "EncodeBase64 decoded Required = Some (Inr ((pay @ line) @ concat payload))" "length decoded \<le> maxDecodedBytes options"
        "pem_document options rest tail" "new = \<lparr>label = l, pem_decoded = decoded\<rparr> # tail"
        unfolding completes_def by blast
      then have "completes options l pay (line # ls) new"
        unfolding completes_def using e by (intro exI [of _ "line # payload"] exI [of _ rest] exI [of _ decoded] exI [of _ tail]) auto
      then show ?thesis using new by blast
    qed
  }
qed

text \<open>Reading the lines of a payload that fits.\<close>

lemma pem_run_payload:
  assumes "\<forall>line\<in>set payload. length line < 2 ^ 64 \<and> line \<noteq> []" "list_all IsBase64Character (concat payload)"
    and "maxDecodedBytes options < 2 ^ 62" "length (pay @ concat payload) \<le> (maxDecodedBytes options + 2) div 3 * 4 + 4"
  shows "pem_run options (inside bs l pay) (payload @ rest) = pem_run options (inside bs l (pay @ concat payload)) rest"
  using assms(1,2,4)
proof (induction payload arbitrary: pay)
  case (Cons line payload)
  have "ParsePem_line options (inside bs l pay) line = Some (Inr (inside bs l (pay @ line)))"
    using Cons.prems line_inside [of line options bs l pay "inside bs l (pay @ line)"] assms(3)
    by (simp add: CanFit_iff)
  then show ?case using Cons.IH [of "pay @ line"] Cons.prems by simp
qed simp

lemma pem_run_complete:
  assumes "pem_document options ls new" "\<forall>line\<in>set ls. length line < 2 ^ 64" "maxDecodedBytes options < 2 ^ 62"
    and "allowMultipleBlocks options \<or> new = [] \<or> bs = [] \<and> length new = 1"
  shows "pem_run options (outside bs) ls = Some (Inr (outside (bs @ new)))"
  using assms(1,2,4)
proof (induction arbitrary: bs rule: pem_document.induct)
  case finish
  then show ?case by simp
next
  case (blank ls new)
  have "ParsePem_line options (outside bs) [] = Some (Inr (outside bs))" by (simp add: ParsePem_line_def outside_def)
  then show ?case using blank by simp
next
  case (block l payload decoded ls new)
  let ?b = "\<lparr>label = l, pem_decoded = decoded\<rparr>"
  have tx: "concat payload = b64_text decoded Required" using block.hyps(5) by (simp add: EncodeBase64_eq)
  have len: "length (concat payload) \<le> (maxDecodedBytes options + 2) div 3 * 4 + 4"
    unfolding tx length_b64_text_Required using block.hyps(6) div_le_mono [of "length decoded + 2" "maxDecodedBytes options + 2" 3]
    by simp
  have concat_ne: "concat payload \<noteq> []" using block.hyps(3,4) by (cases payload) auto
  have ne: "\<forall>line\<in>set payload. length line < 2 ^ 64 \<and> line \<noteq> []" using block.prems(1) block.hyps(4) by auto
  have "ParsePem_line options (outside bs) (boundary BEGIN_PREFIX l) = Some (Inr (inside bs l []))"
    using block by (subst line_outside) auto
  moreover have "pem_run options (inside bs l []) (payload @ boundary END_PREFIX l # ls) =
      pem_run options (inside bs l (concat payload)) (boundary END_PREFIX l # ls)"
    using pem_run_payload [OF ne _ assms(3), of "[]" bs l] len payload_text [of decoded] by (simp add: tx del: pem_run.simps)
  moreover have "ParsePem_line options (inside bs l (concat payload)) (boundary END_PREFIX l) = Some (Inr (outside (bs @ [?b])))"
    using block.prems(1) block.hyps(5,6) concat_ne by (subst line_inside_end) auto
  moreover have "pem_run options (outside (bs @ [?b])) ls = Some (Inr (outside ((bs @ [?b]) @ new)))"
    using block.prems by (intro block.IH) auto
  ultimately show ?case by simp
qed

lemma pem_lines_length: "line \<in> set (pem_lines s) \<Longrightarrow> length line \<le> length s"
proof (induction s rule: pem_lines.induct)
  case (1 s)
  let ?d = "dropWhile (\<lambda>c. \<not> IsLineEnd c) s"
  have "length (after_line ?d) \<le> length s"
    using length_after_line(1) [of ?d] length_dropWhile_le [of "\<lambda>c. \<not> IsLineEnd c" s] by linarith
  moreover from 1(2) have "s \<noteq> []" by (auto simp: pem_lines.simps)
  ultimately show ?case
    using 1 length_takeWhile_le [of "\<lambda>c. \<not> IsLineEnd c" s] by (auto simp: pem_lines.simps [of s])
qed

section \<open>Properties\<close>

text \<open>
  C7: \<open>ParsePem\<close> accepts exactly the PEM documents. For an input of less than \<open>2 ^ 64\<close> characters and a
  size limit below \<open>2 ^ 62\<close> it returns the blocks \<open>bs\<close> iff the lines of the input are these blocks: for
  each a \<open>BEGIN\<close> line with a valid and allowed label, lines that together are the padded Base64
  encoding of its bytes, at most the limit, and the \<open>END\<close> line with the same label; blank lines only
  between blocks; at least one block, and one only where the options say so.
\<close>

theorem ParsePem_exact:
  assumes "length input < 2 ^ 64" "maxDecodedBytes options < 2 ^ 62"
  shows "ParsePem input options = Some (Inr bs) \<longleftrightarrow>
    bs \<noteq> [] \<and> (allowMultipleBlocks options \<or> length bs = 1) \<and> pem_document options (pem_lines input) bs"
proof -
  have run: "ParsePem_loop input options 0 (outside []) = pem_run options (outside []) (pem_lines input)"
    using ParsePem_loop_run [of "[]" input] by simp
  have len: "\<forall>line\<in>set (pem_lines input). length line < 2 ^ 64" using assms(1) pem_lines_length by fastforce
  have "ParsePem input options = Some (Inr bs) \<longleftrightarrow> pem_run options (outside []) (pem_lines input) = Some (Inr (outside bs)) \<and> bs \<noteq> []"
  proof
    assume "ParsePem input options = Some (Inr bs)"
    then obtain st where st: "pem_run options (outside []) (pem_lines input) = Some (Inr st)" "\<not> insideBlock st"
      "blocks st = bs" "bs \<noteq> []"
      by (auto simp: ParsePem_def run [unfolded outside_def, folded outside_def] outside_def [symmetric] run bind_eq_Some_conv
          case_sum_Inr_iff split: if_splits)
    from pem_run_sound(1) [OF len st(2,1)] have "st = outside (blocks st)" by (auto simp: outside_def)
    then show "pem_run options (outside []) (pem_lines input) = Some (Inr (outside bs)) \<and> bs \<noteq> []" using st by simp
  next
    assume "pem_run options (outside []) (pem_lines input) = Some (Inr (outside bs)) \<and> bs \<noteq> []"
    then show "ParsePem input options = Some (Inr bs)"
      by (simp add: ParsePem_def outside_def [of "[]", symmetric] run) (simp add: outside_def)
  qed
  also have "\<dots> \<longleftrightarrow> bs \<noteq> [] \<and> (allowMultipleBlocks options \<or> length bs = 1) \<and> pem_document options (pem_lines input) bs"
  proof
    assume R: "pem_run options (outside []) (pem_lines input) = Some (Inr (outside bs)) \<and> bs \<noteq> []"
    have out: "\<not> insideBlock (outside bs)" by (simp add: outside_def)
    from pem_run_sound(1) [OF len out, of options "[]"] R show
      "bs \<noteq> [] \<and> (allowMultipleBlocks options \<or> length bs = 1) \<and> pem_document options (pem_lines input) bs"
      by (auto simp: outside_def)
  next
    assume "bs \<noteq> [] \<and> (allowMultipleBlocks options \<or> length bs = 1) \<and> pem_document options (pem_lines input) bs"
    then show "pem_run options (outside []) (pem_lines input) = Some (Inr (outside bs)) \<and> bs \<noteq> []"
      using pem_run_complete [of options "pem_lines input" bs "[]"] len assms(2) by auto
  qed
  finally show ?thesis .
qed

definition sample_pem :: string where
  "sample_pem = ''-----BEGIN A-----'' @ [CHR 0x0A] @ ''AQ=='' @ [CHR 0x0D, CHR 0x0A] @ ''-----END A-----''"

definition sample_pem_options :: PemParseOptions where
  "sample_pem_options = \<lparr>allowedLabels = [''A''], maxDecodedBytes = 16, allowMultipleBlocks = False\<rparr>"

theorem ParsePem_exact_witness:
  "ParsePem sample_pem sample_pem_options = Some (Inr [\<lparr>label = ''A'', pem_decoded = [1]\<rparr>])"
proof -
  have lines: "pem_lines sample_pem = [boundary BEGIN_PREFIX ''A'', ''AQ=='', boundary END_PREFIX ''A'']"
    by (simp add: sample_pem_def pem_lines.simps IsLineEnd_def boundary_def BEGIN_PREFIX_def END_PREFIX_def BOUNDARY_SUFFIX_def)
  have "sextets [1] = [0, 16]" by code_simp
  then have enc: "EncodeBase64 [1] Required = Some (Inr (concat [''AQ=='']))"
    by (simp add: EncodeBase64_eq b64_text_def b64_pad_def b64_char_def BASE64_ALPHABET_def numeral_2_eq_2)
  have "pem_document sample_pem_options ([boundary BEGIN_PREFIX ''A''] @ [''AQ==''] @ [boundary END_PREFIX ''A'']) [\<lparr>label = ''A'', pem_decoded = [1]\<rparr>]"
    using pem_document.block [OF _ _ _ _ enc _ pem_document.finish, of "''A''" sample_pem_options]
    by (simp add: sample_pem_options_def IsAllowedLabel_def IsValidLabel_def IsLabelCharacter_def less_eq_char_def)
  then show ?thesis
    using ParsePem_exact [of sample_pem sample_pem_options "[\<lparr>label = ''A'', pem_decoded = [1]\<rparr>]"] lines
    by (simp add: sample_pem_options_def sample_pem_def)
qed

text \<open>The invariant of the loop: what has been accepted obeys the options.\<close>

definition block_ok :: "PemParseOptions \<Rightarrow> PemBlock \<Rightarrow> bool" where
  "block_ok options b \<longleftrightarrow>
     IsValidLabel (label b) \<and> IsAllowedLabel (label b) options \<and> length (pem_decoded b) \<le> maxDecodedBytes options"

definition pem_inv :: "PemParseOptions \<Rightarrow> PemState \<Rightarrow> bool" where
  "pem_inv options st \<longleftrightarrow> list_all (block_ok options) (blocks st) \<and>
     (insideBlock st \<longrightarrow> IsValidLabel (currentLabel st) \<and> IsAllowedLabel (currentLabel st) options \<and>
        (allowMultipleBlocks options \<or> blocks st = [])) \<and>
     (allowMultipleBlocks options \<or> length (blocks st) \<le> 1)"

lemma ParsePem_line_inv:
  assumes "pem_inv options st"
  shows "\<exists>r. ParsePem_line options st line = Some r \<and>
    (case r of Inl e \<Rightarrow> e = ParseError \<or> e = EncodingError | Inr st' \<Rightarrow> pem_inv options st')"
proof -
  obtain d where d: "DecodeBase64 (encodedPayload st) = Some d" using b64.dec_safe [of "encodedPayload st"] by auto
  moreover have "d = Inl e \<Longrightarrow> e = EncodingError" for e
    using d by (auto simp: DecodeBase64_eq split: option.splits)
  ultimately show ?thesis
    using assms by (cases d) (auto simp: ParsePem_line_def pem_inv_def block_ok_def not_less split: option.splits)
qed

lemma pem_run_inv:
  assumes "pem_inv options st"
  shows "\<exists>r. pem_run options st ls = Some r \<and>
    (case r of Inl e \<Rightarrow> e = ParseError \<or> e = EncodingError | Inr st' \<Rightarrow> pem_inv options st')"
  using assms
proof (induction ls arbitrary: st)
  case (Cons line ls)
  obtain r where r: "ParsePem_line options st line = Some r"
    "case r of Inl e \<Rightarrow> e = ParseError \<or> e = EncodingError | Inr st' \<Rightarrow> pem_inv options st'"
    using ParsePem_line_inv [OF Cons.prems] by blast
  then show ?case using Cons.IH by (cases r) auto
qed simp

text \<open>
  \<open>ParsePem\<close> returns for every input and all options, with no access out of range. An error is a
  \<open>ParseError\<close> or an \<open>EncodingError\<close>; what it accepts obeys the options: at least one block, one only
  unless more are allowed, every label valid and on the allow list, every payload within the limit.
\<close>

lemma ParsePem_safe:
  "case ParsePem input options of
     None \<Rightarrow> False
   | Some (Inl e) \<Rightarrow> e = ParseError \<or> e = EncodingError
   | Some (Inr bs) \<Rightarrow> bs \<noteq> [] \<and> list_all (block_ok options) bs \<and> (allowMultipleBlocks options \<or> length bs = 1)"
proof -
  have "pem_inv options (outside [])" by (simp add: pem_inv_def outside_def)
  from pem_run_inv [OF this, of "pem_lines input"] obtain r where r: "ParsePem_loop input options 0 (outside []) = Some r"
    "case r of Inl e \<Rightarrow> e = ParseError \<or> e = EncodingError | Inr st \<Rightarrow> pem_inv options st"
    using ParsePem_loop_run [of "[]" input options "outside []"] by auto
  then show ?thesis
    by (cases r) (auto simp: ParsePem_def outside_def [of "[]", symmetric] pem_inv_def le_Suc_eq)
qed

text \<open>
  The size limit is computed with a product that wraps: with a limit of \<open>3 * 2 ^ 62 - 2\<close> bytes the
  largest accepted payload is four characters, so a document with eight characters, six bytes, is
  rejected although it is far below the limit.
\<close>

lemma CanFit_wraps: "\<not> CanFitEncodedBase64Length 8 (3 * 2 ^ 62 - 2)"
  by (simp add: CanFitEncodedBase64Length_def)

end
