(* ===== verification/Text_Unicode.thy ===== *)
theory Text_Unicode
  imports NGIN_Prelude Digits
begin

text \<open>
  The Unicode layer (\<open>include/NGIN/Text/Unicode\<close>): decoding and encoding of single sequences in UTF-8,
  UTF-16 and UTF-32, validation, the conversions with their error policies, byte-order marks and the
  iterating view.

  A UTF-8 unit is a byte, a UTF-16 unit a \<^typ>\<open>16 word\<close>; a \<open>CodePoint\<close> (\<open>char32_t\<close>) is a
  \<^typ>\<open>nat\<close>, with the truncation of every shift to 32 bits written out. A loop of the code that
  advances by what a decoder consumed is a \<open>partial_function\<close>: \<^const>\<open>None\<close> stands for an access
  out of range and for a loop that does not end, and the properties show that it never occurs.
\<close>

section \<open>Types\<close>

type_synonym CodePoint = nat
type_synonym utf16 = "u16 list"
type_synonym utf32 = "CodePoint list"

datatype ErrorPolicy = Strict | Replace | Skip

datatype EncodingError =
    NoError | UnexpectedEnd | InvalidSequence | OverlongSequence | SurrogateCodePoint
  | CodePointTooLarge | UnpairedSurrogate

record DecodeResult =
  codePoint :: CodePoint
  unitsConsumed :: nat
  decodeError :: EncodingError

record ConversionError =
  convError :: EncodingError
  inputOffset :: nat

datatype BomKind = NoBom | Utf8Bom | Utf16LE | Utf16BE | Utf32LE | Utf32BE

record BomInfo =
  bomKind :: BomKind
  bomBytes :: nat

abbreviation decoded :: "CodePoint \<Rightarrow> nat \<Rightarrow> EncodingError \<Rightarrow> DecodeResult" where
  "decoded c n e \<equiv> \<lparr>codePoint = c, unitsConsumed = n, decodeError = e\<rparr>"

section \<open>Shared helpers\<close>

definition ReplacementCharacter :: CodePoint where
  "ReplacementCharacter = 0xFFFD"

definition MaxCodePoint :: CodePoint where
  "MaxCodePoint = 0x10FFFF"

definition IsHighSurrogate :: "u16 \<Rightarrow> bool" where
  "IsHighSurrogate v \<longleftrightarrow> 0xD800 \<le> unat v \<and> unat v \<le> 0xDBFF"

definition IsLowSurrogate :: "u16 \<Rightarrow> bool" where
  "IsLowSurrogate v \<longleftrightarrow> 0xDC00 \<le> unat v \<and> unat v \<le> 0xDFFF"

definition IsSurrogate :: "CodePoint \<Rightarrow> bool" where
  "IsSurrogate v \<longleftrightarrow> 0xD800 \<le> v \<and> v \<le> 0xDFFF"

definition IsValidCodePoint :: "CodePoint \<Rightarrow> bool" where
  "IsValidCodePoint v \<longleftrightarrow> v \<le> MaxCodePoint \<and> \<not> IsSurrogate v"

definition ClampConsumed :: "nat \<Rightarrow> nat \<Rightarrow> nat" where
  "ClampConsumed consumed remaining = (if consumed = 0 then 1 else min consumed remaining)"

definition SanitizeForEncoding :: "CodePoint \<Rightarrow> CodePoint" where
  "SanitizeForEncoding v = (if IsValidCodePoint v then v else ReplacementCharacter)"

section \<open>UTF-8\<close>

text \<open>The number of units that a lead byte announces and the smallest value that needs them.\<close>

definition ExpectedUnits :: "nat \<Rightarrow> (nat \<times> CodePoint) option" where
  "ExpectedUnits lead =
     (if 0xC0 \<le> lead \<and> lead \<le> 0xDF then Some (2, 0x80)
      else if 0xE0 \<le> lead \<and> lead \<le> 0xEF then Some (3, 0x800)
      else if 0xF0 \<le> lead \<and> lead \<le> 0xF7 then Some (4, 0x10000)
      else None)"

function DecodeUtf8_loop ::
  "bytes \<Rightarrow> nat \<Rightarrow> nat \<Rightarrow> nat \<Rightarrow> CodePoint \<Rightarrow> (DecodeResult + CodePoint) option" where
  "DecodeUtf8_loop input offset index expectedUnits cp =
     (if index < expectedUnits then do {
        continuation \<leftarrow> span_at input (offset + index);
        if unat continuation AND 0xC0 \<noteq> 0x80 then Some (Inl (decoded 0 index InvalidSequence))
        else DecodeUtf8_loop input offset (index + 1) expectedUnits
               (push_bit 6 cp mod 2 ^ 32 OR (unat continuation AND 0x3F)) }
      else Some (Inr cp))"
  by pat_completeness auto
termination
  by (relation "measure (\<lambda>(input, offset, index, expectedUnits, cp). expectedUnits - index)") auto

declare DecodeUtf8_loop.simps [simp del]

definition DecodeUtf8 :: "bytes \<Rightarrow> nat \<Rightarrow> DecodeResult option" where
  "DecodeUtf8 input offset =
     (if length input \<le> offset then Some (decoded 0 0 UnexpectedEnd)
      else do {
        let remaining = length input - offset;
        b \<leftarrow> span_at input offset;
        let lead = unat b in
        if lead \<le> 0x7F then Some (decoded lead 1 NoError)
        else case ExpectedUnits lead of
          None \<Rightarrow> Some (decoded 0 1 InvalidSequence)
        | Some (expectedUnits, minCodePoint) \<Rightarrow>
            if remaining < expectedUnits then Some (decoded 0 remaining UnexpectedEnd)
            else do {
              r \<leftarrow> DecodeUtf8_loop input offset 1 expectedUnits
                     (lead AND (push_bit (8 - expectedUnits - 1) 1 - 1));
              (case r of Inl d \<Rightarrow> Some d
               | Inr cp \<Rightarrow>
                   if cp < minCodePoint then Some (decoded 0 expectedUnits OverlongSequence)
                   else if IsSurrogate cp then Some (decoded 0 expectedUnits SurrogateCodePoint)
                   else if MaxCodePoint < cp then Some (decoded 0 expectedUnits CodePointTooLarge)
                   else Some (decoded cp expectedUnits NoError)) } })"

text \<open>The writes go to the span \<open>out\<close>; the result is the span and the number of units written.\<close>

definition EncodeUtf8 :: "CodePoint \<Rightarrow> bytes \<Rightarrow> (bytes \<times> nat) option" where
  "EncodeUtf8 cp out =
     (let v = SanitizeForEncoding cp in
      if v \<le> 0x7F then emit (out, 0) [to_byte v]
      else if v \<le> 0x7FF then
        emit (out, 0) [to_byte (0xC0 OR drop_bit 6 v), to_byte (0x80 OR (v AND 0x3F))]
      else if v \<le> 0xFFFF then
        emit (out, 0) [to_byte (0xE0 OR drop_bit 12 v), to_byte (0x80 OR (drop_bit 6 v AND 0x3F)),
                       to_byte (0x80 OR (v AND 0x3F))]
      else
        emit (out, 0) [to_byte (0xF0 OR drop_bit 18 v), to_byte (0x80 OR (drop_bit 12 v AND 0x3F)),
                       to_byte (0x80 OR (drop_bit 6 v AND 0x3F)), to_byte (0x80 OR (v AND 0x3F))])"

section \<open>UTF-16\<close>

definition DecodeUtf16 :: "utf16 \<Rightarrow> nat \<Rightarrow> DecodeResult option" where
  "DecodeUtf16 input offset =
     (if length input \<le> offset then Some (decoded 0 0 UnexpectedEnd)
      else do {
        first \<leftarrow> span_at input offset;
        if \<not> IsHighSurrogate first then
          if IsLowSurrogate first then Some (decoded 0 1 UnpairedSurrogate)
          else Some (decoded (unat first) 1 NoError)
        else if length input \<le> offset + 1 then Some (decoded 0 1 UnexpectedEnd)
        else do {
          second \<leftarrow> span_at input (offset + 1);
          if \<not> IsLowSurrogate second then Some (decoded 0 1 UnpairedSurrogate)
          else let high = unat first - 0xD800; low = unat second - 0xDC00 in
            Some (decoded ((0x10000 + (push_bit 10 high mod 2 ^ 32 OR low)) mod 2 ^ 32) 2 NoError) } })"

definition EncodeUtf16 :: "CodePoint \<Rightarrow> utf16 \<Rightarrow> (utf16 \<times> nat) option" where
  "EncodeUtf16 cp out =
     (let v = SanitizeForEncoding cp in
      if v \<le> 0xFFFF then emit (out, 0) [to_u16 v]
      else let shifted = v - 0x10000 in
        emit (out, 0) [to_u16 (0xD800 + drop_bit 10 shifted), to_u16 (0xDC00 + (shifted AND 0x3FF))])"

section \<open>UTF-32\<close>

definition EncodeUtf32 :: "CodePoint \<Rightarrow> utf32 \<Rightarrow> (utf32 \<times> nat) option" where
  "EncodeUtf32 cp out = emit (out, 0) [SanitizeForEncoding cp]"

definition IsValidUtf32 :: "utf32 \<Rightarrow> bool" where
  "IsValidUtf32 input \<longleftrightarrow> list_all IsValidCodePoint input"

section \<open>Validation\<close>

partial_function (option) IsValid_loop ::
  "('u list \<Rightarrow> nat \<Rightarrow> DecodeResult option) \<Rightarrow> 'u list \<Rightarrow> nat \<Rightarrow> bool option" where
  "IsValid_loop decode input offset =
     (if offset < length input then do {
        d \<leftarrow> decode input offset;
        if decodeError d \<noteq> NoError then Some False
        else IsValid_loop decode input (offset + unitsConsumed d) }
      else Some True)"

definition IsValidUtf8 :: "bytes \<Rightarrow> bool option" where
  "IsValidUtf8 input = IsValid_loop DecodeUtf8 input 0"

definition IsValidUtf16 :: "utf16 \<Rightarrow> bool option" where
  "IsValidUtf16 input = IsValid_loop DecodeUtf16 input 0"

section \<open>Conversions\<close>

definition MakeConversionError :: "EncodingError \<Rightarrow> nat \<Rightarrow> ConversionError" where
  "MakeConversionError e offset = \<lparr>convError = e, inputOffset = offset\<rparr>"

text \<open>The three overloads of \<open>AppendCodePoint\<close>, each with its buffer.\<close>

definition AppendCodePoint8 :: "bytes \<Rightarrow> CodePoint \<Rightarrow> bytes option" where
  "AppendCodePoint8 output cp = do {
     (buffer, count) \<leftarrow> EncodeUtf8 cp (replicate 4 0);
     Some (output @ take count buffer) }"

definition AppendCodePoint16 :: "utf16 \<Rightarrow> CodePoint \<Rightarrow> utf16 option" where
  "AppendCodePoint16 output cp = do {
     (buffer, count) \<leftarrow> EncodeUtf16 cp (replicate 2 0);
     Some (output @ take count buffer) }"

definition AppendCodePoint32 :: "utf32 \<Rightarrow> CodePoint \<Rightarrow> utf32 option" where
  "AppendCodePoint32 output cp = do {
     (buffer, count) \<leftarrow> EncodeUtf32 cp [0];
     b \<leftarrow> span_at buffer 0;
     Some (output @ [b]) }"

text \<open>
  The loop that the conversions from UTF-8 and UTF-16 and \<open>CountCodePoints\<close> share; each instance of
  the code differs in the decoder it calls and in what it appends.
\<close>

partial_function (option) Convert_loop ::
  "('u list \<Rightarrow> nat \<Rightarrow> DecodeResult option) \<Rightarrow> ('o \<Rightarrow> CodePoint \<Rightarrow> 'o option) \<Rightarrow> ErrorPolicy \<Rightarrow>
   'u list \<Rightarrow> nat \<Rightarrow> 'o \<Rightarrow> (ConversionError + 'o) option" where
  "Convert_loop decode app policy input offset output =
     (if offset < length input then do {
        d \<leftarrow> decode input offset;
        if decodeError d = NoError then do {
          output \<leftarrow> app output (codePoint d);
          Convert_loop decode app policy input (offset + unitsConsumed d) output }
        else if policy = Strict then Some (Inl (MakeConversionError (decodeError d) offset))
        else do {
          output \<leftarrow> (if policy = Replace then app output ReplacementCharacter else Some output);
          Convert_loop decode app policy input
            (offset + ClampConsumed (unitsConsumed d) (length input - offset)) output } }
      else Some (Inr output))"

definition ToUtf32_from8 :: "bytes \<Rightarrow> ErrorPolicy \<Rightarrow> (ConversionError + utf32) option" where
  "ToUtf32_from8 input policy = Convert_loop DecodeUtf8 AppendCodePoint32 policy input 0 []"

definition ToUtf32_from16 :: "utf16 \<Rightarrow> ErrorPolicy \<Rightarrow> (ConversionError + utf32) option" where
  "ToUtf32_from16 input policy = Convert_loop DecodeUtf16 AppendCodePoint32 policy input 0 []"

definition ToUtf16_from8 :: "bytes \<Rightarrow> ErrorPolicy \<Rightarrow> (ConversionError + utf16) option" where
  "ToUtf16_from8 input policy = Convert_loop DecodeUtf8 AppendCodePoint16 policy input 0 []"

definition ToUtf8_from16 :: "utf16 \<Rightarrow> ErrorPolicy \<Rightarrow> (ConversionError + bytes) option" where
  "ToUtf8_from16 input policy = Convert_loop DecodeUtf16 AppendCodePoint8 policy input 0 []"

text \<open>\<open>CountCodePoints\<close> increments a counter where the conversions append.\<close>

definition CountCodePoints :: "bytes \<Rightarrow> ErrorPolicy \<Rightarrow> (ConversionError + nat) option" where
  "CountCodePoints input policy = Convert_loop DecodeUtf8 (\<lambda>count _. Some (count + 1)) policy input 0 0"

text \<open>The loop over UTF-32 input, with the overload of \<open>AppendCodePoint\<close> as an argument.\<close>

fun Convert32_loop ::
  "('o \<Rightarrow> CodePoint \<Rightarrow> 'o option) \<Rightarrow> ErrorPolicy \<Rightarrow> utf32 \<Rightarrow> nat \<Rightarrow> 'o \<Rightarrow> (ConversionError + 'o) option" where
  "Convert32_loop app policy [] offset output = Some (Inr output)"
| "Convert32_loop app policy (cp # input) offset output =
     (if IsValidCodePoint cp then do {
        output \<leftarrow> app output cp;
        Convert32_loop app policy input (offset + 1) output }
      else if policy = Strict then
        Some (Inl (MakeConversionError (if IsSurrogate cp then SurrogateCodePoint else CodePointTooLarge) offset))
      else do {
        output \<leftarrow> (if policy = Replace then app output ReplacementCharacter else Some output);
        Convert32_loop app policy input (offset + 1) output })"

definition ToUtf16_from32 :: "utf32 \<Rightarrow> ErrorPolicy \<Rightarrow> (ConversionError + utf16) option" where
  "ToUtf16_from32 input policy = Convert32_loop AppendCodePoint16 policy input 0 []"

definition ToUtf8_from32 :: "utf32 \<Rightarrow> ErrorPolicy \<Rightarrow> (ConversionError + bytes) option" where
  "ToUtf8_from32 input policy = Convert32_loop AppendCodePoint8 policy input 0 []"

section \<open>ASCII and byte-order marks\<close>

definition IsAscii :: "bytes \<Rightarrow> bool" where
  "IsAscii input \<longleftrightarrow> list_all (\<lambda>ch. \<not> 0x7F < unat ch) input"

definition DetectBom :: "bytes \<Rightarrow> BomInfo" where
  "DetectBom bs =
     (let at = (\<lambda>i. unat (bs ! i)); found = (\<lambda>k n. \<lparr>bomKind = k, bomBytes = n\<rparr>) in
      if 4 \<le> length bs \<and> at 0 = 0x00 \<and> at 1 = 0x00 \<and> at 2 = 0xFE \<and> at 3 = 0xFF then found Utf32BE 4
      else if 4 \<le> length bs \<and> at 0 = 0xFF \<and> at 1 = 0xFE \<and> at 2 = 0x00 \<and> at 3 = 0x00 then found Utf32LE 4
      else if 3 \<le> length bs \<and> at 0 = 0xEF \<and> at 1 = 0xBB \<and> at 2 = 0xBF then found Utf8Bom 3
      else if 2 \<le> length bs \<and> at 0 = 0xFE \<and> at 1 = 0xFF then found Utf16BE 2
      else if 2 \<le> length bs \<and> at 0 = 0xFF \<and> at 1 = 0xFE then found Utf16LE 2
      else found NoBom 0)"

definition StripBom :: "bytes \<Rightarrow> bytes" where
  "StripBom input = (if take 3 input = [0xEF, 0xBB, 0xBF] then drop 3 input else input)"

section \<open>The iterating view\<close>

record Utf8View =
  view_input :: bytes
  view_policy :: ErrorPolicy
  m_endOffset :: nat
  m_error :: ConversionError
  m_hasError :: bool

partial_function (option) Utf8View_scan :: "bytes \<Rightarrow> nat \<Rightarrow> (ConversionError option) option" where
  "Utf8View_scan input offset =
     (if offset < length input then do {
        d \<leftarrow> DecodeUtf8 input offset;
        if decodeError d \<noteq> NoError then Some (Some \<lparr>convError = decodeError d, inputOffset = offset\<rparr>)
        else Utf8View_scan input (offset + unitsConsumed d) }
      else Some None)"

definition MakeUtf8View :: "bytes \<Rightarrow> ErrorPolicy \<Rightarrow> Utf8View option" where
  "MakeUtf8View input policy =
     (let view = \<lparr>view_input = input, view_policy = policy, m_endOffset = length input,
                  m_error = \<lparr>convError = NoError, inputOffset = 0\<rparr>, m_hasError = False\<rparr> in
      if policy = Strict then do {
        r \<leftarrow> Utf8View_scan input 0;
        (case r of None \<Rightarrow> Some view
         | Some e \<Rightarrow> Some (view\<lparr>m_error := e, m_hasError := True, m_endOffset := inputOffset e\<rparr>)) }
      else Some view)"

partial_function (option) NormalizeOffset_loop :: "Utf8View \<Rightarrow> nat \<Rightarrow> nat option" where
  "NormalizeOffset_loop view offset =
     (if offset < m_endOffset view then do {
        d \<leftarrow> DecodeUtf8 (view_input view) offset;
        if decodeError d = NoError then Some offset
        else NormalizeOffset_loop view (offset + ClampConsumed (unitsConsumed d) (m_endOffset view - offset)) }
      else Some (m_endOffset view))"

definition NormalizeOffset :: "Utf8View \<Rightarrow> nat \<Rightarrow> nat option" where
  "NormalizeOffset view offset =
     (if view_policy view \<noteq> Skip then Some offset else NormalizeOffset_loop view offset)"

text \<open>An iterator is its view and its offset; equality of iterators over one view is equality of offsets.\<close>

definition view_begin :: "Utf8View \<Rightarrow> nat option" where
  "view_begin view = NormalizeOffset view 0"

definition view_end :: "Utf8View \<Rightarrow> nat" where
  "view_end view = m_endOffset view"

definition Iterator_deref :: "Utf8View \<Rightarrow> nat \<Rightarrow> CodePoint option" where
  "Iterator_deref view offset = do {
     d \<leftarrow> DecodeUtf8 (view_input view) offset;
     Some (if decodeError d = NoError then codePoint d else ReplacementCharacter) }"

definition Iterator_next :: "Utf8View \<Rightarrow> nat \<Rightarrow> nat option" where
  "Iterator_next view offset =
     (if m_endOffset view \<le> offset then Some offset
      else do {
        d \<leftarrow> DecodeUtf8 (view_input view) offset;
        NormalizeOffset view
          (if decodeError d = NoError then offset + unitsConsumed d
           else if view_policy view = Strict then m_endOffset view
           else offset + ClampConsumed (unitsConsumed d) (m_endOffset view - offset)) })"

text \<open>The range-based \<open>for\<close> over a view: the code points it visits.\<close>

partial_function (option) view_iterate :: "Utf8View \<Rightarrow> nat \<Rightarrow> (CodePoint list) option" where
  "view_iterate view offset =
     (if offset \<noteq> view_end view then do {
        cp \<leftarrow> Iterator_deref view offset;
        offset \<leftarrow> Iterator_next view offset;
        cps \<leftarrow> view_iterate view offset;
        Some (cp # cps) }
      else Some [])"

definition view_codepoints :: "Utf8View \<Rightarrow> (CodePoint list) option" where
  "view_codepoints view = do { offset \<leftarrow> view_begin view; view_iterate view offset }"

end
