(* ===== verification/Text_Utf.thy ===== *)
theory Text_Utf
  imports Text_Unicode
begin

text \<open>
  Single UTF-8 and UTF-16 sequences: the encoders against the arithmetic of the standard encodings
  (\<open>put8\<close>, \<open>put16\<close>), and for each decoder that it never leaves its input, that it depends only on the
  units after the offset, and that it succeeds exactly on encodings (\<open>DecodeUtf8_ok\<close>,
  \<open>DecodeUtf16_ok\<close>).
\<close>

section \<open>UTF-8 sequences as arithmetic\<close>

lemma utf8_ors:
  fixes x :: nat
  shows "x < 32 \<Longrightarrow> 0xC0 OR x = 192 + x" "x < 16 \<Longrightarrow> 0xE0 OR x = 224 + x"
    "x < 8 \<Longrightarrow> 0xF0 OR x = 240 + x" "x < 64 \<Longrightarrow> 0x80 OR x = 128 + x"
proof -
  show "0xC0 OR x = 192 + x" if "x < 32" using nat_or_disjoint [of x 5 6] that by simp
  show "0xE0 OR x = 224 + x" if "x < 16" using nat_or_disjoint [of x 4 14] that by simp
  show "0xF0 OR x = 240 + x" if "x < 8" using nat_or_disjoint [of x 3 30] that by simp
  show "0x80 OR x = 128 + x" if "x < 64" using nat_or_disjoint [of x 6 2] that by simp
qed

text \<open>The standard encoding of a scalar value.\<close>

definition utf8_octets :: "CodePoint \<Rightarrow> nat list" where
  "utf8_octets v =
     (if v \<le> 0x7F then [v]
      else if v \<le> 0x7FF then [192 + v div 64, 128 + v mod 64]
      else if v \<le> 0xFFFF then [224 + v div 4096, 128 + v div 64 mod 64, 128 + v mod 64]
      else [240 + v div 262144, 128 + v div 4096 mod 64, 128 + v div 64 mod 64, 128 + v mod 64])"

definition put8 :: "CodePoint \<Rightarrow> bytes" where
  "put8 v = map to_byte (utf8_octets v)"

lemma valid_cases:
  assumes "IsValidCodePoint v"
  shows "v < 0x110000" "\<not> (0xD800 \<le> v \<and> v \<le> 0xDFFF)"
  using assms by (auto simp: IsValidCodePoint_def MaxCodePoint_def IsSurrogate_def)

lemma SanitizeForEncoding_valid [simp]: "IsValidCodePoint v \<Longrightarrow> SanitizeForEncoding v = v"
  by (simp add: SanitizeForEncoding_def)

lemma IsValidCodePoint_Sanitize [simp]: "IsValidCodePoint (SanitizeForEncoding v)"
  by (simp add: SanitizeForEncoding_def IsValidCodePoint_def ReplacementCharacter_def MaxCodePoint_def IsSurrogate_def)

lemma IsValidCodePoint_Replacement [simp]: "IsValidCodePoint ReplacementCharacter"
  by (simp add: IsValidCodePoint_def ReplacementCharacter_def MaxCodePoint_def IsSurrogate_def)

lemma EncodeUtf8_octets:
  "v = SanitizeForEncoding c \<Longrightarrow> EncodeUtf8 c out = emit (out, 0) (put8 v)"
proof -
  assume v: "v = SanitizeForEncoding c"
  have less: "v < 0x110000" using valid_cases(1) [OF IsValidCodePoint_Sanitize, of c] v by simp
  have "v \<le> 0x7FF \<Longrightarrow> v div 64 < 32" "v \<le> 0xFFFF \<Longrightarrow> v div 4096 < 16" "v div 262144 < 8"
    using less by (simp_all add: less_mult_imp_div_less)
  then show ?thesis
    unfolding EncodeUtf8_def v [symmetric] Let_def
    by (simp add: put8_def utf8_octets_def utf8_ors nat_and_masks drop_bit_eq_div)
qed

lemma length_put8: "1 \<le> length (put8 v)" "length (put8 v) \<le> 4"
  by (simp_all add: put8_def utf8_octets_def)

lemma AppendCodePoint8_spec: "AppendCodePoint8 out c = Some (out @ put8 (SanitizeForEncoding c))"
proof -
  let ?p = "put8 (SanitizeForEncoding c)"
  have "emit ([] @ replicate 4 0, length ([] :: bytes)) ?p =
      Some (([] @ ?p) @ drop (length ?p) (replicate 4 0), length ([] @ ?p))"
    by (rule emit_spec) (simp add: length_put8)
  then show ?thesis by (simp add: AppendCodePoint8_def EncodeUtf8_octets)
qed

section \<open>Decoding UTF-8\<close>

text \<open>The test on a continuation byte.\<close>

lemma and_push: "(x::nat) AND push_bit n k = push_bit n (drop_bit n x AND k)"
  by (rule bit_eqI) (auto simp: bit_simps)
lemma continuation_iff:
  fixes x :: nat
  assumes "x < 256"
  shows "x AND 0xC0 = 0x80 \<longleftrightarrow> 128 \<le> x \<and> x < 192"
proof -
  have "x AND 0xC0 = push_bit 6 (drop_bit 6 x AND 3)"
    using and_push [of x 6 3] by (simp add: push_bit_eq_mult)
  also have "\<dots> = x div 64 mod 4 * 64"
    by (simp add: push_bit_eq_mult drop_bit_eq_div nat_and_masks)
  also have "\<dots> = x div 64 * 64" using assms by (simp add: less_mult_imp_div_less)
  finally show ?thesis by auto
qed
lemma shift_or_64:
  fixes cp x :: nat
  assumes "cp < 2 ^ 26"
  shows "push_bit 6 cp mod 2 ^ 32 OR (x AND 0x3F) = cp * 64 + x mod 64"
  using nat_or_disjoint [of "x mod 64" 6 cp] assms by (simp add: push_bit_eq_mult nat_and_masks)

definition is_cont :: "byte \<Rightarrow> bool" where
  "is_cont b \<longleftrightarrow> 128 \<le> unat b \<and> unat b < 192"

lemma DecodeUtf8_loop_step:
  assumes "index < expectedUnits" "offset + index < length input" "cp < 2 ^ 26"
  shows "DecodeUtf8_loop input offset index expectedUnits cp =
    (let b = input ! (offset + index) in
     if is_cont b then DecodeUtf8_loop input offset (index + 1) expectedUnits (cp * 64 + unat b mod 64)
     else Some (Inl (decoded 0 index InvalidSequence)))"
  using assms shift_or_64 [of cp] by (simp add: DecodeUtf8_loop.simps [of input offset index expectedUnits cp]
      span_at_def Let_def continuation_iff is_cont_def)

lemma DecodeUtf8_loop_end: "DecodeUtf8_loop input offset n n cp = Some (Inr cp)"
  by (simp add: DecodeUtf8_loop.simps [of input offset n n cp])

lemma DecodeUtf8_loop_accept:
  assumes "list_all is_cont cs" "(cp + 1) * 64 ^ length cs \<le> 2 ^ 32"
  shows "DecodeUtf8_loop (pre @ cs @ rest) 0 (length pre) (length pre + length cs) cp =
    Some (Inr (be_val 64 cp (map unat cs)))"
  using assms
proof (induction cs arbitrary: pre cp)
  case Nil
  then show ?case by (simp add: DecodeUtf8_loop_end)
next
  case (Cons c cs)
  let ?cp = "cp * 64 + unat c mod 64"
  have "(?cp + 1) * 64 ^ length cs \<le> (cp * 64 + 64) * 64 ^ length cs"
    using mod_less_divisor [of 64 "unat c"] by (intro mult_right_mono) simp_all
  also have "\<dots> \<le> 2 ^ 32" using Cons.prems(2) by (simp add: algebra_simps)
  finally have IH: "DecodeUtf8_loop ((pre @ [c]) @ cs @ rest) 0 (length (pre @ [c])) (length (pre @ [c]) + length cs) ?cp =
      Some (Inr (be_val 64 ?cp (map unat cs)))"
    using Cons.prems(1) by (intro Cons.IH) simp_all
  have "(cp + 1) * 64 * 1 \<le> (cp + 1) * 64 * 64 ^ length cs" by (intro mult_left_mono) simp_all
  also have "\<dots> \<le> 2 ^ 32" using Cons.prems(2) by (simp add: algebra_simps)
  finally have "cp < 2 ^ 26" by simp
  then show ?case
    using IH Cons.prems(1) by (simp add: DecodeUtf8_loop_step Let_def)
qed

lemma DecodeUtf8_loop_total:
  assumes "index \<le> expectedUnits" "offset + expectedUnits \<le> length input"
    "(cp + 1) * 64 ^ (expectedUnits - index) \<le> 2 ^ 32"
  shows "(\<exists>c. DecodeUtf8_loop input offset index expectedUnits cp = Some (Inr c) \<and>
            list_all is_cont (take (expectedUnits - index) (drop (offset + index) input))) \<or>
    (\<exists>i\<ge>index. i < expectedUnits \<and> DecodeUtf8_loop input offset index expectedUnits cp = Some (Inl (decoded 0 i InvalidSequence)))"
  using assms
proof (induction "expectedUnits - index" arbitrary: index cp)
  case 0
  then show ?case by (simp add: DecodeUtf8_loop_end)
next
  case (Suc n)
  let ?b = "input ! (offset + index)"
  let ?cp = "cp * 64 + unat ?b mod 64"
  have lt: "index < expectedUnits" "offset + index < length input" using Suc by simp_all
  have split: "drop (offset + index) input = ?b # drop (offset + (index + 1)) input"
    using lt by (simp add: Cons_nth_drop_Suc)
  have "(?cp + 1) * 64 ^ n \<le> (cp * 64 + 64) * 64 ^ n"
    using mod_less_divisor [of 64 "unat ?b"] by (intro mult_right_mono) simp_all
  also have "\<dots> \<le> 2 ^ 32" using Suc.prems(3) Suc.hyps(2) [symmetric] by (simp add: algebra_simps)
  finally have nxt: "(?cp + 1) * 64 ^ n \<le> 2 ^ 32" .
  have "(cp + 1) * 64 * 1 \<le> (cp + 1) * 64 * 64 ^ n" by (intro mult_left_mono) simp_all
  also have "\<dots> \<le> 2 ^ 32" using Suc.prems(3) Suc.hyps(2) [symmetric] by (simp add: algebra_simps)
  finally have cp: "cp < 2 ^ 26" by simp
  show ?case
  proof (cases "is_cont ?b")
    case True
    have n: "n = expectedUnits - (index + 1)" using Suc.hyps(2) by simp
    show ?thesis
      using Suc.hyps(1) [OF n, of ?cp] nxt n lt True Suc.prems(2) Suc.hyps(2) [symmetric] DecodeUtf8_loop_step [OF lt cp]
      unfolding split by (auto simp: Let_def intro: Suc_leD)
  next
    case False
    then show ?thesis using DecodeUtf8_loop_step [OF lt cp] lt by (auto simp: Let_def)
  qed
qed

lemma DecodeUtf8_loop_shift:
  "DecodeUtf8_loop (pre @ xs) (length pre + offset) index n cp = DecodeUtf8_loop xs offset index n cp"
proof (induction "n - index" arbitrary: index cp)
  case 0
  then show ?case by (simp add: DecodeUtf8_loop.simps [of _ _ index n cp])
next
  case (Suc k)
  have "span_at (pre @ xs) (length pre + offset + index) = span_at xs (offset + index)"
    by (simp add: span_at_def nth_append)
  moreover have k: "k = n - (index + 1)" using Suc.hyps(2) by simp
  ultimately show ?case
    using Suc.hyps(1) [OF k] by (simp add: DecodeUtf8_loop.simps [of _ _ index n cp] cong: if_cong)
qed

lemma DecodeUtf8_shift: "DecodeUtf8 (pre @ xs) (length pre) = DecodeUtf8 xs 0"
proof -
  have "span_at (pre @ xs) (length pre) = span_at xs 0"
    by (cases xs) (simp_all add: span_at_def nth_append)
  then show ?thesis
    using DecodeUtf8_loop_shift [of pre xs 0] by (simp add: DecodeUtf8_def cong: if_cong option.case_cong)
qed

lemma lead_mask: "(x::nat) AND (push_bit (8 - n - 1) 1 - 1) = x mod 2 ^ (8 - n - 1)"
  using nat_and_mask [of x "8 - n - 1"] by (simp add: push_bit_eq_mult)

lemma ExpectedUnits_Some:
  "ExpectedUnits l = Some (n, m) \<longleftrightarrow>
     192 \<le> l \<and> l < 224 \<and> n = 2 \<and> m = 0x80 \<or> 224 \<le> l \<and> l < 240 \<and> n = 3 \<and> m = 0x800 \<or>
     240 \<le> l \<and> l < 248 \<and> n = 4 \<and> m = 0x10000"
  by (auto simp: ExpectedUnits_def split: if_splits)

text \<open>The result for a sequence whose continuation bytes have been read.\<close>

definition utf8_check :: "nat \<Rightarrow> CodePoint \<Rightarrow> CodePoint \<Rightarrow> DecodeResult" where
  "utf8_check n m cp =
     (if cp < m then decoded 0 n OverlongSequence
      else if IsSurrogate cp then decoded 0 n SurrogateCodePoint
      else if MaxCodePoint < cp then decoded 0 n CodePointTooLarge else decoded cp n NoError)"

lemma utf8_check_ok: "utf8_check n m cp = decoded c k NoError \<longleftrightarrow> c = cp \<and> k = n \<and> m \<le> cp \<and> IsValidCodePoint cp"
  by (auto simp: utf8_check_def IsValidCodePoint_def not_le not_less)

lemma lead_bound:
  assumes "ExpectedUnits l = Some (n, m)"
  shows "(l mod 2 ^ (8 - n - 1) + 1) * 64 ^ (n - 1) \<le> 2 ^ 32" "2 \<le> n" "n \<le> 4"
proof -
  have "l mod 2 ^ (8 - n - 1) < 2 ^ (8 - n - 1)" by simp
  then have "(l mod 2 ^ (8 - n - 1) + 1) * 64 ^ (n - 1) \<le> 2 ^ (8 - n - 1) * 64 ^ (n - 1)"
    by (intro mult_right_mono) linarith+
  also have "\<dots> \<le> 2 ^ 32" using assms by (auto simp: ExpectedUnits_Some)
  finally show "(l mod 2 ^ (8 - n - 1) + 1) * 64 ^ (n - 1) \<le> 2 ^ 32" .
  show "2 \<le> n" "n \<le> 4" using assms by (auto simp: ExpectedUnits_Some)
qed

lemma utf8_check_Some:
  "(if cp < m then Some (decoded 0 n OverlongSequence)
    else if IsSurrogate cp then Some (decoded 0 n SurrogateCodePoint)
    else if MaxCodePoint < cp then Some (decoded 0 n CodePointTooLarge)
    else Some (decoded cp n NoError)) = Some (utf8_check n m cp)"
  by (simp add: utf8_check_def)

lemma DecodeUtf8_lead:
  "DecodeUtf8 (l # tail) 0 =
    (if unat l < 128 then Some (decoded (unat l) 1 NoError)
     else case ExpectedUnits (unat l) of
       None \<Rightarrow> Some (decoded 0 1 InvalidSequence)
     | Some (n, m) \<Rightarrow>
         if 1 + length tail < n then Some (decoded 0 (1 + length tail) UnexpectedEnd)
         else do {
           r \<leftarrow> DecodeUtf8_loop (l # tail) 0 1 n (unat l mod 2 ^ (8 - n - 1));
           (case r of Inl d \<Rightarrow> Some d | Inr cp \<Rightarrow> Some (utf8_check n m cp)) })"
  unfolding DecodeUtf8_def lead_mask utf8_check_Some
  by (simp add: span_at_def Let_def split: option.split)

lemma DecodeUtf8_ascii: "unat l < 128 \<Longrightarrow> DecodeUtf8 (l # tail) 0 = Some (decoded (unat l) 1 NoError)"
  by (simp add: DecodeUtf8_lead)

lemma DecodeUtf8_multi:
  assumes "ExpectedUnits (unat l) = Some (n, m)" "n = length cs + 1" "list_all is_cont cs"
  shows "DecodeUtf8 (l # cs @ rest) 0 =
    Some (utf8_check n m (be_val 64 (unat l mod 2 ^ (8 - n - 1)) (map unat cs)))"
proof -
  let ?cp = "unat l mod 2 ^ (8 - n - 1)"
  have "DecodeUtf8_loop ([l] @ cs @ rest) 0 (length [l]) (length [l] + length cs) ?cp = Some (Inr (be_val 64 ?cp (map unat cs)))"
    using assms(2,3) lead_bound(1) [OF assms(1)] by (intro DecodeUtf8_loop_accept) simp_all
  moreover have "128 \<le> unat l" using assms(1) by (auto simp: ExpectedUnits_Some)
  ultimately show ?thesis
    using assms(1,2) by (simp add: DecodeUtf8_lead)
qed

lemma DecodeUtf8_cases:
  assumes "DecodeUtf8 (l # tail) 0 = Some d"
  obtains (ascii) "unat l < 128"
  | (multi) n m cs rest where "ExpectedUnits (unat l) = Some (n, m)" "n = length cs + 1" "list_all is_cont cs"
      "tail = cs @ rest" "d = utf8_check n m (be_val 64 (unat l mod 2 ^ (8 - n - 1)) (map unat cs))"
  | (error) "decodeError d \<noteq> NoError" "1 \<le> unitsConsumed d" "unitsConsumed d \<le> 1 + length tail"
proof (cases "unat l < 128")
  case False
  show thesis
  proof (cases "ExpectedUnits (unat l)")
    case None
    then show thesis using False assms by (intro error) (auto simp: DecodeUtf8_lead)
  next
    case (Some nm)
    then obtain n m where nm: "ExpectedUnits (unat l) = Some (n, m)" by (cases nm) auto
    note b = lead_bound [OF nm]
    let ?cp = "unat l mod 2 ^ (8 - n - 1)"
    show thesis
    proof (cases "1 + length tail < n")
      case True
      then show thesis using False assms nm by (intro error) (auto simp: DecodeUtf8_lead)
    next
      case len: False
      let ?loop = "DecodeUtf8_loop (l # tail) 0 1 n ?cp"
      consider (ok) c where "?loop = Some (Inr c)" "list_all is_cont (take (n - 1) (drop (0 + 1) (l # tail)))"
        | (bad) i where "1 \<le> i" "i < n" "?loop = Some (Inl (decoded 0 i InvalidSequence))"
        using DecodeUtf8_loop_total [of 1 n 0 "l # tail" ?cp] b len by fastforce
      then show thesis
      proof cases
        case ok
        let ?cs = "take (n - 1) tail"
        have "DecodeUtf8 (l # ?cs @ drop (n - 1) tail) 0 = Some (utf8_check n m (be_val 64 ?cp (map unat ?cs)))"
          using nm ok(2) b len by (intro DecodeUtf8_multi) auto
        then have "d = utf8_check n m (be_val 64 ?cp (map unat ?cs))" using assms by simp
        then show thesis using nm ok(2) b len by (intro multi [of n m ?cs "drop (n - 1) tail"]) auto
      next
        case bad
        then have "d = decoded 0 i InvalidSequence"
          using False assms nm len by (auto simp: DecodeUtf8_lead)
        then show thesis using bad len by (intro error) auto
      qed
    qed
  qed
qed (rule ascii)

lemma DecodeUtf8_never_None: "DecodeUtf8 (l # tail) 0 \<noteq> None"
proof (cases "unat l < 128 \<or> ExpectedUnits (unat l) = None")
  case False
  then obtain n m where nm: "ExpectedUnits (unat l) = Some (n, m)" by auto
  note b = lead_bound [OF nm]
  show ?thesis
    using False nm b DecodeUtf8_loop_total [of 1 n 0 "l # tail" "unat l mod 2 ^ (8 - n - 1)"]
    by (auto simp: DecodeUtf8_lead not_less split: sum.splits)
qed (auto simp: DecodeUtf8_lead)

lemma utf8_check_units: "unitsConsumed (utf8_check n m cp) = n"
  by (simp add: utf8_check_def)

lemma DecodeUtf8_total:
  assumes "xs \<noteq> []"
  shows "\<exists>d. DecodeUtf8 xs 0 = Some d \<and> 1 \<le> unitsConsumed d \<and> unitsConsumed d \<le> length xs"
proof -
  obtain l tail where xs: "xs = l # tail" using assms by (cases xs) auto
  obtain d where d: "DecodeUtf8 (l # tail) 0 = Some d" using DecodeUtf8_never_None [of l tail] by auto
  from d have "1 \<le> unitsConsumed d \<and> unitsConsumed d \<le> length xs"
    by (cases rule: DecodeUtf8_cases) (use d xs in \<open>auto simp: DecodeUtf8_ascii utf8_check_units\<close>)
  with d xs show ?thesis by blast
qed

section \<open>Decoding inverts encoding\<close>

lemma cont_parts: "is_cont b \<Longrightarrow> 128 + unat b mod 64 = unat b"
proof -
  assume "is_cont b"
  then obtain k where k: "unat b = 128 + k" "k < 64"
    by (auto simp: is_cont_def dest!: le_Suc_ex)
  then show ?thesis using mod_mult_self1 [of k 2 64] by (simp add: add.commute)
qed

lemma list_length_cases:
  "length cs = 1 \<Longrightarrow> \<exists>a. cs = [a]" "length cs = 2 \<Longrightarrow> \<exists>a b. cs = [a, b]"
  "length cs = 3 \<Longrightarrow> \<exists>a b c. cs = [a, b, c]"
  by (auto simp: numeral_2_eq_2 numeral_3_eq_3 length_Suc_conv)

lemma lead_parts:
  fixes l :: nat
  shows "192 \<le> l \<Longrightarrow> l < 224 \<Longrightarrow> l mod 32 = l - 192" "224 \<le> l \<Longrightarrow> l < 240 \<Longrightarrow> l mod 16 = l - 224"
    "240 \<le> l \<Longrightarrow> l < 248 \<Longrightarrow> l mod 8 = l - 240"
proof -
  show "192 \<le> l \<Longrightarrow> l < 224 \<Longrightarrow> l mod 32 = l - 192" using mod_mult_self1 [of "l - 192" 6 32] by simp
  show "224 \<le> l \<Longrightarrow> l < 240 \<Longrightarrow> l mod 16 = l - 224" using mod_mult_self1 [of "l - 224" 14 16] by simp
  show "240 \<le> l \<Longrightarrow> l < 248 \<Longrightarrow> l mod 8 = l - 240" using mod_mult_self1 [of "l - 240" 30 8] by simp
qed

lemma push64:
  fixes cp x b :: nat
  assumes "cp = x * 64 + b mod 64"
  shows "cp div 64 = x" "cp mod 64 = b mod 64" "cp div 4096 = x div 64" "cp div 262144 = x div 4096"
proof -
  show x: "cp div 64 = x" "cp mod 64 = b mod 64" using assms by simp_all
  show "cp div 4096 = x div 64" using div_mult2_eq [of cp 64 64] x by simp
  show "cp div 262144 = x div 4096" using div_mult2_eq [of cp 64 4096] x by simp
qed

lemma utf8_check_put8:
  assumes "ExpectedUnits (unat l) = Some (n, m)" "n = length cs + 1" "list_all is_cont cs"
    and "cp = be_val 64 (unat l mod 2 ^ (8 - n - 1)) (map unat cs)" "m \<le> cp"
  shows "utf8_octets cp = unat l # map unat cs"
proof -
  from assms(1) consider "192 \<le> unat l" "unat l < 224" "n = 2" "m = 0x80"
    | "224 \<le> unat l" "unat l < 240" "n = 3" "m = 0x800" | "240 \<le> unat l" "unat l < 248" "n = 4" "m = 0x10000"
    unfolding ExpectedUnits_Some by blast
  then show ?thesis
  proof cases
    case 1
    with assms(2) obtain a where cs: "cs = [a]" using list_length_cases(1) [of cs] by auto
    have cp: "cp = (unat l - 192) * 64 + unat a mod 64" using 1 assms(4) cs by (simp add: lead_parts)
    then have "cp \<le> 0x7FF" "\<not> cp \<le> 0x7F"
      using 1 assms(5) mod_less_divisor [of 64 "unat a"] by simp_all
    then show ?thesis
      using 1 cs assms(3) push64 [OF cp] by (simp add: utf8_octets_def cont_parts)
  next
    case 2
    with assms(2) obtain a b where cs: "cs = [a, b]" using list_length_cases(2) [of cs] by auto
    define x where "x = (unat l - 224) * 64 + unat a mod 64"
    have cp: "cp = x * 64 + unat b mod 64" using 2 assms(4) cs by (simp add: lead_parts x_def)
    have "cp \<le> 0xFFFF" "\<not> cp \<le> 0x7FF"
      using 2 assms(5) cp mod_less_divisor [of 64 "unat a"] mod_less_divisor [of 64 "unat b"] by (simp_all add: x_def)
    then show ?thesis
      using 2 cs assms(3) push64 [OF cp] push64 [OF x_def] by (simp add: utf8_octets_def cont_parts)
  next
    case 3
    with assms(2) obtain a b c where cs: "cs = [a, b, c]" using list_length_cases(3) [of cs] by auto
    define x where "x = (unat l - 240) * 64 + unat a mod 64"
    define y where "y = x * 64 + unat b mod 64"
    have cp: "cp = y * 64 + unat c mod 64" using 3 assms(4) cs by (simp add: lead_parts x_def y_def)
    have "\<not> cp \<le> 0xFFFF" using 3 assms(5) by simp
    then show ?thesis
      using 3 cs assms(3) push64 [OF cp] push64 [OF y_def] push64 [OF x_def] by (simp add: utf8_octets_def cont_parts)
  qed
qed

text \<open>Conversely, the encoding of a valid scalar value is a sequence that passes the checks.\<close>

lemma utf8_octets_multi:
  assumes "IsValidCodePoint v" "0x7F < v"
  shows "\<exists>l cs n m. put8 v = l # cs \<and> ExpectedUnits (unat l) = Some (n, m) \<and> n = length cs + 1 \<and>
    list_all is_cont cs \<and> v = be_val 64 (unat l mod 2 ^ (8 - n - 1)) (map unat cs) \<and> m \<le> v"
proof -
  have less: "v < 0x110000" using assms(1) by (rule valid_cases)
  have cont: "is_cont (to_byte (128 + x mod 64))" "unat (to_byte (128 + x mod 64)) mod 64 = x mod 64" for x
    using mod_less_divisor [of 64 x] mod_mult_self1 [of "x mod 64" 2 64] by (simp_all add: is_cont_def add.commute)
  have j1: "v div 64 * 64 + v mod 64 = v" by simp
  have "v div 64 div 64 * 64 + v div 64 mod 64 = v div 64" by (rule div_mult_mod_eq)
  then have j2: "v div 4096 * 64 + v div 64 mod 64 = v div 64" using div_mult2_eq [of v 64 64] by simp
  have "v div 4096 div 64 * 64 + v div 4096 mod 64 = v div 4096" by (rule div_mult_mod_eq)
  then have j3: "v div 262144 * 64 + v div 4096 mod 64 = v div 4096" using div_mult2_eq [of v 4096 64] by simp
  consider "v \<le> 0x7FF" | "0x7FF < v" "v \<le> 0xFFFF" | "0xFFFF < v" by linarith
  then show ?thesis
  proof cases
    case 1
    let ?l = "to_byte (192 + v div 64)" and ?cs = "[to_byte (128 + v mod 64)]"
    have "v div 64 < 32" using 1 by (simp add: less_mult_imp_div_less)
    then have l: "unat ?l = 192 + v div 64" "unat ?l mod 32 = v div 64" using lead_parts(1) [of "192 + v div 64"] by simp_all
    have "put8 v = ?l # ?cs" using 1 assms(2) by (simp add: put8_def utf8_octets_def)
    moreover have "ExpectedUnits (unat ?l) = Some (2, 0x80)"
      unfolding l(1) using \<open>v div 64 < 32\<close> by (simp add: ExpectedUnits_Some)
    moreover have "list_all is_cont ?cs" using cont(1) by simp
    moreover have "(2::nat) ^ (8 - 2 - 1) = 32" by simp
    then have "v = be_val 64 (unat ?l mod 2 ^ (8 - 2 - 1)) (map unat ?cs)"
      by (simp only: list.map be_val_simps cont l(2) j1)
    moreover have "2 = length ?cs + 1" "0x80 \<le> v" using 1 assms(2) by simp_all
    ultimately show ?thesis by blast
  next
    case 2
    let ?l = "to_byte (224 + v div 4096)" and ?cs = "[to_byte (128 + v div 64 mod 64), to_byte (128 + v mod 64)]"
    have "v div 4096 < 16" using 2 by (simp add: less_mult_imp_div_less)
    then have l: "unat ?l = 224 + v div 4096" "unat ?l mod 16 = v div 4096" using lead_parts(2) [of "224 + v div 4096"] by simp_all
    have "put8 v = ?l # ?cs" using 2 by (simp add: put8_def utf8_octets_def)
    moreover have "ExpectedUnits (unat ?l) = Some (3, 0x800)"
      unfolding l(1) using \<open>v div 4096 < 16\<close> by (simp add: ExpectedUnits_Some)
    moreover have "list_all is_cont ?cs" using cont(1) by simp
    moreover have "(2::nat) ^ (8 - 3 - 1) = 16" by simp
    then have "v = be_val 64 (unat ?l mod 2 ^ (8 - 3 - 1)) (map unat ?cs)"
      by (simp only: list.map be_val_simps cont l(2) j1 j2)
    moreover have "3 = length ?cs + 1" "0x800 \<le> v" using 2 by simp_all
    ultimately show ?thesis by blast
  next
    case 3
    let ?l = "to_byte (240 + v div 262144)"
      and ?cs = "[to_byte (128 + v div 4096 mod 64), to_byte (128 + v div 64 mod 64), to_byte (128 + v mod 64)]"
    have "v div 262144 < 8" using less by (simp add: less_mult_imp_div_less)
    then have l: "unat ?l = 240 + v div 262144" "unat ?l mod 8 = v div 262144" using lead_parts(3) [of "240 + v div 262144"] by simp_all
    have "put8 v = ?l # ?cs" using 3 by (simp add: put8_def utf8_octets_def)
    moreover have "ExpectedUnits (unat ?l) = Some (4, 0x10000)"
      unfolding l(1) using \<open>v div 262144 < 8\<close> by (simp add: ExpectedUnits_Some)
    moreover have "list_all is_cont ?cs" using cont(1) by simp
    moreover have "(2::nat) ^ (8 - 4 - 1) = 8" by simp
    then have "v = be_val 64 (unat ?l mod 2 ^ (8 - 4 - 1)) (map unat ?cs)"
      by (simp only: list.map be_val_simps cont l(2) j1 j2 j3)
    moreover have "4 = length ?cs + 1" "0x10000 \<le> v" using 3 by simp_all
    ultimately show ?thesis by blast
  qed
qed

lemma DecodeUtf8_ok:
  "DecodeUtf8 xs 0 = Some (decoded c n NoError) \<longleftrightarrow>
     IsValidCodePoint c \<and> n = length (put8 c) \<and> (\<exists>rest. xs = put8 c @ rest)"
    (is "?L \<longleftrightarrow> ?R")
proof
  assume L: ?L
  then obtain l tail where xs: "xs = l # tail" by (cases xs) (auto simp: DecodeUtf8_def)
  from L [unfolded xs] show ?R
  proof (cases rule: DecodeUtf8_cases)
    case ascii
    with L xs have "c = unat l" "n = 1" by (simp_all add: DecodeUtf8_ascii)
    with ascii xs show ?thesis
      by (simp add: put8_def utf8_octets_def IsValidCodePoint_def MaxCodePoint_def IsSurrogate_def)
  next
    case (multi k m cs rest)
    let ?cp = "be_val 64 (unat l mod 2 ^ (8 - k - 1)) (map unat cs)"
    from multi(5) have c: "c = ?cp" "n = k" "m \<le> ?cp" "IsValidCodePoint c"
      using utf8_check_ok [of k m ?cp c n] by simp_all
    have "utf8_octets c = unat l # map unat cs"
      using multi c by (intro utf8_check_put8 [of l k m]) simp_all
    then have "put8 c = l # cs" by (simp add: put8_def comp_def)
    then show ?thesis using c multi xs by simp
  next
    case error
    then show ?thesis by simp
  qed
next
  assume R: ?R
  then obtain rest where xs: "xs = put8 c @ rest" by blast
  show ?L
  proof (cases "c \<le> 0x7F")
    case True
    then have "put8 c = [to_byte c]" by (simp add: put8_def utf8_octets_def)
    then show ?thesis using True R xs DecodeUtf8_ascii [of "to_byte c" rest] by simp
  next
    case False
    with R utf8_octets_multi [of c] obtain l cs k m where m: "put8 c = l # cs"
      "ExpectedUnits (unat l) = Some (k, m)" "k = length cs + 1" "list_all is_cont cs"
      "c = be_val 64 (unat l mod 2 ^ (8 - k - 1)) (map unat cs)" "m \<le> c" by fastforce
    have "DecodeUtf8 xs 0 = Some (utf8_check k m c)"
      using DecodeUtf8_multi [OF m(2-4), of rest] xs m(1) unfolding m(5) [symmetric] by simp
    then show ?thesis using utf8_check_ok [of k m c c n] m R by simp
  qed
qed

section \<open>UTF-16\<close>

definition put16 :: "CodePoint \<Rightarrow> utf16" where
  "put16 v =
     (if v \<le> 0xFFFF then [to_u16 v]
      else [to_u16 (0xD800 + (v - 0x10000) div 1024), to_u16 (0xDC00 + (v - 0x10000) mod 1024)])"

lemma EncodeUtf16_units: "v = SanitizeForEncoding c \<Longrightarrow> EncodeUtf16 c out = emit (out, 0) (put16 v)"
  by (simp add: EncodeUtf16_def put16_def Let_def nat_and_masks drop_bit_eq_div)

lemma length_put16: "1 \<le> length (put16 v)" "length (put16 v) \<le> 2"
  by (simp_all add: put16_def)

lemma AppendCodePoint16_spec: "AppendCodePoint16 out c = Some (out @ put16 (SanitizeForEncoding c))"
proof -
  let ?p = "put16 (SanitizeForEncoding c)"
  have "emit ([] @ replicate 2 0, length ([] :: utf16)) ?p =
      Some (([] @ ?p) @ drop (length ?p) (replicate 2 0), length ([] @ ?p))"
    by (rule emit_spec) (simp add: length_put16)
  then show ?thesis by (simp add: AppendCodePoint16_def EncodeUtf16_units)
qed

lemma AppendCodePoint32_spec: "AppendCodePoint32 out c = Some (out @ [SanitizeForEncoding c])"
  by (simp add: AppendCodePoint32_def EncodeUtf32_def span_put_def span_at_def)

text \<open>The value of a surrogate pair.\<close>

lemma surrogate_or:
  fixes high low :: nat
  assumes "high < 1024" "low < 1024"
  shows "(0x10000 + (push_bit 10 high mod 2 ^ 32 OR low)) mod 2 ^ 32 = 0x10000 + (high * 1024 + low)"
proof -
  have "high * 2 ^ 10 OR low = high * 2 ^ 10 + low" using assms by (intro nat_or_disjoint) simp
  then show ?thesis using assms by (simp add: push_bit_eq_mult)
qed

lemma DecodeUtf16_one:
  "\<not> IsHighSurrogate u \<Longrightarrow> DecodeUtf16 (u # tail) 0 =
     Some (if IsLowSurrogate u then decoded 0 1 UnpairedSurrogate else decoded (unat u) 1 NoError)"
  by (simp add: DecodeUtf16_def span_at_def)

lemma DecodeUtf16_high:
  assumes "IsHighSurrogate u"
  shows "DecodeUtf16 (u # tail) 0 =
    Some (case tail of [] \<Rightarrow> decoded 0 1 UnexpectedEnd
      | w # _ \<Rightarrow> if IsLowSurrogate w
          then decoded (0x10000 + ((unat u - 0xD800) * 1024 + (unat w - 0xDC00))) 2 NoError
          else decoded 0 1 UnpairedSurrogate)"
proof (cases tail)
  case (Cons w rest)
  have "unat u - 0xD800 < 1024" using assms by (auto simp: IsHighSurrogate_def)
  moreover have "unat w - 0xDC00 < 1024" if "IsLowSurrogate w" using that by (auto simp: IsLowSurrogate_def)
  ultimately show ?thesis
    using assms Cons surrogate_or [of "unat u - 0xD800" "unat w - 0xDC00"]
    by (simp add: DecodeUtf16_def span_at_def Let_def)
qed (use assms in \<open>simp add: DecodeUtf16_def span_at_def\<close>)

lemma DecodeUtf16_shift: "DecodeUtf16 (pre @ xs) (length pre) = DecodeUtf16 xs 0"
proof -
  have "span_at (pre @ xs) (length pre) = span_at xs 0" "span_at (pre @ xs) (length pre + 1) = span_at xs 1"
    by (cases xs; simp add: span_at_def nth_append)+
  then show ?thesis by (simp add: DecodeUtf16_def cong: if_cong)
qed

lemma DecodeUtf16_total:
  assumes "xs \<noteq> []"
  shows "\<exists>d. DecodeUtf16 xs 0 = Some d \<and> 1 \<le> unitsConsumed d \<and> unitsConsumed d \<le> length xs"
proof -
  obtain u tail where xs: "xs = u # tail" using assms by (cases xs) auto
  show ?thesis
    by (cases "IsHighSurrogate u") (auto simp: xs DecodeUtf16_one DecodeUtf16_high split: list.splits)
qed

lemma put16_pair:
  assumes "IsHighSurrogate u" "IsLowSurrogate w" "c = 0x10000 + ((unat u - 0xD800) * 1024 + (unat w - 0xDC00))"
  shows "put16 c = [u, w]" "IsValidCodePoint c"
proof -
  obtain h where h: "unat u = 0xD800 + h" "h < 1024" using assms(1) by (auto simp: IsHighSurrogate_def dest!: le_Suc_ex)
  obtain k where k: "unat w = 0xDC00 + k" "k < 1024" using assms(2) by (auto simp: IsLowSurrogate_def dest!: le_Suc_ex)
  have c: "c = 0x10000 + (h * 1024 + k)" using assms(3) h k by simp
  then have sub: "c - 0x10000 = h * 1024 + k" "\<not> c \<le> 0xFFFF" by simp_all
  have "(h * 1024 + k) div 1024 = h" "(h * 1024 + k) mod 1024 = k" using k by simp_all
  then show "put16 c = [u, w]"
    using h k sub by (simp add: put16_def u16_eqI)
  show "IsValidCodePoint c" using h k c by (auto simp: IsValidCodePoint_def MaxCodePoint_def IsSurrogate_def)
qed

lemma DecodeUtf16_ok:
  "DecodeUtf16 xs 0 = Some (decoded c n NoError) \<longleftrightarrow>
     IsValidCodePoint c \<and> n = length (put16 c) \<and> (\<exists>rest. xs = put16 c @ rest)"
    (is "?L \<longleftrightarrow> ?R")
proof
  assume L: ?L
  then obtain u tail where xs: "xs = u # tail" by (cases xs) (auto simp: DecodeUtf16_def)
  show ?R
  proof (cases "IsHighSurrogate u")
    case True
    with L xs obtain w rest where w: "tail = w # rest" "IsLowSurrogate w" "n = 2"
      "c = 0x10000 + ((unat u - 0xD800) * 1024 + (unat w - 0xDC00))"
      by (auto simp: DecodeUtf16_high split: list.splits if_splits)
    then show ?thesis using put16_pair [OF True w(2,4)] xs by simp
  next
    case False
    with L xs have c: "\<not> IsLowSurrogate u" "c = unat u" "n = 1"
      by (auto simp: DecodeUtf16_one split: if_splits)
    then have "put16 c = [u]" "IsValidCodePoint c"
      using unat_u16_less [of u] False
      by (auto simp: put16_def IsValidCodePoint_def MaxCodePoint_def IsSurrogate_def IsHighSurrogate_def IsLowSurrogate_def)
    then show ?thesis using c xs by simp
  qed
next
  assume R: ?R
  then obtain rest where xs: "xs = put16 c @ rest" by blast
  note v = valid_cases [of c]
  show ?L
  proof (cases "c \<le> 0xFFFF")
    case True
    then show ?thesis
      using R xs v DecodeUtf16_one [of "to_u16 c" rest]
      by (auto simp: put16_def IsHighSurrogate_def IsLowSurrogate_def)
  next
    case False
    define x where "x = c - 0x10000"
    have "x < 1024 * 1024" "c = 0x10000 + x" using R v False by (simp_all add: x_def)
    then have "x div 1024 < 1024" "x mod 1024 < 1024" by (simp_all add: less_mult_imp_div_less)
    moreover have "x div 1024 * 1024 + x mod 1024 = x" by (rule div_mult_mod_eq)
    ultimately show ?thesis
      using R xs False DecodeUtf16_high [of "to_u16 (0xD800 + x div 1024)"] \<open>c = 0x10000 + x\<close>
      by (simp add: put16_def x_def [symmetric] IsHighSurrogate_def IsLowSurrogate_def)
  qed
qed

end
