(* ===== verification/Text_Unicode_Props.thy ===== *)
theory Text_Unicode_Props
  imports Text_Utf Codec_Spec
begin

text \<open>
  The contract of a decoder as the locale \<open>unit_decoder\<close>, interpreted for UTF-8 and UTF-16; the loops
  of the code (validation, conversion, counting) as functions of the list of decoding results; the
  iterating view; and the properties of the Unicode layer.
\<close>

section \<open>The contract of a decoder\<close>

text \<open>The results of decoding a text from its front to its end, one per step.\<close>

function segments :: "('u list \<Rightarrow> nat \<Rightarrow> DecodeResult option) \<Rightarrow> 'u list \<Rightarrow> DecodeResult list" where
  "segments decode xs =
     (if xs = [] then []
      else case decode xs 0 of None \<Rightarrow> []
        | Some d \<Rightarrow> d # segments decode (drop (max 1 (unitsConsumed d)) xs))"
  by pat_completeness auto
termination
  by (relation "measure (\<lambda>(decode, xs). length xs)") auto

declare segments.simps [simp del]

definition seg_ok :: "DecodeResult \<Rightarrow> bool" where
  "seg_ok d \<longleftrightarrow> decodeError d = NoError"

fun first_error :: "nat \<Rightarrow> DecodeResult list \<Rightarrow> ConversionError option" where
  "first_error k [] = None"
| "first_error k (d # ds) =
     (if seg_ok d then first_error (k + unitsConsumed d) ds
      else Some \<lparr>convError = decodeError d, inputOffset = k\<rparr>)"

definition replaced :: "DecodeResult list \<Rightarrow> CodePoint list" where
  "replaced ds = map (\<lambda>d. if seg_ok d then codePoint d else ReplacementCharacter) ds"

definition skipped :: "DecodeResult list \<Rightarrow> CodePoint list" where
  "skipped ds = map codePoint (filter seg_ok ds)"

text \<open>What a conversion with a policy makes of the results.\<close>

fun outcome :: "ErrorPolicy \<Rightarrow> nat \<Rightarrow> DecodeResult list \<Rightarrow> ConversionError + CodePoint list" where
  "outcome Strict k ds = (case first_error k ds of Some e \<Rightarrow> Inl e | None \<Rightarrow> Inr (skipped ds))"
| "outcome Replace k ds = Inr (replaced ds)"
| "outcome Skip k ds = Inr (skipped ds)"

locale unit_decoder =
  fixes decode :: "'u list \<Rightarrow> nat \<Rightarrow> DecodeResult option"
    and put :: "CodePoint \<Rightarrow> 'u list"
  assumes decode_shift: "decode (pre @ xs) (length pre) = decode xs 0"
    and decode_total: "xs \<noteq> [] \<Longrightarrow> \<exists>d. decode xs 0 = Some d \<and> 1 \<le> unitsConsumed d \<and> unitsConsumed d \<le> length xs"
    and decode_ok: "decode xs 0 = Some (decoded c n NoError) \<longleftrightarrow>
      IsValidCodePoint c \<and> n = length (put c) \<and> (\<exists>rest. xs = put c @ rest)"
    and put_units: "put c \<noteq> []"
begin

lemma segments_induct [case_names Nil Step]:
  assumes "P []"
    and "\<And>xs d. \<lbrakk>xs \<noteq> []; decode xs 0 = Some d; 1 \<le> unitsConsumed d; unitsConsumed d \<le> length xs;
      P (drop (unitsConsumed d) xs)\<rbrakk> \<Longrightarrow> P xs"
  shows "P xs"
proof (induction "length xs" arbitrary: xs rule: less_induct)
  case less
  show ?case
  proof (cases "xs = []")
    case False
    from decode_total [OF this] obtain d where d: "decode xs 0 = Some d" "1 \<le> unitsConsumed d" "unitsConsumed d \<le> length xs"
      by blast
    have "P (drop (unitsConsumed d) xs)" using less d False by (intro less) simp
    with assms(2) [OF False d] show ?thesis .
  qed (use assms(1) in simp)
qed

lemma segments_Nil [simp]: "segments decode [] = []"
  by (simp add: segments.simps)

lemma segments_step:
  "xs \<noteq> [] \<Longrightarrow> decode xs 0 = Some d \<Longrightarrow> 1 \<le> unitsConsumed d \<Longrightarrow>
     segments decode xs = d # segments decode (drop (unitsConsumed d) xs)"
  by (subst segments.simps) (simp add: max_absorb2)

text \<open>A step of a loop of the code that stands at the end of \<open>pre\<close>.\<close>

lemma decode_at:
  assumes "xs \<noteq> []"
  obtains d where "decode (pre @ xs) (length pre) = Some d" "decode xs 0 = Some d"
    "1 \<le> unitsConsumed d" "unitsConsumed d \<le> length xs"
  using decode_total [OF assms] decode_shift [of pre xs] by (metis that)

lemma IsValid_loop_segments:
  "IsValid_loop decode (pre @ xs) (length pre) = Some (list_all seg_ok (segments decode xs))"
proof (induction xs arbitrary: pre rule: segments_induct)
  case Nil
  then show ?case by (simp add: IsValid_loop.simps)
next
  case (Step xs d)
  let ?n = "unitsConsumed d"
  have "IsValid_loop decode ((pre @ take ?n xs) @ drop ?n xs) (length (pre @ take ?n xs)) =
      Some (list_all seg_ok (segments decode (drop ?n xs)))" by (rule Step.IH)
  then have "IsValid_loop decode (pre @ xs) (length pre + ?n) = Some (list_all seg_ok (segments decode (drop ?n xs)))"
    using Step.hyps by (simp add: min_absorb2)
  then show ?case
    using Step.hyps decode_shift [of pre xs]
    by (subst IsValid_loop.simps) (simp add: segments_step seg_ok_def)
qed

lemma Convert_loop_segments:
  "Convert_loop decode (\<lambda>out c. Some (g out c)) policy (pre @ xs) (length pre) out =
     Some (map_sum (\<lambda>e. e) (foldl g out) (outcome policy (length pre) (segments decode xs)))"
proof (induction xs arbitrary: pre out rule: segments_induct)
  case Nil
  then show ?case by (cases policy) (simp_all add: Convert_loop.simps skipped_def replaced_def)
next
  case (Step xs d)
  let ?n = "unitsConsumed d" and ?ds = "segments decode (drop (unitsConsumed d) xs)"
  have IH: "Convert_loop decode (\<lambda>out c. Some (g out c)) policy (pre @ xs) (length pre + ?n) out =
      Some (map_sum (\<lambda>e. e) (foldl g out) (outcome policy (length pre + ?n) ?ds))" for out
    using Step.IH [of "pre @ take ?n xs" out] Step.hyps by (simp add: min_absorb2)
  have clamp: "ClampConsumed ?n (length (pre @ xs) - length pre) = ?n"
    using Step.hyps by (simp add: ClampConsumed_def min_absorb1)
  show ?case
    using Step.hyps decode_shift [of pre xs] IH clamp
    by (subst Convert_loop.simps, cases policy)
      (auto simp: segments_step seg_ok_def skipped_def replaced_def MakeConversionError_def split: option.split)
qed

lemma first_error_offset: "first_error k (segments decode xs) = Some e \<Longrightarrow> k \<le> inputOffset e \<and> inputOffset e < k + length xs"
proof (induction xs arbitrary: k rule: segments_induct)
  case (Step xs d)
  show ?case
  proof (cases "seg_ok d")
    case True
    then have "first_error (k + unitsConsumed d) (segments decode (drop (unitsConsumed d) xs)) = Some e"
      using Step.prems Step.hyps by (simp add: segments_step)
    from Step.IH [OF this] show ?thesis using Step.hyps by simp
  next
    case False
    with Step show ?thesis by (auto simp: segments_step)
  qed
qed simp

text \<open>A text decodes without error iff it is a sequence of encoded scalar values, which the decoder returns.\<close>

lemma seg_ok_put:
  assumes "decode xs 0 = Some d" "seg_ok d"
  shows "IsValidCodePoint (codePoint d)" "unitsConsumed d = length (put (codePoint d))"
    "xs = put (codePoint d) @ drop (unitsConsumed d) xs"
proof -
  have "d = decoded (codePoint d) (unitsConsumed d) NoError" using assms(2) by (simp add: seg_ok_def)
  then have "decode xs 0 = Some (decoded (codePoint d) (unitsConsumed d) NoError)" using assms(1) by simp
  then show "IsValidCodePoint (codePoint d)" "unitsConsumed d = length (put (codePoint d))"
    "xs = put (codePoint d) @ drop (unitsConsumed d) xs"
    unfolding decode_ok by auto
qed

lemma segments_valid: "d \<in> set (segments decode xs) \<Longrightarrow> seg_ok d \<Longrightarrow> IsValidCodePoint (codePoint d)"
  by (induction xs rule: segments_induct) (auto simp: segments_step seg_ok_put(1))

lemma segments_put:
  assumes "list_all IsValidCodePoint cps"
  shows "segments decode (concat (map put cps)) = map (\<lambda>c. decoded c (length (put c)) NoError) cps"
  using assms
proof (induction cps)
  case (Cons c cps)
  let ?xs = "put c @ concat (map put cps)"
  have d: "decode ?xs 0 = Some (decoded c (length (put c)) NoError)"
    using Cons.prems by (auto simp: decode_ok)
  have "?xs \<noteq> []" using put_units by simp
  from segments_step [OF this d] have "segments decode ?xs = decoded c (length (put c)) NoError # segments decode (concat (map put cps))"
    using put_units [of c] by (simp add: Suc_le_eq)
  then show ?case using Cons by simp
qed simp

lemma segments_all_ok:
  "list_all seg_ok (segments decode xs) \<longleftrightarrow> (\<exists>cps. list_all IsValidCodePoint cps \<and> xs = concat (map put cps))"
proof
  show "\<exists>cps. list_all IsValidCodePoint cps \<and> xs = concat (map put cps)" if "list_all seg_ok (segments decode xs)"
    using that
  proof (induction xs rule: segments_induct)
    case Nil
    then show ?case by (intro exI [of _ "[]"]) simp
  next
    case (Step xs d)
    then have ok: "seg_ok d" "list_all seg_ok (segments decode (drop (unitsConsumed d) xs))" by (simp_all add: segments_step)
    with Step.IH obtain cps where "list_all IsValidCodePoint cps" "drop (unitsConsumed d) xs = concat (map put cps)" by blast
    then show ?case using seg_ok_put [OF Step.hyps(2) ok(1)] by (intro exI [of _ "codePoint d # cps"]) simp
  qed
next
  assume "\<exists>cps. list_all IsValidCodePoint cps \<and> xs = concat (map put cps)"
  then show "list_all seg_ok (segments decode xs)"
    by (auto simp: segments_put seg_ok_def list_all_iff)
qed

lemma first_error_None: "first_error k (segments decode xs) = None \<longleftrightarrow> list_all seg_ok (segments decode xs)"
proof -
  have "first_error k ds = None \<longleftrightarrow> list_all seg_ok ds" for ds
    by (induction ds arbitrary: k) simp_all
  then show ?thesis .
qed

lemma outcome_Strict:
  "outcome Strict k (segments decode xs) = Inr cps \<longleftrightarrow> list_all IsValidCodePoint cps \<and> xs = concat (map put cps)"
proof -
  have put: "skipped (segments decode (concat (map put cps))) = cps" if "list_all IsValidCodePoint cps" for cps
  proof -
    have "filter seg_ok (map (\<lambda>c. decoded c (length (put c)) NoError) cps) = map (\<lambda>c. decoded c (length (put c)) NoError) cps"
      by (simp add: filter_id_conv seg_ok_def)
    then show ?thesis using that by (simp add: segments_put skipped_def comp_def)
  qed
  have "outcome Strict k (segments decode xs) = Inr cps \<longleftrightarrow>
      (\<exists>cs. list_all IsValidCodePoint cs \<and> xs = concat (map put cs)) \<and> skipped (segments decode xs) = cps"
    unfolding segments_all_ok [symmetric] first_error_None [of k, symmetric] by (auto split: option.split)
  then show ?thesis using put by auto
qed

lemma outcome_valid: "outcome policy k (segments decode xs) = Inr cps \<Longrightarrow> list_all IsValidCodePoint cps"
  by (cases policy) (auto simp: skipped_def replaced_def list_all_iff segments_valid split: option.splits)

lemma outcome_policy_irrelevant:
  "outcome Strict k (segments decode xs) = Inr cps \<Longrightarrow> outcome policy k (segments decode xs) = Inr cps"
proof -
  assume strict: "outcome Strict k (segments decode xs) = Inr cps"
  then have "list_all seg_ok (segments decode xs)"
    using first_error_None [of k xs] by (auto split: option.splits)
  then have "replaced (segments decode xs) = skipped (segments decode xs)"
    by (simp add: replaced_def skipped_def list_all_iff cong: filter_cong map_cong)
  then show ?thesis using strict by (cases policy) (auto split: option.splits)
qed

end

text \<open>A decoder reads a self-delimiting code, so its encodings are prefix-free.\<close>

definition decode_one :: "('u list \<Rightarrow> nat \<Rightarrow> DecodeResult option) \<Rightarrow> 'u list \<Rightarrow> (CodePoint \<times> nat) option" where
  "decode_one decode xs =
     (case decode xs 0 of Some d \<Rightarrow> if decodeError d = NoError then Some (codePoint d, unitsConsumed d) else None
      | None \<Rightarrow> None)"

sublocale unit_decoder \<subseteq> stream_codec put "decode_one decode" IsValidCodePoint
proof
  fix c rest
  assume "IsValidCodePoint c"
  then have "decode (put c @ rest) 0 = Some (decoded c (length (put c)) NoError)" by (auto simp: decode_ok)
  then show "decode_one decode (put c @ rest) = Some (c, length (put c))" by (simp add: decode_one_def)
qed (rule put_units)

interpretation utf8: unit_decoder DecodeUtf8 put8
proof
  show "put8 c \<noteq> []" for c using length_put8(1) [of c] by auto
qed (rule DecodeUtf8_shift, rule DecodeUtf8_total, assumption, rule DecodeUtf8_ok)

interpretation utf16: unit_decoder DecodeUtf16 put16
proof
  show "put16 c \<noteq> []" for c using length_put16(1) [of c] by auto
qed (rule DecodeUtf16_shift, rule DecodeUtf16_total, assumption, rule DecodeUtf16_ok)

section \<open>The conversions as functions of the decoding results\<close>

lemma foldl_append_valid:
  "list_all IsValidCodePoint cps \<Longrightarrow>
     foldl (\<lambda>out c. out @ f (SanitizeForEncoding c)) out cps = out @ concat (map f cps)"
  by (induction cps arbitrary: out) simp_all

lemma concat_singletons: "concat (map (\<lambda>c. [c]) cs) = cs"
  by (induction cs) simp_all

lemma foldl_count: "foldl (\<lambda>n _. n + 1) k cs = k + length (cs :: CodePoint list)"
  by (induction cs arbitrary: k) simp_all

lemma AppendCodePoint_fun:
  "AppendCodePoint8 = (\<lambda>out c. Some (out @ put8 (SanitizeForEncoding c)))"
  "AppendCodePoint16 = (\<lambda>out c. Some (out @ put16 (SanitizeForEncoding c)))"
  "AppendCodePoint32 = (\<lambda>out c. Some (out @ [SanitizeForEncoding c]))"
  by (simp_all add: fun_eq_iff AppendCodePoint8_spec AppendCodePoint16_spec AppendCodePoint32_spec)

text \<open>The conversions for a decoder and an encoder of the contract.\<close>

context unit_decoder
begin

lemma Convert_append:
  "Convert_loop decode (\<lambda>out c. Some (out @ f (SanitizeForEncoding c))) policy xs 0 [] =
     Some (map_sum (\<lambda>e. e) (\<lambda>cps. concat (map f cps)) (outcome policy 0 (segments decode xs)))"
proof -
  have "Convert_loop decode (\<lambda>out c. Some (out @ f (SanitizeForEncoding c))) policy ([] @ xs) (length ([] :: 'u list)) [] =
      Some (map_sum (\<lambda>e. e) (foldl (\<lambda>out c. out @ f (SanitizeForEncoding c)) [])
        (outcome policy (length ([] :: 'u list)) (segments decode xs)))"
    by (rule Convert_loop_segments)
  moreover have "map_sum (\<lambda>e. e) (foldl (\<lambda>out c. out @ f (SanitizeForEncoding c)) []) (outcome policy 0 (segments decode xs)) =
      map_sum (\<lambda>e. e) (\<lambda>cps. concat (map f cps)) (outcome policy 0 (segments decode xs))"
    using outcome_valid [of policy 0 xs]
    by (cases "outcome policy 0 (segments decode xs)") (simp_all add: foldl_append_valid)
  ultimately show ?thesis by simp
qed

lemma Convert_count:
  "Convert_loop decode (\<lambda>n _. Some (n + 1)) policy xs 0 0 =
     Some (map_sum (\<lambda>e. e) length (outcome policy 0 (segments decode xs)))"
proof -
  have "Convert_loop decode (\<lambda>n _. Some (n + 1)) policy ([] @ xs) (length ([] :: 'u list)) (0 :: nat) =
      Some (map_sum (\<lambda>e. e) (foldl (\<lambda>n _. n + 1) 0) (outcome policy (length ([] :: 'u list)) (segments decode xs)))"
    by (rule Convert_loop_segments)
  moreover have "foldl (\<lambda>n (_ :: CodePoint). n + 1) (0 :: nat) = length" by (simp add: fun_eq_iff foldl_count del: One_nat_def)
  ultimately show ?thesis by (simp only: append_Nil list.size(3))
qed

lemma outcome_error: "outcome policy 0 (segments decode xs) = Inl e \<Longrightarrow> policy = Strict \<and> inputOffset e < length xs"
  using first_error_offset [of 0 xs e] by (cases policy) (auto split: option.splits)

lemma IsValid_concat: "IsValid_loop decode xs 0 = Some (\<exists>cps. list_all IsValidCodePoint cps \<and> xs = concat (map put cps))"
  using IsValid_loop_segments [of "[]" xs] by (simp add: segments_all_ok)

end

lemmas conversion_defs = ToUtf32_from8_def ToUtf32_from16_def ToUtf16_from8_def ToUtf8_from16_def AppendCodePoint_fun

lemma conversion_outcomes:
  "ToUtf32_from8 input policy = Some (outcome policy 0 (segments DecodeUtf8 input))"
  "ToUtf32_from16 ws policy = Some (outcome policy 0 (segments DecodeUtf16 ws))"
  "ToUtf16_from8 input policy = Some (map_sum (\<lambda>e. e) (\<lambda>cps. concat (map put16 cps)) (outcome policy 0 (segments DecodeUtf8 input)))"
  "ToUtf8_from16 ws policy = Some (map_sum (\<lambda>e. e) (\<lambda>cps. concat (map put8 cps)) (outcome policy 0 (segments DecodeUtf16 ws)))"
  "CountCodePoints input policy = Some (map_sum (\<lambda>e. e) length (outcome policy 0 (segments DecodeUtf8 input)))"
proof -
  have id: "map_sum (\<lambda>e :: ConversionError. e) (\<lambda>cps :: CodePoint list. cps) x = x" for x by (cases x) simp_all
  show "ToUtf32_from8 input policy = Some (outcome policy 0 (segments DecodeUtf8 input))"
    using utf8.Convert_append [of "\<lambda>c. [c]" policy input] by (simp add: conversion_defs concat_singletons id)
  show "ToUtf32_from16 ws policy = Some (outcome policy 0 (segments DecodeUtf16 ws))"
    using utf16.Convert_append [of "\<lambda>c. [c]" policy ws] by (simp add: conversion_defs concat_singletons id)
  show "ToUtf16_from8 input policy = Some (map_sum (\<lambda>e. e) (\<lambda>cps. concat (map put16 cps)) (outcome policy 0 (segments DecodeUtf8 input)))"
    by (simp add: conversion_defs utf8.Convert_append)
  show "ToUtf8_from16 ws policy = Some (map_sum (\<lambda>e. e) (\<lambda>cps. concat (map put8 cps)) (outcome policy 0 (segments DecodeUtf16 ws)))"
    by (simp add: conversion_defs utf16.Convert_append)
  show "CountCodePoints input policy = Some (map_sum (\<lambda>e. e) length (outcome policy 0 (segments DecodeUtf8 input)))"
    unfolding CountCodePoints_def by (rule utf8.Convert_count)
qed

lemma Convert32_loop_valid:
  "list_all IsValidCodePoint cps \<Longrightarrow>
     Convert32_loop (\<lambda>out c. Some (out @ f (SanitizeForEncoding c))) policy cps k out = Some (Inr (out @ concat (map f cps)))"
  by (induction cps arbitrary: k out) simp_all

lemma from32_valid:
  assumes "IsValidUtf32 cps"
  shows "ToUtf8_from32 cps policy = Some (Inr (concat (map put8 cps)))"
    "ToUtf16_from32 cps policy = Some (Inr (concat (map put16 cps)))"
  using assms by (simp_all add: ToUtf8_from32_def ToUtf16_from32_def AppendCodePoint_fun Convert32_loop_valid IsValidUtf32_def)

lemma from32_invalid_Strict: "\<not> IsValidUtf32 cps \<Longrightarrow> Convert32_loop (\<lambda>out c. Some (g out c)) Strict cps k out \<noteq> Some (Inr res)"
  by (induction cps arbitrary: k out) (auto simp: IsValidUtf32_def)

section \<open>The view\<close>

lemma Utf8View_scan_segments:
  "Utf8View_scan (pre @ xs) (length pre) = Some (first_error (length pre) (segments DecodeUtf8 xs))"
proof (induction xs arbitrary: pre rule: utf8.segments_induct)
  case Nil
  then show ?case by (simp add: Utf8View_scan.simps)
next
  case (Step xs d)
  have "Utf8View_scan (pre @ xs) (length pre + unitsConsumed d) =
      Some (first_error (length pre + unitsConsumed d) (segments DecodeUtf8 (drop (unitsConsumed d) xs)))"
    using Step.IH [of "pre @ take (unitsConsumed d) xs"] Step.hyps by (simp add: min_absorb2)
  then show ?case
    using Step.hyps DecodeUtf8_shift [of pre xs]
    by (subst Utf8View_scan.simps) (simp add: utf8.segments_step seg_ok_def)
qed


text \<open>A view over \<open>pre @ xs\<close> with its end at the end of the input.\<close>

lemma Iterator_deref_at:
  assumes "view_input view = pre @ xs" "DecodeUtf8 xs 0 = Some d"
  shows "Iterator_deref view (length pre) = Some (if seg_ok d then codePoint d else ReplacementCharacter)"
  using assms DecodeUtf8_shift [of pre xs] by (simp add: Iterator_deref_def seg_ok_def)

lemma Iterator_next_at:
  assumes "view_input view = pre @ xs" "DecodeUtf8 xs 0 = Some d" "length pre < m_endOffset view"
    and "1 \<le> unitsConsumed d" "unitsConsumed d \<le> m_endOffset view - length pre"
    and "seg_ok d \<or> view_policy view \<noteq> Strict"
  shows "Iterator_next view (length pre) = NormalizeOffset view (length pre + unitsConsumed d)"
  using assms DecodeUtf8_shift [of pre xs]
  by (auto simp: Iterator_next_def seg_ok_def ClampConsumed_def min_absorb1)

lemma view_iterate_end: "offset = m_endOffset view \<Longrightarrow> view_iterate view offset = Some []"
  by (subst view_iterate.simps) (simp add: view_end_def)

lemma view_iterate_step:
  assumes "offset \<noteq> m_endOffset view" "Iterator_deref view offset = Some cp" "Iterator_next view offset = Some offset'"
    "view_iterate view offset' = Some cps"
  shows "view_iterate view offset = Some (cp # cps)"
  using assms by (subst view_iterate.simps) (simp add: view_end_def)

lemma view_iterate_Replace:
  assumes "view_policy view = Replace" "m_endOffset view = length (view_input view)" "view_input view = pre @ xs"
  shows "view_iterate view (length pre) = Some (replaced (segments DecodeUtf8 xs))"
  using assms(3)
proof (induction xs arbitrary: pre rule: utf8.segments_induct)
  case Nil
  then show ?case using assms by (simp add: view_iterate_end replaced_def)
next
  case (Step xs d)
  let ?n = "unitsConsumed d"
  have "view_iterate view (length pre + ?n) = Some (replaced (segments DecodeUtf8 (drop ?n xs)))"
    using Step.IH [of "pre @ take ?n xs"] Step.hyps Step.prems by (simp add: min_absorb2)
  moreover have "Iterator_next view (length pre) = Some (length pre + ?n)"
    using Iterator_next_at [OF Step.prems Step.hyps(2)] Step.hyps assms(1,2) Step.prems
    by (simp add: NormalizeOffset_def)
  ultimately show ?case
    using view_iterate_step [OF _ Iterator_deref_at [OF Step.prems Step.hyps(2)]] Step.hyps assms(2) Step.prems
    by (simp add: replaced_def utf8.segments_step)
qed

lemma view_iterate_Strict:
  assumes "view_policy view = Strict" "view_input view = pre @ xs"
    and "m_endOffset view = (case first_error (length pre) (segments DecodeUtf8 xs) of None \<Rightarrow> length (view_input view)
      | Some e \<Rightarrow> inputOffset e)"
  shows "view_iterate view (length pre) = Some (map codePoint (takeWhile seg_ok (segments DecodeUtf8 xs)))"
  using assms(2,3)
proof (induction xs arbitrary: pre rule: utf8.segments_induct)
  case Nil
  then show ?case by (simp add: view_iterate_end)
next
  case (Step xs d)
  let ?n = "unitsConsumed d" and ?ds = "segments DecodeUtf8 (drop (unitsConsumed d) xs)"
  show ?case
  proof (cases "seg_ok d")
    case False
    with Step have "m_endOffset view = length pre" by (simp add: utf8.segments_step)
    then show ?thesis using Step False by (simp add: view_iterate_end utf8.segments_step)
  next
    case True
    with Step.prems Step.hyps have e: "m_endOffset view =
        (case first_error (length pre + ?n) ?ds of None \<Rightarrow> length (view_input view) | Some e \<Rightarrow> inputOffset e)"
      by (simp add: utf8.segments_step)
    have IH: "view_iterate view (length pre + ?n) = Some (map codePoint (takeWhile seg_ok ?ds))"
      using Step.IH [of "pre @ take ?n xs"] Step.hyps Step.prems e by (simp add: min_absorb2)
    have "length pre + ?n \<le> m_endOffset view"
      using e Step.hyps Step.prems(1) utf8.first_error_offset [of "length pre + ?n" "drop ?n xs"]
      by (auto split: option.splits)
    then have "Iterator_next view (length pre) = Some (length pre + ?n)" "length pre \<noteq> m_endOffset view"
      using Iterator_next_at [OF Step.prems(1) Step.hyps(2)] Step.hyps True assms(1)
      by (auto simp: NormalizeOffset_def)
    then show ?thesis
      using view_iterate_step [OF _ Iterator_deref_at [OF Step.prems(1) Step.hyps(2)]] IH True Step.hyps
      by (simp add: utf8.segments_step)
  qed
qed

lemma NormalizeOffset_loop_at:
  assumes "m_endOffset view = length (view_input view)" "view_input view = pre @ xs"
  shows "\<exists>ys zs. xs = ys @ zs \<and> NormalizeOffset_loop view (length pre) = Some (length (pre @ ys)) \<and>
    skipped (segments DecodeUtf8 xs) = skipped (segments DecodeUtf8 zs) \<and>
    (zs = [] \<or> (\<exists>d. DecodeUtf8 zs 0 = Some d \<and> seg_ok d))"
  using assms(2)
proof (induction xs arbitrary: pre rule: utf8.segments_induct)
  case Nil
  then show ?case using assms(1) by (simp add: NormalizeOffset_loop.simps)
next
  case (Step xs d)
  let ?n = "unitsConsumed d"
  have at: "DecodeUtf8 (view_input view) (length pre) = Some d" "length pre < m_endOffset view"
    using Step.hyps Step.prems DecodeUtf8_shift [of pre xs] assms(1) by simp_all
  show ?case
  proof (cases "seg_ok d")
    case True
    then show ?thesis using Step.hyps at
      by (intro exI [of _ "[]"] exI [of _ xs]) (simp add: NormalizeOffset_loop.simps [of view "length pre"] seg_ok_def)
  next
    case False
    have "view_input view = (pre @ take ?n xs) @ drop ?n xs" using Step.prems by simp
    from Step.IH [OF this] obtain ys zs where IH: "drop ?n xs = ys @ zs"
      "NormalizeOffset_loop view (length (pre @ take ?n xs)) = Some (length ((pre @ take ?n xs) @ ys))"
      "skipped (segments DecodeUtf8 (drop ?n xs)) = skipped (segments DecodeUtf8 zs)"
      "zs = [] \<or> (\<exists>d. DecodeUtf8 zs 0 = Some d \<and> seg_ok d)" by blast
    have "NormalizeOffset_loop view (length pre) = NormalizeOffset_loop view (length pre + ?n)"
      using at False Step.hyps Step.prems assms(1)
      by (simp add: NormalizeOffset_loop.simps [of view "length pre"] seg_ok_def ClampConsumed_def min_absorb1)
    moreover have "xs = (take ?n xs @ ys) @ zs" using IH(1) append_take_drop_id [of ?n xs] by simp
    moreover have "skipped (segments DecodeUtf8 xs) = skipped (segments DecodeUtf8 (drop ?n xs))"
      using False Step.hyps by (simp add: utf8.segments_step skipped_def)
    ultimately show ?thesis using IH Step.hyps
      by (intro exI [of _ "take ?n xs @ ys"] exI [of _ zs]) (simp add: min_absorb2)
  qed
qed

lemma view_iterate_Skip:
  assumes "view_policy view = Skip" "m_endOffset view = length (view_input view)" "view_input view = pre @ zs"
    and "zs = [] \<or> (\<exists>d. DecodeUtf8 zs 0 = Some d \<and> seg_ok d)"
  shows "view_iterate view (length pre) = Some (skipped (segments DecodeUtf8 zs))"
  using assms(3,4)
proof (induction "length zs" arbitrary: pre zs rule: less_induct)
  case less
  show ?case
  proof (cases "zs = []")
    case True
    then show ?thesis using less assms(2) by (simp add: view_iterate_end skipped_def)
  next
    case False
    then obtain d where d: "DecodeUtf8 zs 0 = Some d" "seg_ok d" using less.prems by blast
    let ?n = "unitsConsumed d"
    have n: "1 \<le> ?n" "?n \<le> length zs" using utf8.decode_total [OF False] d by auto
    have "view_input view = (pre @ take ?n zs) @ drop ?n zs" using less.prems by simp
    from NormalizeOffset_loop_at [OF assms(2) this] obtain ys ws where ws: "drop ?n zs = ys @ ws"
      "NormalizeOffset_loop view (length pre + ?n) = Some (length ((pre @ take ?n zs) @ ys))"
      "skipped (segments DecodeUtf8 (drop ?n zs)) = skipped (segments DecodeUtf8 ws)"
      "ws = [] \<or> (\<exists>d. DecodeUtf8 ws 0 = Some d \<and> seg_ok d)" using n by (auto simp: min_absorb2)
    have "length ws \<le> length (drop ?n zs)" unfolding ws(1) by simp
    then have "length ws < length zs" using n by simp
    moreover have "view_input view = ((pre @ take ?n zs) @ ys) @ ws"
      using less.prems(1) ws(1) append_take_drop_id [of ?n zs] by simp
    ultimately have IH: "view_iterate view (length ((pre @ take ?n zs) @ ys)) = Some (skipped (segments DecodeUtf8 ws))"
      using ws(4) by (intro less) 
    have "Iterator_next view (length pre) = Some (length ((pre @ take ?n zs) @ ys))"
      using Iterator_next_at [OF less.prems(1) d(1)] n d(2) less.prems(1) assms(1,2) ws(2) False
      by (simp add: NormalizeOffset_def)
    then show ?thesis
      using view_iterate_step [OF _ Iterator_deref_at [OF less.prems(1) d(1)]] IH d n ws(3) False less.prems(1) assms(2)
      by (simp add: utf8.segments_step skipped_def)
  qed
qed

section \<open>Properties\<close>

text \<open>
  C6: \<open>DecodeUtf8\<close> at any offset of any input returns a code point without error iff the code point
  is a Unicode scalar value and the input goes on with exactly the bytes that encoding it produces;
  it consumes these bytes. Overlong forms, surrogates, values above the maximum and truncated
  sequences are therefore all rejected, and every encoded scalar value is read back.
\<close>

theorem DecodeUtf8_exact:
  "DecodeUtf8 input offset = Some (decoded c n NoError) \<longleftrightarrow>
     IsValidCodePoint c \<and> (\<exists>bs rest. AppendCodePoint8 [] c = Some bs \<and> drop offset input = bs @ rest \<and> n = length bs)"
proof (cases "offset \<le> length input")
  case True
  then have "DecodeUtf8 input offset = DecodeUtf8 (drop offset input) 0"
    using DecodeUtf8_shift [of "take offset input" "drop offset input"] by (simp add: min_absorb2)
  then show ?thesis by (auto simp: DecodeUtf8_ok AppendCodePoint8_spec)
next
  case False
  then show ?thesis using length_put8(1) [of c] by (auto simp: DecodeUtf8_def AppendCodePoint8_spec)
qed

text \<open>
  The same for UTF-16: \<open>DecodeUtf16\<close> accepts exactly the encodings of scalar values, one unit or a
  surrogate pair, and rejects every unpaired surrogate.
\<close>

lemma DecodeUtf16_exact:
  "DecodeUtf16 input offset = Some (decoded c n NoError) \<longleftrightarrow>
     IsValidCodePoint c \<and> (\<exists>ws rest. AppendCodePoint16 [] c = Some ws \<and> drop offset input = ws @ rest \<and> n = length ws)"
proof (cases "offset \<le> length input")
  case True
  then have "DecodeUtf16 input offset = DecodeUtf16 (drop offset input) 0"
    using DecodeUtf16_shift [of "take offset input" "drop offset input"] by (simp add: min_absorb2)
  then show ?thesis by (auto simp: DecodeUtf16_ok AppendCodePoint16_spec)
next
  case False
  then show ?thesis using length_put16(1) [of c] by (auto simp: DecodeUtf16_def AppendCodePoint16_spec)
qed

lemma strict_iff:
  "ToUtf32_from8 input Strict = Some (Inr cps) \<longleftrightarrow> IsValidUtf32 cps \<and> input = concat (map put8 cps)"
  "ToUtf32_from16 ws Strict = Some (Inr cps) \<longleftrightarrow> IsValidUtf32 cps \<and> ws = concat (map put16 cps)"
  using utf8.outcome_Strict [of 0 input cps] utf16.outcome_Strict [of 0 ws cps]
  by (simp_all only: conversion_outcomes IsValidUtf32_def option.inject)

text \<open>
  C17: strict conversion between UTF-8, UTF-16 and UTF-32 is exact in both directions: UTF-8 (UTF-16)
  converts to the code points \<open>cps\<close> iff \<open>cps\<close> are scalar values that convert back to the same bytes
  (units). Validation returns for every input, and its answer is whether the strict conversion
  succeeds.
\<close>

theorem strict_conversion_exact:
  "(ToUtf32_from8 input Strict = Some (Inr cps) \<longleftrightarrow>
      IsValidUtf32 cps \<and> ToUtf8_from32 cps Strict = Some (Inr input)) \<and>
   (ToUtf32_from16 ws Strict = Some (Inr cps) \<longleftrightarrow>
      IsValidUtf32 cps \<and> ToUtf16_from32 cps Strict = Some (Inr ws)) \<and>
   IsValidUtf8 input = Some (\<exists>cps. ToUtf32_from8 input Strict = Some (Inr cps)) \<and>
   IsValidUtf16 ws = Some (\<exists>cps. ToUtf32_from16 ws Strict = Some (Inr cps))"
  unfolding strict_iff IsValidUtf8_def IsValidUtf16_def utf8.IsValid_concat utf16.IsValid_concat
  by (auto simp: from32_valid IsValidUtf32_def)

lemma map_sum_Inr: "map_sum (\<lambda>e. e) f x = Inr y \<longleftrightarrow> (\<exists>z. x = Inr z \<and> y = f z)"
  by (cases x) auto

text \<open>
  The direct conversions between UTF-8 and UTF-16 are inverse to each other: one succeeds with a
  result iff the other takes the result back to the input.
\<close>

lemma utf8_utf16_inverse:
  "ToUtf16_from8 input Strict = Some (Inr ws) \<longleftrightarrow> ToUtf8_from16 ws Strict = Some (Inr input)"
  unfolding conversion_outcomes option.inject map_sum_Inr utf8.outcome_Strict utf16.outcome_Strict by blast

text \<open>What a conversion may return: valid text, or under the strict policy an error at an offset inside the input.\<close>

definition converts :: "(ConversionError + 'o) option \<Rightarrow> ErrorPolicy \<Rightarrow> nat \<Rightarrow> ('o \<Rightarrow> bool) \<Rightarrow> bool" where
  "converts r policy n valid \<longleftrightarrow> (case r of
      None \<Rightarrow> False
    | Some (Inl e) \<Rightarrow> policy = Strict \<and> inputOffset e < n
    | Some (Inr out) \<Rightarrow> valid out)"

lemma converts_mono: "converts r policy n P \<Longrightarrow> n \<le> k \<Longrightarrow> (\<And>x. P x \<Longrightarrow> Q x) \<Longrightarrow> converts r policy k Q"
  by (auto simp: converts_def split: option.splits sum.splits)

lemma Convert32_loop_converts:
  "converts (Convert32_loop (\<lambda>out c. Some (out @ f (SanitizeForEncoding c))) policy cps k out) policy (k + length cps)
     (\<lambda>r. \<exists>ds. list_all IsValidCodePoint ds \<and> r = out @ concat (map f ds))"
proof (induction cps arbitrary: k out)
  case Nil
  then show ?case by (auto simp: converts_def intro: exI [of _ "[]"])
next
  case (Cons cp cps)
  let ?P = "\<lambda>r. \<exists>ds. list_all IsValidCodePoint ds \<and> r = out @ concat (map f ds)"
  let ?more = "Convert32_loop (\<lambda>out c. Some (out @ f (SanitizeForEncoding c))) policy cps (k + 1)"
  have more: "converts (?more (out @ f (SanitizeForEncoding c))) policy (k + length (cp # cps)) ?P" if c: "IsValidCodePoint c" for c
  proof (rule converts_mono [OF Cons])
    fix r assume "\<exists>ds. list_all IsValidCodePoint ds \<and> r = (out @ f (SanitizeForEncoding c)) @ concat (map f ds)"
    then obtain ds where "list_all IsValidCodePoint ds" "r = out @ f (SanitizeForEncoding c) @ concat (map f ds)" by auto
    then show "?P r" using c by (intro exI [of _ "c # ds"]) (simp add: SanitizeForEncoding_def)
  qed simp
  have skip: "converts (?more out) policy (k + length (cp # cps)) ?P" by (rule converts_mono [OF Cons]) auto
  have rep: "IsValidCodePoint ReplacementCharacter" by (simp add: IsValidCodePoint_def ReplacementCharacter_def MaxCodePoint_def IsSurrogate_def)
  show ?case
  proof (cases "IsValidCodePoint cp")
    case True
    then show ?thesis using more [OF True] by simp
  next
    case False
    then show ?thesis using more [OF rep] skip by (cases policy) (simp_all, simp_all add: converts_def MakeConversionError_def)
  qed
qed

text \<open>
  C18: every conversion between UTF-8, UTF-16 and UTF-32, all six of them, returns, whatever the input and the policy. It fails only under the strict
  policy, with the offset of an error inside the input, and what it returns is valid: the lossy
  policies never let malformed text through.
\<close>

theorem conversions_sanitize:
  "converts (ToUtf16_from8 bs policy) policy (length bs) (\<lambda>out. IsValidUtf16 out = Some True) \<and>
   converts (ToUtf32_from8 bs policy) policy (length bs) IsValidUtf32 \<and>
   converts (ToUtf8_from16 us policy) policy (length us) (\<lambda>out. IsValidUtf8 out = Some True) \<and>
   converts (ToUtf32_from16 us policy) policy (length us) IsValidUtf32 \<and>
   converts (ToUtf8_from32 cps policy) policy (length cps) (\<lambda>out. IsValidUtf8 out = Some True) \<and>
   converts (ToUtf16_from32 cps policy) policy (length cps) (\<lambda>out. IsValidUtf16 out = Some True)"
proof -
  note valid = IsValidUtf8_def IsValidUtf16_def IsValidUtf32_def utf8.IsValid_concat utf16.IsValid_concat
  have from8: "case outcome policy 0 (segments DecodeUtf8 bs) of Inl e \<Rightarrow> policy = Strict \<and> inputOffset e < length bs | Inr out \<Rightarrow> list_all IsValidCodePoint out"
    using utf8.outcome_valid [of policy 0 bs] utf8.outcome_error [of policy bs] by (auto split: sum.split)
  have from16: "case outcome policy 0 (segments DecodeUtf16 us) of Inl e \<Rightarrow> policy = Strict \<and> inputOffset e < length us | Inr out \<Rightarrow> list_all IsValidCodePoint out"
    using utf16.outcome_valid [of policy 0 us] utf16.outcome_error [of policy us] by (auto split: sum.split)
  have "converts (ToUtf16_from8 bs policy) policy (length bs) (\<lambda>out. IsValidUtf16 out = Some True)"
    "converts (ToUtf32_from8 bs policy) policy (length bs) IsValidUtf32"
    using from8 by (auto simp: converts_def conversion_outcomes valid split: sum.splits)
  moreover have "converts (ToUtf8_from16 us policy) policy (length us) (\<lambda>out. IsValidUtf8 out = Some True)"
    "converts (ToUtf32_from16 us policy) policy (length us) IsValidUtf32"
    using from16 by (auto simp: converts_def conversion_outcomes valid split: sum.splits)
  moreover have "converts (ToUtf8_from32 cps policy) policy (length cps) (\<lambda>out. IsValidUtf8 out = Some True)"
    unfolding ToUtf8_from32_def AppendCodePoint_fun by (rule converts_mono [OF Convert32_loop_converts]) (auto simp: valid)
  moreover have "converts (ToUtf16_from32 cps policy) policy (length cps) (\<lambda>out. IsValidUtf16 out = Some True)"
    unfolding ToUtf16_from32_def AppendCodePoint_fun by (rule converts_mono [OF Convert32_loop_converts]) (auto simp: valid)
  ultimately show ?thesis by blast
qed

text \<open>
  \<open>CountCodePoints\<close> returns, under every policy, the length of the UTF-32 conversion under the
  same policy, or the same error at the same offset.
\<close>

lemma CountCodePoints_length:
  "CountCodePoints input policy =
     (case ToUtf32_from8 input policy of
        Some (Inr cps) \<Rightarrow> Some (Inr (length cps)) | Some (Inl e) \<Rightarrow> Some (Inl e) | None \<Rightarrow> None)"
  by (cases "outcome policy 0 (segments DecodeUtf8 input)") (simp_all add: conversion_outcomes)

lemma first_error_prefix:
  assumes "first_error k (segments DecodeUtf8 xs) = Some e"
  shows "take (inputOffset e - k) xs = concat (map put8 (map codePoint (takeWhile seg_ok (segments DecodeUtf8 xs)))) \<and>
    list_all IsValidCodePoint (map codePoint (takeWhile seg_ok (segments DecodeUtf8 xs)))"
  using assms
proof (induction xs arbitrary: k rule: utf8.segments_induct)
  case (Step xs d)
  let ?n = "unitsConsumed d" and ?ds = "segments DecodeUtf8 (drop (unitsConsumed d) xs)"
  show ?case
  proof (cases "seg_ok d")
    case True
    then have e: "first_error (k + ?n) ?ds = Some e" using Step by (simp add: utf8.segments_step)
    note put = utf8.seg_ok_put [OF Step.hyps(2) True]
    have "inputOffset e - k = ?n + (inputOffset e - (k + ?n))" using utf8.first_error_offset [OF e] by simp
    then have "take (inputOffset e - k) xs = put8 (codePoint d) @ take (inputOffset e - (k + ?n)) (drop ?n xs)"
      using put by (metis append_eq_conv_conj take_add)
    then show ?thesis using Step.IH [OF e] True Step.hyps put(1) by (simp add: utf8.segments_step)
  next
    case False
    then show ?thesis using Step by (auto simp: utf8.segments_step)
  qed
qed simp

text \<open>
  C19: iterating over a \<open>Utf8View\<close> ends, for every input and policy, and visits exactly the code points
  that \<open>ToUtf32\<close> returns under the same policy. Where the strict conversion fails, the view has the same
  error, and the iteration visits the code points of the valid text before it.
\<close>

theorem Utf8View_matches_ToUtf32:
  "\<exists>view cps. MakeUtf8View input policy = Some view \<and> view_codepoints view = Some cps \<and>
     (case ToUtf32_from8 input policy of
        Some (Inr out) \<Rightarrow> cps = out \<and> \<not> m_hasError view
      | Some (Inl e) \<Rightarrow> m_hasError view \<and> m_error view = e \<and>
          ToUtf32_from8 (take (inputOffset e) input) Strict = Some (Inr cps)
      | None \<Rightarrow> False)"
proof -
  let ?ds = "segments DecodeUtf8 input"
  define plain where "plain = \<lparr>view_input = input, view_policy = policy, m_endOffset = length input,
    m_error = \<lparr>convError = NoError, inputOffset = 0\<rparr>, m_hasError = False\<rparr>"
  have plain: "view_input plain = [] @ input" "m_endOffset plain = length (view_input plain)" "view_policy plain = policy"
    by (simp_all add: plain_def)
  show ?thesis
  proof (cases policy)
    case Replace
    then have "view_iterate plain 0 = Some (replaced ?ds)"
      using view_iterate_Replace [of plain "[]" input] plain by simp
    then show ?thesis using Replace
      by (intro exI [of _ plain] exI [of _ "replaced ?ds"])
        (simp add: MakeUtf8View_def plain_def view_codepoints_def view_begin_def NormalizeOffset_def conversion_outcomes)
  next
    case Skip
    from NormalizeOffset_loop_at [OF plain(2,1)] obtain ys zs where ys: "input = ys @ zs"
      "NormalizeOffset_loop plain 0 = Some (length ys)" "skipped ?ds = skipped (segments DecodeUtf8 zs)"
      "zs = [] \<or> (\<exists>d. DecodeUtf8 zs 0 = Some d \<and> seg_ok d)" by auto
    then have "view_iterate plain (length ys) = Some (skipped ?ds)"
      using view_iterate_Skip [of plain ys zs] plain Skip by simp
    then have "view_codepoints plain = Some (skipped ?ds)"
      using Skip ys(2) plain(3) by (simp add: view_codepoints_def view_begin_def NormalizeOffset_def)
    moreover have "MakeUtf8View input policy = Some plain" using Skip by (simp add: MakeUtf8View_def plain_def)
    ultimately show ?thesis using Skip
      by (intro exI [of _ plain] exI [of _ "skipped ?ds"]) (simp add: conversion_outcomes plain_def)
  next
    case Strict
    have scan: "Utf8View_scan input 0 = Some (first_error 0 ?ds)" using Utf8View_scan_segments [of "[]" input] by simp
    show ?thesis
    proof (cases "first_error 0 ?ds")
      case None
      then have "list_all seg_ok ?ds" by (simp add: utf8.first_error_None)
      then have all: "takeWhile seg_ok ?ds = ?ds" "filter seg_ok ?ds = ?ds"
        by (simp_all add: takeWhile_eq_all_conv filter_id_conv list_all_iff)
      have "view_iterate plain 0 = Some (map codePoint ?ds)"
        using view_iterate_Strict [of plain "[]" input] plain None Strict all by simp
      then show ?thesis using Strict None scan all
        by (intro exI [of _ plain] exI [of _ "map codePoint ?ds"])
          (simp add: MakeUtf8View_def plain_def view_codepoints_def view_begin_def NormalizeOffset_def conversion_outcomes skipped_def)
    next
      case (Some e)
      let ?view = "plain\<lparr>m_error := e, m_hasError := True, m_endOffset := inputOffset e\<rparr>"
      let ?cps = "map codePoint (takeWhile seg_ok ?ds)"
      have "view_iterate ?view 0 = Some ?cps"
        using view_iterate_Strict [of ?view "[]" input] plain Some Strict by simp
      then have "view_codepoints ?view = Some ?cps"
        using Strict plain(3) by (simp add: view_codepoints_def view_begin_def NormalizeOffset_def)
      moreover have "MakeUtf8View input policy = Some ?view"
        using Strict Some scan by (simp add: MakeUtf8View_def plain_def)
      moreover have "ToUtf32_from8 (take (inputOffset e) input) Strict = Some (Inr ?cps)"
        using first_error_prefix [OF Some] by (simp add: strict_iff IsValidUtf32_def)
      ultimately show ?thesis using Strict Some
        by (intro exI [of _ ?view] exI [of _ ?cps]) (simp add: conversion_outcomes)
    qed
  qed
qed

lemma byte_value_iff: "n < 256 \<Longrightarrow> unat (b :: byte) = n \<longleftrightarrow> b = word_of_nat n"
  using unat_byte_of_nat [of n] by auto

lemma DetectBom_utf8:
  "DetectBom input = \<lparr>bomKind = Utf8Bom, bomBytes = 3\<rparr> \<longleftrightarrow> take 3 input = [0xEF, 0xBB, 0xBF]"
proof (cases "\<exists>a b c rest. input = a # b # c # rest")
  case True
  then obtain a b c rest where "input = a # b # c # rest" by blast
  then show ?thesis by (auto simp: DetectBom_def Let_def byte_value_iff)
next
  case False
  then have short: "length input < 3"
    by (metis length_Cons list.exhaust list.size(3) not_less_eq numeral_3_eq_3 zero_less_Suc)
  then show ?thesis by (auto simp: DetectBom_def Let_def dest: arg_cong [of _ _ length])
qed

lemma DetectBom_length: "bomBytes (DetectBom input) \<le> length input"
  by (simp add: DetectBom_def Let_def)

text \<open>
  \<open>DetectBom\<close> reports the UTF-8 mark iff \<open>StripBom\<close> removes it, the mark is the encoding of U+FEFF,
  and no mark is reported that is longer than the input.
\<close>

lemma bom_consistent:
  "(DetectBom input = \<lparr>bomKind = Utf8Bom, bomBytes = 3\<rparr> \<longleftrightarrow> StripBom input \<noteq> input) \<and>
   (DetectBom input = \<lparr>bomKind = Utf8Bom, bomBytes = 3\<rparr> \<longleftrightarrow>
      (\<exists>bs. AppendCodePoint8 [] 0xFEFF = Some bs \<and> input = bs @ StripBom input)) \<and>
   bomBytes (DetectBom input) \<le> length input"
proof -
  let ?mark = "[0xEF, 0xBB, 0xBF] :: bytes"
  have mark: "AppendCodePoint8 [] 0xFEFF = Some ?mark"
    by (simp add: AppendCodePoint8_spec SanitizeForEncoding_def IsValidCodePoint_def MaxCodePoint_def IsSurrogate_def
        put8_def utf8_octets_def to_byte_def)
  have detect: "DetectBom input = \<lparr>bomKind = Utf8Bom, bomBytes = 3\<rparr> \<longleftrightarrow> take 3 input = ?mark"
    by (rule DetectBom_utf8)
  have strip: "StripBom input \<noteq> input \<longleftrightarrow> take 3 input = ?mark"
    by (auto simp: StripBom_def dest: arg_cong [of _ _ length])
  have "input = ?mark @ StripBom input \<longleftrightarrow> take 3 input = ?mark"
  proof
    assume "take 3 input = ?mark"
    then show "input = ?mark @ StripBom input" using append_take_drop_id [of 3 input] by (simp add: StripBom_def)
  next
    assume "input = ?mark @ StripBom input"
    then show "take 3 input = ?mark" by (metis append_take_drop_id append_eq_conv_conj length_Cons list.size(3) numeral_3_eq_3)
  qed
  then show ?thesis using detect strip mark DetectBom_length by simp
qed

text \<open>
  A malformed lead byte near the end of the input hides the text after it: the three-byte lead \<open>E2\<close>
  followed by the letter \<open>A\<close> is reported as truncated with both bytes consumed, so the skipping policy
  drops the letter, which is decodable.
\<close>

lemma Skip_drops_decodable:
  "ToUtf32_from8 [0xE2, 0x41] Skip = Some (Inr []) \<and> DecodeUtf8 [0xE2, 0x41] 1 = Some (decoded 0x41 1 NoError)"
proof -
  have "DecodeUtf8 [0xE2, 0x41] 0 = Some (decoded 0 2 UnexpectedEnd)" "DecodeUtf8 [0xE2, 0x41] 1 = Some (decoded 0x41 1 NoError)"
    by (simp_all add: DecodeUtf8_def ExpectedUnits_def span_at_def Let_def)
  then show ?thesis by (simp add: conversion_outcomes skipped_def segments.simps seg_ok_def)
qed

end
