(* ===== verification/IO_Path.thy ===== *)
theory IO_Path
  imports NGIN_Prelude
begin

text \<open>
  The path helper (\<open>src/NGIN/IO/Path.cpp\<close>, \<open>Path.hpp\<close>). A \<open>Path\<close> is its text \<open>m_path\<close>; the operations
  that change it return the new path. The loops of the code over positions are functions over
  positions, \<open>find_last_of\<close> of the standard library is the search from the end it documents, and
  \<open>std::isalpha\<close>, \<open>std::tolower\<close> are those of the C locale.
\<close>

type_synonym Path = string

section \<open>Characters and searches\<close>

definition IsSeparator :: "char \<Rightarrow> bool" where
  "IsSeparator c \<longleftrightarrow> c = CHR ''/'' \<or> c = CHR 0x5C"

definition isalpha :: "char \<Rightarrow> bool" where
  "isalpha c \<longleftrightarrow> between (CHR ''A'') (CHR ''Z'') c \<or> between (CHR ''a'') (CHR ''z'') c"

definition tolower :: "char \<Rightarrow> char" where
  "tolower c = (if between (CHR ''A'') (CHR ''Z'') c then chr (ord c + 32) else c)"

definition IsDrivePrefix :: "string \<Rightarrow> bool" where
  "IsDrivePrefix p \<longleftrightarrow> 2 \<le> length p \<and> isalpha (p ! 0) \<and> p ! 1 = CHR '':''"

text \<open>\<open>view.find_last_of(set, pos)\<close>: the last position that is at most \<open>pos\<close> and satisfies \<open>P\<close>.\<close>

fun find_last_upto :: "(char \<Rightarrow> bool) \<Rightarrow> string \<Rightarrow> nat \<Rightarrow> nat option" where
  "find_last_upto P v 0 = None"
| "find_last_upto P v (Suc n) = (if n < length v \<and> P (v ! n) then Some n else find_last_upto P v n)"

definition find_last_of :: "(char \<Rightarrow> bool) \<Rightarrow> string \<Rightarrow> nat \<Rightarrow> nat option" where
  "find_last_of P v pos = find_last_upto P v (min (pos + 1) (length v))"

text \<open>\<open>while (end > 0 && IsSeparator(view[end - 1])) --end\<close>, down to a lower bound.\<close>

fun TrimSeparators :: "string \<Rightarrow> nat \<Rightarrow> nat \<Rightarrow> nat" where
  "TrimSeparators v lower 0 = 0"
| "TrimSeparators v lower (Suc n) = (if lower < Suc n \<and> IsSeparator (v ! n) then TrimSeparators v lower n else Suc n)"

text \<open>\<open>while (pos < view.size() && P(view[pos])) ++pos\<close>\<close>

function SkipWhile :: "(char \<Rightarrow> bool) \<Rightarrow> string \<Rightarrow> nat \<Rightarrow> nat" where
  "SkipWhile P v pos = (if pos < length v \<and> P (v ! pos) then SkipWhile P v (pos + 1) else pos)"
  by pat_completeness auto
termination
  by (relation "measure (\<lambda>(P, v, pos). length v - pos)") auto

declare SkipWhile.simps [simp del]

definition FindFilenameStart :: "string \<Rightarrow> nat \<Rightarrow> nat option" where
  "FindFilenameStart v endExclusive =
     (if endExclusive = 0 then None
      else Some (case find_last_of IsSeparator v (endExclusive - 1) of None \<Rightarrow> 0 | Some pos \<Rightarrow> pos + 1))"

section \<open>Queries\<close>

definition IsEmpty :: "Path \<Rightarrow> bool" where
  "IsEmpty p \<longleftrightarrow> length p = 0"

definition IsAbsolute :: "Path \<Rightarrow> bool" where
  "IsAbsolute v =
     (if v = [] then False
      else if IsDrivePrefix v then 3 \<le> length v \<and> IsSeparator (v ! 2)
      else IsSeparator (hd v))"

definition IsRelative :: "Path \<Rightarrow> bool" where
  "IsRelative p \<longleftrightarrow> \<not> IsAbsolute p"

definition Filename :: "Path \<Rightarrow> string" where
  "Filename v =
     (if v = [] then []
      else let e = TrimSeparators v 0 (length v) in
        if e = 0 then []
        else case find_last_of IsSeparator v (e - 1) of
          None \<Rightarrow> substr v 0 e
        | Some pos \<Rightarrow> substr v (pos + 1) (e - pos - 1))"

definition HasFilename :: "Path \<Rightarrow> bool" where
  "HasFilename p \<longleftrightarrow> Filename p \<noteq> []"

abbreviation LastDot :: "string \<Rightarrow> nat option" where
  "LastDot name \<equiv> find_last_of (\<lambda>c. c = CHR ''.'') name (length name)"

definition Stem :: "Path \<Rightarrow> string" where
  "Stem p =
     (let name = Filename p in
      if name = [] then []
      else case LastDot name of None \<Rightarrow> name | Some dot \<Rightarrow> if dot = 0 then name else substr name 0 dot)"

definition Extension :: "Path \<Rightarrow> string" where
  "Extension p =
     (let name = Filename p in
      if name = [] then []
      else case LastDot name of None \<Rightarrow> [] | Some dot \<Rightarrow> if dot = 0 then [] else drop (dot + 1) name)"

definition HasExtension :: "Path \<Rightarrow> bool" where
  "HasExtension p \<longleftrightarrow> Extension p \<noteq> []"

definition IsRoot :: "Path \<Rightarrow> bool" where
  "IsRoot v \<longleftrightarrow> v = ''/'' \<or> length v = 3 \<and> IsDrivePrefix v \<and> IsSeparator (v ! 2)"

definition Parent :: "Path \<Rightarrow> Path" where
  "Parent v =
     (if v = [] then []
      else let e = TrimSeparators v 0 (length v) in
        if e = 0 then substr v 0 1
        else case FindFilenameStart v e of
          None \<Rightarrow> []
        | Some start \<Rightarrow>
            if start = 0 then
              if IsDrivePrefix v then
                if 3 \<le> length v \<and> IsSeparator (v ! 2) then substr v 0 3 else substr v 0 2
              else if v \<noteq> [] \<and> IsSeparator (hd v) then ''/''
              else []
            else
              let minimumParentEnd =
                    (if IsDrivePrefix v \<and> 3 \<le> length v \<and> IsSeparator (v ! 2) then 3
                     else if v \<noteq> [] \<and> IsSeparator (hd v) then 1 else 0)
              in substr v 0 (TrimSeparators v minimumParentEnd start))"

definition PathStartsWith :: "Path \<Rightarrow> Path \<Rightarrow> bool" where
  "PathStartsWith v pref =
     (if pref = [] then True
      else if length v < length pref then False
      else if substr v 0 (length pref) \<noteq> pref then False
      else if length pref = length v then True
      else IsSeparator (v ! length pref) \<or> IsSeparator (last pref))"

definition PathEndsWith :: "Path \<Rightarrow> Path \<Rightarrow> bool" where
  "PathEndsWith v suf =
     (if suf = [] then True
      else if length v < length suf then False
      else drop (length v - length suf) v = suf)"

section \<open>Changes\<close>

definition Append :: "Path \<Rightarrow> string \<Rightarrow> Path" where
  "Append p segment =
     (if segment = [] then p
      else (if 0 < length p \<and> \<not> IsSeparator (p ! (length p - 1)) then p @ ''/'' else p) @ segment)"

definition Join :: "Path \<Rightarrow> string \<Rightarrow> Path" where
  "Join p segment = Append p segment"

definition ReplaceExtension :: "Path \<Rightarrow> string \<Rightarrow> Path" where
  "ReplaceExtension v extension =
     (let name = Filename v in
      if name = [] then v
      else
        let start = length v - length name;
            out = (case LastDot name of None \<Rightarrow> v | Some dot \<Rightarrow> if dot = 0 then v else substr v 0 (start + dot))
        in if extension \<noteq> [] then (if hd extension \<noteq> CHR ''.'' then out @ ''.'' else out) @ extension else out)"

definition RemoveFilename :: "Path \<Rightarrow> Path" where
  "RemoveFilename p = Parent p"

definition FromNative :: "string \<Rightarrow> Path" where
  "FromNative path = path"

text \<open>\<open>ToNative\<close> on a platform other than Windows; the branch for Windows turns every \<open>/\<close> into a backslash.\<close>

definition ToNative :: "bool \<Rightarrow> Path \<Rightarrow> string" where
  "ToNative windows p = (if windows then map (\<lambda>c. if c = CHR ''/'' then CHR 0x5C else c) p else p)"

section \<open>Normalisation\<close>

text \<open>One segment of the loop of \<open>Normalize\<close>.\<close>

definition PushSegment :: "bool \<Rightarrow> string list \<Rightarrow> string \<Rightarrow> string list" where
  "PushSegment absolute segments segment =
     (if segment = [] \<or> segment = ''.'' then segments
      else if segment = ''..'' then
        if 0 < length segments \<and> segments ! (length segments - 1) \<noteq> ''..'' then butlast segments
        else if \<not> absolute then segments @ [segment]
        else segments
      else segments @ [segment])"

lemma SkipWhile_bounds: "pos \<le> length v \<Longrightarrow> pos \<le> SkipWhile P v pos \<and> SkipWhile P v pos \<le> length v"
proof (induction "length v - pos" arbitrary: pos)
  case 0
  then show ?case by (simp add: SkipWhile.simps [of P v pos])
next
  case (Suc n)
  then have "n = length v - (pos + 1)" "pos + 1 \<le> length v" by simp_all
  from Suc.hyps(1) [OF this] Suc.prems show ?case
    by (auto simp: SkipWhile.simps [of P v pos])
qed

lemma SkipWhile_step:
  assumes "pos < length v"
  shows "pos < SkipWhile IsSeparator v (SkipWhile (\<lambda>c. \<not> IsSeparator c) v pos)"
proof (cases "IsSeparator (v ! pos)")
  case True
  then have "SkipWhile (\<lambda>c. \<not> IsSeparator c) v pos = pos" by (simp add: SkipWhile.simps)
  moreover have "SkipWhile IsSeparator v pos = SkipWhile IsSeparator v (pos + 1)"
    using True assms by (simp add: SkipWhile.simps [of IsSeparator v pos])
  ultimately show ?thesis using SkipWhile_bounds [of "pos + 1" v IsSeparator] assms by simp
next
  case False
  let ?e = "SkipWhile (\<lambda>c. \<not> IsSeparator c) v (pos + 1)"
  have "SkipWhile (\<lambda>c. \<not> IsSeparator c) v pos = ?e"
    using False assms by (simp add: SkipWhile.simps [of "\<lambda>c. \<not> IsSeparator c" v pos])
  then show ?thesis
    using SkipWhile_bounds [of "pos + 1" v "\<lambda>c. \<not> IsSeparator c"] SkipWhile_bounds [of ?e v IsSeparator] assms by simp
qed

function Normalize_loop :: "bool \<Rightarrow> string \<Rightarrow> nat \<Rightarrow> string list \<Rightarrow> string list" where
  "Normalize_loop absolute v pos segments =
     (if pos < length v then
        let start = pos; pos = SkipWhile (\<lambda>c. \<not> IsSeparator c) v pos;
            segment = substr v start (pos - start);
            pos = SkipWhile IsSeparator v pos
        in Normalize_loop absolute v pos (PushSegment absolute segments segment)
      else segments)"
  by pat_completeness auto
termination
proof (relation "measure (\<lambda>(absolute, v, pos, segments). length v - pos)")
  fix absolute v pos segments x xa xb xc
  assume "pos < length v" "x = pos" "xa = SkipWhile (\<lambda>c. \<not> IsSeparator c) v pos" "xc = SkipWhile IsSeparator v xa"
  then show "((absolute, v, xc, PushSegment absolute segments xb), absolute, v, pos, segments)
      \<in> measure (\<lambda>(absolute, v, pos, segments). length v - pos)"
    using SkipWhile_step [of pos v] by auto
qed simp

declare Normalize_loop.simps [simp del]

text \<open>The loop that writes the segments; \<open>first\<close> is the test \<open>i == 0\<close>.\<close>

fun WriteSegments :: "bool \<Rightarrow> bool \<Rightarrow> string \<Rightarrow> string list \<Rightarrow> string" where
  "WriteSegments absolute first normalized [] = normalized"
| "WriteSegments absolute first normalized (s # ss) =
     WriteSegments absolute False
       ((if (\<not> first \<or> absolute) \<and> 0 < length normalized \<and> normalized ! (length normalized - 1) \<noteq> CHR ''/''
         then normalized @ ''/'' else normalized) @ s) ss"

definition Normalize :: "Path \<Rightarrow> Path" where
  "Normalize v =
     (if v = [] then v
      else
        let (prefix, pos, absolute) =
              (if IsDrivePrefix v then (substr v 0 2, SkipWhile IsSeparator v 2, 2 < length v \<and> IsSeparator (v ! 2))
               else if IsSeparator (hd v) then ([], SkipWhile IsSeparator v 0, True)
               else ([], 0, False));
            segments = Normalize_loop absolute v pos [];
            normalized = (if prefix \<noteq> [] then if absolute then prefix @ ''/'' else prefix
                          else if absolute then ''/'' else []);
            normalized = WriteSegments absolute True normalized segments
        in if length normalized = 0 \<and> prefix \<noteq> [] then prefix else normalized)"

definition LexicallyNormal :: "Path \<Rightarrow> Path" where
  "LexicallyNormal p = Normalize p"

section \<open>Relative paths\<close>

lemma SkipWhile_stop: "pos \<le> length v \<Longrightarrow> SkipWhile P v pos < length v \<Longrightarrow> \<not> P (v ! SkipWhile P v pos)"
proof (induction "length v - pos" arbitrary: pos)
  case 0
  then show ?case by (simp add: SkipWhile.simps [of P v pos])
next
  case (Suc n)
  then have n: "n = length v - (pos + 1)" "pos + 1 \<le> length v" by simp_all
  show ?case
    using Suc.hyps(1) [OF n] Suc.prems by (simp add: SkipWhile.simps [of P v pos] split: if_splits)
qed

function SplitComponents_loop :: "string \<Rightarrow> nat \<Rightarrow> string list \<Rightarrow> string list" where
  "SplitComponents_loop v pos out =
     (if pos < length v then
        let pos = SkipWhile IsSeparator v pos in
        if length v \<le> pos then out
        else
          let start = pos; pos = SkipWhile (\<lambda>c. \<not> IsSeparator c) v pos
          in SplitComponents_loop v pos (out @ [substr v start (pos - start)])
      else out)"
  by pat_completeness auto
termination
proof (relation "measure (\<lambda>(v, pos, out). length v - pos)")
  fix v :: string and pos :: nat and out :: "string list" and x xa xb
  assume a: "pos < length v" "x = SkipWhile IsSeparator v pos" "\<not> length v \<le> x" "xa = x"
    "xb = SkipWhile (\<lambda>c. \<not> IsSeparator c) v x"
  have "pos \<le> x" using a(1,2) SkipWhile_bounds [of pos v IsSeparator] by simp
  moreover have "\<not> IsSeparator (v ! x)" using a(1,2,3) SkipWhile_stop [of pos v IsSeparator] by simp
  then have "xb = SkipWhile (\<lambda>c. \<not> IsSeparator c) v (x + 1)"
    using a(3,5) by (simp add: SkipWhile.simps [of "\<lambda>c. \<not> IsSeparator c" v x])
  then have "x < xb" using a(3) SkipWhile_bounds [of "x + 1" v "\<lambda>c. \<not> IsSeparator c"] by simp
  ultimately show "((v, xb, out @ [substr v xa (xb - xa)]), v, pos, out) \<in> measure (\<lambda>(v, pos, out). length v - pos)"
    using a(1) by auto
qed simp

declare SplitComponents_loop.simps [simp del]

definition SplitNormalizedComponents :: "string \<Rightarrow> string list" where
  "SplitNormalizedComponents v =
     (let pos = (if IsDrivePrefix v then if 2 < length v \<and> IsSeparator (v ! 2) then 3 else 2
                 else if v \<noteq> [] \<and> IsSeparator (hd v) then 1 else 0)
      in SplitComponents_loop v pos [])"

text \<open>\<open>while (common < lhs.Size() && common < rhs.Size() && lhs[common] == rhs[common]) ++common\<close>\<close>

function CommonParts :: "string list \<Rightarrow> string list \<Rightarrow> nat \<Rightarrow> nat" where
  "CommonParts ls rs common =
     (if common < length ls \<and> common < length rs \<and> ls ! common = rs ! common then CommonParts ls rs (common + 1)
      else common)"
  by pat_completeness auto
termination
  by (relation "measure (\<lambda>(ls, rs, common). length ls - common)") auto

declare CommonParts.simps [simp del]

text \<open>The two writing loops, with the flag \<open>wrote\<close>.\<close>

fun WriteParts :: "string \<Rightarrow> bool \<Rightarrow> string list \<Rightarrow> string \<times> bool" where
  "WriteParts out wrote [] = (out, wrote)"
| "WriteParts out wrote (p # ps) = WriteParts ((if wrote then out @ ''/'' else out) @ p) True ps"

definition LexicallyRelativeTo :: "Path \<Rightarrow> Path \<Rightarrow> Path" where
  "LexicallyRelativeTo p base =
     (let lhs = LexicallyNormal p; rhs = LexicallyNormal base in
      if IsAbsolute lhs \<noteq> IsAbsolute rhs then lhs
      else if IsDrivePrefix lhs \<noteq> IsDrivePrefix rhs then lhs
      else if IsDrivePrefix lhs \<and> IsDrivePrefix rhs \<and> tolower (lhs ! 0) \<noteq> tolower (rhs ! 0) then lhs
      else
        let lhsParts = SplitNormalizedComponents lhs; rhsParts = SplitNormalizedComponents rhs;
            common = CommonParts lhsParts rhsParts 0;
            (out, wrote) = WriteParts [] False (replicate (length rhsParts - common) ''..'');
            (out, wrote) = WriteParts out wrote (drop common lhsParts)
        in if \<not> wrote then out @ ''.'' else out)"

end
