(* ===== verification/IO_Path_Props.thy ===== *)
theory IO_Path_Props
  imports IO_Path
begin

text \<open>
  Correctness of the path helper. A text is split into \<open>components\<close> (its maximal parts without
  separators); a path is a drive, a root flag and its \<open>parts\<close>. \<open>walk\<close> gives the directory that a
  list of components leads to, and \<open>normal_parts\<close> is the normal form. \<open>Normalize\<close> is shown to write the
  normal form of the same directory, \<open>LexicallyRelativeTo\<close> to invert \<open>Join\<close>, \<open>Filename\<close>, \<open>Stem\<close> and
  \<open>Extension\<close> to split the last component, and \<open>Parent\<close> to drop it and to reach the top.
\<close>

section \<open>Components\<close>

lemma SkipWhile_takeWhile: "pos \<le> length v \<Longrightarrow> SkipWhile P v pos = pos + length (takeWhile P (drop pos v))"
proof (induction "length v - pos" arbitrary: pos)
  case 0
  then show ?case by (simp add: SkipWhile.simps [of P v pos])
next
  case (Suc n)
  then have n: "n = length v - (pos + 1)" "pos + 1 \<le> length v" by simp_all
  then have "drop pos v = v ! pos # drop (pos + 1) v" by (simp add: Cons_nth_drop_Suc)
  then show ?case using Suc.hyps(1) [OF n] n(2) by (simp add: SkipWhile.simps [of P v pos])
qed

lemma drop_SkipWhile: "pos \<le> length v \<Longrightarrow> drop (SkipWhile P v pos) v = dropWhile P (drop pos v)"
  by (simp add: SkipWhile_takeWhile dropWhile_eq_drop add.commute)

abbreviation "nonsep \<equiv> \<lambda>c. \<not> IsSeparator c"

text \<open>The components of a text: its maximal parts without separators.\<close>

function components :: "string \<Rightarrow> string list" where
  "components s =
     (let t = dropWhile IsSeparator s in
      if t = [] then [] else takeWhile nonsep t # components (dropWhile nonsep t))"
  by pat_completeness auto
termination
proof (relation "measure length")
  fix s t :: string
  assume t: "t = dropWhile IsSeparator s" "t \<noteq> []"
  then have "nonsep (hd t)" using hd_dropWhile by blast
  then have "dropWhile nonsep t = dropWhile nonsep (tl t)" using t(2) by (cases t) auto
  then have "length (dropWhile nonsep t) \<le> length (tl t)" using length_dropWhile_le [of nonsep "tl t"] by metis
  also have "\<dots> < length t" using t(2) by (cases t) auto
  also have "\<dots> \<le> length s" using t(1) by (simp add: length_dropWhile_le)
  finally show "(dropWhile nonsep t, s) \<in> measure length" by simp
qed simp

declare components.simps [simp del]

lemma components_Nil [simp]: "components [] = []"
  by (simp add: components.simps)

lemma components_seps [simp]: "components (dropWhile IsSeparator s) = components s"
  by (simp add: components.simps [of s] components.simps [of "dropWhile IsSeparator s"])

lemma components_sep [simp]: "IsSeparator c \<Longrightarrow> components (c # s) = components s"
  by (simp add: components.simps [of "c # s"] components.simps [of s])

lemma components_name: "nonsep c \<Longrightarrow> components (c # s) = (c # takeWhile nonsep s) # components (dropWhile nonsep s)"
  by (subst components.simps) simp

definition name_ok :: "string \<Rightarrow> bool" where
  "name_ok s \<longleftrightarrow> s \<noteq> [] \<and> list_all nonsep s"

lemma components_ok: "list_all name_ok (components s)"
proof (induction s rule: components.induct)
  case (1 s)
  let ?t = "dropWhile IsSeparator s"
  show ?case
  proof (cases "?t = []")
    case True
    then show ?thesis by (simp add: components.simps [of s])
  next
    case False
    then have "nonsep (hd ?t)" using hd_dropWhile by blast
    then have "takeWhile nonsep ?t \<noteq> []" using False by (cases ?t) auto
    moreover have "list_all nonsep (takeWhile nonsep ?t)" by (auto simp: list_all_iff dest: set_takeWhileD)
    ultimately have "name_ok (takeWhile nonsep ?t)" by (simp add: name_ok_def)
    then show ?thesis using 1 [OF refl False] False
      by (simp add: components.simps [of s] Let_def del: dropWhile_eq_Nil_conv)
  qed
qed

lemma components_append_sep: "IsSeparator c \<Longrightarrow> components (s @ c # r) = components s @ components r"
proof (induction s rule: components.induct)
  case (1 s)
  let ?t = "dropWhile IsSeparator s"
  show ?case
  proof (cases "?t = []")
    case True
    then have "\<forall>x\<in>set s. IsSeparator x" by simp
    then have "dropWhile IsSeparator (s @ c # r) = dropWhile IsSeparator r" using 1 by (simp add: dropWhile_append)
    then have "components (s @ c # r) = components r" by (metis components_seps)
    then show ?thesis using True by (simp add: components.simps [of s])
  next
    case False
    then have t: "nonsep (hd ?t)" using hd_dropWhile by blast
    obtain d u where du: "?t = d # u" using False by (cases ?t) auto
    have "components (s @ c # r) = components (?t @ c # r)"
      using False by (metis components_seps dropWhile_append3 dropWhile_eq_Nil_conv dropWhile_append1)
    also have "\<dots> = takeWhile nonsep ?t # components (dropWhile nonsep ?t @ c # r)"
    proof (cases "\<forall>x\<in>set u. nonsep x")
      case True
      then have e: "takeWhile nonsep u = u" "dropWhile nonsep u = []" by simp_all
      show ?thesis using True t 1(2) du by (simp add: e components_name takeWhile_append dropWhile_append)
    next
      case False
      then show ?thesis using t 1(2) du by (auto simp add: components_name takeWhile_append dropWhile_append)
    qed
    also have "components (dropWhile nonsep ?t @ c # r) = components (dropWhile nonsep ?t) @ components r"
      using 1(1) [OF refl False 1(2)] .
    finally show ?thesis using False by (simp add: components.simps [of s] Let_def del: dropWhile_eq_Nil_conv)
  qed
qed

section \<open>The loops over components\<close>

lemma PushSegment_Nil [simp]: "PushSegment absolute segs [] = segs"
  by (simp add: PushSegment_def)

lemma Normalize_loop_components:
  "pos \<le> length v \<Longrightarrow> Normalize_loop absolute v pos segs = foldl (PushSegment absolute) segs (components (drop pos v))"
proof (induction "length v - pos" arbitrary: pos segs rule: less_induct)
  case less
  show ?case
  proof (cases "pos < length v")
    case False
    then show ?thesis by (simp add: Normalize_loop.simps [of absolute v pos segs])
  next
    case True
    let ?r = "drop pos v"
    let ?e = "SkipWhile nonsep v pos"
    let ?q = "SkipWhile IsSeparator v ?e"
    have e: "?e = pos + length (takeWhile nonsep ?r)" "?e \<le> length v"
      using less.prems SkipWhile_bounds [of pos v nonsep] by (simp_all add: SkipWhile_takeWhile)
    have seg: "substr v pos (?e - pos) = takeWhile nonsep ?r"
      by (simp add: substr_def e(1) takeWhile_eq_take [symmetric])
    have rest: "drop ?q v = dropWhile IsSeparator (dropWhile nonsep ?r)"
      using e(2) less.prems by (simp add: drop_SkipWhile)
    have q: "pos < ?q" "?q \<le> length v" using SkipWhile_step [OF True] SkipWhile_bounds [OF e(2)] by auto
    have "Normalize_loop absolute v pos segs = Normalize_loop absolute v ?q (PushSegment absolute segs (takeWhile nonsep ?r))"
      using True seg by (subst Normalize_loop.simps) (simp add: Let_def)
    also have "\<dots> = foldl (PushSegment absolute) (PushSegment absolute segs (takeWhile nonsep ?r)) (components (dropWhile nonsep ?r))"
      using less.hyps [of ?q] q True rest by simp
    also have "\<dots> = foldl (PushSegment absolute) segs (components ?r)"
    proof (cases ?r)
      case (Cons c r)
      then show ?thesis by (cases "IsSeparator c") (simp_all add: components_name)
    qed simp
    finally show ?thesis .
  qed
qed

lemma SplitComponents_loop_components:
  "pos \<le> length v \<Longrightarrow> SplitComponents_loop v pos out = out @ components (drop pos v)"
proof (induction "length v - pos" arbitrary: pos out rule: less_induct)
  case less
  show ?case
  proof (cases "pos < length v")
    case False
    then show ?thesis by (simp add: SplitComponents_loop.simps [of v pos out])
  next
    case True
    let ?s = "SkipWhile IsSeparator v pos"
    let ?e = "SkipWhile nonsep v ?s"
    have s: "pos \<le> ?s" "?s \<le> length v" using SkipWhile_bounds [OF less.prems] by auto
    have t: "drop ?s v = dropWhile IsSeparator (drop pos v)" using less.prems by (rule drop_SkipWhile)
    show ?thesis
    proof (cases "length v \<le> ?s")
      case True
      then have "dropWhile IsSeparator (drop pos v) = []" using t by simp
      then have "components (drop pos v) = []" by (metis components_Nil components_seps)
      then show ?thesis using True by (simp add: SplitComponents_loop.simps [of v pos out] Let_def)
    next
      case False
      have ne: "drop ?s v \<noteq> []" using False by simp
      have e: "?e = ?s + length (takeWhile nonsep (drop ?s v))" "?e \<le> length v"
        using SkipWhile_takeWhile [OF s(2), of nonsep] SkipWhile_bounds [OF s(2), of nonsep] by blast+
      have seg: "substr v ?s (?e - ?s) = takeWhile nonsep (drop ?s v)"
        by (simp add: substr_def e(1) takeWhile_eq_take [symmetric])
      have "nonsep (hd (drop ?s v))" using ne unfolding t by (simp add: hd_dropWhile)
      then have "takeWhile nonsep (drop ?s v) \<noteq> []" using ne by (cases "drop ?s v") auto
      then have lt: "length v - ?e < length v - pos" using e s \<open>pos < length v\<close> by (cases "takeWhile nonsep (drop ?s v)") auto
      have "SplitComponents_loop v pos out = SplitComponents_loop v ?e (out @ [takeWhile nonsep (drop ?s v)])"
        using \<open>pos < length v\<close> False seg by (subst SplitComponents_loop.simps) (simp add: Let_def)
      also have "\<dots> = (out @ [takeWhile nonsep (drop ?s v)]) @ components (drop ?e v)"
        using lt e(2) by (rule less.hyps)
      also have "drop ?e v = dropWhile nonsep (drop ?s v)" using s(2) by (rule drop_SkipWhile)
      finally show ?thesis using ne t
        by (simp add: components.simps [of "drop pos v"] Let_def del: dropWhile_eq_Nil_conv)
    qed
  qed
qed

section \<open>What Normalize writes\<close>

fun slash_join :: "string list \<Rightarrow> string" where
  "slash_join [] = []"
| "slash_join [s] = s"
| "slash_join (s # ss) = s @ ''/'' @ slash_join ss"

lemma slash_join_Cons: "slash_join (s # ss) = (if ss = [] then s else s @ ''/'' @ slash_join ss)"
  by (cases ss) auto

lemma IsSeparator_slash [simp]: "IsSeparator (CHR ''/'')"
  by (simp add: IsSeparator_def)

lemma name_ok_last: "name_ok s \<Longrightarrow> s \<noteq> [] \<and> \<not> IsSeparator (last s)"
  by (cases s rule: rev_cases) (auto simp: name_ok_def)

lemma name_ok_hd: "name_ok s \<Longrightarrow> s \<noteq> [] \<and> \<not> IsSeparator (hd s)"
  by (cases s) (auto simp: name_ok_def)

lemma last_slash_join: "list_all name_ok ss \<Longrightarrow> ss \<noteq> [] \<Longrightarrow> slash_join ss \<noteq> [] \<and> \<not> IsSeparator (last (slash_join ss))"
  by (induction ss rule: slash_join.induct) (auto dest: name_ok_last)

lemma hd_slash_join: "list_all name_ok ss \<Longrightarrow> ss \<noteq> [] \<Longrightarrow> slash_join ss \<noteq> [] \<and> \<not> IsSeparator (hd (slash_join ss))"
  by (induction ss rule: slash_join.induct) (auto dest: name_ok_hd simp: hd_append)

lemma slash_join_Nil_iff: "list_all name_ok ss \<Longrightarrow> slash_join ss = [] \<longleftrightarrow> ss = []"
  using last_slash_join by auto

lemma components_names: "name_ok s \<Longrightarrow> components s = [s]"
proof (cases s)
  case (Cons c r)
  moreover assume "name_ok s"
  ultimately have "nonsep c" "takeWhile nonsep r = r" "dropWhile nonsep r = []"
    by (simp_all add: name_ok_def list_all_iff)
  then show ?thesis by (simp add: Cons components_name del: dropWhile_eq_Nil_conv takeWhile_eq_all_conv)
qed (simp add: name_ok_def)

lemma components_slash_join: "list_all name_ok ss \<Longrightarrow> components (slash_join ss) = ss"
  by (induction ss rule: slash_join.induct) (simp_all add: components_names components_append_sep)

lemma WriteSegments_Cons:
  "WriteSegments absolute first n (s # ss) =
     WriteSegments absolute False
       ((if (\<not> first \<or> absolute) \<and> n \<noteq> [] \<and> last n \<noteq> CHR ''/'' then n @ ''/'' else n) @ s) ss"
  by (simp add: last_conv_nth cong: conj_cong)

lemma WriteSegments_rest:
  "list_all name_ok ss \<Longrightarrow> n \<noteq> [] \<Longrightarrow> \<not> IsSeparator (last n) \<Longrightarrow>
     WriteSegments absolute False n ss = (if ss = [] then n else n @ ''/'' @ slash_join ss)"
proof (induction ss arbitrary: n)
  case (Cons s ss)
  have "last n \<noteq> CHR ''/''" using Cons.prems(3) by auto
  then show ?case
    using Cons.IH [of "n @ ''/'' @ s"] Cons.prems name_ok_last [of s]
    by (cases ss) (auto simp: WriteSegments_Cons simp del: WriteSegments.simps(2))
qed simp

lemma WriteSegments_exact:
  assumes "list_all name_ok ss" "absolute \<longrightarrow> n \<noteq> [] \<and> last n = CHR ''/''"
  shows "WriteSegments absolute True n ss = n @ slash_join ss"
proof (cases ss)
  case (Cons s rest)
  have "WriteSegments absolute True n ss = WriteSegments absolute False (n @ s) rest"
    using Cons assms(2) by (auto simp: WriteSegments_Cons simp del: WriteSegments.simps(2))
  also have "\<dots> = n @ slash_join ss"
    using Cons assms(1) WriteSegments_rest [of rest "n @ s" absolute] name_ok_last [of s] by (cases rest) auto
  finally show ?thesis .
qed simp

text \<open>A path is its drive, its root and its components.\<close>

definition drive :: "Path \<Rightarrow> string" where
  "drive v = (if IsDrivePrefix v then take 2 v else [])"

definition parts :: "Path \<Rightarrow> string list" where
  "parts v = components (drop (length (drive v)) v)"

definition build :: "string \<Rightarrow> bool \<Rightarrow> string list \<Rightarrow> Path" where
  "build d absolute ss = d @ (if absolute then ''/'' else []) @ slash_join ss"

lemma PushSegment_ok: "list_all name_ok segs \<Longrightarrow> name_ok s \<Longrightarrow> list_all name_ok (PushSegment absolute segs s)"
  by (auto simp: PushSegment_def list_all_iff dest: in_set_butlastD)

lemma foldl_PushSegment_ok:
  "list_all name_ok segs \<Longrightarrow> list_all name_ok ss \<Longrightarrow> list_all name_ok (foldl (PushSegment absolute) segs ss)"
  by (induction ss arbitrary: segs) (simp_all add: PushSegment_ok)

abbreviation "collapse absolute ss \<equiv> foldl (PushSegment absolute) [] ss"

lemma parts_ok: "list_all name_ok (parts v)"
  by (simp add: parts_def components_ok)

lemma collapse_ok: "list_all name_ok (collapse absolute (parts v))"
  by (simp add: foldl_PushSegment_ok parts_ok)

lemma components_drop_seps: "k \<le> length v \<Longrightarrow> components (drop (SkipWhile IsSeparator v k) v) = components (drop k v)"
  by (simp add: drop_SkipWhile)

lemma drive_length: "IsDrivePrefix v \<Longrightarrow> length (drive v) = 2 \<and> 2 \<le> length v"
  by (simp add: drive_def IsDrivePrefix_def)

lemma Normalize_exact: "Normalize v = build (drive v) (IsAbsolute v) (collapse (IsAbsolute v) (parts v))"
proof -
  consider "v = []" | "v \<noteq> []" "IsDrivePrefix v" | "v \<noteq> []" "\<not> IsDrivePrefix v" "IsSeparator (hd v)"
    | "v \<noteq> []" "\<not> IsDrivePrefix v" "\<not> IsSeparator (hd v)" by blast
  then show ?thesis
  proof cases
    case 1
    then show ?thesis by (simp add: Normalize_def build_def drive_def parts_def IsDrivePrefix_def IsAbsolute_def)
  next
    case 2
    let ?k = "SkipWhile IsSeparator v 2"
    have l: "2 \<le> length v" using 2 drive_length by auto
    have a: "IsAbsolute v \<longleftrightarrow> 2 < length v \<and> IsSeparator (v ! 2)" using 2 by (auto simp: IsAbsolute_def)
    have "Normalize_loop (IsAbsolute v) v ?k [] = collapse (IsAbsolute v) (parts v)"
      using l 2 SkipWhile_bounds [OF l] by (simp add: Normalize_loop_components components_drop_seps parts_def drive_length)
    then show ?thesis using 2 l
      by (simp add: Normalize_def Let_def a [symmetric] WriteSegments_exact collapse_ok build_def drive_def substr_def )
  next
    case 3
    have a: "IsAbsolute v" using 3 by (auto simp: IsAbsolute_def)
    have "Normalize_loop True v (SkipWhile IsSeparator v 0) [] = collapse True (parts v)"
      using 3 SkipWhile_bounds [of 0 v] components_drop_seps [of 0 v]
      by (simp add: Normalize_loop_components parts_def drive_def)
    then show ?thesis using 3 collapse_ok [of True v]
      by (simp add: Normalize_def Let_def a WriteSegments_exact build_def drive_def)
  next
    case 4
    have a: "\<not> IsAbsolute v" using 4 by (auto simp: IsAbsolute_def)
    have "Normalize_loop False v 0 [] = collapse False (parts v)"
      using 4 by (simp add: Normalize_loop_components parts_def drive_def)
    then show ?thesis using 4 collapse_ok [of False v]
      by (simp add: Normalize_def Let_def a WriteSegments_exact build_def drive_def)
  qed
qed

text \<open>Reading back a path that was built.\<close>

lemma drive_build_drive:
  "IsDrivePrefix d \<Longrightarrow> length d = 2 \<Longrightarrow> IsDrivePrefix (build d a ss) \<and> drive (build d a ss) = d"
  by (auto simp: build_def IsDrivePrefix_def drive_def nth_append)

lemma components_root: "components ((if a then ''/'' else []) @ s) = components s"
  by simp

lemma read_build_drive:
  assumes "IsDrivePrefix d" "length d = 2" "list_all name_ok ss"
  shows "drive (build d a ss) = d" "IsAbsolute (build d a ss) \<longleftrightarrow> a" "parts (build d a ss) = ss"
proof -
  note d = drive_build_drive [OF assms(1,2), of a ss]
  show "drive (build d a ss) = d" using d by simp
  have dr: "drop 2 (build d a ss) = (if a then ''/'' else []) @ slash_join ss" using assms(2) by (simp add: build_def)
  show "parts (build d a ss) = ss"
    using d assms(2,3) dr by (simp add: parts_def components_slash_join)
  have "build d a ss \<noteq> []" using assms(2) by (auto simp: build_def)
  then have "IsAbsolute (build d a ss) \<longleftrightarrow> drop 2 (build d a ss) \<noteq> [] \<and> IsSeparator (hd (drop 2 (build d a ss)))"
    using d by (auto simp: IsAbsolute_def hd_drop_conv_nth)
  also have "\<dots> \<longleftrightarrow> a"
    unfolding dr using hd_slash_join [OF assms(3)] by (cases "ss = []") auto
  finally show "IsAbsolute (build d a ss) \<longleftrightarrow> a" .
qed

lemma read_build:
  assumes "\<not> IsDrivePrefix (build [] a ss)" "list_all name_ok ss"
  shows "drive (build [] a ss) = []" "IsAbsolute (build [] a ss) \<longleftrightarrow> a" "parts (build [] a ss) = ss"
proof -
  show d: "drive (build [] a ss) = []" using assms(1) by (simp add: drive_def)
  show "parts (build [] a ss) = ss" using d assms(2) by (simp add: parts_def build_def components_slash_join)
  show "IsAbsolute (build [] a ss) \<longleftrightarrow> a"
    using assms hd_slash_join [OF assms(2)] by (cases "ss = []") (auto simp: IsAbsolute_def build_def)
qed

lemma IsDrivePrefix_drive: "IsDrivePrefix v \<Longrightarrow> IsDrivePrefix (drive v) \<and> length (drive v) = 2"
  by (auto simp: drive_def IsDrivePrefix_def)

lemma IsDrivePrefix_absolute: "\<not> IsDrivePrefix (build [] True ss)"
  by (simp add: build_def IsDrivePrefix_def isalpha_def char_arith)

text \<open>The parts of a normalised path, unless it became a drive path by losing a leading \<open>./\<close>.\<close>

lemma read_Normalize:
  assumes "IsDrivePrefix (Normalize v) \<longrightarrow> IsDrivePrefix v"
  shows "drive (Normalize v) = drive v" "IsAbsolute (Normalize v) \<longleftrightarrow> IsAbsolute v"
    "parts (Normalize v) = collapse (IsAbsolute v) (parts v)"
proof -
  have "drive (Normalize v) = drive v \<and> (IsAbsolute (Normalize v) \<longleftrightarrow> IsAbsolute v) \<and>
      parts (Normalize v) = collapse (IsAbsolute v) (parts v)"
  proof (cases "IsDrivePrefix v")
    case True
    then show ?thesis unfolding Normalize_exact [of v]
      using read_build_drive [OF _ _ collapse_ok] IsDrivePrefix_drive [OF True] by blast
  next
    case False
    then have d: "drive v = []" by (simp add: drive_def)
    have "\<not> IsDrivePrefix (Normalize v)" using assms False by blast
    then show ?thesis using read_build [OF _ collapse_ok] unfolding Normalize_exact [of v] d by blast
  qed
  then show "drive (Normalize v) = drive v" "IsAbsolute (Normalize v) \<longleftrightarrow> IsAbsolute v"
    "parts (Normalize v) = collapse (IsAbsolute v) (parts v)" by auto
qed

section \<open>What a path denotes\<close>

text \<open>
  A directory is the list of names that leads to it. \<open>walk d ss\<close> follows the components \<open>ss\<close> from
  the directory \<open>d\<close>; the parent of the root is the root.
\<close>

fun walk :: "string list \<Rightarrow> string list \<Rightarrow> string list" where
  "walk d [] = d"
| "walk d (s # ss) = walk (if s = ''.'' then d else if s = ''..'' then butlast d else d @ [s]) ss"

definition denotes :: "Path \<Rightarrow> string list \<Rightarrow> string list" where
  "denotes v cwd = walk (if IsAbsolute v then [] else cwd) (parts v)"

text \<open>The normal form: names only, after leading \<open>..\<close> components in a relative path.\<close>

definition real_name :: "string \<Rightarrow> bool" where
  "real_name s \<longleftrightarrow> name_ok s \<and> s \<noteq> ''.'' \<and> s \<noteq> ''..''"

definition normal_parts :: "bool \<Rightarrow> string list \<Rightarrow> bool" where
  "normal_parts absolute ss \<longleftrightarrow>
     list_all real_name (dropWhile (\<lambda>s. s = ''..'') ss) \<and> (absolute \<longrightarrow> list_all real_name ss)"

lemma walk_append [simp]: "walk d (ss @ ts) = walk (walk d ss) ts"
  by (induction ss arbitrary: d) auto

lemma normal_parts_Nil [simp]: "normal_parts absolute []"
  by (simp add: normal_parts_def)

lemma normal_parts_iff:
  "normal_parts absolute ss \<longleftrightarrow>
     (\<exists>n names. ss = replicate n ''..'' @ names \<and> list_all real_name names \<and> (absolute \<longrightarrow> n = 0))"
proof
  assume n: "normal_parts absolute ss"
  let ?u = "takeWhile (\<lambda>s. s = ''..'') ss"
  have "?u = replicate (length ?u) ''..''"
    by (rule replicate_length_same [symmetric]) (auto dest: set_takeWhileD)
  then have "ss = replicate (length ?u) ''..'' @ dropWhile (\<lambda>s. s = ''..'') ss"
    by (metis takeWhile_dropWhile_id)
  moreover have "absolute \<longrightarrow> ?u = []" using n by (cases ss) (auto simp: normal_parts_def real_name_def)
  ultimately show "\<exists>n names. ss = replicate n ''..'' @ names \<and> list_all real_name names \<and> (absolute \<longrightarrow> n = 0)"
    using n unfolding normal_parts_def by (metis list.size(3))
next
  assume "\<exists>n names. ss = replicate n ''..'' @ names \<and> list_all real_name names \<and> (absolute \<longrightarrow> n = 0)"
  then obtain n names where n: "ss = replicate n ''..'' @ names" "list_all real_name names" "absolute \<longrightarrow> n = 0" by blast
  have "dropWhile (\<lambda>s. s = ''..'') ss = dropWhile (\<lambda>s. s = ''..'') names" using n(1) by (simp add: dropWhile_append)
  also have "\<dots> = names" using n(2) by (cases names) (auto simp: real_name_def)
  finally show "normal_parts absolute ss" using n by (auto simp: normal_parts_def)
qed

lemma PushSegment_dots: "PushSegment False (replicate m ''..'') ''..'' = replicate m ''..'' @ [''..'']"
  by (cases m) (auto simp: PushSegment_def nth_append simp flip: replicate_append_same)

lemma PushSegment_cases:
  assumes "normal_parts absolute segs" "name_ok s"
  shows "normal_parts absolute (PushSegment absolute segs s)"
    "walk (if absolute then [] else d) (PushSegment absolute segs s) = walk (walk (if absolute then [] else d) segs) [s]"
proof -
  obtain n names where n: "segs = replicate n ''..'' @ names" "list_all real_name names" "absolute \<longrightarrow> n = 0"
    using assms(1) by (auto simp: normal_parts_iff)
  have "normal_parts absolute (PushSegment absolute segs s) \<and>
    walk (if absolute then [] else d) (PushSegment absolute segs s) = walk (walk (if absolute then [] else d) segs) [s]"
  proof (cases "s = ''..''")
    case False
    show ?thesis
    proof (cases "s = ''.''")
      case True
      then show ?thesis using assms(1) by (simp add: PushSegment_def)
    next
      case d: False
      then have "real_name s" using False assms(2) by (simp add: real_name_def)
      then have "normal_parts absolute (segs @ [s])"
        unfolding normal_parts_iff using n by (intro exI [of _ n] exI [of _ "names @ [s]"]) simp
      then show ?thesis using False d assms(2) by (auto simp: PushSegment_def name_ok_def)
    qed
  next
    case True
    show ?thesis
    proof (cases names rule: rev_cases)
      case Nil
      have "normal_parts False (replicate n ''..'' @ [''..''])"
        unfolding normal_parts_iff by (intro exI [of _ "Suc n"] exI [of _ "[]"]) (simp add: replicate_append_same)
      then show ?thesis using True Nil n
        by (cases absolute) (simp_all add: PushSegment_dots, simp add: PushSegment_def)
    next
      case (snoc ns x)
      have "normal_parts absolute (replicate n ''..'' @ ns)"
        unfolding normal_parts_iff using n snoc by (intro exI [of _ n] exI [of _ ns]) simp
      moreover have "real_name x" using n snoc by simp
      ultimately show ?thesis using True snoc n
        by (auto simp: PushSegment_def butlast_append nth_append real_name_def)
    qed
  qed
  then show "normal_parts absolute (PushSegment absolute segs s)"
    "walk (if absolute then [] else d) (PushSegment absolute segs s) = walk (walk (if absolute then [] else d) segs) [s]"
    by auto
qed

lemma collapse_from:
  "normal_parts absolute segs \<Longrightarrow> list_all name_ok ss \<Longrightarrow>
     normal_parts absolute (foldl (PushSegment absolute) segs ss) \<and>
     walk (if absolute then [] else d) (foldl (PushSegment absolute) segs ss) =
       walk (walk (if absolute then [] else d) segs) ss"
proof (induction ss arbitrary: segs)
  case (Cons s ss)
  then show ?case using PushSegment_cases(1) [OF Cons.prems(1), of s] PushSegment_cases(2) [OF Cons.prems(1), of s d] Cons.IH [of "PushSegment absolute segs s"] by simp
qed simp

lemma collapse_normal: "normal_parts absolute (collapse absolute (parts v))"
  using collapse_from [OF normal_parts_Nil parts_ok] by blast

lemma collapse_walk:
  "walk (if absolute then [] else d) (collapse absolute (parts v)) = walk (if absolute then [] else d) (parts v)"
  using collapse_from [OF normal_parts_Nil parts_ok] by simp

lemma PushSegment_real: "real_name s \<Longrightarrow> PushSegment absolute segs s = segs @ [s]"
  by (auto simp: PushSegment_def real_name_def name_ok_def)

lemma foldl_PushSegment_real: "list_all real_name ss \<Longrightarrow> foldl (PushSegment absolute) segs ss = segs @ ss"
  by (induction ss arbitrary: segs) (simp_all add: PushSegment_real)

lemma foldl_PushSegment_dots: "foldl (PushSegment False) (replicate m ''..'') (replicate n ''..'') = replicate (m + n) ''..''"
proof (induction n arbitrary: m)
  case (Suc n)
  show ?case using Suc [of "Suc m"] by (simp add: PushSegment_dots replicate_append_same)
qed simp

lemma collapse_idem: "normal_parts absolute ss \<Longrightarrow> collapse absolute ss = ss"
proof -
  assume "normal_parts absolute ss"
  then obtain n names where n: "ss = replicate n ''..'' @ names" "list_all real_name names" "absolute \<longrightarrow> n = 0"
    by (auto simp: normal_parts_iff)
  have "foldl (PushSegment absolute) [] (replicate n ''..'') = replicate n ''..''"
    using n(3) foldl_PushSegment_dots [of 0 n] by (cases absolute) auto
  then show ?thesis using n by (simp add: foldl_PushSegment_real)
qed

text \<open>Leaving directories and entering them: the parts that \<open>LexicallyRelativeTo\<close> writes.\<close>

lemma foldl_PushSegment_up:
  "list_all real_name segs \<Longrightarrow> n \<le> length segs \<Longrightarrow>
     foldl (PushSegment absolute) segs (replicate n ''..'') = take (length segs - n) segs"
proof (induction n arbitrary: segs)
  case (Suc n)
  obtain xs x where x: "segs = xs @ [x]" using Suc.prems(2) by (cases segs rule: rev_cases) auto
  have "PushSegment absolute segs ''..'' = xs" using Suc.prems(1) x by (auto simp: PushSegment_def real_name_def)
  then show ?case using Suc.IH [of xs] Suc.prems x by simp
qed simp

lemma CommonParts_ge: "common \<le> CommonParts ls rs common"
  by (induction ls rs common rule: CommonParts.induct) (subst CommonParts.simps, force)

lemma CommonParts_prefix:
  "common \<le> length ls \<Longrightarrow> common \<le> length rs \<Longrightarrow> take common ls = take common rs \<Longrightarrow>
     take (CommonParts ls rs common) ls = take (CommonParts ls rs common) rs \<and>
     CommonParts ls rs common \<le> length ls \<and> CommonParts ls rs common \<le> length rs"
proof (induction ls rs common rule: CommonParts.induct)
  case (1 ls rs common)
  then show ?case
    by (cases "common < length ls \<and> common < length rs \<and> ls ! common = rs ! common")
      (auto simp: CommonParts.simps [of ls rs common] take_Suc_conv_app_nth)
qed

lemma WriteParts_wrote: "WriteParts out True ps = (if ps = [] then out else out @ ''/'' @ slash_join ps, True)"
  by (induction ps arbitrary: out) (simp_all add: slash_join_Cons)

lemma WriteParts_exact: "WriteParts [] False ps = (slash_join ps, ps \<noteq> [])"
  by (cases ps) (simp_all add: WriteParts_wrote slash_join_Cons)

lemma WriteParts_append: "WriteParts out w (ps @ qs) = (let (out, w) = WriteParts out w ps in WriteParts out w qs)"
  by (induction ps arbitrary: out w) auto

lemma SplitNormalizedComponents_parts: "SplitNormalizedComponents v = parts v"
proof -
  have c: "components (drop k v) = components (drop (Suc k) v)" if "k < length v" "IsSeparator (v ! k)" for k
    using that by (simp flip: Cons_nth_drop_Suc)
  show ?thesis
  proof (cases "IsDrivePrefix v")
    case True
    then show ?thesis using c [of 2] drive_length [OF True]
      by (simp add: SplitNormalizedComponents_def SplitComponents_loop_components parts_def numeral_3_eq_3)
  next
    case False
    then show ?thesis using c [of 0]
      by (cases v) (auto simp: SplitNormalizedComponents_def SplitComponents_loop_components parts_def drive_def)
  qed
qed

lemma LexicallyRelativeTo_parts:
  assumes "IsAbsolute p" "IsAbsolute base" "drive p = drive base"
  shows "\<exists>n. n \<le> length (collapse True (parts p)) \<and> n \<le> length (collapse True (parts base)) \<and>
    take n (collapse True (parts p)) = take n (collapse True (parts base)) \<and>
    components (LexicallyRelativeTo p base) =
      (let ss = replicate (length (collapse True (parts base)) - n) ''..'' @ drop n (collapse True (parts p))
       in if ss = [] then [''.''] else ss)"
proof -
  have dp: "IsDrivePrefix (Normalize v) \<longrightarrow> IsDrivePrefix v" if "IsAbsolute v" for v
    using that IsDrivePrefix_absolute by (auto simp: Normalize_exact [of v] drive_def)
  note rp = read_Normalize [OF dp [OF assms(1)]] and rb = read_Normalize [OF dp [OF assms(2)]]
  let ?ls = "collapse True (parts p)" and ?rs = "collapse True (parts base)"
  let ?n = "CommonParts ?ls ?rs 0"
  let ?ss = "replicate (length ?rs - ?n) ''..'' @ drop ?n ?ls"
  have n: "take ?n ?ls = take ?n ?rs" "?n \<le> length ?ls" "?n \<le> length ?rs"
    using CommonParts_prefix [of 0 ?ls ?rs] by auto
  have dd: "drive (Normalize p) = drive (Normalize base)" using rp(1) rb(1) assms(3) by simp
  then have "IsDrivePrefix (Normalize p) \<longleftrightarrow> IsDrivePrefix (Normalize base)"
    by (metis IsDrivePrefix_drive drive_def list.size(3) zero_neq_numeral)
  moreover have "IsDrivePrefix (Normalize p) \<Longrightarrow> Normalize p ! 0 = Normalize base ! 0"
    using dd calculation by (metis drive_def nth_take zero_less_numeral)
  ultimately have "LexicallyRelativeTo p base = (if ?ss = [] then ''.'' else slash_join ?ss)"
    using rp(2,3) rb(2,3) assms WriteParts_append [of "[]" False "replicate (length ?rs - ?n) ''..''" "drop ?n ?ls"]
      WriteParts_exact [of ?ss]
    by (auto simp: LexicallyRelativeTo_def LexicallyNormal_def SplitNormalizedComponents_parts Let_def split: prod.splits)
  moreover have "list_all name_ok ?ss"
  proof -
    have "list_all name_ok (drop ?n ?ls)" using collapse_ok [of True p] by (metis append_take_drop_id list_all_append)
    moreover have "name_ok ''..''" by (simp add: name_ok_def IsSeparator_def)
    ultimately show ?thesis by (auto simp: list_all_iff)
  qed
  moreover have "name_ok ''.''" by (simp add: name_ok_def IsSeparator_def)
  ultimately have "components (LexicallyRelativeTo p base) = (let ss = ?ss in if ss = [] then [''.''] else ss)"
    by (simp add: components_slash_join components_names Let_def del: append_is_Nil_conv)
  with n show ?thesis by blast
qed

lemma components_append_last: "w = [] \<or> IsSeparator (last w) \<Longrightarrow> components (w @ s) = components w @ components s"
proof (cases w rule: rev_cases)
  case (snoc u c)
  moreover assume "w = [] \<or> IsSeparator (last w)"
  ultimately show ?thesis using components_append_sep [of c u s] components_append_sep [of c u "[]"] by simp
qed simp

lemma components_trailing: "IsSeparator c \<Longrightarrow> components (w @ [c]) = components w"
  using components_append_sep [of c w "[]"] by simp

lemma components_Append:
  assumes "k \<le> length v"
  shows "components (drop k (Append v s)) = components (drop k v) @ components s"
proof (cases "s = [] \<or> v = []")
  case True
  then show ?thesis using assms by (auto simp: Append_def)
next
  case False
  define w where "w = (if IsSeparator (last v) then v else v @ ''/'')"
  have "Append v s = w @ s" using False by (simp add: Append_def last_conv_nth w_def)
  moreover have "drop k (w @ s) = drop k w @ s" using assms by (simp add: w_def)
  moreover have "IsSeparator (last w)" by (simp add: w_def)
  then have "drop k w = [] \<or> IsSeparator (last (drop k w))" by (cases "k < length w") (simp_all add: last_drop)
  then have "components (drop k w @ s) = components (drop k w) @ components s"
    by (rule components_append_last)
  moreover have "components (drop k w) = components (drop k v)"
    using assms by (simp add: w_def components_trailing)
  ultimately show ?thesis by simp
qed

lemma absolute_append:
  assumes "IsAbsolute v"
  shows "IsAbsolute (v @ x) \<and> drive (v @ x) = drive v"
proof (cases "IsDrivePrefix v")
  case True
  then show ?thesis using assms by (auto simp: IsAbsolute_def IsDrivePrefix_def drive_def nth_append)
next
  case False
  then have "v \<noteq> []" "IsSeparator (hd v)" using assms by (auto simp: IsAbsolute_def split: if_splits)
  moreover from this have "\<not> IsDrivePrefix (v @ x)"
    by (cases v) (auto simp: IsDrivePrefix_def IsSeparator_def isalpha_def char_arith)
  ultimately show ?thesis using False by (auto simp: IsAbsolute_def drive_def)
qed

lemma Append_prefix: "\<exists>x. Append v s = v @ x"
  by (simp add: Append_def)

lemma drive_le: "length (drive v) \<le> length v"
  by (simp add: drive_def IsDrivePrefix_def)

lemma Join_absolute:
  assumes "IsAbsolute v"
  shows "IsAbsolute (Join v s) \<and> drive (Join v s) = drive v \<and> parts (Join v s) = parts v @ components s"
proof -
  obtain x where "Append v s = v @ x" using Append_prefix by blast
  then have "IsAbsolute (Append v s)" "drive (Append v s) = drive v" using absolute_append [OF assms] by simp_all
  then show ?thesis using components_Append [OF drive_le] by (simp add: Join_def parts_def)
qed

text \<open>
  Unless dropping a leading \<open>./\<close> turned the path into a drive path, normalising twice is normalising
  once and the result, read back as a path, denotes what the input denotes.
\<close>

lemma Normalize_idempotent:
  assumes "IsDrivePrefix (Normalize v) \<longrightarrow> IsDrivePrefix v"
  shows "Normalize (Normalize v) = Normalize v \<and> denotes (Normalize v) cwd = denotes v cwd"
  using read_Normalize [OF assms] Normalize_exact [of v] Normalize_exact [of "Normalize v"]
    collapse_idem [OF collapse_normal, of "IsAbsolute v" v] collapse_walk [of "IsAbsolute v" cwd v]
  by (simp add: denotes_def)

text \<open>
  C9: \<open>Normalize\<close> writes the drive and the root of its input and behind them a normal form (no empty, \<open>.\<close> or inner \<open>..\<close>
  component, and no \<open>..\<close> at all in an absolute path) joined by single slashes; the components it writes
  lead from every working directory to the directory the components of the input lead to. Read back as a path, the
  result has the same drive, is absolute exactly when the input is, denotes the same directory and is its own
  normal form, unless the input has no drive and the first component that is left looks like one, as in \<open>./C:/x\<close>.
\<close>

theorem Normalize_normal:
  "\<exists>ss. Normalize v = build (drive v) (IsAbsolute v) ss \<and> normal_parts (IsAbsolute v) ss \<and>
     (\<forall>cwd. walk (if IsAbsolute v then [] else cwd) ss = denotes v cwd) \<and>
     ((IsDrivePrefix (Normalize v) \<longrightarrow> IsDrivePrefix v) \<longrightarrow>
        drive (Normalize v) = drive v \<and> (IsAbsolute (Normalize v) \<longleftrightarrow> IsAbsolute v) \<and> parts (Normalize v) = ss \<and>
        Normalize (Normalize v) = Normalize v \<and> (\<forall>cwd. denotes (Normalize v) cwd = denotes v cwd))"
  using Normalize_exact [of v] collapse_normal [of "IsAbsolute v" v] collapse_walk [of "IsAbsolute v" _ v]
    read_Normalize [of v] Normalize_idempotent [of v]
  by (intro exI [of _ "collapse (IsAbsolute v) (parts v)"]) (auto simp: denotes_def)

theorem Normalize_normal_witness:
  "Normalize ''a/../b'' = ''b'' \<and> \<not> IsAbsolute (Normalize ''a/../b'') \<and> parts (Normalize ''a/../b'') = [''b''] \<and>
   Normalize (Normalize ''a/../b'') = Normalize ''a/../b'' \<and> (\<forall>cwd. denotes (Normalize ''a/../b'') cwd = denotes ''a/../b'' cwd)"
proof -
  have n: "Normalize ''a/../b'' = ''b''" by code_simp
  then have "\<not> IsDrivePrefix (Normalize ''a/../b'')" by (simp add: IsDrivePrefix_def)
  moreover have "\<not> IsAbsolute ''a/../b''" "parts ''b'' = [''b'']" by code_simp+
  ultimately show ?thesis using Normalize_normal [of "''a/../b''"] n by auto
qed

text \<open>
  C20: For absolute paths with the same drive, joining the relative path to its base gives the target
  again, up to normalisation.
\<close>

theorem LexicallyRelativeTo_Join:
  assumes "IsAbsolute p" "IsAbsolute base" "drive p = drive base"
  shows "Normalize (Join base (LexicallyRelativeTo p base)) = Normalize p"
proof -
  let ?ls = "collapse True (parts p)" and ?rs = "collapse True (parts base)"
  obtain n where n: "n \<le> length ?ls" "n \<le> length ?rs" "take n ?ls = take n ?rs"
    "components (LexicallyRelativeTo p base) =
      (let ss = replicate (length ?rs - n) ''..'' @ drop n ?ls in if ss = [] then [''.''] else ss)"
    using LexicallyRelativeTo_parts [OF assms] by blast
  have real: "list_all real_name (collapse True (parts v))" for v
    using collapse_normal [of True v] by (simp add: normal_parts_def)
  have "collapse True (parts (Join base (LexicallyRelativeTo p base))) =
      foldl (PushSegment True) ?rs (components (LexicallyRelativeTo p base))"
    using Join_absolute [OF assms(2)] by simp
  also have "\<dots> = foldl (PushSegment True) ?rs (replicate (length ?rs - n) ''..'' @ drop n ?ls)"
    by (simp add: n(4) Let_def PushSegment_def)
  also have "\<dots> = take n ?rs @ drop n ?ls"
    using foldl_PushSegment_up [OF real, of "length ?rs - n" base True] n(2)
      foldl_PushSegment_real [of "drop n ?ls" True "take n ?rs"] real [of p]
    by (simp add: list_all_iff in_set_dropD)
  also have "\<dots> = ?ls" using n(3) by (metis append_take_drop_id)
  finally show ?thesis using Join_absolute [OF assms(2)] assms
    by (simp add: Normalize_exact)
qed

theorem LexicallyRelativeTo_Join_witness:
  "IsAbsolute ''/a/b'' \<and> IsAbsolute ''/a/c/d'' \<and> drive ''/a/b'' = drive ''/a/c/d'' \<and>
   Normalize (Join ''/a/c/d'' (LexicallyRelativeTo ''/a/b'' ''/a/c/d'')) = Normalize ''/a/b''"
proof -
  have "IsAbsolute ''/a/b''" "IsAbsolute ''/a/c/d''" "drive ''/a/b'' = drive ''/a/c/d''" by code_simp+
  with LexicallyRelativeTo_Join [OF this] show ?thesis by blast
qed

section \<open>Names\<close>

lemma find_last_upto_None: "find_last_upto P v n = None \<longleftrightarrow> (\<forall>i < min n (length v). \<not> P (v ! i))"
  by (induction n) (auto simp: less_Suc_eq)

lemma find_last_upto_Some:
  "find_last_upto P v n = Some i \<Longrightarrow> i < n \<and> i < length v \<and> P (v ! i) \<and> (\<forall>j. i < j \<and> j < n \<and> j < length v \<longrightarrow> \<not> P (v ! j))"
  by (induction n) (auto simp: less_Suc_eq split: if_splits)

text \<open>A search that finds nothing, and one that finds the last occurrence.\<close>

lemma find_last_of_None: "find_last_of P v (n - 1) = None \<Longrightarrow> 0 < n \<Longrightarrow> n \<le> length v \<Longrightarrow> \<forall>c\<in>set (take n v). \<not> P c"
  by (auto simp: find_last_of_def find_last_upto_None in_set_conv_nth)

lemma find_last_of_Some:
  assumes "find_last_of P v (n - 1) = Some i" "0 < n" "n \<le> length v"
  shows "i < n \<and> P (v ! i) \<and> take n v = take i v @ v ! i # substr v (i + 1) (n - i - 1) \<and>
    (\<forall>c\<in>set (substr v (i + 1) (n - i - 1)). \<not> P c)"
proof -
  have i: "i < n" "P (v ! i)" "\<forall>j. i < j \<and> j < n \<longrightarrow> \<not> P (v ! j)"
    using find_last_upto_Some [of P v n i] assms by (auto simp: find_last_of_def)
  have "take n v = take (i + 1) v @ take (n - (i + 1)) (drop (i + 1) v)"
    using i(1) by (metis Suc_eq_plus1 Suc_leI le_add_diff_inverse take_add)
  then have "take n v = take i v @ v ! i # substr v (i + 1) (n - i - 1)"
    using i(1) assms(3) by (simp add: take_Suc_conv_app_nth substr_def)
  moreover have "\<forall>c\<in>set (substr v (i + 1) (n - i - 1)). \<not> P c"
    using i(3) by (auto simp: substr_def in_set_conv_nth)
  ultimately show ?thesis using i by blast
qed

lemma TrimSeparators_le: "TrimSeparators v l n \<le> n"
  by (induction n) auto

lemma TrimSeparators_lower: "l \<le> n \<Longrightarrow> l \<le> TrimSeparators v l n"
  by (induction n) (auto simp: le_Suc_eq)

lemma TrimSeparators_stop: "TrimSeparators v l n = l \<or> TrimSeparators v l n = 0 \<or> TrimSeparators v l n < l \<or>
     0 < TrimSeparators v l n \<and> nonsep (v ! (TrimSeparators v l n - 1))"
  by (induction n) auto

lemma components_take_Trim: "n \<le> length v \<Longrightarrow> components (take (TrimSeparators v l n) v) = components (take n v)"
  by (induction n) (auto simp: take_Suc_conv_app_nth components_trailing)

lemma nonsep_name: "s \<noteq> [] \<Longrightarrow> \<forall>c\<in>set s. nonsep c \<Longrightarrow> name_ok s"
  by (simp add: name_ok_def list_all_iff)

text \<open>The text before the last name, and the last name.\<close>

lemma last_name:
  assumes "e = TrimSeparators v 0 (length v)" "0 < e"
  shows "\<exists>start < e. FindFilenameStart v e = Some start \<and> name_ok (substr v start (e - start)) \<and>
    Filename v = substr v start (e - start) \<and> (start = 0 \<or> IsSeparator (v ! (start - 1))) \<and>
    components v = components (take start v) @ [Filename v]"
proof -
  have e: "e \<le> length v" "nonsep (v ! (e - 1))"
    using assms TrimSeparators_le TrimSeparators_stop [of v 0 "length v"] by auto
  have ne: "v \<noteq> []" using assms e by auto
  have cv: "components v = components (take e v)" using assms components_take_Trim [of "length v" v 0] by simp
  have f: "Filename v = (case find_last_of IsSeparator v (e - 1) of None \<Rightarrow> substr v 0 e
      | Some pos \<Rightarrow> substr v (pos + 1) (e - pos - 1))"
    using ne assms(2) by (simp add: Filename_def Let_def assms(1) [symmetric])
  show ?thesis
  proof (cases "find_last_of IsSeparator v (e - 1)")
    case None
    then have "name_ok (take e v)" using find_last_of_None [OF None assms(2) e(1)] assms(2) ne by (intro nonsep_name) auto
    then show ?thesis using None assms(2) f cv
      by (intro exI [of _ 0]) (simp add: FindFilenameStart_def substr_def components_names)
  next
    case (Some pos)
    note p = find_last_of_Some [OF Some assms(2) e(1)]
    have "pos \<noteq> e - 1" using p e(2) by auto
    then have lt: "pos + 1 < e" using conjunct1 [OF p] by linarith
    then have n: "name_ok (substr v (pos + 1) (e - pos - 1))"
      using p e(1) by (intro nonsep_name) (auto simp: substr_def)
    have "components v = components (take pos v) @ [substr v (pos + 1) (e - pos - 1)]"
      using cv p components_names [OF n] by (simp add: components_append_sep)
    moreover have "components (take (pos + 1) v) = components (take pos v)"
      using p lt e(1) by (simp add: take_Suc_conv_app_nth components_trailing)
    ultimately show ?thesis using Some lt p n f
      by (intro exI [of _ "pos + 1"]) (simp add: FindFilenameStart_def)
  qed
qed

lemma all_separators: "TrimSeparators v 0 (length v) = 0 \<Longrightarrow> components v = []"
  using components_take_Trim [of "length v" v 0] by simp

lemma Filename_last: "Filename v = (if components v = [] then [] else last (components v))"
proof (cases "TrimSeparators v 0 (length v) = 0")
  case True
  then show ?thesis using all_separators [OF True] by (simp add: Filename_def Let_def)
next
  case False
  then show ?thesis using last_name [OF refl, of v] by auto
qed

section \<open>Parents\<close>

lemma Parent_cases:
  assumes "e = TrimSeparators v 0 (length v)" "0 < e" "FindFilenameStart v e = Some start"
  shows "start = 0 \<Longrightarrow> Parent v = (if IsDrivePrefix v then if IsAbsolute v then take 3 v else take 2 v
      else if IsAbsolute v then ''/'' else [])"
    "0 < start \<Longrightarrow> Parent v = take (TrimSeparators v (if IsAbsolute v then if IsDrivePrefix v then 3 else 1 else 0) start) v"
proof -
  have ne: "v \<noteq> []" using assms by auto
  show "start = 0 \<Longrightarrow> Parent v = (if IsDrivePrefix v then if IsAbsolute v then take 3 v else take 2 v
      else if IsAbsolute v then ''/'' else [])"
    using ne assms(2,3) by (auto simp: Parent_def Let_def assms(1) [symmetric] IsAbsolute_def substr_def)
  show "0 < start \<Longrightarrow> Parent v = take (TrimSeparators v (if IsAbsolute v then if IsDrivePrefix v then 3 else 1 else 0) start) v"
  proof -
    assume "0 < start"
    moreover have "IsDrivePrefix v \<Longrightarrow> nonsep (hd v)"
      using ne by (auto simp: IsDrivePrefix_def IsSeparator_def isalpha_def char_arith hd_conv_nth)
    ultimately show ?thesis
      using ne assms(2,3) by (auto simp: Parent_def Let_def assms(1) [symmetric] IsAbsolute_def substr_def)
  qed
qed

lemma Parent_separators: "v \<noteq> [] \<Longrightarrow> TrimSeparators v 0 (length v) = 0 \<Longrightarrow> Parent v = [hd v] \<and> IsSeparator (hd v)"
proof -
  assume v: "v \<noteq> []" "TrimSeparators v 0 (length v) = 0"
  have "components v = []" using all_separators [OF v(2)] .
  then have "IsSeparator (hd v)" using v(1) components_name by (cases v) force+
  then show ?thesis using v by (cases v) (simp_all add: Parent_def substr_def)
qed

text \<open>
  For a path without a drive, \<open>Parent\<close> drops the last component and keeps whether the path is
  absolute.
\<close>

lemma Parent_components:
  assumes "\<not> IsDrivePrefix v"
  shows "components (Parent v) = butlast (components v) \<and> IsAbsolute (Parent v) = IsAbsolute v"
proof (cases "v = [] \<or> TrimSeparators v 0 (length v) = 0")
  case True
  then show ?thesis using Parent_separators [of v] all_separators [of v] assms
    by (cases "v = []") (auto simp: Parent_def IsAbsolute_def IsDrivePrefix_def)
next
  case False
  let ?e = "TrimSeparators v 0 (length v)"
  have pos: "0 < ?e" using False by simp
  obtain start where s: "start < ?e" "FindFilenameStart v ?e = Some start" "start = 0 \<or> IsSeparator (v ! (start - 1))"
    "components v = components (take start v) @ [Filename v]"
    using last_name [OF refl pos] by blast
  have le: "start \<le> length v" using s(1) TrimSeparators_le [of v 0 "length v"] by simp
  note p = Parent_cases [OF refl pos s(2)]
  show ?thesis
  proof (cases "start = 0")
    case True
    then show ?thesis using p(1) s(4) assms
      by (auto simp: IsAbsolute_def IsDrivePrefix_def)
  next
    case False
    let ?l = "if IsAbsolute v then 1 else 0"
    let ?n = "TrimSeparators v ?l start"
    have "Parent v = take ?n v" using p(2) False assms by simp
    moreover have "components (take ?n v) = butlast (components v)" using components_take_Trim [OF le, of ?l] s(4) by simp
    moreover have "IsAbsolute (take ?n v) = IsAbsolute v"
    proof (cases "IsAbsolute v")
      case True
      then have "1 \<le> ?n" using False TrimSeparators_lower [of 1 start v] by simp
      then show ?thesis using True assms by (cases v; cases ?n) (auto simp: IsAbsolute_def IsDrivePrefix_def split: if_splits)
    next
      case False
      then show ?thesis using assms by (cases v; cases ?n) (auto simp: IsAbsolute_def IsDrivePrefix_def split: if_splits)
    qed
    ultimately show ?thesis by simp
  qed
qed

lemma Parent_components_witness:
  "\<not> IsDrivePrefix ''/a/b/'' \<and> components (Parent ''/a/b/'') = butlast (components ''/a/b/'') \<and>
   IsAbsolute (Parent ''/a/b/'') = IsAbsolute ''/a/b/''"
proof -
  have "\<not> IsDrivePrefix ''/a/b/''" by code_simp
  with Parent_components [OF this] show ?thesis by blast
qed

text \<open>The top of a walk up: nothing, one separator, a drive or the root of a drive.\<close>

definition top_path :: "Path \<Rightarrow> bool" where
  "top_path v \<longleftrightarrow> v = [] \<or> (length v = 1 \<and> IsSeparator (hd v)) \<or> (IsDrivePrefix v \<and> (length v = 2 \<or> IsRoot v))"

lemma Parent_progress: "length (Parent v) < length v \<or> Parent v = v \<and> top_path v"
proof (cases "v = [] \<or> TrimSeparators v 0 (length v) = 0")
  case True
  then show ?thesis using Parent_separators [of v]
    by (cases v rule: remdups_adj.cases) (auto simp: Parent_def top_path_def)
next
  case False
  let ?e = "TrimSeparators v 0 (length v)"
  have pos: "0 < ?e" using False by simp
  obtain start where s: "start < ?e" "FindFilenameStart v ?e = Some start" "name_ok (substr v start (?e - start))"
    using last_name [OF refl pos] by blast
  have le: "?e \<le> length v" by (rule TrimSeparators_le)
  note p = Parent_cases [OF refl pos s(2)]
  show ?thesis
  proof (cases "start = 0")
    case True
    then have "nonsep (hd v)" using s(3) pos False by (cases v; cases ?e) (auto simp: substr_def name_ok_def)
    moreover have "IsDrivePrefix v \<Longrightarrow> 2 \<le> length v" using drive_length by blast
    moreover have "IsDrivePrefix v \<Longrightarrow> IsAbsolute v \<Longrightarrow> 3 \<le> length v \<and> IsSeparator (v ! 2)"
      by (auto simp: IsAbsolute_def split: if_splits)
    ultimately show ?thesis using p(1) True False
      by (auto simp: top_path_def IsRoot_def IsAbsolute_def)
  next
    case False
    then have "length (Parent v) \<le> start" using p(2) by (simp add: TrimSeparators_le min.coboundedI2)
    then show ?thesis using s(1) le by simp
  qed
qed

text \<open>
  Walking up with \<open>Parent\<close> ends: after at most as many steps as the path has characters it stands
  still, at the empty path, a root or a drive.
\<close>

lemma Parent_reaches_top: "\<exists>n \<le> length v. top_path ((Parent ^^ n) v) \<and> Parent ((Parent ^^ n) v) = (Parent ^^ n) v"
proof (induction "length v" arbitrary: v rule: less_induct)
  case less
  show ?case
  proof (cases "length (Parent v) < length v")
    case True
    then obtain n where n: "n \<le> length (Parent v)" "top_path ((Parent ^^ n) (Parent v))"
      "Parent ((Parent ^^ n) (Parent v)) = (Parent ^^ n) (Parent v)" using less by blast
    then show ?thesis using True by (intro exI [of _ "Suc n"]) (simp add: funpow_swap1)
  next
    case False
    then show ?thesis using Parent_progress [of v] by (intro exI [of _ 0]) simp
  qed
qed

text \<open>
  \<open>Filename\<close> is the last component, and \<open>Stem\<close> and \<open>Extension\<close> split it at its last dot unless that
  dot comes first or does not exist.
\<close>

lemma Filename_exact:
  "Filename v = (if components v = [] then [] else last (components v)) \<and>
   (Stem v = Filename v \<and> Extension v = [] \<and> CHR ''.'' \<notin> set (tl (Filename v)) \<or>
    Filename v = Stem v @ ''.'' @ Extension v \<and> Stem v \<noteq> [] \<and> CHR ''.'' \<notin> set (Extension v))"
proof -
  let ?name = "Filename v"
  have "Stem v = ?name \<and> Extension v = [] \<and> CHR ''.'' \<notin> set (tl ?name) \<or>
    ?name = Stem v @ ''.'' @ Extension v \<and> Stem v \<noteq> [] \<and> CHR ''.'' \<notin> set (Extension v)"
  proof (cases "?name = []")
    case True
    then show ?thesis by (simp add: Stem_def Extension_def)
  next
    case False
    have eq: "LastDot ?name = find_last_of (\<lambda>c. c = CHR ''.'') ?name (length ?name - 1)"
      using False by (simp add: find_last_of_def)
    show ?thesis
    proof (cases "LastDot ?name")
      case None
      then have "CHR ''.'' \<notin> set ?name" using find_last_of_None [of _ ?name "length ?name"] eq False by auto
      then show ?thesis using None False by (auto simp: Stem_def Extension_def dest: list.set_sel(2))
    next
      case (Some dot)
      have "0 < length ?name" using False by simp
      note p = find_last_of_Some [OF Some [unfolded eq] this order_refl]
      have "substr ?name (dot + 1) (length ?name - dot - 1) = drop (dot + 1) ?name" by (simp add: substr_def)
      with p have d: "take dot ?name @ CHR ''.'' # drop (dot + 1) ?name = ?name" "dot < length ?name"
        "CHR ''.'' \<notin> set (drop (dot + 1) ?name)"
        by (metis take_all_iff order_refl)+
      have st: "Stem v = (if dot = 0 then ?name else take dot ?name)"
        "Extension v = (if dot = 0 then [] else drop (dot + 1) ?name)"
        using Some False by (simp_all add: Stem_def Extension_def substr_def Let_def)
      show ?thesis
      proof (cases "dot = 0")
        case True
        then show ?thesis using d(3) st by (simp add: drop_Suc)
      next
        case False
        then show ?thesis using d st by (intro disjI2) (simp, auto)
      qed
    qed
  qed
  then show ?thesis using Filename_last by blast
qed

section \<open>Inputs on which the operations misbehave\<close>

text \<open>
  The start of the file name is computed from the end of the text, so a trailing separator shifts the cut
  of \<open>ReplaceExtension\<close>.
\<close>

lemma ReplaceExtension_trailing_separator: "ReplaceExtension ''d/f.txt/'' ''md'' = ''d/f..md''"
  by code_simp

text \<open>Dropping a leading \<open>./\<close> can make a drive path of a relative path: the hypothesis of idempotence is needed.\<close>

lemma Normalize_makes_drive: "IsRelative ''./C:/x'' \<and> IsAbsolute (Normalize ''./C:/x'')"
  by code_simp

end
