(* ===== verification/Net_Charconv.thy ===== *)
theory Net_Charconv
  imports Digits
begin

text \<open>
  What the network address code uses of the standard library: \<open>std::from_chars\<close> and \<open>std::to_chars\<close>
  for unsigned integers, and \<open>std::string_view::find\<close>. A number is read from the longest prefix of
  digits; without a digit the result is \<open>invalid_argument\<close> with the pointer at the start, and a value
  that does not fit the type is \<open>result_out_of_range\<close> with the pointer behind the digits.
\<close>

section \<open>Definitions\<close>

datatype errc = ErrcNone | invalid_argument | result_out_of_range

definition digit_value :: "char \<Rightarrow> nat option" where
  "digit_value c =
     (if between (CHR ''0'') (CHR ''9'') c then Some (ord c - ord (CHR ''0''))
      else if between (CHR ''a'') (CHR ''z'') c then Some (ord c - ord (CHR ''a'') + 10)
      else if between (CHR ''A'') (CHR ''Z'') c then Some (ord c - ord (CHR ''A'') + 10)
      else None)"

definition is_digit :: "nat \<Rightarrow> char \<Rightarrow> bool" where
  "is_digit B c \<longleftrightarrow> (case digit_value c of None \<Rightarrow> False | Some d \<Rightarrow> d < B)"

text \<open>\<open>from_chars\<close> for an unsigned type of \<open>w\<close> bits: the error code, the length read, the value.\<close>

definition from_chars :: "nat \<Rightarrow> nat \<Rightarrow> string \<Rightarrow> errc \<times> nat \<times> nat" where
  "from_chars w B tx =
     (let ds = takeWhile (is_digit B) tx; v = be_val B 0 (map (the \<circ> digit_value) ds) in
      if ds = [] then (invalid_argument, 0, 0)
      else if 2 ^ w \<le> v then (result_out_of_range, length ds, 0)
      else (ErrcNone, length ds, v))"

definition digit_char :: "nat \<Rightarrow> char" where
  "digit_char d = chr (if d < 10 then d + ord (CHR ''0'') else d - 10 + ord (CHR ''a''))"

definition to_chars :: "nat \<Rightarrow> nat \<Rightarrow> string" where
  "to_chars B n = map digit_char (if n = 0 then [0] else be_digits B n)"

text \<open>\<open>text.find(c, pos)\<close>, \<open>text.rfind(c)\<close> and \<open>text.find("::", pos)\<close>.\<close>

definition find_char :: "char \<Rightarrow> string \<Rightarrow> nat \<Rightarrow> nat option" where
  "find_char c tx pos =
     (let n = pos + length (takeWhile (\<lambda>x. x \<noteq> c) (drop pos tx)) in if n < length tx then Some n else None)"

definition rfind_char :: "char \<Rightarrow> string \<Rightarrow> nat option" where
  "rfind_char c tx =
     (let n = length (takeWhile (\<lambda>x. x \<noteq> c) (rev tx)) in if n < length tx then Some (length tx - 1 - n) else None)"

function find_colons :: "string \<Rightarrow> nat \<Rightarrow> nat option" where
  "find_colons tx pos =
     (if pos + 2 \<le> length tx then if take 2 (drop pos tx) = ''::'' then Some pos else find_colons tx (pos + 1)
      else None)"
  by pat_completeness auto
termination
  by (relation "measure (\<lambda>(tx, pos). length tx - pos)") auto

declare find_colons.simps [simp del]

section \<open>Digits\<close>

lemma digit_value_char: "d < 36 \<Longrightarrow> digit_value (digit_char d) = Some d"
  by (auto simp: digit_value_def digit_char_def char_arith)

lemma digit_value_less: "digit_value c = Some d \<Longrightarrow> d < 36"
  by (auto simp: digit_value_def char_arith split: if_splits)

lemma is_digit_char: "d < B \<Longrightarrow> B \<le> 36 \<Longrightarrow> is_digit B (digit_char d)"
  by (simp add: is_digit_def digit_value_char)

lemma to_chars_digits: "2 \<le> B \<Longrightarrow> B \<le> 36 \<Longrightarrow> \<forall>c\<in>set (to_chars B n). is_digit B c"
  by (auto simp: to_chars_def is_digit_char dest: be_digits_less)

lemma to_chars_nonempty [simp]: "2 \<le> B \<Longrightarrow> to_chars B n \<noteq> []"
  by (simp add: to_chars_def be_digits_eq_Nil)

lemma to_chars_value:
  assumes "2 \<le> B" "B \<le> 36"
  shows "be_val B 0 (map (the \<circ> digit_value) (to_chars B n)) = n"
proof -
  have "map (the \<circ> digit_value) (map digit_char ds) = ds" if "\<forall>d\<in>set ds. d < B" for ds
    using that assms(2) by (induction ds) (auto simp: digit_value_char)
  then show ?thesis using assms be_val_digits [OF assms(1), of n] be_digits_less [of _ B n]
    by (auto simp: to_chars_def)
qed

lemma length_to_chars: "2 \<le> B \<Longrightarrow> n < B ^ k \<Longrightarrow> 0 < k \<Longrightarrow> length (to_chars B n) \<le> k"
  using length_be_digits [of B n k] by (simp add: to_chars_def)

lemma to_chars_hd: "2 \<le> B \<Longrightarrow> B \<le> 36 \<Longrightarrow> 1 < length (to_chars B n) \<Longrightarrow> hd (to_chars B n) \<noteq> CHR ''0''"
proof -
  assume a: "2 \<le> B" "B \<le> 36" "1 < length (to_chars B n)"
  then have n: "0 < n" "be_digits B n \<noteq> []" by (auto simp: to_chars_def be_digits_eq_Nil split: if_splits)
  let ?d = "hd (be_digits B n)"
  have "?d < B" using n be_digits_less [of ?d B n] by simp
  then have "digit_value (digit_char ?d) = Some ?d" using a by (simp add: digit_value_char)
  moreover have "?d \<noteq> 0" using be_digits_hd a n by blast
  moreover have "digit_value (CHR ''0'') = Some 0" by (simp add: digit_value_def char_arith)
  ultimately show ?thesis using n by (auto simp: to_chars_def hd_map)
qed

text \<open>Reading what was written.\<close>

lemma from_to_chars:
  assumes "2 \<le> B" "B \<le> 36" "n < 2 ^ w"
  shows "from_chars w B (to_chars B n) = (ErrcNone, length (to_chars B n), n)"
proof -
  have t: "takeWhile (is_digit B) (to_chars B n) = to_chars B n"
    using to_chars_digits [OF assms(1,2)] by simp
  show ?thesis using assms to_chars_value [OF assms(1,2), of n] by (simp add: from_chars_def Let_def t)
qed

text \<open>Success: all of the text is digits and the value is the one read.\<close>

lemma from_chars_length: "from_chars w B tx = (ec, n, v) \<Longrightarrow> n \<le> length tx"
  by (auto simp: from_chars_def Let_def length_takeWhile_le split: if_splits)

lemma from_chars_value: "from_chars w B tx = (ec, n, v) \<Longrightarrow> v < 2 ^ w"
  by (auto simp: from_chars_def Let_def not_le split: if_splits)

lemma from_chars_all:
  assumes "from_chars w B tx = (ErrcNone, length tx, v)"
  shows "(\<forall>c\<in>set tx. is_digit B c) \<and> v = be_val B 0 (map (the \<circ> digit_value) tx) \<and> tx \<noteq> []"
proof -
  have "length (takeWhile (is_digit B) tx) = length tx" "takeWhile (is_digit B) tx \<noteq> []"
    using assms by (auto simp: from_chars_def Let_def split: if_splits)
  moreover from this have t: "takeWhile (is_digit B) tx = tx" by (metis takeWhile_eq_take take_all order_refl)
  moreover have "\<forall>c\<in>set tx. is_digit B c" using t by simp
  ultimately show ?thesis using assms by (simp add: from_chars_def Let_def t split: if_splits)
qed

text \<open>A decimal numeral without a leading zero is the one \<open>to_chars\<close> writes.\<close>

lemma digit_char_value: "digit_value c = Some d \<Longrightarrow> d < 10 \<Longrightarrow> digit_char d = c"
  by (rule char_eqI) (auto simp: digit_value_def digit_char_def char_arith split: if_splits)

lemma to_chars_unique:
  assumes "\<forall>c\<in>set tx. is_digit 10 c" "tx \<noteq> []" "length tx > 1 \<longrightarrow> hd tx \<noteq> CHR ''0''"
  shows "to_chars 10 (be_val 10 0 (map (the \<circ> digit_value) tx)) = tx"
proof -
  let ?ds = "map (the \<circ> digit_value) tx"
  have d: "the (digit_value c) < 10 \<and> digit_char (the (digit_value c)) = c" if "c \<in> set tx" for c
    using assms(1) that digit_char_value [of c] by (auto simp: is_digit_def split: option.splits)
  then have m: "map digit_char ?ds = tx" by (induction tx) auto
  have zero: "digit_char 0 = CHR ''0''" by (rule char_eqI) (simp add: digit_char_def)
  show ?thesis
  proof (cases "be_val 10 0 ?ds = 0")
    case False
    have "hd ?ds mod 10 \<noteq> 0"
    proof
      assume z: "hd ?ds mod 10 = 0"
      then have "the (digit_value (hd tx)) = 0" using d assms(2) by (cases tx) (auto simp: hd_map)
      then have "digit_char 0 = hd tx" using d [of "hd tx"] assms(2) by auto
      then have "hd tx = CHR ''0''" using zero by simp
      then show False using assms(3) assms(2) False z by (cases tx rule: remdups_adj.cases) auto
    qed
    then have "be_digits 10 (be_val 10 0 ?ds) = map (\<lambda>d. d mod 10) ?ds" using be_digits_val [of 10 ?ds] by simp
    also have "\<dots> = ?ds" using d by simp
    finally show ?thesis using False m by (simp add: to_chars_def)
  next
    case True
    have "length tx = 1"
    proof (rule ccontr)
      assume l: "length tx \<noteq> 1"
      then have "hd tx \<noteq> CHR ''0''" using assms(2,3) by (cases tx) auto
      then have "0 < the (digit_value (hd tx))" using d [of "hd tx"] assms(2) zero by (intro gr0I) auto
      moreover have "the (digit_value (hd tx)) mod 10 = the (digit_value (hd tx))" using d [of "hd tx"] assms(2) by simp
      moreover have "be_val 10 0 ?ds = be_val 10 (the (digit_value (hd tx)) mod 10) (tl ?ds)" using assms(2) by (cases tx) auto
      ultimately show False using True be_val_ge [of 10 "the (digit_value (hd tx))" "tl ?ds"] by simp
    qed
    then obtain c where c: "tx = [c]" by (cases tx) auto
    then show ?thesis using True d [of c] by (auto simp: to_chars_def)
  qed
qed

section \<open>Searches\<close>

lemma find_char_None: "find_char c tx 0 = None \<longleftrightarrow> c \<notin> set tx"
proof -
  have "length (takeWhile (\<lambda>x. x \<noteq> c) tx) < length tx \<longleftrightarrow> takeWhile (\<lambda>x. x \<noteq> c) tx \<noteq> tx"
    using length_takeWhile_le [of "\<lambda>x. x \<noteq> c" tx]
    by (metis le_neq_implies_less less_irrefl take_all_iff takeWhile_eq_take order_refl)
  then show ?thesis by (auto simp: find_char_def Let_def takeWhile_eq_all_conv)
qed

lemma find_char_append: "c \<notin> set u \<Longrightarrow> find_char c (p @ u @ c # r) (length p) = Some (length p + length u)"
  by (simp add: find_char_def takeWhile_append)

lemma find_char_end: "c \<notin> set u \<Longrightarrow> find_char c (p @ u) (length p) = None"
proof -
  assume "c \<notin> set u"
  then have t: "takeWhile (\<lambda>x. x \<noteq> c) u = u" by auto
  show ?thesis by (simp add: find_char_def t)
qed

lemma find_char_Some: "find_char c tx pos = Some n \<Longrightarrow> pos \<le> n \<and> n < length tx \<and> tx ! n = c \<and> c \<notin> set (take (n - pos) (drop pos tx))"
proof -
  assume "find_char c tx pos = Some n"
  then have n: "n = pos + length (takeWhile (\<lambda>x. x \<noteq> c) (drop pos tx))" "n < length tx"
    by (auto simp: find_char_def Let_def split: if_splits)
  then have "drop pos tx ! (n - pos) = c"
    using nth_length_takeWhile [of "\<lambda>x. x \<noteq> c" "drop pos tx"] by simp
  moreover have "take (n - pos) (drop pos tx) = takeWhile (\<lambda>x. x \<noteq> c) (drop pos tx)"
    using n(1) by (simp add: takeWhile_eq_take [symmetric])
  ultimately show ?thesis using n by (auto dest: set_takeWhileD)
qed

end
