(* ===== verification/Net_Address.thy ===== *)
theory Net_Address
  imports Net_Charconv
begin

text \<open>
  Numeric addresses and endpoints (\<open>src/NGIN/Net/IpAddress.cpp\<close>, \<open>Endpoint.cpp\<close> and their headers):
  the IPv4 and IPv6 parsers with the offsets of their errors, the canonical formatters writing into a
  fixed array and copying it to the destination, the endpoint syntax with ports and scopes, the hashes.
  A formatter has type \<open>_ option\<close>: \<^term>\<open>None\<close> stands for a write outside its local array.
\<close>

section \<open>Data\<close>

datatype AddressFamily = V4 | V6 | DualStack

datatype AddressParseErrorCode =
  Empty | InvalidFormat | InvalidCharacter | ComponentOutOfRange | MissingPort | PortOutOfRange | InvalidScope

record AddressParseError =
  code :: AddressParseErrorCode
  offset :: nat

definition parse_error :: "AddressParseErrorCode \<Rightarrow> nat \<Rightarrow> AddressParseError" where
  "parse_error c n = \<lparr>code = c, offset = n\<rparr>"

type_synonym 'a AddressExpected = "AddressParseError + 'a"

record IpAddress =
  m_family :: AddressFamily
  m_bytes :: bytes

definition IsV4 :: "IpAddress \<Rightarrow> bool" where
  "IsV4 a \<longleftrightarrow> m_family a = V4"

definition IsV6 :: "IpAddress \<Rightarrow> bool" where
  "IsV6 a \<longleftrightarrow> m_family a = V6"

definition IsValid :: "IpAddress \<Rightarrow> bool" where
  "IsValid a \<longleftrightarrow> IsV4 a \<or> IsV6 a"

definition Bytes :: "IpAddress \<Rightarrow> bytes" where
  "Bytes a = take (if IsV4 a then 4 else 16) (m_bytes a)"

definition AnyV4 :: IpAddress where
  "AnyV4 = \<lparr>m_family = V4, m_bytes = replicate 16 0\<rparr>"

definition AnyV6 :: IpAddress where
  "AnyV6 = \<lparr>m_family = V6, m_bytes = replicate 16 0\<rparr>"

definition LoopbackV4 :: IpAddress where
  "LoopbackV4 = \<lparr>m_family = V4, m_bytes = ((replicate 16 0)[0 := 127])[3 := 1]\<rparr>"

definition LoopbackV6 :: IpAddress where
  "LoopbackV6 = \<lparr>m_family = V6, m_bytes = (replicate 16 0)[15 := 1]\<rparr>"

section \<open>Parsing addresses\<close>

text \<open>One component of a dotted address: the checks of the token and its value.\<close>

definition ParseV4_token :: "string \<Rightarrow> nat \<Rightarrow> nat AddressExpected" where
  "ParseV4_token token base =
     (if token = [] \<or> 1 < length token \<and> hd token = CHR ''0'' then Inl (parse_error InvalidFormat base)
      else case from_chars 32 10 token of (ec, ptr, val) \<Rightarrow>
        if ec = invalid_argument \<or> ptr \<noteq> length token then Inl (parse_error InvalidCharacter (base + ptr))
        else if ec = result_out_of_range \<or> 255 < val then Inl (parse_error ComponentOutOfRange base)
        else Inr val)"

function ParseV4_loop :: "string \<Rightarrow> nat \<Rightarrow> nat \<Rightarrow> nat \<Rightarrow> bytes \<Rightarrow> bytes AddressExpected" where
  "ParseV4_loop tx baseOffset component begin bytes =
     (if component < length bytes then
        let stop = find_char (CHR ''.'') tx begin;
            tokenEnd = (case stop of None \<Rightarrow> length tx | Some e \<Rightarrow> e);
            token = substr tx begin (tokenEnd - begin)
        in case ParseV4_token token (baseOffset + begin) of
             Inl e \<Rightarrow> Inl e
           | Inr val \<Rightarrow>
               let bytes = bytes[component := to_byte val] in
               if component \<noteq> length bytes - 1 \<and> stop = None then Inl (parse_error InvalidFormat (baseOffset + length tx))
               else if component = length bytes - 1 \<and> stop \<noteq> None then Inl (parse_error InvalidFormat (baseOffset + tokenEnd))
               else ParseV4_loop tx baseOffset (component + 1) (tokenEnd + 1) bytes
      else Inr bytes)"
  by pat_completeness auto
termination
  by (relation "measure (\<lambda>(tx, baseOffset, component, begin, bytes). length bytes - component)") auto

declare ParseV4_loop.simps [simp del]

definition ParseV4 :: "string \<Rightarrow> nat \<Rightarrow> bytes AddressExpected" where
  "ParseV4 tx baseOffset = ParseV4_loop tx baseOffset 0 0 (replicate 4 0)"

text \<open>The 16-bit word of two bytes.\<close>

definition word_of_bytes :: "byte \<Rightarrow> byte \<Rightarrow> u16" where
  "word_of_bytes hi lo = to_u16 (push_bit 8 (unat hi) OR unat lo)"

lemma find_char_bounds: "find_char c tx pos = Some n \<Longrightarrow> pos \<le> n \<and> n < length tx"
  using find_char_Some by blast

function ParseV6Side_loop :: "string \<Rightarrow> nat \<Rightarrow> bool \<Rightarrow> nat \<Rightarrow> u16 list \<Rightarrow> u16 list AddressExpected" where
  "ParseV6Side_loop tx baseOffset allowV4 begin words =
     (if begin \<le> length tx then
        let stop = find_char (CHR '':'') tx begin;
            tokenEnd = (case stop of None \<Rightarrow> length tx | Some e \<Rightarrow> e);
            token = substr tx begin (tokenEnd - begin)
        in if token = [] then Inl (parse_error InvalidFormat (baseOffset + begin))
           else if find_char (CHR ''.'') token 0 \<noteq> None then
             if \<not> allowV4 \<or> stop \<noteq> None then Inl (parse_error InvalidFormat (baseOffset + begin))
             else case ParseV4 token (baseOffset + begin) of
                    Inl e \<Rightarrow> Inl e
                  | Inr bytes \<Rightarrow> Inr (words @ [word_of_bytes (bytes ! 0) (bytes ! 1), word_of_bytes (bytes ! 2) (bytes ! 3)])
           else if 4 < length token then Inl (parse_error ComponentOutOfRange (baseOffset + begin))
           else case from_chars 32 16 token of (ec, ptr, val) \<Rightarrow>
             if ec \<noteq> ErrcNone \<or> ptr \<noteq> length token then Inl (parse_error InvalidCharacter (baseOffset + begin + ptr))
             else case stop of
                    None \<Rightarrow> Inr (words @ [to_u16 val])
                  | Some e \<Rightarrow> ParseV6Side_loop tx baseOffset allowV4 (e + 1) (words @ [to_u16 val])
      else Inr words)"
  by pat_completeness auto
termination
  by (relation "measure (\<lambda>(tx, baseOffset, allowV4, begin, words). Suc (length tx) - begin)")
    (auto dest!: find_char_bounds [OF sym])

declare ParseV6Side_loop.simps [simp del]

definition ParseV6Side :: "string \<Rightarrow> nat \<Rightarrow> bool \<Rightarrow> u16 list AddressExpected" where
  "ParseV6Side tx baseOffset allowV4 = (if tx = [] then Inr [] else ParseV6Side_loop tx baseOffset allowV4 0 [])"

text \<open>The loop that stores the words into the array of bytes.\<close>

fun StoreWords :: "u16 list \<Rightarrow> bytes" where
  "StoreWords [] = []"
| "StoreWords (w # ws) = to_byte (drop_bit 8 (unat w)) # to_byte (unat w AND 0xff) # StoreWords ws"

definition ParseV6 :: "string \<Rightarrow> IpAddress AddressExpected" where
  "ParseV6 tx =
     (let compression = find_colons tx 0 in
      if (case compression of None \<Rightarrow> False | Some c \<Rightarrow> find_colons tx (c + 2) \<noteq> None)
      then Inl (parse_error InvalidFormat (the compression + 2))
      else
        let leftText = (case compression of None \<Rightarrow> tx | Some c \<Rightarrow> substr tx 0 c);
            rightText = (case compression of None \<Rightarrow> [] | Some c \<Rightarrow> drop (c + 2) tx)
        in case ParseV6Side leftText 0 (compression = None \<and> rightText = []) of
             Inl e \<Rightarrow> Inl e
           | Inr left \<Rightarrow>
               (case ParseV6Side rightText (case compression of None \<Rightarrow> 0 | Some c \<Rightarrow> c + 2) True of
                  Inl e \<Rightarrow> Inl e
                | Inr right \<Rightarrow>
                    let wordCount = length left + length right in
                    if compression = None \<and> wordCount \<noteq> 8 \<or> compression \<noteq> None \<and> 8 \<le> wordCount
                    then Inl (parse_error InvalidFormat (length tx))
                    else let words = left @ replicate (8 - wordCount) 0 @ right
                         in Inr \<lparr>m_family = V6, m_bytes = StoreWords words\<rparr>))"

definition IpAddress_Parse :: "string \<Rightarrow> IpAddress AddressExpected" where
  "IpAddress_Parse tx =
     (if tx = [] then Inl (parse_error Empty 0)
      else case find_char (CHR ''%'') tx 0 of
        Some n \<Rightarrow> Inl (parse_error InvalidScope n)
      | None \<Rightarrow>
          if find_char (CHR '':'') tx 0 \<noteq> None then ParseV6 tx
          else case ParseV4 tx 0 of
            Inl e \<Rightarrow> Inl e
          | Inr v4 \<Rightarrow> Inr \<lparr>m_family = V4, m_bytes = v4 @ replicate 12 0\<rparr>)"

section \<open>Formatting addresses\<close>

text \<open>
  \<open>std::to_chars\<close> into the rest of the array. When the text does not fit the standard function reports
  an error, which the code does not look at; the model gives \<^term>\<open>None\<close> there.
\<close>

definition AppendDecimal :: "string \<times> nat \<Rightarrow> nat \<Rightarrow> (string \<times> nat) option" where
  "AppendDecimal st val = emit st (to_chars 10 val)"

definition AppendHex :: "string \<times> nat \<Rightarrow> nat \<Rightarrow> (string \<times> nat) option" where
  "AppendHex st val = emit st (to_chars 16 val)"

text \<open>The loops that write the components \<open>first\<close> to \<open>last - 1\<close> of a dotted address.\<close>

function FormatDotted :: "bytes \<Rightarrow> nat \<Rightarrow> nat \<Rightarrow> nat \<Rightarrow> string \<times> nat \<Rightarrow> (string \<times> nat) option" where
  "FormatDotted bs first limit index st =
     (if index < limit then do {
        st \<leftarrow> (if index \<noteq> first then emit st ''.'' else Some st);
        b \<leftarrow> span_at bs index;
        st \<leftarrow> AppendDecimal st (unat b);
        FormatDotted bs first limit (index + 1) st }
      else Some st)"
  by pat_completeness auto
termination
  by (relation "measure (\<lambda>(bs, first, limit, index, st). limit - index)") auto

declare FormatDotted.simps [simp del]

definition IsMapped :: "bytes \<Rightarrow> bool" where
  "IsMapped bs \<longleftrightarrow> list_all (\<lambda>b. b = 0) (take 10 bs) \<and> bs ! 10 = 0xff \<and> bs ! 11 = 0xff"

fun LoadWords :: "bytes \<Rightarrow> u16 list" where
  "LoadWords (hi # lo # bs) = word_of_bytes hi lo # LoadWords bs"
| "LoadWords bs = []"

text \<open>The end of the run of zero words that starts at a position.\<close>

function ZeroRunEnd :: "u16 list \<Rightarrow> nat \<Rightarrow> nat" where
  "ZeroRunEnd words e = (if e < length words \<and> words ! e = 0 then ZeroRunEnd words (e + 1) else e)"
  by pat_completeness auto
termination
  by (relation "measure (\<lambda>(words, e). length words - e)") auto

declare ZeroRunEnd.simps [simp del]

lemma ZeroRunEnd_ge: "e \<le> ZeroRunEnd words e"
  by (induction words e rule: ZeroRunEnd.induct) (subst ZeroRunEnd.simps, force)

lemma ZeroRunEnd_grows: "begin < length words \<Longrightarrow> words ! begin = 0 \<Longrightarrow> begin < ZeroRunEnd words begin"
  using ZeroRunEnd_ge [of "begin + 1" words] by (subst ZeroRunEnd.simps) simp

text \<open>The search for the longest run of at least two zero words, the first of several.\<close>

function BestRun :: "u16 list \<Rightarrow> nat \<Rightarrow> nat \<times> nat \<Rightarrow> nat \<times> nat" where
  "BestRun words begin best =
     (if begin < length words then
        if words ! begin \<noteq> 0 then BestRun words (begin + 1) best
        else let stop = ZeroRunEnd words begin
             in BestRun words stop (if snd best < stop - begin \<and> 2 \<le> stop - begin then (begin, stop - begin) else best)
      else best)"
  by pat_completeness auto
termination
  by (relation "measure (\<lambda>(words, begin, best). length words - begin)")
    (auto intro!: diff_less_mono2 ZeroRunEnd_grows)

declare BestRun.simps [simp del]

text \<open>The writing loop. It would not end at an empty run; not ending is \<^term>\<open>None\<close> too.\<close>

partial_function (option) FormatWords :: "u16 list \<Rightarrow> nat \<Rightarrow> nat \<Rightarrow> nat \<Rightarrow> string \<times> nat \<Rightarrow> (string \<times> nat) option" where
  "FormatWords words bestBegin bestLength index st =
     (if index < length words then
        if index = bestBegin then do {
          st \<leftarrow> emit st ''::'';
          FormatWords words bestBegin bestLength (index + bestLength) st }
        else do {
          st \<leftarrow> (if snd st \<noteq> 0 \<and> fst st ! (snd st - 1) \<noteq> CHR '':'' then emit st '':'' else Some st);
          st \<leftarrow> AppendHex st (unat (words ! index));
          FormatWords words bestBegin bestLength (index + 1) st }
      else Some st)"

declare FormatWords.simps [code]

definition FormatText :: "IpAddress \<Rightarrow> (string \<times> nat) option" where
  "FormatText a =
     (let output = replicate 64 (CHR 0x00); bs = m_bytes a in
      if IsV4 a then FormatDotted bs 0 4 0 (output, 0)
      else if IsMapped bs then do { st \<leftarrow> emit (output, 0) ''::ffff:''; FormatDotted bs 12 16 12 st }
      else let words = LoadWords bs; (bestBegin, bestLength) = BestRun words 0 (length words, 0)
           in FormatWords words bestBegin bestLength 0 (output, 0))"

text \<open>The result, the destination and \<open>written\<close>.\<close>

definition TryFormat :: "IpAddress \<Rightarrow> string \<Rightarrow> (bool \<times> string \<times> nat) option" where
  "TryFormat a destination =
     (if \<not> IsValid a then Some (False, destination, 0)
      else do {
        (output, n) \<leftarrow> FormatText a;
        if length destination < n then Some (False, destination, 0)
        else Some (True, take n output @ drop n destination, n) })"

definition IpAddress_ToString :: "IpAddress \<Rightarrow> string option" where
  "IpAddress_ToString a = do {
     (ok, output, written) \<leftarrow> TryFormat a (replicate 64 (CHR 0x00));
     Some (if ok then take written output else []) }"

definition family_value :: "AddressFamily \<Rightarrow> u64" where
  "family_value f = (case f of V4 \<Rightarrow> 0 | V6 \<Rightarrow> 1 | DualStack \<Rightarrow> 2)"

definition IpAddressHash :: "IpAddress \<Rightarrow> u64" where
  "IpAddressHash a =
     foldl (\<lambda>hash b. (hash XOR ucast b) * 1099511628211)
       ((1469598103934665603 XOR family_value (m_family a)) * 1099511628211) (Bytes a)"

section \<open>Endpoints\<close>

record Endpoint =
  address :: IpAddress
  port :: u16
  scopeId :: u32

definition ParsePort :: "string \<Rightarrow> nat \<Rightarrow> u16 AddressExpected" where
  "ParsePort tx offs =
     (if tx = [] then Inl (parse_error MissingPort offs)
      else case from_chars 32 10 tx of (ec, ptr, val) \<Rightarrow>
        if ec = invalid_argument \<or> ptr \<noteq> length tx then Inl (parse_error InvalidCharacter (offs + ptr))
        else if ec = result_out_of_range \<or> 65535 < val then Inl (parse_error PortOutOfRange offs)
        else Inr (to_u16 val))"

definition ParseScope :: "string \<Rightarrow> nat \<Rightarrow> u32 AddressExpected" where
  "ParseScope tx offs =
     (if tx = [] then Inl (parse_error InvalidScope offs)
      else case from_chars 32 10 tx of (ec, ptr, val) \<Rightarrow>
        if ec \<noteq> ErrcNone \<or> ptr \<noteq> length tx then Inl (parse_error InvalidScope (offs + ptr))
        else Inr (word_of_nat val))"

text \<open>The part of \<open>Parse\<close> after the text is split: address, port and scope.\<close>

definition ParseEndpointParts :: "bool \<Rightarrow> string \<Rightarrow> u32 \<Rightarrow> string \<Rightarrow> nat \<Rightarrow> Endpoint AddressExpected" where
  "ParseEndpointParts bracketed addressText scope portText portOffset =
     (case IpAddress_Parse addressText of
        Inl e \<Rightarrow> Inl (if bracketed then e\<lparr>offset := offset e + 1\<rparr> else e)
      | Inr a \<Rightarrow>
          if bracketed \<and> \<not> IsV6 a \<or> scope \<noteq> 0 \<and> \<not> IsV6 a then Inl (parse_error InvalidScope 1)
          else case ParsePort portText portOffset of
            Inl e \<Rightarrow> Inl e
          | Inr p \<Rightarrow> Inr \<lparr>address = a, port = p, scopeId = scope\<rparr>)"

definition Endpoint_Parse :: "string \<Rightarrow> Endpoint AddressExpected" where
  "Endpoint_Parse tx =
     (if tx = [] then Inl (parse_error Empty 0)
      else if hd tx = CHR ''['' then
        case find_char (CHR '']'') tx 0 of
          None \<Rightarrow> Inl (parse_error InvalidFormat (length tx))
        | Some close \<Rightarrow>
            if length tx \<le> close + 1 \<or> tx ! (close + 1) \<noteq> CHR '':'' then Inl (parse_error InvalidFormat (close + 1))
            else
              let addressText = substr tx 1 (close - 1); portText = drop (close + 2) tx; portOffset = close + 2
              in case find_char (CHR ''%'') addressText 0 of
                   None \<Rightarrow> ParseEndpointParts True addressText 0 portText portOffset
                 | Some percent \<Rightarrow>
                     (case ParseScope (drop (percent + 1) addressText) (percent + 2) of
                        Inl e \<Rightarrow> Inl e
                      | Inr scope \<Rightarrow> ParseEndpointParts True (substr addressText 0 percent) scope portText portOffset)
      else
        case rfind_char (CHR '':'') tx of
          None \<Rightarrow> Inl (parse_error MissingPort (length tx))
        | Some separator \<Rightarrow>
            if find_char (CHR '':'') tx 0 \<noteq> Some separator then Inl (parse_error InvalidFormat separator)
            else ParseEndpointParts False (substr tx 0 separator) 0 (drop (separator + 1) tx) (separator + 1))"

definition Endpoint_FormatText :: "Endpoint \<Rightarrow> (bool \<times> string \<times> nat) option" where
  "Endpoint_FormatText e = do {
     let output = replicate 96 (CHR 0x00);
     (output, n) \<leftarrow> (if IsV6 (address e) then emit (output, 0) ''['' else Some (output, 0));
     (ok, sub, addressSize) \<leftarrow> TryFormat (address e) (drop n output);
     if \<not> ok then Some (False, output, 0)
     else do {
       let output = take n output @ sub;
       let n = n + addressSize;
       (output, n) \<leftarrow>
         (if IsV6 (address e) then do {
            st \<leftarrow> (if scopeId e \<noteq> 0 then do { st \<leftarrow> emit (output, n) ''%''; emit st (to_chars 10 (unat (scopeId e))) }
                   else Some (output, n));
            emit st '']'' }
          else Some (output, n));
       st \<leftarrow> emit (output, n) '':'';
       (output, n) \<leftarrow> emit st (to_chars 10 (unat (port e)));
       Some (True, output, n) } }"

definition Endpoint_TryFormat :: "Endpoint \<Rightarrow> string \<Rightarrow> (bool \<times> string \<times> nat) option" where
  "Endpoint_TryFormat e destination = do {
     (ok, output, n) \<leftarrow> Endpoint_FormatText e;
     if \<not> ok then Some (False, destination, 0)
     else if length destination < n then Some (False, destination, 0)
     else Some (True, take n output @ drop n destination, n) }"

definition Endpoint_ToString :: "Endpoint \<Rightarrow> string option" where
  "Endpoint_ToString e = do {
     (ok, output, written) \<leftarrow> Endpoint_TryFormat e (replicate 96 (CHR 0x00));
     Some (if ok then take written output else []) }"

definition EndpointHash :: "Endpoint \<Rightarrow> u64" where
  "EndpointHash e =
     (let hash = IpAddressHash (address e);
          hash = hash XOR (ucast (port e) + 0x9e3779b97f4a7c15 + push_bit 6 hash + drop_bit 2 hash)
      in hash XOR (ucast (scopeId e) + 0x9e3779b97f4a7c15 + push_bit 6 hash + drop_bit 2 hash))"

end
