(* ===== verification/Net_Address_Props.thy ===== *)
theory Net_Address_Props
  imports Net_Address
begin

text \<open>
  Correctness of the address code. \<open>ip_text\<close> and \<open>endpoint_text\<close> are the texts the formatters are shown
  to write, always inside their arrays of 64 and 96 characters; \<open>ip_ok\<close> and \<open>endpoint_ok\<close> are the
  well-formed values. Parsing inverts formatting, the parsers return only well-formed values and errors
  whose offset lies in the text, IPv4 addresses have exactly one text, and the formatter compresses the
  first of the longest runs of zero words.
\<close>

section \<open>Texts\<close>

fun join_with :: "char \<Rightarrow> string list \<Rightarrow> string" where
  "join_with c [] = []"
| "join_with c [s] = s"
| "join_with c (s # ss) = s @ c # join_with c ss"

lemma join_with_Cons: "join_with c (s # ss) = (if ss = [] then s else s @ c # join_with c ss)"
  by (cases ss) auto

lemma join_with_snoc: "join_with c (ss @ [s]) = (if ss = [] then s else join_with c ss @ c # s)"
  by (induction ss) (auto simp: join_with_Cons)

abbreviation dec :: "byte \<Rightarrow> string" where
  "dec b \<equiv> to_chars 10 (unat b)"

abbreviation hex :: "u16 \<Rightarrow> string" where
  "hex w \<equiv> to_chars 16 (unat w)"

abbreviation dotted :: "bytes \<Rightarrow> string" where
  "dotted bs \<equiv> join_with (CHR ''.'') (map dec bs)"

abbreviation hexs :: "u16 list \<Rightarrow> string" where
  "hexs ws \<equiv> join_with (CHR '':'') (map hex ws)"

lemma length_dec: "length (dec b) \<le> 3"
  by (rule length_to_chars) (use unat_byte_less [of b] in \<open>simp_all del: unat_byte_less\<close>)

lemma length_hex: "length (hex w) \<le> 4"
  by (rule length_to_chars) (use unat_u16_less [of w] in simp_all)

lemma digit_not_special: "is_digit B c \<Longrightarrow> c \<notin> set '':.%[]''"
  by (auto simp: is_digit_def digit_value_def char_arith)

lemma dec_chars: "c \<in> set (dec b) \<Longrightarrow> c \<notin> set '':.%[]''"
  using to_chars_digits [of 10 "unat b"] digit_not_special [of 10 c] by simp

lemma hex_chars: "c \<in> set (hex w) \<Longrightarrow> c \<notin> set '':.%[]''"
  using to_chars_digits [of 16 "unat w"] digit_not_special [of 16 c] by simp

section \<open>Writing\<close>

text \<open>The array of a formatter, filled with a text from the start.\<close>

abbreviation buf :: "nat \<Rightarrow> string \<Rightarrow> string \<times> nat" where
  "buf n s \<equiv> (s @ replicate (n - length s) (CHR 0x00), length s)"

lemma emit_buf [span_simps]: "length s + length vs \<le> n \<Longrightarrow> emit (buf n s) vs = Some (buf n (s @ vs))"
  using emit_spec [of vs "replicate (n - length s) (CHR 0x00)" s] by simp

definition dots :: "nat \<Rightarrow> nat \<Rightarrow> nat \<Rightarrow> bytes \<Rightarrow> string" where
  "dots first i j bs = concat (map (\<lambda>i. (if i \<noteq> first then ''.'' else []) @ dec (bs ! i)) [i..<j])"

lemma FormatDotted_exact:
  "index \<le> limit \<Longrightarrow> limit \<le> length bs \<Longrightarrow> length s + 4 * (limit - index) \<le> n \<Longrightarrow>
     FormatDotted bs first limit index (buf n s) = Some (buf n (s @ dots first index limit bs))"
proof (induction "limit - index" arbitrary: index s)
  case 0
  then show ?case by (subst FormatDotted.simps) (simp add: dots_def)
next
  case (Suc k)
  let ?s = "s @ (if index \<noteq> first then ''.'' else []) @ dec (bs ! index)"
  have l: "index < limit" using Suc.hyps(2) by simp
  have e: "(if index \<noteq> first then emit (buf n s) ''.'' else Some (buf n s)) =
      Some (buf n (s @ (if index \<noteq> first then ''.'' else [])))"
    using Suc.prems l emit_buf [of s "''.''" n] by (simp del: emit.simps)
  have "length ?s \<le> length s + 4" using length_dec [of "bs ! index"] by (cases "index = first") auto
  then have a: "AppendDecimal (buf n (s @ (if index \<noteq> first then ''.'' else []))) (unat (bs ! index)) = Some (buf n ?s)"
    using Suc.prems l emit_buf [of "s @ (if index \<noteq> first then ''.'' else [])" "dec (bs ! index)" n]
    by (simp add: AppendDecimal_def)
  have "FormatDotted bs first limit index (buf n s) = FormatDotted bs first limit (index + 1) (buf n ?s)"
    using l Suc.prems by (subst FormatDotted.simps) (simp only: e a bind.bind_lunit span_at_in if_True)
  also have "\<dots> = Some (buf n (?s @ dots first (index + 1) limit bs))"
    by (rule Suc.hyps(1)) (use Suc \<open>length ?s \<le> length s + 4\<close> in auto)
  also have "?s @ dots first (index + 1) limit bs = s @ dots first index limit bs"
    using l by (simp add: dots_def upt_conv_Cons)
  finally show ?case .
qed

lemma dots_dotted: "dots k k (k + 4) bs = dotted (take 4 (drop k bs))" if "k + 4 \<le> length bs"
proof -
  have "take 4 (drop k bs) = [bs ! k, bs ! (k + 1), bs ! (k + 2), bs ! (k + 3)]"
    using that by (intro nth_equalityI) (auto simp: less_Suc_eq numeral_eq_Suc)
  moreover have "[k..<k + 4] = [k, k + 1, k + 2, k + 3]" by (simp add: upt_rec)
  ultimately show ?thesis by (simp add: dots_def)
qed

definition after :: "string \<Rightarrow> u16 list \<Rightarrow> string" where
  "after s ws = (if ws = [] then [] else (if s \<noteq> [] \<and> last s \<noteq> CHR '':'' then '':'' else []) @ hexs ws)"

lemma FormatWords_run:
  assumes "index + k \<le> length words" "\<forall>i. index \<le> i \<and> i < index + k \<longrightarrow> i \<noteq> bb" "length s + 5 * k \<le> n"
  shows "FormatWords words bb bl index (buf n s) =
    FormatWords words bb bl (index + k) (buf n (s @ after s (take k (drop index words))))"
  using assms
proof (induction k arbitrary: index s)
  case (Suc k)
  let ?w = "words ! index"
  let ?c = "if s \<noteq> [] \<and> last s \<noteq> CHR '':'' then '':'' else []"
  let ?s = "s @ ?c @ hex ?w"
  have l: "index < length words" "index \<noteq> bb" using Suc.prems by auto
  have test: "(snd (buf n s) \<noteq> 0 \<and> fst (buf n s) ! (snd (buf n s) - 1) \<noteq> CHR '':'') \<longleftrightarrow> s \<noteq> [] \<and> last s \<noteq> CHR '':''"
    by (cases s rule: rev_cases) (auto simp: nth_append)
  have e: "(if snd (buf n s) \<noteq> 0 \<and> fst (buf n s) ! (snd (buf n s) - 1) \<noteq> CHR '':'' then emit (buf n s) '':'' else Some (buf n s)) =
      Some (buf n (s @ ?c))"
    unfolding test using Suc.prems emit_buf [of s "'':''" n] by (simp del: emit.simps)
  have len: "length ?s \<le> length s + 5" using length_hex [of ?w] by simp
  then have a: "AppendHex (buf n (s @ ?c)) (unat ?w) = Some (buf n ?s)"
    using Suc.prems emit_buf [of "s @ ?c" "hex ?w" n] by (simp add: AppendHex_def)
  have "FormatWords words bb bl index (buf n s) = FormatWords words bb bl (index + 1) (buf n ?s)"
    using l by (subst FormatWords.simps) (simp only: e a bind.bind_lunit if_True if_False)
  also have "\<dots> = FormatWords words bb bl (index + 1 + k) (buf n (?s @ after ?s (take k (drop (index + 1) words))))"
    by (rule Suc.IH) (use Suc.prems len in auto)
  also have "?s @ after ?s (take k (drop (index + 1) words)) = s @ after s (take (Suc k) (drop index words))"
  proof -
    have "last ?s \<noteq> CHR '':''" using hex_chars [of "last (hex ?w)" ?w] by simp
    moreover have "?s \<noteq> []" by simp
    moreover have "take (Suc k) (drop index words) = ?w # take k (drop (index + 1) words)"
      using l by (simp add: Cons_nth_drop_Suc [symmetric])
    ultimately show ?thesis by (simp add: after_def join_with_Cons)
  qed
  finally show ?case by simp
qed (simp add: after_def)

lemma FormatWords_end: "length words \<le> index \<Longrightarrow> FormatWords words bb bl index st = Some st"
  by (subst FormatWords.simps) simp

lemma FormatWords_plain:
  assumes "length words \<le> bb" "5 * length words \<le> n"
  shows "FormatWords words bb bl 0 (buf n []) = Some (buf n (hexs words))"
  using FormatWords_run [of 0 "length words" words bb "[]" n bl] assms
  by (cases words) (simp_all add: FormatWords_end after_def)

lemma FormatWords_skip:
  assumes "bb + bl \<le> length words" "0 < bl" "5 * length words + 2 \<le> n"
  shows "FormatWords words bb bl 0 (buf n []) = Some (buf n (hexs (take bb words) @ ''::'' @ hexs (drop (bb + bl) words)))"
proof -
  let ?l = "hexs (take bb words)"
  let ?s = "?l @ ''::''"
  have len: "length (hexs ws) \<le> 5 * length ws" for ws
  proof (induction ws)
    case (Cons w ws)
    then show ?case using length_hex [of w] by (cases ws) (auto simp: join_with_Cons)
  qed simp
  have n: "length ?s \<le> 5 * bb + 2" using len [of "take bb words"] assms by simp
  have "FormatWords words bb bl 0 (buf n []) = FormatWords words bb bl bb (buf n ?l)"
    using FormatWords_run [of 0 bb words bb "[]" n bl] assms by (cases "take bb words") (auto simp: after_def)
  also have "\<dots> = FormatWords words bb bl (bb + bl) (buf n ?s)"
    using assms n emit_buf [of ?l "''::''" n] by (subst FormatWords.simps) simp
  also have "\<dots> = FormatWords words bb bl (length words) (buf n (?s @ after ?s (drop (bb + bl) words)))"
    using FormatWords_run [of "bb + bl" "length words - (bb + bl)" words bb ?s n bl] assms n by auto
  also have "after ?s (drop (bb + bl) words) = hexs (drop (bb + bl) words)" by (simp add: after_def)
  finally show ?thesis by (simp add: FormatWords_end)
qed

section \<open>Words and bytes\<close>

lemma unat_word_of_bytes: "unat (word_of_bytes hi lo) = unat hi * 256 + unat lo"
proof -
  have "unat hi * 2 ^ 8 OR unat lo = unat hi * 2 ^ 8 + unat lo" by (rule nat_or_disjoint) simp
  moreover have "unat hi * 256 + unat lo < 65536" using unat_byte_less [of hi] unat_byte_less [of lo] by linarith
  ultimately show ?thesis by (simp add: word_of_bytes_def bitarith)
qed

lemma StoreWords_pair: "to_byte (drop_bit 8 (unat (word_of_bytes hi lo))) = hi" "to_byte (unat (word_of_bytes hi lo) AND 0xff) = lo"
  by (rule to_byte_eqI; simp add: unat_word_of_bytes bitarith)+

lemma word_of_bytes_pair: "word_of_bytes (to_byte (drop_bit 8 (unat w))) (to_byte (unat w AND 0xff)) = w"
proof -
  have "unat w div 256 < 256" using unat_u16_less [of w] by (simp add: less_mult_imp_div_less)
  then have "unat (word_of_bytes (to_byte (drop_bit 8 (unat w))) (to_byte (unat w AND 0xff))) = unat w"
    by (simp add: unat_word_of_bytes bitarith)
  then show ?thesis by (rule word_unat_eq_iff [THEN iffD2])
qed

lemma StoreWords_LoadWords: "even (length bs) \<Longrightarrow> StoreWords (LoadWords bs) = bs"
  by (induction bs rule: LoadWords.induct) (simp_all add: StoreWords_pair)

lemma length_LoadWords: "length (LoadWords bs) = length bs div 2"
  by (induction bs rule: LoadWords.induct) simp_all

lemma length_StoreWords: "length (StoreWords ws) = 2 * length ws"
  by (induction ws) simp_all

lemma LoadWords_append: "even (length xs) \<Longrightarrow> LoadWords (xs @ ys) = LoadWords xs @ LoadWords ys"
  by (induction xs rule: LoadWords.induct) simp_all

section \<open>The run of zeros\<close>

lemma ZeroRunEnd_zero: "e \<le> i \<Longrightarrow> i < ZeroRunEnd words e \<Longrightarrow> words ! i = 0"
proof (induction words e rule: ZeroRunEnd.induct)
  case (1 words e)
  show ?case
  proof (cases "e < length words \<and> words ! e = 0 \<and> i \<noteq> e")
    case True
    then show ?thesis using 1 by (simp add: ZeroRunEnd.simps [of words e])
  next
    case False
    then show ?thesis using "1.prems" by (auto simp: ZeroRunEnd.simps [of words e] split: if_splits)
  qed
qed

lemma ZeroRunEnd_le: "e \<le> length words \<Longrightarrow> ZeroRunEnd words e \<le> length words"
proof (induction words e rule: ZeroRunEnd.induct)
  case (1 words e)
  then show ?case by (cases "e < length words \<and> words ! e = 0") (auto simp: ZeroRunEnd.simps [of words e])
qed

definition zero_run :: "u16 list \<Rightarrow> nat \<times> nat \<Rightarrow> bool" where
  "zero_run words best \<longleftrightarrow> best = (length words, 0) \<or>
     2 \<le> snd best \<and> fst best + snd best \<le> length words \<and> (\<forall>i. fst best \<le> i \<and> i < fst best + snd best \<longrightarrow> words ! i = 0)"

lemma BestRun_zero_run: "zero_run words best \<Longrightarrow> b0 \<le> length words \<Longrightarrow> zero_run words (BestRun words b0 best)"
proof (induction words b0 best rule: BestRun.induct)
  case (1 words b0 best)
  consider "\<not> b0 < length words" | "b0 < length words" "words ! b0 \<noteq> 0" | "b0 < length words" "words ! b0 = 0"
    by blast
  then show ?case
  proof cases
    case 1
    then show ?thesis using "1.prems" by (subst BestRun.simps) simp
  next
    case 2
    then show ?thesis using "1.IH"(1) "1.prems" by (simp add: BestRun.simps [of words b0 best])
  next
    case 3
    let ?e = "ZeroRunEnd words b0"
    have e: "b0 < ?e" "?e \<le> length words" using 3 ZeroRunEnd_grows ZeroRunEnd_le [of b0 words] by auto
    have "2 \<le> ?e - b0 \<Longrightarrow> zero_run words (b0, ?e - b0)"
      using e ZeroRunEnd_zero [of b0 _ words] by (auto simp: zero_run_def)
    then show ?thesis using "1.IH"(2) [OF 3(1) _ refl] 3 "1.prems"(1) e
      by (auto simp: BestRun.simps [of words b0 best] Let_def)
  qed
qed

lemma zero_run_split:
  assumes "zero_run words (bb, bl)" "0 < bl"
  shows "words = take bb words @ replicate bl 0 @ drop (bb + bl) words"
proof -
  have l: "bb + bl \<le> length words" "\<forall>i. bb \<le> i \<and> i < bb + bl \<longrightarrow> words ! i = 0"
    using assms by (auto simp: zero_run_def)
  have "take bl (drop bb words) = replicate bl 0"
    using l by (intro nth_equalityI) auto
  then show ?thesis by (metis append_take_drop_id drop_drop add.commute)
qed

section \<open>The text of an address\<close>

definition ip_ok :: "IpAddress \<Rightarrow> bool" where
  "ip_ok a \<longleftrightarrow> length (m_bytes a) = 16 \<and> (IsV4 a \<and> drop 4 (m_bytes a) = replicate 12 0 \<or> IsV6 a)"

definition canonical_run :: "u16 list \<Rightarrow> nat \<times> nat" where
  "canonical_run words = BestRun words 0 (length words, 0)"

definition ip_text :: "IpAddress \<Rightarrow> string" where
  "ip_text a =
     (let bs = m_bytes a; words = LoadWords bs; (bb, bl) = canonical_run words in
      if IsV4 a then dotted (take 4 bs)
      else if IsMapped bs then ''::ffff:'' @ dotted (drop 12 bs)
      else if bl = 0 then hexs words
      else hexs (take bb words) @ ''::'' @ hexs (drop (bb + bl) words))"

lemma length_dotted: "length (dotted bs) \<le> 4 * length bs - 1"
proof (induction bs)
  case (Cons b bs)
  then show ?case using length_dec [of b] by (cases bs) (auto simp: join_with_Cons)
qed simp

lemma length_hexs: "length (hexs ws) \<le> 5 * length ws - 1"
proof (induction ws)
  case (Cons w ws)
  then show ?case using length_hex [of w] by (cases ws) (auto simp: join_with_Cons)
qed simp

lemma FormatText_exact:
  assumes "length (m_bytes a) = 16"
  shows "FormatText a = Some (buf 64 (ip_text a)) \<and> length (ip_text a) \<le> 39"
proof -
  let ?bs = "m_bytes a" and ?ws = "LoadWords (m_bytes a)"
  have w: "length ?ws = 8" using assms by (simp add: length_LoadWords)
  consider "IsV4 a" | "\<not> IsV4 a" "IsMapped ?bs" | "\<not> IsV4 a" "\<not> IsMapped ?bs" by blast
  then show ?thesis
  proof cases
    case 1
    have "FormatDotted ?bs 0 4 0 (buf 64 []) = Some (buf 64 (dotted (take 4 ?bs)))"
      using assms FormatDotted_exact [of 0 4 ?bs "[]" 64 0] dots_dotted [of 0 ?bs] by simp
    then show ?thesis using 1 length_dotted [of "take 4 ?bs"] assms
      by (simp add: FormatText_def ip_text_def split: prod.split)
  next
    case 2
    have "emit (buf 64 []) ''::ffff:'' = Some (buf 64 ''::ffff:'')" using emit_buf [of "[]" "''::ffff:''" 64] by simp
    moreover have "FormatDotted ?bs 12 16 12 (buf 64 ''::ffff:'') = Some (buf 64 (''::ffff:'' @ dotted (drop 12 ?bs)))"
      using assms FormatDotted_exact [of 12 16 ?bs "''::ffff:''" 64 12] dots_dotted [of 12 ?bs] by simp
    ultimately show ?thesis using 2 length_dotted [of "drop 12 ?bs"] assms
      by (simp add: FormatText_def ip_text_def Let_def del: emit.simps split: prod.split)
  next
    case 3
    obtain bb bl where r: "canonical_run ?ws = (bb, bl)" by (cases "canonical_run ?ws")
    have z: "zero_run ?ws (bb, bl)"
      using BestRun_zero_run [of ?ws "(length ?ws, 0)" 0] r by (simp add: zero_run_def canonical_run_def)
    show ?thesis
    proof (cases "bl = 0")
      case True
      then have "bb = 8" using z w by (auto simp: zero_run_def)
      then have "FormatWords ?ws bb bl 0 (buf 64 []) = Some (buf 64 (hexs ?ws))"
        using FormatWords_plain [of ?ws bb 64 bl] w by simp
      then show ?thesis using 3 r True length_hexs [of ?ws] w
        by (simp add: FormatText_def ip_text_def Let_def canonical_run_def)
    next
      case False
      have l: "bb + bl \<le> 8" "2 \<le> bl" using z w False by (auto simp: zero_run_def)
      then have "FormatWords ?ws bb bl 0 (buf 64 []) = Some (buf 64 (hexs (take bb ?ws) @ ''::'' @ hexs (drop (bb + bl) ?ws)))"
        using FormatWords_skip [of bb bl ?ws 64] w by simp
      then show ?thesis using 3 r False length_hexs [of "take bb ?ws"] length_hexs [of "drop (bb + bl) ?ws"] w l
        by (simp add: FormatText_def ip_text_def Let_def canonical_run_def)
    qed
  qed
qed

lemma TryFormat_exact:
  assumes "length (m_bytes a) = 16"
  shows "TryFormat a dest = Some (if IsValid a \<and> length (ip_text a) \<le> length dest
    then (True, ip_text a @ drop (length (ip_text a)) dest, length (ip_text a)) else (False, dest, 0))"
  using FormatText_exact [OF assms] by (simp add: TryFormat_def not_le)

lemma ToString_exact: "length (m_bytes a) = 16 \<Longrightarrow> IpAddress_ToString a = Some (if IsValid a then ip_text a else [])"
  using TryFormat_exact [of a "replicate 64 (CHR 0x00)"] FormatText_exact [of a] by (simp add: IpAddress_ToString_def)

section \<open>Reading dotted addresses\<close>

lemma ParseV4_token_dec: "ParseV4_token (dec b) base = Inr (unat b)"
proof -
  have "from_chars 32 10 (dec b) = (ErrcNone, length (dec b), unat b)"
    using unat_byte_less [of b] by (intro from_to_chars) (simp_all del: unat_byte_less)
  moreover have "\<not> 255 < unat b" using unat_byte_le [of b] by linarith
  ultimately show ?thesis using to_chars_hd [of 10 "unat b"] by (simp add: ParseV4_token_def)
qed

lemma ParseV4_token_Inr: "ParseV4_token tok base = Inr v \<Longrightarrow> v < 256 \<and> tok = dec (to_byte v)"
proof -
  assume a: "ParseV4_token tok base = Inr v"
  then have t: "tok \<noteq> []" "1 < length tok \<longrightarrow> hd tok \<noteq> CHR ''0''" "v < 256" "from_chars 32 10 tok = (ErrcNone, length tok, v)"
    by (auto simp: ParseV4_token_def split: if_splits prod.splits intro: errc.exhaust)
  from from_chars_all [OF t(4)] to_chars_unique [of tok] t show ?thesis by simp
qed

text \<open>The text from a position: one token, then the end or a separator.\<close>

lemma find_char_cases:
  assumes "pos \<le> length tx"
  obtains (last) "find_char c tx pos = None" "c \<notin> set (drop pos tx)"
  | (sep) tok r where "find_char c tx pos = Some (pos + length tok)" "c \<notin> set tok" "drop pos tx = tok @ c # r"
      "tok = substr tx pos (length tok)"
proof (cases "find_char c tx pos")
  case None
  let ?t = "takeWhile (\<lambda>x. x \<noteq> c) (drop pos tx)"
  have "\<not> pos + length ?t < length tx" using None by (auto simp: find_char_def Let_def split: if_splits)
  then have "length ?t = length (drop pos tx)" using length_takeWhile_le [of "\<lambda>x. x \<noteq> c" "drop pos tx"] by simp
  then have "?t = drop pos tx" by (metis takeWhile_eq_take take_all order_refl)
  then have "c \<notin> set (drop pos tx)" by (metis set_takeWhileD)
  then show ?thesis using None last by blast
next
  case (Some n)
  note f = find_char_Some [OF Some]
  let ?t = "take (n - pos) (drop pos tx)"
  have l: "length ?t = n - pos" using f by (auto simp: min_def)
  have "drop pos tx = ?t @ drop (n - pos) (drop pos tx)" by (metis append_take_drop_id)
  also have "drop (n - pos) (drop pos tx) = drop n tx" using f by simp
  also have "\<dots> = c # drop (Suc n) tx" using f by (metis Cons_nth_drop_Suc)
  finally have "drop pos tx = ?t @ c # drop (Suc n) tx" .
  then show ?thesis using f Some l by (intro sep [of ?t]) (simp_all add: substr_def)
qed

lemma split_first: "c \<notin> set a \<Longrightarrow> c \<notin> set b \<Longrightarrow> a @ c # x = b @ c # y \<longleftrightarrow> a = b \<and> x = y"
proof (induction a arbitrary: b)
  case Nil
  then show ?case by (cases b) auto
next
  case (Cons d a)
  then show ?case by (cases b) auto
qed

lemma dec_no_dot: "CHR ''.'' \<notin> set (dec b)"
  using dec_chars [of "CHR ''.''" b] by auto

lemma ParseV4_loop_last:
  assumes "component < length bytes" "length bs = length bytes" "CHR ''.'' \<notin> set s"
  shows "(\<exists>v. ParseV4_token s base = Inr v \<and> component = length bytes - 1 \<and> bs = bytes[component := to_byte v]) \<longleftrightarrow>
    take component bs = take component bytes \<and> s = dotted (drop component bs)"
proof
  assume "\<exists>v. ParseV4_token s base = Inr v \<and> component = length bytes - 1 \<and> bs = bytes[component := to_byte v]"
  then obtain v where v: "ParseV4_token s base = Inr v" "component = length bytes - 1" "bs = bytes[component := to_byte v]" by blast
  then have "drop component bs = [to_byte v]" using assms(1) by (simp add: drop_update_swap Cons_nth_drop_Suc [symmetric])
  then show "take component bs = take component bytes \<and> s = dotted (drop component bs)"
    using v(3) ParseV4_token_Inr [OF v(1)] by simp
next
  assume d: "take component bs = take component bytes \<and> s = dotted (drop component bs)"
  have dc: "drop component bs = bs ! component # drop (component + 1) bs"
    using assms by (simp add: Cons_nth_drop_Suc)
  then have e: "drop (component + 1) bs = []" using d assms(3) by (auto simp: join_with_Cons split: if_splits)
  then have c: "component = length bytes - 1" using assms by simp
  have s: "s = dec (bs ! component)" using d dc e by simp
  have "bs = take component bs @ [bs ! component]" using dc e by (metis append_take_drop_id)
  also have "\<dots> = bytes[component := bs ! component]"
    using d c assms(1) by (simp add: upd_conv_take_nth_drop)
  finally show "\<exists>v. ParseV4_token s base = Inr v \<and> component = length bytes - 1 \<and> bs = bytes[component := to_byte v]"
    using c s ParseV4_token_dec [of "bs ! component" base] by (metis to_byte_unat)
qed

lemma ParseV4_loop_next:
  assumes "component < length bytes" "length bs = length bytes" "CHR ''.'' \<notin> set tok"
  shows "(\<exists>v. ParseV4_token tok base = Inr v \<and> component \<noteq> length bytes - 1 \<and>
      take (component + 1) bs = take (component + 1) (bytes[component := to_byte v]) \<and> r = dotted (drop (component + 1) bs)) \<longleftrightarrow>
    take component bs = take component bytes \<and> tok @ CHR ''.'' # r = dotted (drop component bs)"
proof -
  let ?b = "bs ! component"
  have dc: "drop component bs = ?b # drop (component + 1) bs" using assms by (simp add: Cons_nth_drop_Suc)
  have tk: "take (component + 1) bs = take (component + 1) (bytes[component := v]) \<longleftrightarrow>
      take component bs = take component bytes \<and> ?b = v" for v
    using assms by (simp add: take_Suc_conv_app_nth)
  have ne: "drop (component + 1) bs \<noteq> [] \<longleftrightarrow> component \<noteq> length bytes - 1" using assms by auto
  have tok: "(\<exists>v. ParseV4_token tok base = Inr v \<and> ?b = to_byte v) \<longleftrightarrow> tok = dec ?b"
    using ParseV4_token_Inr [of tok base] ParseV4_token_dec [of ?b base] by (metis to_byte_unat)
  have "tok @ CHR ''.'' # r = dotted (drop component bs) \<longleftrightarrow>
      drop (component + 1) bs \<noteq> [] \<and> tok = dec ?b \<and> r = dotted (drop (component + 1) bs)"
    using split_first [OF assms(3) dec_no_dot [of ?b]] dec_no_dot [of ?b] unfolding dc
    by (auto simp: join_with_Cons simp del: drop_eq_Nil) (metis in_set_conv_decomp)
  then show ?thesis using tk ne tok by metis
qed

lemma ParseV4_loop_length: "ParseV4_loop tx base component b0 bytes = Inr bs \<Longrightarrow> length bs = length bytes"
proof (induction tx base component b0 bytes rule: ParseV4_loop.induct)
  case (1 tx base component b0 bytes)
  show ?case
  proof (cases "component < length bytes")
    case True
    then show ?thesis using "1.prems" "1.IH" [OF True refl refl refl]
      by (subst (asm) ParseV4_loop.simps) (auto simp: Let_def split: if_splits sum.splits)
  next
    case False
    then show ?thesis using "1.prems" by (subst (asm) ParseV4_loop.simps) simp
  qed
qed

lemma ParseV4_loop_exact:
  assumes "component < length bytes" "b0 \<le> length tx" "length bs = length bytes"
  shows "ParseV4_loop tx base component b0 bytes = Inr bs \<longleftrightarrow>
    take component bs = take component bytes \<and> drop b0 tx = dotted (drop component bs)"
  using assms
proof (induction "length bytes - component" arbitrary: component b0 bytes)
  case (Suc k)
  have end_loop: "ParseV4_loop tx base m q xs = Inr xs" if "length xs \<le> m" for m q xs
    using that by (subst ParseV4_loop.simps) simp
  from Suc.prems(2) show ?case
  proof (cases rule: find_char_cases [where c = "CHR ''.''"])
    case last
    have "ParseV4_loop tx base component b0 bytes = Inr bs \<longleftrightarrow>
        (\<exists>v. ParseV4_token (drop b0 tx) (base + b0) = Inr v \<and> component = length bytes - 1 \<and> bs = bytes[component := to_byte v])"
      using Suc.prems last
      by (subst ParseV4_loop.simps) (auto simp: end_loop substr_def Let_def split: sum.splits)
    then show ?thesis using ParseV4_loop_last [OF Suc.prems(1,3) last(2)] by simp
  next
    case (sep tok r)
    let ?q = "b0 + length tok"
    have step: "ParseV4_loop tx base component b0 bytes = Inr bs \<longleftrightarrow>
        (\<exists>v. ParseV4_token tok (base + b0) = Inr v \<and> component \<noteq> length bytes - 1 \<and>
          ParseV4_loop tx base (component + 1) (?q + 1) (bytes[component := to_byte v]) = Inr bs)"
      using Suc.prems sep(1,4) by (subst ParseV4_loop.simps) (auto simp: Let_def split: sum.splits)
    have "length tx = b0 + length (drop b0 tx)" using Suc.prems(2) by simp
    then have ql: "?q + 1 \<le> length tx" using sep(3) by simp
    have "drop (?q + 1) tx = drop (length tok + 1) (drop b0 tx)" by (simp add: add.commute)
    then have qd: "drop (?q + 1) tx = r" using sep(3) by simp
    have dc: "drop component bs = bs ! component # drop (component + 1) bs"
      using Suc.prems by (simp add: Cons_nth_drop_Suc)
    have "(\<exists>v. ParseV4_token tok (base + b0) = Inr v \<and> component \<noteq> length bytes - 1 \<and>
          ParseV4_loop tx base (component + 1) (?q + 1) (bytes[component := to_byte v]) = Inr bs) \<longleftrightarrow>
        (\<exists>v. ParseV4_token tok (base + b0) = Inr v \<and> component \<noteq> length bytes - 1 \<and>
          take (component + 1) bs = take (component + 1) (bytes[component := to_byte v]) \<and> r = dotted (drop (component + 1) bs))"
      using Suc.hyps(1) [of _ "component + 1" "?q + 1"] Suc.hyps(2) Suc.prems ql qd
      by (intro ex_cong1 conj_cong refl) (auto simp: Suc_lessI)
    also have "\<dots> \<longleftrightarrow> take component bs = take component bytes \<and> drop b0 tx = dotted (drop component bs)"
      unfolding sep(3) by (rule ParseV4_loop_next [OF Suc.prems(1,3) sep(2)])
    finally show ?thesis using step by simp
  qed
qed simp

lemma ParseV4_exact: "ParseV4 tx base = Inr bs \<longleftrightarrow> length bs = 4 \<and> tx = dotted bs"
  using ParseV4_loop_exact [of 0 "replicate 4 0" 0 tx bs base] ParseV4_loop_length [of tx base 0 0 "replicate 4 0" bs]
  by (auto simp: ParseV4_def)

section \<open>Reading hexadecimal words\<close>

lemma hex_parts: "hex w \<noteq> []" "CHR '':'' \<notin> set (hex w)" "CHR ''.'' \<notin> set (hex w)" "CHR ''%'' \<notin> set (hex w)"
  using hex_chars [of _ w] by auto

lemma from_chars_hex: "from_chars 32 16 (hex w) = (ErrcNone, length (hex w), unat w)"
  using unat_u16_less [of w] by (intro from_to_chars) simp_all

lemma ParseV6Side_hex:
  "ParseV6Side_loop (p @ hex w @ CHR '':'' # r) base allow (length p) words =
     ParseV6Side_loop (p @ hex w @ CHR '':'' # r) base allow (length p + length (hex w) + 1) (words @ [w])"
  using find_char_append [OF hex_parts(2) [of w], of p r] hex_parts [of w] length_hex [of w] from_chars_hex [of w]
    find_char_None [of "CHR ''.''" "hex w"]
  by (subst ParseV6Side_loop.simps) (simp add: substr_def Let_def not_less)

lemma ParseV6Side_hex_last:
  "ParseV6Side_loop (p @ hex w) base allow (length p) words = Inr (words @ [w])"
  using find_char_end [OF hex_parts(2) [of w], of p] hex_parts [of w] length_hex [of w] from_chars_hex [of w]
    find_char_None [of "CHR ''.''" "hex w"]
  by (subst ParseV6Side_loop.simps) (simp add: substr_def Let_def not_less)

lemma ParseV6Side_hexs:
  "ws \<noteq> [] \<Longrightarrow> ParseV6Side_loop (p @ hexs ws) base allow (length p) words = Inr (words @ ws)"
proof (induction ws arbitrary: p words)
  case (Cons w ws)
  show ?case
  proof (cases "ws = []")
    case True
    then show ?thesis by (simp add: ParseV6Side_hex_last)
  next
    case False
    then show ?thesis
      using ParseV6Side_hex [of p w "hexs ws" base allow words] Cons.IH [of "p @ hex w @ '':''" "words @ [w]"]
      by (simp add: join_with_Cons)
  qed
qed simp

lemma hexs_Nil_iff: "hexs ws = [] \<longleftrightarrow> ws = []"
  by (cases ws) (simp_all add: join_with_Cons hex_parts)

lemma ParseV6Side_text: "ParseV6Side (hexs ws) base allow = Inr ws"
  using ParseV6Side_hexs [of ws "[]" base allow "[]"] by (simp add: ParseV6Side_def hexs_Nil_iff)

lemma dotted_chars: "c \<in> set (dotted bs) \<Longrightarrow> c = CHR ''.'' \<or> c \<notin> set '':.%[]''"
  using dec_chars by (induction bs) (auto simp: join_with_Cons split: if_splits)

lemma ParseV6Side_mapped:
  assumes "length bs = 4"
  shows "ParseV6Side (hex 0xffff @ CHR '':'' # dotted bs) base True =
    Inr [0xffff, word_of_bytes (bs ! 0) (bs ! 1), word_of_bytes (bs ! 2) (bs ! 3)]"
proof -
  let ?d = "dotted bs" and ?p = "hex 0xffff @ '':''"
  have d: "?d \<noteq> []" "CHR '':'' \<notin> set ?d" "CHR ''.'' \<in> set ?d"
    using assms dotted_chars [of "CHR '':''" bs] by (auto simp: length_Suc_conv numeral_eq_Suc)
  have "ParseV6Side_loop (?p @ ?d) base True (length ?p) [0xffff] =
      Inr [0xffff, word_of_bytes (bs ! 0) (bs ! 1), word_of_bytes (bs ! 2) (bs ! 3)]"
    using d find_char_end [OF d(2), of ?p] find_char_None [of "CHR ''.''" ?d] ParseV4_exact [of ?d "base + length ?p" bs] assms
    by (subst ParseV6Side_loop.simps) (simp add: substr_def Let_def)
  then show ?thesis using ParseV6Side_hex [of "[]" "0xffff" ?d base True "[]"] hex_parts [of "0xffff"]
    by (simp add: ParseV6Side_def)
qed

section \<open>The compression mark\<close>

abbreviation "single \<equiv> successively (\<lambda>c d. c = CHR '':'' \<longrightarrow> d \<noteq> CHR '':'')"

lemma find_colons_none: "single s \<Longrightarrow> find_colons (p @ s) (length p) = None"
proof (induction s arbitrary: p)
  case (Cons c s)
  have "find_colons (p @ c # s) (Suc (length p)) = None"
    using Cons.IH [of "p @ [c]"] Cons.prems by (simp add: successively_Cons split: if_splits) (cases s; simp)
  then show ?case using Cons.prems by (subst find_colons.simps) (cases s; simp)
next
  case Nil
  show ?case by (subst find_colons.simps) simp
qed

lemma find_colons_first:
  "single s \<Longrightarrow> s = [] \<or> last s \<noteq> CHR '':'' \<Longrightarrow> find_colons (p @ s @ ''::'' @ r) (length p) = Some (length p + length s)"
proof (induction s arbitrary: p)
  case (Cons c s)
  have "find_colons (p @ c # s @ ''::'' @ r) (Suc (length p)) = Some (length p + Suc (length s))"
    using Cons.IH [of "p @ [c]"] Cons.prems by (cases s) auto
  then show ?case using Cons.prems by (subst find_colons.simps) (cases s; auto)
next
  case Nil
  show ?case by (subst find_colons.simps) simp
qed

lemma no_colon_single: "CHR '':'' \<notin> set s \<Longrightarrow> single s"
proof (induction s)
  case (Cons c s)
  then show ?case by (cases s) auto
qed simp

lemma hexs_single: "single (hexs ws) \<and> (ws \<noteq> [] \<longrightarrow> hd (hexs ws) \<noteq> CHR '':'' \<and> last (hexs ws) \<noteq> CHR '':'')"
proof (induction ws)
  case (Cons w ws)
  have h: "hd (hex w) \<noteq> CHR '':''" "last (hex w) \<noteq> CHR '':''"
    using hex_parts [of w] by (metis list.set_sel(1), metis last_in_set)
  show ?case
  proof (cases "ws = []")
    case True
    then show ?thesis using h no_colon_single [OF hex_parts(2)] by simp
  next
    case False
    then show ?thesis using h no_colon_single [OF hex_parts(2), of w] Cons hex_parts(1) [of w]
      by (auto simp: join_with_Cons successively_append_iff successively_Cons hexs_Nil_iff)
  qed
qed simp

section \<open>Round trip\<close>

lemma ParseV6_plain: "length ws = 8 \<Longrightarrow> ParseV6 (hexs ws) = Inr \<lparr>m_family = V6, m_bytes = StoreWords ws\<rparr>"
  using find_colons_none [of "hexs ws" "[]"] hexs_single [of ws] ParseV6Side_text [of ws 0 True]
    ParseV6Side_text [of "[]" 0 True]
  by (simp add: ParseV6_def Let_def)

lemma ParseV6_split:
  assumes "single r" "r = [] \<or> hd r \<noteq> CHR '':''" "ParseV6Side r (length (hexs ls) + 2) True = Inr rs" "length ls + length rs < 8"
  shows "ParseV6 (hexs ls @ ''::'' @ r) =
    Inr \<lparr>m_family = V6, m_bytes = StoreWords (ls @ replicate (8 - (length ls + length rs)) 0 @ rs)\<rparr>"
proof -
  let ?tx = "hexs ls @ ''::'' @ r"
  have c: "find_colons ?tx 0 = Some (length (hexs ls))"
    using find_colons_first [of "hexs ls" "[]" r] hexs_single [of ls] by (cases "ls = []") auto
  have n: "find_colons ?tx (length (hexs ls) + 2) = None"
    using find_colons_none [OF assms(1), of "hexs ls @ ''::''"] by simp
  have "substr ?tx 0 (length (hexs ls)) = hexs ls" "drop (length (hexs ls) + 2) ?tx = r" by (simp_all add: substr_def)
  then show ?thesis using c n ParseV6Side_text [of ls 0 False] assms(3,4)
    by (simp add: ParseV6_def Let_def not_le)
qed

lemma word_of_bytes_zero: "word_of_bytes 0 0 = 0"
  by (rule word_unat_eq_iff [THEN iffD2]) (simp add: unat_word_of_bytes)

lemma word_of_bytes_ff: "word_of_bytes 0xff 0xff = 0xffff"
  by (rule word_unat_eq_iff [THEN iffD2]) (simp add: unat_word_of_bytes)

lemma IsMapped_bytes:
  assumes "length bs = 16" "IsMapped bs"
  shows "bs = replicate 10 0 @ [0xff, 0xff] @ drop 12 bs"
proof -
  have "take 10 bs = replicate 10 0"
    using assms by (intro replicate_eqI) (auto simp: IsMapped_def list_all_iff)
  moreover have "drop 10 bs = bs ! 10 # bs ! 11 # drop 12 bs"
    using assms by (simp add: Cons_nth_drop_Suc numeral_eq_Suc)
  ultimately show ?thesis using assms(2) append_take_drop_id [of 10 bs] by (simp add: IsMapped_def)
qed

lemma LoadWords_mapped:
  assumes "length bs = 16" "IsMapped bs"
  shows "LoadWords bs = replicate 5 0 @ [0xffff, word_of_bytes (drop 12 bs ! 0) (drop 12 bs ! 1),
    word_of_bytes (drop 12 bs ! 2) (drop 12 bs ! 3)]"
proof -
  have four: "\<exists>a b c d. xs = [a, b, c, d]" if "length xs = 4" for xs :: bytes
    using that by (auto simp: length_Suc_conv numeral_eq_Suc)
  obtain a b c d where d: "drop 12 bs = [a, b, c, d]" using four [of "drop 12 bs"] assms(1) by auto
  have z: "replicate 10 (0::byte) = [0, 0, 0, 0, 0, 0, 0, 0, 0, 0]" by (simp add: numeral_eq_Suc)
  have z5: "replicate 5 (0::u16) = [0, 0, 0, 0, 0]" by (simp add: numeral_eq_Suc)
  show ?thesis by (subst IsMapped_bytes [OF assms]) (simp add: d z z5 word_of_bytes_zero word_of_bytes_ff)
qed

lemma hex_ffff: "to_chars 16 65535 = ''ffff''"
proof -
  have "be_digits 16 65535 = [15, 15, 15, 15]" by (simp add: be_digits.simps)
  moreover have "digit_char 15 = CHR ''f''" by (rule char_eqI) (simp add: digit_char_def)
  ultimately show ?thesis by (simp add: to_chars_def)
qed

lemma ip_v6_roundtrip:
  assumes "ip_ok a" "IsV6 a"
  shows "ParseV6 (ip_text a) = Inr a"
proof -
  let ?bs = "m_bytes a" and ?ws = "LoadWords (m_bytes a)"
  have l: "length ?bs = 16" "length ?ws = 8" "\<not> IsV4 a" using assms by (auto simp: ip_ok_def length_LoadWords IsV4_def IsV6_def)
  have a: "\<lparr>m_family = V6, m_bytes = StoreWords ?ws\<rparr> = a"
    using assms(2) l StoreWords_LoadWords [of ?bs] by (simp add: IsV6_def)
  obtain bb bl where r: "canonical_run ?ws = (bb, bl)" by (cases "canonical_run ?ws")
  consider "IsMapped ?bs" | "\<not> IsMapped ?bs" "bl = 0" | "\<not> IsMapped ?bs" "0 < bl" by blast
  then show ?thesis
  proof cases
    case 1
    let ?d = "drop 12 ?bs"
    have "ip_text a = hexs [] @ ''::'' @ (hex 0xffff @ CHR '':'' # dotted ?d)"
      using 1 l by (simp add: ip_text_def Let_def hex_ffff split: prod.split)
    moreover have "CHR '':'' \<notin> set (dotted ?d)" using dotted_chars [of "CHR '':''" ?d] by auto
    then have "single (hex 0xffff @ CHR '':'' # dotted ?d)" "hd (hex 0xffff @ CHR '':'' # dotted ?d) \<noteq> CHR '':''"
      by (auto simp: hex_ffff successively_Cons no_colon_single) (metis list.set_sel(1))
    ultimately show ?thesis
      using ParseV6_split [of _ "[]", OF _ _ ParseV6Side_mapped [of ?d]] l(1) LoadWords_mapped [OF l(1) 1] a
      by simp
  next
    case 2
    then have "ip_text a = hexs ?ws" using l r by (simp add: ip_text_def Let_def)
    then show ?thesis using ParseV6_plain [of ?ws] l a by simp
  next
    case 3
    let ?ls = "take bb ?ws" and ?rs = "drop (bb + bl) ?ws"
    have z: "zero_run ?ws (bb, bl)"
      using BestRun_zero_run [of ?ws "(length ?ws, 0)" 0] r by (simp add: zero_run_def canonical_run_def)
    then have b: "bb + bl \<le> 8" using 3 l by (auto simp: zero_run_def)
    have t: "ip_text a = hexs ?ls @ ''::'' @ hexs ?rs" using 3 l r by (simp add: ip_text_def Let_def)
    have "8 - (length ?ls + length ?rs) = bl" using b l by simp
    then have "?ls @ replicate (8 - (length ?ls + length ?rs)) 0 @ ?rs = ?ws"
      using zero_run_split [OF z 3(2)] by simp
    moreover have "length ?ls + length ?rs < 8" using b l 3 by simp
    moreover have "single (hexs ?rs)" "hexs ?rs = [] \<or> hd (hexs ?rs) \<noteq> CHR '':''"
      using hexs_single [of ?rs] by (auto simp: hexs_Nil_iff)
    ultimately show ?thesis using ParseV6_split [OF _ _ ParseV6Side_text, of ?rs ?ls] a t by simp
  qed
qed

lemma hexs_chars: "c \<in> set (hexs ws) \<Longrightarrow> c = CHR '':'' \<or> c \<notin> set '':.%[]''"
  using hex_chars by (induction ws) (auto simp: join_with_Cons split: if_splits)

lemma ip_text_chars: "c \<in> set (ip_text a) \<Longrightarrow> c \<notin> set ''%[]''"
  using dotted_chars [of c] hexs_chars [of c] by (auto simp: ip_text_def Let_def split: if_splits prod.splits)

lemma ip_text_colon: "ip_ok a \<Longrightarrow> CHR '':'' \<in> set (ip_text a) \<longleftrightarrow> IsV6 a"
proof -
  assume a: "ip_ok a"
  show ?thesis
  proof (cases "IsV4 a")
    case True
    then show ?thesis using dotted_chars [of "CHR '':''" "take 4 (m_bytes a)"]
      by (auto simp: ip_text_def Let_def IsV4_def IsV6_def split: prod.splits)
  next
    case False
    have "CHR '':'' \<in> set (hexs ws)" if "length ws = 8" for ws
      using that by (cases ws rule: remdups_adj.cases) auto
    then show ?thesis using False a
      by (cases "canonical_run (LoadWords (m_bytes a))") (auto simp: ip_text_def Let_def ip_ok_def length_LoadWords)
  qed
qed

lemma ip_text_nonempty: "ip_ok a \<Longrightarrow> ip_text a \<noteq> []"
proof -
  assume a: "ip_ok a"
  show ?thesis
  proof (cases "IsV4 a")
    case True
    then have "take 4 (m_bytes a) \<noteq> []" using a by (auto simp: ip_ok_def)
    then show ?thesis using True
      by (cases "take 4 (m_bytes a)") (auto simp: ip_text_def Let_def join_with_Cons split: prod.splits)
  next
    case False
    then show ?thesis using ip_text_colon [OF a] a by (auto simp: ip_ok_def)
  qed
qed

lemma ip_roundtrip: "ip_ok a \<Longrightarrow> IpAddress_Parse (ip_text a) = Inr a"
proof -
  assume a: "ip_ok a"
  have p: "find_char (CHR ''%'') (ip_text a) 0 = None" using ip_text_chars [of "CHR ''%''" a] by (auto simp: find_char_None)
  show ?thesis
  proof (cases "IsV6 a")
    case True
    then have "find_char (CHR '':'') (ip_text a) 0 \<noteq> None" using ip_text_colon [OF a] by (simp add: find_char_None)
    then show ?thesis using p ip_v6_roundtrip [OF a True] ip_text_nonempty [OF a] by (simp add: IpAddress_Parse_def)
  next
    case False
    then have v: "IsV4 a" "length (m_bytes a) = 16" "drop 4 (m_bytes a) = replicate 12 0" using a by (auto simp: ip_ok_def)
    then have t: "ip_text a = dotted (take 4 (m_bytes a))" by (simp add: ip_text_def Let_def split: prod.splits)
    have "find_char (CHR '':'') (ip_text a) 0 = None" using False ip_text_colon [OF a] by (simp add: find_char_None)
    moreover have "ParseV4 (ip_text a) 0 = Inr (take 4 (m_bytes a))" using v t ParseV4_exact by simp
    moreover have "take 4 (m_bytes a) @ replicate 12 0 = m_bytes a" using v(3) by (metis append_take_drop_id)
    ultimately show ?thesis using p ip_text_nonempty [OF a] v(1) by (simp add: IpAddress_Parse_def IsV4_def)
  qed
qed

lemma ParseV6_ok: "ParseV6 tx = Inr a \<Longrightarrow> ip_ok a \<and> IsV6 a"
  by (auto simp: ParseV6_def Let_def ip_ok_def IsV6_def length_StoreWords split: if_splits sum.splits)

lemma IpAddress_Parse_ok: "IpAddress_Parse tx = Inr a \<Longrightarrow> ip_ok a \<and> (IsV4 a \<longrightarrow> tx = ip_text a)"
proof -
  assume p: "IpAddress_Parse tx = Inr a"
  show ?thesis
  proof (cases "find_char (CHR '':'') tx 0")
    case None
    then obtain bs where "ParseV4 tx 0 = Inr bs" "a = \<lparr>m_family = V4, m_bytes = bs @ replicate 12 0\<rparr>"
      using p by (auto simp: IpAddress_Parse_def split: if_splits option.splits sum.splits)
    then show ?thesis using ParseV4_exact [of tx 0 bs]
      by (simp add: ip_ok_def IsV4_def ip_text_def Let_def split: prod.split)
  next
    case (Some n)
    then have "ParseV6 tx = Inr a" using p by (auto simp: IpAddress_Parse_def split: if_splits option.splits)
    then show ?thesis using ParseV6_ok by (auto simp: IsV4_def IsV6_def)
  qed
qed

section \<open>Error offsets\<close>

lemma offset_parse_error [simp]: "offset (parse_error c n) = n"
  by (simp add: parse_error_def)

lemma ParseV4_token_offset:
  "ParseV4_token tok base = Inl e \<Longrightarrow> offset e \<le> base + length tok"
  using from_chars_length [of 32 10 tok]
  by (auto simp: ParseV4_token_def split: if_splits prod.splits)

lemma ParseV4_loop_offset:
  "b0 \<le> length tx \<Longrightarrow> ParseV4_loop tx base component b0 bytes = Inl e \<Longrightarrow> offset e \<le> base + length tx"
proof (induction "length bytes - component" arbitrary: component b0 bytes)
  case 0
  then show ?case by (subst (asm) ParseV4_loop.simps) simp
next
  case (Suc k)
  have c: "component < length bytes" using Suc.hyps(2) by simp
  have tk: "offset e \<le> base + length tx"
    if "ParseV4_token (substr tx b0 n) (base + b0) = Inl e" for n
    using ParseV4_token_offset [OF that] Suc.prems(1) by (simp add: substr_def)
  have IH: "offset e \<le> base + length tx"
    if "ParseV4_loop tx base (Suc component) q (bytes[component := v]) = Inl e" "q \<le> length tx" for q v
    using Suc.hyps(1) [of "bytes[component := v]" "Suc component" q] Suc.hyps(2) that by simp
  have fin: "ParseV4_loop tx base m q xs = Inr xs" if "length xs \<le> m" for m q xs
    using that by (subst ParseV4_loop.simps) simp
  show ?case
    using Suc.prems(2) c find_char_bounds [of "CHR ''.''" tx b0]
    by (subst (asm) ParseV4_loop.simps)
      (auto simp: Let_def fin Suc_le_eq split: if_splits sum.splits option.splits intro: tk IH less_imp_le)
qed

lemma ParseV4_offset: "ParseV4 tx base = Inl e \<Longrightarrow> offset e \<le> base + length tx"
  unfolding ParseV4_def by (rule ParseV4_loop_offset) simp_all

lemma ParseV6Side_loop_offset:
  "ParseV6Side_loop tx base allow b0 words = Inl e \<Longrightarrow> offset e \<le> base + length tx"
proof (induction "Suc (length tx) - b0" arbitrary: b0 words rule: less_induct)
  case less
  show ?case
  proof (cases "b0 \<le> length tx")
    case b: True
    have v4: "offset e \<le> base + length tx" if "ParseV4 (substr tx b0 n) (base + b0) = Inl e" for n
      using ParseV4_offset [OF that] b by (simp add: substr_def)
    have hx: "base + b0 + ptr \<le> base + length tx" if "from_chars 32 16 (substr tx b0 n) = (ec, ptr, v)" for n ec ptr v
      using from_chars_length [OF that] b by (auto simp: substr_def)
    have IH: "offset e \<le> base + length tx"
      if "ParseV6Side_loop tx base allow (Suc n) ws = Inl e" "find_char (CHR '':'') tx b0 = Some n" for n ws
      using that(1) by (rule less.hyps [rotated]) (use find_char_bounds [OF that(2)] in auto)
    show ?thesis
      using less.prems b
      by (subst (asm) ParseV6Side_loop.simps)
        (auto simp: Let_def split: if_splits sum.splits option.splits prod.splits intro: v4 IH dest: hx)
  next
    case False
    then show ?thesis using less.prems by (subst (asm) ParseV6Side_loop.simps) simp
  qed
qed

lemma ParseV6Side_offset: "ParseV6Side tx base allow = Inl e \<Longrightarrow> offset e \<le> base + length tx"
  by (auto simp: ParseV6Side_def split: if_splits dest: ParseV6Side_loop_offset)

lemma find_colons_bound: "find_colons tx pos = Some n \<Longrightarrow> n + 2 \<le> length tx"
proof (induction tx pos rule: find_colons.induct)
  case (1 tx pos)
  then show ?case by (subst (asm) (2) find_colons.simps) (auto split: if_splits)
qed

lemma ParseV6_offset: "ParseV6 tx = Inl e \<Longrightarrow> offset e \<le> length tx"
proof (cases "find_colons tx 0")
  case None
  moreover assume "ParseV6 tx = Inl e"
  ultimately show ?thesis using ParseV6Side_offset [of tx 0 True e]
    by (auto simp: ParseV6_def Let_def ParseV6Side_def [of "[]"] split: if_splits sum.splits)
next
  case (Some n)
  note b = find_colons_bound [OF Some]
  assume "ParseV6 tx = Inl e"
  then show ?thesis using Some b ParseV6Side_offset [of "substr tx 0 n" 0 False e] ParseV6Side_offset [of "drop (n + 2) tx" "n + 2" True e]
    by (auto simp: ParseV6_def Let_def substr_def split: if_splits sum.splits)
qed

lemma IpAddress_Parse_offset: "IpAddress_Parse tx = Inl e \<Longrightarrow> offset e \<le> length tx"
  using ParseV6_offset [of tx e] ParseV4_offset [of tx 0 e]
  by (auto simp: IpAddress_Parse_def dest: find_char_bounds split: if_splits option.splits sum.splits)

lemma ParsePort_offset: "ParsePort tx offs = Inl e \<Longrightarrow> offset e \<le> offs + length tx"
  using from_chars_length [of 32 10 tx] by (auto simp: ParsePort_def split: if_splits prod.splits)

lemma ParseScope_offset: "ParseScope tx offs = Inl e \<Longrightarrow> offset e \<le> offs + length tx"
  using from_chars_length [of 32 10 tx] by (auto simp: ParseScope_def split: if_splits prod.splits)

lemma ParseEndpointParts_offset:
  assumes "ParseEndpointParts br at sc pt po = Inl e" "po + length pt \<le> n" "(if br then 1 else 0) + length at \<le> n" "1 \<le> n"
  shows "offset e \<le> n"
  using assms IpAddress_Parse_offset [of at] ParsePort_offset [of pt po]
  by (fastforce simp: ParseEndpointParts_def split: if_splits sum.splits)

lemma Endpoint_Parse_offset: "Endpoint_Parse tx = Inl e \<Longrightarrow> offset e \<le> length tx"
proof -
  assume p: "Endpoint_Parse tx = Inl e"
  consider "tx = []" | "tx \<noteq> []" "hd tx = CHR ''[''" "find_char (CHR '']'') tx 0 = None"
    | n where "tx \<noteq> []" "hd tx = CHR ''[''" "find_char (CHR '']'') tx 0 = Some n"
    | "tx \<noteq> []" "hd tx \<noteq> CHR ''[''" by blast
  then show ?thesis
  proof cases
    case (3 n)
    note f = find_char_Some [OF 3(3)]
    let ?at = "substr tx 1 (n - 1)"
    have at: "length ?at + 1 \<le> length tx" using f 3(1) by (cases tx) (auto simp: substr_def)
    have ep: "offset e \<le> length tx"
      if "ParseEndpointParts True a sc (drop (n + 2) tx) (n + 2) = Inl e" "length a \<le> length ?at" "n + 1 < length tx" for a sc
      using ParseEndpointParts_offset [OF that(1), of "length tx"] that at by simp
    have sc: "offset e \<le> length tx"
      if "ParseScope (drop (k + 1) ?at) (k + 2) = Inl e" "find_char (CHR ''%'') ?at 0 = Some k" for k
      using ParseScope_offset [OF that(1)] find_char_bounds [OF that(2)] at by auto
    show ?thesis using p 3 f
      by (auto simp: Endpoint_Parse_def Let_def split: if_splits option.splits sum.splits
          intro: ep sc dest: find_char_bounds) (auto intro!: ep simp: substr_def)
  next
    case 4
    have "n < length tx" if "rfind_char (CHR '':'') tx = Some n" for n
      using that by (auto simp: rfind_char_def Let_def split: if_splits)
    then show ?thesis using p 4
      by (auto simp: Endpoint_Parse_def Let_def substr_def split: if_splits option.splits
          elim!: ParseEndpointParts_offset)
  qed (use p in \<open>auto simp: Endpoint_Parse_def\<close>)
qed

section \<open>Endpoints\<close>

definition endpoint_ok :: "Endpoint \<Rightarrow> bool" where
  "endpoint_ok e \<longleftrightarrow> ip_ok (address e) \<and> (IsV6 (address e) \<or> scopeId e = 0)"

definition endpoint_text :: "Endpoint \<Rightarrow> string" where
  "endpoint_text e =
     (if IsV6 (address e) then
        ''['' @ ip_text (address e) @ (if scopeId e \<noteq> 0 then ''%'' @ to_chars 10 (unat (scopeId e)) else []) @ '']''
      else ip_text (address e)) @ '':'' @ to_chars 10 (unat (port e))"

lemma ip_ok_length: "ip_ok a \<Longrightarrow> length (m_bytes a) = 16" and ip_ok_valid: "ip_ok a \<Longrightarrow> IsValid a"
  by (auto simp: ip_ok_def IsValid_def)

lemma length_ip_text: "ip_ok a \<Longrightarrow> length (ip_text a) \<le> 39"
  using FormatText_exact ip_ok_length by blast

lemma length_port: "length (to_chars 10 (unat (p :: u16))) \<le> 5"
  by (rule length_to_chars) (use unat_u16_less [of p] in simp_all)

lemma unat_u32_less: "unat (s :: u32) < 4294967296"
  using unsigned_less [of s] by simp

lemma length_scope: "length (to_chars 10 (unat (s :: u32))) \<le> 10"
  by (rule length_to_chars) (use unat_u32_less [of s] in simp_all)

text \<open>Formatting the address into the rest of the array.\<close>

lemma TryFormat_sub:
  assumes "ip_ok a" "length s + 39 \<le> n"
  shows "TryFormat a (drop (length s) (fst (buf n s))) =
    Some (True, ip_text a @ replicate (n - length s - length (ip_text a)) (CHR 0x00), length (ip_text a))"
  using TryFormat_exact [OF ip_ok_length [OF assms(1)], of "replicate (n - length s) (CHR 0x00)"]
    ip_ok_valid [OF assms(1)] length_ip_text [OF assms(1)] assms(2) by simp

lemma Endpoint_FormatText_exact:
  assumes "ip_ok (address e)"
  shows "Endpoint_FormatText e = Some (True, buf 96 (endpoint_text e)) \<and> length (endpoint_text e) \<le> 58"
proof -
  let ?a = "address e" and ?t = "ip_text (address e)" and ?p = "to_chars 10 (unat (port e))"
    and ?s = "to_chars 10 (unat (scopeId e))"
  have l: "length ?t \<le> 39" "length ?p \<le> 5" "length ?s \<le> 10"
    using length_ip_text [OF assms] length_port length_scope by auto
  have tail: "emit (buf 96 s) '':'' \<bind> (\<lambda>st. emit st ?p \<bind> (\<lambda>(output, n). Some (True, output, n))) =
      Some (True, buf 96 (s @ '':'' @ ?p))" if "length s \<le> 52" for s
    using that l emit_buf [of s "'':''" 96] emit_buf [of "s @ '':''" ?p 96] by simp
  show ?thesis
  proof (cases "IsV6 ?a")
    case False
    then show ?thesis using TryFormat_sub [OF assms, of "[]" 96] tail [of ?t] l
      by (simp add: Endpoint_FormatText_def endpoint_text_def)
  next
    case True
    have f: "TryFormat ?a (replicate 95 (CHR 0x00)) = Some (True, ?t @ replicate (95 - length ?t) (CHR 0x00), length ?t)"
      using TryFormat_sub [OF assms, of "''[''" 96] by simp
    have o: "emit (replicate 96 (CHR 0x00), 0) ''['' = Some (buf 96 ''['')" using emit_buf [of "[]" "''[''" 96] by simp
    let ?b = "''['' @ ?t" and ?c = "if scopeId e \<noteq> 0 then ''%'' @ ?s else []"
    have b: "take 1 (''['' @ replicate 95 (CHR 0x00)) @ ?t @ replicate (95 - length ?t) (CHR 0x00) = fst (buf 96 ?b)"
      using l by simp
    have e: "emit (buf 96 ?b) ''%'' = Some (buf 96 (?b @ ''%''))" "emit (buf 96 (?b @ ''%'')) ?s = Some (buf 96 (?b @ ''%'' @ ?s))"
      "emit (buf 96 (?b @ ?c)) '']'' = Some (buf 96 (?b @ ?c @ '']''))"
      using l emit_buf [of ?b "''%''" 96] emit_buf [of "?b @ ''%''" ?s 96] emit_buf [of "?b @ ?c" "'']''" 96] by auto
    show ?thesis
    proof (cases "scopeId e = 0")
      case s0: True
      then show ?thesis using True f o b e(3) tail [of "?b @ '']''"] l
        by (simp add: Endpoint_FormatText_def endpoint_text_def Let_def del: emit.simps)
    next
      case False
      then show ?thesis using True f o b e tail [of "?b @ ''%'' @ ?s @ '']''"] l
        by (simp add: Endpoint_FormatText_def endpoint_text_def Let_def del: emit.simps)
    qed
  qed
qed

lemma Endpoint_TryFormat_exact:
  assumes "ip_ok (address e)"
  shows "Endpoint_TryFormat e dest = Some (if length (endpoint_text e) \<le> length dest
    then (True, endpoint_text e @ drop (length (endpoint_text e)) dest, length (endpoint_text e)) else (False, dest, 0))"
  using Endpoint_FormatText_exact [OF assms] by (simp add: Endpoint_TryFormat_def not_le)

lemma Endpoint_ToString_exact: "ip_ok (address e) \<Longrightarrow> Endpoint_ToString e = Some (endpoint_text e)"
  using Endpoint_TryFormat_exact [of e "replicate 96 (CHR 0x00)"] Endpoint_FormatText_exact [of e]
  by (simp add: Endpoint_ToString_def)

lemma ParsePort_text: "ParsePort (to_chars 10 (unat p)) offs = Inr p"
proof -
  have "from_chars 32 10 (to_chars 10 (unat p)) = (ErrcNone, length (to_chars 10 (unat p)), unat p)"
    using unat_u16_less [of p] by (intro from_to_chars) simp_all
  then show ?thesis using unat_u16_less [of p] by (simp add: ParsePort_def)
qed

lemma ParseScope_text: "ParseScope (to_chars 10 (unat s)) offs = Inr s"
proof -
  have "from_chars 32 10 (to_chars 10 (unat s)) = (ErrcNone, length (to_chars 10 (unat s)), unat s)"
    using unat_u32_less [of s] by (intro from_to_chars) simp_all
  then show ?thesis by (simp add: ParseScope_def)
qed

lemma number_chars: "c \<in> set (to_chars 10 n) \<Longrightarrow> c \<notin> set '':.%[]''"
  using to_chars_digits [of 10 n] digit_not_special [of 10 c] by simp

lemma ParseEndpointParts_text:
  assumes "endpoint_ok e" "br \<longrightarrow> IsV6 (address e)"
  shows "ParseEndpointParts br (ip_text (address e)) (scopeId e) (to_chars 10 (unat (port e))) n = Inr e"
  using assms ip_roundtrip [of "address e"] ParsePort_text [of "port e" n]
  by (auto simp: ParseEndpointParts_def endpoint_ok_def)

lemma Endpoint_Parse_bracket:
  assumes "CHR '']'' \<notin> set m"
  shows "Endpoint_Parse (''['' @ m @ CHR '']'' # CHR '':'' # p) = (case find_char (CHR ''%'') m 0 of
      None \<Rightarrow> ParseEndpointParts True m 0 p (length m + 3)
    | Some percent \<Rightarrow> (case ParseScope (drop (percent + 1) m) (percent + 2) of Inl x \<Rightarrow> Inl x
        | Inr scope \<Rightarrow> ParseEndpointParts True (substr m 0 percent) scope p (length m + 3)))"
proof -
  have "find_char (CHR '']'') (''['' @ m @ CHR '']'' # CHR '':'' # p) 0 = Some (length m + 1)"
    using find_char_append [of "CHR '']''" "''['' @ m" "[]" "CHR '':'' # p"] assms by simp
  then show ?thesis by (simp add: Endpoint_Parse_def Let_def substr_def nth_append eval_nat_numeral cong: option.case_cong sum.case_cong)
qed

lemma Endpoint_roundtrip:
  assumes "endpoint_ok e"
  shows "Endpoint_Parse (endpoint_text e) = Inr e"
proof -
  let ?t = "ip_text (address e)" and ?p = "to_chars 10 (unat (port e))" and ?s = "to_chars 10 (unat (scopeId e))"
  have ok: "ip_ok (address e)" using assms by (simp add: endpoint_ok_def)
  show ?thesis
  proof (cases "IsV6 (address e)")
    case True
    let ?m = "?t @ (if scopeId e \<noteq> 0 then ''%'' @ ?s else [])"
    have np: "CHR ''%'' \<notin> set ?t" using ip_text_chars [of "CHR ''%''"] by auto
    have tx: "endpoint_text e = ''['' @ ?m @ CHR '']'' # CHR '':'' # ?p" using True by (simp add: endpoint_text_def)
    have "CHR '']'' \<notin> set ?m" using ip_text_chars [of "CHR '']''"] number_chars [of "CHR '']''"] by auto
    from Endpoint_Parse_bracket [OF this, of ?p] have "Endpoint_Parse (endpoint_text e) = (case find_char (CHR ''%'') ?m 0 of
        None \<Rightarrow> ParseEndpointParts True ?m 0 ?p (length ?m + 3)
      | Some percent \<Rightarrow> (case ParseScope (drop (percent + 1) ?m) (percent + 2) of Inl x \<Rightarrow> Inl x
          | Inr scope \<Rightarrow> ParseEndpointParts True (substr ?m 0 percent) scope ?p (length ?m + 3)))"
      by (simp only: tx)
    also have "\<dots> = Inr e"
    proof (cases "scopeId e = 0")
      case True
      have "find_char (CHR ''%'') ?t 0 = None" using np by (simp add: find_char_None)
      then show ?thesis using True ParseEndpointParts_text [OF assms, of True] \<open>IsV6 (address e)\<close> by simp
    next
      case False
      have "find_char (CHR ''%'') (?t @ ''%'' @ ?s) 0 = Some (length ?t)" using find_char_append [OF np, of "[]" ?s] by simp
      then show ?thesis using False ParseScope_text ParseEndpointParts_text [OF assms, of True] \<open>IsV6 (address e)\<close>
        by (simp add: substr_def)
    qed
    finally show ?thesis .
  next
    case False
    have s: "scopeId e = 0" using assms False by (simp add: endpoint_ok_def)
    have tx: "endpoint_text e = ?t @ CHR '':'' # ?p" using False by (simp add: endpoint_text_def)
    have nc: "CHR '':'' \<notin> set ?t" using False ip_text_colon [OF ok] by simp
    have np: "CHR '':'' \<notin> set ?p" using number_chars [of "CHR '':''"] by auto
    have f: "find_char (CHR '':'') (endpoint_text e) 0 = Some (length ?t)" using find_char_append [OF nc, of "[]" ?p] tx by simp
    have "takeWhile (\<lambda>c. c \<noteq> CHR '':'') (rev (endpoint_text e)) = rev ?p"
      using np by (simp add: tx takeWhile_append)
    then have r: "rfind_char (CHR '':'') (endpoint_text e) = Some (length ?t)" by (simp add: rfind_char_def tx)
    have "hd (endpoint_text e) \<noteq> CHR ''[''"
      using ip_text_nonempty [OF ok] ip_text_chars [of "hd ?t"] by (auto simp: tx hd_append) (metis list.set_sel(1))
    then show ?thesis using f r s ParseEndpointParts_text [OF assms, of False]
      by (simp add: Endpoint_Parse_def Let_def tx substr_def)
  qed
qed

section \<open>The longest run\<close>

definition zeros :: "u16 list \<Rightarrow> nat \<Rightarrow> nat \<Rightarrow> bool" where
  "zeros ws i n \<longleftrightarrow> 2 \<le> n \<and> i + n \<le> length ws \<and> (\<forall>j. i \<le> j \<and> j < i + n \<longrightarrow> ws ! j = 0)"

definition run_inv :: "u16 list \<Rightarrow> nat \<Rightarrow> nat \<times> nat \<Rightarrow> bool" where
  "run_inv ws b best \<longleftrightarrow> (snd best = 0 \<or> fst best \<le> b) \<and> (0 < b \<and> b < length ws \<longrightarrow> ws ! (b - 1) \<noteq> 0 \<or> ws ! b \<noteq> 0) \<and>
     (\<forall>i n. zeros ws i n \<and> i < b \<longrightarrow> n \<le> snd best \<and> (n = snd best \<longrightarrow> fst best \<le> i))"

lemma zeros_cross:
  assumes "zeros ws i n" "i < b" "0 < b \<and> b < length ws \<longrightarrow> ws ! (b - 1) \<noteq> 0 \<or> ws ! b \<noteq> 0"
  shows "i + n \<le> b"
proof (rule ccontr)
  assume "\<not> i + n \<le> b"
  then have "i \<le> b - 1" "b - 1 < i + n" "i \<le> b" "b < i + n" using assms(2) by simp_all
  then have "ws ! (b - 1) = 0" "ws ! b = 0" "b < length ws" using assms(1) unfolding zeros_def by (blast, blast, linarith)
  then show False using assms(2,3) by auto
qed

lemma ZeroRunEnd_stop: "e \<le> length ws \<Longrightarrow> ZeroRunEnd ws e < length ws \<Longrightarrow> ws ! ZeroRunEnd ws e \<noteq> 0"
proof (induction ws e rule: ZeroRunEnd.induct)
  case (1 ws e)
  then show ?case by (cases "e < length ws \<and> ws ! e = 0") (auto simp: ZeroRunEnd.simps [of ws e])
qed

lemma run_inv_nonzero: "run_inv ws b best \<Longrightarrow> ws ! b \<noteq> 0 \<Longrightarrow> run_inv ws (b + 1) best"
  unfolding run_inv_def by (auto simp: less_Suc_eq) (auto simp: zeros_def)

lemma run_inv_run:
  assumes "run_inv ws b best" "b < length ws" "ws ! b = 0"
  defines "e \<equiv> ZeroRunEnd ws b"
  shows "run_inv ws e (if snd best < e - b \<and> 2 \<le> e - b then (b, e - b) else best)"
proof -
  let ?best = "if snd best < e - b \<and> 2 \<le> e - b then (b, e - b) else best"
  have e: "b < e" "e \<le> length ws" "e < length ws \<longrightarrow> ws ! e \<noteq> 0"
    using assms ZeroRunEnd_grows ZeroRunEnd_le [of b ws] ZeroRunEnd_stop [of b ws] by auto
  have "n \<le> snd ?best \<and> (n = snd ?best \<longrightarrow> fst ?best \<le> i)" if z: "zeros ws i n" "i < e" for i n
  proof (cases "i < b")
    case True
    then have "n \<le> snd best \<and> (n = snd best \<longrightarrow> fst best \<le> i)" using assms(1) z by (simp add: run_inv_def)
    then show ?thesis by auto
  next
    case False
    have "i + n \<le> e" using zeros_cross [OF z] e by blast
    moreover have "2 \<le> n" using z by (simp add: zeros_def)
    moreover have "snd best = 0 \<or> fst best \<le> b" using assms(1) by (simp add: run_inv_def)
    ultimately show ?thesis using False by auto
  qed
  moreover have "snd ?best = 0 \<or> fst ?best \<le> e" using assms(1) e by (auto simp: run_inv_def)
  ultimately show ?thesis using e unfolding run_inv_def by blast
qed

lemma BestRun_longest: "run_inv ws b best \<Longrightarrow> b \<le> length ws \<Longrightarrow> run_inv ws (length ws) (BestRun ws b best)"
proof (induction ws b best rule: BestRun.induct)
  case (1 ws b best)
  consider "b = length ws" | "b < length ws" "ws ! b \<noteq> 0" | "b < length ws" "ws ! b = 0" using "1.prems" by linarith
  then show ?case
  proof cases
    case 1
    then show ?thesis using "1.prems" by (subst BestRun.simps) simp
  next
    case 2
    then show ?thesis using "1.IH"(1) run_inv_nonzero [OF "1.prems"(1)] by (simp add: BestRun.simps [of ws b best])
  next
    case 3
    then show ?thesis using "1.IH"(2) [OF 3(1) _ refl] run_inv_run [OF "1.prems"(1) 3] ZeroRunEnd_le [of b ws]
      by (simp add: BestRun.simps [of ws b best] Let_def)
  qed
qed

lemma canonical_run_longest:
  assumes "zeros ws i n" "canonical_run ws = (bb, bl)"
  shows "n \<le> bl \<and> (n = bl \<longrightarrow> bb \<le> i)"
proof -
  have "run_inv ws 0 (length ws, 0)" by (simp add: run_inv_def)
  from BestRun_longest [OF this] have "run_inv ws (length ws) (bb, bl)" using assms(2) by (simp add: canonical_run_def)
  moreover have "i < length ws" using assms(1) by (simp add: zeros_def)
  ultimately show ?thesis using assms(1) by (simp add: run_inv_def)
qed

section \<open>Properties\<close>

text \<open>
  C21: Formatting a well-formed address returns (no write leaves the local array), the text has at most 39
  characters and parses back to the address, and \<open>TryFormat\<close> fills the start of every destination that is
  long enough and leaves a shorter one alone.
\<close>

theorem IpAddress_roundtrip:
  assumes "ip_ok a"
  shows "\<exists>s. IpAddress_ToString a = Some s \<and> length s \<le> 39 \<and> IpAddress_Parse s = Inr a \<and>
    (\<forall>dest. TryFormat a dest =
       Some (if length s \<le> length dest then (True, s @ drop (length s) dest, length s) else (False, dest, 0)))"
  using ToString_exact [OF ip_ok_length [OF assms]] TryFormat_exact [OF ip_ok_length [OF assms]] ip_ok_valid [OF assms]
    length_ip_text [OF assms] ip_roundtrip [OF assms]
  by (intro exI [of _ "ip_text a"]) simp

theorem IpAddress_roundtrip_witness:
  "ip_ok LoopbackV6 \<and> (\<exists>s. IpAddress_ToString LoopbackV6 = Some s \<and> IpAddress_Parse s = Inr LoopbackV6)"
proof -
  have "ip_ok LoopbackV6" by (simp add: ip_ok_def LoopbackV6_def IsV6_def)
  with IpAddress_roundtrip [OF this] show ?thesis by blast
qed

text \<open>
  C22: The same for endpoints with ports and IPv6 scopes: the text has at most 58 characters, parses back
  to the endpoint and is copied only to a destination that is long enough.
\<close>

theorem Endpoint_roundtrips:
  assumes "endpoint_ok e"
  shows "\<exists>s. Endpoint_ToString e = Some s \<and> length s \<le> 58 \<and> Endpoint_Parse s = Inr e \<and>
    (\<forall>dest. Endpoint_TryFormat e dest =
       Some (if length s \<le> length dest then (True, s @ drop (length s) dest, length s) else (False, dest, 0)))"
proof -
  have "ip_ok (address e)" using assms by (simp add: endpoint_ok_def)
  from Endpoint_ToString_exact [OF this] Endpoint_TryFormat_exact [OF this] Endpoint_FormatText_exact [OF this] Endpoint_roundtrip [OF assms]
  show ?thesis by (intro exI [of _ "endpoint_text e"]) simp
qed

theorem Endpoint_roundtrips_witness:
  "endpoint_ok \<lparr>address = LoopbackV6, port = 8080, scopeId = 3\<rparr> \<and>
   (\<exists>s. Endpoint_ToString \<lparr>address = LoopbackV6, port = 8080, scopeId = 3\<rparr> = Some s \<and>
      Endpoint_Parse s = Inr \<lparr>address = LoopbackV6, port = 8080, scopeId = 3\<rparr>)"
proof -
  have "endpoint_ok \<lparr>address = LoopbackV6, port = 8080, scopeId = 3\<rparr>"
    by (simp add: endpoint_ok_def ip_ok_def LoopbackV6_def IsV6_def)
  with Endpoint_roundtrips [OF this] show ?thesis by blast
qed

lemma ParseEndpointParts_ok: "ParseEndpointParts br at sc pt po = Inr e \<Longrightarrow> endpoint_ok e"
  by (auto simp: ParseEndpointParts_def endpoint_ok_def ip_ok_def dest: IpAddress_Parse_ok split: if_splits sum.splits)

lemma Endpoint_Parse_ok: "Endpoint_Parse tx = Inr e \<Longrightarrow> endpoint_ok e"
  by (auto simp: Endpoint_Parse_def Let_def dest: ParseEndpointParts_ok split: if_splits sum.splits option.splits)

text \<open>
  C10: For every text the parsers return a well-formed value or an error whose offset lies in the text. An
  accepted IPv4 address has exactly the accepted text as its canonical text.
\<close>

theorem address_parsers_sound:
  "(case IpAddress_Parse tx of
      Inl e \<Rightarrow> offset e \<le> length tx
    | Inr a \<Rightarrow> ip_ok a \<and> (case m_family a of V4 \<Rightarrow> IpAddress_ToString a = Some tx | V6 \<Rightarrow> CHR '':'' \<in> set tx | DualStack \<Rightarrow> False)) \<and>
   (case Endpoint_Parse tx of Inl e \<Rightarrow> offset e \<le> length tx | Inr e \<Rightarrow> endpoint_ok e)"
proof
  show "case IpAddress_Parse tx of
      Inl e \<Rightarrow> offset e \<le> length tx
    | Inr a \<Rightarrow> ip_ok a \<and> (case m_family a of V4 \<Rightarrow> IpAddress_ToString a = Some tx | V6 \<Rightarrow> CHR '':'' \<in> set tx | DualStack \<Rightarrow> False)"
  proof (cases "IpAddress_Parse tx")
    case (Inr a)
    note p = IpAddress_Parse_ok [OF Inr]
    have "m_family a = V6 \<Longrightarrow> find_char (CHR '':'') tx 0 \<noteq> None"
      using Inr by (auto simp: IpAddress_Parse_def split: if_splits option.splits sum.splits)
    then show ?thesis using Inr p ToString_exact [OF ip_ok_length, of a] ip_ok_valid [of a]
      by (cases "m_family a") (auto simp: IsV4_def IsV6_def IsValid_def find_char_None)
  qed (simp add: IpAddress_Parse_offset)
  show "case Endpoint_Parse tx of Inl e \<Rightarrow> offset e \<le> length tx | Inr e \<Rightarrow> endpoint_ok e"
    by (simp add: Endpoint_Parse_offset Endpoint_Parse_ok split: sum.split)
qed

text \<open>
  C23: The text of every address. An IPv4 address is written dotted, an IPv4-mapped IPv6 address as \<open>::ffff:\<close> and its IPv4 part dotted; any other
  IPv6 address as its words in hexadecimal, with the first of the longest runs of at least two zero words replaced by \<open>::\<close>, when there is such a run.
\<close>

theorem ToString_compresses_longest_run:
  assumes "ip_ok a"
  shows "\<exists>bb bl. IpAddress_ToString a =
      Some (if IsV4 a then dotted (take 4 (m_bytes a))
            else if IsMapped (m_bytes a) then ''::ffff:'' @ dotted (drop 12 (m_bytes a))
            else if bl = 0 then hexs (LoadWords (m_bytes a))
            else hexs (take bb (LoadWords (m_bytes a))) @ ''::'' @ hexs (drop (bb + bl) (LoadWords (m_bytes a)))) \<and>
    (bl = 0 \<or> zeros (LoadWords (m_bytes a)) bb bl) \<and>
    (\<forall>i n. zeros (LoadWords (m_bytes a)) i n \<longrightarrow> n \<le> bl \<and> (n = bl \<longrightarrow> bb \<le> i))"
proof -
  let ?ws = "LoadWords (m_bytes a)"
  obtain bb bl where r: "canonical_run ?ws = (bb, bl)" by (cases "canonical_run ?ws")
  have "zero_run ?ws (bb, bl)"
    using BestRun_zero_run [of ?ws "(length ?ws, 0)" 0] r by (simp add: zero_run_def canonical_run_def)
  then have "bl = 0 \<or> zeros ?ws bb bl" by (auto simp: zero_run_def zeros_def)
  then show ?thesis
    using assms r ToString_exact [OF ip_ok_length, of a] ip_ok_valid [of a] canonical_run_longest [OF _ r]
    by - (rule exI [of _ bb], rule exI [of _ bl], simp add: ip_text_def Let_def)
qed

theorem ToString_compresses_longest_run_witness:
  "ip_ok LoopbackV6 \<and>
   (\<exists>bb bl. (bl = 0 \<or> zeros (LoadWords (m_bytes LoopbackV6)) bb bl) \<and>
     (\<forall>i n. zeros (LoadWords (m_bytes LoopbackV6)) i n \<longrightarrow> n \<le> bl \<and> (n = bl \<longrightarrow> bb \<le> i)))"
proof -
  have "ip_ok LoopbackV6" by (simp add: ip_ok_def LoopbackV6_def IsV6_def)
  with ToString_compresses_longest_run [OF this] show ?thesis by blast
qed

end
