(* ===== verification/Containers_FlatHashMap.thy ===== *)
theory Containers_FlatHashMap
  imports NGIN_Prelude
begin

text \<open>
  The open-addressing hash map (\<open>include/NGIN/Containers/FlatHashMap.hpp\<close>): linear probing, growth at a
  load of three quarters, deletion by backward shift.

  \<^item> A bucket that is not occupied is \<^term>\<open>None\<close>, an occupied one holds the cached hash, the key and
    the value; constructing and destroying the objects are the steps between the two.
  \<^item> The hash function is a parameter, \<open>KeyEqual\<close> is the default \<open>std::equal_to\<close>. The allocator is the
    parameter \<open>alloc\<close>: whether an allocation of that many buckets succeeds. Sizes are natural numbers: the model is the code where
    \<open>std::bit_ceil\<close> has a result (requests up to \<open>2 ^ 63\<close>) and \<open>capacity * sizeof(Bucket)\<close> does not wrap around, which the code
    does not test; \<open>alloc\<close> stands for requests whose number of bytes is below \<open>2 ^ 64\<close>.
  \<^item> \<open>m_buckets == nullptr\<close> (a map that was moved from) is the empty list of buckets.
  \<^item> Operations that can throw return the state they leave behind and the exception, if any. Loops
    that have no bound of their own are partial functions; \<^term>\<open>None\<close> stands for not ending.
  \<^item> The tests on \<open>double\<close> are exact for sizes below \<open>2 ^ 50\<close>: the load factor divides by a power of two,
    and \<open>count / 0.75\<close> is an integer or at least a third away from one. They are integer tests here.
\<close>

section \<open>Data\<close>

record ('k, 'v) Entry =
  hash :: u64
  key :: 'k
  val :: 'v

type_synonym ('k, 'v) Bucket = "('k, 'v) Entry option"

record ('k, 'v) FlatHashMap =
  m_buckets :: "('k, 'v) Bucket list"
  m_capacity :: nat
  m_mask :: nat
  m_size :: nat

datatype exn = bad_alloc | out_of_range

text \<open>\<open>kInitialCapacity\<close>\<close>

definition kInitialCapacity :: nat where
  "kInitialCapacity = 16"

text \<open>\<open>std::bit_ceil\<close>: the least power of two that is not less, found by doubling.\<close>

function bit_ceil_from :: "nat \<Rightarrow> nat \<Rightarrow> nat" where
  "bit_ceil_from p n = (if p < n \<and> 0 < p then bit_ceil_from (2 * p) n else p)"
  by pat_completeness auto
termination
  by (relation "measure (\<lambda>(p, n). n - p)") auto

declare bit_ceil_from.simps [simp del]

definition NextPow2 :: "nat \<Rightarrow> nat" where
  "NextPow2 n = (if n \<le> 1 then 1 else bit_ceil_from 1 n)"

definition IsPowerOfTwo :: "nat \<Rightarrow> bool" where
  "IsPowerOfTwo n \<longleftrightarrow> n \<noteq> 0 \<and> n AND (n - 1) = 0"

text \<open>\<open>(to - from) & mask\<close> on 64-bit words.\<close>

definition Distance :: "nat \<Rightarrow> nat \<Rightarrow> nat \<Rightarrow> nat" where
  "Distance src dst mk = unat ((word_of_nat dst - word_of_nat src) AND word_of_nat mk :: u64)"

text \<open>\<open>hash & m_mask\<close>\<close>

definition home_of :: "u64 \<Rightarrow> nat \<Rightarrow> nat" where
  "home_of h mk = unat (h AND word_of_nat mk)"

section \<open>Storage\<close>

definition AllocateBuckets :: "(nat \<Rightarrow> bool) \<Rightarrow> nat \<Rightarrow> ('k, 'v) Bucket list option" where
  "AllocateBuckets alloc cap = (if alloc cap then Some (replicate cap None) else None)"

definition Initialize :: "(nat \<Rightarrow> bool) \<Rightarrow> nat \<Rightarrow> ('k, 'v) FlatHashMap \<Rightarrow> ('k, 'v) FlatHashMap \<times> exn option" where
  "Initialize alloc requestedCapacity m =
     (let cap = NextPow2 requestedCapacity;
          cap = (if cap < kInitialCapacity then kInitialCapacity else cap);
          cap = (if \<not> IsPowerOfTwo cap then NextPow2 cap else cap)
      in case AllocateBuckets alloc cap of
           None \<Rightarrow> (m, Some bad_alloc)
         | Some bs \<Rightarrow> (m\<lparr>m_buckets := bs, m_capacity := cap, m_mask := cap - 1, m_size := 0\<rparr>, None))"

definition released :: "('k, 'v) FlatHashMap" where
  "released = \<lparr>m_buckets = [], m_capacity = 0, m_mask = 0, m_size = 0\<rparr>"

definition DestroyAt :: "nat \<Rightarrow> ('k, 'v) Bucket list \<Rightarrow> ('k, 'v) Bucket list" where
  "DestroyAt idx bs = bs[idx := None]"

definition ClearAndRelease :: "('k, 'v) FlatHashMap \<Rightarrow> ('k, 'v) FlatHashMap" where
  "ClearAndRelease m = (if m_buckets m = [] then m else released)"

definition Clear :: "('k, 'v) FlatHashMap \<Rightarrow> ('k, 'v) FlatHashMap" where
  "Clear m = (if m_buckets m = [] then m
     else m\<lparr>m_buckets := foldl (\<lambda>bs i. if bs ! i \<noteq> None then DestroyAt i bs else bs) (m_buckets m) [0..<m_capacity m], m_size := 0\<rparr>)"

section \<open>Probing\<close>

text \<open>The two probing loops with the number of probes left; \<^term>\<open>None\<close> is \<open>kNotFound\<close>.\<close>

fun FindIndex_loop :: "('k, 'v) FlatHashMap \<Rightarrow> 'k \<Rightarrow> u64 \<Rightarrow> nat \<Rightarrow> nat \<Rightarrow> nat option" where
  "FindIndex_loop m k h 0 index = None"
| "FindIndex_loop m k h (Suc left) index =
     (case m_buckets m ! index of
        None \<Rightarrow> None
      | Some b \<Rightarrow> if hash b = h \<and> key b = k then Some index
                  else FindIndex_loop m k h left ((index + 1) AND m_mask m))"

definition FindIndex :: "('k, 'v) FlatHashMap \<Rightarrow> 'k \<Rightarrow> u64 \<Rightarrow> nat option" where
  "FindIndex m k h =
     (if m_buckets m = [] \<or> m_capacity m = 0 then None
      else FindIndex_loop m k h (m_capacity m) (home_of h (m_mask m)))"

fun FindInsertSlot_loop :: "('k, 'v) FlatHashMap \<Rightarrow> 'k \<Rightarrow> u64 \<Rightarrow> nat \<Rightarrow> nat \<Rightarrow> nat option" where
  "FindInsertSlot_loop m k h 0 index = None"
| "FindInsertSlot_loop m k h (Suc left) index =
     (case m_buckets m ! index of
        None \<Rightarrow> Some index
      | Some b \<Rightarrow> if hash b = h \<and> key b = k then Some index
                  else FindInsertSlot_loop m k h left ((index + 1) AND m_mask m))"

definition FindInsertSlot :: "('k, 'v) FlatHashMap \<Rightarrow> 'k \<Rightarrow> u64 \<Rightarrow> nat option" where
  "FindInsertSlot m k h = FindInsertSlot_loop m k h (m_capacity m) (home_of h (m_mask m))"

section \<open>Lookup\<close>

definition GetPtr :: "('k \<Rightarrow> u64) \<Rightarrow> ('k, 'v) FlatHashMap \<Rightarrow> 'k \<Rightarrow> 'v option" where
  "GetPtr hf m k =
     (case FindIndex m k (hf k) of
        None \<Rightarrow> None
      | Some idx \<Rightarrow> map_option val (m_buckets m ! idx))"

definition Get :: "('k \<Rightarrow> u64) \<Rightarrow> ('k, 'v) FlatHashMap \<Rightarrow> 'k \<Rightarrow> exn + 'v" where
  "Get hf m k = (case GetPtr hf m k of None \<Rightarrow> Inl out_of_range | Some v \<Rightarrow> Inr v)"

definition Contains :: "('k \<Rightarrow> u64) \<Rightarrow> ('k, 'v) FlatHashMap \<Rightarrow> 'k \<Rightarrow> bool" where
  "Contains hf m k \<longleftrightarrow> GetPtr hf m k \<noteq> None"

section \<open>Growth\<close>

definition entry :: "u64 \<Rightarrow> 'k \<Rightarrow> 'v \<Rightarrow> ('k, 'v) Entry" where
  "entry h k v = \<lparr>hash = h, key = k, val = v\<rparr>"

definition InsertExisting :: "u64 \<Rightarrow> 'k \<Rightarrow> 'v \<Rightarrow> ('k, 'v) FlatHashMap \<Rightarrow> ('k, 'v) FlatHashMap \<times> exn option" where
  "InsertExisting h k v m =
     (case FindInsertSlot m k h of
        None \<Rightarrow> (m, Some bad_alloc)
      | Some idx \<Rightarrow> (m\<lparr>m_buckets := (m_buckets m)[idx := Some (entry h k v)], m_size := m_size m + 1\<rparr>, None))"

text \<open>The loop that inserts the entries of another array of buckets; an exception ends it.\<close>

fun InsertAll :: "('k, 'v) Bucket list \<Rightarrow> ('k, 'v) FlatHashMap \<Rightarrow> ('k, 'v) FlatHashMap \<times> exn option" where
  "InsertAll [] m = (m, None)"
| "InsertAll (None # bs) m = InsertAll bs m"
| "InsertAll (Some b # bs) m =
     (case InsertExisting (hash b) (key b) (val b) m of
        (m, Some e) \<Rightarrow> (m, Some e)
      | (m, None) \<Rightarrow> InsertAll bs m)"

definition Rehash :: "(nat \<Rightarrow> bool) \<Rightarrow> nat \<Rightarrow> ('k, 'v) FlatHashMap \<Rightarrow> ('k, 'v) FlatHashMap \<times> exn option" where
  "Rehash alloc newBucketCount m =
     (let target = NextPow2 newBucketCount;
          target = (if target < kInitialCapacity then kInitialCapacity else target)
      in if target = m_capacity m then (m, None)
         else let oldBuckets = m_buckets m
              in case Initialize alloc target released of
                   (m, Some e) \<Rightarrow> (m, Some e)
                 | (m, None) \<Rightarrow> InsertAll oldBuckets m)"

definition Reserve :: "(nat \<Rightarrow> bool) \<Rightarrow> nat \<Rightarrow> ('k, 'v) FlatHashMap \<Rightarrow> ('k, 'v) FlatHashMap \<times> exn option" where
  "Reserve alloc n m =
     (let buckets = 4 * n div 3 + 1;
          buckets = (if buckets < kInitialCapacity then kInitialCapacity else buckets);
          buckets = NextPow2 buckets
      in if buckets \<le> m_capacity m then (m, None) else Rehash alloc buckets m)"

definition MaybeGrow :: "(nat \<Rightarrow> bool) \<Rightarrow> ('k, 'v) FlatHashMap \<Rightarrow> ('k, 'v) FlatHashMap \<times> exn option" where
  "MaybeGrow alloc m =
     (if m_capacity m = 0 \<or> 4 * m_size m \<le> 3 * m_capacity m then (m, None)
      else Rehash alloc (m_capacity m * 2) m)"

section \<open>Insertion\<close>

partial_function (option) Insert ::
    "('k \<Rightarrow> u64) \<Rightarrow> (nat \<Rightarrow> bool) \<Rightarrow> 'k \<Rightarrow> 'v \<Rightarrow> ('k, 'v) FlatHashMap \<Rightarrow> (('k, 'v) FlatHashMap \<times> exn option) option" where
  "Insert hf alloc k v m =
     (case MaybeGrow alloc m of
        (m, Some e) \<Rightarrow> Some (m, Some e)
      | (m, None) \<Rightarrow>
          let h = hf k in
          case FindInsertSlot m k h of
            None \<Rightarrow>
              (case Rehash alloc (max kInitialCapacity (m_capacity m * 2)) m of
                 (m, Some e) \<Rightarrow> Some (m, Some e)
               | (m, None) \<Rightarrow> Insert hf alloc k v m)
          | Some idx \<Rightarrow>
              (case m_buckets m ! idx of
                 Some b \<Rightarrow> Some (m\<lparr>m_buckets := (m_buckets m)[idx := Some (b\<lparr>val := v\<rparr>)]\<rparr>, None)
               | None \<Rightarrow>
                   Some (m\<lparr>m_buckets := (m_buckets m)[idx := Some (entry h k v)], m_size := m_size m + 1\<rparr>, None)))"

declare Insert.simps [code]

text \<open>\<open>operator[]\<close> on a key: the value that is there, or the default value inserted.\<close>

definition Subscript ::
    "('k \<Rightarrow> u64) \<Rightarrow> (nat \<Rightarrow> bool) \<Rightarrow> 'v \<Rightarrow> 'k \<Rightarrow> ('k, 'v) FlatHashMap \<Rightarrow> (('k, 'v) FlatHashMap \<times> (exn + 'v option)) option" where
  "Subscript hf alloc d k m =
     (case GetPtr hf m k of
        Some v \<Rightarrow> Some (m, Inr (Some v))
      | None \<Rightarrow> do {
          (m, e) \<leftarrow> Insert hf alloc k d m;
          Some (case e of Some e \<Rightarrow> (m, Inl e) | None \<Rightarrow> (m, Inr (GetPtr hf m k))) })"

section \<open>Removal\<close>

definition MoveBucket :: "nat \<Rightarrow> nat \<Rightarrow> ('k, 'v) Bucket list \<Rightarrow> ('k, 'v) Bucket list" where
  "MoveBucket dst src bs = DestroyAt src (bs[dst := bs ! src])"

partial_function (option) BackwardShift :: "nat \<Rightarrow> ('k, 'v) Bucket list \<Rightarrow> nat \<Rightarrow> nat \<Rightarrow> ('k, 'v) Bucket list option" where
  "BackwardShift mk bs hole nxt =
     (case bs ! nxt of
        None \<Rightarrow> Some bs
      | Some b \<Rightarrow>
          let home = home_of (hash b) mk;
              distHomeToNext = Distance home nxt mk;
              distHomeToHole = Distance home hole mk
          in if distHomeToHole < distHomeToNext
             then BackwardShift mk (MoveBucket hole nxt bs) nxt ((nxt + 1) AND mk)
             else BackwardShift mk bs hole ((nxt + 1) AND mk))"

declare BackwardShift.simps [code]

definition BackwardShiftFrom :: "nat \<Rightarrow> ('k, 'v) FlatHashMap \<Rightarrow> ('k, 'v) FlatHashMap option" where
  "BackwardShiftFrom holeIndex m = do {
     bs \<leftarrow> BackwardShift (m_mask m) (m_buckets m) holeIndex ((holeIndex + 1) AND m_mask m);
     Some (m\<lparr>m_buckets := bs\<rparr>) }"

definition Remove :: "('k \<Rightarrow> u64) \<Rightarrow> 'k \<Rightarrow> ('k, 'v) FlatHashMap \<Rightarrow> ('k, 'v) FlatHashMap option" where
  "Remove hf k m =
     (case FindIndex m k (hf k) of
        None \<Rightarrow> Some m
      | Some idx \<Rightarrow> BackwardShiftFrom idx (m\<lparr>m_buckets := DestroyAt idx (m_buckets m), m_size := m_size m - 1\<rparr>))"

section \<open>Construction, copy, move\<close>

definition Construct :: "(nat \<Rightarrow> bool) \<Rightarrow> nat \<Rightarrow> ('k, 'v) FlatHashMap \<times> exn option" where
  "Construct alloc initialCapacity = Initialize alloc initialCapacity released"

definition CopyConstruct :: "(nat \<Rightarrow> bool) \<Rightarrow> ('k, 'v) FlatHashMap \<Rightarrow> ('k, 'v) FlatHashMap \<times> exn option" where
  "CopyConstruct alloc other =
     (case Initialize alloc (m_capacity other) released of
        (m, Some e) \<Rightarrow> (m, Some e)
      | (m, None) \<Rightarrow> InsertAll (m_buckets other) m)"

definition CopyAssign :: "(nat \<Rightarrow> bool) \<Rightarrow> ('k, 'v) FlatHashMap \<Rightarrow> ('k, 'v) FlatHashMap \<Rightarrow> ('k, 'v) FlatHashMap \<times> exn option" where
  "CopyAssign alloc m other =
     (case Initialize alloc (m_capacity other) (ClearAndRelease m) of
        (m, Some e) \<Rightarrow> (m, Some e)
      | (m, None) \<Rightarrow> InsertAll (m_buckets other) m)"

text \<open>The new map and the map that was moved from.\<close>

definition MoveConstruct :: "('k, 'v) FlatHashMap \<Rightarrow> ('k, 'v) FlatHashMap \<times> ('k, 'v) FlatHashMap" where
  "MoveConstruct other = (other, released)"

text \<open>Move assignment when the allocator propagates or always compares equal.\<close>

definition MoveAssign :: "('k, 'v) FlatHashMap \<Rightarrow> ('k, 'v) FlatHashMap \<Rightarrow> ('k, 'v) FlatHashMap \<times> ('k, 'v) FlatHashMap" where
  "MoveAssign m other = (let m = ClearAndRelease m in (other, released))"

text \<open>Copy and move assignment are those of two different objects; assigning a map to itself returns at once.\<close>

section \<open>Iteration\<close>

text \<open>\<open>Advance_\<close>: the first occupied bucket from an index on.\<close>

function Advance :: "('k, 'v) FlatHashMap \<Rightarrow> nat \<Rightarrow> nat" where
  "Advance m index = (if index < m_capacity m \<and> m_buckets m ! index = None then Advance m (index + 1) else index)"
  by pat_completeness auto
termination
  by (relation "measure (\<lambda>(m, index). m_capacity m - index)") auto

declare Advance.simps [simp del]

lemma Advance_ge: "index \<le> Advance m index"
  by (induction m index rule: Advance.induct) (subst Advance.simps, force)

text \<open>\<open>for (auto it = begin(); it != end(); ++it)\<close>: the entries it visits from an index on.\<close>

function Iterate :: "('k, 'v) FlatHashMap \<Rightarrow> nat \<Rightarrow> ('k \<times> 'v) list" where
  "Iterate m index =
     (if index < m_capacity m then
        (case m_buckets m ! index of
           Some b \<Rightarrow> (key b, val b) # Iterate m (Advance m (index + 1))
         | None \<Rightarrow> [])
      else [])"
  by pat_completeness auto
termination
proof (relation "measure (\<lambda>(m, index). m_capacity m - index)")
  fix m :: "('k, 'v) FlatHashMap" and index :: nat and x2 :: "('k, 'v) Entry"
  assume "index < m_capacity m"
  then show "((m, Advance m (index + 1)), m, index) \<in> measure (\<lambda>(m, index). m_capacity m - index)"
    using Advance_ge [of "index + 1" m] by simp
qed simp

declare Iterate.simps [simp del]

definition Entries :: "('k, 'v) FlatHashMap \<Rightarrow> ('k \<times> 'v) list" where
  "Entries m = Iterate m (Advance m 0)"

text \<open>
  Move assignment with an allocator that neither propagates nor always compares equal: the entries are
  inserted one by one. An exception would leave a \<open>noexcept\<close> function and is the result here.
\<close>

fun InsertMany ::
    "('k \<Rightarrow> u64) \<Rightarrow> (nat \<Rightarrow> bool) \<Rightarrow> ('k \<times> 'v) list \<Rightarrow> ('k, 'v) FlatHashMap \<Rightarrow> (('k, 'v) FlatHashMap \<times> exn option) option" where
  "InsertMany hf alloc [] m = Some (m, None)"
| "InsertMany hf alloc ((k, v) # kvs) m = do {
     (m, e) \<leftarrow> Insert hf alloc k v m;
     if e = None then InsertMany hf alloc kvs m else Some (m, e) }"

definition MoveAssignEntries ::
    "('k \<Rightarrow> u64) \<Rightarrow> (nat \<Rightarrow> bool) \<Rightarrow> ('k, 'v) FlatHashMap \<Rightarrow> ('k, 'v) FlatHashMap \<Rightarrow>
       (('k, 'v) FlatHashMap \<times> exn option \<times> ('k, 'v) FlatHashMap) option" where
  "MoveAssignEntries hf alloc m other =
     (case Reserve alloc (m_size other) (Clear m) of
        (m, Some e) \<Rightarrow> Some (m, Some e, other)
      | (m, None) \<Rightarrow> do {
          (m, e) \<leftarrow> InsertMany hf alloc (Entries other) m;
          Some (m, e, if e = None then Clear other else other) })"

end
