(* ===== verification/Map_Spec.thy ===== *)
theory Map_Spec
  imports Main
begin

text \<open>
  The contract of a finite map with in-place updates. \<open>inv\<close> is the invariant of the representation,
  \<open>lookup\<close> the map it stands for. An insertion may fail for want of memory and then gives no map; a
  removal always ends. What follows for sequences of updates is proved once, for every implementation.
\<close>

datatype ('k, 'v) map_op = Put 'k 'v | Del 'k

fun apply_op :: "('k \<Rightarrow> 'v option) \<Rightarrow> ('k, 'v) map_op \<Rightarrow> 'k \<Rightarrow> 'v option" where
  "apply_op f (Put k v) = f(k \<mapsto> v)"
| "apply_op f (Del k) = f(k := None)"

fun run_ops :: "('k \<Rightarrow> 'v \<Rightarrow> 'm \<Rightarrow> 'm option) \<Rightarrow> ('k \<Rightarrow> 'm \<Rightarrow> 'm option) \<Rightarrow> ('k, 'v) map_op list \<Rightarrow> 'm \<Rightarrow> 'm option" where
  "run_ops ins del [] m = Some m"
| "run_ops ins del (Put k v # ops) m = Option.bind (ins k v m) (run_ops ins del ops)"
| "run_ops ins del (Del k # ops) m = Option.bind (del k m) (run_ops ins del ops)"

locale finite_map =
  fixes inv :: "'m \<Rightarrow> bool"
    and lookup :: "'m \<Rightarrow> 'k \<Rightarrow> 'v option"
    and insert :: "'k \<Rightarrow> 'v \<Rightarrow> 'm \<Rightarrow> 'm option"
    and remove :: "'k \<Rightarrow> 'm \<Rightarrow> 'm option"
    and size :: "'m \<Rightarrow> nat"
  assumes insert_law: "inv m \<Longrightarrow> insert k v m = Some m' \<Longrightarrow> inv m' \<and> lookup m' = (lookup m)(k \<mapsto> v)"
    and remove_law: "inv m \<Longrightarrow> \<exists>m'. remove k m = Some m' \<and> inv m' \<and> lookup m' = (lookup m)(k := None)"
    and size_law: "inv m \<Longrightarrow> finite (dom (lookup m)) \<and> size m = card (dom (lookup m))"
begin

lemma run_law: "inv m \<Longrightarrow> run_ops insert remove ops m = Some m' \<Longrightarrow> inv m' \<and> lookup m' = foldl apply_op (lookup m) ops"
proof (induction ops arbitrary: m)
  case (Cons op ops)
  show ?case
  proof (cases op)
    case (Put k v)
    then show ?thesis using Cons insert_law [OF Cons.prems(1), of k v] by (cases "insert k v m") (auto simp: fun_upd_def)
  next
    case (Del k)
    then show ?thesis using Cons remove_law [OF Cons.prems(1), of k] by (cases "remove k m") (auto simp: fun_upd_def)
  qed
qed simp

text \<open>The size after a run counts the keys that are left.\<close>

lemma run_size: "inv m \<Longrightarrow> run_ops insert remove ops m = Some m' \<Longrightarrow> size m' = card (dom (foldl apply_op (lookup m) ops))"
  using run_law size_law by metis

text \<open>Only an insertion can stop a run.\<close>

lemma run_returns:
  "inv m \<Longrightarrow> (\<And>m k v. inv m \<Longrightarrow> insert k v m \<noteq> None) \<Longrightarrow> \<exists>m'. run_ops insert remove ops m = Some m'"
proof (induction ops arbitrary: m)
  case (Cons op ops)
  show ?case
  proof (cases op)
    case (Put k v)
    obtain m1 where m1: "insert k v m = Some m1" using Cons.prems by blast
    then show ?thesis using Put Cons.IH [of m1] Cons.prems insert_law [OF Cons.prems(1) m1] by simp
  next
    case (Del k)
    obtain m1 where "remove k m = Some m1" "inv m1" using remove_law [OF Cons.prems(1), of k] by blast
    then show ?thesis using Del Cons.IH [of m1] Cons.prems by simp
  qed
qed simp

end

end
