(* ===== verification/Containers_FlatHashMap_Props.thy ===== *)
theory Containers_FlatHashMap_Props
  imports Containers_FlatHashMap Map_Spec "HOL-Library.Multiset"
begin

text \<open>
  Correctness of the hash map. \<open>table_ok\<close> is the invariant of linear probing: the cached hashes are right,
  keys are unique and no bucket between the home of an entry and its place is free. \<open>fh_inv\<close> adds the
  capacity, the mask and the size; \<open>fh_map\<close> is the map a table stands for. The backward shift works on
  tables with a hole (\<open>shifting\<close>); it ends because every move brings an entry nearer to its home.
  The operations are interpreted as the contract \<open>finite_map\<close>, from which the refinement follows.

  \<open>alloc_bounded\<close> says that no allocation of more than \<open>2 ^ 62\<close> buckets succeeds, which no address space
  allows; it keeps the positions below the modulus of the word arithmetic.
\<close>

unbundle bit_operations_syntax

section \<open>Arithmetic on a ring of positions\<close>

definition dist :: "nat \<Rightarrow> nat \<Rightarrow> nat \<Rightarrow> nat" where
  "dist n a b = (b + n - a) mod n"

definition step :: "nat \<Rightarrow> nat \<Rightarrow> nat \<Rightarrow> nat" where
  "step n a d = (a + d) mod n"

lemma dist_if: "a < n \<Longrightarrow> b < n \<Longrightarrow> dist n a b = (if a \<le> b then b - a else b + n - a)"
  by (auto simp: dist_def mod_if)

lemma step_if: "a < n \<Longrightarrow> d < n \<Longrightarrow> step n a d = (if a + d < n then a + d else a + d - n)"
  by (auto simp: step_def mod_if)

lemma dist_less: "a < n \<Longrightarrow> dist n a b < n"
  by (simp add: dist_def)

lemma step_less [simp]: "0 < n \<Longrightarrow> step n a d < n"
  by (simp add: step_def)

lemma step_dist: "a < n \<Longrightarrow> b < n \<Longrightarrow> step n a (dist n a b) = b"
  by (auto simp: dist_if step_def)

lemma dist_step: "a < n \<Longrightarrow> d < n \<Longrightarrow> dist n a (step n a d) = d"
  by (cases "a + d < n") (simp_all add: step_if dist_if)

lemma step_step: "step n (step n a d) e = step n a (d + e)"
  by (simp add: step_def mod_add_left_eq add.assoc)

lemma step_0: "a < n \<Longrightarrow> step n a 0 = a"
  by (simp add: step_def)

lemma dist_self: "a < n \<Longrightarrow> dist n a a = 0"
  by (simp add: dist_if)

lemma step_inj: "a < n \<Longrightarrow> d < n \<Longrightarrow> e < n \<Longrightarrow> step n a d = step n a e \<Longrightarrow> d = e"
  by (metis dist_step)

lemma dist_sum: "a < n \<Longrightarrow> b < n \<Longrightarrow> c < n \<Longrightarrow> dist n a b < dist n a c \<Longrightarrow> dist n a c = dist n a b + dist n b c"
  by (auto simp: dist_if add.commute split: if_splits)

text \<open>The masks and the wrapping subtraction of the code.\<close>

lemma and_mask_pow: "n = 2 ^ p \<Longrightarrow> (i::nat) AND (n - 1) = i mod n"
  using nat_and_mask by simp

lemma word_mask:
  assumes "n = 2 ^ p"
  shows "unat ((w :: u64) AND word_of_nat (n - 1)) = unat w mod n"
proof -
  have "word_of_nat (n - 1) = (mask p :: u64)"
    unfolding assms mask_nat_def [symmetric] by (rule of_nat_mask_eq)
  then have "w AND word_of_nat (n - 1) = take_bit p w" by (simp only: take_bit_eq_mask)
  moreover have "unat (take_bit p w) = unat w mod 2 ^ p" by (simp add: unsigned_take_bit_eq flip: take_bit_eq_mod)
  ultimately show ?thesis by (simp only: assms)
qed

lemma home_of_mod: "n = 2 ^ p \<Longrightarrow> home_of h (n - 1) = unat h mod n"
  unfolding home_of_def by (rule word_mask)

lemma Distance_dist:
  assumes "n = 2 ^ p" "p \<le> 62" "a < n" "b < n"
  shows "Distance a b (n - 1) = dist n a b"
proof -
  define M :: nat where "M = 2 ^ 64"
  have M: "M = n * 2 ^ (64 - p)" using assms(1,2) by (simp add: M_def power_add [symmetric])
  then obtain q where q: "M = n * Suc q" using assms by (metis not0_implies_Suc power_not_zero zero_neq_numeral)
  have n: "n \<le> M" using q by simp
  have u: "unat (word_of_nat x :: u64) = x" if "x < n" for x
    using that n by (simp add: unsigned_of_nat take_bit_nat_eq_self_iff M_def)
  have "unat (word_of_nat b - word_of_nat a :: u64) = (if a \<le> b then b - a else b + M - a)"
    using unat_sub_if' [of "word_of_nat b :: u64" "word_of_nat a"] u assms(3,4) by (simp add: M_def)
  then have "Distance a b (n - 1) = (if a \<le> b then b - a else b + M - a) mod n"
    unfolding Distance_def by (simp only: word_mask [OF assms(1)])
  also have "\<dots> = dist n a b"
  proof (cases "a \<le> b")
    case True
    then show ?thesis using assms(3,4) by (simp add: dist_if)
  next
    case False
    then have "b + M - a = (b + n - a) + n * q" using q assms(3) by simp
    then show ?thesis using False by (simp add: dist_def)
  qed
  finally show ?thesis .
qed

section \<open>Powers of two\<close>

lemma bit_ceil_from_pow: "\<exists>j. p = 2 ^ j \<Longrightarrow> (\<exists>j. bit_ceil_from p n = 2 ^ j) \<and> n \<le> bit_ceil_from p n"
proof (induction p n rule: bit_ceil_from.induct)
  case (1 p n)
  show ?case
  proof (cases "p < n \<and> 0 < p")
    case True
    have "\<exists>j. 2 * p = 2 ^ j" using "1.prems" by (metis power_Suc)
    then show ?thesis using "1.IH" [OF True] True by (simp add: bit_ceil_from.simps [of p n])
  next
    case False
    then show ?thesis using "1.prems" by (auto simp: bit_ceil_from.simps [of p n])
  qed
qed

lemma bit_ceil_from_id: "i \<le> j \<Longrightarrow> bit_ceil_from (2 ^ i) (2 ^ j) = 2 ^ j"
proof (induction "j - i" arbitrary: i)
  case 0
  then show ?case by (subst bit_ceil_from.simps) simp
next
  case (Suc k)
  then have "i < j" "k = j - Suc i" by simp_all
  then show ?case using Suc.hyps(1) [of "Suc i"] by (subst bit_ceil_from.simps) simp
qed

lemma NextPow2_pow: "\<exists>j. NextPow2 n = 2 ^ j"
  using bit_ceil_from_pow [of 1 n] power_0 by (metis NextPow2_def)

lemma NextPow2_ge: "n \<le> NextPow2 n"
  using bit_ceil_from_pow [of 1 n] power_0 by (metis NextPow2_def)

lemma NextPow2_id: "NextPow2 (2 ^ j) = 2 ^ j"
proof (cases j)
  case (Suc i)
  have "(1::nat) \<le> 2 ^ i" by simp
  then have "\<not> (2::nat) ^ j \<le> 1" unfolding Suc power_Suc by linarith
  then show ?thesis using bit_ceil_from_id [of 0 j] by (simp add: NextPow2_def)
qed (simp add: NextPow2_def)

lemma IsPowerOfTwo_pow: "IsPowerOfTwo (2 ^ j)"
  using nat_and_mask [of "2 ^ j" j] by (simp add: IsPowerOfTwo_def)

text \<open>The capacity the code chooses for a request.\<close>

definition rounded :: "nat \<Rightarrow> nat" where
  "rounded n = max kInitialCapacity (NextPow2 n)"

lemma rounded_pow: "\<exists>j. rounded n = 2 ^ j \<and> 4 \<le> j"
proof (cases "NextPow2 n \<le> 16")
  case True
  then have "rounded n = 2 ^ 4" by (simp add: rounded_def kInitialCapacity_def max_def)
  then show ?thesis by blast
next
  case False
  then obtain j where j: "rounded n = 2 ^ j" "16 < (2::nat) ^ j"
    using NextPow2_pow [of n] by (auto simp: rounded_def kInitialCapacity_def max_def)
  then have "(2::nat) ^ 4 < 2 ^ j" by simp
  then have "4 < j" using power_less_imp_less_exp [of 2 4 j] by simp
  then show ?thesis using j(1) by (intro exI [of _ j]) simp
qed

lemma rounded_ge: "n \<le> rounded n" "16 \<le> rounded n"
  using NextPow2_ge [of n] by (simp_all add: rounded_def kInitialCapacity_def)

lemma rounded_id: "4 \<le> j \<Longrightarrow> rounded (2 ^ j) = 2 ^ j"
  using power_increasing [of 4 j "2::nat"] by (simp add: rounded_def kInitialCapacity_def NextPow2_id)




lemma Initialize_exact:
  "Initialize alloc n m = (if alloc (rounded n)
     then (\<lparr>m_buckets = replicate (rounded n) None, m_capacity = rounded n, m_mask = rounded n - 1, m_size = 0\<rparr>, None)
     else (m, Some bad_alloc))"
proof -
  have r: "(if NextPow2 n < kInitialCapacity then kInitialCapacity else NextPow2 n) = rounded n"
    by (simp add: rounded_def max_def)
  have p: "IsPowerOfTwo (rounded n)" using rounded_pow [of n] IsPowerOfTwo_pow by metis
  show ?thesis unfolding Initialize_def Let_def r using p by (cases m) (simp add: AllocateBuckets_def)
qed

section \<open>Tables\<close>

abbreviation home :: "nat \<Rightarrow> u64 \<Rightarrow> nat" where
  "home n h \<equiv> unat h mod n"

text \<open>No bucket on the way from the home of an entry to its place is free.\<close>

definition reached :: "nat \<Rightarrow> ('k, 'v) Bucket list \<Rightarrow> u64 \<Rightarrow> nat \<Rightarrow> bool" where
  "reached n bs h i \<longleftrightarrow> (\<forall>e < dist n (home n h) i. bs ! step n (home n h) e \<noteq> None)"

definition table_ok :: "('k \<Rightarrow> u64) \<Rightarrow> nat \<Rightarrow> ('k, 'v) Bucket list \<Rightarrow> bool" where
  "table_ok hf n bs \<longleftrightarrow> 0 < n \<and> length bs = n \<and>
     (\<forall>i < n. \<forall>b. bs ! i = Some b \<longrightarrow> hash b = hf (key b) \<and> reached n bs (hash b) i) \<and>
     (\<forall>i < n. \<forall>j < n. \<forall>b c. bs ! i = Some b \<and> bs ! j = Some c \<and> key b = key c \<longrightarrow> i = j)"

definition has_key :: "('k, 'v) Bucket list \<Rightarrow> 'k \<Rightarrow> bool" where
  "has_key bs k \<longleftrightarrow> (\<exists>i < length bs. \<exists>b. bs ! i = Some b \<and> key b = k)"

lemma table_okD:
  assumes "table_ok hf n bs"
  shows "0 < n" "length bs = n" "i < n \<Longrightarrow> bs ! i = Some b \<Longrightarrow> hash b = hf (key b)"
    "i < n \<Longrightarrow> bs ! i = Some b \<Longrightarrow> reached n bs (hash b) i"
    "i < n \<Longrightarrow> j < n \<Longrightarrow> bs ! i = Some b \<Longrightarrow> bs ! j = Some c \<Longrightarrow> key b = key c \<Longrightarrow> i = j"
  using assms unfolding table_ok_def by blast+

text \<open>A probe that has passed \<open>e\<close> buckets, all occupied by other keys.\<close>

definition probed :: "('k, 'v) Bucket list \<Rightarrow> 'k \<Rightarrow> nat \<Rightarrow> u64 \<Rightarrow> nat \<Rightarrow> bool" where
  "probed bs k n h e \<longleftrightarrow> (\<forall>d < e. \<exists>b. bs ! step n (home n h) d = Some b \<and> key b \<noteq> k)"

lemma probed_free_absent:
  assumes t: "table_ok hf n bs" and p: "probed bs k n (hf k) e" "e < n" and f: "bs ! step n (home n (hf k)) e = None"
  shows "\<not> has_key bs k"
proof
  assume "has_key bs k"
  then obtain i b where i: "i < n" "bs ! i = Some b" "key b = k" using table_okD(2) [OF t] by (auto simp: has_key_def)
  let ?h = "home n (hf k)"
  let ?d = "dist n ?h i"
  have hl: "?h < n" using table_okD(1) [OF t] by simp
  have at: "step n ?h ?d = i" by (rule step_dist [OF hl i(1)])
  consider "?d < e" | "?d = e" | "e < ?d" by linarith
  then show False
  proof cases
    case 1
    then show False using p(1) at i by (auto simp: probed_def)
  next
    case 2
    then show False using f at i by simp
  next
    case 3
    have "reached n bs (hf k) i" using table_okD(3,4) [OF t i(1,2)] i(3) by simp
    then show False using 3 f unfolding reached_def by blast
  qed
qed

lemma probed_all_absent:
  assumes t: "table_ok hf n bs" and p: "probed bs k n (hf k) n"
  shows "\<not> has_key bs k \<and> (\<forall>i < n. bs ! i \<noteq> None)"
proof -
  have hl: "home n (hf k) < n" using table_okD(1) [OF t] by simp
  have "\<exists>b. bs ! i = Some b \<and> key b \<noteq> k" if "i < n" for i
    using p step_dist [OF hl that] dist_less [OF hl, of i] unfolding probed_def by metis
  then show ?thesis using table_okD(2) [OF t] by (fastforce simp: has_key_def)
qed

lemma probed_Suc:
  "probed bs k n h e \<Longrightarrow> bs ! step n (home n h) e = Some b \<Longrightarrow> key b \<noteq> k \<Longrightarrow> probed bs k n h (Suc e)"
  by (auto simp: probed_def less_Suc_eq)

lemma probed_0 [simp]: "probed bs k n h 0"
  by (simp add: probed_def)

lemma step_Suc: "step n a (Suc e) = (step n a e + 1) mod n"
  by (simp add: step_def mod_Suc_eq)

text \<open>What the two probing loops return.\<close>

lemma FindIndex_loop_spec:
  assumes t: "table_ok hf n (m_buckets m)" and mk: "n = 2 ^ p" "m_mask m = n - 1"
    and "probed (m_buckets m) k n (hf k) e" "e + left = n"
  shows "case FindIndex_loop m k (hf k) left (step n (home n (hf k)) e) of
      None \<Rightarrow> \<not> has_key (m_buckets m) k
    | Some i \<Rightarrow> i < n \<and> (\<exists>b. m_buckets m ! i = Some b \<and> key b = k)"
  using assms(4,5)
proof (induction left arbitrary: e)
  case 0
  then show ?case using probed_all_absent [OF t] by simp
next
  case (Suc left)
  let ?i = "step n (home n (hf k)) e"
  have il: "?i < n" using table_okD(1) [OF t] by simp
  have nx: "(?i + 1) AND m_mask m = step n (home n (hf k)) (Suc e)"
    using and_mask_pow [OF mk(1)] mk(2) by (simp add: step_Suc)
  show ?case
  proof (cases "m_buckets m ! ?i")
    case None
    then show ?thesis using probed_free_absent [OF t Suc.prems(1)] Suc.prems(2) by simp
  next
    case (Some b)
    show ?thesis
    proof (cases "key b = k")
      case True
      then show ?thesis using Some il table_okD(3) [OF t il Some] by simp
    next
      case False
      then show ?thesis using Some Suc.IH [OF probed_Suc [OF Suc.prems(1) Some False]] Suc.prems(2) nx by simp
    qed
  qed
qed

lemma FindInsertSlot_loop_spec:
  assumes t: "table_ok hf n (m_buckets m)" and mk: "n = 2 ^ p" "m_mask m = n - 1"
    and "probed (m_buckets m) k n (hf k) e" "e + left = n"
  shows "case FindInsertSlot_loop m k (hf k) left (step n (home n (hf k)) e) of
      None \<Rightarrow> \<forall>i < n. m_buckets m ! i \<noteq> None
    | Some i \<Rightarrow> i < n \<and> ((\<exists>b. m_buckets m ! i = Some b \<and> key b = k) \<or>
        m_buckets m ! i = None \<and> \<not> has_key (m_buckets m) k \<and> reached n (m_buckets m) (hf k) i)"
  using assms(4,5)
proof (induction left arbitrary: e)
  case 0
  then show ?case using probed_all_absent [OF t] by simp
next
  case (Suc left)
  let ?i = "step n (home n (hf k)) e"
  have il: "?i < n" using table_okD(1) [OF t] by simp
  have nx: "(?i + 1) AND m_mask m = step n (home n (hf k)) (Suc e)"
    using and_mask_pow [OF mk(1)] mk(2) by (simp add: step_Suc)
  show ?case
  proof (cases "m_buckets m ! ?i")
    case None
    have "dist n (home n (hf k)) ?i = e" using Suc.prems(2) table_okD(1) [OF t] by (intro dist_step) simp_all
    then have "reached n (m_buckets m) (hf k) ?i" using Suc.prems(1) by (auto simp: reached_def probed_def)
    then show ?thesis using None il probed_free_absent [OF t Suc.prems(1) _ None] Suc.prems(2) by simp
  next
    case (Some b)
    show ?thesis
    proof (cases "key b = k")
      case True
      then show ?thesis using Some il table_okD(3) [OF t il Some] by simp
    next
      case False
      then show ?thesis using Some Suc.IH [OF probed_Suc [OF Suc.prems(1) Some False]] Suc.prems(2) nx by simp
    qed
  qed
qed

section \<open>Storing an entry\<close>

lemma table_ok_set:
  assumes t: "table_ok hf n bs" and i: "i < n" and e: "hash b = hf (key b)" "reached n bs (hash b) i"
    and u: "\<And>j c. j < n \<Longrightarrow> j \<noteq> i \<Longrightarrow> bs ! j = Some c \<Longrightarrow> key c \<noteq> key b"
  shows "table_ok hf n (bs[i := Some b])"
proof -
  let ?bs = "bs[i := Some b]"
  note l = table_okD(1,2) [OF t]
  have nth: "?bs ! j = (if j = i then Some b else bs ! j)" for j using i l by (simp add: nth_list_update)
  have r: "reached n ?bs h j" if "reached n bs h j" for h j
    using that unfolding reached_def nth by simp
  show ?thesis
    unfolding table_ok_def
  proof (intro conjI allI impI)
    fix j c assume j: "j < n" "?bs ! j = Some c"
    show "hash c = hf (key c)" "reached n ?bs (hash c) j"
      using j e r table_okD(3,4) [OF t, of j c] by (auto simp: nth split: if_splits)
  next
    fix j j' c d assume "j < n" "j' < n" "?bs ! j = Some c \<and> ?bs ! j' = Some d \<and> key c = key d"
    then show "j = j'"
      using u [of j c] u [of j' d] table_okD(5) [OF t, of j j' c d] by (auto simp: nth split: if_splits)
  qed (use l in auto)
qed

lemma table_ok_put:
  assumes t: "table_ok hf n bs" and i: "i < n" and k: "\<not> has_key bs k" "reached n bs (hf k) i"
  shows "table_ok hf n (bs[i := Some (entry (hf k) k v)])"
  by (rule table_ok_set [OF t i]) (use k table_okD(2) [OF t] in \<open>auto simp: entry_def has_key_def\<close>)

lemma table_ok_overwrite:
  assumes t: "table_ok hf n bs" and i: "i < n" "bs ! i = Some b"
  shows "table_ok hf n (bs[i := Some (b\<lparr>val := v\<rparr>)])"
  by (rule table_ok_set [OF t i(1)]) (use table_okD(3,4,5) [OF t i(1)] i(2) in \<open>fastforce+\<close>)

section \<open>The map of a table\<close>

fun entries :: "('k, 'v) Bucket list \<Rightarrow> ('k \<times> 'v) list" where
  "entries [] = []"
| "entries (None # bs) = entries bs"
| "entries (Some b # bs) = (key b, val b) # entries bs"

abbreviation tab :: "('k, 'v) Bucket list \<Rightarrow> 'k \<Rightarrow> 'v option" where
  "tab bs \<equiv> map_of (entries bs)"

lemma set_entries: "set (entries bs) = {(key b, val b) | b. Some b \<in> set bs}"
  by (induction bs rule: entries.induct) auto

lemma length_entries: "length (entries bs) = size (filter_mset (\<lambda>x. x \<noteq> None) (mset bs))"
  by (induction bs rule: entries.induct) auto

lemma length_entries_le: "length (entries bs) \<le> length bs"
  by (induction bs rule: entries.induct) auto

lemma entries_full: "length (entries bs) = length bs \<longleftrightarrow> (\<forall>i < length bs. bs ! i \<noteq> None)"
proof -
  have "length (entries bs) = length bs \<longleftrightarrow> None \<notin> set bs"
  proof (induction bs rule: entries.induct)
    case (2 bs)
    then show ?case using length_entries_le [of bs] by auto
  qed auto
  then show ?thesis by (auto simp: in_set_conv_nth)
qed

lemma length_entries_put:
  "i < length bs \<Longrightarrow> bs ! i = None \<Longrightarrow> length (entries (bs[i := Some b])) = Suc (length (entries bs))"
proof (induction bs arbitrary: i rule: entries.induct)
  case (2 bs)
  then show ?case by (cases i) auto
next
  case (3 b bs)
  then show ?case by (cases i) auto
qed simp

lemma length_entries_overwrite:
  "i < length bs \<Longrightarrow> bs ! i = Some c \<Longrightarrow> length (entries (bs[i := Some b])) = length (entries bs)"
proof (induction bs arbitrary: i rule: entries.induct)
  case (2 bs)
  then show ?case by (cases i) auto
next
  case (3 b bs)
  then show ?case by (cases i) auto
qed simp

lemma has_key_entries: "has_key bs k \<longleftrightarrow> k \<in> fst ` set (entries bs)"
  by (force simp: has_key_def set_entries in_set_conv_nth image_iff)

lemma distinct_entries: "table_ok hf n bs \<Longrightarrow> distinct (map fst (entries bs))"
proof -
  assume t: "table_ok hf n bs"
  have "distinct (map fst (entries cs))"
    if "\<And>i j b c. i < length cs \<Longrightarrow> j < length cs \<Longrightarrow> cs ! i = Some b \<Longrightarrow> cs ! j = Some c \<Longrightarrow> key b = key c \<Longrightarrow> i = j" for cs
    using that
  proof (induction cs rule: entries.induct)
    case (2 cs)
    have "distinct (map fst (entries cs))"
      by (rule "2.IH") (metis "2.prems" Suc_inject Suc_less_eq length_Cons nth_Cons_Suc)
    then show ?case by simp
  next
    case (3 b cs)
    have "distinct (map fst (entries cs))"
      by (rule "3.IH") (metis "3.prems" Suc_inject Suc_less_eq length_Cons nth_Cons_Suc)
    moreover have "\<not> has_key cs (key b)"
    proof
      assume "has_key cs (key b)"
      then obtain i c where "i < length cs" "cs ! i = Some c" "key c = key b" by (auto simp: has_key_def)
      then show False using "3.prems" [of "Suc i" 0 c b] by simp
    qed
    ultimately show ?case by (simp add: has_key_entries)
  qed simp
  from this [of bs] table_okD(2,5) [OF t] show ?thesis by blast
qed

lemma tab_Some:
  assumes "table_ok hf n bs"
  shows "tab bs k = Some v \<longleftrightarrow> (\<exists>i < n. \<exists>b. bs ! i = Some b \<and> key b = k \<and> val b = v)"
  using map_of_eq_Some_iff [OF distinct_entries [OF assms]] table_okD(2) [OF assms]
  by (auto simp: set_entries in_set_conv_nth)

lemma tab_None: "tab bs k = None \<longleftrightarrow> \<not> has_key bs k"
  by (simp add: has_key_entries map_of_eq_None_iff)

lemma tab_at: "table_ok hf n bs \<Longrightarrow> i < n \<Longrightarrow> bs ! i = Some b \<Longrightarrow> tab bs (key b) = Some (val b)"
  using tab_Some [of hf n bs "key b" "val b"] by auto

lemma option_eqI: "(\<And>v. x = Some v \<longleftrightarrow> y = Some v) \<Longrightarrow> x = y"
  by (metis option.exhaust)

lemma tab_set:
  assumes t: "table_ok hf n bs" and t': "table_ok hf n (bs[i := Some b])" and i: "i < n"
    and o: "bs ! i = None \<or> (\<exists>c. bs ! i = Some c \<and> key c = key b)"
  shows "tab (bs[i := Some b]) = (tab bs)(key b \<mapsto> val b)"
proof
  fix k
  have l: "length bs = n" using table_okD(2) [OF t] .
  have nth: "bs[i := Some b] ! j = (if j = i then Some b else bs ! j)" for j using i l by (simp add: nth_list_update)
  show "tab (bs[i := Some b]) k = ((tab bs)(key b \<mapsto> val b)) k"
  proof (cases "k = key b")
    case True
    then show ?thesis using tab_at [OF t' i] nth [of i] by simp
  next
    case False
    have "tab (bs[i := Some b]) k = Some v \<longleftrightarrow> tab bs k = Some v" for v
      unfolding tab_Some [OF t] tab_Some [OF t'] nth by (intro ex_cong1) (use False o in auto)
    then show ?thesis using False by (simp add: option_eqI)
  qed
qed

section \<open>The backward shift\<close>

definition disp :: "nat \<Rightarrow> ('k, 'v) Bucket list \<Rightarrow> nat" where
  "disp n bs = (\<Sum>i<n. case bs ! i of None \<Rightarrow> 0 | Some b \<Rightarrow> dist n (home n (hash b)) i)"

text \<open>
  A table with a hole: the way to an entry may lead through the hole, except for the entries between the
  hole and the position that is looked at next, \<open>j\<close> places after the hole.
\<close>

definition shifting :: "('k \<Rightarrow> u64) \<Rightarrow> nat \<Rightarrow> ('k, 'v) Bucket list \<Rightarrow> nat \<Rightarrow> nat \<Rightarrow> bool" where
  "shifting hf n bs hole j \<longleftrightarrow> length bs = n \<and> hole < n \<and> bs ! hole = None \<and> 1 \<le> j \<and> j \<le> n \<and>
     (\<forall>i < n. \<forall>b. bs ! i = Some b \<longrightarrow> hash b = hf (key b) \<and>
        (\<forall>e < dist n (home n (hash b)) i. step n (home n (hash b)) e = hole \<or> bs ! step n (home n (hash b)) e \<noteq> None)) \<and>
     (\<forall>d b. 1 \<le> d \<and> d < j \<and> bs ! step n hole d = Some b \<longrightarrow>
        dist n (home n (hash b)) (step n hole d) \<le> dist n (home n (hash b)) hole) \<and>
     (\<forall>i < n. \<forall>i' < n. \<forall>b c. bs ! i = Some b \<and> bs ! i' = Some c \<and> key b = key c \<longrightarrow> i = i')"

lemma shiftingI:
  assumes "length bs = n" "hole < n" "bs ! hole = None" "1 \<le> j" "j \<le> n"
    "\<And>i b. i < n \<Longrightarrow> bs ! i = Some b \<Longrightarrow> hash b = hf (key b)"
    "\<And>i b e. i < n \<Longrightarrow> bs ! i = Some b \<Longrightarrow> e < dist n (home n (hash b)) i \<Longrightarrow>
       step n (home n (hash b)) e = hole \<or> bs ! step n (home n (hash b)) e \<noteq> None"
    "\<And>d b. 1 \<le> d \<Longrightarrow> d < j \<Longrightarrow> bs ! step n hole d = Some b \<Longrightarrow>
       dist n (home n (hash b)) (step n hole d) \<le> dist n (home n (hash b)) hole"
    "\<And>i i' b c. i < n \<Longrightarrow> i' < n \<Longrightarrow> bs ! i = Some b \<Longrightarrow> bs ! i' = Some c \<Longrightarrow> key b = key c \<Longrightarrow> i = i'"
  shows "shifting hf n bs hole j"
  unfolding shifting_def using assms by blast

lemma shiftingD:
  assumes "shifting hf n bs hole j"
  shows "length bs = n" "hole < n" "bs ! hole = None" "1 \<le> j" "j \<le> n"
    "i < n \<Longrightarrow> bs ! i = Some b \<Longrightarrow> hash b = hf (key b)"
    "i < n \<Longrightarrow> bs ! i = Some b \<Longrightarrow> e < dist n (home n (hash b)) i \<Longrightarrow>
       step n (home n (hash b)) e = hole \<or> bs ! step n (home n (hash b)) e \<noteq> None"
    "1 \<le> d \<Longrightarrow> d < j \<Longrightarrow> bs ! step n hole d = Some b \<Longrightarrow>
       dist n (home n (hash b)) (step n hole d) \<le> dist n (home n (hash b)) hole"
    "i < n \<Longrightarrow> i' < n \<Longrightarrow> bs ! i = Some b \<Longrightarrow> bs ! i' = Some c \<Longrightarrow> key b = key c \<Longrightarrow> i = i'"
  using assms unfolding shifting_def by blast+

lemma shifting_stop:
  assumes s: "shifting hf n bs hole j" and f: "bs ! step n hole j = None"
  shows "table_ok hf n bs"
  unfolding table_ok_def
proof (intro conjI allI impI)
  have n: "0 < n" using shiftingD(2) [OF s] by simp
  fix i b assume i: "i < n" "bs ! i = Some b"
  show "hash b = hf (key b)" using shiftingD(6) [OF s i] .
  let ?h = "home n (hash b)"
  have h: "?h < n" using n by simp
  have free: "\<not> dist n ?h hole < dist n ?h i"
  proof
    assume on: "dist n ?h hole < dist n ?h i"
    let ?d = "dist n hole i"
    have d: "step n hole ?d = i" "?d < n" using step_dist dist_less shiftingD(2) [OF s] i(1) by auto
    have sum: "dist n ?h i = dist n ?h hole + ?d"
      by (rule dist_sum [OF h shiftingD(2) [OF s] i(1) on])
    have "0 < ?d" using on sum by simp
    consider "?d < j" | "?d = j" | "j < ?d" by linarith
    then show False
    proof cases
      case 1
      then show False using shiftingD(8) [OF s, of ?d b] d \<open>0 < ?d\<close> i on by simp
    next
      case 2
      then show False using f d i by simp
    next
      case 3
      let ?e = "dist n ?h hole + j"
      have "step n ?h ?e = step n hole j" using step_step [of n ?h "dist n ?h hole" j] step_dist [OF h shiftingD(2) [OF s]] by simp
      moreover have "?e < dist n ?h i" using 3 sum by simp
      moreover have "step n hole j \<noteq> hole"
        using step_inj [of hole n j 0] shiftingD(2,4) [OF s] 3 d(2) by (auto simp: step_0)
      ultimately show False using shiftingD(7) [OF s i, of ?e] f by simp
    qed
  qed
  show "reached n bs (hash b) i"
    unfolding reached_def
  proof (intro allI impI)
    fix e assume e: "e < dist n ?h i"
    have "step n ?h e \<noteq> hole"
      using e free dist_step [OF h, of e] dist_less [OF h, of i] by auto
    then show "bs ! step n ?h e \<noteq> None" using shiftingD(7) [OF s i e] by blast
  qed
qed (use shiftingD(1,2,9) [OF s] in auto)

lemma shifting_next:
  assumes s: "shifting hf n bs hole j" and b: "bs ! step n hole j = Some b"
    and d: "\<not> dist n (home n (hash b)) hole < dist n (home n (hash b)) (step n hole j)"
  shows "shifting hf n bs hole (Suc j) \<and> j < n"
proof -
  have "j \<noteq> n" using b shiftingD(2,3) [OF s] by (auto simp: step_def)
  then have j: "j < n" using shiftingD(5) [OF s] by simp
  have near: "dist n (home n (hash c)) (step n hole x) \<le> dist n (home n (hash c)) hole"
    if "1 \<le> x" "x < Suc j" "bs ! step n hole x = Some c" for x c
    using that shiftingD(8) [OF s, of x c] b d by (cases "x = j") auto
  have "shifting hf n bs hole (Suc j)"
    by (rule shiftingI, rule shiftingD(1) [OF s], rule shiftingD(2) [OF s], rule shiftingD(3) [OF s], simp, use j in simp,
        erule (1) shiftingD(6) [OF s], erule (2) shiftingD(7) [OF s], erule (2) near, erule (4) shiftingD(9) [OF s])
  then show ?thesis using j by blast
qed

lemma shifting_move:
  assumes s: "shifting hf n bs hole j" and b: "bs ! step n hole j = Some b"
    and d: "dist n (home n (hash b)) hole < dist n (home n (hash b)) (step n hole j)"
  shows "shifting hf n (MoveBucket hole (step n hole j) bs) (step n hole j) 1"
proof -
  let ?x = "step n hole j" and ?h = "home n (hash b)"
  let ?bs = "MoveBucket hole ?x bs"
  note l = shiftingD(1,2,3) [OF s]
  have n: "0 < n" using l by simp
  have x: "?x < n" "?x \<noteq> hole" "?h < n" using l b n by auto
  have nth: "?bs ! i = (if i = ?x then None else if i = hole then Some b else bs ! i)" for i
    using l x b by (auto simp: MoveBucket_def DestroyAt_def nth_list_update)
  have occ: "step n (home n (hash c)) e = ?x \<or> ?bs ! step n (home n (hash c)) e \<noteq> None"
    if "step n (home n (hash c)) e = hole \<or> bs ! step n (home n (hash c)) e \<noteq> None" for c :: "('a, 'b) Entry" and e
    using that x by (auto simp: nth)
  have path: "step n (home n (hash c)) e = ?x \<or> ?bs ! step n (home n (hash c)) e \<noteq> None"
    if c: "i < n" "?bs ! i = Some c" "e < dist n (home n (hash c)) i" for i c e
  proof (cases "i = hole")
    case True
    then have "c = b" using c(2) x by (simp add: nth)
    then show ?thesis using occ shiftingD(7) [OF s x(1) b, of e] c(3) d True by simp
  next
    case False
    then have "bs ! i = Some c" using c(2) by (simp add: nth split: if_splits)
    then show ?thesis using occ shiftingD(7) [OF s c(1)] c(3) by blast
  qed
  have hash: "hash c = hf (key c)" if "i < n" "?bs ! i = Some c" for i c
    using that shiftingD(6) [OF s, of i c] shiftingD(6) [OF s x(1) b] by (auto simp: nth split: if_splits)
  have uniq: "i = i'" if "i < n" "i' < n" "?bs ! i = Some c" "?bs ! i' = Some c'" "key c = key c'" for i i' c c'
    using that shiftingD(9) [OF s, of i i' c c'] shiftingD(9) [OF s x(1), of i' b c'] shiftingD(9) [OF s _ x(1), of i c b] b
    by (auto simp: nth split: if_splits)
  show ?thesis
  proof (rule shiftingI)
    show "length ?bs = n" using l by (simp add: MoveBucket_def DestroyAt_def)
    show "?bs ! ?x = None" by (simp add: nth)
  qed (rule x(1), simp, use n in simp, erule (1) hash, erule (2) path, simp, erule (4) uniq)
qed

lemma MoveBucket_mset:
  assumes "hole < length bs" "x < length bs" "bs ! hole = None"
  shows "mset (MoveBucket hole x bs) = mset bs"
  using mset_swap [OF assms(2,1)] assms(3) by (simp add: MoveBucket_def DestroyAt_def)

lemma MoveBucket_disp:
  assumes s: "shifting hf n bs hole j" and b: "bs ! step n hole j = Some b"
    and d: "dist n (home n (hash b)) hole < dist n (home n (hash b)) (step n hole j)"
  shows "disp n (MoveBucket hole (step n hole j) bs) < disp n bs"
proof -
  let ?x = "step n hole j"
  let ?f = "\<lambda>bs i. case bs ! i of None \<Rightarrow> 0 | Some b \<Rightarrow> dist n (home n (hash b)) i"
  let ?bs = "MoveBucket hole ?x bs"
  note l = shiftingD(1,2,3) [OF s]
  have x: "?x < n" "?x \<noteq> hole" using l b by auto
  have nth: "?bs ! i = (if i = ?x then None else if i = hole then Some b else bs ! i)" for i
    using l x b by (auto simp: MoveBucket_def DestroyAt_def nth_list_update)
  have split: "(\<Sum>i<n. g i) = g hole + (g ?x + (\<Sum>i\<in>{..<n} - {hole} - {?x}. g i))" for g :: "nat \<Rightarrow> nat"
    using l x sum.remove [of "{..<n}" hole g] sum.remove [of "{..<n} - {hole}" ?x g] by simp
  have "(\<Sum>i\<in>{..<n} - {hole} - {?x}. ?f ?bs i) = (\<Sum>i\<in>{..<n} - {hole} - {?x}. ?f bs i)"
    by (rule sum.cong) (auto simp: nth)
  then show ?thesis
    unfolding disp_def split [of "?f ?bs"] split [of "?f bs"] using l x d b by (simp add: nth)
qed

lemma BackwardShift_spec:
  assumes "n = 2 ^ p" "p \<le> 62" "shifting hf n bs hole j"
  shows "\<exists>bs'. BackwardShift (n - 1) bs hole (step n hole j) = Some bs' \<and> table_ok hf n bs' \<and> mset bs' = mset bs"
  using assms(3)
proof (induction "disp n bs * (n + 1) + (n - j)" arbitrary: bs hole j rule: less_induct)
  case less
  note s = less.prems
  let ?x = "step n hole j"
  have x: "?x < n" "hole < n" "length bs = n" using shiftingD(1,2) [OF s] by auto
  show ?case
  proof (cases "bs ! ?x")
    case None
    then show ?thesis using shifting_stop [OF s] by (subst BackwardShift.simps) simp
  next
    case (Some b)
    let ?h = "home n (hash b)"
    have dd: "Distance (home_of (hash b) (n - 1)) y (n - 1) = dist n ?h y" if "y < n" for y
      using Distance_dist [OF assms(1,2) _ that, of ?h] home_of_mod [OF assms(1), of "hash b"] x(2) by simp
    have nx: "(?x + 1) AND (n - 1) = step n hole (Suc j)" using and_mask_pow [OF assms(1)] by (simp add: step_Suc)
    show ?thesis
    proof (cases "dist n ?h hole < dist n ?h ?x")
      case True
      let ?bs = "MoveBucket hole ?x bs"
      have "disp n ?bs + 1 \<le> disp n bs" using MoveBucket_disp [OF s Some True] by simp
      then have "(disp n ?bs + 1) * (n + 1) \<le> disp n bs * (n + 1)" by (rule mult_le_mono1)
      then have lt: "disp n ?bs * (n + 1) + (n - 1) < disp n bs * (n + 1) + (n - j)" by simp
      have nx': "step n hole (Suc j) = step n ?x 1" by (simp add: step_step)
      obtain bs' where "BackwardShift (n - 1) ?bs ?x (step n ?x 1) = Some bs'" "table_ok hf n bs'" "mset bs' = mset ?bs"
        using less.hyps [OF lt shifting_move [OF s Some True]] by blast
      moreover have "mset ?bs = mset bs" by (rule MoveBucket_mset) (use x shiftingD(3) [OF s] in simp_all)
      ultimately show ?thesis using Some True dd x nx nx' by (subst BackwardShift.simps) (simp add: Let_def)
    next
      case False
      have j: "shifting hf n bs hole (Suc j)" "j < n" using shifting_next [OF s Some False] by auto
      then have lt: "disp n bs * (n + 1) + (n - Suc j) < disp n bs * (n + 1) + (n - j)" by simp
      show ?thesis using less.hyps [OF lt j(1)] Some False dd x nx by (subst BackwardShift.simps) (simp add: Let_def)
    qed
  qed
qed

lemma shifting_start:
  assumes t: "table_ok hf n bs" and i: "i < n" and n: "1 < n"
  shows "shifting hf n (bs[i := None]) i 1"
proof -
  have l: "length bs = n" using table_okD(2) [OF t] .
  have nth: "bs[i := None] ! j = (if j = i then None else bs ! j)" for j using i l by (simp add: nth_list_update)
  show ?thesis
  proof (rule shiftingI)
    fix j b e assume "j < n" "bs[i := None] ! j = Some b" "e < dist n (home n (hash b)) j"
    then show "step n (home n (hash b)) e = i \<or> bs[i := None] ! step n (home n (hash b)) e \<noteq> None"
      using table_okD(4) [OF t, of j b] unfolding nth reached_def by (auto split: if_splits)
  next
    fix j j' b c
    assume "j < n" "j' < n" "bs[i := None] ! j = Some b" "bs[i := None] ! j' = Some c" "key b = key c"
    then show "j = j'" using table_okD(5) [OF t, of j j' b c] by (auto simp: nth split: if_splits)
  next
    fix j b assume "j < n" "bs[i := None] ! j = Some b"
    then show "hash b = hf (key b)" using table_okD(3) [OF t, of j b] by (auto simp: nth split: if_splits)
  qed (use i l n nth in auto)
qed

section \<open>The invariant\<close>

definition fh_ok :: "('k \<Rightarrow> u64) \<Rightarrow> ('k, 'v) FlatHashMap \<Rightarrow> bool" where
  "fh_ok hf m \<longleftrightarrow> (\<exists>p. 4 \<le> p \<and> p \<le> 62 \<and> m_capacity m = 2 ^ p) \<and> m_mask m = m_capacity m - 1 \<and>
     table_ok hf (m_capacity m) (m_buckets m) \<and> m_size m = length (entries (m_buckets m))"

definition fh_inv :: "('k \<Rightarrow> u64) \<Rightarrow> ('k, 'v) FlatHashMap \<Rightarrow> bool" where
  "fh_inv hf m \<longleftrightarrow> m = released \<or> fh_ok hf m"

definition fh_map :: "('k, 'v) FlatHashMap \<Rightarrow> 'k \<Rightarrow> 'v option" where
  "fh_map m = tab (m_buckets m)"

lemma fh_okD:
  assumes "fh_ok hf m"
  shows "m_mask m = m_capacity m - 1" "table_ok hf (m_capacity m) (m_buckets m)" "m_size m = length (entries (m_buckets m))"
    "length (m_buckets m) = m_capacity m" "16 \<le> m_capacity m" "m_size m \<le> m_capacity m"
proof -
  show t: "m_mask m = m_capacity m - 1" "table_ok hf (m_capacity m) (m_buckets m)" "m_size m = length (entries (m_buckets m))"
    using assms by (auto simp: fh_ok_def)
  then show l: "length (m_buckets m) = m_capacity m" using table_okD(2) by blast
  show "m_size m \<le> m_capacity m" using t(3) l length_entries_le [of "m_buckets m"] by simp
  obtain p where p: "4 \<le> p" "m_capacity m = 2 ^ p" using assms by (auto simp: fh_ok_def)
  then show "16 \<le> m_capacity m" using power_increasing [of 4 p "2::nat"] by simp
qed

lemma fh_ok_pow: "fh_ok hf m \<Longrightarrow> \<exists>p. 4 \<le> p \<and> p \<le> 62 \<and> m_capacity m = 2 ^ p"
  by (simp add: fh_ok_def)

lemma fh_map_released [simp]: "fh_map released = Map.empty"
  by (simp add: fh_map_def released_def)

section \<open>Lookup\<close>

lemma FindIndex_spec:
  assumes "fh_ok hf m"
  shows "case FindIndex m k (hf k) of None \<Rightarrow> \<not> has_key (m_buckets m) k
    | Some i \<Rightarrow> i < m_capacity m \<and> (\<exists>b. m_buckets m ! i = Some b \<and> key b = k)"
proof -
  obtain p where p: "m_capacity m = 2 ^ p" using fh_ok_pow [OF assms] by blast
  note d = fh_okD [OF assms]
  have "m_buckets m \<noteq> []" "m_capacity m \<noteq> 0" using d(4,5) by auto
  moreover have "home_of (hf k) (m_mask m) = step (m_capacity m) (home (m_capacity m) (hf k)) 0"
    using home_of_mod [OF p] d(1,5) by (simp add: step_def)
  ultimately show ?thesis using FindIndex_loop_spec [OF d(2) p d(1) probed_0, of "m_capacity m" k] by (simp add: FindIndex_def)
qed

lemma GetPtr_exact: "fh_inv hf m \<Longrightarrow> GetPtr hf m k = fh_map m k"
proof (cases "m = released")
  case True
  then show ?thesis by (simp add: GetPtr_def FindIndex_def released_def fh_map_def)
next
  case False
  moreover assume "fh_inv hf m"
  ultimately have ok: "fh_ok hf m" by (simp add: fh_inv_def)
  show ?thesis
  proof (cases "FindIndex m k (hf k)")
    case None
    then show ?thesis using FindIndex_spec [OF ok, of k] tab_None [of "m_buckets m" k] by (simp add: GetPtr_def fh_map_def)
  next
    case (Some i)
    then obtain b where b: "i < m_capacity m" "m_buckets m ! i = Some b" "key b = k" using FindIndex_spec [OF ok, of k] by auto
    then show ?thesis using Some tab_at [OF fh_okD(2) [OF ok] b(1,2)] by (simp add: GetPtr_def fh_map_def)
  qed
qed

section \<open>Storing\<close>

lemma FindInsertSlot_spec:
  assumes "fh_ok hf m"
  shows "case FindInsertSlot m k (hf k) of None \<Rightarrow> m_size m = m_capacity m
    | Some i \<Rightarrow> i < m_capacity m \<and> ((\<exists>b. m_buckets m ! i = Some b \<and> key b = k) \<or>
        m_buckets m ! i = None \<and> \<not> has_key (m_buckets m) k \<and> reached (m_capacity m) (m_buckets m) (hf k) i)"
proof -
  obtain p where p: "m_capacity m = 2 ^ p" using fh_ok_pow [OF assms] by blast
  note d = fh_okD [OF assms]
  have "home_of (hf k) (m_mask m) = step (m_capacity m) (home (m_capacity m) (hf k)) 0"
    using home_of_mod [OF p] d(1,5) by (simp add: step_def)
  then show ?thesis using FindInsertSlot_loop_spec [OF d(2) p d(1) probed_0, of "m_capacity m" k] entries_full [of "m_buckets m"] d(3,4)
    by (simp add: FindInsertSlot_def split: option.splits)
qed

lemma store_new:
  assumes ok: "fh_ok hf m" and i: "i < m_capacity m" "m_buckets m ! i = None" "\<not> has_key (m_buckets m) k"
    "reached (m_capacity m) (m_buckets m) (hf k) i"
    and m': "m' = m\<lparr>m_buckets := (m_buckets m)[i := Some (entry (hf k) k v)], m_size := m_size m + 1\<rparr>"
  shows "fh_ok hf m' \<and> fh_map m' = (fh_map m)(k \<mapsto> v) \<and> m_size m' = m_size m + 1 \<and> m_capacity m' = m_capacity m"
proof -
  note d = fh_okD [OF ok]
  let ?bs = "(m_buckets m)[i := Some (entry (hf k) k v)]"
  have t: "table_ok hf (m_capacity m) ?bs" using table_ok_put [OF d(2) i(1,3,4)] .
  have "tab ?bs = (tab (m_buckets m))(k \<mapsto> v)" using tab_set [OF d(2) t i(1)] i(2) by (simp add: entry_def)
  moreover have "length (entries ?bs) = Suc (m_size m)" using length_entries_put [of i "m_buckets m"] i d by simp
  ultimately show ?thesis using t d fh_ok_pow [OF ok] by (simp add: fh_ok_def fh_map_def m')
qed

lemma store_over:
  assumes ok: "fh_ok hf m" and i: "i < m_capacity m" "m_buckets m ! i = Some b"
    and m': "m' = m\<lparr>m_buckets := (m_buckets m)[i := Some (b\<lparr>val := v\<rparr>)]\<rparr>"
  shows "fh_ok hf m' \<and> fh_map m' = (fh_map m)(key b \<mapsto> v) \<and> m_size m' = m_size m \<and> m_capacity m' = m_capacity m"
proof -
  note d = fh_okD [OF ok]
  let ?bs = "(m_buckets m)[i := Some (b\<lparr>val := v\<rparr>)]"
  have t: "table_ok hf (m_capacity m) ?bs" using table_ok_overwrite [OF d(2) i] .
  have "tab ?bs = (tab (m_buckets m))(key b \<mapsto> v)" using tab_set [OF d(2) t i(1)] i(2) by simp
  moreover have "length (entries ?bs) = m_size m" using length_entries_overwrite [of i "m_buckets m"] i d by simp
  ultimately show ?thesis using t d fh_ok_pow [OF ok] by (simp add: fh_ok_def fh_map_def m')
qed

section \<open>Rehashing\<close>

lemma InsertExisting_spec:
  assumes ok: "fh_ok hf m" and k: "fh_map m k = None" and s: "m_size m < m_capacity m"
  shows "\<exists>m'. InsertExisting (hf k) k v m = (m', None) \<and> fh_ok hf m' \<and> fh_map m' = (fh_map m)(k \<mapsto> v) \<and>
    m_size m' = m_size m + 1 \<and> m_capacity m' = m_capacity m"
proof -
  have nk: "\<not> has_key (m_buckets m) k" using k tab_None by (metis fh_map_def)
  obtain i where i: "FindInsertSlot m k (hf k) = Some i" using FindInsertSlot_spec [OF ok, of k] s by (cases "FindInsertSlot m k (hf k)") auto
  then have "i < m_capacity m" "m_buckets m ! i = None" "reached (m_capacity m) (m_buckets m) (hf k) i"
    using FindInsertSlot_spec [OF ok, of k] nk fh_okD(4) [OF ok] by (auto simp: has_key_def)
  then show ?thesis using store_new [OF ok _ _ nk, OF _ _ _ refl] i by (simp add: InsertExisting_def)
qed

lemma map_of_add_fresh: "k \<notin> fst ` set xs \<Longrightarrow> (f(k \<mapsto> v)) ++ map_of xs = f ++ map_of ((k, v) # xs)"
proof -
  assume "k \<notin> fst ` set xs"
  then have "map_of xs k = None" by (simp add: map_of_eq_None_iff)
  then show ?thesis by (auto simp: fun_eq_iff map_add_def split: option.split)
qed

lemma InsertAll_spec:
  assumes "fh_ok hf m" "m_size m + length (entries bs) \<le> m_capacity m" "distinct (map fst (entries bs))"
    "\<forall>k \<in> fst ` set (entries bs). fh_map m k = None" "\<forall>b. Some b \<in> set bs \<longrightarrow> hash b = hf (key b)"
  shows "\<exists>m'. InsertAll bs m = (m', None) \<and> fh_ok hf m' \<and> fh_map m' = fh_map m ++ map_of (entries bs) \<and>
    m_size m' = m_size m + length (entries bs) \<and> m_capacity m' = m_capacity m"
  using assms
proof (induction bs arbitrary: m rule: entries.induct)
  case (3 b bs)
  have "hash b = hf (key b)" using "3.prems"(5) by simp
  then obtain m1 where m1: "InsertExisting (hash b) (key b) (val b) m = (m1, None)" "fh_ok hf m1"
    "fh_map m1 = (fh_map m)(key b \<mapsto> val b)" "m_size m1 = m_size m + 1" "m_capacity m1 = m_capacity m"
    using InsertExisting_spec [OF "3.prems"(1), of "key b" "val b"] "3.prems"(2,4) by auto
  have "\<exists>m'. InsertAll bs m1 = (m', None) \<and> fh_ok hf m' \<and> fh_map m' = fh_map m1 ++ map_of (entries bs) \<and>
    m_size m' = m_size m1 + length (entries bs) \<and> m_capacity m' = m_capacity m1"
  proof (rule "3.IH")
    show "\<forall>k\<in>fst ` set (entries bs). fh_map m1 k = None" using m1(3) "3.prems"(3,4) by force
  qed (use "3.prems" m1 in auto)
  then obtain m' where m': "InsertAll bs m1 = (m', None)" "fh_ok hf m'" "fh_map m' = fh_map m1 ++ map_of (entries bs)"
    "m_size m' = m_size m1 + length (entries bs)" "m_capacity m' = m_capacity m1" by blast
  have fm: "fh_map m' = fh_map m ++ map_of (entries (Some b # bs))"
    using map_of_add_fresh [of "key b" "entries bs" "fh_map m" "val b"] "3.prems"(3) by (simp only: m'(3) m1(3) entries.simps) simp
  show ?case by (intro exI [of _ m'] conjI, simp add: m1 m', rule m'(2), rule fm) (simp_all add: m1 m')
qed simp_all

lemma fh_ok_fresh:
  assumes "rounded n \<le> 2 ^ 62"
  shows "fh_ok hf \<lparr>m_buckets = replicate (rounded n) None, m_capacity = rounded n, m_mask = rounded n - 1, m_size = 0\<rparr>"
    "fh_map \<lparr>m_buckets = replicate (rounded n) None, m_capacity = rounded n, m_mask = rounded n - 1, m_size = 0\<rparr> = Map.empty"
proof -
  have e: "entries (replicate x None) = []" for x by (induction x) auto
  obtain p where p: "rounded n = 2 ^ p" "4 \<le> p" using rounded_pow by blast
  have "p \<le> 62" using assms p(1) power_le_imp_le_exp [of "2::nat" p 62] by simp
  then show "fh_ok hf \<lparr>m_buckets = replicate (rounded n) None, m_capacity = rounded n, m_mask = rounded n - 1, m_size = 0\<rparr>"
    using p by (auto simp: fh_ok_def table_ok_def e)
  show "fh_map \<lparr>m_buckets = replicate (rounded n) None, m_capacity = rounded n, m_mask = rounded n - 1, m_size = 0\<rparr> = Map.empty"
    by (simp add: fh_map_def e)
qed

lemma table_hashes: "table_ok hf n bs \<Longrightarrow> Some b \<in> set bs \<Longrightarrow> hash b = hf (key b)"
  using table_okD(2,3) by (metis in_set_conv_nth)

lemma Rehash_def': "Rehash alloc n m = (if rounded n = m_capacity m then (m, None) else
   case Initialize alloc (rounded n) released of (m', Some e) \<Rightarrow> (m', Some e) | (m', None) \<Rightarrow> InsertAll (m_buckets m) m')"
proof -
  have "(if NextPow2 n < kInitialCapacity then kInitialCapacity else NextPow2 n) = rounded n" by (simp add: rounded_def max_def)
  then show ?thesis by (simp add: Rehash_def Let_def)
qed

lemma Rehash_spec:
  assumes inv: "fh_inv hf m" and s: "m_size m \<le> rounded n" and a: "alloc (rounded n) \<Longrightarrow> rounded n \<le> 2 ^ 62"
  shows "(\<exists>m'. Rehash alloc n m = (m', None) \<and> fh_ok hf m' \<and> fh_map m' = fh_map m \<and> m_size m' = m_size m \<and> m_capacity m' = rounded n)
    \<or> Rehash alloc n m = (released, Some bad_alloc) \<and> \<not> alloc (rounded n) \<and> rounded n \<noteq> m_capacity m"
proof (cases "rounded n = m_capacity m")
  case True
  then have "m \<noteq> released" using rounded_ge(2) [of n] by (auto simp: released_def)
  then show ?thesis using inv True by (auto simp: Rehash_def' fh_inv_def)
next
  case False
  have rr: "rounded (rounded n) = rounded n" using rounded_pow [of n] rounded_id by auto
  show ?thesis
  proof (cases "alloc (rounded n)")
    case True
    let ?m = "\<lparr>m_buckets = replicate (rounded n) None, m_capacity = rounded n, m_mask = rounded n - 1, m_size = 0\<rparr> :: ('a, 'b) FlatHashMap"
    have f: "fh_ok hf ?m" "fh_map ?m = Map.empty" using fh_ok_fresh a [OF True] by blast+
    have sz: "m_size m = length (entries (m_buckets m))" "distinct (map fst (entries (m_buckets m)))"
      "\<forall>b. Some b \<in> set (m_buckets m) \<longrightarrow> hash b = hf (key b)"
      using inv fh_okD(2,3) [of hf m] distinct_entries [of hf "m_capacity m" "m_buckets m"] table_hashes [of hf "m_capacity m" "m_buckets m"]
      by (auto simp: fh_inv_def released_def)
    have "\<exists>m'. InsertAll (m_buckets m) ?m = (m', None) \<and> fh_ok hf m' \<and> fh_map m' = fh_map ?m ++ map_of (entries (m_buckets m)) \<and>
      m_size m' = m_size ?m + length (entries (m_buckets m)) \<and> m_capacity m' = m_capacity ?m"
      by (rule InsertAll_spec) (use f sz s in auto)
    then show ?thesis using False True f sz by (simp add: Rehash_def' Initialize_exact rr fh_map_def)
  next
    case a: False
    then show ?thesis using False by (simp add: Rehash_def' Initialize_exact rr)
  qed
qed

section \<open>Insertion\<close>

definition alloc_bounded :: "(nat \<Rightarrow> bool) \<Rightarrow> bool" where
  "alloc_bounded alloc \<longleftrightarrow> (\<forall>c. alloc c \<longrightarrow> c \<le> 2 ^ 62)"

text \<open>The result of an insertion: done, or an allocation failed.\<close>

definition inserted :: "('k \<Rightarrow> u64) \<Rightarrow> (nat \<Rightarrow> bool) \<Rightarrow> 'k \<Rightarrow> 'v \<Rightarrow> ('k, 'v) FlatHashMap \<Rightarrow> ('k, 'v) FlatHashMap \<times> exn option \<Rightarrow> bool" where
  "inserted hf alloc k v m r \<longleftrightarrow>
     (case r of
        (m', None) \<Rightarrow> fh_ok hf m' \<and> fh_map m' = (fh_map m)(k \<mapsto> v)
      | (m', Some e) \<Rightarrow> e = bad_alloc \<and> m' = released \<and>
          (m_capacity m = 0 \<or> 3 * m_capacity m < 4 * m_size m) \<and> \<not> alloc (max 16 (2 * m_capacity m)))"

lemma rounded_double: "fh_ok hf m \<Longrightarrow> rounded (m_capacity m * 2) = 2 * m_capacity m"
proof -
  assume "fh_ok hf m"
  then obtain p where p: "4 \<le> p" "m_capacity m = 2 ^ p" using fh_ok_pow by blast
  then show ?thesis using rounded_id [of "Suc p"] by (simp add: mult.commute)
qed

lemma MaybeGrow_spec:
  assumes ok: "fh_ok hf m" and a: "alloc_bounded alloc"
  shows "(\<exists>m'. MaybeGrow alloc m = (m', None) \<and> fh_ok hf m' \<and> fh_map m' = fh_map m \<and> m_size m' < m_capacity m')
    \<or> MaybeGrow alloc m = (released, Some bad_alloc) \<and> 3 * m_capacity m < 4 * m_size m \<and> \<not> alloc (2 * m_capacity m)"
proof (cases "4 * m_size m \<le> 3 * m_capacity m")
  case True
  then show ?thesis using ok fh_okD(5) [OF ok] by (simp add: MaybeGrow_def)
next
  case False
  have g: "MaybeGrow alloc m = Rehash alloc (m_capacity m * 2) m" using False fh_okD(5) [OF ok] by (simp add: MaybeGrow_def)
  note r = rounded_double [OF ok]
  have "m_size m \<le> rounded (m_capacity m * 2)" "alloc (rounded (m_capacity m * 2)) \<Longrightarrow> rounded (m_capacity m * 2) \<le> 2 ^ 62"
    using fh_okD(6) [OF ok] r a by (auto simp: alloc_bounded_def)
  from Rehash_spec [of hf m "m_capacity m * 2" alloc, OF _ this] ok False fh_okD(5,6) [OF ok]
  show ?thesis unfolding g r by (auto simp: fh_inv_def)
qed

lemma Insert_ok_spec:
  assumes ok: "fh_ok hf m" and a: "alloc_bounded alloc"
  shows "\<exists>r. Insert hf alloc k v m = Some r \<and> inserted hf alloc k v m r"
proof -
  consider m' where "MaybeGrow alloc m = (m', None)" "fh_ok hf m'" "fh_map m' = fh_map m" "m_size m' < m_capacity m'"
    | "MaybeGrow alloc m = (released, Some bad_alloc)" "3 * m_capacity m < 4 * m_size m" "\<not> alloc (2 * m_capacity m)"
    using MaybeGrow_spec [OF ok a] by blast
  then show ?thesis
  proof cases
    case (1 m')
    obtain i where i: "FindInsertSlot m' k (hf k) = Some i"
      using FindInsertSlot_spec [OF 1(2), of k] 1(4) by (cases "FindInsertSlot m' k (hf k)") auto
    show ?thesis
    proof (cases "m_buckets m' ! i")
      case None
      let ?m = "m'\<lparr>m_buckets := (m_buckets m')[i := Some (entry (hf k) k v)], m_size := m_size m' + 1\<rparr>"
      have "i < m_capacity m'" "\<not> has_key (m_buckets m') k" "reached (m_capacity m') (m_buckets m') (hf k) i"
        using FindInsertSlot_spec [OF 1(2), of k] i None by auto
      then have "fh_ok hf ?m \<and> fh_map ?m = (fh_map m')(k \<mapsto> v)" using store_new [OF 1(2) _ None _ _ refl] by blast
      then show ?thesis using 1 i None by (subst Insert.simps) (simp add: inserted_def Let_def)
    next
      case (Some b)
      let ?m = "m'\<lparr>m_buckets := (m_buckets m')[i := Some (b\<lparr>val := v\<rparr>)]\<rparr>"
      have "i < m_capacity m'" "key b = k" using FindInsertSlot_spec [OF 1(2), of k] i Some by auto
      then have "fh_ok hf ?m \<and> fh_map ?m = (fh_map m')(k \<mapsto> v)" using store_over [OF 1(2) _ Some refl] by blast
      then show ?thesis using 1 i Some by (subst Insert.simps) (simp add: inserted_def Let_def)
    qed
  next
    case 2
    then show ?thesis using fh_okD(5) [OF ok] by (subst Insert.simps) (simp add: inserted_def max_def)
  qed
qed

lemma Insert_spec:
  assumes inv: "fh_inv hf m" and a: "alloc_bounded alloc"
  shows "\<exists>r. Insert hf alloc k v m = Some r \<and> inserted hf alloc k v m r"
proof (cases "m = released")
  case False
  then show ?thesis using inv Insert_ok_spec [OF _ a] by (auto simp: fh_inv_def)
next
  case True
  have c: "rounded 16 = 16" using rounded_id [of 4] by simp
  have cap: "m_capacity (released :: ('a, 'b) FlatHashMap) = 0" "m_size (released :: ('a, 'b) FlatHashMap) = 0" by (simp_all add: released_def)
  have g: "MaybeGrow alloc m = (m, None)" "FindInsertSlot m k (hf k) = None"
    using True cap by (simp_all add: MaybeGrow_def FindInsertSlot_def)
  have mx: "max kInitialCapacity (m_capacity m * 2) = 16" using True cap by (simp add: kInitialCapacity_def)
  consider m' where "Rehash alloc 16 m = (m', None)" "fh_ok hf m'" "fh_map m' = fh_map m" "m_size m' = 0" "m_capacity m' = 16"
    | "Rehash alloc 16 m = (released, Some bad_alloc)" "\<not> alloc 16"
    using Rehash_spec [OF inv, of 16 alloc] a True cap unfolding c by (auto simp: alloc_bounded_def)
  then show ?thesis
  proof cases
    case (1 m')
    obtain r where r: "Insert hf alloc k v m' = Some r" "inserted hf alloc k v m' r" using Insert_ok_spec [OF 1(2) a] by blast
    then have "inserted hf alloc k v m r" using 1 by (auto simp: inserted_def split: prod.splits option.splits)
    then show ?thesis using r(1) 1(1) by (subst Insert.simps) (simp add: g mx)
  next
    case 2
    moreover have "m_capacity m = 0" using True cap by simp
    ultimately show ?thesis by (subst Insert.simps) (simp add: g mx inserted_def kInitialCapacity_def)
  qed
qed

section \<open>Removal\<close>

lemma Remove_spec:
  assumes inv: "fh_inv hf m"
  shows "\<exists>m'. Remove hf k m = Some m' \<and> fh_inv hf m' \<and> fh_map m' = (fh_map m)(k := None)"
proof (cases "FindIndex m k (hf k)")
  case None
  then have "fh_map m k = None" using GetPtr_exact [OF inv, of k] by (simp add: GetPtr_def)
  then have "(fh_map m)(k := None) = fh_map m" by (simp add: fun_upd_idem)
  then show ?thesis using None inv by (simp add: Remove_def)
next
  case (Some i)
  have "m \<noteq> released" using Some by (auto simp: FindIndex_def released_def)
  then have ok: "fh_ok hf m" using inv by (simp add: fh_inv_def)
  note d = fh_okD [OF ok]
  obtain b where b: "i < m_capacity m" "m_buckets m ! i = Some b" "key b = k" using FindIndex_spec [OF ok, of k] Some by auto
  obtain p where p: "m_capacity m = 2 ^ p" "p \<le> 62" using fh_ok_pow [OF ok] by blast
  let ?n = "m_capacity m" and ?bs = "(m_buckets m)[i := None]"
  have s: "shifting hf ?n ?bs i 1" using shifting_start [OF d(2) b(1)] d(5) by simp
  have nx: "(i + 1) AND m_mask m = step ?n i 1" using and_mask_pow [OF p(1)] d(1) by (simp add: step_def)
  obtain bs' where bs': "BackwardShift (?n - 1) ?bs i (step ?n i 1) = Some bs'" "table_ok hf ?n bs'" "mset bs' = mset ?bs"
    using BackwardShift_spec [OF p s] by blast
  let ?m = "m\<lparr>m_buckets := bs', m_size := m_size m - 1\<rparr>"
  have r: "Remove hf k m = Some ?m"
    using Some bs'(1) nx d(1) by (simp add: Remove_def BackwardShiftFrom_def DestroyAt_def)
  have set: "set bs' = set ?bs" using bs'(3) by (metis set_mset_mset)
  have "length (entries bs') = length (entries ?bs)" using bs'(3) by (simp add: length_entries)
  moreover have "length (entries (?bs[i := Some b])) = Suc (length (entries ?bs))"
    using length_entries_put [of i ?bs b] b d(4) by simp
  moreover have "?bs[i := Some b] = m_buckets m" using b(2) by (simp add: list_update_same_conv) (metis list_update_id)
  ultimately have "m_size m - 1 = length (entries bs')" using d(3) by simp
  then have "fh_ok hf ?m" using bs'(2) p d fh_ok_pow [OF ok] by (simp add: fh_ok_def)
  moreover have other: "j \<noteq> i \<longleftrightarrow> key c \<noteq> k" if "j < ?n" "m_buckets m ! j = Some c" for j c
    using that b table_okD(5) [OF d(2) that(1) b(1) that(2) b(2)] by auto
  have "fh_map ?m = (fh_map m)(k := None)"
  proof
    fix k'
    have "fh_map ?m k' = Some v \<longleftrightarrow> ((fh_map m)(k := None)) k' = Some v" for v
    proof -
      have "tab bs' k' = Some v \<longleftrightarrow> (\<exists>c. Some c \<in> set ?bs \<and> key c = k' \<and> val c = v)"
        unfolding tab_Some [OF bs'(2)] using set table_okD(2) [OF bs'(2)] by (metis in_set_conv_nth)
      also have "\<dots> \<longleftrightarrow> (\<exists>j < ?n. \<exists>c. j \<noteq> i \<and> m_buckets m ! j = Some c \<and> key c = k' \<and> val c = v)"
        using d(4) b(1) by (auto simp: in_set_conv_nth nth_list_update)
      also have "\<dots> \<longleftrightarrow> k' \<noteq> k \<and> tab (m_buckets m) k' = Some v"
        unfolding tab_Some [OF d(2)] using other by blast
      finally show ?thesis by (simp add: fh_map_def)
    qed
    then show "fh_map ?m k' = ((fh_map m)(k := None)) k'" by (rule option_eqI)
  qed
  ultimately show ?thesis using r by (auto simp: fh_inv_def)
qed

section \<open>The contract of a finite map\<close>

definition fh_insert :: "('k \<Rightarrow> u64) \<Rightarrow> (nat \<Rightarrow> bool) \<Rightarrow> 'k \<Rightarrow> 'v \<Rightarrow> ('k, 'v) FlatHashMap \<Rightarrow> ('k, 'v) FlatHashMap option" where
  "fh_insert hf alloc k v m = (case Insert hf alloc k v m of Some (m', None) \<Rightarrow> Some m' | _ \<Rightarrow> None)"

lemma fh_size:
  assumes "fh_inv hf m"
  shows "finite (dom (fh_map m)) \<and> m_size m = card (dom (fh_map m))"
proof -
  have "distinct (map fst (entries (m_buckets m)))" "m_size m = length (entries (m_buckets m))"
    using assms fh_okD(2,3) [of hf m] distinct_entries by (auto simp: fh_inv_def released_def)
  moreover have "dom (fh_map m) = set (map fst (entries (m_buckets m)))"
    by (simp add: fh_map_def dom_map_of_conv_image_fst)
  ultimately show ?thesis using distinct_card [of "map fst (entries (m_buckets m))"] by simp
qed

lemma fh_insert_spec:
  assumes "fh_inv hf m" "alloc_bounded alloc" "fh_insert hf alloc k v m = Some m'"
  shows "fh_inv hf m' \<and> fh_map m' = (fh_map m)(k \<mapsto> v)"
  using Insert_spec [OF assms(1,2), of k v] assms(3)
  by (auto simp: fh_insert_def inserted_def fh_inv_def split: prod.splits option.splits)

interpretation fh: finite_map "\<lambda>m. fh_inv hf m \<and> alloc_bounded alloc" "GetPtr hf" "fh_insert hf alloc" "Remove hf" m_size
  for hf :: "'k \<Rightarrow> u64" and alloc
proof
  fix m m' :: "('k, 'v) FlatHashMap" and k v
  assume inv: "fh_inv hf m \<and> alloc_bounded alloc"
  have g: "GetPtr hf x = fh_map x" if "fh_inv hf x" for x :: "('k, 'v) FlatHashMap"
    by (rule ext) (rule GetPtr_exact [OF that])
  show "finite (dom (GetPtr hf m)) \<and> m_size m = card (dom (GetPtr hf m))" using fh_size [of hf m] inv g [of m] by simp
  show "\<exists>m'. Remove hf k m = Some m' \<and> (fh_inv hf m' \<and> alloc_bounded alloc) \<and> GetPtr hf m' = (GetPtr hf m)(k := None)"
    using Remove_spec [of hf m k] inv g by metis
  assume "fh_insert hf alloc k v m = Some m'"
  then show "(fh_inv hf m' \<and> alloc_bounded alloc) \<and> GetPtr hf m' = (GetPtr hf m)(k \<mapsto> v)"
    using fh_insert_spec [of hf m alloc k v m'] inv g by metis
qed

section \<open>The other operations\<close>






section \<open>Iteration\<close>

lemma Advance_drop:
  assumes "length (m_buckets m) = m_capacity m" "i \<le> m_capacity m"
  shows "entries (drop (Advance m i) (m_buckets m)) = entries (drop i (m_buckets m)) \<and> Advance m i \<le> m_capacity m \<and>
    (Advance m i < m_capacity m \<longrightarrow> m_buckets m ! Advance m i \<noteq> None)"
  using assms(2)
proof (induction "m_capacity m - i" arbitrary: i)
  case 0
  then show ?case by (simp add: Advance.simps [of m i])
next
  case (Suc j)
  then have i: "i < m_capacity m" by simp
  then have d: "drop i (m_buckets m) = m_buckets m ! i # drop (Suc i) (m_buckets m)" using assms(1) by (simp add: Cons_nth_drop_Suc)
  show ?case
  proof (cases "m_buckets m ! i")
    case None
    then have "Advance m i = Advance m (Suc i)" using i by (simp add: Advance.simps [of m i])
    then show ?thesis using Suc.hyps(1) [of "Suc i"] Suc.hyps(2) i None d by simp
  next
    case (Some b)
    then show ?thesis using i by (simp add: Advance.simps [of m i])
  qed
qed

lemma Iterate_entries:
  assumes "length (m_buckets m) = m_capacity m"
  shows "Iterate m (Advance m i) = entries (drop i (m_buckets m))"
proof (induction "m_capacity m - i" arbitrary: i rule: less_induct)
  case less
  show ?case
  proof (cases "i \<le> m_capacity m")
    case True
    let ?a = "Advance m i"
    note a = Advance_drop [OF assms True]
    show ?thesis
    proof (cases "?a < m_capacity m")
      case True
      then obtain b where b: "m_buckets m ! ?a = Some b" using a by auto
      have "m_capacity m - (?a + 1) < m_capacity m - i" using True Advance_ge [of i m] by simp
      then have IH: "Iterate m (Advance m (?a + 1)) = entries (drop (?a + 1) (m_buckets m))" by (rule less)
      have "drop ?a (m_buckets m) = Some b # drop (?a + 1) (m_buckets m)" using True assms b by (simp flip: Cons_nth_drop_Suc)
      then show ?thesis using a IH True b by (subst Iterate.simps) simp
    next
      case False
      then have "?a = m_capacity m" using a by simp
      then have "entries (drop i (m_buckets m)) = []" using a assms by simp
      then show ?thesis using False by (subst Iterate.simps) simp
    qed
  next
    case False
    then have "Advance m i = i" by (simp add: Advance.simps [of m i])
    then show ?thesis using False assms by (subst Iterate.simps) simp
  qed
qed

lemma Entries_exact: "fh_inv hf m \<Longrightarrow> Entries m = entries (m_buckets m)"
  using Iterate_entries [of m 0] fh_okD(4) [of hf m] by (auto simp: Entries_def fh_inv_def released_def)

lemma Entries_spec:
  assumes "fh_inv hf m"
  shows "distinct (map fst (Entries m)) \<and> map_of (Entries m) = fh_map m \<and> length (Entries m) = m_size m"
  using Entries_exact [OF assms] assms fh_okD(2,3) [of hf m] distinct_entries
  by (auto simp: fh_inv_def fh_map_def released_def)

lemma Construct_ok:
  assumes "alloc_bounded alloc" "Construct alloc n = (m0, e)"
  shows "fh_inv hf m0 \<and> fh_map m0 = Map.empty \<and> m_size m0 = 0 \<and> (e = None \<longrightarrow> m_capacity m0 = rounded n)"
  using assms fh_ok_fresh [of n]
  by (auto simp: Construct_def Initialize_exact fh_inv_def alloc_bounded_def released_def fh_map_def split: if_splits)

lemma fh_insert_room:
  assumes "fh_inv hf m" "alloc_bounded alloc" "m_capacity m \<noteq> 0" "m_size m \<le> 12"
  shows "\<exists>m'. fh_insert hf alloc k v m = Some m' \<and> m_capacity m' \<noteq> 0"
proof -
  have "m \<noteq> released" using assms(3) by (auto simp: released_def)
  then have "16 \<le> m_capacity m" using assms(1) fh_okD(5) [of hf m] by (auto simp: fh_inv_def)
  then have "\<not> 3 * m_capacity m < 4 * m_size m" using assms(4) by simp
  then obtain m' where "Insert hf alloc k v m = Some (m', None)" "fh_ok hf m'"
    using Insert_spec [OF assms(1,2), of k v] assms(3) by (auto simp: inserted_def split: prod.splits option.splits)
  then show ?thesis using fh_okD(5) [of hf m'] by (auto simp: fh_insert_def)
qed

lemma InsertAll_full:
  assumes "fh_ok hf m" "m_capacity m < m_size m + length (entries bs)" "distinct (map fst (entries bs))"
    "\<forall>k \<in> fst ` set (entries bs). fh_map m k = None" "\<forall>b. Some b \<in> set bs \<longrightarrow> hash b = hf (key b)"
  shows "snd (InsertAll bs m) = Some bad_alloc"
  using assms
proof (induction bs arbitrary: m rule: entries.induct)
  case 1
  then show ?case using fh_okD(6) [of hf m] by simp
next
  case (3 b bs)
  have h: "hash b = hf (key b)" using "3.prems"(5) by simp
  show ?case
  proof (cases "m_size m < m_capacity m")
    case True
    obtain m1 where m1: "InsertExisting (hash b) (key b) (val b) m = (m1, None)" "fh_ok hf m1"
      "fh_map m1 = (fh_map m)(key b \<mapsto> val b)" "m_size m1 = m_size m + 1" "m_capacity m1 = m_capacity m"
      using InsertExisting_spec [OF "3.prems"(1) _ True, of "key b" "val b"] "3.prems"(4) h by auto
    have "snd (InsertAll bs m1) = Some bad_alloc"
    proof (rule "3.IH")
      show "\<forall>k\<in>fst ` set (entries bs). fh_map m1 k = None" using m1(3) "3.prems"(3,4) by force
    qed (use "3.prems" m1 in auto)
    then show ?thesis using m1 by simp
  next
    case False
    have nk: "\<not> has_key (m_buckets m) (key b)" using "3.prems"(4) tab_None [of "m_buckets m" "key b"] by (simp add: fh_map_def)
    have "m_size m = m_capacity m" using False fh_okD(6) [OF "3.prems"(1)] by simp
    then have "\<forall>i < m_capacity m. m_buckets m ! i \<noteq> None"
      using entries_full [of "m_buckets m"] fh_okD(3,4) [OF "3.prems"(1)] by simp
    then have "FindInsertSlot m (key b) (hf (key b)) = None"
      using FindInsertSlot_spec [OF "3.prems"(1), of "key b"] nk fh_okD(4) [OF "3.prems"(1)]
      by (auto simp: has_key_def split: option.splits)
    then show ?thesis using h by (simp add: InsertExisting_def)
  qed
qed simp_all

text \<open>
  \<open>Rehash\<close> with fewer buckets than entries throws, after the old array was given up; the entries that
  did not fit are lost.
\<close>

lemma Rehash_too_small:
  assumes ok: "fh_ok hf m" and s: "rounded n < m_size m" and a: "alloc (rounded n)" "rounded n \<le> 2 ^ 62"
  shows "snd (Rehash alloc n m) = Some bad_alloc"
proof -
  let ?m = "\<lparr>m_buckets = replicate (rounded n) None, m_capacity = rounded n, m_mask = rounded n - 1, m_size = 0\<rparr> :: ('a, 'b) FlatHashMap"
  have f: "fh_ok hf ?m" "fh_map ?m = Map.empty" using fh_ok_fresh a(2) by blast+
  have rr: "rounded (rounded n) = rounded n" using rounded_pow [of n] rounded_id by auto
  have "snd (InsertAll (m_buckets m) ?m) = Some bad_alloc"
    by (rule InsertAll_full)
      (use f s fh_okD(3) [OF ok] distinct_entries [OF fh_okD(2) [OF ok]] table_hashes [OF fh_okD(2) [OF ok]] in auto)
  moreover have "rounded n \<noteq> m_capacity m" using s fh_okD(6) [OF ok] by simp
  ultimately show ?thesis using a(1) by (simp add: Rehash_def' Initialize_exact rr)
qed








section \<open>Properties\<close>

text \<open>
  C2: A map that was constructed and then changed by any sequence of insertions and removals that all
  succeed satisfies the invariant, answers every lookup as the abstract map after the same sequence does,
  has as many entries as that map has keys, and its iteration visits every entry of that map exactly once.
\<close>

theorem FlatHashMap_refines:
  assumes "alloc_bounded alloc" "Construct alloc n = (m0, None)"
    "run_ops (fh_insert hf alloc) (Remove hf) ops m0 = Some m"
  shows "fh_inv hf m \<and> (\<forall>k. GetPtr hf m k = foldl apply_op Map.empty ops k) \<and>
    m_size m = card (dom (foldl apply_op Map.empty ops)) \<and>
    distinct (map fst (Entries m)) \<and> map_of (Entries m) = foldl apply_op Map.empty ops"
proof -
  have m0: "fh_inv hf m0" "fh_map m0 = Map.empty" using Construct_ok [OF assms(1,2)] by auto
  then have g: "GetPtr hf m0 = Map.empty" using GetPtr_exact [OF m0(1)] by (simp add: fun_eq_iff)
  have r: "fh_inv hf m" "GetPtr hf m = foldl apply_op Map.empty ops" "m_size m = card (dom (foldl apply_op Map.empty ops))"
    using fh.run_law [OF _ assms(3)] fh.run_size [OF _ assms(3)] m0 assms(1) g by auto
  then show ?thesis using Entries_spec [OF r(1)] GetPtr_exact [OF r(1)] by (simp add: fun_eq_iff)
qed

definition small_alloc :: "nat \<Rightarrow> bool" where
  "small_alloc c \<longleftrightarrow> c \<le> 64"

definition parity_hash :: "nat \<Rightarrow> u64" where
  "parity_hash k = word_of_nat (k mod 2)"

lemma small_alloc_bounded: "alloc_bounded small_alloc"
  by (auto simp: alloc_bounded_def small_alloc_def)

lemma Construct_small: "\<exists>m0 :: ('k, 'v) FlatHashMap. Construct small_alloc 0 = (m0, None) \<and> fh_inv hf m0 \<and> fh_map m0 = Map.empty \<and> m_size m0 = 0 \<and> m_capacity m0 = 16"
proof -
  have r: "rounded 0 = 16" by (simp add: rounded_def NextPow2_def kInitialCapacity_def)
  then obtain m0 :: "('k, 'v) FlatHashMap" where "Construct small_alloc 0 = (m0, None)"
    by (simp add: Construct_def Initialize_exact small_alloc_def)
  then show ?thesis using Construct_ok [OF small_alloc_bounded] r by metis
qed

theorem FlatHashMap_refines_witness:
  "\<exists>m0 m. alloc_bounded small_alloc \<and> Construct small_alloc 0 = (m0, None) \<and>
     run_ops (fh_insert parity_hash small_alloc) (Remove parity_hash) [Put 1 ''a'', Put 3 ''b'', Del 1] m0 = Some m \<and>
     GetPtr parity_hash m 3 = Some ''b'' \<and> GetPtr parity_hash m 1 = None \<and> m_size m = 1"
proof -
  obtain m0 :: "(nat, string) FlatHashMap" where m0: "Construct small_alloc 0 = (m0, None)" "fh_inv parity_hash m0"
    "fh_map m0 = Map.empty" "m_size m0 = 0" "m_capacity m0 = 16" using Construct_small [of parity_hash] by blast
  note a = small_alloc_bounded
  obtain m1 where m1: "fh_insert parity_hash small_alloc 1 ''a'' m0 = Some m1" "m_capacity m1 \<noteq> 0"
    using fh_insert_room [OF m0(2) a, of 1 "''a''"] m0 by auto
  have s1: "fh_inv parity_hash m1" "m_size m1 = 1" using fh_insert_spec [OF m0(2) a m1(1)] fh_size [of parity_hash m1] m0(3) by simp_all
  obtain m2 where m2: "fh_insert parity_hash small_alloc 3 ''b'' m1 = Some m2"
    using fh_insert_room [OF s1(1) a m1(2), of 3 "''b''"] s1 by auto
  have "fh_inv parity_hash m2" using fh_insert_spec [OF s1(1) a m2] by simp
  then obtain m where m: "Remove parity_hash 1 m2 = Some m" using Remove_spec [of parity_hash m2 1] by auto
  have run: "run_ops (fh_insert parity_hash small_alloc) (Remove parity_hash) [Put 1 ''a'', Put 3 ''b'', Del 1] m0 = Some m"
    using m1 m2 m by simp
  have "dom (foldl apply_op Map.empty [Put 1 ''a'', Put 3 ''b'', Del (1::nat)]) = {3}" by (auto simp: dom_def)
  then have "GetPtr parity_hash m 3 = Some ''b''" "GetPtr parity_hash m 1 = None" "m_size m = 1"
    using FlatHashMap_refines [OF a m0(1) run] by simp_all
  then show ?thesis using m0(1) run a by blast
qed

text \<open>
  C24: An insertion ends. Either the key is bound to the value and every other key is as before, or the
  allocation of the larger table failed; the map is then empty, whatever it held before.
\<close>

theorem Insert_exact:
  assumes "fh_inv hf m" "alloc_bounded alloc"
  shows "\<exists>m' e. Insert hf alloc k v m = Some (m', e) \<and> fh_inv hf m' \<and>
    (if e = None then (\<forall>x. GetPtr hf m' x = ((GetPtr hf m)(k \<mapsto> v)) x)
     else e = Some bad_alloc \<and> \<not> alloc (max 16 (2 * m_capacity m)) \<and> m' = released)"
proof -
  obtain m' e where r: "Insert hf alloc k v m = Some (m', e)" "inserted hf alloc k v m (m', e)"
    using Insert_spec [OF assms] by force
  show ?thesis
  proof (cases e)
    case None
    then have "fh_inv hf m'" "fh_map m' = (fh_map m)(k \<mapsto> v)" using r(2) by (simp_all add: inserted_def fh_inv_def)
    then show ?thesis using r(1) None GetPtr_exact [OF assms(1)] GetPtr_exact [of hf m'] by simp
  next
    case (Some x)
    then show ?thesis using r by (simp add: inserted_def fh_inv_def)
  qed
qed

theorem Insert_exact_witness:
  "\<exists>m m' e. fh_inv parity_hash m \<and> alloc_bounded small_alloc \<and> Insert parity_hash small_alloc 7 ''x'' m = Some (m', e) \<and> fh_inv parity_hash m'"
proof -
  obtain m0 :: "(nat, string) FlatHashMap" where m0: "fh_inv parity_hash m0" using Construct_small [of parity_hash] by blast
  with Insert_exact [OF m0 small_alloc_bounded, of 7 "''x''"] small_alloc_bounded show ?thesis by blast
qed

text \<open>
  C11: A removal ends (the backward shift comes to a free bucket) and keeps the invariant; the key is gone,
  every other key is as before, and the size drops by one exactly when the key was there.
\<close>

theorem Remove_exact:
  assumes "fh_inv hf m"
  shows "\<exists>m'. Remove hf k m = Some m' \<and> fh_inv hf m' \<and> (\<forall>x. GetPtr hf m' x = ((GetPtr hf m)(k := None)) x) \<and>
    m_size m' = m_size m - (if Contains hf m k then 1 else 0)"
proof -
  obtain m' where m': "Remove hf k m = Some m'" "fh_inv hf m'" "fh_map m' = (fh_map m)(k := None)" using Remove_spec [OF assms] by blast
  have "m_size m' = card (dom (fh_map m) - {k})" using fh_size [OF m'(2)] m'(3) by simp
  also have "\<dots> = m_size m - (if k \<in> dom (fh_map m) then 1 else 0)" using fh_size [OF assms] by simp
  also have "k \<in> dom (fh_map m) \<longleftrightarrow> Contains hf m k" using GetPtr_exact [OF assms, of k] by (simp add: Contains_def domIff)
  finally show ?thesis using m' GetPtr_exact [OF assms] GetPtr_exact [OF m'(2)] by simp
qed

theorem Remove_exact_witness:
  "\<exists>m m' :: (nat, string) FlatHashMap. fh_inv parity_hash m \<and> Remove parity_hash 7 m = Some m' \<and> fh_inv parity_hash m'"
proof -
  obtain m0 :: "(nat, string) FlatHashMap" where m0: "fh_inv parity_hash m0" using Construct_small [of parity_hash] by blast
  with Remove_exact [OF m0, of 7] show ?thesis by blast
qed




end
