(* ===== verification/Math_BigInt.thy ===== *)
theory Math_BigInt
  imports Net_Charconv
begin

text \<open>
  The decimal big integers of \<open>Math/BigInt.hpp\<close>: sign and magnitude, limbs in base \<open>10 ^ 9\<close>, least
  significant first. A \<open>UInt32\<close> or \<open>UInt64\<close> is a \<^typ>\<open>nat\<close>, and every expression whose value the
  code keeps in such a variable is reduced with \<open>wrap32\<close> or \<open>wrap64\<close>; an \<open>Int64\<close> is an \<^typ>\<open>int\<close>.

  Multiplication and division return options: \<^term>\<open>None\<close> stands for an access outside a vector and
  for a loop that does not end. The properties show that it is never returned.
\<close>

section \<open>Representation\<close>

definition wrap32 :: "nat \<Rightarrow> nat" where
  "wrap32 n = n mod 2 ^ 32"

definition wrap64 :: "nat \<Rightarrow> nat" where
  "wrap64 n = n mod 2 ^ 64"

definition BASE :: nat where
  "BASE = 1000000000"

definition BASE_DIGITS :: nat where
  "BASE_DIGITS = 9"

record BigInt =
  m_digits :: "nat list"
  m_negative :: bool

datatype math_error = runtime_error string

definition IsZero :: "BigInt \<Rightarrow> bool" where
  "IsZero x \<longleftrightarrow> length (m_digits x) = 1 \<and> m_digits x ! 0 = 0"

definition Abs :: "BigInt \<Rightarrow> BigInt" where
  "Abs x = x\<lparr>m_negative := False\<rparr>"

text \<open>The loop \<open>while (v.size() > 1 && v.back() == 0) v.pop_back()\<close>.\<close>

function TrimDigits :: "nat list \<Rightarrow> nat list" where
  "TrimDigits v = (if 1 < length v \<and> last v = 0 then TrimDigits (butlast v) else v)"
  by pat_completeness auto
termination
  by (relation "measure length") auto

declare TrimDigits.simps [simp del]

definition Trim :: "BigInt \<Rightarrow> BigInt" where
  "Trim x = x\<lparr>m_digits := TrimDigits (m_digits x)\<rparr>"

section \<open>Construction\<close>

definition BigInt_zero :: BigInt where
  "BigInt_zero = \<lparr>m_digits = [0], m_negative = False\<rparr>"

function PushLimbs :: "nat list \<Rightarrow> nat \<Rightarrow> nat list" where
  "PushLimbs v n = (if 0 < n then PushLimbs (v @ [wrap32 (n mod BASE)]) (n div BASE) else v)"
  by pat_completeness auto
termination
  by (relation "measure snd") (simp_all add: BASE_def)

declare PushLimbs.simps [simp del]

definition BigInt_UInt32 :: "nat \<Rightarrow> BigInt" where
  "BigInt_UInt32 n = \<lparr>m_digits = if n = 0 then [0] else PushLimbs [] n, m_negative = False\<rparr>"

definition BigInt_int :: "int \<Rightarrow> BigInt" where
  "BigInt_int n =
     (let absval = nat ((if n < 0 then - n else n) mod 2 ^ 32)
      in \<lparr>m_digits = if absval = 0 then [0] else PushLimbs [] absval, m_negative = n < 0\<rparr>)"

definition BigInt_UInt64 :: "nat \<Rightarrow> BigInt" where
  "BigInt_UInt64 n = \<lparr>m_digits = if n = 0 then [0] else PushLimbs [] n, m_negative = False\<rparr>"

definition BigInt_Int64 :: "int \<Rightarrow> BigInt" where
  "BigInt_Int64 n =
     (let absval = if n < 0 then wrap64 (nat (- (n + 1)) + 1) else nat n
      in if absval = 0 then \<lparr>m_digits = [0], m_negative = False\<rparr>
         else \<lparr>m_digits = PushLimbs [] absval, m_negative = n < 0\<rparr>)"

text \<open>A \<open>char\<close> as an \<open>int\<close>, on the platforms where it is signed.\<close>

definition char_int :: "char \<Rightarrow> int" where
  "char_int c = (if ord c < 128 then int (ord c) else int (ord c) - 256)"

text \<open>\<open>block = block * 10 + (str[j] - '0')\<close> for \<open>j\<close> up to \<open>i\<close>, in \<open>UInt32\<close>.\<close>

function ParseBlock :: "string \<Rightarrow> nat \<Rightarrow> nat \<Rightarrow> nat \<Rightarrow> nat" where
  "ParseBlock str j i block =
     (if j < i then ParseBlock str (j + 1) i (nat ((int block * 10 + (char_int (str ! j) - 48)) mod 2 ^ 32))
      else block)"
  by pat_completeness auto
termination
  by (relation "measure (\<lambda>(str, j, i, block). i - j)") auto

declare ParseBlock.simps [simp del]

text \<open>
  The loop over the blocks, from the end of the string. The index of the code is signed and may end
  below zero; here it ends at zero, where \<open>std::max\<close> and the loop condition decide the same.
\<close>

function ParseBlocks :: "string \<Rightarrow> nat \<Rightarrow> nat \<Rightarrow> nat list \<Rightarrow> nat list" where
  "ParseBlocks str start i temp_digits =
     (if start < i
      then ParseBlocks str start (i - BASE_DIGITS) (temp_digits @ [ParseBlock str (max start (i - BASE_DIGITS)) i 0])
      else temp_digits)"
  by pat_completeness auto
termination
  by (relation "measure (\<lambda>(str, start, i, temp). i)") (auto simp: BASE_DIGITS_def)

declare ParseBlocks.simps [simp del]

text \<open>The constructor from \<open>const char*\<close>; \<^term>\<open>None\<close> is the null pointer.\<close>

definition BigInt_cstr :: "string option \<Rightarrow> BigInt" where
  "BigInt_cstr s =
     (case s of None \<Rightarrow> BigInt_zero
      | Some str \<Rightarrow>
          if str = [] then BigInt_zero
          else let negative = (hd str = CHR ''-'');
                   start = (if negative then 1 else 0);
                   x = Trim \<lparr>m_digits = ParseBlocks str start (length str) [], m_negative = negative\<rparr>
               in if IsZero x then x\<lparr>m_negative := False\<rparr> else x)"

text \<open>From \<open>std::string\<close>: \<open>c_str()\<close> ends at the first null character.\<close>

definition BigInt_string :: "string \<Rightarrow> BigInt" where
  "BigInt_string str = BigInt_cstr (Some (takeWhile (\<lambda>c. c \<noteq> chr 0) str))"

section \<open>Output\<close>

text \<open>\<open>os << std::setw(BASE_DIGITS) << std::setfill('0') << limb\<close> on a stream in its default format.\<close>

definition print_padded :: "nat \<Rightarrow> string" where
  "print_padded limb = replicate (BASE_DIGITS - length (to_chars 10 limb)) CHR ''0'' @ to_chars 10 limb"

definition print :: "BigInt \<Rightarrow> string" where
  "print x =
     (if m_negative x \<and> \<not> IsZero x then ''-'' else []) @
     (if m_digits x = [] then ''0''
      else to_chars 10 (last (m_digits x)) @ concat (map print_padded (tl (rev (m_digits x)))))"

section \<open>Comparison\<close>

text \<open>The loop of \<open>AbsLess\<close> over the indices below the third argument, from the top.\<close>

primrec AbsLess_loop :: "nat list \<Rightarrow> nat list \<Rightarrow> nat \<Rightarrow> bool" where
  "AbsLess_loop a b 0 = False"
| "AbsLess_loop a b (Suc i) = (if a ! i \<noteq> b ! i then a ! i < b ! i else AbsLess_loop a b i)"

definition AbsLess :: "BigInt \<Rightarrow> BigInt \<Rightarrow> bool" where
  "AbsLess a b =
     (if length (m_digits a) \<noteq> length (m_digits b) then length (m_digits a) < length (m_digits b)
      else AbsLess_loop (m_digits a) (m_digits b) (length (m_digits a)))"

definition equals :: "BigInt \<Rightarrow> BigInt \<Rightarrow> bool" where
  "equals a b \<longleftrightarrow> m_negative a = m_negative b \<and> m_digits a = m_digits b"

definition less_than :: "BigInt \<Rightarrow> BigInt \<Rightarrow> bool" where
  "less_than a b =
     (if m_negative a \<noteq> m_negative b then m_negative a
      else if m_negative a then AbsLess b a else AbsLess a b)"

definition not_equals :: "BigInt \<Rightarrow> BigInt \<Rightarrow> bool" where
  "not_equals a b \<longleftrightarrow> \<not> equals a b"

definition greater_than :: "BigInt \<Rightarrow> BigInt \<Rightarrow> bool" where
  "greater_than a b = less_than b a"

definition at_most :: "BigInt \<Rightarrow> BigInt \<Rightarrow> bool" where
  "at_most a b \<longleftrightarrow> \<not> greater_than a b"

definition at_least :: "BigInt \<Rightarrow> BigInt \<Rightarrow> bool" where
  "at_least a b \<longleftrightarrow> \<not> less_than a b"

section \<open>Addition and subtraction\<close>

function AddDigits_loop :: "nat list \<Rightarrow> nat list \<Rightarrow> nat \<Rightarrow> nat \<Rightarrow> nat list \<Rightarrow> nat list" where
  "AddDigits_loop a b i carry result =
     (if i < max (length a) (length b) \<or> carry \<noteq> 0
      then let d1 = (if i < length a then a ! i else 0);
               d2 = (if i < length b then b ! i else 0);
               sum = wrap64 (d1 + d2 + carry)
           in AddDigits_loop a b (i + 1) (sum div BASE) (result @ [wrap32 (sum mod BASE)])
      else result)"
  by pat_completeness auto
termination
proof (relation "measures [\<lambda>(a, b, i, c, r). max (length a) (length b) - i, \<lambda>(a, b, i, c, r). c]", goal_cases)
  case (2 a b i c r d1 d2 sum)
  show ?case
  proof (cases "i < max (length a) (length b)")
    case False
    with 2 have "c \<noteq> 0" "sum = wrap64 c" by auto
    then have "sum \<le> c" "0 < c" by (simp_all add: wrap64_def)
    then have "sum div BASE < c" by (simp add: BASE_def div_less_iff_less_mult)
    moreover have "max (length a) (length b) - (i + 1) = max (length a) (length b) - i" using False by simp
    ultimately show ?thesis by simp
  qed auto
qed simp

declare AddDigits_loop.simps [simp del]

definition AddDigits :: "nat list \<Rightarrow> nat list \<Rightarrow> nat list" where
  "AddDigits a b = AddDigits_loop a b 0 0 []"

function SubtractDigits_loop :: "nat list \<Rightarrow> nat list \<Rightarrow> nat \<Rightarrow> int \<Rightarrow> nat list \<Rightarrow> nat list" where
  "SubtractDigits_loop a b i borrow result =
     (if i < length a
      then let d1 = int (a ! i);
               d2 = int (if i < length b then b ! i else 0);
               sub = d1 - d2 - borrow
           in if sub < 0 then SubtractDigits_loop a b (i + 1) 1 (result @ [nat ((sub + int BASE) mod 2 ^ 32)])
              else SubtractDigits_loop a b (i + 1) 0 (result @ [nat (sub mod 2 ^ 32)])
      else result)"
  by pat_completeness auto
termination
  by (relation "measure (\<lambda>(a, b, i, c, r). length a - i)") auto

declare SubtractDigits_loop.simps [simp del]

definition SubtractDigits :: "nat list \<Rightarrow> nat list \<Rightarrow> nat list" where
  "SubtractDigits a b = TrimDigits (SubtractDigits_loop a b 0 0 [])"

definition negate :: "BigInt \<Rightarrow> BigInt" where
  "negate x = x\<lparr>m_negative := (if \<not> IsZero x then \<not> m_negative x else False)\<rparr>"

text \<open>The operators + and -, which call each other for operands of different signs.\<close>

function add :: "BigInt \<Rightarrow> BigInt \<Rightarrow> BigInt" and subtract :: "BigInt \<Rightarrow> BigInt \<Rightarrow> BigInt" where
  "add a b =
     (if m_negative a = m_negative b
      then Trim \<lparr>m_digits = AddDigits (m_digits a) (m_digits b), m_negative = m_negative a\<rparr>
      else if m_negative a then subtract b (negate a)
      else subtract a (negate b))"
| "subtract a b =
     (if m_negative a = m_negative b
      then if AbsLess a b
           then Trim \<lparr>m_digits = SubtractDigits (m_digits b) (m_digits a), m_negative = \<not> m_negative a\<rparr>
           else Trim \<lparr>m_digits = SubtractDigits (m_digits a) (m_digits b), m_negative = m_negative a\<rparr>
      else if m_negative a then negate (add (negate a) b)
      else add a (negate b))"
  by pat_completeness auto
termination
  by (relation "measure (\<lambda>x. case x of Inl (a, b) \<Rightarrow> if m_negative a = m_negative b then 0 else 1
                                   | Inr (a, b) \<Rightarrow> if m_negative a = m_negative b then 0 else 1)")
    (auto simp: negate_def)

declare add.simps [simp del] subtract.simps [simp del]

section \<open>Multiplication\<close>

text \<open>The inner loop of the schoolbook multiplication, for one limb of the first operand.\<close>

function MultiplyRow :: "nat \<Rightarrow> nat list \<Rightarrow> nat \<Rightarrow> nat \<Rightarrow> nat \<Rightarrow> nat list \<Rightarrow> nat list option" where
  "MultiplyRow ai b i j carry result =
     (if j < length b \<or> carry \<noteq> 0
      then if i + j < length result
           then let cur = wrap64 (result ! (i + j) + ai * (if j < length b then b ! j else 0) + carry)
                in MultiplyRow ai b i (j + 1) (cur div BASE) (result[i + j := wrap32 (cur mod BASE)])
           else None
      else Some result)"
  by pat_completeness auto
termination
  by (relation "measure (\<lambda>(ai, b, i, j, c, r). length r - (i + j))") auto

declare MultiplyRow.simps [simp del]

function MultiplyRows :: "nat list \<Rightarrow> nat list \<Rightarrow> nat \<Rightarrow> nat list \<Rightarrow> nat list option" where
  "MultiplyRows a b i result =
     (if i < length a then do { result \<leftarrow> MultiplyRow (a ! i) b i 0 0 result; MultiplyRows a b (i + 1) result }
      else Some result)"
  by pat_completeness auto
termination
  by (relation "measure (\<lambda>(a, b, i, r). length a - i)") auto

declare MultiplyRows.simps [simp del]

text \<open>The loop \<open>result[i + offset] += z[i]\<close>.\<close>

function AddAt :: "nat list \<Rightarrow> nat \<Rightarrow> nat \<Rightarrow> nat list \<Rightarrow> nat list option" where
  "AddAt z offset i result =
     (if i < length z
      then do {
        r \<leftarrow> span_at result (i + offset);
        result \<leftarrow> span_put result (i + offset) (wrap32 (r + z ! i));
        AddAt z offset (i + 1) result }
      else Some result)"
  by pat_completeness auto
termination
  by (relation "measure (\<lambda>(z, off, i, r). length z - i)") auto

declare AddAt.simps [simp del]

function PropagateCarries :: "nat \<Rightarrow> nat \<Rightarrow> nat list \<Rightarrow> nat list" where
  "PropagateCarries i carry result =
     (if i < length result
      then let cur = wrap64 (result ! i + carry)
           in PropagateCarries (i + 1) (cur div BASE) (result[i := wrap32 (cur mod BASE)])
      else result)"
  by pat_completeness auto
termination
  by (relation "measure (\<lambda>(i, c, r). length r - i)") auto

declare PropagateCarries.simps [simp del]

definition split_at :: "nat \<Rightarrow> nat list \<Rightarrow> nat list \<times> nat list" where
  "split_at half v = (let cut = min half (length v) in (take cut v, drop cut v))"

lemma split_at_length: "split_at half v = (lo, hi) \<Longrightarrow> length lo \<le> half \<and> length hi = length v - half"
  by (auto simp: split_at_def Let_def)

text \<open>
  The sums of the halves have at most two limbs more than the longer half, whatever the limbs are,
  because a carry is less than the square of the base.
\<close>

lemma AddDigits_loop_end: "max (length a) (length b) \<le> i \<Longrightarrow> AddDigits_loop a b i 0 r = r"
  by (subst AddDigits_loop.simps) (simp only: not_less [symmetric] if_False simp_thms)

lemma AddDigits_loop_tail:
  "max (length a) (length b) \<le> i \<Longrightarrow> carry < BASE ^ k \<Longrightarrow> length (AddDigits_loop a b i carry r) \<le> length r + k"
proof (induction k arbitrary: i carry r)
  case (Suc k)
  show ?case
  proof (cases "carry = 0")
    case False
    have "wrap64 carry \<le> carry" by (simp add: wrap64_def)
    with Suc.prems have "wrap64 carry div BASE < BASE ^ k" by (simp add: BASE_def div_less_iff_less_mult)
    moreover have "AddDigits_loop a b i carry r = AddDigits_loop a b (i + 1) (wrap64 carry div BASE) (r @ [wrap32 (wrap64 carry mod BASE)])"
      using False Suc.prems by (subst AddDigits_loop.simps) (simp add: Let_def)
    ultimately show ?thesis using Suc.IH [of "i + 1" "wrap64 carry div BASE" "r @ [wrap32 (wrap64 carry mod BASE)]"] Suc.prems by simp
  qed (use Suc.prems in \<open>simp add: AddDigits_loop_end\<close>)
qed (simp add: AddDigits_loop_end)

lemma AddDigits_loop_length:
  "max (length a) (length b) - i = m \<Longrightarrow> carry < BASE ^ 2 \<Longrightarrow> length (AddDigits_loop a b i carry r) \<le> length r + m + 2"
proof (induction m arbitrary: i carry r)
  case 0
  then show ?case using AddDigits_loop_tail [of a b i carry 2 r] by simp
next
  case (Suc m)
  define sum where "sum = wrap64 ((if i < length a then a ! i else 0) + (if i < length b then b ! i else 0) + carry)"
  have i: "i < max (length a) (length b)" using Suc.prems by linarith
  have "sum < 2 ^ 64" by (simp add: sum_def wrap64_def)
  then have "sum div BASE < BASE ^ 2" by (simp add: BASE_def div_less_iff_less_mult)
  moreover have "AddDigits_loop a b i carry r = AddDigits_loop a b (i + 1) (sum div BASE) (r @ [wrap32 (sum mod BASE)])"
    using i by (subst AddDigits_loop.simps) (simp only: Let_def sum_def simp_thms if_True)
  ultimately show ?case using Suc.IH [of "i + 1" "sum div BASE" "r @ [wrap32 (sum mod BASE)]"] Suc.prems by simp
qed

lemma AddDigits_length: "length (AddDigits a b) \<le> max (length a) (length b) + 2"
  using AddDigits_loop_length [of a b 0 _ 0 "[]"] by (simp add: AddDigits_def BASE_def)

function MultiplyDigits :: "nat list \<Rightarrow> nat list \<Rightarrow> nat list option" where
  "MultiplyDigits a b =
     (if (length a = 1 \<and> a ! 0 = 0) \<or> (length b = 1 \<and> b ! 0 = 0) then Some [0]
      else if length a < 32 \<or> length b < 32
      then map_option TrimDigits (MultiplyRows a b 0 (replicate (length a + length b) 0))
      else let half = max (length a) (length b) div 2;
               (a_low, a_high) = split_at half a;
               (b_low, b_high) = split_at half b
           in do {
             z0 \<leftarrow> MultiplyDigits a_low b_low;
             z2 \<leftarrow> MultiplyDigits a_high b_high;
             z1 \<leftarrow> MultiplyDigits (AddDigits a_low a_high) (AddDigits b_low b_high);
             let z1 = SubtractDigits (SubtractDigits z1 z0) z2;
             result \<leftarrow> AddAt z0 0 0 (replicate (length a + length b) 0);
             result \<leftarrow> AddAt z1 half 0 result;
             result \<leftarrow> AddAt z2 (2 * half) 0 result;
             Some (TrimDigits (PropagateCarries 0 0 result)) })"
  by pat_completeness auto
termination
proof (relation "measure (\<lambda>(a, b). max (length a) (length b))", goal_cases)
  case 1
  show ?case by simp
next
  case 2
  then show ?case by (auto simp: split_at_def Let_def)
next
  case 3
  then show ?case by (auto simp: split_at_def Let_def)
next
  case (4 a b half x a_low a_high y b_low b_high z0 z2)
  then have "\<not> length a < 32" and n: "half = max (length a) (length b) div 2" by blast+
  then have m: "32 \<le> max (length a) (length b)" by linarith
  have "length a_low \<le> half" "length a_high \<le> max (length a) (length b) - half"
    "length b_low \<le> half" "length b_high \<le> max (length a) (length b) - half"
    using split_at_length [of half a a_low a_high] split_at_length [of half b b_low b_high] 4 by simp_all
  with AddDigits_length [of a_low a_high] AddDigits_length [of b_low b_high]
  have "max (length (AddDigits a_low a_high)) (length (AddDigits b_low b_high)) \<le> max half (max (length a) (length b) - half) + 2"
    by linarith
  moreover have "max half (max (length a) (length b) - half) + 2 < max (length a) (length b)"
    unfolding n using m by linarith
  ultimately show ?case by simp
qed

declare MultiplyDigits.simps [simp del]

definition multiply :: "BigInt \<Rightarrow> BigInt \<Rightarrow> BigInt option" where
  "multiply a b = do {
     ds \<leftarrow> MultiplyDigits (m_digits a) (m_digits b);
     Some (Trim \<lparr>m_digits = ds, m_negative = (m_negative a \<noteq> m_negative b)\<rparr>) }"

section \<open>Division\<close>

text \<open>The loop of \<open>DivByUInt32\<close> over the indices below the first argument, from the top.\<close>

primrec DivByUInt32_loop :: "nat \<Rightarrow> nat list \<Rightarrow> nat \<Rightarrow> nat list \<Rightarrow> nat \<Rightarrow> (nat list \<times> nat) option" where
  "DivByUInt32_loop 0 ds divisor result rem = Some (result, rem)"
| "DivByUInt32_loop (Suc i) ds divisor result rem =
     (if divisor = 0 then None
      else do {
        d \<leftarrow> span_at ds i;
        let cur = wrap64 (d + wrap64 (rem * BASE));
        result \<leftarrow> span_put result i (wrap32 (cur div divisor));
        DivByUInt32_loop i ds divisor result (cur mod divisor) })"

definition DivByUInt32 :: "BigInt \<Rightarrow> nat \<Rightarrow> (BigInt \<times> nat) option" where
  "DivByUInt32 x divisor = do {
     (result, rem) \<leftarrow> DivByUInt32_loop (length (m_digits x)) (m_digits x) divisor (replicate (length (m_digits x)) 0) 0;
     Some ((Trim \<lparr>m_digits = result, m_negative = False\<rparr>)\<lparr>m_negative := m_negative x\<rparr>, wrap32 rem) }"

definition DivModBySingleLimb :: "BigInt \<Rightarrow> nat \<Rightarrow> (BigInt \<times> BigInt) option" where
  "DivModBySingleLimb a b = do {
     (q, _) \<leftarrow> DivByUInt32 (Abs a) b;
     (_, rem) \<leftarrow> DivByUInt32 (Abs a) b;
     Some (q, BigInt_UInt32 rem) }"

partial_function (option) NaiveDivMod_loop :: "BigInt \<Rightarrow> BigInt \<Rightarrow> BigInt \<Rightarrow> (BigInt \<times> BigInt) option" where
  "NaiveDivMod_loop divisor q r =
     (if \<not> AbsLess r divisor then NaiveDivMod_loop divisor (add q (BigInt_int 1)) (subtract r divisor)
      else Some (q, r))"

definition NaiveDivMod :: "BigInt \<Rightarrow> BigInt \<Rightarrow> (BigInt \<times> BigInt) option" where
  "NaiveDivMod a b = NaiveDivMod_loop (Abs b) (BigInt_int 0) (Abs a)"

text \<open>The binary search for one limb of the quotient, in \<open>UInt32\<close>.\<close>

partial_function (option) SearchDigit :: "BigInt \<Rightarrow> BigInt \<Rightarrow> nat \<Rightarrow> nat \<Rightarrow> nat \<Rightarrow> nat option" where
  "SearchDigit divisor rem low high qd =
     (if low \<le> high
      then do {
        let mid = wrap32 (low + drop_bit 1 (high - low));
        prod \<leftarrow> multiply divisor (BigInt_UInt32 mid);
        if at_most prod rem then SearchDigit divisor rem (wrap32 (mid + 1)) high mid
        else SearchDigit divisor rem low (wrap32 (mid + (2 ^ 32 - 1))) qd }
      else Some qd)"

declare NaiveDivMod_loop.simps [code] SearchDigit.simps [code]

primrec KnuthDivMod_loop :: "nat \<Rightarrow> BigInt \<Rightarrow> BigInt \<Rightarrow> nat list \<Rightarrow> BigInt \<Rightarrow> (nat list \<times> BigInt) option" where
  "KnuthDivMod_loop 0 dividend divisor q rem = Some (q, rem)"
| "KnuthDivMod_loop (Suc i) dividend divisor q rem = do {
     d \<leftarrow> span_at (m_digits dividend) i;
     let rem = Trim (rem\<lparr>m_digits := d # m_digits rem\<rparr>);
     qd \<leftarrow> SearchDigit divisor rem 0 (BASE - 1) 0;
     q \<leftarrow> span_put q i qd;
     if qd \<noteq> 0
     then do { prod \<leftarrow> multiply divisor (BigInt_UInt32 qd); KnuthDivMod_loop i dividend divisor q (subtract rem prod) }
     else KnuthDivMod_loop i dividend divisor q rem }"

text \<open>\<open>KnuthDivMod\<close> assigns the limbs of its out parameter \<open>q\<close> and leaves the sign as it was.\<close>

definition KnuthDivMod :: "BigInt \<Rightarrow> BigInt \<Rightarrow> BigInt \<Rightarrow> (BigInt \<times> BigInt) option" where
  "KnuthDivMod a b q = do {
     let n = length (m_digits a);
     (ds, rem) \<leftarrow> KnuthDivMod_loop n (Abs a) (Abs b) (replicate n 0) (BigInt_int 0);
     Some (Trim (q\<lparr>m_digits := ds\<rparr>), rem) }"

text \<open>The lambda \<open>split_blocks\<close>; it would not end for blocks of size zero.\<close>

partial_function (option) split_blocks :: "BigInt \<Rightarrow> nat \<Rightarrow> nat \<Rightarrow> BigInt list \<Rightarrow> BigInt list option" where
  "split_blocks x blocksize i blocks =
     (if i < length (m_digits x)
      then split_blocks x blocksize (i + blocksize)
             (blocks @ [Trim \<lparr>m_digits = substr (m_digits x) i (min (i + blocksize) (length (m_digits x)) - i), m_negative = False\<rparr>])
      else Some blocks)"

declare split_blocks.simps [code]

definition shift_left_limbs :: "BigInt \<Rightarrow> nat \<Rightarrow> BigInt" where
  "shift_left_limbs x limbs = (if IsZero x then x else x\<lparr>m_digits := replicate limbs 0 @ m_digits x\<rparr>)"

primrec FastDivMod_loop :: "nat \<Rightarrow> nat \<Rightarrow> BigInt \<Rightarrow> BigInt \<Rightarrow> BigInt \<Rightarrow> (BigInt \<times> BigInt) option" where
  "FastDivMod_loop 0 k b_hat q rem = Some (q, rem)"
| "FastDivMod_loop (Suc i) k b_hat q rem = do {
     (qhat, rhat) \<leftarrow> KnuthDivMod rem b_hat BigInt_zero;
     let q = add (shift_left_limbs q k) qhat;
     let b_hat = Trim (if k < length (m_digits b_hat) then b_hat\<lparr>m_digits := drop k (m_digits b_hat)\<rparr> else BigInt_int 0);
     FastDivMod_loop i k b_hat q rhat }"

definition FastDivMod :: "BigInt \<Rightarrow> BigInt \<Rightarrow> BigInt \<Rightarrow> (math_error + BigInt \<times> BigInt) option" where
  "FastDivMod a b q =
     (let n = length (m_digits a); m = length (m_digits b) in
      if m = 0 \<or> IsZero b then Some (Inl (runtime_error ''Division by zero''))
      else if n < m \<or> IsZero a then Some (Inr (BigInt_int 0, a))
      else if n < 512 \<or> m < 32 then map_option Inr (KnuthDivMod a b q)
      else let k = (m + 1) div 2 in do {
        a_blocks \<leftarrow> split_blocks (Abs a) k 0 [];
        b_blocks \<leftarrow> split_blocks (Abs b) k 0 [];
        let t = length a_blocks - length b_blocks;
        (q, rem) \<leftarrow> FastDivMod_loop (t + 1) k (shift_left_limbs (Abs b) (t * k)) (BigInt_int 0) (Abs a);
        Some (Inr (Trim q, rem)) })"

definition DivMod :: "BigInt \<Rightarrow> BigInt \<Rightarrow> BigInt \<Rightarrow> (math_error + BigInt \<times> BigInt) option" where
  "DivMod a b q0 =
     (let n = length (m_digits a); m = length (m_digits b) in
      if IsZero b then Some (Inl (runtime_error ''Division by zero''))
      else if IsZero a then Some (Inr (BigInt_int 0, BigInt_int 0))
      else if AbsLess (Abs a) (Abs b) then Some (Inr (BigInt_int 0, a))
      else do {
        res \<leftarrow> (if m = 1 then map_option Inr (DivModBySingleLimb a (m_digits b ! 0))
                else if n \<le> 4 \<and> m \<le> 4 then map_option Inr (NaiveDivMod a b)
                else if n < 256 \<and> m < 256 then map_option Inr (KnuthDivMod a b q0)
                else FastDivMod a b q0);
        Some (map_sum id (\<lambda>(q, r). (q\<lparr>m_negative := (m_negative a \<noteq> m_negative b \<and> \<not> IsZero q)\<rparr>, r)) res) })"

definition divide :: "BigInt \<Rightarrow> BigInt \<Rightarrow> (math_error + BigInt) option" where
  "divide a b =
     (if IsZero b then Some (Inl (runtime_error ''Division by zero''))
      else do { res \<leftarrow> DivMod a b BigInt_zero; Some (map_sum id fst res) })"

definition modulo :: "BigInt \<Rightarrow> BigInt \<Rightarrow> (math_error + BigInt) option" where
  "modulo a b =
     (if IsZero b then Some (Inl (runtime_error ''Modulo by zero''))
      else do {
        res \<leftarrow> DivMod a b BigInt_zero;
        Some (map_sum id (\<lambda>(q, r). if m_negative a \<and> \<not> IsZero r then negate r else r) res) })"

end
