(* ===== verification/Math_BigInt_Props.thy ===== *)
theory Math_BigInt_Props
  imports Math_BigInt "HOL-Library.Signed_Division"
begin

text \<open>
  Correctness of the big integers. The value of a list of limbs (\<open>limbs_val\<close>) and of a number
  (\<open>bi_val\<close>) relate every routine to the operation on \<^typ>\<open>nat\<close> or \<^typ>\<open>int\<close> it implements: sums and
  differences of limbs, both multiplication algorithms, the comparison, the four division algorithms
  behind the contract \<open>magnitude_divmod\<close>, and the text conversions. The invariants carry the bounds
  that rule out wrap-around and accesses outside the vectors.
\<close>

section \<open>Limbs and their value\<close>

primrec limbs_val :: "nat list \<Rightarrow> nat" where
  "limbs_val [] = 0"
| "limbs_val (d # ds) = d + BASE * limbs_val ds"

definition limbs_ok :: "nat list \<Rightarrow> bool" where
  "limbs_ok v \<longleftrightarrow> (\<forall>d\<in>set v. d < BASE)"

definition trimmed :: "nat list \<Rightarrow> bool" where
  "trimmed v \<longleftrightarrow> length v \<le> 1 \<or> last v \<noteq> 0"

lemma BASE_pos [simp]: "0 < BASE" "BASE \<noteq> 0" "Suc 0 < BASE" "1 < BASE"
  by (simp_all add: BASE_def)

lemma BASE_power_pos [simp]: "0 < BASE ^ n"
  by simp

lemma BASE_less_iff: "BASE ^ m < BASE ^ n \<longleftrightarrow> m < n"
  by (rule power_strict_increasing_iff) simp

lemma BASE_le_iff: "BASE ^ m \<le> BASE ^ n \<longleftrightarrow> m \<le> n"
  by (rule power_increasing_iff) simp

lemma wrap32_limb [simp]: "d < 4 * BASE \<Longrightarrow> wrap32 d = d"
  by (simp add: wrap32_def BASE_def)

lemma wrap64_small: "n < 2 ^ 64 \<Longrightarrow> wrap64 n = n"
  by (simp add: wrap64_def)

lemma wrap64_square [simp]: "n < 18 * BASE * BASE \<Longrightarrow> wrap64 n = n"
  by (simp add: wrap64_def BASE_def)

lemma mod_BASE_limb [simp]: "wrap32 (n mod BASE) = n mod BASE"
  by (rule wrap32_limb) (rule less_le_trans [OF mod_less_divisor], simp_all)

lemma limbs_ok_simps [simp]:
  "limbs_ok []" "limbs_ok (d # ds) \<longleftrightarrow> d < BASE \<and> limbs_ok ds" "limbs_ok (xs @ ys) \<longleftrightarrow> limbs_ok xs \<and> limbs_ok ys"
  "limbs_ok (replicate n 0)"
  by (auto simp: limbs_ok_def)

lemma limbs_ok_sub: "limbs_ok v \<Longrightarrow> limbs_ok (take n v)" "limbs_ok v \<Longrightarrow> limbs_ok (drop n v)" "limbs_ok v \<Longrightarrow> limbs_ok (butlast v)"
  by (auto simp: limbs_ok_def dest: in_set_takeD in_set_dropD in_set_butlastD)

lemma limbs_ok_nth: "limbs_ok v \<Longrightarrow> i < length v \<Longrightarrow> v ! i < BASE"
  by (simp add: limbs_ok_def)

lemma limbs_ok_update: "limbs_ok v \<Longrightarrow> d < BASE \<Longrightarrow> limbs_ok (v[i := d])"
  using set_update_subset_insert [of v i d] by (auto simp: limbs_ok_def)

lemma limbs_val_append [simp]: "limbs_val (xs @ ys) = limbs_val xs + BASE ^ length xs * limbs_val ys"
  by (induction xs) (simp_all add: algebra_simps)

lemma limbs_val_replicate [simp]: "limbs_val (replicate n 0) = 0"
  by (induction n) simp_all

lemma limbs_val_less: "limbs_ok v \<Longrightarrow> limbs_val v < BASE ^ length v"
proof (induction v)
  case (Cons d v)
  then have "d + BASE * limbs_val v < BASE + BASE * limbs_val v" by simp
  also have "\<dots> = BASE * (limbs_val v + 1)" by simp
  also have "\<dots> \<le> BASE * BASE ^ length v" using Cons by (intro mult_left_mono) simp_all
  finally show ?case by simp
qed simp

lemma limbs_val_drop: "limbs_val (drop i v) = (if i < length v then v ! i else 0) + BASE * limbs_val (drop (i + 1) v)"
  by (cases "i < length v") (simp_all add: Cons_nth_drop_Suc [symmetric])

lemma limbs_val_take_drop: "limbs_val v = limbs_val (take i v) + BASE ^ min (length v) i * limbs_val (drop i v)"
  using limbs_val_append [of "take i v" "drop i v"] by (simp add: min_def)

lemma limbs_val_update:
  assumes "i < length v"
  shows "limbs_val (v[i := d]) + BASE ^ i * v ! i = limbs_val v + BASE ^ i * d"
proof -
  have "v[i := d] = take i v @ d # drop (Suc i) v" using assms by (simp add: upd_conv_take_nth_drop)
  moreover have "v = take i v @ v ! i # drop (Suc i) v" using assms by (simp add: id_take_nth_drop)
  ultimately show ?thesis
    using assms limbs_val_append [of "take i v" "d # drop (Suc i) v"] limbs_val_append [of "take i v" "v ! i # drop (Suc i) v"]
    by (simp add: algebra_simps)
qed

lemma limbs_val_ge: "v \<noteq> [] \<Longrightarrow> last v \<noteq> 0 \<Longrightarrow> BASE ^ (length v - 1) \<le> limbs_val v"
proof (induction v rule: rev_induct)
  case (snoc d v)
  then have "BASE ^ length v * 1 \<le> BASE ^ length v * d" by (intro mult_left_mono) simp_all
  then have "BASE ^ length v \<le> limbs_val v + BASE ^ length v * d" by linarith
  then show ?case by simp
qed simp

lemma limbs_val_0: "limbs_val v = 0 \<longleftrightarrow> (\<forall>d\<in>set v. d = 0)"
  by (induction v) auto

lemma length_le_val:
  assumes "trimmed v" "limbs_val v < BASE ^ n" "0 < n"
  shows "length v \<le> n"
proof (cases "length v \<le> 1")
  case False
  with assms(1) have "BASE ^ (length v - 1) \<le> limbs_val v" by (intro limbs_val_ge) (auto simp: trimmed_def)
  with assms(2) have "BASE ^ (length v - 1) < BASE ^ n" by (rule le_less_trans [rotated])
  then show ?thesis by (simp add: BASE_less_iff)
qed (use assms in simp)

lemma limbs_val_mod:
  assumes "d < BASE"
  shows "(d + BASE * x) mod BASE = d" "(d + BASE * x) div BASE = x"
  using assms by simp_all

lemma limbs_unique:
  "limbs_ok v \<Longrightarrow> limbs_ok w \<Longrightarrow> length v = length w \<Longrightarrow> limbs_val v = limbs_val w \<Longrightarrow> v = w"
proof (induction v arbitrary: w)
  case (Cons d v)
  then obtain e w' where w: "w = e # w'" by (cases w) auto
  with Cons.prems have "d < BASE" "e < BASE" and eq: "d + BASE * limbs_val v = e + BASE * limbs_val w'" by simp_all
  then have "d = e" "limbs_val v = limbs_val w'" by (metis limbs_val_mod(1), metis limbs_val_mod(2))
  with Cons w show ?case by simp
qed simp

lemma trimmed_length:
  assumes "limbs_ok v" "limbs_ok w" "trimmed v" "trimmed w" "v \<noteq> []" "w \<noteq> []" "limbs_val v \<le> limbs_val w"
  shows "length v \<le> length w"
proof -
  have "limbs_val v < BASE ^ length w" using assms limbs_val_less [of w] by simp
  with assms show ?thesis by (intro length_le_val) simp_all
qed

lemma trimmed_unique:
  assumes "limbs_ok v" "limbs_ok w" "trimmed v" "trimmed w" "v \<noteq> []" "w \<noteq> []" "limbs_val v = limbs_val w"
  shows "v = w"
  using assms trimmed_length [of v w] trimmed_length [of w v] by (intro limbs_unique) simp_all

lemma TrimDigits_all:
  "limbs_val (TrimDigits v) = limbs_val v \<and> trimmed (TrimDigits v) \<and> length (TrimDigits v) \<le> length v \<and>
   (limbs_ok v \<longrightarrow> limbs_ok (TrimDigits v)) \<and> (TrimDigits v = [] \<longleftrightarrow> v = [])"
proof (induction v rule: TrimDigits.induct)
  case (1 v)
  show ?case
  proof (cases "1 < length v \<and> last v = 0")
    case True
    then have eq: "TrimDigits v = TrimDigits (butlast v)" by (subst TrimDigits.simps) simp
    have "limbs_val v = limbs_val (butlast v)" "butlast v \<noteq> []"
      using True by (cases v rule: rev_cases; auto)+
    with "1.IH" [OF True] True limbs_ok_sub(3) [of v] show ?thesis unfolding eq by auto
  next
    case False
    then have "TrimDigits v = v" by (subst TrimDigits.simps) (simp only: if_False)
    with False show ?thesis by (auto simp: trimmed_def)
  qed
qed

lemma TrimDigits_props [simp]:
  "limbs_val (TrimDigits v) = limbs_val v" "trimmed (TrimDigits v)" "TrimDigits v = [] \<longleftrightarrow> v = []"
  "limbs_ok v \<Longrightarrow> limbs_ok (TrimDigits v)"
  using TrimDigits_all [of v] by blast+

lemma TrimDigits_length: "length (TrimDigits v) \<le> length v"
  using TrimDigits_all [of v] by blast

lemma TrimDigits_id: "trimmed v \<Longrightarrow> TrimDigits v = v"
  by (subst TrimDigits.simps) (auto simp: trimmed_def)

section \<open>Sums and differences of limbs\<close>

lemma AddDigits_loop_val:
  "limbs_ok a \<Longrightarrow> limbs_ok b \<Longrightarrow> limbs_ok r \<Longrightarrow> length r = i \<Longrightarrow> carry \<le> 1 \<Longrightarrow>
   limbs_ok (AddDigits_loop a b i carry r) \<and>
   limbs_val (AddDigits_loop a b i carry r) = limbs_val r + BASE ^ i * (limbs_val (drop i a) + limbs_val (drop i b) + carry)"
proof (induction a b i carry r rule: AddDigits_loop.induct)
  case (1 a b i carry r)
  define d1 where "d1 = (if i < length a then a ! i else 0)"
  define d2 where "d2 = (if i < length b then b ! i else 0)"
  define sum where "sum = d1 + d2 + carry"
  have d: "d1 < BASE" "d2 < BASE" using "1.prems" by (auto simp: d1_def d2_def limbs_ok_nth)
  then have w: "wrap64 sum = sum" using "1.prems" by (intro wrap64_square) (simp add: sum_def BASE_def)
  have "sum div BASE < 2" using d "1.prems" by (simp add: sum_def BASE_def div_less_iff_less_mult)
  then have c: "sum div BASE \<le> 1" by simp
  show ?case
  proof (cases "i < max (length a) (length b) \<or> carry \<noteq> 0")
    case True
    have eq: "AddDigits_loop a b i carry r = AddDigits_loop a b (i + 1) (sum div BASE) (r @ [sum mod BASE])"
      using True by (subst AddDigits_loop.simps) (simp only: if_True Let_def w mod_BASE_limb flip: d1_def d2_def sum_def)
    have IH: "limbs_ok (AddDigits_loop a b i carry r) \<and> limbs_val (AddDigits_loop a b i carry r) =
       limbs_val (r @ [sum mod BASE]) + BASE ^ (i + 1) * (limbs_val (drop (i + 1) a) + limbs_val (drop (i + 1) b) + sum div BASE)"
      using "1.IH" [OF True d1_def d2_def, of sum] "1.prems" c w unfolding eq by (simp add: sum_def)
    have "limbs_val (drop i a) + limbs_val (drop i b) + carry = sum + BASE * (limbs_val (drop (i + 1) a) + limbs_val (drop (i + 1) b))"
      unfolding limbs_val_drop [of i a] limbs_val_drop [of i b] by (simp add: sum_def d1_def d2_def algebra_simps)
    also have "\<dots> = sum mod BASE + BASE * (limbs_val (drop (i + 1) a) + limbs_val (drop (i + 1) b) + sum div BASE)"
      by (simp add: algebra_simps)
    finally have e: "limbs_val (drop i a) + limbs_val (drop i b) + carry =
      sum mod BASE + BASE * (limbs_val (drop (i + 1) a) + limbs_val (drop (i + 1) b) + sum div BASE)" .
    have "limbs_val (r @ [sum mod BASE]) + BASE ^ (i + 1) * (limbs_val (drop (i + 1) a) + limbs_val (drop (i + 1) b) + sum div BASE) =
        limbs_val r + BASE ^ i * (sum mod BASE + BASE * (limbs_val (drop (i + 1) a) + limbs_val (drop (i + 1) b) + sum div BASE))"
      using "1.prems" by (simp only: limbs_val_append limbs_val.simps distrib_left power_add power_one_right mult.assoc mult_0_right add_0_right add.assoc)
    with IH show ?thesis unfolding e by simp
  next
    case False
    then have "AddDigits_loop a b i carry r = r" by (subst AddDigits_loop.simps) (simp only: if_False)
    with False "1.prems" show ?thesis by (simp add: not_less)
  qed
qed

lemma AddDigits_props [simp]:
  assumes "limbs_ok a" "limbs_ok b"
  shows "limbs_ok (AddDigits a b)" "limbs_val (AddDigits a b) = limbs_val a + limbs_val b"
  using AddDigits_loop_val [of a b "[]" 0 0] assms by (simp_all add: AddDigits_def)

lemma AddDigits_loop_ge: "length r + (max (length a) (length b) - i) \<le> length (AddDigits_loop a b i carry r)"
proof (induction a b i carry r rule: AddDigits_loop.induct)
  case (1 a b i carry r)
  show ?case
  proof (cases "i < max (length a) (length b) \<or> carry \<noteq> 0")
    case True
    then show ?thesis using "1.IH" [OF True refl refl refl] by (subst AddDigits_loop.simps) (auto simp: Let_def)
  next
    case False
    then have "AddDigits_loop a b i carry r = r" by (subst AddDigits_loop.simps) (simp only: if_False)
    with False show ?thesis by (simp add: not_less)
  qed
qed

lemma AddDigits_Nil [simp]: "AddDigits a b = [] \<longleftrightarrow> a = [] \<and> b = []"
  using AddDigits_loop_ge [of "[]" a b 0 0] by (auto simp: AddDigits_def AddDigits_loop_end)

lemma SubtractDigits_loop_val:
  assumes "limbs_ok a" "limbs_ok b"
  shows "limbs_ok r \<Longrightarrow> length r = i \<Longrightarrow> i \<le> length a \<Longrightarrow> borrow = 0 \<or> borrow = 1 \<Longrightarrow>
   limbs_ok (SubtractDigits_loop a b i borrow r) \<and> length (SubtractDigits_loop a b i borrow r) = length a \<and>
   int BASE ^ length a dvd int (limbs_val (SubtractDigits_loop a b i borrow r)) -
     (int (limbs_val r) + int BASE ^ i * (int (limbs_val (drop i a)) - int (limbs_val (drop i b)) - borrow))"
proof (induction "length a - i" arbitrary: i borrow r)
  case 0
  then have "SubtractDigits_loop a b i borrow r = r" by (subst SubtractDigits_loop.simps) simp
  with 0 show ?case by simp
next
  case (Suc n)
  define d1 where "d1 = int (a ! i)"
  define d2 where "d2 = int (if i < length b then b ! i else 0)"
  define sub where "sub = d1 - d2 - borrow"
  define x where "x = (if sub < 0 then sub + int BASE else sub)"
  define bw where "bw = (if sub < 0 then 1 else 0 :: int)"
  have i: "i < length a" using Suc.hyps by simp
  have d: "0 \<le> d1" "d1 < int BASE" "0 \<le> d2" "d2 < int BASE"
    using i assms by (auto simp: d1_def d2_def limbs_ok_nth)
  have x: "0 \<le> x" "x < int BASE" using d Suc.prems by (auto simp: x_def sub_def)
  have wx: "x mod 2 ^ 32 = x" using x by (simp add: BASE_def)
  have eq: "SubtractDigits_loop a b i borrow r = SubtractDigits_loop a b (i + 1) bw (r @ [nat x])"
    using i wx by (subst SubtractDigits_loop.simps) (auto simp: Let_def x_def bw_def sub_def d1_def d2_def)
  have step: "sub = x - int BASE * bw" by (simp add: x_def bw_def)
  have IH: "limbs_ok (SubtractDigits_loop a b i borrow r) \<and> length (SubtractDigits_loop a b i borrow r) = length a \<and>
    int BASE ^ length a dvd int (limbs_val (SubtractDigits_loop a b i borrow r)) -
      (int (limbs_val (r @ [nat x])) + int BASE ^ (i + 1) * (int (limbs_val (drop (i + 1) a)) - int (limbs_val (drop (i + 1) b)) - bw))"
    unfolding eq by (rule Suc.hyps(1)) (use Suc.hyps(2) Suc.prems x i in \<open>auto simp: bw_def nat_less_iff\<close>)
  have "int (limbs_val (drop i a)) - int (limbs_val (drop i b)) - borrow =
      sub + int BASE * (int (limbs_val (drop (i + 1) a)) - int (limbs_val (drop (i + 1) b)))"
    unfolding limbs_val_drop [of i a] limbs_val_drop [of i b] using i by (simp add: sub_def d1_def d2_def algebra_simps)
  also have "\<dots> = x + int BASE * (int (limbs_val (drop (i + 1) a)) - int (limbs_val (drop (i + 1) b)) - bw)"
    by (simp add: step algebra_simps)
  finally have e: "int (limbs_val (drop i a)) - int (limbs_val (drop i b)) - borrow =
      x + int BASE * (int (limbs_val (drop (i + 1) a)) - int (limbs_val (drop (i + 1) b)) - bw)" .
  have "int (limbs_val r) + int BASE ^ i * (int (limbs_val (drop i a)) - int (limbs_val (drop i b)) - borrow) =
      int (limbs_val (r @ [nat x])) + int BASE ^ (i + 1) * (int (limbs_val (drop (i + 1) a)) - int (limbs_val (drop (i + 1) b)) - bw)"
    unfolding e using x Suc.prems by (simp add: algebra_simps)
  with IH show ?case by (simp only:)
qed

lemma dvd_small: "(m::int) dvd x - y \<Longrightarrow> 0 \<le> x \<Longrightarrow> x < m \<Longrightarrow> 0 \<le> y \<Longrightarrow> y < m \<Longrightarrow> x = y"
  by (metis mod_eq_dvd_iff mod_pos_pos_trivial)

lemma SubtractDigits_props [simp]:
  assumes "limbs_ok a" "limbs_ok b" "limbs_val b \<le> limbs_val a"
  shows "limbs_ok (SubtractDigits a b)" "limbs_val (SubtractDigits a b) = limbs_val a - limbs_val b"
    "trimmed (SubtractDigits a b)" "SubtractDigits a b = [] \<longleftrightarrow> a = []"
proof -
  define r where "r = SubtractDigits_loop a b 0 0 []"
  have r: "limbs_ok r" "length r = length a" "int BASE ^ length a dvd int (limbs_val r) - (int (limbs_val a) - int (limbs_val b))"
    using SubtractDigits_loop_val [OF assms(1, 2), of "[]" 0 0] by (simp_all add: r_def)
  have "int (limbs_val r) < int BASE ^ length a" "int (limbs_val a) - int (limbs_val b) < int BASE ^ length a"
    using limbs_val_less [OF r(1)] limbs_val_less [OF assms(1)] r(2) by (simp_all flip: of_nat_power)
  with dvd_small [OF r(3)] assms(3) have v: "int (limbs_val r) = int (limbs_val a) - int (limbs_val b)" by simp
  show "limbs_ok (SubtractDigits a b)" "trimmed (SubtractDigits a b)" "SubtractDigits a b = [] \<longleftrightarrow> a = []"
    using r by (auto simp: SubtractDigits_def simp flip: r_def)
  show "limbs_val (SubtractDigits a b) = limbs_val a - limbs_val b"
    using v assms(3) by (simp add: SubtractDigits_def flip: r_def)
qed

section \<open>Products of limbs\<close>

text \<open>
  One row of the schoolbook product. The bound on the whole value leaves room for the carry, so the
  loop ends inside the vector.
\<close>

lemma MultiplyRow_val:
  assumes "ai < BASE" "limbs_ok b"
  shows "limbs_ok r \<Longrightarrow> carry < BASE \<Longrightarrow> i + length b \<le> length r \<Longrightarrow>
     limbs_val r + BASE ^ (i + j) * (ai * limbs_val (drop j b) + carry) < BASE ^ length r \<Longrightarrow>
     \<exists>r'. MultiplyRow ai b i j carry r = Some r' \<and> limbs_ok r' \<and> length r' = length r \<and>
       limbs_val r' = limbs_val r + BASE ^ (i + j) * (ai * limbs_val (drop j b) + carry)"
proof (induction "length r - (i + j)" arbitrary: j carry r rule: less_induct)
  case less
  define bj where "bj = (if j < length b then b ! j else 0)"
  define cur where "cur = r ! (i + j) + ai * bj + carry"
  show ?case
  proof (cases "j < length b \<or> carry \<noteq> 0")
    case True
    have in_range: "i + j < length r"
    proof (cases "j < length b")
      case False
      with True have "BASE ^ (i + j) * 1 \<le> BASE ^ (i + j) * carry" by (intro mult_left_mono) simp_all
      also have "\<dots> < BASE ^ length r" using False less.prems(4) by simp
      finally show ?thesis by (simp add: BASE_less_iff)
    qed (use less.prems in simp)
    then have rij: "r ! (i + j) < BASE" using less.prems by (simp add: limbs_ok_nth)
    have bj: "bj < BASE" using assms(2) by (simp add: bj_def limbs_ok_nth)
    have "ai * bj \<le> (BASE - 1) * (BASE - 1)" using assms(1) bj by (intro mult_mono) simp_all
    then have cur: "cur < BASE * BASE" using rij less.prems(2) by (simp add: cur_def BASE_def)
    then have w: "wrap64 cur = cur" "cur div BASE < BASE" by (simp_all add: div_less_iff_less_mult)
    define s where "s = r[i + j := cur mod BASE]"
    have eq: "MultiplyRow ai b i j carry r = MultiplyRow ai b i (j + 1) (cur div BASE) s"
      using True in_range by (subst MultiplyRow.simps) (simp only: if_True Let_def w mod_BASE_limb flip: bj_def cur_def s_def)
    have s: "limbs_ok s" "length s = length r" using less.prems by (simp_all add: s_def limbs_ok_update)
    have upd: "limbs_val s + BASE ^ (i + j) * r ! (i + j) = limbs_val r + BASE ^ (i + j) * (cur mod BASE)"
      unfolding s_def by (rule limbs_val_update [OF in_range])
    have "ai * limbs_val (drop j b) + carry + r ! (i + j) = cur + BASE * (ai * limbs_val (drop (j + 1) b))"
      unfolding limbs_val_drop [of j b] by (simp add: cur_def bj_def algebra_simps)
    also have "\<dots> = cur mod BASE + BASE * (ai * limbs_val (drop (j + 1) b) + cur div BASE)" by (simp add: algebra_simps)
    finally have fin: "ai * limbs_val (drop j b) + carry + r ! (i + j) =
        cur mod BASE + BASE * (ai * limbs_val (drop (j + 1) b) + cur div BASE)" .
    have "BASE ^ (i + j) * (ai * limbs_val (drop j b) + carry) + BASE ^ (i + j) * r ! (i + j) =
        BASE ^ (i + j) * (cur mod BASE + BASE * (ai * limbs_val (drop (j + 1) b) + cur div BASE))"
      unfolding fin [symmetric] by (simp only: distrib_left)
    also have "\<dots> = BASE ^ (i + j) * (cur mod BASE) + BASE ^ (i + (j + 1)) * (ai * limbs_val (drop (j + 1) b) + cur div BASE)"
      by (simp only: distrib_left power_add power_one_right mult.assoc add.assoc)
    finally have step: "BASE ^ (i + j) * (ai * limbs_val (drop j b) + carry) + BASE ^ (i + j) * r ! (i + j) =
        BASE ^ (i + j) * (cur mod BASE) + BASE ^ (i + (j + 1)) * (ai * limbs_val (drop (j + 1) b) + cur div BASE)" .
    have total: "limbs_val s + BASE ^ (i + (j + 1)) * (ai * limbs_val (drop (j + 1) b) + cur div BASE) =
        limbs_val r + BASE ^ (i + j) * (ai * limbs_val (drop j b) + carry)"
      using upd step by linarith
    show ?thesis
      using less.hyps [of s "j + 1" "cur div BASE"] in_range s w(2) less.prems unfolding eq total by simp
  next
    case False
    then have "MultiplyRow ai b i j carry r = Some r" by (subst MultiplyRow.simps) (simp only: if_False)
    with False less.prems show ?thesis by (simp add: not_less)
  qed
qed

lemma MultiplyRows_val:
  assumes "limbs_ok a" "limbs_ok b"
  shows "limbs_ok r \<Longrightarrow> length r = length a + length b \<Longrightarrow>
     limbs_val r + BASE ^ i * (limbs_val (drop i a) * limbs_val b) < BASE ^ length r \<Longrightarrow>
     \<exists>r'. MultiplyRows a b i r = Some r' \<and> limbs_ok r' \<and> length r' = length r \<and>
       limbs_val r' = limbs_val r + BASE ^ i * (limbs_val (drop i a) * limbs_val b)"
proof (induction "length a - i" arbitrary: i r)
  case 0
  then show ?case by (subst MultiplyRows.simps) simp
next
  case (Suc n)
  then have i: "i < length a" by simp
  have split: "limbs_val (drop i a) * limbs_val b = a ! i * limbs_val b + BASE * (limbs_val (drop (i + 1) a) * limbs_val b)"
    unfolding limbs_val_drop [of i a] using i by (simp add: algebra_simps)
  have total: "BASE ^ i * (limbs_val (drop i a) * limbs_val b) =
      BASE ^ i * (a ! i * limbs_val b) + BASE ^ (i + 1) * (limbs_val (drop (i + 1) a) * limbs_val b)"
    unfolding split by (simp add: algebra_simps)
  have "limbs_val r + BASE ^ (i + 0) * (a ! i * limbs_val (drop 0 b) + 0) < BASE ^ length r"
    using Suc.prems(3) unfolding total by simp
  from MultiplyRow_val [OF limbs_ok_nth [OF assms(1) i] assms(2) Suc.prems(1) _ _ this] Suc.prems(2) i
  obtain s where s: "MultiplyRow (a ! i) b i 0 0 r = Some s" "limbs_ok s" "length s = length r"
      "limbs_val s = limbs_val r + BASE ^ i * (a ! i * limbs_val b)" by auto
  have eq: "MultiplyRows a b i r = MultiplyRows a b (i + 1) s" using i s(1) by (subst MultiplyRows.simps) simp
  have "limbs_val s + BASE ^ (i + 1) * (limbs_val (drop (i + 1) a) * limbs_val b) = limbs_val r + BASE ^ i * (limbs_val (drop i a) * limbs_val b)"
    unfolding s(4) total by simp
  note t = this
  show ?case using Suc.hyps(1) [of "i + 1" s, unfolded t] Suc.hyps(2) Suc.prems s(2, 3) unfolding eq by simp
qed

lemma product_less: "limbs_ok a \<Longrightarrow> limbs_ok b \<Longrightarrow> limbs_val a * limbs_val b < BASE ^ (length a + length b)"
  using limbs_val_less [of a] limbs_val_less [of b] by (simp add: power_add mult_strict_mono)

text \<open>Adding a number at an offset: every limb is written once, so it grows by less than the base.\<close>

lemma AddAt_val:
  assumes "limbs_ok z" "m \<le> 3 * BASE"
  shows "offset + length z \<le> length r \<Longrightarrow> i \<le> length z \<Longrightarrow> \<forall>k < length r. r ! k < m + BASE \<Longrightarrow> \<forall>k < length r. offset + i \<le> k \<longrightarrow> r ! k < m \<Longrightarrow>
     \<exists>r'. AddAt z offset i r = Some r' \<and> length r' = length r \<and> (\<forall>k < length r'. r' ! k < m + BASE) \<and>
       limbs_val r' = limbs_val r + BASE ^ (offset + i) * limbs_val (drop i z)"
proof (induction "length z - i" arbitrary: i r)
  case 0
  then show ?case by (subst AddAt.simps) simp
next
  case (Suc n)
  then have i: "i < length z" by simp
  with Suc.prems have k: "i + offset < length r" by simp
  define s where "s = r[i + offset := r ! (i + offset) + z ! i]"
  have lim: "r ! (i + offset) + z ! i < m + BASE"
    using Suc.prems(4) k limbs_ok_nth [OF assms(1) i] by (simp add: add_less_mono add.commute)
  then have "wrap32 (r ! (i + offset) + z ! i) = r ! (i + offset) + z ! i" using assms(2) by (intro wrap32_limb) simp
  then have eq: "AddAt z offset i r = AddAt z offset (i + 1) s" using i k by (subst AddAt.simps) (simp add: span_simps s_def)
  have "limbs_val s = limbs_val r + BASE ^ (offset + i) * z ! i"
    using limbs_val_update [OF k, of "r ! (i + offset) + z ! i"] by (simp add: s_def algebra_simps)
  then have total: "limbs_val s + BASE ^ (offset + (i + 1)) * limbs_val (drop (i + 1) z) = limbs_val r + BASE ^ (offset + i) * limbs_val (drop i z)"
    unfolding limbs_val_drop [of i z] using i by (simp add: algebra_simps)
  have "\<forall>k < length s. s ! k < m + BASE" "\<forall>k < length s. offset + (i + 1) \<le> k \<longrightarrow> s ! k < m"
    using Suc.prems lim k by (auto simp: s_def nth_list_update)
  with Suc.hyps(1) [of "i + 1" s] Suc.hyps(2) Suc.prems i show ?case unfolding eq total by (simp add: s_def)
qed

lemma PropagateCarries_val:
  "\<forall>k < length r. r ! k < 4 * BASE \<Longrightarrow> \<forall>k < length r. k < i \<longrightarrow> r ! k < BASE \<Longrightarrow> carry < BASE \<Longrightarrow> i \<le> length r \<Longrightarrow>
   limbs_ok (PropagateCarries i carry r) \<and> length (PropagateCarries i carry r) = length r \<and>
   (\<exists>c. limbs_val (PropagateCarries i carry r) + BASE ^ length r * c = limbs_val r + BASE ^ i * carry)"
proof (induction "length r - i" arbitrary: i carry r)
  case 0
  then have "i = length r" by simp
  then have "PropagateCarries i carry r = r" by (subst PropagateCarries.simps) simp
  with 0 \<open>i = length r\<close> show ?case by (auto simp: limbs_ok_def in_set_conv_nth)
next
  case (Suc n)
  then have i: "i < length r" by simp
  define cur where "cur = r ! i + carry"
  have "cur < 5 * BASE" using Suc.prems(1,3) i by (auto simp: cur_def add_less_mono)
  then have w: "wrap64 cur = cur" "cur div BASE < BASE"
    by (auto simp: BASE_def wrap64_def div_less_iff_less_mult)
  define s where "s = r[i := cur mod BASE]"
  have eq: "PropagateCarries i carry r = PropagateCarries (i + 1) (cur div BASE) s"
    using i by (subst PropagateCarries.simps) (simp only: if_True Let_def w mod_BASE_limb flip: cur_def s_def)
  have "limbs_val s + BASE ^ i * r ! i = limbs_val r + BASE ^ i * (cur mod BASE)"
    unfolding s_def by (rule limbs_val_update [OF i])
  moreover have "BASE ^ i * (r ! i + carry) = BASE ^ i * (cur mod BASE + BASE * (cur div BASE))"
    by (simp add: cur_def)
  then have "BASE ^ i * r ! i + BASE ^ i * carry = BASE ^ i * (cur mod BASE) + BASE ^ (i + 1) * (cur div BASE)"
    by (simp only: distrib_left power_add power_one_right mult.assoc)
  ultimately have total: "limbs_val s + BASE ^ (i + 1) * (cur div BASE) = limbs_val r + BASE ^ i * carry" by linarith
  have "\<forall>k < length s. s ! k < 4 * BASE" "\<forall>k < length s. k < i + 1 \<longrightarrow> s ! k < BASE"
    using Suc.prems i by (auto simp: s_def nth_list_update less_Suc_eq trans_less_add1 less_le_trans [OF mod_less_divisor])
  with Suc.hyps(1) [of s "i + 1" "cur div BASE"] Suc.hyps(2) i w(2) show ?case unfolding eq total by (simp add: s_def)
qed

lemma split_at_props:
  assumes "split_at half v = (lo, hi)" "limbs_ok v"
  shows "limbs_ok lo" "limbs_ok hi" "limbs_val v = limbs_val lo + BASE ^ half * limbs_val hi"
proof -
  show "limbs_ok lo" "limbs_ok hi" using assms by (auto simp: split_at_def Let_def intro: limbs_ok_sub)
  show "limbs_val v = limbs_val lo + BASE ^ half * limbs_val hi"
    using limbs_val_take_drop [of v half] assms(1) by (cases "half \<le> length v") (auto simp: split_at_def Let_def min_def)
qed

text \<open>The recombination of the three partial products of Karatsuba's method.\<close>

lemma karatsuba_combine:
  assumes "limbs_ok z0" "limbs_ok z1" "limbs_ok z2" "trimmed z0" "trimmed z1" "trimmed z2" "0 < half" "2 * half < n"
    and total: "limbs_val z0 + BASE ^ half * limbs_val z1 + BASE ^ (2 * half) * limbs_val z2 < BASE ^ n"
  shows "\<exists>r1 r2 r3. AddAt z0 0 0 (replicate n 0) = Some r1 \<and> AddAt z1 half 0 r1 = Some r2 \<and> AddAt z2 (2 * half) 0 r2 = Some r3 \<and>
     length r3 = n \<and> limbs_ok (PropagateCarries 0 0 r3) \<and> length (PropagateCarries 0 0 r3) = n \<and>
     limbs_val (PropagateCarries 0 0 r3) = limbs_val z0 + BASE ^ half * limbs_val z1 + BASE ^ (2 * half) * limbs_val z2"
proof -
  have fits: "off + length z \<le> n" if "trimmed z" "BASE ^ off * limbs_val z < BASE ^ n" "off < n" for off z
  proof -
    have "BASE ^ off * limbs_val z < BASE ^ off * BASE ^ (n - off)" using that by (simp flip: power_add)
    then have "limbs_val z < BASE ^ (n - off)" by simp
    with length_le_val [OF that(1) this] that(3) show ?thesis by simp
  qed
  have l: "0 + length z0 \<le> n" "half + length z1 \<le> n" "2 * half + length z2 \<le> n"
    using fits [of z0 0] fits [of z1 half] fits [of z2 "2 * half"] assms by simp_all
  obtain r1 where r1: "AddAt z0 0 0 (replicate n 0) = Some r1" "length r1 = n" "\<forall>k < n. r1 ! k < BASE + BASE" "limbs_val r1 = limbs_val z0"
    using AddAt_val [of z0 BASE 0 "replicate n 0" 0] assms(1) l(1) by auto
  obtain r2 where r2: "AddAt z1 half 0 r1 = Some r2" "length r2 = n" "\<forall>k < n. r2 ! k < 2 * BASE + BASE"
      "limbs_val r2 = limbs_val z0 + BASE ^ half * limbs_val z1"
    using AddAt_val [of z1 "2 * BASE" half r1 0] assms(2) l(2) r1 by (auto simp: mult_2 trans_less_add1)
  have "\<forall>k < n. r2 ! k < 4 * BASE" using r2(3) by fastforce
  then obtain r3 where r3: "AddAt z2 (2 * half) 0 r2 = Some r3" "length r3 = n" "\<forall>k < n. r3 ! k < 3 * BASE + BASE"
      "limbs_val r3 = limbs_val z0 + BASE ^ half * limbs_val z1 + BASE ^ (2 * half) * limbs_val z2"
    using AddAt_val [of z2 "3 * BASE" "2 * half" r2 0] assms(3) l(3) r2 by (auto simp: trans_less_add1)
  obtain c where p: "limbs_ok (PropagateCarries 0 0 r3)" "length (PropagateCarries 0 0 r3) = n"
      "limbs_val (PropagateCarries 0 0 r3) + BASE ^ n * c = limbs_val r3"
    using PropagateCarries_val [of r3 0 0] r3 by auto
  with total r3(4) have "BASE ^ n * c < BASE ^ n * 1" by linarith
  then have "c = 0" by simp
  with p r1 r2 r3 show ?thesis by auto
qed

lemma karatsuba_identity:
  fixes al ah bl bh h :: nat
  shows "(al + h * ah) * (bl + h * bh) = al * bl + h * ((al + ah) * (bl + bh) - al * bl - ah * bh) + h * h * (ah * bh)"
proof -
  have "(al + ah) * (bl + bh) - al * bl - ah * bh = al * bh + ah * bl" by (simp add: algebra_simps)
  then show ?thesis by (simp add: algebra_simps)
qed

lemma MultiplyDigits_val:
  "limbs_ok a \<Longrightarrow> limbs_ok b \<Longrightarrow>
   \<exists>r. MultiplyDigits a b = Some r \<and> limbs_ok r \<and> trimmed r \<and> limbs_val r = limbs_val a * limbs_val b \<and> (r = [] \<longrightarrow> a = [] \<and> b = [])"
proof (induction a b rule: MultiplyDigits.induct)
  case (1 a b)
  consider (zero) "(length a = 1 \<and> a ! 0 = 0) \<or> (length b = 1 \<and> b ! 0 = 0)"
    | (school) "\<not> ((length a = 1 \<and> a ! 0 = 0) \<or> (length b = 1 \<and> b ! 0 = 0))" "length a < 32 \<or> length b < 32"
    | (karatsuba) "\<not> ((length a = 1 \<and> a ! 0 = 0) \<or> (length b = 1 \<and> b ! 0 = 0))" "\<not> (length a < 32 \<or> length b < 32)"
    by blast
  then show ?case
  proof cases
    case zero
    then have "limbs_val a * limbs_val b = 0" by (auto simp: length_Suc_conv)
    with zero show ?thesis by (subst MultiplyDigits.simps) (simp add: trimmed_def)
  next
    case school
    let ?z = "replicate (length a + length b) 0 :: nat list"
    have "limbs_val ?z + BASE ^ 0 * (limbs_val (drop 0 a) * limbs_val b) < BASE ^ length ?z"
      using product_less [OF 1(4, 5)] by (simp only: limbs_val_replicate) simp
    from MultiplyRows_val [OF 1(4, 5) _ _ this]
    obtain r where r: "MultiplyRows a b 0 ?z = Some r" "limbs_ok r" "length r = length a + length b" "limbs_val r = limbs_val a * limbs_val b"
      by auto
    have "MultiplyDigits a b = Some (TrimDigits r)"
      using school r(1) by (subst MultiplyDigits.simps) (simp only: if_False if_True option.map)
    with r show ?thesis by auto
  next
    case karatsuba
    define half where "half = max (length a) (length b) div 2"
    obtain al ah where a: "split_at half a = (al, ah)" by fastforce
    obtain bl bh where b: "split_at half b = (bl, bh)" by fastforce
    note sa = split_at_props [OF a 1(4)] and sb = split_at_props [OF b 1(5)]
    note IH = 1(1 - 3) [OF karatsuba half_def a [symmetric] refl b [symmetric] refl]
    obtain z0 where z0: "MultiplyDigits al bl = Some z0" "limbs_ok z0" "trimmed z0" "limbs_val z0 = limbs_val al * limbs_val bl"
      using IH(1) sa sb by blast
    obtain z2 where z2: "MultiplyDigits ah bh = Some z2" "limbs_ok z2" "trimmed z2" "limbs_val z2 = limbs_val ah * limbs_val bh"
      using IH(2) [OF z0(1)] sa sb by blast
    obtain z1 where z1: "MultiplyDigits (AddDigits al ah) (AddDigits bl bh) = Some z1" "limbs_ok z1" "trimmed z1"
        "limbs_val z1 = (limbs_val al + limbs_val ah) * (limbs_val bl + limbs_val bh)"
      using IH(3) [OF z0(1) z2(1)] sa sb by auto
    have le: "limbs_val z0 \<le> limbs_val z1" "limbs_val z2 \<le> limbs_val z1 - limbs_val z0"
      by (simp_all add: z0 z1 z2 algebra_simps)
    define m where "m = SubtractDigits (SubtractDigits z1 z0) z2"
    have m: "limbs_ok m" "trimmed m" "limbs_val m = limbs_val z1 - limbs_val z0 - limbs_val z2"
      using le z0 z1 z2 by (simp_all add: m_def)
    have total: "limbs_val z0 + BASE ^ half * limbs_val m + BASE ^ (2 * half) * limbs_val z2 = limbs_val a * limbs_val b"
      using karatsuba_identity [of "limbs_val al" "BASE ^ half" "limbs_val ah" "limbs_val bl" "limbs_val bh"]
      by (simp add: sa sb z0 z1 z2 m mult_2 power_add)
    have "\<exists>r1 r2 r3. AddAt z0 0 0 (replicate (length a + length b) 0) = Some r1 \<and> AddAt m half 0 r1 = Some r2 \<and> AddAt z2 (2 * half) 0 r2 = Some r3 \<and>
        length r3 = length a + length b \<and> limbs_ok (PropagateCarries 0 0 r3) \<and> length (PropagateCarries 0 0 r3) = length a + length b \<and>
        limbs_val (PropagateCarries 0 0 r3) = limbs_val z0 + BASE ^ half * limbs_val m + BASE ^ (2 * half) * limbs_val z2"
      using karatsuba(2) product_less [OF 1(4, 5)] total by (intro karatsuba_combine z0 z2 m) (auto simp: half_def)
    then obtain r1 r2 r3 where r: "AddAt z0 0 0 (replicate (length a + length b) 0) = Some r1" "AddAt m half 0 r1 = Some r2" "AddAt z2 (2 * half) 0 r2 = Some r3"
        "limbs_ok (PropagateCarries 0 0 r3)" "length (PropagateCarries 0 0 r3) = length a + length b" "limbs_val (PropagateCarries 0 0 r3) = limbs_val a * limbs_val b"
      unfolding total by blast
    have "MultiplyDigits a b = Some (TrimDigits (PropagateCarries 0 0 r3))"
      by (subst MultiplyDigits.simps)
        (simp only: karatsuba if_False Let_def a b z0(1) z1(1) z2(1) r prod.case Option.bind.bind_lunit simp_thms flip: half_def m_def)
    with r show ?thesis using karatsuba(2) by auto
  qed
qed

section \<open>Numbers\<close>

text \<open>
  The integer a representation stands for. A representation is well formed when it has a limb, all
  limbs are below the base and there are no leading zeros; it is canonical when zero is not negative.
\<close>

definition bi_val :: "BigInt \<Rightarrow> int" where
  "bi_val x = (if m_negative x then - int (limbs_val (m_digits x)) else int (limbs_val (m_digits x)))"

definition bi_ok :: "BigInt \<Rightarrow> bool" where
  "bi_ok x \<longleftrightarrow> m_digits x \<noteq> [] \<and> limbs_ok (m_digits x) \<and> trimmed (m_digits x)"

definition canonical :: "BigInt \<Rightarrow> bool" where
  "canonical x \<longleftrightarrow> bi_ok x \<and> (m_negative x \<longrightarrow> bi_val x \<noteq> 0)"

abbreviation magnitude :: "BigInt \<Rightarrow> nat" where
  "magnitude x \<equiv> limbs_val (m_digits x)"

lemma bi_okD: "bi_ok x \<Longrightarrow> m_digits x \<noteq> []" "bi_ok x \<Longrightarrow> limbs_ok (m_digits x)" "bi_ok x \<Longrightarrow> trimmed (m_digits x)"
  by (simp_all add: bi_ok_def)

lemma bi_ok_simps [simp]:
  "bi_ok (Abs x) \<longleftrightarrow> bi_ok x" "bi_ok (negate x) \<longleftrightarrow> bi_ok x" "bi_ok (x\<lparr>m_negative := s\<rparr>) \<longleftrightarrow> bi_ok x"
  by (simp_all add: bi_ok_def Abs_def negate_def)

lemma Abs_simps [simp]: "m_digits (Abs x) = m_digits x" "\<not> m_negative (Abs x)"
  by (simp_all add: Abs_def)

lemma Trim_simps [simp]: "m_digits (Trim x) = TrimDigits (m_digits x)" "m_negative (Trim x) = m_negative x"
  by (simp_all add: Trim_def)

lemma bi_ok_Trim: "m_digits x \<noteq> [] \<Longrightarrow> limbs_ok (m_digits x) \<Longrightarrow> bi_ok (Trim x)"
  by (simp add: bi_ok_def)

lemma bi_val_Trim [simp]: "bi_val (Trim x) = bi_val x"
  by (simp add: bi_val_def)

lemma IsZero_iff: "bi_ok x \<Longrightarrow> IsZero x \<longleftrightarrow> magnitude x = 0"
proof
  assume "bi_ok x" "magnitude x = 0"
  then have "length (m_digits x) = 1" using limbs_val_ge [of "m_digits x"]
    by (cases "length (m_digits x) \<le> 1") (auto simp: bi_ok_def trimmed_def le_Suc_eq)
  with \<open>magnitude x = 0\<close> show "IsZero x" by (auto simp: IsZero_def length_Suc_conv)
qed (auto simp: IsZero_def length_Suc_conv)

lemma magnitude_bi_val: "bi_val x = 0 \<longleftrightarrow> magnitude x = 0" "nat \<bar>bi_val x\<bar> = magnitude x" "\<bar>bi_val x\<bar> = int (magnitude x)"
  by (auto simp: bi_val_def)

lemma bi_val_negate: "bi_ok x \<Longrightarrow> bi_val (negate x) = - bi_val x"
  by (auto simp: negate_def bi_val_def IsZero_iff)

lemma AbsLess_loop_val:
  "limbs_ok a \<Longrightarrow> limbs_ok b \<Longrightarrow> i \<le> length a \<Longrightarrow> i \<le> length b \<Longrightarrow> AbsLess_loop a b i \<longleftrightarrow> limbs_val (take i a) < limbs_val (take i b)"
proof (induction i)
  case (Suc i)
  have t: "limbs_val (take (Suc i) v) = limbs_val (take i v) + BASE ^ i * v ! i" if "Suc i \<le> length v" for v
    using that by (simp add: take_Suc_conv_app_nth)
  have less: "limbs_val (take i v) < BASE ^ i" if "limbs_ok v" "Suc i \<le> length v" for v
    using limbs_val_less [OF limbs_ok_sub(1) [OF that(1), of i]] that(2) by simp
  have step: "x + B * d < y + B * e" if "x < B" "d < e" for x y d e B :: nat
  proof -
    have "x + B * d < B * (d + 1)" using that by simp
    also have "\<dots> \<le> B * e" using that by (intro mult_left_mono) simp_all
    finally show ?thesis by simp
  qed
  consider "a ! i = b ! i" | "a ! i < b ! i" | "b ! i < a ! i" by linarith
  then show ?case
  proof cases
    case 1
    with Suc show ?thesis by (simp add: t)
  next
    case 2
    with Suc.prems less [of a] step [of "limbs_val (take i a)" "BASE ^ i" "a ! i" "b ! i" "limbs_val (take i b)"] show ?thesis by (simp add: t)
  next
    case 3
    with Suc.prems less [of b] step [of "limbs_val (take i b)" "BASE ^ i" "b ! i" "a ! i" "limbs_val (take i a)"] show ?thesis by (simp add: t)
  qed
qed simp

lemma AbsLess_iff:
  assumes "bi_ok a" "bi_ok b"
  shows "AbsLess a b \<longleftrightarrow> magnitude a < magnitude b"
proof (cases "length (m_digits a) = length (m_digits b)")
  case True
  with assms AbsLess_loop_val [of "m_digits a" "m_digits b" "length (m_digits a)"] show ?thesis
    by (simp add: AbsLess_def bi_ok_def)
next
  case False
  with trimmed_length [of "m_digits a" "m_digits b"] trimmed_length [of "m_digits b" "m_digits a"] assms show ?thesis
    by (fastforce simp: AbsLess_def bi_ok_def)
qed

section \<open>Addition, subtraction and multiplication\<close>

lemma bi_val_mk: "bi_val (Trim \<lparr>m_digits = ds, m_negative = s\<rparr>) = (if s then - int (limbs_val ds) else int (limbs_val ds))"
  by (simp add: bi_val_def)

lemma bi_ok_mk: "ds \<noteq> [] \<Longrightarrow> limbs_ok ds \<Longrightarrow> bi_ok (Trim \<lparr>m_digits = ds, m_negative = s\<rparr>)"
  by (rule bi_ok_Trim) simp_all

lemma add_same_sign:
  assumes "bi_ok a" "bi_ok b" "m_negative a = m_negative b"
  shows "bi_ok (add a b) \<and> bi_val (add a b) = bi_val a + bi_val b"
proof -
  have "add a b = Trim \<lparr>m_digits = AddDigits (m_digits a) (m_digits b), m_negative = m_negative a\<rparr>"
    using assms(3) by (subst add.simps) simp
  with assms show ?thesis by (auto simp: bi_val_mk bi_val_def bi_okD intro!: bi_ok_mk)
qed

lemma subtract_same_sign:
  assumes "bi_ok a" "bi_ok b" "m_negative a = m_negative b"
  shows "bi_ok (subtract a b) \<and> bi_val (subtract a b) = bi_val a - bi_val b"
proof (cases "AbsLess a b")
  case True
  then have "subtract a b = Trim \<lparr>m_digits = SubtractDigits (m_digits b) (m_digits a), m_negative = \<not> m_negative a\<rparr>"
    using assms(3) by (subst subtract.simps) simp
  moreover have "magnitude a \<le> magnitude b" using True assms AbsLess_iff by simp
  ultimately show ?thesis using assms by (auto simp: bi_val_mk bi_val_def bi_okD of_nat_diff intro!: bi_ok_mk)
next
  case False
  then have "subtract a b = Trim \<lparr>m_digits = SubtractDigits (m_digits a) (m_digits b), m_negative = m_negative a\<rparr>"
    using assms(3) by (subst subtract.simps) simp
  moreover have "magnitude b \<le> magnitude a" using False assms AbsLess_iff by simp
  ultimately show ?thesis using assms by (auto simp: bi_val_mk bi_val_def bi_okD of_nat_diff intro!: bi_ok_mk)
qed

lemma negate_sign: "m_negative x \<Longrightarrow> \<not> m_negative (negate x)"
  by (simp add: negate_def)

lemma add_val:
  assumes "bi_ok a" "bi_ok b"
  shows "bi_ok (add a b)" "bi_val (add a b) = bi_val a + bi_val b"
proof -
  have "bi_ok (add a b) \<and> bi_val (add a b) = bi_val a + bi_val b"
  proof (cases "m_negative a = m_negative b")
    case False
    then consider "m_negative a" "\<not> m_negative b" | "\<not> m_negative a" "m_negative b" by blast
    then show ?thesis
    proof cases
      case 1
      with subtract_same_sign [of b "negate a"] assms show ?thesis
        by (subst (1 2) add.simps) (simp add: negate_sign bi_val_negate)
    next
      case 2
      with subtract_same_sign [of a "negate b"] assms show ?thesis
        by (subst (1 2) add.simps) (simp add: negate_sign bi_val_negate)
    qed
  qed (use assms add_same_sign in blast)
  then show "bi_ok (add a b)" "bi_val (add a b) = bi_val a + bi_val b" by blast+
qed

lemma subtract_val:
  assumes "bi_ok a" "bi_ok b"
  shows "bi_ok (subtract a b)" "bi_val (subtract a b) = bi_val a - bi_val b"
proof -
  have "bi_ok (subtract a b) \<and> bi_val (subtract a b) = bi_val a - bi_val b"
  proof (cases "m_negative a = m_negative b")
    case False
    then consider "m_negative a" "\<not> m_negative b" | "\<not> m_negative a" "m_negative b" by blast
    then show ?thesis
    proof cases
      case 1
      with add_val [of "negate a" b] assms show ?thesis
        by (subst (1 2) subtract.simps) (simp add: bi_val_negate)
    next
      case 2
      with add_val [of a "negate b"] assms show ?thesis
        by (subst (1 2) subtract.simps) (simp add: bi_val_negate)
    qed
  qed (use assms subtract_same_sign in blast)
  then show "bi_ok (subtract a b)" "bi_val (subtract a b) = bi_val a - bi_val b" by blast+
qed

lemma multiply_val:
  assumes "bi_ok a" "bi_ok b"
  shows "\<exists>p. multiply a b = Some p \<and> bi_ok p \<and> bi_val p = bi_val a * bi_val b \<and> m_negative p = (m_negative a \<noteq> m_negative b)"
proof -
  obtain ds where "MultiplyDigits (m_digits a) (m_digits b) = Some ds" "limbs_ok ds" "limbs_val ds = magnitude a * magnitude b" "ds \<noteq> []"
    using MultiplyDigits_val [of "m_digits a" "m_digits b"] assms by (auto simp: bi_ok_def)
  then show ?thesis by (auto simp: multiply_def bi_val_mk bi_val_def intro!: bi_ok_mk)
qed

lemma subtract_nonneg:
  assumes "bi_ok a" "bi_ok b" "\<not> m_negative a" "\<not> m_negative b" "magnitude b \<le> magnitude a"
  shows "\<not> m_negative (subtract a b)"
  using assms AbsLess_iff [of a b] by (subst subtract.simps) simp

lemma subtract_magnitude:
  assumes "bi_ok a" "bi_ok b" "\<not> m_negative a" "\<not> m_negative b" "magnitude b \<le> magnitude a"
  shows "magnitude (subtract a b) = magnitude a - magnitude b"
  using subtract_val(2) [OF assms(1, 2)] subtract_nonneg [OF assms] assms(3-5) by (simp add: bi_val_def)

section \<open>Construction and comparison\<close>

lemma PushLimbs_val:
  "limbs_ok v \<Longrightarrow> limbs_ok (PushLimbs v n) \<and> limbs_val (PushLimbs v n) = limbs_val v + BASE ^ length v * n \<and>
     (0 < n \<longrightarrow> PushLimbs v n \<noteq> [] \<and> last (PushLimbs v n) \<noteq> 0)"
proof (induction v n rule: PushLimbs.induct)
  case (1 v n)
  show ?case
  proof (cases "0 < n")
    case True
    have eq: "PushLimbs v n = PushLimbs (v @ [n mod BASE]) (n div BASE)"
      using True by (subst PushLimbs.simps) simp
    have IH: "limbs_ok (PushLimbs v n) \<and> limbs_val (PushLimbs v n) = limbs_val (v @ [n mod BASE]) + BASE ^ length (v @ [n mod BASE]) * (n div BASE) \<and>
       (0 < n div BASE \<longrightarrow> PushLimbs v n \<noteq> [] \<and> last (PushLimbs v n) \<noteq> 0)"
      using "1.IH" [OF True] "1.prems" unfolding eq by simp
    have "BASE ^ length v * n = BASE ^ length v * (n mod BASE + BASE * (n div BASE))" by simp
    also have "\<dots> = BASE ^ length v * (n mod BASE) + BASE ^ length (v @ [n mod BASE]) * (n div BASE)"
      by (simp only: distrib_left length_append list.size power_add power_Suc power_0 mult.assoc add_0 mult_1_right plus_nat.simps One_nat_def)
    finally have "limbs_val (PushLimbs v n) = limbs_val v + BASE ^ length v * n" using IH by simp
    moreover have "PushLimbs v n \<noteq> [] \<and> last (PushLimbs v n) \<noteq> 0"
    proof (cases "n div BASE = 0")
      case True
      then have "n mod BASE = n" by (metis mod_less div_eq_0_iff BASE_pos(2))
      with True \<open>0 < n\<close> show ?thesis unfolding eq by (simp add: PushLimbs.simps [of _ 0])
    qed (use IH in simp)
    ultimately show ?thesis using IH by simp
  next
    case False
    with "1.prems" show ?thesis by (simp add: PushLimbs.simps [of v 0])
  qed
qed

lemma PushLimbs_number:
  assumes "0 < n"
  shows "bi_ok \<lparr>m_digits = PushLimbs [] n, m_negative = s\<rparr>" "limbs_val (PushLimbs [] n) = n"
  using PushLimbs_val [of "[]" n] assms by (simp_all add: bi_ok_def trimmed_def)

lemma single_zero: "bi_ok \<lparr>m_digits = [0], m_negative = s\<rparr>" "limbs_val [0] = 0"
  by (simp_all add: bi_ok_def trimmed_def)

lemma BigInt_UInt32_val [simp]: "bi_ok (BigInt_UInt32 n)" "bi_val (BigInt_UInt32 n) = int n" "\<not> m_negative (BigInt_UInt32 n)" "magnitude (BigInt_UInt32 n) = n"
  by (auto simp: BigInt_UInt32_def bi_val_def single_zero PushLimbs_number)

lemma BigInt_zero_val [simp]: "bi_ok BigInt_zero" "bi_val BigInt_zero = 0" "\<not> m_negative BigInt_zero"
  by (simp_all add: BigInt_zero_def bi_ok_def trimmed_def bi_val_def)

lemma BigInt_int_val: "\<bar>n\<bar> < 2 ^ 32 \<Longrightarrow> canonical (BigInt_int n) \<and> bi_val (BigInt_int n) = n"
  by (auto simp: BigInt_int_def Let_def canonical_def bi_val_def single_zero PushLimbs_number)

lemma BigInt_int_0 [simp]: "bi_ok (BigInt_int 0)" "bi_val (BigInt_int 0) = 0" "\<not> m_negative (BigInt_int 0)" "magnitude (BigInt_int 0) = 0"
  by (simp_all add: BigInt_int_def bi_ok_def trimmed_def bi_val_def)

lemma BigInt_UInt64_val: "canonical (BigInt_UInt64 n) \<and> bi_val (BigInt_UInt64 n) = int n"
  by (auto simp: BigInt_UInt64_def canonical_def bi_val_def single_zero PushLimbs_number)

lemma BigInt_Int64_val:
  assumes "- (2 ^ 63) \<le> n" "n < 2 ^ 63"
  shows "canonical (BigInt_Int64 n) \<and> bi_val (BigInt_Int64 n) = n"
proof (cases "n < 0")
  case True
  then have "wrap64 (nat (- (n + 1)) + 1) = nat (- n)" using assms(1) by (simp add: wrap64_def nat_diff_distrib' nat_add_distrib [symmetric] del: One_nat_def)
  with True show ?thesis by (auto simp: BigInt_Int64_def Let_def canonical_def bi_val_def PushLimbs_number)
next
  case False
  then show ?thesis by (auto simp: BigInt_Int64_def Let_def canonical_def bi_val_def single_zero PushLimbs_number)
qed

lemma less_than_iff:
  assumes "canonical a" "canonical b"
  shows "less_than a b \<longleftrightarrow> bi_val a < bi_val b"
  using assms AbsLess_iff [of a b] AbsLess_iff [of b a]
  by (auto simp: less_than_def canonical_def bi_val_def)

lemma at_most_nonneg: "bi_ok a \<Longrightarrow> bi_ok b \<Longrightarrow> \<not> m_negative a \<Longrightarrow> \<not> m_negative b \<Longrightarrow> at_most a b \<longleftrightarrow> magnitude a \<le> magnitude b"
  by (auto simp: at_most_def greater_than_def less_than_def AbsLess_iff)

lemma canonical_eq:
  assumes "canonical a" "canonical b" "bi_val a = bi_val b"
  shows "a = b"
proof -
  have sign: "m_negative a = m_negative b" using assms by (auto simp: canonical_def bi_val_def split: if_splits)
  with assms have "magnitude a = magnitude b" by (auto simp: bi_val_def split: if_splits)
  with assms trimmed_unique [of "m_digits a" "m_digits b"] have "m_digits a = m_digits b" unfolding canonical_def bi_ok_def by blast
  with sign show ?thesis by simp
qed

lemma equals_iff: "canonical a \<Longrightarrow> canonical b \<Longrightarrow> equals a b \<longleftrightarrow> bi_val a = bi_val b"
  by (rule iffI) (simp add: equals_def bi_val_def, drule (2) canonical_eq, simp add: equals_def)

section \<open>Division\<close>

lemma limbs_val_take_Suc: "i < length v \<Longrightarrow> limbs_val (take (Suc i) v) = limbs_val (take i v) + BASE ^ i * v ! i"
  by (simp add: take_Suc_conv_app_nth)

lemma DivByUInt32_loop_val:
  assumes "limbs_ok ds" "0 < d" "d \<le> BASE"
  shows "i \<le> length ds \<Longrightarrow> length r = length ds \<Longrightarrow> limbs_ok r \<Longrightarrow> rem < d \<Longrightarrow>
    \<exists>r' rem'. DivByUInt32_loop i ds d r rem = Some (r', rem') \<and> length r' = length ds \<and> limbs_ok r' \<and> rem' < d \<and> drop i r' = drop i r \<and>
      limbs_val (take i r') * d + rem' = limbs_val (take i ds) + BASE ^ i * rem"
proof (induction i arbitrary: r rem)
  case (Suc i)
  then have i: "i < length ds" by simp
  define cur where "cur = ds ! i + rem * BASE"
  have dsi: "ds ! i < BASE" using assms(1) i by (simp add: limbs_ok_nth)
  have "rem * BASE \<le> (d - 1) * BASE" using Suc.prems(4) by (intro mult_right_mono) simp_all
  also have "\<dots> + BASE = d * BASE" using assms(2) by (cases d) simp_all
  finally have cur: "cur < d * BASE" using dsi by (simp add: cur_def)
  have w: "wrap64 (rem * BASE) = rem * BASE" "wrap64 cur = cur"
  proof -
    have "d * BASE \<le> BASE * BASE" using assms(3) by (intro mult_right_mono) simp_all
    with cur have "cur < 18 * BASE * BASE" by linarith
    moreover from this have "rem * BASE < 18 * BASE * BASE" unfolding cur_def by linarith
    ultimately show "wrap64 (rem * BASE) = rem * BASE" "wrap64 cur = cur" by (simp_all only: wrap64_square)
  qed
  have q: "cur div d < BASE" using cur assms(2) by (simp add: div_less_iff_less_mult mult.commute)
  define s where "s = r[i := cur div d]"
  have eq: "DivByUInt32_loop (Suc i) ds d r rem = DivByUInt32_loop i ds d s (cur mod d)"
    using i Suc.prems assms(2) q w by (simp add: span_simps Let_def s_def cur_def)
  obtain r' rem' where IH: "DivByUInt32_loop i ds d s (cur mod d) = Some (r', rem')" "length r' = length ds" "limbs_ok r'" "rem' < d" "drop i r' = drop i s"
      "limbs_val (take i r') * d + rem' = limbs_val (take i ds) + BASE ^ i * (cur mod d)"
    using Suc.IH [of s "cur mod d"] Suc.prems q assms(2) by (auto simp: s_def limbs_ok_update)
  have "r' ! i = s ! i" using IH(2,5) i by (metis hd_drop_conv_nth length_list_update s_def Suc.prems(2))
  then have "r' ! i = cur div d" using i Suc.prems by (simp add: s_def)
  then have "limbs_val (take (Suc i) r') * d + rem' = limbs_val (take i ds) + BASE ^ i * (cur mod d) + BASE ^ i * (cur div d * d)"
    using IH(2,6) i by (simp add: limbs_val_take_Suc algebra_simps)
  also have "\<dots> = limbs_val (take i ds) + BASE ^ i * (cur mod d + cur div d * d)" by (simp only: distrib_left add.assoc)
  also have "\<dots> = limbs_val (take (Suc i) ds) + BASE ^ Suc i * rem" using i by (simp add: limbs_val_take_Suc cur_def algebra_simps)
  finally have total: "limbs_val (take (Suc i) r') * d + rem' = limbs_val (take (Suc i) ds) + BASE ^ Suc i * rem" .
  have "drop (Suc i) r' = drop (Suc i) r" using IH(5) by (metis drop_Suc drop_drop drop_update_cancel lessI plus_1_eq_Suc s_def)
  with IH total show ?case unfolding eq by auto
qed simp

lemma divmod_unique: "(q::nat) * d + r = n \<Longrightarrow> r < d \<Longrightarrow> q = n div d \<and> r = n mod d"
  by auto

lemma DivByUInt32_val:
  assumes "bi_ok a" "0 < d" "d < BASE"
  shows "\<exists>q r. DivByUInt32 a d = Some (q, r) \<and> bi_ok q \<and> m_negative q = m_negative a \<and> magnitude q = magnitude a div d \<and> r = magnitude a mod d"
proof -
  let ?ds = "m_digits a"
  obtain res rem where l: "DivByUInt32_loop (length ?ds) ?ds d (replicate (length ?ds) 0) 0 = Some (res, rem)" "length res = length ?ds" "limbs_ok res" "rem < d"
      "limbs_val res * d + rem = magnitude a"
    using DivByUInt32_loop_val [of ?ds d "length ?ds" "replicate (length ?ds) 0" 0] assms by (auto simp: bi_ok_def)
  then have "limbs_val res = magnitude a div d" "rem = magnitude a mod d" using divmod_unique [OF l(5, 4)] by simp_all
  moreover have "wrap32 rem = rem" using l(4) assms(3) by (intro wrap32_limb) simp
  moreover have "res \<noteq> []" using l(2) assms(1) by (auto simp: bi_ok_def)
  ultimately show ?thesis using l by (simp add: DivByUInt32_def bi_ok_mk)
qed

lemma NaiveDivMod_loop_val:
  assumes "bi_ok b" "\<not> m_negative b" "0 < magnitude b"
  shows "bi_ok q \<Longrightarrow> bi_ok r \<Longrightarrow> \<not> m_negative r \<Longrightarrow>
    \<exists>q' r'. NaiveDivMod_loop b q r = Some (q', r') \<and> bi_ok q' \<and> bi_ok r' \<and> \<not> m_negative r' \<and>
      bi_val q' = bi_val q + int (magnitude r div magnitude b) \<and> magnitude r' = magnitude r mod magnitude b"
proof (induction "magnitude r" arbitrary: q r rule: less_induct)
  case less
  show ?case
  proof (cases "AbsLess r b")
    case True
    with less.prems assms AbsLess_iff [of r b] show ?thesis by (subst NaiveDivMod_loop.simps) simp
  next
    case False
    then have ge: "magnitude b \<le> magnitude r" using less.prems assms AbsLess_iff [of r b] by simp
    have one: "bi_ok (BigInt_int 1)" "bi_val (BigInt_int 1) = 1" using BigInt_int_val [of 1] by (simp_all add: canonical_def)
    have s: "bi_ok (subtract r b)" "\<not> m_negative (subtract r b)" using subtract_val [of r b] subtract_nonneg [of r b] less.prems assms ge by simp_all
    have m: "magnitude (subtract r b) = magnitude r - magnitude b" using subtract_magnitude [of r b] less.prems assms ge by simp
    have q: "bi_ok (add q (BigInt_int 1))" "bi_val (add q (BigInt_int 1)) = bi_val q + 1"
      using add_val [OF less.prems(1) one(1)] one(2) by simp_all
    have "magnitude r div magnitude b = 1 + (magnitude r - magnitude b) div magnitude b"
      "magnitude r mod magnitude b = (magnitude r - magnitude b) mod magnitude b"
      using ge assms(3) by (simp_all add: le_div_geq le_mod_geq)
    moreover obtain q' r' where "NaiveDivMod_loop b (add q (BigInt_int 1)) (subtract r b) = Some (q', r')" "bi_ok q'" "bi_ok r'" "\<not> m_negative r'"
        "bi_val q' = bi_val q + 1 + int ((magnitude r - magnitude b) div magnitude b)" "magnitude r' = (magnitude r - magnitude b) mod magnitude b"
      using less.hyps [of "subtract r b" "add q (BigInt_int 1)"] s q m ge assms(3) by auto
    ultimately show ?thesis using False by (subst NaiveDivMod_loop.simps) auto
  qed
qed

text \<open>The binary search ends with the largest limb whose product does not exceed the remainder.\<close>

lemma SearchDigit_val:
  assumes "bi_ok b" "\<not> m_negative b" "0 < magnitude b" "bi_ok rem" "\<not> m_negative rem"
  shows "high < BASE \<Longrightarrow> low \<le> high + 1 \<Longrightarrow> magnitude rem < (high + 1) * magnitude b \<Longrightarrow> low * magnitude b \<le> magnitude rem + magnitude b \<Longrightarrow> qd = low - 1 \<Longrightarrow>
    SearchDigit b rem low high qd = Some (magnitude rem div magnitude b)"
proof (induction "high + 1 - low" arbitrary: low high qd rule: less_induct)
  case less
  show ?case
  proof (cases "low \<le> high")
    case False
    then have low: "low = high + 1" using less.prems by simp
    then have "qd * magnitude b \<le> magnitude rem" "magnitude rem < (qd + 1) * magnitude b" using less.prems by simp_all
    then have "magnitude rem div magnitude b = qd" using assms(3) by (metis Suc_eq_plus1 div_nat_eqI mult.commute)
    with False show ?thesis by (subst SearchDigit.simps) simp
  next
    case True
    define mid where "mid = low + (high - low) div 2"
    have mid: "low \<le> mid" "mid \<le> high" using True by (simp_all add: mid_def)
    have wm: "wrap32 (low + drop_bit 1 (high - low)) = mid" using mid less.prems by (simp add: drop_bit_eq_div mid_def)
    obtain p where p: "multiply b (BigInt_UInt32 mid) = Some p" "bi_ok p" "bi_val p = bi_val b * int mid" "\<not> m_negative p"
      using multiply_val [OF assms(1) BigInt_UInt32_val(1) [of mid]] assms(2) by auto
    then have pm: "magnitude p = mid * magnitude b" using assms(2) by (simp add: bi_val_def flip: of_nat_mult)
    have test: "at_most p rem \<longleftrightarrow> mid * magnitude b \<le> magnitude rem" using at_most_nonneg [of p rem] p assms pm by simp
    show ?thesis
    proof (cases "mid * magnitude b \<le> magnitude rem")
      case True
      have "wrap32 (mid + 1) = mid + 1" using mid less.prems by simp
      then have "SearchDigit b rem low high qd = SearchDigit b rem (mid + 1) high mid"
        using \<open>low \<le> high\<close> True p(1) test wm by (subst SearchDigit.simps) simp
      also have "\<dots> = Some (magnitude rem div magnitude b)"
        using mid less.prems True by (intro less.hyps) simp_all
      finally show ?thesis .
    next
      case False
      then have "0 < mid" by (cases mid) simp_all
      then have "mid + (2 ^ 32 - 1) = mid - 1 + 2 ^ 32" by simp
      moreover have "mid - 1 < 2 ^ 32" using mid less.prems by (simp add: BASE_def)
      ultimately have "wrap32 (mid + (2 ^ 32 - 1)) = mid - 1" by (simp only: wrap32_def mod_add_self2 mod_less)
      then have "SearchDigit b rem low high qd = SearchDigit b rem low (mid - 1) qd"
        using \<open>low \<le> high\<close> False p(1) test wm by (subst SearchDigit.simps) simp
      also have "\<dots> = Some (magnitude rem div magnitude b)"
        using mid less.prems False \<open>0 < mid\<close> by (intro less.hyps) simp_all
      finally show ?thesis .
    qed
  qed
qed

lemma KnuthDivMod_loop_val:
  assumes "bi_ok a" "bi_ok b" "\<not> m_negative b" "0 < magnitude b"
  shows "i \<le> length (m_digits a) \<Longrightarrow> length q = length (m_digits a) \<Longrightarrow> limbs_ok q \<Longrightarrow> bi_ok rem \<Longrightarrow> \<not> m_negative rem \<Longrightarrow> magnitude rem < magnitude b \<Longrightarrow>
    \<exists>q' rem'. KnuthDivMod_loop i a b q rem = Some (q', rem') \<and> length q' = length (m_digits a) \<and> limbs_ok q' \<and> bi_ok rem' \<and> \<not> m_negative rem' \<and>
      magnitude rem' < magnitude b \<and> drop i q' = drop i q \<and>
      limbs_val (take i q') * magnitude b + magnitude rem' = limbs_val (take i (m_digits a)) + BASE ^ i * magnitude rem"
proof (induction i arbitrary: q rem)
  case (Suc i)
  let ?ds = "m_digits a" and ?d = "magnitude b"
  have i: "i < length ?ds" using Suc.prems by simp
  define rm where "rm = Trim (rem\<lparr>m_digits := ?ds ! i # m_digits rem\<rparr>)"
  define cur where "cur = ?ds ! i + BASE * magnitude rem"
  have dsi: "?ds ! i < BASE" using assms(1) i by (simp add: limbs_ok_nth bi_okD)
  have rm: "bi_ok rm" "\<not> m_negative rm" "magnitude rm = cur"
    using dsi Suc.prems by (auto simp: rm_def cur_def bi_okD intro!: bi_ok_Trim)
  have "BASE * magnitude rem \<le> BASE * (?d - 1)" using Suc.prems(6) by (intro mult_left_mono) simp_all
  also have "\<dots> + BASE = BASE * ?d" using assms(4) by (cases ?d) simp_all
  finally have cur: "cur < BASE * ?d" using dsi by (simp add: cur_def)
  have qd: "SearchDigit b rm 0 (BASE - 1) 0 = Some (cur div ?d)"
    using SearchDigit_val [OF assms(2-4) rm(1, 2), of "BASE - 1" 0 0] rm(3) cur by simp
  have q: "cur div ?d < BASE" using cur assms(4) by (simp add: div_less_iff_less_mult mult.commute)
  define s where "s = q[i := cur div ?d]"
  obtain rem1 where step: "KnuthDivMod_loop (Suc i) a b q rem = KnuthDivMod_loop i a b s rem1" "bi_ok rem1" "\<not> m_negative rem1" "magnitude rem1 = cur mod ?d"
  proof (cases "cur div ?d = 0")
    case True
    then have "cur < ?d" using assms(4) by (simp add: div_eq_0_iff)
    then have "cur mod ?d = cur" by (rule mod_less)
    moreover have "KnuthDivMod_loop (Suc i) a b q rem = KnuthDivMod_loop i a b s rm"
      using i Suc.prems qd True by (simp add: span_simps s_def flip: rm_def)
    ultimately show ?thesis using that rm by simp
  next
    case False
    obtain p where p: "multiply b (BigInt_UInt32 (cur div ?d)) = Some p" "bi_ok p" "bi_val p = bi_val b * int (cur div ?d)" "\<not> m_negative p"
      using multiply_val [OF assms(2) BigInt_UInt32_val(1) [of "cur div ?d"]] assms(3) by auto
    then have pm: "magnitude p = ?d * (cur div ?d)" using assms(3) by (simp add: bi_val_def flip: of_nat_mult)
    then have le: "magnitude p \<le> magnitude rm" by (simp add: rm(3))
    have sub: "bi_ok (subtract rm p)" "\<not> m_negative (subtract rm p)"
      using subtract_val [OF rm(1) p(2)] subtract_nonneg [OF rm(1) p(2) rm(2) p(4) le] by simp_all
    have "magnitude (subtract rm p) = cur - ?d * (cur div ?d)" using subtract_magnitude [OF rm(1) p(2) rm(2) p(4) le] rm(3) pm by simp
    then have "magnitude (subtract rm p) = cur mod ?d" by (simp add: minus_mult_div_eq_mod)
    moreover have "KnuthDivMod_loop (Suc i) a b q rem = KnuthDivMod_loop i a b s (subtract rm p)"
      using i Suc.prems qd False p(1) by (simp add: span_simps s_def flip: rm_def)
    ultimately show ?thesis using that sub by simp
  qed
  obtain q' rem' where IH: "KnuthDivMod_loop i a b s rem1 = Some (q', rem')" "length q' = length ?ds" "limbs_ok q'" "bi_ok rem'" "\<not> m_negative rem'"
      "magnitude rem' < ?d" "drop i q' = drop i s" "limbs_val (take i q') * ?d + magnitude rem' = limbs_val (take i ?ds) + BASE ^ i * (cur mod ?d)"
    using Suc.IH [of s rem1] Suc.prems q step(2-4) assms(4) by (auto simp: s_def limbs_ok_update)
  have "q' ! i = s ! i" using IH(2,7) i by (metis hd_drop_conv_nth length_list_update s_def Suc.prems(2))
  then have "q' ! i = cur div ?d" using i Suc.prems by (simp add: s_def)
  then have "limbs_val (take (Suc i) q') * ?d + magnitude rem' = limbs_val (take i ?ds) + BASE ^ i * (cur mod ?d) + BASE ^ i * (cur div ?d * ?d)"
    using IH(2,8) i by (simp add: limbs_val_take_Suc algebra_simps)
  also have "\<dots> = limbs_val (take i ?ds) + BASE ^ i * (cur mod ?d + cur div ?d * ?d)" by (simp only: distrib_left add.assoc)
  also have "\<dots> = limbs_val (take (Suc i) ?ds) + BASE ^ Suc i * magnitude rem" using i by (simp add: limbs_val_take_Suc cur_def algebra_simps)
  finally have total: "limbs_val (take (Suc i) q') * ?d + magnitude rem' = limbs_val (take (Suc i) ?ds) + BASE ^ Suc i * magnitude rem" .
  have "drop (Suc i) q' = drop (Suc i) q" using IH(7) by (metis drop_Suc drop_drop drop_update_cancel lessI plus_1_eq_Suc s_def)
  with IH total show ?case unfolding step(1) by auto
qed simp

lemma KnuthDivMod_val:
  assumes "bi_ok a" "bi_ok b" "0 < magnitude b"
  shows "\<exists>q' r. KnuthDivMod a b q = Some (q', r) \<and> bi_ok q' \<and> m_negative q' = m_negative q \<and> magnitude q' = magnitude a div magnitude b \<and>
    bi_ok r \<and> \<not> m_negative r \<and> magnitude r = magnitude a mod magnitude b"
proof -
  let ?n = "length (m_digits a)"
  obtain ds r where l: "KnuthDivMod_loop ?n (Abs a) (Abs b) (replicate ?n 0) (BigInt_int 0) = Some (ds, r)" "length ds = ?n" "limbs_ok ds" "bi_ok r" "\<not> m_negative r"
      "magnitude r < magnitude b" "limbs_val ds * magnitude b + magnitude r = magnitude a"
    using KnuthDivMod_loop_val [of "Abs a" "Abs b" ?n "replicate ?n 0" "BigInt_int 0"] assms by auto
  have "ds \<noteq> []" using l(2) assms(1) by (auto simp: bi_ok_def)
  with l divmod_unique [OF l(7, 6)] show ?thesis by (auto simp: KnuthDivMod_def intro!: bi_ok_Trim)
qed

lemma split_blocks_returns: "0 < k \<Longrightarrow> \<exists>bs. split_blocks x k i blocks = Some bs"
proof (induction "length (m_digits x) - i" arbitrary: i blocks rule: less_induct)
  case less
  show ?case
  proof (cases "i < length (m_digits x)")
    case True
    then have "length (m_digits x) - (i + k) < length (m_digits x) - i" using less.prems by simp
    from less.hyps [OF this less.prems] True show ?thesis by (subst split_blocks.simps) simp
  qed (subst split_blocks.simps, simp)
qed

lemma shift_left_limbs_val:
  assumes "bi_ok x"
  shows "bi_ok (shift_left_limbs x n)" "bi_val (shift_left_limbs x n) = bi_val x * int BASE ^ n" "magnitude (shift_left_limbs x n) = magnitude x * BASE ^ n"
proof -
  show "magnitude (shift_left_limbs x n) = magnitude x * BASE ^ n" "bi_val (shift_left_limbs x n) = bi_val x * int BASE ^ n"
    using IsZero_iff [OF assms] by (auto simp: shift_left_limbs_def bi_val_def algebra_simps)
  show "bi_ok (shift_left_limbs x n)"
  proof (cases "IsZero x")
    case False
    then have "last (m_digits x) \<noteq> 0" using assms unfolding bi_ok_def trimmed_def IsZero_def
      by (metis One_nat_def Suc_lessI last_conv_nth length_greater_0_conv diff_Suc_1 not_less)
    with False assms show ?thesis by (simp add: shift_left_limbs_def bi_ok_def trimmed_def)
  qed (simp add: shift_left_limbs_def assms)
qed

lemma div_mod_split:
  fixes d x n :: nat
  assumes "0 < d"
  shows "n div (d * x) * x + n mod (d * x) div d = n div d"
proof -
  have "n = d * (n div (d * x) * x) + n mod (d * x)" using div_mult_mod_eq [of n "d * x"] by (simp only: mult.commute mult.left_commute)
  then have "n div d = (d * (n div (d * x) * x) + n mod (d * x)) div d" by simp
  also have "\<dots> = n div (d * x) * x + n mod (d * x) div d" using assms by (intro div_mult_self4) simp
  finally show ?thesis ..
qed

text \<open>
  The blockwise division: after the shifted divisor has been divided out, the rest is divided by the
  divisor shifted one block less.
\<close>

lemma FastDivMod_loop_val:
  assumes "bi_ok b" "0 < magnitude b"
  shows "m_digits b_hat = replicate (i * k) 0 @ m_digits b \<Longrightarrow> bi_ok q \<Longrightarrow> bi_ok rem \<Longrightarrow>
    \<exists>q' r. FastDivMod_loop (Suc i) k b_hat q rem = Some (q', r) \<and> bi_ok q' \<and> bi_ok r \<and> \<not> m_negative r \<and>
      bi_val q' = bi_val q * int BASE ^ (k * Suc i) + int (magnitude rem div magnitude b) \<and> magnitude r = magnitude rem mod magnitude b"
proof (induction i arbitrary: b_hat q rem)
  case 0
  then have h: "bi_ok b_hat" "magnitude b_hat = magnitude b" using assms(1) by (simp_all add: bi_ok_def)
  then obtain qh rh where k: "KnuthDivMod rem b_hat BigInt_zero = Some (qh, rh)" "bi_ok qh" "\<not> m_negative qh" "magnitude qh = magnitude rem div magnitude b"
      "bi_ok rh" "\<not> m_negative rh" "magnitude rh = magnitude rem mod magnitude b"
    using KnuthDivMod_val [of rem b_hat BigInt_zero] 0 assms(2) by auto
  note add = add_val [OF shift_left_limbs_val(1) [OF 0(2), of k] k(2)]
  show ?case using k add shift_left_limbs_val(2) [OF 0(2), of k] by (simp add: bi_val_def [of qh])
next
  case (Suc i)
  let ?d = "magnitude b" and ?x = "BASE ^ (Suc i * k)"
  have "last (m_digits b) \<noteq> 0"
    using assms unfolding bi_ok_def trimmed_def by (cases "m_digits b" rule: rev_cases; cases "butlast (m_digits b)") auto
  then have h: "bi_ok b_hat" "magnitude b_hat = ?d * ?x" using assms(1) Suc.prems(1) by (simp_all add: bi_ok_def trimmed_def)
  then obtain qh rh where k: "KnuthDivMod rem b_hat BigInt_zero = Some (qh, rh)" "bi_ok qh" "\<not> m_negative qh" "magnitude qh = magnitude rem div (?d * ?x)"
      "bi_ok rh" "\<not> m_negative rh" "magnitude rh = magnitude rem mod (?d * ?x)"
    using KnuthDivMod_val [OF Suc.prems(3) h(1), of BigInt_zero, unfolded h(2)] assms(2) BigInt_zero_val(3) by (simp only: nat_0_less_mult_iff BASE_power_pos) blast
  define q1 where "q1 = add (shift_left_limbs q k) qh"
  define b1 where "b1 = Trim (b_hat\<lparr>m_digits := drop k (m_digits b_hat)\<rparr>)"
  have q1: "bi_ok q1" "bi_val q1 = bi_val q * int BASE ^ k + int (magnitude rem div (?d * ?x))"
    using add_val [OF shift_left_limbs_val(1) [OF Suc.prems(2), of k] k(2)] shift_left_limbs_val(2) [OF Suc.prems(2), of k] k(3,4)
    by (simp_all add: q1_def bi_val_def [of qh])
  have digits: "drop k (m_digits b_hat) = replicate (i * k) 0 @ m_digits b" by (simp add: Suc.prems(1))
  have "trimmed (replicate (i * k) 0 @ m_digits b)" using \<open>last (m_digits b) \<noteq> 0\<close> assms(1) by (simp add: trimmed_def bi_ok_def)
  then have b1: "m_digits b1 = replicate (i * k) 0 @ m_digits b" by (simp add: b1_def digits TrimDigits_id)
  have len: "k < length (m_digits b_hat)" using assms(1) Suc.prems(1) by (cases "m_digits b") (auto simp: bi_ok_def)
  have eq: "FastDivMod_loop (Suc (Suc i)) k b_hat q rem = FastDivMod_loop (Suc i) k b1 q1 rh"
    by (subst FastDivMod_loop.simps(2)) (simp only: k(1) len if_True Let_def prod.case Option.bind.bind_lunit flip: q1_def b1_def)
  obtain q' r where IH: "FastDivMod_loop (Suc i) k b1 q1 rh = Some (q', r)" "bi_ok q'" "bi_ok r" "\<not> m_negative r"
      "bi_val q' = bi_val q1 * int BASE ^ (k * Suc i) + int (magnitude rh div ?d)" "magnitude r = magnitude rh mod ?d"
    using Suc.IH [OF b1 q1(1) k(5)] by blast
  have "int (magnitude rem div ?d) = int (magnitude rem div (?d * ?x)) * int BASE ^ (k * Suc i) + int (magnitude rh div ?d)"
    using div_mod_split [OF assms(2), of "magnitude rem" ?x] by (simp only: k(7) mult.commute [of k] flip: of_nat_power of_nat_mult of_nat_add)
  then have "bi_val q' = bi_val q * int BASE ^ (k * Suc (Suc i)) + int (magnitude rem div ?d)"
    unfolding IH(5) q1(2) by (simp add: algebra_simps power_add)
  moreover have "magnitude r = magnitude rem mod ?d" using IH(6) k(7) by (simp add: mod_mult_right_eq mod_mod_cancel)
  ultimately show ?case using IH unfolding eq by blast
qed

lemma FastDivMod_val:
  assumes "bi_ok a" "bi_ok b" "0 < magnitude b" "magnitude b \<le> magnitude a" "\<not> m_negative q"
  shows "\<exists>q' r. FastDivMod a b q = Some (Inr (q', r)) \<and> bi_ok q' \<and> magnitude q' = magnitude a div magnitude b \<and>
    bi_ok r \<and> \<not> m_negative r \<and> magnitude r = magnitude a mod magnitude b"
proof -
  let ?n = "length (m_digits a)" and ?m = "length (m_digits b)"
  have guards: "\<not> (?m = 0 \<or> IsZero b)" "\<not> (?n < ?m \<or> IsZero a)"
    using assms trimmed_length [of "m_digits b" "m_digits a"] by (auto simp: bi_ok_def IsZero_iff)
  show ?thesis
  proof (cases "?n < 512 \<or> ?m < 32")
    case True
    then have "FastDivMod a b q = map_option Inr (KnuthDivMod a b q)"
      unfolding FastDivMod_def Let_def by (simp only: guards if_False if_True)
    with KnuthDivMod_val [OF assms(1-3), of q] show ?thesis by auto
  next
    case False
    define k where "k = (?m + 1) div 2"
    have "32 \<le> ?m" using False by linarith
    then have "0 < k" unfolding k_def by linarith
    then obtain ab bb where blocks: "split_blocks (Abs a) k 0 [] = Some ab" "split_blocks (Abs b) k 0 [] = Some bb"
      using split_blocks_returns by blast
    define t where "t = length ab - length bb"
    have "\<not> IsZero (Abs b)" using guards by (simp add: IsZero_def)
    then have "m_digits (shift_left_limbs (Abs b) (t * k)) = replicate (t * k) 0 @ m_digits b" by (simp add: shift_left_limbs_def)
    from FastDivMod_loop_val [OF assms(2, 3) this BigInt_int_0(1), of "Abs a"] assms(1)
    obtain q' r where l: "FastDivMod_loop (Suc t) k (shift_left_limbs (Abs b) (t * k)) (BigInt_int 0) (Abs a) = Some (q', r)" "bi_ok q'" "bi_ok r" "\<not> m_negative r"
        "bi_val q' = int (magnitude a div magnitude b)" "magnitude r = magnitude a mod magnitude b" by auto
    have "FastDivMod a b q = Some (Inr (Trim q', r))"
      unfolding FastDivMod_def Let_def using l(1)
      by (simp only: guards False if_False k_def [symmetric] blocks t_def [symmetric] Option.bind.bind_lunit prod.case Suc_eq_plus1)
    moreover have "bi_ok (Trim q')" using l(2) by (simp add: bi_ok_def)
    moreover have "magnitude q' = magnitude a div magnitude b" using l(5) magnitude_bi_val(2) [of q'] by simp
    ultimately show ?thesis using l by simp
  qed
qed

definition signed_quotient :: "BigInt \<Rightarrow> BigInt \<Rightarrow> BigInt \<Rightarrow> BigInt" where
  "signed_quotient a b q = q\<lparr>m_negative := (m_negative a \<noteq> m_negative b \<and> \<not> IsZero q)\<rparr>"

text \<open>
  What \<open>DivMod\<close> expects of the four algorithms: for a dividend that is not smaller in magnitude than
  the divisor, the quotient and the remainder of the magnitudes. The sign that \<open>DivMod\<close> puts on the
  quotient afterwards is then right for each of them.
\<close>

locale magnitude_divmod =
  fixes chosen :: "BigInt \<Rightarrow> BigInt \<Rightarrow> bool"
    and divmod :: "BigInt \<Rightarrow> BigInt \<Rightarrow> (math_error + BigInt \<times> BigInt) option"
  assumes divmod_magnitude: "\<lbrakk>chosen a b; bi_ok a; bi_ok b; 0 < magnitude b; magnitude b \<le> magnitude a\<rbrakk> \<Longrightarrow>
    \<exists>q r. divmod a b = Some (Inr (q, r)) \<and> bi_ok q \<and> magnitude q = magnitude a div magnitude b \<and>
      bi_ok r \<and> \<not> m_negative r \<and> magnitude r = magnitude a mod magnitude b"
begin

lemma divmod_signed:
  assumes "chosen a b" "bi_ok a" "bi_ok b" "0 < magnitude b" "magnitude b \<le> magnitude a"
  shows "\<exists>q r. divmod a b = Some (Inr (q, r)) \<and> canonical (signed_quotient a b q) \<and> magnitude (signed_quotient a b q) = magnitude a div magnitude b \<and>
    m_negative (signed_quotient a b q) = (m_negative a \<noteq> m_negative b) \<and> bi_ok r \<and> \<not> m_negative r \<and> magnitude r = magnitude a mod magnitude b"
proof -
  obtain q r where d: "divmod a b = Some (Inr (q, r))" "bi_ok q" "magnitude q = magnitude a div magnitude b" "bi_ok r" "\<not> m_negative r"
      "magnitude r = magnitude a mod magnitude b" using divmod_magnitude [OF assms] by blast
  have "0 < magnitude q" using d(3) assms(4, 5) by (simp add: div_greater_zero_iff)
  with d IsZero_iff [of q] show ?thesis by (auto simp: signed_quotient_def canonical_def bi_val_def)
qed

end

interpretation single_limb: magnitude_divmod "\<lambda>a b. length (m_digits b) = 1" "\<lambda>a b. map_option Inr (DivModBySingleLimb a (m_digits b ! 0))"
proof (unfold_locales, goal_cases)
  case (1 a b)
  then have "magnitude b = m_digits b ! 0" "m_digits b ! 0 < BASE" by (auto simp: length_Suc_conv bi_ok_def)
  with DivByUInt32_val [of "Abs a" "m_digits b ! 0"] 1 show ?case by (auto simp: DivModBySingleLimb_def)
qed

interpretation naive: magnitude_divmod "\<lambda>a b. True" "\<lambda>a b. map_option Inr (NaiveDivMod a b)"
proof (unfold_locales, goal_cases)
  case (1 a b)
  then obtain q r where "NaiveDivMod a b = Some (q, r)" "bi_ok q" "bi_ok r" "\<not> m_negative r" "bi_val q = int (magnitude a div magnitude b)"
      "magnitude r = magnitude a mod magnitude b"
    using NaiveDivMod_loop_val [of "Abs b" "BigInt_int 0" "Abs a"] by (auto simp: NaiveDivMod_def)
  with magnitude_bi_val(2) [of q] show ?case by auto
qed

interpretation knuth: magnitude_divmod "\<lambda>a b. True" "\<lambda>a b. map_option Inr (KnuthDivMod a b BigInt_zero)"
proof (unfold_locales, goal_cases)
  case (1 a b)
  with KnuthDivMod_val [of a b BigInt_zero] show ?case by auto
qed

interpretation fast: magnitude_divmod "\<lambda>a b. True" "\<lambda>a b. FastDivMod a b BigInt_zero"
proof (unfold_locales, goal_cases)
  case (1 a b)
  with FastDivMod_val [of a b BigInt_zero] show ?case by simp
qed

interpretation dispatch: magnitude_divmod "\<lambda>a b. True"
  "\<lambda>a b. if length (m_digits b) = 1 then map_option Inr (DivModBySingleLimb a (m_digits b ! 0))
         else if length (m_digits a) \<le> 4 \<and> length (m_digits b) \<le> 4 then map_option Inr (NaiveDivMod a b)
         else if length (m_digits a) < 256 \<and> length (m_digits b) < 256 then map_option Inr (KnuthDivMod a b BigInt_zero)
         else FastDivMod a b BigInt_zero"
proof (unfold_locales, goal_cases)
  case (1 a b)
  then show ?case
    using single_limb.divmod_magnitude [of b a] naive.divmod_magnitude [of a b] knuth.divmod_magnitude [of a b] fast.divmod_magnitude [of a b]
    by (cases "length (m_digits b) = 1"; cases "length (m_digits a) \<le> 4 \<and> length (m_digits b) \<le> 4";
        cases "length (m_digits a) < 256 \<and> length (m_digits b) < 256") (simp_all only: if_True if_False simp_thms)
qed

lemma DivMod_val:
  assumes "bi_ok a" "bi_ok b" "magnitude b \<noteq> 0"
  shows "\<exists>q r. DivMod a b BigInt_zero = Some (Inr (q, r)) \<and> canonical q \<and> magnitude q = magnitude a div magnitude b \<and>
    (magnitude q \<noteq> 0 \<longrightarrow> m_negative q = (m_negative a \<noteq> m_negative b)) \<and> bi_ok r \<and>
    (if magnitude a \<noteq> 0 \<and> magnitude a < magnitude b then r = a else \<not> m_negative r \<and> magnitude r = magnitude a mod magnitude b)"
proof -
  have b: "\<not> IsZero b" using assms by (simp add: IsZero_iff)
  consider (zero) "IsZero a" | (less) "\<not> IsZero a" "AbsLess (Abs a) (Abs b)" | (ge) "\<not> IsZero a" "\<not> AbsLess (Abs a) (Abs b)" by blast
  then show ?thesis
  proof cases
    case zero
    with b assms show ?thesis by (simp add: DivMod_def canonical_def IsZero_iff)
  next
    case less
    with b assms AbsLess_iff [of "Abs a" "Abs b"] show ?thesis by (simp add: DivMod_def canonical_def IsZero_iff)
  next
    case ge
    then have le: "magnitude b \<le> magnitude a" using assms AbsLess_iff [of "Abs a" "Abs b"] by simp
    from dispatch.divmod_signed [OF TrueI assms(1, 2) _ le] assms(3) obtain q r where
      d: "(if length (m_digits b) = 1 then map_option Inr (DivModBySingleLimb a (m_digits b ! 0))
         else if length (m_digits a) \<le> 4 \<and> length (m_digits b) \<le> 4 then map_option Inr (NaiveDivMod a b)
         else if length (m_digits a) < 256 \<and> length (m_digits b) < 256 then map_option Inr (KnuthDivMod a b BigInt_zero)
         else FastDivMod a b BigInt_zero) = Some (Inr (q, r))"
      and q: "canonical (signed_quotient a b q)" "magnitude (signed_quotient a b q) = magnitude a div magnitude b"
        "m_negative (signed_quotient a b q) = (m_negative a \<noteq> m_negative b)"
      and r: "bi_ok r" "\<not> m_negative r" "magnitude r = magnitude a mod magnitude b" by auto
    have "DivMod a b BigInt_zero = Some (Inr (signed_quotient a b q, r))"
      unfolding DivMod_def Let_def d using b ge by (simp add: signed_quotient_def)
    with q r le show ?thesis by auto
  qed
qed

section \<open>Text\<close>

definition digits_of :: "string \<Rightarrow> nat list" where
  "digits_of tx = map (the \<circ> digit_value) tx"

definition decimal :: "string \<Rightarrow> nat" where
  "decimal tx = be_val 10 0 (digits_of tx)"

definition numeral_text :: "string \<Rightarrow> bool" where
  "numeral_text tx \<longleftrightarrow> tx \<noteq> [] \<and> (\<forall>c\<in>set tx. is_digit 10 c)"

lemma digits_of_append [simp]: "digits_of (xs @ ys) = digits_of xs @ digits_of ys" "digits_of [] = []" "length (digits_of xs) = length xs"
  by (simp_all add: digits_of_def)

lemma be_val_shift: "be_val B v ds = v * B ^ length ds + be_val B 0 ds"
proof (induction ds arbitrary: v)
  case (Cons d ds)
  from Cons [of "v * B + d mod B"] Cons [of "d mod B"] show ?case by (simp add: algebra_simps)
qed simp

lemma decimal_append: "decimal (xs @ ys) = decimal xs * 10 ^ length ys + decimal ys"
  using be_val_shift [of 10 "be_val 10 0 (digits_of xs)" "digits_of ys"] by (simp add: decimal_def)

lemma decimal_less: "decimal tx < 10 ^ length tx"
  using be_val_less [of 10 0 "digits_of tx"] by (simp add: decimal_def)

lemma char_int_digit: "is_digit 10 c \<Longrightarrow> char_int c - 48 = int (the (digit_value c)) \<and> the (digit_value c) < 10"
  by (auto simp: is_digit_def digit_value_def char_int_def char_arith of_nat_diff split: if_splits)

lemma ParseBlock_val:
  "i \<le> length s \<Longrightarrow> \<forall>k. j \<le> k \<and> k < i \<longrightarrow> is_digit 10 (s ! k) \<Longrightarrow> be_val 10 block (digits_of (substr s j (i - j))) < 2 ^ 32 \<Longrightarrow>
   ParseBlock s j i block = be_val 10 block (digits_of (substr s j (i - j)))"
proof (induction "i - j" arbitrary: j block)
  case 0
  then show ?case by (simp add: ParseBlock.simps [of s j i block] substr_def)
next
  case (Suc n)
  then have j: "j < i" "j < length s" by simp_all
  let ?d = "the (digit_value (s ! j))"
  have d: "char_int (s ! j) - 48 = int ?d" "?d < 10" using char_int_digit [of "s ! j"] Suc.prems(2) j by auto
  have "substr s j (Suc m) = s ! j # substr s (j + 1) m" for m using j by (simp add: substr_def Cons_nth_drop_Suc [symmetric])
  from this [of "i - (j + 1)"] have "substr s j (i - j) = s ! j # substr s (j + 1) (i - (j + 1))"
    using j by (simp add: Suc_diff_Suc)
  then have eq: "be_val 10 block (digits_of (substr s j (i - j))) = be_val 10 (block * 10 + ?d) (digits_of (substr s (j + 1) (i - (j + 1))))"
    using d(2) by (simp add: digits_of_def)
  have "block * 10 + ?d \<le> be_val 10 block (digits_of (substr s j (i - j)))" unfolding eq by (rule be_val_ge) simp
  with Suc.prems(3) have "block * 10 + ?d < 2 ^ 32" by linarith
  then have w: "nat ((int block * 10 + int ?d) mod 2 ^ 32) = block * 10 + ?d"
    using zmod_int [of "block * 10 + ?d" "2 ^ 32"] by simp
  have "ParseBlock s j i block = ParseBlock s (j + 1) i (block * 10 + ?d)"
    using j by (subst ParseBlock.simps) (simp only: if_True d(1) w)
  also have "\<dots> = be_val 10 (block * 10 + ?d) (digits_of (substr s (j + 1) (i - (j + 1))))"
    using Suc.hyps(1) [of "j + 1" "block * 10 + ?d"] Suc.hyps(2) Suc.prems j unfolding eq by simp
  finally show ?case unfolding eq .
qed

lemma ParseBlocks_val:
  "start \<le> i \<Longrightarrow> i \<le> length s \<Longrightarrow> \<forall>k. start \<le> k \<and> k < i \<longrightarrow> is_digit 10 (s ! k) \<Longrightarrow> limbs_ok temp \<Longrightarrow>
   limbs_ok (ParseBlocks s start i temp) \<and> (start < i \<longrightarrow> ParseBlocks s start i temp \<noteq> []) \<and>
   (temp \<noteq> [] \<longrightarrow> ParseBlocks s start i temp \<noteq> []) \<and>
   limbs_val (ParseBlocks s start i temp) = limbs_val temp + BASE ^ length temp * decimal (substr s start (i - start))"
proof (induction i arbitrary: temp rule: less_induct)
  case (less i)
  show ?case
  proof (cases "start < i")
    case False
    then have "ParseBlocks s start i temp = temp" by (subst ParseBlocks.simps) simp
    with False less.prems show ?thesis by (simp add: substr_def decimal_def)
  next
    case True
    define m where "m = max start (i - BASE_DIGITS)"
    have m: "start \<le> m" "m < i" "i - m \<le> 9" using True by (auto simp: m_def BASE_DIGITS_def)
    define t where "t = substr s m (i - m)"
    have lt: "length t = i - m" using m less.prems by (simp add: t_def substr_def)
    have "decimal t < 10 ^ (i - m)" using decimal_less [of t] lt by simp
    also have "(10 :: nat) ^ (i - m) \<le> 10 ^ 9" using m(3) by (intro power_increasing) simp_all
    finally have t: "decimal t < BASE" by (simp add: BASE_def)
    have block: "ParseBlock s m i 0 = decimal t"
      using ParseBlock_val [of i s m 0] t less.prems m by (simp add: decimal_def t_def BASE_def)
    have eq: "ParseBlocks s start i temp = ParseBlocks s start (i - BASE_DIGITS) (temp @ [decimal t])"
      using True block by (subst ParseBlocks.simps) (simp add: m_def)
    have split: "substr s start (i - start) = substr s start (m - start) @ t"
      using m take_add [of "m - start" "i - m" "drop start s"] by (simp add: t_def substr_def)
    show ?thesis
    proof (cases "start + BASE_DIGITS \<le> i")
      case True
      then have ms: "m = i - BASE_DIGITS" by (simp add: m_def)
      then have "i - m = 9" using True by (simp add: BASE_DIGITS_def)
      then have dec: "decimal (substr s start (i - start)) = decimal (substr s start (m - start)) * BASE + decimal t"
        unfolding split decimal_append by (simp add: lt BASE_def)
      have IH: "limbs_ok (ParseBlocks s start i temp) \<and> ParseBlocks s start i temp \<noteq> [] \<and>
          limbs_val (ParseBlocks s start i temp) = limbs_val (temp @ [decimal t]) + BASE ^ length (temp @ [decimal t]) * decimal (substr s start (m - start))"
        using less.IH [of m "temp @ [decimal t]"] m less.prems t unfolding eq ms [symmetric] by auto
      then show ?thesis unfolding dec by (auto simp: algebra_simps)
    next
      case False
      then have "m = start" by (simp add: m_def)
      then have "substr s start (i - start) = t" by (simp add: t_def)
      moreover have "ParseBlocks s start i temp = temp @ [decimal t]"
        unfolding eq using False by (subst ParseBlocks.simps) (simp add: less_diff_conv)
      ultimately show ?thesis using less.prems t by simp
    qed
  qed
qed

lemma digit_not_minus: "is_digit 10 c \<Longrightarrow> c \<noteq> CHR ''-''" "is_digit 10 c \<Longrightarrow> c \<noteq> chr 0"
  by (auto simp: is_digit_def digit_value_def char_arith)

lemma BigInt_cstr_parts:
  assumes "numeral_text tx" "s = tx \<or> s = CHR ''-'' # tx"
  shows "canonical (BigInt_cstr (Some s))" "bi_val (BigInt_cstr (Some s)) = (if hd s = CHR ''-'' then - int (decimal tx) else int (decimal tx))"
proof -
  define start where "start = (if hd s = CHR ''-'' then 1 else 0 :: nat)"
  define ds where "ds = ParseBlocks s start (length s) []"
  have hd: "hd tx \<noteq> CHR ''-''" using assms(1) digit_not_minus [of "hd tx"] by (simp add: numeral_text_def)
  have s: "s \<noteq> []" "substr s start (length s - start) = tx" "start < length s"
    using assms hd by (auto simp: start_def substr_def numeral_text_def)
  have "is_digit 10 (s ! k)" if "start \<le> k" "k < length s" for k
    using assms that hd by (auto simp: start_def numeral_text_def nth_Cons' all_set_conv_all_nth split: if_splits)
  then have ds: "limbs_ok ds" "ds \<noteq> []" "limbs_val ds = decimal tx"
    using ParseBlocks_val [of start "length s" s "[]"] s by (simp_all add: ds_def)
  define x where "x = Trim \<lparr>m_digits = ds, m_negative = (hd s = CHR ''-'')\<rparr>"
  have x: "bi_ok x" "magnitude x = decimal tx" "m_negative x = (hd s = CHR ''-'')" using ds by (simp_all add: x_def bi_ok_mk)
  have eq: "BigInt_cstr (Some s) = (if IsZero x then x\<lparr>m_negative := False\<rparr> else x)"
    using s(1) by (simp add: BigInt_cstr_def Let_def x_def ds_def start_def)
  show "canonical (BigInt_cstr (Some s))" using x IsZero_iff [OF x(1)] by (auto simp: eq canonical_def bi_val_def)
  show "bi_val (BigInt_cstr (Some s)) = (if hd s = CHR ''-'' then - int (decimal tx) else int (decimal tx))"
    using x IsZero_iff [OF x(1)] by (auto simp: eq bi_val_def)
qed

lemma decimal_to_chars [simp]: "decimal (to_chars 10 n) = n"
  by (simp add: decimal_def digits_of_def to_chars_value)

lemma print_padded_val:
  assumes "limb < BASE"
  shows "length (print_padded limb) = 9" "decimal (print_padded limb) = limb" "\<forall>c\<in>set (print_padded limb). is_digit 10 c"
proof -
  have l: "length (to_chars 10 limb) \<le> 9" using assms length_to_chars [of 10 limb 9] by (simp add: BASE_def)
  then show "length (print_padded limb) = 9" by (simp add: print_padded_def BASE_DIGITS_def)
  have "decimal (replicate n CHR ''0'') = 0" for n
    by (induction n) (simp_all add: decimal_def digits_of_def digit_value_def char_arith)
  then show "decimal (print_padded limb) = limb" by (simp add: print_padded_def decimal_append)
  have "is_digit 10 (CHR ''0'')" by (simp add: is_digit_def digit_value_def char_arith)
  then show "\<forall>c\<in>set (print_padded limb). is_digit 10 c" using to_chars_digits [of 10 limb] by (auto simp: print_padded_def)
qed

lemma print_blocks_val:
  "limbs_ok ls \<Longrightarrow> decimal (tx @ concat (map print_padded (rev ls))) = decimal tx * BASE ^ length ls + limbs_val ls"
proof (induction ls)
  case (Cons l ls)
  have "(10::nat) ^ 9 = BASE" by (simp add: BASE_def)
  then have "decimal (tx @ concat (map print_padded (rev (l # ls)))) = decimal (tx @ concat (map print_padded (rev ls))) * BASE + l"
    using decimal_append [of "tx @ concat (map print_padded (rev ls))" "print_padded l"] print_padded_val [of l] Cons.prems by simp
  with Cons show ?case by (simp add: algebra_simps)
qed simp

text \<open>The output operator writes the decimal numeral of the value.\<close>

lemma print_exact:
  assumes "bi_ok x"
  shows "print x = (if bi_val x < 0 then ''-'' else []) @ to_chars 10 (nat \<bar>bi_val x\<bar>)"
proof -
  obtain l ls where ds: "m_digits x = ls @ [l]" using assms by (cases "m_digits x" rule: rev_cases) (auto simp: bi_ok_def)
  define body where "body = to_chars 10 l @ concat (map print_padded (rev ls))"
  have ok: "l < BASE" "limbs_ok ls" using assms ds by (auto simp: bi_ok_def)
  have "decimal body = magnitude x" using print_blocks_val [OF ok(2), of "to_chars 10 l"] by (simp add: body_def ds algebra_simps)
  moreover have "\<forall>c\<in>set body. is_digit 10 c" using to_chars_digits [of 10 l] print_padded_val(3) ok by (auto simp: body_def limbs_ok_def)
  moreover have "body \<noteq> []" by (simp add: body_def)
  moreover have "hd body \<noteq> CHR ''0''" if "1 < length body"
  proof (cases "1 < length (to_chars 10 l)")
    case False
    then have "ls \<noteq> []" using that by (auto simp: body_def)
    then have "l \<noteq> 0" using assms ds by (auto simp: bi_ok_def trimmed_def)
    have "length (to_chars 10 l) = 1" using False to_chars_nonempty [of 10 l] by (cases "to_chars 10 l") simp_all
    then have "to_chars 10 l = [hd (to_chars 10 l)]" by (cases "to_chars 10 l") auto
    moreover have "decimal [CHR ''0''] = 0" by (simp add: decimal_def digits_of_def digit_value_def char_arith)
    ultimately have "hd (to_chars 10 l) \<noteq> CHR ''0''" using \<open>l \<noteq> 0\<close> decimal_to_chars [of l] by metis
    then show ?thesis by (simp add: body_def)
  qed (use to_chars_hd [of 10 l] in \<open>simp add: body_def\<close>)
  ultimately have "body = to_chars 10 (magnitude x)"
    using to_chars_unique [of body] by (simp add: decimal_def digits_of_def)
  moreover have "print x = (if m_negative x \<and> \<not> IsZero x then ''-'' else []) @ body" by (simp add: print_def ds body_def)
  ultimately show ?thesis using IsZero_iff [OF assms] by (auto simp: bi_val_def)
qed

lemma numeral_hd: "numeral_text tx \<Longrightarrow> hd tx \<noteq> CHR ''-''"
  using digit_not_minus(1) [of "hd tx"] by (simp add: numeral_text_def)

lemma parse_exact:
  assumes "numeral_text tx"
  shows "canonical (BigInt_cstr (Some tx)) \<and> bi_val (BigInt_cstr (Some tx)) = int (decimal tx) \<and>
    canonical (BigInt_cstr (Some (CHR ''-'' # tx))) \<and> bi_val (BigInt_cstr (Some (CHR ''-'' # tx))) = - int (decimal tx)"
  using BigInt_cstr_parts [OF assms, of tx] BigInt_cstr_parts [OF assms, of "CHR ''-'' # tx"] numeral_hd [OF assms] by simp

lemma numeral_string:
  assumes "numeral_text tx"
  shows "BigInt_string tx = BigInt_cstr (Some tx)" "BigInt_string (CHR ''-'' # tx) = BigInt_cstr (Some (CHR ''-'' # tx))"
proof -
  have "CHR ''-'' \<noteq> chr 0" by code_simp
  then have "\<forall>c\<in>set (CHR ''-'' # tx). c \<noteq> chr 0" using assms digit_not_minus(2) by (auto simp: numeral_text_def)
  then have "takeWhile (\<lambda>c. c \<noteq> chr 0) tx = tx" "takeWhile (\<lambda>c. c \<noteq> chr 0) (CHR ''-'' # tx) = CHR ''-'' # tx"
    by (simp_all only: takeWhile_eq_all_conv list.set_intros(2)) simp
  then show "BigInt_string tx = BigInt_cstr (Some tx)" "BigInt_string (CHR ''-'' # tx) = BigInt_cstr (Some (CHR ''-'' # tx))" by (simp_all only: BigInt_string_def)
qed

text \<open>A minus sign alone gives a number without digits.\<close>

lemma BigInt_minus: "\<not> canonical (BigInt_cstr (Some ''-''))"
proof -
  have "ParseBlocks ''-'' 1 1 [] = []" by (subst ParseBlocks.simps) simp
  then show ?thesis by (simp add: BigInt_cstr_def canonical_def bi_ok_def Trim_def IsZero_def Let_def)
qed

lemma parse_print:
  assumes "canonical x"
  shows "BigInt_string (print x) = x"
proof -
  define tx where "tx = to_chars 10 (nat \<bar>bi_val x\<bar>)"
  have tx: "numeral_text tx" "decimal tx = nat \<bar>bi_val x\<bar>" using to_chars_digits [of 10] by (simp_all add: numeral_text_def tx_def)
  have p: "print x = (if bi_val x < 0 then ''-'' else []) @ tx" using print_exact [of x] assms by (simp add: canonical_def tx_def)
  have "CHR ''-'' \<noteq> chr 0" by code_simp
  then have "\<forall>c\<in>set (print x). c \<noteq> chr 0" using tx(1) digit_not_minus(2) unfolding p by (auto simp: numeral_text_def)
  then have "takeWhile (\<lambda>c. c \<noteq> chr 0) (print x) = print x" by (rule takeWhile_eq_all_conv [THEN iffD2])
  then have eq: "BigInt_string (print x) = BigInt_cstr (Some (print x))" by (simp only: BigInt_string_def)
  have "canonical (BigInt_cstr (Some (print x)))" "bi_val (BigInt_cstr (Some (print x))) = bi_val x"
    using BigInt_cstr_parts [OF tx(1), of "print x"] numeral_hd [OF tx(1)] tx(2) unfolding p by (auto split: if_splits)
  with assms show ?thesis unfolding eq by (intro canonical_eq) simp_all
qed

section \<open>Properties\<close>

lemma canonical_negate: "canonical x \<Longrightarrow> canonical (negate x)"
  by (auto simp: canonical_def bi_val_negate) (auto simp: negate_def IsZero_iff bi_val_def)

lemma canonical_subtract_nonneg:
  assumes "bi_ok a" "bi_ok b" "\<not> m_negative a" "\<not> m_negative b"
  shows "canonical (subtract a b)"
proof (cases "magnitude b \<le> magnitude a")
  case True
  with assms subtract_val [of a b] subtract_nonneg [of a b] show ?thesis by (simp add: canonical_def)
next
  case False
  with assms subtract_val [of a b] show ?thesis by (simp add: canonical_def bi_val_def [of a] bi_val_def [of b])
qed

lemma canonical_add:
  assumes "canonical a" "canonical b"
  shows "canonical (add a b)"
proof -
  have ok: "bi_ok a" "bi_ok b" using assms by (simp_all add: canonical_def)
  consider "m_negative a = m_negative b" | "m_negative a" "\<not> m_negative b" | "\<not> m_negative a" "m_negative b" by blast
  then show ?thesis
  proof cases
    case 1
    then have "m_negative (add a b) = m_negative a" by (subst add.simps) simp
    with add_val [OF ok] 1 assms show ?thesis by (auto simp: canonical_def bi_val_def [of a] bi_val_def [of b] split: if_splits)
  next
    case 2
    then have "add a b = subtract b (negate a)" by (subst add.simps) simp
    with canonical_subtract_nonneg [of b "negate a"] ok 2 show ?thesis by (simp add: negate_sign)
  next
    case 3
    then have "add a b = subtract a (negate b)" by (subst add.simps) simp
    with canonical_subtract_nonneg [of a "negate b"] ok 3 show ?thesis by (simp add: negate_sign)
  qed
qed

lemma subtract_sign:
  assumes "canonical a" "canonical b"
  shows "canonical (subtract a b) \<longleftrightarrow> \<not> (m_negative a \<and> bi_val a = bi_val b)"
proof -
  have ok: "bi_ok a" "bi_ok b" using assms by (simp_all add: canonical_def)
  show ?thesis
  proof (cases "m_negative a = m_negative b")
    case True
    have "m_negative (subtract a b) = (if AbsLess a b then \<not> m_negative a else m_negative a)"
      using True by (subst subtract.simps) simp
    with subtract_val [OF ok] True AbsLess_iff [OF ok] show ?thesis
      by (auto simp: canonical_def bi_val_def [of a] bi_val_def [of b] split: if_splits)
  next
    case False
    then have "subtract a b = (if m_negative a then negate (add (negate a) b) else add a (negate b))"
      by (subst subtract.simps) simp
    then have "canonical (subtract a b)" using assms by (simp add: canonical_negate canonical_add)
    moreover have "\<not> (m_negative a \<and> bi_val a = bi_val b)" using False assms by (auto simp: canonical_def bi_val_def split: if_splits)
    ultimately show ?thesis by simp
  qed
qed

lemma smod_val: "bi_val a smod bi_val b = (if m_negative a then - int (magnitude a mod magnitude b) else int (magnitude a mod magnitude b))"
proof -
  have "int (magnitude a) = int (magnitude b) * (int (magnitude a) div int (magnitude b)) + int (magnitude a) mod int (magnitude b)" by simp
  then show ?thesis by (auto simp: signed_modulo_int_def signed_divide_int_def bi_val_def sgn_if zmod_int algebra_simps)
qed

text \<open>
  C26: The operators compute with the integers that the representations stand for. On well-formed
  operands of any size and sign, unary minus, +, - and * give well-formed results with the value of
  the operation on \<^typ>\<open>int\<close>; the multiplication, schoolbook or Karatsuba, returns, so no access
  leaves a vector and no intermediate result wraps around.
\<close>

theorem BigInt_arithmetic:
  assumes "bi_ok a" "bi_ok b"
  shows "bi_ok (negate a) \<and> bi_val (negate a) = - bi_val a \<and>
    bi_ok (add a b) \<and> bi_val (add a b) = bi_val a + bi_val b \<and>
    bi_ok (subtract a b) \<and> bi_val (subtract a b) = bi_val a - bi_val b \<and>
    (\<exists>p. multiply a b = Some p \<and> bi_ok p \<and> bi_val p = bi_val a * bi_val b)"
  using assms add_val [OF assms] subtract_val [OF assms] multiply_val [OF assms] bi_val_negate [of a] by auto

theorem BigInt_arithmetic_witness:
  "\<exists>p. multiply (BigInt_int 7) (BigInt_int (-6)) = Some p \<and> bi_val p = -42"
proof -
  have v: "canonical (BigInt_int 7) \<and> bi_val (BigInt_int 7) = 7" "canonical (BigInt_int (-6)) \<and> bi_val (BigInt_int (-6)) = -6"
    using BigInt_int_val [of 7] BigInt_int_val [of "-6"] by simp_all
  then have "bi_ok (BigInt_int 7)" "bi_ok (BigInt_int (-6))" by (simp_all add: canonical_def)
  from BigInt_arithmetic [OF this] v show ?thesis by auto
qed

text \<open>
  Both multiplication algorithms are the product of the values: for limbs below the base, with or
  without leading zeros, \<open>MultiplyDigits\<close> returns the limbs of the product without leading zeros.
\<close>

lemma MultiplyDigits_exact:
  assumes "limbs_ok a" "limbs_ok b"
  shows "\<exists>r. MultiplyDigits a b = Some r \<and> limbs_ok r \<and> trimmed r \<and> limbs_val r = limbs_val a * limbs_val b"
  using MultiplyDigits_val [OF assms] by blast

lemma MultiplyDigits_exact_witness:
  "\<exists>r. MultiplyDigits (replicate 40 1) (replicate 40 2) = Some r \<and> limbs_val r = limbs_val (replicate 40 1) * limbs_val (replicate 40 2)"
proof -
  have "limbs_ok (replicate 40 1)" "limbs_ok (replicate 40 2)" by (simp_all add: limbs_ok_def BASE_def)
  from MultiplyDigits_exact [OF this] show ?thesis by blast
qed

text \<open>
  C27: Division truncates towards zero for all the algorithms (single limb, repeated subtraction,
  digit search, blocks), and all of them return. The remainder has the sign of the dividend, as the
  comment says, except when the dividend is negative and smaller in magnitude than the divisor: then
  \<open>operator%\<close> negates it twice and returns its absolute value. A zero divisor is an error.
\<close>

theorem BigInt_division:
  assumes "bi_ok a" "bi_ok b"
  shows "if bi_val b = 0
    then divide a b = Some (Inl (runtime_error ''Division by zero'')) \<and> modulo a b = Some (Inl (runtime_error ''Modulo by zero''))
    else (\<exists>q r. divide a b = Some (Inr q) \<and> canonical q \<and> bi_val q = bi_val a sdiv bi_val b \<and>
      modulo a b = Some (Inr r) \<and> bi_ok r \<and>
      bi_val r = (if bi_val a < 0 \<and> \<bar>bi_val a\<bar> < \<bar>bi_val b\<bar> then - bi_val a else bi_val a smod bi_val b))"
proof (cases "bi_val b = 0")
  case True
  then show ?thesis using assms by (simp add: divide_def modulo_def IsZero_iff magnitude_bi_val)
next
  case False
  then have m: "magnitude b \<noteq> 0" by (simp add: magnitude_bi_val)
  then have b: "\<not> IsZero b" using assms by (simp add: IsZero_iff)
  obtain q r where d: "DivMod a b BigInt_zero = Some (Inr (q, r))" "canonical q" "magnitude q = magnitude a div magnitude b"
      "magnitude q \<noteq> 0 \<longrightarrow> m_negative q = (m_negative a \<noteq> m_negative b)" "bi_ok r"
      "if magnitude a \<noteq> 0 \<and> magnitude a < magnitude b then r = a else \<not> m_negative r \<and> magnitude r = magnitude a mod magnitude b"
    using DivMod_val [OF assms m] by blast
  define s where "s = (if m_negative a \<and> \<not> IsZero r then negate r else r)"
  have eqs: "divide a b = Some (Inr q)" "modulo a b = Some (Inr s)" using b d(1) by (simp_all add: divide_def modulo_def s_def)
  have qi: "int (magnitude a) div int (magnitude b) = int (magnitude q)" by (simp add: d(3) zdiv_int)
  have q: "bi_val q = bi_val a sdiv bi_val b"
    using d(3, 4) m qi by (cases "magnitude a = 0"; cases "magnitude q = 0") (auto simp: signed_divide_int_def bi_val_def sgn_if)
  have s: "bi_ok s" "bi_val s = (if m_negative a then - bi_val r else bi_val r)"
    using d(5) magnitude_bi_val(1) [of r] by (auto simp: s_def bi_val_negate IsZero_iff)
  have "bi_val s = (if bi_val a < 0 \<and> \<bar>bi_val a\<bar> < \<bar>bi_val b\<bar> then - bi_val a else bi_val a smod bi_val b)"
  proof (cases "magnitude a \<noteq> 0 \<and> magnitude a < magnitude b")
    case True
    with d(6) have "r = a" by simp
    with True show ?thesis unfolding s(2) smod_val by (auto simp: bi_val_def)
  next
    case False
    with d(6) have r: "\<not> m_negative r" "magnitude r = magnitude a mod magnitude b" by auto
    have "\<not> (bi_val a < 0 \<and> \<bar>bi_val a\<bar> < \<bar>bi_val b\<bar>)" using False by (auto simp: bi_val_def split: if_splits)
    moreover have "bi_val s = bi_val a smod bi_val b" using r unfolding s(2) smod_val by (simp add: bi_val_def)
    ultimately show ?thesis by (simp only: if_False)
  qed
  with False eqs d(2) q s(1) show ?thesis by auto
qed

theorem BigInt_division_witness:
  "\<exists>q r. divide (BigInt_int (-7)) (BigInt_int 2) = Some (Inr q) \<and> bi_val q = -3 \<and>
     modulo (BigInt_int (-7)) (BigInt_int 2) = Some (Inr r) \<and> bi_val r = -1"
proof -
  have v: "canonical (BigInt_int (-7)) \<and> bi_val (BigInt_int (-7)) = -7" "canonical (BigInt_int 2) \<and> bi_val (BigInt_int 2) = 2"
    using BigInt_int_val [of "-7"] BigInt_int_val [of 2] by simp_all
  then have "bi_ok (BigInt_int (-7))" "bi_ok (BigInt_int 2)" by (simp_all add: canonical_def)
  from BigInt_division [OF this] v show ?thesis by (auto simp: signed_divide_int_def signed_modulo_int_def)
qed

text \<open>
  C28: The output operator writes the decimal numeral of the value, and the constructor from text
  reads every optionally negated numeral, with leading zeros or not, to the canonical representation of
  its value; so reading what was written gives the number back.
\<close>

theorem BigInt_text_roundtrip:
  "(bi_ok x \<longrightarrow> print x = (if bi_val x < 0 then ''-'' else []) @ to_chars 10 (nat \<bar>bi_val x\<bar>)) \<and>
   (numeral_text tx \<longrightarrow> canonical (BigInt_cstr (Some tx)) \<and> bi_val (BigInt_cstr (Some tx)) = int (decimal tx) \<and>
      canonical (BigInt_cstr (Some (CHR ''-'' # tx))) \<and> bi_val (BigInt_cstr (Some (CHR ''-'' # tx))) = - int (decimal tx)) \<and>
   (canonical x \<longrightarrow> BigInt_string (print x) = x)"
  using print_exact parse_exact parse_print by blast

theorem BigInt_text_roundtrip_witness: "BigInt_string (print (BigInt_int (-120))) = BigInt_int (-120)"
  using BigInt_text_roundtrip [of "BigInt_int (-120)"] BigInt_int_val [of "-120"] by simp

text \<open>
  C29: Canonical representations, in which zero is not negative, are what the comparison operators
  need: on them all six agree with the integers. Every constructor from an integer builds one, and those from text do for the null
  pointer, the empty text and decimal numerals with or without a minus sign, but not for a minus sign alone. Unary minus and +
  keep them. Subtraction and multiplication keep them except for a negative zero, which they
  build exactly when equal negative numbers are subtracted, and when zero is multiplied by a number
  of the other sign; such a result is not equal to zero for the operator ==.
\<close>

theorem BigInt_canonical:
  assumes "canonical a" "canonical b" "\<bar>n\<bar> \<le> 2 ^ 31" "- (2 ^ 63) \<le> l" "l < 2 ^ 63"
  shows "(equals a b \<longleftrightarrow> bi_val a = bi_val b) \<and> (not_equals a b \<longleftrightarrow> bi_val a \<noteq> bi_val b) \<and> (less_than a b \<longleftrightarrow> bi_val a < bi_val b) \<and>
    (greater_than a b \<longleftrightarrow> bi_val a > bi_val b) \<and> (at_most a b \<longleftrightarrow> bi_val a \<le> bi_val b) \<and> (at_least a b \<longleftrightarrow> bi_val a \<ge> bi_val b) \<and>
    canonical (BigInt_int n) \<and> canonical (BigInt_Int64 l) \<and> canonical (BigInt_UInt64 u) \<and> canonical (BigInt_UInt32 w) \<and> canonical BigInt_zero \<and>
    canonical (BigInt_cstr None) \<and> canonical (BigInt_cstr (Some [])) \<and>
    (numeral_text tx \<longrightarrow> canonical (BigInt_cstr (Some tx)) \<and> canonical (BigInt_cstr (Some (CHR ''-'' # tx))) \<and> canonical (BigInt_string tx) \<and>
       canonical (BigInt_string (CHR ''-'' # tx))) \<and>
    \<not> canonical (BigInt_cstr (Some ''-'')) \<and>
    canonical (negate a) \<and> canonical (add a b) \<and>
    (canonical (subtract a b) \<longleftrightarrow> \<not> (bi_val a < 0 \<and> bi_val a = bi_val b)) \<and>
    (\<exists>p. multiply a b = Some p \<and> (canonical p \<longleftrightarrow> \<not> (m_negative a \<noteq> m_negative b \<and> (bi_val a = 0 \<or> bi_val b = 0)))) \<and>
    (bi_val a < 0 \<longrightarrow> bi_val (subtract a a) = 0 \<and> \<not> equals (subtract a a) BigInt_zero)"
proof -
  have ok: "bi_ok a" "bi_ok b" using assms by (simp_all add: canonical_def)
  have neg: "m_negative a \<longleftrightarrow> bi_val a < 0" using assms(1) by (auto simp: canonical_def bi_val_def)
  obtain p where "multiply a b = Some p" "bi_ok p" "bi_val p = bi_val a * bi_val b" "m_negative p = (m_negative a \<noteq> m_negative b)"
    using multiply_val [OF ok] by blast
  then have prod: "\<exists>p. multiply a b = Some p \<and> (canonical p \<longleftrightarrow> \<not> (m_negative a \<noteq> m_negative b \<and> (bi_val a = 0 \<or> bi_val b = 0)))"
    by (auto simp: canonical_def)
  have zero: "bi_val a < 0 \<longrightarrow> bi_val (subtract a a) = 0 \<and> \<not> equals (subtract a a) BigInt_zero"
  proof
    assume "bi_val a < 0"
    then have "m_negative (subtract a a)" using neg AbsLess_iff [OF ok(1) ok(1)] by (subst subtract.simps) simp
    then show "bi_val (subtract a a) = 0 \<and> \<not> equals (subtract a a) BigInt_zero"
      using subtract_val(2) [OF ok(1) ok(1)] by (simp add: equals_def)
  qed
  have cmp: "equals a b \<longleftrightarrow> bi_val a = bi_val b" "not_equals a b \<longleftrightarrow> bi_val a \<noteq> bi_val b" "less_than a b \<longleftrightarrow> bi_val a < bi_val b"
    "greater_than a b \<longleftrightarrow> bi_val a > bi_val b" "at_most a b \<longleftrightarrow> bi_val a \<le> bi_val b" "at_least a b \<longleftrightarrow> bi_val a \<ge> bi_val b"
    using equals_iff less_than_iff assms(1, 2) by (simp_all add: at_most_def at_least_def greater_than_def not_equals_def not_less)
  have ctor: "canonical (BigInt_int n)" "canonical (BigInt_UInt32 w)" "canonical BigInt_zero"
    using BigInt_int_val [of n] assms(3) by (simp_all add: canonical_def [of "BigInt_UInt32 w"] canonical_def [of BigInt_zero])
  have texts: "canonical (BigInt_cstr None)" "canonical (BigInt_cstr (Some []))" "\<not> canonical (BigInt_cstr (Some ''-''))"
    using ctor(3) BigInt_minus by (simp_all add: BigInt_cstr_def BigInt_zero_def)
  have numerals: "numeral_text tx \<longrightarrow> canonical (BigInt_cstr (Some tx)) \<and> canonical (BigInt_cstr (Some (CHR ''-'' # tx))) \<and> canonical (BigInt_string tx) \<and>
      canonical (BigInt_string (CHR ''-'' # tx))"
    using parse_exact [of tx] numeral_string [of tx] by simp
  show ?thesis
    using cmp ctor texts numerals prod zero BigInt_Int64_val [OF assms(4, 5)] BigInt_UInt64_val [of u] canonical_negate [OF assms(1)]
      canonical_add [OF assms(1, 2)] subtract_sign [OF assms(1, 2), unfolded neg] by blast
qed

theorem BigInt_canonical_witness:
  "canonical (add (BigInt_int (-5)) (BigInt_int 5)) \<and> \<not> canonical (subtract (BigInt_int (-5)) (BigInt_int (-5)))"
proof -
  have v: "canonical (BigInt_int (-5)) \<and> bi_val (BigInt_int (-5)) = -5" "canonical (BigInt_int 5)"
    using BigInt_int_val [of "-5"] BigInt_int_val [of 5] by simp_all
  then have "canonical (BigInt_int (-5))" "canonical (BigInt_int 5)" by simp_all
  from BigInt_canonical [OF this, of 0 0] BigInt_canonical [OF this(1) this(1), of 0 0] v show ?thesis by simp
qed

end
