(* ===== verification/Hashing_CRC.thy ===== *)
theory Hashing_CRC
  imports NGIN_Prelude
begin

text \<open>
  The cyclic redundancy checks of \<open>Hashing/CRC.hpp\<close>. The register of a model is a word whose length
  is the width of the template parameter \<open>T\<close>; shifts and the exclusive or of the code are those of
  words, and a cast to \<open>T\<close> after integer promotion is the truncation words have anyway. Tables are
  lists of 256 words that are only indexed with bytes.
\<close>

unbundle bit_operations_syntax

section \<open>Models\<close>

record 'v CRCModel =
  polynomial :: 'v
  initial :: 'v
  refin :: bool
  refout :: bool
  xorout :: 'v

definition ShiftRight8 :: "('w::len) word \<Rightarrow> 'w word" where
  "ShiftRight8 v = (if 8 < LENGTH('w) then drop_bit 8 v else 0)"

definition ByteAt :: "('w::len) word \<Rightarrow> nat \<Rightarrow> byte" where
  "ByteAt v shift = ucast (drop_bit shift v AND 0xFF)"

text \<open>The loop of \<open>BitReverse\<close>.\<close>

primrec BitReverse_loop :: "nat \<Rightarrow> ('w::len) word \<Rightarrow> 'w word \<Rightarrow> 'w word" where
  "BitReverse_loop 0 reversed v = reversed"
| "BitReverse_loop (Suc n) reversed v = BitReverse_loop n (push_bit 1 reversed OR (v AND 1)) (drop_bit 1 v)"

definition BitReverse :: "('w::len) word \<Rightarrow> 'w word" where
  "BitReverse v = BitReverse_loop LENGTH('w) 0 v"

section \<open>Bits and bytes\<close>

text \<open>The body of the bit loops, for both bit orders.\<close>

definition crc_bit :: "('w::len) word CRCModel \<Rightarrow> 'w word \<Rightarrow> 'w word" where
  "crc_bit m crc =
     (if refin m
      then if crc AND 1 \<noteq> 0 then drop_bit 1 crc XOR polynomial m else drop_bit 1 crc
      else if crc AND push_bit (LENGTH('w) - 1) 1 \<noteq> 0 then push_bit 1 crc XOR polynomial m else push_bit 1 crc)"

primrec crc_bits :: "nat \<Rightarrow> ('w::len) word CRCModel \<Rightarrow> 'w word \<Rightarrow> 'w word" where
  "crc_bits 0 m crc = crc"
| "crc_bits (Suc n) m crc = crc_bits n m (crc_bit m crc)"

definition CRC8BitwiseByteUpdate :: "('w::len) word CRCModel \<Rightarrow> 'w word \<Rightarrow> byte \<Rightarrow> 'w word" where
  "CRC8BitwiseByteUpdate m crc b = crc_bits 8 m (crc XOR ucast b)"

definition BitwiseByteUpdate :: "('w::len) word CRCModel \<Rightarrow> 'w word \<Rightarrow> byte \<Rightarrow> 'w word" where
  "BitwiseByteUpdate m crc b =
     (if LENGTH('w) = 8 then CRC8BitwiseByteUpdate m crc b
      else if refin m then crc_bits 8 m (crc XOR ucast b)
      else crc_bits 8 m (crc XOR push_bit (LENGTH('w) - 8) (ucast b)))"

section \<open>Tables\<close>

definition MakeTable0 :: "('w::len) word CRCModel \<Rightarrow> 'w word list" where
  "MakeTable0 m = map (\<lambda>n. let crc = word_of_nat n;
       crc = (if \<not> refin m \<and> 8 < LENGTH('w) then push_bit (LENGTH('w) - 8) crc else crc)
     in crc_bits 8 m crc) [0..<256]"

definition table_at :: "('w::len) word list \<Rightarrow> byte \<Rightarrow> 'w word" where
  "table_at table b = table ! unat b"

text \<open>The next table of \<open>MakeTables\<close>, from the previous one.\<close>

definition NextTable :: "('w::len) word list \<Rightarrow> 'w word list \<Rightarrow> 'w word list" where
  "NextTable table0 previous = map (\<lambda>p. table_at table0 (ucast (p AND 0xFF)) XOR ShiftRight8 p) previous"

primrec MakeTables :: "nat \<Rightarrow> ('w::len) word CRCModel \<Rightarrow> 'w word list list" where
  "MakeTables 0 m = []"
| "MakeTables (Suc n) m = (if n = 0 then [MakeTable0 m] else MakeTables n m @ [NextTable (MakeTable0 m) (last (MakeTables n m))])"

definition CRC8TableByteUpdate :: "('w::len) word list \<Rightarrow> 'w word \<Rightarrow> byte \<Rightarrow> 'w word" where
  "CRC8TableByteUpdate table crc b = table_at table (ucast (crc XOR ucast b))"

definition TableByteUpdate :: "('w::len) word CRCModel \<Rightarrow> 'w word list \<Rightarrow> 'w word \<Rightarrow> byte \<Rightarrow> 'w word" where
  "TableByteUpdate m table crc b =
     (if LENGTH('w) = 8 then CRC8TableByteUpdate table crc b
      else if refin m then table_at table (ucast (crc XOR ucast b)) XOR ShiftRight8 crc
      else table_at table (ucast (drop_bit (LENGTH('w) - 8) crc XOR ucast b)) XOR push_bit 8 crc)"

section \<open>Slicing by eight\<close>

definition LoadLittleEndian32 :: "bytes \<Rightarrow> u32" where
  "LoadLittleEndian32 d =
     ucast (d ! 0) OR push_bit 8 (ucast (d ! 1)) OR push_bit 16 (ucast (d ! 2)) OR push_bit 24 (ucast (d ! 3))"

definition LoadLittleEndian64 :: "bytes \<Rightarrow> u64" where
  "LoadLittleEndian64 d =
     ucast (d ! 0) OR push_bit 8 (ucast (d ! 1)) OR push_bit 16 (ucast (d ! 2)) OR push_bit 24 (ucast (d ! 3)) OR
     push_bit 32 (ucast (d ! 4)) OR push_bit 40 (ucast (d ! 5)) OR push_bit 48 (ucast (d ! 6)) OR push_bit 56 (ucast (d ! 7))"

text \<open>The bytewise loop of the table engine.\<close>

definition TableLoop :: "('w::len) word CRCModel \<Rightarrow> 'w word list \<Rightarrow> 'w word \<Rightarrow> bytes \<Rightarrow> 'w word" where
  "TableLoop m table crc data = foldl (TableByteUpdate m table) crc data"

text \<open>
  The two specialisations of \<open>ReflectedSlicingUpdateHelper\<close>. The 32-bit one mixes the first four bytes
  into the register and looks the other four up directly.
\<close>

function SlicingUpdate32 :: "u32 CRCModel \<Rightarrow> u32 list list \<Rightarrow> u32 \<Rightarrow> bytes \<Rightarrow> u32" where
  "SlicingUpdate32 m tables crc data =
     (if 8 \<le> length data then
        let crc = crc XOR LoadLittleEndian32 data
        in SlicingUpdate32 m tables
             (table_at (tables ! 7) (ByteAt crc 0) XOR table_at (tables ! 6) (ByteAt crc 8) XOR
              table_at (tables ! 5) (ByteAt crc 16) XOR table_at (tables ! 4) (ByteAt crc 24) XOR
              table_at (tables ! 3) (data ! 4) XOR table_at (tables ! 2) (data ! 5) XOR
              table_at (tables ! 1) (data ! 6) XOR table_at (tables ! 0) (data ! 7))
             (drop 8 data)
      else TableLoop m (tables ! 0) crc data)"
  by pat_completeness auto
termination
  by (relation "measure (\<lambda>(m, tables, crc, data). length data)") auto

function SlicingUpdate64 :: "u64 CRCModel \<Rightarrow> u64 list list \<Rightarrow> u64 \<Rightarrow> bytes \<Rightarrow> u64" where
  "SlicingUpdate64 m tables crc data =
     (if 8 \<le> length data then
        let crc = crc XOR LoadLittleEndian64 data
        in SlicingUpdate64 m tables
             (table_at (tables ! 7) (ByteAt crc 0) XOR table_at (tables ! 6) (ByteAt crc 8) XOR
              table_at (tables ! 5) (ByteAt crc 16) XOR table_at (tables ! 4) (ByteAt crc 24) XOR
              table_at (tables ! 3) (ByteAt crc 32) XOR table_at (tables ! 2) (ByteAt crc 40) XOR
              table_at (tables ! 1) (ByteAt crc 48) XOR table_at (tables ! 0) (ByteAt crc 56))
             (drop 8 data)
      else TableLoop m (tables ! 0) crc data)"
  by pat_completeness auto
termination
  by (relation "measure (\<lambda>(m, tables, crc, data). length data)") auto

declare SlicingUpdate32.simps [simp del] SlicingUpdate64.simps [simp del]

section \<open>Engines\<close>

text \<open>
  \<open>TableCRCEngine<Model, 1>::Update\<close>, and the two instances with eight slices, which the code allows for
  reflected models of 32 and 64 bits only.
\<close>

definition TableEngine_Update :: "('w::len) word CRCModel \<Rightarrow> 'w word \<Rightarrow> bytes \<Rightarrow> 'w word" where
  "TableEngine_Update m crc data = (if data = [] then crc else TableLoop m (MakeTable0 m) crc data)"

definition SlicedEngine32_Update :: "u32 CRCModel \<Rightarrow> u32 \<Rightarrow> bytes \<Rightarrow> u32" where
  "SlicedEngine32_Update m crc data = (if data = [] then crc else SlicingUpdate32 m (MakeTables 8 m) crc data)"

definition SlicedEngine64_Update :: "u64 CRCModel \<Rightarrow> u64 \<Rightarrow> bytes \<Rightarrow> u64" where
  "SlicedEngine64_Update m crc data = (if data = [] then crc else SlicingUpdate64 m (MakeTables 8 m) crc data)"

definition BitwiseEngine_Update :: "('w::len) word CRCModel \<Rightarrow> 'w word \<Rightarrow> bytes \<Rightarrow> 'w word" where
  "BitwiseEngine_Update m crc data = foldl (BitwiseByteUpdate m) crc data"

text \<open>
  The other overloads of \<open>Update\<close>, for an engine given by its \<open>Update\<close> on spans: a pointer
  (\<^term>\<open>None\<close> is null) with a length, and a text at run time. At compile time a text is read
  with the bytewise loop of the single table, whatever the number of slices.
\<close>

definition Update_pointer :: "(('w::len) word \<Rightarrow> bytes \<Rightarrow> 'w word) \<Rightarrow> 'w word \<Rightarrow> bytes option \<Rightarrow> nat \<Rightarrow> 'w word" where
  "Update_pointer upd crc data len =
     (case data of None \<Rightarrow> crc | Some d \<Rightarrow> if len = 0 then crc else upd crc (take len d))"

definition ByteSpan :: "string \<Rightarrow> bytes" where
  "ByteSpan tx = map (\<lambda>c. to_byte (ord c)) tx"

definition Update_text :: "(('w::len) word \<Rightarrow> bytes \<Rightarrow> 'w word) \<Rightarrow> 'w word \<Rightarrow> string \<Rightarrow> 'w word" where
  "Update_text upd crc tx = upd crc (ByteSpan tx)"

definition Update_text_consteval :: "('w::len) word CRCModel \<Rightarrow> 'w word \<Rightarrow> string \<Rightarrow> 'w word" where
  "Update_text_consteval m crc tx = foldl (\<lambda>crc c. TableByteUpdate m (MakeTable0 m) crc (to_byte (ord c))) crc tx"

definition Finalize :: "('w::len) word CRCModel \<Rightarrow> 'w word \<Rightarrow> 'w word" where
  "Finalize m crc = (if refin m \<noteq> refout m then BitReverse crc else crc) XOR xorout m"

definition Compute :: "(('w::len) word \<Rightarrow> bytes \<Rightarrow> 'w word) \<Rightarrow> 'w word CRCModel \<Rightarrow> bytes \<Rightarrow> 'w word" where
  "Compute upd m data = Finalize m (upd (initial m) data)"

section \<open>Incremental state\<close>

record 'v CRCState =
  m_crc :: 'v

definition CRCState_make :: "('w::len) word CRCModel \<Rightarrow> 'w word CRCState" where
  "CRCState_make m = \<lparr>m_crc = initial m\<rparr>"

definition CRCState_Update :: "(('w::len) word \<Rightarrow> bytes \<Rightarrow> 'w word) \<Rightarrow> 'w word CRCState \<Rightarrow> bytes \<Rightarrow> 'w word CRCState" where
  "CRCState_Update upd st data = st\<lparr>m_crc := upd (m_crc st) data\<rparr>"

definition CRCState_Finalize :: "('w::len) word CRCModel \<Rightarrow> 'w word CRCState \<Rightarrow> 'w word" where
  "CRCState_Finalize m st = Finalize m (m_crc st)"

definition CRCState_Reset :: "('w::len) word CRCModel \<Rightarrow> 'w word CRCState \<Rightarrow> 'w word CRCState" where
  "CRCState_Reset m st = st\<lparr>m_crc := initial m\<rparr>"

definition CRCState_Raw :: "('w::len) word CRCState \<Rightarrow> 'w word" where
  "CRCState_Raw st = m_crc st"

section \<open>Presets\<close>

text \<open>The models the code names, with the number of tables of their engines.\<close>

definition CRC8_models :: "(string \<times> byte CRCModel \<times> nat) list" where
  "CRC8_models = [
    (''SMBUS'', \<lparr>polynomial = 0x07, initial = 0x00, refin = False, refout = False, xorout = 0x00\<rparr>, 1),
    (''MAXIM_DOW'', \<lparr>polynomial = 0x8C, initial = 0x00, refin = True, refout = True, xorout = 0x00\<rparr>, 1),
    (''AUTOSAR'', \<lparr>polynomial = 0x2F, initial = 0xFF, refin = False, refout = False, xorout = 0xFF\<rparr>, 1),
    (''SAE_J1850'', \<lparr>polynomial = 0x1D, initial = 0xFF, refin = False, refout = False, xorout = 0xFF\<rparr>, 1),
    (''BLUETOOTH'', \<lparr>polynomial = 0xE5, initial = 0x00, refin = True, refout = True, xorout = 0x00\<rparr>, 1)]"

definition CRC16_models :: "(string \<times> u16 CRCModel \<times> nat) list" where
  "CRC16_models = [
    (''CCITT_FALSE'', \<lparr>polynomial = 0x1021, initial = 0xFFFF, refin = False, refout = False, xorout = 0x0000\<rparr>, 1),
    (''ARC'', \<lparr>polynomial = 0xA001, initial = 0x0000, refin = True, refout = True, xorout = 0x0000\<rparr>, 1),
    (''IBM_3740'', \<lparr>polynomial = 0x1021, initial = 0xFFFF, refin = False, refout = False, xorout = 0x0000\<rparr>, 1),
    (''XMODEM'', \<lparr>polynomial = 0x1021, initial = 0x0000, refin = False, refout = False, xorout = 0x0000\<rparr>, 1),
    (''KERMIT'', \<lparr>polynomial = 0x8408, initial = 0x0000, refin = True, refout = True, xorout = 0x0000\<rparr>, 1),
    (''MODBUS'', \<lparr>polynomial = 0xA001, initial = 0xFFFF, refin = True, refout = True, xorout = 0x0000\<rparr>, 1),
    (''IBM_SDLC'', \<lparr>polynomial = 0x8408, initial = 0xFFFF, refin = True, refout = True, xorout = 0xFFFF\<rparr>, 1),
    (''GENIBUS'', \<lparr>polynomial = 0x1021, initial = 0xFFFF, refin = False, refout = False, xorout = 0xFFFF\<rparr>, 1),
    (''USB'', \<lparr>polynomial = 0xA001, initial = 0xFFFF, refin = True, refout = True, xorout = 0xFFFF\<rparr>, 1),
    (''MAXIM_DOW'', \<lparr>polynomial = 0xA001, initial = 0x0000, refin = True, refout = True, xorout = 0xFFFF\<rparr>, 1),
    (''MCRF4XX'', \<lparr>polynomial = 0x8408, initial = 0xFFFF, refin = True, refout = True, xorout = 0x0000\<rparr>, 1),
    (''DNP'', \<lparr>polynomial = 0xA6BC, initial = 0x0000, refin = True, refout = True, xorout = 0xFFFF\<rparr>, 1),
    (''EN_13757'', \<lparr>polynomial = 0x3D65, initial = 0x0000, refin = False, refout = False, xorout = 0xFFFF\<rparr>, 1),
    (''DECT_R'', \<lparr>polynomial = 0x0589, initial = 0x0000, refin = False, refout = False, xorout = 0x0001\<rparr>, 1),
    (''DECT_X'', \<lparr>polynomial = 0x0589, initial = 0x0000, refin = False, refout = False, xorout = 0x0000\<rparr>, 1),
    (''UMTS'', \<lparr>polynomial = 0x8005, initial = 0x0000, refin = False, refout = False, xorout = 0x0000\<rparr>, 1),
    (''ISO_IEC_14443_3_A'', \<lparr>polynomial = 0x8408, initial = 0x6363, refin = True, refout = True, xorout = 0x0000\<rparr>, 1),
    (''T10_DIF'', \<lparr>polynomial = 0x8BB7, initial = 0x0000, refin = False, refout = False, xorout = 0x0000\<rparr>, 1),
    (''PROFIBUS'', \<lparr>polynomial = 0x1DCF, initial = 0xFFFF, refin = False, refout = False, xorout = 0xFFFF\<rparr>, 1),
    (''LJ1200'', \<lparr>polynomial = 0x6F63, initial = 0x0000, refin = False, refout = False, xorout = 0x0000\<rparr>, 1),
    (''OPENSAFETY_A'', \<lparr>polynomial = 0x5935, initial = 0x0000, refin = False, refout = False, xorout = 0x0000\<rparr>, 1),
    (''OPENSAFETY_B'', \<lparr>polynomial = 0x755B, initial = 0x0000, refin = False, refout = False, xorout = 0x0000\<rparr>, 1),
    (''NRSC_5'', \<lparr>polynomial = 0xD010, initial = 0xFFFF, refin = True, refout = True, xorout = 0x0000\<rparr>, 1),
    (''CMS'', \<lparr>polynomial = 0x8005, initial = 0xFFFF, refin = False, refout = False, xorout = 0x0000\<rparr>, 1),
    (''DDS_110'', \<lparr>polynomial = 0x8005, initial = 0x800D, refin = False, refout = False, xorout = 0x0000\<rparr>, 1),
    (''M17'', \<lparr>polynomial = 0x5935, initial = 0xFFFF, refin = False, refout = False, xorout = 0x0000\<rparr>, 1),
    (''TELEDISK'', \<lparr>polynomial = 0xA097, initial = 0x0000, refin = False, refout = False, xorout = 0x0000\<rparr>, 1),
    (''TMS37157'', \<lparr>polynomial = 0x8408, initial = 0x3791, refin = True, refout = True, xorout = 0x0000\<rparr>, 1)]"

definition CRC32_models :: "(string \<times> u32 CRCModel \<times> nat) list" where
  "CRC32_models = [
    (''IEEE_802_3'', \<lparr>polynomial = 0xEDB88320, initial = 0xFFFFFFFF, refin = True, refout = True, xorout = 0xFFFFFFFF\<rparr>, 8),
    (''MPEG_2'', \<lparr>polynomial = 0x04C11DB7, initial = 0xFFFFFFFF, refin = False, refout = False, xorout = 0x00000000\<rparr>, 1),
    (''AIXM'', \<lparr>polynomial = 0x814141AB, initial = 0x00000000, refin = False, refout = False, xorout = 0x00000000\<rparr>, 1),
    (''AUTOSAR'', \<lparr>polynomial = 0xC8DF352F, initial = 0xFFFFFFFF, refin = True, refout = True, xorout = 0xFFFFFFFF\<rparr>, 8),
    (''BASE91_D'', \<lparr>polynomial = 0xD419CC15, initial = 0xFFFFFFFF, refin = True, refout = True, xorout = 0xFFFFFFFF\<rparr>, 8),
    (''BZIP2'', \<lparr>polynomial = 0x04C11DB7, initial = 0xFFFFFFFF, refin = False, refout = False, xorout = 0xFFFFFFFF\<rparr>, 1),
    (''CD_ROM_EDC'', \<lparr>polynomial = 0xD8018001, initial = 0x00000000, refin = True, refout = True, xorout = 0x00000000\<rparr>, 8),
    (''CKSUM'', \<lparr>polynomial = 0x04C11DB7, initial = 0x00000000, refin = False, refout = False, xorout = 0xFFFFFFFF\<rparr>, 1),
    (''ISCSI'', \<lparr>polynomial = 0x82F63B78, initial = 0xFFFFFFFF, refin = True, refout = True, xorout = 0xFFFFFFFF\<rparr>, 8),
    (''JAMCRC'', \<lparr>polynomial = 0xEDB88320, initial = 0xFFFFFFFF, refin = True, refout = True, xorout = 0x00000000\<rparr>, 8),
    (''MEF'', \<lparr>polynomial = 0xEB31D82E, initial = 0xFFFFFFFF, refin = True, refout = True, xorout = 0x00000000\<rparr>, 8),
    (''XFER'', \<lparr>polynomial = 0x000000AF, initial = 0x00000000, refin = False, refout = False, xorout = 0x00000000\<rparr>, 1)]"

definition CRC64_models :: "(string \<times> u64 CRCModel \<times> nat) list" where
  "CRC64_models = [
    (''ISO_3309'', \<lparr>polynomial = 0xD800000000000000, initial = 0xFFFFFFFFFFFFFFFF, refin = True, refout = True, xorout = 0xFFFFFFFFFFFFFFFF\<rparr>, 8),
    (''ECMA_182'', \<lparr>polynomial = 0x42F0E1EBA9EA3693, initial = 0x0000000000000000, refin = False, refout = False, xorout = 0x0000000000000000\<rparr>, 1)]"

end
