(* ===== verification/Hashing_CRC_Props.thy ===== *)
theory Hashing_CRC_Props
  imports Hashing_CRC
begin

text \<open>
  Correctness of the CRC engines of \<^verbatim>\<open>src/include/NGIN/Hashing/CRC.hpp\<close>. The locale
  \<open>crc_engine\<close> states what an update routine promises over the register and
  the bytes; the bitwise engine, the byte-table engine and the slicing-by-4 and
  slicing-by-8 engines are its interpretations. The properties are that the four engines
  compute the same register for every model and input, and that the checksum
  notices every burst error no longer than the register.
\<close>

unbundle bit_operations_syntax

lemma crc_bit_alt:
  "crc_bit m (c :: 'w::len word) =
     (if refin m then drop_bit 1 c XOR (if bit c 0 then polynomial m else 0)
      else push_bit 1 c XOR (if bit c (LENGTH('w) - 1) then polynomial m else 0))"
proof -
  have "(c AND 1 \<noteq> 0) = bit c 0" by (simp add: and_one_eq odd_iff_mod_2_eq_one bit_0)
  moreover have "(c AND push_bit (LENGTH('w) - 1) 1 \<noteq> 0) = bit c (LENGTH('w) - 1)"
    by (simp add: push_bit_of_1 and_exp_eq_0_iff_not_bit)
  ultimately show ?thesis by (simp add: crc_bit_def)
qed

lemma crc_bit_xor: "crc_bit m (c XOR d) = crc_bit m c XOR crc_bit m d"
  by (simp add: crc_bit_alt bit_xor_iff xor.assoc xor.left_commute)

lemma crc_bit_0 [simp]: "crc_bit m 0 = 0"
  by (simp add: crc_bit_alt)

lemma crc_bits_xor: "crc_bits n m (c XOR d) = crc_bits n m c XOR crc_bits n m d"
  by (induction n arbitrary: c d) (simp_all add: crc_bit_xor)

lemma crc_bits_0 [simp]: "crc_bits n m 0 = 0"
  by (induction n) simp_all

lemma crc_bits_add: "crc_bits (j + n) m c = crc_bits n m (crc_bits j m c)"
  by (induction j arbitrary: c) simp_all

text \<open>Bits that are shifted out as zeros leave the rest of the register alone.\<close>

lemma drop_push_bit:
  fixes z :: "'w::len word"
  assumes "\<forall>i. LENGTH('w) - n \<le> i \<and> i < LENGTH('w) \<longrightarrow> \<not> bit z i"
  shows "drop_bit n (push_bit n z) = z"
proof (rule bit_word_eqI)
  fix i
  assume "i < LENGTH('w)"
  then show "bit (drop_bit n (push_bit n z)) i = bit z i"
    using assms by (cases "n + i < LENGTH('w)") (auto simp: bit_drop_bit_eq bit_push_bit_iff)
qed

lemma push_bit_top:
  fixes z :: "'w::len word"
  assumes "\<forall>i. LENGTH('w) - (n + k) \<le> i \<and> i < LENGTH('w) \<longrightarrow> \<not> bit z i" "LENGTH('w) - n \<le> i"
  shows "\<not> bit (push_bit k z) i"
proof
  assume "bit (push_bit k z) i"
  then have i: "i < LENGTH('w)" "k \<le> i" "bit z (i - k)" by (simp_all add: bit_push_bit_iff)
  moreover have "LENGTH('w) - (n + k) \<le> i - k" using assms(2) by linarith
  ultimately show False using assms(1) by auto
qed

lemma crc_bits_reflected:
  fixes y :: "'w::len word"
  assumes "refin m"
  shows "(\<forall>i. LENGTH('w) - n \<le> i \<and> i < LENGTH('w) \<longrightarrow> \<not> bit y i) \<Longrightarrow> n \<le> LENGTH('w) \<Longrightarrow> crc_bits n m (push_bit n y) = y"
proof (induction n)
  case (Suc n)
  define z where "z = push_bit n y"
  have top: "\<not> bit z (LENGTH('w) - 1)"
  proof (cases "n \<le> LENGTH('w) - 1")
    case True
    then have "\<not> bit y (LENGTH('w) - 1 - n)" using Suc.prems by auto
    then show ?thesis by (simp add: z_def bit_push_bit_iff)
  qed (simp add: z_def bit_push_bit_iff)
  have "push_bit (Suc n) y = push_bit 1 z" by (simp add: z_def)
  moreover have "crc_bit m (push_bit 1 z) = z"
  proof -
    have "drop_bit 1 (push_bit 1 z) = z"
    proof (rule drop_push_bit)
      show "\<forall>i. LENGTH('w) - 1 \<le> i \<and> i < LENGTH('w) \<longrightarrow> \<not> bit z i"
      proof (intro allI impI)
        fix i
        assume "LENGTH('w) - 1 \<le> i \<and> i < LENGTH('w)"
        then have "i = LENGTH('w) - 1" by linarith
        with top show "\<not> bit z i" by simp
      qed
    qed
    moreover have "\<not> bit (push_bit 1 z) 0" using bit_push_bit_iff [of 1 z 0] by simp
    ultimately show ?thesis using assms by (simp add: crc_bit_alt)
  qed
  moreover have "crc_bits n m z = y" unfolding z_def using Suc by (intro Suc.IH) auto
  ultimately show ?case by simp
qed simp

lemma crc_bits_normal:
  fixes z :: "'w::len word"
  assumes "\<not> refin m"
  shows "(\<forall>i. LENGTH('w) - n \<le> i \<and> i < LENGTH('w) \<longrightarrow> \<not> bit z i) \<Longrightarrow> n \<le> LENGTH('w) \<Longrightarrow> crc_bits n m z = push_bit n z"
proof (induction n arbitrary: z)
  case (Suc n)
  have "\<not> bit z (LENGTH('w) - 1)" using Suc.prems by auto
  then have "crc_bit m z = push_bit 1 z" using assms by (simp add: crc_bit_alt)
  moreover have "crc_bits n m (push_bit 1 z) = push_bit n (push_bit 1 z)"
  proof (rule Suc.IH)
    show "\<forall>i. LENGTH('w) - n \<le> i \<and> i < LENGTH('w) \<longrightarrow> \<not> bit (push_bit 1 z) i"
      using push_bit_top [of n 1 z] Suc.prems by simp
  qed (use Suc.prems in simp)
  ultimately show ?case by (simp add: push_bit_push_bit)
qed simp

section \<open>Bytes\<close>

lemma and_0xFF: "(v :: 'w::len word) AND 0xFF = take_bit 8 v"
proof -
  have "(0xFF :: 'w word) = mask 8" by (simp add: mask_eq_exp_minus_1)
  then show ?thesis by (simp only: take_bit_eq_mask)
qed

text \<open>Eight bits: the register advanced by one byte of zeros. A byte is first mixed into the register.\<close>

definition crc_byte :: "('w::len) word CRCModel \<Rightarrow> 'w word \<Rightarrow> 'w word" where
  "crc_byte m c = crc_bits 8 m c"

definition inject :: "('w::len) word CRCModel \<Rightarrow> byte \<Rightarrow> 'w word" where
  "inject m b = (if refin m then ucast b else push_bit (LENGTH('w) - 8) (ucast b))"

lemma crc_byte_xor: "crc_byte m (c XOR d) = crc_byte m c XOR crc_byte m d"
  by (simp add: crc_byte_def crc_bits_xor)

lemma crc_byte_0 [simp]: "crc_byte m 0 = 0"
  by (simp add: crc_byte_def)

lemma crc_bytes_xor: "(crc_byte m ^^ n) (c XOR d) = (crc_byte m ^^ n) c XOR (crc_byte m ^^ n) d"
  by (induction n) (simp_all add: crc_byte_xor)

lemma BitwiseByteUpdate_eq:
  "8 \<le> LENGTH('w::len) \<Longrightarrow> BitwiseByteUpdate m (c :: 'w word) b = crc_byte m (c XOR inject m b)"
  by (simp add: BitwiseByteUpdate_def CRC8BitwiseByteUpdate_def inject_def crc_byte_def)

lemma bit_ucast_byte: "bit (ucast (b :: byte) :: 'w::len word) i \<longleftrightarrow> i < LENGTH('w) \<and> i < 8 \<and> bit b i"
  by (auto simp: bit_ucast_iff dest: bit_imp_le_length)

lemma table0_at: "8 \<le> LENGTH('w::len) \<Longrightarrow> table_at (MakeTable0 m) b = crc_byte m (inject m b :: 'w word)"
proof -
  assume "8 \<le> LENGTH('w)"
  moreover have "(word_of_nat (unat b) :: 'w word) = ucast b" by (simp add: unsigned_ucast_eq word_unat_eq_iff unsigned_of_nat)
  moreover have "unat b < 256" by simp
  ultimately show ?thesis by (cases "refin m"; cases "LENGTH('w) = 8") (simp_all add: table_at_def MakeTable0_def Let_def inject_def crc_byte_def del: unat_byte_less)
qed

text \<open>One byte of the register at a time: the table of the byte that leaves, and the rest shifted.\<close>

lemma crc_byte_reflected:
  fixes c :: "'w::len word"
  assumes "refin m" "8 < LENGTH('w)"
  shows "crc_byte m c = table_at (MakeTable0 m) (ucast c) XOR drop_bit 8 c"
proof -
  have "c = ucast (ucast c :: byte) XOR push_bit 8 (drop_bit 8 c)"
    by (intro bit_word_eqI) (auto simp: bit_xor_iff bit_ucast_byte bit_ucast_iff bit_push_bit_iff bit_drop_bit_eq)
  then have "crc_byte m c = crc_byte m (inject m (ucast c)) XOR crc_byte m (push_bit 8 (drop_bit 8 c))"
    using assms(1) by (metis crc_byte_xor inject_def)
  also have "crc_byte m (push_bit 8 (drop_bit 8 c)) = drop_bit 8 c"
    unfolding crc_byte_def using assms by (intro crc_bits_reflected) (auto simp: bit_drop_bit_eq dest: bit_imp_le_length)
  finally show ?thesis using assms by (simp add: table0_at)
qed

lemma crc_byte_normal:
  fixes c :: "'w::len word"
  assumes "\<not> refin m" "8 < LENGTH('w)"
  shows "crc_byte m c = table_at (MakeTable0 m) (ucast (drop_bit (LENGTH('w) - 8) c)) XOR push_bit 8 c"
proof -
  define l where "l = take_bit (LENGTH('w) - 8) c"
  define h where "h = (ucast (drop_bit (LENGTH('w) - 8) c) :: byte)"
  have "c = inject m h XOR l"
    using assms by (intro bit_word_eqI)
      (auto simp: inject_def l_def h_def bit_xor_iff bit_ucast_byte bit_ucast_iff bit_push_bit_iff bit_drop_bit_eq bit_take_bit_iff)
  then have "crc_byte m c = crc_byte m (inject m h) XOR crc_byte m l" by (metis crc_byte_xor)
  also have "crc_byte m l = push_bit 8 l"
    unfolding crc_byte_def using assms by (intro crc_bits_normal) (auto simp: l_def bit_take_bit_iff)
  also have "push_bit 8 l = push_bit 8 c"
    using assms(2) by (intro bit_word_eqI) (auto simp: l_def bit_push_bit_iff bit_take_bit_iff)
  finally show ?thesis using assms by (simp add: table0_at h_def)
qed

lemma crc_byte_8: "LENGTH('w::len) = 8 \<Longrightarrow> crc_byte m (c :: 'w word) = table_at (MakeTable0 m) (ucast c)"
proof -
  assume a: "LENGTH('w) = 8"
  then have "(ucast (ucast c :: byte) :: 'w word) = c"
    by (intro bit_word_eqI) (auto simp: bit_ucast_iff)
  with a show ?thesis by (simp add: table0_at inject_def)
qed

lemma TableByteUpdate_eq:
  fixes c :: "'w::len word"
  assumes "8 \<le> LENGTH('w)"
  shows "TableByteUpdate m (MakeTable0 m) c b = BitwiseByteUpdate m c b"
proof -
  consider "LENGTH('w) = 8" | "8 < LENGTH('w)" "refin m" | "8 < LENGTH('w)" "\<not> refin m" using assms by linarith
  then show ?thesis
  proof cases
    case 1
    then have "inject m b = ucast b" by (simp add: inject_def)
    with 1 show ?thesis by (simp add: BitwiseByteUpdate_eq crc_byte_8 TableByteUpdate_def CRC8TableByteUpdate_def)
  next
    case 2
    have "drop_bit 8 (c XOR ucast b) = drop_bit 8 c"
      by (intro bit_word_eqI) (auto simp: bit_drop_bit_eq bit_xor_iff bit_ucast_byte)
    with 2 show ?thesis by (simp add: BitwiseByteUpdate_eq crc_byte_reflected TableByteUpdate_def inject_def ShiftRight8_def)
  next
    case 3
    have "drop_bit (LENGTH('w) - 8) (c XOR push_bit (LENGTH('w) - 8) (ucast b)) = drop_bit (LENGTH('w) - 8) c XOR ucast b"
      using 3 by (intro bit_word_eqI) (auto simp: bit_drop_bit_eq bit_xor_iff bit_ucast_byte bit_push_bit_iff)
    moreover have "push_bit 8 (c XOR push_bit (LENGTH('w) - 8) (ucast b)) = push_bit 8 c"
      using 3 by (intro bit_word_eqI) (auto simp: bit_push_bit_iff bit_xor_iff bit_ucast_byte)
    ultimately show ?thesis using 3 by (simp add: BitwiseByteUpdate_eq crc_byte_normal TableByteUpdate_def inject_def)
  qed
qed

section \<open>Several bytes at once\<close>

text \<open>
  The word that a block of bytes contributes to the register: little endian for reflected models,
  from the top for the others. A block no longer than the register can be mixed in at once.
\<close>

primrec mix :: "('w::len) word CRCModel \<Rightarrow> bytes \<Rightarrow> 'w word" where
  "mix m [] = 0"
| "mix m (b # d) = inject m b XOR (if refin m then push_bit 8 (mix m d) else drop_bit 8 (mix m d))"

lemma mix_bits:
  fixes m :: "('w::len) word CRCModel"
  shows "bit (mix m d) i \<Longrightarrow> if refin m then i < 8 * length d else LENGTH('w) \<le> 8 * length d + i"
proof (induction d arbitrary: i)
  case (Cons b d)
  show ?case
  proof (cases "bit (inject m b) i")
    case True
    then show ?thesis by (auto simp: inject_def bit_ucast_byte bit_push_bit_iff split: if_splits)
  next
    case False
    with Cons.prems show ?thesis
      using Cons.IH [of "i - 8"] Cons.IH [of "8 + i"] by (auto simp: bit_xor_iff bit_push_bit_iff bit_drop_bit_eq split: if_splits)
  qed
qed simp

lemma crc_byte_mix:
  fixes m :: "('w::len) word CRCModel"
  assumes "8 * length d + 8 \<le> LENGTH('w)"
  shows "crc_byte m (if refin m then push_bit 8 (mix m d) else drop_bit 8 (mix m d)) = mix m d"
proof (cases "refin m")
  case True
  have "\<not> bit (mix m d) i" if "LENGTH('w) - 8 \<le> i" for i using mix_bits [of m d i] assms that True by auto
  then show ?thesis using True assms crc_bits_reflected [OF True, of 8 "mix m d"] by (simp add: crc_byte_def)
next
  case False
  have low: "\<not> bit (mix m d) i" if "i < 8" for i using mix_bits [of m d i] assms that False by auto
  have "crc_byte m (drop_bit 8 (mix m d)) = push_bit 8 (drop_bit 8 (mix m d))"
    unfolding crc_byte_def using False assms by (intro crc_bits_normal) (auto simp: bit_drop_bit_eq dest: bit_imp_le_length)
  also have "\<dots> = mix m d"
  proof (rule bit_word_eqI)
    fix i
    assume "i < LENGTH('w)"
    then show "bit (push_bit 8 (drop_bit 8 (mix m d))) i = bit (mix m d) i"
      using low [of i] by (cases "i < 8") (auto simp: bit_push_bit_iff bit_drop_bit_eq)
  qed
  finally show ?thesis using False by simp
qed

lemma crc_byte_shift: "(crc_byte m ^^ n) (crc_byte m c) = (crc_byte m ^^ Suc n) c"
  by (simp only: funpow_Suc_right comp_apply)

lemma BitwiseEngine_mix:
  fixes c :: "'w::len word"
  assumes "8 * length d \<le> LENGTH('w)" "8 \<le> LENGTH('w)"
  shows "BitwiseEngine_Update m c d = (crc_byte m ^^ length d) (c XOR mix m d)"
  using assms(1)
proof (induction d arbitrary: c)
  case (Cons b d)
  let ?s = "if refin m then push_bit 8 (mix m d) else drop_bit 8 (mix m d)"
  have "BitwiseEngine_Update m c (b # d) = BitwiseEngine_Update m (crc_byte m (c XOR inject m b)) d"
    by (simp add: BitwiseEngine_Update_def BitwiseByteUpdate_eq assms(2))
  also have "\<dots> = (crc_byte m ^^ length d) (crc_byte m (c XOR inject m b) XOR mix m d)"
    using Cons.prems by (intro Cons.IH) simp
  also have "mix m d = crc_byte m ?s" using Cons.prems by (intro crc_byte_mix [symmetric]) simp
  also have "(crc_byte m ^^ length d) (crc_byte m (c XOR inject m b) XOR crc_byte m ?s) =
      (crc_byte m ^^ Suc (length d)) (c XOR inject m b XOR ?s)"
    by (simp only: crc_byte_xor [symmetric] crc_byte_shift xor.assoc)
  finally show ?case by (simp add: ac_simps)
qed (simp add: BitwiseEngine_Update_def)

text \<open>The register after a block of bytes, one table lookup for each of its bytes.\<close>

lemma crc_bytes_reflected:
  fixes c :: "'w::len word"
  assumes "refin m" "8 < LENGTH('w)"
  shows "(crc_byte m ^^ Suc n) c = (crc_byte m ^^ Suc n) (inject m (ByteAt c 0)) XOR (crc_byte m ^^ n) (drop_bit 8 c)"
proof -
  have b: "ByteAt c 0 = ucast c"
    by (intro bit_word_eqI) (auto simp: ByteAt_def and_0xFF bit_ucast_iff bit_take_bit_iff)
  have "crc_byte m c = crc_byte m (inject m (ByteAt c 0)) XOR drop_bit 8 c"
    using crc_byte_reflected [OF assms, of c] table0_at [of m "ucast c"] assms(2) by (simp add: b)
  then have "(crc_byte m ^^ n) (crc_byte m c) = (crc_byte m ^^ n) (crc_byte m (inject m (ByteAt c 0))) XOR (crc_byte m ^^ n) (drop_bit 8 c)"
    using crc_bytes_xor [of n m "crc_byte m (inject m (ByteAt c 0))" "drop_bit 8 c"] by simp
  then show ?thesis unfolding crc_byte_shift .
qed

lemma ByteAt_drop: "ByteAt (drop_bit j c) k = ByteAt c (j + k)"
  by (simp add: ByteAt_def add.commute)

lemma NextTable_at:
  fixes m :: "('w::len) word CRCModel"
  assumes "refin m" "8 < LENGTH('w)" "length t = 256"
  shows "table_at (NextTable (MakeTable0 m) t) b = crc_byte m (table_at t b)"
proof -
  have "(ucast (p AND 0xFF) :: byte) = ucast p" for p :: "'w word"
    by (intro bit_word_eqI) (auto simp: and_0xFF bit_ucast_iff bit_take_bit_iff dest: bit_imp_le_length)
  moreover have "unat b < length t" using assms(3) by simp
  ultimately show ?thesis using crc_byte_reflected [OF assms(1, 2)] assms(2)
    by (simp add: NextTable_def table_at_def [of _ b] ShiftRight8_def)
qed

lemma length_MakeTables [simp]: "length (MakeTables n m) = n"
  by (induction n) simp_all

lemma MakeTables_at:
  fixes m :: "('w::len) word CRCModel"
  assumes "refin m" "8 < LENGTH('w)"
  shows "k < n \<Longrightarrow> length (MakeTables n m ! k) = 256 \<and> table_at (MakeTables n m ! k) b = (crc_byte m ^^ Suc k) (inject m b)"
proof (induction n arbitrary: k)
  case (Suc n)
  show ?case
  proof (cases "k < n")
    case True
    then have "MakeTables (Suc n) m ! k = MakeTables n m ! k" by (simp add: nth_append)
    with Suc.IH [OF True] show ?thesis by simp
  next
    case False
    with Suc.prems have k: "k = n" by simp
    show ?thesis
    proof (cases n)
      case 0
      with k show ?thesis using assms table0_at [of m b] by (simp add: MakeTable0_def)
    next
      case (Suc j)
      have "last (MakeTables n m) = MakeTables n m ! j" using Suc by (simp add: last_conv_nth flip: length_greater_0_conv)
      then have "MakeTables (Suc n) m ! k = NextTable (MakeTable0 m) (MakeTables n m ! j)" using k Suc by (simp add: nth_append)
      with Suc.IH [of j] Suc k show ?thesis using NextTable_at [OF assms] by (simp add: NextTable_def)
    qed
  qed
qed simp

lemma xor_byte_or: "(ucast (b :: byte) :: 'w::len word) XOR push_bit 8 w = ucast b OR push_bit 8 w"
  by (intro bit_word_eqI) (auto simp: bit_or_iff bit_xor_iff bit_push_bit_iff bit_ucast_byte)

lemma mix_or: "refin m \<Longrightarrow> mix m (b # d) = ucast b OR push_bit 8 (mix m d)"
  by (simp add: inject_def xor_byte_or)

lemma LoadLittleEndian32_mix: "refin m \<Longrightarrow> LoadLittleEndian32 (b0 # b1 # b2 # b3 # d) = mix m [b0, b1, b2, b3]"
  by (simp add: LoadLittleEndian32_def mix_or push_bit_or del: mix.simps(2))

lemma LoadLittleEndian64_mix:
  "refin m \<Longrightarrow> LoadLittleEndian64 (b0 # b1 # b2 # b3 # b4 # b5 # b6 # b7 # d) = mix m [b0, b1, b2, b3, b4, b5, b6, b7]"
  by (simp add: LoadLittleEndian64_def mix_or push_bit_or del: mix.simps(2))

lemma list_of_8:
  assumes "8 \<le> length d"
  obtains b0 b1 b2 b3 b4 b5 b6 b7 r where "d = b0 # b1 # b2 # b3 # b4 # b5 # b6 # b7 # r"
proof -
  obtain n where "length d = 8 + n" using assms le_iff_add by blast
  then have "length d = Suc (Suc (Suc (Suc (Suc (Suc (Suc (Suc n)))))))" by simp
  then show thesis by (auto simp: length_Suc_conv intro: that)
qed

lemma BitwiseEngine_append: "BitwiseEngine_Update m c (xs @ ys) = BitwiseEngine_Update m (BitwiseEngine_Update m c xs) ys"
  by (simp add: BitwiseEngine_Update_def)

lemma step64:
  assumes "refin (m :: u64 CRCModel)" and x: "x = c XOR LoadLittleEndian64 d" and d: "d = [b0, b1, b2, b3, b4, b5, b6, b7] @ r"
  defines "t \<equiv> MakeTables 8 m"
  shows "table_at (t ! 7) (ByteAt x 0) XOR table_at (t ! 6) (ByteAt x 8) XOR table_at (t ! 5) (ByteAt x 16) XOR table_at (t ! 4) (ByteAt x 24) XOR
     table_at (t ! 3) (ByteAt x 32) XOR table_at (t ! 2) (ByteAt x 40) XOR table_at (t ! 1) (ByteAt x 48) XOR table_at (t ! 0) (ByteAt x 56) =
     BitwiseEngine_Update m c [b0, b1, b2, b3, b4, b5, b6, b7]"
proof -
  let ?S = "crc_byte m" and ?B = "\<lambda>k. inject m (ByteAt x k)"
  have T: "table_at (t ! (n - 1)) b = (?S ^^ n) (inject m b)" if "0 < n" "n \<le> 8" for n b
    using MakeTables_at [OF assms(1), of "n - 1" 8 b] that by (simp add: t_def)
  have T: "table_at (t ! 7) b = (?S ^^ 8) (inject m b)" "table_at (t ! 6) b = (?S ^^ 7) (inject m b)" "table_at (t ! 5) b = (?S ^^ 6) (inject m b)"
    "table_at (t ! 4) b = (?S ^^ 5) (inject m b)" "table_at (t ! 3) b = (?S ^^ 4) (inject m b)" "table_at (t ! 2) b = (?S ^^ 3) (inject m b)"
    "table_at (t ! 1) b = (?S ^^ 2) (inject m b)" "table_at (t ! 0) b = (?S ^^ 1) (inject m b)" for b
    using T [of 8 b] T [of 7 b] T [of 6 b] T [of 5 b] T [of 4 b] T [of 3 b] T [of 2 b] T [of 1 b] by simp_all
  have step: "(?S ^^ n) (drop_bit k x) = (?S ^^ n) (?B k) XOR (?S ^^ (n - 1)) (drop_bit (k + 8) x)" if "0 < n" for n k
    using crc_bytes_reflected [OF assms(1), of "n - 1" "drop_bit k x"] that by (simp add: ByteAt_drop add.commute)
  have "BitwiseEngine_Update m c [b0, b1, b2, b3, b4, b5, b6, b7] = (?S ^^ 8) x"
    using BitwiseEngine_mix [of "[b0, b1, b2, b3, b4, b5, b6, b7]" m c] by (simp add: x d LoadLittleEndian64_mix [OF assms(1)] eval_nat_numeral del: mix.simps(2))
  also have "\<dots> = (?S ^^ 8) (?B 0) XOR (?S ^^ 7) (?B 8) XOR (?S ^^ 6) (?B 16) XOR (?S ^^ 5) (?B 24) XOR
      (?S ^^ 4) (?B 32) XOR (?S ^^ 3) (?B 40) XOR (?S ^^ 2) (?B 48) XOR (?S ^^ 1) (?B 56)"
    using step [of 8 0] step [of 7 8] step [of 6 16] step [of 5 24] step [of 4 32] step [of 3 40] step [of 2 48] step [of 1 56] by simp
  finally show ?thesis by (simp only: T)
qed

lemma step32:
  assumes "refin (m :: u32 CRCModel)" and x: "x = c XOR LoadLittleEndian32 d" and d: "d = [b0, b1, b2, b3] @ r"
  defines "t \<equiv> MakeTables 8 m"
  shows "table_at (t ! 7) (ByteAt x 0) XOR table_at (t ! 6) (ByteAt x 8) XOR table_at (t ! 5) (ByteAt x 16) XOR table_at (t ! 4) (ByteAt x 24) XOR
     table_at (t ! 3) b4 XOR table_at (t ! 2) b5 XOR table_at (t ! 1) b6 XOR table_at (t ! 0) b7 =
     BitwiseEngine_Update m c ([b0, b1, b2, b3] @ [b4, b5, b6, b7])"
proof -
  let ?S = "crc_byte m" and ?B = "\<lambda>k. inject m (ByteAt x k)"
  have T: "table_at (t ! (n - 1)) b = (?S ^^ n) (inject m b)" if "0 < n" "n \<le> 8" for n b
    using MakeTables_at [OF assms(1), of "n - 1" 8 b] that by (simp add: t_def)
  have T: "table_at (t ! 7) b = (?S ^^ 8) (inject m b)" "table_at (t ! 6) b = (?S ^^ 7) (inject m b)" "table_at (t ! 5) b = (?S ^^ 6) (inject m b)"
    "table_at (t ! 4) b = (?S ^^ 5) (inject m b)" "table_at (t ! 3) b = (?S ^^ 4) (inject m b)" "table_at (t ! 2) b = (?S ^^ 3) (inject m b)"
    "table_at (t ! 1) b = (?S ^^ 2) (inject m b)" "table_at (t ! 0) b = (?S ^^ 1) (inject m b)" for b
    using T [of 8 b] T [of 7 b] T [of 6 b] T [of 5 b] T [of 4 b] T [of 3 b] T [of 2 b] T [of 1 b] by simp_all
  have step: "(?S ^^ n) (drop_bit k x) = (?S ^^ n) (?B k) XOR (?S ^^ (n - 1)) (drop_bit (k + 8) x)" if "0 < n" for n k
    using crc_bytes_reflected [OF assms(1), of "n - 1" "drop_bit k x"] that by (simp add: ByteAt_drop add.commute)
  have upd: "BitwiseEngine_Update m y [a1, a2, a3, a4] =
      (?S ^^ 4) y XOR ((?S ^^ 4) (inject m a1) XOR (?S ^^ 3) (inject m a2) XOR (?S ^^ 2) (inject m a3) XOR (?S ^^ 1) (inject m a4))" for y a1 a2 a3 a4
    by (simp add: BitwiseEngine_Update_def BitwiseByteUpdate_eq crc_byte_xor eval_nat_numeral ac_simps)
  have "BitwiseEngine_Update m c [b0, b1, b2, b3] = (?S ^^ 4) x"
    using BitwiseEngine_mix [of "[b0, b1, b2, b3]" m c] by (simp add: x d LoadLittleEndian32_mix [OF assms(1)] eval_nat_numeral del: mix.simps(2))
  also have "\<dots> = (?S ^^ 4) (?B 0) XOR (?S ^^ 3) (?B 8) XOR (?S ^^ 2) (?B 16) XOR (?S ^^ 1) (?B 24)"
    using step [of 4 0] step [of 3 8] step [of 2 16] step [of 1 24] by simp
  finally have "BitwiseEngine_Update m c ([b0, b1, b2, b3] @ [b4, b5, b6, b7]) =
      (?S ^^ 4) ((?S ^^ 4) (?B 0) XOR (?S ^^ 3) (?B 8) XOR (?S ^^ 2) (?B 16) XOR (?S ^^ 1) (?B 24)) XOR
      ((?S ^^ 4) (inject m b4) XOR (?S ^^ 3) (inject m b5) XOR (?S ^^ 2) (inject m b6) XOR (?S ^^ 1) (inject m b7))"
    by (simp only: BitwiseEngine_append upd)
  moreover have "(?S ^^ 4) ((?S ^^ 4) y) = (?S ^^ 8) y" "(?S ^^ 4) ((?S ^^ 3) y) = (?S ^^ 7) y" "(?S ^^ 4) ((?S ^^ 2) y) = (?S ^^ 6) y"
      "(?S ^^ 4) ((?S ^^ 1) y) = (?S ^^ 5) y" for y
    using funpow_add [of 4 4 ?S] funpow_add [of 4 3 ?S] funpow_add [of 4 2 ?S] funpow_add [of 4 1 ?S] by (simp_all add: fun_eq_iff)
  ultimately show ?thesis by (simp only: T crc_bytes_xor xor.assoc)
qed

section \<open>Engines\<close>

lemma TableLoop_eq: "8 \<le> LENGTH('w::len) \<Longrightarrow> TableLoop m (MakeTable0 m) (c :: 'w word) d = BitwiseEngine_Update m c d"
proof -
  assume "8 \<le> LENGTH('w)"
  then have "TableByteUpdate m (MakeTable0 m) = BitwiseByteUpdate (m :: 'w word CRCModel)" by (intro ext) (rule TableByteUpdate_eq)
  then show ?thesis by (simp add: TableLoop_def BitwiseEngine_Update_def)
qed

lemma MakeTables_0: "MakeTables 8 m ! 0 = MakeTable0 m"
  by (simp add: eval_nat_numeral)

lemma SlicingUpdate32_eq: "refin m \<Longrightarrow> SlicingUpdate32 m (MakeTables 8 m) c d = BitwiseEngine_Update m c d"
proof (induction "length d" arbitrary: c d rule: less_induct)
  case less
  show ?case
  proof (cases "8 \<le> length d")
    case True
    then obtain b0 b1 b2 b3 b4 b5 b6 b7 r where d: "d = b0 # b1 # b2 # b3 # b4 # b5 # b6 # b7 # r" by (rule list_of_8)
    have "SlicingUpdate32 m (MakeTables 8 m) c d = SlicingUpdate32 m (MakeTables 8 m) (BitwiseEngine_Update m c ([b0, b1, b2, b3] @ [b4, b5, b6, b7])) r"
      using step32 [OF less.prems refl, of d b0 b1 b2 b3 _ c b4 b5 b6 b7] True by (subst SlicingUpdate32.simps) (simp add: Let_def d)
    also have "\<dots> = BitwiseEngine_Update m (BitwiseEngine_Update m c ([b0, b1, b2, b3] @ [b4, b5, b6, b7])) r"
      using less.prems by (intro less.hyps) (simp_all add: d)
    finally show ?thesis by (simp add: d flip: BitwiseEngine_append)
  next
    case False
    then show ?thesis by (subst SlicingUpdate32.simps) (simp add: MakeTables_0 TableLoop_eq)
  qed
qed

lemma SlicingUpdate64_eq: "refin m \<Longrightarrow> SlicingUpdate64 m (MakeTables 8 m) c d = BitwiseEngine_Update m c d"
proof (induction "length d" arbitrary: c d rule: less_induct)
  case less
  show ?case
  proof (cases "8 \<le> length d")
    case True
    then obtain b0 b1 b2 b3 b4 b5 b6 b7 r where d: "d = b0 # b1 # b2 # b3 # b4 # b5 # b6 # b7 # r" by (rule list_of_8)
    have "SlicingUpdate64 m (MakeTables 8 m) c d = SlicingUpdate64 m (MakeTables 8 m) (BitwiseEngine_Update m c [b0, b1, b2, b3, b4, b5, b6, b7]) r"
      using step64 [OF less.prems refl, of d b0 b1 b2 b3 b4 b5 b6 b7 r c] True by (subst SlicingUpdate64.simps) (simp add: Let_def d)
    also have "\<dots> = BitwiseEngine_Update m (BitwiseEngine_Update m c [b0, b1, b2, b3, b4, b5, b6, b7]) r"
      using less.prems by (intro less.hyps) (simp_all add: d)
    finally show ?thesis by (simp add: d flip: BitwiseEngine_append)
  next
    case False
    then show ?thesis by (subst SlicingUpdate64.simps) (simp add: MakeTables_0 TableLoop_eq)
  qed
qed

section \<open>The contract of an engine\<close>

text \<open>
  What \<open>CRCState\<close> relies on: reading nothing changes nothing, and reading two pieces one after the
  other is reading them at once.
\<close>

locale crc_engine =
  fixes upd :: "('w::len) word \<Rightarrow> bytes \<Rightarrow> 'w word"
  assumes upd_Nil: "upd c [] = c"
    and upd_append: "upd c (xs @ ys) = upd (upd c xs) ys"
begin

lemma upd_chunks: "m_crc (foldl (CRCState_Update upd) st chunks) = upd (m_crc st) (concat chunks)"
  by (induction chunks arbitrary: st) (simp_all add: CRCState_Update_def upd_Nil upd_append)

lemma state_chunks:
  "CRCState_Finalize m (foldl (CRCState_Update upd) (CRCState_make m) chunks) = Compute upd m (concat chunks)"
  by (simp add: CRCState_Finalize_def Compute_def upd_chunks CRCState_make_def)

lemma reset_chunks:
  "CRCState_Finalize m (foldl (CRCState_Update upd) (CRCState_Reset m st) chunks) = Compute upd m (concat chunks)"
  by (simp add: CRCState_Finalize_def Compute_def upd_chunks CRCState_Reset_def)

lemma pointer: "Update_pointer upd c (Some d) len = upd c (take len d)" "Update_pointer upd c None len = c"
  by (simp_all add: Update_pointer_def upd_Nil)

end

interpretation bitwise: crc_engine "BitwiseEngine_Update m" for m :: "('w::len) word CRCModel"
  by unfold_locales (simp_all add: BitwiseEngine_Update_def)

interpretation table: crc_engine "TableEngine_Update m" for m :: "('w::len) word CRCModel"
  by unfold_locales (auto simp: TableEngine_Update_def TableLoop_def)

lemma TableEngine_eq: "8 \<le> LENGTH('w::len) \<Longrightarrow> TableEngine_Update m (c :: 'w word) d = BitwiseEngine_Update m c d"
  by (simp add: TableEngine_Update_def TableLoop_eq bitwise.upd_Nil)

lemma SlicedEngine32_eq: "refin m \<Longrightarrow> SlicedEngine32_Update m c d = BitwiseEngine_Update m c d"
  by (simp add: SlicedEngine32_Update_def SlicingUpdate32_eq bitwise.upd_Nil)

lemma SlicedEngine64_eq: "refin m \<Longrightarrow> SlicedEngine64_Update m c d = BitwiseEngine_Update m c d"
  by (simp add: SlicedEngine64_Update_def SlicingUpdate64_eq bitwise.upd_Nil)

text \<open>The engines with eight tables only exist for reflected models.\<close>

interpretation sliced32: crc_engine "SlicedEngine32_Update (m\<lparr>refin := True\<rparr>)" for m
  by unfold_locales (simp_all add: SlicedEngine32_eq bitwise.upd_Nil bitwise.upd_append)

interpretation sliced64: crc_engine "SlicedEngine64_Update (m\<lparr>refin := True\<rparr>)" for m
  by unfold_locales (simp_all add: SlicedEngine64_eq bitwise.upd_Nil bitwise.upd_append)

section \<open>Error detection\<close>

text \<open>
  A polynomial with the term of degree zero makes the bit step injective: no information of the
  register is lost. In the reflected form this is the highest bit, in the normal form the lowest.
\<close>

definition has_unit :: "('w::len) word CRCModel \<Rightarrow> bool" where
  "has_unit m = bit (polynomial m) (if refin m then LENGTH('w) - 1 else 0)"

lemma crc_bit_kernel:
  fixes c :: "'w::len word"
  assumes "has_unit m" "crc_bit m c = 0"
  shows "c = 0"
proof (cases "refin m")
  case True
  have b0: "\<not> bit c 0"
  proof
    assume "bit c 0"
    then have "drop_bit 1 c XOR polynomial m = 0" using assms(2) True by (simp add: crc_bit_alt)
    then have "\<not> bit (drop_bit 1 c XOR polynomial m) (LENGTH('w) - 1)" by simp
    moreover have "\<not> bit (drop_bit 1 c) (LENGTH('w) - 1)" by (auto simp: bit_drop_bit_eq dest: bit_imp_le_length)
    ultimately show False using assms(1) True by (simp add: bit_xor_iff has_unit_def)
  qed
  then have "drop_bit 1 c = 0" using assms(2) True by (simp add: crc_bit_alt)
  then have "\<not> bit c (1 + i)" for i by (metis bit_drop_bit_eq bit_0_eq bot_apply bot_bool_def comp_apply)
  with b0 show ?thesis by (intro bit_word_eqI) (metis add.commute bit_0_eq bot_apply bot_bool_def Suc_eq_plus1 not0_implies_Suc)
next
  case False
  have top: "\<not> bit c (LENGTH('w) - 1)"
  proof
    assume "bit c (LENGTH('w) - 1)"
    then have "push_bit 1 c XOR polynomial m = 0" using assms(2) False by (simp add: crc_bit_alt)
    then have "\<not> bit (push_bit 1 c XOR polynomial m) 0" by simp
    moreover have "\<not> bit (push_bit 1 c) 0" using bit_push_bit_iff [of 1 c 0] by simp
    ultimately show False using assms(1) False by (simp add: bit_xor_iff has_unit_def)
  qed
  then have z: "push_bit 1 c = 0" using assms(2) False by (simp add: crc_bit_alt)
  show ?thesis
  proof (rule bit_word_eqI)
    fix i
    assume i: "i < LENGTH('w)"
    show "bit c i = bit 0 i"
    proof (cases "i = LENGTH('w) - 1")
      case False
      then have "i + 1 < LENGTH('w)" using i by linarith
      then have "bit c i = bit (push_bit 1 c) (i + 1)" using bit_push_bit_iff [of 1 c "i + 1"] by simp
      then show ?thesis by (simp only: z bit_0_eq bot_apply bot_bool_def)
    qed (use top in simp)
  qed
qed

lemma crc_byte_kernel: "has_unit m \<Longrightarrow> crc_byte m c = 0 \<Longrightarrow> c = 0"
proof -
  have "crc_bits n m c = 0 \<Longrightarrow> c = 0" if "has_unit m" for n c
    using that by (induction n arbitrary: c) (auto dest: crc_bit_kernel)
  then show "has_unit m \<Longrightarrow> crc_byte m c = 0 \<Longrightarrow> c = 0" by (simp add: crc_byte_def)
qed

lemma crc_bytes_inj:
  assumes "has_unit m" "(crc_byte m ^^ n) c = (crc_byte m ^^ n) d"
  shows "c = d"
proof -
  have "(crc_byte m ^^ n) x = 0 \<Longrightarrow> x = 0" for x
    using assms(1) by (induction n arbitrary: x) (auto dest: crc_byte_kernel)
  moreover have "(crc_byte m ^^ n) (c XOR d) = 0" using assms(2) by (simp add: crc_bytes_xor)
  ultimately have "c XOR d = 0" by blast
  then show ?thesis by (metis xor.assoc xor.comm_neutral xor_self_eq)
qed

lemma BitwiseEngine_inj:
  fixes c :: "'w::len word"
  assumes "has_unit m" "8 \<le> LENGTH('w)" "BitwiseEngine_Update m c ds = BitwiseEngine_Update m d ds"
  shows "c = d"
  using assms(3)
proof (induction ds arbitrary: c d)
  case (Cons b ds)
  then have "crc_byte m (c XOR inject m b) = crc_byte m (d XOR inject m b)"
    using Cons.IH [of "BitwiseByteUpdate m c b" "BitwiseByteUpdate m d b"] by (simp add: BitwiseEngine_Update_def BitwiseByteUpdate_eq assms(2))
  then have "c XOR inject m b = d XOR inject m b" using crc_bytes_inj [OF assms(1), of 1] by simp
  then show ?case by (metis xor.assoc xor.comm_neutral xor_self_eq)
qed (simp add: BitwiseEngine_Update_def)

lemma inject_bits:
  fixes m :: "('w::len) word CRCModel"
  assumes "8 \<le> LENGTH('w)"
  shows "bit (inject m b) i \<longleftrightarrow> (if refin m then i < 8 \<and> bit b i else LENGTH('w) - 8 \<le> i \<and> i < LENGTH('w) \<and> bit b (i - (LENGTH('w) - 8)))"
  using assms by (auto simp: inject_def bit_ucast_byte bit_push_bit_iff)

lemma mix_inj:
  fixes m :: "('w::len) word CRCModel"
  assumes "8 \<le> LENGTH('w)"
  shows "length d = length e \<Longrightarrow> 8 * length d \<le> LENGTH('w) \<Longrightarrow> mix m d = mix m e \<Longrightarrow> d = e"
proof (induction d e rule: list_induct2)
  case (Cons b d c e)
  have len: "8 * length d \<le> LENGTH('w) - 8" "8 * length e \<le> LENGTH('w) - 8" using Cons by simp_all
  have eq: "bit (mix m (b # d)) i = bit (mix m (c # e)) i" for i using Cons.prems by simp
  show ?case
  proof (cases "refin m")
    case True
    have "bit b i = bit c i" if "i < 8" for i
      using eq [of i] that assms True by (simp add: bit_xor_iff inject_bits bit_push_bit_iff)
    then have bc: "b = c" by (intro bit_word_eqI) simp
    have "bit (mix m d) i = bit (mix m e) i" if "i < LENGTH('w)" for i
    proof (cases "8 + i < LENGTH('w)")
      case True
      then show ?thesis using eq [of "8 + i"] bc
        by (cases "bit (inject m c) (8 + i)") (simp_all add: bit_xor_iff bit_push_bit_iff \<open>refin m\<close>)
    next
      case False
      then show ?thesis using mix_bits [of m d i] mix_bits [of m e i] len True by auto
    qed
    then have "mix m d = mix m e" by (intro bit_word_eqI) simp
    with bc Cons show ?thesis by simp
  next
    case False
    have "bit b i = bit c i" if "i < 8" for i
      using eq [of "LENGTH('w) - 8 + i"] that assms False
      by (auto simp: bit_xor_iff inject_bits bit_drop_bit_eq dest: bit_imp_le_length)
    then have bc: "b = c" by (intro bit_word_eqI) simp
    have "bit (mix m d) i = bit (mix m e) i" if "i < LENGTH('w)" for i
    proof (cases "8 \<le> i")
      case True
      then show ?thesis using eq [of "i - 8"] bc
        by (cases "bit (inject m c) (i - 8)") (simp_all add: bit_xor_iff bit_drop_bit_eq \<open>\<not> refin m\<close>)
    next
      case low: False
      then show ?thesis using mix_bits [of m d i] mix_bits [of m e i] len False assms by auto
    qed
    then have "mix m d = mix m e" by (intro bit_word_eqI) simp
    with bc Cons show ?thesis by simp
  qed
qed simp

text \<open>Reversing the bits of a register loses nothing.\<close>

lemma BitReverse_loop_bit:
  fixes v r :: "'w::len word"
  shows "k \<le> LENGTH('w) \<Longrightarrow> i < k \<Longrightarrow> bit (BitReverse_loop k r v) i \<longleftrightarrow> bit v (k - 1 - i)"
proof (induction k arbitrary: r v)
  case (Suc k)
  define r1 where "r1 = push_bit 1 r OR (v AND 1)"
  have rest: "bit (BitReverse_loop k s w) i \<longleftrightarrow> bit s (i - k)" if "k \<le> i" "i < LENGTH('w)" for s w :: "'w word" and i
    using that
  proof (induction k arbitrary: s w)
    case (Suc k)
    define s1 where "s1 = push_bit 1 s OR (w AND 1)"
    have "Suc 0 \<le> i - k" "i - k < LENGTH('w)" using Suc.prems by linarith+
    then have "bit s1 (i - k) = bit s (i - Suc k)"
      using bit_push_bit_iff [of 1 s "i - k"] Suc.prems by (simp add: s1_def bit_or_iff bit_and_iff bit_1_iff)
    with Suc.prems Suc.IH [of s1 "drop_bit 1 w"] show ?case by (simp add: s1_def)
  qed simp
  show ?case
  proof (cases "i = k")
    case True
    have "bit (BitReverse_loop k r1 (drop_bit 1 v)) k \<longleftrightarrow> bit r1 0" using rest [of k r1] Suc.prems by simp
    also have "bit r1 0 \<longleftrightarrow> bit v 0" using bit_push_bit_iff [of 1 r 0] by (simp add: r1_def bit_or_iff bit_and_iff bit_1_iff)
    finally show ?thesis using True by (simp add: r1_def)
  next
    case False
    with Suc.prems have "i < k" "1 + (k - 1 - i) = Suc k - 1 - i" by simp_all
    with Suc.prems Suc.IH [of r1 "drop_bit 1 v"] show ?thesis by (simp add: r1_def bit_drop_bit_eq)
  qed
qed simp

lemma BitReverse_bit: "i < LENGTH('w::len) \<Longrightarrow> bit (BitReverse (v :: 'w word)) i \<longleftrightarrow> bit v (LENGTH('w) - 1 - i)"
  by (simp add: BitReverse_def BitReverse_loop_bit)

lemma Finalize_inj: "Finalize m c = Finalize m (d :: 'w::len word) \<Longrightarrow> c = d"
proof -
  have rev: "c = d" if "BitReverse c = BitReverse d"
  proof (rule bit_word_eqI)
    fix i
    assume "i < LENGTH('w)"
    then show "bit c i = bit d i" using BitReverse_bit [of "LENGTH('w) - 1 - i" c] BitReverse_bit [of "LENGTH('w) - 1 - i" d] that by simp
  qed
  have "x = y" if "x XOR xorout m = y XOR xorout m" for x y using that by (metis xor.assoc xor.comm_neutral xor_self_eq)
  then show "Finalize m c = Finalize m d \<Longrightarrow> c = d" using rev by (auto simp: Finalize_def split: if_splits)
qed


section \<open>Properties\<close>

definition sample_crc32 :: "u32 CRCModel" where
  "sample_crc32 = \<lparr>polynomial = 0xEDB88320, initial = 0xFFFFFFFF, refin = True, refout = True, xorout = 0xFFFFFFFF\<rparr>"

definition sample_crc64 :: "u64 CRCModel" where
  "sample_crc64 = \<lparr>polynomial = 0xD800000000000000, initial = 0xFFFFFFFFFFFFFFFF, refin = True, refout = True, xorout = 0xFFFFFFFFFFFFFFFF\<rparr>"


lemma CRC_burst:
  fixes m :: "('w::len) word CRCModel"
  assumes "has_unit m" "8 \<le> LENGTH('w)" "length d = length e" "8 * length d \<le> LENGTH('w)" "d \<noteq> e"
  shows "Compute (BitwiseEngine_Update m) m (xs @ d @ ys) \<noteq> Compute (BitwiseEngine_Update m) m (xs @ e @ ys)"
proof
  assume "Compute (BitwiseEngine_Update m) m (xs @ d @ ys) = Compute (BitwiseEngine_Update m) m (xs @ e @ ys)"
  then have "BitwiseEngine_Update m (initial m) (xs @ d @ ys) = BitwiseEngine_Update m (initial m) (xs @ e @ ys)"
    unfolding Compute_def by (rule Finalize_inj)
  then have "BitwiseEngine_Update m (BitwiseEngine_Update m (BitwiseEngine_Update m (initial m) xs) d) ys =
      BitwiseEngine_Update m (BitwiseEngine_Update m (BitwiseEngine_Update m (initial m) xs) e) ys"
    by (simp add: bitwise.upd_append)
  then have "BitwiseEngine_Update m (BitwiseEngine_Update m (initial m) xs) d = BitwiseEngine_Update m (BitwiseEngine_Update m (initial m) xs) e"
    by (rule BitwiseEngine_inj [OF assms(1, 2)])
  then have "(crc_byte m ^^ length d) (BitwiseEngine_Update m (initial m) xs XOR mix m d) =
      (crc_byte m ^^ length d) (BitwiseEngine_Update m (initial m) xs XOR mix m e)"
    using assms by (simp add: BitwiseEngine_mix)
  then have "BitwiseEngine_Update m (initial m) xs XOR mix m d = BitwiseEngine_Update m (initial m) xs XOR mix m e"
    by (rule crc_bytes_inj [OF assms(1)])
  then have "mix m d = mix m e" by (metis xor.assoc xor.left_neutral xor_self_eq)
  with mix_inj [OF assms(2-4)] assms(5) show False by blast
qed

lemma presets_have_unit:
  "(\<forall>(n, m, k)\<in>set CRC8_models. has_unit m) \<and> (\<forall>(n, m, k)\<in>set CRC16_models. has_unit m) \<and>
   (\<forall>(n, m, k)\<in>set CRC32_models. has_unit m) \<and> (\<forall>(n, m, k)\<in>set CRC64_models. has_unit m)"
  by (simp add: CRC8_models_def CRC16_models_def CRC32_models_def CRC64_models_def has_unit_def bit_numeral_word_iff)

lemma presets_sliced:
  "(\<forall>(n, m, k)\<in>set CRC8_models. k = 1) \<and> (\<forall>(n, m, k)\<in>set CRC16_models. k = 1) \<and>
   (\<forall>(n, m, k)\<in>set CRC32_models. k = 1 \<or> k = 8 \<and> refin m) \<and> (\<forall>(n, m, k)\<in>set CRC64_models. k = 1 \<or> k = 8 \<and> refin m)"
  by (simp add: CRC8_models_def CRC16_models_def CRC32_models_def CRC64_models_def)

lemma consteval_text: "Update_text_consteval m c tx = TableEngine_Update m c (ByteSpan tx)"
proof -
  have "foldl (\<lambda>c ch. TableByteUpdate m t c (to_byte (ord ch))) c tx = foldl (TableByteUpdate m t) c (ByteSpan tx)" for t
    by (induction tx arbitrary: c) (simp_all add: ByteSpan_def)
  then show ?thesis by (simp add: Update_text_consteval_def TableEngine_Update_def TableLoop_def)
qed

text \<open>
  C30: All engines compute the same function: the table-driven engine agrees with the bit-by-bit one for
  every model of the supported widths, slicing by eight agrees with it for reflected models of 32
  and 64 bits, and a text has the same value at compile time (one table, byte by byte) as at run
  time. Feeding the data in pieces to a \<open>CRCState\<close> gives the value of the whole.
\<close>

theorem CRC_engines_agree:
  fixes m :: "('w::len) word CRCModel"
  assumes "LENGTH('w) \<in> {8, 16, 32, 64}" "refin m32" "refin m64"
  shows "TableEngine_Update m c d = BitwiseEngine_Update m c d \<and>
    SlicedEngine32_Update m32 c32 d = BitwiseEngine_Update m32 c32 d \<and>
    SlicedEngine64_Update m64 c64 d = BitwiseEngine_Update m64 c64 d \<and>
    Update_text (TableEngine_Update m) c tx = Update_text_consteval m c tx \<and>
    Update_text (SlicedEngine32_Update m32) c32 tx = Update_text_consteval m32 c32 tx \<and>
    Update_text (SlicedEngine64_Update m64) c64 tx = Update_text_consteval m64 c64 tx \<and>
    CRCState_Finalize m (foldl (CRCState_Update (TableEngine_Update m)) (CRCState_make m) chunks) = Compute (BitwiseEngine_Update m) m (concat chunks) \<and>
    CRCState_Finalize m32 (foldl (CRCState_Update (SlicedEngine32_Update m32)) (CRCState_make m32) chunks) = Compute (BitwiseEngine_Update m32) m32 (concat chunks) \<and>
    CRCState_Finalize m64 (foldl (CRCState_Update (SlicedEngine64_Update m64)) (CRCState_make m64) chunks) = Compute (BitwiseEngine_Update m64) m64 (concat chunks)"
proof -
  have t: "TableEngine_Update m c d = BitwiseEngine_Update m c d" for c d using assms(1) by (intro TableEngine_eq) auto
  have t32: "TableEngine_Update m32 c d = BitwiseEngine_Update m32 c d" for c d by (rule TableEngine_eq) simp
  have t64: "TableEngine_Update m64 c d = BitwiseEngine_Update m64 c d" for c d by (rule TableEngine_eq) simp
  have s: "m32\<lparr>refin := True\<rparr> = m32" "m64\<lparr>refin := True\<rparr> = m64" using assms(2, 3) by simp_all
  note chunks = table.state_chunks [of m m chunks] sliced32.state_chunks [of m32 m32 chunks, unfolded s] sliced64.state_chunks [of m64 m64 chunks, unfolded s]
  show ?thesis
    unfolding chunks Update_text_def consteval_text t32 t64 SlicedEngine32_eq [OF assms(2)] SlicedEngine64_eq [OF assms(3)]
    by (simp add: t Compute_def SlicedEngine32_eq [OF assms(2)] SlicedEngine64_eq [OF assms(3)])
qed

theorem CRC_engines_agree_witness:
  "CRCState_Finalize sample_crc32 (foldl (CRCState_Update (SlicedEngine32_Update sample_crc32)) (CRCState_make sample_crc32) [[1, 2], [3]]) =
     Compute (BitwiseEngine_Update sample_crc32) sample_crc32 [1, 2, 3]"
  using CRC_engines_agree [where ?'w = 32 and ?m = sample_crc32 and ?m32.0 = sample_crc32 and ?m64.0 = sample_crc64 and ?chunks = "[[1, 2], [3]]"]
  by (simp add: sample_crc32_def sample_crc64_def)

text \<open>
  C31: Every preset of the code detects every burst: two messages that differ only within a window of as
  many consecutive bytes as the register has, at the same place, have different checksums. This needs
  the unit term in the polynomial, which all the presets have; their table-driven engines compute the
  checksum here, the sliced ones the same value.
\<close>

theorem CRC_detects_bursts:
  fixes m :: "('w::len) word CRCModel"
  assumes "LENGTH('w) \<in> {8, 16, 32, 64}" "has_unit m" "length d = length e" "8 * length d \<le> LENGTH('w)" "d \<noteq> e"
  shows "Compute (TableEngine_Update m) m (xs @ d @ ys) \<noteq> Compute (TableEngine_Update m) m (xs @ e @ ys) \<and>
    (\<forall>(n, m, k)\<in>set CRC8_models. has_unit m \<and> k = 1) \<and> (\<forall>(n, m, k)\<in>set CRC16_models. has_unit m \<and> k = 1) \<and>
    (\<forall>(n, m, k)\<in>set CRC32_models. has_unit m \<and> (k = 1 \<or> k = 8 \<and> refin m)) \<and>
    (\<forall>(n, m, k)\<in>set CRC64_models. has_unit m \<and> (k = 1 \<or> k = 8 \<and> refin m))"
proof -
  have "8 \<le> LENGTH('w)" using assms(1) by auto
  then have "Compute (TableEngine_Update m) m (xs @ d @ ys) \<noteq> Compute (TableEngine_Update m) m (xs @ e @ ys)"
    using CRC_burst [OF assms(2) _ assms(3-5), of xs ys] TableEngine_eq [of m "initial m"] by (simp add: Compute_def)
  with presets_have_unit presets_sliced show ?thesis by fast
qed

theorem CRC_detects_bursts_witness:
  "Compute (TableEngine_Update sample_crc32) sample_crc32 ([9] @ [1, 2, 3, 4] @ [7]) \<noteq>
   Compute (TableEngine_Update sample_crc32) sample_crc32 ([9] @ [1, 5, 6, 4] @ [7])"
proof -
  have "has_unit sample_crc32" by (simp add: has_unit_def sample_crc32_def bit_numeral_word_iff)
  then show ?thesis using CRC_detects_bursts [of sample_crc32 "[1, 2, 3, 4]" "[1, 5, 6, 4]" "[9]" "[7]"] by simp
qed

end
