(* ===== verification/Sync_Spec.thy ===== *)
theory Sync_Spec
  imports NGIN_Prelude
begin

text \<open>
  The contract of a lock, for the locks of \<^verbatim>\<open>src/include/NGIN/Sync\<close>. A lock is a transition system whose steps
  are the atomic operations of the threads that use it, in any order (sequentially consistent
  interleavings); \<open>holds s t\<close> says that thread \<open>t\<close> has returned from an acquiring operation and has not
  released yet. The client proved here is the one locks are for: critical sections that read and
  write a shared variable in two separate steps.
\<close>

section \<open>Reachable states\<close>

inductive reaches :: "('s \<Rightarrow> bool) \<Rightarrow> ('s \<Rightarrow> 't \<Rightarrow> 's \<Rightarrow> bool) \<Rightarrow> 's \<Rightarrow> bool" for start step where
  reaches_start: "start s \<Longrightarrow> reaches start step s"
| reaches_step: "reaches start step s \<Longrightarrow> step s t s' \<Longrightarrow> reaches start step s'"

section \<open>A client of a lock\<close>

text \<open>
  The threads of the client run \<open>lock(); r = x; x = r + 1; unlock();\<close> around the steps of the lock
  itself. \<open>reg t\<close> is the value a thread has read and not yet written back; \<open>sections\<close> counts
  the completed writes.
\<close>

record ('s, 't) client =
  lock_state :: 's
  shared :: nat
  reg :: "'t \<Rightarrow> nat option"
  sections :: nat

inductive client_step ::
  "('s \<Rightarrow> 't \<Rightarrow> 's \<Rightarrow> bool) \<Rightarrow> ('s \<Rightarrow> 't \<Rightarrow> bool) \<Rightarrow> ('s, 't) client \<Rightarrow> 't \<Rightarrow> ('s, 't) client \<Rightarrow> bool"
  for step holds where
  client_lock: "step (lock_state c) t s' \<Longrightarrow> (holds (lock_state c) t \<longrightarrow> holds s' t) \<Longrightarrow>
    client_step step holds c t (c\<lparr>lock_state := s'\<rparr>)"
| client_read: "holds (lock_state c) t \<Longrightarrow> reg c t = None \<Longrightarrow>
    client_step step holds c t (c\<lparr>reg := (reg c)(t := Some (shared c))\<rparr>)"
| client_write: "holds (lock_state c) t \<Longrightarrow> reg c t = Some r \<Longrightarrow>
    client_step step holds c t (c\<lparr>shared := r + 1, reg := (reg c)(t := None), sections := sections c + 1\<rparr>)"
| client_unlock: "step (lock_state c) t s' \<Longrightarrow> holds (lock_state c) t \<Longrightarrow> \<not> holds s' t \<Longrightarrow> reg c t = None \<Longrightarrow>
    client_step step holds c t (c\<lparr>lock_state := s'\<rparr>)"

definition client_start :: "('s \<Rightarrow> bool) \<Rightarrow> ('s, 't) client \<Rightarrow> bool" where
  "client_start start c \<longleftrightarrow> start (lock_state c) \<and> shared c = 0 \<and> reg c = (\<lambda>_. None) \<and> sections c = 0"

section \<open>The contract\<close>

locale mutex =
  fixes start :: "'s \<Rightarrow> bool"
    and step :: "'s \<Rightarrow> 't \<Rightarrow> 's \<Rightarrow> bool"
    and holds :: "'s \<Rightarrow> 't \<Rightarrow> bool"
    and inv :: "'s \<Rightarrow> bool"
  assumes inv_start: "start s \<Longrightarrow> inv s"
    and inv_step: "inv s \<Longrightarrow> step s t s' \<Longrightarrow> inv s'"
    and exclusive: "inv s \<Longrightarrow> holds s t \<Longrightarrow> holds s u \<Longrightarrow> t = u"
    and others_keep: "inv s \<Longrightarrow> step s t s' \<Longrightarrow> u \<noteq> t \<Longrightarrow> holds s u \<Longrightarrow> holds s' u"
begin

lemma reaches_inv: "reaches start step s \<Longrightarrow> inv s"
  by (induction rule: reaches.induct) (auto intro: inv_start inv_step)

lemma mutual_exclusion: "reaches start step s \<Longrightarrow> holds s t \<Longrightarrow> holds s u \<Longrightarrow> t = u"
  using reaches_inv exclusive by blast

text \<open>Only the holder has a pending value, and it is the current one.\<close>

definition client_inv :: "('s, 't) client \<Rightarrow> bool" where
  "client_inv c \<longleftrightarrow> inv (lock_state c) \<and> shared c = sections c \<and>
     (\<forall>t r. reg c t = Some r \<longrightarrow> holds (lock_state c) t \<and> r = shared c)"

lemma client_inv_lock:
  assumes "client_inv c" "step (lock_state c) t s'" "reg c t = None \<or> holds s' t"
  shows "client_inv (c\<lparr>lock_state := s'\<rparr>)"
proof -
  have "holds s' u" if "reg c u = Some r" for u r
    using assms that others_keep [of "lock_state c" t s' u] by (cases "u = t") (auto simp: client_inv_def)
  with assms show ?thesis by (auto simp: client_inv_def intro: inv_step)
qed

lemma client_inv_step: "client_step step holds c t c' \<Longrightarrow> client_inv c \<Longrightarrow> client_inv c'"
proof (induction rule: client_step.induct)
  case (client_lock c t s')
  then have "reg c t = None \<or> holds s' t" by (cases "reg c t") (auto simp: client_inv_def)
  with client_lock show ?case by (blast intro: client_inv_lock)
next
  case (client_read c t)
  then show ?case by (auto simp: client_inv_def)
next
  case (client_write c t r)
  have "reg c u = None" if "u \<noteq> t" for u
    using client_write that exclusive [of "lock_state c" u t] by (cases "reg c u") (auto simp: client_inv_def)
  moreover have "r = sections c" using client_write by (auto simp: client_inv_def)
  ultimately show ?case using client_write by (simp add: client_inv_def)
next
  case (client_unlock c t s')
  then show ?case by (intro client_inv_lock) auto
qed

lemma client_inv_start: "client_start start c \<Longrightarrow> client_inv c"
  by (simp add: client_start_def client_inv_def inv_start)

lemma client_no_lost_update:
  assumes "reaches (client_start start) (client_step step holds) c"
  shows "shared c = sections c \<and> (\<forall>t r. reg c t = Some r \<longrightarrow> r = shared c)"
proof -
  have "client_inv c"
    using assms
    by (induction rule: reaches.induct) (blast intro: client_inv_step client_inv_start)+
  then show ?thesis unfolding client_inv_def by metis
qed

end

section \<open>Fair runs\<close>

text \<open>
  An infinite run: at each time one thread takes a step or nothing happens. It is fair when a thread
  that is inside of an operation, or holds the lock, takes another step eventually.
\<close>

definition lock_run :: "('s \<Rightarrow> 't \<Rightarrow> 's \<Rightarrow> bool) \<Rightarrow> (nat \<Rightarrow> 's) \<Rightarrow> (nat \<Rightarrow> 't option) \<Rightarrow> bool" where
  "lock_run step run who \<longleftrightarrow>
     (\<forall>i. case who i of None \<Rightarrow> run (Suc i) = run i | Some t \<Rightarrow> step (run i) t (run (Suc i)))"

definition fair :: "('s \<Rightarrow> 't \<Rightarrow> bool) \<Rightarrow> (nat \<Rightarrow> 's) \<Rightarrow> (nat \<Rightarrow> 't option) \<Rightarrow> bool" where
  "fair active run who \<longleftrightarrow> (\<forall>i t. active (run i) t \<longrightarrow> (\<exists>j\<ge>i. who j = Some t))"

lemma lock_run_other: "lock_run step run who \<Longrightarrow> who i = None \<Longrightarrow> run (Suc i) = run i"
  and lock_run_step: "lock_run step run who \<Longrightarrow> who i = Some t \<Longrightarrow> step (run i) t (run (Suc i))"
  by (auto simp: lock_run_def split: option.splits dest: spec [of _ i])

text \<open>What a thread sees at its next step: everything that the other threads keep.\<close>

lemma fair_next_step:
  assumes "fair active run who" "active (run i) t" "Q (run i)"
    and keep: "\<And>j. i \<le> j \<Longrightarrow> Q (run j) \<Longrightarrow> who j \<noteq> Some t \<Longrightarrow> Q (run (Suc j))"
  obtains j where "i \<le> j" "Q (run j)" "who j = Some t"
proof -
  define j where "j = (LEAST j. i \<le> j \<and> who j = Some t)"
  have "\<exists>j. i \<le> j \<and> who j = Some t" using assms(1, 2) by (auto simp: fair_def)
  then have j: "i \<le> j" "who j = Some t" unfolding j_def by (metis (mono_tags, lifting) LeastI)+
  have "Q (run k)" if "i \<le> k" "k \<le> j" for k
    using that
  proof (induction k rule: dec_induct)
    case base then show ?case using assms(3) by simp
  next
    case (step k)
    then have "who k \<noteq> Some t" using not_less_Least [of k "\<lambda>j. i \<le> j \<and> who j = Some t"] by (auto simp: j_def)
    with step show ?case by (auto intro: keep)
  qed
  with j show ?thesis using that by auto
qed

end
