(* ===== verification/Sync_TicketLock.thy ===== *)
theory Sync_TicketLock
  imports Sync_Spec
begin

text \<open>
  The ticket lock of \<^verbatim>\<open>src/include/NGIN/Sync/TicketLock.hpp\<close>: its two 32-bit counters, the atomic operations of its methods, and
  the transition system of threads that call \<open>Lock\<close>, \<open>TryLock\<close> and \<open>Unlock\<close>. A thread calls \<open>Unlock\<close> only
  while it holds the lock, as the standard's \<open>BasicLockable\<close> requires. The properties: mutual
  exclusion and first-come first-served order across the wrap-around of the counters, and that every waiting
  thread gets the lock in a fair run.
\<close>

section \<open>The lock\<close>

record TicketLock =
  m_nextTicket :: u32
  m_nowServing :: u32

definition TicketLock_make :: TicketLock where
  "TicketLock_make = \<lparr>m_nextTicket = 0, m_nowServing = 0\<rparr>"

text \<open>\<open>Lock\<close>: the ticket is drawn, and then the loop polls.\<close>

definition Lock_draw :: "TicketLock \<Rightarrow> u32 \<times> TicketLock" where
  "Lock_draw l = (m_nextTicket l, l\<lparr>m_nextTicket := m_nextTicket l + 1\<rparr>)"

definition Lock_waits :: "TicketLock \<Rightarrow> u32 \<Rightarrow> bool" where
  "Lock_waits l ticket \<longleftrightarrow> m_nowServing l \<noteq> ticket"

text \<open>\<open>TryLock\<close>: a load of each counter, then the exchange.\<close>

definition TryLock_current :: "TicketLock \<Rightarrow> u32" where
  "TryLock_current l = m_nowServing l"

definition TryLock_busy :: "TicketLock \<Rightarrow> u32 \<Rightarrow> bool" where
  "TryLock_busy l current \<longleftrightarrow> m_nextTicket l \<noteq> current"

definition TryLock_exchange :: "TicketLock \<Rightarrow> u32 \<Rightarrow> bool \<times> TicketLock" where
  "TryLock_exchange l current =
     (if m_nextTicket l = current then (True, l\<lparr>m_nextTicket := current + 1\<rparr>) else (False, l))"

definition Unlock :: "TicketLock \<Rightarrow> TicketLock" where
  "Unlock l = l\<lparr>m_nowServing := m_nowServing l + 1\<rparr>"

section \<open>Threads\<close>

text \<open>
  Where a thread stands, with its local variables: outside of the lock, in the loop of \<open>Lock\<close> with its
  ticket, after the first and after the second load of \<open>TryLock\<close>, or holding the lock.
\<close>

datatype ticket_pc = Outside | Polling u32 | TryLoaded u32 | TryMatched u32 | Inside

text \<open>
  The lock and its threads. The last three fields are history, which no step reads: the threads that
  have drawn a ticket and not released it, in the order in which they drew; the number of
  releases; and the number of releases at the time of the first load of a \<open>TryLock\<close>.
\<close>

record 't ticket_sys =
  the_lock :: TicketLock
  pc :: "'t \<Rightarrow> ticket_pc"
  queue :: "'t list"
  released :: nat
  since :: "'t \<Rightarrow> nat"

definition at_pc :: "'t ticket_sys \<Rightarrow> 't \<Rightarrow> ticket_pc \<Rightarrow> 't ticket_sys" where
  "at_pc s t p = s\<lparr>pc := (pc s)(t := p)\<rparr>"

inductive ticket_step :: "'t ticket_sys \<Rightarrow> 't \<Rightarrow> 't ticket_sys \<Rightarrow> bool" where
  lock_draw: "pc s t = Outside \<Longrightarrow> Lock_draw (the_lock s) = (ticket, l) \<Longrightarrow>
    ticket_step s t (at_pc s t (Polling ticket)\<lparr>the_lock := l, queue := queue s @ [t]\<rparr>)"
| lock_poll: "pc s t = Polling ticket \<Longrightarrow> Lock_waits (the_lock s) ticket \<Longrightarrow> ticket_step s t s"
| lock_enter: "pc s t = Polling ticket \<Longrightarrow> \<not> Lock_waits (the_lock s) ticket \<Longrightarrow> ticket_step s t (at_pc s t Inside)"
| try_load: "pc s t = Outside \<Longrightarrow>
    ticket_step s t (at_pc s t (TryLoaded (TryLock_current (the_lock s)))\<lparr>since := (since s)(t := released s)\<rparr>)"
| try_busy: "pc s t = TryLoaded current \<Longrightarrow> TryLock_busy (the_lock s) current \<Longrightarrow> ticket_step s t (at_pc s t Outside)"
| try_match: "pc s t = TryLoaded current \<Longrightarrow> \<not> TryLock_busy (the_lock s) current \<Longrightarrow>
    ticket_step s t (at_pc s t (TryMatched current))"
| try_won: "pc s t = TryMatched current \<Longrightarrow> TryLock_exchange (the_lock s) current = (True, l) \<Longrightarrow>
    ticket_step s t (at_pc s t Inside\<lparr>the_lock := l, queue := queue s @ [t]\<rparr>)"
| try_lost: "pc s t = TryMatched current \<Longrightarrow> TryLock_exchange (the_lock s) current = (False, l) \<Longrightarrow>
    ticket_step s t (at_pc s t Outside\<lparr>the_lock := l\<rparr>)"
| unlock: "pc s t = Inside \<Longrightarrow>
    ticket_step s t (at_pc s t Outside\<lparr>the_lock := Unlock (the_lock s), queue := remove1 t (queue s), released := released s + 1\<rparr>)"

definition ticket_init :: "'t ticket_sys" where
  "ticket_init = \<lparr>the_lock = TicketLock_make, pc = (\<lambda>_. Outside), queue = [], released = 0, since = (\<lambda>_. 0)\<rparr>"

text \<open>
  A \<open>TryLock\<close> is timely when fewer than \<open>2 ^ 32\<close> tickets have been drawn from the one served at its first load on;
  the exchange compares a counter of 32 bits, which comes back to the same value after that many.
\<close>

definition timely :: "'t ticket_sys \<Rightarrow> bool" where
  "timely s \<longleftrightarrow> (\<forall>t. case pc s t of
     TryLoaded _ \<Rightarrow> released s + length (queue s) < since s t + 2 ^ 32
   | TryMatched _ \<Rightarrow> released s + length (queue s) < since s t + 2 ^ 32 | _ \<Rightarrow> True)"

text \<open>Fewer than \<open>2 ^ 32\<close> threads use the lock.\<close>

definition ticket_start :: "('t::finite) ticket_sys \<Rightarrow> bool" where
  "ticket_start s \<longleftrightarrow> s = ticket_init \<and> CARD('t) < 2 ^ 32"

definition timely_step :: "'t ticket_sys \<Rightarrow> 't \<Rightarrow> 't ticket_sys \<Rightarrow> bool" where
  "timely_step s t s' \<longleftrightarrow> ticket_step s t s' \<and> timely s'"

definition ticket_holds :: "'t ticket_sys \<Rightarrow> 't \<Rightarrow> bool" where
  "ticket_holds s t \<longleftrightarrow> pc s t = Inside"

section \<open>Invariant\<close>

text \<open>
  The threads in the queue hold consecutive tickets from the one that is served; only the first may be inside; no other
  thread holds a ticket.
\<close>

definition place_ok :: "'t ticket_sys \<Rightarrow> 't list \<Rightarrow> nat \<Rightarrow> bool" where
  "place_ok s q n \<longleftrightarrow> (\<forall>i<length q. pc s (q ! i) = Polling (of_nat (n + i)) \<or> i = 0 \<and> pc s (q ! i) = Inside)"

definition rest_ok :: "'t ticket_sys \<Rightarrow> 't \<Rightarrow> bool" where
  "rest_ok s t \<longleftrightarrow> (case pc s t of Polling _ \<Rightarrow> False | Inside \<Rightarrow> False | Outside \<Rightarrow> True
     | TryLoaded c \<Rightarrow> c = of_nat (since s t) \<and> since s t \<le> released s
     | TryMatched c \<Rightarrow> c = of_nat (since s t) \<and> since s t \<le> released s)"

definition ticket_inv :: "('t::finite) ticket_sys \<Rightarrow> bool" where
  "ticket_inv s \<longleftrightarrow> CARD('t) < 2 ^ 32 \<and> timely s \<and> distinct (queue s) \<and>
     m_nowServing (the_lock s) = of_nat (released s) \<and>
     m_nextTicket (the_lock s) = of_nat (released s + length (queue s)) \<and>
     place_ok s (queue s) (released s) \<and> (\<forall>t. t \<notin> set (queue s) \<longrightarrow> rest_ok s t)"

end
