(* ===== verification/Sync_TicketLock_Props.thy ===== *)
theory Sync_TicketLock_Props
  imports Sync_TicketLock
begin

text \<open>
  Properties of the ticket lock: the invariant that the queue of the threads holds consecutive tickets, kept by every timely step; the lock as an
  interpretation of \<open>mutex\<close>; liveness by following the first of the queue; and the run that shows why
  \<open>TryLock\<close> has to be timely.
\<close>

section \<open>The invariant is kept\<close>

lemma at_pc_simps [simp]:
  "pc (at_pc s t p) = (pc s)(t := p)" "the_lock (at_pc s t p) = the_lock s" "queue (at_pc s t p) = queue s"
  "released (at_pc s t p) = released s" "since (at_pc s t p) = since s"
  by (simp_all add: at_pc_def)

lemma of_nat_window: "of_nat a = (of_nat b :: u32) \<Longrightarrow> b \<le> a \<Longrightarrow> a < b + 2 ^ 32 \<Longrightarrow> a = b"
proof -
  assume h: "of_nat a = (of_nat b :: u32)" "b \<le> a" "a < b + 2 ^ 32"
  have "(of_nat (a - b) :: u32) = 0" using h(1, 2) by simp
  then have "2 ^ 32 dvd a - b" by (simp add: word_of_nat_eq_0_iff)
  moreover have "a - b < 2 ^ 32" using h(2, 3) by linarith
  ultimately have "a - b = 0" using nat_dvd_not_less by blast
  with h(2) show "a = b" by simp
qed

lemma place_ok_other: "t \<notin> set q \<Longrightarrow> pc s' = (pc s)(t := p) \<Longrightarrow> place_ok s' q n = place_ok s q n"
  unfolding place_ok_def by (auto simp: in_set_conv_nth)

lemma place_ok_pc: "place_ok s q n \<Longrightarrow> t \<in> set q \<Longrightarrow> pc s t = Inside \<or> (\<exists>k. pc s t = Polling k)"
  by (auto simp: place_ok_def in_set_conv_nth)

lemma rest_ok_pc: "rest_ok s t \<Longrightarrow> pc s t \<noteq> Inside \<and> pc s t \<noteq> Polling k"
  by (auto simp: rest_ok_def)

lemma rest_ok_mono:
  "rest_ok s u \<Longrightarrow> pc s' u = pc s u \<Longrightarrow> since s' u = since s u \<Longrightarrow> released s \<le> released s' \<Longrightarrow> rest_ok s' u"
  by (auto simp: rest_ok_def split: ticket_pc.splits)

lemma rest_ok_outside: "pc s u = Outside \<Longrightarrow> rest_ok s u"
  by (simp add: rest_ok_def)

lemma ticket_inv_restD: "ticket_inv s \<Longrightarrow> u \<notin> set (queue s) \<Longrightarrow> rest_ok s u"
  by (simp add: ticket_inv_def)

lemma queue_pc:
  assumes "ticket_inv s"
  shows "t \<in> set (queue s) \<longleftrightarrow> pc s t = Inside \<or> (\<exists>k. pc s t = Polling k)"
  using assms place_ok_pc [of s "queue s" "released s" t] rest_ok_pc [of s t] by (auto simp: ticket_inv_def)

lemma queue_short: "ticket_inv (s :: ('t::finite) ticket_sys) \<Longrightarrow> length (queue s) < 2 ^ 32"
proof -
  assume s: "ticket_inv s"
  have "length (queue s) = card (set (queue s))" using s by (simp add: ticket_inv_def distinct_card)
  also have "\<dots> \<le> CARD('t)" by (rule card_mono) auto
  also have "\<dots> < 2 ^ 32" using s by (simp add: ticket_inv_def)
  finally show ?thesis .
qed

text \<open>A thread inside is the first; a thread that polls the ticket that is served is the first.\<close>

lemma inside_first:
  assumes "ticket_inv s" "pc s t = Inside"
  shows "queue s = t # tl (queue s)"
proof -
  have "t \<in> set (queue s)" using assms queue_pc by blast
  then obtain i where i: "i < length (queue s)" "queue s ! i = t" by (auto simp: in_set_conv_nth)
  then have "i = 0" using assms by (auto simp: ticket_inv_def place_ok_def)
  with i show ?thesis by (cases "queue s") auto
qed

lemma polling_place:
  assumes "ticket_inv s" "pc s t = Polling k"
  obtains i where "i < length (queue s)" "queue s ! i = t" "k = of_nat (released s + i)"
proof -
  have "t \<in> set (queue s)" using assms queue_pc by blast
  then obtain i where i: "i < length (queue s)" "queue s ! i = t" by (auto simp: in_set_conv_nth)
  with assms have "k = of_nat (released s + i)" by (auto simp: ticket_inv_def place_ok_def)
  with i that show ?thesis by blast
qed

lemma polling_served_first:
  assumes "ticket_inv s" "pc s t = Polling k"
  shows "\<not> Lock_waits (the_lock s) k \<longleftrightarrow> queue s ! 0 = t"
proof -
  obtain i where i: "i < length (queue s)" "queue s ! i = t" "k = of_nat (released s + i)"
    using polling_place [OF assms] .
  have "of_nat (released s) = k \<longleftrightarrow> i = 0"
    using i(1) queue_short [OF assms(1)] of_nat_window [of "released s + i" "released s"] by (auto simp: i(3) simp del: of_nat_add)
  moreover have "queue s ! 0 = t \<longleftrightarrow> i = 0"
    using i(1, 2) assms(1) nth_eq_iff_index_eq [of "queue s" 0 i] unfolding ticket_inv_def by force
  ultimately show ?thesis using assms(1) by (auto simp: Lock_waits_def ticket_inv_def)
qed

text \<open>A timely \<open>TryLock\<close> that finds the counter unchanged finds the lock free.\<close>

lemma try_finds_free:
  assumes "ticket_inv s" "pc s t = TryLoaded c \<or> pc s t = TryMatched c" "m_nextTicket (the_lock s) = c"
  shows "queue s = []"
proof -
  have "t \<notin> set (queue s)" using assms(2) queue_pc [OF assms(1), of t] by auto
  then have r: "rest_ok s t" using assms(1) by (simp add: ticket_inv_def)
  then have c: "c = of_nat (since s t)" "since s t \<le> released s" using assms(2) by (auto simp: rest_ok_def)
  have w: "released s + length (queue s) < since s t + 2 ^ 32"
  proof -
    have "timely s" using assms(1) by (simp add: ticket_inv_def)
    then show ?thesis using assms(2) unfolding timely_def by (auto dest: spec [of _ t])
  qed
  have "of_nat (released s + length (queue s)) = (of_nat (since s t) :: u32)"
    using assms(1, 3) c(1) by (simp add: ticket_inv_def)
  from of_nat_window [OF this] c(2) w have "released s + length (queue s) = since s t" by simp
  with c(2) have "length (queue s) = 0" by linarith
  then show ?thesis by simp
qed

lemma ticket_inv_draw:
  assumes "ticket_inv s" "pc s t \<noteq> Inside" "\<And>k. pc s t \<noteq> Polling k"
    and "p = Polling (m_nextTicket (the_lock s)) \<or> p = Inside \<and> queue s = []"
    and "s' = at_pc s t p\<lparr>the_lock := (the_lock s)\<lparr>m_nextTicket := m_nextTicket (the_lock s) + 1\<rparr>, queue := queue s @ [t]\<rparr>" "timely s'"
  shows "ticket_inv s'"
proof -
  have t: "t \<notin> set (queue s)" using assms(2, 3) queue_pc [OF assms(1), of t] by blast
  have "place_ok s (queue s) (released s)" using assms(1) by (simp add: ticket_inv_def)
  then have old: "place_ok s' (queue s) (released s)" using place_ok_other [OF t, of s' s p] by (simp add: assms(5))
  have p: "pc s' t = p" "m_nextTicket (the_lock s) = of_nat (released s + length (queue s))"
    using assms(1) by (simp_all add: assms(5) ticket_inv_def)
  have "place_ok s' (queue s @ [t]) (released s)"
    unfolding place_ok_def
  proof (intro allI impI)
    fix i assume i: "i < length (queue s @ [t])"
    show "pc s' ((queue s @ [t]) ! i) = Polling (of_nat (released s + i)) \<or> i = 0 \<and> pc s' ((queue s @ [t]) ! i) = Inside"
    proof (cases "i < length (queue s)")
      case True then show ?thesis using old by (auto simp: place_ok_def nth_append)
    next
      case False
      then have "i = length (queue s)" using i by simp
      then show ?thesis using p assms(4) by auto
    qed
  qed
  moreover have "rest_ok s' u" if "u \<notin> set (queue s @ [t])" for u
    using that by (intro rest_ok_mono [OF ticket_inv_restD [OF assms(1)]]) (auto simp: assms(5))
  ultimately show ?thesis using assms(1, 6) t p(2) by (simp add: ticket_inv_def assms(5))
qed

text \<open>Steps that change neither the counters nor the queue, of threads outside of the queue.\<close>

lemma ticket_inv_rest:
  assumes "ticket_inv s" "t \<notin> set (queue s)" "pc s' = (pc s)(t := p)" "timely s'" "rest_ok s' t"
    "the_lock s' = the_lock s" "queue s' = queue s" "released s' = released s" "\<And>u. u \<noteq> t \<Longrightarrow> since s' u = since s u"
  shows "ticket_inv s'"
proof -
  have "rest_ok s' u" if "u \<notin> set (queue s)" for u
    using that assms(3, 5, 8, 9) by (cases "u = t") (auto intro: rest_ok_mono [OF ticket_inv_restD [OF assms(1)]])
  then show ?thesis using assms place_ok_other [OF assms(2, 3)] by (simp add: ticket_inv_def)
qed

lemma ticket_inv_enter:
  assumes "ticket_inv s" "pc s t = Polling k" "\<not> Lock_waits (the_lock s) k" "timely (at_pc s t Inside)"
  shows "ticket_inv (at_pc s t Inside)"
proof -
  have t: "t \<in> set (queue s)" "queue s ! 0 = t"
    using queue_pc [OF assms(1)] polling_served_first [OF assms(1, 2)] assms(2, 3) by blast+
  have "place_ok (at_pc s t Inside) (queue s) (released s)"
    unfolding place_ok_def
  proof (intro allI impI)
    fix i assume i: "i < length (queue s)"
    have "queue s ! i = t \<longleftrightarrow> i = 0"
      using i t assms(1) nth_eq_iff_index_eq [of "queue s" i 0] unfolding ticket_inv_def by force
    then show "pc (at_pc s t Inside) (queue s ! i) = Polling (of_nat (released s + i)) \<or> i = 0 \<and> pc (at_pc s t Inside) (queue s ! i) = Inside"
      using i assms(1) by (auto simp: ticket_inv_def place_ok_def)
  qed
  moreover have "rest_ok (at_pc s t Inside) u" if "u \<notin> set (queue s)" for u
    using that t(1) by (intro rest_ok_mono [OF ticket_inv_restD [OF assms(1) that]]) auto
  ultimately show ?thesis using assms by (simp add: ticket_inv_def)
qed

lemma ticket_inv_unlock:
  assumes "ticket_inv s" "pc s t = Inside"
    and "s' = at_pc s t Outside\<lparr>the_lock := Unlock (the_lock s), queue := remove1 t (queue s), released := released s + 1\<rparr>" "timely s'"
  shows "ticket_inv s'"
proof -
  obtain q where q: "queue s = t # q" using inside_first [OF assms(1, 2)] by blast
  then have t: "t \<notin> set q" using assms(1) by (simp add: ticket_inv_def)
  have "place_ok s q (released s + 1)"
    unfolding place_ok_def
  proof (intro allI impI)
    fix i assume "i < length q"
    then show "pc s (q ! i) = Polling (of_nat (released s + 1 + i)) \<or> i = 0 \<and> pc s (q ! i) = Inside"
      using assms(1) q unfolding ticket_inv_def place_ok_def by (auto dest!: spec [of _ "Suc i"])
  qed
  then have "place_ok s' q (released s + 1)" using place_ok_other [OF t, of s' s] by (simp add: assms(3))
  moreover have "rest_ok s' u" if "u \<notin> set q" for u
    using that q by (cases "u = t") (auto simp: assms(3) intro: rest_ok_outside rest_ok_mono [OF ticket_inv_restD [OF assms(1)]])
  ultimately show ?thesis using assms(1, 4) q by (simp add: ticket_inv_def assms(3) Unlock_def add.commute add.left_commute)
qed

lemma ticket_inv_step:
  assumes "ticket_step s t s'" "ticket_inv s" "timely s'"
  shows "ticket_inv s'"
  using assms
proof (induction rule: ticket_step.induct)
  case (lock_draw s t ticket l)
  have d: "ticket = m_nextTicket (the_lock s)" "l = (the_lock s)\<lparr>m_nextTicket := m_nextTicket (the_lock s) + 1\<rparr>"
    using lock_draw(2) by (auto simp: Lock_draw_def)
  show ?case by (rule ticket_inv_draw [of s t "Polling ticket"]) (use lock_draw in \<open>simp_all add: d\<close>)
next
  case (lock_enter s t ticket)
  then show ?case by (intro ticket_inv_enter)
next
  case (try_load s t)
  have r: "t \<notin> set (queue s)" "m_nowServing (the_lock s) = of_nat (released s)"
    using try_load queue_pc [of s t] by (auto simp: ticket_inv_def)
  show ?case
    by (rule ticket_inv_rest [OF \<open>ticket_inv s\<close> r(1) _ try_load(3), where p = "TryLoaded (TryLock_current (the_lock s))"])
      (simp_all add: rest_ok_def TryLock_current_def r(2))
next
  case (try_busy s t current)
  have "t \<notin> set (queue s)" using try_busy queue_pc [of s t] by auto
  from ticket_inv_rest [OF \<open>ticket_inv s\<close> this _ try_busy(4), where p = Outside] show ?case
    by (simp add: rest_ok_def)
next
  case (try_match s t current)
  have r: "t \<notin> set (queue s)" using try_match queue_pc [of s t] by auto
  have "rest_ok s t" using try_match r by (intro ticket_inv_restD)
  with ticket_inv_rest [OF \<open>ticket_inv s\<close> r _ try_match(4), where p = "TryMatched current"] try_match(1) show ?case
    by (simp add: rest_ok_def)
next
  case (try_won s t current l)
  then have c: "m_nextTicket (the_lock s) = current" by (auto simp: TryLock_exchange_def split: if_splits)
  then have l: "l = (the_lock s)\<lparr>m_nextTicket := m_nextTicket (the_lock s) + 1\<rparr>" using try_won by (simp add: TryLock_exchange_def)
  have "queue s = []" by (rule try_finds_free [OF \<open>ticket_inv s\<close> _ c]) (use try_won in blast)
  then show ?case by (intro ticket_inv_draw [OF \<open>ticket_inv s\<close> _ _ _ _ try_won(4), where p = Inside]) (simp_all only: try_won(1) l, simp_all)
next
  case (try_lost s t current l)
  have r: "t \<notin> set (queue s)" using try_lost queue_pc [of s t] by auto
  have "l = the_lock s" using try_lost(2) by (simp add: TryLock_exchange_def split: if_splits)
  with ticket_inv_rest [OF \<open>ticket_inv s\<close> r _ try_lost(4), where p = Outside] show ?case
    by (simp add: rest_ok_def)
next
  case (unlock s t)
  then show ?case by (intro ticket_inv_unlock [OF _ _ refl])
qed simp

lemma ticket_inv_init: "ticket_start s \<Longrightarrow> ticket_inv s"
  by (simp add: ticket_start_def ticket_inv_def ticket_init_def timely_def place_ok_def rest_ok_def TicketLock_make_def)

lemma ticket_step_others:
  "ticket_step s t s' \<Longrightarrow> u \<noteq> t \<Longrightarrow> pc s' u = pc s u"
  by (induction rule: ticket_step.induct) auto

interpretation ticket: mutex ticket_start timely_step ticket_holds ticket_inv
proof unfold_locales
  show "t = u" if "ticket_inv s" "ticket_holds s t" "ticket_holds s u" for s t u
    using inside_first [OF that(1), of t] inside_first [OF that(1), of u] that(2, 3) unfolding ticket_holds_def by (metis list.inject)
qed (auto simp: timely_step_def ticket_holds_def ticket_step_others intro: ticket_inv_step ticket_inv_init)

section \<open>Liveness\<close>

definition ticket_active :: "'t ticket_sys \<Rightarrow> 't \<Rightarrow> bool" where
  "ticket_active s t \<longleftrightarrow> pc s t \<noteq> Outside"

lemma ticket_run_inv:
  assumes "ticket_start (run 0)" "lock_run timely_step run who"
  shows "ticket_inv (run i)"
proof (induction i)
  case 0 show ?case using assms(1) by (rule ticket_inv_init)
next
  case (Suc i)
  show ?case
  proof (cases "who i")
    case None then show ?thesis using Suc lock_run_other [OF assms(2)] by simp
  next
    case (Some t) then show ?thesis using Suc lock_run_step [OF assms(2)] ticket.inv_step by blast
  qed
qed

text \<open>Other threads only append to the queue while the first of it does not release.\<close>

lemma ticket_step_queue:
  assumes "ticket_step s t s'" "ticket_inv s" "queue s = h # q"
  shows "t = h \<and> pc s h = Inside \<and> queue s' = q \<or> (\<exists>r. queue s' = (h # q) @ r)"
  using assms
proof (induction rule: ticket_step.induct)
  case (unlock s t)
  then show ?case using inside_first [of s t] by auto
qed auto

lemma ticket_run_queue:
  assumes "lock_run timely_step run who" "ticket_inv (run j)" "\<exists>r. queue (run j) = (h # q) @ r" "who j \<noteq> Some h"
  shows "\<exists>r. queue (run (Suc j)) = (h # q) @ r"
proof (cases "who j")
  case None then show ?thesis using assms lock_run_other by metis
next
  case (Some u)
  then show ?thesis
    using ticket_step_queue [of "run j" u "run (Suc j)"] lock_run_step [OF assms(1)] assms(2-4) by (fastforce simp: timely_step_def)
qed

lemma ticket_run_pc:
  assumes "lock_run timely_step run who" "who j \<noteq> Some t"
  shows "pc (run (Suc j)) t = pc (run j) t"
proof (cases "who j")
  case None then show ?thesis using lock_run_other [OF assms(1)] by simp
next
  case (Some u)
  then show ?thesis using assms(2) lock_run_step [OF assms(1) Some] ticket_step_others [of "run j" u "run (Suc j)" t] by (simp add: timely_step_def)
qed

text \<open>At its next step the first of the queue enters, or releases.\<close>

lemma first_steps:
  assumes "ticket_start (run 0)" "lock_run timely_step run who" "fair ticket_active run who" "queue (run i) = h # q"
  obtains j r where "i \<le> j" "queue (run j) = (h # q) @ r" "pc (run j) h = pc (run i) h" "who j = Some h"
proof -
  note inv = ticket_run_inv [OF assms(1, 2)]
  have "h \<in> set (queue (run i))" using assms(4) by simp
  then have "ticket_active (run i) h" using queue_pc [OF inv] by (auto simp: ticket_active_def)
  then obtain j where "i \<le> j" "(\<exists>r. queue (run j) = (h # q) @ r) \<and> pc (run j) h = pc (run i) h" "who j = Some h"
  proof (rule fair_next_step [OF assms(3), where Q = "\<lambda>s. (\<exists>r. queue s = (h # q) @ r) \<and> pc s h = pc (run i) h"])
    show "(\<exists>r. queue (run i) = (h # q) @ r) \<and> pc (run i) h = pc (run i) h" using assms(4) by simp
    show "(\<exists>r. queue (run (Suc j)) = (h # q) @ r) \<and> pc (run (Suc j)) h = pc (run i) h"
      if "(\<exists>r. queue (run j) = (h # q) @ r) \<and> pc (run j) h = pc (run i) h" "who j \<noteq> Some h" for j
      using ticket_run_queue [OF assms(2) inv _ that(2)] ticket_run_pc [OF assms(2) that(2)] that(1) by simp
  qed auto
  with that show ?thesis by blast
qed

lemma first_enters:
  assumes "ticket_start (run 0)" "lock_run timely_step run who" "fair ticket_active run who" "queue (run i) = h # q"
  obtains j r where "i \<le> j" "queue (run j) = (h # q) @ r" "pc (run j) h = Inside"
proof (cases "pc (run i) h = Inside")
  case True with that [of i "[]"] assms(4) show ?thesis by simp
next
  case False
  note inv = ticket_run_inv [OF assms(1, 2)]
  obtain j r where j: "i \<le> j" "queue (run j) = (h # q) @ r" "pc (run j) h = pc (run i) h" "who j = Some h"
    by (rule first_steps [OF assms])
  have "h \<in> set (queue (run j))" using j(2) by simp
  then obtain k where k: "pc (run j) h = Polling k" using queue_pc [OF inv] False j(3) by auto
  have st: "ticket_step (run j) h (run (Suc j))" using lock_run_step [OF assms(2) j(4)] by (simp add: timely_step_def)
  have "\<not> Lock_waits (the_lock (run j)) k" using polling_served_first [OF inv k] j(2) by simp
  then have "run (Suc j) = at_pc (run j) h Inside" using st k by (auto elim: ticket_step.cases)
  then show ?thesis using that [of "Suc j" r] j(1, 2) by simp
qed

lemma first_leaves:
  assumes "ticket_start (run 0)" "lock_run timely_step run who" "fair ticket_active run who" "queue (run i) = h # q"
  obtains j r where "i \<le> j" "queue (run j) = q @ r"
proof -
  note inv = ticket_run_inv [OF assms(1, 2)]
  obtain j r where j: "i \<le> j" "queue (run j) = h # (q @ r)" "pc (run j) h = Inside"
    using first_enters [OF assms] by (metis append_Cons)
  obtain k r' where k: "j \<le> k" "queue (run k) = (h # (q @ r)) @ r'" "pc (run k) h = Inside" "who k = Some h"
    using first_steps [OF assms(1-3) j(2)] j(3) by metis
  have st: "ticket_step (run k) h (run (Suc k))" using lock_run_step [OF assms(2) k(4)] by (simp add: timely_step_def)
  then have "queue (run (Suc k)) = remove1 h (queue (run k))" using k(3) by (auto elim: ticket_step.cases)
  then have "queue (run (Suc k)) = q @ (r @ r')" using k(2) by simp
  then show ?thesis using that [of "Suc k"] j(1) k(1) by simp
qed

lemma place_enters:
  assumes "ticket_start (run 0)" "lock_run timely_step run who" "fair ticket_active run who"
  shows "queue (run i) = p @ t # q \<Longrightarrow> \<exists>j\<ge>i. pc (run j) t = Inside"
proof (induction p arbitrary: i q)
  case Nil
  obtain j where "i \<le> j" "pc (run j) t = Inside" by (rule first_enters [OF assms, of i t q]) (use Nil in simp)
  then show ?case by blast
next
  case (Cons h p)
  obtain j r where j: "i \<le> j" "queue (run j) = (p @ t # q) @ r" 
    by (rule first_leaves [OF assms, of i h "p @ t # q"]) (use Cons.prems in simp)
  then obtain j' where "j \<le> j'" "pc (run j') t = Inside" using Cons.IH [of j "q @ r"] by auto
  with j(1) show ?case by (meson order_trans)
qed

section \<open>A stale TryLock\<close>

text \<open>
  Without the restriction to timely steps the exchange of \<open>TryLock\<close> can succeed on a lock that is held: thread \<open>True\<close> stops before
  its exchange, and thread \<open>False\<close> takes and releases the lock \<open>2 ^ 32 - 1\<close> times and then takes it once more.
\<close>

definition stalled :: "nat \<Rightarrow> bool ticket_sys" where
  "stalled n = \<lparr>the_lock = \<lparr>m_nextTicket = of_nat n, m_nowServing = of_nat n\<rparr>, pc = (\<lambda>_. Outside)(True := TryMatched 0),
     queue = [], released = n, since = (\<lambda>_. 0)\<rparr>"

definition stalled_drawn :: "nat \<Rightarrow> bool ticket_sys" where
  "stalled_drawn n = \<lparr>the_lock = \<lparr>m_nextTicket = of_nat n + 1, m_nowServing = of_nat n\<rparr>,
     pc = (\<lambda>_. Outside)(True := TryMatched 0, False := Polling (of_nat n)), queue = [False], released = n, since = (\<lambda>_. 0)\<rparr>"

definition stalled_inside :: "nat \<Rightarrow> bool ticket_sys" where
  "stalled_inside n = \<lparr>the_lock = \<lparr>m_nextTicket = of_nat n + 1, m_nowServing = of_nat n\<rparr>,
     pc = (\<lambda>_. Outside)(True := TryMatched 0, False := Inside), queue = [False], released = n, since = (\<lambda>_. 0)\<rparr>"

lemmas stalled_defs = stalled_def stalled_drawn_def stalled_inside_def

text \<open>Steps into a given state.\<close>

lemma ticket_step_to:
  "ticket_step s t s' \<Longrightarrow> s' = s'' \<Longrightarrow> ticket_step s t s''"
  by simp

lemmas bool_fun = fun_eq_iff all_bool_eq

lemma stalled_steps:
  "ticket_step (stalled n) False (stalled_drawn n)"
  "ticket_step (stalled_drawn n) False (stalled_inside n)"
  "ticket_step (stalled_inside n) False (stalled (Suc n))"
proof -
  show "ticket_step (stalled n) False (stalled_drawn n)"
    by (rule ticket_step_to, rule lock_draw) (simp_all add: stalled_defs Lock_draw_def at_pc_def bool_fun)
  show "ticket_step (stalled_drawn n) False (stalled_inside n)"
    by (rule ticket_step_to, rule lock_enter [of _ _ "of_nat n"]) (simp_all add: stalled_defs Lock_waits_def at_pc_def bool_fun)
  show "ticket_step (stalled_inside n) False (stalled (Suc n))"
    by (rule ticket_step_to, rule unlock) (simp_all add: stalled_defs Unlock_def at_pc_def bool_fun add.commute)
qed

lemma stalled_reached: "reaches ticket_start ticket_step (stalled n)"
proof (induction n)
  case 0
  define s1 where "s1 = at_pc (ticket_init :: bool ticket_sys) True (TryLoaded 0)"
  have s1: "ticket_step ticket_init True s1"
    by (rule ticket_step_to, rule try_load) (simp_all add: s1_def ticket_init_def TicketLock_make_def TryLock_current_def at_pc_def bool_fun)
  have s2: "ticket_step s1 True (stalled 0)"
    by (rule ticket_step_to, rule try_match [of _ _ 0]) (simp_all add: s1_def stalled_def TryLock_busy_def ticket_init_def TicketLock_make_def at_pc_def bool_fun)
  have "reaches ticket_start ticket_step (ticket_init :: bool ticket_sys)" by (rule reaches_start) (simp add: ticket_start_def)
  from reaches_step [OF reaches_step [OF this s1] s2] show ?case .
next
  case (Suc n)
  then show ?case using stalled_steps [of n] by (blast intro: reaches_step)
qed

lemma stale_TryLock:
  "\<exists>s :: bool ticket_sys. reaches ticket_start ticket_step s \<and> ticket_holds s False \<and> ticket_holds s True"
proof -
  define n :: nat where "n = 2 ^ 32 - 1"
  have n: "(of_nat n :: u32) + 1 = 0" by (simp add: n_def)
  have r: "reaches ticket_start ticket_step (stalled_inside n)"
    using stalled_reached [of n] stalled_steps [of n] by (blast intro: reaches_step)
  define s where "s = at_pc (stalled_inside n) True Inside\<lparr>the_lock := \<lparr>m_nextTicket = 1, m_nowServing = of_nat n\<rparr>, queue := [False, True]\<rparr>"
  have "ticket_step (stalled_inside n) True s"
    using try_won [of "stalled_inside n" True 0 "\<lparr>m_nextTicket = 1, m_nowServing = of_nat n\<rparr>"]
    by (simp add: s_def stalled_inside_def TryLock_exchange_def n)
  then have "reaches ticket_start ticket_step s" using r by (blast intro: reaches_step)
  then show ?thesis by (auto simp: s_def ticket_holds_def stalled_inside_def)
qed

section \<open>A fair run\<close>

text \<open>Two threads that take the lock in turns, both contending for it.\<close>

definition turn_state :: "nat \<Rightarrow> nat \<Rightarrow> bool ticket_sys" where
  "turn_state n r = \<lparr>the_lock = \<lparr>m_nextTicket = of_nat (2 * n + min r 2), m_nowServing = of_nat (if r < 4 then 2 * n else 2 * n + 1)\<rparr>,
     pc = (\<lambda>t. if t then (if r < 2 then Outside else if r < 5 then Polling (of_nat (2 * n + 1)) else Inside)
       else (if r < 1 then Outside else if r < 3 then Polling (of_nat (2 * n)) else if r < 4 then Inside else Outside)),
     queue = (if r = 0 then [] else if r = 1 then [False] else if r < 4 then [False, True] else [True]),
     released = (if r < 4 then 2 * n else 2 * n + 1), since = (\<lambda>_. 0)\<rparr>"

definition turns :: "nat \<Rightarrow> bool ticket_sys" where
  "turns i = turn_state (i div 6) (i mod 6)"

definition turn_who :: "nat \<Rightarrow> bool option" where
  "turn_who i = Some (i mod 6 \<in> {1, 4, 5})"

lemma mod6_cases: "i mod 6 \<in> {0, 1, 2, 3, 4, 5 :: nat}"
proof -
  have "i mod 6 < 6" by simp
  then show ?thesis by (simp only: insert_iff empty_iff) linarith
qed

lemma turn_steps:
  "ticket_step (turn_state n 0) False (turn_state n 1)"
  "ticket_step (turn_state n 1) True (turn_state n 2)"
  "ticket_step (turn_state n 2) False (turn_state n 3)"
  "ticket_step (turn_state n 3) False (turn_state n 4)"
  "ticket_step (turn_state n 4) True (turn_state n 5)"
  "ticket_step (turn_state n 5) True (turn_state (Suc n) 0)"
proof -
  note d = turn_state_def at_pc_def bool_fun Lock_draw_def Lock_waits_def Unlock_def
  show "ticket_step (turn_state n 0) False (turn_state n 1)"
    by (rule ticket_step_to, rule lock_draw) (simp_all add: d add.commute)
  show "ticket_step (turn_state n 1) True (turn_state n 2)"
    by (rule ticket_step_to, rule lock_draw) (simp_all add: d add.commute)
  show "ticket_step (turn_state n 2) False (turn_state n 3)"
    by (rule ticket_step_to, rule lock_enter [of _ _ "of_nat (2 * n)"]) (simp_all add: d)
  show "ticket_step (turn_state n 3) False (turn_state n 4)"
    by (rule ticket_step_to, rule unlock) (simp_all add: d add.commute)
  show "ticket_step (turn_state n 4) True (turn_state n 5)"
    by (rule ticket_step_to, rule lock_enter [of _ _ "of_nat (2 * n + 1)"]) (simp_all add: d)
  show "ticket_step (turn_state n 5) True (turn_state (Suc n) 0)"
    by (rule ticket_step_to, rule unlock) (simp_all add: d)
qed

lemma turns_timely: "timely (turns i)"
  by (simp add: timely_def turns_def turn_state_def)

lemma turns_run: "lock_run timely_step turns turn_who"
proof -
  have "ticket_step (turns i) (i mod 6 \<in> {1, 4, 5}) (turns (Suc i))" for i
    using mod6_cases [of i] by (auto simp: turns_def mod_Suc div_Suc turn_steps turn_steps(1, 2) [unfolded One_nat_def numeral_2_eq_2])
  then show ?thesis by (simp add: lock_run_def turn_who_def timely_step_def turns_timely)
qed

lemma turns_fair: "fair ticket_active turns turn_who"
  unfolding fair_def
proof (intro allI impI)
  fix i t
  have "turn_who (6 * i) = Some False" "turn_who (6 * i + 1) = Some True" by (simp_all add: turn_who_def)
  then have "turn_who (if t then 6 * i + 1 else 6 * i) = Some t" by (cases t) simp_all
  moreover have "i \<le> (if t then 6 * i + 1 else 6 * i)" by simp
  ultimately show "\<exists>j\<ge>i. turn_who j = Some t" by blast
qed

lemma turns_start: "ticket_start (turns 0)"
  by (simp add: ticket_start_def turns_def turn_state_def ticket_init_def TicketLock_make_def fun_eq_iff)

section \<open>Properties\<close>

text \<open>
  C32: Fewer than \<open>2 ^ 32\<close> threads use the lock, in a run in which every \<open>TryLock\<close> is timely: until its exchange fewer than \<open>2 ^ 32\<close> tickets
  have been drawn, counted from the one that is served at its first load (without that the property fails, lemma \<open>stale_TryLock\<close>); the counters may wrap around any number of times.
  Then the lock excludes and is fair. In every state reached at most one thread holds the lock; it is the one that drew its ticket first of those that have not
  released; the waiting threads hold consecutive tickets in the order in which they drew them, and exactly the first sees the
  end of its wait; a shared variable that is read and written in separate steps under the lock
  loses no update.
\<close>

theorem TicketLock_fifo:
  fixes s :: "('t::finite) ticket_sys"
  assumes "reaches ticket_start timely_step s"
    and "reaches (client_start ticket_start) (client_step timely_step (ticket_holds :: 't ticket_sys \<Rightarrow> _)) c"
  shows "(ticket_holds s t \<and> ticket_holds s u \<longrightarrow> t = u) \<and> (ticket_holds s t \<longrightarrow> queue s = t # tl (queue s)) \<and>
    (pc s t = Polling k \<longrightarrow> (\<exists>i<length (queue s). queue s ! i = t \<and> k = m_nowServing (the_lock s) + of_nat i \<and>
       (Lock_waits (the_lock s) k \<longleftrightarrow> i \<noteq> 0))) \<and>
    shared c = sections c"
proof (intro conjI impI)
  note inv = ticket.reaches_inv [OF assms(1)]
  show "t = u" if "ticket_holds s t \<and> ticket_holds s u" using ticket.mutual_exclusion [OF assms(1)] that by blast
  show "queue s = t # tl (queue s)" if "ticket_holds s t" using inside_first [OF inv] that by (simp add: ticket_holds_def)
  show "\<exists>i<length (queue s). queue s ! i = t \<and> k = m_nowServing (the_lock s) + of_nat i \<and> (Lock_waits (the_lock s) k \<longleftrightarrow> i \<noteq> 0)"
    if p: "pc s t = Polling k"
  proof -
    obtain i where i: "i < length (queue s)" "queue s ! i = t" "k = of_nat (released s + i)" by (rule polling_place [OF inv p])
    have "queue s ! 0 = t \<longleftrightarrow> i = 0"
      using i(1, 2) inv nth_eq_iff_index_eq [of "queue s" 0 i] unfolding ticket_inv_def by force
    then have "Lock_waits (the_lock s) k \<longleftrightarrow> i \<noteq> 0" using polling_served_first [OF inv p] by blast
    moreover have "k = m_nowServing (the_lock s) + of_nat i" using i(3) inv by (simp add: ticket_inv_def)
    ultimately show ?thesis using i(1, 2) by blast
  qed
  show "shared c = sections c" using ticket.client_no_lost_update [OF assms(2)] by blast
qed

lemma turns_reached: "reaches ticket_start timely_step (turns i)"
proof (induction i)
  case 0 then show ?case by (intro reaches_start turns_start)
next
  case (Suc i) then show ?case using lock_run_step [OF turns_run, of i] by (auto simp: turn_who_def intro: reaches_step)
qed

definition sample_client :: "(bool ticket_sys, bool) client" where
  "sample_client = \<lparr>lock_state = ticket_init, shared = 0, reg = (\<lambda>_. None), sections = 0\<rparr>"

theorem TicketLock_fifo_witness:
  "\<exists>i<2. queue (turns 3) ! i = True \<and> 1 = m_nowServing (the_lock (turns 3)) + of_nat i \<and> (Lock_waits (the_lock (turns 3)) 1 \<longleftrightarrow> i \<noteq> 0)"
proof -
  have c: "reaches (client_start ticket_start) (client_step timely_step ticket_holds) sample_client"
    by (rule reaches_start) (simp add: client_start_def sample_client_def ticket_start_def)
  have "pc (turns 3) True = Polling 1" "length (queue (turns 3)) = 2" by (simp_all add: turns_def turn_state_def)
  then show ?thesis using TicketLock_fifo [OF turns_reached [of 3] c, of True True 1] by simp
qed

text \<open>
  C33: Nobody starves, among fewer than \<open>2 ^ 32\<close> threads and as long as every \<open>TryLock\<close> is timely, that is, until its exchange fewer than \<open>2 ^ 32\<close> tickets have been drawn, counted from the
  one that is served at its first load. In every such run of the threads in which a thread inside of an operation of the lock, or holding it, always takes a further step
  eventually, a thread that waits in \<open>Lock\<close> gets the lock.
\<close>

theorem TicketLock_no_starvation:
  fixes run :: "nat \<Rightarrow> ('t::finite) ticket_sys"
  assumes "ticket_start (run 0)" "lock_run timely_step run who" "fair ticket_active run who" "pc (run i) t = Polling k"
  shows "\<exists>j\<ge>i. ticket_holds (run j) t"
proof -
  have "t \<in> set (queue (run i))" using queue_pc [OF ticket_run_inv [OF assms(1, 2)]] assms(4) by blast
  then obtain p q where "queue (run i) = p @ t # q" by (auto simp: in_set_conv_decomp)
  then show ?thesis using place_enters [OF assms(1-3)] by (simp add: ticket_holds_def)
qed

theorem TicketLock_no_starvation_witness: "\<exists>j\<ge>8. ticket_holds (turns j) True"
proof -
  have "pc (turns 8) True = Polling 3" by (simp add: turns_def turn_state_def)
  then show ?thesis by (rule TicketLock_no_starvation [OF turns_start turns_run turns_fair])
qed

end
