(* ===== verification/Sync_SpinLock.thy ===== *)
theory Sync_SpinLock
  imports Sync_Spec
begin

text \<open>
  The spin lock of \<^verbatim>\<open>src/include/NGIN/Sync/SpinLock.hpp\<close>: a flag, acquired by a test followed by a weak exchange (which may fail although the
  flag is clear), with an exponentially growing number of yields between the attempts. The
  properties: mutual exclusion, the bound of the back-off, and that a thread running alone gets a
  free lock within a bounded number of its own steps.
\<close>

section \<open>The lock\<close>

record SpinLock =
  m_locked :: bool

definition SpinLock_make :: SpinLock where
  "SpinLock_make = \<lparr>m_locked = False\<rparr>"

text \<open>The exchange of \<open>Lock\<close> and \<open>TryLock\<close> on the expected value \<open>false\<close>.\<close>

definition exchange :: "SpinLock \<Rightarrow> bool \<times> SpinLock" where
  "exchange l = (if m_locked l then (False, l) else (True, l\<lparr>m_locked := True\<rparr>))"

definition SpinLock_Unlock :: "SpinLock \<Rightarrow> SpinLock" where
  "SpinLock_Unlock l = l\<lparr>m_locked := False\<rparr>"

text \<open>The growth of the back-off, with the arithmetic of \<open>int\<close> of 32 bits.\<close>

definition next_backoff :: "int \<Rightarrow> int" where
  "next_backoff backoff = (if backoff < 1024 then signed_take_bit 31 (backoff * 2) else backoff)"

section \<open>Threads\<close>

text \<open>
  SpinOutside; at the load of the loop; after a load that saw the flag clear; in the yield loop with its
  counter; inside.
\<close>

datatype spin_pc = SpinOutside | AtLoad int | AtExchange int | Yielding int int | SpinInside

record 't spin_sys =
  the_flag :: SpinLock
  spc :: "'t \<Rightarrow> spin_pc"

definition at_spc :: "'t spin_sys \<Rightarrow> 't \<Rightarrow> spin_pc \<Rightarrow> 't spin_sys" where
  "at_spc s t p = s\<lparr>spc := (spc s)(t := p)\<rparr>"

inductive spin_step :: "'t spin_sys \<Rightarrow> 't \<Rightarrow> 't spin_sys \<Rightarrow> bool" where
  spin_call: "spc s t = SpinOutside \<Longrightarrow> spin_step s t (at_spc s t (AtLoad 1))"
| spin_seen_free: "spc s t = AtLoad b \<Longrightarrow> \<not> m_locked (the_flag s) \<Longrightarrow> spin_step s t (at_spc s t (AtExchange b))"
| spin_seen_held: "spc s t = AtLoad b \<Longrightarrow> m_locked (the_flag s) \<Longrightarrow> spin_step s t (at_spc s t (Yielding b 0))"
| spin_won: "spc s t = AtExchange b \<Longrightarrow> exchange (the_flag s) = (True, l) \<Longrightarrow>
    spin_step s t (at_spc s t SpinInside\<lparr>the_flag := l\<rparr>)"
| spin_lost: "spc s t = AtExchange b \<Longrightarrow> spin_step s t (at_spc s t (Yielding b 0))"
| spin_yield: "spc s t = Yielding b i \<Longrightarrow> i < b \<Longrightarrow> spin_step s t (at_spc s t (Yielding b (i + 1)))"
| spin_again: "spc s t = Yielding b i \<Longrightarrow> \<not> i < b \<Longrightarrow> spin_step s t (at_spc s t (AtLoad (next_backoff b)))"
| spin_try_won: "spc s t = SpinOutside \<Longrightarrow> exchange (the_flag s) = (True, l) \<Longrightarrow>
    spin_step s t (at_spc s t SpinInside\<lparr>the_flag := l\<rparr>)"
| spin_try_lost: "spc s t = SpinOutside \<Longrightarrow> exchange (the_flag s) = (False, l) \<Longrightarrow> spin_step s t (s\<lparr>the_flag := l\<rparr>)"
| spin_unlock: "spc s t = SpinInside \<Longrightarrow> spin_step s t (at_spc s t SpinOutside\<lparr>the_flag := SpinLock_Unlock (the_flag s)\<rparr>)"

definition spin_start :: "'t spin_sys \<Rightarrow> bool" where
  "spin_start s \<longleftrightarrow> s = \<lparr>the_flag = SpinLock_make, spc = (\<lambda>_. SpinOutside)\<rparr>"

definition spin_holds :: "'t spin_sys \<Rightarrow> 't \<Rightarrow> bool" where
  "spin_holds s t \<longleftrightarrow> spc s t = SpinInside"

text \<open>The next step of a thread in \<open>Lock\<close> when its exchange does not fail on a clear flag.\<close>

definition spin_next :: "'t spin_sys \<Rightarrow> 't \<Rightarrow> 't spin_sys" where
  "spin_next s t = (case spc s t of
     SpinOutside \<Rightarrow> at_spc s t (AtLoad 1)
   | AtLoad b \<Rightarrow> at_spc s t (if m_locked (the_flag s) then Yielding b 0 else AtExchange b)
   | AtExchange b \<Rightarrow> (case exchange (the_flag s) of (True, l) \<Rightarrow> at_spc s t SpinInside\<lparr>the_flag := l\<rparr> | (False, l) \<Rightarrow> at_spc s t (Yielding b 0))
   | Yielding b i \<Rightarrow> at_spc s t (if i < b then Yielding b (i + 1) else AtLoad (next_backoff b))
   | SpinInside \<Rightarrow> s)"

section \<open>Invariant\<close>

definition backoff_ok :: "int \<Rightarrow> bool" where
  "backoff_ok b \<longleftrightarrow> (\<exists>k\<le>10. b = 2 ^ k)"

definition spin_pc_ok :: "spin_pc \<Rightarrow> bool" where
  "spin_pc_ok p \<longleftrightarrow> (case p of AtLoad b \<Rightarrow> backoff_ok b | AtExchange b \<Rightarrow> backoff_ok b
     | Yielding b i \<Rightarrow> backoff_ok b \<and> 0 \<le> i \<and> i \<le> b | _ \<Rightarrow> True)"

definition spin_inv :: "'t spin_sys \<Rightarrow> bool" where
  "spin_inv s \<longleftrightarrow> (\<forall>t. spin_pc_ok (spc s t)) \<and> (m_locked (the_flag s) \<longleftrightarrow> (\<exists>t. spc s t = SpinInside)) \<and>
     (\<forall>t u. spc s t = SpinInside \<longrightarrow> spc s u = SpinInside \<longrightarrow> t = u)"

lemma backoff_bounds: "backoff_ok b \<Longrightarrow> 1 \<le> b \<and> b \<le> 1024"
proof -
  assume "backoff_ok b"
  then obtain k where k: "k \<le> 10" "b = 2 ^ k" by (auto simp: backoff_ok_def)
  have "(2::int) ^ k \<le> 2 ^ 10" using k(1) by (rule power_increasing) simp
  with k(2) show ?thesis by simp
qed

text \<open>The multiplication does not overflow.\<close>

lemma next_backoff_exact: "backoff_ok b \<Longrightarrow> next_backoff b = min (b * 2) 1024"
proof -
  assume b: "backoff_ok b"
  note bb = backoff_bounds [OF b]
  have "signed_take_bit 31 (b * 2) = b * 2" using bb by (intro signed_take_bit_int_eq_self) simp_all
  moreover have "b * 2 \<le> 1024" if "b < 1024"
  proof -
    obtain k where k: "k \<le> 10" "b = 2 ^ k" using b by (auto simp: backoff_ok_def)
    with that have "k \<noteq> 10" by auto
    with k(1) have "(2::int) ^ Suc k \<le> 2 ^ 10" by (intro power_increasing) simp_all
    with k(2) show ?thesis by simp
  qed
  ultimately show ?thesis using bb by (auto simp: next_backoff_def)
qed

lemma next_backoff_ok: "backoff_ok b \<Longrightarrow> backoff_ok (next_backoff b)"
proof -
  assume b: "backoff_ok b"
  then obtain k where k: "k \<le> 10" "b = 2 ^ k" by (auto simp: backoff_ok_def)
  show ?thesis
  proof (cases "k = 10")
    case True with k next_backoff_exact [OF b] show ?thesis by (auto simp: backoff_ok_def intro: exI [of _ 10])
  next
    case False
    with k(1) have "(2::int) ^ Suc k \<le> 2 ^ 10" by (intro power_increasing) simp_all
    with k(2) next_backoff_exact [OF b] have "next_backoff b = 2 ^ Suc k" by simp
    with False k(1) show ?thesis unfolding backoff_ok_def by (intro exI [of _ "Suc k"]) simp
  qed
qed

lemma at_spc_simps [simp]: "spc (at_spc s t p) = (spc s)(t := p)" "the_flag (at_spc s t p) = the_flag s"
  by (simp_all add: at_spc_def)

text \<open>A step that leaves the flag alone and is not of the holder.\<close>

lemma spin_inv_local:
  assumes "spin_inv s" "spc s t \<noteq> SpinInside" "p \<noteq> SpinInside" "spin_pc_ok p"
  shows "spin_inv (at_spc s t p)"
  using assms by (auto simp: spin_inv_def)

lemma spin_inv_acquire:
  assumes "spin_inv s" "exchange (the_flag s) = (True, l)"
  shows "spin_inv (at_spc s t SpinInside\<lparr>the_flag := l\<rparr>)"
proof -
  have "\<not> m_locked (the_flag s)" "m_locked l" using assms(2) by (auto simp: exchange_def split: if_splits)
  with assms(1) show ?thesis by (auto simp: spin_inv_def spin_pc_ok_def)
qed

lemma spin_inv_pc: "spin_inv s \<Longrightarrow> spin_pc_ok (spc s t)"
  by (simp add: spin_inv_def)

lemma spin_inv_step: "spin_step s t s' \<Longrightarrow> spin_inv s \<Longrightarrow> spin_inv s'"
proof (induction rule: spin_step.induct)
  case (spin_call s t)
  have "backoff_ok 1" unfolding backoff_ok_def by (intro exI [of _ 0]) simp
  with spin_call show ?case by (intro spin_inv_local) (simp_all add: spin_pc_ok_def)
next
  case (spin_seen_free s t b)
  then show ?case using spin_inv_pc [of s t] by (intro spin_inv_local) (simp_all add: spin_pc_ok_def)
next
  case (spin_seen_held s t b)
  then show ?case using spin_inv_pc [of s t] backoff_bounds [of b] by (intro spin_inv_local) (simp_all add: spin_pc_ok_def)
next
  case (spin_won s t b l)
  then show ?case by (intro spin_inv_acquire)
next
  case (spin_lost s t b)
  then show ?case using spin_inv_pc [of s t] backoff_bounds [of b] by (intro spin_inv_local) (simp_all add: spin_pc_ok_def)
next
  case (spin_yield s t b i)
  then show ?case using spin_inv_pc [of s t] by (intro spin_inv_local) (simp_all add: spin_pc_ok_def)
next
  case (spin_again s t b i)
  then show ?case using spin_inv_pc [of s t] next_backoff_ok [of b] by (intro spin_inv_local) (simp_all add: spin_pc_ok_def)
next
  case (spin_try_won s t l)
  then show ?case by (intro spin_inv_acquire)
next
  case (spin_try_lost s t l)
  then show ?case by (auto simp: exchange_def split: if_splits)
next
  case (spin_unlock s t)
  then have "spc s u \<noteq> SpinInside" if "u \<noteq> t" for u using that by (auto simp: spin_inv_def)
  with spin_unlock show ?case by (auto simp: spin_inv_def SpinLock_Unlock_def spin_pc_ok_def)
qed

lemma spin_step_others: "spin_step s t s' \<Longrightarrow> u \<noteq> t \<Longrightarrow> spc s' u = spc s u"
  by (induction rule: spin_step.induct) auto

lemma spin_inv_start: "spin_start s \<Longrightarrow> spin_inv s"
  by (simp add: spin_start_def spin_inv_def spin_pc_ok_def SpinLock_make_def)

lemma spin_inv_unique: "spin_inv s \<Longrightarrow> spc s t = SpinInside \<Longrightarrow> spc s u = SpinInside \<Longrightarrow> t = u"
  unfolding spin_inv_def by blast

interpretation spin: mutex spin_start spin_step spin_holds spin_inv
  by unfold_locales (auto simp: spin_holds_def spin_step_others intro: spin_inv_step spin_inv_start spin_inv_unique)

section \<open>Progress\<close>

text \<open>The steps a thread needs when it runs alone on a free lock.\<close>

definition solo_rank :: "spin_pc \<Rightarrow> nat" where
  "solo_rank p = (case p of SpinInside \<Rightarrow> 0 | AtExchange _ \<Rightarrow> 1 | AtLoad _ \<Rightarrow> 2 | SpinOutside \<Rightarrow> 3 | Yielding b i \<Rightarrow> 3 + nat (b - i))"

lemma spin_next_step: "spc s t \<noteq> SpinInside \<Longrightarrow> spin_step s t (spin_next s t)"
  by (cases "spc s t") (auto simp: spin_next_def exchange_def intro: spin_step.intros spin_won [unfolded exchange_def])

lemma spin_next_rank:
  assumes "spin_inv s" "\<not> m_locked (the_flag s)"
  shows "solo_rank (spc (spin_next s t) t) + 1 = solo_rank (spc s t) \<and>
    (spc (spin_next s t) t \<noteq> SpinInside \<longrightarrow> \<not> m_locked (the_flag (spin_next s t)))"
proof -
  have "spc s t \<noteq> SpinInside" using assms by (auto simp: spin_inv_def)
  moreover have "spin_pc_ok (spc s t)" using assms(1) by (rule spin_inv_pc)
  ultimately show ?thesis
    using assms(2) by (cases "spc s t") (auto simp: spin_next_def exchange_def solo_rank_def spin_pc_ok_def)
qed

lemma solo_acquires:
  assumes "spin_inv s" "\<not> m_locked (the_flag s)" "solo_rank (spc s t) = n"
  shows "spc (((\<lambda>s. spin_next s t) ^^ n) s) t = SpinInside"
  using assms
proof (induction n arbitrary: s)
  case 0
  then show ?case by (cases "spc s t") (auto simp: solo_rank_def)
next
  case (Suc n)
  let ?s = "spin_next s t"
  have i: "spc s t \<noteq> SpinInside" using Suc.prems by (auto simp: spin_inv_def)
  have r: "solo_rank (spc ?s t) = n" using spin_next_rank [OF Suc.prems(1, 2), of t] Suc.prems(3) by simp
  show ?case
  proof (cases "spc ?s t = SpinInside")
    case True
    then have "n = 0" using r by (simp add: solo_rank_def)
    then show ?thesis using True by simp
  next
    case False
    then have "\<not> m_locked (the_flag ?s)" using spin_next_rank [OF Suc.prems(1, 2)] by blast
    from Suc.IH [OF spin_inv_step [OF spin_next_step [OF i] Suc.prems(1)] this r]
    show ?thesis by (simp add: funpow_Suc_right del: funpow.simps)
  qed
qed

lemma solo_rank_bound: "spin_pc_ok p \<Longrightarrow> solo_rank p \<le> 1027"
  using backoff_bounds by (cases p) (fastforce simp: solo_rank_def spin_pc_ok_def)+

section \<open>Properties\<close>

definition sample_spin :: "bool spin_sys" where
  "sample_spin = \<lparr>the_flag = SpinLock_make, spc = (\<lambda>_. SpinOutside)\<rparr>"

lemma sample_spin_reached: "reaches spin_start spin_step sample_spin"
  by (rule reaches_start) (simp add: spin_start_def sample_spin_def)

definition sample_held :: "bool spin_sys" where
  "sample_held = \<lparr>the_flag = \<lparr>m_locked = True\<rparr>, spc = (\<lambda>_. SpinOutside)(True := SpinInside)\<rparr>"

lemma sample_held_reached: "reaches spin_start spin_step sample_held"
proof -
  have "spin_step sample_spin True (at_spc sample_spin True SpinInside\<lparr>the_flag := \<lparr>m_locked = True\<rparr>\<rparr>)"
    by (rule spin_try_won) (simp_all add: sample_spin_def exchange_def SpinLock_make_def)
  moreover have "at_spc sample_spin True SpinInside\<lparr>the_flag := \<lparr>m_locked = True\<rparr>\<rparr> = sample_held"
    by (simp add: sample_spin_def sample_held_def at_spc_def)
  ultimately show ?thesis using reaches_step [OF sample_spin_reached] by metis
qed

definition sample_spin_client :: "(bool spin_sys, bool) client" where
  "sample_spin_client = \<lparr>lock_state = sample_spin, shared = 0, reg = (\<lambda>_. None), sections = 0\<rparr>"

text \<open>
  C34: The spin lock excludes: in every reachable state the flag is set exactly when some thread holds the lock, at most one does, and a
  shared variable that is read and written in separate steps under the lock loses no update.
\<close>

theorem SpinLock_excludes:
  assumes "reaches spin_start spin_step s" "reaches (client_start spin_start) (client_step spin_step spin_holds) c"
  shows "(m_locked (the_flag s) \<longleftrightarrow> (\<exists>t. spin_holds s t)) \<and> (\<forall>t u. spin_holds s t \<and> spin_holds s u \<longrightarrow> t = u) \<and> shared c = sections c"
proof -
  have "m_locked (the_flag s) \<longleftrightarrow> (\<exists>t. spin_holds s t)"
    using spin.reaches_inv [OF assms(1)] by (simp add: spin_inv_def spin_holds_def)
  with spin.mutual_exclusion [OF assms(1)] spin.client_no_lost_update [OF assms(2)] show ?thesis by blast
qed

theorem SpinLock_excludes_witness: "m_locked (the_flag sample_held) \<and> (\<exists>t. spin_holds sample_held t) \<and> shared sample_spin_client = sections sample_spin_client"
proof -
  have "reaches (client_start spin_start) (client_step spin_step spin_holds) sample_spin_client"
    by (rule reaches_start) (simp add: client_start_def sample_spin_client_def spin_start_def sample_spin_def)
  from SpinLock_excludes [OF sample_held_reached this] show ?thesis by (auto simp: sample_held_def)
qed

text \<open>
  The back-off of \<open>Lock\<close> stays a power of two up to 1024, so that its doubling does not overflow, and a thread that runs alone while the
  lock is free holds it after at most 1027 of its own steps, wherever in \<open>Lock\<close> it starts.
\<close>

lemma SpinLock_solo_progress:
  assumes "reaches spin_start spin_step s"
  shows "(spc s t = AtLoad b \<or> spc s t = AtExchange b \<or> spc s t = Yielding b i \<longrightarrow>
      (\<exists>k\<le>10. b = 2 ^ k) \<and> next_backoff b = min (b * 2) 1024) \<and>
    (\<not> m_locked (the_flag s) \<longrightarrow> (\<exists>n\<le>1027. spin_holds (((\<lambda>s. spin_next s t) ^^ n) s) t))"
proof (intro conjI impI)
  note inv = spin.reaches_inv [OF assms]
  have ok: "spin_pc_ok (spc s t)" using inv by (rule spin_inv_pc)
  show "\<exists>k\<le>10. b = 2 ^ k" "next_backoff b = min (b * 2) 1024" if "spc s t = AtLoad b \<or> spc s t = AtExchange b \<or> spc s t = Yielding b i"
  proof -
    have "backoff_ok b" using ok that by (auto simp: spin_pc_ok_def)
    then show "\<exists>k\<le>10. b = 2 ^ k" "next_backoff b = min (b * 2) 1024" by (simp add: backoff_ok_def, rule next_backoff_exact)
  qed
  show "\<exists>n\<le>1027. spin_holds (((\<lambda>s. spin_next s t) ^^ n) s) t" if "\<not> m_locked (the_flag s)"
    using solo_acquires [OF inv that refl] solo_rank_bound [OF ok] unfolding spin_holds_def by blast
qed

lemma SpinLock_solo_progress_witness: "\<exists>n\<le>1027. spin_holds (((\<lambda>s. spin_next s True) ^^ n) sample_spin) True"
  using SpinLock_solo_progress [OF sample_spin_reached, of True 1 0] by (simp add: sample_spin_def SpinLock_make_def)

end
