(* ===== verification/Memory_Spec.thy ===== *)
theory Memory_Spec
  imports NGIN_Prelude
begin

text \<open>
  Memory and the contract of an allocator (\<^verbatim>\<open>src/include/NGIN/Memory/AllocatorConcept.hpp\<close>). Memory is a map from 64-bit addresses, taken as
  natural numbers below \<open>2 ^ 64\<close>, to bytes; address 0 is the null pointer. Allocators that keep their own data
  in the memory they manage read and write it here, as clients do in the blocks they hold.

  The contract \<open>allocator\<close> says which blocks clients hold (a set that the state of an allocator need not
  record) and that they stay apart; that an operation writes no byte of a held block; and that
  a client that writes into its blocks, or elsewhere outside of the region of the allocator, does not disturb it.
\<close>

section \<open>Memory\<close>

type_synonym heap = "nat \<Rightarrow> byte"

text \<open>Little-endian unsigned integers of \<open>n\<close> bytes in memory; a pointer or a \<open>size_t\<close> takes eight.\<close>

primrec load_le :: "nat \<Rightarrow> heap \<Rightarrow> nat \<Rightarrow> nat" where
  "load_le 0 h p = 0"
| "load_le (Suc n) h p = unat (h p) + 256 * load_le n h (p + 1)"

primrec store_le :: "nat \<Rightarrow> heap \<Rightarrow> nat \<Rightarrow> nat \<Rightarrow> heap" where
  "store_le 0 h p v = h"
| "store_le (Suc n) h p v = store_le n (h(p := word_of_nat v)) (p + 1) (v div 256)"

abbreviation load64 :: "heap \<Rightarrow> nat \<Rightarrow> nat" where "load64 \<equiv> load_le 8"
abbreviation store64 :: "heap \<Rightarrow> nat \<Rightarrow> nat \<Rightarrow> heap" where "store64 \<equiv> store_le 8"

lemma load_le_cong: "(\<And>x. p \<le> x \<Longrightarrow> x < p + n \<Longrightarrow> h' x = h x) \<Longrightarrow> load_le n h' p = load_le n h p"
  by (induction n arbitrary: p) simp_all

lemma store_le_outside: "x < p \<or> p + n \<le> x \<Longrightarrow> store_le n h p v x = h x"
  by (induction n arbitrary: h p v) auto

lemma load_store_le: "v < 256 ^ n \<Longrightarrow> load_le n (store_le n h p v) p = v"
proof (induction n arbitrary: h p v)
  case 0 then show ?case by simp
next
  case (Suc n)
  have d: "v div 256 < 256 ^ n" using Suc.prems by (simp add: less_mult_imp_div_less mult.commute)
  have "store_le n (h(p := word_of_nat v)) (p + 1) (v div 256) p = (word_of_nat v :: byte)"
    by (simp add: store_le_outside)
  then have "unat (store_le (Suc n) h p v p) = v mod 256" by (simp add: unat_of_nat)
  moreover have "load_le n (store_le (Suc n) h p v) (p + 1) = v div 256"
    by (simp add: Suc.IH d del: fun_upd_apply)
  ultimately show ?case by (simp only: load_le.simps) simp
qed

lemma load_store64 [simp]: "v < 2 ^ 64 \<Longrightarrow> load64 (store64 h p v) p = v"
  by (rule load_store_le) simp

lemma load_store_other: "p + n \<le> q \<or> q + m \<le> p \<Longrightarrow> load_le n (store_le m h q v) p = load_le n h p"
  by (rule load_le_cong) (auto simp: store_le_outside)

section \<open>Blocks\<close>

type_synonym block = "nat \<times> nat"

definition extent :: "block \<Rightarrow> nat set" where
  "extent b = {fst b..<fst b + snd b}"

definition covered :: "block set \<Rightarrow> nat set" where
  "covered L = (\<Union>b\<in>L. extent b)"

text \<open>Blocks that share no byte, are not empty, do not start at null and lie below \<open>2 ^ 64\<close>.\<close>

definition separated :: "block set \<Rightarrow> bool" where
  "separated L \<longleftrightarrow> (\<forall>b\<in>L. 0 < fst b \<and> 0 < snd b \<and> fst b + snd b \<le> 2 ^ 64) \<and>
     (\<forall>b\<in>L. \<forall>c\<in>L. b \<noteq> c \<longrightarrow> extent b \<inter> extent c = {})"

lemma extent_iff [simp]: "x \<in> extent (p, n) \<longleftrightarrow> p \<le> x \<and> x < p + n"
  by (auto simp: extent_def)

lemma covered_simps [simp]: "covered {} = {}" "covered (insert b L) = extent b \<union> covered L"
  by (auto simp: covered_def)

lemma covered_mono: "L \<subseteq> M \<Longrightarrow> covered L \<subseteq> covered M"
  by (auto simp: covered_def)

lemma in_covered: "b \<in> L \<Longrightarrow> x \<in> extent b \<Longrightarrow> x \<in> covered L"
  by (auto simp: covered_def)

lemma separated_empty [simp]: "separated {}"
  by (simp add: separated_def)

lemma separated_subset: "separated L \<Longrightarrow> M \<subseteq> L \<Longrightarrow> separated M"
  by (meson separated_def subsetD)

lemma separated_insert:
  "separated L \<Longrightarrow> 0 < p \<Longrightarrow> 0 < n \<Longrightarrow> p + n \<le> 2 ^ 64 \<Longrightarrow> extent (p, n) \<inter> covered L = {} \<Longrightarrow> separated (insert (p, n) L)"
  by (auto simp: separated_def covered_def)

lemma separated_disjoint: "separated L \<Longrightarrow> b \<in> L \<Longrightarrow> c \<in> L \<Longrightarrow> b \<noteq> c \<Longrightarrow> extent b \<inter> extent c = {}"
  and separated_bounds: "separated L \<Longrightarrow> (p, n) \<in> L \<Longrightarrow> 0 < p \<and> 0 < n \<and> p + n \<le> 2 ^ 64"
  unfolding separated_def by (blast, force)

lemma extent_covered: "b \<in> L \<Longrightarrow> extent b \<subseteq> covered L"
  by (auto simp: covered_def)

lemma separated_union:
  assumes "separated L" "separated M" "covered L \<inter> covered M = {}"
  shows "separated (L \<union> M)"
proof -
  have "extent b \<inter> extent c = {}" if "b \<in> L \<union> M" "c \<in> L \<union> M" "b \<noteq> c" for b c
    using that separated_disjoint [OF assms(1)] separated_disjoint [OF assms(2)] assms(3) extent_covered by blast
  moreover have "\<forall>b\<in>L \<union> M. 0 < fst b \<and> 0 < snd b \<and> fst b + snd b \<le> 2 ^ 64"
    using assms(1, 2) unfolding separated_def by blast
  ultimately show ?thesis unfolding separated_def by blast
qed

lemma separated_start:
  assumes "separated L" "(p, n) \<in> L" "(p, m) \<in> L"
  shows "n = m"
proof (rule ccontr)
  assume "n \<noteq> m"
  then have "extent (p, n) \<inter> extent (p, m) = {}" using assms separated_disjoint by blast
  moreover have "p \<in> extent (p, n) \<inter> extent (p, m)" using separated_bounds [OF assms(1)] assms(2, 3) by simp
  ultimately show False by blast
qed

lemma covered_remove:
  assumes "separated L" "(p, n) \<in> L"
  shows "covered (L - {(p, n)}) = covered L - extent (p, n)"
  using separated_disjoint [OF assms] by (auto simp: covered_def)

text \<open>The sizes of separated blocks add up to less than \<open>2 ^ 64\<close>.\<close>

lemma finite_extent: "finite (extent b)"
  by (simp add: extent_def)

lemma separated_sizes:
  assumes "finite L" "separated L"
  shows "sum snd L < 2 ^ 64"
proof -
  have "sum snd L = (\<Sum>b\<in>L. card (extent b))" by (simp add: extent_def)
  also have "\<dots> = card (covered L)"
    unfolding covered_def using assms
    by (intro card_UN_disjoint [symmetric]) (simp_all add: separated_disjoint finite_extent)
  also have "\<dots> \<le> card {1..<(2::nat) ^ 64}"
    by (rule card_mono) (use assms(2) in \<open>force simp: covered_def separated_def extent_def\<close>)+
  also have "\<dots> < 2 ^ 64" by simp
  finally show ?thesis .
qed

section \<open>The contract\<close>

definition same_outside :: "nat set \<Rightarrow> heap \<Rightarrow> heap \<Rightarrow> bool" where
  "same_outside X h h' \<longleftrightarrow> (\<forall>x. x \<notin> X \<longrightarrow> h' x = h x)"

definition aligned_to :: "nat \<Rightarrow> nat \<Rightarrow> bool" where
  "aligned_to a p \<longleftrightarrow> (\<exists>k<64. a = 2 ^ k) \<longrightarrow> a dvd p"

lemma same_outside_refl [simp]: "same_outside X h h"
  by (simp add: same_outside_def)

lemma same_outside_trans: "same_outside X h h' \<Longrightarrow> same_outside X h' h'' \<Longrightarrow> same_outside X h h''"
  by (simp add: same_outside_def)

lemma same_outside_mono: "same_outside X h h' \<Longrightarrow> X \<subseteq> Y \<Longrightarrow> same_outside Y h h'"
  by (auto simp: same_outside_def)

lemma same_outside_store: "{p..<p + n} \<subseteq> X \<Longrightarrow> same_outside X h (store_le n h p v)"
  unfolding same_outside_def by (metis atLeastLessThan_iff not_le_imp_less store_le_outside subsetD)

text \<open>
  An operation takes the memory and the state of the allocator. \<open>own h s L\<close>: the allocator is in a good state and
  clients hold the blocks \<open>L\<close>.
\<close>

locale allocator =
  fixes own :: "heap \<Rightarrow> 's \<Rightarrow> block set \<Rightarrow> bool"
    and allocate :: "nat \<Rightarrow> nat \<Rightarrow> heap \<Rightarrow> 's \<Rightarrow> nat \<times> heap \<times> 's"
    and deallocate :: "nat \<Rightarrow> nat \<Rightarrow> nat \<Rightarrow> heap \<Rightarrow> 's \<Rightarrow> heap \<times> 's"
    and region :: "'s \<Rightarrow> nat set"
  assumes own_blocks: "own h s L \<Longrightarrow> separated L \<and> covered L \<subseteq> region s \<and> finite L"
    and own_client: "own h s L \<Longrightarrow> (\<And>x. x \<in> region s - covered L \<Longrightarrow> h' x = h x) \<Longrightarrow> own h' s L"
    and allocate_region: "own h s L \<Longrightarrow> allocate n a h s = (p, h', s') \<Longrightarrow> region s' = region s"
    and allocate_null: "own h s L \<Longrightarrow> allocate n a h s = (0, h', s') \<Longrightarrow> own h' s' L"
    and allocate_block: "own h s L \<Longrightarrow> allocate n a h s = (p, h', s') \<Longrightarrow> 0 < p \<Longrightarrow>
      own h' s' (insert (p, n) L) \<and> extent (p, n) \<inter> covered L = {} \<and> 0 < n \<and> aligned_to a p"
    and allocate_writes: "own h s L \<Longrightarrow> allocate n a h s = (p, h', s') \<Longrightarrow> same_outside (region s - covered L) h h'"
    and deallocate_region: "own h s L \<Longrightarrow> (p, n) \<in> L \<Longrightarrow> deallocate p n a h s = (h', s') \<Longrightarrow> region s' = region s"
    and deallocate_block: "own h s L \<Longrightarrow> (p, n) \<in> L \<Longrightarrow> deallocate p n a h s = (h', s') \<Longrightarrow> own h' s' (L - {(p, n)})"
    and deallocate_writes: "own h s L \<Longrightarrow> (p, n) \<in> L \<Longrightarrow> deallocate p n a h s = (h', s') \<Longrightarrow>
      same_outside (region s - covered (L - {(p, n)})) h h'"

section \<open>A client\<close>

text \<open>
  Any sequence of allocations, releases of held blocks and writes into held blocks. \<open>expect\<close> is what the client has written
  into its blocks since it got them.
\<close>

record 's client_state =
  mem :: heap
  alloc :: 's
  held :: "block set"
  expect :: "nat \<Rightarrow> byte option"

inductive client_does ::
  "(nat \<Rightarrow> nat \<Rightarrow> heap \<Rightarrow> 's \<Rightarrow> nat \<times> heap \<times> 's) \<Rightarrow> (nat \<Rightarrow> nat \<Rightarrow> nat \<Rightarrow> heap \<Rightarrow> 's \<Rightarrow> heap \<times> 's) \<Rightarrow>
   's client_state \<Rightarrow> 's client_state \<Rightarrow> bool"
  for allocate deallocate where
  client_alloc_null: "allocate n a (mem c) (alloc c) = (0, h, s) \<Longrightarrow>
    client_does allocate deallocate c (c\<lparr>mem := h, alloc := s\<rparr>)"
| client_alloc: "allocate n a (mem c) (alloc c) = (p, h, s) \<Longrightarrow> 0 < p \<Longrightarrow>
    client_does allocate deallocate c
      (c\<lparr>mem := h, alloc := s, held := insert (p, n) (held c), expect := (\<lambda>x. if x \<in> extent (p, n) then None else expect c x)\<rparr>)"
| client_free: "(p, n) \<in> held c \<Longrightarrow> deallocate p n a (mem c) (alloc c) = (h, s) \<Longrightarrow>
    client_does allocate deallocate c
      (c\<lparr>mem := h, alloc := s, held := held c - {(p, n)}, expect := (\<lambda>x. if x \<in> extent (p, n) then None else expect c x)\<rparr>)"
| client_put: "x \<in> covered (held c) \<Longrightarrow>
    client_does allocate deallocate c (c\<lparr>mem := (mem c)(x := b), expect := (expect c)(x := Some b)\<rparr>)"

context allocator
begin

definition client_ok :: "'s client_state \<Rightarrow> bool" where
  "client_ok c \<longleftrightarrow> own (mem c) (alloc c) (held c) \<and>
     (\<forall>x b. expect c x = Some b \<longrightarrow> x \<in> covered (held c) \<and> mem c x = b)"

text \<open>The client's data survives an operation that writes only what it may.\<close>

lemma client_ok_write:
  assumes "client_ok c" "same_outside (region (alloc c) - covered M) (mem c) h" "own h s N" "M \<subseteq> N"
    and "\<And>x b. expect' x = Some b \<Longrightarrow> expect c x = Some b \<and> x \<in> covered M"
  shows "client_ok (c\<lparr>mem := h, alloc := s, held := N, expect := expect'\<rparr>)"
proof -
  have "x \<in> covered N \<and> h x = b" if "expect' x = Some b" for x b
  proof -
    have "expect c x = Some b" "x \<in> covered M" using assms(5) [OF that] by auto
    then show ?thesis using assms(1, 2) covered_mono [OF assms(4)] by (auto simp: client_ok_def same_outside_def)
  qed
  with assms(3) show ?thesis by (simp add: client_ok_def)
qed

lemma client_ok_step: "client_does allocate deallocate c c' \<Longrightarrow> client_ok c \<Longrightarrow> client_ok c'"
proof (induction rule: client_does.induct)
  case (client_alloc_null n a c h s)
  then have o: "own (mem c) (alloc c) (held c)" and e: "\<And>x b. expect c x = Some b \<Longrightarrow> x \<in> covered (held c)"
    by (auto simp: client_ok_def)
  show ?case
    using client_ok_write [OF client_alloc_null(2) allocate_writes [OF o client_alloc_null(1)] allocate_null [OF o client_alloc_null(1)] subset_refl, of "expect c"] e
    by simp
next
  case (client_alloc n a c p h s)
  then have o: "own (mem c) (alloc c) (held c)" and e: "\<And>x b. expect c x = Some b \<Longrightarrow> x \<in> covered (held c)"
    by (auto simp: client_ok_def)
  have "own h s (insert (p, n) (held c))" using allocate_block [OF o client_alloc(1, 2)] by blast
  then show ?case
    by (rule client_ok_write [OF client_alloc(3) allocate_writes [OF o client_alloc(1)]]) (auto split: if_splits intro: e)
next
  case (client_free p n c a h s)
  then have o: "own (mem c) (alloc c) (held c)" and e: "\<And>x b. expect c x = Some b \<Longrightarrow> x \<in> covered (held c)"
    by (auto simp: client_ok_def)
  have r: "covered (held c - {(p, n)}) = covered (held c) - extent (p, n)"
    using own_blocks [OF o] client_free(1) covered_remove by blast
  show ?case
    by (rule client_ok_write [OF client_free(3) deallocate_writes [OF o client_free(1, 2)] deallocate_block [OF o client_free(1, 2)] subset_refl])
      (auto simp: r split: if_splits intro: e)
next
  case (client_put x c b)
  then have "own (mem c) (alloc c) (held c)" by (simp add: client_ok_def)
  then have "own ((mem c)(x := b)) (alloc c) (held c)" by (rule own_client) (use client_put(1) in auto)
  with client_put show ?case by (simp add: client_ok_def)
qed

text \<open>The client finds its blocks apart and what it wrote in them.\<close>

lemma client_safe:
  assumes "(client_does allocate deallocate)\<^sup>*\<^sup>* c c'" "own (mem c) (alloc c) {}" "held c = {}" "expect c = (\<lambda>_. None)"
  shows "separated (held c') \<and> (\<forall>x b. expect c' x = Some b \<longrightarrow> mem c' x = b) \<and> own (mem c') (alloc c') (held c')"
proof -
  have "client_ok c'"
    using assms(1) by (induction rule: rtranclp_induct) (use assms in \<open>auto simp: client_ok_def [of c] intro: client_ok_step\<close>)
  then show ?thesis using own_blocks by (auto simp: client_ok_def)
qed

end

end
