(* ===== verification/Memory_Pool.thy ===== *)
theory Memory_Pool
  imports Memory_Spec
begin

text \<open>
  Pools of equal slots with an intrusive free list, as \<open>FixedBlockAllocator\<close> and \<open>SegregatedPoolAllocator\<close> keep them: each free slot
  begins with the address of the next one. \<open>pool_ok\<close> is their shared invariant; the lemmas say what taking the first free slot and returning a slot
  do to it.
\<close>

primrec chain :: "heap \<Rightarrow> nat \<Rightarrow> nat list \<Rightarrow> bool" where
  "chain h p [] \<longleftrightarrow> p = 0"
| "chain h p (x # xs) \<longleftrightarrow> p = x \<and> 0 < x \<and> chain h (load64 h x) xs"

definition free_slots :: "nat \<Rightarrow> nat \<Rightarrow> bool list \<Rightarrow> nat set" where
  "free_slots base stride allocated = {base + i * stride |i. i < length allocated \<and> \<not> allocated ! i}"

definition pool_ok :: "heap \<Rightarrow> nat \<Rightarrow> nat \<Rightarrow> nat \<Rightarrow> nat \<Rightarrow> bool list \<Rightarrow> block set \<Rightarrow> bool" where
  "pool_ok h base stride free available allocated L \<longleftrightarrow>
     0 < base \<and> 8 \<le> stride \<and> base + length allocated * stride \<le> 2 ^ 64 \<and>
     (\<exists>fs. chain h free fs \<and> distinct fs \<and> set fs = free_slots base stride allocated \<and> available = length fs) \<and>
     (\<forall>(p, n)\<in>L. 0 < n \<and> n \<le> stride \<and> (\<exists>i<length allocated. allocated ! i \<and> p = base + i * stride)) \<and>
     (\<forall>i<length allocated. allocated ! i \<longrightarrow> (\<exists>n. (base + i * stride, n) \<in> L)) \<and>
     (\<forall>p n m. (p, n) \<in> L \<longrightarrow> (p, m) \<in> L \<longrightarrow> n = m)"

definition slab :: "nat \<Rightarrow> nat \<Rightarrow> nat \<Rightarrow> nat set" where
  "slab base stride count = {base..<base + count * stride}"

section \<open>Slots\<close>

lemma slot_index: "0 < stride \<Longrightarrow> x < stride \<Longrightarrow> (base + i * stride + x - base) div stride = (i::nat)"
  by simp

lemma slot_overlap:
  "x < stride \<Longrightarrow> y < stride \<Longrightarrow> base + i * stride + x = base + j * stride + y \<Longrightarrow> i = (j::nat)"
  using slot_index [of stride x base i] slot_index [of stride y base j] by simp

lemma slot_end: "i < count \<Longrightarrow> base + i * stride + stride \<le> base + count * (stride::nat)"
proof -
  assume "i < count"
  then have "Suc i * stride \<le> count * stride" by (intro mult_le_mono1) simp
  then show ?thesis by simp
qed

text \<open>Bytes of different slots are different.\<close>

lemma extent_slots:
  assumes "n \<le> stride" "m \<le> stride" "x \<in> extent (base + i * stride, n)" "x \<in> extent (base + j * stride, m)"
  shows "i = j"
proof -
  have "x = base + i * stride + (x - (base + i * stride))" "x = base + j * stride + (x - (base + j * stride))"
    "x - (base + i * stride) < stride" "x - (base + j * stride) < stride" using assms by auto
  then show ?thesis using slot_overlap [of "x - (base + i * stride)" stride "x - (base + j * stride)" base i j] by linarith
qed

lemma slot_inj: "0 < stride \<Longrightarrow> base + i * stride = base + j * (stride::nat) \<Longrightarrow> i = j"
  by simp

lemma extent_slab: "i < count \<Longrightarrow> n \<le> stride \<Longrightarrow> extent (base + i * stride, n) \<subseteq> slab base stride count"
  using slot_end [of i count base stride] by (auto simp: slab_def)

section \<open>The free list\<close>

lemma chain_cong: "(\<And>x. x \<in> set fs \<Longrightarrow> load64 h' x = load64 h x) \<Longrightarrow> chain h' p fs = chain h p fs"
  by (induction fs arbitrary: p) auto

lemma chain_hd: "chain h p fs \<Longrightarrow> p \<noteq> 0 \<Longrightarrow> fs = p # tl fs \<and> chain h (load64 h p) (tl fs)"
  by (cases fs) auto

lemma chain_null: "chain h p fs \<Longrightarrow> p = 0 \<longleftrightarrow> fs = []"
  by (cases fs) auto

lemma pool_okD:
  assumes "pool_ok h base stride free available allocated L"
  shows "0 < base" "8 \<le> stride" "base + length allocated * stride \<le> 2 ^ 64"
    "\<And>p n. (p, n) \<in> L \<Longrightarrow> 0 < n \<and> n \<le> stride" "\<And>p n m. (p, n) \<in> L \<Longrightarrow> (p, m) \<in> L \<Longrightarrow> n = m"
proof -
  note ok = assms [unfolded pool_ok_def]
  show "0 < base" "8 \<le> stride" "base + length allocated * stride \<le> 2 ^ 64" using ok by blast+
  show "0 < n \<and> n \<le> stride" if "(p, n) \<in> L" for p n using ok that by fast
  show "n = m" if "(p, n) \<in> L" "(p, m) \<in> L" for p n m using ok that by fast
qed

lemma pool_slot:
  assumes "pool_ok h base stride free available allocated L" "(p, n) \<in> L"
  shows "(p - base) div stride < length allocated" "allocated ! ((p - base) div stride)" "p = base + (p - base) div stride * stride"
proof -
  obtain i where i: "i < length allocated" "allocated ! i" "p = base + i * stride"
    using assms unfolding pool_ok_def by fast
  moreover have "(p - base) div stride = i" using i(3) pool_okD(2) [OF assms(1)] by simp
  ultimately show "(p - base) div stride < length allocated" "allocated ! ((p - base) div stride)" "p = base + (p - base) div stride * stride"
    by simp_all
qed

lemma pool_blocks:
  assumes "pool_ok h base stride free available allocated L"
  shows "separated L" "covered L \<subseteq> slab base stride (length allocated)" "finite L"
proof -
  note d = pool_okD [OF assms]
  have sub: "extent b \<subseteq> slab base stride (length allocated)" if "b \<in> L" for b
  proof -
    obtain p n where b: "b = (p, n)" by (cases b)
    have "extent (base + (p - base) div stride * stride, n) \<subseteq> slab base stride (length allocated)"
      using pool_slot(1) [OF assms] d(4) that b by (intro extent_slab) auto
    then show ?thesis using pool_slot(3) [OF assms, of p n] that b by simp
  qed
  then show "covered L \<subseteq> slab base stride (length allocated)" by (auto simp: covered_def)
  have pos: "0 < fst b \<and> 0 < snd b \<and> fst b + snd b \<le> 2 ^ 64" if "b \<in> L" for b
  proof -
    obtain p n where b: "b = (p, n)" by (cases b)
    have "0 < n" using d(4) that b by blast
    then have "p \<in> extent b" "p + n - 1 \<in> extent b" using b by auto
    then have "base \<le> p" "p + n - 1 < base + length allocated * stride" using sub [OF that] by (auto simp: slab_def)
    then show ?thesis using \<open>0 < n\<close> d(1, 3) b by auto
  qed
  have "extent b \<inter> extent c = {}" if bc: "b \<in> L" "c \<in> L" "b \<noteq> c" for b c
  proof (rule ccontr)
    assume "extent b \<inter> extent c \<noteq> {}"
    then obtain x where x: "x \<in> extent b" "x \<in> extent c" by blast
    obtain p n q m where b: "b = (p, n)" "c = (q, m)" by (cases b, cases c)
    have e: "p = base + (p - base) div stride * stride" "q = base + (q - base) div stride * stride" "n \<le> stride" "m \<le> stride"
      using pool_slot(3) [OF assms] d(4) bc b by blast+
    have "(p - base) div stride = (q - base) div stride"
      using extent_slots [OF e(3, 4), of x base "(p - base) div stride" "(q - base) div stride"] x b e(1, 2) by simp
    then have "p = q" using e(1, 2) by simp
    then show False using d(5) bc b by blast
  qed
  with pos show "separated L" unfolding separated_def by blast
  have "b \<in> (\<lambda>i. base + i * stride) ` {..<length allocated} \<times> {..stride}" if "b \<in> L" for b
  proof -
    obtain p n where b: "b = (p, n)" by (cases b)
    have "(p - base) div stride \<in> {..<length allocated}" using pool_slot(1) [OF assms] that b by simp
    then have "p \<in> (\<lambda>i. base + i * stride) ` {..<length allocated}" using pool_slot(3) [OF assms, of p n] that b by blast
    then show ?thesis using b d(4) that by simp
  qed
  then have "L \<subseteq> (\<lambda>i. base + i * stride) ` {..<length allocated} \<times> {..stride}" by blast
  then show "finite L" by (rule finite_subset) simp
qed

text \<open>The head of a free slot is not in a held block.\<close>

lemma free_slot_apart:
  assumes "pool_ok h base stride free available allocated L" "f \<in> free_slots base stride allocated" "m \<le> stride"
  shows "extent (f, m) \<subseteq> slab base stride (length allocated) - covered L"
proof
  fix x assume x: "x \<in> extent (f, m)"
  obtain i where i: "f = base + i * stride" "i < length allocated" "\<not> allocated ! i" using assms(2) by (auto simp: free_slots_def)
  have "x \<notin> covered L"
  proof
    assume "x \<in> covered L"
    then obtain p n where p: "(p, n) \<in> L" "x \<in> extent (p, n)" by (auto simp: covered_def)
    let ?j = "(p - base) div stride"
    have "x \<in> extent (base + ?j * stride, n)" using p(2) pool_slot(3) [OF assms(1) p(1)] by simp
    moreover have "x \<in> extent (base + i * stride, m)" using x i(1) by simp
    ultimately have "i = ?j" using extent_slots [of m stride n] assms(3) pool_okD(4) [OF assms(1) p(1)] by blast
    with i(3) pool_slot(2) [OF assms(1) p(1)] show False by simp
  qed
  with extent_slab [of i "length allocated" m stride base] x i assms(3) show "x \<in> slab base stride (length allocated) - covered L" by blast
qed

lemma pool_client:
  assumes "pool_ok h base stride free available allocated L"
    and "\<And>x. x \<in> slab base stride (length allocated) - covered L \<Longrightarrow> h' x = h x"
  shows "pool_ok h' base stride free available allocated L"
proof -
  obtain fs where fs: "chain h free fs" "distinct fs" "set fs = free_slots base stride allocated" "available = length fs"
    using assms(1) unfolding pool_ok_def by blast
  have "load64 h' f = load64 h f" if "f \<in> set fs" for f
  proof (rule load_le_cong)
    fix x assume "f \<le> x" "x < f + 8"
    then have "x \<in> extent (f, 8)" by simp
    moreover have "f \<in> free_slots base stride allocated" using that fs(3) by simp
    ultimately show "h' x = h x" using free_slot_apart [OF assms(1)] pool_okD(2) [OF assms(1)] assms(2) by blast
  qed
  then have "chain h' free fs" using fs(1) chain_cong by metis
  with fs(2-4) assms(1) show ?thesis unfolding pool_ok_def by blast
qed

section \<open>Taking and returning a slot\<close>

lemma free_slots_take:
  "i < length allocated \<Longrightarrow> 0 < stride \<Longrightarrow> free_slots base stride (allocated[i := True]) = free_slots base stride allocated - {base + i * stride}"
  by (auto simp: free_slots_def nth_list_update split: if_splits)

lemma free_slots_return:
  "i < length allocated \<Longrightarrow> free_slots base stride (allocated[i := False]) = insert (base + i * stride) (free_slots base stride allocated)"
  by (auto simp: free_slots_def nth_list_update split: if_splits)

lemma set_flag: "k < length xs \<Longrightarrow> xs ! k \<Longrightarrow> xs[i := True] ! k"
  by (cases "i = k") simp_all

lemma clear_flag: "k < length xs \<Longrightarrow> xs[i := False] ! k \<Longrightarrow> k \<noteq> i \<and> xs ! k"
  by (cases "i = k") auto

lemma pool_take:
  assumes ok: "pool_ok h base stride free available allocated L" and "free \<noteq> 0" "0 < n" "n \<le> stride"
  defines "i \<equiv> (free - base) div stride"
  shows "i < length allocated" "\<not> allocated ! i" "free = base + i * stride" "0 < available"
    "extent (free, n) \<inter> covered L = {}"
    "pool_ok h base stride (load64 h free) (available - 1) (allocated[i := True]) (insert (free, n) L)"
proof -
  obtain fs where fs: "chain h free fs" "distinct fs" "set fs = free_slots base stride allocated" "available = length fs"
    using ok unfolding pool_ok_def by blast
  note c = chain_hd [OF fs(1) assms(2)]
  have f: "free \<in> free_slots base stride allocated" using c fs(3) by (metis list.set_intros(1))
  then obtain j where j: "free = base + j * stride" "j < length allocated" "\<not> allocated ! j" by (auto simp: free_slots_def)
  have stride: "0 < stride" using pool_okD(2) [OF ok] by simp
  have ij: "i = j" using j(1) stride by (simp add: i_def)
  show i: "i < length allocated" "\<not> allocated ! i" "free = base + i * stride" using ij j by simp_all
  show "0 < available" using c fs(4) by (metis length_greater_0_conv list.discI)
  show "extent (free, n) \<inter> covered L = {}" using free_slot_apart [OF ok f assms(4)] by blast
  have tl: "distinct (tl fs)" "set (tl fs) = free_slots base stride (allocated[i := True])" "available - 1 = length (tl fs)"
  proof -
    have "distinct (free # tl fs)" "set (free # tl fs) = free_slots base stride allocated" using c fs(2, 3) by simp_all
    then show "distinct (tl fs)" "set (tl fs) = free_slots base stride (allocated[i := True])"
      using free_slots_take [OF i(1) stride, of base] i(3) by auto
    show "available - 1 = length (tl fs)" using fs(4) by simp
  qed
  have fresh: "(free, m) \<notin> L" for m
    using pool_slot(2) [OF ok, of free m] i(2) by (auto simp: i_def)
  show "pool_ok h base stride (load64 h free) (available - 1) (allocated[i := True]) (insert (free, n) L)"
    unfolding pool_ok_def length_list_update
  proof (intro conjI)
    show "\<exists>fs. chain h (load64 h free) fs \<and> distinct fs \<and> set fs = free_slots base stride (allocated[i := True]) \<and> available - 1 = length fs"
      using c tl by blast
    show "\<forall>(p, m)\<in>insert (free, n) L. 0 < m \<and> m \<le> stride \<and> (\<exists>k<length allocated. allocated[i := True] ! k \<and> p = base + k * stride)"
    proof (clarify)
      fix p m assume "(p, m) \<in> insert (free, n) L"
      then consider "p = free" "m = n" | "(p, m) \<in> L" by blast
      then show "0 < m \<and> m \<le> stride \<and> (\<exists>k<length allocated. allocated[i := True] ! k \<and> p = base + k * stride)"
      proof cases
        case 1 then show ?thesis using i assms(3, 4) by auto
      next
        case 2
        let ?k = "(p - base) div stride"
        have "?k < length allocated" "allocated[i := True] ! ?k" "p = base + ?k * stride"
          using pool_slot [OF ok 2] set_flag by blast+
        then show ?thesis using pool_okD(4) [OF ok 2] by blast
      qed
    qed
    show "\<forall>k<length allocated. allocated[i := True] ! k \<longrightarrow> (\<exists>m. (base + k * stride, m) \<in> insert (free, n) L)"
      using ok i unfolding pool_ok_def by (auto simp: nth_list_update split: if_splits)
    show "\<forall>p k m. (p, k) \<in> insert (free, n) L \<longrightarrow> (p, m) \<in> insert (free, n) L \<longrightarrow> k = m"
      using pool_okD(5) [OF ok] fresh by blast
  qed (use pool_okD [OF ok] in simp_all)
qed

lemma pool_return:
  assumes ok: "pool_ok h base stride free available allocated L" and "(p, n) \<in> L"
  defines "i \<equiv> (p - base) div stride"
  shows "i < length allocated" "allocated ! i" "p = base + i * stride"
    "pool_ok (store64 h p free) base stride p (available + 1) (allocated[i := False]) (L - {(p, n)})"
    "{p..<p + 8} \<subseteq> slab base stride (length allocated) - covered (L - {(p, n)})"
proof -
  note d = pool_okD [OF ok]
  have stride: "0 < stride" using d(2) by simp
  show i: "i < length allocated" "allocated ! i" "p = base + i * stride"
    unfolding i_def by (rule pool_slot [OF ok assms(2)])+
  obtain fs where fs: "chain h free fs" "distinct fs" "set fs = free_slots base stride allocated" "available = length fs"
    using ok unfolding pool_ok_def by blast
  have slot: "f = base + (f - base) div stride * stride" "(f - base) div stride \<noteq> i" if f: "f \<in> set fs" for f
  proof -
    obtain j where j: "f = base + j * stride" "\<not> allocated ! j" using f fs(3) by (auto simp: free_slots_def)
    then have "(f - base) div stride = j" using stride by simp
    with j i(2) show "f = base + (f - base) div stride * stride" "(f - base) div stride \<noteq> i" by auto
  qed
  have free: "free < 2 ^ 64"
  proof (cases fs)
    case Nil then show ?thesis using fs(1) by simp
  next
    case (Cons f fs')
    then have "free \<in> free_slots base stride allocated" using fs(1, 3) by auto
    then obtain j where "free = base + j * stride" "j < length allocated" by (auto simp: free_slots_def)
    then show ?thesis using slot_end [of j "length allocated" base stride] d(2, 3) by linarith
  qed
  have "load64 (store64 h p free) f = load64 h f" if "f \<in> set fs" for f
  proof (rule load_store_other, rule ccontr)
    assume a: "\<not> (f + 8 \<le> p \<or> p + 8 \<le> f)"
    have "max p f \<in> extent (f, stride)" "max p f \<in> extent (p, stride)" using a d(2) by auto
    then have "max p f \<in> extent (base + (f - base) div stride * stride, stride)" "max p f \<in> extent (base + i * stride, stride)"
      using slot(1) [OF that] i(3) by simp_all
    then show False using extent_slots [OF order_refl order_refl] slot(2) [OF that] by blast
  qed
  then have "chain (store64 h p free) free fs" using fs(1) chain_cong by metis
  then have new: "chain (store64 h p free) p (p # fs)" using free d(1) i(3) by simp
  have "p \<notin> set fs" using slot(2) by (auto simp: i_def)
  then have fs': "distinct (p # fs)" "set (p # fs) = free_slots base stride (allocated[i := False])"
    using fs(2, 3) free_slots_return [OF i(1), of base stride] i(3) by simp_all
  show new_ok: "pool_ok (store64 h p free) base stride p (available + 1) (allocated[i := False]) (L - {(p, n)})"
    unfolding pool_ok_def length_list_update
  proof (intro conjI)
    show "\<exists>fs. chain (store64 h p free) p fs \<and> distinct fs \<and> set fs = free_slots base stride (allocated[i := False]) \<and> available + 1 = length fs"
      using new fs' fs(4) by (metis Suc_eq_plus1 length_Cons)
    show "\<forall>(q, m)\<in>L - {(p, n)}. 0 < m \<and> m \<le> stride \<and> (\<exists>k<length allocated. allocated[i := False] ! k \<and> q = base + k * stride)"
    proof (intro ballI, split prod.split, intro allI impI)
      fix b q m assume "b \<in> L - {(p, n)}" "b = (q, m)"
      then have q: "(q, m) \<in> L" "q \<noteq> p" using d(5) assms(2) by blast+
      define k where "k = (q - base) div stride"
      have k: "k < length allocated" "allocated ! k" "q = base + k * stride" unfolding k_def by (rule pool_slot [OF ok q(1)])+
      then have "k \<noteq> i" using q(2) i(3) by blast
      with k d(4) [OF q(1)] show "0 < m \<and> m \<le> stride \<and> (\<exists>k<length allocated. allocated[i := False] ! k \<and> q = base + k * stride)"
        by auto
    qed
    show "\<forall>k<length allocated. allocated[i := False] ! k \<longrightarrow> (\<exists>m. (base + k * stride, m) \<in> L - {(p, n)})"
    proof (intro allI impI)
      fix k assume k: "k < length allocated" "allocated[i := False] ! k"
      then have "k \<noteq> i" "allocated ! k" using clear_flag by blast+
      then obtain m where "(base + k * stride, m) \<in> L" using ok k(1) unfolding pool_ok_def by blast
      moreover have "base + k * stride \<noteq> p" using \<open>k \<noteq> i\<close> i(3) stride by auto
      ultimately show "\<exists>m. (base + k * stride, m) \<in> L - {(p, n)}" by blast
    qed
    show "\<forall>q k m. (q, k) \<in> L - {(p, n)} \<longrightarrow> (q, m) \<in> L - {(p, n)} \<longrightarrow> k = m" using d(5) by blast
  qed (use d in simp_all)
  have "p \<in> free_slots base stride (allocated[i := False])" using fs'(2) by auto
  from free_slot_apart [OF new_ok this d(2)] show "{p..<p + 8} \<subseteq> slab base stride (length allocated) - covered (L - {(p, n)})"
    by (auto simp: extent_def)
qed

text \<open>The number of free slots, and when there is none.\<close>

lemma pool_counts:
  assumes ok: "pool_ok h base stride free available allocated L"
  shows "available + card L = length allocated" "free = 0 \<longleftrightarrow> card L = length allocated"
proof -
  obtain fs where fs: "chain h free fs" "distinct fs" "set fs = free_slots base stride allocated" "available = length fs"
    using ok unfolding pool_ok_def by blast
  have stride: "0 < stride" using pool_okD(2) [OF ok] by simp
  have inj: "inj_on (\<lambda>i. base + i * stride) X" for X using stride by (auto intro: inj_onI)
  have "available = card (free_slots base stride allocated)" using fs by (metis distinct_card)
  also have "free_slots base stride allocated = (\<lambda>i. base + i * stride) ` {i. i < length allocated \<and> \<not> allocated ! i}"
    by (auto simp: free_slots_def)
  also have "card \<dots> = card {i. i < length allocated \<and> \<not> allocated ! i}" by (rule card_image) (rule inj)
  finally have a: "available = card {i. i < length allocated \<and> \<not> allocated ! i}" .
  have "fst ` L = (\<lambda>i. base + i * stride) ` {i. i < length allocated \<and> allocated ! i}"
  proof (intro set_eqI iffI)
    fix p assume "p \<in> fst ` L"
    then obtain n where "(p, n) \<in> L" by auto
    from pool_slot [OF ok this] show "p \<in> (\<lambda>i. base + i * stride) ` {i. i < length allocated \<and> allocated ! i}" by blast
  next
    fix p assume "p \<in> (\<lambda>i. base + i * stride) ` {i. i < length allocated \<and> allocated ! i}"
    then obtain i n where "p = base + i * stride" "(p, n) \<in> L" using ok unfolding pool_ok_def by blast
    then show "p \<in> fst ` L" by force
  qed
  moreover have "inj_on fst L" using pool_okD(5) [OF ok] by (auto intro: inj_onI)
  ultimately have "card L = card {i. i < length allocated \<and> allocated ! i}" using card_image inj by metis
  then have b: "card L = card {i. i < length allocated \<and> allocated ! i}" .
  have "{..<length allocated} = {i. i < length allocated \<and> \<not> allocated ! i} \<union> {i. i < length allocated \<and> allocated ! i}" by auto
  then have "card {..<length allocated} = card {i. i < length allocated \<and> \<not> allocated ! i} + card {i. i < length allocated \<and> allocated ! i}"
    by (simp only:) (rule card_Un_disjoint; auto)
  then show sum: "available + card L = length allocated" by (simp only: a b card_lessThan)
  show "free = 0 \<longleftrightarrow> card L = length allocated" using sum chain_null [OF fs(1)] fs(4) by auto
qed

section \<open>A fresh pool\<close>

text \<open>The loop that links all slots, from the last to the first.\<close>

primrec link_slots :: "nat \<Rightarrow> nat \<Rightarrow> nat \<Rightarrow> heap \<Rightarrow> nat \<Rightarrow> heap \<times> nat" where
  "link_slots base stride 0 h free = (h, free)"
| "link_slots base stride (Suc i) h free = link_slots base stride i (store64 h (base + i * stride) free) (base + i * stride)"

lemma link_chain:
  assumes "0 < base" "8 \<le> stride" "base + count * stride \<le> 2 ^ 64"
  shows "link_slots base stride k h free = (h', free') \<Longrightarrow> k \<le> count \<Longrightarrow> free < 2 ^ 64 \<Longrightarrow>
    chain h free (map (\<lambda>i. base + i * stride) [k..<count]) \<Longrightarrow>
    chain h' free' (map (\<lambda>i. base + i * stride) [0..<count]) \<and> same_outside (slab base stride count) h h'"
proof (induction k arbitrary: h free)
  case 0 then show ?case by simp
next
  case (Suc k)
  let ?p = "base + k * stride" let ?h = "store64 h (base + k * stride) free"
  have k: "k < count" using Suc.prems(2) by simp
  note b = slot_end [OF k, of base stride]
  have p: "?p < 2 ^ 64" using b assms(2, 3) by linarith
  have "load64 ?h f = load64 h f" if f: "f \<in> set (map (\<lambda>i. base + i * stride) [Suc k..<count])" for f
  proof (rule load_store_other)
    have "f \<in> (\<lambda>i. base + i * stride) ` {Suc k..<count}" using f by simp
    then obtain i where i: "f = base + i * stride" "i \<in> {Suc k..<count}" by (rule imageE)
    then have "Suc k * stride \<le> i * stride" by (intro mult_le_mono1) simp
    then show "f + 8 \<le> ?p \<or> ?p + 8 \<le> f" using i assms(2) by simp
  qed
  then have "chain ?h free (map (\<lambda>i. base + i * stride) [Suc k..<count]) = chain h free (map (\<lambda>i. base + i * stride) [Suc k..<count])"
    by (rule chain_cong)
  then have "chain ?h free (map (\<lambda>i. base + i * stride) [Suc k..<count])" using Suc.prems(4) by blast
  then have c: "chain ?h ?p (map (\<lambda>i. base + i * stride) [k..<count])"
    using Suc.prems(3) assms(1) k by (simp add: upt_conv_Cons)
  have "same_outside (slab base stride count) h ?h"
    using b assms(2) by (intro same_outside_store) (auto simp: slab_def)
  with Suc.IH [OF _ _ p c] Suc.prems(1) k show ?case by (auto intro: same_outside_trans)
qed

lemma pool_fresh:
  assumes "0 < base" "8 \<le> stride" "base + count * stride \<le> 2 ^ 64" "link_slots base stride count h 0 = (h', free)"
  shows "pool_ok h' base stride free count (replicate count False) {}" "same_outside (slab base stride count) h h'"
proof -
  let ?fs = "map (\<lambda>i. base + i * stride) [0..<count]"
  have c: "chain h' free ?fs" and "same_outside (slab base stride count) h h'"
    using link_chain [OF assms(1-3) assms(4)] by simp_all
  then show "same_outside (slab base stride count) h h'" by simp
  have "distinct ?fs" using assms(2) by (simp add: distinct_map inj_on_def)
  moreover have "set ?fs = free_slots base stride (replicate count False)" by (auto simp: free_slots_def)
  moreover have "count = length ?fs" by simp
  ultimately show "pool_ok h' base stride free count (replicate count False) {}"
    unfolding pool_ok_def length_replicate using c assms(1-3) by (intro conjI) (blast | simp)+
qed

end
