(* ===== verification/Memory_Alignment.thy ===== *)
theory Memory_Alignment
  imports NGIN_Prelude
begin

text \<open>
  Arithmetic of alignments in \<^verbatim>\<open>src/include/NGIN/Memory\<close>: the test for powers of two, rounding up to a power of two by spreading bits,
  rounding an address up by masking, and \<open>std::align\<close>. Sizes and addresses are natural numbers below \<open>2 ^ 64\<close>; the bit
  operations are done in 64 bits. \<open>alignof(std::max_align_t)\<close> is 16.
\<close>

unbundle bit_operations_syntax

section \<open>Definitions\<close>

definition IsPowerOfTwo :: "nat \<Rightarrow> bool" where
  "IsPowerOfTwo v \<longleftrightarrow> v \<noteq> 0 \<and> v AND (v - 1) = 0"

text \<open>The six steps that copy the highest bit to all lower places.\<close>

definition spread_bits :: "u64 \<Rightarrow> u64" where
  "spread_bits a =
     (let a = a OR drop_bit 1 a; a = a OR drop_bit 2 a; a = a OR drop_bit 4 a;
          a = a OR drop_bit 8 a; a = a OR drop_bit 16 a; a = a OR drop_bit 32 a in a)"

text \<open>\<open>detail::NormalizeAlignment\<close> of the fallback allocators, and the one of the linear allocator, which has a lower bound.\<close>

definition detail_NormalizeAlignment :: "nat \<Rightarrow> nat" where
  "detail_NormalizeAlignment alignment =
     (let alignment = (if alignment = 0 then 1 else alignment)
      in if \<not> IsPowerOfTwo alignment then unat (spread_bits (word_of_nat (alignment - 1)) + 1) else alignment)"

definition NormalizeAlignment :: "nat \<Rightarrow> nat" where
  "NormalizeAlignment alignment =
     (let alignment = (if alignment = 0 then 1 else alignment);
          alignment = (if \<not> IsPowerOfTwo alignment then unat (spread_bits (word_of_nat (alignment - 1)) + 1) else alignment)
      in if alignment < 16 then 16 else alignment)"

text \<open>\<open>(v + a - 1) & ~(a - 1)\<close>.\<close>

definition mask_up :: "nat \<Rightarrow> nat \<Rightarrow> nat" where
  "mask_up v a = unat ((word_of_nat (v + a - 1) :: u64) AND NOT (word_of_nat (a - 1)))"

text \<open>\<open>std::align\<close>: the first multiple of the alignment at or after the pointer, when the size fits into the space from there.\<close>

definition std_align :: "nat \<Rightarrow> nat \<Rightarrow> nat \<Rightarrow> nat \<Rightarrow> nat option" where
  "std_align alignment bytes p space =
     (let aligned = (p + alignment - 1) div alignment * alignment
      in if space < bytes + (aligned - p) then None else Some aligned)"

section \<open>Powers of two\<close>

lemma pow2_less: "(2::nat) ^ k < 2 ^ m \<Longrightarrow> k < m"
  using power_less_imp_less_exp [of "2::nat" k m] by simp

lemma unat_small: "n < 2 ^ 64 \<Longrightarrow> unat (word_of_nat n :: u64) = n"
  by (simp add: unat_of_nat)

lemma and_pred_double: "(2 * b :: nat) AND (2 * b - 1) = 2 * (b AND (b - 1))"
proof (cases "b = 0")
  case False
  then have "2 * b - 1 = 2 * (b - 1) + 1" by simp
  then show ?thesis by (simp add: and_nat_rec [of "2 * b"])
qed simp

lemma IsPowerOfTwo_power: "IsPowerOfTwo (2 ^ k)"
proof (induction k)
  case (Suc k) then show ?case using and_pred_double [of "2 ^ k"] by (simp add: IsPowerOfTwo_def)
qed (simp add: IsPowerOfTwo_def)

lemma IsPowerOfTwo_iff: "IsPowerOfTwo a \<longleftrightarrow> (\<exists>k. a = 2 ^ k)"
proof
  show "IsPowerOfTwo a \<Longrightarrow> \<exists>k. a = 2 ^ k"
  proof (induction a rule: less_induct)
    case (less a)
    then have a: "a \<noteq> 0" "a AND (a - 1) = 0" by (simp_all add: IsPowerOfTwo_def)
    show ?case
    proof (cases "even a")
      case True
      then obtain b where b: "a = 2 * b" by blast
      then have "IsPowerOfTwo b" using a and_pred_double [of b] by (simp add: IsPowerOfTwo_def)
      moreover have "b < a" using a b by simp
      ultimately obtain k where "b = 2 ^ k" using less.IH by blast
      then have "a = 2 ^ Suc k" using b by simp
      then show ?thesis by blast
    next
      case False
      then obtain b where b: "a = 2 * b + 1" by (rule oddE)
      then have "a AND (a - 1) = 2 * b" by (simp add: and_nat_rec [of "Suc (2 * b)"])
      then have "a = 2 ^ 0" using a b by simp
      then show ?thesis by blast
    qed
  qed
next
  show "\<exists>k. a = 2 ^ k \<Longrightarrow> IsPowerOfTwo a" using IsPowerOfTwo_power by blast
qed

section \<open>Spreading bits\<close>

lemma spread_step:
  assumes "\<And>i. bit (y :: u64) i \<longleftrightarrow> (\<exists>j<n. bit x (i + j))"
  shows "bit (y OR drop_bit n y) i \<longleftrightarrow> (\<exists>j<2 * n. bit (x :: u64) (i + j))"
proof -
  have "(\<exists>j<n. bit x (i + j)) \<or> (\<exists>j<n. bit x (n + i + j)) \<longleftrightarrow> (\<exists>j<2 * n. bit x (i + j))" (is "?l \<longleftrightarrow> ?r")
  proof
    assume ?l
    then show ?r
    proof
      assume "\<exists>j<n. bit x (n + i + j)"
      then obtain j where "j < n" "bit x (i + (n + j))" by (auto simp: add.assoc add.left_commute)
      then show ?r by (intro exI [of _ "n + j"]) simp
    next
      assume "\<exists>j<n. bit x (i + j)"
      then obtain j where "j < n" "bit x (i + j)" by blast
      then show ?r by (intro exI [of _ j]) simp
    qed
  next
    assume ?r
    then obtain j where j: "j < 2 * n" "bit x (i + j)" by blast
    show ?l
    proof (cases "j < n")
      case True then show ?thesis using j by blast
    next
      case False
      then have "j - n < n" "n + i + (j - n) = i + j" using j(1) by simp_all
      then show ?thesis using j(2) by metis
    qed
  qed
  then show ?thesis by (simp add: bit_or_iff bit_drop_bit_eq assms)
qed

lemma bit_spread: "bit (spread_bits x) i \<longleftrightarrow> (\<exists>j<64. bit x (i + j))"
proof -
  define a0 where "a0 = x"
  define a1 where "a1 = a0 OR drop_bit 1 a0"
  define a2 where "a2 = a1 OR drop_bit 2 a1"
  define a3 where "a3 = a2 OR drop_bit 4 a2"
  define a4 where "a4 = a3 OR drop_bit 8 a3"
  define a5 where "a5 = a4 OR drop_bit 16 a4"
  have b0: "bit a0 i \<longleftrightarrow> (\<exists>j<1. bit x (i + j))" for i by (simp add: a0_def)
  have b1: "bit a1 i \<longleftrightarrow> (\<exists>j<2. bit x (i + j))" for i unfolding a1_def using spread_step [OF b0, of i] by simp
  have b2: "bit a2 i \<longleftrightarrow> (\<exists>j<4. bit x (i + j))" for i unfolding a2_def using spread_step [OF b1, of i] by simp
  have b3: "bit a3 i \<longleftrightarrow> (\<exists>j<8. bit x (i + j))" for i unfolding a3_def using spread_step [OF b2, of i] by simp
  have b4: "bit a4 i \<longleftrightarrow> (\<exists>j<16. bit x (i + j))" for i unfolding a4_def using spread_step [OF b3, of i] by simp
  have b5: "bit a5 i \<longleftrightarrow> (\<exists>j<32. bit x (i + j))" for i unfolding a5_def using spread_step [OF b4, of i] by simp
  have "spread_bits x = a5 OR drop_bit 32 a5"
    by (simp only: spread_bits_def Let_def a5_def a4_def a3_def a2_def a1_def a0_def)
  then show ?thesis using spread_step [OF b5, of i] by simp
qed

lemma bit_between:
  assumes "2 ^ m \<le> n" "n < (2::nat) ^ Suc m"
  shows "bit n m" "m < i \<Longrightarrow> \<not> bit n i"
proof -
  have "n div 2 ^ m = 1"
  proof (rule div_nat_eqI)
    show "2 ^ m * 1 \<le> n" "n < 2 ^ m * Suc 1" using assms by simp_all
  qed
  then show "bit n m" by (simp add: bit_iff_odd)
  show "\<not> bit n i" if "m < i"
  proof -
    have "(2::nat) ^ Suc m \<le> 2 ^ i" using that by (intro power_increasing) simp_all
    then have "n div 2 ^ i = 0" using assms(2) by simp
    then show ?thesis by (simp add: bit_iff_odd)
  qed
qed

lemma spread_top:
  assumes "2 ^ m \<le> n" "n < (2::nat) ^ Suc m" "m < 64"
  shows "spread_bits (word_of_nat n) = mask (Suc m)"
proof (rule bit_word_eqI)
  fix i assume i: "i < LENGTH(64)"
  have b: "bit (word_of_nat n :: u64) k \<longleftrightarrow> k < 64 \<and> bit n k" for k by (simp add: bit_of_nat_iff possible_bit_word)
  have "(\<exists>j<64. bit (word_of_nat n :: u64) (i + j)) \<longleftrightarrow> i < Suc m"
  proof
    assume "\<exists>j<64. bit (word_of_nat n :: u64) (i + j)"
    then obtain j where "bit n (i + j)" using b by blast
    then have "i + j \<le> m" using bit_between(2) [OF assms(1, 2), of "i + j"] by (meson not_le)
    then show "i < Suc m" by simp
  next
    assume "i < Suc m"
    then have "m - i < 64" "bit (word_of_nat n :: u64) (i + (m - i))" using assms(3) bit_between(1) [OF assms(1, 2)] b [of m] by simp_all
    then show "\<exists>j<64. bit (word_of_nat n :: u64) (i + j)" by blast
  qed
  then show "bit (spread_bits (word_of_nat n)) i \<longleftrightarrow> bit (mask (Suc m) :: u64) i"
    using i by (simp add: bit_spread bit_mask_iff)
qed

text \<open>Rounding up: the next power of two, which is 0 in 64 bits above \<open>2 ^ 63\<close>.\<close>

lemma round_up_exact:
  assumes "1 < a" "a < 2 ^ 64"
  obtains k where "k \<le> 64" "a \<le> 2 ^ k" "2 ^ k < 2 * a" "unat (spread_bits (word_of_nat (a - 1)) + 1) = (if k = 64 then 0 else 2 ^ k)"
proof -
  obtain m where m: "2 ^ m < a" "a \<le> 2 ^ (m + 1)" using ex_power_ivl2 [of 2 a] assms(1) by auto
  have "m < 64"
  proof (rule ccontr)
    assume "\<not> m < 64"
    then have "(2::nat) ^ 64 \<le> 2 ^ m" by (intro power_increasing) simp_all
    then show False using m(1) assms(2) by linarith
  qed
  have "spread_bits (word_of_nat (a - 1)) = mask (Suc m)"
    using m \<open>m < 64\<close> by (intro spread_top) auto
  then have "spread_bits (word_of_nat (a - 1)) + 1 = (2 ^ Suc m :: u64)" by (simp add: mask_eq_exp_minus_1)
  moreover have "unat (2 ^ Suc m :: u64) = (if Suc m = 64 then 0 else 2 ^ Suc m)"
  proof (cases "Suc m = 64")
    case True
    have "(2 ^ 64 :: u64) = 0" by simp
    then show ?thesis using True by simp
  next
    case False
    then have "(2::nat) ^ Suc m < 2 ^ 64" using \<open>m < 64\<close> by (intro power_strict_increasing) simp_all
    then have "unat (word_of_nat (2 ^ Suc m) :: u64) = 2 ^ Suc m" by (rule unat_small)
    then show ?thesis using False by simp
  qed
  ultimately show ?thesis using that [of "Suc m"] m \<open>m < 64\<close> by simp
qed

lemma detail_NormalizeAlignment_exact:
  assumes "a \<le> 2 ^ 63"
  obtains k where "k < 64" "detail_NormalizeAlignment a = 2 ^ k" "a \<le> 2 ^ k" "2 ^ k \<le> max 1 (2 * a)"
proof (cases "IsPowerOfTwo (if a = 0 then 1 else a)")
  case True
  then obtain k where k: "(if a = 0 then 1 else a) = 2 ^ k" using IsPowerOfTwo_iff by blast
  have "2 ^ k \<le> (2::nat) ^ 63" using assms k by (cases "a = 0") auto
  then have "2 ^ k < (2::nat) ^ 64" by simp
  then have "k < 64" by (rule pow2_less)
  with that [of k] k True show ?thesis by (cases "a = 0") (simp_all add: detail_NormalizeAlignment_def)
next
  case False
  then have "1 < a" using IsPowerOfTwo_power [of 0] by (cases "a = 0"; cases "a = 1") auto
  moreover have "a < 2 ^ 64" using assms by simp
  ultimately obtain k where k: "k \<le> 64" "a \<le> 2 ^ k" "2 ^ k < 2 * a"
    "unat (spread_bits (word_of_nat (a - 1)) + 1) = (if k = 64 then 0 else 2 ^ k)"
    by (rule round_up_exact)
  have "(2::nat) ^ k < 2 ^ 64" using k(3) assms by simp
  then have "k \<noteq> 64" by auto
  with that [of k] k False \<open>1 < a\<close> show ?thesis by (simp add: detail_NormalizeAlignment_def)
qed

lemma NormalizeAlignment_detail: "NormalizeAlignment a = max 16 (detail_NormalizeAlignment a)"
  by (simp add: NormalizeAlignment_def detail_NormalizeAlignment_def Let_def)

lemma NormalizeAlignment_exact:
  assumes "a \<le> 2 ^ 63"
  obtains k where "4 \<le> k" "k < 64" "NormalizeAlignment a = 2 ^ k" "a \<le> 2 ^ k"
proof -
  obtain k where k: "k < 64" "detail_NormalizeAlignment a = 2 ^ k" "a \<le> 2 ^ k" using detail_NormalizeAlignment_exact [OF assms] .
  show ?thesis
  proof (cases "k < 4")
    case True
    then have "(2::nat) ^ k \<le> 2 ^ 4" by (intro power_increasing) simp_all
    with that [of 4] k show ?thesis by (simp add: NormalizeAlignment_detail)
  next
    case False
    then have "(2::nat) ^ 4 \<le> 2 ^ k" by (intro power_increasing) simp_all
    with that [of k] k False show ?thesis by (simp add: NormalizeAlignment_detail)
  qed
qed

lemma NormalizeAlignment_pow2: "k < 64 \<Longrightarrow> 2 ^ k dvd NormalizeAlignment (2 ^ k)"
proof -
  assume "k < 64"
  have "detail_NormalizeAlignment (2 ^ k) = 2 ^ k" by (simp add: detail_NormalizeAlignment_def IsPowerOfTwo_power Let_def)
  moreover have "(2::nat) ^ k dvd 2 ^ 4" if "2 ^ k < (16::nat)"
  proof -
    have "(2::nat) ^ k < 2 ^ 4" using that by simp
    then have "k < 4" by (rule pow2_less)
    then show ?thesis by (intro le_imp_power_dvd) simp
  qed
  ultimately show ?thesis by (auto simp: NormalizeAlignment_detail max_def)
qed

text \<open>An alignment above \<open>2 ^ 63\<close> that is no power of two is lost.\<close>

lemma NormalizeAlignment_too_big: "2 ^ 63 < a \<Longrightarrow> a < 2 ^ 64 \<Longrightarrow> NormalizeAlignment a = 16"
proof -
  assume a: "2 ^ 63 < a" "a < 2 ^ 64"
  obtain k where k: "k \<le> 64" "a \<le> 2 ^ k" "unat (spread_bits (word_of_nat (a - 1)) + 1) = (if k = 64 then 0 else 2 ^ k)"
    using round_up_exact [of a] a by auto
  have "k = 64"
  proof (rule ccontr)
    assume "k \<noteq> 64"
    then have "(2::nat) ^ k \<le> 2 ^ 63" using k(1) by (intro power_increasing) simp_all
    then show False using k(2) a(1) by linarith
  qed
  moreover have "\<not> IsPowerOfTwo a"
  proof
    assume "IsPowerOfTwo a"
    then obtain m where m: "a = 2 ^ m" using IsPowerOfTwo_iff by blast
    have "63 < m" "m < 64" by (rule pow2_less, use a m in simp)+
    then show False by simp
  qed
  ultimately show ?thesis using k(3) a by (simp add: NormalizeAlignment_def)
qed

section \<open>Rounding addresses up\<close>

lemma round_div:
  assumes "0 < (a::nat)"
  shows "a dvd (v + a - 1) div a * a" "v \<le> (v + a - 1) div a * a" "(v + a - 1) div a * a < v + a"
proof -
  show "a dvd (v + a - 1) div a * a" by simp
  have "(v + a - 1) div a * a + (v + a - 1) mod a = v + a - 1" "(v + a - 1) mod a < a" using assms by (simp_all add: div_mult_mod_eq)
  then show "v \<le> (v + a - 1) div a * a" "(v + a - 1) div a * a < v + a" using assms by linarith+
qed

lemma mask_up_exact:
  assumes "k < 64" "v + 2 ^ k - 1 < 2 ^ 64"
  shows "mask_up v (2 ^ k) = (v + 2 ^ k - 1) div 2 ^ k * 2 ^ k"
proof -
  let ?x = "word_of_nat (v + 2 ^ k - 1) :: u64"
  have x: "unat ?x = v + 2 ^ k - 1" using assms(2) by (rule unat_small)
  have "word_of_nat (2 ^ k - 1) = (mask k :: u64)" by (simp add: mask_eq_exp_minus_1 of_nat_diff)
  then have "?x AND NOT (word_of_nat (2 ^ k - 1)) = ?x AND NOT (mask k)" by simp
  also have "\<dots> = push_bit k (drop_bit k ?x)" by (rule bit_word_eqI) (auto simp: bit_simps)
  finally have "mask_up v (2 ^ k) = unat (push_bit k (drop_bit k ?x))" by (simp add: mask_up_def)
  also have "\<dots> = unat ?x div 2 ^ k * 2 ^ k"
  proof -
    have "unat (push_bit k (drop_bit k ?x)) = take_bit 64 (push_bit k (unat (drop_bit k ?x)))" by (simp add: unsigned_push_bit_eq)
    also have "push_bit k (unat (drop_bit k ?x)) = unat ?x div 2 ^ k * 2 ^ k" unfolding unat_drop_bit_eq by (simp add: push_bit_eq_mult drop_bit_eq_div)
    also have "take_bit 64 (unat ?x div 2 ^ k * 2 ^ k) = unat ?x div 2 ^ k * 2 ^ k"
    proof -
      have "unat ?x div 2 ^ k * 2 ^ k \<le> unat ?x" by (rule div_times_less_eq_dividend)
      then have "unat ?x div 2 ^ k * 2 ^ k < 2 ^ 64" using x assms(2) by linarith
      then show ?thesis by (rule take_bit_nat_eq_self)
    qed
    finally show ?thesis .
  qed
  finally show ?thesis by (simp only: x)
qed

lemma mask_up_bounds:
  assumes "IsPowerOfTwo a" "v + a - 1 < 2 ^ 64"
  shows "a dvd mask_up v a" "v \<le> mask_up v a" "mask_up v a < v + a"
proof -
  obtain k where k: "a = 2 ^ k" using assms(1) IsPowerOfTwo_iff by blast
  have "k < 64" if "0 < v"
  proof -
    have "(2::nat) ^ k < 2 ^ 64" using assms(2) k that by linarith
    then show ?thesis by (rule pow2_less)
  qed
  moreover have "k \<le> 64" 
  proof (rule ccontr)
    assume "\<not> k \<le> 64"
    then have "(2::nat) ^ 65 \<le> 2 ^ k" by (intro power_increasing) simp_all
    then show False using assms(2) k by simp
  qed
  ultimately have "mask_up v a = (v + a - 1) div a * a"
    using mask_up_exact [of k v] assms(2) k by (cases "k = 64") (auto simp: mask_up_def)
  then show "a dvd mask_up v a" "v \<le> mask_up v a" "mask_up v a < v + a"
    using round_div [of a v] assms(1) by (simp_all add: IsPowerOfTwo_def)
qed

lemma std_align_exact:
  assumes "0 < a" "std_align a n p space = Some q"
  shows "a dvd q" "p \<le> q" "q + n \<le> p + space"
  using assms round_div [OF assms(1), of p] by (auto simp: std_align_def Let_def split: if_splits)

end
