(* ===== verification/Memory_FixedBlock.thy ===== *)
theory Memory_FixedBlock
  imports Memory_Pool Memory_Alignment
begin

text \<open>
  \<open>FixedBlockAllocator\<close> of \<^verbatim>\<open>src/include/NGIN/Memory/FixedBlockAllocator.hpp\<close>: one slab of equal blocks with an intrusive free list and a flag per block. The
  template parameters are a record; the upstream allocator is given by its two operations. It interprets \<open>allocator\<close>; a request
  fails exactly when it does not fit the class or all blocks are held, and a release of anything
  but a held block only counts.
\<close>

unbundle bit_operations_syntax

section \<open>The allocator\<close>

record fb_class =
  BlockSize :: nat
  BlockCount :: nat
  Alignment :: nat

definition PayloadSize :: "fb_class \<Rightarrow> nat" where
  "PayloadSize c = max (BlockSize c) 8"

definition Stride :: "fb_class \<Rightarrow> nat" where
  "Stride c = mask_up (PayloadSize c) (Alignment c)"

definition SlabSize :: "fb_class \<Rightarrow> nat" where
  "SlabSize c = Stride c * BlockCount c"

text \<open>The static assertions, and that the sizes fit 64 bits.\<close>

definition fb_class_ok :: "fb_class \<Rightarrow> bool" where
  "fb_class_ok c \<longleftrightarrow> 0 < BlockSize c \<and> 0 < BlockCount c \<and> 0 < Alignment c \<and> Alignment c AND (Alignment c - 1) = 0 \<and> 8 \<le> Alignment c \<and>
     PayloadSize c + Alignment c - 1 < 2 ^ 64 \<and> SlabSize c < 2 ^ 64"

record 'u FixedBlock =
  m_upstream :: 'u
  m_base :: nat
  m_free :: nat
  m_available :: nat
  m_invalidDeallocations :: u64
  m_allocated :: "bool list"

type_synonym 'u alloc_op = "nat \<Rightarrow> nat \<Rightarrow> heap \<Rightarrow> 'u \<Rightarrow> nat \<times> heap \<times> 'u"
type_synonym 'u dealloc_op = "nat \<Rightarrow> nat \<Rightarrow> nat \<Rightarrow> heap \<Rightarrow> 'u \<Rightarrow> heap \<times> 'u"

definition ResetFreeList :: "fb_class \<Rightarrow> heap \<Rightarrow> 'u FixedBlock \<Rightarrow> heap \<times> 'u FixedBlock" where
  "ResetFreeList c h s = (case link_slots (m_base s) (Stride c) (BlockCount c) h 0 of
     (h, free) \<Rightarrow> (h, s\<lparr>m_free := free, m_available := BlockCount c, m_allocated := replicate (BlockCount c) False\<rparr>))"

definition FixedBlock_make :: "fb_class \<Rightarrow> 'u alloc_op \<Rightarrow> heap \<Rightarrow> 'u \<Rightarrow> heap \<times> 'u FixedBlock" where
  "FixedBlock_make c up_allocate h upstream =
     (case up_allocate (SlabSize c) (Alignment c) h upstream of (base, h, upstream) \<Rightarrow>
        let s = \<lparr>m_upstream = upstream, m_base = base, m_free = 0, m_available = 0, m_invalidDeallocations = 0,
                 m_allocated = replicate (BlockCount c) False\<rparr>
        in if base \<noteq> 0 then ResetFreeList c h s else (h, s))"

definition FixedBlock_Allocate :: "fb_class \<Rightarrow> nat \<Rightarrow> nat \<Rightarrow> heap \<Rightarrow> 'u FixedBlock \<Rightarrow> nat \<times> heap \<times> 'u FixedBlock" where
  "FixedBlock_Allocate c bytes alignment h s =
     (if bytes = 0 \<or> bytes > BlockSize c \<or> alignment = 0 \<or> alignment > Alignment c \<or> alignment AND (alignment - 1) \<noteq> 0 \<or> m_free s = 0
      then (0, h, s)
      else let node = m_free s; index = (node - m_base s) div Stride c
           in (node, h, s\<lparr>m_free := load64 h node, m_allocated := (m_allocated s)[index := True], m_available := m_available s - 1\<rparr>))"

definition FixedBlock_Owns :: "fb_class \<Rightarrow> 'u FixedBlock \<Rightarrow> nat \<Rightarrow> bool" where
  "FixedBlock_Owns c s p \<longleftrightarrow> \<not> (m_base s = 0 \<or> p = 0) \<and> m_base s \<le> p \<and> p < m_base s + SlabSize c"

definition IsBlockStart :: "fb_class \<Rightarrow> 'u FixedBlock \<Rightarrow> nat \<Rightarrow> bool" where
  "IsBlockStart c s p \<longleftrightarrow> FixedBlock_Owns c s p \<and> (p - m_base s) mod Stride c = 0"

definition FixedBlock_Deallocate :: "fb_class \<Rightarrow> nat \<Rightarrow> nat \<Rightarrow> nat \<Rightarrow> heap \<Rightarrow> 'u FixedBlock \<Rightarrow> heap \<times> 'u FixedBlock" where
  "FixedBlock_Deallocate c p n a h s =
     (if p = 0 then (h, s)
      else if \<not> IsBlockStart c s p then (h, s\<lparr>m_invalidDeallocations := m_invalidDeallocations s + 1\<rparr>)
      else let index = (p - m_base s) div Stride c
           in if \<not> m_allocated s ! index then (h, s\<lparr>m_invalidDeallocations := m_invalidDeallocations s + 1\<rparr>)
              else (store64 h p (m_free s),
                    s\<lparr>m_free := p, m_available := m_available s + 1, m_allocated := (m_allocated s)[index := False]\<rparr>))"

record MemoryBlock =
  ptr :: nat
  SizeInBytes :: nat
  AlignmentInBytes :: nat
  Cookie :: nat

definition FixedBlock_AllocateEx :: "fb_class \<Rightarrow> nat \<Rightarrow> nat \<Rightarrow> heap \<Rightarrow> 'u FixedBlock \<Rightarrow> MemoryBlock \<times> heap \<times> 'u FixedBlock" where
  "FixedBlock_AllocateEx c bytes alignment h s =
     (case FixedBlock_Allocate c bytes alignment h s of (p, h, s) \<Rightarrow>
        (\<lparr>ptr = p, SizeInBytes = (if p \<noteq> 0 then BlockSize c else 0), AlignmentInBytes = (if p \<noteq> 0 then Alignment c else 0), Cookie = 0\<rparr>, h, s))"

definition FixedBlock_Remaining :: "fb_class \<Rightarrow> 'u FixedBlock \<Rightarrow> nat" where
  "FixedBlock_Remaining c s = m_available s * BlockSize c"

definition FixedBlock_Release :: "fb_class \<Rightarrow> 'u dealloc_op \<Rightarrow> heap \<Rightarrow> 'u FixedBlock \<Rightarrow> heap \<times> 'u FixedBlock" where
  "FixedBlock_Release c up_deallocate h s =
     (let (h, s) = (if m_base s \<noteq> 0
                    then case up_deallocate (m_base s) (SlabSize c) (Alignment c) h (m_upstream s) of (h, u) \<Rightarrow> (h, s\<lparr>m_upstream := u\<rparr>)
                    else (h, s))
      in (h, s\<lparr>m_base := 0, m_free := 0, m_available := 0\<rparr>))"

text \<open>
  The move constructor: the new allocator and what is left of the other. A moved-from upstream is whatever its own move leaves,
  here unchanged.
\<close>

definition FixedBlock_move :: "fb_class \<Rightarrow> 'u FixedBlock \<Rightarrow> 'u FixedBlock \<times> 'u FixedBlock" where
  "FixedBlock_move c other =
     (other, other\<lparr>m_base := 0, m_free := 0, m_available := 0, m_invalidDeallocations := 0, m_allocated := replicate (BlockCount c) False\<rparr>)"

definition FixedBlock_move_assign ::
  "fb_class \<Rightarrow> 'u dealloc_op \<Rightarrow> heap \<Rightarrow> 'u FixedBlock \<Rightarrow> 'u FixedBlock \<Rightarrow> heap \<times> 'u FixedBlock \<times> 'u FixedBlock" where
  "FixedBlock_move_assign c up_deallocate h s other =
     (case FixedBlock_Release c up_deallocate h s of (h, _) \<Rightarrow> (h, FixedBlock_move c other))"

section \<open>Invariant\<close>

definition fb_own :: "fb_class \<Rightarrow> heap \<Rightarrow> 'u FixedBlock \<Rightarrow> block set \<Rightarrow> bool" where
  "fb_own c h s L \<longleftrightarrow> fb_class_ok c \<and> length (m_allocated s) = BlockCount c \<and>
     (if m_base s = 0 then m_free s = 0 \<and> m_available s = 0 \<and> L = {}
      else Alignment c dvd m_base s \<and> pool_ok h (m_base s) (Stride c) (m_free s) (m_available s) (m_allocated s) L \<and>
        (\<forall>(p, n)\<in>L. n \<le> BlockSize c))"

definition fb_region :: "fb_class \<Rightarrow> 'u FixedBlock \<Rightarrow> nat set" where
  "fb_region c s = (if m_base s = 0 then {} else slab (m_base s) (Stride c) (BlockCount c))"

section \<open>The contract\<close>

lemma fb_sizes:
  assumes "fb_class_ok c"
  shows "8 \<le> Stride c" "BlockSize c \<le> Stride c" "Alignment c dvd Stride c" "IsPowerOfTwo (Alignment c)" "0 < Stride c"
proof -
  show p: "IsPowerOfTwo (Alignment c)" using assms by (simp add: fb_class_ok_def IsPowerOfTwo_def)
  have "PayloadSize c \<le> Stride c" "Alignment c dvd Stride c"
    unfolding Stride_def using assms by (intro mask_up_bounds [OF p]; simp add: fb_class_ok_def)+
  then show "8 \<le> Stride c" "BlockSize c \<le> Stride c" "Alignment c dvd Stride c" "0 < Stride c" by (auto simp: PayloadSize_def)
qed

lemma fb_ownD:
  assumes "fb_own c h s L" "m_base s \<noteq> 0"
  shows "pool_ok h (m_base s) (Stride c) (m_free s) (m_available s) (m_allocated s) L" "length (m_allocated s) = BlockCount c"
    "Alignment c dvd m_base s" "fb_class_ok c" "\<And>p n. (p, n) \<in> L \<Longrightarrow> n \<le> BlockSize c" "fb_region c s = slab (m_base s) (Stride c) (length (m_allocated s))"
  using assms by (auto simp: fb_own_def fb_region_def)

text \<open>A free block is there exactly while not all are held.\<close>

lemma fb_free_null:
  assumes "fb_own c h s L"
  shows "m_free s = 0 \<longleftrightarrow> m_base s = 0 \<or> card L = BlockCount c"
proof (cases "m_base s = 0")
  case False
  then show ?thesis using pool_counts(2) [OF fb_ownD(1) [OF assms False]] fb_ownD(2) [OF assms False] by simp
qed (use assms in \<open>simp add: fb_own_def\<close>)

lemma fb_blocks:
  assumes "fb_own c h s L"
  shows "separated L \<and> covered L \<subseteq> fb_region c s \<and> finite L"
proof (cases "m_base s = 0")
  case False
  then show ?thesis using pool_blocks [OF fb_ownD(1) [OF assms False]] fb_ownD(6) [OF assms False] by simp
qed (use assms in \<open>simp add: fb_own_def\<close>)

lemma fb_client:
  assumes "fb_own c h s L" "\<And>x. x \<in> fb_region c s - covered L \<Longrightarrow> h' x = h x"
  shows "fb_own c h' s L"
proof (cases "m_base s = 0")
  case True then show ?thesis using assms(1) by (simp add: fb_own_def)
next
  case False
  then have "pool_ok h' (m_base s) (Stride c) (m_free s) (m_available s) (m_allocated s) L"
    using assms(2) fb_ownD(6) [OF assms(1)] by (intro pool_client [OF fb_ownD(1) [OF assms(1)]]) auto
  then show ?thesis using assms(1) False by (simp add: fb_own_def)
qed

lemma pow2_dvd: "IsPowerOfTwo a \<Longrightarrow> IsPowerOfTwo b \<Longrightarrow> a \<le> b \<Longrightarrow> a dvd b"
proof -
  assume h: "IsPowerOfTwo a" "IsPowerOfTwo b" "a \<le> b"
  then obtain k m where "a = 2 ^ k" "b = 2 ^ m" using IsPowerOfTwo_iff by blast
  with h(3) show "a dvd b" by (simp add: le_imp_power_dvd)
qed

text \<open>A request that fits, on a pool with a free block.\<close>

definition fb_fits :: "fb_class \<Rightarrow> nat \<Rightarrow> nat \<Rightarrow> bool" where
  "fb_fits c n a \<longleftrightarrow> 0 < n \<and> n \<le> BlockSize c \<and> IsPowerOfTwo a \<and> a \<le> Alignment c"

lemma fb_allocate_cases:
  "FixedBlock_Allocate c n a h s = (if fb_fits c n a \<and> m_free s \<noteq> 0
     then (m_free s, h, s\<lparr>m_free := load64 h (m_free s), m_allocated := (m_allocated s)[(m_free s - m_base s) div Stride c := True],
       m_available := m_available s - 1\<rparr>) else (0, h, s))"
  by (auto simp: FixedBlock_Allocate_def fb_fits_def IsPowerOfTwo_def Let_def)

lemma fb_allocate_own:
  assumes own: "fb_own c h s L" and al: "FixedBlock_Allocate c n a h s = (p, h', s')" and p: "0 < p"
  shows "fb_own c h' s' (insert (p, n) L) \<and> extent (p, n) \<inter> covered L = {} \<and> 0 < n \<and> aligned_to a p"
proof -
  have f: "fb_fits c n a" "m_free s \<noteq> 0" using al p by (auto simp: fb_allocate_cases split: if_splits)
  then have base: "m_base s \<noteq> 0" using fb_free_null [OF own] by auto
  note d = fb_ownD [OF own base]
  note z = fb_sizes [OF d(4)]
  let ?i = "(m_free s - m_base s) div Stride c"
  have s': "p = m_free s" "h' = h" "s' = s\<lparr>m_free := load64 h (m_free s), m_allocated := (m_allocated s)[?i := True], m_available := m_available s - 1\<rparr>"
    using al f by (auto simp: fb_allocate_cases)
  have n: "0 < n" "n \<le> Stride c" using f(1) z(2) by (auto simp: fb_fits_def)
  note t = pool_take [OF d(1) f(2) n]
  have "a dvd Alignment c" using f(1) z(4) pow2_dvd by (auto simp: fb_fits_def)
  moreover have "Alignment c dvd m_base s + ?i * Stride c" using d(3) z(3) by (intro dvd_add dvd_mult)
  ultimately have "a dvd m_base s + ?i * Stride c" by (rule dvd_trans)
  then have "aligned_to a p" using t(3) s'(1) by (simp add: aligned_to_def)
  moreover have "fb_own c h' s' (insert (p, n) L)"
    using own base t(6) f(1) by (auto simp: fb_own_def s' fb_fits_def)
  ultimately show ?thesis using t(5) n(1) s'(1) by simp
qed

lemma fb_held:
  assumes own: "fb_own c h s L"
  shows "p \<noteq> 0 \<and> IsBlockStart c s p \<and> m_allocated s ! ((p - m_base s) div Stride c) \<longleftrightarrow> (\<exists>n. (p, n) \<in> L)"
proof (cases "m_base s = 0")
  case True then show ?thesis using own by (simp add: fb_own_def IsBlockStart_def FixedBlock_Owns_def)
next
  case False
  note d = fb_ownD [OF own False]
  note z = fb_sizes [OF d(4)]
  let ?i = "(p - m_base s) div Stride c"
  show ?thesis
  proof
    assume h: "p \<noteq> 0 \<and> IsBlockStart c s p \<and> m_allocated s ! ?i"
    then have b: "m_base s \<le> p" "p - m_base s < Stride c * BlockCount c" "(p - m_base s) mod Stride c = 0"
      by (auto simp: IsBlockStart_def FixedBlock_Owns_def SlabSize_def)
    then have i: "?i < length (m_allocated s)" using d(2) by (simp add: less_mult_imp_div_less mult.commute)
    have "p = m_base s + ?i * Stride c" using b div_mult_mod_eq [of "p - m_base s" "Stride c"] by linarith
    moreover obtain n where "(m_base s + ?i * Stride c, n) \<in> L" using d(1) i h unfolding pool_ok_def by blast
    ultimately show "\<exists>n. (p, n) \<in> L" by auto
  next
    assume "\<exists>n. (p, n) \<in> L"
    then obtain n where pn: "(p, n) \<in> L" by blast
    note sl = pool_slot [OF d(1) pn]
    have e: "m_base s + ?i * Stride c + Stride c \<le> m_base s + BlockCount c * Stride c" using slot_end sl(1) d(2) by metis
    have "m_base s \<le> p" "p < m_base s + SlabSize c" using sl(3) e z(5) by (simp_all add: SlabSize_def mult.commute)
    moreover have "(p - m_base s) mod Stride c = 0"
    proof -
      have "p - m_base s = ?i * Stride c" using sl(3) by simp
      then show ?thesis by (metis mod_mult_self2_is_0)
    qed
    ultimately show "p \<noteq> 0 \<and> IsBlockStart c s p \<and> m_allocated s ! ?i"
      using sl(2) False by (auto simp: IsBlockStart_def FixedBlock_Owns_def)
  qed
qed

lemma fb_deallocate_held:
  assumes "fb_own c h s L" "(p, n) \<in> L"
  shows "FixedBlock_Deallocate c p m a h s = (store64 h p (m_free s),
    s\<lparr>m_free := p, m_available := m_available s + 1, m_allocated := (m_allocated s)[(p - m_base s) div Stride c := False]\<rparr>)"
  using fb_held [OF assms(1), of p] assms(2) by (auto simp: FixedBlock_Deallocate_def Let_def)

lemma fb_deallocate_other:
  assumes "fb_own c h s L" "\<And>n. (p, n) \<notin> L" "p \<noteq> 0"
  shows "FixedBlock_Deallocate c p m a h s = (h, s\<lparr>m_invalidDeallocations := m_invalidDeallocations s + 1\<rparr>)"
  using fb_held [OF assms(1), of p] assms(2, 3) by (auto simp: FixedBlock_Deallocate_def Let_def)

lemma fb_deallocate_own:
  assumes own: "fb_own c h s L" and pn: "(p, n) \<in> L" and de: "FixedBlock_Deallocate c p n a h s = (h', s')"
  shows "fb_own c h' s' (L - {(p, n)})" "fb_region c s' = fb_region c s" "same_outside (fb_region c s - covered (L - {(p, n)})) h h'"
proof -
  have base: "m_base s \<noteq> 0" using own pn by (auto simp: fb_own_def split: if_splits)
  note d = fb_ownD [OF own base]
  note r = pool_return [OF d(1) pn]
  have s': "h' = store64 h p (m_free s)"
    "s' = s\<lparr>m_free := p, m_available := m_available s + 1, m_allocated := (m_allocated s)[(p - m_base s) div Stride c := False]\<rparr>"
    using de fb_deallocate_held [OF own pn] by auto
  show "fb_own c h' s' (L - {(p, n)})" using own base r(4) by (auto simp: fb_own_def s')
  show "fb_region c s' = fb_region c s" by (simp add: fb_region_def s')
  show "same_outside (fb_region c s - covered (L - {(p, n)})) h h'"
    using r(5) unfolding s' d(6) by (rule same_outside_store)
qed

interpretation fixed: allocator "fb_own c" "FixedBlock_Allocate c" "FixedBlock_Deallocate c" "fb_region c" for c
proof
  fix h h' :: heap and s s' :: "'u FixedBlock" and L n a p
  show "separated L \<and> covered L \<subseteq> fb_region c s \<and> finite L" if "fb_own c h s L" using that by (rule fb_blocks)
  show "fb_own c h' s L" if "fb_own c h s L" "\<And>x. x \<in> fb_region c s - covered L \<Longrightarrow> h' x = h x" using that by (rule fb_client)
  show "fb_region c s' = fb_region c s" if "FixedBlock_Allocate c n a h s = (p, h', s')"
    using that by (auto simp: fb_allocate_cases fb_region_def split: if_splits)
  show "fb_own c h' s' L" if "fb_own c h s L" "FixedBlock_Allocate c n a h s = (0, h', s')"
    using that by (auto simp: fb_allocate_cases split: if_splits)
  show "fb_own c h' s' (insert (p, n) L) \<and> extent (p, n) \<inter> covered L = {} \<and> 0 < n \<and> aligned_to a p"
    if "fb_own c h s L" "FixedBlock_Allocate c n a h s = (p, h', s')" "0 < p" using that by (rule fb_allocate_own)
  show "same_outside (fb_region c s - covered L) h h'" if "FixedBlock_Allocate c n a h s = (p, h', s')"
    using that by (auto simp: fb_allocate_cases split: if_splits)
  show "fb_own c h' s' (L - {(p, n)})" "fb_region c s' = fb_region c s" "same_outside (fb_region c s - covered (L - {(p, n)})) h h'"
    if "fb_own c h s L" "(p, n) \<in> L" "FixedBlock_Deallocate c p n a h s = (h', s')" using that by (rule fb_deallocate_own)+
qed

lemma fb_make_own:
  assumes "fb_class_ok c" "up_allocate (SlabSize c) (Alignment c) h u = (base, h1, u1)"
    "base \<noteq> 0 \<Longrightarrow> Alignment c dvd base \<and> base + SlabSize c \<le> 2 ^ 64"
    "FixedBlock_make c up_allocate h u = (h2, s)"
  shows "fb_own c h2 s {}"
proof (cases "base = 0")
  case True
  then show ?thesis using assms by (auto simp: FixedBlock_make_def fb_own_def)
next
  case False
  obtain h3 free where l: "link_slots base (Stride c) (BlockCount c) h1 0 = (h3, free)" by fastforce
  have b: "0 < base" "base + BlockCount c * Stride c \<le> 2 ^ 64" using False assms(3) by (auto simp: SlabSize_def mult.commute)
  note f = pool_fresh [OF b(1) fb_sizes(1) [OF assms(1)] b(2) l]
  show ?thesis using assms f(1) l False by (auto simp: FixedBlock_make_def ResetFreeList_def Let_def fb_own_def)
qed

section \<open>Properties\<close>

definition sample_class :: fb_class where
  "sample_class = \<lparr>BlockSize = 24, BlockCount = 2, Alignment = 16\<rparr>"

lemma sample_class_sizes: "Stride sample_class = 32" "SlabSize sample_class = 64" "fb_class_ok sample_class"
proof -
  show s: "Stride sample_class = 32" using mask_up_exact [of 4 24] by (simp add: Stride_def PayloadSize_def sample_class_def)
  show "SlabSize sample_class = 64" using s by (simp add: SlabSize_def sample_class_def)
  then show "fb_class_ok sample_class" by (simp add: fb_class_ok_def sample_class_def PayloadSize_def)
qed

text \<open>An upstream that grants one slab at a fixed address.\<close>

definition sample_upstream :: "unit alloc_op" where
  "sample_upstream n a h u = (4096, h, u)"

definition sample_pool :: "heap \<times> unit FixedBlock" where
  "sample_pool = FixedBlock_make sample_class sample_upstream (\<lambda>_. 0) ()"

lemma sample_pool_own: "fb_own sample_class (fst sample_pool) (snd sample_pool) {}"
proof -
  have "FixedBlock_make sample_class sample_upstream (\<lambda>_. 0) () = (fst sample_pool, snd sample_pool)" by (simp add: sample_pool_def)
  from fb_make_own [OF sample_class_sizes(3) _ _ this, of 4096 "\<lambda>_. 0" "()"] show ?thesis
    by (simp add: sample_upstream_def sample_class_sizes(2)) (simp add: sample_class_def)
qed

text \<open>
  C35: \<open>FixedBlockAllocator\<close> keeps its promises however it is used. For a pool that was constructed on a slab of the upstream allocator, any sequence of
  allocations, releases of held blocks and writes of the client into the bytes of its blocks leaves the held blocks apart and
  everything the client wrote in them unchanged. A request then fails exactly when its size or alignment does not fit
  or every block is held; it gives a fresh aligned block otherwise. A release of an address at which no block is held changes nothing
  but the counter of invalid releases.
\<close>

theorem FixedBlockAllocator_safe:
  assumes "fb_class_ok c" "FixedBlock_make c up_allocate h u = (h0, s0)"
    and "fst (up_allocate (SlabSize c) (Alignment c) h u) \<noteq> 0 \<Longrightarrow>
      Alignment c dvd fst (up_allocate (SlabSize c) (Alignment c) h u) \<and> fst (up_allocate (SlabSize c) (Alignment c) h u) + SlabSize c \<le> 2 ^ 64"
    and run: "(client_does (FixedBlock_Allocate c) (FixedBlock_Deallocate c))\<^sup>*\<^sup>* \<lparr>mem = h0, alloc = s0, held = {}, expect = (\<lambda>_. None)\<rparr> d"
  shows "separated (held d) \<and> (\<forall>x b. expect d x = Some b \<longrightarrow> mem d x = b) \<and>
    (fst (FixedBlock_Allocate c n a (mem d) (alloc d)) = 0 \<longleftrightarrow>
       \<not> fb_fits c n a \<or> m_base (alloc d) = 0 \<or> card (held d) = BlockCount c) \<and>
    m_available (alloc d) = (if m_base (alloc d) = 0 then 0 else BlockCount c - card (held d)) \<and>
    (p \<noteq> 0 \<and> (\<forall>m. (p, m) \<notin> held d) \<longrightarrow> FixedBlock_Deallocate c p n a (mem d) (alloc d) =
       (mem d, (alloc d)\<lparr>m_invalidDeallocations := m_invalidDeallocations (alloc d) + 1\<rparr>))"
proof -
  obtain base h1 u1 where up: "up_allocate (SlabSize c) (Alignment c) h u = (base, h1, u1)" by (metis prod.exhaust)
  have "fb_own c h0 s0 {}" by (rule fb_make_own [OF assms(1) up _ assms(2)]) (use assms(3) up in simp)
  then have safe: "separated (held d)" "\<forall>x b. expect d x = Some b \<longrightarrow> mem d x = b" "fb_own c (mem d) (alloc d) (held d)"
    using fixed.client_safe [OF run] by simp_all
  have null: "fst (FixedBlock_Allocate c n a (mem d) (alloc d)) = 0 \<longleftrightarrow> \<not> fb_fits c n a \<or> m_base (alloc d) = 0 \<or> card (held d) = BlockCount c"
    using fb_free_null [OF safe(3)] by (auto simp: fb_allocate_cases)
  have av: "m_available (alloc d) = (if m_base (alloc d) = 0 then 0 else BlockCount c - card (held d))"
  proof (cases "m_base (alloc d) = 0")
    case True then show ?thesis using safe(3) by (simp add: fb_own_def)
  next
    case False
    from pool_counts(1) [OF fb_ownD(1) [OF safe(3) False]] fb_ownD(2) [OF safe(3) False] False show ?thesis by simp
  qed
  have "FixedBlock_Deallocate c p n a (mem d) (alloc d) = (mem d, (alloc d)\<lparr>m_invalidDeallocations := m_invalidDeallocations (alloc d) + 1\<rparr>)"
    if "p \<noteq> 0 \<and> (\<forall>m. (p, m) \<notin> held d)" using that fb_deallocate_other [OF safe(3)] by blast
  with safe(1, 2) null av show ?thesis by blast
qed

theorem FixedBlockAllocator_safe_witness:
  "fst (FixedBlock_Allocate sample_class 24 16 (fst sample_pool) (snd sample_pool)) \<noteq> 0"
proof -
  have "IsPowerOfTwo 16" using IsPowerOfTwo_power [of 4] by simp
  then have f: "fb_fits sample_class 24 16" by (simp add: fb_fits_def sample_class_def)
  have b: "m_base (snd sample_pool) \<noteq> 0"
    by (simp add: sample_pool_def FixedBlock_make_def sample_upstream_def ResetFreeList_def split: prod.split)
  have up: "fst (sample_upstream (SlabSize sample_class) (Alignment sample_class) (\<lambda>_. 0) ()) = 4096" by (simp add: sample_upstream_def)
  have al: "Alignment sample_class dvd 4096 \<and> 4096 + SlabSize sample_class \<le> 2 ^ 64"
    unfolding sample_class_sizes(2) by (simp add: sample_class_def)
  have mk: "FixedBlock_make sample_class sample_upstream (\<lambda>_. 0) () = (fst sample_pool, snd sample_pool)" by (simp add: sample_pool_def)
  have "fst (FixedBlock_Allocate sample_class 24 16 (mem d) (alloc d)) = 0 \<longleftrightarrow>
       \<not> fb_fits sample_class 24 16 \<or> m_base (alloc d) = 0 \<or> card (held d) = BlockCount sample_class"
    if "d = \<lparr>mem = fst sample_pool, alloc = snd sample_pool, held = {}, expect = (\<lambda>_. None)\<rparr>" for d
    using FixedBlockAllocator_safe [OF sample_class_sizes(3) mk, of d 24 16 1] up al that by auto
  then show ?thesis using f b by (simp add: sample_class_def)
qed

end
