(* ===== verification/Memory_Linear.thy ===== *)
theory Memory_Linear
  imports Memory_FixedBlock
begin

text \<open>
  \<open>LinearAllocator\<close> of \<^verbatim>\<open>src/include/NGIN/Memory/LinearAllocator.hpp\<close>: a bump pointer in a slab of the upstream allocator, with markers. It interprets
  \<open>allocator\<close>, although it does not record the blocks it hands out, and rolling back to a marker restores the state of the marker.
\<close>

unbundle bit_operations_syntax

record 'u LinearAllocator =
  m_upstreamInstance :: 'u
  m_baseAlignmentInBytes :: nat
  m_basePointer :: nat
  m_currentPointer :: nat
  m_capacityInBytes :: nat

definition LinearAllocator_make :: "'u alloc_op \<Rightarrow> nat \<Rightarrow> nat \<Rightarrow> heap \<Rightarrow> 'u \<Rightarrow> heap \<times> 'u LinearAllocator" where
  "LinearAllocator_make up_allocate capacity baseAlignment h upstream =
     (case up_allocate capacity baseAlignment h upstream of (base, h, upstream) \<Rightarrow>
        (h, \<lparr>m_upstreamInstance = upstream, m_baseAlignmentInBytes = baseAlignment, m_basePointer = base, m_currentPointer = base,
             m_capacityInBytes = (if base \<noteq> 0 then capacity else 0)\<rparr>))"

definition Used :: "'u LinearAllocator \<Rightarrow> nat" where
  "Used s = m_currentPointer s - m_basePointer s"

definition Linear_Remaining :: "'u LinearAllocator \<Rightarrow> nat" where
  "Linear_Remaining s = m_capacityInBytes s - Used s"

definition Linear_Allocate :: "nat \<Rightarrow> nat \<Rightarrow> heap \<Rightarrow> 'u LinearAllocator \<Rightarrow> nat \<times> heap \<times> 'u LinearAllocator" where
  "Linear_Allocate bytes alignment h s =
     (if bytes = 0 \<or> m_basePointer s = 0 then (0, h, s)
      else let normalizedAlignment = NormalizeAlignment alignment; space = m_capacityInBytes s - Used s
           in case std_align normalizedAlignment bytes (m_currentPointer s) space of
                None \<Rightarrow> (0, h, s)
              | Some p \<Rightarrow> (p, h, s\<lparr>m_currentPointer := p + bytes\<rparr>))"

definition Linear_AllocateEx :: "nat \<Rightarrow> nat \<Rightarrow> heap \<Rightarrow> 'u LinearAllocator \<Rightarrow> MemoryBlock \<times> heap \<times> 'u LinearAllocator" where
  "Linear_AllocateEx bytes alignment h s =
     (let normalizedAlignment = NormalizeAlignment alignment
      in case Linear_Allocate bytes normalizedAlignment h s of (p, h, s) \<Rightarrow>
           (if p = 0 then \<lparr>ptr = 0, SizeInBytes = 0, AlignmentInBytes = 0, Cookie = 0\<rparr>
            else \<lparr>ptr = p, SizeInBytes = bytes, AlignmentInBytes = normalizedAlignment, Cookie = 0\<rparr>, h, s))"

definition Linear_Deallocate :: "nat \<Rightarrow> nat \<Rightarrow> nat \<Rightarrow> heap \<Rightarrow> 'u LinearAllocator \<Rightarrow> heap \<times> 'u LinearAllocator" where
  "Linear_Deallocate p n a h s = (h, s)"

definition Linear_Owns :: "'u LinearAllocator \<Rightarrow> nat \<Rightarrow> bool" where
  "Linear_Owns s p \<longleftrightarrow> m_basePointer s \<le> p \<and> p < m_basePointer s + m_capacityInBytes s"

definition Reset :: "'u LinearAllocator \<Rightarrow> 'u LinearAllocator" where
  "Reset s = s\<lparr>m_currentPointer := m_basePointer s\<rparr>"

definition Mark :: "'u LinearAllocator \<Rightarrow> nat" where
  "Mark s = m_currentPointer s"

definition Rollback :: "nat \<Rightarrow> 'u LinearAllocator \<Rightarrow> 'u LinearAllocator" where
  "Rollback marker s =
     (if m_basePointer s \<le> marker \<and> marker \<le> m_basePointer s + m_capacityInBytes s then s\<lparr>m_currentPointer := marker\<rparr> else s)"

definition Linear_Release :: "'u dealloc_op \<Rightarrow> heap \<Rightarrow> 'u LinearAllocator \<Rightarrow> heap \<times> 'u LinearAllocator" where
  "Linear_Release up_deallocate h s =
     (let (h, s) = (if m_basePointer s \<noteq> 0
                    then case up_deallocate (m_basePointer s) (m_capacityInBytes s) (m_baseAlignmentInBytes s) h (m_upstreamInstance s) of
                           (h, u) \<Rightarrow> (h, s\<lparr>m_upstreamInstance := u\<rparr>)
                    else (h, s))
      in (h, s\<lparr>m_basePointer := 0, m_currentPointer := 0, m_capacityInBytes := 0\<rparr>))"

text \<open>The move constructor and assignment: the target and what is left of the source.\<close>

definition Linear_move :: "'u LinearAllocator \<Rightarrow> 'u LinearAllocator \<times> 'u LinearAllocator" where
  "Linear_move other =
     (other, other\<lparr>m_basePointer := 0, m_currentPointer := 0, m_capacityInBytes := 0, m_baseAlignmentInBytes := 16\<rparr>)"

definition Linear_move_assign ::
  "'u dealloc_op \<Rightarrow> heap \<Rightarrow> 'u LinearAllocator \<Rightarrow> 'u LinearAllocator \<Rightarrow> heap \<times> 'u LinearAllocator \<times> 'u LinearAllocator" where
  "Linear_move_assign up_deallocate h s other = (case Linear_Release up_deallocate h s of (h, _) \<Rightarrow> (h, Linear_move other))"

section \<open>The contract\<close>

definition lin_ok :: "'u LinearAllocator \<Rightarrow> bool" where
  "lin_ok s \<longleftrightarrow> m_basePointer s \<le> m_currentPointer s \<and> m_currentPointer s \<le> m_basePointer s + m_capacityInBytes s \<and>
     m_basePointer s + m_capacityInBytes s \<le> 2 ^ 64 \<and> (m_basePointer s = 0 \<longrightarrow> m_capacityInBytes s = 0)"

definition lin_own :: "heap \<Rightarrow> 'u LinearAllocator \<Rightarrow> block set \<Rightarrow> bool" where
  "lin_own h s L \<longleftrightarrow> lin_ok s \<and> separated L \<and> covered L \<subseteq> {m_basePointer s..<m_currentPointer s} \<and> finite L"

definition lin_region :: "'u LinearAllocator \<Rightarrow> nat set" where
  "lin_region s = {m_basePointer s..<m_basePointer s + m_capacityInBytes s}"

lemma NormalizeAlignment_pos: "0 < NormalizeAlignment a"
  by (simp add: NormalizeAlignment_detail)

lemma lin_allocate_some:
  assumes "Linear_Allocate n a h s = (p, h', s')" "0 < p" "lin_ok s"
  shows "0 < n" "h' = h" "s' = s\<lparr>m_currentPointer := p + n\<rparr>" "m_currentPointer s \<le> p" "p + n \<le> m_basePointer s + m_capacityInBytes s"
    "NormalizeAlignment a dvd p"
proof -
  have al: "std_align (NormalizeAlignment a) n (m_currentPointer s) (m_capacityInBytes s - Used s) = Some p" "0 < n" "h' = h" "s' = s\<lparr>m_currentPointer := p + n\<rparr>"
    using assms(1, 2) by (auto simp: Linear_Allocate_def Let_def split: if_splits option.splits)
  then show "0 < n" "h' = h" "s' = s\<lparr>m_currentPointer := p + n\<rparr>" by simp_all
  note e = std_align_exact [OF NormalizeAlignment_pos al(1)]
  show "m_currentPointer s \<le> p" by (rule e(2))
  show "p + n \<le> m_basePointer s + m_capacityInBytes s" using e(3) assms(3) by (simp add: Used_def lin_ok_def)
  show "NormalizeAlignment a dvd p" by (rule e(1))
qed

lemma lin_allocate_null: "Linear_Allocate n a h s = (0, h', s') \<Longrightarrow> lin_ok s \<Longrightarrow> h' = h \<and> s' = s"
proof -
  assume h: "Linear_Allocate n a h s = (0, h', s')" "lin_ok s"
  have "q \<noteq> 0" if "std_align (NormalizeAlignment a) n (m_currentPointer s) (m_capacityInBytes s - Used s) = Some q" "m_basePointer s \<noteq> 0" for q
    using std_align_exact(2) [OF NormalizeAlignment_pos that(1)] that(2) h(2) by (simp add: lin_ok_def)
  then show ?thesis using h(1) by (auto simp: Linear_Allocate_def Let_def split: if_splits option.splits)
qed

lemma lin_allocate_own:
  assumes own: "lin_own h s L" and al: "Linear_Allocate n a h s = (p, h', s')" and p: "0 < p"
  shows "lin_own h' s' (insert (p, n) L) \<and> extent (p, n) \<inter> covered L = {} \<and> 0 < n \<and> aligned_to a p"
proof -
  have ok: "lin_ok s" using own by (simp add: lin_own_def)
  note e = lin_allocate_some [OF al p ok]
  have apart: "extent (p, n) \<inter> covered L = {}" using own e(4) by (force simp: lin_own_def)
  have "aligned_to a p"
    unfolding aligned_to_def
  proof
    assume "\<exists>k<64. a = 2 ^ k"
    then obtain k where k: "k < 64" "a = 2 ^ k" by blast
    then show "a dvd p" using e(6) NormalizeAlignment_pow2 [OF k(1)] dvd_trans by blast
  qed
  moreover have "p + n \<le> 2 ^ 64" using e(5) ok by (auto simp: lin_ok_def)
  then have "lin_own h' s' (insert (p, n) L)"
    using own e ok p apart by (auto simp: lin_own_def lin_ok_def intro: separated_insert)
  ultimately show ?thesis using e(1) apart by blast
qed

interpretation linear: allocator lin_own Linear_Allocate Linear_Deallocate lin_region
proof
  fix h h' :: heap and s s' :: "'u LinearAllocator" and L n a p
  show "separated L \<and> covered L \<subseteq> lin_region s \<and> finite L" if "lin_own h s L"
    using that by (auto simp: lin_own_def lin_region_def lin_ok_def)
  show "lin_own h' s L" if "lin_own h s L" using that by (simp add: lin_own_def)
  show "lin_region s' = lin_region s" if "Linear_Allocate n a h s = (p, h', s')"
    using that by (auto simp: Linear_Allocate_def lin_region_def Let_def split: if_splits option.splits)
  show "lin_own h' s' L" if "lin_own h s L" "Linear_Allocate n a h s = (0, h', s')"
    using lin_allocate_null [OF that(2)] that(1) by (simp add: lin_own_def)
  show "lin_own h' s' (insert (p, n) L) \<and> extent (p, n) \<inter> covered L = {} \<and> 0 < n \<and> aligned_to a p"
    if "lin_own h s L" "Linear_Allocate n a h s = (p, h', s')" "0 < p" using that by (rule lin_allocate_own)
  show "same_outside (lin_region s - covered L) h h'" if "Linear_Allocate n a h s = (p, h', s')"
    using that by (auto simp: Linear_Allocate_def Let_def split: if_splits option.splits)
  show "lin_own h' s' (L - {(p, n)})" if "lin_own h s L" "Linear_Deallocate p n a h s = (h', s')"
    using that separated_subset [of L "L - {(p, n)}"] covered_mono [of "L - {(p, n)}" L] by (auto simp: lin_own_def Linear_Deallocate_def)
  show "lin_region s' = lin_region s" "same_outside (lin_region s - covered (L - {(p, n)})) h h'" if "Linear_Deallocate p n a h s = (h', s')"
    using that by (auto simp: Linear_Deallocate_def)
qed

lemma lin_make_own:
  assumes "up_allocate capacity baseAlignment h u = (base, h1, u1)" "base + capacity \<le> 2 ^ 64"
    "LinearAllocator_make up_allocate capacity baseAlignment h u = (h2, s)"
  shows "lin_own h2 s {}"
  using assms by (auto simp: LinearAllocator_make_def lin_own_def lin_ok_def)

lemma lin_reset_own: "lin_own h s L \<Longrightarrow> lin_own h (Reset s) {}"
  by (auto simp: lin_own_def lin_ok_def Reset_def)

text \<open>Rolling back gives up the blocks that end after the marker.\<close>

lemma lin_rollback_own:
  assumes "lin_own h s L" "m_basePointer s \<le> m" "m \<le> m_basePointer s + m_capacityInBytes s"
  shows "lin_own h (Rollback m s) {b \<in> L. fst b + snd b \<le> m}"
proof -
  have "covered {b \<in> L. fst b + snd b \<le> m} \<subseteq> {m_basePointer s..<m}"
    using assms(1) by (auto simp: lin_own_def covered_def extent_def)
  then show ?thesis
    using assms separated_subset [of L "{b \<in> L. fst b + snd b \<le> m}"] by (auto simp: lin_own_def lin_ok_def Rollback_def)
qed

text \<open>A sequence of requests.\<close>

primrec Linear_requests :: "(nat \<times> nat) list \<Rightarrow> heap \<Rightarrow> 'u LinearAllocator \<Rightarrow> nat list \<times> heap \<times> 'u LinearAllocator" where
  "Linear_requests [] h s = ([], h, s)"
| "Linear_requests (r # rs) h s = (case Linear_Allocate (fst r) (snd r) h s of (p, h, s) \<Rightarrow>
     case Linear_requests rs h s of (ps, h, s) \<Rightarrow> (p # ps, h, s))"

lemma lin_request_state:
  assumes "Linear_Allocate n a h s = (p, h', s')" "lin_ok s"
  shows "lin_ok s' \<and> h' = h \<and> s' = s\<lparr>m_currentPointer := m_currentPointer s'\<rparr> \<and> m_currentPointer s \<le> m_currentPointer s'"
proof (cases "p = 0")
  case True
  then show ?thesis using lin_allocate_null assms by fastforce
next
  case False
  then have p: "0 < p" by simp
  note e = lin_allocate_some [OF assms(1) p assms(2)]
  show ?thesis using e assms(2) by (simp add: lin_ok_def)
qed

lemma lin_requests_state:
  "Linear_requests rs h s = (ps, h', s') \<Longrightarrow> lin_ok s \<Longrightarrow>
   lin_ok s' \<and> h' = h \<and> s' = s\<lparr>m_currentPointer := m_currentPointer s'\<rparr> \<and> m_currentPointer s \<le> m_currentPointer s'"
proof (induction rs arbitrary: h s ps)
  case Nil then show ?case by simp
next
  case (Cons r rs)
  obtain p h1 s1 where al: "Linear_Allocate (fst r) (snd r) h s = (p, h1, s1)" by (metis prod.exhaust)
  obtain ps' where rest: "Linear_requests rs h1 s1 = (ps', h', s')" using Cons.prems(1) al by (auto split: prod.splits)
  note e = lin_request_state [OF al Cons.prems(2)]
  have i: "lin_ok s' \<and> h' = h1 \<and> s' = s1\<lparr>m_currentPointer := m_currentPointer s'\<rparr> \<and> m_currentPointer s1 \<le> m_currentPointer s'"
    using Cons.IH [OF rest] e by blast
  have "s1\<lparr>m_currentPointer := m_currentPointer s'\<rparr> = s\<lparr>m_currentPointer := m_currentPointer s'\<rparr>"
    using e by (metis LinearAllocator.update_convs(4) LinearAllocator.surjective)
  with e i show ?case by auto
qed

section \<open>Properties\<close>

text \<open>
  C36: \<open>LinearAllocator\<close> on a slab of the upstream allocator: any sequence of allocations, releases and writes of a client leaves its blocks apart and unchanged; a request
  is served from the first address at or after the bump pointer that is a multiple of its normalised alignment, exactly when it fits the slab from there;
  and rolling back to a marker after any further requests restores the state at the marker.
\<close>

theorem LinearAllocator_safe:
  assumes "LinearAllocator_make up_allocate capacity baseAlignment h u = (h0, s0)"
    and "fst (up_allocate capacity baseAlignment h u) + capacity \<le> 2 ^ 64"
    and run: "(client_does Linear_Allocate Linear_Deallocate)\<^sup>*\<^sup>* \<lparr>mem = h0, alloc = s0, held = {}, expect = (\<lambda>_. None)\<rparr> d"
    and req: "Linear_requests rs (mem d) (alloc d) = (ps, h', s')" and n: "0 < n"
  shows "separated (held d) \<and> (\<forall>x b. expect d x = Some b \<longrightarrow> mem d x = b) \<and>
    Rollback (Mark (alloc d)) s' = alloc d \<and>
    fst (Linear_Allocate n a (mem d) (alloc d)) =
      (let q = (m_currentPointer (alloc d) + NormalizeAlignment a - 1) div NormalizeAlignment a * NormalizeAlignment a
       in if m_basePointer (alloc d) \<noteq> 0 \<and> q + n \<le> m_basePointer (alloc d) + m_capacityInBytes (alloc d) then q else 0)"
proof -
  obtain base h1 u1 where up: "up_allocate capacity baseAlignment h u = (base, h1, u1)" by (metis prod.exhaust)
  have "lin_own h0 s0 {}" by (rule lin_make_own [OF up _ assms(1)]) (use assms(2) up in simp)
  then have safe: "separated (held d)" "\<forall>x b. expect d x = Some b \<longrightarrow> mem d x = b" "lin_own (mem d) (alloc d) (held d)"
    using linear.client_safe [OF run] by simp_all
  then have ok: "lin_ok (alloc d)" by (simp add: lin_own_def)
  note st = lin_requests_state [OF req ok]
  have "Rollback (Mark (alloc d)) s' = s'\<lparr>m_currentPointer := m_currentPointer (alloc d)\<rparr>"
  proof -
    have "m_basePointer s' = m_basePointer (alloc d)" "m_capacityInBytes s' = m_capacityInBytes (alloc d)"
      using st by (metis LinearAllocator.select_convs LinearAllocator.surjective LinearAllocator.update_convs(4))+
    then show ?thesis using ok by (simp add: Rollback_def Mark_def lin_ok_def)
  qed
  also have "\<dots> = alloc d" using st by (metis LinearAllocator.surjective LinearAllocator.update_convs(4))
  finally have r: "Rollback (Mark (alloc d)) s' = alloc d" .
  note q = round_div(2) [OF NormalizeAlignment_pos, of "m_currentPointer (alloc d)"]
  have "fst (Linear_Allocate n a (mem d) (alloc d)) =
      (let q = (m_currentPointer (alloc d) + NormalizeAlignment a - 1) div NormalizeAlignment a * NormalizeAlignment a
       in if m_basePointer (alloc d) \<noteq> 0 \<and> q + n \<le> m_basePointer (alloc d) + m_capacityInBytes (alloc d) then q else 0)"
    using n q ok by (auto simp: Linear_Allocate_def std_align_def Let_def Used_def lin_ok_def)
  with safe(1, 2) r show ?thesis by blast
qed

definition sample_linear :: "heap \<times> unit LinearAllocator" where
  "sample_linear = LinearAllocator_make sample_upstream 256 64 (\<lambda>_. 0) ()"

theorem LinearAllocator_safe_witness:
  "Rollback (Mark (snd sample_linear)) (snd (snd (Linear_requests [(8, 8), (24, 32)] (fst sample_linear) (snd sample_linear)))) = snd sample_linear"
proof -
  have mk: "LinearAllocator_make sample_upstream 256 64 (\<lambda>_. 0) () = (fst sample_linear, snd sample_linear)" by (simp add: sample_linear_def)
  obtain ps h' s' where req: "Linear_requests [(8, 8), (24, 32)] (fst sample_linear) (snd sample_linear) = (ps, h', s')" by (metis prod.exhaust)
  define d where "d = \<lparr>mem = fst sample_linear, alloc = snd sample_linear, held = {}, expect = (\<lambda>_::nat. None :: byte option)\<rparr>"
  have "Rollback (Mark (alloc d)) s' = alloc d"
    using LinearAllocator_safe [OF mk, of d "[(8, 8), (24, 32)]" ps h' s' 1 1] req by (simp add: sample_upstream_def d_def)
  then show ?thesis using req by (simp add: d_def)
qed

end
