(* ===== verification/Memory_Fallback.thy ===== *)
theory Memory_Fallback
  imports Memory_Linear
begin

text \<open>
  \<open>FallbackAllocator\<close> of \<^verbatim>\<open>src/include/NGIN/Memory/FallbackAllocator.hpp\<close> over the operations of its two inner allocators: requests go to the
  first and, when it has none left, to the second; releases are routed by ownership. It keeps the contract \<open>allocator\<close> when its parts do and the
  routing finds the right one (locale \<open>routed\<close>).
\<close>

section \<open>FallbackAllocator\<close>

record ('p, 's) Fallback =
  m_primary :: 'p
  m_secondary :: 's

definition Fallback_Allocate :: "'p alloc_op \<Rightarrow> 's alloc_op \<Rightarrow> ('p, 's) Fallback alloc_op" where
  "Fallback_Allocate allocate1 allocate2 n a h f =
     (case allocate1 n a h (m_primary f) of (p, h, s) \<Rightarrow>
        let f = f\<lparr>m_primary := s\<rparr>
        in if p \<noteq> 0 then (p, h, f)
           else case allocate2 n a h (m_secondary f) of (p, h, s) \<Rightarrow> (p, h, f\<lparr>m_secondary := s\<rparr>))"

definition Fallback_Deallocate :: "'p dealloc_op \<Rightarrow> 's dealloc_op \<Rightarrow> (heap \<Rightarrow> 'p \<Rightarrow> nat \<Rightarrow> bool) \<Rightarrow> ('p, 's) Fallback dealloc_op" where
  "Fallback_Deallocate deallocate1 deallocate2 owns p n a h f =
     (if owns h (m_primary f) p
      then case deallocate1 p n a h (m_primary f) of (h, s) \<Rightarrow> (h, f\<lparr>m_primary := s\<rparr>)
      else case deallocate2 p n a h (m_secondary f) of (h, s) \<Rightarrow> (h, f\<lparr>m_secondary := s\<rparr>))"

definition Fallback_Owns :: "('p \<Rightarrow> nat \<Rightarrow> bool) \<Rightarrow> ('s \<Rightarrow> nat \<Rightarrow> bool) \<Rightarrow> ('p, 's) Fallback \<Rightarrow> nat \<Rightarrow> bool" where
  "Fallback_Owns owns1 owns2 f p \<longleftrightarrow> owns1 (m_primary f) p \<or> owns2 (m_secondary f) p"

text \<open>The saturating sum of \<open>MaxSize\<close> and of \<open>Remaining\<close>.\<close>

definition saturating_sum :: "nat \<Rightarrow> nat \<Rightarrow> nat" where
  "saturating_sum a b = (if a > (2 ^ 64 - 1) - b then 2 ^ 64 - 1 else a + b)"
section \<open>Two allocators\<close>

definition both_own :: "(heap \<Rightarrow> 'p \<Rightarrow> block set \<Rightarrow> bool) \<Rightarrow> ('p \<Rightarrow> nat set) \<Rightarrow> (heap \<Rightarrow> 's \<Rightarrow> block set \<Rightarrow> bool) \<Rightarrow> ('s \<Rightarrow> nat set) \<Rightarrow>
    heap \<Rightarrow> ('p, 's) Fallback \<Rightarrow> block set \<Rightarrow> bool" where
  "both_own own1 region1 own2 region2 h f L \<longleftrightarrow> region1 (m_primary f) \<inter> region2 (m_secondary f) = {} \<and>
     (\<exists>L1 L2. L = L1 \<union> L2 \<and> own1 h (m_primary f) L1 \<and> own2 h (m_secondary f) L2)"

definition both_region :: "('p \<Rightarrow> nat set) \<Rightarrow> ('s \<Rightarrow> nat set) \<Rightarrow> ('p, 's) Fallback \<Rightarrow> nat set" where
  "both_region region1 region2 f = region1 (m_primary f) \<union> region2 (m_secondary f)"

context allocator
begin

lemma own_frame: "own h s L \<Longrightarrow> same_outside X h h' \<Longrightarrow> X \<inter> (region s - covered L) = {} \<Longrightarrow> own h' s L"
  by (erule own_client) (auto simp: same_outside_def)

end

text \<open>Two allocators with separate regions, and a routing of releases that finds the right one.\<close>

locale routed =
  first: allocator own1 allocate1 deallocate1 region1 + second: allocator own2 allocate2 deallocate2 region2
  for own1 :: "heap \<Rightarrow> 'p \<Rightarrow> block set \<Rightarrow> bool" and allocate1 deallocate1 region1
    and own2 :: "heap \<Rightarrow> 's \<Rightarrow> block set \<Rightarrow> bool" and allocate2 deallocate2 region2 +
  fixes owns :: "heap \<Rightarrow> 'p \<Rightarrow> nat \<Rightarrow> bool"
  assumes route_first: "own1 h s L \<Longrightarrow> (p, n) \<in> L \<Longrightarrow> owns h s p"
    and route_second: "own1 h s L \<Longrightarrow> own2 h t M \<Longrightarrow> region1 s \<inter> region2 t = {} \<Longrightarrow> (p, n) \<in> M \<Longrightarrow> \<not> owns h s p"
begin

lemma both_parts:
  assumes "both_own own1 region1 own2 region2 h f L"
  obtains L1 L2 where "L = L1 \<union> L2" "own1 h (m_primary f) L1" "own2 h (m_secondary f) L2"
    "region1 (m_primary f) \<inter> region2 (m_secondary f) = {}" "separated L1" "separated L2" "covered L1 \<subseteq> region1 (m_primary f)"
    "covered L2 \<subseteq> region2 (m_secondary f)" "finite L"
proof -
  obtain L1 L2 where l: "L = L1 \<union> L2" "own1 h (m_primary f) L1" "own2 h (m_secondary f) L2" "region1 (m_primary f) \<inter> region2 (m_secondary f) = {}"
    using assms unfolding both_own_def by blast
  show ?thesis using that [OF l] first.own_blocks [OF l(2)] second.own_blocks [OF l(3)] l(1) by blast
qed

lemma both_ownI:
  "own1 h (m_primary f) L1 \<Longrightarrow> own2 h (m_secondary f) L2 \<Longrightarrow> region1 (m_primary f) \<inter> region2 (m_secondary f) = {} \<Longrightarrow>
   both_own own1 region1 own2 region2 h f (L1 \<union> L2)"
  unfolding both_own_def by blast

lemma covered_union [simp]: "covered (L \<union> M) = covered L \<union> covered M"
  by (auto simp: covered_def)

text \<open>What an allocation of the composite does, case by case.\<close>

lemma both_allocate:
  assumes own: "both_own own1 region1 own2 region2 h f L" and al: "Fallback_Allocate allocate1 allocate2 n a h f = (p, h', f')"
  shows "both_region region1 region2 f' = both_region region1 region2 f \<and>
    (if p = 0 then both_own own1 region1 own2 region2 h' f' L
     else both_own own1 region1 own2 region2 h' f' (insert (p, n) L) \<and> extent (p, n) \<inter> covered L = {} \<and> 0 < n \<and> aligned_to a p) \<and>
    same_outside (both_region region1 region2 f - covered L) h h'"
proof -
  obtain L1 L2 where L: "L = L1 \<union> L2" "own1 h (m_primary f) L1" "own2 h (m_secondary f) L2"
    "region1 (m_primary f) \<inter> region2 (m_secondary f) = {}" "covered L1 \<subseteq> region1 (m_primary f)" "covered L2 \<subseteq> region2 (m_secondary f)"
    using both_parts [OF own] by metis
  obtain p1 h1 s1 where a1: "allocate1 n a h (m_primary f) = (p1, h1, s1)" by (metis prod.exhaust)
  have r1: "region1 s1 = region1 (m_primary f)" by (rule first.allocate_region [OF L(2) a1])
  have w1: "same_outside (region1 (m_primary f) - covered L1) h h1" by (rule first.allocate_writes [OF L(2) a1])
  have k2: "own2 h1 (m_secondary f) L2" using L(4, 6) by (intro second.own_frame [OF L(3) w1]) blast
  have W1: "same_outside (both_region region1 region2 f - covered L) h h1"
    using L by (intro same_outside_mono [OF w1]) (auto simp: both_region_def)
  show ?thesis
  proof (cases "p1 = 0")
    case False
    then have f': "p = p1" "h' = h1" "f' = f\<lparr>m_primary := s1\<rparr>" using al a1 by (auto simp: Fallback_Allocate_def Let_def)
    have b: "own1 h1 s1 (insert (p, n) L1)" "extent (p, n) \<inter> covered L1 = {}" "0 < n" "aligned_to a p"
      using first.allocate_block [OF L(2) a1] False f'(1) by auto
    have "extent (p, n) \<subseteq> region1 (m_primary f)" using first.own_blocks [OF b(1)] r1 by auto
    then have "extent (p, n) \<inter> covered L = {}" using b(2) L by auto
    moreover have "both_own own1 region1 own2 region2 h' f' (insert (p, n) L1 \<union> L2)"
      using b(1) k2 L(4) r1 by (intro both_ownI) (simp_all add: f')
    ultimately show ?thesis using False f' b(3, 4) L(1) W1 r1 by (simp add: both_region_def)
  next
    case True
    obtain p2 h2 s2 where a2: "allocate2 n a h1 (m_secondary f) = (p2, h2, s2)" by (metis prod.exhaust)
    have f': "p = p2" "h' = h2" "f' = f\<lparr>m_primary := s1, m_secondary := s2\<rparr>" using al a1 a2 True by (auto simp: Fallback_Allocate_def Let_def)
    have k1: "own1 h1 s1 L1" using first.allocate_null [OF L(2)] a1 True by simp
    have r2: "region2 s2 = region2 (m_secondary f)" by (rule second.allocate_region [OF k2 a2])
    have w2: "same_outside (region2 (m_secondary f) - covered L2) h1 h2" by (rule second.allocate_writes [OF k2 a2])
    have k1': "own1 h2 s1 L1" using L(4, 5) r1 by (intro first.own_frame [OF k1 w2]) blast
    have "same_outside (both_region region1 region2 f - covered L) h1 h2"
      using L by (intro same_outside_mono [OF w2]) (auto simp: both_region_def)
    then have W: "same_outside (both_region region1 region2 f - covered L) h h2" by (rule same_outside_trans [OF W1])
    show ?thesis
    proof (cases "p = 0")
      case True
      then have "own2 h2 s2 L2" using second.allocate_null [OF k2] a2 f'(1) by simp
      then have "both_own own1 region1 own2 region2 h' f' (L1 \<union> L2)" using k1' L(4) r1 r2 by (intro both_ownI) (simp_all add: f')
      then show ?thesis using True W L(1) f' r1 r2 by (simp add: both_region_def)
    next
      case False
      have b: "own2 h2 s2 (insert (p, n) L2)" "extent (p, n) \<inter> covered L2 = {}" "0 < n" "aligned_to a p"
        using second.allocate_block [OF k2 a2] False f'(1) by auto
      have "extent (p, n) \<subseteq> region2 (m_secondary f)" using second.own_blocks [OF b(1)] r2 by auto
      then have e: "extent (p, n) \<inter> covered L = {}" using b(2) L by auto
      have "both_own own1 region1 own2 region2 h' f' (L1 \<union> insert (p, n) L2)" using b(1) k1' L(4) r1 r2 by (intro both_ownI) (simp_all add: f')
      moreover have "L1 \<union> insert (p, n) L2 = insert (p, n) L" using L(1) by blast
      ultimately have "both_own own1 region1 own2 region2 h' f' (insert (p, n) L)" by simp
      then show ?thesis using False W e b(3, 4) f' r1 r2 by (simp add: both_region_def)
    qed
  qed
qed

lemma both_deallocate:
  assumes own: "both_own own1 region1 own2 region2 h f L" and pn: "(p, n) \<in> L"
    and de: "Fallback_Deallocate deallocate1 deallocate2 owns p n a h f = (h', f')"
  shows "both_region region1 region2 f' = both_region region1 region2 f \<and> both_own own1 region1 own2 region2 h' f' (L - {(p, n)}) \<and>
    same_outside (both_region region1 region2 f - covered (L - {(p, n)})) h h'"
proof -
  obtain L1 L2 where L: "L = L1 \<union> L2" "own1 h (m_primary f) L1" "own2 h (m_secondary f) L2"
    "region1 (m_primary f) \<inter> region2 (m_secondary f) = {}" "covered L1 \<subseteq> region1 (m_primary f)" "covered L2 \<subseteq> region2 (m_secondary f)"
    "separated L1" "separated L2"
    using both_parts [OF own] by metis
  have one: "(p, n) \<notin> L1 \<or> (p, n) \<notin> L2"
  proof (rule ccontr)
    assume "\<not> ((p, n) \<notin> L1 \<or> (p, n) \<notin> L2)"
    then have "p \<in> covered L1" "p \<in> covered L2" using separated_bounds L(7) in_covered [of "(p, n)"] by auto
    then show False using L(4-6) by blast
  qed
  show ?thesis
  proof (cases "(p, n) \<in> L1")
    case True
    obtain h1 s1 where d1: "deallocate1 p n a h (m_primary f) = (h1, s1)" by fastforce
    have f': "h' = h1" "f' = f\<lparr>m_primary := s1\<rparr>" using de d1 route_first [OF L(2) True] by (auto simp: Fallback_Deallocate_def)
    have r1: "region1 s1 = region1 (m_primary f)" by (rule first.deallocate_region [OF L(2) True d1])
    have w1: "same_outside (region1 (m_primary f) - covered (L1 - {(p, n)})) h h1" by (rule first.deallocate_writes [OF L(2) True d1])
    have k2: "own2 h1 (m_secondary f) L2" using L(4, 6) by (intro second.own_frame [OF L(3) w1]) blast
    have e: "L - {(p, n)} = (L1 - {(p, n)}) \<union> L2" using one True L(1) by blast
    have "same_outside (both_region region1 region2 f - covered (L - {(p, n)})) h h1"
      using L unfolding e by (intro same_outside_mono [OF w1]) (auto simp: both_region_def)
    moreover have "both_own own1 region1 own2 region2 h' f' ((L1 - {(p, n)}) \<union> L2)"
      using first.deallocate_block [OF L(2) True d1] k2 L(4) r1 by (intro both_ownI) (simp_all add: f')
    ultimately show ?thesis unfolding e using f' r1 by (simp add: both_region_def)
  next
    case False
    then have True: "(p, n) \<in> L2" using pn L(1) by blast
    obtain h1 s1 where d1: "deallocate2 p n a h (m_secondary f) = (h1, s1)" by fastforce
    have f': "h' = h1" "f' = f\<lparr>m_secondary := s1\<rparr>" using de d1 route_second [OF L(2, 3, 4) True] by (auto simp: Fallback_Deallocate_def)
    have r1: "region2 s1 = region2 (m_secondary f)" by (rule second.deallocate_region [OF L(3) True d1])
    have w1: "same_outside (region2 (m_secondary f) - covered (L2 - {(p, n)})) h h1" by (rule second.deallocate_writes [OF L(3) True d1])
    have k2: "own1 h1 (m_primary f) L1" using L(4, 5) by (intro first.own_frame [OF L(2) w1]) blast
    have e: "L - {(p, n)} = L1 \<union> (L2 - {(p, n)})" using one True L(1) by blast
    have "same_outside (both_region region1 region2 f - covered (L - {(p, n)})) h h1"
      using L unfolding e by (intro same_outside_mono [OF w1]) (auto simp: both_region_def)
    moreover have "both_own own1 region1 own2 region2 h' f' (L1 \<union> (L2 - {(p, n)}))"
      using second.deallocate_block [OF L(3) True d1] k2 L(4) r1 by (intro both_ownI) (simp_all add: f')
    ultimately show ?thesis unfolding e using f' r1 by (simp add: both_region_def)
  qed
qed

lemma both_blocks:
  assumes "both_own own1 region1 own2 region2 h f L"
  shows "separated L \<and> covered L \<subseteq> both_region region1 region2 f \<and> finite L"
proof -
  obtain L1 L2 where L: "L = L1 \<union> L2" "region1 (m_primary f) \<inter> region2 (m_secondary f) = {}" "separated L1" "separated L2"
    "covered L1 \<subseteq> region1 (m_primary f)" "covered L2 \<subseteq> region2 (m_secondary f)" "finite L"
    using both_parts [OF assms] by metis
  then have "separated L" using separated_union [of L1 L2] by blast
  with L show ?thesis by (auto simp: both_region_def)
qed

lemma both_client:
  assumes "both_own own1 region1 own2 region2 h f L" "\<And>x. x \<in> both_region region1 region2 f - covered L \<Longrightarrow> h' x = h x"
  shows "both_own own1 region1 own2 region2 h' f L"
proof -
  obtain L1 L2 where L: "L = L1 \<union> L2" "own1 h (m_primary f) L1" "own2 h (m_secondary f) L2"
    "region1 (m_primary f) \<inter> region2 (m_secondary f) = {}" "covered L1 \<subseteq> region1 (m_primary f)" "covered L2 \<subseteq> region2 (m_secondary f)"
    using both_parts [OF assms(1)] by metis
  have "own1 h' (m_primary f) L1" by (rule first.own_client [OF L(2)], rule assms(2)) (use L in \<open>auto simp: both_region_def\<close>)
  moreover have "own2 h' (m_secondary f) L2" by (rule second.own_client [OF L(3)], rule assms(2)) (use L in \<open>auto simp: both_region_def\<close>)
  ultimately show ?thesis unfolding L(1) using L(4) by (rule both_ownI)
qed

end

sublocale routed \<subseteq> both: allocator "both_own own1 region1 own2 region2" "Fallback_Allocate allocate1 allocate2"
  "Fallback_Deallocate deallocate1 deallocate2 owns" "both_region region1 region2"
proof
  fix h h' :: heap and f f' :: "('p, 's) Fallback" and L n a p
  let ?own = "both_own own1 region1 own2 region2" and ?region = "both_region region1 region2"
  show "separated L \<and> covered L \<subseteq> ?region f \<and> finite L" if "?own h f L" using that by (rule both_blocks)
  show "?own h' f L" if "?own h f L" "\<And>x. x \<in> ?region f - covered L \<Longrightarrow> h' x = h x" using that by (rule both_client)
  show "?region f' = ?region f" "same_outside (?region f - covered L) h h'"
    if "?own h f L" "Fallback_Allocate allocate1 allocate2 n a h f = (p, h', f')" using both_allocate [OF that] by simp_all
  show "?own h' f' L" if "?own h f L" "Fallback_Allocate allocate1 allocate2 n a h f = (0, h', f')" using both_allocate [OF that] by simp
  show "?own h' f' (insert (p, n) L) \<and> extent (p, n) \<inter> covered L = {} \<and> 0 < n \<and> aligned_to a p"
    if "?own h f L" "Fallback_Allocate allocate1 allocate2 n a h f = (p, h', f')" "0 < p" using both_allocate [OF that(1, 2)] that(3) by simp
  show "?region f' = ?region f" "?own h' f' (L - {(p, n)})" "same_outside (?region f - covered (L - {(p, n)})) h h'"
    if "?own h f L" "(p, n) \<in> L" "Fallback_Deallocate deallocate1 deallocate2 owns p n a h f = (h', f')" using both_deallocate [OF that] by simp_all
qed

lemma apart_new: "extent (p, n) \<inter> covered L = {} \<Longrightarrow> 0 < n \<Longrightarrow> (p, n) \<notin> L"
  using in_covered [of "(p, n)" L p] by (auto simp: disjoint_iff)

section \<open>A pool that falls back to a linear allocator\<close>

lemma lin_route:
  assumes "lin_own h t M" "fb_region c s \<inter> lin_region t = {}" "(p, n) \<in> M"
  shows "\<not> FixedBlock_Owns c s p"
proof
  assume "FixedBlock_Owns c s p"
  then have "p \<in> fb_region c s" by (auto simp: FixedBlock_Owns_def fb_region_def slab_def SlabSize_def mult.commute)
  moreover have "p \<in> lin_region t"
    using linear.own_blocks [OF assms(1)] separated_bounds [of M p n] in_covered [OF assms(3), of p] assms(3) by auto
  ultimately show False using assms(2) by blast
qed

interpretation pool_then_linear: routed "fb_own c" "FixedBlock_Allocate c" "FixedBlock_Deallocate c" "fb_region c"
  lin_own Linear_Allocate Linear_Deallocate lin_region "\<lambda>h. FixedBlock_Owns c" for c
proof
  show "FixedBlock_Owns c s p" if "fb_own c h s L" "(p, n) \<in> L" for h :: heap and s :: "'a FixedBlock" and L p n
    using fb_held [OF that(1), of p] that(2) by (auto simp: IsBlockStart_def)
qed (rule lin_route)

text \<open>\<open>FallbackAllocator\<close> of a pool and a linear allocator on separate slabs: the client's blocks stay apart and keep their content.\<close>

lemma FallbackAllocator_safe:
  assumes "fb_own c h s {}" "lin_own h t {}" "fb_region c s \<inter> lin_region t = {}"
    and run: "(client_does (Fallback_Allocate (FixedBlock_Allocate c) Linear_Allocate)
        (Fallback_Deallocate (FixedBlock_Deallocate c) Linear_Deallocate (\<lambda>h. FixedBlock_Owns c)))\<^sup>*\<^sup>*
      \<lparr>mem = h, alloc = \<lparr>m_primary = s, m_secondary = t\<rparr>, held = {}, expect = (\<lambda>_. None)\<rparr> d"
  shows "separated (held d) \<and> (\<forall>x b. expect d x = Some b \<longrightarrow> mem d x = b)"
  using pool_then_linear.both.client_safe [OF run] assms(1-3) by (simp add: both_own_def)

end
