(* ===== verification/Memory_Tagged.thy ===== *)
theory Memory_Tagged
  imports Memory_Fallback
begin

text \<open>
  \<open>TaggedFallbackAllocator\<close> of \<^verbatim>\<open>src/include/NGIN/Memory/FallbackAllocator.hpp\<close>: a header in memory in front of each block says which of the two inner
  allocators it came from and what to give back. Locale \<open>tagged_layer\<close>: one allocator with headers keeps the contract; locale \<open>tagged_pair\<close>: so do two with
  different tags, which the tag in the header routes to.
\<close>

section \<open>TaggedFallbackAllocator\<close>

text \<open>The header: the raw address, size and alignment, the magic number, the tag and three bytes of padding, 32 bytes in all, aligned to 8.\<close>

definition TAG_MAGIC :: nat where
  "TAG_MAGIC = 0x7A67F00D"

definition put_header :: "heap \<Rightarrow> nat \<Rightarrow> nat \<Rightarrow> nat \<Rightarrow> nat \<Rightarrow> byte \<Rightarrow> heap" where
  "put_header h q raw rawSize rawAlignment tag =
     (let h = store64 h (q - 32) raw; h = store64 h (q - 24) rawSize; h = store64 h (q - 16) rawAlignment;
          h = store_le 4 h (q - 8) TAG_MAGIC in h(q - 4 := tag))"

definition AllocateTagged :: "byte \<Rightarrow> 's alloc_op \<Rightarrow> 's dealloc_op \<Rightarrow> 's alloc_op" where
  "AllocateTagged tag allocate deallocate n alignment h s =
     (let normalizedAlignment = max (detail_NormalizeAlignment alignment) 8
      in if n > 2 ^ 64 - 1 - 32 - (normalizedAlignment - 1) then (0, h, s)
         else let rawSize = n + 32 + (normalizedAlignment - 1)
              in case allocate rawSize normalizedAlignment h s of (raw, h, s) \<Rightarrow>
                   if raw = 0 then (0, h, s)
                   else case std_align normalizedAlignment n (raw + 32) (rawSize - 32) of
                          None \<Rightarrow> (case deallocate raw rawSize normalizedAlignment h s of (h, s) \<Rightarrow> (0, h, s))
                        | Some q \<Rightarrow> (q, put_header h q raw rawSize normalizedAlignment tag, s))"

definition Tagged_Allocate :: "'p alloc_op \<Rightarrow> 'p dealloc_op \<Rightarrow> 's alloc_op \<Rightarrow> 's dealloc_op \<Rightarrow> ('p, 's) Fallback alloc_op" where
  "Tagged_Allocate allocate1 deallocate1 allocate2 deallocate2 n alignment h f =
     (if n = 0 then (0, h, f)
      else case AllocateTagged 1 allocate1 deallocate1 n alignment h (m_primary f) of (p, h, s) \<Rightarrow>
        let f = f\<lparr>m_primary := s\<rparr>
        in if p \<noteq> 0 then (p, h, f)
           else case AllocateTagged 2 allocate2 deallocate2 n alignment h (m_secondary f) of (p, h, s) \<Rightarrow> (p, h, f\<lparr>m_secondary := s\<rparr>))"

definition Tagged_Deallocate :: "'p dealloc_op \<Rightarrow> 's dealloc_op \<Rightarrow> ('p, 's) Fallback dealloc_op" where
  "Tagged_Deallocate deallocate1 deallocate2 p n a h f =
     (if p = 0 then (h, f)
      else if load_le 4 h (p - 8) \<noteq> TAG_MAGIC then (h, f)
      else if h (p - 4) = 1
      then case deallocate1 (load64 h (p - 32)) (load64 h (p - 24)) (load64 h (p - 16)) h (m_primary f) of (h, s) \<Rightarrow> (h, f\<lparr>m_primary := s\<rparr>)
      else case deallocate2 (load64 h (p - 32)) (load64 h (p - 24)) (load64 h (p - 16)) h (m_secondary f) of (h, s) \<Rightarrow> (h, f\<lparr>m_secondary := s\<rparr>))"

definition Tagged_AllocateEx ::
  "'p alloc_op \<Rightarrow> 'p dealloc_op \<Rightarrow> 's alloc_op \<Rightarrow> 's dealloc_op \<Rightarrow> nat \<Rightarrow> nat \<Rightarrow> heap \<Rightarrow> ('p, 's) Fallback \<Rightarrow> MemoryBlock \<times> heap \<times> ('p, 's) Fallback" where
  "Tagged_AllocateEx allocate1 deallocate1 allocate2 deallocate2 n alignment h f =
     (case Tagged_Allocate allocate1 deallocate1 allocate2 deallocate2 n alignment h f of (p, h, f) \<Rightarrow>
        (if p = 0 then \<lparr>ptr = 0, SizeInBytes = 0, AlignmentInBytes = 0, Cookie = 0\<rparr>
         else \<lparr>ptr = p, SizeInBytes = n, AlignmentInBytes = detail_NormalizeAlignment alignment, Cookie = unat (h (p - 4))\<rparr>, h, f))"

section \<open>Blocks behind a header\<close>

definition header_at :: "heap \<Rightarrow> byte \<Rightarrow> block \<Rightarrow> block \<Rightarrow> bool" where
  "header_at h tag b r \<longleftrightarrow> fst r + 32 \<le> fst b \<and> fst b + snd b \<le> fst r + snd r \<and>
     load64 h (fst b - 32) = fst r \<and> load64 h (fst b - 24) = snd r \<and> load_le 4 h (fst b - 8) = TAG_MAGIC \<and> h (fst b - 4) = tag"

definition tagged_own :: "(heap \<Rightarrow> 's \<Rightarrow> block set \<Rightarrow> bool) \<Rightarrow> byte \<Rightarrow> heap \<Rightarrow> 's \<Rightarrow> block set \<Rightarrow> bool" where
  "tagged_own own tag h s L \<longleftrightarrow> (\<exists>raw. inj_on raw L \<and> own h s (raw ` L) \<and> (\<forall>b\<in>L. 0 < snd b \<and> header_at h tag b (raw b)))"

text \<open>One allocator with headers in front of its blocks.\<close>

definition Tagged1_Allocate :: "byte \<Rightarrow> 's alloc_op \<Rightarrow> 's dealloc_op \<Rightarrow> 's alloc_op" where
  "Tagged1_Allocate tag allocate deallocate n a h s = (if n = 0 then (0, h, s) else AllocateTagged tag allocate deallocate n a h s)"

definition Tagged1_Deallocate :: "'s dealloc_op \<Rightarrow> 's dealloc_op" where
  "Tagged1_Deallocate deallocate p n a h s = deallocate (load64 h (p - 32)) (load64 h (p - 24)) (load64 h (p - 16)) h s"

lemma header_at_cong:
  "header_at h tag b r \<Longrightarrow> (\<And>x. fst b - 32 \<le> x \<Longrightarrow> x < fst b \<Longrightarrow> h' x = h x) \<Longrightarrow> header_at h' tag b r"
  using load_le_cong [of "fst b - 32" 8 h' h] load_le_cong [of "fst b - 24" 8 h' h] load_le_cong [of "fst b - 8" 4 h' h]
  by (auto simp: header_at_def)

lemma header_at_extent: "header_at h tag b r \<Longrightarrow> extent b \<subseteq> extent r"
  by (auto simp: header_at_def extent_def)

lemma put_header_at:
  "put_header h (k + 32) r m a tag = (store_le 4 (store64 (store64 (store64 h k r) (k + 8) m) (k + 16) a) (k + 24) TAG_MAGIC)(k + 28 := tag)"
  by (simp add: put_header_def Let_def add.commute)

lemma put_header_outside:
  assumes "32 \<le> q" "x < q - 32 \<or> q \<le> x"
  shows "put_header h q r m a tag x = h x"
proof -
  obtain k where "q = k + 32" using assms(1) by (metis le_add_diff_inverse2)
  with assms(2) show ?thesis by (auto simp: put_header_at store_le_outside)
qed

lemma put_header_loads:
  assumes "32 \<le> q" "r < 2 ^ 64" "m < 2 ^ 64"
  shows "load64 (put_header h q r m a tag) (q - 32) = r" "load64 (put_header h q r m a tag) (q - 24) = m"
    "load_le 4 (put_header h q r m a tag) (q - 8) = TAG_MAGIC" "put_header h q r m a tag (q - 4) = tag"
proof -
  obtain k where q: "q = k + 32" using assms(1) by (metis le_add_diff_inverse2)
  define h1 h2 h3 h4 where "h1 = store64 h k r" and "h2 = store64 h1 (k + 8) m" and "h3 = store64 h2 (k + 16) a"
    and "h4 = store_le 4 h3 (k + 24) TAG_MAGIC"
  have p: "put_header h (k + 32) r m a tag = h4(k + 28 := tag)" by (simp only: put_header_at h1_def h2_def h3_def h4_def)
  have byte: "load_le j (h4(k + 28 := tag)) p = load_le j h4 p" if "p + j \<le> k + 28" for j p using that by (intro load_le_cong) auto
  have "load64 h4 k = load64 h3 k" unfolding h4_def by (rule load_store_other) simp
  also have "\<dots> = load64 h2 k" unfolding h3_def by (rule load_store_other) simp
  also have "\<dots> = load64 h1 k" unfolding h2_def by (rule load_store_other) simp
  also have "\<dots> = r" unfolding h1_def using assms(2) by (rule load_store64)
  finally show "load64 (put_header h q r m a tag) (q - 32) = r" using byte [of k 8] by (simp add: p q add.commute)
  have "load64 h4 (k + 8) = load64 h3 (k + 8)" unfolding h4_def by (rule load_store_other) simp
  also have "\<dots> = load64 h2 (k + 8)" unfolding h3_def by (rule load_store_other) simp
  also have "\<dots> = m" unfolding h2_def using assms(3) by (rule load_store64)
  finally show "load64 (put_header h q r m a tag) (q - 24) = m" using byte [of "k + 8" 8] by (simp add: p q add.commute)
  have "load_le 4 h4 (k + 24) = TAG_MAGIC" unfolding h4_def by (rule load_store_le) (simp add: TAG_MAGIC_def)
  then show "load_le 4 (put_header h q r m a tag) (q - 8) = TAG_MAGIC" using byte [of "k + 24" 4] by (simp add: p q add.commute)
  show "put_header h q r m a tag (q - 4) = tag" by (simp add: p q add.commute)
qed

locale tagged_layer = allocator own allocate deallocate region
  for own :: "heap \<Rightarrow> 's \<Rightarrow> block set \<Rightarrow> bool" and allocate deallocate region +
  fixes tag :: byte
begin

lemma layer_parts:
  assumes "tagged_own own tag h s L"
  obtains raw where "inj_on raw L" "own h s (raw ` L)" "\<And>b. b \<in> L \<Longrightarrow> 0 < snd b \<and> header_at h tag b (raw b)"
    "\<And>b. b \<in> L \<Longrightarrow> extent b \<subseteq> extent (raw b)" "\<And>b c. b \<in> L \<Longrightarrow> c \<in> L \<Longrightarrow> b \<noteq> c \<Longrightarrow> extent (raw b) \<inter> extent (raw c) = {}"
    "covered L \<subseteq> covered (raw ` L)" "covered (raw ` L) \<subseteq> region s" "separated (raw ` L)" "finite L"
proof -
  obtain raw where r: "inj_on raw L" "own h s (raw ` L)" "\<And>b. b \<in> L \<Longrightarrow> 0 < snd b \<and> header_at h tag b (raw b)"
    using assms unfolding tagged_own_def by blast
  note o = own_blocks [OF r(2)]
  have e: "extent b \<subseteq> extent (raw b)" if "b \<in> L" for b using r(3) [OF that] header_at_extent by blast
  have d: "extent (raw b) \<inter> extent (raw c) = {}" if "b \<in> L" "c \<in> L" "b \<noteq> c" for b c
    using that o r(1) by (intro separated_disjoint [of "raw ` L"]) (auto simp: inj_on_eq_iff)
  have c: "covered L \<subseteq> covered (raw ` L)" using e by (auto simp: covered_def)
  show ?thesis using that [OF r e d c] o r(1) finite_imageD by blast
qed

lemma layer_separated:
  assumes "tagged_own own tag h s L"
  shows "separated L \<and> covered L \<subseteq> region s \<and> finite L"
proof -
  obtain raw where r: "\<And>b. b \<in> L \<Longrightarrow> 0 < snd b \<and> header_at h tag b (raw b)" "\<And>b. b \<in> L \<Longrightarrow> extent b \<subseteq> extent (raw b)"
    "\<And>b c. b \<in> L \<Longrightarrow> c \<in> L \<Longrightarrow> b \<noteq> c \<Longrightarrow> extent (raw b) \<inter> extent (raw c) = {}"
    "covered L \<subseteq> covered (raw ` L)" "covered (raw ` L) \<subseteq> region s" "separated (raw ` L)" "finite L"
    using layer_parts [OF assms] by metis
  have "0 < fst b \<and> 0 < snd b \<and> fst b + snd b \<le> 2 ^ 64" if "b \<in> L" for b
    using r(1) [OF that] separated_bounds [OF r(6), of "fst (raw b)" "snd (raw b)"] that by (auto simp: header_at_def)
  moreover have "extent b \<inter> extent c = {}" if "b \<in> L" "c \<in> L" "b \<noteq> c" for b c using r(2, 3) that by blast
  ultimately show ?thesis using r(4, 5, 7) unfolding separated_def by blast
qed

text \<open>The bytes of a header are in the raw block, outside of every held block.\<close>

lemma header_bytes:
  assumes "b \<in> L" "\<And>b. b \<in> L \<Longrightarrow> 0 < snd b \<and> header_at h tag b (raw b)" "\<And>b. b \<in> L \<Longrightarrow> extent b \<subseteq> extent (raw b)"
    "\<And>b c. b \<in> L \<Longrightarrow> c \<in> L \<Longrightarrow> b \<noteq> c \<Longrightarrow> extent (raw b) \<inter> extent (raw c) = {}" "fst b - 32 \<le> x" "x < fst b"
  shows "x \<in> extent (raw b) - covered L"
proof -
  have x: "x \<in> extent (raw b)" using assms(2) [OF assms(1)] assms(5, 6) by (auto simp: header_at_def extent_def)
  have "x \<notin> extent c" if "c \<in> L" for c
  proof (cases "c = b")
    case True then show ?thesis using assms(6) by (auto simp: extent_def)
  next
    case False then show ?thesis using assms(3, 4) assms(1) that x by blast
  qed
  with x show ?thesis by (auto simp: covered_def)
qed

lemma layer_client:
  assumes "tagged_own own tag h s L" "\<And>x. x \<in> region s - covered L \<Longrightarrow> h' x = h x"
  shows "tagged_own own tag h' s L"
proof -
  obtain raw where r: "inj_on raw L" "own h s (raw ` L)" "\<And>b. b \<in> L \<Longrightarrow> 0 < snd b \<and> header_at h tag b (raw b)"
    "\<And>b. b \<in> L \<Longrightarrow> extent b \<subseteq> extent (raw b)" "\<And>b c. b \<in> L \<Longrightarrow> c \<in> L \<Longrightarrow> b \<noteq> c \<Longrightarrow> extent (raw b) \<inter> extent (raw c) = {}"
    "covered L \<subseteq> covered (raw ` L)" "covered (raw ` L) \<subseteq> region s"
    using layer_parts [OF assms(1)] by metis
  have "own h' s (raw ` L)" by (rule own_client [OF r(2)], rule assms(2)) (use r(6) in blast)
  moreover have "0 < snd b \<and> header_at h' tag b (raw b)" if b: "b \<in> L" for b
  proof -
    have "h' x = h x" if "fst b - 32 \<le> x" "x < fst b" for x
    proof (rule assms(2))
      have "x \<in> extent (raw b) - covered L" by (rule header_bytes [OF b r(3-5) that])
      moreover have "extent (raw b) \<subseteq> region s" using r(7) b by (auto simp: covered_def)
      ultimately show "x \<in> region s - covered L" by blast
    qed
    then show ?thesis using r(3) [OF b] header_at_cong by blast
  qed
  ultimately show ?thesis using r(1) unfolding tagged_own_def by blast
qed

end

context tagged_layer
begin

text \<open>The layer after an operation of the inner allocator that leaves the raw blocks alone.\<close>

lemma layer_keep:
  assumes "inj_on raw L" "own h' s' (raw ` L)" "\<And>b. b \<in> L \<Longrightarrow> 0 < snd b \<and> header_at h tag b (raw b)"
    "\<And>x. x \<in> covered (raw ` L) \<Longrightarrow> h' x = h x"
  shows "tagged_own own tag h' s' L"
proof -
  have "header_at h' tag b (raw b)" if b: "b \<in> L" for b
  proof (rule header_at_cong)
    show "header_at h tag b (raw b)" using assms(3) [OF b] by blast
    then show "h' x = h x" if "fst b - 32 \<le> x" "x < fst b" for x
      using that b by (intro assms(4) in_covered [of "raw b"]) (auto simp: header_at_def extent_def)
  qed
  with assms(1-3) show ?thesis unfolding tagged_own_def by blast
qed

text \<open>A new block behind its header in a new raw block.\<close>

lemma layer_grow:
  assumes r: "inj_on raw L" "\<And>b. b \<in> L \<Longrightarrow> 0 < snd b \<and> header_at h tag b (raw b)" "covered L \<subseteq> covered (raw ` L)"
    and o1: "own h1 s1 (insert (p, m) (raw ` L))" and e1: "extent (p, m) \<inter> covered (raw ` L) = {}"
    and keep: "\<And>x. x \<in> covered (raw ` L) \<Longrightarrow> h1 x = h x" and hw: "same_outside (extent (p, m)) h1 h'"
    and hdr: "header_at h' tag (q, n) (p, m)" and n: "0 < n"
  shows "tagged_own own tag h' s1 (insert (q, n) L) \<and> extent (q, n) \<inter> covered L = {}"
proof -
  have apart: "extent (q, n) \<inter> covered L = {}" using header_at_extent [OF hdr] e1 r(3) by blast
  let ?raw = "raw((q, n) := (p, m))"
  have new: "(q, n) \<notin> L" by (rule apart_new [OF apart n])
  have "0 < m" using hdr n by (simp add: header_at_def)
  then have fresh: "(p, m) \<notin> raw ` L" by (rule apart_new [OF e1])
  have img: "?raw ` L = raw ` L" using new by (intro image_cong) auto
  have inj: "inj_on ?raw (insert (q, n) L)" using inj_on_fun_updI [OF r(1) fresh] new fresh img by simp
  have "?raw ` insert (q, n) L = insert (p, m) (raw ` L)" using img by (metis fun_upd_same image_insert)
  moreover have "own h' s1 (insert (p, m) (raw ` L))" by (rule own_frame [OF o1 hw]) auto
  ultimately have o2: "own h' s1 (?raw ` insert (q, n) L)" by metis
  have "header_at h' tag b (raw b)" if b: "b \<in> L" for b
  proof (rule header_at_cong)
    show "header_at h tag b (raw b)" using r(2) [OF b] by blast
    fix x assume "fst b - 32 \<le> x" "x < fst b"
    then have "x \<in> extent (raw b)" using r(2) [OF b] by (auto simp: header_at_def extent_def)
    then have x: "x \<in> covered (raw ` L)" using b by (auto simp: covered_def)
    then have "x \<notin> extent (p, m)" using e1 by blast
    then show "h' x = h x" using hw keep [OF x] unfolding same_outside_def by simp
  qed
  then have "\<forall>b\<in>insert (q, n) L. 0 < snd b \<and> header_at h' tag b (?raw b)" using r(2) hdr n new by auto
  with inj o2 apart show ?thesis unfolding tagged_own_def by blast
qed

text \<open>The address the request gives, and its header, once the inner allocator has given a raw block.\<close>

lemma AllocateTagged_raw:
  assumes al: "AllocateTagged tag allocate deallocate n a h s = (q, h', s')" and n: "0 < n"
    and na: "na = max (detail_NormalizeAlignment a) 8" and m: "m = n + 32 + (na - 1)"
    and size: "\<not> n > 2 ^ 64 - 1 - 32 - (na - 1)" and a1: "allocate m na h s = (p, h1, s1)" and p: "0 < p" "p + m \<le> 2 ^ 64"
  shows "s' = s1 \<and> q \<noteq> 0 \<and> header_at h' tag (q, n) (p, m) \<and> same_outside (extent (p, m)) h1 h' \<and> aligned_to a q"
proof -
  have na8: "8 \<le> na" by (simp add: na)
  define q' where "q' = (p + 32 + na - 1) div na * na"
  note q' = round_div [of na "p + 32", folded q'_def]
  have b: "p + 32 \<le> q'" "q' + n \<le> p + m" "na dvd q'" using q' na8 by (auto simp: m)
  have "std_align na n (p + 32) (m - 32) = Some q'"
    using b q'(3) na8 unfolding std_align_def Let_def q'_def [symmetric] by (auto simp: m)
  then have res: "q = q'" "h' = put_header h1 q' p m na tag" "s' = s1"
    using al a1 size p(1) by (auto simp: AllocateTagged_def m [symmetric] na [symmetric] Let_def m)
  have "same_outside (extent (p, m)) h1 h'"
    using b n unfolding same_outside_def res(2) by (auto intro: put_header_outside)
  moreover have "header_at h' tag (q, n) (p, m)"
    using put_header_loads [of q' p m h1 na tag] b p n by (simp add: header_at_def res m)
  moreover have "a dvd q" if k: "k < 64" "a = 2 ^ k" for k
  proof -
    have "detail_NormalizeAlignment a = a" using k by (simp add: detail_NormalizeAlignment_def IsPowerOfTwo_power Let_def)
    then have "a dvd na" using k pow2_dvd [of a 8] IsPowerOfTwo_power [of k] IsPowerOfTwo_power [of 3] by (auto simp: na max_def)
    then show ?thesis using b(3) res(1) dvd_trans by blast
  qed
  ultimately show ?thesis using res b(1) p(1) by (auto simp: aligned_to_def)
qed

lemma AllocateTagged_cases:
  assumes own: "tagged_own own tag h s L" and al: "AllocateTagged tag allocate deallocate n a h s = (q, h', s')" and n: "0 < n"
  shows "region s' = region s \<and> same_outside (region s - covered L) h h' \<and>
    (if q = 0 then tagged_own own tag h' s' L
     else tagged_own own tag h' s' (insert (q, n) L) \<and> extent (q, n) \<inter> covered L = {} \<and> aligned_to a q)"
proof -
  obtain raw where r: "inj_on raw L" "own h s (raw ` L)" "\<And>b. b \<in> L \<Longrightarrow> 0 < snd b \<and> header_at h tag b (raw b)"
    "covered L \<subseteq> covered (raw ` L)"
    using layer_parts [OF own] by metis
  define na where "na = max (detail_NormalizeAlignment a) 8"
  define m where "m = n + 32 + (na - 1)"
  consider "n > 2 ^ 64 - 1 - 32 - (na - 1)" | "\<not> n > 2 ^ 64 - 1 - 32 - (na - 1)" by blast
  then show ?thesis
  proof cases
    case 1
    then have "q = 0" "h' = h" "s' = s" using al by (simp_all add: AllocateTagged_def na_def)
    then show ?thesis using own by simp
  next
    case size: 2
    obtain p h1 s1 where a1: "allocate m na h s = (p, h1, s1)" by (metis prod.exhaust)
    have w: "same_outside (region s - covered (raw ` L)) h h1" by (rule allocate_writes [OF r(2) a1])
    then have keep: "\<And>x. x \<in> covered (raw ` L) \<Longrightarrow> h1 x = h x" by (simp add: same_outside_def)
    have reg: "region s1 = region s" by (rule allocate_region [OF r(2) a1])
    have W1: "same_outside (region s - covered L) h h1" using r(4) by (intro same_outside_mono [OF w]) blast
    show ?thesis
    proof (cases "p = 0")
      case True
      then have q: "q = 0" "h' = h1" "s' = s1" using al a1 size by (simp_all add: AllocateTagged_def m_def na_def Let_def)
      have o1: "own h1 s1 (raw ` L)" using allocate_null [OF r(2)] a1 True by blast
      show ?thesis using q W1 reg layer_keep [OF r(1) o1 r(3) keep] by simp
    next
      case False
      have o1: "own h1 s1 (insert (p, m) (raw ` L))" and e1: "extent (p, m) \<inter> covered (raw ` L) = {}"
        using allocate_block [OF r(2) a1] False by auto
      note b1 = own_blocks [OF o1]
      have pm: "0 < p" "p + m \<le> 2 ^ 64" using b1 separated_bounds [of "insert (p, m) (raw ` L)" p m] by auto
      note res = AllocateTagged_raw [OF al n na_def m_def size a1 pm]
      then have hw: "same_outside (extent (p, m)) h1 h'" and hdr: "header_at h' tag (q, n) (p, m)" by blast+
      have "extent (p, m) \<subseteq> region s - covered L" using b1 reg e1 r(4) by auto
      then have W: "same_outside (region s - covered L) h h'" using same_outside_trans [OF W1] same_outside_mono [OF hw] by blast
      show ?thesis using layer_grow [OF r(1, 3, 4) o1 e1 keep hw hdr n] res W reg by simp
    qed
  qed
qed

lemma layer_deallocate:
  assumes own: "tagged_own own tag h s L" and b: "(p, n) \<in> L" and de: "Tagged1_Deallocate deallocate p n a h s = (h', s')"
  shows "region s' = region s" "tagged_own own tag h' s' (L - {(p, n)})" "same_outside (region s - covered (L - {(p, n)})) h h'"
proof -
  obtain raw where r: "inj_on raw L" "own h s (raw ` L)" "\<And>b. b \<in> L \<Longrightarrow> 0 < snd b \<and> header_at h tag b (raw b)"
    "\<And>b. b \<in> L \<Longrightarrow> extent b \<subseteq> extent (raw b)"
    using layer_parts [OF own] by metis
  obtain q m where q: "raw (p, n) = (q, m)" by (cases "raw (p, n)")
  have hd: "load64 h (p - 32) = q" "load64 h (p - 24) = m" using r(3) [OF b] q by (simp_all add: header_at_def)
  have qm: "(q, m) \<in> raw ` L" using b q by (metis image_eqI)
  have de': "deallocate q m (load64 h (p - 16)) h s = (h', s')" using de hd by (simp add: Tagged1_Deallocate_def)
  show "region s' = region s" by (rule deallocate_region [OF r(2) qm de'])
  have img: "raw ` L - {(q, m)} = raw ` (L - {(p, n)})"
    using inj_on_image_set_diff [OF r(1), of L "{(p, n)}"] b q by simp
  have o: "own h' s' (raw ` (L - {(p, n)}))" using deallocate_block [OF r(2) qm de'] img by simp
  have w: "same_outside (region s - covered (raw ` (L - {(p, n)}))) h h'" using deallocate_writes [OF r(2) qm de'] img by simp
  have inj: "inj_on raw (L - {(p, n)})" using r(1) by (rule inj_on_subset) blast
  show "tagged_own own tag h' s' (L - {(p, n)})"
  proof (rule layer_keep [OF inj o])
    show "0 < snd b \<and> header_at h tag b (raw b)" if "b \<in> L - {(p, n)}" for b using r(3) that by blast
    show "h' x = h x" if "x \<in> covered (raw ` (L - {(p, n)}))" for x using w that by (simp add: same_outside_def)
  qed
  have "covered (L - {(p, n)}) \<subseteq> covered (raw ` (L - {(p, n)}))" using r(4) by (auto simp: covered_def)
  then show "same_outside (region s - covered (L - {(p, n)})) h h'" by (intro same_outside_mono [OF w]) blast
qed

end

sublocale tagged_layer \<subseteq> layer: allocator "tagged_own own tag" "Tagged1_Allocate tag allocate deallocate" "Tagged1_Deallocate deallocate" region
proof
  fix h h' :: heap and s s' :: 's and L n a p
  let ?own = "tagged_own own tag" and ?al = "Tagged1_Allocate tag allocate deallocate"
  show "separated L \<and> covered L \<subseteq> region s \<and> finite L" if "?own h s L" using that by (rule layer_separated)
  show "?own h' s L" if "?own h s L" "\<And>x. x \<in> region s - covered L \<Longrightarrow> h' x = h x" using that by (rule layer_client)
  have al: "region s' = region s \<and> same_outside (region s - covered L) h h' \<and>
    (if p = 0 then ?own h' s' L else ?own h' s' (insert (p, n) L) \<and> extent (p, n) \<inter> covered L = {} \<and> 0 < n \<and> aligned_to a p)"
    if "?own h s L" "?al n a h s = (p, h', s')" for p
  proof (cases "n = 0")
    case True then show ?thesis using that by (simp add: Tagged1_Allocate_def)
  next
    case False
    then show ?thesis using AllocateTagged_cases [OF that(1), of n a p h' s'] that(2) by (simp add: Tagged1_Allocate_def)
  qed
  show "region s' = region s" "same_outside (region s - covered L) h h'" if "?own h s L" "?al n a h s = (p, h', s')" using al [OF that] by simp_all
  show "?own h' s' L" if "?own h s L" "?al n a h s = (0, h', s')" using al [OF that] by simp
  show "?own h' s' (insert (p, n) L) \<and> extent (p, n) \<inter> covered L = {} \<and> 0 < n \<and> aligned_to a p"
    if "?own h s L" "?al n a h s = (p, h', s')" "0 < p" using al [OF that(1, 2)] that(3) by simp
  show "region s' = region s" "?own h' s' (L - {(p, n)})" "same_outside (region s - covered (L - {(p, n)})) h h'"
    if "?own h s L" "(p, n) \<in> L" "Tagged1_Deallocate deallocate p n a h s = (h', s')" using layer_deallocate [OF that] by simp_all
qed

section \<open>The tagged pair\<close>

locale tagged_pair =
  one: tagged_layer own1 allocate1 deallocate1 region1 "1 :: byte" + two: tagged_layer own2 allocate2 deallocate2 region2 "2 :: byte"
  for own1 :: "heap \<Rightarrow> 'p \<Rightarrow> block set \<Rightarrow> bool" and allocate1 deallocate1 region1
    and own2 :: "heap \<Rightarrow> 's \<Rightarrow> block set \<Rightarrow> bool" and allocate2 deallocate2 region2

definition tag_routes :: "heap \<Rightarrow> 'p \<Rightarrow> nat \<Rightarrow> bool" where
  "tag_routes h s p \<longleftrightarrow> h (p - 4) = 1"

sublocale tagged_pair \<subseteq> pair: routed "tagged_own own1 1" "Tagged1_Allocate 1 allocate1 deallocate1" "Tagged1_Deallocate deallocate1" region1
  "tagged_own own2 2" "Tagged1_Allocate 2 allocate2 deallocate2" "Tagged1_Deallocate deallocate2" region2 tag_routes
proof
  show "tag_routes h s p" if "tagged_own own1 1 h s L" "(p, n) \<in> L" for h s L p n
    using that by (force simp: tagged_own_def header_at_def tag_routes_def)
  show "\<not> tag_routes h s p" if "tagged_own own2 2 h t M" "(p, n) \<in> M" for h t M p n s
    using that by (force simp: tagged_own_def header_at_def tag_routes_def)
qed

lemma Tagged_Allocate_eq:
  "Tagged_Allocate allocate1 deallocate1 allocate2 deallocate2 n a h f =
   Fallback_Allocate (Tagged1_Allocate 1 allocate1 deallocate1) (Tagged1_Allocate 2 allocate2 deallocate2) n a h f"
  by (cases "n = 0") (auto simp: Tagged_Allocate_def Fallback_Allocate_def Tagged1_Allocate_def Let_def split: prod.splits)

lemma Tagged_Deallocate_eq:
  assumes "p \<noteq> 0" "load_le 4 h (p - 8) = TAG_MAGIC"
  shows "Tagged_Deallocate deallocate1 deallocate2 p n a h f =
    Fallback_Deallocate (Tagged1_Deallocate deallocate1) (Tagged1_Deallocate deallocate2) tag_routes p n a h f"
  using assms by (simp add: Tagged_Deallocate_def Fallback_Deallocate_def Tagged1_Deallocate_def tag_routes_def)

context tagged_pair
begin

lemma held_magic:
  assumes "both_own (tagged_own own1 1) region1 (tagged_own own2 2) region2 h f L" "(p, n) \<in> L"
  shows "p \<noteq> 0" "load_le 4 h (p - 8) = TAG_MAGIC"
proof -
  obtain L1 L2 where L: "L = L1 \<union> L2" "tagged_own own1 1 h (m_primary f) L1" "tagged_own own2 2 h (m_secondary f) L2"
    using assms(1) unfolding both_own_def by blast
  obtain tag raw where h: "header_at h tag (p, n) raw"
    using L assms(2) unfolding tagged_own_def by blast
  then show "p \<noteq> 0" "load_le 4 h (p - 8) = TAG_MAGIC" by (auto simp: header_at_def)
qed

end

sublocale tagged_pair \<subseteq> tagged: allocator "both_own (tagged_own own1 1) region1 (tagged_own own2 2) region2"
  "Tagged_Allocate allocate1 deallocate1 allocate2 deallocate2" "Tagged_Deallocate deallocate1 deallocate2" "both_region region1 region2"
proof
  fix h h' :: heap and f f' :: "('p, 's) Fallback" and L n a p
  let ?own = "both_own (tagged_own own1 1) region1 (tagged_own own2 2) region2"
    and ?al = "Tagged_Allocate allocate1 deallocate1 allocate2 deallocate2" and ?de = "Tagged_Deallocate deallocate1 deallocate2"
    and ?region = "both_region region1 region2"
  show "separated L \<and> covered L \<subseteq> ?region f \<and> finite L" if "?own h f L" using that by (rule pair.both.own_blocks)
  show "?own h' f L" if "?own h f L" "\<And>x. x \<in> ?region f - covered L \<Longrightarrow> h' x = h x" using that by (rule pair.both.own_client)
  show "?region f' = ?region f" if "?own h f L" "?al n a h f = (p, h', f')" using pair.both.allocate_region [OF that(1)] that(2) by (simp add: Tagged_Allocate_eq)
  show "?own h' f' L" if "?own h f L" "?al n a h f = (0, h', f')" using pair.both.allocate_null [OF that(1)] that(2) by (simp add: Tagged_Allocate_eq)
  show "?own h' f' (insert (p, n) L) \<and> extent (p, n) \<inter> covered L = {} \<and> 0 < n \<and> aligned_to a p" if "?own h f L" "?al n a h f = (p, h', f')" "0 < p"
    using pair.both.allocate_block [OF that(1) _ that(3)] that(2) by (simp add: Tagged_Allocate_eq)
  show "same_outside (?region f - covered L) h h'" if "?own h f L" "?al n a h f = (p, h', f')"
    using pair.both.allocate_writes [OF that(1)] that(2) by (simp add: Tagged_Allocate_eq)
  have de: "Fallback_Deallocate (Tagged1_Deallocate deallocate1) (Tagged1_Deallocate deallocate2) tag_routes p n a h f = (h', f')"
    if "?own h f L" "(p, n) \<in> L" "?de p n a h f = (h', f')" using that(3) Tagged_Deallocate_eq [OF held_magic [OF that(1, 2)], of deallocate1 deallocate2 n a f] by simp
  show "?region f' = ?region f" "?own h' f' (L - {(p, n)})" "same_outside (?region f - covered (L - {(p, n)})) h h'"
    if "?own h f L" "(p, n) \<in> L" "?de p n a h f = (h', f')"
    using pair.both.deallocate_region [OF that(1, 2) de [OF that]] pair.both.deallocate_block [OF that(1, 2) de [OF that]]
      pair.both.deallocate_writes [OF that(1, 2) de [OF that]] .
qed

section \<open>A pool and a linear allocator behind headers\<close>

interpretation tagged_pool: tagged_pair "fb_own c" "FixedBlock_Allocate c" "FixedBlock_Deallocate c" "fb_region c"
  lin_own Linear_Allocate Linear_Deallocate lin_region for c ..

end
