(* ===== verification/Memory_Tracking.thy ===== *)
theory Memory_Tracking
  imports Memory_Tagged
begin

text \<open>
  \<open>TrackingAllocator\<close> of \<^verbatim>\<open>src/include/NGIN/Memory/TrackingAllocator.hpp\<close> with the counters of \<open>AllocationStats\<close>: it keeps the contract of
  its inner allocator and the counters agree with what clients hold (locale \<open>tracking_layer\<close>). It is interpreted over the tagged pair of a pool of fixed blocks and a
  linear allocator.
\<close>

section \<open>TrackingAllocator\<close>

record AllocationStats =
  currentBytes :: u64
  peakBytes :: u64
  totalBytes :: u64
  currentCount :: u64
  totalCount :: u64

record 's Tracking =
  m_inner :: 's
  m_stats :: AllocationStats

definition Tracking_Allocate :: "'s alloc_op \<Rightarrow> 's Tracking alloc_op" where
  "Tracking_Allocate allocate n a h t =
     (case allocate n a h (m_inner t) of (p, h, s) \<Rightarrow>
        let t = t\<lparr>m_inner := s\<rparr>; st = m_stats t
        in if p \<noteq> 0
           then let st = st\<lparr>currentBytes := currentBytes st + word_of_nat n, totalBytes := totalBytes st + word_of_nat n,
                           currentCount := currentCount st + 1, totalCount := totalCount st + 1\<rparr>;
                    st = (if currentBytes st > peakBytes st then st\<lparr>peakBytes := currentBytes st\<rparr> else st)
                in (p, h, t\<lparr>m_stats := st\<rparr>)
           else (p, h, t))"

definition Tracking_Deallocate :: "'s dealloc_op \<Rightarrow> 's Tracking dealloc_op" where
  "Tracking_Deallocate deallocate p n a h t =
     (let st = m_stats t;
          st = (if p \<noteq> 0
                then let st = (if currentBytes st \<ge> word_of_nat n then st\<lparr>currentBytes := currentBytes st - word_of_nat n\<rparr> else st\<lparr>currentBytes := 0\<rparr>)
                     in if currentCount st > 0 then st\<lparr>currentCount := currentCount st - 1\<rparr> else st
                else st)
      in case deallocate p n a h (m_inner t) of (h, s) \<Rightarrow> (h, t\<lparr>m_stats := st, m_inner := s\<rparr>))"

section \<open>Counting\<close>

definition tracking_own :: "(heap \<Rightarrow> 's \<Rightarrow> block set \<Rightarrow> bool) \<Rightarrow> heap \<Rightarrow> 's Tracking \<Rightarrow> block set \<Rightarrow> bool" where
  "tracking_own own h t L \<longleftrightarrow> own h (m_inner t) L \<and> unat (currentBytes (m_stats t)) = sum snd L \<and> unat (currentCount (m_stats t)) = card L \<and>
     currentBytes (m_stats t) \<le> peakBytes (m_stats t)"

definition tracking_region :: "('s \<Rightarrow> nat set) \<Rightarrow> 's Tracking \<Rightarrow> nat set" where
  "tracking_region region t = region (m_inner t)"

lemma unat_add_nat: "unat w + n < 2 ^ 64 \<Longrightarrow> unat ((w :: u64) + word_of_nat n) = unat w + n"
  by (simp add: unat_word_ariths unat_of_nat)

lemma unat_sub_nat: "n \<le> unat (w :: u64) \<Longrightarrow> word_of_nat n \<le> w \<and> unat (w - word_of_nat n) = unat w - n"
proof -
  assume n: "n \<le> unat w"
  have "n < 2 ^ 64" using n unsigned_less [of w, where 'a = nat] by simp
  then have u: "unat (word_of_nat n :: u64) = n" by (rule unat_small)
  then have "word_of_nat n \<le> w" using n by (simp add: word_le_nat_alt)
  then show ?thesis using u by (simp add: unat_sub)
qed

lemma separated_card: "finite L \<Longrightarrow> separated L \<Longrightarrow> card L \<le> sum snd L"
proof -
  assume "finite L" "separated L"
  then have "(\<Sum>b\<in>L. 1) \<le> sum snd L" by (intro sum_mono) (auto simp: separated_def)
  then show ?thesis by simp
qed

locale tracking_layer = allocator own allocate deallocate region
  for own :: "heap \<Rightarrow> 's \<Rightarrow> block set \<Rightarrow> bool" and allocate deallocate region
begin

lemma tracking_allocate:
  assumes own: "tracking_own own h t L" and al: "Tracking_Allocate allocate n a h t = (p, h', t')"
  shows "region (m_inner t') = region (m_inner t) \<and> same_outside (region (m_inner t) - covered L) h h' \<and>
    (if p = 0 then tracking_own own h' t' L
     else tracking_own own h' t' (insert (p, n) L) \<and> extent (p, n) \<inter> covered L = {} \<and> 0 < n \<and> aligned_to a p)"
proof -
  have o: "own h (m_inner t) L" using own by (simp add: tracking_own_def)
  obtain p1 h1 s1 where a1: "allocate n a h (m_inner t) = (p1, h1, s1)" by (metis prod.exhaust)
  have p: "p = p1" "h' = h1" "m_inner t' = s1" using al a1 by (auto simp: Tracking_Allocate_def Let_def split: if_splits)
  have w: "same_outside (region (m_inner t) - covered L) h h'" "region (m_inner t') = region (m_inner t)"
    using allocate_writes [OF o a1] allocate_region [OF o a1] p by simp_all
  show ?thesis
  proof (cases "p = 0")
    case True
    then have "own h' (m_inner t') L" using allocate_null [OF o] a1 p by blast
    moreover have "t' = t\<lparr>m_inner := s1\<rparr>" using al a1 p True by (simp add: Tracking_Allocate_def Let_def)
    ultimately show ?thesis using True w own by (simp add: tracking_own_def)
  next
    case False
    have b: "own h' (m_inner t') (insert (p, n) L)" "extent (p, n) \<inter> covered L = {}" "0 < n" "aligned_to a p"
      using allocate_block [OF o a1] False p by auto
    note c = own_blocks [OF b(1)]
    have new: "(p, n) \<notin> L" by (rule apart_new [OF b(2, 3)])
    have fin: "finite L" using c by simp
    have s: "sum snd (insert (p, n) L) = sum snd L + n" "card (insert (p, n) L) = card L + 1" using new fin by simp_all
    have lt: "sum snd L + n < 2 ^ 64" "card L + 1 < 2 ^ 64"
      using separated_sizes [of "insert (p, n) L"] separated_card [of "insert (p, n) L"] c s by linarith+
    have u: "unat (currentBytes (m_stats t)) = sum snd L" "unat (currentCount (m_stats t)) = card L" using own by (simp_all add: tracking_own_def)
    have t': "t' = snd (snd (Tracking_Allocate allocate n a h t))" using al by simp
    have st: "currentBytes (m_stats t') = currentBytes (m_stats t) + word_of_nat n" "currentCount (m_stats t') = currentCount (m_stats t) + 1"
      "currentBytes (m_stats t') \<le> peakBytes (m_stats t')"
      using False p(1) a1 unfolding t' by (simp_all add: Tracking_Allocate_def Let_def linorder_not_less)
    have "unat (currentBytes (m_stats t')) = sum snd L + n" using unat_add_nat [of "currentBytes (m_stats t)" n] u lt(1) st(1) by simp
    moreover have "unat (currentCount (m_stats t')) = card L + 1" using unat_add_nat [of "currentCount (m_stats t)" 1] u lt(2) st(2) by simp
    ultimately have "tracking_own own h' t' (insert (p, n) L)" using b(1) s st(3) unfolding tracking_own_def by simp
    then show ?thesis using False w b by simp
  qed
qed

lemma tracking_deallocate:
  assumes own: "tracking_own own h t L" and pn: "(p, n) \<in> L" and de: "Tracking_Deallocate deallocate p n a h t = (h', t')"
  shows "region (m_inner t') = region (m_inner t)" "tracking_own own h' t' (L - {(p, n)})"
    "same_outside (region (m_inner t) - covered (L - {(p, n)})) h h'"
proof -
  have o: "own h (m_inner t) L" using own by (simp add: tracking_own_def)
  note c = own_blocks [OF o]
  obtain h1 s1 where d1: "deallocate p n a h (m_inner t) = (h1, s1)" by fastforce
  have p: "h' = h1" "m_inner t' = s1" using de d1 by (auto simp: Tracking_Deallocate_def Let_def)
  show "region (m_inner t') = region (m_inner t)" "same_outside (region (m_inner t) - covered (L - {(p, n)})) h h'"
    using deallocate_region [OF o pn d1] deallocate_writes [OF o pn d1] p by simp_all
  have p0: "p \<noteq> 0" using c separated_bounds pn by blast
  have s: "sum snd L = sum snd (L - {(p, n)}) + n" "card L = card (L - {(p, n)}) + 1"
    using c pn sum.remove [of L "(p, n)" snd] card.remove [of L "(p, n)"] by simp_all
  have u: "unat (currentBytes (m_stats t)) = sum snd L" "unat (currentCount (m_stats t)) = card L" "currentBytes (m_stats t) \<le> peakBytes (m_stats t)"
    using own by (simp_all add: tracking_own_def)
  have n: "word_of_nat n \<le> currentBytes (m_stats t)" "unat (currentBytes (m_stats t) - word_of_nat n) = sum snd (L - {(p, n)})"
    using unat_sub_nat [of n "currentBytes (m_stats t)"] u(1) s(1) by simp_all
  have k: "0 < currentCount (m_stats t)" "unat (currentCount (m_stats t) - 1) = card (L - {(p, n)})"
    using unat_sub_nat [of 1 "currentCount (m_stats t)"] u(2) s(2) by (auto simp: word_less_nat_alt)
  have st: "m_stats t' = (m_stats t)\<lparr>currentBytes := currentBytes (m_stats t) - word_of_nat n, currentCount := currentCount (m_stats t) - 1\<rparr>"
    using de d1 p0 n(1) k(1) by (auto simp: Tracking_Deallocate_def Let_def)
  have "currentBytes (m_stats t) - word_of_nat n \<le> currentBytes (m_stats t)"
    using n(2) u(1) s(1) by (simp add: word_le_nat_alt)
  then have "currentBytes (m_stats t') \<le> peakBytes (m_stats t')" using u(3) st by (simp add: order_trans [OF _ u(3)])
  moreover have "own h' (m_inner t') (L - {(p, n)})" using deallocate_block [OF o pn d1] p by simp
  ultimately show "tracking_own own h' t' (L - {(p, n)})" using st n(2) k(2) by (simp add: tracking_own_def)
qed

end

sublocale tracking_layer \<subseteq> tracked: allocator "tracking_own own" "Tracking_Allocate allocate" "Tracking_Deallocate deallocate" "tracking_region region"
proof
  fix h h' :: heap and t t' :: "'s Tracking" and L n a p
  let ?own = "tracking_own own" and ?al = "Tracking_Allocate allocate" and ?de = "Tracking_Deallocate deallocate" and ?region = "tracking_region region"
  show "separated L \<and> covered L \<subseteq> ?region t \<and> finite L" if "?own h t L" using that own_blocks by (auto simp: tracking_own_def tracking_region_def)
  show "?own h' t L" if "?own h t L" "\<And>x. x \<in> ?region t - covered L \<Longrightarrow> h' x = h x"
    using that own_client [of h "m_inner t" L h'] by (auto simp: tracking_own_def tracking_region_def)
  show "?region t' = ?region t" "same_outside (?region t - covered L) h h'" if "?own h t L" "?al n a h t = (p, h', t')"
    using tracking_allocate [OF that] by (simp_all add: tracking_region_def)
  show "?own h' t' L" if "?own h t L" "?al n a h t = (0, h', t')" using tracking_allocate [OF that] by simp
  show "?own h' t' (insert (p, n) L) \<and> extent (p, n) \<inter> covered L = {} \<and> 0 < n \<and> aligned_to a p" if "?own h t L" "?al n a h t = (p, h', t')" "0 < p"
    using tracking_allocate [OF that(1, 2)] that(3) by simp
  show "?region t' = ?region t" "?own h' t' (L - {(p, n)})" "same_outside (?region t - covered (L - {(p, n)})) h h'"
    if "?own h t L" "(p, n) \<in> L" "?de p n a h t = (h', t')" using tracking_deallocate [OF that] by (simp_all add: tracking_region_def)
qed
interpretation tracked_pool: tracking_layer "both_own (tagged_own (fb_own c) 1) (fb_region c) (tagged_own lin_own 2) lin_region"
  "Tagged_Allocate (FixedBlock_Allocate c) (FixedBlock_Deallocate c) Linear_Allocate Linear_Deallocate"
  "Tagged_Deallocate (FixedBlock_Deallocate c) Linear_Deallocate" "both_region (fb_region c) lin_region" for c ..

section \<open>Properties\<close>

definition stats_zero :: AllocationStats where
  "stats_zero = \<lparr>currentBytes = 0, peakBytes = 0, totalBytes = 0, currentCount = 0, totalCount = 0\<rparr>"

lemma tagged_own_empty: "own h s {} \<Longrightarrow> tagged_own own tag h s {}"
  by (simp add: tagged_own_def)

text \<open>
  C37: \<open>TrackingAllocator\<close> over \<open>TaggedFallbackAllocator\<close> of a pool of fixed blocks and a linear allocator on separate slabs. The client may allocate,
  release what it holds and write into its blocks in any order: its blocks stay apart and keep their content, which the header of each block,
  the free list of the pool and the counters share the memory with; \<open>currentBytes\<close> is the sum of the sizes of the held blocks, \<open>currentCount\<close> their
  number, \<open>peakBytes\<close> at least \<open>currentBytes\<close>; and a block that a request gives is apart from all held ones and aligned as asked.
\<close>

theorem TrackedFallback_safe:
  assumes "fb_own c h s {}" "lin_own h t {}" "fb_region c s \<inter> lin_region t = {}"
    and run: "(client_does
        (Tracking_Allocate (Tagged_Allocate (FixedBlock_Allocate c) (FixedBlock_Deallocate c) Linear_Allocate Linear_Deallocate))
        (Tracking_Deallocate (Tagged_Deallocate (FixedBlock_Deallocate c) Linear_Deallocate)))\<^sup>*\<^sup>*
      \<lparr>mem = h, alloc = \<lparr>m_inner = \<lparr>m_primary = s, m_secondary = t\<rparr>, m_stats = stats_zero\<rparr>, held = {}, expect = (\<lambda>_. None)\<rparr> d"
    and req: "Tracking_Allocate (Tagged_Allocate (FixedBlock_Allocate c) (FixedBlock_Deallocate c) Linear_Allocate Linear_Deallocate)
      n a (mem d) (alloc d) = (p, h', f)"
  shows "separated (held d) \<and> (\<forall>x b. expect d x = Some b \<longrightarrow> mem d x = b) \<and>
    unat (currentBytes (m_stats (alloc d))) = sum snd (held d) \<and> unat (currentCount (m_stats (alloc d))) = card (held d) \<and>
    currentBytes (m_stats (alloc d)) \<le> peakBytes (m_stats (alloc d)) \<and>
    (p \<noteq> 0 \<longrightarrow> extent (p, n) \<inter> covered (held d) = {} \<and> aligned_to a p)"
proof -
  let ?start = "\<lparr>m_inner = \<lparr>m_primary = s, m_secondary = t\<rparr>, m_stats = stats_zero\<rparr>"
  have "tracking_own (both_own (tagged_own (fb_own c) 1) (fb_region c) (tagged_own lin_own 2) lin_region) h ?start {}"
    using assms(1-3) by (simp add: tracking_own_def both_own_def stats_zero_def tagged_own_empty)
  then have safe: "separated (held d)" "\<forall>x b. expect d x = Some b \<longrightarrow> mem d x = b"
    "tracking_own (both_own (tagged_own (fb_own c) 1) (fb_region c) (tagged_own lin_own 2) lin_region) (mem d) (alloc d) (held d)"
    using tracked_pool.tracked.client_safe [OF run] by simp_all
  have "p \<noteq> 0 \<longrightarrow> extent (p, n) \<inter> covered (held d) = {} \<and> aligned_to a p"
    using tracked_pool.tracked.allocate_block [OF safe(3) req] by blast
  with safe show ?thesis by (simp add: tracking_own_def)
qed

definition far_upstream :: "unit alloc_op" where
  "far_upstream n a h u = (8192, h, u)"

definition sample_tracking :: "(unit FixedBlock, unit LinearAllocator) Fallback Tracking" where
  "sample_tracking = \<lparr>m_inner = \<lparr>m_primary = snd sample_pool, m_secondary = snd (LinearAllocator_make far_upstream 256 64 (fst sample_pool) ())\<rparr>,
     m_stats = stats_zero\<rparr>"

lemma sample_linear_far: "lin_own (fst sample_pool) (m_secondary (m_inner sample_tracking)) {}"
  using lin_make_own [of far_upstream 256 64 "fst sample_pool" "()" 8192 "fst sample_pool" "()"]
  by (simp add: far_upstream_def sample_tracking_def LinearAllocator_make_def)

lemma sample_apart: "fb_region sample_class (m_primary (m_inner sample_tracking)) \<inter> lin_region (m_secondary (m_inner sample_tracking)) = {}"
proof -
  have "m_base (snd sample_pool) = 4096"
    by (simp add: sample_pool_def FixedBlock_make_def sample_upstream_def ResetFreeList_def split: prod.split)
  then have "fb_region sample_class (snd sample_pool) = {4096..<4160}"
    by (simp add: fb_region_def slab_def sample_class_sizes(1)) (simp add: sample_class_def)
  then show ?thesis by (auto simp: sample_tracking_def lin_region_def LinearAllocator_make_def far_upstream_def)
qed

abbreviation "sample_request \<equiv>
  Tracking_Allocate (Tagged_Allocate (FixedBlock_Allocate sample_class) (FixedBlock_Deallocate sample_class) Linear_Allocate Linear_Deallocate) 8 8"

lemma sample_request_address: "fst (sample_request (fst sample_pool) sample_tracking) = 8224"
proof -
  have n: "detail_NormalizeAlignment 8 = 8" "NormalizeAlignment 8 = 16"
    using IsPowerOfTwo_power [of 3] by (simp_all add: detail_NormalizeAlignment_def NormalizeAlignment_def)
  have pool: "FixedBlock_Allocate sample_class 47 8 h s = (0, h, s)" for h and s :: "unit FixedBlock"
    by (simp add: fb_allocate_cases fb_fits_def sample_class_def)
  have lin: "Linear_Allocate 47 8 h (m_secondary (m_inner sample_tracking)) =
      (8192, h, (m_secondary (m_inner sample_tracking))\<lparr>m_currentPointer := 8239\<rparr>)" for h
    by (simp add: Linear_Allocate_def sample_tracking_def LinearAllocator_make_def far_upstream_def std_align_def Used_def n Let_def)
  show ?thesis by (simp add: Tracking_Allocate_def Tagged_Allocate_def AllocateTagged_def n pool lin std_align_def Let_def)
qed

theorem TrackedFallback_safe_witness:
  "unat (currentBytes (m_stats (snd (snd (sample_request (fst sample_pool) sample_tracking))))) = 8"
proof -
  obtain h1 f1 where r1: "sample_request (fst sample_pool) sample_tracking = (8224, h1, f1)"
    using sample_request_address by (metis prod.collapse)
  obtain p2 h2 f2 where r2: "sample_request h1 f1 = (p2, h2, f2)" by (metis prod.exhaust)
  define d0 :: "(unit FixedBlock, unit LinearAllocator) Fallback Tracking client_state"
    where "d0 = \<lparr>mem = fst sample_pool, alloc = sample_tracking, held = {}, expect = (\<lambda>_. None)\<rparr>"
  let ?d1 = "d0\<lparr>mem := h1, alloc := f1, held := insert (8224, 8) (held d0), expect := (\<lambda>x. if x \<in> extent (8224, 8) then None else expect d0 x)\<rparr>"
  let ?de = "Tracking_Deallocate (Tagged_Deallocate (FixedBlock_Deallocate sample_class) Linear_Deallocate)"
  have "client_does (Tracking_Allocate (Tagged_Allocate (FixedBlock_Allocate sample_class) (FixedBlock_Deallocate sample_class)
      Linear_Allocate Linear_Deallocate)) ?de d0 ?d1"
    using r1 by (intro client_alloc) (simp_all add: d0_def)
  then have run: "(client_does (Tracking_Allocate (Tagged_Allocate (FixedBlock_Allocate sample_class) (FixedBlock_Deallocate sample_class)
      Linear_Allocate Linear_Deallocate)) ?de)\<^sup>*\<^sup>*
      \<lparr>mem = fst sample_pool, alloc = \<lparr>m_inner = \<lparr>m_primary = m_primary (m_inner sample_tracking), m_secondary = m_secondary (m_inner sample_tracking)\<rparr>,
         m_stats = stats_zero\<rparr>, held = {}, expect = (\<lambda>_. None)\<rparr> ?d1"
    by (simp add: d0_def sample_tracking_def)
  have own: "fb_own sample_class (fst sample_pool) (m_primary (m_inner sample_tracking)) {}" using sample_pool_own by (simp add: sample_tracking_def)
  have r2': "sample_request (mem ?d1) (alloc ?d1) = (p2, h2, f2)" using r2 by simp
  have "unat (currentBytes (m_stats (alloc ?d1))) = sum snd (held ?d1)"
    using TrackedFallback_safe [OF own sample_linear_far sample_apart run r2'] by blast
  then show ?thesis using r1 by (simp add: d0_def)
qed

end
