(* ===== verification/SIMD_Scan.thy ===== *)
theory SIMD_Scan
  imports NGIN_Prelude
begin

text \<open>
  Byte scans of \<^verbatim>\<open>src/include/NGIN/SIMD/Scan.hpp\<close>. Short inputs are searched byte by byte, longer ones in chunks of as many bytes as the backend has
  lanes: the comparisons of a chunk give a mask, which is packed into the bits of a word, whose lowest set bit is the position. Every backend finds
  the first match.
\<close>

section \<open>Definitions\<close>

datatype Backend = Scalar | SSE2 | AVX2 | Neon

definition native_lanes :: "Backend \<Rightarrow> nat" where
  "native_lanes backend = (case backend of Scalar \<Rightarrow> 1 | SSE2 \<Rightarrow> 16 | AVX2 \<Rightarrow> 32 | Neon \<Rightarrow> 16)"

definition MaskToBits :: "bool list \<Rightarrow> u64" where
  "MaskToBits lanes = foldl (\<lambda>bits lane. if lanes ! lane then bits OR push_bit lane 1 else bits) 0 [0..<length lanes]"

text \<open>\<open>std::countr_zero\<close>.\<close>

definition countr_zero :: "u64 \<Rightarrow> nat" where
  "countr_zero bits = length (takeWhile (\<lambda>i. \<not> bit bits i) [0..<64])"

text \<open>The loops: byte by byte from an index, and chunk by chunk with the comparison of a whole chunk.\<close>

function scan_bytes :: "('a \<Rightarrow> bool) \<Rightarrow> 'a list \<Rightarrow> nat \<Rightarrow> nat" where
  "scan_bytes hit data index =
     (if index < length data then if hit (data ! index) then index else scan_bytes hit data (index + 1)
      else length data)"
  by pat_completeness auto
termination
  by (relation "measure (\<lambda>(hit, data, index). length data - index)") auto

declare scan_bytes.simps [simp del]

function scan_chunks :: "Backend \<Rightarrow> ('a list \<Rightarrow> bool list) \<Rightarrow> ('a \<Rightarrow> bool) \<Rightarrow> 'a list \<Rightarrow> nat \<Rightarrow> nat" where
  "scan_chunks backend compare hit data index =
     (if index + native_lanes backend \<le> length data
      then let bits = MaskToBits (compare (take (native_lanes backend) (drop index data)))
           in if bits \<noteq> 0 then index + countr_zero bits
              else scan_chunks backend compare hit data (index + native_lanes backend)
      else scan_bytes hit data index)"
  by pat_completeness auto
termination
proof (relation "measure (\<lambda>(backend, compare, hit, data, index). length data + 1 - index)")
  fix backend :: Backend and compare :: "'a list \<Rightarrow> bool list" and hit :: "'a \<Rightarrow> bool" and data :: "'a list" and index
  assume "index + native_lanes backend \<le> length data"
  moreover have "0 < native_lanes backend" by (cases backend) (simp_all add: native_lanes_def)
  ultimately show "((backend, compare, hit, data, index + native_lanes backend), backend, compare, hit, data, index)
      \<in> measure (\<lambda>(backend, compare, hit, data, index). length data + 1 - index)" by simp
qed simp

declare scan_chunks.simps [simp del]

definition kSimdScanMinBytes :: nat where
  "kSimdScanMinBytes = 128"

definition lanes_equal :: "'a list \<Rightarrow> 'a \<Rightarrow> bool list" where
  "lanes_equal chunk v = map (\<lambda>x. x = v) chunk"

definition lanes_or :: "bool list \<Rightarrow> bool list \<Rightarrow> bool list" where
  "lanes_or = map2 (\<or>)"

definition FindEqByte :: "Backend \<Rightarrow> 'a list \<Rightarrow> 'a \<Rightarrow> nat" where
  "FindEqByte backend data v =
     (if data = [] then length data
      else if length data < kSimdScanMinBytes then scan_bytes (\<lambda>x. x = v) data 0
      else scan_chunks backend (\<lambda>chunk. lanes_equal chunk v) (\<lambda>x. x = v) data 0)"

definition FindAnyByte2 :: "Backend \<Rightarrow> 'a list \<Rightarrow> 'a \<Rightarrow> 'a \<Rightarrow> nat" where
  "FindAnyByte2 backend data a b =
     (if data = [] then length data
      else if length data < kSimdScanMinBytes then scan_bytes (\<lambda>x. x = a \<or> x = b) data 0
      else scan_chunks backend (\<lambda>chunk. lanes_or (lanes_equal chunk a) (lanes_equal chunk b)) (\<lambda>x. x = a \<or> x = b) data 0)"

definition FindAnyByte3 :: "Backend \<Rightarrow> 'a list \<Rightarrow> 'a \<Rightarrow> 'a \<Rightarrow> 'a \<Rightarrow> nat" where
  "FindAnyByte3 backend data a b c =
     (if data = [] then length data
      else if length data < kSimdScanMinBytes then scan_bytes (\<lambda>x. x = a \<or> x = b \<or> x = c) data 0
      else scan_chunks backend (\<lambda>chunk. lanes_or (lanes_or (lanes_equal chunk a) (lanes_equal chunk b)) (lanes_equal chunk c))
             (\<lambda>x. x = a \<or> x = b \<or> x = c) data 0)"

definition FindAnyByte4 :: "Backend \<Rightarrow> 'a list \<Rightarrow> 'a \<Rightarrow> 'a \<Rightarrow> 'a \<Rightarrow> 'a \<Rightarrow> nat" where
  "FindAnyByte4 backend data a b c d =
     (if data = [] then length data
      else if length data < kSimdScanMinBytes then scan_bytes (\<lambda>x. x = a \<or> x = b \<or> x = c \<or> x = d) data 0
      else scan_chunks backend
             (\<lambda>chunk. lanes_or (lanes_or (lanes_or (lanes_equal chunk a) (lanes_equal chunk b)) (lanes_equal chunk c)) (lanes_equal chunk d))
             (\<lambda>x. x = a \<or> x = b \<or> x = c \<or> x = d) data 0)"

section \<open>First matches\<close>

text \<open>The index of the first element with a property, or the length.\<close>

abbreviation first_index :: "('a \<Rightarrow> bool) \<Rightarrow> 'a list \<Rightarrow> nat" where
  "first_index hit data \<equiv> length (takeWhile (\<lambda>x. \<not> hit x) data)"

lemma first_indexI:
  assumes "k < length data" "hit (data ! k)" "\<And>i. i < k \<Longrightarrow> \<not> hit (data ! i)"
  shows "first_index hit data = k"
proof -
  have "takeWhile (\<lambda>x. \<not> hit x) data = take k data"
    using assms by (intro takeWhile_eq_take_P_nth) auto
  then show ?thesis using assms(1) by simp
qed

lemma first_index_all: "(\<And>i. i < length data \<Longrightarrow> \<not> hit (data ! i)) \<Longrightarrow> first_index hit data = length data"
  by (metis in_set_conv_nth takeWhile_eq_all_conv)

lemma scan_bytes_first:
  "(\<And>i. i < index \<Longrightarrow> i < length data \<Longrightarrow> \<not> hit (data ! i)) \<Longrightarrow> scan_bytes hit data index = first_index hit data"
proof (induction hit data index rule: scan_bytes.induct)
  case (1 hit data index)
  show ?case
  proof (cases "index < length data")
    case True
    show ?thesis
    proof (cases "hit (data ! index)")
      case hit: True
      then show ?thesis using True 1(2) first_indexI [of index data hit] by (simp add: scan_bytes.simps [of hit data index])
    next
      case False
      have "scan_bytes hit data (index + 1) = first_index hit data"
        by (rule 1(1) [OF True False]) (use 1(2) False less_Suc_eq in auto)
      then show ?thesis using True False by (simp add: scan_bytes.simps [of hit data index])
    qed
  next
    case False
    then show ?thesis using 1(2) first_index_all [of data hit] by (simp add: scan_bytes.simps [of hit data index])
  qed
qed

lemma bit_MaskToBits: "length lanes \<le> 64 \<Longrightarrow> bit (MaskToBits lanes) i \<longleftrightarrow> i < length lanes \<and> lanes ! i"
proof -
  assume len: "length lanes \<le> 64"
  have "bit (foldl (\<lambda>bits lane. if lanes ! lane then bits OR push_bit lane 1 else bits) (0 :: u64) [0..<n]) i \<longleftrightarrow> i < n \<and> lanes ! i"
    if "n \<le> length lanes" for n
    using that
  proof (induction n)
    case 0 then show ?case by simp
  next
    case (Suc n)
    then have "n < 64" using len by simp
    with Suc show ?case by (auto simp: bit_or_iff bit_push_bit_iff bit_1_iff bit_exp_iff less_Suc_eq)
  qed
  from this [of "length lanes"] show ?thesis by (simp add: MaskToBits_def)
qed

lemma MaskToBits_zero:
  assumes "length lanes \<le> 64"
  shows "MaskToBits lanes = 0 \<longleftrightarrow> (\<forall>i<length lanes. \<not> lanes ! i)"
proof
  assume "MaskToBits lanes = 0"
  then show "\<forall>i<length lanes. \<not> lanes ! i" using bit_MaskToBits [OF assms] by (metis bit_0_eq bot_apply bot_bool_def)
next
  assume "\<forall>i<length lanes. \<not> lanes ! i"
  then show "MaskToBits lanes = 0" by (intro bit_eqI) (simp add: bit_MaskToBits [OF assms])
qed

lemma countr_zero_mask:
  assumes "length lanes \<le> 64" "MaskToBits lanes \<noteq> 0"
  shows "countr_zero (MaskToBits lanes) < length lanes" "lanes ! countr_zero (MaskToBits lanes)"
    "i < countr_zero (MaskToBits lanes) \<Longrightarrow> \<not> lanes ! i"
proof -
  let ?w = "MaskToBits lanes"
  have "\<exists>k. k < length lanes \<and> lanes ! k" using assms(2) MaskToBits_zero [OF assms(1)] by blast
  then obtain k where k: "k < length lanes" "lanes ! k" and least: "\<And>i. i < k \<Longrightarrow> \<not> (i < length lanes \<and> lanes ! i)"
    using exists_least_iff [of "\<lambda>k. k < length lanes \<and> lanes ! k"] by blast
  have none: "\<And>i. i < k \<Longrightarrow> \<not> lanes ! i" using k(1) least by auto
  have "first_index (\<lambda>i. bit ?w i) [0..<64] = k"
    by (rule first_indexI) (use k none assms(1) in \<open>simp_all add: bit_MaskToBits\<close>)
  then have "countr_zero ?w = k" by (simp add: countr_zero_def)
  with k none show "countr_zero ?w < length lanes" "lanes ! countr_zero ?w" "i < countr_zero ?w \<Longrightarrow> \<not> lanes ! i" by simp_all
qed

lemma native_lanes_bounds: "0 < native_lanes backend" "native_lanes backend \<le> 64"
  by (cases backend; simp add: native_lanes_def)+

lemma scan_chunks_first:
  assumes "\<And>chunk. compare chunk = map hit chunk"
  shows "(\<And>i. i < index \<Longrightarrow> i < length data \<Longrightarrow> \<not> hit (data ! i)) \<Longrightarrow> scan_chunks backend compare hit data index = first_index hit data"
  using assms
proof (induction backend compare hit data index rule: scan_chunks.induct)
  case (1 backend compare hit data index)
  let ?n = "native_lanes backend"
  let ?chunk = "take ?n (drop index data)"
  let ?bits = "MaskToBits (compare ?chunk)"
  have step: "scan_chunks backend compare hit data index =
      (if index + ?n \<le> length data
       then if ?bits \<noteq> 0 then index + countr_zero ?bits else scan_chunks backend compare hit data (index + ?n)
       else scan_bytes hit data index)"
    by (simp add: scan_chunks.simps [of backend compare hit data index] Let_def)
  show ?case
  proof (cases "index + ?n \<le> length data")
    case False
    then show ?thesis using step scan_bytes_first [of index data hit] 1(2) by simp
  next
    case True
    then have len: "length (compare ?chunk) = ?n" and nth: "\<And>i. i < ?n \<Longrightarrow> compare ?chunk ! i = hit (data ! (index + i))"
      by (simp_all add: 1(3))
    have le: "length (compare ?chunk) \<le> 64" using len native_lanes_bounds(2) by simp
    show ?thesis
    proof (cases "?bits = 0")
      case zero: True
      then have no: "\<not> hit (data ! (index + i))" if "i < ?n" for i using MaskToBits_zero [OF le] len nth that by auto
      have "scan_chunks backend compare hit data (index + ?n) = first_index hit data"
      proof (rule 1(1) [OF True refl _ _ 1(3)])
        show "\<not> ?bits \<noteq> 0" using zero by simp
        show "\<not> hit (data ! i)" if "i < index + ?n" "i < length data" for i
          using that no [of "i - index"] 1(2) [of i] by (cases "i < index") auto
      qed
      then show ?thesis using step True zero by simp
    next
      case False
      note c = countr_zero_mask [OF le False]
      have "first_index hit data = index + countr_zero ?bits"
      proof (rule first_indexI)
        show "index + countr_zero ?bits < length data" "hit (data ! (index + countr_zero ?bits))" using c(1, 2) len nth True by auto
        show "\<not> hit (data ! i)" if "i < index + countr_zero ?bits" for i
        proof (cases "i < index")
          case below: True then show ?thesis using 1(2) [OF below] True by simp
        next
          case above: False
          then have "i - index < countr_zero ?bits" using that by simp
          then show ?thesis using c(1) c(3) [of "i - index"] nth [of "i - index"] len above by simp
        qed
      qed
      then show ?thesis using step True False by simp
    qed
  qed
qed

lemma lanes_or_map: "lanes_or (map p xs) (map q xs) = map (\<lambda>x. p x \<or> q x) xs"
  by (simp add: lanes_or_def zip_map_map zip_same_conv_map o_def)

lemma FindAnyByte2_first [simp]: "FindAnyByte2 backend data a b = first_index (\<lambda>x. x = a \<or> x = b) data"
  by (simp add: FindAnyByte2_def scan_bytes_first scan_chunks_first lanes_equal_def lanes_or_map)

text \<open>
  C39: On every backend the scans for one to four bytes return the index of the first match, or the length when there is none: the masks, the
  packing into a word and the search for its lowest bit agree with the search byte by byte.
\<close>

theorem scans_find_first:
  "FindEqByte backend data a = first_index (\<lambda>x. x = a) data \<and>
   FindAnyByte2 backend data a b = first_index (\<lambda>x. x = a \<or> x = b) data \<and>
   FindAnyByte3 backend data a b c = first_index (\<lambda>x. x = a \<or> x = b \<or> x = c) data \<and>
   FindAnyByte4 backend data a b c d = first_index (\<lambda>x. x = a \<or> x = b \<or> x = c \<or> x = d) data"
  by (simp add: FindEqByte_def FindAnyByte3_def FindAnyByte4_def scan_bytes_first scan_chunks_first
      lanes_equal_def lanes_or_map disj_assoc)

end
