(* ===== verification/Serialization_Core.thy ===== *)
theory Serialization_Core
  imports Text_Unicode SIMD_Scan
begin

text \<open>
  What the JSON and XML parsers share, from \<^verbatim>\<open>src/include/NGIN/Serialization/Core\<close>: source positions, diagnostics, limits, the input cursor,
  the segmented arena and the scratch storage. Text is a \<^typ>\<open>string\<close> of 8-bit units; a \<open>UIntSize\<close> is a natural number, and the tests of the code against its maximum are
  written out.

  Memory comes from the platform: \<open>platform\<close> holds what the code gets from outside, a state of type \<open>'u\<close> that requests for memory change or that refuses them, and the
  growth of \<open>std::vector\<close>.
\<close>

section \<open>Positions and diagnostics\<close>

record SourceSpan =
  span_source :: nat
  span_begin :: nat
  span_end :: nat

record SourceLocation =
  loc_source :: nat
  loc_offset :: nat
  loc_line :: nat
  loc_column :: nat

datatype ParseErrorCode =
    ParseNone | UnexpectedEnd | UnexpectedCharacter | InvalidToken | InvalidNumber | InvalidStringEscape
  | InvalidUnicodeEscape | InvalidEntity | DepthExceeded | TrailingCharacters | HandlerRejected | OutOfMemory
  | MismatchedTag | InvalidEncoding | DuplicateName | LimitExceeded | UnsupportedConstruct | InvalidDocumentStructure

record ParseDiagnostic =
  diag_code :: ParseErrorCode
  diag_location :: SourceLocation
  diag_span :: SourceSpan
  diag_related :: "SourceSpan option"
  diag_message :: string

record ParseLimits =
  maxInputBytes :: nat
  maxDepth :: nat
  maxNodes :: nat
  maxMembers :: nat
  maxDecodedStringBytes :: nat
  maxTotalMemoryBytes :: nat

definition default_limits :: ParseLimits where
  "default_limits = \<lparr>maxInputBytes = 64 * 1024 * 1024, maxDepth = 256, maxNodes = 4 * 1024 * 1024, maxMembers = 4 * 1024 * 1024,
     maxDecodedStringBytes = 64 * 1024 * 1024, maxTotalMemoryBytes = 256 * 1024 * 1024\<rparr>"

definition Unlimited :: ParseLimits where
  "Unlimited = (let unlimited = 2 ^ 64 - 1 in \<lparr>maxInputBytes = unlimited, maxDepth = unlimited, maxNodes = unlimited, maxMembers = unlimited,
     maxDecodedStringBytes = unlimited, maxTotalMemoryBytes = unlimited\<rparr>)"

section \<open>The input cursor\<close>

abbreviation NUL :: char where "NUL \<equiv> CHR 0x00"
abbreviation TAB :: char where "TAB \<equiv> CHR 0x09"
abbreviation LF :: char where "LF \<equiv> CHR 0x0A"
abbreviation CR :: char where "CR \<equiv> CHR 0x0D"

text \<open>The cursor without the pointer to its text, which the operations take as an argument: the text may be changed in place while it is parsed.\<close>

record InputCursor =
  m_trackLocation :: bool
  m_previousWasCarriageReturn :: bool
  m_offset :: nat
  m_line :: nat
  m_column :: nat

definition InputCursor_make :: "bool \<Rightarrow> InputCursor" where
  "InputCursor_make trackLocation =
     \<lparr>m_trackLocation = trackLocation, m_previousWasCarriageReturn = False, m_offset = 0,
      m_line = (if trackLocation then 1 else 0), m_column = (if trackLocation then 1 else 0)\<rparr>"

definition IsEof :: "string \<Rightarrow> InputCursor \<Rightarrow> bool" where
  "IsEof tx cur \<longleftrightarrow> m_offset cur \<ge> length tx"

definition Peek :: "string \<Rightarrow> InputCursor \<Rightarrow> char" where
  "Peek tx cur = (if IsEof tx cur then NUL else tx ! m_offset cur)"

definition PeekAt :: "string \<Rightarrow> InputCursor \<Rightarrow> nat \<Rightarrow> char" where
  "PeekAt tx cur offset =
     (if m_offset cur > length tx \<or> offset \<ge> length tx - m_offset cur then NUL else tx ! (m_offset cur + offset))"

definition Advance_char :: "string \<Rightarrow> InputCursor \<Rightarrow> InputCursor" where
  "Advance_char tx cur =
     (let c = tx ! m_offset cur; cur = cur\<lparr>m_offset := m_offset cur + 1\<rparr>
      in if \<not> m_trackLocation cur then cur
         else if c = CR then cur\<lparr>m_line := m_line cur + 1, m_column := 1, m_previousWasCarriageReturn := True\<rparr>
         else if c = LF
         then (if \<not> m_previousWasCarriageReturn cur then cur\<lparr>m_line := m_line cur + 1\<rparr> else cur)
                \<lparr>m_column := 1, m_previousWasCarriageReturn := False\<rparr>
         else cur\<lparr>m_column := m_column cur + 1, m_previousWasCarriageReturn := False\<rparr>)"

definition Advance :: "string \<Rightarrow> nat \<Rightarrow> InputCursor \<Rightarrow> InputCursor" where
  "Advance tx count cur =
     (let available = (if m_offset cur \<le> length tx then length tx - m_offset cur else 0)
      in (Advance_char tx ^^ (if count < available then count else available)) cur)"

lemma m_offset_Advance_char [simp]: "m_offset (Advance_char tx cur) = m_offset cur + 1"
  by (simp add: Advance_char_def Let_def)

lemma m_offset_pow: "m_offset ((Advance_char tx ^^ n) cur) = m_offset cur + n"
  by (induction n) simp_all

lemma m_offset_Advance [simp]: "m_offset (Advance tx n cur) = m_offset cur + min n (length tx - m_offset cur)"
  by (simp add: Advance_def Let_def m_offset_pow min_def)

definition is_space :: "char \<Rightarrow> bool" where
  "is_space c \<longleftrightarrow> c = CHR '' '' \<or> c = TAB \<or> c = LF \<or> c = CR"

function SkipWhitespace :: "string \<Rightarrow> InputCursor \<Rightarrow> InputCursor" where
  "SkipWhitespace tx cur = (if is_space (Peek tx cur) then SkipWhitespace tx (Advance tx 1 cur) else cur)"
  by pat_completeness auto
termination
proof (relation "measure (\<lambda>(tx, cur). length tx - m_offset cur)")
  fix tx cur assume "is_space (Peek tx cur)"
  then have "m_offset cur < length tx" by (auto simp: Peek_def IsEof_def is_space_def split: if_splits)
  then show "((tx, Advance tx 1 cur), tx, cur) \<in> measure (\<lambda>(tx, cur). length tx - m_offset cur)"
    by simp
qed simp

declare SkipWhitespace.simps [simp del]

definition CursorRemaining :: "string \<Rightarrow> InputCursor \<Rightarrow> string" where
  "CursorRemaining tx cur = (if m_offset cur \<ge> length tx then [] else drop (m_offset cur) tx)"

definition SpanFrom :: "nat \<Rightarrow> nat \<Rightarrow> InputCursor \<Rightarrow> SourceSpan" where
  "SpanFrom begin0 source cur = \<lparr>span_source = source, span_begin = begin0, span_end = m_offset cur\<rparr>"

text \<open>\<open>Locate\<close> of the parsers and of \<open>SourceMap\<close>: line and column of an offset, with CR, LF and CR LF as line ends.\<close>

definition locate_char :: "nat \<times> nat \<times> bool \<Rightarrow> char \<Rightarrow> nat \<times> nat \<times> bool" where
  "locate_char = (\<lambda>(line, column, previousWasCarriageReturn) c.
     if c = CR then (line + 1, 1, True)
     else if c = LF then (if previousWasCarriageReturn then line else line + 1, 1, False)
     else (line, column + 1, False))"

definition Locate :: "string \<Rightarrow> nat \<Rightarrow> nat \<Rightarrow> SourceLocation" where
  "Locate source sourceId offset =
     (case foldl locate_char (1, 1, False) (take (min offset (length source)) source) of (line, column, _) \<Rightarrow>
        \<lparr>loc_source = sourceId, loc_offset = offset, loc_line = line, loc_column = column\<rparr>)"

section \<open>Memory from the platform\<close>

record 'u platform =
  operator_new :: "nat \<Rightarrow> 'u \<Rightarrow> 'u option"
  upstream_allocate :: "nat \<Rightarrow> 'u \<Rightarrow> 'u option"
  vector_growth :: "nat \<Rightarrow> nat \<Rightarrow> nat"

text \<open>\<open>std::vector\<close>: elements and capacity. An operation that needs more capacity asks for memory, which may fail.\<close>

record 'a std_vector =
  elems :: "'a list"
  vec_capacity :: nat

definition vec_empty :: "'a std_vector" where
  "vec_empty = \<lparr>elems = [], vec_capacity = 0\<rparr>"

definition vec_append :: "'u platform \<Rightarrow> nat \<Rightarrow> 'a list \<Rightarrow> 'a std_vector \<Rightarrow> 'u \<Rightarrow> ('a std_vector \<times> 'u) option" where
  "vec_append pl elemSize xs v u =
     (let needed = length (elems v) + length xs
      in if needed \<le> vec_capacity v then Some (v\<lparr>elems := elems v @ xs\<rparr>, u)
         else let capacity = vector_growth pl (vec_capacity v) needed
              in case operator_new pl (capacity * elemSize) u of None \<Rightarrow> None
                 | Some u \<Rightarrow> Some (\<lparr>elems = elems v @ xs, vec_capacity = capacity\<rparr>, u))"

definition vec_push_back :: "'u platform \<Rightarrow> nat \<Rightarrow> 'a \<Rightarrow> 'a std_vector \<Rightarrow> 'u \<Rightarrow> ('a std_vector \<times> 'u) option" where
  "vec_push_back pl elemSize x = vec_append pl elemSize [x]"

definition vec_reserve :: "'u platform \<Rightarrow> nat \<Rightarrow> nat \<Rightarrow> 'a std_vector \<Rightarrow> 'u \<Rightarrow> ('a std_vector \<times> 'u) option" where
  "vec_reserve pl elemSize n v u =
     (if n \<le> vec_capacity v then Some (v, u)
      else case operator_new pl (n * elemSize) u of None \<Rightarrow> None | Some u \<Rightarrow> Some (v\<lparr>vec_capacity := n\<rparr>, u))"

lemma vec_append_elems: "vec_append pl sz xs v u = Some (v', u') \<Longrightarrow> elems v' = elems v @ xs"
  by (auto simp: vec_append_def Let_def split: if_splits option.splits)

lemma vec_push_back_elems: "vec_push_back pl sz x v u = Some (v', u') \<Longrightarrow> elems v' = elems v @ [x]"
  unfolding vec_push_back_def by (rule vec_append_elems)

section \<open>The segmented arena\<close>

text \<open>A block with the bytes it holds.\<close>

record ArenaBlock =
  block_data :: string
  block_used :: nat

record SegmentedArena =
  m_blocks :: "ArenaBlock list"
  m_maxCommittedBytes :: nat
  m_nextBlockBytes :: nat
  m_committedBytes :: nat
  m_usedBytes :: nat

definition SegmentedArena_make :: "nat \<Rightarrow> nat \<Rightarrow> SegmentedArena" where
  "SegmentedArena_make maxCommittedBytes initialBlockBytes =
     \<lparr>m_blocks = [], m_maxCommittedBytes = maxCommittedBytes, m_nextBlockBytes = max initialBlockBytes 256, m_committedBytes = 0, m_usedBytes = 0\<rparr>"

definition Arena_NormalizeAlignment :: "nat \<Rightarrow> nat" where
  "Arena_NormalizeAlignment v =
     (if v \<le> 1 then 1
      else unat (foldl (\<lambda>w shift. w OR drop_bit shift w) (word_of_nat (v - 1) :: u64) [1, 2, 4, 8, 16, 32] + 1))"

text \<open>A request from the last block: the block and the offset in it.\<close>

definition TryAllocate :: "nat \<Rightarrow> nat \<Rightarrow> SegmentedArena \<Rightarrow> ((nat \<times> nat) \<times> SegmentedArena) option" where
  "TryAllocate size0 alignment ar =
     (let b = last (m_blocks ar); k = length (m_blocks ar) - 1; m = alignment - 1
      in if block_used b > 2 ^ 64 - 1 - m then None
         else let aligned = unat ((word_of_nat (block_used b + m) :: u64) AND NOT (word_of_nat m))
              in if aligned > length (block_data b) \<or> size0 > length (block_data b) - aligned then None
                 else Some ((k, aligned), ar\<lparr>m_blocks := (m_blocks ar)[k := b\<lparr>block_used := aligned + size0\<rparr>], m_usedBytes := m_usedBytes ar + size0\<rparr>))"

text \<open>
  A new block is one request of the upstream allocator. Growing the table of blocks may fail too; the block is then given back and the result is the one of a refused block, so the answer
  of \<open>upstream_allocate\<close> stands for both.
\<close>

definition Arena_Allocate :: "'u platform \<Rightarrow> nat \<Rightarrow> nat \<Rightarrow> SegmentedArena \<Rightarrow> 'u \<Rightarrow> (nat \<times> nat) option \<times> SegmentedArena \<times> 'u" where
  "Arena_Allocate pl size0 alignment ar u =
     (if size0 = 0 then (None, ar, u)
      else let a = Arena_NormalizeAlignment alignment
           in case (if m_blocks ar \<noteq> [] then TryAllocate size0 a ar else None) of
                Some (p, ar) \<Rightarrow> (Some p, ar, u)
              | None \<Rightarrow>
                let required = (if size0 > 2 ^ 64 - 1 - a then 2 ^ 64 - 1 else size0 + a)
                in if m_committedBytes ar > m_maxCommittedBytes ar then (None, ar, u)
                   else let remainingBytes = m_maxCommittedBytes ar - m_committedBytes ar;
                            blockBytes = (if max (m_nextBlockBytes ar) required > remainingBytes then required else max (m_nextBlockBytes ar) required)
                        in if blockBytes > remainingBytes then (None, ar, u)
                           else case upstream_allocate pl blockBytes u of
                                  None \<Rightarrow> (None, ar, u)
                                | Some u \<Rightarrow>
                                  let ar = ar\<lparr>m_blocks := m_blocks ar @ [\<lparr>block_data = replicate blockBytes NUL, block_used = 0\<rparr>],
                                              m_committedBytes := m_committedBytes ar + blockBytes,
                                              m_nextBlockBytes := (if blockBytes \<le> (2 ^ 64 - 1) div 2 then blockBytes * 2 else blockBytes)\<rparr>
                                  in case TryAllocate size0 a ar of Some (p, ar) \<Rightarrow> (Some p, ar, u) | None \<Rightarrow> (None, ar, u))"

section \<open>Scratch storage\<close>

type_synonym ParseScratch = "char std_vector"

text \<open>\<open>TryAllocate\<close>: the bytes are appended as zeros; the result is the offset of the first.\<close>

definition Scratch_TryAllocate :: "'u platform \<Rightarrow> nat \<Rightarrow> ParseScratch \<Rightarrow> 'u \<Rightarrow> nat option \<times> ParseScratch \<times> 'u" where
  "Scratch_TryAllocate pl bytes0 s u =
     (if bytes0 = 0 then (None, s, u)
      else let begin0 = length (elems s)
           in if begin0 > 2 ^ 64 - 1 - bytes0 then (None, s, u)
              else case vec_reserve pl 1 (begin0 + bytes0) s u of
                     None \<Rightarrow> (None, s, u)
                   | Some (s, u) \<Rightarrow> (Some begin0, s\<lparr>elems := elems s @ replicate bytes0 NUL\<rparr>, u))"

definition Scratch_Reset :: "ParseScratch \<Rightarrow> ParseScratch" where
  "Scratch_Reset s = s\<lparr>elems := []\<rparr>"

end
