(* ===== verification/JSON_Document.thy ===== *)
theory JSON_Document
  imports Serialization_Core
begin

text \<open>
  JSON documents: the tables of \<^verbatim>\<open>src/src/NGIN/Serialization/JSON/JsonDocumentInternal.hpp\<close> and the views of \<^verbatim>\<open>JsonDocument.cpp\<close>. A value is a node of a table; arrays and objects are ranges
  of the tables of elements and members. A string is a pointer into the source text, the scratch storage or a block of the arena, with a length.
  \<open>'f\<close> is the type of floating-point numbers.
\<close>

section \<open>Definitions\<close>

datatype ValueKind = KNull | KBool | KInt64 | KUInt64 | KDouble | KString | KArray | KObject

type_synonym NodeId = nat

definition InvalidNode :: NodeId where
  "InvalidNode = 2 ^ 32 - 1"

datatype area = Source | Scratch | Block nat

record StringRef =
  ref_area :: area
  ref_data :: nat
  ref_size :: nat

datatype 'f NodePayload =
    NoPayload
  | BoolPayload bool
  | SignedPayload int
  | UnsignedPayload nat
  | DoublePayload 'f
  | StringPayload StringRef
  | RangePayload nat nat

record 'f NodeRecord =
  node_kind :: ValueKind
  node_span :: SourceSpan
  node_payload :: "'f NodePayload"

record MemberRecord =
  member_key :: StringRef
  member_value :: NodeId
  member_span :: SourceSpan

text \<open>The state of a document. \<open>scratch_bytes\<close> is the caller's storage that a borrowed document points into.\<close>

record 'f DocumentState =
  owned :: bool
  source_text :: string
  sourceId :: nat
  arena :: SegmentedArena
  scratch_bytes :: "ParseScratch option"
  limits :: ParseLimits
  nodes :: "'f NodeRecord std_vector"
  elements :: "NodeId std_vector"
  members :: "MemberRecord std_vector"
  valueViews :: "NodeId std_vector"
  root :: NodeId

definition DocumentState_make :: "bool \<Rightarrow> string \<Rightarrow> nat \<Rightarrow> ParseScratch option \<Rightarrow> ParseLimits \<Rightarrow> nat \<Rightarrow> 'f DocumentState" where
  "DocumentState_make isOwned input sid scr lim initialArenaBlockBytes =
     \<lparr>owned = isOwned, source_text = input, sourceId = sid, arena = SegmentedArena_make (maxTotalMemoryBytes lim) initialArenaBlockBytes,
      scratch_bytes = scr, limits = lim, nodes = vec_empty, elements = vec_empty, members = vec_empty, valueViews = vec_empty, root = InvalidNode\<rparr>"

definition buffer :: "'f DocumentState \<Rightarrow> area \<Rightarrow> string" where
  "buffer st a = (case a of
       Source \<Rightarrow> source_text st
     | Scratch \<Rightarrow> (case scratch_bytes st of None \<Rightarrow> [] | Some s \<Rightarrow> elems s)
     | Block k \<Rightarrow> if k < length (m_blocks (arena st)) then block_data (m_blocks (arena st) ! k) else [])"

definition View :: "'f DocumentState \<Rightarrow> StringRef \<Rightarrow> string" where
  "View st r = take (ref_size r) (drop (ref_data r) (buffer st (ref_area r)))"

definition NodeAt :: "'f DocumentState \<Rightarrow> NodeId \<Rightarrow> 'f NodeRecord option" where
  "NodeAt st i = (if i \<noteq> InvalidNode \<and> i < length (elems (nodes st)) then Some (elems (nodes st) ! i) else None)"

text \<open>The sizes of the records on a 64-bit platform: \<open>NodeRecord\<close> 48, \<open>NodeId\<close> 4, \<open>MemberRecord\<close> 48, \<open>ValueView\<close> 16 bytes.\<close>

definition MemoryUsed :: "'f DocumentState \<Rightarrow> nat" where
  "MemoryUsed st = (if owned st then length (source_text st) else 0) + length (elems (nodes st)) * 48 + length (elems (elements st)) * 4 +
     length (elems (members st)) * 48 + length (elems (valueViews st)) * 16 + m_usedBytes (arena st)"

definition MemoryCommitted :: "'f DocumentState \<Rightarrow> nat" where
  "MemoryCommitted st = (if owned st then length (source_text st) else 0) + vec_capacity (nodes st) * 48 + vec_capacity (elements st) * 4 +
     vec_capacity (members st) * 48 + vec_capacity (valueViews st) * 16 + m_committedBytes (arena st)"

definition WithinMemoryLimit :: "'f DocumentState \<Rightarrow> bool" where
  "WithinMemoryLimit st \<longleftrightarrow> MemoryCommitted st \<le> maxTotalMemoryBytes (limits st)"

text \<open>\<open>FinalizeViews\<close>: the reservation may throw.\<close>

definition FinalizeViews :: "'u platform \<Rightarrow> 'f DocumentState \<Rightarrow> 'u \<Rightarrow> ('f DocumentState \<times> 'u) option" where
  "FinalizeViews pl st u =
     (case vec_reserve pl 16 (length (elems (nodes st))) ((valueViews st)\<lparr>elems := []\<rparr>) u of
        None \<Rightarrow> None
      | Some (v, u) \<Rightarrow> Some (st\<lparr>valueViews := v\<lparr>elems := [0..<length (elems (nodes st))]\<rparr>\<rparr>, u))"

section \<open>Views\<close>

text \<open>A view of a value is the identifier of its node; the state is passed along. \<open>None\<close> stands for \<open>std::nullopt\<close>.\<close>

definition Value_IsValid :: "'f DocumentState \<Rightarrow> NodeId \<Rightarrow> bool" where
  "Value_IsValid st i \<longleftrightarrow> NodeAt st i \<noteq> None"

definition Kind :: "'f DocumentState \<Rightarrow> NodeId \<Rightarrow> ValueKind" where
  "Kind st i = (case NodeAt st i of None \<Rightarrow> KNull | Some n \<Rightarrow> node_kind n)"

definition Value_Span :: "'f DocumentState \<Rightarrow> NodeId \<Rightarrow> SourceSpan" where
  "Value_Span st i = (case NodeAt st i of None \<Rightarrow> \<lparr>span_source = 0, span_begin = 0, span_end = 0\<rparr> | Some n \<Rightarrow> node_span n)"

text \<open>The reads of the payload union: a member is read only for the kind it was written for; reading another one gives a default.\<close>

definition payload_bool :: "'f NodePayload \<Rightarrow> bool" where
  "payload_bool p = (case p of BoolPayload b \<Rightarrow> b | _ \<Rightarrow> False)"

definition payload_signed :: "'f NodePayload \<Rightarrow> int" where
  "payload_signed p = (case p of SignedPayload i \<Rightarrow> i | _ \<Rightarrow> 0)"

definition payload_unsigned :: "'f NodePayload \<Rightarrow> nat" where
  "payload_unsigned p = (case p of UnsignedPayload n \<Rightarrow> n | _ \<Rightarrow> 0)"

definition payload_double :: "'f NodePayload \<Rightarrow> 'f option" where
  "payload_double p = (case p of DoublePayload x \<Rightarrow> Some x | _ \<Rightarrow> None)"

definition payload_string :: "'f NodePayload \<Rightarrow> StringRef" where
  "payload_string p = (case p of StringPayload r \<Rightarrow> r | _ \<Rightarrow> \<lparr>ref_area = Source, ref_data = 0, ref_size = 0\<rparr>)"

definition payload_range :: "'f NodePayload \<Rightarrow> nat \<times> nat" where
  "payload_range p = (case p of RangePayload b n \<Rightarrow> (b, n) | _ \<Rightarrow> (0, 0))"

definition TryBool :: "'f DocumentState \<Rightarrow> NodeId \<Rightarrow> bool option" where
  "TryBool st i = (case NodeAt st i of None \<Rightarrow> None
     | Some n \<Rightarrow> if node_kind n = KBool then Some (payload_bool (node_payload n)) else None)"

definition TryInt64 :: "'f DocumentState \<Rightarrow> NodeId \<Rightarrow> int option" where
  "TryInt64 st i = (case NodeAt st i of None \<Rightarrow> None
     | Some n \<Rightarrow>
       if node_kind n = KInt64 then Some (payload_signed (node_payload n))
       else if node_kind n = KUInt64 \<and> payload_unsigned (node_payload n) \<le> 2 ^ 63 - 1 then Some (int (payload_unsigned (node_payload n)))
       else None)"

definition TryUInt64 :: "'f DocumentState \<Rightarrow> NodeId \<Rightarrow> nat option" where
  "TryUInt64 st i = (case NodeAt st i of None \<Rightarrow> None
     | Some n \<Rightarrow>
       if node_kind n = KUInt64 then Some (payload_unsigned (node_payload n))
       else if node_kind n = KInt64 \<and> payload_signed (node_payload n) \<ge> 0 then Some (nat (payload_signed (node_payload n)))
       else None)"

text \<open>\<open>TryDouble\<close> with the conversions of the platform.\<close>

definition TryDouble :: "(int \<Rightarrow> 'f) \<Rightarrow> 'f DocumentState \<Rightarrow> NodeId \<Rightarrow> 'f option" where
  "TryDouble f64 st i = (case NodeAt st i of None \<Rightarrow> None
     | Some n \<Rightarrow> (case node_kind n of
         KInt64 \<Rightarrow> Some (f64 (payload_signed (node_payload n)))
       | KUInt64 \<Rightarrow> Some (f64 (int (payload_unsigned (node_payload n))))
       | KDouble \<Rightarrow> payload_double (node_payload n)
       | _ \<Rightarrow> None))"

definition TryString :: "'f DocumentState \<Rightarrow> NodeId \<Rightarrow> string option" where
  "TryString st i = (case NodeAt st i of None \<Rightarrow> None
     | Some n \<Rightarrow> if node_kind n = KString then Some (View st (payload_string (node_payload n))) else None)"

text \<open>An array or object view is its range.\<close>

definition TryArray :: "'f DocumentState \<Rightarrow> NodeId \<Rightarrow> (nat \<times> nat) option" where
  "TryArray st i = (case NodeAt st i of None \<Rightarrow> None
     | Some n \<Rightarrow> if node_kind n = KArray then Some (payload_range (node_payload n)) else None)"

definition TryObject :: "'f DocumentState \<Rightarrow> NodeId \<Rightarrow> (nat \<times> nat) option" where
  "TryObject st i = (case NodeAt st i of None \<Rightarrow> None
     | Some n \<Rightarrow> if node_kind n = KObject then Some (payload_range (node_payload n)) else None)"

definition Array_IsValid :: "'f DocumentState \<Rightarrow> nat \<times> nat \<Rightarrow> bool" where
  "Array_IsValid st = (\<lambda>(b, n). b \<le> length (elems (elements st)) \<and> n \<le> length (elems (elements st)) - b)"

definition Array_Size :: "'f DocumentState \<Rightarrow> nat \<times> nat \<Rightarrow> nat" where
  "Array_Size st r = (if Array_IsValid st r then snd r else 0)"

definition Array_index :: "'f DocumentState \<Rightarrow> nat \<times> nat \<Rightarrow> nat \<Rightarrow> NodeId" where
  "Array_index st r index = (if Array_IsValid st r \<and> index < snd r then elems (elements st) ! (fst r + index) else InvalidNode)"

definition Object_IsValid :: "'f DocumentState \<Rightarrow> nat \<times> nat \<Rightarrow> bool" where
  "Object_IsValid st = (\<lambda>(b, n). b \<le> length (elems (members st)) \<and> n \<le> length (elems (members st)) - b)"

definition Object_Size :: "'f DocumentState \<Rightarrow> nat \<times> nat \<Rightarrow> nat" where
  "Object_Size st r = (if Object_IsValid st r then snd r else 0)"

text \<open>A member view is an index into the table of members.\<close>

definition MemberAt :: "'f DocumentState \<Rightarrow> nat \<times> nat \<Rightarrow> nat \<Rightarrow> nat option" where
  "MemberAt st r index = (if Object_IsValid st r \<and> index < snd r then Some (fst r + index) else None)"

definition Member_Key :: "'f DocumentState \<Rightarrow> nat \<Rightarrow> string" where
  "Member_Key st m = (if m < length (elems (members st)) then View st (member_key (elems (members st) ! m)) else [])"

definition Member_Value :: "'f DocumentState \<Rightarrow> nat \<Rightarrow> NodeId" where
  "Member_Value st m = (if m < length (elems (members st)) then member_value (elems (members st) ! m) else InvalidNode)"

function Find_loop :: "'f DocumentState \<Rightarrow> nat \<times> nat \<Rightarrow> string \<Rightarrow> nat \<Rightarrow> NodeId option" where
  "Find_loop st r key index =
     (if index < snd r
      then let m = elems (members st) ! (fst r + index)
           in if View st (member_key m) = key then Some (member_value m) else Find_loop st r key (index + 1)
      else None)"
  by pat_completeness auto
termination
  by (relation "measure (\<lambda>(st, r, key, index). snd r - index)") auto

declare Find_loop.simps [simp del]

definition Find :: "'f DocumentState \<Rightarrow> nat \<times> nat \<Rightarrow> string \<Rightarrow> NodeId option" where
  "Find st r key = (if \<not> Object_IsValid st r then None else Find_loop st r key 0)"

definition Document_IsValid :: "'f DocumentState \<Rightarrow> bool" where
  "Document_IsValid st \<longleftrightarrow> NodeAt st (root st) \<noteq> None"

definition Root :: "'f DocumentState \<Rightarrow> NodeId" where
  "Root st = (if Document_IsValid st then root st else InvalidNode)"

section \<open>The value of a node\<close>

datatype 'f json =
    JNull
  | JBool bool
  | JInt int
  | JDouble 'f
  | JString string
  | JArray "'f json list"
  | JObject "(string \<times> 'f json) list"

text \<open>
  \<open>denotes st i v\<close>: node \<open>i\<close> of the tables stands for the value \<open>v\<close>. Integers below \<open>2 ^ 63\<close> are stored signed, those up to \<open>2 ^ 64\<close> unsigned.
  A string must lie in the part of its buffer that is settled: before the cursor in the source, before the used end elsewhere.
\<close>

definition settled :: "nat \<Rightarrow> 'f DocumentState \<Rightarrow> area \<Rightarrow> nat" where
  "settled off st a = (case a of
       Source \<Rightarrow> min off (length (source_text st))
     | Scratch \<Rightarrow> length (buffer st Scratch)
     | Block k \<Rightarrow> if k < length (m_blocks (arena st)) then block_used (m_blocks (arena st) ! k) else 0)"

definition ref_ok :: "nat \<Rightarrow> 'f DocumentState \<Rightarrow> StringRef \<Rightarrow> bool" where
  "ref_ok off st r \<longleftrightarrow> ref_data r + ref_size r \<le> settled off st (ref_area r)"

definition key_is :: "nat \<Rightarrow> 'f DocumentState \<Rightarrow> StringRef \<Rightarrow> string \<Rightarrow> bool" where
  "key_is off st r s \<longleftrightarrow> ref_ok off st r \<and> View st r = s"

inductive denotes :: "nat \<Rightarrow> 'f DocumentState \<Rightarrow> NodeId \<Rightarrow> 'f json \<Rightarrow> bool" for off st where
  denotes_null: "NodeAt st i = Some n \<Longrightarrow> node_kind n = KNull \<Longrightarrow> denotes off st i JNull"
| denotes_bool: "NodeAt st i = Some n \<Longrightarrow> node_kind n = KBool \<Longrightarrow> node_payload n = BoolPayload b \<Longrightarrow> denotes off st i (JBool b)"
| denotes_int: "NodeAt st i = Some n \<Longrightarrow> node_kind n = KInt64 \<Longrightarrow> node_payload n = SignedPayload k \<Longrightarrow> - (2 ^ 63) \<le> k \<Longrightarrow> k < 2 ^ 63 \<Longrightarrow>
    denotes off st i (JInt k)"
| denotes_uint: "NodeAt st i = Some n \<Longrightarrow> node_kind n = KUInt64 \<Longrightarrow> node_payload n = UnsignedPayload k \<Longrightarrow> 2 ^ 63 \<le> k \<Longrightarrow> k < 2 ^ 64 \<Longrightarrow>
    denotes off st i (JInt (int k))"
| denotes_double: "NodeAt st i = Some n \<Longrightarrow> node_kind n = KDouble \<Longrightarrow> node_payload n = DoublePayload x \<Longrightarrow> denotes off st i (JDouble x)"
| denotes_string: "NodeAt st i = Some n \<Longrightarrow> node_kind n = KString \<Longrightarrow> node_payload n = StringPayload r \<Longrightarrow> key_is off st r s \<Longrightarrow>
    denotes off st i (JString s)"
| denotes_array: "NodeAt st i = Some n \<Longrightarrow> node_kind n = KArray \<Longrightarrow> node_payload n = RangePayload b (length vs) \<Longrightarrow>
    b + length vs \<le> length (elems (elements st)) \<Longrightarrow> list_all2 (denotes off st) (take (length vs) (drop b (elems (elements st)))) vs \<Longrightarrow>
    denotes off st i (JArray vs)"
| denotes_object: "NodeAt st i = Some n \<Longrightarrow> node_kind n = KObject \<Longrightarrow> node_payload n = RangePayload b (length ms) \<Longrightarrow>
    b + length ms \<le> length (elems (members st)) \<Longrightarrow>
    list_all2 (\<lambda>m (k, v). key_is off st (member_key m) k \<and> denotes off st (member_value m) v) (take (length ms) (drop b (elems (members st)))) ms \<Longrightarrow>
    denotes off st i (JObject ms)"

end
