(* ===== verification/JSON_Parser.thy ===== *)
theory JSON_Parser
  imports JSON_Document Net_Charconv
begin

text \<open>
  The JSON parser of \<^verbatim>\<open>src/src/NGIN/Serialization/JSON/JsonParser.cpp\<close>. A function that returns \<open>Expected<T, ParseDiagnostic>\<close> and changes the context has type
  \<open>(ParseDiagnostic + T \<times> context) option\<close>: \<open>Inl\<close> the diagnostic, \<open>Inr\<close> the result with the new context, \<open>None\<close> an access outside of a buffer or a recursion
  that needs more than the given number of nested calls. The recursive functions take that number; the properties show which number is enough.
\<close>

section \<open>Options and context\<close>

datatype CommentPolicy = RejectComments | AllowComments
datatype TrailingCommaPolicy = RejectTrailing | AllowTrailing
datatype DuplicateKeyPolicy = RejectDuplicates | PreserveDuplicates | KeepFirst | KeepLast
datatype Utf8Policy = ValidateUtf8 | AssumeValidUtf8

record ParseOptions =
  comments :: CommentPolicy
  trailingCommas :: TrailingCommaPolicy
  duplicateKeys :: DuplicateKeyPolicy
  utf8 :: Utf8Policy

text \<open>The platform with the number conversions of the standard library for \<open>F64\<close> and the vector backend of the scans.\<close>

record ('u, 'f) library = "'u platform" +
  from_chars_f64 :: "string \<Rightarrow> errc \<times> nat \<times> 'f"
  isfinite :: "'f \<Rightarrow> bool"
  simd :: Backend
  sizeof_DocumentState :: nat

record ('u, 'f) ParseContext =
  cursor :: InputCursor
  opts :: ParseOptions
  doc :: "'f DocumentState"
  mutableBase :: bool
  useScratch :: bool
  depth :: nat
  decodedBytes :: nat
  env :: 'u

type_synonym ('a, 'u, 'f) parsed = "(ParseDiagnostic + 'a \<times> ('u, 'f) ParseContext) option"

text \<open>The next call after one that may fail.\<close>

definition and_then :: "('a, 'u, 'f) parsed \<Rightarrow> ('a \<Rightarrow> ('u, 'f) ParseContext \<Rightarrow> ('b, 'u, 'f) parsed) \<Rightarrow> ('b, 'u, 'f) parsed" where
  "and_then m f = (case m of None \<Rightarrow> None | Some (Inl e) \<Rightarrow> Some (Inl e) | Some (Inr (x, ctx)) \<Rightarrow> f x ctx)"

abbreviation tx :: "('u, 'f) ParseContext \<Rightarrow> string" where
  "tx ctx \<equiv> source_text (doc ctx)"

abbreviation off :: "('u, 'f) ParseContext \<Rightarrow> nat" where
  "off ctx \<equiv> m_offset (cursor ctx)"

abbreviation peek :: "('u, 'f) ParseContext \<Rightarrow> char" where
  "peek ctx \<equiv> Peek (tx ctx) (cursor ctx)"

definition advance :: "nat \<Rightarrow> ('u, 'f) ParseContext \<Rightarrow> ('u, 'f) ParseContext" where
  "advance n ctx = ctx\<lparr>cursor := Advance (tx ctx) n (cursor ctx)\<rparr>"

definition MakeErrorAt :: "('u, 'f) ParseContext \<Rightarrow> ParseErrorCode \<Rightarrow> string \<Rightarrow> nat \<Rightarrow> nat \<Rightarrow> ParseDiagnostic" where
  "MakeErrorAt ctx code message begin0 end0 =
     \<lparr>diag_code = code, diag_location = Locate (tx ctx) (sourceId (doc ctx)) begin0,
      diag_span = \<lparr>span_source = sourceId (doc ctx), span_begin = begin0, span_end = max begin0 end0\<rparr>, diag_related = None, diag_message = message\<rparr>"

definition MakeError :: "('u, 'f) ParseContext \<Rightarrow> ParseErrorCode \<Rightarrow> string \<Rightarrow> ParseDiagnostic" where
  "MakeError ctx code message = MakeErrorAt ctx code message (off ctx) (off ctx)"

abbreviation failure :: "ParseDiagnostic \<Rightarrow> ('a, 'u, 'f) parsed" where
  "failure e \<equiv> Some (Inl e)"

abbreviation success :: "'a \<Rightarrow> ('u, 'f) ParseContext \<Rightarrow> ('a, 'u, 'f) parsed" where
  "success x ctx \<equiv> Some (Inr (x, ctx))"

section \<open>Characters\<close>

definition IsDigit :: "char \<Rightarrow> bool" where
  "IsDigit c \<longleftrightarrow> between (CHR ''0'') (CHR ''9'') c"

definition IsHexDigit :: "char \<Rightarrow> bool" where
  "IsHexDigit c \<longleftrightarrow> between (CHR ''0'') (CHR ''9'') c \<or> between (CHR ''a'') (CHR ''f'') c \<or> between (CHR ''A'') (CHR ''F'') c"

definition HexValue :: "char \<Rightarrow> nat" where
  "HexValue c =
     (if between (CHR ''0'') (CHR ''9'') c then ord c - ord (CHR ''0'')
      else if between (CHR ''a'') (CHR ''f'') c then ord c - ord (CHR ''a'') + 10
      else ord c - ord (CHR ''A'') + 10)"

text \<open>Four digits from an offset. \<open>Some None\<close>: not all are hexadecimal.\<close>

fun DecodeHex4_loop :: "string \<Rightarrow> nat \<Rightarrow> nat \<Rightarrow> nat \<Rightarrow> nat option option" where
  "DecodeHex4_loop t p 0 result = Some (Some result)"
| "DecodeHex4_loop t p (Suc n) result =
     do { c \<leftarrow> span_at t p;
          if \<not> IsHexDigit c then Some None else DecodeHex4_loop t (p + 1) n (push_bit 4 result OR HexValue c) }"

definition DecodeHex4 :: "string \<Rightarrow> nat \<Rightarrow> nat option option" where
  "DecodeHex4 t p = DecodeHex4_loop t p 4 0"

section \<open>Trivia\<close>

text \<open>The loops over the characters of a comment: the cursor behind it, or at the end of the text.\<close>

function line_comment :: "string \<Rightarrow> InputCursor \<Rightarrow> InputCursor" where
  "line_comment t cur =
     (if \<not> IsEof t cur \<and> Peek t cur \<noteq> CR \<and> Peek t cur \<noteq> LF then line_comment t (Advance t 1 cur) else cur)"
  by pat_completeness auto
termination
  by (relation "measure (\<lambda>(t, cur). length t - m_offset cur)") (auto simp: IsEof_def)

function block_comment :: "string \<Rightarrow> InputCursor \<Rightarrow> InputCursor option" where
  "block_comment t cur =
     (if \<not> IsEof t cur
      then if Peek t cur = CHR ''*'' \<and> PeekAt t cur 1 = CHR ''/'' then Some (Advance t 2 cur) else block_comment t (Advance t 1 cur)
      else None)"
  by pat_completeness auto
termination
  by (relation "measure (\<lambda>(t, cur). length t - m_offset cur)") (auto simp: IsEof_def)

declare line_comment.simps [simp del] block_comment.simps [simp del]

definition SkipComment :: "('u, 'f) ParseContext \<Rightarrow> (unit, 'u, 'f) parsed" where
  "SkipComment ctx =
     (let start = off ctx
      in if peek ctx \<noteq> CHR ''/'' then success () ctx
         else if PeekAt (tx ctx) (cursor ctx) 1 = CHR ''/''
         then success () (ctx\<lparr>cursor := line_comment (tx ctx) (Advance (tx ctx) 2 (cursor ctx))\<rparr>)
         else if PeekAt (tx ctx) (cursor ctx) 1 = CHR ''*''
         then (case block_comment (tx ctx) (Advance (tx ctx) 2 (cursor ctx)) of
                 Some cur \<Rightarrow> success () (ctx\<lparr>cursor := cur\<rparr>)
               | None \<Rightarrow> failure (MakeErrorAt ctx UnexpectedEnd ''Unterminated block comment'' start (length (tx ctx))))
         else failure (MakeErrorAt ctx InvalidToken ''Invalid comment token'' start (start + 1)))"

partial_function (option) SkipTrivia :: "('u, 'f) ParseContext \<Rightarrow> (unit, 'u, 'f) parsed" where
  "SkipTrivia ctx =
     (let ctx = ctx\<lparr>cursor := SkipWhitespace (tx ctx) (cursor ctx)\<rparr>
      in if peek ctx \<noteq> CHR ''/'' then success () ctx
         else if comments (opts ctx) = RejectComments
         then failure (MakeErrorAt ctx InvalidToken ''JSON comments are disabled'' (off ctx) (off ctx + 1))
         else do { r \<leftarrow> SkipComment ctx; (case r of Inl e \<Rightarrow> failure e | Inr (_, ctx) \<Rightarrow> SkipTrivia ctx) })"

section \<open>Strings\<close>

type_synonym problem = "ParseErrorCode \<times> string \<times> nat \<times> nat"

definition fail_with :: "('u, 'f) ParseContext \<Rightarrow> problem \<Rightarrow> ('a, 'u, 'f) parsed" where
  "fail_with ctx = (\<lambda>(code, message, begin0, end0). failure (MakeErrorAt ctx code message begin0 end0))"

text \<open>The search for the closing quote, from \<open>scan\<close>: its offset and whether there are escapes.\<close>

function ScanString :: "Backend \<Rightarrow> string \<Rightarrow> nat \<Rightarrow> nat \<Rightarrow> bool \<Rightarrow> problem + nat \<times> bool" where
  "ScanString backend t tokenStart scan hasEscapes =
     (if scan < length t
      then let next0 = scan + FindAnyByte2 backend (drop scan t) (CHR 0x22) (CHR 0x5C);
               control = length (takeWhile (\<lambda>c. \<not> ord c < 0x20) (take (next0 - scan) (drop scan t)))
           in if control < next0 - scan
              then Inl (InvalidToken, ''Control character in JSON string'', scan + control, scan + control + 1)
              else if next0 \<ge> length t then Inl (UnexpectedEnd, ''Unterminated JSON string'', tokenStart, length t)
              else if t ! next0 = CHR 0x22 then Inr (next0, hasEscapes)
              else if next0 + 1 \<ge> length t then Inl (UnexpectedEnd, ''Unterminated JSON escape'', next0, length t)
              else ScanString backend t tokenStart (next0 + 2) True
      else Inl (UnexpectedEnd, ''Unterminated JSON string'', tokenStart, length t))"
  by pat_completeness auto
termination
  by (relation "measure (\<lambda>(backend, t, tokenStart, scan, hasEscapes). length t - scan)") auto

declare ScanString.simps [simp del]

text \<open>
  The decoding loop. It reads from the source between \<open>read\<close> and \<open>end0\<close> and writes to the output buffer from \<open>write\<close> on. When the output is the source itself
  (\<open>inPlace\<close>), every write changes the text that later reads see. \<open>text0\<close> is the source, \<open>out\<close> the output buffer.
\<close>

definition bytes_of :: "string \<Rightarrow> bytes" where
  "bytes_of s = map (\<lambda>c. to_byte (ord c)) s"

definition chars_of :: "bytes \<Rightarrow> string" where
  "chars_of bs = map (\<lambda>b. chr (unat b)) bs"

definition put_at :: "bool \<Rightarrow> string \<times> string \<Rightarrow> nat \<Rightarrow> char \<Rightarrow> (string \<times> string) option" where
  "put_at inPlace = (\<lambda>(text0, out) w c. if inPlace then map_option (\<lambda>t. (t, t)) (span_put text0 w c) else map_option (\<lambda>o0. (text0, o0)) (span_put out w c))"

text \<open>\<open>EncodeUtf8(codePoint, write)\<close>.\<close>

definition put_utf8 :: "bool \<Rightarrow> string \<times> string \<Rightarrow> nat \<Rightarrow> CodePoint \<Rightarrow> ((string \<times> string) \<times> nat) option" where
  "put_utf8 inPlace = (\<lambda>(text0, out) w cp.
     let target = (if inPlace then text0 else out)
     in case EncodeUtf8 cp (bytes_of (drop w target)) of
          None \<Rightarrow> None
        | Some (bs, n) \<Rightarrow> let target = take w target @ chars_of bs in Some (if inPlace then (target, target) else (text0, target), n))"

definition simple_escape :: "char \<Rightarrow> char option" where
  "simple_escape c =
     (if c = CHR 0x22 then Some (CHR 0x22) else if c = CHR 0x5C then Some (CHR 0x5C) else if c = CHR ''/'' then Some (CHR ''/'')
      else if c = CHR ''b'' then Some (CHR 0x08) else if c = CHR ''f'' then Some (CHR 0x0C) else if c = CHR ''n'' then Some LF
      else if c = CHR ''r'' then Some CR else if c = CHR ''t'' then Some TAB else None)"

text \<open>The escape \<open>\u\<close> whose digits start at \<open>read\<close>: the code point and the offset behind it.\<close>

definition unicode_escape :: "string \<Rightarrow> nat \<Rightarrow> nat \<Rightarrow> nat \<Rightarrow> nat \<Rightarrow> (problem + CodePoint \<times> nat) option" where
  "unicode_escape text0 escapeOffset tokenEnd read end0 =
     (if end0 - read < 4 then Some (Inl (InvalidUnicodeEscape, ''Truncated JSON Unicode escape'', escapeOffset, tokenEnd))
      else case DecodeHex4 text0 read of
        None \<Rightarrow> None
      | Some None \<Rightarrow> Some (Inl (InvalidUnicodeEscape, ''Invalid JSON Unicode escape'', escapeOffset, escapeOffset + 6))
      | Some (Some cp0) \<Rightarrow>
        let read = read + 4
        in if cp0 \<ge> 0xD800 \<and> cp0 \<le> 0xDBFF
           then if end0 - read < 6 then Some (Inl (InvalidUnicodeEscape, ''Missing low surrogate'', escapeOffset, escapeOffset + 6))
                else do { c0 \<leftarrow> span_at text0 read; c1 \<leftarrow> span_at text0 (read + 1);
                  if c0 \<noteq> CHR 0x5C \<or> c1 \<noteq> CHR ''u'' then Some (Inl (InvalidUnicodeEscape, ''Missing low surrogate'', escapeOffset, escapeOffset + 6))
                  else case DecodeHex4 text0 (read + 2) of
                    None \<Rightarrow> None
                  | Some None \<Rightarrow> Some (Inl (InvalidUnicodeEscape, ''Invalid low surrogate'', escapeOffset + 6, escapeOffset + 12))
                  | Some (Some low) \<Rightarrow>
                    if low < 0xDC00 \<or> low > 0xDFFF then Some (Inl (InvalidUnicodeEscape, ''Invalid low surrogate'', escapeOffset + 6, escapeOffset + 12))
                    else Some (Inr (0x10000 + push_bit 10 (cp0 - 0xD800) + (low - 0xDC00), read + 6)) }
           else if cp0 \<ge> 0xDC00 \<and> cp0 \<le> 0xDFFF
           then Some (Inl (InvalidUnicodeEscape, ''Unexpected low surrogate'', escapeOffset, escapeOffset + 6))
           else Some (Inr (cp0, read)))"

partial_function (option) DecodeString ::
  "bool \<Rightarrow> nat \<Rightarrow> string \<times> string \<Rightarrow> nat \<Rightarrow> nat \<Rightarrow> nat \<Rightarrow> (problem \<times> string \<times> string + (string \<times> string) \<times> nat) option" where
  "DecodeString inPlace tokenEnd buffers read end0 write =
     (if read < end0
      then do { value \<leftarrow> span_at (fst buffers) read;
        if value \<noteq> CHR 0x5C
        then do { buffers \<leftarrow> put_at inPlace buffers write value; DecodeString inPlace tokenEnd buffers (read + 1) end0 (write + 1) }
        else let escapeOffset = read; read = read + 1
             in if read \<ge> end0 then Some (Inl ((InvalidStringEscape, ''Truncated JSON escape'', escapeOffset, escapeOffset + 1), buffers))
                else do { kind \<leftarrow> span_at (fst buffers) read;
                  case simple_escape kind of
                    Some c \<Rightarrow> do { buffers \<leftarrow> put_at inPlace buffers write c; DecodeString inPlace tokenEnd buffers (read + 1) end0 (write + 1) }
                  | None \<Rightarrow>
                    if kind = CHR ''u''
                    then do { r \<leftarrow> unicode_escape (fst buffers) escapeOffset tokenEnd (read + 1) end0;
                      case r of
                        Inl p \<Rightarrow> Some (Inl (p, buffers))
                      | Inr (cp0, read) \<Rightarrow> do { (buffers, n) \<leftarrow> put_utf8 inPlace buffers write cp0;
                          DecodeString inPlace tokenEnd buffers read end0 (write + n) } }
                    else Some (Inl ((InvalidStringEscape, ''Invalid JSON string escape'', escapeOffset, escapeOffset + 2), buffers)) } }
      else Some (Inr (buffers, write)))"

text \<open>The output of a decoded string: in place, in the scratch storage or in the arena.\<close>

definition set_buffer :: "area \<Rightarrow> string \<Rightarrow> 'f DocumentState \<Rightarrow> 'f DocumentState" where
  "set_buffer a s st = (case a of
       Source \<Rightarrow> st\<lparr>source_text := s\<rparr>
     | Scratch \<Rightarrow> st\<lparr>scratch_bytes := map_option (\<lambda>v. v\<lparr>elems := s\<rparr>) (scratch_bytes st)\<rparr>
     | Block k \<Rightarrow> st\<lparr>arena := (arena st)\<lparr>m_blocks := (m_blocks (arena st))[k := (m_blocks (arena st) ! k)\<lparr>block_data := s\<rparr>]\<rparr>\<rparr>)"

definition AllocateOutput :: "('u, 'f) library \<Rightarrow> nat \<Rightarrow> nat \<Rightarrow> ('u, 'f) ParseContext \<Rightarrow> (area \<times> nat) option \<times> ('u, 'f) ParseContext" where
  "AllocateOutput lib tokenStart rawLength ctx =
     (if mutableBase ctx then (Some (Source, tokenStart + 1), ctx)
      else if useScratch ctx
      then (case scratch_bytes (doc ctx) of
              None \<Rightarrow> (None, ctx)
            | Some s \<Rightarrow>
              case Scratch_TryAllocate (platform.truncate lib) rawLength s (env ctx) of (p, s, u) \<Rightarrow>
                (map_option (\<lambda>p. (Scratch, p)) p, ctx\<lparr>doc := (doc ctx)\<lparr>scratch_bytes := Some s\<rparr>, env := u\<rparr>))
      else case Arena_Allocate (platform.truncate lib) rawLength 1 (arena (doc ctx)) (env ctx) of (p, ar, u) \<Rightarrow>
             (map_option (\<lambda>(k, p). (Block k, p)) p, ctx\<lparr>doc := (doc ctx)\<lparr>arena := ar\<rparr>, env := u\<rparr>))"

record ParsedString =
  string_value :: StringRef
  string_span :: SourceSpan

definition ParseString :: "('u, 'f) library \<Rightarrow> ('u, 'f) ParseContext \<Rightarrow> (ParsedString, 'u, 'f) parsed" where
  "ParseString lib ctx =
     (let tokenStart = off ctx
      in if peek ctx \<noteq> CHR 0x22 then failure (MakeError ctx InvalidToken ''Expected JSON string'')
         else let ctx = advance 1 ctx; start = off ctx
              in case ScanString (simd lib) (tx ctx) tokenStart start False of
                Inl p \<Rightarrow> fail_with ctx p
              | Inr (scan, hasEscapes) \<Rightarrow>
                let rawLength = scan - start; ctx = advance (rawLength + 1) ctx;
                    sp = \<lparr>span_source = sourceId (doc ctx), span_begin = tokenStart, span_end = off ctx\<rparr>
                in if \<not> hasEscapes
                   then success \<lparr>string_value = \<lparr>ref_area = Source, ref_data = start, ref_size = rawLength\<rparr>, string_span = sp\<rparr> ctx
                   else if decodedBytes ctx > maxDecodedStringBytes (limits (doc ctx)) \<or>
                           rawLength > maxDecodedStringBytes (limits (doc ctx)) - decodedBytes ctx
                   then failure (MakeErrorAt ctx LimitExceeded ''Decoded JSON string limit exceeded'' tokenStart (span_end sp))
                   else case AllocateOutput lib tokenStart rawLength ctx of
                          (None, ctx) \<Rightarrow> failure (MakeErrorAt ctx OutOfMemory ''JSON string allocation failed'' tokenStart (span_end sp))
                        | (Some (a, output), ctx) \<Rightarrow>
                          case DecodeString (a = Source) (span_end sp) (tx ctx, buffer (doc ctx) a) start (start + rawLength) output of
                            None \<Rightarrow> None
                          | Some (Inl (p, _, out)) \<Rightarrow> fail_with (ctx\<lparr>doc := set_buffer a out (doc ctx)\<rparr>) p
                          | Some (Inr ((_, out), write)) \<Rightarrow>
                            success \<lparr>string_value = \<lparr>ref_area = a, ref_data = output, ref_size = write - output\<rparr>, string_span = sp\<rparr>
                              (ctx\<lparr>doc := set_buffer a out (doc ctx), decodedBytes := decodedBytes ctx + (write - output)\<rparr>))"

section \<open>Nodes\<close>

definition AddNode :: "('u, 'f) library \<Rightarrow> 'f NodeRecord \<Rightarrow> ('u, 'f) ParseContext \<Rightarrow> (NodeId, 'u, 'f) parsed" where
  "AddNode lib node ctx =
     (let st = doc ctx; sp = node_span node
      in if length (elems (nodes st)) \<ge> maxNodes (limits st) \<or> length (elems (nodes st)) \<ge> 2 ^ 32 - 1
         then failure (MakeErrorAt ctx LimitExceeded ''JSON node limit exceeded'' (span_begin sp) (span_end sp))
         else let i = length (elems (nodes st))
              in case vec_push_back (platform.truncate lib) 48 node (nodes st) (env ctx) of
                   None \<Rightarrow> failure (MakeErrorAt ctx OutOfMemory ''JSON node allocation failed'' (span_begin sp) (span_end sp))
                 | Some (v, u) \<Rightarrow>
                   let ctx = ctx\<lparr>doc := st\<lparr>nodes := v\<rparr>, env := u\<rparr>
                   in if \<not> WithinMemoryLimit (doc ctx)
                      then failure (MakeErrorAt ctx LimitExceeded ''JSON memory limit exceeded'' (span_begin sp) (span_end sp))
                      else success i ctx)"

definition mk_node :: "('u, 'f) ParseContext \<Rightarrow> nat \<Rightarrow> ValueKind \<Rightarrow> 'f NodePayload \<Rightarrow> 'f NodeRecord" where
  "mk_node ctx start kind payload =
     \<lparr>node_kind = kind, node_span = \<lparr>span_source = sourceId (doc ctx), span_begin = start, span_end = off ctx\<rparr>, node_payload = payload\<rparr>"

section \<open>Numbers\<close>

function skip_digits :: "string \<Rightarrow> nat \<Rightarrow> nat" where
  "skip_digits t current = (if current < length t \<and> IsDigit (t ! current) then skip_digits t (current + 1) else current)"
  by pat_completeness auto
termination
  by (relation "measure (\<lambda>(t, current). length t - current)") auto

declare skip_digits.simps [simp del]

text \<open>The token from an offset inside of the text: the offset behind it and whether it is floating.\<close>

definition scan_integer :: "string \<Rightarrow> nat \<Rightarrow> problem + nat" where
  "scan_integer t start =
     (let current = (if t ! start = CHR ''-'' then start + 1 else start)
      in if current \<ge> length t then Inl (UnexpectedEnd, ''Truncated JSON number'', start, start)
         else if t ! current = CHR ''0''
         then if current + 1 < length t \<and> IsDigit (t ! (current + 1))
              then Inl (InvalidNumber, ''Leading zero in JSON number'', start, start + (current + 1 - start) + 1)
              else Inr (current + 1)
         else if \<not> IsDigit (t ! current) then Inl (InvalidNumber, ''Invalid JSON number'', start, start)
         else Inr (skip_digits t current))"

definition scan_fraction :: "string \<Rightarrow> nat \<Rightarrow> nat \<Rightarrow> problem + nat \<times> bool" where
  "scan_fraction t start current =
     (if current < length t \<and> t ! current = CHR ''.''
      then if current + 1 \<ge> length t \<or> \<not> IsDigit (t ! (current + 1)) then Inl (InvalidNumber, ''Invalid JSON fraction'', start, start)
           else Inr (skip_digits t (current + 1), True)
      else Inr (current, False))"

definition scan_exponent :: "string \<Rightarrow> nat \<Rightarrow> nat \<Rightarrow> bool \<Rightarrow> problem + nat \<times> bool" where
  "scan_exponent t start current isFloating =
     (if current < length t \<and> (t ! current = CHR ''e'' \<or> t ! current = CHR ''E'')
      then let current = current + 1;
               current = (if current < length t \<and> (t ! current = CHR ''+'' \<or> t ! current = CHR ''-'') then current + 1 else current)
           in if current \<ge> length t \<or> \<not> IsDigit (t ! current) then Inl (InvalidNumber, ''Invalid JSON exponent'', start, start)
              else Inr (skip_digits t current, True)
      else Inr (current, isFloating))"

definition scan_number :: "string \<Rightarrow> nat \<Rightarrow> problem + nat \<times> bool" where
  "scan_number t start =
     (case scan_integer t start of Inl p \<Rightarrow> Inl p
      | Inr current \<Rightarrow>
        case scan_fraction t start current of Inl p \<Rightarrow> Inl p
        | Inr (current, isFloating) \<Rightarrow> scan_exponent t start current isFloating)"

text \<open>\<open>std::from_chars\<close> for \<open>Int64\<close>, on a text that starts with a minus sign, and for \<open>UInt64\<close>.\<close>

definition from_chars_i64 :: "string \<Rightarrow> errc \<times> nat \<times> int" where
  "from_chars_i64 s = (case from_chars 64 10 (tl s) of
     (ec, n, v) \<Rightarrow>
       if ec = invalid_argument then (ec, 0, 0)
       else if ec = result_out_of_range \<or> v > 2 ^ 63 then (result_out_of_range, n + 1, 0)
       else (ErrcNone, n + 1, - int v))"

definition ParseNumber :: "('u, 'f) library \<Rightarrow> ('u, 'f) ParseContext \<Rightarrow> (NodeId, 'u, 'f) parsed" where
  "ParseNumber lib ctx =
     (let startOffset = off ctx
      in case scan_number (tx ctx) startOffset of
        Inl p \<Rightarrow> fail_with ctx p
      | Inr (current, isFloating) \<Rightarrow>
        let token = take (current - startOffset) (drop startOffset (tx ctx)); ctx = advance (current - startOffset) ctx
        in if isFloating
           then (case from_chars_f64 lib token of (ec, n, v) \<Rightarrow>
                   if ec \<noteq> ErrcNone \<or> n \<noteq> length token \<or> \<not> isfinite lib v
                   then failure (MakeErrorAt ctx InvalidNumber ''JSON floating-point value is out of range'' startOffset (off ctx))
                   else AddNode lib (mk_node ctx startOffset KDouble (DoublePayload v)) ctx)
           else if hd token = CHR ''-''
           then (case from_chars_i64 token of (ec, n, v) \<Rightarrow>
                   if ec \<noteq> ErrcNone \<or> n \<noteq> length token
                   then failure (MakeErrorAt ctx InvalidNumber ''JSON signed integer is out of range'' startOffset (off ctx))
                   else AddNode lib (mk_node ctx startOffset KInt64 (SignedPayload v)) ctx)
           else case from_chars 64 10 token of (ec, n, v) \<Rightarrow>
                  if ec \<noteq> ErrcNone \<or> n \<noteq> length token
                  then failure (MakeErrorAt ctx InvalidNumber ''JSON unsigned integer is out of range'' startOffset (off ctx))
                  else if v \<le> 2 ^ 63 - 1 then AddNode lib (mk_node ctx startOffset KInt64 (SignedPayload (int v))) ctx
                  else AddNode lib (mk_node ctx startOffset KUInt64 (UnsignedPayload v)) ctx)"

section \<open>Values\<close>

definition MatchLiteral :: "string \<Rightarrow> ('u, 'f) ParseContext \<Rightarrow> ('u, 'f) ParseContext option" where
  "MatchLiteral literal ctx =
     (let remaining = CursorRemaining (tx ctx) (cursor ctx)
      in if length remaining < length literal then None
         else if take (length literal) remaining \<noteq> literal then None
         else Some (advance (length literal) ctx))"

text \<open>The end of \<open>ParseArray\<close> and of \<open>ParseObject\<close>: the local list is appended to the table of the document.\<close>

definition finish_array :: "('u, 'f) library \<Rightarrow> nat \<Rightarrow> NodeId std_vector \<Rightarrow> ('u, 'f) ParseContext \<Rightarrow> (NodeId, 'u, 'f) parsed" where
  "finish_array lib start values ctx =
     (let ctx = ctx\<lparr>depth := depth ctx - 1\<rparr>; st = doc ctx; n = length (elems values)
      in if length (elems (elements st)) > maxMembers (limits st) \<or> n > maxMembers (limits st) - length (elems (elements st))
         then failure (MakeErrorAt ctx LimitExceeded ''JSON array element limit exceeded'' start (off ctx))
         else case vec_append (platform.truncate lib) 4 (elems values) (elements st) (env ctx) of
                None \<Rightarrow> failure (MakeErrorAt ctx OutOfMemory ''JSON array storage allocation failed'' start (off ctx))
              | Some (v, u) \<Rightarrow> AddNode lib (mk_node ctx start KArray (RangePayload (length (elems (elements st))) n))
                  (ctx\<lparr>doc := st\<lparr>elements := v\<rparr>, env := u\<rparr>))"

definition finish_object :: "('u, 'f) library \<Rightarrow> nat \<Rightarrow> MemberRecord std_vector \<Rightarrow> ('u, 'f) ParseContext \<Rightarrow> (NodeId, 'u, 'f) parsed" where
  "finish_object lib start ms ctx =
     (let ctx = ctx\<lparr>depth := depth ctx - 1\<rparr>; st = doc ctx; n = length (elems ms)
      in if length (elems (members st)) > maxMembers (limits st) \<or> n > maxMembers (limits st) - length (elems (members st))
         then failure (MakeErrorAt ctx LimitExceeded ''JSON object member limit exceeded'' start (off ctx))
         else case vec_append (platform.truncate lib) 48 (elems ms) (members st) (env ctx) of
                None \<Rightarrow> failure (MakeErrorAt ctx OutOfMemory ''JSON object storage allocation failed'' start (off ctx))
              | Some (v, u) \<Rightarrow> AddNode lib (mk_node ctx start KObject (RangePayload (length (elems (members st))) n))
                  (ctx\<lparr>doc := st\<lparr>members := v\<rparr>, env := u\<rparr>))"

text \<open>A member joins the members of its object.\<close>

definition AddMember ::
  "('u, 'f) library \<Rightarrow> SourceSpan \<Rightarrow> MemberRecord \<Rightarrow> MemberRecord std_vector \<Rightarrow> ('u, 'f) ParseContext \<Rightarrow> (MemberRecord std_vector, 'u, 'f) parsed" where
  "AddMember lib keySpan m ms ctx =
     (let st = doc ctx; duplicate = length (takeWhile (\<lambda>x. View st (member_key x) \<noteq> View st (member_key m)) (elems ms));
          push = (case vec_push_back (platform.truncate lib) 48 m ms (env ctx) of
                    None \<Rightarrow> failure (MakeError ctx OutOfMemory ''JSON object allocation failed'')
                  | Some (ms, u) \<Rightarrow> success ms (ctx\<lparr>env := u\<rparr>))
      in if duplicate < length (elems ms)
         then (case duplicateKeys (opts ctx) of
                 RejectDuplicates \<Rightarrow>
                   failure ((MakeErrorAt ctx DuplicateName ''Duplicate JSON object key'' (span_begin keySpan) (span_end keySpan))
                     \<lparr>diag_related := Some (member_span (elems ms ! duplicate))\<rparr>)
               | KeepFirst \<Rightarrow> success ms ctx
               | KeepLast \<Rightarrow> success (ms\<lparr>elems := (elems ms)[duplicate := m]\<rparr>) ctx
               | PreserveDuplicates \<Rightarrow> push)
         else push)"

fun ParseValue :: "('u, 'f) library \<Rightarrow> nat \<Rightarrow> ('u, 'f) ParseContext \<Rightarrow> (NodeId, 'u, 'f) parsed"
  and ParseArray :: "('u, 'f) library \<Rightarrow> nat \<Rightarrow> ('u, 'f) ParseContext \<Rightarrow> (NodeId, 'u, 'f) parsed"
  and array_loop :: "('u, 'f) library \<Rightarrow> nat \<Rightarrow> NodeId std_vector \<Rightarrow> ('u, 'f) ParseContext \<Rightarrow> (NodeId std_vector, 'u, 'f) parsed"
  and ParseObject :: "('u, 'f) library \<Rightarrow> nat \<Rightarrow> ('u, 'f) ParseContext \<Rightarrow> (NodeId, 'u, 'f) parsed"
  and object_loop :: "('u, 'f) library \<Rightarrow> nat \<Rightarrow> MemberRecord std_vector \<Rightarrow> ('u, 'f) ParseContext \<Rightarrow> (MemberRecord std_vector, 'u, 'f) parsed" where
  "ParseValue lib 0 ctx = None"
| "ParseValue lib (Suc fuel) ctx =
     and_then (SkipTrivia ctx) (\<lambda>_ ctx.
       let start = off ctx; token = peek ctx
       in if token = CHR ''{'' then ParseObject lib fuel ctx
          else if token = CHR ''['' then ParseArray lib fuel ctx
          else if token = CHR 0x22
          then and_then (ParseString lib ctx) (\<lambda>s ctx.
                 AddNode lib \<lparr>node_kind = KString, node_span = string_span s, node_payload = StringPayload (string_value s)\<rparr> ctx)
          else if token = CHR ''-'' \<or> IsDigit token then ParseNumber lib ctx
          else case (if token = CHR ''n'' then map_option (\<lambda>ctx. (KNull, NoPayload, ctx)) (MatchLiteral ''null'' ctx)
                     else if token = CHR ''t'' then map_option (\<lambda>ctx. (KBool, BoolPayload True, ctx)) (MatchLiteral ''true'' ctx)
                     else if token = CHR ''f'' then map_option (\<lambda>ctx. (KBool, BoolPayload False, ctx)) (MatchLiteral ''false'' ctx)
                     else None) of
                 Some (kind, payload, ctx) \<Rightarrow> AddNode lib (mk_node ctx start kind payload) ctx
               | None \<Rightarrow>
                 failure (MakeErrorAt ctx (if IsEof (tx ctx) (cursor ctx) then UnexpectedEnd else UnexpectedCharacter)
                   (if IsEof (tx ctx) (cursor ctx) then ''Expected JSON value'' else ''Unexpected JSON token'') start (min (start + 1) (length (tx ctx)))))"
| "ParseArray lib 0 ctx = None"
| "ParseArray lib (Suc fuel) ctx =
     (let start = off ctx
      in if depth ctx \<ge> maxDepth (limits (doc ctx)) then failure (MakeError ctx DepthExceeded ''JSON depth limit exceeded'')
         else and_then (SkipTrivia (advance 1 (ctx\<lparr>depth := depth ctx + 1\<rparr>))) (\<lambda>_ ctx.
                if peek ctx = CHR '']'' then finish_array lib start vec_empty (advance 1 ctx)
                else and_then (array_loop lib fuel vec_empty ctx) (finish_array lib start)))"
| "array_loop lib 0 values ctx = None"
| "array_loop lib (Suc fuel) values ctx =
     and_then (ParseValue lib fuel ctx) (\<lambda>v ctx.
       case vec_push_back (platform.truncate lib) 4 v values (env ctx) of
         None \<Rightarrow> failure (MakeError ctx OutOfMemory ''JSON array allocation failed'')
       | Some (values, u) \<Rightarrow>
         and_then (SkipTrivia (ctx\<lparr>env := u\<rparr>)) (\<lambda>_ ctx.
           if peek ctx = CHR '']'' then success values (advance 1 ctx)
           else if peek ctx \<noteq> CHR '','' then failure (MakeError ctx UnexpectedCharacter ''Expected ',' or ']' in JSON array'')
           else and_then (SkipTrivia (advance 1 ctx)) (\<lambda>_ ctx.
                  if peek ctx = CHR '']''
                  then if trailingCommas (opts ctx) = RejectTrailing then failure (MakeError ctx InvalidToken ''Trailing comma in JSON array'')
                       else success values (advance 1 ctx)
                  else array_loop lib fuel values ctx)))"
| "ParseObject lib 0 ctx = None"
| "ParseObject lib (Suc fuel) ctx =
     (let start = off ctx
      in if depth ctx \<ge> maxDepth (limits (doc ctx)) then failure (MakeError ctx DepthExceeded ''JSON depth limit exceeded'')
         else and_then (SkipTrivia (advance 1 (ctx\<lparr>depth := depth ctx + 1\<rparr>))) (\<lambda>_ ctx.
                if peek ctx = CHR ''}'' then finish_object lib start vec_empty (advance 1 ctx)
                else and_then (object_loop lib fuel vec_empty ctx) (finish_object lib start)))"
| "object_loop lib 0 ms ctx = None"
| "object_loop lib (Suc fuel) ms ctx =
     and_then (ParseString lib ctx) (\<lambda>key ctx.
     and_then (SkipTrivia ctx) (\<lambda>_ ctx.
       if peek ctx \<noteq> CHR '':'' then failure (MakeError ctx UnexpectedCharacter ''Expected ':' after JSON key'')
       else and_then (SkipTrivia (advance 1 ctx)) (\<lambda>_ ctx.
            and_then (ParseValue lib fuel ctx) (\<lambda>v ctx.
              case NodeAt (doc ctx) v of
                None \<Rightarrow> None
              | Some n \<Rightarrow>
                let m = \<lparr>member_key = string_value key, member_value = v,
                         member_span = \<lparr>span_source = sourceId (doc ctx), span_begin = span_begin (string_span key), span_end = span_end (node_span n)\<rparr>\<rparr>
                in and_then (AddMember lib (string_span key) m ms ctx) (\<lambda>ms ctx.
                   and_then (SkipTrivia ctx) (\<lambda>_ ctx.
                     if peek ctx = CHR ''}'' then success ms (advance 1 ctx)
                     else if peek ctx \<noteq> CHR '','' then failure (MakeError ctx UnexpectedCharacter ''Expected ',' or '}' in JSON object'')
                     else and_then (SkipTrivia (advance 1 ctx)) (\<lambda>_ ctx.
                            if peek ctx = CHR ''}''
                            then if trailingCommas (opts ctx) = RejectTrailing then failure (MakeError ctx InvalidToken ''Trailing comma in JSON object'')
                                 else success ms (advance 1 ctx)
                            else object_loop lib fuel ms ctx)))))))"

section \<open>Documents\<close>

text \<open>What a call that may throw \<open>std::bad_alloc\<close> comes to.\<close>

datatype 'a attempt = Returned 'a | BadAlloc

text \<open>Nested calls that are enough for a text of \<open>n\<close> characters.\<close>

definition json_fuel :: "nat \<Rightarrow> nat" where
  "json_fuel n = 3 * n + 4"

definition context_make :: "ParseOptions \<Rightarrow> bool \<Rightarrow> bool \<Rightarrow> 'f DocumentState \<Rightarrow> 'u \<Rightarrow> ('u, 'f) ParseContext" where
  "context_make options inSitu scr st u =
     \<lparr>cursor = InputCursor_make False, opts = options, doc = st, mutableBase = inSitu, useScratch = scr, depth = 0, decodedBytes = 0, env = u\<rparr>"

definition ParseState ::
  "('u, 'f) library \<Rightarrow> ParseOptions \<Rightarrow> bool \<Rightarrow> bool \<Rightarrow> 'f DocumentState \<Rightarrow> 'u \<Rightarrow> (ParseDiagnostic + 'f DocumentState) attempt option" where
  "ParseState lib options inSitu scr st u =
     (let ctx = context_make options inSitu scr st u
      in if length (source_text st) > maxInputBytes (limits st)
         then Some (Returned (Inl (MakeErrorAt ctx LimitExceeded ''JSON input byte limit exceeded'' 0 (length (source_text st)))))
         else do { valid \<leftarrow> (if utf8 options = ValidateUtf8 then IsValidUtf8 (bytes_of (source_text st)) else Some True);
           if \<not> valid
           then Some (Returned (Inl (MakeErrorAt ctx InvalidEncoding ''JSON input is not valid UTF-8'' 0 (length (source_text st)))))
           else do { r \<leftarrow> and_then (ParseValue lib (json_fuel (length (source_text st))) ctx) (\<lambda>v ctx.
                       and_then (SkipTrivia (ctx\<lparr>doc := (doc ctx)\<lparr>root := v\<rparr>\<rparr>)) (\<lambda>_ ctx.
                         if \<not> IsEof (tx ctx) (cursor ctx)
                         then failure (MakeError ctx TrailingCharacters ''Trailing characters after JSON value'')
                         else success () ctx));
             case r of
               Inl e \<Rightarrow> Some (Returned (Inl e))
             | Inr (_, ctx) \<Rightarrow>
               (case FinalizeViews (platform.truncate lib) (doc ctx) (env ctx) of
                  None \<Rightarrow> Some BadAlloc
                | Some (st, u) \<Rightarrow>
                  if \<not> WithinMemoryLimit st
                  then Some (Returned (Inl (MakeErrorAt ctx LimitExceeded ''JSON total memory limit exceeded'' 0 (length (source_text st)))))
                  else Some (Returned (Inr st))) } })"

definition out_of_memory :: "string \<Rightarrow> ParseDiagnostic" where
  "out_of_memory message =
     \<lparr>diag_code = OutOfMemory, diag_location = \<lparr>loc_source = 0, loc_offset = 0, loc_line = 0, loc_column = 0\<rparr>,
      diag_span = \<lparr>span_source = 0, span_begin = 0, span_end = 0\<rparr>, diag_related = None, diag_message = message\<rparr>"

definition attempt_or :: "string \<Rightarrow> (ParseDiagnostic + 'f DocumentState) attempt option \<Rightarrow> (ParseDiagnostic + 'f DocumentState) option" where
  "attempt_or message r = (case r of None \<Rightarrow> None | Some BadAlloc \<Rightarrow> Some (Inl (out_of_memory message)) | Some (Returned x) \<Rightarrow> Some x)"

definition Parse ::
  "('u, 'f) library \<Rightarrow> string \<Rightarrow> nat \<Rightarrow> ParseOptions \<Rightarrow> ParseLimits \<Rightarrow> nat \<Rightarrow> 'u \<Rightarrow> (ParseDiagnostic + 'f DocumentState) option" where
  "Parse lib input sid options lim initialBlock u =
     attempt_or ''Failed to allocate JSON document''
       (case operator_new lib (sizeof_DocumentState lib) u of
          None \<Rightarrow> Some BadAlloc
        | Some u \<Rightarrow> ParseState lib options False False (DocumentState_make True input sid None lim initialBlock) u)"

definition ParseInSitu ::
  "('u, 'f) library \<Rightarrow> string \<Rightarrow> nat \<Rightarrow> ParseOptions \<Rightarrow> ParseLimits \<Rightarrow> nat \<Rightarrow> 'u \<Rightarrow> (ParseDiagnostic + 'f DocumentState) option" where
  "ParseInSitu lib input sid options lim initialBlock u =
     attempt_or ''Failed to allocate in-situ JSON document''
       (case operator_new lib (sizeof_DocumentState lib) u of
          None \<Rightarrow> Some BadAlloc
        | Some u \<Rightarrow> ParseState lib options True False (DocumentState_make True input sid None lim initialBlock) u)"

definition ParseBorrowed ::
  "('u, 'f) library \<Rightarrow> string \<Rightarrow> nat \<Rightarrow> ParseScratch \<Rightarrow> ParseOptions \<Rightarrow> ParseLimits \<Rightarrow> nat \<Rightarrow> 'u \<Rightarrow> (ParseDiagnostic + 'f DocumentState) option" where
  "ParseBorrowed lib input sid scr options lim initialBlock u =
     attempt_or ''Failed to allocate borrowed JSON document''
       (case vec_reserve (platform.truncate lib) 1 (length input) (Scratch_Reset scr) u of
          None \<Rightarrow> Some BadAlloc
        | Some (scr, u) \<Rightarrow>
          (case operator_new lib (sizeof_DocumentState lib) u of
             None \<Rightarrow> Some BadAlloc
           | Some u \<Rightarrow> ParseState lib options False True (DocumentState_make False input sid (Some scr) lim initialBlock) u))"

end
