(* ===== verification/JSON_Grammar.thy ===== *)
theory JSON_Grammar
  imports JSON_Parser Text_Unicode_Props
begin

text \<open>
  The language the JSON parser accepts, as relations between texts and values: white space and comments, strings with their escapes, numbers, and by mutual induction
  values, the elements of an array and the members of an object. The options decide about comments, trailing commas and repeated keys; the library
  about which floating-point texts have a value.
\<close>

section \<open>Trivia\<close>

text \<open>The text of a block comment up to its first terminator.\<close>

definition closed_first :: "string \<Rightarrow> bool" where
  "closed_first b \<longleftrightarrow> (\<forall>x y. b @ ''*'' \<noteq> x @ ''*/'' @ y)"

inductive trivia :: "CommentPolicy \<Rightarrow> string \<Rightarrow> bool" for p where
  trivia_nil: "trivia p []"
| trivia_space: "is_space c \<Longrightarrow> trivia p t \<Longrightarrow> trivia p (c # t)"
| trivia_line: "p = AllowComments \<Longrightarrow> CR \<notin> set b \<Longrightarrow> LF \<notin> set b \<Longrightarrow> e = CR \<or> e = LF \<Longrightarrow> trivia p (e # t) \<Longrightarrow> trivia p (''//'' @ b @ e # t)"
| trivia_block: "p = AllowComments \<Longrightarrow> closed_first b \<Longrightarrow> trivia p t \<Longrightarrow> trivia p (''/*'' @ b @ ''*/'' @ t)"

text \<open>At the end of the text a line comment needs no line end.\<close>

definition last_trivia :: "CommentPolicy \<Rightarrow> string \<Rightarrow> bool" where
  "last_trivia p t \<longleftrightarrow> trivia p t \<or> p = AllowComments \<and> (\<exists>u b. trivia p u \<and> CR \<notin> set b \<and> LF \<notin> set b \<and> t = u @ ''//'' @ b)"

section \<open>Strings\<close>

text \<open>The value of four hexadecimal digits.\<close>

definition hex4 :: "string \<Rightarrow> nat" where
  "hex4 h = foldl (\<lambda>v c. v * 16 + HexValue c) 0 h"

inductive chars_text :: "string \<Rightarrow> string \<Rightarrow> bool" where
  chars_nil: "chars_text [] []"
| chars_plain: "c \<noteq> CHR 0x22 \<Longrightarrow> c \<noteq> CHR 0x5C \<Longrightarrow> 0x20 \<le> ord c \<Longrightarrow> chars_text t s \<Longrightarrow> chars_text (c # t) (c # s)"
| chars_escape: "simple_escape e = Some c \<Longrightarrow> chars_text t s \<Longrightarrow> chars_text (CHR 0x5C # e # t) (c # s)"
| chars_unicode: "length h = 4 \<Longrightarrow> list_all IsHexDigit h \<Longrightarrow> \<not> (0xD800 \<le> hex4 h \<and> hex4 h \<le> 0xDFFF) \<Longrightarrow> chars_text t s \<Longrightarrow>
    chars_text (CHR 0x5C # CHR ''u'' # h @ t) (chars_of (put8 (hex4 h)) @ s)"
| chars_pair: "length h = 4 \<Longrightarrow> list_all IsHexDigit h \<Longrightarrow> 0xD800 \<le> hex4 h \<Longrightarrow> hex4 h \<le> 0xDBFF \<Longrightarrow>
    length l = 4 \<Longrightarrow> list_all IsHexDigit l \<Longrightarrow> 0xDC00 \<le> hex4 l \<Longrightarrow> hex4 l \<le> 0xDFFF \<Longrightarrow> chars_text t s \<Longrightarrow>
    chars_text (CHR 0x5C # CHR ''u'' # h @ CHR 0x5C # CHR ''u'' # l @ t)
      (chars_of (put8 (0x10000 + (hex4 h - 0xD800) * 0x400 + (hex4 l - 0xDC00))) @ s)"

section \<open>Numbers\<close>

definition digits :: "string \<Rightarrow> bool" where
  "digits d \<longleftrightarrow> d \<noteq> [] \<and> list_all IsDigit d"

definition natural_text :: "string \<Rightarrow> bool" where
  "natural_text d \<longleftrightarrow> d = ''0'' \<or> digits d \<and> hd d \<noteq> CHR ''0''"

definition integer_text :: "string \<Rightarrow> bool" where
  "integer_text i \<longleftrightarrow> natural_text i \<or> (\<exists>d. i = CHR ''-'' # d \<and> natural_text d)"

definition fraction_text :: "string \<Rightarrow> bool" where
  "fraction_text f \<longleftrightarrow> f = [] \<or> (\<exists>d. f = CHR ''.'' # d \<and> digits d)"

definition exponent_text :: "string \<Rightarrow> bool" where
  "exponent_text x \<longleftrightarrow> x = [] \<or> (\<exists>e sign d. x = e # sign @ d \<and> e \<in> {CHR ''e'', CHR ''E''} \<and> sign \<in> {[], ''+'', ''-''} \<and> digits d)"

text \<open>The token, and whether it has a fraction or an exponent.\<close>

definition number_text :: "string \<Rightarrow> bool \<Rightarrow> bool" where
  "number_text s fl \<longleftrightarrow> (\<exists>i f x. s = i @ f @ x \<and> integer_text i \<and> fraction_text f \<and> exponent_text x \<and> fl = (f \<noteq> [] \<or> x \<noteq> []))"

definition decimal :: "string \<Rightarrow> nat" where
  "decimal d = foldl (\<lambda>v c. v * 10 + (ord c - ord (CHR ''0''))) 0 d"

definition number_value :: "('u, 'f) library \<Rightarrow> string \<Rightarrow> 'f json \<Rightarrow> bool" where
  "number_value lib s v \<longleftrightarrow>
     (number_text s True \<and> (\<exists>x. v = JDouble x \<and> from_chars_f64 lib s = (ErrcNone, length s, x) \<and> isfinite lib x)) \<or>
     (number_text s False \<and> (if hd s = CHR ''-'' then decimal (tl s) \<le> 2 ^ 63 \<and> v = JInt (- int (decimal (tl s)))
                             else decimal s < 2 ^ 64 \<and> v = JInt (int (decimal s))))"

section \<open>Values\<close>

text \<open>The members of an object under the policy for repeated keys.\<close>

definition add_member :: "DuplicateKeyPolicy \<Rightarrow> (string \<times> 'v) list \<Rightarrow> string \<times> 'v \<Rightarrow> (string \<times> 'v) list option" where
  "add_member p ms kv =
     (let i = length (takeWhile (\<lambda>m. fst m \<noteq> fst kv) ms)
      in if i < length ms
         then (case p of RejectDuplicates \<Rightarrow> None | PreserveDuplicates \<Rightarrow> Some (ms @ [kv]) | KeepFirst \<Rightarrow> Some ms | KeepLast \<Rightarrow> Some (ms[i := kv]))
         else Some (ms @ [kv]))"

fun merge_members :: "DuplicateKeyPolicy \<Rightarrow> (string \<times> 'v) list \<Rightarrow> (string \<times> 'v) list \<Rightarrow> (string \<times> 'v) list option" where
  "merge_members p ms [] = Some ms"
| "merge_members p ms (kv # kvs) = (case add_member p ms kv of None \<Rightarrow> None | Some ms \<Rightarrow> merge_members p ms kvs)"

text \<open>The elements and members are taken with the closing bracket.\<close>

inductive value_text :: "('u, 'f) library \<Rightarrow> ParseOptions \<Rightarrow> string \<Rightarrow> 'f json \<Rightarrow> bool"
  and elements_text :: "('u, 'f) library \<Rightarrow> ParseOptions \<Rightarrow> string \<Rightarrow> 'f json list \<Rightarrow> bool"
  and members_text :: "('u, 'f) library \<Rightarrow> ParseOptions \<Rightarrow> string \<Rightarrow> (string \<times> 'f json) list \<Rightarrow> bool"
  for lib op where
  text_null: "value_text lib op ''null'' JNull"
| text_true: "value_text lib op ''true'' (JBool True)"
| text_false: "value_text lib op ''false'' (JBool False)"
| text_number: "number_value lib s v \<Longrightarrow> value_text lib op s v"
| text_string: "chars_text t s \<Longrightarrow> value_text lib op (CHR 0x22 # t @ [CHR 0x22]) (JString s)"
| text_array_empty: "trivia (comments op) t \<Longrightarrow> value_text lib op (CHR ''['' # t @ '']'') (JArray [])"
| text_array: "trivia (comments op) t \<Longrightarrow> elements_text lib op es vs \<Longrightarrow> value_text lib op (CHR ''['' # t @ es) (JArray vs)"
| text_object_empty: "trivia (comments op) t \<Longrightarrow> value_text lib op (CHR ''{'' # t @ ''}'') (JObject [])"
| text_object: "trivia (comments op) t \<Longrightarrow> members_text lib op ms kvs \<Longrightarrow> merge_members (duplicateKeys op) [] kvs = Some obj \<Longrightarrow>
    value_text lib op (CHR ''{'' # t @ ms) (JObject obj)"
| elements_last: "value_text lib op s v \<Longrightarrow> trivia (comments op) t \<Longrightarrow> elements_text lib op (s @ t @ '']'') [v]"
| elements_trailing: "trailingCommas op = AllowTrailing \<Longrightarrow> value_text lib op s v \<Longrightarrow> trivia (comments op) t \<Longrightarrow> trivia (comments op) t' \<Longrightarrow>
    elements_text lib op (s @ t @ '','' @ t' @ '']'') [v]"
| elements_more: "value_text lib op s v \<Longrightarrow> trivia (comments op) t \<Longrightarrow> trivia (comments op) t' \<Longrightarrow> elements_text lib op es vs \<Longrightarrow>
    elements_text lib op (s @ t @ '','' @ t' @ es) (v # vs)"
| members_last: "chars_text k key \<Longrightarrow> trivia (comments op) t1 \<Longrightarrow> trivia (comments op) t2 \<Longrightarrow> value_text lib op s v \<Longrightarrow> trivia (comments op) t \<Longrightarrow>
    members_text lib op (CHR 0x22 # k @ CHR 0x22 # t1 @ '':'' @ t2 @ s @ t @ ''}'') [(key, v)]"
| members_trailing: "trailingCommas op = AllowTrailing \<Longrightarrow> chars_text k key \<Longrightarrow> trivia (comments op) t1 \<Longrightarrow> trivia (comments op) t2 \<Longrightarrow>
    value_text lib op s v \<Longrightarrow> trivia (comments op) t \<Longrightarrow> trivia (comments op) t' \<Longrightarrow>
    members_text lib op (CHR 0x22 # k @ CHR 0x22 # t1 @ '':'' @ t2 @ s @ t @ '','' @ t' @ ''}'') [(key, v)]"
| members_more: "chars_text k key \<Longrightarrow> trivia (comments op) t1 \<Longrightarrow> trivia (comments op) t2 \<Longrightarrow> value_text lib op s v \<Longrightarrow> trivia (comments op) t \<Longrightarrow>
    trivia (comments op) t' \<Longrightarrow> members_text lib op ms kvs \<Longrightarrow>
    members_text lib op (CHR 0x22 # k @ CHR 0x22 # t1 @ '':'' @ t2 @ s @ t @ '','' @ t' @ ms) ((key, v) # kvs)"

definition utf8_text :: "string \<Rightarrow> bool" where
  "utf8_text s \<longleftrightarrow> (\<exists>cps. list_all IsValidCodePoint cps \<and> bytes_of s = concat (map put8 cps))"

definition json_document :: "('u, 'f) library \<Rightarrow> ParseOptions \<Rightarrow> string \<Rightarrow> 'f json \<Rightarrow> bool" where
  "json_document lib op s v \<longleftrightarrow> (utf8 op = ValidateUtf8 \<longrightarrow> utf8_text s) \<and>
     (\<exists>t u t'. s = t @ u @ t' \<and> trivia (comments op) t \<and> value_text lib op u v \<and> last_trivia (comments op) t')"

end
