(* ===== verification/JSON_Writer.thy ===== *)
theory JSON_Writer
  imports JSON_Grammar "HOL-Library.List_Lexorder"
begin

text \<open>
  The writer of \<^verbatim>\<open>src/src/NGIN/Serialization/JSON/JsonWriter.cpp\<close>, over the views of a document. A call changes the context with the output, or stops: \<open>Refused\<close> is the
  result \<open>false\<close>, \<open>Failed\<close> a diagnostic, \<open>Threw\<close> the exception \<open>std::bad_alloc\<close>, \<open>Stuck\<close> an access outside of a buffer, an empty optional or more nested calls than the number
  given. Memory of strings and vectors and the text of floating-point numbers come from the standard library, \<open>output_library\<close>; the messages of diagnostics are
  taken to be there.
\<close>

section \<open>Definitions\<close>

datatype WriteErrorCode = InvalidValue | NonFiniteNumber | WriteDepthExceeded | OutputLimitExceeded | WriteOutOfMemory

record WriteDiagnostic =
  write_code :: WriteErrorCode
  write_message :: string

record WriteOptions =
  pretty :: bool
  sortObjectKeys :: bool
  indentWidth :: nat
  maxWriteDepth :: nat
  maxOutputBytes :: nat

definition default_write :: WriteOptions where
  "default_write = \<lparr>pretty = False, sortObjectKeys = False, indentWidth = 2, maxWriteDepth = 256, maxOutputBytes = 64 * 1024 * 1024\<rparr>"

record ('u, 'f) output_library =
  string_grow :: "nat \<Rightarrow> 'u \<Rightarrow> 'u option"
  vector_memory :: "nat \<Rightarrow> 'u \<Rightarrow> 'u option"
  to_chars_f64 :: "'f \<Rightarrow> string option"
  finite_f64 :: "'f \<Rightarrow> bool"
  f64_of_int :: "int \<Rightarrow> 'f"

record 'u WriteContext =
  written :: string
  write_options :: WriteOptions
  write_env :: 'u

datatype 'c step = Done 'c | Refused | Failed WriteDiagnostic | Threw | Stuck

definition and_also :: "'c step \<Rightarrow> ('c \<Rightarrow> 'c step) \<Rightarrow> 'c step" where
  "and_also m f = (case m of Done c \<Rightarrow> f c | Refused \<Rightarrow> Refused | Failed e \<Rightarrow> Failed e | Threw \<Rightarrow> Threw | Stuck \<Rightarrow> Stuck)"

definition write_failure :: "WriteErrorCode \<Rightarrow> string \<Rightarrow> 'c step" where
  "write_failure code message = Failed \<lparr>write_code = code, write_message = message\<rparr>"

text \<open>The test of a call that returns a \<open>bool\<close>.\<close>

definition or_limit :: "'c step \<Rightarrow> 'c step" where
  "or_limit m = (case m of Refused \<Rightarrow> write_failure OutputLimitExceeded ''JSON output limit exceeded'' | _ \<Rightarrow> m)"

definition Append :: "('u, 'f) output_library \<Rightarrow> string \<Rightarrow> 'u WriteContext \<Rightarrow> 'u WriteContext step" where
  "Append lib s ctx =
     (if length (written ctx) > maxOutputBytes (write_options ctx) \<or> length s > maxOutputBytes (write_options ctx) - length (written ctx) then Refused
      else case string_grow lib (length (written ctx) + length s) (write_env ctx) of
             None \<Rightarrow> Threw
           | Some u \<Rightarrow> Done (ctx\<lparr>written := written ctx @ s, write_env := u\<rparr>))"

definition AppendIndent :: "('u, 'f) output_library \<Rightarrow> nat \<Rightarrow> 'u WriteContext \<Rightarrow> 'u WriteContext step" where
  "AppendIndent lib level ctx =
     (if \<not> pretty (write_options ctx) then Done ctx
      else and_also (Append lib [LF] ctx) (\<lambda>ctx.
        let op = write_options ctx
        in if indentWidth op \<noteq> 0 \<and> level > maxOutputBytes op div indentWidth op then Refused
           else let count = level * indentWidth op
                in if count > maxOutputBytes op - length (written ctx) then Refused
                   else case string_grow lib (length (written ctx) + count) (write_env ctx) of
                          None \<Rightarrow> Threw
                        | Some u \<Rightarrow> Done (ctx\<lparr>written := written ctx @ replicate count (CHR '' ''), write_env := u\<rparr>)))"

definition short_escape :: "char \<Rightarrow> string" where
  "short_escape c =
     (if c = CHR 0x22 then [CHR 0x5C, CHR 0x22] else if c = CHR 0x5C then [CHR 0x5C, CHR 0x5C] else if c = CHR 0x08 then [CHR 0x5C, CHR ''b'']
      else if c = CHR 0x0C then [CHR 0x5C, CHR ''f''] else if c = LF then [CHR 0x5C, CHR ''n''] else if c = CR then [CHR 0x5C, CHR ''r'']
      else if c = TAB then [CHR 0x5C, CHR ''t''] else [])"

definition encoded_byte :: "char \<Rightarrow> string" where
  "encoded_byte c = [CHR 0x5C, CHR ''u'', CHR ''0'', CHR ''0'', ''0123456789abcdef'' ! (ord c div 16), ''0123456789abcdef'' ! (ord c mod 16)]"

text \<open>The loop over the characters: what is before \<open>runStart\<close> is written.\<close>

function escape_loop :: "('u, 'f) output_library \<Rightarrow> string \<Rightarrow> nat \<Rightarrow> nat \<Rightarrow> 'u WriteContext \<Rightarrow> 'u WriteContext step" where
  "escape_loop lib value index runStart ctx =
     (if index < length value
      then let c = value ! index
           in if short_escape c \<noteq> [] \<or> ord c < 0x20
              then and_also (Append lib (take (index - runStart) (drop runStart value)) ctx) (\<lambda>ctx.
                     and_also (Append lib (if short_escape c \<noteq> [] then short_escape c else encoded_byte c) ctx) (escape_loop lib value (index + 1) (index + 1)))
              else escape_loop lib value (index + 1) runStart ctx
      else and_also (Append lib (drop runStart value) ctx) (Append lib [CHR 0x22]))"
  by pat_completeness auto
termination
  by (relation "measure (\<lambda>(lib, value, index, runStart, ctx). length value - index)") auto

declare escape_loop.simps [simp del]

definition AppendEscaped :: "('u, 'f) output_library \<Rightarrow> string \<Rightarrow> 'u WriteContext \<Rightarrow> 'u WriteContext step" where
  "AppendEscaped lib value ctx = (case IsValidUtf8 (bytes_of value) of
       None \<Rightarrow> Stuck
     | Some valid \<Rightarrow> if \<not> valid then Refused else and_also (Append lib [CHR 0x22] ctx) (escape_loop lib value 0 0))"

definition int_chars :: "int \<Rightarrow> string" where
  "int_chars k = (if k < 0 then CHR ''-'' # to_chars 10 (nat (- k)) else to_chars 10 (nat k))"

text \<open>The members in the order they are written: \<open>std::stable_sort\<close> by the bytes of the keys.\<close>

definition collect_members :: "'f DocumentState \<Rightarrow> WriteOptions \<Rightarrow> nat \<times> nat \<Rightarrow> nat list" where
  "collect_members st op r =
     (let ms = (if Object_IsValid st r then [fst r..<fst r + snd r] else [])
      in if sortObjectKeys op then sort_key (\<lambda>m. map (\<lambda>c. ord c) (Member_Key st m)) ms else ms)"

definition reserve_members :: "('u, 'f) output_library \<Rightarrow> nat \<Rightarrow> 'u WriteContext \<Rightarrow> 'u WriteContext step" where
  "reserve_members lib n ctx =
     (if n = 0 then Done ctx
      else case vector_memory lib (n * 16) (write_env ctx) of
             None \<Rightarrow> write_failure WriteOutOfMemory ''JSON writer allocation failed''
           | Some u \<Rightarrow> Done (ctx\<lparr>write_env := u\<rparr>))"

text \<open>The tests at the start of \<open>WriteValue\<close>, and the values that are no containers.\<close>

definition check_value :: "'f DocumentState \<Rightarrow> NodeId \<Rightarrow> nat \<Rightarrow> 'u WriteContext \<Rightarrow> 'u WriteContext step" where
  "check_value st i level ctx =
     (if \<not> Value_IsValid st i then write_failure InvalidValue ''Cannot write an invalid JSON value''
      else if level > maxWriteDepth (write_options ctx) then write_failure WriteDepthExceeded ''JSON writer depth limit exceeded''
      else Done ctx)"

definition write_scalar :: "('u, 'f) output_library \<Rightarrow> 'f DocumentState \<Rightarrow> NodeId \<Rightarrow> 'u WriteContext \<Rightarrow> 'u WriteContext step" where
  "write_scalar lib st i ctx = (case Kind st i of
       KNull \<Rightarrow> or_limit (Append lib ''null'' ctx)
     | KBool \<Rightarrow> (case TryBool st i of None \<Rightarrow> Stuck | Some b \<Rightarrow> or_limit (Append lib (if b then ''true'' else ''false'') ctx))
     | KInt64 \<Rightarrow> (case TryInt64 st i of None \<Rightarrow> Stuck | Some k \<Rightarrow> or_limit (Append lib (int_chars k) ctx))
     | KUInt64 \<Rightarrow> (case TryUInt64 st i of None \<Rightarrow> Stuck | Some k \<Rightarrow> or_limit (Append lib (to_chars 10 k) ctx))
     | KDouble \<Rightarrow> (case TryDouble (f64_of_int lib) st i of None \<Rightarrow> Stuck
         | Some x \<Rightarrow>
           if \<not> finite_f64 lib x then write_failure NonFiniteNumber ''JSON cannot represent a non-finite number''
           else case to_chars_f64 lib x of
                  None \<Rightarrow> write_failure OutputLimitExceeded ''JSON output limit exceeded''
                | Some s \<Rightarrow> or_limit (Append lib s ctx))
     | KString \<Rightarrow> (case TryString st i of None \<Rightarrow> Stuck | Some s \<Rightarrow> or_limit (AppendEscaped lib s ctx))
     | _ \<Rightarrow> Stuck)"

text \<open>A separator in front of every item but the first, and the key of a member.\<close>

definition write_comma :: "('u, 'f) output_library \<Rightarrow> nat \<Rightarrow> 'u WriteContext \<Rightarrow> 'u WriteContext step" where
  "write_comma lib index ctx = (if index \<noteq> 0 then or_limit (Append lib '','' ctx) else Done ctx)"

definition write_key :: "('u, 'f) output_library \<Rightarrow> string \<Rightarrow> nat \<Rightarrow> 'u WriteContext \<Rightarrow> 'u WriteContext step" where
  "write_key lib key level ctx =
     or_limit (and_also (AppendIndent lib level ctx) (\<lambda>ctx.
       and_also (AppendEscaped lib key ctx) (\<lambda>ctx. Append lib (if pretty (write_options ctx) then '': '' else '':'') ctx)))"

text \<open>What ends an array or object.\<close>

definition write_close :: "('u, 'f) output_library \<Rightarrow> bool \<Rightarrow> nat \<Rightarrow> string \<Rightarrow> 'u WriteContext \<Rightarrow> 'u WriteContext step" where
  "write_close lib none level close ctx =
     and_also (if \<not> none then or_limit (AppendIndent lib level ctx) else Done ctx) (\<lambda>ctx. or_limit (Append lib close ctx))"

text \<open>The loops, with the call that writes a value.\<close>

fun write_elements :: "('u, 'f) output_library \<Rightarrow> 'f DocumentState \<Rightarrow> (NodeId \<Rightarrow> nat \<Rightarrow> 'u WriteContext \<Rightarrow> 'u WriteContext step) \<Rightarrow> nat \<times> nat \<Rightarrow> nat list \<Rightarrow> nat \<Rightarrow>
    'u WriteContext \<Rightarrow> 'u WriteContext step" where
  "write_elements lib st write r [] level ctx = Done ctx"
| "write_elements lib st write r (index # rest) level ctx =
     and_also (write_comma lib index ctx) (\<lambda>ctx.
     and_also (or_limit (AppendIndent lib (level + 1) ctx)) (\<lambda>ctx.
     and_also (write (Array_index st r index) (level + 1) ctx) (write_elements lib st write r rest level)))"

fun write_members :: "('u, 'f) output_library \<Rightarrow> 'f DocumentState \<Rightarrow> (NodeId \<Rightarrow> nat \<Rightarrow> 'u WriteContext \<Rightarrow> 'u WriteContext step) \<Rightarrow> nat list \<Rightarrow> nat \<Rightarrow> nat \<Rightarrow>
    'u WriteContext \<Rightarrow> 'u WriteContext step" where
  "write_members lib st write [] index level ctx = Done ctx"
| "write_members lib st write (m # rest) index level ctx =
     and_also (write_comma lib index ctx) (\<lambda>ctx.
     and_also (write_key lib (Member_Key st m) (level + 1) ctx) (\<lambda>ctx.
     and_also (write (Member_Value st m) (level + 1) ctx) (write_members lib st write rest (index + 1) level)))"

primrec WriteValue :: "('u, 'f) output_library \<Rightarrow> 'f DocumentState \<Rightarrow> nat \<Rightarrow> NodeId \<Rightarrow> nat \<Rightarrow> 'u WriteContext \<Rightarrow> 'u WriteContext step" where
  "WriteValue lib st 0 = (\<lambda>i level ctx. Stuck)"
| "WriteValue lib st (Suc fuel) = (\<lambda>i level ctx.
     and_also (check_value st i level ctx) (\<lambda>ctx.
       if Kind st i = KArray
       then (case TryArray st i of None \<Rightarrow> Stuck
         | Some r \<Rightarrow>
           and_also (or_limit (Append lib ''['' ctx)) (\<lambda>ctx.
           and_also (write_elements lib st (WriteValue lib st fuel) r [0..<Array_Size st r] level ctx) (write_close lib (Array_Size st r = 0) level '']'')))
       else if Kind st i = KObject
       then (case TryObject st i of None \<Rightarrow> Stuck
         | Some r \<Rightarrow>
           and_also (reserve_members lib (Object_Size st r) ctx) (\<lambda>ctx.
             let ms = collect_members st (write_options ctx) r
             in and_also (or_limit (Append lib ''{'' ctx)) (\<lambda>ctx.
                and_also (write_members lib st (WriteValue lib st fuel) ms 0 level ctx) (write_close lib (ms = []) level ''}''))))
       else write_scalar lib st i ctx))"

text \<open>The depth test allows at most \<open>maxWriteDepth + 2\<close> nested calls.\<close>

definition Write :: "('u, 'f) output_library \<Rightarrow> 'f DocumentState \<Rightarrow> NodeId \<Rightarrow> WriteOptions \<Rightarrow> 'u \<Rightarrow> (WriteDiagnostic + string) option" where
  "Write lib st i op u =
     (case WriteValue lib st (maxWriteDepth op + 2) i 0 \<lparr>written = [], write_options = op, write_env = u\<rparr> of
        Done ctx \<Rightarrow> Some (Inr (written ctx))
      | Failed e \<Rightarrow> Some (Inl e)
      | Threw \<Rightarrow> Some (Inl \<lparr>write_code = WriteOutOfMemory, write_message = ''JSON writer allocation failed''\<rparr>)
      | _ \<Rightarrow> None)"

definition WriteCanonical :: "('u, 'f) output_library \<Rightarrow> 'f DocumentState \<Rightarrow> NodeId \<Rightarrow> 'u \<Rightarrow> (WriteDiagnostic + string) option" where
  "WriteCanonical lib st i u = Write lib st i (default_write\<lparr>sortObjectKeys := True\<rparr>) u"

definition EscapeString :: "('u, 'f) output_library \<Rightarrow> string \<Rightarrow> 'u \<Rightarrow> (WriteDiagnostic + string) option" where
  "EscapeString lib value u =
     (case AppendEscaped lib value \<lparr>written = [], write_options = default_write, write_env = u\<rparr> of
        Done ctx \<Rightarrow> Some (Inr (written ctx))
      | Refused \<Rightarrow> map_option (\<lambda>valid. Inl \<lparr>write_code = (if valid then OutputLimitExceeded else InvalidValue), write_message = ''Failed to encode JSON string''\<rparr>)
          (IsValidUtf8 (bytes_of value))
      | Threw \<Rightarrow> Some (Inl \<lparr>write_code = WriteOutOfMemory, write_message = ''JSON string allocation failed''\<rparr>)
      | _ \<Rightarrow> None)"

end
