(* ===== verification/JSON_Lexing.thy ===== *)
theory JSON_Lexing
  imports JSON_Grammar
begin

text \<open>
  What the parser's calls come to, as outcomes, and the unread text before and after them. \<open>SkipTrivia\<close> skips exactly the longest trivia at the cursor, and always returns.
\<close>

section \<open>Outcomes\<close>

text \<open>
  \<open>results N E Q m\<close>: a call comes to nothing only if \<open>N\<close>, fails only with diagnostics that satisfy \<open>E\<close>, and returns only what satisfies \<open>Q\<close>.
\<close>

definition results :: "bool \<Rightarrow> (ParseDiagnostic \<Rightarrow> bool) \<Rightarrow> ('a \<Rightarrow> ('u, 'f) ParseContext \<Rightarrow> bool) \<Rightarrow> ('a, 'u, 'f) parsed \<Rightarrow> bool" where
  "results N E Q m \<longleftrightarrow> (case m of None \<Rightarrow> N | Some (Inl e) \<Rightarrow> E e | Some (Inr (x, ctx)) \<Rightarrow> Q x ctx)"

lemma results_simps [simp]:
  "results N E Q None \<longleftrightarrow> N" "results N E Q (failure e) \<longleftrightarrow> E e" "results N E Q (success x ctx) \<longleftrightarrow> Q x ctx"
  by (simp_all add: results_def)

lemma results_mono:
  assumes "results N E Q m" "N \<Longrightarrow> N'" "\<And>e. E e \<Longrightarrow> E' e" "\<And>x ctx. Q x ctx \<Longrightarrow> Q' x ctx"
  shows "results N' E' Q' m"
  using assms by (auto simp: results_def split: option.splits sum.splits)

lemma results_and_then: "results N E (\<lambda>x ctx. results N E Q (f x ctx)) m \<Longrightarrow> results N E Q (and_then m f)"
  by (auto simp: results_def and_then_def split: option.splits sum.splits)

lemma results_then:
  assumes "results N E P m" "\<And>x ctx. P x ctx \<Longrightarrow> results N E Q (f x ctx)"
  shows "results N E Q (and_then m f)"
  by (rule results_and_then, rule results_mono [OF assms(1)]) (use assms(2) in auto)

text \<open>Diagnostics about resources, not about the text.\<close>

definition resource :: "ParseDiagnostic \<Rightarrow> bool" where
  "resource e \<longleftrightarrow> diag_code e \<in> {LimitExceeded, OutOfMemory, DepthExceeded}"

lemma diag_code_MakeErrorAt [simp]: "diag_code (MakeErrorAt ctx c m b e) = c" "diag_code (MakeError ctx c m) = c"
  by (simp_all add: MakeErrorAt_def MakeError_def)

section \<open>The unread text\<close>

abbreviation unread :: "('u, 'f) ParseContext \<Rightarrow> string" where
  "unread ctx \<equiv> drop (off ctx) (tx ctx)"

lemma Peek_unread: "Peek t cur = (case drop (m_offset cur) t of [] \<Rightarrow> NUL | c # _ \<Rightarrow> c)"
  by (cases "m_offset cur < length t") (auto simp: Peek_def IsEof_def Cons_nth_drop_Suc [symmetric])

lemma IsEof_unread: "IsEof t cur \<longleftrightarrow> drop (m_offset cur) t = []"
  by (simp add: IsEof_def)

lemma PeekAt_unread: "PeekAt t cur (Suc 0) = (case drop (m_offset cur) t of c # d # _ \<Rightarrow> d | _ \<Rightarrow> NUL)"
proof (cases "m_offset cur + 1 < length t")
  case True
  then have "drop (m_offset cur) t = t ! m_offset cur # t ! Suc (m_offset cur) # drop (Suc (Suc (m_offset cur))) t"
    by (metis Cons_nth_drop_Suc Suc_eq_plus1 Suc_lessD)
  then show ?thesis using True by (auto simp: PeekAt_def)
next
  case False
  then have "length (drop (m_offset cur) t) \<le> 1" by simp
  then have "(case drop (m_offset cur) t of c # d # _ \<Rightarrow> d | _ \<Rightarrow> NUL) = NUL"
    by (cases "drop (m_offset cur) t" rule: remdups_adj.cases) simp_all
  then show ?thesis using False by (auto simp: PeekAt_def)
qed

lemma drop_Advance: "drop (m_offset (Advance t n cur)) t = drop n (drop (m_offset cur) t)"
  by (simp add: min_def add.commute)

text \<open>The same context with the cursor some characters further.\<close>

definition moved :: "('u, 'f) ParseContext \<Rightarrow> nat \<Rightarrow> ('u, 'f) ParseContext \<Rightarrow> bool" where
  "moved ctx n ctx' \<longleftrightarrow> (\<exists>cur. ctx' = ctx\<lparr>cursor := cur\<rparr> \<and> m_offset cur = off ctx + n)"

lemma movedD:
  assumes "moved ctx n ctx'"
  shows "doc ctx' = doc ctx" "opts ctx' = opts ctx" "off ctx' = off ctx + n" "unread ctx' = drop n (unread ctx)"
    "depth ctx' = depth ctx" "env ctx' = env ctx" "mutableBase ctx' = mutableBase ctx" "useScratch ctx' = useScratch ctx"
    "decodedBytes ctx' = decodedBytes ctx"
  using assms by (auto simp: moved_def add.commute)

lemma moved_trans: "moved ctx n ctx' \<Longrightarrow> moved ctx' m ctx'' \<Longrightarrow> moved ctx (n + m) ctx''"
  by (auto simp: moved_def)

lemma moved_0 [simp]: "moved ctx 0 ctx"
  unfolding moved_def by (rule exI [of _ "cursor ctx"]) simp

lemma moved_cursor: "m_offset cur = off ctx + n \<Longrightarrow> moved ctx n (ctx\<lparr>cursor := cur\<rparr>)"
  by (auto simp: moved_def)

lemma moved_advance: "n \<le> length (unread ctx) \<Longrightarrow> moved ctx n (advance n ctx)"
  unfolding advance_def by (rule moved_cursor) simp

section \<open>Skipping trivia\<close>

definition stops :: "string \<Rightarrow> bool" where
  "stops s \<longleftrightarrow> s = [] \<or> \<not> is_space (hd s) \<and> hd s \<noteq> CHR ''/''"

lemma is_space_simps [simp]: "\<not> is_space NUL" "\<not> is_space (CHR ''/'')" "is_space CR" "is_space LF"
  by (simp_all add: is_space_def)

fun comment_end :: "string \<Rightarrow> nat option" where
  "comment_end [] = None"
| "comment_end (c # s) = (if c = CHR ''*'' \<and> s \<noteq> [] \<and> hd s = CHR ''/'' then Some 2 else map_option Suc (comment_end s))"

lemma comment_end_Some: "comment_end s = Some n \<longleftrightarrow> (\<exists>b r. s = b @ ''*/'' @ r \<and> closed_first b \<and> n = length b + 2)"
proof (induction s arbitrary: n)
  case Nil then show ?case by simp
next
  case (Cons c s)
  show ?case
  proof (cases "c = CHR ''*'' \<and> s \<noteq> [] \<and> hd s = CHR ''/''")
    case True
    then obtain s' where s: "c # s = ''*/'' @ s'" by (cases s) auto
    have "b = []" if eq: "c # s = b @ ''*/'' @ r" and cl: "closed_first b" for b r
    proof (rule ccontr)
      assume "b \<noteq> []"
      then obtain b' where b: "b = CHR ''*'' # b'" using eq True by (cases b) auto
      have "b @ ''*'' = [] @ ''*/'' @ tl (b' @ ''*'')" using eq s b by (cases b') auto
      then show False using cl unfolding closed_first_def by blast
    qed
    then have "(\<exists>b r. c # s = b @ ''*/'' @ r \<and> closed_first b \<and> n = length b + 2) \<longleftrightarrow> (\<exists>r. c # s = ''*/'' @ r \<and> closed_first [] \<and> n = 2)" by force
    moreover have "closed_first []" by (auto simp: closed_first_def append_eq_Cons_conv Cons_eq_append_conv)
    moreover have "comment_end (c # s) = Some n \<longleftrightarrow> n = 2" using True by auto
    moreover have "(\<exists>r. c # s = ''*/'' @ r) \<longleftrightarrow> True" using s by blast
    ultimately show ?thesis by simp
  next
    case False
    have cf: "closed_first (c # b) \<longleftrightarrow> closed_first b \<and> \<not> (c = CHR ''*'' \<and> b \<noteq> [] \<and> hd b = CHR ''/'')" for b
    proof -
      have "(\<exists>x y. (c # b) @ ''*'' = x @ ''*/'' @ y) \<longleftrightarrow> (\<exists>x y. b @ ''*'' = x @ ''*/'' @ y) \<or> (\<exists>y. (c # b) @ ''*'' = ''*/'' @ y)"
        by (auto simp: Cons_eq_append_conv)
      moreover have "(\<exists>y. (c # b) @ ''*'' = ''*/'' @ y) \<longleftrightarrow> c = CHR ''*'' \<and> b \<noteq> [] \<and> hd b = CHR ''/''" by (cases b) auto
      ultimately show ?thesis by (auto simp: closed_first_def)
    qed
    have "(\<exists>b r. c # s = b @ ''*/'' @ r \<and> closed_first b \<and> n = length b + 2) \<longleftrightarrow>
        (\<exists>b r. s = b @ ''*/'' @ r \<and> closed_first b \<and> n = length b + 3)"
    proof
      assume "\<exists>b r. c # s = b @ ''*/'' @ r \<and> closed_first b \<and> n = length b + 2"
      then obtain b r where b: "c # s = b @ ''*/'' @ r" "closed_first b" "n = length b + 2" by blast
      then obtain b' where "b = c # b'" using False by (cases b) auto
      then show "\<exists>b r. s = b @ ''*/'' @ r \<and> closed_first b \<and> n = length b + 3" using b cf by auto
    next
      assume "\<exists>b r. s = b @ ''*/'' @ r \<and> closed_first b \<and> n = length b + 3"
      then obtain b r where b: "s = b @ ''*/'' @ r" "closed_first b" "n = length b + 3" by blast
      then have "closed_first (c # b)" using cf [of b] False by (cases b) auto
      then show "\<exists>b r. c # s = b @ ''*/'' @ r \<and> closed_first b \<and> n = length b + 2" using b by (intro exI [of _ "c # b"] exI [of _ r]) simp
    qed
    then show ?thesis using False Cons.IH by (auto simp: eval_nat_numeral)
  qed
qed

lemma SkipWhitespace_step:
  "SkipWhitespace t cur = (if is_space (Peek t cur) then SkipWhitespace t (Advance t 1 cur) else cur)"
  by (rule SkipWhitespace.simps)

lemma line_comment_offset:
  "m_offset (line_comment t cur) = m_offset cur + length (takeWhile (\<lambda>c. c \<noteq> CR \<and> c \<noteq> LF) (drop (m_offset cur) t))"
proof (induction t cur rule: line_comment.induct)
  case (1 t cur)
  show ?case
  proof (cases "drop (m_offset cur) t")
    case Nil
    then show ?thesis by (simp add: line_comment.simps [of t cur] IsEof_unread)
  next
    case (Cons c s)
    then have len: "m_offset cur < length t" by (metis drop_all leI list.distinct(1))
    show ?thesis
    proof (cases "c = CR \<or> c = LF")
      case True
      then show ?thesis using Cons by (auto simp: line_comment.simps [of t cur] IsEof_unread Peek_unread)
    next
      case False
      have "drop (m_offset cur + 1) t = s" using Cons by (simp add: drop_Suc flip: tl_drop)
      then show ?thesis using False Cons 1 len by (simp add: line_comment.simps [of t cur] IsEof_unread Peek_unread)
    qed
  qed
qed

lemma block_comment_offset: "map_option m_offset (block_comment t cur) = map_option (\<lambda>n. m_offset cur + n) (comment_end (drop (m_offset cur) t))"
proof (induction t cur rule: block_comment.induct)
  case (1 t cur)
  show ?case
  proof (cases "drop (m_offset cur) t")
    case Nil
    then show ?thesis by (simp add: block_comment.simps [of t cur] IsEof_unread)
  next
    case (Cons c s)
    then have len: "m_offset cur < length t" by (metis drop_all leI list.distinct(1))
    have s: "drop (m_offset cur + 1) t = s" using Cons by (simp add: drop_Suc flip: tl_drop)
    show ?thesis
    proof (cases "c = CHR ''*'' \<and> s \<noteq> [] \<and> hd s = CHR ''/''")
      case True
      then obtain r where d: "drop (m_offset cur) t = CHR ''*'' # CHR ''/'' # r" using Cons by (cases s) auto
      then have "2 \<le> length t - m_offset cur" by (metis One_nat_def Suc_1 Suc_leI length_Cons length_drop zero_less_Suc Suc_le_mono)
      then show ?thesis using d by (simp add: block_comment.simps [of t cur] IsEof_unread Peek_unread PeekAt_unread)
    next
      case False
      then have no: "\<not> (Peek t cur = CHR ''*'' \<and> PeekAt t cur 1 = CHR ''/'')" using Cons by (cases s) (auto simp: Peek_unread PeekAt_unread)
      have "map_option m_offset (block_comment t (Advance t 1 cur)) = map_option (\<lambda>n. m_offset cur + 1 + n) (comment_end s)"
        using 1 [OF _ no] Cons s len by (simp add: IsEof_unread)
      moreover have "block_comment t cur = block_comment t (Advance t 1 cur)"
        using no Cons by (subst block_comment.simps) (simp only: IsEof_unread if_False if_True, simp)
      moreover have "comment_end (c # s) = map_option Suc (comment_end s)" using False by auto
      ultimately show ?thesis using Cons by (simp add: option.map_comp o_def)
    qed
  qed
qed

text \<open>One round of \<open>SkipTrivia\<close>, by the character at the cursor.\<close>

lemma SkipTrivia_space:
  assumes "unread ctx = c # s" "is_space c"
  shows "SkipTrivia ctx = SkipTrivia (advance 1 ctx)" "moved ctx 1 (advance 1 ctx)"
proof -
  define B where "B = (\<lambda>ctx :: ('a, 'b) ParseContext. if peek ctx \<noteq> CHR ''/'' then success () ctx
         else if comments (opts ctx) = RejectComments
         then failure (MakeErrorAt ctx InvalidToken ''JSON comments are disabled'' (off ctx) (off ctx + 1))
         else do { r \<leftarrow> SkipComment ctx; (case r of Inl e \<Rightarrow> failure e | Inr (_, ctx) \<Rightarrow> SkipTrivia ctx) })"
  have eq: "SkipTrivia c = B (c\<lparr>cursor := SkipWhitespace (tx c) (cursor c)\<rparr>)" for c
    by (subst SkipTrivia.simps) (simp only: B_def Let_def)
  have "SkipWhitespace (tx ctx) (cursor ctx) = SkipWhitespace (tx ctx) (Advance (tx ctx) 1 (cursor ctx))"
    using assms by (subst SkipWhitespace_step) (simp add: Peek_unread)
  then show "SkipTrivia ctx = SkipTrivia (advance 1 ctx)" unfolding eq by (simp add: advance_def)
  have "length (unread ctx) = Suc (length s)" using assms(1) by simp
  then show "moved ctx 1 (advance 1 ctx)" by (intro moved_advance) simp
qed

lemma SkipTrivia_at:
  assumes "\<not> is_space (peek ctx)"
  shows "SkipTrivia ctx =
    (if peek ctx \<noteq> CHR ''/'' then success () ctx
     else if comments (opts ctx) = RejectComments
     then failure (MakeErrorAt ctx InvalidToken ''JSON comments are disabled'' (off ctx) (off ctx + 1))
     else and_then (SkipComment ctx) (\<lambda>_. SkipTrivia))"
proof -
  have "SkipWhitespace (tx ctx) (cursor ctx) = cursor ctx" using assms by (subst SkipWhitespace_step) simp
  then show ?thesis
    by (subst SkipTrivia.simps) (auto simp: and_then_def Let_def split: option.splits sum.splits)
qed

lemma SkipTrivia_stop: "stops (unread ctx) \<Longrightarrow> SkipTrivia ctx = success () ctx"
  by (subst SkipTrivia_at) (auto simp: stops_def Peek_unread split: list.splits)

lemma SkipComment_line:
  assumes "unread ctx = ''//'' @ s"
  obtains ctx' where "SkipComment ctx = success () ctx'" "moved ctx (2 + length (takeWhile (\<lambda>c. c \<noteq> CR \<and> c \<noteq> LF) s)) ctx'"
proof -
  have len: "2 \<le> length (tx ctx) - off ctx" using assms by (metis One_nat_def Suc_1 Suc_leI append_Cons length_Cons length_drop zero_less_Suc Suc_le_mono)
  let ?cur = "line_comment (tx ctx) (Advance (tx ctx) 2 (cursor ctx))"
  have "drop (m_offset (Advance (tx ctx) 2 (cursor ctx))) (tx ctx) = s" using assms by (simp only: drop_Advance) simp
  then have "m_offset ?cur = off ctx + (2 + length (takeWhile (\<lambda>c. c \<noteq> CR \<and> c \<noteq> LF) s))"
    using len by (simp add: line_comment_offset)
  then have "moved ctx (2 + length (takeWhile (\<lambda>c. c \<noteq> CR \<and> c \<noteq> LF) s)) (ctx\<lparr>cursor := ?cur\<rparr>)" by (rule moved_cursor)
  moreover have "SkipComment ctx = success () (ctx\<lparr>cursor := ?cur\<rparr>)" using assms by (simp add: SkipComment_def Peek_unread PeekAt_unread)
  ultimately show ?thesis using that by blast
qed

lemma SkipComment_block:
  assumes "unread ctx = ''/*'' @ s"
  shows "case comment_end s of
      None \<Rightarrow> \<exists>e. SkipComment ctx = failure e \<and> diag_code e = UnexpectedEnd
    | Some n \<Rightarrow> \<exists>ctx'. SkipComment ctx = success () ctx' \<and> moved ctx (2 + n) ctx'"
proof -
  have len: "2 \<le> length (tx ctx) - off ctx" using assms by (metis One_nat_def Suc_1 Suc_leI append_Cons length_Cons length_drop zero_less_Suc Suc_le_mono)
  let ?r = "block_comment (tx ctx) (Advance (tx ctx) 2 (cursor ctx))"
  have s: "drop (m_offset (Advance (tx ctx) 2 (cursor ctx))) (tx ctx) = s" using assms by (simp only: drop_Advance) simp
  have r: "map_option m_offset ?r = map_option (\<lambda>n. off ctx + (2 + n)) (comment_end s)"
    using block_comment_offset [of "tx ctx" "Advance (tx ctx) 2 (cursor ctx)"] len unfolding s by simp
  have sk: "SkipComment ctx = (case ?r of Some cur \<Rightarrow> success () (ctx\<lparr>cursor := cur\<rparr>)
      | None \<Rightarrow> failure (MakeErrorAt ctx UnexpectedEnd ''Unterminated block comment'' (off ctx) (length (tx ctx))))"
    using assms by (simp add: SkipComment_def Peek_unread PeekAt_unread)
  show ?thesis
  proof (cases ?r)
    case None
    then show ?thesis using r sk by simp
  next
    case (Some cur)
    then show ?thesis using r sk moved_cursor [of cur ctx] by (cases "comment_end s") auto
  qed
qed

lemma SkipComment_bad: "unread ctx = CHR ''/'' # s \<Longrightarrow> s = [] \<or> hd s \<noteq> CHR ''/'' \<and> hd s \<noteq> CHR ''*'' \<Longrightarrow> \<exists>e. SkipComment ctx = failure e"
  by (cases s) (auto simp: SkipComment_def Peek_unread PeekAt_unread Let_def)

text \<open>The trivia at the cursor are skipped.\<close>

lemma SkipTrivia_past:
  assumes "trivia p t" "comments (opts ctx) = p" "unread ctx = t @ s"
  shows "\<exists>ctx'. SkipTrivia ctx = SkipTrivia ctx' \<and> moved ctx (length t) ctx'"
  using assms
proof (induction t arbitrary: ctx rule: trivia.induct)
  case trivia_nil
  then show ?case by auto
next
  case (trivia_space c t)
  have "unread ctx = c # t @ s" using trivia_space by simp
  note sp = SkipTrivia_space [OF this trivia_space(1)]
  have e: "comments (opts (advance 1 ctx)) = p" "unread (advance 1 ctx) = t @ s" using movedD(2, 4) [OF sp(2)] trivia_space(4, 5) by simp_all
  obtain ctx' where "SkipTrivia (advance 1 ctx) = SkipTrivia ctx'" "moved (advance 1 ctx) (length t) ctx'"
    using trivia_space(3) [OF e] by blast
  then show ?case using sp moved_trans by fastforce
next
  case (trivia_line b e t)
  have u: "unread ctx = ''//'' @ b @ e # t @ s" using trivia_line by simp
  have len: "length (takeWhile (\<lambda>c. c \<noteq> CR \<and> c \<noteq> LF) (b @ e # t @ s)) = length b" using trivia_line(2-4)
    by (subst takeWhile_append2) auto
  obtain ctx1 where c: "SkipComment ctx = success () ctx1" "moved ctx (2 + length b) ctx1" using SkipComment_line [OF u] len by metis
  have e: "comments (opts ctx1) = p" "unread ctx1 = (e # t) @ s" using movedD(2, 4) [OF c(2)] u trivia_line(7) by simp_all
  obtain ctx' where "SkipTrivia ctx1 = SkipTrivia ctx'" "moved ctx1 (length (e # t)) ctx'"
    using trivia_line(6) [OF e] by blast
  moreover have "SkipTrivia ctx = SkipTrivia ctx1" using u c trivia_line(1, 7) by (subst SkipTrivia_at) (auto simp: Peek_unread and_then_def)
  ultimately show ?case using moved_trans [OF c(2)] by fastforce
next
  case (trivia_block b t)
  have u: "unread ctx = ''/*'' @ b @ ''*/'' @ t @ s" using trivia_block by simp
  have "comment_end (b @ ''*/'' @ t @ s) = Some (length b + 2)" using trivia_block(2) by (subst comment_end_Some) blast
  then obtain ctx1 where c: "SkipComment ctx = success () ctx1" "moved ctx (2 + (length b + 2)) ctx1" using SkipComment_block [OF u] by auto
  have e: "comments (opts ctx1) = p" "unread ctx1 = t @ s" using movedD(2, 4) [OF c(2)] u trivia_block(5) by simp_all
  obtain ctx' where "SkipTrivia ctx1 = SkipTrivia ctx'" "moved ctx1 (length t) ctx'"
    using trivia_block(4) [OF e] by blast
  moreover have "SkipTrivia ctx = SkipTrivia ctx1" using u c trivia_block(1, 5) by (subst SkipTrivia_at) (auto simp: Peek_unread and_then_def)
  ultimately show ?case using moved_trans [OF c(2)] by fastforce
qed

lemma SkipTrivia_complete:
  assumes "trivia (comments (opts ctx)) t" "unread ctx = t @ s" "stops s"
  shows "\<exists>ctx'. SkipTrivia ctx = success () ctx' \<and> moved ctx (length t) ctx'"
proof -
  obtain ctx' where c: "SkipTrivia ctx = SkipTrivia ctx'" "moved ctx (length t) ctx'" using SkipTrivia_past [OF assms(1) refl assms(2)] by blast
  then have "unread ctx' = s" using movedD(4) [OF c(2)] assms(2) by simp
  then show ?thesis using c SkipTrivia_stop [of ctx'] assms(3) by auto
qed

lemma SkipTrivia_complete_last:
  assumes "last_trivia (comments (opts ctx)) (unread ctx)"
  shows "\<exists>ctx'. SkipTrivia ctx = success () ctx' \<and> moved ctx (length (unread ctx)) ctx'"
proof (cases "trivia (comments (opts ctx)) (unread ctx)")
  case True
  show ?thesis using SkipTrivia_complete [OF True, of "[]"] by (simp add: stops_def)
next
  case False
  then obtain u b where u: "comments (opts ctx) = AllowComments" "trivia (comments (opts ctx)) u" "CR \<notin> set b" "LF \<notin> set b" "unread ctx = u @ ''//'' @ b"
    using assms by (auto simp: last_trivia_def)
  obtain ctx1 where c: "SkipTrivia ctx = SkipTrivia ctx1" "moved ctx (length u) ctx1" using SkipTrivia_past [OF u(2) refl u(5)] by blast
  then have r: "unread ctx1 = ''//'' @ b" "comments (opts ctx1) = AllowComments" using movedD(2, 4) [OF c(2)] u(1, 5) by simp_all
  have "takeWhile (\<lambda>c. c \<noteq> CR \<and> c \<noteq> LF) b = b" using u(3, 4) by (auto simp: takeWhile_eq_all_conv)
  then obtain ctx2 where d: "SkipComment ctx1 = success () ctx2" "moved ctx1 (2 + length b) ctx2" using SkipComment_line [OF r(1)] by metis
  have "stops (unread ctx2)" using movedD(4) [OF d(2)] r by (simp add: stops_def)
  then have "SkipTrivia ctx1 = success () ctx2" using r d SkipTrivia_stop [of ctx2] by (subst SkipTrivia_at) (simp_all add: Peek_unread and_then_def)
  then show ?thesis using c moved_trans [OF c(2) d(2)] u(5) by auto
qed

text \<open>What one round skips.\<close>

definition piece :: "CommentPolicy \<Rightarrow> string \<Rightarrow> string \<Rightarrow> bool" where
  "piece p u rest \<longleftrightarrow> (\<exists>c. u = [c] \<and> is_space c) \<or>
     p = AllowComments \<and> (\<exists>b. u = ''//'' @ b \<and> CR \<notin> set b \<and> LF \<notin> set b \<and> (rest = [] \<or> hd rest = CR \<or> hd rest = LF)) \<or>
     p = AllowComments \<and> (\<exists>b. u = ''/*'' @ b @ ''*/'' \<and> closed_first b)"

lemma piece_trivia: "piece p u rest \<Longrightarrow> rest = t @ s \<Longrightarrow> t \<noteq> [] \<or> (\<nexists>b. u = ''//'' @ b) \<Longrightarrow> trivia p t \<Longrightarrow> trivia p (u @ t)"
  unfolding piece_def
proof (elim disjE exE conjE)
  show "trivia p (u @ t)" if "trivia p t" "u = [c]" "is_space c" for c using that by (simp add: trivia_space)
  show "trivia p (u @ t)" if "trivia p t" "t \<noteq> []" "rest = t @ s" "p = AllowComments" "u = ''//'' @ b" "CR \<notin> set b" "LF \<notin> set b" "hd rest = CR" for b
    using that trivia_line [of p b CR "tl t"] by (cases t) auto
  show "trivia p (u @ t)" if "trivia p t" "t \<noteq> []" "rest = t @ s" "p = AllowComments" "u = ''//'' @ b" "CR \<notin> set b" "LF \<notin> set b" "hd rest = LF" for b
    using that trivia_line [of p b LF "tl t"] by (cases t) auto
  show "trivia p (u @ t)" if "trivia p t" "p = AllowComments" "u = ''/*'' @ b @ ''*/''" "closed_first b" for b using that trivia_block [of p b t] by simp
qed (auto intro: trivia_space simp: trivia_block [simplified])

lemma piece_ok:
  assumes pc: "piece p u (t @ s)" and st: "stops s" and tr: "trivia p t \<or> s = [] \<and> last_trivia p t"
  shows "trivia p (u @ t) \<or> s = [] \<and> last_trivia p (u @ t)"
proof (cases "trivia p t")
  case True
  show ?thesis
  proof (cases "t \<noteq> [] \<or> (\<nexists>b. u = ''//'' @ b)")
    case ne: True
    show ?thesis using piece_trivia [OF pc refl ne True] by blast
  next
    case False
    then obtain b where b: "t = []" "u = ''//'' @ b" by blast
    then have "p = AllowComments" "CR \<notin> set b" "LF \<notin> set b" "s = [] \<or> hd s = CR \<or> hd s = LF" using pc by (auto simp: piece_def)
    moreover have "s = []" using calculation(4) st by (auto simp: stops_def)
    ultimately show ?thesis using b trivia_nil by (fastforce simp: last_trivia_def)
  qed
next
  case False
  then obtain v b where v: "s = []" "p = AllowComments" "trivia p v" "CR \<notin> set b" "LF \<notin> set b" "t = v @ ''//'' @ b"
    using tr by (auto simp: last_trivia_def)
  have "v \<noteq> [] \<or> (\<nexists>b. u = ''//'' @ b)"
  proof (rule ccontr)
    assume "\<not> ?thesis"
    then show False using pc v by (auto simp: piece_def)
  qed
  then have "trivia p (u @ v)" using piece_trivia [OF pc, of v "''//'' @ b @ s"] v by simp
  then show ?thesis using v by (fastforce simp: last_trivia_def)
qed

text \<open>What is skipped is trivia, in whole and up to where it stops.\<close>

definition skipped :: "('u, 'f) ParseContext \<Rightarrow> ('u, 'f) ParseContext \<Rightarrow> bool" where
  "skipped ctx ctx' \<longleftrightarrow> (\<exists>t. unread ctx = t @ unread ctx' \<and> moved ctx (length t) ctx' \<and> stops (unread ctx') \<and>
     (trivia (comments (opts ctx)) t \<or> unread ctx' = [] \<and> last_trivia (comments (opts ctx)) t))"

lemma skipped_piece:
  assumes "unread ctx = u @ unread ctx1" "moved ctx (length u) ctx1" "piece (comments (opts ctx)) u (unread ctx1)" "skipped ctx1 ctx'"
  shows "skipped ctx ctx'"
proof -
  obtain t where t: "unread ctx1 = t @ unread ctx'" "moved ctx1 (length t) ctx'" "stops (unread ctx')"
    "trivia (comments (opts ctx)) t \<or> unread ctx' = [] \<and> last_trivia (comments (opts ctx)) t"
    using assms(4) movedD(2) [OF assms(2)] unfolding skipped_def by auto
  have "moved ctx (length (u @ t)) ctx'" using moved_trans [OF assms(2) t(2)] by simp
  moreover have "unread ctx = (u @ t) @ unread ctx'" using assms(1) t(1) by simp
  moreover have "trivia (comments (opts ctx)) (u @ t) \<or> unread ctx' = [] \<and> last_trivia (comments (opts ctx)) (u @ t)"
    using piece_ok [of _ u t "unread ctx'"] assms(3) t by simp
  ultimately show ?thesis using t(3) unfolding skipped_def by blast
qed

lemma SkipTrivia_sound: "results False (\<lambda>e. True) (\<lambda>_. skipped ctx) (SkipTrivia ctx)"
proof (induction "length (unread ctx)" arbitrary: ctx rule: less_induct)
  case less
  let ?p = "comments (opts ctx)"
  have next_round: "results False (\<lambda>e. True) (\<lambda>_. skipped ctx) (SkipTrivia ctx1)"
    if m: "moved ctx (length u) ctx1" and u: "unread ctx = u @ unread ctx1" "u \<noteq> []" and pc: "piece ?p u (unread ctx1)" for ctx1 u
  proof -
    have "results False (\<lambda>e. True) (\<lambda>_. skipped ctx1) (SkipTrivia ctx1)" using less(1) [of ctx1] u by simp
    then show ?thesis by (rule results_mono) (use skipped_piece [OF u(1) m pc] in auto)
  qed
  show ?case
  proof (cases "unread ctx")
    case Nil
    then have "stops (unread ctx)" by (simp add: stops_def)
    then show ?thesis using SkipTrivia_stop [of ctx] Nil trivia_nil by (auto simp: skipped_def)
  next
    case (Cons c s)
    consider "is_space c" | "\<not> is_space c" "c \<noteq> CHR ''/''" | "c = CHR ''/''" by blast
    then show ?thesis
    proof cases
      case 1
      note sp = SkipTrivia_space [OF Cons 1]
      show ?thesis unfolding sp(1)
        by (rule next_round [of "[c]"]) (use sp(2) Cons 1 movedD(4) [OF sp(2)] in \<open>auto simp: piece_def\<close>)
    next
      case 2
      then have "stops (unread ctx)" using Cons by (simp add: stops_def)
      then show ?thesis using SkipTrivia_stop [of ctx] trivia_nil by (auto simp: skipped_def)
    next
      case 3
      then have at: "SkipTrivia ctx = (if ?p = RejectComments
          then failure (MakeErrorAt ctx InvalidToken ''JSON comments are disabled'' (off ctx) (off ctx + 1)) else and_then (SkipComment ctx) (\<lambda>_. SkipTrivia))"
        using Cons by (subst SkipTrivia_at) (simp_all add: Peek_unread)
      show ?thesis
      proof (cases "?p = RejectComments")
        case True then show ?thesis using at by simp
      next
        case False
        then have p: "?p = AllowComments" by (cases ?p) auto
        consider s' where "unread ctx = ''//'' @ s'" | s' where "unread ctx = ''/*'' @ s'" | "s = [] \<or> hd s \<noteq> CHR ''/'' \<and> hd s \<noteq> CHR ''*''"
          using Cons 3 by (cases s) auto
        then show ?thesis
        proof cases
          case 1
          let ?b = "takeWhile (\<lambda>c. c \<noteq> CR \<and> c \<noteq> LF) s'"
          obtain ctx1 where c: "SkipComment ctx = success () ctx1" "moved ctx (2 + length ?b) ctx1" using SkipComment_line [OF 1] by blast
          have r: "unread ctx1 = dropWhile (\<lambda>c. c \<noteq> CR \<and> c \<noteq> LF) s'" using movedD(4) [OF c(2)] 1 by (simp add: dropWhile_eq_drop)
          have "results False (\<lambda>e. True) (\<lambda>_. skipped ctx) (SkipTrivia ctx1)"
          proof (rule next_round [of "''//'' @ ?b"])
            show "moved ctx (length (''//'' @ ?b)) ctx1" "unread ctx = (''//'' @ ?b) @ unread ctx1" "''//'' @ ?b \<noteq> []" using c(2) 1 r by simp_all
            have "unread ctx1 = [] \<or> hd (unread ctx1) = CR \<or> hd (unread ctx1) = LF"
              unfolding r using hd_dropWhile [of "\<lambda>c. c \<noteq> CR \<and> c \<noteq> LF" s'] by blast
            then show "piece ?p (''//'' @ ?b) (unread ctx1)" using p by (auto simp: piece_def dest: set_takeWhileD)
          qed
          then show ?thesis using at c p by (simp add: and_then_def)
        next
          case 2
          show ?thesis
          proof (cases "comment_end s'")
            case None
            then show ?thesis using SkipComment_block [OF 2] at p by (auto simp: and_then_def)
          next
            case (Some n)
            obtain b r where b: "s' = b @ ''*/'' @ r" "closed_first b" "n = length b + 2" using Some comment_end_Some by blast
            obtain ctx1 where c: "SkipComment ctx = success () ctx1" "moved ctx (2 + n) ctx1" using SkipComment_block [OF 2] Some by auto
            have "unread ctx1 = r" using movedD(4) [OF c(2)] 2 b by simp
            then have "results False (\<lambda>e. True) (\<lambda>_. skipped ctx) (SkipTrivia ctx1)"
              using next_round [of "''/*'' @ b @ ''*/''" ctx1] c(2) 2 b p by (simp add: piece_def)
            then show ?thesis using at c p by (simp add: and_then_def)
          qed
        next
          case bad: 3
          then show ?thesis using SkipComment_bad [of ctx s] Cons 3 at p by (auto simp: and_then_def)
        qed
      qed
    qed
  qed
qed

end
