(* ===== verification/JSON_Strings.thy ===== *)
theory JSON_Strings
  imports JSON_Lexing
begin

text \<open>
  JSON strings as the parser reads them: the scan for the closing quote and the decoding loop, against pure functions on the text (\<open>raw_length\<close>, \<open>unescape\<close>), and those
  against the grammar. The loop gives the same result into a buffer of its own and in place.
\<close>

section \<open>Scanning strings\<close>

text \<open>The length of the text before the closing quote, when there is one and no control character stands outside of an escape before it.\<close>

fun raw_length :: "string \<Rightarrow> nat option" where
  "raw_length [] = None"
| "raw_length (c # s) =
     (if c = CHR 0x22 then Some 0
      else if c = CHR 0x5C then (case s of [] \<Rightarrow> None | _ # r \<Rightarrow> map_option (\<lambda>n. n + 2) (raw_length r))
      else if ord c < 0x20 then None else map_option Suc (raw_length s))"

lemma raw_length_run:
  "(\<And>c. c \<in> set run \<Longrightarrow> c \<noteq> CHR 0x22 \<and> c \<noteq> CHR 0x5C) \<Longrightarrow>
   raw_length (run @ rest) = (if \<exists>c\<in>set run. ord c < 0x20 then None else map_option ((+) (length run)) (raw_length rest))"
proof (induction run)
  case Nil
  then show ?case by (cases "raw_length rest") auto
next
  case (Cons c run)
  then show ?case by (cases "raw_length rest") auto
qed

lemma raw_length_less: "raw_length s = Some n \<Longrightarrow> n < length s \<and> s ! n = CHR 0x22"
  by (induction s arbitrary: n rule: raw_length.induct) (fastforce split: if_splits list.splits)+

lemma ScanString_raw:
  "case ScanString backend t ts scan esc of
     Inl (code, _) \<Rightarrow> raw_length (drop scan t) = None
   | Inr (e, b) \<Rightarrow> \<exists>n. raw_length (drop scan t) = Some n \<and> e = scan + n \<and> b = (esc \<or> CHR 0x5C \<in> set (take n (drop scan t)))"
proof (induction backend t ts scan esc rule: ScanString.induct)
  case (1 backend t ts scan esc)
  let ?s = "drop scan t"
  let ?P = "\<lambda>x. \<not> (x = CHR 0x22 \<or> x = CHR 0x5C)"
  define run where "run = takeWhile ?P ?s"
  define rest where "rest = dropWhile ?P ?s"
  have s: "?s = run @ rest" by (simp add: run_def rest_def)
  have plain: "\<And>c. c \<in> set run \<Longrightarrow> c \<noteq> CHR 0x22 \<and> c \<noteq> CHR 0x5C" by (auto simp: run_def dest: set_takeWhileD)
  have raw: "raw_length ?s = (if \<exists>c\<in>set run. ord c < 0x20 then None else map_option ((+) (length run)) (raw_length rest))"
    using raw_length_run [of run rest] plain s by simp
  have next0: "scan + FindAnyByte2 backend ?s (CHR 0x22) (CHR 0x5C) = scan + length run" by (simp add: run_def)
  have tk: "take (length run) ?s = run" by (simp add: s)
  have ctl: "length (takeWhile (\<lambda>c. \<not> ord c < 0x20) run) < length run \<longleftrightarrow> (\<exists>c\<in>set run. ord c < 0x20)"
    by (metis (mono_tags, lifting) length_takeWhile_le nat_neq_iff not_le takeWhile_eq_all_conv takeWhile_eq_take take_all_iff)
  show ?case
  proof (cases "scan < length t")
    case False
    then show ?thesis by (simp add: ScanString.simps [of backend t ts scan])
  next
    case True
    have step: "ScanString backend t ts scan esc =
        (if \<exists>c\<in>set run. ord c < 0x20
         then Inl (InvalidToken, ''Control character in JSON string'', scan + length (takeWhile (\<lambda>c. \<not> ord c < 0x20) run), scan + length (takeWhile (\<lambda>c. \<not> ord c < 0x20) run) + 1)
         else if scan + length run \<ge> length t then Inl (UnexpectedEnd, ''Unterminated JSON string'', ts, length t)
         else if t ! (scan + length run) = CHR 0x22 then Inr (scan + length run, esc)
         else if scan + length run + 1 \<ge> length t then Inl (UnexpectedEnd, ''Unterminated JSON escape'', scan + length run, length t)
         else ScanString backend t ts (scan + length run + 2) True)"
      using True unfolding ScanString.simps [of backend t ts scan esc] next0 Let_def by (simp only: if_True add_diff_cancel_left' tk ctl)
    have len: "length t = scan + length run + length rest" using arg_cong [OF s, of length] True by simp
    have nth: "t ! (scan + length run) = hd rest" if "rest \<noteq> []"
      using that s by (metis add_diff_cancel_left' hd_drop_conv_nth drop_drop append_eq_conv_conj add.commute len length_greater_0_conv less_add_same_cancel1)
    show ?thesis
    proof (cases "\<exists>c\<in>set run. ord c < 0x20")
      case bad: True
      then show ?thesis using step raw by simp
    next
      case ok: False
      show ?thesis
      proof (cases rest)
        case Nil
        then show ?thesis using step raw ok len by simp
      next
        case (Cons c r)
        then have c: "c = CHR 0x22 \<or> c = CHR 0x5C" using hd_dropWhile [of ?P ?s] by (auto simp: rest_def)
        show ?thesis
        proof (cases "c = CHR 0x22")
          case True
          then show ?thesis using step raw ok len nth Cons plain by (auto simp: s)
        next
          case False
          then have cb: "c = CHR 0x5C" using c by blast
          show ?thesis
          proof (cases r)
            case Nil
            then show ?thesis using step raw ok len nth Cons cb by simp
          next
            case r: (Cons d r')
            have "drop (length run + 2) ?s = r'" using Cons r by (simp only: s) simp
            then have dr: "drop (scan + length run + 2) t = r'" by (simp add: add.commute)
            have st: "ScanString backend t ts scan esc = ScanString backend t ts (scan + length run + 2) True"
              using step ok len nth Cons cb r by simp
            have ctl0: "\<not> length (takeWhile (\<lambda>c. \<not> ord c < 0x20) run) < length run" using ctl ok by blast
            have IH: "case ScanString backend t ts (scan + length run + 2) True of
                Inl (code, _) \<Rightarrow> raw_length r' = None
              | Inr (e, b) \<Rightarrow> \<exists>n. raw_length r' = Some n \<and> e = scan + length run + 2 + n \<and> b"
              using 1 [OF True refl refl] unfolding next0 add_diff_cancel_left' tk dr
              using ctl0 len nth Cons cb r by (auto split: sum.splits)
            have rw: "raw_length ?s = map_option (\<lambda>n. length run + (n + 2)) (raw_length r')"
              using raw ok Cons cb r by (simp add: option.map_comp o_def)
            show ?thesis unfolding st using IH rw
              by (auto simp: s Cons r cb split: sum.splits prod.splits)
          qed
        qed
      qed
    qed
  qed
qed

section \<open>Decoding strings\<close>

lemma HexValue_less: "IsHexDigit c \<Longrightarrow> HexValue c < 16"
  by (auto simp: IsHexDigit_def HexValue_def char_arith)

lemma DecodeHex4_spec:
  assumes "p + 4 \<le> length t" "h = take 4 (drop p t)"
  shows "DecodeHex4 t p = Some (if list_all IsHexDigit h then Some (hex4 h) else None)"
proof -
  have acc: "push_bit 4 v OR HexValue c = v * 16 + HexValue c" if "IsHexDigit c" for v c
    using nat_or_disjoint [of "HexValue c" 4 v] HexValue_less [OF that] by (simp add: push_bit_eq_mult)
  have loop: "DecodeHex4_loop t p n v = Some (if list_all IsHexDigit (take n (drop p t)) then Some (foldl (\<lambda>v c. v * 16 + HexValue c) v (take n (drop p t))) else None)"
    if "p + n \<le> length t" for n p v
    using that
  proof (induction n arbitrary: p v)
    case (Suc n)
    have "take (Suc n) (drop p t) = t ! p # take n (drop (p + 1) t)" using Suc.prems by (simp add: Cons_nth_drop_Suc [symmetric])
    then show ?case using Suc.IH [of "p + 1"] Suc.prems acc by (simp add: span_at_in)
  qed simp
  show ?thesis using loop [of p 4 0] assms unfolding DecodeHex4_def hex4_def by simp
qed

text \<open>The code point of an escape from its digits on, and what follows it.\<close>

definition unicode_of :: "string \<Rightarrow> (CodePoint \<times> string) option" where
  "unicode_of r =
     (let h = take 4 r; r' = drop 4 r; l = take 4 (drop 2 r')
      in if length r < 4 \<or> \<not> list_all IsHexDigit h then None
         else if 0xD800 \<le> hex4 h \<and> hex4 h \<le> 0xDBFF
         then if length r' < 6 \<or> take 2 r' \<noteq> CHR 0x5C # ''u'' \<or> \<not> list_all IsHexDigit l \<or> \<not> (0xDC00 \<le> hex4 l \<and> hex4 l \<le> 0xDFFF) then None
              else Some (0x10000 + (hex4 h - 0xD800) * 0x400 + (hex4 l - 0xDC00), drop 6 r')
         else if 0xDC00 \<le> hex4 h \<and> hex4 h \<le> 0xDFFF then None else Some (hex4 h, r'))"

lemma unicode_of_shorter: "unicode_of r = Some (cp, r') \<Longrightarrow> length r' < length r"
  by (auto simp: unicode_of_def Let_def split: if_splits)

lemma hex4_less:
  assumes "length h = 4" "list_all IsHexDigit h"
  shows "hex4 h < 0x10000"
proof -
  obtain a b c d where h: "h = [a, b, c, d]" using assms(1) by (auto simp: numeral_eq_Suc length_Suc_conv)
  then have "HexValue a < 16" "HexValue b < 16" "HexValue c < 16" "HexValue d < 16" using assms(2) HexValue_less by simp_all
  then show ?thesis unfolding h hex4_def by simp
qed

lemma unicode_of_code:
  assumes "unicode_of r = Some (cp, r')"
  shows "\<exists>n. r' = drop n r \<and> n \<le> length r \<and> IsValidCodePoint cp \<and> length (put8 cp) \<le> n + 2"
proof -
  let ?h = "take 4 r" and ?l = "take 4 (drop 6 r)"
  have len: "4 \<le> length r" "list_all IsHexDigit ?h" using assms by (auto simp: unicode_of_def Let_def split: if_splits)
  then have small: "hex4 ?h < 0x10000" by (intro hex4_less) simp_all
  show ?thesis
  proof (cases "0xD800 \<le> hex4 ?h \<and> hex4 ?h \<le> 0xDBFF")
    case True
    then have "10 \<le> length r" "0xDC00 \<le> hex4 ?l" "hex4 ?l \<le> 0xDFFF" "cp = 0x10000 + (hex4 ?h - 0xD800) * 0x400 + (hex4 ?l - 0xDC00)" "r' = drop 10 r"
      using assms by (auto simp: unicode_of_def Let_def split: if_splits)
    then show ?thesis using True
      by (intro exI [of _ 10]) (auto simp: IsValidCodePoint_def MaxCodePoint_def IsSurrogate_def put8_def utf8_octets_def)
  next
    case False
    then have "cp = hex4 ?h" "r' = drop 4 r" "\<not> (0xDC00 \<le> hex4 ?h \<and> hex4 ?h \<le> 0xDFFF)"
      using assms by (auto simp: unicode_of_def Let_def split: if_splits)
    then show ?thesis using small len False
      by (intro exI [of _ 4]) (auto simp: IsValidCodePoint_def MaxCodePoint_def IsSurrogate_def put8_def utf8_octets_def)
  qed
qed

lemma unicode_escape_spec:
  assumes "read \<le> end0" "end0 \<le> length t" "r = take (end0 - read) (drop read t)"
  shows "case unicode_of r of
      None \<Rightarrow> \<exists>p. unicode_escape t eo te read end0 = Some (Inl p)
    | Some (cp, r') \<Rightarrow> unicode_escape t eo te read end0 = Some (Inr (cp, end0 - length r'))"
proof (cases "end0 - read < 4")
  case True
  then show ?thesis using assms by (simp add: unicode_escape_def unicode_of_def Let_def)
next
  case False
  let ?h = "take 4 (drop read t)" and ?l = "take 4 (drop (read + 6) t)"
  have lr: "length r = end0 - read" using assms by simp
  have h: "take 4 r = ?h" using False assms by (simp add: min_def)
  have d: "DecodeHex4 t read = Some (if list_all IsHexDigit ?h then Some (hex4 ?h) else None)"
    using False assms by (intro DecodeHex4_spec) simp_all
  show ?thesis
  proof (cases "list_all IsHexDigit ?h \<and> 0xD800 \<le> hex4 ?h \<and> hex4 ?h \<le> 0xDBFF")
    case sur: True
    show ?thesis
    proof (cases "end0 - (read + 4) < 6")
      case True
      then show ?thesis using False sur d h lr by (simp add: unicode_escape_def unicode_of_def Let_def)
    next
      case long: False
      have l: "take 4 (drop 2 (drop 4 r)) = ?l" using long assms by (simp add: min_def drop_take add.commute)
      have dl: "DecodeHex4 t (read + 4 + 2) = Some (if list_all IsHexDigit ?l then Some (hex4 ?l) else None)"
        by (intro DecodeHex4_spec) (use long assms in \<open>simp_all add: add.commute\<close>)
      have "drop (read + 4) t = t ! (read + 4) # t ! (read + 5) # drop (read + 6) t"
        using long assms Cons_nth_drop_Suc [of "read + 4" t] Cons_nth_drop_Suc [of "read + 5" t] by (simp add: add.commute)
      then have u: "take 2 (drop 4 r) = [t ! (read + 4), t ! (read + 5)]" using long assms by (simp add: drop_take min_def add.commute numeral_2_eq_2)
      have len: "end0 - (end0 - (read + 10)) = read + 10" using long by simp
      have five: "t ! (5 + read) = t ! (read + 5)" by (simp add: add.commute)
      show ?thesis using False sur d h lr long l dl u len assms(2)
        by (auto simp: unicode_escape_def unicode_of_def Let_def span_at_def push_bit_eq_mult five)
    qed
  next
    case sur: False
    have "end0 - (end0 - (read + 4)) = read + 4" using False by simp
    then show ?thesis using False sur d h lr by (auto simp: unicode_escape_def unicode_of_def Let_def)
  qed
qed

function unescape :: "string \<Rightarrow> string option" where
  "unescape [] = Some []"
| "unescape (c # s) =
     (if c \<noteq> CHR 0x5C then map_option (Cons c) (unescape s)
      else case s of [] \<Rightarrow> None
        | k # r \<Rightarrow> (case simple_escape k of
            Some d \<Rightarrow> map_option (Cons d) (unescape r)
          | None \<Rightarrow> if k = CHR ''u''
                    then (case unicode_of r of None \<Rightarrow> None | Some (cp, r') \<Rightarrow> map_option (append (chars_of (put8 cp))) (unescape r'))
                    else None))"
  by pat_completeness auto
termination
  by (relation "measure length") (auto dest: unicode_of_shorter)

declare unescape.simps(2) [simp del]

lemma unescape_plain: "c \<noteq> CHR 0x5C \<Longrightarrow> unescape (c # s) = map_option (Cons c) (unescape s)"
  by (simp add: unescape.simps)

lemma unescape_length: "unescape s = Some r \<Longrightarrow> length r \<le> length s"
proof (induction s arbitrary: r rule: unescape.induct)
  case (2 c s)
  show ?case
  proof (cases "c = CHR 0x5C")
    case False
    then show ?thesis using 2 by (auto simp: unescape_plain)
  next
    case True
    then obtain k q where s: "s = k # q" using "2.prems" by (cases s) (auto simp: unescape.simps)
    show ?thesis
    proof (cases "simple_escape k")
      case (Some d)
      then show ?thesis using 2(3) [of k q d] "2.prems" True s by (auto simp: unescape.simps)
    next
      case None
      then obtain cp q' where u: "k = CHR ''u''" "unicode_of q = Some (cp, q')" using "2.prems" True s by (auto simp: unescape.simps split: if_splits option.splits)
      obtain n where n: "q' = drop n q" "n \<le> length q" "length (put8 cp) \<le> n + 2" using unicode_of_code [OF u(2)] by blast
      obtain r' where r: "r = chars_of (put8 cp) @ r'" "unescape q' = Some r'" using "2.prems" True s None u by (auto simp: unescape.simps)
      have "length r' \<le> length q'" using 2(2) [of k q "(cp, q')" cp q'] r True s None u by simp
      then show ?thesis using r n s by (simp add: chars_of_def)
    qed
  qed
qed simp

lemma hex_plain: "IsHexDigit c \<Longrightarrow> c \<noteq> CHR 0x22 \<and> c \<noteq> CHR 0x5C \<and> \<not> ord c < 0x20"
  by (auto simp: IsHexDigit_def char_arith)

lemma raw_length_hex: "list_all IsHexDigit h \<Longrightarrow> raw_length (h @ rest) = map_option ((+) (length h)) (raw_length rest)"
proof -
  assume "list_all IsHexDigit h"
  then have "c \<in> set h \<Longrightarrow> c \<noteq> CHR 0x22 \<and> c \<noteq> CHR 0x5C \<and> \<not> ord c < 0x20" for c using hex_plain by (auto simp: list_all_iff)
  then show ?thesis using raw_length_run [of h rest] by auto
qed

lemma simple_escape_u [simp]: "simple_escape (CHR ''u'') = None"
  by (simp add: simple_escape_def)

text \<open>A string of the grammar is one that the scan finds whole and that decodes.\<close>

lemma chars_text_raw: "chars_text t s \<Longrightarrow> raw_length (t @ CHR 0x22 # rest) = Some (length t) \<and> unescape t = Some s"
proof (induction rule: chars_text.induct)
  case (chars_escape e c t s)
  then show ?case by (simp add: unescape.simps)
next
  case (chars_unicode h t s)
  then have "unicode_of (h @ t) = Some (hex4 h, t)" by (auto simp: unicode_of_def Let_def)
  then show ?case using chars_unicode by (simp add: unescape.simps raw_length_hex)
next
  case (chars_pair h l t s)
  then have "unicode_of (h @ CHR 0x5C # CHR ''u'' # l @ t) = Some (0x10000 + (hex4 h - 0xD800) * 0x400 + (hex4 l - 0xDC00), t)"
    by (auto simp: unicode_of_def Let_def)
  moreover have "raw_length (h @ CHR 0x5C # CHR ''u'' # l @ t @ CHR 0x22 # rest) = Some (length h + (length l + length t + 2))"
    using chars_pair by (simp add: raw_length_hex)
  ultimately show ?case using chars_pair by (simp add: unescape.simps)
qed (auto simp: unescape_plain)

lemma raw_length_split: "raw_length (h @ r) = Some (length h + n) \<Longrightarrow> list_all IsHexDigit h \<Longrightarrow> raw_length r = Some n"
  by (auto simp: raw_length_hex)

lemma chars_text_unicode:
  assumes u: "unicode_of q = Some (cp, q')" and raw: "raw_length (q @ [CHR 0x22]) = Some (length q)"
    and IH: "raw_length (q' @ [CHR 0x22]) = Some (length q') \<Longrightarrow> chars_text q' s"
  shows "chars_text (CHR 0x5C # CHR ''u'' # q) (chars_of (put8 cp) @ s)"
proof -
  let ?h = "take 4 q" and ?r = "drop 4 q"
  have h: "length ?h = 4" "list_all IsHexDigit ?h" using u by (auto simp: unicode_of_def Let_def split: if_splits)
  have raw4: "raw_length (?r @ [CHR 0x22]) = Some (length ?r)"
    by (rule raw_length_split [of ?h]) (use raw h in \<open>simp_all flip: append_assoc\<close>)
  show ?thesis
  proof (cases "0xD800 \<le> hex4 ?h \<and> hex4 ?h \<le> 0xDBFF")
    case True
    define l where "l = take 4 (drop 2 ?r)"
    have l: "6 \<le> length ?r" "take 2 ?r = CHR 0x5C # ''u''" "list_all IsHexDigit l" "0xDC00 \<le> hex4 l" "hex4 l \<le> 0xDFFF"
      "cp = 0x10000 + (hex4 ?h - 0xD800) * 0x400 + (hex4 l - 0xDC00)" "q' = drop 6 ?r" "length l = 4"
      using u True by (auto simp: unicode_of_def Let_def l_def split: if_splits)
    have r: "?r = CHR 0x5C # CHR ''u'' # l @ q'"
      using append_take_drop_id [of 2 ?r] append_take_drop_id [of 4 "drop 2 ?r"] unfolding l(2, 7) l_def by simp
    have "raw_length (l @ q' @ [CHR 0x22]) = Some (length l + length q')" using raw4 unfolding r by auto
    then have "chars_text q' s" using IH raw_length_split l(3) by blast
    then have "chars_text (CHR 0x5C # CHR ''u'' # ?h @ CHR 0x5C # CHR ''u'' # l @ q') (chars_of (put8 cp) @ s)"
      unfolding l(6) using h l True by (intro chars_pair) auto
    then show ?thesis using append_take_drop_id [of 4 q] r by simp
  next
    case False
    then have c: "cp = hex4 ?h" "q' = ?r" "\<not> (0xD800 \<le> hex4 ?h \<and> hex4 ?h \<le> 0xDFFF)"
      using u by (auto simp: unicode_of_def Let_def split: if_splits)
    then have "chars_text q' s" using IH raw4 by simp
    then have "chars_text (CHR 0x5C # CHR ''u'' # ?h @ ?r) (chars_of (put8 cp) @ s)"
      unfolding c(1) using h c by (intro chars_unicode) auto
    then show ?thesis by simp
  qed
qed

lemma unescape_chars_text: "unescape t = Some s \<Longrightarrow> raw_length (t @ [CHR 0x22]) = Some (length t) \<Longrightarrow> chars_text t s"
proof (induction t arbitrary: s rule: unescape.induct)
  case 1 then show ?case by (simp add: chars_nil)
next
  case (2 c t)
  show ?case
  proof (cases "c = CHR 0x5C")
    case False
    then show ?thesis using 2(1) "2.prems" by (auto simp: unescape_plain intro!: chars_plain split: if_splits)
  next
    case True
    then obtain k q where t: "t = k # q" using "2.prems" by (cases t) (auto simp: unescape.simps)
    have raw: "raw_length (q @ [CHR 0x22]) = Some (length q)" using "2.prems"(2) True t by auto
    show ?thesis
    proof (cases "simple_escape k")
      case (Some d)
      then show ?thesis using 2(3) [of k q d] "2.prems" True t raw by (auto simp: unescape.simps intro: chars_escape)
    next
      case None
      then obtain cp q' where u: "k = CHR ''u''" "unicode_of q = Some (cp, q')" using "2.prems" True t by (auto simp: unescape.simps split: if_splits option.splits)
      obtain s' where s: "s = chars_of (put8 cp) @ s'" "unescape q' = Some s'" using "2.prems" True t None u by (auto simp: unescape.simps)
      have "raw_length (q' @ [CHR 0x22]) = Some (length q') \<Longrightarrow> chars_text q' s'" using 2(2) [of k q "(cp, q')" cp q' s'] s True t None u by simp
      then show ?thesis using chars_text_unicode [OF u(2) raw] u t True s by simp
    qed
  qed
qed

section \<open>The decoding loop\<close>

text \<open>A text with some characters overwritten from an offset on.\<close>

definition overwrite :: "nat \<Rightarrow> 'a list \<Rightarrow> 'a list \<Rightarrow> 'a list" where
  "overwrite w s t = take w t @ s @ drop (w + length s) t"

lemma overwrite_Nil [simp]: "overwrite w [] t = t"
  by (simp add: overwrite_def)

lemma length_overwrite [simp]: "w + length s \<le> length t \<Longrightarrow> length (overwrite w s t) = length t"
  by (simp add: overwrite_def)

lemma overwrite_overwrite: "w + length a \<le> length t \<Longrightarrow> overwrite (w + length a) b (overwrite w a t) = overwrite w (a @ b) t"
  by (simp add: overwrite_def add.commute add.left_commute)

lemma drop_overwrite: "w + length s \<le> n \<Longrightarrow> w + length s \<le> length t \<Longrightarrow> drop n (overwrite w s t) = drop n t"
  by (simp add: overwrite_def)

lemma take_overwrite: "n \<le> w \<Longrightarrow> w + length s \<le> length t \<Longrightarrow> take n (overwrite w s t) = take n t"
  by (simp add: overwrite_def min_def)

lemma overwrite_read: "w + length s \<le> length t \<Longrightarrow> take (length s) (drop w (overwrite w s t)) = s"
  by (simp add: overwrite_def)

text \<open>Both modes at once: the buffer that is written, and the buffers after it is replaced.\<close>

definition target :: "bool \<Rightarrow> 'a \<times> 'a \<Rightarrow> 'a" where
  "target inPlace b = (if inPlace then fst b else snd b)"

definition store :: "bool \<Rightarrow> 'a \<times> 'a \<Rightarrow> 'a \<Rightarrow> 'a \<times> 'a" where
  "store inPlace b x = (if inPlace then (x, x) else (fst b, x))"

lemma store_simps [simp]: "target ip (store ip b x) = x" "store ip (store ip b x) y = store ip b y"
  by (simp_all add: target_def store_def)

lemma store_target: "(ip \<Longrightarrow> fst b = snd b) \<Longrightarrow> store ip b (target ip b) = b"
  by (cases b) (auto simp: target_def store_def)

lemma put_at_spec: "w < length (target ip b) \<Longrightarrow> put_at ip b w c = Some (store ip b (overwrite w [c] (target ip b)))"
  by (cases b) (auto simp: put_at_def target_def store_def span_put_in overwrite_def upd_conv_take_nth_drop)

lemma chars_bytes [simp]: "chars_of (bytes_of s) = s"
  by (induction s) (simp_all add: chars_of_def bytes_of_def unat_byte_of_nat)

lemma bytes_append [simp]: "bytes_of (a @ b) = bytes_of a @ bytes_of b" "chars_of (x @ y) = chars_of x @ chars_of y"
  by (simp_all add: bytes_of_def chars_of_def)

lemma length_bytes [simp]: "length (bytes_of s) = length s" "length (chars_of x) = length x"
  by (simp_all add: bytes_of_def chars_of_def)

lemma drop_bytes: "drop n (bytes_of s) = bytes_of (drop n s)"
  by (simp add: bytes_of_def drop_map)

lemma put_utf8_spec:
  assumes "IsValidCodePoint cp" "w + length (put8 cp) \<le> length (target ip b)"
  shows "put_utf8 ip b w cp = Some (store ip b (overwrite w (chars_of (put8 cp)) (target ip b)), length (put8 cp))"
proof -
  let ?t = "target ip b"
  have "EncodeUtf8 cp (bytes_of (drop w ?t)) = emit ([] @ bytes_of (drop w ?t), length ([] :: bytes)) (put8 cp)"
    using assms(1) EncodeUtf8_octets [of cp cp] by simp
  also have "\<dots> = Some (put8 cp @ bytes_of (drop (w + length (put8 cp)) ?t), length (put8 cp))"
    using assms(2) by (subst emit_spec) (simp_all add: drop_bytes add.commute)
  finally show ?thesis by (cases b) (simp add: put_utf8_def Let_def target_def store_def overwrite_def split: if_splits)
qed

text \<open>A write leaves the text behind the reading position alone.\<close>

lemma store_unread:
  assumes "ip \<Longrightarrow> w + length s \<le> read" "w + length s \<le> length (target ip b)"
  shows "drop read (fst (store ip b (overwrite w s (target ip b)))) = drop read (fst b)"
  using assms by (auto simp: store_def target_def drop_overwrite)

lemma store_length:
  assumes "w + length s \<le> length (target ip b)"
  shows "length (fst (store ip b (overwrite w s (target ip b)))) = length (fst b)"
  using assms by (auto simp: store_def target_def)

definition decoded_to :: "bool \<Rightarrow> string \<times> string \<Rightarrow> nat \<Rightarrow> string option \<Rightarrow> (problem \<times> string \<times> string + (string \<times> string) \<times> nat) option \<Rightarrow> bool" where
  "decoded_to ip b w r m \<longleftrightarrow> (case r of
      None \<Rightarrow> \<exists>p b'. m = Some (Inl (p, b'))
    | Some s \<Rightarrow> m = Some (Inr (store ip b (overwrite w s (target ip b)), w + length s)))"

text \<open>A step that writes \<open>x\<close> and goes on behind \<open>n\<close> characters.\<close>

lemma decoded_step:
  assumes IH: "\<And>b w. (ip \<Longrightarrow> w \<le> end0 - length q) \<Longrightarrow> (ip \<Longrightarrow> fst b = snd b) \<Longrightarrow> end0 \<le> length (fst b) \<Longrightarrow>
      take (length q) (drop (end0 - length q) (fst b)) = q \<Longrightarrow> w + length q \<le> length (target ip b) \<Longrightarrow>
      decoded_to ip b w (unescape q) (DecodeString ip te b (end0 - length q) end0 w)"
    and ip: "ip \<Longrightarrow> w \<le> read" "ip \<Longrightarrow> fst b = snd b" and len: "read \<le> end0" "end0 \<le> length (fst b)"
    and seg: "take (end0 - read) (drop read (fst b)) = pre @ q" and x: "length x \<le> length pre"
    and cap: "w + (end0 - read) \<le> length (target ip b)"
  shows "decoded_to ip b w (map_option (append x) (unescape q))
    (DecodeString ip te (store ip b (overwrite w x (target ip b))) (end0 - length q) end0 (w + length x))"
proof -
  let ?b = "store ip b (overwrite w x (target ip b))"
  have l: "end0 - read = length pre + length q" using arg_cong [OF seg, of length] len by simp
  have fit: "w + length x \<le> length (target ip b)" using cap l x by simp
  have pos: "end0 - length q = read + length pre" using l len by simp
  have un: "drop (end0 - length q) (fst ?b) = drop (end0 - length q) (fst b)"
    using ip(1) pos x fit by (intro store_unread) auto
  have "take (length q) (drop (end0 - length q) (fst b)) = drop (length pre) (take (end0 - read) (drop read (fst b)))"
    unfolding pos drop_take l by (simp add: add.commute)
  then have "take (length q) (drop (end0 - length q) (fst ?b)) = q" unfolding un seg by simp
  then have "decoded_to ip ?b (w + length x) (unescape q) (DecodeString ip te ?b (end0 - length q) end0 (w + length x))"
    using ip pos x fit len cap l by (intro IH) (auto simp: store_length, auto simp: store_def)
  then show ?thesis using fit
    by (auto simp: decoded_to_def overwrite_overwrite split: option.splits)
qed

lemma append_one: "(@) [c] = (#) c"
  by (simp add: fun_eq_iff)

text \<open>The first characters of what is left to read.\<close>

lemma segment_Cons:
  assumes "take (end0 - read) (drop read t) = c # q" "end0 \<le> length t"
  shows "read < end0" "span_at t read = Some c" "take (end0 - (read + 1)) (drop (read + 1) t) = q"
proof -
  show r: "read < end0" using assms(1) by (cases "read < end0") auto
  then have "drop read t = t ! read # drop (read + 1) t" "end0 - read = Suc (end0 - (read + 1))" using assms(2) by (simp_all add: Cons_nth_drop_Suc)
  then have "t ! read = c \<and> take (end0 - (read + 1)) (drop (read + 1) t) = q" using assms(1) by (simp only: take_Suc_Cons) simp
  then show "span_at t read = Some c" "take (end0 - (read + 1)) (drop (read + 1) t) = q" using r assms(2) by (simp_all add: span_at_def)
qed

text \<open>The loop at an escape.\<close>

lemma DecodeString_escape:
  assumes "span_at (fst b) read = Some (CHR 0x5C)" "span_at (fst b) (read + 1) = Some k" "read + 1 < end0" "w < length (target ip b)"
  shows "DecodeString ip te b read end0 w = (case simple_escape k of
      Some d \<Rightarrow> DecodeString ip te (store ip b (overwrite w [d] (target ip b))) (read + 2) end0 (w + 1)
    | None \<Rightarrow> if k = CHR ''u''
        then do { r \<leftarrow> unicode_escape (fst b) read te (read + 2) end0;
          case r of
            Inl p \<Rightarrow> Some (Inl (p, b))
          | Inr (cp0, read) \<Rightarrow> do { (buffers, n) \<leftarrow> put_utf8 ip b w cp0; DecodeString ip te buffers read end0 (w + n) } }
        else Some (Inl ((InvalidStringEscape, ''Invalid JSON string escape'', read, read + 2), b)))"
  using assms put_at_spec [OF assms(4)] by (subst DecodeString.simps) (simp split: option.split)

lemma DecodeString_unicode:
  assumes "unicode_of q = Some (cp, q')" "q = take (end0 - (read + 2)) (drop (read + 2) (fst b))" "read + 1 < end0" "end0 \<le> length (fst b)"
    "span_at (fst b) read = Some (CHR 0x5C)" "span_at (fst b) (read + 1) = Some (CHR ''u'')" "w + (end0 - read) \<le> length (target ip b)"
  shows "DecodeString ip te b read end0 w =
    DecodeString ip te (store ip b (overwrite w (chars_of (put8 cp)) (target ip b))) (end0 - length q') end0 (w + length (put8 cp))"
proof -
  have e: "unicode_escape (fst b) read te (read + 2) end0 = Some (Inr (cp, end0 - length q'))"
    using unicode_escape_spec [of "read + 2" end0 "fst b" q read te] assms(1-4) by simp
  obtain n where n: "n \<le> length q" "IsValidCodePoint cp" "length (put8 cp) \<le> n + 2" using unicode_of_code [OF assms(1)] by blast
  have "length q = end0 - (read + 2)" using assms(2-4) by simp
  then have "w + length (put8 cp) \<le> length (target ip b)" using n assms(3, 7) by linarith
  note put = put_utf8_spec [OF n(2) this]
  have "w < length (target ip b)" using assms(3, 7) by linarith
  from DecodeString_escape [OF assms(5, 6, 3) this] show ?thesis using e put by simp
qed

lemma DecodeString_spec:
  assumes "ip \<Longrightarrow> w \<le> read" "ip \<Longrightarrow> fst b = snd b" "read \<le> end0" "end0 \<le> length (fst b)"
    "take (end0 - read) (drop read (fst b)) = q" "w + (end0 - read) \<le> length (target ip b)"
  shows "decoded_to ip b w (unescape q) (DecodeString ip te b read end0 w)"
  using assms
proof (induction "length q" arbitrary: q b read w rule: less_induct)
  case less
  have lq: "length q = end0 - read" using less.prems(3-5) by auto
  have go: "decoded_to ip b w (map_option (append x) (unescape q'))
      (DecodeString ip te (store ip b (overwrite w x (target ip b))) (end0 - length q') end0 (w + length x))"
    if "q = pre @ q'" "length x \<le> length pre" "0 < length pre" for pre q' x
  proof (rule decoded_step [of ip end0 q' te w read b pre x])
    fix b w assume "ip \<Longrightarrow> w \<le> end0 - length q'" "ip \<Longrightarrow> fst b = snd b" "end0 \<le> length (fst b)"
      "take (length q') (drop (end0 - length q') (fst b)) = q'" "w + length q' \<le> length (target ip b)"
    then show "decoded_to ip b w (unescape q') (DecodeString ip te b (end0 - length q') end0 w)"
      using that lq less.prems(3) by (intro less.hyps) (auto simp del: length_greater_0_conv)
  qed (use less.prems that in auto)
  consider "q = []" | c q1 where "q = c # q1" "c \<noteq> CHR 0x5C" | "q = [CHR 0x5C]" | k q2 where "q = CHR 0x5C # k # q2"
    by (metis neq_Nil_conv)
  then show ?case
  proof cases
    case 1
    then have "\<not> read < end0" using lq by simp
    then show ?thesis using 1 store_target [OF less.prems(2)] by (subst DecodeString.simps) (simp add: decoded_to_def)
  next
    case (2 c q1)
    note c = segment_Cons [of end0 read "fst b" c q1, OF _ less.prems(4)]
    have w0: "w < length (target ip b)" using less.prems(6) c(1) 2 less.prems(5) by simp
    have "end0 - length q1 = read + 1" using 2 lq c(1) less.prems(5) by simp
    then have "decoded_to ip b w (map_option (Cons c) (unescape q1)) (DecodeString ip te (store ip b (overwrite w [c] (target ip b))) (read + 1) end0 (w + 1))"
      using go [of "[c]" q1 "[c]"] 2 by (simp add: append_one)
    then show ?thesis using 2 c(1, 2) less.prems(5) put_at_spec [OF w0] by (subst DecodeString.simps) (simp add: unescape_plain)
  next
    case 3
    note c = segment_Cons [of end0 read "fst b" "CHR 0x5C" "[]", OF _ less.prems(4)]
    have "\<not> read + 1 < end0" using 3 lq by simp
    then show ?thesis using 3 c(1, 2) less.prems(5) by (subst DecodeString.simps) (simp add: decoded_to_def unescape.simps)
  next
    case (4 k q2)
    have c: "span_at (fst b) read = Some (CHR 0x5C)" "take (end0 - (read + 1)) (drop (read + 1) (fst b)) = k # q2"
      using segment_Cons [of end0 read "fst b" "CHR 0x5C" "k # q2", OF _ less.prems(4)] 4 less.prems(5) by simp_all
    have k: "read + 1 < end0" "span_at (fst b) (read + 1) = Some k" "take (end0 - (read + 2)) (drop (read + 2) (fst b)) = q2"
      using segment_Cons [OF c(2) less.prems(4)] by simp_all
    have w0: "w < length (target ip b)" using less.prems(6) k(1) by simp
    note un = DecodeString_escape [OF c(1) k(2, 1) w0]
    show ?thesis
    proof (cases "simple_escape k")
      case (Some d)
      have "end0 - length q2 = read + 2" using 4 lq k(1) by simp
      then have "decoded_to ip b w (map_option (Cons d) (unescape q2)) (DecodeString ip te (store ip b (overwrite w [d] (target ip b))) (read + 2) end0 (w + 1))"
        using go [of "[CHR 0x5C, k]" q2 "[d]"] 4 by (simp add: append_one)
      then show ?thesis using un Some 4 by (simp add: unescape.simps)
    next
      case None
      consider "k \<noteq> CHR ''u''" | "k = CHR ''u''" "unicode_of q2 = None" | cp q' where "k = CHR ''u''" "unicode_of q2 = Some (cp, q')"
        by (metis option.exhaust surj_pair)
      then show ?thesis
      proof cases
        case 1
        then show ?thesis using un None 4 by (simp add: unescape.simps decoded_to_def)
      next
        case 2
        then show ?thesis using un None 4 unicode_escape_spec [of "read + 2" end0 "fst b" q2 read te] k less.prems(4)
          by (auto simp: unescape.simps decoded_to_def)
      next
        case (3 cp q')
        obtain n where n: "q' = drop n q2" "n \<le> length q2" "length (put8 cp) \<le> n + 2" using unicode_of_code [OF 3(2)] by blast
        have "q = (CHR 0x5C # k # take n q2) @ q'" using 4 n by simp
        from go [OF this, of "chars_of (put8 cp)"] show ?thesis
          using DecodeString_unicode [OF 3(2) k(3) [symmetric] k(1) less.prems(4) c(1) _ less.prems(6)] n k(2) 3 4
          by (simp add: unescape.simps)
      qed
    qed
  qed
qed

end
