(* ===== verification/JSON_Context.thy ===== *)
theory JSON_Context
  imports JSON_Strings
begin

text \<open>
  How a document grows while it is parsed. What was read and stored stays readable (\<open>extends\<close>), so a node keeps its value; calls move the cursor over the text they read (\<open>reads\<close>),
  and in-place decoding changes no text that is still to be read. The decoded string of \<open>ParseString\<close> goes to room that nothing refers to yet.
\<close>

section \<open>Growth of a document\<close>

definition extends :: "nat \<Rightarrow> 'f DocumentState \<Rightarrow> nat \<Rightarrow> 'f DocumentState \<Rightarrow> bool" where
  "extends n st n' st' \<longleftrightarrow>
     (\<forall>a. settled n st a \<le> settled n' st' a \<and> take (settled n st a) (buffer st' a) = take (settled n st a) (buffer st a)) \<and>
     (\<exists>xs. elems (nodes st') = elems (nodes st) @ xs) \<and> (\<exists>xs. elems (elements st') = elems (elements st) @ xs) \<and>
     (\<exists>xs. elems (members st') = elems (members st) @ xs)"

lemma extends_refl [simp]: "extends n st n st"
  by (auto simp: extends_def)

lemma extends_trans:
  assumes "extends n st n' st'" "extends n' st' n'' st''"
  shows "extends n st n'' st''"
proof -
  have "take (settled n st a) (buffer st'' a) = take (settled n st a) (buffer st a)" for a
  proof -
    have le: "settled n st a \<le> settled n' st' a" using assms(1) by (simp add: extends_def)
    have "take (settled n st a) (buffer st'' a) = take (settled n st a) (take (settled n' st' a) (buffer st'' a))" using le by (simp add: min_def)
    also have "\<dots> = take (settled n st a) (take (settled n' st' a) (buffer st' a))" using assms(2) by (simp add: extends_def)
    finally show ?thesis using le assms(1) by (simp add: min_def extends_def)
  qed
  then show ?thesis using assms unfolding extends_def by (fastforce intro: order_trans)
qed

lemma key_is_extends:
  assumes "extends n st n' st'" "key_is n st r s"
  shows "key_is n' st' r s"
proof -
  let ?k = "settled n st (ref_area r)"
  have e: "?k \<le> settled n' st' (ref_area r)" "take ?k (buffer st' (ref_area r)) = take ?k (buffer st (ref_area r))" using assms(1) by (simp_all add: extends_def)
  have r: "ref_data r + ref_size r \<le> ?k" using assms(2) by (simp add: key_is_def ref_ok_def)
  have v: "View st r = take (ref_size r) (drop (ref_data r) (take ?k (buffer st (ref_area r))))" for st :: "'a DocumentState"
    using r by (simp add: View_def drop_take min_def)
  have "View st' r = View st r" unfolding v e(2) ..
  then show ?thesis using assms(2) e(1) r by (simp add: key_is_def ref_ok_def)
qed

lemma NodeAt_extends: "extends n st n' st' \<Longrightarrow> NodeAt st i = Some x \<Longrightarrow> NodeAt st' i = Some x"
  by (auto simp: extends_def NodeAt_def nth_append split: if_splits)

lemma denotes_extends:
  assumes "extends n st n' st'" "denotes n st i v"
  shows "denotes n' st' i v"
  using assms(2)
proof (induction rule: denotes.induct)
  case (denotes_array i x b vs)
  obtain xs where "elems (elements st') = elems (elements st) @ xs" using assms(1) by (auto simp: extends_def)
  then have "take (length vs) (drop b (elems (elements st'))) = take (length vs) (drop b (elems (elements st)))" "b + length vs \<le> length (elems (elements st'))"
    using denotes_array(4) by simp_all
  then show ?case using denotes_array NodeAt_extends [OF assms(1)]
    by (intro denotes.denotes_array [of _ _ x b]) (auto elim: list_all2_mono)
next
  case (denotes_object i x b ms)
  obtain xs where "elems (members st') = elems (members st) @ xs" using assms(1) by (auto simp: extends_def)
  then have "take (length ms) (drop b (elems (members st'))) = take (length ms) (drop b (elems (members st)))" "b + length ms \<le> length (elems (members st'))"
    using denotes_object(4) by simp_all
  then show ?case using denotes_object NodeAt_extends [OF assms(1)] key_is_extends [OF assms(1)]
    by (intro denotes.denotes_object [of _ _ x b]) (auto elim: list_all2_mono)
qed (use NodeAt_extends [OF assms(1)] key_is_extends [OF assms(1)] in \<open>auto intro: denotes.intros\<close>)

text \<open>A node has one value.\<close>

lemma list_all2_unique:
  assumes "list_all2 (\<lambda>x y. P x y \<and> (\<forall>z. P x z \<longrightarrow> y = z)) xs ys" "list_all2 P xs zs"
  shows "ys = zs"
  using assms by (induction xs ys arbitrary: zs rule: list_all2_induct) (auto simp: list_all2_Cons1)

lemma denotes_unique: "denotes n st i v \<Longrightarrow> denotes n st i w \<Longrightarrow> v = w"
proof (induction arbitrary: w rule: denotes.induct)
  case (denotes_array i x b vs)
  from denotes_array.prems denotes_array.hyps(1-3) obtain ws where w: "w = JArray ws" "length ws = length vs"
    "list_all2 (denotes n st) (take (length ws) (drop b (elems (elements st)))) ws" by (auto elim: denotes.cases)
  have "list_all2 (\<lambda>y z. denotes n st y z \<and> (\<forall>u. denotes n st y u \<longrightarrow> z = u)) (take (length vs) (drop b (elems (elements st)))) vs"
    using denotes_array(5) by (rule list_all2_mono) blast
  from list_all2_unique [OF this] w show ?case by auto
next
  case (denotes_object i x b ms)
  let ?P = "\<lambda>m (k, v). key_is n st (member_key m) k \<and> denotes n st (member_value m) v"
  from denotes_object.prems denotes_object.hyps(1-3) obtain ws where w: "w = JObject ws" "length ws = length ms"
    "list_all2 ?P (take (length ws) (drop b (elems (members st)))) ws" by (auto elim: denotes.cases)
  have "list_all2 (\<lambda>m kv. ?P m kv \<and> (\<forall>u. ?P m u \<longrightarrow> kv = u)) (take (length ms) (drop b (elems (members st)))) ms"
    using denotes_object(5) by (rule list_all2_mono) (auto simp: key_is_def)
  from list_all2_unique [OF this] w show ?case by auto
qed (auto elim: denotes.cases simp: key_is_def)

section \<open>Progress of a context\<close>

definition ctx_ok :: "('u, 'f) ParseContext \<Rightarrow> bool" where
  "ctx_ok ctx \<longleftrightarrow> off ctx \<le> length (tx ctx) \<and> (\<forall>b\<in>set (m_blocks (arena (doc ctx))). block_used b \<le> length (block_data b))"

definition frame :: "('u, 'f) ParseContext \<Rightarrow> ('u, 'f) ParseContext \<Rightarrow> bool" where
  "frame ctx ctx' \<longleftrightarrow> opts ctx' = opts ctx \<and> length (tx ctx') = length (tx ctx) \<and> off ctx \<le> off ctx' \<and>
     unread ctx' = drop (off ctx') (tx ctx) \<and> extends (off ctx) (doc ctx) (off ctx') (doc ctx') \<and> ctx_ok ctx'"

lemma frame_refl: "ctx_ok ctx \<Longrightarrow> frame ctx ctx"
  by (simp add: frame_def)

lemma frame_trans:
  assumes "frame ctx ctx'" "frame ctx' ctx''"
  shows "frame ctx ctx''"
proof -
  have "unread ctx'' = drop (off ctx'' - off ctx') (unread ctx')" using assms(2) by (simp add: frame_def)
  also have "\<dots> = drop (off ctx'') (tx ctx)" using assms by (simp add: frame_def)
  finally show ?thesis using assms extends_trans [of "off ctx" "doc ctx" "off ctx'" "doc ctx'"] by (auto simp: frame_def)
qed

lemma frameD:
  assumes "frame ctx ctx'"
  shows "opts ctx' = opts ctx" "off ctx \<le> off ctx'" "ctx_ok ctx'" "extends (off ctx) (doc ctx) (off ctx') (doc ctx')"
    "unread ctx' = drop (off ctx' - off ctx) (unread ctx)"
  using assms by (simp_all add: frame_def)

text \<open>What the calls between two positions read.\<close>

definition reads :: "('u, 'f) ParseContext \<Rightarrow> string \<Rightarrow> ('u, 'f) ParseContext \<Rightarrow> bool" where
  "reads ctx u ctx' \<longleftrightarrow> frame ctx ctx' \<and> unread ctx = u @ unread ctx' \<and> off ctx' = off ctx + length u"

lemma reads_trans: "reads ctx u ctx' \<Longrightarrow> reads ctx' w ctx'' \<Longrightarrow> reads ctx (u @ w) ctx''"
  by (auto simp: reads_def intro: frame_trans)

lemma reads_refl: "ctx_ok ctx \<Longrightarrow> reads ctx [] ctx"
  by (simp add: reads_def frame_refl)

lemma readsI: "frame ctx ctx' \<Longrightarrow> off ctx' = off ctx + length u \<Longrightarrow> unread ctx = u @ s \<Longrightarrow> reads ctx u ctx' \<and> unread ctx' = s"
  using frameD(5) [of ctx ctx'] by (auto simp: reads_def)

lemma settled_mono: "n \<le> n' \<Longrightarrow> settled n st a \<le> settled n' st a"
  by (auto simp: settled_def split: area.split)

lemma extends_offset: "n \<le> n' \<Longrightarrow> extends n st n' st"
  by (simp add: extends_def settled_mono)

lemma frame_moved:
  assumes "ctx_ok ctx" "moved ctx n ctx'" "n \<le> length (unread ctx)"
  shows "frame ctx ctx'"
  using assms movedD [OF assms(2)] by (auto simp: frame_def ctx_ok_def extends_offset add.commute)

lemma reads_moved:
  assumes "ctx_ok ctx" "moved ctx (length u) ctx'" "unread ctx = u @ s"
  shows "reads ctx u ctx'" "unread ctx' = s"
proof -
  have "frame ctx ctx'" using assms by (intro frame_moved [of _ "length u"]) simp_all
  then show "reads ctx u ctx'" "unread ctx' = s" using readsI [of ctx ctx' u s] movedD(3) [OF assms(2)] assms(3) by simp_all
qed

lemma reads_advance: "ctx_ok ctx \<Longrightarrow> unread ctx = u @ s \<Longrightarrow> n = length u \<Longrightarrow> reads ctx u (advance n ctx) \<and> unread (advance n ctx) = s"
  using reads_moved [of ctx u "advance n ctx" s] moved_advance [of n ctx] by simp

text \<open>Changes that do not concern the text read so far.\<close>

lemma reads_update:
  assumes "reads ctx u ctx'" "cursor ctx'' = cursor ctx'" "opts ctx'' = opts ctx'" "tx ctx'' = tx ctx'" "arena (doc ctx'') = arena (doc ctx')"
    "extends (off ctx') (doc ctx') (off ctx') (doc ctx'')"
  shows "reads ctx u ctx''"
proof -
  have "frame ctx' ctx''" using assms by (auto simp: reads_def frame_def ctx_ok_def)
  then show ?thesis using assms by (auto simp: reads_def intro: frame_trans)
qed

section \<open>Room for decoded strings\<close>

definition blocks_ok :: "SegmentedArena \<Rightarrow> bool" where
  "blocks_ok ar \<longleftrightarrow> (\<forall>b\<in>set (m_blocks ar). block_used b \<le> length (block_data b))"

definition used_at :: "SegmentedArena \<Rightarrow> nat \<Rightarrow> nat" where
  "used_at ar k = (if k < length (m_blocks ar) then block_used (m_blocks ar ! k) else 0)"

definition data_at :: "SegmentedArena \<Rightarrow> nat \<Rightarrow> string" where
  "data_at ar k = (if k < length (m_blocks ar) then block_data (m_blocks ar ! k) else [])"

text \<open>An allocation takes bytes behind the used ones of a block and leaves the bytes as they are.\<close>

definition allocated :: "SegmentedArena \<Rightarrow> nat \<Rightarrow> nat \<Rightarrow> nat \<Rightarrow> SegmentedArena \<Rightarrow> bool" where
  "allocated ar k p n ar' \<longleftrightarrow> blocks_ok ar' \<and> k < length (m_blocks ar') \<and> used_at ar k \<le> p \<and> p + n \<le> used_at ar' k \<and>
     (\<forall>j. used_at ar j \<le> used_at ar' j \<and> take (used_at ar j) (data_at ar' j) = take (used_at ar j) (data_at ar j))"

lemma TryAllocate_allocated:
  assumes "TryAllocate n 1 ar = Some ((k, p), ar')" "m_blocks ar \<noteq> []" "blocks_ok ar"
  shows "allocated ar k p n ar'"
proof -
  let ?b = "last (m_blocks ar)" and ?k = "length (m_blocks ar) - 1"
  have fit: "block_used ?b \<le> 2 ^ 64 - 1" using assms(1) by (auto simp: TryAllocate_def Let_def split: if_splits)
  have al: "unat ((word_of_nat (block_used ?b + 0) :: u64) AND NOT (word_of_nat 0)) = block_used ?b"
    using fit by (simp add: unsigned_of_nat take_bit_nat_eq_self_iff)
  have r: "k = ?k" "p = block_used ?b" "p + n \<le> length (block_data ?b)" "m_blocks ar' = (m_blocks ar)[?k := ?b\<lparr>block_used := p + n\<rparr>]"
    using assms(1) al by (auto simp: TryAllocate_def Let_def split: if_splits)
  have l: "?b = m_blocks ar ! ?k" "?k < length (m_blocks ar)" using assms(2) by (simp_all add: last_conv_nth)
  have "blocks_ok ar'" using assms(3) r l by (auto simp: blocks_ok_def dest!: set_update_subset_insert [THEN subsetD])
  then show ?thesis using r l by (auto simp: allocated_def used_at_def data_at_def nth_list_update)
qed

lemma Arena_Allocate_allocated:
  assumes "Arena_Allocate pl n 1 ar u = (Some (k, p), ar', u')" "blocks_ok ar"
  shows "allocated ar k p n ar'"
proof (cases "m_blocks ar \<noteq> [] \<and> TryAllocate n 1 ar \<noteq> None")
  case True
  then obtain q ar1 where t: "TryAllocate n 1 ar = Some (q, ar1)" by auto
  then have "q = (k, p)" "ar1 = ar'" using assms(1) True by (auto simp: Arena_Allocate_def Arena_NormalizeAlignment_def split: if_splits)
  then show ?thesis using TryAllocate_allocated t True assms(2) by blast
next
  case False
  then have none: "(if m_blocks ar \<noteq> [] then TryAllocate n 1 ar else None) = None" by argo
  obtain bd ar1 where t: "TryAllocate n 1 ar1 = Some ((k, p), ar')" "m_blocks ar1 = m_blocks ar @ [\<lparr>block_data = bd, block_used = 0\<rparr>]"
    using assms(1) none by (auto simp: Arena_Allocate_def Arena_NormalizeAlignment_def Let_def split: if_splits option.splits)
  have "blocks_ok ar1" using assms(2) t(2) by (auto simp: blocks_ok_def)
  then have al: "allocated ar1 k p n ar'" using TryAllocate_allocated [OF t(1)] t(2) by simp
  have "used_at ar1 j = used_at ar j" "take (used_at ar j) (data_at ar1 j) = take (used_at ar j) (data_at ar j)" for j
    using t(2) by (auto simp: used_at_def data_at_def nth_append)
  then show ?thesis using al by (auto simp: allocated_def)
qed

lemma Scratch_TryAllocate_room:
  assumes "Scratch_TryAllocate pl n s u = (Some p, s', u')"
  shows "p = length (elems s)" "elems s' = elems s @ replicate n NUL"
  using assms by (auto simp: Scratch_TryAllocate_def vec_reserve_def Let_def split: if_splits option.splits)

lemma settled_used: "settled m st (Block k) = used_at (arena st) k" "buffer st (Block k) = data_at (arena st) k"
  by (simp_all add: settled_def used_at_def buffer_def data_at_def)

text \<open>Where a string of at most \<open>n\<close> characters may go: over its own text, or to bytes that nothing refers to yet.\<close>

definition room :: "nat \<Rightarrow> nat \<Rightarrow> ('u, 'f) ParseContext \<Rightarrow> area \<Rightarrow> nat \<Rightarrow> nat \<Rightarrow> ('u, 'f) ParseContext \<Rightarrow> bool" where
  "room m ts ctx a p n ctx' \<longleftrightarrow>
     cursor ctx' = cursor ctx \<and> opts ctx' = opts ctx \<and> tx ctx' = tx ctx \<and> ctx_ok ctx' \<and> extends m (doc ctx) m (doc ctx') \<and>
     (if a = Source then p = ts + 1
      else settled m (doc ctx) a \<le> p \<and> p + n \<le> settled m (doc ctx') a \<and> settled m (doc ctx') a \<le> length (buffer (doc ctx') a)) \<and>
     (\<forall>k. a = Block k \<longrightarrow> k < length (m_blocks (arena (doc ctx')))) \<and> (a = Scratch \<longrightarrow> scratch_bytes (doc ctx') \<noteq> None)"

lemma AllocateOutput_room:
  assumes "AllocateOutput lib ts n ctx = (Some (a, p), ctx')" "ctx_ok ctx"
  shows "room m ts ctx a p n ctx'"
proof -
  consider "mutableBase ctx" | "\<not> mutableBase ctx" "useScratch ctx" | "\<not> mutableBase ctx" "\<not> useScratch ctx" by blast
  then show ?thesis
  proof cases
    case 1
    then show ?thesis using assms by (auto simp: AllocateOutput_def room_def)
  next
    case 2
    then obtain s s' u' where s: "scratch_bytes (doc ctx) = Some s" "Scratch_TryAllocate (platform.truncate lib) n s (env ctx) = (Some p, s', u')"
      "a = Scratch" "ctx' = ctx\<lparr>doc := (doc ctx)\<lparr>scratch_bytes := Some s'\<rparr>, env := u'\<rparr>"
      using assms(1) by (auto simp: AllocateOutput_def split: option.splits prod.splits)
    note room = Scratch_TryAllocate_room [OF s(2)]
    have "extends m (doc ctx) m (doc ctx')" using s room by (auto simp: extends_def settled_def buffer_def split: area.split)
    then show ?thesis using s room assms(2) by (simp add: room_def ctx_ok_def settled_def buffer_def)
  next
    case 3
    then obtain k ar u' where s: "Arena_Allocate (platform.truncate lib) n 1 (arena (doc ctx)) (env ctx) = (Some (k, p), ar, u')"
      "a = Block k" "ctx' = ctx\<lparr>doc := (doc ctx)\<lparr>arena := ar\<rparr>, env := u'\<rparr>"
      using assms(1) by (auto simp: AllocateOutput_def split: option.splits prod.splits)
    have al: "allocated (arena (doc ctx)) k p n ar" using Arena_Allocate_allocated [OF s(1)] assms(2) by (simp add: blocks_ok_def ctx_ok_def)
    have o: "settled m (doc ctx') x = settled m (doc ctx) x \<and> buffer (doc ctx') x = buffer (doc ctx) x" if "\<forall>j. x \<noteq> Block j" for x
      using that s(3) by (cases x) (auto simp: settled_def buffer_def)
    have "extends m (doc ctx) m (doc ctx')" unfolding extends_def
    proof (intro conjI allI)
      fix x show "settled m (doc ctx) x \<le> settled m (doc ctx') x" "take (settled m (doc ctx) x) (buffer (doc ctx') x) = take (settled m (doc ctx) x) (buffer (doc ctx) x)"
        using o [of x] al s(3) by (cases x; simp add: settled_used allocated_def)+
    qed (use s(3) in auto)
    then show ?thesis using s al assms(2) by (auto simp: room_def ctx_ok_def settled_used allocated_def blocks_ok_def used_at_def data_at_def)
  qed
qed

section \<open>Parsing strings\<close>

definition area_in :: "area \<Rightarrow> 'f DocumentState \<Rightarrow> bool" where
  "area_in a st \<longleftrightarrow> (\<forall>k. a = Block k \<longrightarrow> k < length (m_blocks (arena st))) \<and> (a = Scratch \<longrightarrow> scratch_bytes st \<noteq> None)"

lemma set_buffer_simps [simp]:
  "elems (nodes (set_buffer a x st)) = elems (nodes st)" "elems (elements (set_buffer a x st)) = elems (elements st)"
  "elems (members (set_buffer a x st)) = elems (members st)" "source_text (set_buffer a x st) = (if a = Source then x else source_text st)"
  by (simp_all add: set_buffer_def split: area.split)

lemma buffer_set_buffer: "area_in a st \<Longrightarrow> buffer (set_buffer a x st) b = (if b = a then x else buffer st b)"
  by (auto simp: area_in_def buffer_def set_buffer_def nth_list_update split: area.split option.split)

lemma settled_set_buffer: "area_in a st \<Longrightarrow> length x = length (buffer st a) \<Longrightarrow> settled m (set_buffer a x st) b = settled m st b"
  by (auto simp: area_in_def settled_def buffer_def set_buffer_def nth_list_update split: area.split option.split)

lemma extends_overwrite:
  assumes "extends n st n' st'" "area_in a st'" "settled n st a \<le> p" "p + length s \<le> length (buffer st' a)"
  shows "extends n st n' (set_buffer a (overwrite p s (buffer st' a)) st')"
proof -
  have "take (settled n st b) (buffer (set_buffer a (overwrite p s (buffer st' a)) st') b) = take (settled n st b) (buffer st b)" for b
    using assms take_overwrite [of "settled n st a" p s "buffer st' a"] by (auto simp: buffer_set_buffer extends_def)
  then show ?thesis using assms by (simp add: extends_def settled_set_buffer)
qed

lemma blocks_set_buffer:
  assumes "\<forall>b\<in>set (m_blocks (arena st)). block_used b \<le> length (block_data b)" "area_in a st" "length x = length (buffer st a)"
  shows "\<forall>b\<in>set (m_blocks (arena (set_buffer a x st))). block_used b \<le> length (block_data b)"
proof (cases a)
  case (Block k)
  then show ?thesis using assms by (auto simp: set_buffer_def area_in_def buffer_def dest!: set_update_subset_insert [THEN subsetD])
qed (use assms in \<open>auto simp: set_buffer_def\<close>)

text \<open>The document after a string was decoded.\<close>

lemma decoded_reads:
  assumes rd: "reads ctx u ctx1" and rm: "room (off ctx1) (off ctx) ctx1 a p n ctx2" and u: "length u = n + 2" and s: "length s \<le> n"
    and ctx3: "ctx3 = ctx2\<lparr>doc := set_buffer a (overwrite p s (buffer (doc ctx2) a)) (doc ctx2), decodedBytes := k\<rparr>"
  shows "reads ctx u ctx3" "key_is (off ctx3) (doc ctx3) \<lparr>ref_area = a, ref_data = p, ref_size = length s\<rparr> s"
proof -
  have o1: "off ctx1 = off ctx + n + 2" and f: "frame ctx ctx1" using rd u by (simp_all add: reads_def)
  have o2: "off ctx2 = off ctx1" "tx ctx2 = tx ctx1" "opts ctx2 = opts ctx1" "ctx_ok ctx2" "area_in a (doc ctx2)"
    and e2: "extends (off ctx1) (doc ctx1) (off ctx1) (doc ctx2)" using rm by (auto simp: room_def area_in_def)
  have len: "off ctx1 \<le> length (tx ctx1)" using o2 by (simp add: ctx_ok_def)
  have fit: "p + length s \<le> length (buffer (doc ctx2) a)" "p + length s \<le> settled (off ctx1) (doc ctx2) a"
    and low: "settled (off ctx) (doc ctx) a \<le> p"
  proof -
    have "settled (off ctx) (doc ctx) a \<le> p \<and> p + length s \<le> length (buffer (doc ctx2) a) \<and> p + length s \<le> settled (off ctx1) (doc ctx2) a"
    proof (cases "a = Source")
      case True
      then have "p = off ctx + 1" using rm by (simp add: room_def)
      then show ?thesis using True s o1 o2 len by (simp add: settled_def buffer_def)
    next
      case False
      have "settled (off ctx) (doc ctx) a \<le> settled (off ctx1) (doc ctx1) a" using frameD(4) [OF f] by (simp add: extends_def)
      then show ?thesis using False rm s by (auto simp: room_def)
    qed
    then show "p + length s \<le> length (buffer (doc ctx2) a)" "p + length s \<le> settled (off ctx1) (doc ctx2) a" "settled (off ctx) (doc ctx) a \<le> p" by blast+
  qed
  let ?st = "set_buffer a (overwrite p s (buffer (doc ctx2) a)) (doc ctx2)"
  have st: "doc ctx3 = ?st" "cursor ctx3 = cursor ctx1" "opts ctx3 = opts ctx1" using ctx3 rm by (simp_all add: room_def)
  have ext: "extends (off ctx) (doc ctx) (off ctx1) ?st"
    using extends_trans [OF frameD(4) [OF f] e2] o2(5) low fit(1) by (intro extends_overwrite)
  have src: "length (source_text ?st) = length (tx ctx1)" "drop (off ctx1) (source_text ?st) = drop (off ctx1) (tx ctx1)"
    using fit o2(2) by (auto simp: buffer_def settled_def drop_overwrite)
  have ok: "ctx_ok ctx3" using blocks_set_buffer [OF _ o2(5), of "overwrite p s (buffer (doc ctx2) a)"] o2(4) src(1) len fit(1) st by (simp add: ctx_ok_def)
  have "frame ctx ctx3" using f ext src ok st by (simp add: frame_def)
  then show "reads ctx u ctx3" using rd src st by (simp add: reads_def)
  show "key_is (off ctx3) (doc ctx3) \<lparr>ref_area = a, ref_data = p, ref_size = length s\<rparr> s"
    using fit o2(5) st overwrite_read [OF fit(1)] by (simp add: key_is_def ref_ok_def View_def buffer_set_buffer settled_set_buffer)
qed

lemma raw_length_cut: "raw_length s = Some n \<Longrightarrow> raw_length (take n s @ CHR 0x22 # r) = Some n"
  by (induction s arbitrary: n rule: raw_length.induct) (auto split: if_splits list.splits)

lemma unescape_no_escape: "CHR 0x5C \<notin> set t \<Longrightarrow> unescape t = Some t"
  by (induction t) (auto simp: unescape_plain)

text \<open>A string at the cursor.\<close>

definition string_at :: "string \<Rightarrow> string \<Rightarrow> string \<Rightarrow> bool" where
  "string_at s t v \<longleftrightarrow> chars_text t v \<and> (\<exists>rest. s = CHR 0x22 # t @ CHR 0x22 # rest)"

lemma string_at_raw:
  assumes "string_at (CHR 0x22 # q) t v"
  shows "raw_length q = Some (length t)" "t = take (length t) q" "unescape t = Some v"
  using assms chars_text_raw [of t v] by (auto simp: string_at_def)

lemma ParseString_scanned:
  assumes "peek ctx = CHR 0x22" "ScanString (simd lib) (tx ctx) (off ctx) (off ctx + 1) False = Inr (off ctx + 1 + n, esc)"
    "ctx1 = advance (n + 1) (advance 1 ctx)" "off (advance 1 ctx) = off ctx + 1"
    "sp = \<lparr>span_source = sourceId (doc ctx1), span_begin = off ctx, span_end = off ctx1\<rparr>"
  shows "ParseString lib ctx =
    (if \<not> esc then success \<lparr>string_value = \<lparr>ref_area = Source, ref_data = off ctx + 1, ref_size = n\<rparr>, string_span = sp\<rparr> ctx1
     else if decodedBytes ctx1 > maxDecodedStringBytes (limits (doc ctx1)) \<or> n > maxDecodedStringBytes (limits (doc ctx1)) - decodedBytes ctx1
     then failure (MakeErrorAt ctx1 LimitExceeded ''Decoded JSON string limit exceeded'' (off ctx) (off ctx1))
     else case AllocateOutput lib (off ctx) n ctx1 of
            (None, ctx2) \<Rightarrow> failure (MakeErrorAt ctx2 OutOfMemory ''JSON string allocation failed'' (off ctx) (off ctx1))
          | (Some (a, output), ctx2) \<Rightarrow>
            case DecodeString (a = Source) (off ctx1) (tx ctx2, buffer (doc ctx2) a) (off ctx + 1) (off ctx + 1 + n) output of
              None \<Rightarrow> None
            | Some (Inl (p, _, out)) \<Rightarrow> fail_with (ctx2\<lparr>doc := set_buffer a out (doc ctx2)\<rparr>) p
            | Some (Inr ((_, out), write)) \<Rightarrow>
              success \<lparr>string_value = \<lparr>ref_area = a, ref_data = output, ref_size = write - output\<rparr>, string_span = sp\<rparr>
                (ctx2\<lparr>doc := set_buffer a out (doc ctx2), decodedBytes := decodedBytes ctx2 + (write - output)\<rparr>))"
proof -
  have "tx (advance 1 ctx) = tx ctx" by (simp add: advance_def)
  then show ?thesis using assms(1) unfolding ParseString_def assms(3, 5) Let_def assms(4)
    by (simp only: assms(2) sum.case prod.case add_diff_cancel_left' simp_thms if_False SourceSpan.simps)
qed

text \<open>The decoding of a string whose text \<open>t\<close> was found.\<close>

lemma DecodeString_room:
  assumes rm: "room (off ctx1) (off ctx) ctx1 a p (length t) ctx2" and tx1: "tx ctx1 = tx ctx" and t: "unread ctx = CHR 0x22 # t @ CHR 0x22 # rest"
  shows "decoded_to (a = Source) (tx ctx2, buffer (doc ctx2) a) p (unescape t)
    (DecodeString (a = Source) te (tx ctx2, buffer (doc ctx2) a) (off ctx + 1) (off ctx + 1 + length t) p)"
proof -
  have tx2: "tx ctx2 = tx ctx" using rm tx1 by (simp add: room_def)
  have d: "drop (off ctx + 1) (tx ctx) = t @ CHR 0x22 # rest" using arg_cong [OF t, of "drop 1"] by simp
  have len: "off ctx + 1 + length t \<le> length (tx ctx)" using arg_cong [OF t, of length] by simp
  have cap: "p + length t \<le> length (target (a = Source) (tx ctx2, buffer (doc ctx2) a))"
    using rm len tx2 by (auto simp: room_def target_def)
  show ?thesis using rm d len cap tx2 by (intro DecodeString_spec) (auto simp: room_def buffer_def)
qed

lemma ParseString_outcome:
  assumes "ctx_ok ctx"
  shows "results False (\<lambda>e. resource e \<or> (\<nexists>t v. string_at (unread ctx) t v))
    (\<lambda>k ctx'. \<exists>t v. chars_text t v \<and> reads ctx (CHR 0x22 # t @ [CHR 0x22]) ctx' \<and> key_is (off ctx') (doc ctx') (string_value k) v) (ParseString lib ctx)"
proof (cases "peek ctx = CHR 0x22")
  case False
  then have "\<not> string_at (unread ctx) t v" for t v by (auto simp: string_at_def Peek_unread)
  then show ?thesis using False by (simp add: ParseString_def)
next
  case True
  then obtain q where q: "unread ctx = CHR 0x22 # q" by (auto simp: Peek_unread split: list.splits)
  let ?c1 = "advance 1 ctx"
  have c1: "unread ?c1 = q" "off ?c1 = off ctx + 1" "tx ?c1 = tx ctx" "ctx_ok ?c1"
    using reads_advance [OF assms, of "[CHR 0x22]" q 1] q by (auto simp: reads_def frame_def advance_def)
  show ?thesis
  proof (cases "ScanString (simd lib) (tx ctx) (off ctx) (off ctx + 1) False")
    case (Inl e)
    then have "raw_length q = None" using ScanString_raw [where backend = "simd lib" and t = "tx ctx" and ts = "off ctx" and scan = "off ctx + 1" and esc = False] c1 by (cases e) simp
    then have "\<not> string_at (unread ctx) t v" for t v using string_at_raw q by fastforce
    then show ?thesis using True Inl c1 by (cases e) (simp add: ParseString_def Let_def fail_with_def)
  next
    case (Inr r)
    then obtain n where r: "r = (off ctx + 1 + n, CHR 0x5C \<in> set (take n q))" "raw_length q = Some n"
      using ScanString_raw [where backend = "simd lib" and t = "tx ctx" and ts = "off ctx" and scan = "off ctx + 1" and esc = False] c1 by (cases r) auto
    define t where "t = take n q"
    define ctx1 where "ctx1 = advance (n + 1) ?c1"
    have n: "n < length q" "q ! n = CHR 0x22" using raw_length_less [OF r(2)] by auto
    then have qt: "q = t @ CHR 0x22 # drop (n + 1) q" "length t = n" using id_take_nth_drop [OF n(1)] by (simp_all add: t_def)
    have rd: "reads ctx (CHR 0x22 # t @ [CHR 0x22]) ctx1"
    proof -
      have "reads ctx [CHR 0x22] ?c1" using reads_advance [OF assms, of "[CHR 0x22]" q 1] q by simp
      moreover have "reads ?c1 (t @ [CHR 0x22]) ctx1" using reads_advance [OF c1(4), of "t @ [CHR 0x22]" "drop (n + 1) q" "n + 1"] c1(1) qt unfolding ctx1_def by simp
      ultimately show ?thesis using reads_trans by fastforce
    qed
    have unique: "t' = t \<and> unescape t = Some v" if "string_at (unread ctx) t' v" for t' v
      using string_at_raw [of q t' v] that q r(2) by (simp add: t_def)
    have ct: "chars_text t v" if "unescape t = Some v" for v
      using unescape_chars_text [OF that] raw_length_cut [OF r(2), of "[]"] qt(2) by (simp add: t_def)
    have ctx1: "off (advance 1 ctx) = off ctx + 1" "tx ctx1 = tx ctx" "ctx_ok ctx1" using c1 rd by (simp_all add: ctx1_def advance_def reads_def frame_def)
    note eq = ParseString_scanned [OF True Inr [unfolded r(1)] ctx1_def ctx1(1) refl]
    show ?thesis
    proof (cases "CHR 0x5C \<in> set t")
      case False
      have u: "unescape t = Some t" using unescape_no_escape [OF False] .
      have "off ctx1 = off ctx + n + 2" "off ctx1 \<le> length (tx ctx)" using rd qt(2) ctx1 by (simp_all add: reads_def ctx_ok_def)
      then have "key_is (off ctx1) (doc ctx1) \<lparr>ref_area = Source, ref_data = off ctx + 1, ref_size = n\<rparr> t"
        using ctx1(2) c1(1, 2, 3) by (simp add: key_is_def ref_ok_def settled_def View_def buffer_def t_def)
      then show ?thesis using False ct [OF u] rd by (simp add: eq flip: t_def) blast
    next
      case esc: True
      show ?thesis
      proof (cases "AllocateOutput lib (off ctx) n ctx1")
        case (Pair o2 ctx2)
        show ?thesis
        proof (cases o2)
          case None
          then show ?thesis using esc Pair by (simp add: eq resource_def flip: t_def)
        next
          case (Some ap)
          then obtain a p where ap: "AllocateOutput lib (off ctx) n ctx1 = (Some (a, p), ctx2)" using Pair by (cases ap) auto
          have rm: "room (off ctx1) (off ctx) ctx1 a p (length t) ctx2" using AllocateOutput_room [OF ap ctx1(3)] qt(2) by simp
          have dec: "decoded_to (a = Source) (tx ctx2, buffer (doc ctx2) a) p (unescape t)
              (DecodeString (a = Source) (off ctx1) (tx ctx2, buffer (doc ctx2) a) (off ctx + 1) (off ctx + 1 + n) p)"
            using DecodeString_room [OF rm ctx1(2), of "drop (n + 1) q"] q qt by simp
          show ?thesis
          proof (cases "unescape t")
            case none: None
            then have "\<not> string_at (unread ctx) t' v" for t' v using unique by fastforce
            then show ?thesis using esc dec none ap by (auto simp: eq resource_def decoded_to_def fail_with_def simp flip: t_def)
          next
            case s: (Some v)
            have len: "length v \<le> n" using unescape_length [OF s] qt(2) by simp
            have tgt: "target (a = Source) (tx ctx2, buffer (doc ctx2) a) = buffer (doc ctx2) a" by (simp add: target_def buffer_def)
            note fin = decoded_reads [OF rd rm _ _ refl, of v, unfolded qt(2)]
            show ?thesis using esc dec s ap len fin ct [OF s] qt(2)
              by (auto simp: eq resource_def decoded_to_def tgt store_def simp flip: t_def)
          qed
        qed
      qed
    qed
  qed
qed

end
