(* ===== verification/JSON_Numbers.thy ===== *)
theory JSON_Numbers
  imports JSON_Context
begin

text \<open>
  JSON numbers: the scan against the grammar, in both directions, and the conversion of the token. A node that \<open>AddNode\<close> adds denotes its value from then on.
\<close>

section \<open>Nodes\<close>

lemma AddNode_outcome:
  assumes "reads ctx u ctx'"
    and val: "\<And>st i. NodeAt st i = Some node \<Longrightarrow> extends (off ctx') (doc ctx') (off ctx') st \<Longrightarrow> denotes (off ctx') st i v"
  shows "results False resource (\<lambda>i ctx''. reads ctx u ctx'' \<and> denotes (off ctx'') (doc ctx'') i v) (AddNode lib node ctx')"
proof -
  let ?st = "doc ctx'"
  have "reads ctx u c \<and> denotes (off c) (doc c) (length (elems (nodes ?st))) v"
    if v: "vec_push_back (platform.truncate lib) 48 node (nodes ?st) (env ctx') = Some (vs, w)" and c: "c = ctx'\<lparr>doc := ?st\<lparr>nodes := vs\<rparr>, env := w\<rparr>"
      and lim: "length (elems (nodes ?st)) < 2 ^ 32 - 1" for vs w c
  proof -
    have e: "elems vs = elems (nodes ?st) @ [node]" using vec_push_back_elems [OF v] .
    have ext: "extends (off ctx') ?st (off ctx') (doc c)" using e c by (auto simp: extends_def settled_def buffer_def split: area.split)
    have "NodeAt (doc c) (length (elems (nodes ?st))) = Some node" using e c lim by (simp add: NodeAt_def InvalidNode_def)
    then have "denotes (off c) (doc c) (length (elems (nodes ?st))) v" using val [OF _ ext] c by simp
    moreover have "reads ctx u c" using reads_update [OF assms(1), of c] c ext by simp
    ultimately show ?thesis by blast
  qed
  then show ?thesis by (auto simp: AddNode_def Let_def resource_def split: option.splits)
qed

section \<open>Scanning numbers\<close>

lemma skip_digits_length: "skip_digits t p = p + length (takeWhile IsDigit (drop p t))"
proof (induction t p rule: skip_digits.induct)
  case (1 t p)
  show ?case
  proof (cases "p < length t \<and> IsDigit (t ! p)")
    case True
    then show ?thesis using 1 by (simp add: skip_digits.simps [of t p] Cons_nth_drop_Suc [symmetric])
  next
    case False
    then have "takeWhile IsDigit (drop p t) = []" by (cases "p < length t") (auto simp: Cons_nth_drop_Suc [symmetric])
    then show ?thesis using False by (subst skip_digits.simps) auto
  qed
qed

definition not_digit :: "string \<Rightarrow> bool" where
  "not_digit r \<longleftrightarrow> r = [] \<or> \<not> IsDigit (hd r)"

lemma takeWhile_digits: "list_all IsDigit d \<Longrightarrow> not_digit r \<Longrightarrow> takeWhile IsDigit (d @ r) = d"
  by (induction d) (cases r; auto simp: not_digit_def)+

lemma skip_digits_append: "list_all IsDigit d \<Longrightarrow> not_digit r \<Longrightarrow> skip_digits (pre @ d @ r) (length pre) = length pre + length d"
  by (simp add: skip_digits_length takeWhile_digits)

lemma digits_takeWhile:
  assumes "s \<noteq> []" "IsDigit (hd s)"
  shows "digits (takeWhile IsDigit s)" "s = takeWhile IsDigit s @ dropWhile IsDigit s" "not_digit (dropWhile IsDigit s)" "hd (takeWhile IsDigit s) = hd s"
  using assms hd_dropWhile [of IsDigit s] by (cases s; auto simp: digits_def not_digit_def list_all_iff dest: set_takeWhileD)+

lemma digit_facts [simp]: "\<not> IsDigit (CHR ''-'')" "IsDigit (CHR ''0'')" "\<not> IsDigit (CHR ''.'')" "\<not> IsDigit (CHR ''e'')" "\<not> IsDigit (CHR ''E'')" "\<not> IsDigit (CHR ''+'')"
  by (simp_all add: IsDigit_def char_arith)

text \<open>The digits of an integer, after its sign.\<close>

definition scan_natural :: "string \<Rightarrow> nat \<Rightarrow> nat \<Rightarrow> problem + nat" where
  "scan_natural t start current =
     (if t ! current = CHR ''0''
      then if current + 1 < length t \<and> IsDigit (t ! (current + 1))
           then Inl (InvalidNumber, ''Leading zero in JSON number'', start, start + (current + 1 - start) + 1)
           else Inr (current + 1)
      else if \<not> IsDigit (t ! current) then Inl (InvalidNumber, ''Invalid JSON number'', start, start)
      else Inr (skip_digits t current))"

lemma scan_integer_natural:
  "s \<noteq> [] \<Longrightarrow> hd s \<noteq> CHR ''-'' \<Longrightarrow> scan_integer (pre @ s) (length pre) = scan_natural (pre @ s) (length pre) (length pre)"
  "s \<noteq> [] \<Longrightarrow> scan_integer (pre @ CHR ''-'' # s) (length pre) = scan_natural ((pre @ ''-'') @ s) (length pre) (length (pre @ ''-''))"
  "\<exists>e. scan_integer (pre @ ''-'') (length pre) = Inl e"
  by (auto simp: scan_integer_def scan_natural_def Let_def nth_append hd_conv_nth)

lemma scan_natural_sound:
  assumes "scan_natural (p @ q) start (length p) = Inr c" "q \<noteq> []"
  shows "\<exists>i r. q = i @ r \<and> natural_text i \<and> c = length p + length i \<and> not_digit r"
proof (cases "hd q = CHR ''0''")
  case True
  then obtain q' where q: "q = CHR ''0'' # q'" using assms(2) by (cases q) auto
  then have "c = length p + 1" "not_digit q'" using assms(1) by (cases q'; auto simp: scan_natural_def not_digit_def nth_append split: if_splits)+
  then show ?thesis using q by (intro exI [of _ "''0''"] exI [of _ q']) (simp add: natural_text_def)
next
  case False
  have h: "(p @ q) ! length p = hd q" using assms(2) by (simp add: hd_conv_nth nth_append)
  then have d: "IsDigit (hd q)" "c = skip_digits (p @ q) (length p)" using assms(1) False by (auto simp: scan_natural_def split: if_splits)
  show ?thesis using digits_takeWhile [OF assms(2) d(1)] False d(2)
    by (intro exI [of _ "takeWhile IsDigit q"] exI [of _ "dropWhile IsDigit q"]) (auto simp: natural_text_def skip_digits_length)
qed

lemma natural_text_hd: "natural_text d \<Longrightarrow> d \<noteq> [] \<and> IsDigit (hd d) \<and> list_all IsDigit d"
  by (cases d) (auto simp: natural_text_def digits_def)

lemma scan_natural_complete:
  assumes "natural_text d" "not_digit r"
  shows "scan_natural (p @ d @ r) start (length p) = Inr (length p + length d)"
proof (cases "d = ''0''")
  case True
  then show ?thesis using assms(2) by (cases r) (auto simp: scan_natural_def not_digit_def nth_append)
next
  case False
  then have d: "digits d" "hd d \<noteq> CHR ''0''" using assms(1) by (auto simp: natural_text_def)
  have "(p @ d @ r) ! length p = hd d" using natural_text_hd [OF assms(1)] by (cases d) simp_all
  then show ?thesis using d natural_text_hd [OF assms(1)] skip_digits_append [of d r p] assms(2) by (simp add: scan_natural_def)
qed

lemma scan_integer_sound:
  assumes "scan_integer (pre @ s) (length pre) = Inr c" "s \<noteq> []"
  shows "\<exists>i r. s = i @ r \<and> integer_text i \<and> c = length pre + length i \<and> not_digit r"
proof (cases "hd s = CHR ''-''")
  case True
  then obtain q where s: "s = CHR ''-'' # q" using assms(2) by (cases s) auto
  then have "q \<noteq> []" using assms(1) scan_integer_natural(3) [of pre] by auto
  then obtain i r where "q = i @ r" "natural_text i" "c = length (pre @ ''-'') + length i" "not_digit r"
    using scan_natural_sound [of "pre @ ''-''" q "length pre" c] assms(1) scan_integer_natural(2) s by auto
  then show ?thesis using s by (intro exI [of _ "CHR ''-'' # i"] exI [of _ r]) (simp add: integer_text_def)
next
  case False
  then show ?thesis using scan_natural_sound [of pre s "length pre" c] scan_integer_natural(1) [OF assms(2) False] assms by (auto simp: integer_text_def)
qed

lemma scan_integer_complete:
  assumes "integer_text i" "not_digit r"
  shows "scan_integer (pre @ i @ r) (length pre) = Inr (length pre + length i)"
proof (cases "natural_text i")
  case True
  then have "i @ r \<noteq> []" "hd (i @ r) \<noteq> CHR ''-''" using natural_text_hd [OF True] by (cases i; auto)+
  then show ?thesis using scan_integer_natural(1) [of "i @ r" pre] scan_natural_complete [OF True assms(2)] by simp
next
  case False
  then obtain d where i: "i = CHR ''-'' # d" "natural_text d" using assms(1) by (auto simp: integer_text_def)
  then show ?thesis using scan_integer_natural(2) [of "d @ r" pre] scan_natural_complete [OF i(2) assms(2), of "pre @ ''-''"] natural_text_hd [OF i(2)] by simp
qed

definition not_dot :: "string \<Rightarrow> bool" where
  "not_dot r \<longleftrightarrow> r = [] \<or> hd r \<noteq> CHR ''.''"

definition not_exp :: "string \<Rightarrow> bool" where
  "not_exp r \<longleftrightarrow> r = [] \<or> hd r \<noteq> CHR ''e'' \<and> hd r \<noteq> CHR ''E''"

lemma scan_fraction_sound:
  assumes "scan_fraction (pre @ s) start (length pre) = Inr (c, fl)"
  shows "\<exists>f r. s = f @ r \<and> fraction_text f \<and> c = length pre + length f \<and> fl = (f \<noteq> [])"
proof (cases "s \<noteq> [] \<and> hd s = CHR ''.''")
  case True
  then obtain q where s: "s = CHR ''.'' # q" by (cases s) auto
  have "q \<noteq> []" "IsDigit (hd q)" "c = skip_digits ((pre @ ''.'') @ q) (length (pre @ ''.''))" "fl"
    using assms s by (cases q; auto simp: scan_fraction_def nth_append split: if_splits)+
  then show ?thesis using s digits_takeWhile [of q]
    by (intro exI [of _ "CHR ''.'' # takeWhile IsDigit q"] exI [of _ "dropWhile IsDigit q"]) (auto simp: fraction_text_def skip_digits_length)
next
  case False
  then show ?thesis using assms by (cases s) (auto simp: scan_fraction_def fraction_text_def)
qed

lemma scan_fraction_complete:
  assumes "fraction_text f" "not_digit r" "f = [] \<Longrightarrow> not_dot r"
  shows "scan_fraction (pre @ f @ r) start (length pre) = Inr (length pre + length f, f \<noteq> [])"
proof (cases "f = []")
  case True
  then show ?thesis using assms(3) by (cases r) (auto simp: scan_fraction_def not_dot_def)
next
  case False
  then obtain d where f: "f = CHR ''.'' # d" "digits d" using assms(1) by (auto simp: fraction_text_def)
  then obtain c d' where "d = c # d'" "IsDigit c" by (cases d) (auto simp: digits_def)
  then show ?thesis using f skip_digits_append [of d r "pre @ ''.''"] assms(2) by (simp add: scan_fraction_def nth_append digits_def)
qed

text \<open>The exponent is scanned after its letter and its sign.\<close>

lemma scan_exponent_at:
  assumes "e = CHR ''e'' \<or> e = CHR ''E''" "sign = [] \<and> (q = [] \<or> hd q \<noteq> CHR ''+'' \<and> hd q \<noteq> CHR ''-'') \<or> sign = ''+'' \<or> sign = ''-''"
  shows "scan_exponent (pre @ e # sign @ q) start (length pre) fl =
    (if q = [] \<or> \<not> IsDigit (hd q) then Inl (InvalidNumber, ''Invalid JSON exponent'', start, start)
     else Inr (length (pre @ e # sign) + length (takeWhile IsDigit q), True))"
  using assms by (cases q) (auto simp: scan_exponent_def Let_def nth_append skip_digits_length)

lemma scan_exponent_sound:
  assumes "scan_exponent (pre @ s) start (length pre) fl = Inr (c, fl')"
  shows "\<exists>x r. s = x @ r \<and> exponent_text x \<and> c = length pre + length x \<and> fl' = (fl \<or> x \<noteq> [])"
proof (cases "not_exp s")
  case True
  then show ?thesis using assms by (cases s) (auto simp: scan_exponent_def exponent_text_def not_exp_def)
next
  case False
  then obtain e s1 where s: "s = e # s1" "e = CHR ''e'' \<or> e = CHR ''E''" by (cases s) (auto simp: not_exp_def)
  obtain sign q where q: "s1 = sign @ q" "sign = [] \<and> (q = [] \<or> hd q \<noteq> CHR ''+'' \<and> hd q \<noteq> CHR ''-'') \<or> sign = ''+'' \<or> sign = ''-''"
    by (cases s1) (auto, metis append_Cons append_Nil list.sel(1))
  have "q \<noteq> []" "IsDigit (hd q)" "c = length (pre @ e # sign) + length (takeWhile IsDigit q)" "fl'"
    using assms scan_exponent_at [OF s(2) q(2), of pre start fl] s q by (auto split: if_splits)
  then show ?thesis using s q digits_takeWhile [of q]
    by (intro exI [of _ "e # sign @ takeWhile IsDigit q"] exI [of _ "dropWhile IsDigit q"]) (auto simp: exponent_text_def)
qed

lemma scan_exponent_complete:
  assumes "exponent_text x" "not_digit r" "x = [] \<Longrightarrow> not_exp r"
  shows "scan_exponent (pre @ x @ r) start (length pre) fl = Inr (length pre + length x, fl \<or> x \<noteq> [])"
proof (cases "x = []")
  case True
  then show ?thesis using assms(3) by (cases r) (auto simp: scan_exponent_def not_exp_def)
next
  case False
  then obtain e sign d where x: "x = e # sign @ d" "e = CHR ''e'' \<or> e = CHR ''E''" "sign = [] \<or> sign = ''+'' \<or> sign = ''-''" "digits d"
    using assms(1) by (auto simp: exponent_text_def)
  then have d: "d @ r \<noteq> []" "IsDigit (hd (d @ r))" "takeWhile IsDigit (d @ r) = d" using takeWhile_digits [of d r] assms(2) by (cases d; auto simp: digits_def)+
  then have "hd (d @ r) \<noteq> CHR ''+''" "hd (d @ r) \<noteq> CHR ''-''" by auto
  then show ?thesis using scan_exponent_at [OF x(2), of sign "d @ r" pre start fl] d x by auto
qed

text \<open>What may follow a number.\<close>

definition number_ends :: "string \<Rightarrow> bool" where
  "number_ends r \<longleftrightarrow> not_digit r \<and> not_dot r \<and> not_exp r"

lemma scan_number_sound:
  assumes "scan_number (pre @ s) (length pre) = Inr (c, fl)" "s \<noteq> []"
  shows "\<exists>n r. s = n @ r \<and> number_text n fl \<and> c = length pre + length n"
proof -
  obtain c1 where 1: "scan_integer (pre @ s) (length pre) = Inr c1" using assms(1) by (auto simp: scan_number_def split: sum.splits)
  obtain i r where i: "s = i @ r" "integer_text i" "c1 = length pre + length i" using scan_integer_sound [OF 1 assms(2)] by blast
  obtain c2 fl2 where 2: "scan_fraction ((pre @ i) @ r) (length pre) (length (pre @ i)) = Inr (c2, fl2)"
    using assms(1) 1 i by (auto simp: scan_number_def split: sum.splits)
  obtain f r' where f: "r = f @ r'" "fraction_text f" "c2 = length (pre @ i) + length f" "fl2 = (f \<noteq> [])" using scan_fraction_sound [OF 2] by blast
  have "scan_exponent ((pre @ i @ f) @ r') (length pre) (length (pre @ i @ f)) fl2 = Inr (c, fl)"
    using assms(1) 1 2 i f by (simp add: scan_number_def add.assoc)
  then obtain x r'' where "r' = x @ r''" "exponent_text x" "c = length (pre @ i @ f) + length x" "fl = (fl2 \<or> x \<noteq> [])" using scan_exponent_sound by blast
  then show ?thesis using i f by (intro exI [of _ "i @ f @ x"] exI [of _ r'']) (auto simp: number_text_def)
qed

lemma scan_number_complete:
  assumes "number_text n fl" "number_ends r"
  shows "scan_number (pre @ n @ r) (length pre) = Inr (length pre + length n, fl)"
proof -
  obtain i f x where n: "n = i @ f @ x" "integer_text i" "fraction_text f" "exponent_text x" "fl = (f \<noteq> [] \<or> x \<noteq> [])"
    using assms(1) by (auto simp: number_text_def)
  have x: "not_digit (x @ r)" "not_dot (x @ r)" using n(4) assms(2) by (auto simp: exponent_text_def number_ends_def not_digit_def not_dot_def)
  have f: "not_digit (f @ x @ r)" using n(3) x by (auto simp: fraction_text_def not_digit_def)
  have 1: "scan_integer (pre @ n @ r) (length pre) = Inr (length pre + length i)" using scan_integer_complete [OF n(2) f, of pre] n(1) by simp
  have 2: "scan_fraction (pre @ n @ r) (length pre) (length pre + length i) = Inr (length pre + length i + length f, f \<noteq> [])"
    using scan_fraction_complete [OF n(3) x(1), of "pre @ i"] x(2) n(1) by simp
  have 3: "scan_exponent (pre @ n @ r) (length pre) (length pre + length i + length f) (f \<noteq> []) = Inr (length pre + length n, fl)"
    using scan_exponent_complete [OF n(4), of r "pre @ i @ f"] assms(2) n(1, 5) by (simp add: number_ends_def add.assoc)
  show ?thesis using 1 2 3 by (simp add: scan_number_def)
qed

section \<open>The values of numbers\<close>

lemma number_text_floating:
  assumes "number_text n fl"
  shows "fl \<longleftrightarrow> (\<exists>c\<in>set n. \<not> IsDigit c \<and> c \<noteq> CHR ''-'')"
proof -
  obtain i f x where n: "n = i @ f @ x" "integer_text i" "fraction_text f" "exponent_text x" "fl = (f \<noteq> [] \<or> x \<noteq> [])"
    using assms by (auto simp: number_text_def)
  have i: "\<forall>c\<in>set i. IsDigit c \<or> c = CHR ''-''" using n(2) natural_text_hd by (fastforce simp: integer_text_def list_all_iff)
  have f: "f \<noteq> [] \<Longrightarrow> hd f \<in> set n \<and> \<not> IsDigit (hd f) \<and> hd f \<noteq> CHR ''-''" using n(1, 3) by (auto simp: fraction_text_def)
  have x: "x \<noteq> [] \<Longrightarrow> hd x \<in> set n \<and> \<not> IsDigit (hd x) \<and> hd x \<noteq> CHR ''-''" using n(1, 4) by (auto simp: exponent_text_def)
  show ?thesis
  proof
    assume fl
    then consider "f \<noteq> []" | "x \<noteq> []" using n(5) by blast
    then show "\<exists>c\<in>set n. \<not> IsDigit c \<and> c \<noteq> CHR ''-''" by cases (use f x in blast)+
  next
    assume "\<exists>c\<in>set n. \<not> IsDigit c \<and> c \<noteq> CHR ''-''"
    then have "n \<noteq> i" using i by blast
    then show fl using n(1, 5) by auto
  qed
qed

lemma number_text_integer: "number_text n False \<longleftrightarrow> integer_text n"
  by (auto simp: number_text_def fraction_text_def exponent_text_def)

lemma is_digit_10: "is_digit 10 = IsDigit"
proof
  fix c show "is_digit 10 c = IsDigit c"
    by (auto simp: is_digit_def digit_value_def IsDigit_def char_arith split: if_splits)
qed

lemma digit_value_10: "IsDigit c \<Longrightarrow> digit_value c = Some (ord c - ord (CHR ''0'')) \<and> ord c - ord (CHR ''0'') < 10"
  by (auto simp: IsDigit_def digit_value_def char_arith)

lemma decimal_be_val: "list_all IsDigit d \<Longrightarrow> foldl (\<lambda>v c. v * 10 + (ord c - ord (CHR ''0''))) v d = be_val 10 v (map (the \<circ> digit_value) d)"
proof (induction d arbitrary: v)
  case (Cons c d)
  then show ?case using digit_value_10 [of c] by simp
qed simp

lemma from_chars_decimal:
  assumes "digits d"
  shows "from_chars 64 10 d = (if 2 ^ 64 \<le> decimal d then (result_out_of_range, length d, 0) else (ErrcNone, length d, decimal d))"
proof -
  have tw: "takeWhile (is_digit 10) d = d" using assms by (simp add: is_digit_10 digits_def list_all_iff takeWhile_eq_all_conv)
  have "list_all IsDigit d" "d \<noteq> []" using assms by (simp_all add: digits_def)
  then show ?thesis using decimal_be_val [of d 0] unfolding from_chars_def Let_def tw decimal_def by simp
qed

lemma natural_digits: "natural_text d \<Longrightarrow> digits d"
  by (auto simp: natural_text_def digits_def)

text \<open>The node of a number, or that the number has no value.\<close>

lemma number_value_floating:
  "number_text n True \<Longrightarrow> number_value lib n v \<longleftrightarrow> (\<exists>x. v = JDouble x \<and> from_chars_f64 lib n = (ErrcNone, length n, x) \<and> isfinite lib x)"
  using number_text_floating [of n True] number_text_floating [of n False] by (auto simp: number_value_def)

lemma number_value_negative:
  "natural_text d \<Longrightarrow> number_value lib (CHR ''-'' # d) v \<longleftrightarrow> decimal d \<le> 2 ^ 63 \<and> v = JInt (- int (decimal d))"
  using number_text_floating [of "CHR ''-'' # d" True] natural_text_hd [of d]
  by (auto simp: number_value_def number_text_integer integer_text_def list_all_iff)

lemma number_value_natural:
  assumes "natural_text d"
  shows "number_value lib d v \<longleftrightarrow> decimal d < 2 ^ 64 \<and> v = JInt (int (decimal d))"
proof -
  have "hd d \<noteq> CHR ''-''" using natural_text_hd [OF assms] by auto
  then show ?thesis using number_text_floating [of d True] natural_text_hd [OF assms] assms
    by (auto simp: number_value_def number_text_integer integer_text_def list_all_iff)
qed

lemma ParseNumber_scanned:
  assumes sc: "scan_number (tx ctx) (off ctx) = Inr (off ctx + length n, fl)" and n: "number_text n fl" and u: "unread ctx = n @ r" and ok: "ctx_ok ctx"
  shows "results False (\<lambda>e. resource e \<or> (\<nexists>v. number_value lib n v))
    (\<lambda>i ctx'. \<exists>v. number_value lib n v \<and> reads ctx n ctx' \<and> denotes (off ctx') (doc ctx') i v) (ParseNumber lib ctx)"
proof -
  define c1 where "c1 = advance (length n) ctx"
  have rd: "reads ctx n c1" using reads_advance [OF ok u refl] by (simp add: c1_def)
  have tok: "take (length n) (unread ctx) = n" using u by simp
  have add: "results False (\<lambda>e. resource e \<or> (\<nexists>v. number_value lib n v)) (\<lambda>i ctx'. \<exists>v. number_value lib n v \<and> reads ctx n ctx' \<and> denotes (off ctx') (doc ctx') i v)
      (AddNode lib (mk_node c1 (off ctx) k pl) c1)"
    if "number_value lib n v" "\<And>st i nd. NodeAt st i = Some nd \<Longrightarrow> node_kind nd = k \<Longrightarrow> node_payload nd = pl \<Longrightarrow> denotes (off c1) st i v" for k pl v
    by (rule results_mono [OF AddNode_outcome [OF rd, of _ v]]) (use that in \<open>auto simp: mk_node_def\<close>)
  show ?thesis
  proof (cases fl)
    case True
    obtain ec k x where fc: "from_chars_f64 lib n = (ec, k, x)" by (cases "from_chars_f64 lib n") auto
    have eq: "ParseNumber lib ctx = (if ec \<noteq> ErrcNone \<or> k \<noteq> length n \<or> \<not> isfinite lib x
        then failure (MakeErrorAt c1 InvalidNumber ''JSON floating-point value is out of range'' (off ctx) (off c1))
        else AddNode lib (mk_node c1 (off ctx) KDouble (DoublePayload x)) c1)"
      using sc True fc tok by (simp add: ParseNumber_def Let_def c1_def)
    show ?thesis
    proof (cases "ec \<noteq> ErrcNone \<or> k \<noteq> length n \<or> \<not> isfinite lib x")
      case bad: True
      then have "\<nexists>v. number_value lib n v" using number_value_floating [of n lib] n True fc by auto
      then show ?thesis using eq bad by simp
    next
      case False
      then have "number_value lib n (JDouble x)" using number_value_floating [of n lib] n True fc by auto
      then show ?thesis using add [of "JDouble x" KDouble "DoublePayload x"] eq False by (simp add: denotes_double)
    qed
  next
    case False
    then have "integer_text n" using n number_text_integer by simp
    then consider d where "n = CHR ''-'' # d" "natural_text d" | "natural_text n" by (auto simp: integer_text_def)
    then show ?thesis
    proof cases
      case (1 d)
      have fc: "from_chars_i64 n = (if decimal d > 2 ^ 63 then (result_out_of_range, length n, 0) else (ErrcNone, length n, - int (decimal d)))"
        using from_chars_decimal [OF natural_digits [OF 1(2)]] 1(1) by (auto simp: from_chars_i64_def)
      have eq: "ParseNumber lib ctx = (if decimal d > 2 ^ 63
          then failure (MakeErrorAt c1 InvalidNumber ''JSON signed integer is out of range'' (off ctx) (off c1))
          else AddNode lib (mk_node c1 (off ctx) KInt64 (SignedPayload (- int (decimal d)))) c1)"
        using sc False fc tok 1(1) by (simp add: ParseNumber_def Let_def c1_def)
      show ?thesis
      proof (cases "decimal d > 2 ^ 63")
        case True
        then show ?thesis using eq 1 number_value_negative [OF 1(2), of lib] by simp
      next
        case small: False
        then have le: "int (decimal d) \<le> 2 ^ 63" using of_nat_le_iff [of "decimal d" "2 ^ 63", where 'a = int] by simp
        then show ?thesis using eq small 1 number_value_negative [OF 1(2), of lib] add [of "JInt (- int (decimal d))" KInt64 "SignedPayload (- int (decimal d))"]
          by (simp add: denotes_int)
      qed
    next
      case 2
      have hd: "hd n \<noteq> CHR ''-''" using natural_text_hd [OF 2] by auto
      have eq: "ParseNumber lib ctx = (if 2 ^ 64 \<le> decimal n
          then failure (MakeErrorAt c1 InvalidNumber ''JSON unsigned integer is out of range'' (off ctx) (off c1))
          else if decimal n \<le> 2 ^ 63 - 1 then AddNode lib (mk_node c1 (off ctx) KInt64 (SignedPayload (int (decimal n)))) c1
          else AddNode lib (mk_node c1 (off ctx) KUInt64 (UnsignedPayload (decimal n))) c1)"
        using sc False from_chars_decimal [OF natural_digits [OF 2]] tok hd by (simp add: ParseNumber_def Let_def c1_def)
      consider "2 ^ 64 \<le> decimal n" | "decimal n \<le> 2 ^ 63 - 1" | "\<not> decimal n \<le> 2 ^ 63 - 1" "decimal n < 2 ^ 64" by linarith
      then show ?thesis
      proof cases
        case big: 1
        then show ?thesis using eq number_value_natural [OF 2, of lib] by simp
      next
        case small: 2
        then have "int (decimal n) < 2 ^ 63" using of_nat_less_iff [of "decimal n" "2 ^ 63", where 'a = int] by simp
        then show ?thesis using small eq number_value_natural [OF 2, of lib] add [of "JInt (int (decimal n))" KInt64 "SignedPayload (int (decimal n))"]
          by (simp add: denotes_int)
      next
        case mid: 3
        then show ?thesis using eq number_value_natural [OF 2, of lib] add [of "JInt (int (decimal n))" KUInt64 "UnsignedPayload (decimal n)"]
          by (simp add: denotes_uint)
      qed
    qed
  qed
qed

end
