(* ===== verification/JSON_Soundness.thy ===== *)
theory JSON_Soundness
  imports JSON_Numbers
begin

text \<open>
  Every call of the parser comes to a result when it has enough fuel, and a value that it returns was read by the grammar: by induction on the fuel, with one lemma for
  each function of the mutual recursion. The calls that fail only for want of resources have exact outcomes, which the completeness proof uses again.
\<close>

section \<open>Calls between the brackets\<close>

lemma SkipTrivia_reads:
  assumes "ctx_ok ctx"
  shows "results False (\<lambda>e. True) (\<lambda>_ ctx'. \<exists>t. reads ctx t ctx' \<and> stops (unread ctx') \<and>
    (trivia (comments (opts ctx)) t \<or> unread ctx' = [] \<and> last_trivia (comments (opts ctx)) t)) (SkipTrivia ctx)"
  by (rule results_mono [OF SkipTrivia_sound]) (use reads_moved(1) [OF assms] in \<open>auto simp: skipped_def\<close>)

lemma SkipTrivia_over:
  assumes "ctx_ok ctx" "trivia (comments (opts ctx)) t" "unread ctx = t @ s" "stops s"
  shows "\<exists>ctx'. SkipTrivia ctx = success () ctx' \<and> reads ctx t ctx' \<and> unread ctx' = s"
  using SkipTrivia_complete [OF assms(2-4)] reads_moved [OF assms(1) _ assms(3)] by blast

lemma trivia_hd: "trivia p t \<Longrightarrow> t \<noteq> [] \<Longrightarrow> is_space (hd t) \<or> hd t = CHR ''/''"
  by (cases rule: trivia.cases) auto

lemma trivia_stops: "trivia p t \<Longrightarrow> stops (t @ s) \<Longrightarrow> t = []"
  using trivia_hd [of p t] by (cases t) (auto simp: stops_def)

text \<open>What a value can start with, and what can follow it.\<close>

definition starts_value :: "string \<Rightarrow> bool" where
  "starts_value u \<longleftrightarrow> u \<noteq> [] \<and> hd u \<notin> {CHR ''/'', CHR '']'', CHR ''}'', CHR '','', CHR '':''} \<and> \<not> is_space (hd u)"

lemma digit_ord: "IsDigit c \<longleftrightarrow> 48 \<le> ord c \<and> ord c \<le> 57"
  by (simp add: IsDigit_def char_arith)

lemma number_hd: "number_text n fl \<Longrightarrow> n \<noteq> [] \<and> (hd n = CHR ''-'' \<or> IsDigit (hd n))"
  using natural_text_hd by (fastforce simp: number_text_def integer_text_def)

lemma number_starts: "number_text n fl \<Longrightarrow> starts_value n"
  using number_hd [of n fl] by (auto simp: starts_value_def is_space_def digit_ord)

lemma value_starts: "value_text lib op u v \<Longrightarrow> starts_value u"
  by (cases rule: value_text.cases) (auto simp: starts_value_def is_space_def number_value_def dest: number_starts)

lemma elements_starts: "elements_text lib op es vs \<Longrightarrow> starts_value es"
  by (cases rule: elements_text.cases) (auto dest!: value_starts simp: starts_value_def)

lemma members_hd: "members_text lib op ms kvs \<Longrightarrow> \<exists>r. ms = CHR 0x22 # r"
  by (cases rule: members_text.cases) auto

lemma starts_value_stops: "starts_value u \<Longrightarrow> stops (u @ s)"
  by (simp add: starts_value_def stops_def)

lemma starts_value_peek: "unread ctx = u @ s \<Longrightarrow> starts_value u \<Longrightarrow> peek ctx = hd u"
  by (cases u) (auto simp: starts_value_def Peek_unread)

lemma last_trivia_hd:
  assumes "last_trivia p t" "t \<noteq> []"
  shows "is_space (hd t) \<or> hd t = CHR ''/''"
proof (cases "trivia p t")
  case True
  then show ?thesis using trivia_hd assms(2) by blast
next
  case False
  then obtain u b where u: "trivia p u" "t = u @ ''//'' @ b" using assms(1) by (auto simp: last_trivia_def)
  then show ?thesis using trivia_hd [OF u(1)] by (cases u) auto
qed

lemma ends_hd: "t = [] \<or> is_space (hd t) \<or> hd t = CHR ''/'' \<Longrightarrow> number_ends t"
  by (auto simp: number_ends_def not_digit_def not_dot_def not_exp_def is_space_def digit_ord)

lemma ends_trivia: "trivia p t \<Longrightarrow> number_ends (c # s) \<Longrightarrow> number_ends (t @ c # s)"
  using trivia_hd [of p t] ends_hd [of "t @ c # s"] by (cases t) auto

lemma ends_last_trivia: "last_trivia p t \<Longrightarrow> number_ends t"
  using last_trivia_hd ends_hd by blast

lemma number_ends_closing [simp]: "number_ends (CHR '']'' # s)" "number_ends (CHR ''}'' # s)" "number_ends (CHR '','' # s)"
  by (simp_all add: number_ends_def not_digit_def not_dot_def not_exp_def digit_ord)

lemma stops_closing [simp]: "stops (CHR '']'' # s)" "stops (CHR ''}'' # s)" "stops (CHR '','' # s)" "stops (CHR '':'' # s)" "stops (CHR 0x22 # s)"
  by (simp_all add: stops_def is_space_def)

section \<open>Literals, arrays and members\<close>

lemma MatchLiteral_reads:
  assumes "ctx_ok ctx"
  shows "MatchLiteral l ctx = Some c \<Longrightarrow> reads ctx l c" "unread ctx = l @ s \<Longrightarrow> \<exists>c. MatchLiteral l ctx = Some c"
proof -
  have rem: "CursorRemaining (tx ctx) (cursor ctx) = unread ctx" by (simp add: CursorRemaining_def)
  show "reads ctx l c" if "MatchLiteral l ctx = Some c"
  proof -
    have "take (length l) (unread ctx) = l" "c = advance (length l) ctx" using that rem by (auto simp: MatchLiteral_def Let_def split: if_splits)
    then show ?thesis using reads_advance [OF assms, of l "drop (length l) (unread ctx)" "length l"] append_take_drop_id [of "length l" "unread ctx"] by simp
  qed
  show "\<exists>c. MatchLiteral l ctx = Some c" if "unread ctx = l @ s" using that rem by (auto simp: MatchLiteral_def Let_def)
qed

definition member_is :: "nat \<Rightarrow> 'f DocumentState \<Rightarrow> MemberRecord \<Rightarrow> string \<times> 'f json \<Rightarrow> bool" where
  "member_is n st m kv \<longleftrightarrow> key_is n st (member_key m) (fst kv) \<and> denotes n st (member_value m) (snd kv)"

lemma member_is_extends: "extends n st n' st' \<Longrightarrow> member_is n st m kv \<Longrightarrow> member_is n' st' m kv"
  by (simp add: member_is_def key_is_extends denotes_extends)

lemma finish_array_outcome:
  assumes rd: "reads ctx u ctx'" and vs: "list_all2 (denotes (off ctx') (doc ctx')) (elems values) vs"
  shows "results False resource (\<lambda>i ctx''. reads ctx u ctx'' \<and> denotes (off ctx'') (doc ctx'') i (JArray vs)) (finish_array lib start values ctx')"
proof -
  let ?st = "doc ctx'"
  have add: "results False resource (\<lambda>i ctx''. reads ctx u ctx'' \<and> denotes (off ctx'') (doc ctx'') i (JArray vs))
      (AddNode lib (mk_node d start KArray (RangePayload (length (elems (elements ?st))) (length (elems values)))) c)"
    if v: "vec_append (platform.truncate lib) 4 (elems values) (elements ?st) (env ctx') = Some (es, w)"
      and c: "c = ctx'\<lparr>depth := k, doc := ?st\<lparr>elements := es\<rparr>, env := w\<rparr>" for es w c d k
  proof (rule AddNode_outcome)
    have e: "elems es = elems (elements ?st) @ elems values" using vec_append_elems [OF v] .
    have ext: "extends (off ctx') ?st (off ctx') (doc c)" using e c by (auto simp: extends_def settled_def buffer_def split: area.split)
    show "reads ctx u c" using reads_update [OF rd, of c] c ext by simp
    have len: "length (elems values) = length vs" using vs by (rule list_all2_lengthD)
    fix st i assume n: "NodeAt st i = Some (mk_node d start KArray (RangePayload (length (elems (elements ?st))) (length (elems values))))"
      and x: "extends (off c) (doc c) (off c) st"
    obtain ys where ys: "elems (elements st) = (elems (elements ?st) @ elems values) @ ys" using x e c by (auto simp: extends_def)
    have "extends (off ctx') ?st (off c) st" using extends_trans [OF ext] x c by simp
    then have "list_all2 (denotes (off c) st) (elems values) vs" using vs by (auto elim: list_all2_mono intro: denotes_extends)
    then show "denotes (off c) st i (JArray vs)" using n ys len
      by (intro denotes_array [OF n, of "length (elems (elements ?st))"]) (simp_all add: mk_node_def)
  qed
  show ?thesis using add [OF _ refl] by (auto simp: finish_array_def Let_def resource_def split: option.splits)
qed

lemma finish_object_outcome:
  assumes rd: "reads ctx u ctx'" and ms: "list_all2 (member_is (off ctx') (doc ctx')) (elems values) kvs"
  shows "results False resource (\<lambda>i ctx''. reads ctx u ctx'' \<and> denotes (off ctx'') (doc ctx'') i (JObject kvs)) (finish_object lib start values ctx')"
proof -
  let ?st = "doc ctx'"
  have add: "results False resource (\<lambda>i ctx''. reads ctx u ctx'' \<and> denotes (off ctx'') (doc ctx'') i (JObject kvs))
      (AddNode lib (mk_node d start KObject (RangePayload (length (elems (members ?st))) (length (elems values)))) c)"
    if v: "vec_append (platform.truncate lib) 48 (elems values) (members ?st) (env ctx') = Some (es, w)"
      and c: "c = ctx'\<lparr>depth := k, doc := ?st\<lparr>members := es\<rparr>, env := w\<rparr>" for es w c d k
  proof (rule AddNode_outcome)
    have e: "elems es = elems (members ?st) @ elems values" using vec_append_elems [OF v] .
    have ext: "extends (off ctx') ?st (off ctx') (doc c)" using e c by (auto simp: extends_def settled_def buffer_def split: area.split)
    show "reads ctx u c" using reads_update [OF rd, of c] c ext by simp
    have len: "length (elems values) = length kvs" using ms by (rule list_all2_lengthD)
    fix st i assume n: "NodeAt st i = Some (mk_node d start KObject (RangePayload (length (elems (members ?st))) (length (elems values))))"
      and x: "extends (off c) (doc c) (off c) st"
    obtain ys where ys: "elems (members st) = (elems (members ?st) @ elems values) @ ys" using x e c by (auto simp: extends_def)
    have "extends (off ctx') ?st (off c) st" using extends_trans [OF ext] x c by simp
    then have "list_all2 (member_is (off c) st) (elems values) kvs" using ms by (auto elim: list_all2_mono intro: member_is_extends)
    then have "list_all2 (\<lambda>m (k, v). key_is (off c) st (member_key m) k \<and> denotes (off c) st (member_value m) v) (elems values) kvs"
      by (rule list_all2_mono) (auto simp: member_is_def)
    then show "denotes (off c) st i (JObject kvs)" using n ys len
      by (intro denotes_object [OF n, of "length (elems (members ?st))"]) (simp_all add: mk_node_def)
  qed
  show ?thesis using add [OF _ refl] by (auto simp: finish_object_def Let_def resource_def split: option.splits)
qed

lemma takeWhile_keys:
  "list_all2 (member_is n st) ms obj \<Longrightarrow> View st (member_key m) = k \<Longrightarrow>
   length (takeWhile (\<lambda>x. View st (member_key x) \<noteq> View st (member_key m)) ms) = length (takeWhile (\<lambda>x. fst x \<noteq> k) obj)"
  by (induction ms obj rule: list_all2_induct) (auto simp: member_is_def key_is_def)

lemma AddMember_outcome:
  assumes rd: "reads ctx u ctx'" and ms: "list_all2 (member_is (off ctx') (doc ctx')) (elems values) obj" and m: "member_is (off ctx') (doc ctx') m kv"
  shows "results False (\<lambda>e. resource e \<or> add_member (duplicateKeys (opts ctx')) obj kv = None)
    (\<lambda>values' ctx''. reads ctx u ctx'' \<and> (\<exists>obj'. add_member (duplicateKeys (opts ctx')) obj kv = Some obj' \<and>
      list_all2 (member_is (off ctx'') (doc ctx'')) (elems values') obj')) (AddMember lib sp m values ctx')"
proof -
  let ?M = "member_is (off ctx') (doc ctx')" and ?i = "length (takeWhile (\<lambda>x. fst x \<noteq> fst kv) obj)"
  have i: "length (takeWhile (\<lambda>x. View (doc ctx') (member_key x) \<noteq> View (doc ctx') (member_key m)) (elems values)) = ?i"
    using m by (intro takeWhile_keys [OF ms]) (auto simp: member_is_def key_is_def)
  have len: "length (elems values) = length obj" using ms by (rule list_all2_lengthD)
  have push: "reads ctx u c \<and> list_all2 (member_is (off c) (doc c)) (elems vs) (obj @ [kv])"
    if "vec_push_back (platform.truncate lib) 48 m values (env ctx') = Some (vs, w)" "c = ctx'\<lparr>env := w\<rparr>" for vs w c
    using vec_push_back_elems [OF that(1)] that(2) reads_update [OF rd, of c] ms m by (simp add: list_all2_appendI)
  have upd: "list_all2 ?M ((elems values)[j := m]) (obj[j := kv])" for j using ms m by (simp add: list_all2_update_cong)
  show ?thesis
  proof (cases "?i < length obj")
    case True
    then show ?thesis using rd ms upd push [OF _ refl]
      by (cases "duplicateKeys (opts ctx')") (auto simp: AddMember_def Let_def add_member_def i len resource_def split: option.splits)
  next
    case False
    then show ?thesis using push [OF _ refl] by (auto simp: AddMember_def Let_def add_member_def i len resource_def split: option.splits)
  qed
qed

section \<open>The parser accepts only texts of the grammar\<close>

abbreviation val_at :: "('u, 'f) ParseContext \<Rightarrow> NodeId \<Rightarrow> 'f json \<Rightarrow> bool" where
  "val_at ctx \<equiv> denotes (off ctx) (doc ctx)"

lemma reads_ok: "reads ctx u ctx' \<Longrightarrow> ctx_ok ctx'" "reads ctx u ctx' \<Longrightarrow> opts ctx' = opts ctx"
  "reads ctx u ctx' \<Longrightarrow> unread ctx = u @ unread ctx'" "reads ctx u ctx' \<Longrightarrow> extends (off ctx) (doc ctx) (off ctx') (doc ctx')"
  by (auto simp: reads_def frame_def)

lemma peek_Cons: "peek ctx = c \<Longrightarrow> c \<noteq> NUL \<Longrightarrow> \<exists>s. unread ctx = c # s"
  by (auto simp: Peek_unread split: list.splits)

lemma peek_nonempty: "peek ctx = c \<Longrightarrow> c \<noteq> NUL \<Longrightarrow> unread ctx \<noteq> []"
  by (auto simp: Peek_unread)

lemma reads_char: "ctx_ok ctx \<Longrightarrow> peek ctx = c \<Longrightarrow> c \<noteq> NUL \<Longrightarrow> reads ctx [c] (advance 1 ctx)"
  using peek_Cons [of ctx c] reads_advance [of ctx "[c]" _ 1] by auto

lemma reads_env: "reads ctx u ctx' \<Longrightarrow> reads ctx u (ctx'\<lparr>env := w\<rparr>)" "reads ctx u ctx' \<Longrightarrow> reads ctx u (ctx'\<lparr>depth := k\<rparr>)"
  by (auto intro: reads_update)

lemma reads_at: "reads ctx u ctx' \<Longrightarrow> val_at ctx i v \<Longrightarrow> val_at ctx' i v"
  using reads_ok(4) denotes_extends by blast

lemma reads_all: "reads ctx u ctx' \<Longrightarrow> list_all2 (val_at ctx) is vs \<Longrightarrow> list_all2 (val_at ctx') is vs"
  by (auto elim: list_all2_mono intro: reads_at)

lemma reads_members: "reads ctx u ctx' \<Longrightarrow> list_all2 (member_is (off ctx) (doc ctx)) ms kvs \<Longrightarrow> list_all2 (member_is (off ctx') (doc ctx')) ms kvs"
  using reads_ok(4) member_is_extends by (fastforce elim: list_all2_mono)

lemma reads_key: "reads ctx u ctx' \<Longrightarrow> key_is (off ctx) (doc ctx) r k \<Longrightarrow> key_is (off ctx') (doc ctx') r k"
  using reads_ok(4) key_is_extends by blast

text \<open>Trivia between two tokens.\<close>

lemma SkipTrivia_then:
  assumes rd: "reads ctx u ctx1"
    and next_call: "\<And>t ctx'. (unread ctx' \<noteq> [] \<Longrightarrow> trivia (comments (opts ctx)) t) \<Longrightarrow> reads ctx (u @ t) ctx' \<Longrightarrow> reads ctx1 t ctx' \<Longrightarrow> stops (unread ctx') \<Longrightarrow>
      results False (\<lambda>e. True) Q (f () ctx')"
  shows "results False (\<lambda>e. True) Q (and_then (SkipTrivia ctx1) f)"
proof (rule results_then [OF SkipTrivia_reads [OF reads_ok(1) [OF rd]]])
  fix x :: unit and ctx'
  assume "\<exists>t. reads ctx1 t ctx' \<and> stops (unread ctx') \<and> (trivia (comments (opts ctx1)) t \<or> unread ctx' = [] \<and> last_trivia (comments (opts ctx1)) t)"
  then obtain t where t: "reads ctx1 t ctx'" "stops (unread ctx')" "unread ctx' \<noteq> [] \<Longrightarrow> trivia (comments (opts ctx1)) t" by blast
  have "opts ctx1 = opts ctx" using reads_ok(2) [OF rd] by simp
  then show "results False (\<lambda>e. True) Q (f x ctx')" using next_call [of ctx' t] t reads_trans [OF rd t(1)] by simp
qed

text \<open>What follows an element or a member: the closing bracket, or a comma and the rest.\<close>

definition item_tail :: "char \<Rightarrow> (('u, 'f) ParseContext \<Rightarrow> ParseDiagnostic) \<Rightarrow> (('u, 'f) ParseContext \<Rightarrow> ParseDiagnostic) \<Rightarrow> 'a \<Rightarrow>
    (('u, 'f) ParseContext \<Rightarrow> ('a, 'u, 'f) parsed) \<Rightarrow> ('u, 'f) ParseContext \<Rightarrow> ('a, 'u, 'f) parsed" where
  "item_tail close e1 e2 x loop ctx =
     and_then (SkipTrivia ctx) (\<lambda>_ ctx.
       if peek ctx = close then success x (advance 1 ctx)
       else if peek ctx \<noteq> CHR '','' then failure (e1 ctx)
       else and_then (SkipTrivia (advance 1 ctx)) (\<lambda>_ ctx.
              if peek ctx = close then if trailingCommas (opts ctx) = RejectTrailing then failure (e2 ctx) else success x (advance 1 ctx)
              else loop ctx))"

lemma item_tail_sound:
  assumes rd: "reads ctx u ctx2" and close: "close \<noteq> NUL" "close \<noteq> CHR '',''"
    and last_item: "\<And>t c. trivia (comments (opts ctx)) t \<Longrightarrow> reads ctx (u @ t @ [close]) c \<Longrightarrow> reads ctx2 (t @ [close]) c \<Longrightarrow> Q x c"
    and trailing: "\<And>t t' c. trailingCommas (opts ctx) = AllowTrailing \<Longrightarrow> trivia (comments (opts ctx)) t \<Longrightarrow> trivia (comments (opts ctx)) t' \<Longrightarrow>
      reads ctx (u @ t @ '','' @ t' @ [close]) c \<Longrightarrow> reads ctx2 (t @ '','' @ t' @ [close]) c \<Longrightarrow> Q x c"
    and more: "\<And>t t' c. trivia (comments (opts ctx)) t \<Longrightarrow> (unread c \<noteq> [] \<Longrightarrow> trivia (comments (opts ctx)) t') \<Longrightarrow>
      reads ctx (u @ t @ '','' @ t') c \<Longrightarrow> reads ctx2 (t @ '','' @ t') c \<Longrightarrow> stops (unread c) \<Longrightarrow> results False (\<lambda>e. True) Q (loop c)"
  shows "results False (\<lambda>e. True) Q (item_tail close e1 e2 x loop ctx2)"
  unfolding item_tail_def
proof (rule SkipTrivia_then [OF rd])
  fix t ctx3
  assume t: "unread ctx3 \<noteq> [] \<Longrightarrow> trivia (comments (opts ctx)) t" and rd3: "reads ctx (u @ t) ctx3" "reads ctx2 t ctx3"
  note c3 = reads_ok(1) [OF rd3(1)]
  consider "peek ctx3 = close" | "peek ctx3 \<noteq> close" "peek ctx3 = CHR '',''" | "peek ctx3 \<noteq> close" "peek ctx3 \<noteq> CHR '',''" by blast
  then show "results False (\<lambda>e. True) Q (if peek ctx3 = close then success x (advance 1 ctx3)
       else if peek ctx3 \<noteq> CHR '','' then failure (e1 ctx3)
       else and_then (SkipTrivia (advance 1 ctx3)) (\<lambda>_ ctx.
              if peek ctx = close then if trailingCommas (opts ctx) = RejectTrailing then failure (e2 ctx) else success x (advance 1 ctx)
              else loop ctx))"
  proof cases
    case 1
    have tr: "trivia (comments (opts ctx)) t" by (rule t [OF peek_nonempty [OF 1 close(1)]])
    show ?thesis using 1 last_item [OF tr] reads_trans [OF rd3(1) reads_char [OF c3 1 close(1)]] reads_trans [OF rd3(2) reads_char [OF c3 1 close(1)]] by simp
  next
    case 2
    have tr: "trivia (comments (opts ctx)) t" by (rule t [OF peek_nonempty [OF 2(2)]]) simp
    note rd = reads_char [OF c3 2(2)]
    have rd4: "reads ctx (u @ t @ '','') (advance 1 ctx3)" "reads ctx2 (t @ '','') (advance 1 ctx3)"
      using reads_trans [OF rd3(1) rd] reads_trans [OF rd3(2) rd] by simp_all
    have "results False (\<lambda>e. True) Q (and_then (SkipTrivia (advance 1 ctx3)) (\<lambda>_ ctx.
        if peek ctx = close then if trailingCommas (opts ctx) = RejectTrailing then failure (e2 ctx) else success x (advance 1 ctx) else loop ctx))"
    proof (rule SkipTrivia_then [OF rd4(1)])
      fix t' c
      assume t': "unread c \<noteq> [] \<Longrightarrow> trivia (comments (opts ctx)) t'" and rd5: "reads ctx ((u @ t @ '','') @ t') c" "reads (advance 1 ctx3) t' c" and st: "stops (unread c)"
      have rd6: "reads ctx2 (t @ '','' @ t') c" and o: "opts c = opts ctx" using reads_trans [OF rd4(2) rd5(2)] reads_ok(2) [OF rd5(1)] by simp_all
      show "results False (\<lambda>e. True) Q (if peek c = close then if trailingCommas (opts c) = RejectTrailing then failure (e2 c) else success x (advance 1 c) else loop c)"
      proof (cases "peek c = close")
        case True
        have tr': "trivia (comments (opts ctx)) t'" by (rule t' [OF peek_nonempty [OF True close(1)]])
        note rd' = reads_char [OF reads_ok(1) [OF rd5(1)] True close(1)]
        have "Q x (advance 1 c)" if "trailingCommas (opts ctx) = AllowTrailing"
          using trailing [OF that tr tr'] reads_trans [OF rd5(1) rd'] reads_trans [OF rd6 rd'] by simp
        then show ?thesis using True o by (cases "trailingCommas (opts ctx)") auto
      next
        case False
        then show ?thesis using more [OF tr t'] rd5(1) rd6 st by simp
      qed
    qed
    then show ?thesis using 2 close(2) by simp
  next
    case 3
    then show ?thesis by simp
  qed
qed

definition value_read :: "('u, 'f) library \<Rightarrow> ('u, 'f) ParseContext \<Rightarrow> NodeId \<Rightarrow> ('u, 'f) ParseContext \<Rightarrow> bool" where
  "value_read lib ctx i ctx' \<longleftrightarrow> (\<exists>t u v. trivia (comments (opts ctx)) t \<and> value_text lib (opts ctx) u v \<and> reads ctx (t @ u) ctx' \<and> val_at ctx' i v)"

definition elements_read :: "('u, 'f) library \<Rightarrow> ('u, 'f) ParseContext \<Rightarrow> 'f json list \<Rightarrow> NodeId std_vector \<Rightarrow> ('u, 'f) ParseContext \<Rightarrow> bool" where
  "elements_read lib ctx vs values ctx' \<longleftrightarrow> (\<exists>es ws. elements_text lib (opts ctx) es ws \<and> reads ctx es ctx' \<and> list_all2 (val_at ctx') (elems values) (vs @ ws))"

definition members_read :: "('u, 'f) library \<Rightarrow> ('u, 'f) ParseContext \<Rightarrow> (string \<times> 'f json) list \<Rightarrow> MemberRecord std_vector \<Rightarrow> ('u, 'f) ParseContext \<Rightarrow> bool" where
  "members_read lib ctx obj ms ctx' \<longleftrightarrow> (\<exists>es kvs obj'. members_text lib (opts ctx) es kvs \<and> merge_members (duplicateKeys (opts ctx)) obj kvs = Some obj' \<and>
     reads ctx es ctx' \<and> list_all2 (member_is (off ctx') (doc ctx')) (elems ms) obj')"

text \<open>The statements for one amount of fuel.\<close>

definition sound_value :: "('u, 'f) library \<Rightarrow> nat \<Rightarrow> bool" where
  "sound_value lib fuel \<longleftrightarrow> (\<forall>ctx. ctx_ok ctx \<longrightarrow> 3 * length (unread ctx) + 1 \<le> fuel \<longrightarrow> results False (\<lambda>e. True) (value_read lib ctx) (ParseValue lib fuel ctx))"

definition sound_elements :: "('u, 'f) library \<Rightarrow> nat \<Rightarrow> bool" where
  "sound_elements lib fuel \<longleftrightarrow> (\<forall>ctx values vs. ctx_ok ctx \<longrightarrow> stops (unread ctx) \<longrightarrow> 3 * length (unread ctx) + 2 \<le> fuel \<longrightarrow>
     list_all2 (val_at ctx) (elems values) vs \<longrightarrow> results False (\<lambda>e. True) (elements_read lib ctx vs) (array_loop lib fuel values ctx))"

definition sound_members :: "('u, 'f) library \<Rightarrow> nat \<Rightarrow> bool" where
  "sound_members lib fuel \<longleftrightarrow> (\<forall>ctx ms obj. ctx_ok ctx \<longrightarrow> 3 * length (unread ctx) + 2 \<le> fuel \<longrightarrow>
     list_all2 (member_is (off ctx) (doc ctx)) (elems ms) obj \<longrightarrow> results False (\<lambda>e. True) (members_read lib ctx obj) (object_loop lib fuel ms ctx))"

definition sound_brackets :: "('u, 'f) library \<Rightarrow> nat \<Rightarrow> bool" where
  "sound_brackets lib fuel \<longleftrightarrow> (\<forall>ctx. ctx_ok ctx \<longrightarrow> 3 * length (unread ctx) \<le> fuel \<longrightarrow>
     (peek ctx = CHR ''['' \<longrightarrow> results False (\<lambda>e. True) (value_read lib ctx) (ParseArray lib fuel ctx)) \<and>
     (peek ctx = CHR ''{'' \<longrightarrow> results False (\<lambda>e. True) (value_read lib ctx) (ParseObject lib fuel ctx)))"

lemma value_readI: "value_text lib (opts ctx) u v \<Longrightarrow> reads ctx u ctx' \<Longrightarrow> val_at ctx' i v \<Longrightarrow> value_read lib ctx i ctx'"
  unfolding value_read_def using trivia_nil by (metis append_Nil)

lemma value_read_trivia:
  assumes "trivia (comments (opts ctx)) t" "reads ctx t ctx1" "stops (unread ctx1)" "value_read lib ctx1 i ctx'"
  shows "value_read lib ctx i ctx'"
proof -
  obtain t' u v where v: "trivia (comments (opts ctx)) t'" "value_text lib (opts ctx) u v" "reads ctx1 (t' @ u) ctx'" "val_at ctx' i v"
    using assms(4) reads_ok(2) [OF assms(2)] by (auto simp: value_read_def)
  have "t' = []" using trivia_stops [OF v(1), of "u @ unread ctx'"] assms(3) reads_ok(3) [OF v(3)] by simp
  then have "reads ctx (t @ u) ctx'" using reads_trans [OF assms(2) v(3)] by simp
  then show ?thesis using v assms(1) by (auto simp: value_read_def)
qed

lemma value_read_stops:
  assumes "value_read lib ctx i ctx'" "stops (unread ctx)"
  shows "\<exists>u v. value_text lib (opts ctx) u v \<and> reads ctx u ctx' \<and> val_at ctx' i v"
proof -
  obtain t u v where v: "trivia (comments (opts ctx)) t" "value_text lib (opts ctx) u v" "reads ctx (t @ u) ctx'" "val_at ctx' i v"
    using assms(1) by (auto simp: value_read_def)
  have "t = []" using trivia_stops [OF v(1), of "u @ unread ctx'"] assms(2) reads_ok(3) [OF v(3)] by simp
  then show ?thesis using v by auto
qed

lemma reads_shorter: "reads ctx u ctx' \<Longrightarrow> length (unread ctx) = length u + length (unread ctx')"
  using reads_ok(3) by fastforce

lemma results_weaken: "results False E Q m \<Longrightarrow> (\<And>x ctx. Q x ctx \<Longrightarrow> Q' x ctx) \<Longrightarrow> results False (\<lambda>e. True) Q' m"
  by (erule results_mono) auto

text \<open>A value that is no array and no object.\<close>

lemma sound_scalar:
  assumes "ctx_ok ctx" "stops (unread ctx)" "peek ctx \<noteq> CHR ''{''" "peek ctx \<noteq> CHR ''[''"
  shows "results False (\<lambda>e. True) (value_read lib ctx) (ParseValue lib (Suc fuel) ctx)"
proof -
  have tr: "SkipTrivia ctx = success () ctx" using SkipTrivia_stop [OF assms(2)] .
  let ?start = "off ctx" and ?token = "peek ctx"
  have lit: "results False (\<lambda>e. True) (value_read lib ctx) (AddNode lib (mk_node c ?start k p) c)"
    if "MatchLiteral l ctx = Some c" "value_text lib (opts ctx) l v"
      "\<And>st i nd. NodeAt st i = Some nd \<Longrightarrow> node_kind nd = k \<Longrightarrow> node_payload nd = p \<Longrightarrow> denotes (off c) st i v" for l c k p v
    by (rule results_weaken [OF AddNode_outcome [OF MatchLiteral_reads(1) [OF assms(1) that(1)], of _ v]])
      (use that value_readI in \<open>auto simp: mk_node_def\<close>)
  consider "?token = CHR 0x22" | "?token = CHR ''-'' \<or> IsDigit ?token" | "?token \<noteq> CHR 0x22" "?token \<noteq> CHR ''-''" "\<not> IsDigit ?token" by blast
  then show ?thesis
  proof cases
    case 1
    have "results False (\<lambda>e. True) (value_read lib ctx) (and_then (ParseString lib ctx) (\<lambda>s ctx.
        AddNode lib \<lparr>node_kind = KString, node_span = string_span s, node_payload = StringPayload (string_value s)\<rparr> ctx))"
    proof (rule results_then [OF results_weaken [OF ParseString_outcome [OF assms(1)]]], assumption)
      fix k ctx' assume "\<exists>t v. chars_text t v \<and> reads ctx (CHR 0x22 # t @ [CHR 0x22]) ctx' \<and> key_is (off ctx') (doc ctx') (string_value k) v"
      then obtain t v where t: "chars_text t v" "reads ctx (CHR 0x22 # t @ [CHR 0x22]) ctx'" "key_is (off ctx') (doc ctx') (string_value k) v" by blast
      show "results False (\<lambda>e. True) (value_read lib ctx) (AddNode lib \<lparr>node_kind = KString, node_span = string_span k, node_payload = StringPayload (string_value k)\<rparr> ctx')"
        by (rule results_weaken [OF AddNode_outcome [OF t(2), of _ "JString v"]])
          (use t value_readI [OF text_string [OF t(1)]] in \<open>auto intro: denotes_string key_is_extends\<close>)
    qed
    then show ?thesis using tr 1 by (simp add: and_then_def Let_def)
  next
    case 2
    then obtain c s where u: "unread ctx = c # s" by (auto simp: Peek_unread digit_ord split: list.splits)
    have tx: "tx ctx = take ?start (tx ctx) @ unread ctx" "length (take ?start (tx ctx)) = ?start" using assms(1) by (simp_all add: ctx_ok_def)
    have pv: "ParseValue lib (Suc fuel) ctx = ParseNumber lib ctx" using 2 tr assms(3, 4) by (auto simp: and_then_def Let_def digit_ord)
    show ?thesis
    proof (cases "scan_number (tx ctx) ?start")
      case (Inl e)
      then show ?thesis unfolding pv by (cases e) (simp add: ParseNumber_def Let_def fail_with_def)
    next
      case (Inr r)
      then obtain c fl where r: "scan_number (tx ctx) ?start = Inr (c, fl)" by (cases r) auto
      then have "\<exists>n r. unread ctx = n @ r \<and> number_text n fl \<and> c = ?start + length n"
        using scan_number_sound [of "take ?start (tx ctx)" "unread ctx" c fl] tx u by simp
      then obtain n r' where n: "unread ctx = n @ r'" "number_text n fl" "c = ?start + length n" by blast
      show ?thesis unfolding pv
        by (rule results_weaken [OF ParseNumber_scanned [OF r [unfolded n(3)] n(2, 1) assms(1)]]) (use text_number value_readI in blast)
    qed
  next
    case 3
    then show ?thesis
      using tr assms(3, 4) lit [OF _ text_null denotes_null] lit [OF _ text_true denotes_bool] lit [OF _ text_false denotes_bool]
      by (auto simp: and_then_def Let_def split: option.splits)
  qed
qed

lemma nothing_read:
  assumes "unread ctx = []"
  shows "\<not> value_read lib ctx i ctx'" "\<not> elements_read lib ctx vs values ctx'" "\<not> members_read lib ctx obj ms ctx'"
proof -
  have no: "u = []" if "reads ctx u c" for u and c using reads_ok(3) [OF that] assms by simp
  show "\<not> value_read lib ctx i ctx'" using no value_starts by (fastforce simp: value_read_def starts_value_def)
  show "\<not> elements_read lib ctx vs values ctx'" using no elements_starts by (fastforce simp: elements_read_def starts_value_def)
  show "\<not> members_read lib ctx obj ms ctx'" using no members_hd by (fastforce simp: members_read_def)
qed

lemma results_vacuous: "results False E Q m \<Longrightarrow> (\<And>x ctx. \<not> Q x ctx) \<Longrightarrow> results False (\<lambda>e. True) Q' m"
  by (erule results_mono) auto

lemma sound_value_step:
  assumes "sound_brackets lib fuel"
  shows "sound_value lib (Suc fuel)"
  unfolding sound_value_def
proof (intro allI impI)
  fix ctx :: "('a, 'b) ParseContext" assume ok: "ctx_ok ctx" and fuel: "3 * length (unread ctx) + 1 \<le> Suc fuel"
  obtain B where B: "\<And>c. ParseValue lib (Suc fuel) c = and_then (SkipTrivia c) B" by (rule that, rule ParseValue.simps(2))
  have here: "results False (\<lambda>e. True) (value_read lib c) (ParseValue lib (Suc fuel) c)"
    if "ctx_ok c" "stops (unread c)" "length (unread c) \<le> length (unread ctx)" for c
  proof (cases "peek c = CHR ''{'' \<or> peek c = CHR ''[''")
    case True
    then have "ParseValue lib (Suc fuel) c = (if peek c = CHR ''{'' then ParseObject lib fuel c else ParseArray lib fuel c)"
      using SkipTrivia_stop [OF that(2)] by (auto simp: and_then_def Let_def)
    moreover have "3 * length (unread c) \<le> fuel" using fuel that(3) by linarith
    ultimately show ?thesis using True assms that(1) by (auto simp: sound_brackets_def)
  next
    case False
    then show ?thesis using sound_scalar [of c lib fuel] that by blast
  qed
  show "results False (\<lambda>e. True) (value_read lib ctx) (ParseValue lib (Suc fuel) ctx)" unfolding B
  proof (rule SkipTrivia_then [OF reads_refl [OF ok]])
    fix t c assume t: "unread c \<noteq> [] \<Longrightarrow> trivia (comments (opts ctx)) t" "reads ctx ([] @ t) c" "reads ctx t c" "stops (unread c)"
    have r: "results False (\<lambda>e. True) (value_read lib c) (B () c)"
      using here [of c] reads_ok(1) [OF t(3)] t(4) reads_shorter [OF t(3)] SkipTrivia_stop [OF t(4)] unfolding B by (simp add: and_then_def)
    show "results False (\<lambda>e. True) (value_read lib ctx) (B () c)"
    proof (cases "unread c = []")
      case True
      show ?thesis by (rule results_vacuous [OF r]) (use nothing_read(1) [OF True] in blast)
    next
      case False
      show ?thesis by (rule results_weaken [OF r]) (use value_read_trivia [OF t(1) [OF False] t(3, 4)] in blast)
    qed
  qed
qed

lemma sound_elements_step:
  assumes V: "sound_value lib fuel" and L: "sound_elements lib fuel"
  shows "sound_elements lib (Suc fuel)"
  unfolding sound_elements_def
proof (intro allI impI)
  fix ctx :: "('a, 'b) ParseContext" and ids :: "NodeId std_vector" and vs
  assume ok: "ctx_ok ctx" and st: "stops (unread ctx)" and fuel: "3 * length (unread ctx) + 2 \<le> Suc fuel" and vs: "list_all2 (val_at ctx) (elems ids) vs"
  have pv: "results False (\<lambda>e. True) (value_read lib ctx) (ParseValue lib fuel ctx)" using V ok fuel by (simp add: sound_value_def)
  show "results False (\<lambda>e. True) (elements_read lib ctx vs) (array_loop lib (Suc fuel) ids ctx)"
    unfolding array_loop.simps item_tail_def [symmetric]
  proof (rule results_then [OF pv], goal_cases)
    case (1 i ctx1)
    obtain u v where v: "value_text lib (opts ctx) u v" "reads ctx u ctx1" "val_at ctx1 i v" using value_read_stops [OF 1 st] by blast
    show ?case
    proof (split option.split, intro conjI allI impI, simp, clarify)
      fix ids' w assume push: "vec_push_back (platform.truncate lib) 4 i ids (env ctx1) = Some (ids', w)"
      define ctx2 where "ctx2 = ctx1\<lparr>env := w\<rparr>"
      have rd2: "reads ctx u ctx2" unfolding ctx2_def by (rule reads_env(1) [OF v(2)])
      have vs2: "list_all2 (val_at ctx2) (elems ids') (vs @ [v])"
        using vec_push_back_elems [OF push] reads_all [OF v(2) vs] v(3) by (simp add: ctx2_def list_all2_appendI)
      show "results False (\<lambda>e. True) (elements_read lib ctx vs) (item_tail (CHR '']'') (\<lambda>ctx. MakeError ctx UnexpectedCharacter ''Expected ',' or ']' in JSON array'')
          (\<lambda>ctx. MakeError ctx InvalidToken ''Trailing comma in JSON array'') ids' (array_loop lib fuel ids') (ctx1\<lparr>env := w\<rparr>))"
        unfolding ctx2_def [symmetric]
      proof (rule item_tail_sound [OF rd2], simp, simp)
        fix t c assume "trivia (comments (opts ctx)) t" "reads ctx (u @ t @ '']'') c" "reads ctx2 (t @ '']'') c"
        then show "elements_read lib ctx vs ids' c" using elements_last [OF v(1)] reads_all [OF _ vs2] by (fastforce simp: elements_read_def)
      next
        fix t t' c assume "trailingCommas (opts ctx) = AllowTrailing" "trivia (comments (opts ctx)) t" "trivia (comments (opts ctx)) t'"
          "reads ctx (u @ t @ '','' @ t' @ '']'') c" "reads ctx2 (t @ '','' @ t' @ '']'') c"
        then show "elements_read lib ctx vs ids' c" using elements_trailing [OF _ v(1)] reads_all [OF _ vs2] by (fastforce simp: elements_read_def)
      next
        fix t t' c assume t: "trivia (comments (opts ctx)) t" "unread c \<noteq> [] \<Longrightarrow> trivia (comments (opts ctx)) t'"
          and rd: "reads ctx (u @ t @ '','' @ t') c" "reads ctx2 (t @ '','' @ t') c" and stc: "stops (unread c)"
        have "3 * length (unread c) + 2 \<le> fuel" using reads_shorter [OF rd(1)] fuel by simp
        then have r: "results False (\<lambda>e. True) (elements_read lib c (vs @ [v])) (array_loop lib fuel ids' c)"
          using L reads_ok(1) [OF rd(1)] stc reads_all [OF rd(2) vs2] by (simp add: sound_elements_def)
        show "results False (\<lambda>e. True) (elements_read lib ctx vs) (array_loop lib fuel ids' c)"
        proof (rule results_weaken [OF r])
          fix x d assume el: "elements_read lib c (vs @ [v]) x d"
          then obtain es ws where e: "elements_text lib (opts ctx) es ws" "reads c es d" "list_all2 (val_at d) (elems x) ((vs @ [v]) @ ws)"
            using reads_ok(2) [OF rd(1)] by (auto simp: elements_read_def)
          have "trivia (comments (opts ctx)) t'" using t(2) nothing_read(2) el by blast
          from elements_more [OF v(1) t(1) this e(1)] show "elements_read lib ctx vs x d"
            using reads_trans [OF rd(1) e(2)] e(3) by (fastforce simp: elements_read_def)
        qed
      qed
    qed
  qed
qed

lemma denotes_NodeAt: "denotes n st i v \<Longrightarrow> \<exists>nd. NodeAt st i = Some nd"
  by (auto elim: denotes.cases)

text \<open>The text of one member, from its key to its value.\<close>

definition member_read :: "('u, 'f) library \<Rightarrow> ('u, 'f) ParseContext \<Rightarrow> string \<Rightarrow> string \<times> 'f json \<Rightarrow> bool" where
  "member_read lib ctx w kv \<longleftrightarrow> (\<exists>k t1 t2 s. w = CHR 0x22 # k @ CHR 0x22 # t1 @ '':'' @ t2 @ s \<and> chars_text k (fst kv) \<and>
     trivia (comments (opts ctx)) t1 \<and> trivia (comments (opts ctx)) t2 \<and> value_text lib (opts ctx) s (snd kv))"

lemma member_read_members:
  assumes "member_read lib ctx w kv" "trivia (comments (opts ctx)) t"
  shows "members_text lib (opts ctx) (w @ t @ ''}'') [kv]"
    "trailingCommas (opts ctx) = AllowTrailing \<Longrightarrow> trivia (comments (opts ctx)) t' \<Longrightarrow> members_text lib (opts ctx) (w @ t @ '','' @ t' @ ''}'') [kv]"
    "trivia (comments (opts ctx)) t' \<Longrightarrow> members_text lib (opts ctx) ms kvs \<Longrightarrow> members_text lib (opts ctx) (w @ t @ '','' @ t' @ ms) (kv # kvs)"
proof -
  obtain k t1 t2 s where w: "w = CHR 0x22 # k @ CHR 0x22 # t1 @ '':'' @ t2 @ s" "chars_text k (fst kv)" "trivia (comments (opts ctx)) t1" "trivia (comments (opts ctx)) t2"
    "value_text lib (opts ctx) s (snd kv)" using assms(1) by (auto simp: member_read_def)
  show "members_text lib (opts ctx) (w @ t @ ''}'') [kv]" using members_last [OF w(2-5) assms(2)] w(1) by simp
  show "members_text lib (opts ctx) (w @ t @ '','' @ t' @ ''}'') [kv]" if "trailingCommas (opts ctx) = AllowTrailing" "trivia (comments (opts ctx)) t'"
    using members_trailing [OF that(1) w(2-5) assms(2) that(2)] w(1) by simp
  show "members_text lib (opts ctx) (w @ t @ '','' @ t' @ ms) (kv # kvs)" if "trivia (comments (opts ctx)) t'" "members_text lib (opts ctx) ms kvs"
    using members_more [OF w(2-5) assms(2) that] w(1) by simp
qed

lemma members_tail_sound:
  assumes L: "sound_members lib fuel" and fuel: "3 * length (unread ctx) + 2 \<le> Suc fuel"
    and rd: "reads ctx w ctx2" and m: "member_read lib ctx w kv" and add: "add_member (duplicateKeys (opts ctx)) obj kv = Some obj'"
    and ms: "list_all2 (member_is (off ctx2) (doc ctx2)) (elems ms) obj'"
  shows "results False (\<lambda>e. True) (members_read lib ctx obj) (item_tail (CHR ''}'') e1 e2 ms (object_loop lib fuel ms) ctx2)"
proof (rule item_tail_sound [OF rd], simp, simp)
  have last_member: "members_read lib ctx obj ms c" if "members_text lib (opts ctx) es [kv]" "reads ctx es c" "reads ctx2 es' c" for es es' c
    unfolding members_read_def using that reads_members [OF that(3) ms] add by (intro exI [of _ es] exI [of _ "[kv]"] exI [of _ obj']) simp
  show "members_read lib ctx obj ms c" if "trivia (comments (opts ctx)) t" "reads ctx (w @ t @ ''}'') c" "reads ctx2 (t @ ''}'') c" for t c
    using last_member [OF member_read_members(1) [OF m that(1)] that(2, 3)] .
  show "members_read lib ctx obj ms c" if "trailingCommas (opts ctx) = AllowTrailing" "trivia (comments (opts ctx)) t" "trivia (comments (opts ctx)) t'"
      "reads ctx (w @ t @ '','' @ t' @ ''}'') c" "reads ctx2 (t @ '','' @ t' @ ''}'') c" for t t' c
    using last_member [OF member_read_members(2) [OF m that(2, 1, 3)] that(4, 5)] .
  fix t t' c assume t: "trivia (comments (opts ctx)) t" "unread c \<noteq> [] \<Longrightarrow> trivia (comments (opts ctx)) t'"
    and rd3: "reads ctx (w @ t @ '','' @ t') c" "reads ctx2 (t @ '','' @ t') c"
  have "3 * length (unread c) + 2 \<le> fuel" using reads_shorter [OF rd3(1)] fuel by simp
  then have r: "results False (\<lambda>e. True) (members_read lib c obj') (object_loop lib fuel ms c)"
    using L reads_ok(1) [OF rd3(1)] reads_members [OF rd3(2) ms] by (simp add: sound_members_def)
  show "results False (\<lambda>e. True) (members_read lib ctx obj) (object_loop lib fuel ms c)"
  proof (rule results_weaken [OF r])
    fix x d assume el: "members_read lib c obj' x d"
    then obtain es kvs obj2 where e: "members_text lib (opts ctx) es kvs" "merge_members (duplicateKeys (opts ctx)) obj' kvs = Some obj2" "reads c es d"
      "list_all2 (member_is (off d) (doc d)) (elems x) obj2" using reads_ok(2) [OF rd3(1)] by (auto simp: members_read_def)
    have "trivia (comments (opts ctx)) t'" using t(2) nothing_read(3) el by blast
    from member_read_members(3) [OF m t(1) this e(1)] show "members_read lib ctx obj x d"
      using reads_trans [OF rd3(1) e(3)] e(2, 4) add unfolding members_read_def
      by (intro exI [of _ "w @ t @ '','' @ t' @ es"] exI [of _ "kv # kvs"] exI [of _ obj2]) simp
  qed
qed

lemma sound_members_step:
  assumes V: "sound_value lib fuel" and L: "sound_members lib fuel"
  shows "sound_members lib (Suc fuel)"
  unfolding sound_members_def
proof (intro allI impI)
  fix ctx :: "('a, 'b) ParseContext" and ms :: "MemberRecord std_vector" and obj
  assume ok: "ctx_ok ctx" and fuel: "3 * length (unread ctx) + 2 \<le> Suc fuel" and ms: "list_all2 (member_is (off ctx) (doc ctx)) (elems ms) obj"
  show "results False (\<lambda>e. True) (members_read lib ctx obj) (object_loop lib (Suc fuel) ms ctx)"
    unfolding object_loop.simps item_tail_def [symmetric]
  proof (rule results_then [OF results_weaken [OF ParseString_outcome [OF ok]]], assumption, elim exE conjE)
    fix key ctx1 k name assume k: "chars_text k name" "reads ctx (CHR 0x22 # k @ [CHR 0x22]) ctx1" "key_is (off ctx1) (doc ctx1) (string_value key) name"
    show "results False (\<lambda>e. True) (members_read lib ctx obj) (and_then (SkipTrivia ctx1) (\<lambda>_ ctx.
       if peek ctx \<noteq> CHR '':'' then failure (MakeError ctx UnexpectedCharacter ''Expected ':' after JSON key'')
       else and_then (SkipTrivia (advance 1 ctx)) (\<lambda>_ ctx.
            and_then (ParseValue lib fuel ctx) (\<lambda>v ctx.
              case NodeAt (doc ctx) v of
                None \<Rightarrow> None
              | Some n \<Rightarrow>
                let m = \<lparr>member_key = string_value key, member_value = v,
                         member_span = \<lparr>span_source = sourceId (doc ctx), span_begin = span_begin (string_span key), span_end = span_end (node_span n)\<rparr>\<rparr>
                in and_then (AddMember lib (string_span key) m ms ctx) (\<lambda>ms.
                     item_tail (CHR ''}'') (\<lambda>ctx. MakeError ctx UnexpectedCharacter ''Expected ',' or '}' in JSON object'')
                       (\<lambda>ctx. MakeError ctx InvalidToken ''Trailing comma in JSON object'') ms (object_loop lib fuel ms))))))"
    proof (rule SkipTrivia_then [OF k(2)], goal_cases)
      case (1 t1 ctx2)
      show ?case
      proof (cases "peek ctx2 = CHR '':''")
        case False then show ?thesis by simp
      next
        case colon: True
        have tr1: "trivia (comments (opts ctx)) t1" by (rule 1(1) [OF peek_nonempty [OF colon]]) simp
        note rd = reads_char [OF reads_ok(1) [OF 1(2)] colon]
        have rd3: "reads ctx (CHR 0x22 # k @ CHR 0x22 # t1 @ '':'') (advance 1 ctx2)" "reads ctx1 (t1 @ '':'') (advance 1 ctx2)"
          using reads_trans [OF 1(2) rd] reads_trans [OF 1(3) rd] by simp_all
        show ?thesis unfolding if_not_P [OF not_not [THEN iffD2, OF colon]]
        proof (rule SkipTrivia_then [OF rd3(1)], goal_cases)
          case (1 t2 ctx4)
          have pv: "results False (\<lambda>e. True) (value_read lib ctx4) (ParseValue lib fuel ctx4)"
            using V reads_ok(1) [OF 1(2)] reads_shorter [OF 1(2)] fuel by (simp add: sound_value_def)
          show ?case
          proof (rule results_then [OF pv])
            fix i ctx5 assume vr: "value_read lib ctx4 i ctx5"
            have tr2: "trivia (comments (opts ctx)) t2" using 1(1) nothing_read(1) vr by blast
            obtain s v where v: "value_text lib (opts ctx) s v" "reads ctx4 s ctx5" "val_at ctx5 i v" using value_read_stops [OF vr 1(4)] reads_ok(2) [OF 1(2)] by auto
            let ?w = "CHR 0x22 # k @ CHR 0x22 # t1 @ '':'' @ t2 @ s"
            have rd5: "reads ctx ?w ctx5" "reads ctx1 (t1 @ '':'' @ t2 @ s) ctx5"
              using reads_trans [OF 1(2) v(2)] reads_trans [OF reads_trans [OF rd3(2) 1(3)] v(2)] by simp_all
            have mr: "member_read lib ctx ?w (name, v)" using k(1) tr1 tr2 v(1) by (auto simp: member_read_def)
            obtain n where n: "NodeAt (doc ctx5) i = Some n" using denotes_NodeAt [OF v(3)] by blast
            have key: "key_is (off ctx5) (doc ctx5) (string_value key) name" using reads_key [OF rd5(2) k(3)] .
            have o: "opts ctx5 = opts ctx" using reads_ok(2) [OF rd5(1)] .
            show "results False (\<lambda>e. True) (members_read lib ctx obj) (case NodeAt (doc ctx5) i of
                None \<Rightarrow> None
              | Some n \<Rightarrow>
                let m = \<lparr>member_key = string_value key, member_value = i,
                         member_span = \<lparr>span_source = sourceId (doc ctx5), span_begin = span_begin (string_span key), span_end = span_end (node_span n)\<rparr>\<rparr>
                in and_then (AddMember lib (string_span key) m ms ctx5) (\<lambda>ms.
                     item_tail (CHR ''}'') (\<lambda>ctx. MakeError ctx UnexpectedCharacter ''Expected ',' or '}' in JSON object'')
                       (\<lambda>ctx. MakeError ctx InvalidToken ''Trailing comma in JSON object'') ms (object_loop lib fuel ms)))"
              unfolding n option.case Let_def
              by (rule results_then [OF results_weaken [OF AddMember_outcome [OF rd5(1) reads_members [OF rd5(1) ms], of _ "(name, v)"]]], 
                  (use v(3) key in \<open>simp add: member_is_def\<close>), assumption, elim conjE exE, unfold o, rule members_tail_sound [OF L fuel _ mr])
          qed
        qed
      qed
    qed
  qed
qed

lemma vec_empty_elems [simp]: "elems vec_empty = []"
  by (simp add: vec_empty_def)

lemma results_depth:
  assumes "depth ctx < maxDepth (limits (doc ctx)) \<Longrightarrow> results N E Q m" "\<And>e. diag_code e = DepthExceeded \<Longrightarrow> E e"
  shows "results N E Q (if depth ctx \<ge> maxDepth (limits (doc ctx)) then failure (MakeError ctx DepthExceeded msg) else m)"
  using assms by simp

lemma sound_array_step:
  assumes L: "sound_elements lib fuel" and ok: "ctx_ok ctx" and fuel: "3 * length (unread ctx) \<le> Suc fuel" and p: "peek ctx = CHR ''[''"
  shows "results False (\<lambda>e. True) (value_read lib ctx) (ParseArray lib (Suc fuel) ctx)"
proof -
  let ?c0 = "ctx\<lparr>depth := depth ctx + 1\<rparr>"
  have rd0: "reads ctx [] ?c0" using reads_env(2) [OF reads_refl [OF ok]] .
  have rd1: "reads ctx ''['' (advance 1 ?c0)" using reads_trans [OF rd0 reads_char [of ?c0 "CHR ''[''"]] p ok by (simp add: ctx_ok_def)
  show ?thesis unfolding ParseArray.simps Let_def
  proof (rule results_depth, rule SkipTrivia_then [OF rd1], goal_cases)
    case (1 t c)
    show ?case
    proof (cases "peek c = CHR '']''")
      case True
      have tr: "trivia (comments (opts ctx)) t" by (rule 1(2) [OF peek_nonempty [OF True]]) simp
      have "reads ctx (CHR ''['' # t @ '']'') (advance 1 c)" using reads_trans [OF 1(3) reads_char [OF reads_ok(1) [OF 1(3)] True]] by simp
      note fin = finish_array_outcome [OF this, of vec_empty "[]"]
      have "results False (\<lambda>e. True) (value_read lib ctx) (finish_array lib (off ctx) vec_empty (advance 1 c))"
        by (rule results_weaken [OF fin]) (use value_readI [OF text_array_empty [OF tr]] in auto)
      then show ?thesis using True by simp
    next
      case False
      have "3 * length (unread c) + 2 \<le> fuel" using reads_shorter [OF 1(3)] fuel by simp
      then have r: "results False (\<lambda>e. True) (elements_read lib c []) (array_loop lib fuel vec_empty c)"
        using L reads_ok(1) [OF 1(3)] 1(5) by (simp add: sound_elements_def)
      have "results False (\<lambda>e. True) (value_read lib ctx) (and_then (array_loop lib fuel vec_empty c) (finish_array lib (off ctx)))"
      proof (rule results_then [OF r])
        fix ids d assume el: "elements_read lib c [] ids d"
        then obtain es vs where e: "elements_text lib (opts ctx) es vs" "reads c es d" "list_all2 (val_at d) (elems ids) vs"
          using reads_ok(2) [OF 1(3)] by (auto simp: elements_read_def)
        have tr: "trivia (comments (opts ctx)) t" using 1(2) nothing_read(2) el by blast
        have "reads ctx (CHR ''['' # t @ es) d" using reads_trans [OF 1(3) e(2)] by simp
        note fin = finish_array_outcome [OF this e(3)]
        show "results False (\<lambda>e. True) (value_read lib ctx) (finish_array lib (off ctx) ids d)"
          by (rule results_weaken [OF fin]) (use value_readI [OF text_array [OF tr e(1)]] in auto)
      qed
      then show ?thesis using False by simp
    qed
  qed simp
qed

lemma sound_object_step:
  assumes L: "sound_members lib fuel" and ok: "ctx_ok ctx" and fuel: "3 * length (unread ctx) \<le> Suc fuel" and p: "peek ctx = CHR ''{''"
  shows "results False (\<lambda>e. True) (value_read lib ctx) (ParseObject lib (Suc fuel) ctx)"
proof -
  let ?c0 = "ctx\<lparr>depth := depth ctx + 1\<rparr>"
  have rd0: "reads ctx [] ?c0" using reads_env(2) [OF reads_refl [OF ok]] .
  have rd1: "reads ctx ''{'' (advance 1 ?c0)" using reads_trans [OF rd0 reads_char [of ?c0 "CHR ''{''"]] p ok by (simp add: ctx_ok_def)
  show ?thesis unfolding ParseObject.simps Let_def
  proof (rule results_depth, rule SkipTrivia_then [OF rd1], goal_cases)
    case (1 t c)
    show ?case
    proof (cases "peek c = CHR ''}''")
      case True
      have tr: "trivia (comments (opts ctx)) t" by (rule 1(2) [OF peek_nonempty [OF True]]) simp
      have "reads ctx (CHR ''{'' # t @ ''}'') (advance 1 c)" using reads_trans [OF 1(3) reads_char [OF reads_ok(1) [OF 1(3)] True]] by simp
      note fin = finish_object_outcome [OF this, of vec_empty "[]"]
      have "results False (\<lambda>e. True) (value_read lib ctx) (finish_object lib (off ctx) vec_empty (advance 1 c))"
        by (rule results_weaken [OF fin]) (use value_readI [OF text_object_empty [OF tr]] in auto)
      then show ?thesis using True by simp
    next
      case False
      have "3 * length (unread c) + 2 \<le> fuel" using reads_shorter [OF 1(3)] fuel by simp
      then have r: "results False (\<lambda>e. True) (members_read lib c []) (object_loop lib fuel vec_empty c)"
        using L reads_ok(1) [OF 1(3)] by (simp add: sound_members_def)
      have "results False (\<lambda>e. True) (value_read lib ctx) (and_then (object_loop lib fuel vec_empty c) (finish_object lib (off ctx)))"
      proof (rule results_then [OF r])
        fix ms d assume el: "members_read lib c [] ms d"
        then obtain es kvs obj where e: "members_text lib (opts ctx) es kvs" "merge_members (duplicateKeys (opts ctx)) [] kvs = Some obj" "reads c es d"
          "list_all2 (member_is (off d) (doc d)) (elems ms) obj" using reads_ok(2) [OF 1(3)] by (auto simp: members_read_def)
        have tr: "trivia (comments (opts ctx)) t" using 1(2) nothing_read(3) el by blast
        have "reads ctx (CHR ''{'' # t @ es) d" using reads_trans [OF 1(3) e(3)] by simp
        note fin = finish_object_outcome [OF this e(4)]
        show "results False (\<lambda>e. True) (value_read lib ctx) (finish_object lib (off ctx) ms d)"
          by (rule results_weaken [OF fin]) (use value_readI [OF text_object [OF tr e(1, 2)]] in auto)
      qed
      then show ?thesis using False by simp
    qed
  qed simp
qed

text \<open>Every call comes to a result, and what it returns was read by the grammar.\<close>

lemma sound_all: "sound_value lib fuel \<and> sound_brackets lib fuel \<and> sound_elements lib fuel \<and> sound_members lib fuel"
proof (induction fuel)
  case 0
  have "sound_brackets lib 0" unfolding sound_brackets_def
    by (auto simp: Peek_unread)
  then show ?case by (simp add: sound_value_def sound_elements_def sound_members_def)
next
  case (Suc fuel)
  then have "sound_brackets lib (Suc fuel)" using sound_array_step sound_object_step unfolding sound_brackets_def by blast
  then show ?case using Suc sound_value_step sound_elements_step sound_members_step by blast
qed

lemma ParseValue_sound:
  "ctx_ok ctx \<Longrightarrow> 3 * length (unread ctx) + 1 \<le> fuel \<Longrightarrow> results False (\<lambda>e. True) (value_read lib ctx) (ParseValue lib fuel ctx)"
  using sound_all [of lib fuel] unfolding sound_value_def by blast

end
