(* ===== verification/JSON_Completeness.thy ===== *)
theory JSON_Completeness
  imports JSON_Soundness
begin

text \<open>
  Every text of the grammar is parsed to its value unless resources run out: by rule induction on the grammar, with the loops over elements and members following one shape
  (\<open>rest_items\<close>).
\<close>

section \<open>The parser accepts the texts of the grammar\<close>

lemma reads_rest: "reads ctx u c \<Longrightarrow> unread ctx = u @ s \<Longrightarrow> unread c = s"
  using reads_ok(3) by fastforce

lemma and_then_success [simp]: "and_then (success x ctx) f = f x ctx"
  by (simp add: and_then_def)

lemma results_partial: "results False E Q m \<Longrightarrow> results True E Q m"
  by (erule results_mono) auto

lemma ParseString_complete:
  assumes "ctx_ok ctx" "chars_text t v" "unread ctx = CHR 0x22 # t @ CHR 0x22 # s"
  shows "results True resource (\<lambda>k c. reads ctx (CHR 0x22 # t @ [CHR 0x22]) c \<and> key_is (off c) (doc c) (string_value k) v) (ParseString lib ctx)"
proof (rule results_mono [OF ParseString_outcome [OF assms(1)]])
  have at0: "string_at (unread ctx) t v" using assms by (auto simp: string_at_def)
  show "resource e" if "resource e \<or> (\<nexists>t v. string_at (unread ctx) t v)" for e using that at0 by blast
  fix k c assume "\<exists>t v. chars_text t v \<and> reads ctx (CHR 0x22 # t @ [CHR 0x22]) c \<and> key_is (off c) (doc c) (string_value k) v"
  then obtain t' v' where t': "chars_text t' v'" "reads ctx (CHR 0x22 # t' @ [CHR 0x22]) c" "key_is (off c) (doc c) (string_value k) v'" by blast
  have "string_at (unread ctx) t' v'" using t'(1) reads_ok(3) [OF t'(2)] by (auto simp: string_at_def)
  then have "t' = t \<and> v' = v" using at0 string_at_raw [of "t @ CHR 0x22 # s"] unfolding assms(3) by (metis option.inject)
  then show "reads ctx (CHR 0x22 # t @ [CHR 0x22]) c \<and> key_is (off c) (doc c) (string_value k) v" using t' by simp
qed simp

lemma number_value_unique: "number_value lib n v \<Longrightarrow> number_value lib n w \<Longrightarrow> v = w"
  using number_text_floating [of n True] number_text_floating [of n False] unfolding number_value_def by (auto split: if_splits)

lemma number_value_text: "number_value lib n v \<Longrightarrow> \<exists>fl. number_text n fl"
  by (auto simp: number_value_def)

lemma ParseNumber_complete:
  assumes "ctx_ok ctx" "number_value lib n v" "unread ctx = n @ s" "number_ends s"
  shows "results True resource (\<lambda>i c. reads ctx n c \<and> val_at c i v) (ParseNumber lib ctx)"
proof -
  obtain fl where fl: "number_text n fl" using number_value_text [OF assms(2)] by blast
  have "tx ctx = take (off ctx) (tx ctx) @ n @ s" "length (take (off ctx) (tx ctx)) = off ctx" using assms(1, 3) append_take_drop_id [of "off ctx" "tx ctx"] by (simp_all add: ctx_ok_def)
  then have sc: "scan_number (tx ctx) (off ctx) = Inr (off ctx + length n, fl)" using scan_number_complete [OF fl assms(4), of "take (off ctx) (tx ctx)"] by simp
  show ?thesis
    by (rule results_mono [OF ParseNumber_scanned [OF sc fl assms(3, 1)]]) (use assms(2) number_value_unique in blast)+
qed

text \<open>The text after an element or a member.\<close>

lemma item_tail_close:
  assumes "ctx_ok ctx" "trivia (comments (opts ctx)) t" "unread ctx = t @ close # s" "stops (close # s)"
  shows "\<exists>c. item_tail close e1 e2 x loop ctx = success x c \<and> reads ctx (t @ [close]) c"
proof -
  obtain c where c: "SkipTrivia ctx = success () c" "reads ctx t c" "unread c = close # s" using SkipTrivia_over [OF assms] by blast
  have "reads c [close] (advance 1 c)" using reads_advance [OF reads_ok(1) [OF c(2)], of "[close]" s 1] c(3) by simp
  then show ?thesis using c reads_trans [OF c(2)] by (auto simp: item_tail_def and_then_def Peek_unread)
qed

lemma item_tail_comma:
  assumes "ctx_ok ctx" "trivia (comments (opts ctx)) t" "trivia (comments (opts ctx)) t'" "unread ctx = t @ '','' @ t' @ r" "stops r" "close \<noteq> CHR '',''"
  shows "\<exists>c. reads ctx (t @ '','' @ t') c \<and> unread c = r \<and>
    item_tail close e1 e2 x loop ctx = (if peek c = close then if trailingCommas (opts c) = RejectTrailing then failure (e2 c) else success x (advance 1 c) else loop c)"
proof -
  obtain c where c: "SkipTrivia ctx = success () c" "reads ctx t c" "unread c = CHR '','' # t' @ r" using SkipTrivia_over [OF assms(1, 2), of "'','' @ t' @ r"] assms(4) by auto
  have d: "reads c '','' (advance 1 c)" "unread (advance 1 c) = t' @ r" using reads_advance [OF reads_ok(1) [OF c(2)], of "'',''" "t' @ r" 1] c(3) by auto
  have o: "opts (advance 1 c) = opts ctx" using reads_ok(2) [OF c(2)] reads_ok(2) [OF d(1)] by simp
  obtain e where e: "SkipTrivia (advance 1 c) = success () e" "reads (advance 1 c) t' e" "unread e = r"
    using SkipTrivia_over [OF reads_ok(1) [OF d(1)] _ d(2) assms(5)] assms(3) o by auto
  have "reads ctx (t @ '','' @ t') e" using reads_trans [OF c(2) reads_trans [OF d(1) e(2)]] by simp
  moreover have "peek c = CHR '',''" using c(3) by (simp add: Peek_unread)
  ultimately show ?thesis using c(1) e assms(6) by (intro exI [of _ e]) (simp add: item_tail_def and_then_def)
qed

definition complete_value :: "('u, 'f) library \<Rightarrow> ParseOptions \<Rightarrow> string \<Rightarrow> 'f json \<Rightarrow> bool" where
  "complete_value lib op u v \<longleftrightarrow> (\<forall>fuel ctx s. ctx_ok ctx \<longrightarrow> opts ctx = op \<longrightarrow> unread ctx = u @ s \<longrightarrow> number_ends s \<longrightarrow>
     results True resource (\<lambda>i c. reads ctx u c \<and> val_at c i v) (ParseValue lib fuel ctx))"

definition complete_elements :: "('u, 'f) library \<Rightarrow> ParseOptions \<Rightarrow> string \<Rightarrow> 'f json list \<Rightarrow> bool" where
  "complete_elements lib op es vs \<longleftrightarrow> (\<forall>fuel ctx s ids ws. ctx_ok ctx \<longrightarrow> opts ctx = op \<longrightarrow> unread ctx = es @ s \<longrightarrow> list_all2 (val_at ctx) (elems ids) ws \<longrightarrow>
     results True resource (\<lambda>ids' c. reads ctx es c \<and> list_all2 (val_at c) (elems ids') (ws @ vs)) (array_loop lib fuel ids ctx))"

definition complete_members :: "('u, 'f) library \<Rightarrow> ParseOptions \<Rightarrow> string \<Rightarrow> (string \<times> 'f json) list \<Rightarrow> bool" where
  "complete_members lib op es kvs \<longleftrightarrow> (\<forall>fuel ctx s ms obj obj'. ctx_ok ctx \<longrightarrow> opts ctx = op \<longrightarrow> unread ctx = es @ s \<longrightarrow>
     list_all2 (member_is (off ctx) (doc ctx)) (elems ms) obj \<longrightarrow> merge_members (duplicateKeys op) obj kvs = Some obj' \<longrightarrow>
     results True resource (\<lambda>ms' c. reads ctx es c \<and> list_all2 (member_is (off c) (doc c)) (elems ms') obj') (object_loop lib fuel ms ctx))"

lemma complete_valueD:
  "complete_value lib (opts ctx) u v \<Longrightarrow> ctx_ok ctx \<Longrightarrow> unread ctx = u @ s \<Longrightarrow> number_ends s \<Longrightarrow>
   results True resource (\<lambda>i c. reads ctx u c \<and> val_at c i v) (ParseValue lib fuel ctx)"
  unfolding complete_value_def by blast

lemma complete_elementsD:
  "complete_elements lib (opts ctx) es vs \<Longrightarrow> ctx_ok ctx \<Longrightarrow> unread ctx = es @ s \<Longrightarrow> list_all2 (val_at ctx) (elems ids) ws \<Longrightarrow>
   results True resource (\<lambda>ids' c. reads ctx es c \<and> list_all2 (val_at c) (elems ids') (ws @ vs)) (array_loop lib fuel ids ctx)"
  unfolding complete_elements_def by blast

lemma complete_membersD:
  "complete_members lib (opts ctx) es kvs \<Longrightarrow> ctx_ok ctx \<Longrightarrow> unread ctx = es @ s \<Longrightarrow> list_all2 (member_is (off ctx) (doc ctx)) (elems ms) obj \<Longrightarrow>
   merge_members (duplicateKeys (opts ctx)) obj kvs = Some obj' \<Longrightarrow>
   results True resource (\<lambda>ms' c. reads ctx es c \<and> list_all2 (member_is (off c) (doc c)) (elems ms') obj') (object_loop lib fuel ms ctx)"
  unfolding complete_members_def by blast

text \<open>Without trivia before it, a value is parsed by its first character.\<close>

lemma ParseValue_start:
  assumes "ctx_ok ctx" "unread ctx = u @ s" "starts_value u"
  shows "SkipTrivia ctx = success () ctx" "peek ctx = hd u"
  using SkipTrivia_stop [of ctx] starts_value_stops [OF assms(3)] starts_value_peek [OF assms(2, 3)] assms(2) by simp_all

lemma complete_literal:
  assumes "ctx_ok ctx" "unread ctx = l @ s" "l \<in> {''null'', ''true'', ''false''}" "value_text lib (opts ctx) l v"
    "v = (if l = ''null'' then JNull else JBool (l = ''true''))"
  shows "results True resource (\<lambda>i c. reads ctx l c \<and> val_at c i v) (ParseValue lib (Suc fuel) ctx)"
proof -
  note st = ParseValue_start [OF assms(1, 2) value_starts [OF assms(4)]]
  obtain c where c: "MatchLiteral l ctx = Some c" using MatchLiteral_reads(2) [OF assms(1, 2)] by blast
  have add: "results True resource (\<lambda>i c. reads ctx l c \<and> val_at c i v) (AddNode lib (mk_node c (off ctx) k p) c)"
    if "\<And>st i nd. NodeAt st i = Some nd \<Longrightarrow> node_kind nd = k \<Longrightarrow> node_payload nd = p \<Longrightarrow> denotes (off c) st i v" for k p
    by (rule results_mono [OF AddNode_outcome [OF MatchLiteral_reads(1) [OF assms(1) c], of _ v]]) (use that in \<open>auto simp: mk_node_def\<close>)
  have "results True resource (\<lambda>i c. reads ctx l c \<and> val_at c i v) (AddNode lib (mk_node c (off ctx) KNull NoPayload) c)" if "l = ''null''"
    by (rule add) (use that assms(5) in \<open>auto intro: denotes_null\<close>)
  moreover have "results True resource (\<lambda>i c. reads ctx l c \<and> val_at c i v) (AddNode lib (mk_node c (off ctx) KBool (BoolPayload (l = ''true''))) c)" if "l \<noteq> ''null''"
    by (rule add) (use that assms(5) in \<open>auto intro: denotes_bool\<close>)
  ultimately show ?thesis using assms(3) st c by (elim insertE emptyE) (simp_all add: and_then_def digit_ord)
qed

lemma complete_string:
  assumes "ctx_ok ctx" "unread ctx = (CHR 0x22 # t @ [CHR 0x22]) @ s" "chars_text t v"
  shows "results True resource (\<lambda>i c. reads ctx (CHR 0x22 # t @ [CHR 0x22]) c \<and> val_at c i (JString v)) (ParseValue lib (Suc fuel) ctx)"
proof -
  note st = ParseValue_start [OF assms(1, 2) value_starts [OF text_string [OF assms(3)]]]
  have u: "unread ctx = CHR 0x22 # t @ CHR 0x22 # s" using assms(2) by simp
  have "results True resource (\<lambda>i c. reads ctx (CHR 0x22 # t @ [CHR 0x22]) c \<and> val_at c i (JString v)) (and_then (ParseString lib ctx) (\<lambda>s ctx.
        AddNode lib \<lparr>node_kind = KString, node_span = string_span s, node_payload = StringPayload (string_value s)\<rparr> ctx))"
  proof (rule results_then [OF ParseString_complete [OF assms(1, 3) u]], elim conjE)
    fix k c assume k: "reads ctx (CHR 0x22 # t @ [CHR 0x22]) c" "key_is (off c) (doc c) (string_value k) v"
    show "results True resource (\<lambda>i c. reads ctx (CHR 0x22 # t @ [CHR 0x22]) c \<and> val_at c i (JString v))
        (AddNode lib \<lparr>node_kind = KString, node_span = string_span k, node_payload = StringPayload (string_value k)\<rparr> c)"
      by (rule results_mono [OF AddNode_outcome [OF k(1), of _ "JString v"]]) (use k(2) in \<open>auto intro: denotes_string key_is_extends\<close>)
  qed
  then show ?thesis using st by (simp add: and_then_def Let_def)
qed

lemma complete_number:
  assumes "ctx_ok ctx" "unread ctx = n @ s" "number_value lib n v" "number_ends s"
  shows "results True resource (\<lambda>i c. reads ctx n c \<and> val_at c i v) (ParseValue lib (Suc fuel) ctx)"
proof -
  obtain fl where fl: "number_text n fl" using number_value_text [OF assms(3)] by blast
  note st = ParseValue_start [OF assms(1, 2) number_starts [OF fl]]
  have "ParseValue lib (Suc fuel) ctx = ParseNumber lib ctx" using st number_hd [OF fl] by (auto simp: and_then_def Let_def digit_ord)
  then show ?thesis using ParseNumber_complete [OF assms(1, 3, 2, 4)] by simp
qed

lemma complete_array:
  fixes lib :: "('u, 'f) library"
  assumes es: "es = '']'' \<and> vs = [] \<or> starts_value es \<and> complete_elements lib op es vs" and t: "trivia (comments op) t"
  shows "complete_value lib op (CHR ''['' # t @ es) (JArray vs)"
  unfolding complete_value_def
proof (intro allI impI)
  fix fuel and ctx :: "('u, 'f) ParseContext" and s
  assume ok: "ctx_ok ctx" and o: "opts ctx = op" and u: "unread ctx = (CHR ''['' # t @ es) @ s"
  let ?Q = "\<lambda>i c. reads ctx (CHR ''['' # t @ es) c \<and> val_at c i (JArray vs)" and ?c0 = "ctx\<lparr>depth := depth ctx + 1\<rparr>"
  have rd1: "reads ctx ''['' (advance 1 ?c0)" using reads_trans [OF reads_env(2) [OF reads_refl [OF ok]] reads_char [of ?c0 "CHR ''[''"]] u ok
    by (simp add: ctx_ok_def Peek_unread)
  have st: "stops (es @ s)" using es starts_value_stops by fastforce
  obtain c where c: "SkipTrivia (advance 1 ?c0) = success () c" "reads (advance 1 ?c0) t c" "unread c = es @ s"
    using SkipTrivia_over [OF reads_ok(1) [OF rd1], of t "es @ s"] t st o reads_ok(2) [OF rd1] reads_rest [OF rd1, of "t @ es @ s"] u by auto
  have rd2: "reads ctx (CHR ''['' # t) c" using reads_trans [OF rd1 c(2)] by simp
  have "results True resource ?Q (ParseArray lib f ctx)" for f
  proof (cases f)
    case (Suc f')
    have "results True resource ?Q (if peek c = CHR '']'' then finish_array lib (off ctx) vec_empty (advance 1 c)
        else and_then (array_loop lib f' vec_empty c) (finish_array lib (off ctx)))"
    proof (cases "es = '']'' \<and> vs = []")
      case True
      then have p: "peek c = CHR '']''" using c(3) by (simp add: Peek_unread)
      have "reads ctx (CHR ''['' # t @ es) (advance 1 c)" using reads_trans [OF rd2 reads_char [OF reads_ok(1) [OF rd2] p]] True by simp
      from finish_array_outcome [OF this, of vec_empty "[]" lib "off ctx"] show ?thesis using p True by (simp add: results_partial)
    next
      case False
      then have E: "starts_value es" "complete_elements lib op es vs" using es by blast+
      have p: "peek c \<noteq> CHR '']''" using starts_value_peek [OF c(3) E(1)] E(1) by (auto simp: starts_value_def)
      have "results True resource (\<lambda>ids c'. reads c es c' \<and> list_all2 (val_at c') (elems ids) vs) (array_loop lib f' vec_empty c)"
        using complete_elementsD [of lib c es vs s vec_empty "[]" f'] E(2) reads_ok(1, 2) [OF rd2] c(3) o by simp
      then have "results True resource ?Q (and_then (array_loop lib f' vec_empty c) (finish_array lib (off ctx)))"
      proof (rule results_then, elim conjE)
        fix ids :: "NodeId std_vector" and c' assume r: "reads c es c'" "list_all2 (val_at c') (elems ids) vs"
        have "reads ctx (CHR ''['' # t @ es) c'" using reads_trans [OF rd2 r(1)] by simp
        from finish_array_outcome [OF this r(2)] show "results True resource ?Q (finish_array lib (off ctx) ids c')" by (rule results_partial)
      qed
      then show ?thesis using p by simp
    qed
    then have "results True resource ?Q (ParseArray lib (Suc f') ctx)"
      unfolding ParseArray.simps Let_def c(1) by (intro results_depth) (simp_all add: and_then_def resource_def)
    then show ?thesis using Suc by simp
  qed simp
  moreover have "SkipTrivia ctx = success () ctx" "peek ctx = CHR ''[''" using SkipTrivia_stop [of ctx] u by (simp_all add: Peek_unread stops_def is_space_def)
  ultimately show "results True resource ?Q (ParseValue lib fuel ctx)" by (cases fuel) (simp_all add: and_then_def)
qed

lemma complete_object:
  fixes lib :: "('u, 'f) library"
  assumes ms: "ms = ''}'' \<and> obj = [] \<or> (\<exists>kvs. members_text lib op ms kvs \<and> complete_members lib op ms kvs \<and> merge_members (duplicateKeys op) [] kvs = Some obj)"
    and t: "trivia (comments op) t"
  shows "complete_value lib op (CHR ''{'' # t @ ms) (JObject obj)"
  unfolding complete_value_def
proof (intro allI impI)
  fix fuel and ctx :: "('u, 'f) ParseContext" and s
  assume ok: "ctx_ok ctx" and o: "opts ctx = op" and u: "unread ctx = (CHR ''{'' # t @ ms) @ s"
  let ?Q = "\<lambda>i c. reads ctx (CHR ''{'' # t @ ms) c \<and> val_at c i (JObject obj)" and ?c0 = "ctx\<lparr>depth := depth ctx + 1\<rparr>"
  have rd1: "reads ctx ''{'' (advance 1 ?c0)" using reads_trans [OF reads_env(2) [OF reads_refl [OF ok]] reads_char [of ?c0 "CHR ''{''"]] u ok
    by (simp add: ctx_ok_def Peek_unread)
  have st: "stops (ms @ s)" using ms members_hd by fastforce
  obtain c where c: "SkipTrivia (advance 1 ?c0) = success () c" "reads (advance 1 ?c0) t c" "unread c = ms @ s"
    using SkipTrivia_over [OF reads_ok(1) [OF rd1], of t "ms @ s"] t st o reads_ok(2) [OF rd1] reads_rest [OF rd1, of "t @ ms @ s"] u by auto
  have rd2: "reads ctx (CHR ''{'' # t) c" using reads_trans [OF rd1 c(2)] by simp
  have "results True resource ?Q (ParseObject lib f ctx)" for f
  proof (cases f)
    case (Suc f')
    have "results True resource ?Q (if peek c = CHR ''}'' then finish_object lib (off ctx) vec_empty (advance 1 c)
        else and_then (object_loop lib f' vec_empty c) (finish_object lib (off ctx)))"
    proof (cases "ms = ''}'' \<and> obj = []")
      case True
      then have p: "peek c = CHR ''}''" using c(3) by (simp add: Peek_unread)
      have "reads ctx (CHR ''{'' # t @ ms) (advance 1 c)" using reads_trans [OF rd2 reads_char [OF reads_ok(1) [OF rd2] p]] True by simp
      from finish_object_outcome [OF this, of vec_empty "[]" lib "off ctx"] show ?thesis using p True by (simp add: results_partial)
    next
      case False
      then obtain kvs where E: "members_text lib op ms kvs" "complete_members lib op ms kvs" "merge_members (duplicateKeys op) [] kvs = Some obj" using ms by blast
      have p: "peek c \<noteq> CHR ''}''" using c(3) members_hd [OF E(1)] by (auto simp: Peek_unread)
      have "results True resource (\<lambda>ids c'. reads c ms c' \<and> list_all2 (member_is (off c') (doc c')) (elems ids) obj) (object_loop lib f' vec_empty c)"
        using complete_membersD [of lib c ms kvs s vec_empty "[]" obj f'] E(2, 3) reads_ok(1, 2) [OF rd2] c(3) o by simp
      then have "results True resource ?Q (and_then (object_loop lib f' vec_empty c) (finish_object lib (off ctx)))"
      proof (rule results_then, elim conjE)
        fix ids :: "MemberRecord std_vector" and c' assume r: "reads c ms c'" "list_all2 (member_is (off c') (doc c')) (elems ids) obj"
        have "reads ctx (CHR ''{'' # t @ ms) c'" using reads_trans [OF rd2 r(1)] by simp
        from finish_object_outcome [OF this r(2)] show "results True resource ?Q (finish_object lib (off ctx) ids c')" by (rule results_partial)
      qed
      then show ?thesis using p by simp
    qed
    then have "results True resource ?Q (ParseObject lib (Suc f') ctx)"
      unfolding ParseObject.simps Let_def c(1) by (intro results_depth) (simp_all add: and_then_def resource_def)
    then show ?thesis using Suc by simp
  qed simp
  moreover have "SkipTrivia ctx = success () ctx" "peek ctx = CHR ''{''" using SkipTrivia_stop [of ctx] u by (simp_all add: Peek_unread stops_def is_space_def)
  ultimately show "results True resource ?Q (ParseValue lib fuel ctx)" by (cases fuel) (simp_all add: and_then_def)
qed

lemma array_item:
  fixes lib :: "('u, 'f) library" and ids :: "NodeId std_vector"
  assumes ok: "ctx_ok ctx" and v: "complete_value lib (opts ctx) s v" "unread ctx = s @ r" "number_ends r" and ws: "list_all2 (val_at ctx) (elems ids) ws"
    and tail: "\<And>ids' ctx2 e1 e2. reads ctx s ctx2 \<Longrightarrow> unread ctx2 = r \<Longrightarrow> list_all2 (val_at ctx2) (elems ids') (ws @ [v]) \<Longrightarrow>
      results True resource Q (item_tail (CHR '']'') e1 e2 ids' (array_loop lib fuel ids') ctx2)"
  shows "results True resource Q (array_loop lib (Suc fuel) ids ctx)"
  unfolding array_loop.simps item_tail_def [symmetric]
proof (rule results_then [OF complete_valueD [OF v(1) ok v(2, 3)]], elim conjE)
  fix i ctx1 assume r: "reads ctx s ctx1" "val_at ctx1 i v"
  show "results True resource Q (case vec_push_back (platform.truncate lib) 4 i ids (env ctx1) of
      None \<Rightarrow> failure (MakeError ctx1 OutOfMemory ''JSON array allocation failed'')
    | Some (ids', w) \<Rightarrow> item_tail (CHR '']'') (\<lambda>ctx. MakeError ctx UnexpectedCharacter ''Expected ',' or ']' in JSON array'')
          (\<lambda>ctx. MakeError ctx InvalidToken ''Trailing comma in JSON array'') ids' (array_loop lib fuel ids') (ctx1\<lparr>env := w\<rparr>))"
  proof (split option.split, intro conjI allI impI)
    show "results True resource Q (failure (MakeError ctx1 OutOfMemory ''JSON array allocation failed''))" by (simp add: resource_def)
    fix p assume p: "vec_push_back (platform.truncate lib) 4 i ids (env ctx1) = Some p"
    obtain ids' w where pw: "p = (ids', w)" by (cases p)
    have rd: "reads ctx s (ctx1\<lparr>env := w\<rparr>)" by (rule reads_env(1) [OF r(1)])
    have "list_all2 (val_at (ctx1\<lparr>env := w\<rparr>)) (elems ids') (ws @ [v])"
      using vec_push_back_elems [OF p [unfolded pw]] reads_all [OF r(1) ws] r(2) by (simp add: list_all2_appendI)
    from tail [OF rd reads_rest [OF rd v(2)] this] show "results True resource Q (case p of (ids', w) \<Rightarrow>
        item_tail (CHR '']'') (\<lambda>ctx. MakeError ctx UnexpectedCharacter ''Expected ',' or ']' in JSON array'')
          (\<lambda>ctx. MakeError ctx InvalidToken ''Trailing comma in JSON array'') ids' (array_loop lib fuel ids') (ctx1\<lparr>env := w\<rparr>))"
      unfolding pw by simp
  qed
qed

text \<open>The rest of an array or object after an item: it ends there (\<open>A\<close>), or goes on with a text of which \<open>B\<close> holds.\<close>

definition rest_items :: "char \<Rightarrow> ParseOptions \<Rightarrow> string \<Rightarrow> bool \<Rightarrow> (string \<Rightarrow> bool) \<Rightarrow> bool" where
  "rest_items close op r A B \<longleftrightarrow>
     (\<exists>t. trivia (comments op) t \<and> r = t @ [close] \<and> A) \<or>
     (\<exists>t t'. trailingCommas op = AllowTrailing \<and> trivia (comments op) t \<and> trivia (comments op) t' \<and> r = t @ '','' @ t' @ [close] \<and> A) \<or>
     (\<exists>t t' es. trivia (comments op) t \<and> trivia (comments op) t' \<and> r = t @ '','' @ t' @ es \<and> B es)"

lemma rest_items_more: "trivia (comments op) t \<Longrightarrow> trivia (comments op) t' \<Longrightarrow> B es \<Longrightarrow> rest_items close op (t @ '','' @ t' @ es) A B"
  unfolding rest_items_def by blast

lemma rest_items_ends: "rest_items close op r A B \<Longrightarrow> number_ends (close # q) \<Longrightarrow> number_ends (r @ q)"
  using ends_trivia [of "comments op" _ close q] by (auto simp: rest_items_def ends_trivia)

lemma item_tail_complete:
  assumes ok: "ctx_ok ctx" "opts ctx = op" "unread ctx = r @ q" and r: "rest_items close op r A B"
    and close: "close \<noteq> CHR '',''" "close \<noteq> NUL" "stops (close # q)"
    and last_item: "\<And>c. A \<Longrightarrow> reads ctx r c \<Longrightarrow> Q x c"
    and starts: "\<And>es. B es \<Longrightarrow> stops (es @ q) \<and> es \<noteq> [] \<and> hd es \<noteq> close"
    and more: "\<And>w es c. B es \<Longrightarrow> r = w @ es \<Longrightarrow> reads ctx w c \<Longrightarrow> unread c = es @ q \<Longrightarrow> results True resource Q (loop c)"
  shows "results True resource Q (item_tail close e1 e2 x loop ctx)"
proof -
  from r consider t where "trivia (comments op) t" "r = t @ [close]" A
    | t t' where "trailingCommas op = AllowTrailing" "trivia (comments op) t" "trivia (comments op) t'" "r = t @ '','' @ t' @ [close]" A
    | t t' es where "trivia (comments op) t" "trivia (comments op) t'" "r = t @ '','' @ t' @ es" "B es"
    unfolding rest_items_def by blast
  then show ?thesis
  proof cases
    case (1 t)
    then obtain c where c: "item_tail close e1 e2 x loop ctx = success x c" "reads ctx r c"
      using item_tail_close [OF ok(1), of t close q e1 e2 x loop] ok(2, 3) close(3) by auto
    then show ?thesis using last_item [OF 1(3) c(2)] by simp
  next
    case (2 t t')
    then obtain c where c: "reads ctx (t @ '','' @ t') c" "unread c = close # q" "item_tail close e1 e2 x loop ctx =
        (if peek c = close then if trailingCommas (opts c) = RejectTrailing then failure (e2 c) else success x (advance 1 c) else loop c)"
      using item_tail_comma [OF ok(1), of t t' "close # q" close e1 e2 x loop] ok(2, 3) close by auto
    have p: "peek c = close" using c(2) by (simp add: Peek_unread)
    have "reads ctx r (advance 1 c)" using reads_trans [OF c(1) reads_char [OF reads_ok(1) [OF c(1)] p close(2)]] 2 by simp
    then show ?thesis using c(3) p last_item 2 reads_ok(2) [OF c(1)] ok(2) by simp
  next
    case (3 t t' es)
    then obtain c where c: "reads ctx (t @ '','' @ t') c" "unread c = es @ q" "item_tail close e1 e2 x loop ctx =
        (if peek c = close then if trailingCommas (opts c) = RejectTrailing then failure (e2 c) else success x (advance 1 c) else loop c)"
      using item_tail_comma [OF ok(1), of t t' "es @ q" close e1 e2 x loop] ok(2, 3) close starts [OF 3(4)] by auto
    have "peek c \<noteq> close" using c(2) starts [OF 3(4)] by (cases es) (auto simp: Peek_unread)
    then show ?thesis using c(3) more [OF 3(4) _ c(1, 2)] 3(3) by simp
  qed
qed

lemma complete_elements_item:
  fixes lib :: "('u, 'f) library"
  assumes v: "complete_value lib op s v" and r: "rest_items (CHR '']'') op r (vs = []) (\<lambda>es. starts_value es \<and> complete_elements lib op es vs)"
  shows "complete_elements lib op (s @ r) (v # vs)"
  unfolding complete_elements_def
proof (intro allI impI)
  fix fuel and ctx :: "('u, 'f) ParseContext" and q and ids :: "NodeId std_vector" and ws
  assume ok: "ctx_ok ctx" and o: "opts ctx = op" and u: "unread ctx = (s @ r) @ q" and ws: "list_all2 (val_at ctx) (elems ids) ws"
  let ?Q = "\<lambda>ids' c. reads ctx (s @ r) c \<and> list_all2 (val_at c) (elems ids') (ws @ v # vs)"
  have "results True resource ?Q (array_loop lib (Suc f) ids ctx)" for f
  proof (rule array_item [OF ok v [folded o] _ rest_items_ends [OF r, of q] ws])
    show "unread ctx = s @ r @ q" "number_ends (CHR '']'' # q)" using u by simp_all
    fix ids' :: "NodeId std_vector" and ctx2 e1 e2 assume rd: "reads ctx s ctx2" "unread ctx2 = r @ q" "list_all2 (val_at ctx2) (elems ids') (ws @ [v])"
    have ok2: "ctx_ok ctx2" "opts ctx2 = op" using reads_ok(1, 2) [OF rd(1)] o by simp_all
    show "results True resource ?Q (item_tail (CHR '']'') e1 e2 ids' (array_loop lib f ids') ctx2)"
    proof (rule item_tail_complete [OF ok2 rd(2) r])
      show "?Q ids' c" if "vs = []" "reads ctx2 r c" for c using reads_trans [OF rd(1) that(2)] reads_all [OF that(2) rd(3)] that(1) by simp
      show "stops (es @ q) \<and> es \<noteq> [] \<and> hd es \<noteq> CHR '']''" if "starts_value es \<and> complete_elements lib op es vs" for es
        using that starts_value_stops by (auto simp: starts_value_def)
      fix w es c assume c: "starts_value es \<and> complete_elements lib op es vs" "r = w @ es" "reads ctx2 w c" "unread c = es @ q"
      have "results True resource (\<lambda>x d. reads c es d \<and> list_all2 (val_at d) (elems x) ((ws @ [v]) @ vs)) (array_loop lib f ids' c)"
        using complete_elementsD [of lib c es vs q ids' "ws @ [v]" f] c(1, 4) reads_ok(1, 2) [OF c(3)] ok2(2) reads_all [OF c(3) rd(3)] by simp
      then show "results True resource ?Q (array_loop lib f ids' c)"
        by (rule results_mono) (use reads_trans [OF reads_trans [OF rd(1) c(3)]] c(2) in auto)
    qed simp_all
  qed
  then show "results True resource ?Q (array_loop lib fuel ids ctx)" by (cases fuel) simp_all
qed

lemma member_item:
  fixes lib :: "('u, 'f) library" and ms :: "MemberRecord std_vector"
  assumes ok: "ctx_ok ctx" and k: "chars_text k name" and t: "trivia (comments (opts ctx)) t1" "trivia (comments (opts ctx)) t2"
    and v: "complete_value lib (opts ctx) s v" "value_text lib (opts ctx) s v"
    and w: "w = CHR 0x22 # k @ CHR 0x22 # t1 @ '':'' @ t2 @ s" and u: "unread ctx = w @ r" "number_ends r"
    and ms: "list_all2 (member_is (off ctx) (doc ctx)) (elems ms) obj" and add: "add_member (duplicateKeys (opts ctx)) obj (name, v) = Some obj1"
    and tail: "\<And>ms' ctx2 e1 e2. reads ctx w ctx2 \<Longrightarrow> unread ctx2 = r \<Longrightarrow> list_all2 (member_is (off ctx2) (doc ctx2)) (elems ms') obj1 \<Longrightarrow>
      results True resource Q (item_tail (CHR ''}'') e1 e2 ms' (object_loop lib fuel ms') ctx2)"
  shows "results True resource Q (object_loop lib (Suc fuel) ms ctx)"
proof -
  have "unread ctx = CHR 0x22 # k @ CHR 0x22 # t1 @ '':'' @ t2 @ s @ r" using u(1) w by simp
  note pk = ParseString_complete [OF ok k this]
  show ?thesis unfolding object_loop.simps item_tail_def [symmetric]
  proof (rule results_then [OF pk], elim conjE)
    fix key ctx1 assume key: "reads ctx (CHR 0x22 # k @ [CHR 0x22]) ctx1" "key_is (off ctx1) (doc ctx1) (string_value key) name"
    have u1: "unread ctx1 = t1 @ CHR '':'' # t2 @ s @ r" using reads_rest [OF key(1)] u(1) w by simp
    obtain ctx2 where c2: "SkipTrivia ctx1 = success () ctx2" "reads ctx1 t1 ctx2" "unread ctx2 = CHR '':'' # t2 @ s @ r"
      using SkipTrivia_over [OF reads_ok(1) [OF key(1)] _ u1] t(1) reads_ok(2) [OF key(1)] by auto
    have p: "peek ctx2 = CHR '':''" using c2(3) by (simp add: Peek_unread)
    have rd3: "reads ctx2 '':'' (advance 1 ctx2)" "unread (advance 1 ctx2) = t2 @ s @ r"
      using reads_advance [OF reads_ok(1) [OF c2(2)], of "'':''" "t2 @ s @ r" 1] c2(3) by auto
    have o3: "opts (advance 1 ctx2) = opts ctx" using reads_ok(2) [OF rd3(1)] reads_ok(2) [OF c2(2)] reads_ok(2) [OF key(1)] by simp
    obtain ctx4 where c4: "SkipTrivia (advance 1 ctx2) = success () ctx4" "reads (advance 1 ctx2) t2 ctx4" "unread ctx4 = s @ r"
      using SkipTrivia_over [OF reads_ok(1) [OF rd3(1)] _ rd3(2) starts_value_stops [OF value_starts [OF v(2)]]] t(2) o3 by auto
    have rd4: "reads ctx1 (t1 @ '':'' @ t2) ctx4" using reads_trans [OF c2(2) reads_trans [OF rd3(1) c4(2)]] by simp
    have o4: "opts ctx4 = opts ctx" using reads_ok(2) [OF c4(2)] o3 by simp
    have pv: "results True resource (\<lambda>i c. reads ctx4 s c \<and> val_at c i v) (ParseValue lib fuel ctx4)"
      using complete_valueD [OF _ reads_ok(1) [OF rd4] c4(3) u(2), of lib v fuel] v(1) o4 by simp
    have "results True resource Q (and_then (ParseValue lib fuel ctx4) (\<lambda>v ctx.
              case NodeAt (doc ctx) v of
                None \<Rightarrow> None
              | Some n \<Rightarrow>
                let m = \<lparr>member_key = string_value key, member_value = v,
                         member_span = \<lparr>span_source = sourceId (doc ctx), span_begin = span_begin (string_span key), span_end = span_end (node_span n)\<rparr>\<rparr>
                in and_then (AddMember lib (string_span key) m ms ctx) (\<lambda>ms.
                     item_tail (CHR ''}'') (\<lambda>ctx. MakeError ctx UnexpectedCharacter ''Expected ',' or '}' in JSON object'')
                       (\<lambda>ctx. MakeError ctx InvalidToken ''Trailing comma in JSON object'') ms (object_loop lib fuel ms))))"
    proof (rule results_then [OF pv], elim conjE)
      fix i ctx5 assume r5: "reads ctx4 s ctx5" "val_at ctx5 i v"
      have rd5: "reads ctx1 (t1 @ '':'' @ t2 @ s) ctx5" using reads_trans [OF rd4 r5(1)] by simp
      have rd: "reads ctx w ctx5" using reads_trans [OF key(1) rd5] w by simp
      obtain n where n: "NodeAt (doc ctx5) i = Some n" using denotes_NodeAt [OF r5(2)] by blast
      let ?m = "\<lparr>member_key = string_value key, member_value = i,
        member_span = \<lparr>span_source = sourceId (doc ctx5), span_begin = span_begin (string_span key), span_end = span_end (node_span n)\<rparr>\<rparr>"
      have m: "member_is (off ctx5) (doc ctx5) ?m (name, v)" using r5(2) reads_key [OF rd5 key(2)] by (simp add: member_is_def)
      have o: "opts ctx5 = opts ctx" using reads_ok(2) [OF rd] .
      have "results True resource Q (and_then (AddMember lib (string_span key) ?m ms ctx5) (\<lambda>ms.
                     item_tail (CHR ''}'') (\<lambda>ctx. MakeError ctx UnexpectedCharacter ''Expected ',' or '}' in JSON object'')
                       (\<lambda>ctx. MakeError ctx InvalidToken ''Trailing comma in JSON object'') ms (object_loop lib fuel ms)))"
      proof (rule results_then)
        show "results True resource (\<lambda>ms' c. reads ctx w c \<and> list_all2 (member_is (off c) (doc c)) (elems ms') obj1) (AddMember lib (string_span key) ?m ms ctx5)"
          by (rule results_mono [OF AddMember_outcome [OF rd reads_members [OF rd ms] m]]) (use add o in auto)
      qed (use tail reads_rest [OF _ u(1)] in blast)
      then show "results True resource Q (case NodeAt (doc ctx5) i of
                None \<Rightarrow> None
              | Some n \<Rightarrow>
                let m = \<lparr>member_key = string_value key, member_value = i,
                         member_span = \<lparr>span_source = sourceId (doc ctx5), span_begin = span_begin (string_span key), span_end = span_end (node_span n)\<rparr>\<rparr>
                in and_then (AddMember lib (string_span key) m ms ctx5) (\<lambda>ms.
                     item_tail (CHR ''}'') (\<lambda>ctx. MakeError ctx UnexpectedCharacter ''Expected ',' or '}' in JSON object'')
                       (\<lambda>ctx. MakeError ctx InvalidToken ''Trailing comma in JSON object'') ms (object_loop lib fuel ms)))"
        unfolding n option.case Let_def .
    qed
    then show "results True resource Q (and_then (SkipTrivia ctx1) (\<lambda>_ ctx.
       if peek ctx \<noteq> CHR '':'' then failure (MakeError ctx UnexpectedCharacter ''Expected ':' after JSON key'')
       else and_then (SkipTrivia (advance 1 ctx)) (\<lambda>_ ctx.
            and_then (ParseValue lib fuel ctx) (\<lambda>v ctx.
              case NodeAt (doc ctx) v of
                None \<Rightarrow> None
              | Some n \<Rightarrow>
                let m = \<lparr>member_key = string_value key, member_value = v,
                         member_span = \<lparr>span_source = sourceId (doc ctx), span_begin = span_begin (string_span key), span_end = span_end (node_span n)\<rparr>\<rparr>
                in and_then (AddMember lib (string_span key) m ms ctx) (\<lambda>ms.
                     item_tail (CHR ''}'') (\<lambda>ctx. MakeError ctx UnexpectedCharacter ''Expected ',' or '}' in JSON object'')
                       (\<lambda>ctx. MakeError ctx InvalidToken ''Trailing comma in JSON object'') ms (object_loop lib fuel ms))))))"
      by (simp only: c2(1) and_then_success p simp_thms if_False c4(1))
  qed
qed

lemma complete_members_item:
  fixes lib :: "('u, 'f) library"
  assumes k: "chars_text k name" and t: "trivia (comments op) t1" "trivia (comments op) t2" and v: "complete_value lib op s v" "value_text lib op s v"
    and w: "w = CHR 0x22 # k @ CHR 0x22 # t1 @ '':'' @ t2 @ s"
    and r: "rest_items (CHR ''}'') op r (kvs = []) (\<lambda>es. (\<exists>q. es = CHR 0x22 # q) \<and> complete_members lib op es kvs)"
  shows "complete_members lib op (w @ r) ((name, v) # kvs)"
  unfolding complete_members_def
proof (intro allI impI)
  fix fuel and ctx :: "('u, 'f) ParseContext" and q and ms :: "MemberRecord std_vector" and obj obj'
  assume ok: "ctx_ok ctx" and o: "opts ctx = op" and u: "unread ctx = (w @ r) @ q" and ms: "list_all2 (member_is (off ctx) (doc ctx)) (elems ms) obj"
    and merge: "merge_members (duplicateKeys op) obj ((name, v) # kvs) = Some obj'"
  let ?Q = "\<lambda>ms' c. reads ctx (w @ r) c \<and> list_all2 (member_is (off c) (doc c)) (elems ms') obj'"
  obtain obj1 where obj1: "add_member (duplicateKeys (opts ctx)) obj (name, v) = Some obj1" "merge_members (duplicateKeys op) obj1 kvs = Some obj'"
    using merge o by (auto split: option.splits)
  have "results True resource ?Q (object_loop lib (Suc f) ms ctx)" for f
  proof (rule member_item [OF ok k t [folded o] v [folded o] w _ rest_items_ends [OF r, of q] ms obj1(1)])
    show "unread ctx = w @ r @ q" "number_ends (CHR ''}'' # q)" using u by simp_all
    fix ms' :: "MemberRecord std_vector" and ctx2 e1 e2
    assume rd: "reads ctx w ctx2" "unread ctx2 = r @ q" "list_all2 (member_is (off ctx2) (doc ctx2)) (elems ms') obj1"
    have ok2: "ctx_ok ctx2" "opts ctx2 = op" using reads_ok(1, 2) [OF rd(1)] o by simp_all
    show "results True resource ?Q (item_tail (CHR ''}'') e1 e2 ms' (object_loop lib f ms') ctx2)"
    proof (rule item_tail_complete [OF ok2 rd(2) r])
      show "?Q ms' c" if "kvs = []" "reads ctx2 r c" for c using reads_trans [OF rd(1) that(2)] reads_members [OF that(2) rd(3)] that(1) obj1(2) by simp
      show "stops (es @ q) \<and> es \<noteq> [] \<and> hd es \<noteq> CHR ''}''" if "(\<exists>q. es = CHR 0x22 # q) \<and> complete_members lib op es kvs" for es using that by auto
      fix w' es c assume c: "(\<exists>q. es = CHR 0x22 # q) \<and> complete_members lib op es kvs" "r = w' @ es" "reads ctx2 w' c" "unread c = es @ q"
      have "results True resource (\<lambda>x d. reads c es d \<and> list_all2 (member_is (off d) (doc d)) (elems x) obj') (object_loop lib f ms' c)"
        using complete_membersD [of lib c es kvs q ms' obj1 obj' f] c(1, 4) reads_ok(1, 2) [OF c(3)] ok2(2) reads_members [OF c(3) rd(3)] obj1(2) by simp
      then show "results True resource ?Q (object_loop lib f ms' c)"
        by (rule results_mono) (use reads_trans [OF reads_trans [OF rd(1) c(3)]] c(2) in auto)
    qed simp_all
  qed
  then show "results True resource ?Q (object_loop lib fuel ms ctx)" by (cases fuel) simp_all
qed

lemma complete_valueI:
  fixes lib :: "('u, 'f) library"
  assumes "\<And>fuel ctx s. ctx_ok ctx \<Longrightarrow> opts ctx = op \<Longrightarrow> unread ctx = u @ s \<Longrightarrow> number_ends s \<Longrightarrow>
    results True resource (\<lambda>i c. reads ctx u c \<and> val_at c i v) (ParseValue lib (Suc fuel) ctx)"
  shows "complete_value lib op u v"
  unfolding complete_value_def
proof (intro allI impI)
  fix fuel and ctx :: "('u, 'f) ParseContext" and s assume "ctx_ok ctx" "opts ctx = op" "unread ctx = u @ s" "number_ends s"
  then show "results True resource (\<lambda>i c. reads ctx u c \<and> val_at c i v) (ParseValue lib fuel ctx)" using assms by (cases fuel) simp_all
qed

lemma complete_all:
  "value_text lib op u v \<Longrightarrow> complete_value lib op u v"
  "elements_text lib op es vs \<Longrightarrow> complete_elements lib op es vs"
  "members_text lib op ms kvs \<Longrightarrow> complete_members lib op ms kvs"
proof (induction rule: value_text_elements_text_members_text.inducts)
  case text_null
  show ?case by (rule complete_valueI) (rule complete_literal, simp_all add: value_text_elements_text_members_text.text_null)
next
  case text_true
  show ?case by (rule complete_valueI) (rule complete_literal, simp_all add: value_text_elements_text_members_text.text_true)
next
  case text_false
  show ?case by (rule complete_valueI) (rule complete_literal, simp_all add: value_text_elements_text_members_text.text_false)
next
  case (text_number s v)
  show ?case by (rule complete_valueI) (use complete_number [OF _ _ text_number] in blast)
next
  case (text_string t s)
  show ?case by (rule complete_valueI) (use complete_string [OF _ _ text_string] in blast)
next
  case (text_array_empty t)
  show ?case by (rule complete_array) (use text_array_empty in auto)
next
  case (text_array t es vs)
  show ?case by (rule complete_array) (use text_array elements_starts in auto)
next
  case (text_object_empty t)
  show ?case by (rule complete_object) (use text_object_empty in auto)
next
  case (text_object t ms kvs obj)
  show ?case by (rule complete_object) (use text_object in blast)+
next
  case (elements_last s v t)
  show ?case by (rule complete_elements_item) (use elements_last in \<open>auto simp: rest_items_def\<close>)
next
  case (elements_trailing s v t t')
  show ?case by (rule complete_elements_item) (use elements_trailing in \<open>auto simp: rest_items_def\<close>)
next
  case (elements_more s v t t' es vs)
  then have "rest_items (CHR '']'') op (t @ '','' @ t' @ es) (vs = []) (\<lambda>es. starts_value es \<and> complete_elements lib op es vs)"
    using elements_starts by (intro rest_items_more) blast+
  then show ?case using complete_elements_item elements_more by blast
next
  case (members_last k key t1 t2 s v t)
  have "rest_items (CHR ''}'') op (t @ ''}'') ([] = []) (\<lambda>es. (\<exists>q. es = CHR 0x22 # q) \<and> complete_members lib op es [])"
    using members_last unfolding rest_items_def by blast
  from complete_members_item [OF members_last(1-3, 5, 4) refl this] show ?case by simp
next
  case (members_trailing k key t1 t2 s v t t')
  have "rest_items (CHR ''}'') op (t @ '','' @ t' @ ''}'') ([] = []) (\<lambda>es. (\<exists>q. es = CHR 0x22 # q) \<and> complete_members lib op es [])"
    using members_trailing unfolding rest_items_def by blast
  from complete_members_item [OF _ members_trailing(2, 3, 5, 4) refl this] show ?case using \<open>chars_text k key\<close> by simp
next
  case (members_more k key t1 t2 s v t t' ms kvs)
  have "rest_items (CHR ''}'') op (t @ '','' @ t' @ ms) (kvs = []) (\<lambda>es. (\<exists>q. es = CHR 0x22 # q) \<and> complete_members lib op es kvs)"
    by (rule rest_items_more) (use members_more members_hd [OF \<open>members_text lib op ms kvs\<close>] in \<open>blast+\<close>)
  from complete_members_item [OF members_more(1-3, 5, 4) refl this] show ?case by simp
qed

end
