(* ===== verification/JSON_Parser_Props.thy ===== *)
theory JSON_Parser_Props
  imports JSON_Completeness
begin

text \<open>
  Whole JSON documents: what the views of a document present, and that each entry point of the parser returns a document exactly for the texts of the grammar.
\<close>

section \<open>Documents through their views\<close>

text \<open>What a client reads of a node with the views of the document.\<close>

inductive presents :: "'f DocumentState \<Rightarrow> NodeId \<Rightarrow> 'f json \<Rightarrow> bool" for st where
  presents_null: "Value_IsValid st i \<Longrightarrow> Kind st i = KNull \<Longrightarrow> presents st i JNull"
| presents_bool: "Kind st i = KBool \<Longrightarrow> TryBool st i = Some b \<Longrightarrow> presents st i (JBool b)"
| presents_int: "TryInt64 st i = Some k \<Longrightarrow> TryUInt64 st i = (if 0 \<le> k then Some (nat k) else None) \<Longrightarrow> (\<And>f64. TryDouble f64 st i = Some (f64 k)) \<Longrightarrow>
    presents st i (JInt k)"
| presents_uint: "TryInt64 st i = None \<Longrightarrow> TryUInt64 st i = Some k \<Longrightarrow> (\<And>f64. TryDouble f64 st i = Some (f64 (int k))) \<Longrightarrow> presents st i (JInt (int k))"
| presents_double: "Kind st i = KDouble \<Longrightarrow> (\<And>f64. TryDouble f64 st i = Some x) \<Longrightarrow> presents st i (JDouble x)"
| presents_string: "TryString st i = Some s \<Longrightarrow> presents st i (JString s)"
| presents_array: "TryArray st i = Some r \<Longrightarrow> Array_Size st r = length vs \<Longrightarrow> (\<And>j. j < length vs \<Longrightarrow> presents st (Array_index st r j) (vs ! j)) \<Longrightarrow>
    presents st i (JArray vs)"
| presents_object: "TryObject st i = Some r \<Longrightarrow> Object_Size st r = length kvs \<Longrightarrow>
    (\<And>j. j < length kvs \<Longrightarrow> \<exists>m. MemberAt st r j = Some m \<and> Member_Key st m = fst (kvs ! j) \<and> presents st (Member_Value st m) (snd (kvs ! j))) \<Longrightarrow>
    (\<And>k. Find st r k = None \<Longrightarrow> map_of kvs k = None) \<Longrightarrow>
    (\<And>k n. Find st r k = Some n \<Longrightarrow> \<exists>v. map_of kvs k = Some v \<and> presents st n v) \<Longrightarrow>
    presents st i (JObject kvs)"

lemma Find_loop_map_of:
  assumes "list_all2 (\<lambda>m kv. View st (member_key m) = fst kv \<and> P (member_value m) (snd kv)) (take n (drop b (elems (members st)))) kvs"
    "b + n \<le> length (elems (members st))" "j \<le> n"
  shows "case Find_loop st (b, n) k j of None \<Rightarrow> map_of (drop j kvs) k = None | Some x \<Rightarrow> \<exists>v. map_of (drop j kvs) k = Some v \<and> P x v"
  using assms(3)
proof (induction "n - j" arbitrary: j)
  case 0
  have "length kvs = n" using list_all2_lengthD [OF assms(1)] assms(2) by simp
  then show ?case using 0 by (subst Find_loop.simps) simp
next
  case (Suc d)
  have len: "length kvs = n" using list_all2_lengthD [OF assms(1)] assms(2) by simp
  then have j: "j < n" "drop j kvs = kvs ! j # drop (Suc j) kvs" using Suc(2) by (simp_all add: Cons_nth_drop_Suc)
  let ?m = "elems (members st) ! (b + j)"
  have m: "View st (member_key ?m) = fst (kvs ! j)" "P (member_value ?m) (snd (kvs ! j))"
    using list_all2_nthD2 [OF assms(1), of j] len j(1) assms(2) by simp_all
  have IH: "case Find_loop st (b, n) k (Suc j) of None \<Rightarrow> map_of (drop (Suc j) kvs) k = None | Some x \<Rightarrow> \<exists>v. map_of (drop (Suc j) kvs) k = Some v \<and> P x v"
    using Suc(1) [of "Suc j"] Suc(2) j(1) by simp
  obtain k' v' where kv: "kvs ! j = (k', v')" by (cases "kvs ! j")
  show ?case
  proof (cases "k' = k")
    case True
    then have "Find_loop st (b, n) k j = Some (member_value ?m)" using j(1) m(1) kv by (simp add: Find_loop.simps [of st "(b, n)" k j] Let_def)
    then show ?thesis using True m(2) j(2) kv by simp
  next
    case False
    then have "Find_loop st (b, n) k j = Find_loop st (b, n) k (Suc j)" using j(1) m(1) kv by (subst Find_loop.simps) (simp add: Let_def)
    then show ?thesis using False IH j(2) kv by (auto split: option.splits)
  qed
qed

lemma denotes_presents: "denotes n st i v \<Longrightarrow> presents st i v"
proof (induction rule: denotes.induct)
  case (denotes_uint i nd k)
  then show ?case by (intro presents_uint) (simp_all add: TryInt64_def TryUInt64_def TryDouble_def payload_unsigned_def)
next
  case (denotes_array i nd b vs)
  have "presents st (elems (elements st) ! (b + j)) (vs ! j)" if "j < length vs" for j
    using list_all2_nthD2 [OF denotes_array(5), of j] that denotes_array(4) by simp
  moreover have "Array_IsValid st (b, length vs)" using denotes_array(4) by (simp add: Array_IsValid_def)
  ultimately show ?case using denotes_array(1-3)
    by (intro presents_array [where r = "(b, length vs)"]) (simp_all add: TryArray_def payload_range_def Array_Size_def Array_index_def)
next
  case (denotes_object i nd b kvs)
  let ?r = "(b, length kvs)"
  have all: "list_all2 (\<lambda>m kv. View st (member_key m) = fst kv \<and> presents st (member_value m) (snd kv)) (take (length kvs) (drop b (elems (members st)))) kvs"
    using denotes_object(5) by (rule list_all2_mono) (auto simp: key_is_def)
  have ok: "Object_IsValid st ?r" using denotes_object(4) by (simp add: Object_IsValid_def)
  have mem: "View st (member_key (elems (members st) ! (b + j))) = fst (kvs ! j) \<and> presents st (member_value (elems (members st) ! (b + j))) (snd (kvs ! j))" if "j < length kvs" for j
    using list_all2_nthD2 [OF all, of j] that denotes_object(4) by simp
  show ?case
  proof (rule presents_object [where r = ?r])
    show "TryObject st i = Some ?r" "Object_Size st ?r = length kvs" using denotes_object(1-3) ok by (simp_all add: TryObject_def payload_range_def Object_Size_def)
    show "\<exists>m. MemberAt st ?r j = Some m \<and> Member_Key st m = fst (kvs ! j) \<and> presents st (Member_Value st m) (snd (kvs ! j))" if "j < length kvs" for j
      using mem [OF that] that ok denotes_object(4) by (simp add: MemberAt_def Member_Key_def Member_Value_def)
    have find: "case Find st ?r k of None \<Rightarrow> map_of kvs k = None | Some x \<Rightarrow> \<exists>v. map_of kvs k = Some v \<and> presents st x v" for k
      using Find_loop_map_of [OF all denotes_object(4), of 0 k] ok by (simp add: Find_def split: option.splits)
    show "map_of kvs k = None" if "Find st ?r k = None" for k using find [of k] that by simp
    show "\<exists>v. map_of kvs k = Some v \<and> presents st x v" if "Find st ?r k = Some x" for k x using find [of k] that by simp
  qed
qed (auto intro!: presents.intros simp: Value_IsValid_def Kind_def TryBool_def TryInt64_def TryUInt64_def TryDouble_def TryString_def payload_bool_def payload_signed_def
    payload_double_def payload_string_def key_is_def)

section \<open>Whole documents\<close>

text \<open>
  What a call must come to on an input: a result; a document only for a text of the grammar, which then has one value, the one the views present; and no document
  only if resources ran out or the text is not of the grammar.
\<close>

definition exact_result :: "('u, 'f) library \<Rightarrow> ParseOptions \<Rightarrow> string \<Rightarrow> (ParseDiagnostic + 'f DocumentState) option \<Rightarrow> bool" where
  "exact_result lib op input r \<longleftrightarrow> (case r of
      None \<Rightarrow> False
    | Some (Inl e) \<Rightarrow> resource e \<or> (\<nexists>v. json_document lib op input v)
    | Some (Inr st) \<Rightarrow> \<exists>v. (\<forall>w. json_document lib op input w \<longleftrightarrow> w = v) \<and> presents st (Root st) v)"

lemma IsValidUtf8_text: "IsValidUtf8 (bytes_of s) = Some (utf8_text s)"
  by (simp add: IsValidUtf8_def utf8.IsValid_concat utf8_text_def)

text \<open>The value and the trivia behind it, from a fresh context.\<close>

definition whole :: "('u, 'f) library \<Rightarrow> ('u, 'f) ParseContext \<Rightarrow> (unit, 'u, 'f) parsed" where
  "whole lib ctx = and_then (ParseValue lib (json_fuel (length (tx ctx))) ctx) (\<lambda>v ctx.
     and_then (SkipTrivia (ctx\<lparr>doc := (doc ctx)\<lparr>root := v\<rparr>\<rparr>)) (\<lambda>_ ctx.
       if \<not> IsEof (tx ctx) (cursor ctx) then failure (MakeError ctx TrailingCharacters ''Trailing characters after JSON value'') else success () ctx))"

definition text_of :: "('u, 'f) library \<Rightarrow> ParseOptions \<Rightarrow> string \<Rightarrow> 'f json \<Rightarrow> bool" where
  "text_of lib op s v \<longleftrightarrow> (\<exists>t u t'. s = t @ u @ t' \<and> trivia (comments op) t \<and> value_text lib op u v \<and> last_trivia (comments op) t')"

lemma reads_root: "reads ctx u ctx' \<Longrightarrow> reads ctx u (ctx'\<lparr>doc := (doc ctx')\<lparr>root := v\<rparr>\<rparr>)"
  by (rule reads_update) (auto simp: extends_def settled_def buffer_def split: area.split)

lemma reads_at_root: "val_at ctx' i v \<Longrightarrow> val_at (ctx'\<lparr>doc := (doc ctx')\<lparr>root := w\<rparr>\<rparr>) i v"
  by (rule denotes_extends) (auto simp: extends_def settled_def buffer_def split: area.split)

lemma whole_sound:
  assumes "ctx_ok ctx" "off ctx = 0"
  shows "results False (\<lambda>e. True) (\<lambda>_ c. \<exists>v. text_of lib (opts ctx) (tx ctx) v \<and> val_at c (root (doc c)) v) (whole lib ctx)"
  unfolding whole_def
proof (rule results_then [OF ParseValue_sound [OF assms(1)]])
  show "3 * length (unread ctx) + 1 \<le> json_fuel (length (tx ctx))" using assms(2) by (simp add: json_fuel_def)
  fix i ctx1 assume "value_read lib ctx i ctx1"
  then obtain t u v where v: "trivia (comments (opts ctx)) t" "value_text lib (opts ctx) u v" "reads ctx (t @ u) ctx1" "val_at ctx1 i v" by (auto simp: value_read_def)
  define ctx2 where "ctx2 = ctx1\<lparr>doc := (doc ctx1)\<lparr>root := i\<rparr>\<rparr>"
  have rd2: "reads ctx (t @ u) ctx2" "val_at ctx2 i v" using reads_root [OF v(3)] reads_at_root [OF v(4)] by (simp_all add: ctx2_def)
  show "results False (\<lambda>e. True) (\<lambda>_ c. \<exists>v. text_of lib (opts ctx) (tx ctx) v \<and> val_at c (root (doc c)) v) (and_then (SkipTrivia (ctx1\<lparr>doc := (doc ctx1)\<lparr>root := i\<rparr>\<rparr>)) (\<lambda>_ ctx.
       if \<not> IsEof (tx ctx) (cursor ctx) then failure (MakeError ctx TrailingCharacters ''Trailing characters after JSON value'') else success () ctx))"
    unfolding ctx2_def [symmetric]
  proof (rule results_then [OF results_weaken [OF SkipTrivia_sound]], assumption)
    fix x :: unit and c assume sk: "skipped ctx2 c"
    obtain t' where t': "unread ctx2 = t' @ unread c" "moved ctx2 (length t') c" "trivia (comments (opts ctx2)) t' \<or> unread c = [] \<and> last_trivia (comments (opts ctx2)) t'"
      using sk by (auto simp: skipped_def)
    have rt: "root (doc c) = i" using movedD(1) [OF t'(2)] by (simp add: ctx2_def)
    have rd3: "reads ctx2 t' c" using reads_moved(1) [OF reads_ok(1) [OF rd2(1)] t'(2, 1)] .
    show "results False (\<lambda>e. True) (\<lambda>_ c. \<exists>v. text_of lib (opts ctx) (tx ctx) v \<and> val_at c (root (doc c)) v)
        (if \<not> IsEof (tx c) (cursor c) then failure (MakeError c TrailingCharacters ''Trailing characters after JSON value'') else success () c)"
    proof (cases "unread c = []")
      case True
      have "last_trivia (comments (opts ctx)) t'" using t'(3) True reads_ok(2) [OF rd2(1)] by (auto simp: last_trivia_def)
      moreover have "tx ctx = t @ u @ t'" using reads_ok(3) [OF reads_trans [OF rd2(1) rd3]] True assms(2) by simp
      ultimately show ?thesis using v(1, 2) reads_at [OF rd3 rd2(2)] rt True by (auto simp: text_of_def IsEof_unread)
    next
      case False
      then show ?thesis by (simp add: IsEof_unread)
    qed
  qed
qed

lemma whole_complete:
  assumes "ctx_ok ctx" "off ctx = 0" "text_of lib (opts ctx) (tx ctx) v"
  shows "results True resource (\<lambda>_ c. val_at c (root (doc c)) v) (whole lib ctx)"
proof -
  obtain t u t' where t: "tx ctx = t @ u @ t'" "trivia (comments (opts ctx)) t" "value_text lib (opts ctx) u v" "last_trivia (comments (opts ctx)) t'"
    using assms(3) by (auto simp: text_of_def)
  have u: "unread ctx = t @ u @ t'" using t(1) assms(2) by simp
  obtain c0 where c0: "SkipTrivia ctx = success () c0" "reads ctx t c0" "unread c0 = u @ t'"
    using SkipTrivia_over [OF assms(1) t(2) u starts_value_stops [OF value_starts [OF t(3)]]] by blast
  have st: "SkipTrivia c0 = success () c0" using SkipTrivia_stop [of c0] starts_value_stops [OF value_starts [OF t(3)]] c0(3) by simp
  have pv: "ParseValue lib (Suc f) ctx = ParseValue lib (Suc f) c0" for f unfolding ParseValue.simps c0(1) st by simp
  have "results True resource (\<lambda>i c. reads c0 u c \<and> val_at c i v) (ParseValue lib f c0)" for f
    using complete_valueD [of lib c0 u v t' f] complete_all(1) [OF t(3)] reads_ok(1, 2) [OF c0(2)] c0(3) ends_last_trivia [OF t(4)] by simp
  then have val: "results True resource (\<lambda>i c. reads c0 u c \<and> val_at c i v) (ParseValue lib f ctx)" for f
    using pv by (cases f) (simp, simp only:)
  show ?thesis unfolding whole_def
  proof (rule results_then [OF val], elim conjE)
    fix i c1 assume r: "reads c0 u c1" "val_at c1 i v"
    define c2 where "c2 = c1\<lparr>doc := (doc c1)\<lparr>root := i\<rparr>\<rparr>"
    have rd2: "reads c0 u c2" "val_at c2 i v" using reads_root [OF r(1)] reads_at_root [OF r(2)] by (simp_all add: c2_def)
    have un: "unread c2 = t'" using reads_rest [OF rd2(1) c0(3)] .
    have "opts c2 = opts ctx" using reads_ok(2) [OF rd2(1)] reads_ok(2) [OF c0(2)] by simp
    then obtain c3 where c3: "SkipTrivia c2 = success () c3" "moved c2 (length t') c3" using SkipTrivia_complete_last [of c2] t(4) un by auto
    have c4: "reads c2 t' c3" "unread c3 = []" using reads_moved [OF reads_ok(1) [OF rd2(1)] c3(2), of "[]"] un by simp_all
    have "val_at c3 (root (doc c3)) v" using reads_at [OF c4(1) rd2(2)] movedD(1) [OF c3(2)] by (simp add: c2_def)
    then show "results True resource (\<lambda>_ c. val_at c (root (doc c)) v) (and_then (SkipTrivia (c1\<lparr>doc := (doc c1)\<lparr>root := i\<rparr>\<rparr>)) (\<lambda>_ ctx.
       if \<not> IsEof (tx ctx) (cursor ctx) then failure (MakeError ctx TrailingCharacters ''Trailing characters after JSON value'') else success () ctx))"
      using c3(1) c4(2) unfolding c2_def [symmetric] by (simp add: IsEof_unread)
  qed
qed

lemma denotes_same_tables:
  assumes "denotes n st i v" "nodes st' = nodes st" "elements st' = elements st" "members st' = members st" "source_text st' = source_text st"
    "arena st' = arena st" "scratch_bytes st' = scratch_bytes st"
  shows "denotes n st' i v"
proof (rule denotes_extends [OF _ assms(1)])
  have "buffer st' = buffer st" using assms by (simp add: fun_eq_iff buffer_def split: area.split)
  then show "extends n st n st'" using assms by (simp add: extends_def settled_def split: area.split)
qed

text \<open>What is left of a call after the value was parsed: the table of views and the last test of the memory.\<close>

lemma ParseState_exact:
  assumes "source_text st = input" "m_blocks (arena st) = []"
  shows "exact_result lib op input (attempt_or m (ParseState lib op inSitu scr st u))"
proof -
  define ctx where "ctx = context_make op inSitu scr st u"
  have ctx: "ctx_ok ctx" "off ctx = 0" "tx ctx = input" "opts ctx = op" using assms by (simp_all add: ctx_def context_make_def ctx_ok_def InputCursor_make_def)
  have jd: "json_document lib op input v \<longleftrightarrow> (utf8 op = ValidateUtf8 \<longrightarrow> utf8_text input) \<and> text_of lib op input v" for v
    by (simp add: json_document_def text_of_def)
  let ?valid = "utf8 op = ValidateUtf8 \<longrightarrow> utf8_text input"
  show ?thesis
  proof (cases "length input > maxInputBytes (limits st)")
    case True
    then show ?thesis using assms(1) by (simp add: ParseState_def Let_def exact_result_def attempt_or_def resource_def)
  next
    case small: False
    have val: "(if utf8 op = ValidateUtf8 then IsValidUtf8 (bytes_of (source_text st)) else Some True) = Some ?valid"
      using assms(1) by (simp add: IsValidUtf8_text)
    show ?thesis
    proof (cases ?valid)
      case False
      then have "\<nexists>v. json_document lib op input v" by (simp add: jd)
      then show ?thesis using small False assms(1) val by (simp add: ParseState_def exact_result_def attempt_or_def)
    next
      case valid: True
      have eq: "ParseState lib op inSitu scr st u = do { r \<leftarrow> whole lib ctx;
          case r of
            Inl e \<Rightarrow> Some (Returned (Inl e))
          | Inr (_, c) \<Rightarrow>
            (case FinalizeViews (platform.truncate lib) (doc c) (env c) of
               None \<Rightarrow> Some BadAlloc
             | Some (st, u) \<Rightarrow>
               if \<not> WithinMemoryLimit st
               then Some (Returned (Inl (MakeErrorAt c LimitExceeded ''JSON total memory limit exceeded'' 0 (length (source_text st)))))
               else Some (Returned (Inr st))) }"
        using small valid val assms(1) ctx(3) unfolding ParseState_def Let_def ctx_def [symmetric] by (simp add: whole_def)
      show ?thesis
      proof (cases "whole lib ctx")
        case None
        then show ?thesis using whole_sound [OF ctx(1, 2), of lib] by simp
      next
        case (Some r)
        show ?thesis
        proof (cases r)
          case (Inl e)
          have "resource e" if "text_of lib op input v" for v using whole_complete [OF ctx(1, 2), of lib v] that ctx(3, 4) Some Inl by simp
          then have "resource e \<or> (\<nexists>v. json_document lib op input v)" using jd by blast
          then show ?thesis using eq Some Inl by (simp add: exact_result_def attempt_or_def)
        next
          case (Inr p)
          then obtain c where c: "whole lib ctx = success () c" using Some by (cases p) auto
          obtain v where v: "text_of lib op input v" "val_at c (root (doc c)) v" using whole_sound [OF ctx(1, 2), of lib] c ctx(3, 4) by auto
          have uniq: "json_document lib op input w \<longleftrightarrow> w = v" for w
            using whole_complete [OF ctx(1, 2), of lib w] c ctx(3, 4) denotes_unique v valid unfolding jd by auto
          show ?thesis
          proof (cases "FinalizeViews (platform.truncate lib) (doc c) (env c)")
            case None
            then show ?thesis using eq c by (simp add: exact_result_def attempt_or_def out_of_memory_def resource_def)
          next
            case fin: (Some q)
            obtain st' u' where q: "q = (st', u')" by (cases q)
            have same: "nodes st' = nodes (doc c)" "elements st' = elements (doc c)" "members st' = members (doc c)" "source_text st' = source_text (doc c)"
              "arena st' = arena (doc c)" "scratch_bytes st' = scratch_bytes (doc c)" "root st' = root (doc c)"
              using fin q by (auto simp: FinalizeViews_def split: option.splits)
            have d: "denotes (off c) st' (root st') v" using denotes_same_tables [OF v(2) same(1-6)] same(7) by simp
            then have "Root st' = root st'" using denotes_NodeAt by (fastforce simp: Root_def Document_IsValid_def)
            then have "presents st' (Root st') v" using denotes_presents [OF d] by simp
            then show ?thesis using eq c fin q uniq by (auto simp: exact_result_def attempt_or_def resource_def)
          qed
        qed
      qed
    qed
  qed
qed

lemma bad_alloc_exact: "exact_result lib op input (attempt_or m (Some BadAlloc))"
  by (simp add: exact_result_def attempt_or_def out_of_memory_def resource_def)

lemma DocumentState_make_simps [simp]:
  "source_text (DocumentState_make ow input sid sc lim ib) = input" "m_blocks (arena (DocumentState_make ow input sid sc lim ib)) = []"
  by (simp_all add: DocumentState_make_def SegmentedArena_make_def)

text \<open>
  C1: parsing a JSON text is exact, whether the decoded strings go to the arena of the document (\<open>Parse\<close>) or to the caller's scratch storage (\<open>ParseBorrowed\<close>). The call
  returns, without an access outside of a buffer and within the recursion its fuel allows. It returns a document only for a text of the grammar; the text then has one
  value, and the views of the document present it: kinds, numbers in and out of the signed range, strings, elements by index, members by index and by key under the policy for
  repeated keys. If it returns an error, resources ran out (memory or a limit) or the text is not of the grammar.
\<close>

theorem Parse_exact:
  "exact_result lib op input (Parse lib input sid op lim ib u) \<and> exact_result lib op input (ParseBorrowed lib input sid sc op lim ib u)"
  unfolding Parse_def ParseBorrowed_def by (auto split: option.split intro: bad_alloc_exact ParseState_exact)

text \<open>
  C4: parsing in place is exact too. Every escape is decoded over its own text while the rest of the input is still to be read; no text that is still to be read
  changes, and every string found before keeps its characters, so the result is a document exactly for the texts of the grammar, with the value of the input as it was given.
\<close>

theorem ParseInSitu_exact: "exact_result lib op input (ParseInSitu lib input sid op lim ib u)"
  unfolding ParseInSitu_def by (auto split: option.split intro: bad_alloc_exact ParseState_exact)

end
