(* ===== verification/JSON_Resources.thy ===== *)
theory JSON_Resources
  imports JSON_Parser_Props
begin

text \<open>
  Limits and memory that are enough for a text, whatever it holds: then no call of the parser fails for want of resources, and it returns a document for every text of the grammar.
\<close>

section \<open>Enough memory\<close>

text \<open>
  Memory that a text of \<open>n\<close> characters needs at most: the text, tables whose capacity is at most twice their size, the table of views, and arena blocks that double
  from \<open>b\<close> bytes on.
\<close>

definition memory_needed :: "nat \<Rightarrow> nat \<Rightarrow> nat" where
  "memory_needed b n = 221 * n + 2 * b"

definition ample :: "('u, 'f) library \<Rightarrow> ParseLimits \<Rightarrow> nat \<Rightarrow> nat \<Rightarrow> bool" where
  "ample lib lim b n \<longleftrightarrow> n < 2 ^ 32 \<and> b < 2 ^ 62 \<and> n \<le> maxInputBytes lim \<and> n \<le> maxDepth lim \<and> n \<le> maxNodes lim \<and> n \<le> maxMembers lim \<and>
     n \<le> maxDecodedStringBytes lim \<and> memory_needed b n \<le> maxTotalMemoryBytes lim \<and>
     (\<forall>c k. vector_growth lib c k \<le> 2 * k) \<and>
     (\<forall>k u. k \<le> memory_needed b n + sizeof_DocumentState lib \<longrightarrow> operator_new lib k u \<noteq> None \<and> upstream_allocate lib k u \<noteq> None)"

lemma ample_grants: "ample lib lim b n \<Longrightarrow> k \<le> memory_needed b n + sizeof_DocumentState lib \<Longrightarrow> \<exists>u'. operator_new lib k u = Some u'"
  by (auto simp: ample_def)

definition arena_fits :: "nat \<Rightarrow> nat \<Rightarrow> SegmentedArena \<Rightarrow> bool" where
  "arena_fits b n ar \<longleftrightarrow> blocks_ok ar \<and> m_usedBytes ar \<le> n \<and>
     (if m_blocks ar = [] then m_committedBytes ar = 0 \<and> m_nextBlockBytes ar = b
      else let k = length (block_data (last (m_blocks ar)))
           in m_committedBytes ar \<le> 2 * k \<and> m_nextBlockBytes ar = 2 * k \<and> k \<le> b + 2 * m_usedBytes ar \<and> block_used (last (m_blocks ar)) \<le> m_usedBytes ar)"

lemma arena_fits_committed: "arena_fits b n ar \<Longrightarrow> m_committedBytes ar \<le> 2 * b + 4 * n"
  by (auto simp: arena_fits_def Let_def split: if_splits)

lemma TryAllocate_last:
  assumes "m_blocks ar \<noteq> []" "b = last (m_blocks ar)" "block_used b \<le> length (block_data b)" "length (block_data b) < 2 ^ 64"
  shows "TryAllocate n 1 ar = (if n \<le> length (block_data b) - block_used b
    then Some ((length (m_blocks ar) - 1, block_used b), ar\<lparr>m_blocks := butlast (m_blocks ar) @ [b\<lparr>block_used := block_used b + n\<rparr>], m_usedBytes := m_usedBytes ar + n\<rparr>)
    else None)"
proof -
  have al: "unat (word_of_nat (block_used b) :: u64) = block_used b"
    using assms(3, 4) by (simp add: unsigned_of_nat take_bit_nat_eq_self_iff)
  have "(m_blocks ar)[length (m_blocks ar) - 1 := x] = butlast (m_blocks ar) @ [x]" for x
    using assms(1) by (metis butlast_snoc list_update_length append_butlast_last_id length_butlast)
  then show ?thesis using assms al by (auto simp: TryAllocate_def Let_def)
qed

lemma Arena_Allocate_ample:
  assumes fits: "arena_fits b m ar" and m: "m + n \<le> k" "0 < n" and lim: "2 * b + 4 * k \<le> m_maxCommittedBytes ar" "b < 2 ^ 62" "k < 2 ^ 32"
    and grants: "\<And>j u. j \<le> 2 * b + 4 * k \<Longrightarrow> upstream_allocate pl j u \<noteq> None"
  obtains p ar' u' where "Arena_Allocate pl n 1 ar u = (Some p, ar', u')" "arena_fits b (m + n) ar'" "m_maxCommittedBytes ar' = m_maxCommittedBytes ar"
proof -
  let ?l = "last (m_blocks ar)"
  have used: "m_usedBytes ar \<le> m" and ok: "blocks_ok ar" using fits by (simp_all add: arena_fits_def)
  have last: "block_used ?l \<le> length (block_data ?l)" "length (block_data ?l) \<le> b + 2 * m" "block_used ?l \<le> m_usedBytes ar"
    "m_nextBlockBytes ar = 2 * length (block_data ?l)" "m_committedBytes ar \<le> 2 * length (block_data ?l)" "length (block_data ?l) \<le> b + 2 * m_usedBytes ar" if "m_blocks ar \<noteq> []"
    using fits that by (auto simp: arena_fits_def blocks_ok_def Let_def)
  show ?thesis
  proof (cases "m_blocks ar \<noteq> [] \<and> n \<le> length (block_data ?l) - block_used ?l")
    case True
    define ar' where "ar' = ar\<lparr>m_blocks := butlast (m_blocks ar) @ [?l\<lparr>block_used := block_used ?l + n\<rparr>], m_usedBytes := m_usedBytes ar + n\<rparr>"
    have "length (block_data ?l) < 2 ^ 64" using last(2) True m lim by simp
    then have t: "TryAllocate n 1 ar = Some ((length (m_blocks ar) - 1, block_used ?l), ar')"
      using TryAllocate_last [of ar ?l n] True last(1) by (simp add: ar'_def)
    have "block_used ?l + n \<le> length (block_data ?l)" using True last(1) by arith
    then have "blocks_ok ar'" using ok by (auto simp: blocks_ok_def ar'_def dest: in_set_butlastD)
    then have "arena_fits b (m + n) ar'" using last True used by (simp add: arena_fits_def ar'_def Let_def)
    moreover have "Arena_Allocate pl n 1 ar u = (Some (length (m_blocks ar) - 1, block_used ?l), ar', u)"
      using True t m(2) by (simp add: Arena_Allocate_def Arena_NormalizeAlignment_def)
    ultimately show ?thesis using that by (simp add: ar'_def)
  next
    case False
    have "(if m_blocks ar \<noteq> [] then TryAllocate n 1 ar else None) = None"
    proof (cases "m_blocks ar = []")
      case nonempty: False
      have "length (block_data ?l) < 2 ^ 64" using last(2) [OF nonempty] m lim by simp
      then show ?thesis using TryAllocate_last [of ar ?l n] False nonempty last(1) by simp
    qed simp
    note none = this
    define size1 where "size1 = max (m_nextBlockBytes ar) (n + 1)"
    have size1: "m_committedBytes ar + size1 \<le> 2 * size1" "size1 \<le> b + 2 * (m_usedBytes ar + n)" "n \<le> size1"
    proof -
      show "m_committedBytes ar + size1 \<le> 2 * size1"
        using fits last by (cases "m_blocks ar = []") (auto simp: arena_fits_def size1_def max_def)
      show "size1 \<le> b + 2 * (m_usedBytes ar + n)"
        using fits last False m(2) by (cases "m_blocks ar = []") (auto simp: arena_fits_def size1_def)
    qed (simp add: size1_def)
    have small: "2 * size1 \<le> 2 * b + 4 * k" "n < 2 ^ 32" "size1 < 2 ^ 63" using size1(2) used m lim by simp_all
    obtain u' where u': "upstream_allocate pl size1 u = Some u'" using grants [of size1 u] small(1) by auto
    define ar1 where "ar1 = ar\<lparr>m_blocks := m_blocks ar @ [\<lparr>block_data = replicate size1 NUL, block_used = 0\<rparr>],
       m_committedBytes := m_committedBytes ar + size1, m_nextBlockBytes := 2 * size1\<rparr>"
    define ar' where "ar' = ar1\<lparr>m_blocks := m_blocks ar @ [\<lparr>block_data = replicate size1 NUL, block_used = n\<rparr>], m_usedBytes := m_usedBytes ar + n\<rparr>"
    have t: "TryAllocate n 1 ar1 = Some ((length (m_blocks ar), 0), ar')"
      using TryAllocate_last [of ar1 _ n] small(3) size1(3) by (simp add: ar1_def ar'_def)
    have "arena_fits b (m + n) ar'" using ok size1 used by (auto simp: arena_fits_def ar'_def ar1_def Let_def blocks_ok_def)
    moreover have "Arena_Allocate pl n 1 ar u = (Some (length (m_blocks ar), 0), ar', u')"
    proof -
      have c: "m_committedBytes ar + size1 \<le> m_maxCommittedBytes ar" using size1(1) small(1) lim(1) by linarith
      then have "\<not> m_committedBytes ar > m_maxCommittedBytes ar" "\<not> size1 > m_maxCommittedBytes ar - m_committedBytes ar" by simp_all
      moreover have req: "(if n > 2 ^ 64 - 1 - 1 then 2 ^ 64 - 1 else n + 1) = n + 1" and "size1 \<le> (2 ^ 64 - 1) div 2" using small(2, 3) by simp_all
      moreover have a1: "Arena_NormalizeAlignment 1 = 1" by (simp add: Arena_NormalizeAlignment_def)
      ultimately show ?thesis using m(2) u' t unfolding Arena_Allocate_def a1 Let_def none option.case req size1_def [symmetric]
        by (simp add: ar1_def mult.commute)
    qed
    ultimately show ?thesis using that by (simp add: ar'_def ar1_def)
  qed
qed

text \<open>Tables that grow.\<close>

definition tight :: "'a std_vector \<Rightarrow> bool" where
  "tight v \<longleftrightarrow> vec_capacity v \<le> 2 * length (elems v)"

lemma vec_append_ample:
  assumes "tight v" "\<And>c k. vector_growth pl c k \<le> 2 * k" "\<And>k u. k \<le> B \<Longrightarrow> operator_new pl k u \<noteq> None"
    "2 * (length (elems v) + length xs) * sz \<le> B"
  obtains v' u' where "vec_append pl sz xs v u = Some (v', u')" "tight v'" "elems v' = elems v @ xs"
proof (cases "length (elems v) + length xs \<le> vec_capacity v")
  case True
  then show ?thesis using that [of "v\<lparr>elems := elems v @ xs\<rparr>" u] assms(1) by (simp add: vec_append_def tight_def)
next
  case False
  let ?c = "vector_growth pl (vec_capacity v) (length (elems v) + length xs)"
  have c: "?c \<le> 2 * (length (elems v) + length xs)" by (rule assms(2))
  then have "?c * sz \<le> B" using assms(4) mult_le_mono1 [OF c, of sz] by linarith
  then obtain u' where "operator_new pl (?c * sz) u = Some u'" using assms(3) by blast
  then show ?thesis using that [of "\<lparr>elems = elems v @ xs, vec_capacity = ?c\<rparr>" u'] False c by (simp add: vec_append_def tight_def Let_def)
qed

lemma tight_empty [simp]: "tight vec_empty"
  by (simp add: tight_def vec_empty_def)

section \<open>Enough resources in a context\<close>

text \<open>
  The context of a parser that has read \<open>off ctx\<close> of \<open>n\<close> characters. There are \<open>i\<close> characters for which no node was added yet, and \<open>e\<close> and \<open>m\<close> for elements and members that
  are not yet in the tables; \<open>d\<close> is the depth.
\<close>

definition thrifty :: "('u, 'f) library \<Rightarrow> ParseLimits \<Rightarrow> nat \<Rightarrow> nat \<Rightarrow> nat \<Rightarrow> nat \<Rightarrow> nat \<Rightarrow> nat \<Rightarrow> ('u, 'f) ParseContext \<Rightarrow> bool" where
  "thrifty lib lim b n i e m d ctx \<longleftrightarrow> ample lib lim b n \<and> ctx_ok ctx \<and> length (tx ctx) = n \<and> limits (doc ctx) = lim \<and>
     length (elems (nodes (doc ctx))) + i \<le> off ctx \<and> length (elems (elements (doc ctx))) + e \<le> off ctx \<and> length (elems (members (doc ctx))) + m \<le> off ctx \<and>
     depth ctx = d \<and> d \<le> off ctx \<and> decodedBytes ctx \<le> off ctx \<and>
     tight (nodes (doc ctx)) \<and> tight (elements (doc ctx)) \<and> tight (members (doc ctx)) \<and> valueViews (doc ctx) = vec_empty \<and>
     arena_fits b (off ctx) (arena (doc ctx)) \<and> m_maxCommittedBytes (arena (doc ctx)) = maxTotalMemoryBytes lim \<and>
     (useScratch ctx \<longrightarrow> (\<exists>s. scratch_bytes (doc ctx) = Some s \<and> length (elems s) \<le> off ctx \<and> n \<le> vec_capacity s))"

abbreviation fair_error :: "ParseDiagnostic \<Rightarrow> bool" where
  "fair_error e \<equiv> \<not> resource e"

lemma arena_fits_mono: "arena_fits b m ar \<Longrightarrow> m \<le> m' \<Longrightarrow> arena_fits b m' ar"
  by (simp add: arena_fits_def)

lemma thrifty_weaken: "thrifty lib lim b n i e m d ctx \<Longrightarrow> i' \<le> i \<Longrightarrow> e' \<le> e \<Longrightarrow> m' \<le> m \<Longrightarrow> thrifty lib lim b n i' e' m' d ctx"
  by (simp add: thrifty_def)

lemma thrifty_moved:
  assumes "thrifty lib lim b n i e m d ctx" "moved ctx k ctx'" "k \<le> length (unread ctx)"
  shows "thrifty lib lim b n (i + k) (e + k) (m + k) d ctx'"
proof -
  have "off ctx \<le> n" "k \<le> n - off ctx" using assms(1, 3) by (auto simp: thrifty_def ctx_ok_def)
  then have "off ctx + k \<le> n" by arith
  note D = movedD [OF assms(2)]
  have "arena_fits b (off ctx + k) (arena (doc ctx))" using arena_fits_mono [of b "off ctx" "arena (doc ctx)"] assms(1) by (simp add: thrifty_def)
  moreover have "\<exists>s. scratch_bytes (doc ctx) = Some s \<and> length (elems s) \<le> off ctx + k \<and> n \<le> vec_capacity s" if "useScratch ctx"
    using assms(1) that by (auto simp: thrifty_def)
  ultimately show ?thesis using assms(1) \<open>off ctx + k \<le> n\<close> unfolding thrifty_def ctx_ok_def D(1, 3, 5, 8, 9) by simp
qed

lemma thrifty_env: "thrifty lib lim b n i e m d ctx \<Longrightarrow> thrifty lib lim b n i e m d (ctx\<lparr>env := w\<rparr>)"
  by (simp add: thrifty_def ctx_ok_def)

lemma thrifty_char:
  assumes "thrifty lib lim b n i e m d ctx" "peek ctx = c" "c \<noteq> NUL"
  shows "thrifty lib lim b n (i + 1) (e + 1) (m + 1) d (advance 1 ctx)"
proof -
  have "unread ctx \<noteq> []" using assms(2, 3) by (auto simp: Peek_unread)
  then have k: "1 \<le> length (unread ctx)" by (cases "unread ctx") auto
  show ?thesis using thrifty_moved [OF assms(1) moved_advance [OF k] k] .
qed

lemma platform_truncate [simp]: "operator_new (platform.truncate lib) = operator_new lib" "upstream_allocate (platform.truncate lib) = upstream_allocate lib"
  "vector_growth (platform.truncate lib) = vector_growth lib"
  by (simp_all add: platform.truncate_def)

lemma within_memory:
  assumes "thrifty lib lim b n 0 0 0 d ctx"
  shows "WithinMemoryLimit (doc ctx)"
proof -
  let ?st = "doc ctx"
  have o: "off ctx \<le> n" using assms by (simp add: thrifty_def ctx_ok_def)
  have "m_committedBytes (arena ?st) \<le> 2 * b + 4 * off ctx" using assms arena_fits_committed [of b "off ctx"] by (simp add: thrifty_def)
  moreover have "vec_capacity (nodes ?st) \<le> 2 * n" "vec_capacity (elements ?st) \<le> 2 * n" "vec_capacity (members ?st) \<le> 2 * n"
    using assms o unfolding thrifty_def tight_def by linarith+
  moreover have "length (source_text ?st) = n" "memory_needed b n \<le> maxTotalMemoryBytes (limits ?st)" "valueViews ?st = vec_empty"
    using assms by (auto simp: thrifty_def ample_def)
  ultimately show ?thesis using o by (simp add: WithinMemoryLimit_def MemoryCommitted_def memory_needed_def vec_empty_def)
qed

lemma AddNode_ample:
  assumes "thrifty lib lim b n (Suc i) e m d ctx"
  shows "results True fair_error (\<lambda>_. thrifty lib lim b n i e m d) (AddNode lib nd ctx)"
proof -
  let ?v = "nodes (doc ctx)"
  have v: "length (elems ?v) + Suc i \<le> off ctx" "off ctx \<le> n" "tight ?v" "limits (doc ctx) = lim" and am: "ample lib lim b n"
    using assms by (simp_all add: thrifty_def ctx_ok_def)
  have "2 * (length (elems ?v) + length [nd]) * 48 \<le> memory_needed b n + sizeof_DocumentState lib" using v(1, 2) by (simp add: memory_needed_def)
  then obtain v' u' where v': "vec_append (platform.truncate lib) 48 [nd] ?v (env ctx) = Some (v', u')" "tight v'" "elems v' = elems ?v @ [nd]"
    using vec_append_ample [of ?v "platform.truncate lib" "memory_needed b n + sizeof_DocumentState lib" "[nd]" 48 "env ctx"] v(3) am by (auto simp: ample_def)
  define ctx' where "ctx' = ctx\<lparr>doc := (doc ctx)\<lparr>nodes := v'\<rparr>, env := u'\<rparr>"
  have t: "thrifty lib lim b n i e m d ctx'" using assms v' by (simp add: ctx'_def thrifty_def ctx_ok_def)
  have "\<not> length (elems ?v) \<ge> maxNodes (limits (doc ctx))" "\<not> length (elems ?v) \<ge> 2 ^ 32 - 1" using v am by (simp_all add: ample_def)
  then show ?thesis using v'(1) t within_memory [OF thrifty_weaken [OF t]]
    by (simp add: AddNode_def Let_def vec_push_back_def ctx'_def)
qed

section \<open>Errors about the text\<close>

lemma diag_code_fail_with [simp]: "results N E Q (fail_with ctx p) \<longleftrightarrow> E (MakeErrorAt ctx (fst p) (fst (snd p)) (fst (snd (snd p))) (snd (snd (snd p))))"
  by (simp add: fail_with_def split: prod.split)

lemma ScanString_fair: "ScanString be t ts scan esc = Inl p \<Longrightarrow> fst p \<in> {InvalidToken, UnexpectedEnd}"
proof (induction be t ts scan esc rule: ScanString.induct)
  case (1 be t ts scan esc)
  then show ?case by (subst (asm) (2) ScanString.simps) (auto simp: Let_def split: if_splits)
qed

lemma unicode_escape_fair: "unicode_escape t eo te read end0 = Some (Inl p) \<Longrightarrow> fst p = InvalidUnicodeEscape"
  by (auto simp: unicode_escape_def Let_def split: if_splits option.splits bind_splits)

lemma DecodeString_fair:
  assumes "DecodeString ip te bf read end0 w = Some r"
  shows "\<forall>p b'. r = Inl (p, b') \<longrightarrow> fst p \<in> {InvalidStringEscape, InvalidUnicodeEscape}"
proof (rule DecodeString.raw_induct [of "\<lambda>_ _ _ _ _ _ r. \<forall>p b'. r = Inl (p, b') \<longrightarrow> fst p \<in> {InvalidStringEscape, InvalidUnicodeEscape}", OF _ assms], goal_cases)
  case (1 self ip te bf read end0 w r)
  show ?case using 1(2)
    by (auto simp: Let_def dest!: 1(1) dest: unicode_escape_fair split: if_splits option.splits bind_splits sum.splits prod.splits)
qed

lemma SkipTrivia_fair:
  assumes "SkipTrivia ctx = Some r"
  shows "\<forall>e. r = Inl e \<longrightarrow> fair_error e"
proof (rule SkipTrivia.raw_induct [of "\<lambda>_ r. \<forall>e. r = Inl e \<longrightarrow> fair_error e", OF _ assms], goal_cases)
  case (1 self ctx r)
  show ?case using 1(2)
    by (auto simp: Let_def SkipComment_def resource_def dest!: 1(1) split: if_splits option.splits bind_splits sum.splits prod.splits)
qed

lemma SkipTrivia_ample:
  assumes "thrifty lib lim b n i e m d ctx"
  shows "results True fair_error (\<lambda>_. thrifty lib lim b n i e m d) (SkipTrivia ctx)"
proof (cases "SkipTrivia ctx")
  case (Some r)
  show ?thesis
  proof (cases r)
    case (Inl e)
    then show ?thesis using Some SkipTrivia_fair [OF Some] by simp
  next
    case (Inr p)
    then obtain c where c: "SkipTrivia ctx = success () c" using Some by (cases p) auto
    then obtain t where t: "unread ctx = t @ unread c" "moved ctx (length t) c" using SkipTrivia_sound [of ctx] by (auto simp: skipped_def)
    have "length t \<le> length (unread ctx)" unfolding t(1) by simp
    then show ?thesis using c thrifty_weaken [OF thrifty_moved [OF assms t(2)]] by simp
  qed
qed simp

section \<open>Strings\<close>

lemma set_buffer_tables [simp]:
  "nodes (set_buffer a x st) = nodes st" "elements (set_buffer a x st) = elements st" "members (set_buffer a x st) = members st"
  "valueViews (set_buffer a x st) = valueViews st" "limits (set_buffer a x st) = limits st"
  "m_maxCommittedBytes (arena (set_buffer a x st)) = m_maxCommittedBytes (arena st)"
  by (simp_all add: set_buffer_def split: area.split)

lemma arena_fits_set_buffer:
  assumes "arena_fits b n (arena st)" "area_in a st" "length x = length (buffer st a)"
  shows "arena_fits b n (arena (set_buffer a x st))"
proof (cases a)
  case (Block k)
  let ?bs = "m_blocks (arena st)" and ?b = "m_blocks (arena st) ! k"
  have k: "k < length ?bs" "length x = length (block_data ?b)" using assms(2, 3) Block by (simp_all add: area_in_def buffer_def)
  let ?bs' = "?bs[k := ?b\<lparr>block_data := x\<rparr>]"
  have l: "block_used (last ?bs') = block_used (last ?bs)" "length (block_data (last ?bs')) = length (block_data (last ?bs))"
    using k last_list_update [of ?bs k] last_conv_nth [of ?bs] by (cases "?bs = []"; simp)+
  have "blocks_ok (arena (set_buffer a x st))"
    using blocks_set_buffer [OF _ assms(2, 3)] assms(1) by (simp add: arena_fits_def blocks_ok_def)
  then show ?thesis using assms(1) k(1) l Block by (auto simp: arena_fits_def set_buffer_def Let_def)
qed (use assms in \<open>auto simp: set_buffer_def\<close>)

lemma thrifty_set_buffer:
  assumes t: "thrifty lib lim b n i e m d ctx" and a: "area_in a (doc ctx)" "length x = length (buffer (doc ctx) a)" and k: "k \<le> off ctx"
  shows "thrifty lib lim b n i e m d (ctx\<lparr>doc := set_buffer a x (doc ctx), decodedBytes := k\<rparr>)"
proof -
  have src: "length (source_text (set_buffer a x (doc ctx))) = n" using t a(2) by (simp add: thrifty_def buffer_def)
  have ok: "ctx_ok (ctx\<lparr>doc := set_buffer a x (doc ctx), decodedBytes := k\<rparr>)"
    using t src blocks_set_buffer [OF _ a] by (auto simp: thrifty_def ctx_ok_def)
  have fits: "arena_fits b (off ctx) (arena (set_buffer a x (doc ctx)))" using arena_fits_set_buffer [OF _ a] t by (simp add: thrifty_def)
  have scr: "\<exists>s. scratch_bytes (set_buffer a x (doc ctx)) = Some s \<and> length (elems s) \<le> off ctx \<and> n \<le> vec_capacity s" if "useScratch ctx"
    using t that a by (auto simp: thrifty_def set_buffer_def buffer_def split: area.split)
  show ?thesis using t src ok fits scr k unfolding thrifty_def by simp
qed

text \<open>Room for the characters between the quotes of a string.\<close>

lemma AllocateOutput_ample:
  assumes t: "thrifty lib lim b n i e m d ctx" and mv: "moved ctx (k + 2) ctx1" "k + 2 \<le> length (unread ctx)" "0 < k"
  obtains a p ctx2 where "AllocateOutput lib ts k ctx1 = (Some (a, p), ctx2)" "thrifty lib lim b n (i + 1) (e + 1) (m + 1) d ctx2" "decodedBytes ctx2 = decodedBytes ctx"
proof -
  have t1: "thrifty lib lim b n (i + 1) (e + 1) (m + 1) d ctx1" using thrifty_weaken [OF thrifty_moved [OF t mv(1, 2)]] by simp
  have am: "ample lib lim b n" and o: "off ctx1 = off ctx + (k + 2)" "off ctx1 \<le> n" using t1 movedD(3) [OF mv(1)] by (simp_all add: thrifty_def ctx_ok_def)
  note D = movedD [OF mv(1)]
  consider "mutableBase ctx1" | "\<not> mutableBase ctx1" "useScratch ctx1" | "\<not> mutableBase ctx1" "\<not> useScratch ctx1" by blast
  then show ?thesis
  proof cases
    case 1
    then show ?thesis using that [of Source "ts + 1" ctx1] t1 D(9) by (simp add: AllocateOutput_def)
  next
    case 2
    then obtain s where s: "scratch_bytes (doc ctx1) = Some s" "length (elems s) \<le> off ctx" "n \<le> vec_capacity s" using t D(1, 8) by (auto simp: thrifty_def)
    let ?s = "s\<lparr>elems := elems s @ replicate k NUL\<rparr>"
    have small: "length (elems s) + k \<le> vec_capacity s" "length (elems s) + k \<le> off ctx1" using s(2, 3) o by simp_all
    have "n < 2 ^ 32" using am by (simp add: ample_def)
    then have "\<not> length (elems s) > 2 ^ 64 - 1 - k" using s(2) o by simp
    then have alloc: "Scratch_TryAllocate (platform.truncate lib) k s (env ctx1) = (Some (length (elems s)), ?s, env ctx1)"
      using small mv(3) by (simp add: Scratch_TryAllocate_def vec_reserve_def)
    define ctx2 where "ctx2 = ctx1\<lparr>doc := (doc ctx1)\<lparr>scratch_bytes := Some ?s\<rparr>\<rparr>"
    have "thrifty lib lim b n (i + 1) (e + 1) (m + 1) d ctx2" using t1 small(2) s(3) by (simp add: ctx2_def thrifty_def ctx_ok_def)
    moreover have "AllocateOutput lib ts k ctx1 = (Some (Scratch, length (elems s)), ctx2)" using 2 s(1) alloc by (simp add: AllocateOutput_def ctx2_def)
    ultimately show ?thesis using that D(9) by (simp add: ctx2_def)
  next
    case 3
    have fits: "arena_fits b (off ctx) (arena (doc ctx1))" and lim: "m_maxCommittedBytes (arena (doc ctx1)) = maxTotalMemoryBytes lim"
      using t D(1) by (simp_all add: thrifty_def)
    have mem: "2 * b + 4 * n \<le> maxTotalMemoryBytes lim" "2 * b + 4 * n \<le> memory_needed b n + sizeof_DocumentState lib" "b < 2 ^ 62" "n < 2 ^ 32"
      using am by (auto simp: ample_def memory_needed_def)
    obtain q ar' u' where q: "Arena_Allocate (platform.truncate lib) k 1 (arena (doc ctx1)) (env ctx1) = (Some q, ar', u')" "arena_fits b (off ctx + k) ar'"
      "m_maxCommittedBytes ar' = maxTotalMemoryBytes lim"
      by (rule Arena_Allocate_ample [OF fits, of k n "platform.truncate lib" "env ctx1"]) (use o mv(3) lim mem am in \<open>auto simp: ample_def\<close>)
    obtain j p where jp: "q = (j, p)" by (cases q)
    define ctx2 where "ctx2 = ctx1\<lparr>doc := (doc ctx1)\<lparr>arena := ar'\<rparr>, env := u'\<rparr>"
    have "arena_fits b (off ctx1) ar'" using arena_fits_mono [OF q(2)] o by simp
    then have "thrifty lib lim b n (i + 1) (e + 1) (m + 1) d ctx2" using t1 q(3) by (simp add: ctx2_def thrifty_def ctx_ok_def arena_fits_def blocks_ok_def)
    moreover have "AllocateOutput lib ts k ctx1 = (Some (Block j, p), ctx2)" using 3 q(1) jp by (simp add: AllocateOutput_def ctx2_def)
    ultimately show ?thesis using that D(9) by (simp add: ctx2_def)
  qed
qed

lemma ParseString_ample:
  assumes t: "thrifty lib lim b n i e m d ctx"
  shows "results True fair_error (\<lambda>_. thrifty lib lim b n (i + 1) (e + 1) (m + 1) d) (ParseString lib ctx)"
proof (cases "peek ctx = CHR 0x22")
  case False
  then show ?thesis by (simp add: ParseString_def resource_def)
next
  case True
  then obtain q where q: "unread ctx = CHR 0x22 # q" by (auto simp: Peek_unread split: list.splits)
  have ok: "ctx_ok ctx" using t by (simp add: thrifty_def)
  have len: "length (unread ctx) = Suc (length q)" using q by simp
  have mv1: "moved ctx 1 (advance 1 ctx)" using len by (intro moved_advance) simp
  have c1: "off (advance 1 ctx) = off ctx + 1" "unread (advance 1 ctx) = q" "tx (advance 1 ctx) = tx ctx" "drop (off ctx + 1) (tx ctx) = q"
    using movedD(3, 4) [OF mv1] q by (simp_all add: advance_def)
  show ?thesis
  proof (cases "ScanString (simd lib) (tx ctx) (off ctx) (off ctx + 1) False")
    case (Inl p)
    then show ?thesis using ScanString_fair [OF Inl] True c1 by (auto simp: ParseString_def Let_def resource_def)
  next
    case (Inr r)
    then obtain k where r: "r = (off ctx + 1 + k, CHR 0x5C \<in> set (take k q))" "raw_length q = Some k"
      using ScanString_raw [where backend = "simd lib" and t = "tx ctx" and ts = "off ctx" and scan = "off ctx + 1" and esc = False] c1(4) by (cases r) auto
    have k: "k < length q" "q ! k = CHR 0x22" using raw_length_less [OF r(2)] by auto
    define ctx1 where "ctx1 = advance (k + 1) (advance 1 ctx)"
    have "moved (advance 1 ctx) (k + 1) ctx1" using k(1) c1(2) unfolding ctx1_def by (intro moved_advance) simp
    then have mv: "moved ctx (k + 2) ctx1" using moved_trans [OF mv1] by fastforce
    have t1: "thrifty lib lim b n (i + (k + 2)) (e + (k + 2)) (m + (k + 2)) d ctx1" using thrifty_moved [OF t mv] len k(1) by simp
    have dec: "\<not> decodedBytes ctx1 > maxDecodedStringBytes (limits (doc ctx1))" "\<not> k > maxDecodedStringBytes (limits (doc ctx1)) - decodedBytes ctx1"
      using t t1 movedD(3, 9) [OF mv] by (auto simp: thrifty_def ctx_ok_def ample_def)
    have dd: "decodedBytes ctx \<le> off ctx" using t by (simp add: thrifty_def)
    have tx1: "tx ctx1 = tx ctx" by (simp add: ctx1_def advance_def)
    note eq = ParseString_scanned [OF True Inr [unfolded r(1)] ctx1_def c1(1) refl]
    show ?thesis
    proof (cases "CHR 0x5C \<in> set (take k q)")
      case False
      then show ?thesis using thrifty_weaken [OF t1] by (simp add: eq)
    next
      case esc: True
      then have "0 < k" by (cases k) auto
      then obtain a p ctx2 where al: "AllocateOutput lib (off ctx) k ctx1 = (Some (a, p), ctx2)" "thrifty lib lim b n (i + 1) (e + 1) (m + 1) d ctx2"
        "decodedBytes ctx2 = decodedBytes ctx" using AllocateOutput_ample [OF t mv, of "off ctx"] len k(1) by auto
      have rm: "room (off ctx1) (off ctx) ctx1 a p k ctx2" using AllocateOutput_room [OF al(1)] t1 by (simp add: thrifty_def)
      have a: "area_in a (doc ctx2)" and o2: "off ctx2 = off ctx + (k + 2)" using rm movedD(3) [OF mv] by (auto simp: room_def area_in_def)
      let ?u = "unescape (take k q)" and ?b = "(tx ctx2, buffer (doc ctx2) a)"
      have "q = take k q @ CHR 0x22 # drop (k + 1) q" "length (take k q) = k" using id_take_nth_drop [OF k(1)] k by simp_all
      then have d: "decoded_to (a = Source) ?b p ?u (DecodeString (a = Source) (off ctx1) ?b (off ctx + 1) (off ctx + 1 + k) p)"
        using DecodeString_room [of ctx1 ctx a p "take k q" ctx2 "drop (k + 1) q" "off ctx1"] rm tx1 q by simp
      show ?thesis
      proof (cases ?u)
        case None
        then obtain pr b' where ds: "DecodeString (a = Source) (off ctx1) ?b (off ctx + 1) (off ctx + 1 + k) p = Some (Inl (pr, b'))" using d by (auto simp: decoded_to_def)
        then show ?thesis using DecodeString_fair [OF ds] esc al(1) dec by (cases b') (auto simp: eq resource_def)
      next
        case (Some v)
        let ?x = "overwrite p v (buffer (doc ctx2) a)"
        have v: "length v \<le> k" using unescape_length [OF Some] by simp
        have fit: "p + length v \<le> length (buffer (doc ctx2) a)"
          using rm v o2 al(2) by (auto simp: room_def buffer_def thrifty_def ctx_ok_def split: if_splits)
        have "thrifty lib lim b n (i + 1) (e + 1) (m + 1) d (ctx2\<lparr>doc := set_buffer a ?x (doc ctx2), decodedBytes := decodedBytes ctx2 + length v\<rparr>)"
          by (rule thrifty_set_buffer [OF al(2) a]) (use fit v o2 al(3) dd in simp_all)
        then show ?thesis using d Some esc al(1) dec by (auto simp: eq decoded_to_def store_def target_def buffer_def)
      qed
    qed
  qed
qed

section \<open>Values\<close>

lemma scan_number_fair: "scan_number t start = Inl p \<Longrightarrow> fst p \<in> {UnexpectedEnd, InvalidNumber}"
  by (auto simp: scan_number_def scan_integer_def scan_fraction_def scan_exponent_def Let_def split: sum.splits if_splits prod.splits)

lemma ParseNumber_ample:
  assumes t: "thrifty lib lim b n i e m d ctx" and ne: "unread ctx \<noteq> []"
  shows "results True fair_error (\<lambda>_. thrifty lib lim b n i (e + 1) (m + 1) d) (ParseNumber lib ctx)"
proof (cases "scan_number (tx ctx) (off ctx)")
  case (Inl p)
  then show ?thesis using scan_number_fair [OF Inl] by (auto simp: ParseNumber_def Let_def resource_def)
next
  case (Inr r)
  obtain c fl where r: "r = (c, fl)" by (cases r)
  have o: "off ctx \<le> length (tx ctx)" using t by (simp add: thrifty_def ctx_ok_def)
  obtain u rest where u: "unread ctx = u @ rest" "number_text u fl" "c = off ctx + length u"
    using scan_number_sound [of "take (off ctx) (tx ctx)" "unread ctx" c fl] Inr r ne o by auto
  have "u \<noteq> []" using number_hd [OF u(2)] by simp
  then have k: "1 \<le> length u" "length u \<le> length (unread ctx)" unfolding u(1) by (cases u; simp)+
  have "thrifty lib lim b n (i + length u) (e + length u) (m + length u) d (advance (length u) ctx)"
    by (rule thrifty_moved [OF t moved_advance [OF k(2)] k(2)])
  then have "thrifty lib lim b n (Suc i) (e + 1) (m + 1) d (advance (length u) ctx)" using k(1) by (elim thrifty_weaken) simp_all
  note add = AddNode_ample [OF this]
  have c: "c - off ctx = length u" using u(3) by simp
  show ?thesis unfolding ParseNumber_def Let_def Inr r sum.case prod.case c
    using add by (auto simp: resource_def split: prod.split)
qed

lemma finish_ample:
  fixes lib :: "('u, 'f) library" and ids :: "NodeId std_vector"
  assumes t: "thrifty lib lim b n (Suc i) (e + length (elems ids)) (m + length (elems ms)) (Suc d) ctx"
  shows "results True fair_error (\<lambda>_. thrifty lib lim b n i e (m + length (elems ms)) d) (finish_array lib start ids ctx)"
    "results True fair_error (\<lambda>_. thrifty lib lim b n i (e + length (elems ids)) m d) (finish_object lib start ms ctx)"
proof -
  let ?B = "memory_needed b n + sizeof_DocumentState lib"
  have am: "ample lib lim b n" and o: "off ctx \<le> n" using t by (simp_all add: thrifty_def ctx_ok_def)
  have lim: "n \<le> maxMembers (limits (doc ctx))" using t by (auto simp: thrifty_def ample_def)
  have g: "\<And>c k. vector_growth (platform.truncate lib) c k \<le> 2 * k" "\<And>k u. k \<le> ?B \<Longrightarrow> operator_new (platform.truncate lib) k u \<noteq> None"
    using am by (auto simp: ample_def)
  have el: "length (elems (elements (doc ctx))) + length (elems ids) \<le> off ctx" "tight (elements (doc ctx))"
    and me: "length (elems (members (doc ctx))) + length (elems ms) \<le> off ctx" "tight (members (doc ctx))" using t by (simp_all add: thrifty_def)
  show "results True fair_error (\<lambda>_. thrifty lib lim b n i e (m + length (elems ms)) d) (finish_array lib start ids ctx)"
  proof -
    obtain v u where v: "vec_append (platform.truncate lib) 4 (elems ids) (elements (doc ctx)) (env ctx) = Some (v, u)" "tight v" "elems v = elems (elements (doc ctx)) @ elems ids"
      by (rule vec_append_ample [OF el(2) g, where xs = "elems ids" and sz = 4 and u = "env ctx"]) (use el o in \<open>auto simp: memory_needed_def\<close>)
    have "thrifty lib lim b n (Suc i) e (m + length (elems ms)) d (ctx\<lparr>depth := d, doc := (doc ctx)\<lparr>elements := v\<rparr>, env := u\<rparr>)"
      using t v by (simp add: thrifty_def ctx_ok_def)
    note add = AddNode_ample [OF this]
    have "depth ctx - 1 = d" using t by (simp add: thrifty_def)
    moreover have "\<not> length (elems ids) > maxMembers (limits (doc ctx)) - length (elems (elements (doc ctx)))" using el(1) o lim by arith
    ultimately show ?thesis using add v(1) el(1) o lim by (simp add: finish_array_def Let_def)
  qed
  show "results True fair_error (\<lambda>_. thrifty lib lim b n i (e + length (elems ids)) m d) (finish_object lib start ms ctx)"
  proof -
    obtain v u where v: "vec_append (platform.truncate lib) 48 (elems ms) (members (doc ctx)) (env ctx) = Some (v, u)" "tight v" "elems v = elems (members (doc ctx)) @ elems ms"
      by (rule vec_append_ample [OF me(2) g, where xs = "elems ms" and sz = 48 and u = "env ctx"]) (use me o in \<open>auto simp: memory_needed_def\<close>)
    have "thrifty lib lim b n (Suc i) (e + length (elems ids)) m d (ctx\<lparr>depth := d, doc := (doc ctx)\<lparr>members := v\<rparr>, env := u\<rparr>)"
      using t v by (simp add: thrifty_def ctx_ok_def)
    note add = AddNode_ample [OF this]
    have "depth ctx - 1 = d" using t by (simp add: thrifty_def)
    moreover have "\<not> length (elems ms) > maxMembers (limits (doc ctx)) - length (elems (members (doc ctx)))" using me(1) o lim by arith
    ultimately show ?thesis using add v(1) me(1) o lim by (simp add: finish_object_def Let_def)
  qed
qed

lemma results_ample: "results True fair_error P m \<Longrightarrow> (\<And>x c. P x c \<Longrightarrow> Q x c) \<Longrightarrow> results True fair_error Q m"
  by (erule results_mono) auto

lemma ParseString_thrifty:
  assumes t: "thrifty lib lim b n i e m d ctx"
  shows "results True fair_error (\<lambda>_. thrifty lib lim b n i e m d) (ParseString lib ctx)"
  by (rule results_ample [OF ParseString_ample [OF t]]) (erule thrifty_weaken; simp)

lemma push_ample:
  assumes "thrifty lib lim b n i e m d ctx" "tight v" "length (elems v) < n" "sz \<le> 48"
  obtains v' u' where "vec_push_back (platform.truncate lib) sz x v (env ctx) = Some (v', u')" "tight v'" "elems v' = elems v @ [x]"
proof -
  let ?B = "memory_needed b n + sizeof_DocumentState lib"
  have g: "\<And>c k. vector_growth (platform.truncate lib) c k \<le> 2 * k" "\<And>k u. k \<le> ?B \<Longrightarrow> operator_new (platform.truncate lib) k u \<noteq> None"
    using assms(1) by (auto simp: thrifty_def ample_def)
  have "2 * (length (elems v) + length [x]) * sz \<le> 2 * n * 48" using assms(3, 4) by (intro mult_le_mono) simp_all
  then have sz: "2 * (length (elems v) + length [x]) * sz \<le> ?B" by (simp add: memory_needed_def)
  show ?thesis unfolding vec_push_back_def
    by (rule vec_append_ample [OF assms(2) g sz, where u = "env ctx"]) (use that in \<open>auto simp: vec_push_back_def\<close>)
qed

lemma AddMember_ample:
  fixes lib :: "('u, 'f) library" and ms :: "MemberRecord std_vector"
  assumes t: "thrifty lib lim b n i e (m + length (elems ms) + 1) d ctx" and ms: "tight ms"
  shows "results True fair_error (\<lambda>ms' c. tight ms' \<and> thrifty lib lim b n i e (m + length (elems ms')) d c) (AddMember lib sp x ms ctx)"
proof -
  have "length (elems ms) < n" using t by (simp add: thrifty_def ctx_ok_def)
  then obtain v u where v: "vec_push_back (platform.truncate lib) 48 x ms (env ctx) = Some (v, u)" "tight v" "elems v = elems ms @ [x]"
    using push_ample [OF t ms] by blast
  have "thrifty lib lim b n i e (m + length (elems v)) d (ctx\<lparr>env := u\<rparr>)" using thrifty_env [OF t] v(3) by simp
  moreover have "thrifty lib lim b n i e (m + length (elems ms)) d ctx" using t by (rule thrifty_weaken) simp_all
  moreover have "tight (ms\<lparr>elems := (elems ms)[j := x]\<rparr>)" for j using ms by (simp add: tight_def)
  ultimately show ?thesis using v(1, 2) ms by (auto simp: AddMember_def Let_def resource_def split: DuplicateKeyPolicy.split)
qed

lemma item_tail_ample:
  assumes t: "thrifty lib lim b n i e m d ctx" and close: "close \<noteq> NUL"
    and err: "\<And>c. fair_error (e1 c)" "\<And>c. fair_error (e2 c)"
    and last_item: "\<And>c. thrifty lib lim b n i e m d c \<Longrightarrow> Q x c" and more: "\<And>c. thrifty lib lim b n i e m d c \<Longrightarrow> results True fair_error Q (loop c)"
  shows "results True fair_error Q (item_tail close e1 e2 x loop ctx)"
  unfolding item_tail_def
proof (rule results_then [OF SkipTrivia_ample [OF t]])
  fix y :: unit and c assume t1: "thrifty lib lim b n i e m d c"
  have adv: "thrifty lib lim b n i e m d (advance 1 c')" if "thrifty lib lim b n i e m d c'" "peek c' \<noteq> NUL" for c'
    using thrifty_weaken [OF thrifty_char [OF that(1) refl that(2)]] by simp
  have "results True fair_error Q (and_then (SkipTrivia (advance 1 c)) (\<lambda>_ ctx.
      if peek ctx = close then if trailingCommas (opts ctx) = RejectTrailing then failure (e2 ctx) else success x (advance 1 ctx) else loop ctx))" if "peek c = CHR '',''"
  proof (rule results_then [OF SkipTrivia_ample])
    show "thrifty lib lim b n i e m d (advance 1 c)" using adv [OF t1] that by simp
    show "results True fair_error Q (if peek c' = close then if trailingCommas (opts c') = RejectTrailing then failure (e2 c') else success x (advance 1 c') else loop c')"
      if "thrifty lib lim b n i e m d c'" for c' using that err close last_item [OF adv [OF that]] more [OF that] by auto
  qed
  then show "results True fair_error Q (if peek c = close then success x (advance 1 c)
       else if peek c \<noteq> CHR '','' then failure (e1 c)
       else and_then (SkipTrivia (advance 1 c)) (\<lambda>_ ctx.
              if peek ctx = close then if trailingCommas (opts ctx) = RejectTrailing then failure (e2 ctx) else success x (advance 1 ctx) else loop ctx))"
    using err close last_item [OF adv [OF t1]] by auto
qed

text \<open>The calls of the parser, by the number of nested calls.\<close>

definition ample_value :: "('u, 'f) library \<Rightarrow> ParseLimits \<Rightarrow> nat \<Rightarrow> nat \<Rightarrow> nat \<Rightarrow> bool" where
  "ample_value lib lim b n fuel \<longleftrightarrow> (\<forall>ctx i e m d. thrifty lib lim b n i e m d ctx \<longrightarrow>
     results True fair_error (\<lambda>_. thrifty lib lim b n i (e + 1) (m + 1) d) (ParseValue lib fuel ctx))"

definition ample_brackets :: "('u, 'f) library \<Rightarrow> ParseLimits \<Rightarrow> nat \<Rightarrow> nat \<Rightarrow> nat \<Rightarrow> bool" where
  "ample_brackets lib lim b n fuel \<longleftrightarrow> (\<forall>ctx i e m d. thrifty lib lim b n i e m d ctx \<longrightarrow>
     (peek ctx = CHR ''['' \<longrightarrow> results True fair_error (\<lambda>_. thrifty lib lim b n i (e + 1) (m + 1) d) (ParseArray lib fuel ctx)) \<and>
     (peek ctx = CHR ''{'' \<longrightarrow> results True fair_error (\<lambda>_. thrifty lib lim b n i (e + 1) (m + 1) d) (ParseObject lib fuel ctx)))"

definition ample_items :: "('u, 'f) library \<Rightarrow> ParseLimits \<Rightarrow> nat \<Rightarrow> nat \<Rightarrow> nat \<Rightarrow> bool" where
  "ample_items lib lim b n fuel \<longleftrightarrow>
     (\<forall>ctx i e m d ids. thrifty lib lim b n i (e + length (elems ids)) m d ctx \<longrightarrow> tight ids \<longrightarrow>
        results True fair_error (\<lambda>ids' c. tight ids' \<and> thrifty lib lim b n i (e + length (elems ids')) m d c) (array_loop lib fuel ids ctx)) \<and>
     (\<forall>ctx i e m d ms. thrifty lib lim b n i e (m + length (elems ms)) d ctx \<longrightarrow> tight ms \<longrightarrow>
        results True fair_error (\<lambda>ms' c. tight ms' \<and> thrifty lib lim b n i e (m + length (elems ms')) d c) (object_loop lib fuel ms ctx))"

lemma ample_value_step:
  assumes B: "ample_brackets lib lim b n fuel"
  shows "ample_value lib lim b n (Suc fuel)"
  unfolding ample_value_def ParseValue.simps
proof (intro allI impI, rule results_then [OF SkipTrivia_ample], assumption)
  fix x :: unit and ctx and i e m d assume t: "thrifty lib lim b n i e m d ctx"
  let ?P = "\<lambda>_. thrifty lib lim b n i (e + 1) (m + 1) d"
  have lit: "results True fair_error ?P (AddNode lib nd c)" if "MatchLiteral l ctx = Some c" "l \<noteq> []" for l c nd
  proof -
    have k: "1 \<le> length l" "length l \<le> length (unread ctx)" "c = advance (length l) ctx"
      using that by (cases l; auto simp: MatchLiteral_def CursorRemaining_def Let_def split: if_splits)+
    have "thrifty lib lim b n (i + length l) (e + length l) (m + length l) d c"
      unfolding k(3) by (rule thrifty_moved [OF t moved_advance [OF k(2)] k(2)])
    then have "thrifty lib lim b n (Suc i) (e + 1) (m + 1) d c" using k(1) by (elim thrifty_weaken) simp_all
    then show ?thesis by (rule AddNode_ample)
  qed
  have str: "results True fair_error ?P (and_then (ParseString lib ctx) (\<lambda>s ctx.
      AddNode lib \<lparr>node_kind = KString, node_span = string_span s, node_payload = StringPayload (string_value s)\<rparr> ctx))"
    by (rule results_then [OF ParseString_ample [OF t]], rule AddNode_ample) simp
  have num: "results True fair_error ?P (ParseNumber lib ctx)" if "peek ctx = CHR ''-'' \<or> IsDigit (peek ctx)"
  proof (rule ParseNumber_ample [OF t])
    show "unread ctx \<noteq> []" using that by (auto simp: Peek_unread digit_ord)
  qed
  have br: "peek ctx = CHR ''['' \<Longrightarrow> results True fair_error ?P (ParseArray lib fuel ctx)" "peek ctx = CHR ''{'' \<Longrightarrow> results True fair_error ?P (ParseObject lib fuel ctx)"
    using B t by (simp_all add: ample_brackets_def)
  show "results True fair_error ?P (let start = off ctx; token = peek ctx
       in if token = CHR ''{'' then ParseObject lib fuel ctx
          else if token = CHR ''['' then ParseArray lib fuel ctx
          else if token = CHR 0x22
          then and_then (ParseString lib ctx) (\<lambda>s ctx.
                 AddNode lib \<lparr>node_kind = KString, node_span = string_span s, node_payload = StringPayload (string_value s)\<rparr> ctx)
          else if token = CHR ''-'' \<or> IsDigit token then ParseNumber lib ctx
          else case (if token = CHR ''n'' then map_option (\<lambda>ctx. (KNull, NoPayload, ctx)) (MatchLiteral ''null'' ctx)
                     else if token = CHR ''t'' then map_option (\<lambda>ctx. (KBool, BoolPayload True, ctx)) (MatchLiteral ''true'' ctx)
                     else if token = CHR ''f'' then map_option (\<lambda>ctx. (KBool, BoolPayload False, ctx)) (MatchLiteral ''false'' ctx)
                     else None) of
                 Some (kind, payload, ctx) \<Rightarrow> AddNode lib (mk_node ctx start kind payload) ctx
               | None \<Rightarrow>
                 failure (MakeErrorAt ctx (if IsEof (tx ctx) (cursor ctx) then UnexpectedEnd else UnexpectedCharacter)
                   (if IsEof (tx ctx) (cursor ctx) then ''Expected JSON value'' else ''Unexpected JSON token'') start (min (start + 1) (length (tx ctx)))))"
    using br str num lit by (auto simp: Let_def resource_def split: option.split)
qed

lemma bracket_ample:
  assumes t: "thrifty lib lim b n i e m d ctx" and c: "peek ctx = c" "c \<noteq> NUL"
  shows "\<not> depth ctx \<ge> maxDepth (limits (doc ctx))" "thrifty lib lim b n (Suc i) (e + 1) (m + 1) (Suc d) (advance 1 (ctx\<lparr>depth := depth ctx + 1\<rparr>))"
proof -
  have t1: "thrifty lib lim b n (i + 1) (e + 1) (m + 1) d (advance 1 ctx)" by (rule thrifty_char [OF t c])
  have "unread ctx \<noteq> []" using c by (auto simp: Peek_unread)
  then have o: "off ctx < length (tx ctx)" by simp
  then show "\<not> depth ctx \<ge> maxDepth (limits (doc ctx))" using t by (auto simp: thrifty_def ample_def)
  show "thrifty lib lim b n (Suc i) (e + 1) (m + 1) (Suc d) (advance 1 (ctx\<lparr>depth := depth ctx + 1\<rparr>))"
    using t t1 o by (simp add: thrifty_def advance_def ctx_ok_def)
qed

lemma ample_items_empty:
  assumes L: "ample_items lib lim b n fuel" and t: "thrifty lib lim b n i e m d ctx"
  shows "results True fair_error (\<lambda>ids' c. tight ids' \<and> thrifty lib lim b n i (e + length (elems ids')) m d c) (array_loop lib fuel vec_empty ctx)"
    "results True fair_error (\<lambda>ms' c. tight ms' \<and> thrifty lib lim b n i e (m + length (elems ms')) d c) (object_loop lib fuel vec_empty ctx)"
proof -
  have "thrifty lib lim b n i (e + length (elems (vec_empty :: NodeId std_vector))) m d ctx" using t by simp
  from L [unfolded ample_items_def, THEN conjunct1, rule_format, OF this tight_empty]
  show "results True fair_error (\<lambda>ids' c. tight ids' \<and> thrifty lib lim b n i (e + length (elems ids')) m d c) (array_loop lib fuel vec_empty ctx)" .
  have "thrifty lib lim b n i e (m + length (elems (vec_empty :: MemberRecord std_vector))) d ctx" using t by simp
  from L [unfolded ample_items_def, THEN conjunct2, rule_format, OF this tight_empty]
  show "results True fair_error (\<lambda>ms' c. tight ms' \<and> thrifty lib lim b n i e (m + length (elems ms')) d c) (object_loop lib fuel vec_empty ctx)" .
qed

lemma ample_brackets_step:
  assumes L: "ample_items lib lim b n fuel"
  shows "ample_brackets lib lim b n (Suc fuel)"
  unfolding ample_brackets_def ParseArray.simps ParseObject.simps Let_def
proof (intro allI impI conjI)
  fix ctx :: "('a, 'b) ParseContext" and i e m d assume t: "thrifty lib lim b n i e m d ctx"
  let ?P = "\<lambda>_ :: nat. thrifty lib lim b n i (e + 1) (m + 1) d"
  have adv: "thrifty lib lim b n i' e' m' d' (advance 1 c)" if "thrifty lib lim b n i' e' m' d' c" "peek c = x" "x \<noteq> NUL" for i' e' m' d' c x
    using thrifty_weaken [OF thrifty_char [OF that]] by simp
  {
    assume "peek ctx = CHR ''[''"
    note br = bracket_ample [OF t this]
    have "results True fair_error ?P (and_then (SkipTrivia (advance 1 (ctx\<lparr>depth := depth ctx + 1\<rparr>))) (\<lambda>_ ctx'.
          if peek ctx' = CHR '']'' then finish_array lib (off ctx) vec_empty (advance 1 ctx') else and_then (array_loop lib fuel vec_empty ctx') (finish_array lib (off ctx))))"
    proof (rule results_then [OF SkipTrivia_ample [OF br(2)]], simp)
      fix x :: unit and c assume c: "thrifty lib lim b n (Suc i) (e + 1) (m + 1) (Suc d) c"
      have fin: "results True fair_error ?P (finish_array lib (off ctx) ids c')" if "thrifty lib lim b n (Suc i) (e + 1 + length (elems ids)) (m + 1) (Suc d) c'" for ids c'
        using finish_ample(1) [of lib lim b n i "e + 1" ids "m + 1" vec_empty d c'] that by simp
      show "results True fair_error ?P (if peek c = CHR '']'' then finish_array lib (off ctx) vec_empty (advance 1 c) else and_then (array_loop lib fuel vec_empty c) (finish_array lib (off ctx)))"
      proof (cases "peek c = CHR '']''")
        case True
        then show ?thesis using fin [of vec_empty "advance 1 c"] adv [OF c True] by simp
      next
        case False
        have "results True fair_error (\<lambda>ids' c. tight ids' \<and> thrifty lib lim b n (Suc i) (e + 1 + length (elems ids')) (m + 1) (Suc d) c) (array_loop lib fuel vec_empty c)"
          by (rule ample_items_empty(1) [OF L c])
        then have "results True fair_error ?P (and_then (array_loop lib fuel vec_empty c) (finish_array lib (off ctx)))" by (rule results_then) (use fin in blast)
        then show ?thesis using False by simp
      qed
    qed
    then show "results True fair_error ?P (if maxDepth (limits (doc ctx)) \<le> depth ctx then failure (MakeError ctx DepthExceeded ''JSON depth limit exceeded'')
        else and_then (SkipTrivia (advance 1 (ctx\<lparr>depth := depth ctx + 1\<rparr>))) (\<lambda>_ ctx'.
          if peek ctx' = CHR '']'' then finish_array lib (off ctx) vec_empty (advance 1 ctx') else and_then (array_loop lib fuel vec_empty ctx') (finish_array lib (off ctx))))"
      using br(1) by simp
  }
  {
    assume "peek ctx = CHR ''{''"
    note br = bracket_ample [OF t this]
    have "results True fair_error ?P (and_then (SkipTrivia (advance 1 (ctx\<lparr>depth := depth ctx + 1\<rparr>))) (\<lambda>_ ctx'.
          if peek ctx' = CHR ''}'' then finish_object lib (off ctx) vec_empty (advance 1 ctx') else and_then (object_loop lib fuel vec_empty ctx') (finish_object lib (off ctx))))"
    proof (rule results_then [OF SkipTrivia_ample [OF br(2)]], simp)
      fix x :: unit and c assume c: "thrifty lib lim b n (Suc i) (e + 1) (m + 1) (Suc d) c"
      have fin: "results True fair_error ?P (finish_object lib (off ctx) ms c')" if "thrifty lib lim b n (Suc i) (e + 1) (m + 1 + length (elems ms)) (Suc d) c'" for ms c'
        using finish_ample(2) [of lib lim b n i "e + 1" vec_empty "m + 1" ms d c'] that by simp
      show "results True fair_error ?P (if peek c = CHR ''}'' then finish_object lib (off ctx) vec_empty (advance 1 c) else and_then (object_loop lib fuel vec_empty c) (finish_object lib (off ctx)))"
      proof (cases "peek c = CHR ''}''")
        case True
        then show ?thesis using fin [of vec_empty "advance 1 c"] adv [OF c True] by simp
      next
        case False
        have "results True fair_error (\<lambda>ms' c. tight ms' \<and> thrifty lib lim b n (Suc i) (e + 1) (m + 1 + length (elems ms')) (Suc d) c) (object_loop lib fuel vec_empty c)"
          by (rule ample_items_empty(2) [OF L c])
        then have "results True fair_error ?P (and_then (object_loop lib fuel vec_empty c) (finish_object lib (off ctx)))" by (rule results_then) (use fin in blast)
        then show ?thesis using False by simp
      qed
    qed
    then show "results True fair_error ?P (if maxDepth (limits (doc ctx)) \<le> depth ctx then failure (MakeError ctx DepthExceeded ''JSON depth limit exceeded'')
        else and_then (SkipTrivia (advance 1 (ctx\<lparr>depth := depth ctx + 1\<rparr>))) (\<lambda>_ ctx'.
          if peek ctx' = CHR ''}'' then finish_object lib (off ctx) vec_empty (advance 1 ctx') else and_then (object_loop lib fuel vec_empty ctx') (finish_object lib (off ctx))))"
      using br(1) by simp
  }
qed

lemma ample_elements_step:
  fixes ids :: "NodeId std_vector"
  assumes V: "ample_value lib lim b n fuel" and L: "ample_items lib lim b n fuel"
    and t: "thrifty lib lim b n i (e + length (elems ids)) m d ctx" and ids: "tight ids"
  shows "results True fair_error (\<lambda>ids' c. tight ids' \<and> thrifty lib lim b n i (e + length (elems ids')) m d c) (array_loop lib (Suc fuel) ids ctx)"
  unfolding array_loop.simps item_tail_def [symmetric]
proof (rule results_then [OF V [unfolded ample_value_def, rule_format, OF t]], goal_cases)
  case (1 v c)
  then have t1: "thrifty lib lim b n i (e + length (elems ids) + 1) m d c" by (rule thrifty_weaken) simp_all
  then have "length (elems ids) < n" by (simp add: thrifty_def ctx_ok_def)
  then obtain ids' u where p: "vec_push_back (platform.truncate lib) 4 v ids (env c) = Some (ids', u)" "tight ids'" "elems ids' = elems ids @ [v]"
    using push_ample [OF t1 ids, of 4] by auto
  have t2: "thrifty lib lim b n i (e + length (elems ids')) m d (c\<lparr>env := u\<rparr>)" using thrifty_env [OF t1] p(3) by simp
  show ?case unfolding p(1) option.case prod.case
    by (rule item_tail_ample [OF t2])
      (use p(2) L [unfolded ample_items_def, THEN conjunct1, rule_format] in \<open>auto simp: resource_def\<close>)
qed

lemma ample_members_step:
  fixes ms :: "MemberRecord std_vector"
  assumes V: "ample_value lib lim b n fuel" and L: "ample_items lib lim b n fuel"
    and t: "thrifty lib lim b n i e (m + length (elems ms)) d ctx" and ms: "tight ms"
  shows "results True fair_error (\<lambda>ms' c. tight ms' \<and> thrifty lib lim b n i e (m + length (elems ms')) d c) (object_loop lib (Suc fuel) ms ctx)"
  unfolding object_loop.simps item_tail_def [symmetric]
proof (rule results_then [OF ParseString_thrifty [OF t]], rule results_then [OF SkipTrivia_ample], assumption, goal_cases)
  case (1 key c0 x c)
  show ?case
  proof (cases "peek c = CHR '':''")
    case False
    then show ?thesis by (simp add: resource_def)
  next
    case True
    have t1: "thrifty lib lim b n i e (m + length (elems ms)) d (advance 1 c)" using thrifty_weaken [OF thrifty_char [OF 1(2) True]] by simp
    show ?thesis unfolding True simp_thms if_False
    proof (rule results_then [OF SkipTrivia_ample [OF t1]], rule results_then [OF V [unfolded ample_value_def, rule_format]], assumption, goal_cases)
      case (1 y c2 v c3)
      then have t2: "thrifty lib lim b n i e (m + length (elems ms) + 1) d c3" by (elim thrifty_weaken) simp_all
      show ?case
      proof (cases "NodeAt (doc c3) v")
        case (Some nd)
        show ?thesis unfolding Some option.case Let_def
          by (rule results_then [OF AddMember_ample [OF t2 ms]], rule item_tail_ample [of lib lim b n i e "m + length (elems x)" d for x])
            (use L [unfolded ample_items_def, THEN conjunct2, rule_format] in \<open>auto simp: resource_def\<close>)
      qed simp
    qed
  qed
qed

lemma ample_all: "ample_value lib lim b n fuel \<and> ample_brackets lib lim b n fuel \<and> ample_items lib lim b n fuel"
proof (induction fuel)
  case 0
  then show ?case by (simp add: ample_value_def ample_brackets_def ample_items_def)
next
  case (Suc fuel)
  have "ample_items lib lim b n (Suc fuel)" unfolding ample_items_def
    using ample_elements_step [of lib lim b n fuel] ample_members_step [of lib lim b n fuel] Suc by blast
  then show ?case using Suc ample_value_step ample_brackets_step by blast
qed

section \<open>Whole documents\<close>

lemma whole_ample:
  assumes "thrifty lib lim b n 0 0 0 0 ctx"
  shows "results True fair_error (\<lambda>_. thrifty lib lim b n 0 1 1 0) (whole lib ctx)"
  unfolding whole_def
proof (rule results_then [OF conjunct1 [OF ample_all, unfolded ample_value_def, rule_format, OF assms]])
  fix v c assume "thrifty lib lim b n 0 (0 + 1) (0 + 1) 0 c"
  then have t: "thrifty lib lim b n 0 1 1 0 (c\<lparr>doc := (doc c)\<lparr>root := v\<rparr>\<rparr>)" by (simp add: thrifty_def ctx_ok_def)
  show "results True fair_error (\<lambda>_. thrifty lib lim b n 0 1 1 0) (and_then (SkipTrivia (c\<lparr>doc := (doc c)\<lparr>root := v\<rparr>\<rparr>)) (\<lambda>_ ctx.
      if \<not> IsEof (tx ctx) (cursor ctx) then failure (MakeError ctx TrailingCharacters ''Trailing characters after JSON value'') else success () ctx))"
    by (rule results_then [OF SkipTrivia_ample [OF t]]) (auto simp: resource_def)
qed

lemma FinalizeViews_ample:
  assumes t: "thrifty lib lim b n 0 e m d ctx"
  obtains st u where "FinalizeViews (platform.truncate lib) (doc ctx) (env ctx) = Some (st, u)" "WithinMemoryLimit st"
proof -
  let ?k = "length (elems (nodes (doc ctx)))" and ?B = "memory_needed b n + sizeof_DocumentState lib"
  have o: "off ctx \<le> n" and k: "?k \<le> off ctx" and v: "valueViews (doc ctx) = vec_empty" using t by (auto simp: thrifty_def ctx_ok_def)
  have "?k * 16 \<le> ?B" using o k by (simp add: memory_needed_def)
  then obtain u where u: "operator_new lib (?k * 16) (env ctx) = Some u" using ample_grants [of lib lim b n] t by (auto simp: thrifty_def)
  have cap: "vec_capacity (nodes (doc ctx)) \<le> 2 * n" "vec_capacity (elements (doc ctx)) \<le> 2 * n" "vec_capacity (members (doc ctx)) \<le> 2 * n"
    using t o unfolding thrifty_def tight_def by linarith+
  have "m_committedBytes (arena (doc ctx)) \<le> 2 * b + 4 * off ctx" using t arena_fits_committed [of b "off ctx"] by (simp add: thrifty_def)
  moreover have "length (source_text (doc ctx)) = n" "memory_needed b n \<le> maxTotalMemoryBytes (limits (doc ctx))" using t by (auto simp: thrifty_def ample_def)
  ultimately have mem: "WithinMemoryLimit ((doc ctx)\<lparr>valueViews := w\<rparr>)" if "vec_capacity w \<le> ?k" for w
    using that cap o k by (simp add: WithinMemoryLimit_def MemoryCommitted_def memory_needed_def)
  show ?thesis
  proof (cases "?k = 0")
    case True
    then show ?thesis using that [of "(doc ctx)\<lparr>valueViews := vec_empty\<rparr>" "env ctx"] mem [of vec_empty] v by (simp add: FinalizeViews_def vec_reserve_def vec_empty_def)
  next
    case False
    let ?w = "\<lparr>elems = [0..<?k], vec_capacity = ?k\<rparr>"
    show ?thesis using that [of "(doc ctx)\<lparr>valueViews := ?w\<rparr>" u] mem [of ?w] False v u by (simp add: FinalizeViews_def vec_reserve_def vec_empty_def)
  qed
qed

lemma ParseState_ample:
  assumes t: "thrifty lib lim b (length (source_text st)) 0 0 0 0 (context_make op inSitu scr st u)"
    and r: "attempt_or m (ParseState lib op inSitu scr st u) = Some (Inl e)"
  shows "fair_error e"
proof -
  define ctx where "ctx = context_make op inSitu scr st u"
  have t: "thrifty lib lim b (length (source_text st)) 0 0 0 0 ctx" using t by (simp add: ctx_def)
  have lim: "limits st = lim" using t by (simp add: ctx_def thrifty_def context_make_def)
  have small: "\<not> length (source_text st) > maxInputBytes (limits st)" using t lim by (auto simp: thrifty_def ample_def)
  let ?valid = "utf8 op = ValidateUtf8 \<longrightarrow> utf8_text (source_text st)"
  have val: "(if utf8 op = ValidateUtf8 then IsValidUtf8 (bytes_of (source_text st)) else Some True) = Some ?valid" by (simp add: IsValidUtf8_text)
  have tx: "tx ctx = source_text st" by (simp add: ctx_def context_make_def)
  show ?thesis
  proof (cases ?valid)
    case False
    then show ?thesis using r small val by (auto simp: ParseState_def Let_def attempt_or_def resource_def)
  next
    case True
    have eq: "ParseState lib op inSitu scr st u = do { r \<leftarrow> whole lib ctx;
        case r of
          Inl e \<Rightarrow> Some (Returned (Inl e))
        | Inr (_, c) \<Rightarrow>
          (case FinalizeViews (platform.truncate lib) (doc c) (env c) of
             None \<Rightarrow> Some BadAlloc
           | Some (st, u) \<Rightarrow>
             if \<not> WithinMemoryLimit st
             then Some (Returned (Inl (MakeErrorAt c LimitExceeded ''JSON total memory limit exceeded'' 0 (length (source_text st)))))
             else Some (Returned (Inr st))) }"
      using small True val tx unfolding ParseState_def Let_def ctx_def [symmetric] by (simp add: whole_def)
    note w = whole_ample [OF t]
    show ?thesis
    proof (cases "whole lib ctx")
      case None
      then show ?thesis using r eq by (simp add: attempt_or_def)
    next
      case (Some x)
      show ?thesis
      proof (cases x)
        case (Inl e')
        then show ?thesis using r eq Some w by (simp add: attempt_or_def)
      next
        case (Inr p)
        then obtain c where c: "whole lib ctx = success () c" using Some by (cases p) auto
        then have tc: "thrifty lib lim b (length (source_text st)) 0 1 1 0 c" using w by simp
        obtain st' u' where "FinalizeViews (platform.truncate lib) (doc c) (env c) = Some (st', u')" "WithinMemoryLimit st'" by (rule FinalizeViews_ample [OF tc])
        then show ?thesis using r eq c by (simp add: attempt_or_def)
      qed
    qed
  qed
qed

lemma thrifty_make:
  assumes "ample lib lim (max ib 256) (length input)" "scr \<Longrightarrow> \<exists>s. sc = Some s \<and> elems s = [] \<and> length input \<le> vec_capacity s"
  shows "thrifty lib lim (max ib 256) (length input) 0 0 0 0 (context_make op inSitu scr (DocumentState_make ow input sid sc lim ib) u)"
  using assms by (auto simp: thrifty_def context_make_def DocumentState_make_def InputCursor_make_def ctx_ok_def arena_fits_def SegmentedArena_make_def blocks_ok_def
      vec_empty_def tight_def)

lemma entry_points_exact:
  "exact_result lib op input (Parse lib input sid op lim ib u)" "exact_result lib op input (ParseInSitu lib input sid op lim ib u)"
  "exact_result lib op input (ParseBorrowed lib input sid sc op lim ib u)"
  unfolding Parse_def ParseInSitu_def ParseBorrowed_def by (auto split: option.split intro: bad_alloc_exact ParseState_exact)

lemma accepts:
  assumes "exact_result lib op input r" "\<And>e. r = Some (Inl e) \<Longrightarrow> fair_error e"
  shows "(\<exists>st. r = Some (Inr st)) \<longleftrightarrow> (\<exists>v. json_document lib op input v)"
proof (cases r)
  case None
  then show ?thesis using assms(1) by (simp add: exact_result_def)
next
  case (Some x)
  then show ?thesis using assms by (cases x) (auto simp: exact_result_def)
qed

lemma ParseState_fair:
  assumes "ample lib lim (max ib 256) (length input)"
    and "attempt_or m (ParseState lib op inSitu scr (DocumentState_make ow input sid s lim ib) w) = Some (Inl e)"
    and "scr \<Longrightarrow> \<exists>v. s = Some v \<and> elems v = [] \<and> length input \<le> vec_capacity v"
  shows "fair_error e"
  by (rule ParseState_ample [OF _ assms(2), of lim "max ib 256"]) (use thrifty_make [OF assms(1, 3)] in simp)

lemma Parse_grants:
  assumes "ample lib lim (max ib 256) (length input)"
  shows "(\<exists>st. Parse lib input sid op lim ib u = Some (Inr st)) \<longleftrightarrow> (\<exists>v. json_document lib op input v)"
proof -
  obtain u1 where "operator_new lib (sizeof_DocumentState lib) u = Some u1" using ample_grants [OF assms, of "sizeof_DocumentState lib" u] by auto
  then show ?thesis by (intro accepts [OF entry_points_exact(1)]) (use ParseState_fair [OF assms] in \<open>auto simp: Parse_def\<close>)
qed

text \<open>
  C38: with enough resources the parser accepts exactly the texts of the grammar, by all three entry points. A text of \<open>n\<close> characters, \<open>n < 2 ^ 32\<close>, has enough when every limit is at least \<open>n\<close>,
  the limit of the memory at least \<open>221 n\<close> bytes plus twice the size of the first block of the arena (\<open>ib\<close>, at least 256 and below \<open>2 ^ 62\<close>), when vectors at most double what
  they need, and requests up to that size and the size of the document are granted. No nesting,
  number of values or amount of escapes in a text needs more.
\<close>

theorem Parse_accepts:
  assumes "ample lib lim (max ib 256) (length input)"
  shows "((\<exists>st. Parse lib input sid op lim ib u = Some (Inr st)) \<longleftrightarrow> (\<exists>v. json_document lib op input v)) \<and>
    ((\<exists>st. ParseInSitu lib input sid op lim ib u = Some (Inr st)) \<longleftrightarrow> (\<exists>v. json_document lib op input v)) \<and>
    ((\<exists>st. ParseBorrowed lib input sid sc op lim ib u = Some (Inr st)) \<longleftrightarrow> (\<exists>v. json_document lib op input v))"
proof -
  note grants = ample_grants [OF assms]
  obtain u1 where u1: "operator_new lib (sizeof_DocumentState lib) u = Some u1" using grants [of "sizeof_DocumentState lib" u] by auto
  note fair = ParseState_fair [OF assms]
  have "(\<exists>st. Parse lib input sid op lim ib u = Some (Inr st)) \<longleftrightarrow> (\<exists>v. json_document lib op input v)" by (rule Parse_grants [OF assms])
  moreover have "(\<exists>st. ParseInSitu lib input sid op lim ib u = Some (Inr st)) \<longleftrightarrow> (\<exists>v. json_document lib op input v)"
    by (rule accepts [OF entry_points_exact(2)]) (use u1 fair in \<open>auto simp: ParseInSitu_def\<close>)
  moreover have "(\<exists>st. ParseBorrowed lib input sid sc op lim ib u = Some (Inr st)) \<longleftrightarrow> (\<exists>v. json_document lib op input v)"
  proof (rule accepts [OF entry_points_exact(3)])
    fix e assume e: "ParseBorrowed lib input sid sc op lim ib u = Some (Inl e)"
    have "length input \<le> memory_needed (max ib 256) (length input) + sizeof_DocumentState lib" by (simp add: memory_needed_def)
    then obtain w0 where "operator_new lib (length input) u = Some w0" using grants by blast
    then have "\<exists>s w. vec_reserve (platform.truncate lib) 1 (length input) (Scratch_Reset sc) u = Some (s, w) \<and> elems s = [] \<and> length input \<le> vec_capacity s"
      by (cases "length input \<le> vec_capacity sc") (simp_all add: vec_reserve_def Scratch_Reset_def)
    then obtain s w where s: "vec_reserve (platform.truncate lib) 1 (length input) (Scratch_Reset sc) u = Some (s, w)" "elems s = []" "length input \<le> vec_capacity s" by blast
    obtain w1 where "operator_new lib (sizeof_DocumentState lib) w = Some w1" using grants [of "sizeof_DocumentState lib" w] by auto
    then show "fair_error e" using e s fair [of _ op False True False sid "Some s" w1 e] by (auto simp: ParseBorrowed_def)
  qed
  ultimately show ?thesis by blast
qed

text \<open>A platform that grants every request and doubles vectors; its floating-point numbers are their texts.\<close>

definition plain_library :: "(unit, string) library" where
  "plain_library = \<lparr>operator_new = (\<lambda>_ u. Some u), upstream_allocate = (\<lambda>_ u. Some u), vector_growth = (\<lambda>c n. max (2 * (n - 1)) n),
     from_chars_f64 = (\<lambda>s. (ErrcNone, length s, s)), isfinite = (\<lambda>_. True), simd = SSE2, sizeof_DocumentState = 400\<rparr>"

definition strict_options :: ParseOptions where
  "strict_options = \<lparr>comments = RejectComments, trailingCommas = RejectTrailing, duplicateKeys = RejectDuplicates, utf8 = ValidateUtf8\<rparr>"

lemma ascii_utf8_text: "\<forall>c\<in>set s. ord c < 128 \<Longrightarrow> utf8_text s"
proof -
  assume a: "\<forall>c\<in>set s. ord c < 128"
  have "ord c \<le> 0x7F" if "c \<in> set s" for c using a that by fastforce
  then have "put8 (ord c) = [to_byte (ord c)]" if "c \<in> set s" for c using that by (simp add: put8_def utf8_octets_def)
  then have "bytes_of s = concat (map put8 (map ord s))" by (induction s) (auto simp: bytes_of_def)
  moreover have "list_all IsValidCodePoint (map ord s)" using a by (fastforce simp: list_all_iff IsValidCodePoint_def MaxCodePoint_def IsSurrogate_def)
  ultimately show ?thesis unfolding utf8_text_def by blast
qed

lemma small_document: "json_document plain_library strict_options ''[true, null]'' (JArray [JBool True, JNull])"
proof -
  have sp: "trivia p '' ''" for p using trivia_space [OF _ trivia_nil] by (simp add: is_space_def)
  have "elements_text plain_library strict_options (''true'' @ [] @ '','' @ '' '' @ ''null'' @ [] @ '']'') [JBool True, JNull]"
    by (intro elements_more elements_last text_true text_null sp trivia_nil)
  from text_array [OF trivia_nil this] have "value_text plain_library strict_options ''[true, null]'' (JArray [JBool True, JNull])" by simp
  moreover have "utf8_text ''[true, null]''" by (rule ascii_utf8_text) simp
  ultimately show ?thesis unfolding json_document_def
    by (intro conjI impI exI [of _ "[]"] exI [of _ "''[true, null]''"]) (auto simp: last_trivia_def trivia_nil)
qed

theorem Parse_accepts_witness:
  "(\<exists>st. Parse plain_library ''[true, null]'' 0 strict_options default_limits 4096 () = Some (Inr st)) \<and>
   (\<exists>st. ParseInSitu plain_library ''[true, null]'' 0 strict_options default_limits 4096 () = Some (Inr st)) \<and>
   (\<exists>st. ParseBorrowed plain_library ''[true, null]'' 0 vec_empty strict_options default_limits 4096 () = Some (Inr st))"
proof -
  have "ample plain_library default_limits (max 4096 256) (length ''[true, null]'')" by (simp add: ample_def plain_library_def default_limits_def memory_needed_def)
  from Parse_accepts [OF this] show ?thesis using small_document by blast
qed

end
