(* ===== verification/JSON_Writer_Props.thy ===== *)
theory JSON_Writer_Props
  imports JSON_Writer JSON_Resources "HOL-Library.Multiset"
begin

text \<open>
  What the JSON writer writes: the text of the value, in full, or nothing. A reference definition gives the text of a value under the options; the parser reads the value back from it.
\<close>

section \<open>The text of a value\<close>

definition escaped_char :: "char \<Rightarrow> string" where
  "escaped_char c = (if short_escape c \<noteq> [] then short_escape c else if ord c < 0x20 then encoded_byte c else [c])"

definition quoted :: "string \<Rightarrow> string" where
  "quoted s = CHR 0x22 # concat (map escaped_char s) @ [CHR 0x22]"

definition indent :: "WriteOptions \<Rightarrow> nat \<Rightarrow> string" where
  "indent op level = (if pretty op then LF # replicate (level * indentWidth op) (CHR '' '') else [])"

definition colon :: "WriteOptions \<Rightarrow> string" where
  "colon op = (if pretty op then '': '' else '':'')"

text \<open>Items with a comma in front of every one that is not the first.\<close>

fun joined :: "bool \<Rightarrow> string list \<Rightarrow> string" where
  "joined b [] = []"
| "joined b (x # xs) = (if b then '','' else []) @ x @ joined True xs"

fun print_json :: "('u, 'f) output_library \<Rightarrow> WriteOptions \<Rightarrow> nat \<Rightarrow> 'f json \<Rightarrow> string" where
  "print_json lib op level JNull = ''null''"
| "print_json lib op level (JBool b) = (if b then ''true'' else ''false'')"
| "print_json lib op level (JInt k) = int_chars k"
| "print_json lib op level (JDouble x) = (case to_chars_f64 lib x of None \<Rightarrow> [] | Some s \<Rightarrow> s)"
| "print_json lib op level (JString s) = quoted s"
| "print_json lib op level (JArray vs) =
     ''['' @ joined False (map (\<lambda>v. indent op (level + 1) @ print_json lib op (level + 1) v) vs) @ (if vs = [] then [] else indent op level) @ '']''"
| "print_json lib op level (JObject kvs) =
     ''{'' @ joined False (map (\<lambda>kv. indent op (level + 1) @ quoted (fst kv) @ colon op @ print_json lib op (level + 1) (snd kv)) kvs) @
     (if kvs = [] then [] else indent op level) @ ''}''"

text \<open>The order of the members.\<close>

fun arranged :: "WriteOptions \<Rightarrow> 'f json \<Rightarrow> 'f json" where
  "arranged op (JArray vs) = JArray (map (arranged op) vs)"
| "arranged op (JObject kvs) =
     (let kvs = map (\<lambda>kv. (fst kv, arranged op (snd kv))) kvs in JObject (if sortObjectKeys op then sort_key (\<lambda>kv. map (\<lambda>c. ord c) (fst kv)) kvs else kvs))"
| "arranged op v = v"

text \<open>The values that have a text: valid strings, finite numbers, within the depth.\<close>

fun writable :: "('u, 'f) output_library \<Rightarrow> WriteOptions \<Rightarrow> nat \<Rightarrow> 'f json \<Rightarrow> bool" where
  "writable lib op level (JDouble x) \<longleftrightarrow> level \<le> maxWriteDepth op \<and> finite_f64 lib x \<and> to_chars_f64 lib x \<noteq> None"
| "writable lib op level (JString s) \<longleftrightarrow> level \<le> maxWriteDepth op \<and> utf8_text s"
| "writable lib op level (JArray vs) \<longleftrightarrow> level \<le> maxWriteDepth op \<and> (\<forall>v\<in>set vs. writable lib op (level + 1) v)"
| "writable lib op level (JObject kvs) \<longleftrightarrow> level \<le> maxWriteDepth op \<and> (\<forall>kv\<in>set kvs. utf8_text (fst kv) \<and> writable lib op (level + 1) (snd kv))"
| "writable lib op level v \<longleftrightarrow> level \<le> maxWriteDepth op"

section \<open>Calls that write a text\<close>

definition never_refuses :: "('u, 'f) output_library \<Rightarrow> bool" where
  "never_refuses lib \<longleftrightarrow> (\<forall>n u. string_grow lib n u \<noteq> None \<and> vector_memory lib n u \<noteq> None)"

text \<open>
  \<open>writes lib p s ctx r\<close>: the call with result \<open>r\<close> appends \<open>s\<close>, if that is allowed (\<open>p\<close>) and fits the limit; it stops only otherwise or for want of memory.
\<close>

definition writes :: "('u, 'f) output_library \<Rightarrow> bool \<Rightarrow> string \<Rightarrow> 'u WriteContext \<Rightarrow> 'u WriteContext step \<Rightarrow> bool" where
  "writes lib p s ctx r \<longleftrightarrow>
     (let bad = (\<not> p \<or> maxOutputBytes (write_options ctx) < length (written ctx) + length s)
      in case r of
           Done c \<Rightarrow> p \<and> written c = written ctx @ s \<and> write_options c = write_options ctx \<and> length (written c) \<le> maxOutputBytes (write_options c)
         | Refused \<Rightarrow> bad
         | Failed e \<Rightarrow> bad \<or> write_code e = WriteOutOfMemory \<and> \<not> never_refuses lib
         | Threw \<Rightarrow> \<not> never_refuses lib
         | Stuck \<Rightarrow> False)"

abbreviation room_left :: "'u WriteContext \<Rightarrow> bool" where
  "room_left ctx \<equiv> length (written ctx) \<le> maxOutputBytes (write_options ctx)"

lemma writes_then:
  assumes "writes lib p s ctx r" "\<And>c. r = Done c \<Longrightarrow> write_options c = write_options ctx \<Longrightarrow> room_left c \<Longrightarrow> writes lib q t c (f c)"
  shows "writes lib (p \<and> q) (s @ t) ctx (and_also r f)"
proof (cases r)
  case (Done c)
  then have "writes lib q t c (f c)" using assms by (auto simp: writes_def)
  then show ?thesis using assms(1) Done by (auto simp: writes_def and_also_def Let_def split: step.splits)
qed (use assms(1) in \<open>auto simp: writes_def and_also_def Let_def\<close>)

lemma writes_or_limit: "writes lib p s ctx r \<Longrightarrow> writes lib p s ctx (or_limit r)"
  by (auto simp: writes_def or_limit_def write_failure_def Let_def split: step.splits)

lemma writes_nothing: "room_left ctx \<Longrightarrow> writes lib True [] ctx (Done ctx)"
  by (simp add: writes_def)

lemma writes_Append: "room_left ctx \<Longrightarrow> writes lib True s ctx (Append lib s ctx)"
  by (auto simp: writes_def Append_def never_refuses_def Let_def split: option.split)

lemma writes_AppendIndent:
  fixes lib :: "('u, 'f) output_library"
  assumes "room_left ctx"
  shows "writes lib True (indent (write_options ctx) level) ctx (AppendIndent lib level ctx)"
proof (cases "pretty (write_options ctx)")
  case False
  then show ?thesis using writes_nothing [OF assms] by (simp add: AppendIndent_def indent_def)
next
  case True
  let ?op = "write_options ctx" and ?n = "level * indentWidth (write_options ctx)"
  have "writes lib (True \<and> True) ([LF] @ replicate ?n (CHR '' '')) ctx (and_also (Append lib [LF] ctx) (\<lambda>ctx.
        let op = write_options ctx
        in if indentWidth op \<noteq> 0 \<and> level > maxOutputBytes op div indentWidth op then Refused
           else let count = level * indentWidth op
                in if count > maxOutputBytes op - length (written ctx) then Refused
                   else case string_grow lib (length (written ctx) + count) (write_env ctx) of
                          None \<Rightarrow> Threw
                        | Some u \<Rightarrow> Done (ctx\<lparr>written := written ctx @ replicate count (CHR '' ''), write_env := u\<rparr>)))"
  proof (rule writes_then [OF writes_Append [OF assms]])
    fix c :: "'u WriteContext" assume c: "write_options c = ?op" "room_left c"
    have "maxOutputBytes ?op < ?n" if "indentWidth ?op \<noteq> 0" "level > maxOutputBytes ?op div indentWidth ?op"
      using that by (simp add: div_less_iff_less_mult)
    then show "writes lib True (replicate ?n (CHR '' '')) c (let op = write_options c
        in if indentWidth op \<noteq> 0 \<and> level > maxOutputBytes op div indentWidth op then Refused
           else let count = level * indentWidth op
                in if count > maxOutputBytes op - length (written c) then Refused
                   else case string_grow lib (length (written c) + count) (write_env c) of
                          None \<Rightarrow> Threw
                        | Some u \<Rightarrow> Done (c\<lparr>written := written c @ replicate count (CHR '' ''), write_env := u\<rparr>))"
      using c by (auto simp: writes_def never_refuses_def Let_def split: option.split)
  qed
  then show ?thesis using True by (simp add: AppendIndent_def indent_def)
qed

lemma writes_escape_loop:
  assumes "room_left ctx" "runStart \<le> index" "\<forall>c\<in>set (take (index - runStart) (drop runStart v)). escaped_char c = [c]" "index \<le> length v"
  shows "writes lib True (take (index - runStart) (drop runStart v) @ concat (map escaped_char (drop index v)) @ [CHR 0x22]) ctx (escape_loop lib v index runStart ctx)"
  using assms
proof (induction lib v index runStart ctx rule: escape_loop.induct)
  case (1 lib v index runStart ctx)
  let ?run = "take (index - runStart) (drop runStart v)"
  show ?case
  proof (cases "index < length v")
    case False
    then have "?run = drop runStart v" "drop index v = []" using 1(5, 6) by simp_all
    moreover have "writes lib (True \<and> True) (drop runStart v @ [CHR 0x22]) ctx (and_also (Append lib (drop runStart v) ctx) (Append lib [CHR 0x22]))"
      by (intro writes_then writes_Append 1(3))
    ultimately show ?thesis using False by (subst escape_loop.simps) simp
  next
    case True
    let ?c = "v ! index"
    have d: "drop index v = ?c # drop (Suc index) v" using True by (simp add: Cons_nth_drop_Suc)
    show ?thesis
    proof (cases "short_escape ?c \<noteq> [] \<or> ord ?c < 0x20")
      case esc: True
      let ?e = "if short_escape ?c \<noteq> [] then short_escape ?c else encoded_byte ?c"
      have e: "escaped_char ?c = ?e" using esc by (auto simp: escaped_char_def)
      have "writes lib (True \<and> True \<and> True) (?run @ ?e @ concat (map escaped_char (drop (Suc index) v)) @ [CHR 0x22]) ctx
          (and_also (Append lib ?run ctx) (\<lambda>ctx. and_also (Append lib ?e ctx) (escape_loop lib v (index + 1) (index + 1))))"
        by (intro writes_then writes_Append 1(3)) (use 1(1) [OF True refl esc] True in auto)
      then show ?thesis using True esc d e by (subst escape_loop.simps) (simp add: Let_def)
    next
      case False
      then have e: "escaped_char ?c = [?c]" by (simp add: escaped_char_def)
      have run: "take (index + 1 - runStart) (drop runStart v) = ?run @ [?c]"
        using True 1(4) by (simp add: Suc_diff_le take_Suc_conv_app_nth)
      have "writes lib True (take (index + 1 - runStart) (drop runStart v) @ concat (map escaped_char (drop (index + 1) v)) @ [CHR 0x22]) ctx (escape_loop lib v (index + 1) runStart ctx)"
        by (rule 1(2) [OF True refl False 1(3)]) (use 1(4, 5) True e run in auto)
      then show ?thesis using True False d e run by (subst escape_loop.simps) (simp add: Let_def)
    qed
  qed
qed

lemma writes_AppendEscaped: "room_left ctx \<Longrightarrow> writes lib (utf8_text s) (quoted s) ctx (AppendEscaped lib s ctx)"
proof -
  assume r: "room_left ctx"
  have "writes lib (True \<and> True) ([CHR 0x22] @ concat (map escaped_char s) @ [CHR 0x22]) ctx (and_also (Append lib [CHR 0x22] ctx) (escape_loop lib s 0 0))"
    by (rule writes_then [OF writes_Append [OF r]]) (use writes_escape_loop [of _ 0 0 s lib] in simp)
  then show ?thesis by (cases "utf8_text s") (simp_all add: AppendEscaped_def IsValidUtf8_text quoted_def, simp add: writes_def)
qed

lemma writes_comma: "room_left ctx \<Longrightarrow> writes lib True (if index \<noteq> 0 then '','' else []) ctx (write_comma lib index ctx)"
  using writes_or_limit [OF writes_Append] writes_nothing by (auto simp: write_comma_def)

lemma writes_key:
  assumes "room_left ctx"
  shows "writes lib (utf8_text key) (indent (write_options ctx) level @ quoted key @ colon (write_options ctx)) ctx (write_key lib key level ctx)"
proof -
  have "writes lib (True \<and> utf8_text key \<and> True) (indent (write_options ctx) level @ quoted key @ colon (write_options ctx)) ctx
      (and_also (AppendIndent lib level ctx) (\<lambda>ctx. and_also (AppendEscaped lib key ctx) (\<lambda>ctx. Append lib (if pretty (write_options ctx) then '': '' else '':'') ctx)))"
  proof (intro writes_then [OF writes_AppendIndent [OF assms]] writes_then [OF writes_AppendEscaped], assumption, goal_cases)
    case (1 c d)
    then show ?case using writes_Append [of d lib "colon (write_options ctx)"] by (simp add: colon_def)
  qed
  then show ?thesis unfolding write_key_def by (simp add: writes_or_limit)
qed

lemma writes_close:
  assumes "room_left ctx" "write_options ctx = op"
  shows "writes lib True ((if none then [] else indent op level) @ close) ctx (write_close lib none level close ctx)"
proof -
  have "writes lib True (if none then [] else indent op level) ctx (if \<not> none then or_limit (AppendIndent lib level ctx) else Done ctx)"
    using writes_or_limit [OF writes_AppendIndent [OF assms(1), of lib level]] writes_nothing [OF assms(1), of lib] assms(2) by simp
  from writes_then [OF this writes_or_limit [OF writes_Append]] show ?thesis by (simp add: write_close_def)
qed

lemma writes_cong: "writes lib p s ctx r \<Longrightarrow> p = p' \<Longrightarrow> s = s' \<Longrightarrow> writes lib p' s' ctx r"
  by simp

section \<open>The loops over elements and members\<close>

lemma writes_elements:
  assumes "room_left ctx" "write_options ctx = op"
    and "\<And>j c. j \<in> set idxs \<Longrightarrow> write_options c = op \<Longrightarrow> room_left c \<Longrightarrow> writes lib (P (vs ! j)) (T (vs ! j)) c (wv (Array_index st r j) (level + 1) c)"
    and "idxs = [k..<length vs]"
  shows "writes lib (\<forall>v\<in>set (drop k vs). P v) (joined (k \<noteq> 0) (map (\<lambda>v. indent op (level + 1) @ T v) (drop k vs))) ctx (write_elements lib st wv r idxs level ctx)"
  using assms
proof (induction idxs arbitrary: k ctx)
  case Nil
  have "length vs \<le> k" using Nil(4) [symmetric] by (simp add: upt_eq_Nil_conv) auto
  then show ?case using Nil writes_nothing [of ctx lib] by simp
next
  case (Cons j rest)
  have k: "j = k" "rest = [Suc k..<length vs]" "k < length vs" using Cons(5) [symmetric] by (auto simp: upt_eq_Cons_conv)
  then have d: "drop k vs = vs ! k # drop (Suc k) vs" by (simp add: Cons_nth_drop_Suc)
  have "writes lib (True \<and> True \<and> P (vs ! k) \<and> (\<forall>v\<in>set (drop (Suc k) vs). P v))
      ((if k \<noteq> 0 then '','' else []) @ indent op (level + 1) @ T (vs ! k) @ joined (Suc k \<noteq> 0) (map (\<lambda>v. indent op (level + 1) @ T v) (drop (Suc k) vs))) ctx
      (write_elements lib st wv r (k # rest) level ctx)"
    unfolding write_elements.simps
  proof (intro writes_then [OF writes_comma [OF Cons(2)]] writes_then, goal_cases)
    case (1 c)
    then show ?case using writes_or_limit [OF writes_AppendIndent [of c lib "level + 1"]] Cons(3) by simp
  next
    case (2 c c')
    then show ?case using Cons(4) [of j c'] Cons(3) k(1) by simp
  next
    case (3 c c' c'')
    then show ?case using Cons(3, 4) k(2) by (intro Cons(1)) auto
  qed
  then show ?case unfolding k(1) by (rule writes_cong) (simp_all add: d)
qed

lemma writes_members:
  assumes "room_left ctx" "write_options ctx = op" "list_all2 R ms kvs"
    and "\<And>m kv c. R m kv \<Longrightarrow> kv \<in> set kvs \<Longrightarrow> write_options c = op \<Longrightarrow> room_left c \<Longrightarrow>
      Member_Key st m = fst kv \<and> writes lib (P (snd kv)) (T (snd kv)) c (wv (Member_Value st m) (level + 1) c)"
  shows "writes lib (\<forall>kv\<in>set kvs. utf8_text (fst kv) \<and> P (snd kv))
    (joined (index \<noteq> 0) (map (\<lambda>kv. indent op (level + 1) @ quoted (fst kv) @ colon op @ T (snd kv)) kvs)) ctx (write_members lib st wv ms index level ctx)"
  using assms(3, 1, 2, 4)
proof (induction ms kvs arbitrary: index ctx rule: list_all2_induct)
  case Nil
  then show ?case using writes_nothing [of ctx lib] by simp
next
  case (Cons m ms kv kvs)
  have key: "Member_Key st m = fst kv" using Cons(6) [OF Cons(1), of ctx] Cons(4, 5) by simp
  have "writes lib (True \<and> utf8_text (fst kv) \<and> P (snd kv) \<and> (\<forall>kv\<in>set kvs. utf8_text (fst kv) \<and> P (snd kv)))
      ((if index \<noteq> 0 then '','' else []) @ (indent op (level + 1) @ quoted (fst kv) @ colon op) @ T (snd kv) @
        joined (index + 1 \<noteq> 0) (map (\<lambda>kv. indent op (level + 1) @ quoted (fst kv) @ colon op @ T (snd kv)) kvs)) ctx
      (write_members lib st wv (m # ms) index level ctx)"
    unfolding write_members.simps key
  proof (intro writes_then [OF writes_comma [OF Cons(4)]] writes_then, goal_cases)
    case (1 c)
    then show ?case using writes_key [of c lib "fst kv" "level + 1"] Cons(5) by simp
  next
    case (2 c c')
    then show ?case using Cons(6) [OF Cons(1), of c'] Cons(5) by simp
  next
    case (3 c c' c'')
    then show ?case using Cons(5, 6) by (intro Cons(3)) auto
  qed
  then show ?case by (rule writes_cong) (simp_all add: conj_assoc)
qed

section \<open>The writer writes the text of the value\<close>

lemma sort_key_map: "sort_key f (map g xs) = map g (sort_key (\<lambda>x. f (g x)) xs)"
proof (induction xs)
  case (Cons x xs)
  have "insort_key f (g x) (map g ys) = map g (insort_key (\<lambda>x. f (g x)) x ys)" for ys by (induction ys) auto
  then show ?case using Cons by simp
qed simp

lemma sort_key_empty [simp]: "sort_key f xs = [] \<longleftrightarrow> xs = []"
  by (metis length_0_conv length_sort)

lemma list_all2_sort_key:
  assumes "list_all2 R xs ys" "\<And>x y. R x y \<Longrightarrow> f x = g y"
  shows "list_all2 R (sort_key f xs) (sort_key g ys)"
  using assms(1)
proof (induction xs ys rule: list_all2_induct)
  case (Cons x xs y ys)
  have "list_all2 R (insort_key f x us) (insort_key g y vs)" if "list_all2 R us vs" for us vs
    using that by (induction us vs rule: list_all2_induct) (auto simp: assms(2) [OF Cons(1)] dest: assms(2) intro: Cons(1))
  then show ?case using Cons by simp
qed simp

lemma writable_level: "writable lib op level v \<Longrightarrow> level \<le> maxWriteDepth op"
  by (cases v) auto

lemma writes_reserve: "room_left ctx \<Longrightarrow> writes lib True [] ctx (reserve_members lib n ctx)"
  by (auto simp: reserve_members_def writes_def write_failure_def never_refuses_def Let_def split: option.split)

lemma collect_members_keys:
  fixes st :: "'f DocumentState"
  assumes size: "Object_Size st r = length kvs"
    and members: "\<And>j. j < length kvs \<Longrightarrow> \<exists>m. MemberAt st r j = Some m \<and> Member_Key st m = fst (kvs ! j) \<and> P (Member_Value st m) (snd (kvs ! j))"
  shows "list_all2 (\<lambda>m kv. Member_Key st m = fst kv \<and> P (Member_Value st m) (snd kv)) (collect_members st op r)
    (if sortObjectKeys op then sort_key (\<lambda>kv. map (\<lambda>c. ord c) (fst kv)) kvs else kvs)"
proof -
  let ?ms = "if Object_IsValid st r then [fst r..<fst r + snd r] else []" and ?R = "\<lambda>m kv. Member_Key st m = fst kv \<and> P (Member_Value st m) (snd kv)"
  have len: "length ?ms = length kvs" using size by (auto simp: Object_Size_def split: if_splits)
  have "list_all2 ?R ?ms kvs"
  proof (rule list_all2_all_nthI [OF len])
    fix j assume "j < length ?ms"
    then show "?R (?ms ! j) (kvs ! j)" using members [of j] len by (auto simp: MemberAt_def split: if_splits)
  qed
  then show ?thesis using list_all2_sort_key [of ?R ?ms kvs "\<lambda>m. map (\<lambda>c. ord c) (Member_Key st m)" "\<lambda>kv. map (\<lambda>c. ord c) (fst kv)"]
    by (auto simp: collect_members_def Let_def)
qed

lemma presents_valid: "presents st i v \<Longrightarrow> Value_IsValid st i"
  by (erule presents.cases) (auto simp: Value_IsValid_def Kind_def TryBool_def TryInt64_def TryUInt64_def TryDouble_def TryString_def TryArray_def TryObject_def split: option.splits)

lemma presents_scalar:
  assumes "presents st i v" "\<And>vs. v \<noteq> JArray vs" "\<And>kvs. v \<noteq> JObject kvs" "level \<le> maxWriteDepth op" "room_left ctx" "write_options ctx = op"
  shows "Kind st i \<noteq> KArray" "Kind st i \<noteq> KObject" "writes lib (writable lib op level v) (print_json lib op level (arranged op v)) ctx (write_scalar lib st i ctx)"
proof -
  note app = writes_or_limit [OF writes_Append [OF assms(5), of lib]]
  have "Kind st i \<noteq> KArray \<and> Kind st i \<noteq> KObject \<and> writes lib (writable lib op level v) (print_json lib op level (arranged op v)) ctx (write_scalar lib st i ctx)"
    using assms(1)
  proof (cases rule: presents.cases)
    case presents_null
    then show ?thesis using app [of "''null''"] assms(4) by (simp add: write_scalar_def)
  next
    case (presents_bool b)
    then show ?thesis using app [of "if b then ''true'' else ''false''"] assms(4) by (simp add: write_scalar_def)
  next
    case (presents_int k)
    have "Kind st i = KInt64 \<or> Kind st i = KUInt64 \<and> 0 \<le> k"
      using presents_int(2, 3) by (auto simp: TryInt64_def TryUInt64_def Kind_def split: option.splits if_splits)
    then show ?thesis using presents_int(1-3) app [of "int_chars k"] assms(4) by (auto simp: write_scalar_def int_chars_def)
  next
    case (presents_uint k)
    have "Kind st i = KUInt64" using presents_uint(2, 3) by (auto simp: TryInt64_def TryUInt64_def Kind_def split: option.splits if_splits)
    then show ?thesis using presents_uint(1, 3) app [of "int_chars (int k)"] assms(4) by (simp add: write_scalar_def int_chars_def)
  next
    case (presents_double x)
    have "writes lib (finite_f64 lib x \<and> to_chars_f64 lib x \<noteq> None) (case to_chars_f64 lib x of None \<Rightarrow> [] | Some s \<Rightarrow> s) ctx
        (if \<not> finite_f64 lib x then write_failure NonFiniteNumber ''JSON cannot represent a non-finite number''
         else case to_chars_f64 lib x of None \<Rightarrow> write_failure OutputLimitExceeded ''JSON output limit exceeded'' | Some s \<Rightarrow> or_limit (Append lib s ctx))"
    proof (cases "to_chars_f64 lib x")
      case None
      then show ?thesis by (simp add: writes_def write_failure_def Let_def)
    next
      case (Some t)
      then show ?thesis using app [of t] by (cases "finite_f64 lib x") (simp_all, simp add: writes_def write_failure_def Let_def)
    qed
    then show ?thesis using presents_double assms(4) by (simp add: write_scalar_def)
  next
    case (presents_string t)
    have "Kind st i = KString" using presents_string(2) by (auto simp: TryString_def Kind_def split: option.splits if_splits)
    then show ?thesis using presents_string writes_or_limit [OF writes_AppendEscaped [OF assms(5), of lib t]] assms(4) by (simp add: write_scalar_def)
  qed (use assms(2, 3) in auto)
  then show "Kind st i \<noteq> KArray" "Kind st i \<noteq> KObject" "writes lib (writable lib op level v) (print_json lib op level (arranged op v)) ctx (write_scalar lib st i ctx)" by blast+
qed

lemma writes_value:
  assumes "presents st i v" "write_options ctx = op" "room_left ctx" "level \<le> maxWriteDepth op + 1" "maxWriteDepth op + 2 \<le> fuel + level"
  shows "writes lib (writable lib op level v) (print_json lib op level (arranged op v)) ctx (WriteValue lib st fuel i level ctx)"
  using assms
proof (induction fuel arbitrary: i v level ctx)
  case (Suc fuel)
  note valid = presents_valid [OF Suc(2)]
  show ?case
  proof (cases "level \<le> maxWriteDepth op")
    case False
    then have "\<not> writable lib op level v" using writable_level by blast
    then show ?thesis using False valid Suc(3) by (simp add: check_value_def and_also_def write_failure_def writes_def Let_def)
  next
    case lev: True
    have check: "check_value st i level ctx = Done ctx" using valid lev Suc(3) by (simp add: check_value_def)
    have IH: "writes lib (writable lib op (level + 1) w) (print_json lib op (level + 1) (arranged op w)) c (WriteValue lib st fuel j (level + 1) c)"
      if "presents st j w" "write_options c = op" "room_left c" for j w c
      using Suc(1) [OF that] lev Suc(6) by simp
    show ?thesis
    proof (cases "(\<exists>vs. v = JArray vs) \<or> (\<exists>kvs. v = JObject kvs)")
      case False
      then have v: "v \<noteq> JArray vs" "v \<noteq> JObject kvs" for vs kvs by blast+
      show ?thesis unfolding WriteValue.simps check and_also_def [of "Done ctx"] step.case
        using presents_scalar(1, 2) [OF Suc(2) v lev Suc(4, 3)] presents_scalar(3) [OF Suc(2) v lev Suc(4, 3), of lib] by simp
    next
      case container: True
      show ?thesis using Suc(2)
      proof (cases rule: presents.cases)
      case (presents_array r vs)
      have k: "Kind st i = KArray" using presents_array(2) by (auto simp: TryArray_def Kind_def split: option.splits if_splits)
      have "writes lib (True \<and> (\<forall>v\<in>set vs. writable lib op (level + 1) v) \<and> True)
          (''['' @ joined False (map (\<lambda>v. indent op (level + 1) @ print_json lib op (level + 1) (arranged op v)) vs) @ ((if Array_Size st r = 0 then [] else indent op level) @ '']'')) ctx
          (and_also (or_limit (Append lib ''['' ctx)) (\<lambda>ctx.
           and_also (write_elements lib st (WriteValue lib st fuel) r [0..<Array_Size st r] level ctx) (write_close lib (Array_Size st r = 0) level '']'')))"
      proof (intro writes_then [OF writes_or_limit [OF writes_Append [OF Suc(4)]]] writes_then, goal_cases)
        case (1 c)
        show ?case
          using writes_elements [where k = 0 and vs = vs and op = op and ctx = c and lib = lib and P = "writable lib op (level + 1)" and
              T = "\<lambda>v. print_json lib op (level + 1) (arranged op v)" and wv = "WriteValue lib st fuel" and st = st and r = r and level = level and idxs = "[0..<Array_Size st r]"]
            1 Suc(3) IH presents_array(3, 4) by simp
      next
        case (2 c c')
        then show ?case using Suc(3) by (intro writes_close) simp_all
      qed
      then show ?thesis unfolding WriteValue.simps check and_also_def [of "Done ctx"] step.case using k presents_array(1-3) lev by (simp add: comp_def)
    next
      case (presents_object r kvs)
      have k: "Kind st i = KObject" using presents_object(2) by (auto simp: TryObject_def Kind_def split: option.splits if_splits)
      let ?kvs = "if sortObjectKeys op then sort_key (\<lambda>kv. map (\<lambda>c. ord c) (fst kv)) kvs else kvs" and ?ms = "collect_members st op r"
      have all: "list_all2 (\<lambda>m kv. Member_Key st m = fst kv \<and> presents st (Member_Value st m) (snd kv)) ?ms ?kvs"
        by (rule collect_members_keys [OF presents_object(3)]) (use presents_object(4) in blast)
      have none: "?ms = [] \<longleftrightarrow> kvs = []" using list_all2_lengthD [OF all] by (auto simp flip: length_0_conv)
      have set: "set ?kvs = set kvs" by simp
      have "writes lib (True \<and> True \<and> (\<forall>kv\<in>set ?kvs. utf8_text (fst kv) \<and> writable lib op (level + 1) (snd kv)) \<and> True)
          ([] @ ''{'' @ joined False (map (\<lambda>kv. indent op (level + 1) @ quoted (fst kv) @ colon op @ print_json lib op (level + 1) (arranged op (snd kv))) ?kvs) @
            ((if ?ms = [] then [] else indent op level) @ ''}'')) ctx
          (and_also (reserve_members lib (Object_Size st r) ctx) (\<lambda>ctx.
             let ms = collect_members st (write_options ctx) r
             in and_also (or_limit (Append lib ''{'' ctx)) (\<lambda>ctx.
                and_also (write_members lib st (WriteValue lib st fuel) ms 0 level ctx) (write_close lib (ms = []) level ''}''))))"
        unfolding Let_def
      proof (intro writes_then [OF writes_reserve [OF Suc(4)]] writes_then, goal_cases)
        case (1 c)
        then show ?case by (intro writes_or_limit writes_Append)
      next
        case (2 c c')
        then show ?case
          using writes_members [OF _ _ all, where ctx = c' and op = op and lib = lib and P = "writable lib op (level + 1)" and index = 0 and
              T = "\<lambda>v. print_json lib op (level + 1) (arranged op v)" and wv = "WriteValue lib st fuel" and level = level]
            Suc(3) IH by simp
      next
        case (3 c c' c'')
        then have "write_options c = op" "write_options c'' = op" "room_left c''" using Suc(3) by simp_all
        then show ?case by (simp only: writes_close)
      qed
      then show ?thesis unfolding WriteValue.simps check and_also_def [of "Done ctx"] step.case using k presents_object(1, 2) lev none
        by (simp add: set sort_key_map comp_def split: if_splits)
      qed (use container in auto)
    qed
  qed
qed simp

section \<open>The text is read back\<close>

lemma hex_digits: "d < 16 \<Longrightarrow> IsHexDigit (''0123456789abcdef'' ! d) \<and> HexValue (''0123456789abcdef'' ! d) = d"
proof -
  assume "d < 16"
  then have "d = 0 \<or> d = 1 \<or> d = 2 \<or> d = 3 \<or> d = 4 \<or> d = 5 \<or> d = 6 \<or> d = 7 \<or> d = 8 \<or> d = 9 \<or> d = 10 \<or> d = 11 \<or> d = 12 \<or> d = 13 \<or> d = 14 \<or> d = 15" by arith
  then show ?thesis by (elim disjE) (simp_all add: IsHexDigit_def HexValue_def char_arith)
qed

lemma encoded_byte_hex:
  assumes "ord c < 0x20"
  shows "list_all IsHexDigit (drop 2 (encoded_byte c))" "hex4 (drop 2 (encoded_byte c)) = ord c"
  using hex_digits [of "ord c div 16"] hex_digits [of "ord c mod 16"] hex_digits [of 0] assms by (simp_all add: encoded_byte_def hex4_def)

lemma chars_text_escaped: "chars_text (concat (map escaped_char s)) s"
proof (induction s)
  case Nil
  then show ?case by (simp add: chars_nil)
next
  case (Cons c s)
  show ?case
  proof (cases "short_escape c \<noteq> []")
    case True
    then obtain e where e: "short_escape c = [CHR 0x5C, e]" "simple_escape e = Some c"
      by (auto simp: short_escape_def simple_escape_def split: if_splits)
    then show ?thesis using chars_escape [OF e(2) Cons] True by (simp add: escaped_char_def [of c])
  next
    case short: False
    show ?thesis
    proof (cases "ord c < 0x20")
      case True
      let ?h = "drop 2 (encoded_byte c)"
      note h = encoded_byte_hex [OF True]
      have eq: "encoded_byte c @ t = CHR 0x5C # CHR ''u'' # ?h @ t" for t by (simp add: encoded_byte_def)
      have "length ?h = 4" by (simp add: encoded_byte_def)
      moreover have "chars_of (put8 (hex4 ?h)) = [c]"
        unfolding h(2) using True by (simp add: put8_def utf8_octets_def chars_of_def)
      ultimately have "chars_text (encoded_byte c @ concat (map escaped_char s)) (c # s)" unfolding eq
        using chars_unicode [of ?h "concat (map escaped_char s)" s] h Cons True by simp
      then show ?thesis using True short by (simp add: escaped_char_def [of c])
    next
      case False
      then have "c \<noteq> CHR 0x22" "c \<noteq> CHR 0x5C" using short by (auto simp: short_escape_def)
      then show ?thesis using chars_plain [OF _ _ _ Cons] False short by (simp add: escaped_char_def [of c])
    qed
  qed
qed

lemma natural_to_chars: "natural_text (to_chars 10 n)" "decimal (to_chars 10 n) = n"
proof -
  have d: "list_all IsDigit (to_chars 10 n)" using to_chars_digits [of 10 n] by (simp add: list_all_iff is_digit_10)
  show "decimal (to_chars 10 n) = n" unfolding decimal_def using decimal_be_val [OF d, of 0] to_chars_value [of 10 n] by simp
  have "to_chars 10 n = ''0'' \<or> hd (to_chars 10 n) \<noteq> CHR ''0''"
  proof (cases "1 < length (to_chars 10 n)")
    case True
    then show ?thesis using to_chars_hd [of 10 n] by simp
  next
    case False
    then show ?thesis using to_chars_nonempty [of 10 n] by (cases "to_chars 10 n") auto
  qed
  then show "natural_text (to_chars 10 n)" using d to_chars_nonempty [of 10 n] by (auto simp: natural_text_def digits_def)
qed

lemma number_int_chars:
  assumes "- (2 ^ 63) \<le> k" "k < 2 ^ 64"
  shows "number_value lib (int_chars k) (JInt k)"
proof (cases "k < 0")
  case True
  then show ?thesis using number_value_negative [OF natural_to_chars(1), of lib "nat (- k)"] assms(1) by (simp add: int_chars_def natural_to_chars(2) nat_le_iff)
next
  case False
  then show ?thesis using number_value_natural [OF natural_to_chars(1), of lib "nat k"] assms(2) by (simp add: int_chars_def natural_to_chars(2) nat_less_iff)
qed

lemma trivia_indent: "trivia p (indent op level)" "trivia p '' ''"
proof -
  have "trivia p (replicate n (CHR '' ''))" for n by (induction n) (auto intro: trivia_nil trivia_space simp: is_space_def)
  then show "trivia p (indent op level)" "trivia p '' ''" using trivia_space [OF _ trivia_nil, of "CHR '' ''" p]
    by (auto simp: indent_def trivia_nil is_space_def intro: trivia_space)
qed

text \<open>
  The value the parser reads from the text of a value, where \<open>g x\<close> is the number it reads from the text of the floating-point number \<open>x\<close>: an integer if the text has no
  fraction and no exponent.
\<close>

fun reread :: "('f \<Rightarrow> 'f json) \<Rightarrow> 'f json \<Rightarrow> 'f json" where
  "reread g (JDouble x) = g x"
| "reread g (JArray vs) = JArray (map (reread g) vs)"
| "reread g (JObject kvs) = JObject (map (\<lambda>kv. (fst kv, reread g (snd kv))) kvs)"
| "reread g v = v"

definition float_texts :: "('u, 'f) library \<Rightarrow> ('w, 'f) output_library \<Rightarrow> ('f \<Rightarrow> 'f json) \<Rightarrow> bool" where
  "float_texts rlib lib g \<longleftrightarrow> (\<forall>x s. finite_f64 lib x \<longrightarrow> to_chars_f64 lib x = Some s \<longrightarrow> number_value rlib s (g x))"

text \<open>What the values of parsed documents are like: integers of 64 bits, keys once where the options say so.\<close>

fun readable :: "ParseOptions \<Rightarrow> 'f json \<Rightarrow> bool" where
  "readable op (JInt k) \<longleftrightarrow> - (2 ^ 63) \<le> k \<and> k < 2 ^ 64"
| "readable op (JArray vs) \<longleftrightarrow> (\<forall>v\<in>set vs. readable op v)"
| "readable op (JObject kvs) \<longleftrightarrow> (duplicateKeys op = PreserveDuplicates \<or> distinct (map fst kvs)) \<and> (\<forall>kv\<in>set kvs. readable op (snd kv))"
| "readable op v \<longleftrightarrow> True"

lemma elements_joined:
  assumes "\<And>v. v \<in> set (w # vs) \<Longrightarrow> value_text rlib op (T v) (h v)" "trivia (comments op) ind" "trivia (comments op) ind'"
  shows "elements_text rlib op (T w @ joined True (map (\<lambda>v. ind @ T v) vs) @ ind' @ '']'') (map h (w # vs))"
  using assms(1)
proof (induction vs arbitrary: w)
  case Nil
  then show ?case using elements_last [OF _ assms(3), where s = "T w" and v = "h w" and lib = rlib] by simp
next
  case (Cons v vs)
  have "elements_text rlib op (T v @ joined True (map (\<lambda>v. ind @ T v) vs) @ ind' @ '']'') (map h (v # vs))" using Cons by simp
  then show ?case using elements_more [OF _ trivia_nil assms(2), where s = "T w" and v = "h w" and lib = rlib] Cons(2) by simp
qed

lemma members_joined:
  assumes "\<And>kv. kv \<in> set (w # kvs) \<Longrightarrow> value_text rlib op (T (snd kv)) (h (snd kv))" "trivia (comments op) ind" "trivia (comments op) ind'"
  shows "members_text rlib op (quoted (fst w) @ colon wop @ T (snd w) @ joined True (map (\<lambda>kv. ind @ quoted (fst kv) @ colon wop @ T (snd kv)) kvs) @ ind' @ ''}'')
    (map (\<lambda>kv. (fst kv, h (snd kv))) (w # kvs))"
proof -
  define sp where "sp = (if pretty wop then '' '' else [])"
  have sp: "colon wop = '':'' @ sp" "trivia (comments op) sp" by (simp_all add: colon_def sp_def trivia_indent trivia_nil)
  show ?thesis using assms(1)
  proof (induction kvs arbitrary: w)
    case Nil
    then show ?case using members_last [OF chars_text_escaped trivia_nil sp(2) _ assms(3), where s = "T (snd w)" and v = "h (snd w)" and lib = rlib] by (cases w) (simp add: quoted_def sp(1))
  next
    case (Cons kv kvs)
    have ms: "members_text rlib op (quoted (fst kv) @ colon wop @ T (snd kv) @ joined True (map (\<lambda>kv. ind @ quoted (fst kv) @ colon wop @ T (snd kv)) kvs) @ ind' @ ''}'')
        (map (\<lambda>kv. (fst kv, h (snd kv))) (kv # kvs))"
      using Cons by simp
    have val: "value_text rlib op (T (snd w)) (h (snd w))" using Cons(2) by simp
    from members_more [OF chars_text_escaped trivia_nil sp(2) val trivia_nil assms(2) ms, of "fst w"] show ?case by (simp add: quoted_def sp(1))
  qed
qed

lemma merge_members_id:
  assumes "p = PreserveDuplicates \<or> distinct (map fst (acc @ kvs))"
  shows "merge_members p acc kvs = Some (acc @ kvs)"
  using assms
proof (induction kvs arbitrary: acc)
  case (Cons kv kvs)
  have "add_member p acc kv = Some (acc @ [kv])"
  proof (cases "fst kv \<in> fst ` set acc")
    case True
    then have "p = PreserveDuplicates" using Cons(2) by auto
    then show ?thesis by (simp add: add_member_def Let_def)
  next
    case False
    then have tw: "takeWhile (\<lambda>x. fst x \<noteq> fst kv) acc = acc" by (induction acc) auto
    show ?thesis unfolding add_member_def Let_def tw by simp
  qed
  then show ?case using Cons(1) [of "acc @ [kv]"] Cons(2) by simp
qed simp

lemma print_value_text:
  assumes "float_texts rlib lib g"
  shows "readable op v \<Longrightarrow> writable lib wop level v \<Longrightarrow> value_text rlib op (print_json lib wop level v) (reread g v)"
  using assms
proof (induction lib wop level v rule: print_json.induct)
  case (3 lib wop level k)
  then show ?case by (simp add: text_number number_int_chars)
next
  case (4 lib wop level x)
  then show ?case by (auto simp: float_texts_def intro: text_number split: option.splits)
next
  case (6 lib wop level vs)
  show ?case
  proof (cases vs)
    case Nil
    then show ?thesis using text_array_empty [OF trivia_nil] by simp
  next
    case (Cons w ws)
    have "elements_text rlib op (print_json lib wop (level + 1) w @ joined True (map (\<lambda>v. indent wop (level + 1) @ print_json lib wop (level + 1) v) ws) @ indent wop level @ '']'')
        (map (reread g) (w # ws))"
      using 6 Cons by (intro elements_joined trivia_indent) auto
    from text_array [OF trivia_indent(1) this] show ?thesis by (simp add: Cons)
  qed
next
  case (7 lib wop level kvs)
  show ?case
  proof (cases kvs)
    case Nil
    then show ?thesis using text_object_empty [OF trivia_nil] by simp
  next
    case (Cons w ws)
    let ?ms = "map (\<lambda>kv. (fst kv, reread g (snd kv))) (w # ws)"
    have ms: "members_text rlib op (quoted (fst w) @ colon wop @ print_json lib wop (level + 1) (snd w) @
        joined True (map (\<lambda>kv. indent wop (level + 1) @ quoted (fst kv) @ colon wop @ print_json lib wop (level + 1) (snd kv)) ws) @ indent wop level @ ''}'') ?ms"
      using 7 Cons by (intro members_joined trivia_indent) auto
    have "merge_members (duplicateKeys op) [] ?ms = Some ?ms" using merge_members_id [of _ "[]" ?ms] 7(2) Cons by (auto simp: comp_def)
    from text_object [OF trivia_indent(1) ms this] show ?thesis by (simp add: Cons)
  qed
qed (auto simp: quoted_def intro: text_null text_true text_false text_string [OF chars_text_escaped])

section \<open>The text is valid UTF-8\<close>

lemma utf8_text_append: "utf8_text a \<Longrightarrow> utf8_text b \<Longrightarrow> utf8_text (a @ b)"
  unfolding utf8_text_def by (elim exE conjE, rule_tac x = "cps @ cpsa" in exI) simp

lemma utf8_text_Nil: "utf8_text []"
  by (rule ascii_utf8_text) simp

lemma utf8_joined: "\<forall>x\<in>set xs. utf8_text x \<Longrightarrow> utf8_text (joined b xs)"
proof (induction xs arbitrary: b)
  case (Cons x xs)
  have "utf8_text (x @ joined True xs)" using Cons by (simp add: utf8_text_append)
  moreover have "utf8_text '',''" by (rule ascii_utf8_text) simp
  ultimately show ?case using utf8_text_append [of "'',''"] by simp
qed (simp add: utf8_text_Nil)

lemma escaped_char_ascii: "ord c < 128 \<Longrightarrow> \<forall>d\<in>set (escaped_char c). ord d < 128"
proof -
  assume a: "ord c < 128"
  have "ord (''0123456789abcdef'' ! d) < 128" if "d < 16" for d
  proof -
    have "''0123456789abcdef'' ! d \<in> set ''0123456789abcdef''" using that by (intro nth_mem) simp
    then show ?thesis by auto
  qed
  then have "\<forall>d\<in>set (encoded_byte c). ord d < 128" using a by (auto simp: encoded_byte_def)
  moreover have "\<forall>d\<in>set (short_escape c). ord d < 128" by (auto simp: short_escape_def)
  ultimately show ?thesis using a by (auto simp: escaped_char_def)
qed

lemma escaped_char_high: "128 \<le> ord c \<Longrightarrow> escaped_char c = [c]"
proof -
  assume c: "128 \<le> ord c"
  have "short_escape c = []"
  proof (rule ccontr)
    assume "short_escape c \<noteq> []"
    then have "c \<in> {CHR 0x22, CHR 0x5C, CHR 0x08, CHR 0x0C, LF, CR, TAB}" by (simp add: short_escape_def split: if_splits)
    then have "ord c < 128" by auto
    then show False using c by simp
  qed
  then show ?thesis using c by (simp add: escaped_char_def)
qed

lemma bytes_of_chars: "bytes_of (chars_of b) = (b :: byte list)"
  by (simp add: bytes_of_def chars_of_def comp_def)

lemma concat_map_self: "(\<And>x. x \<in> set xs \<Longrightarrow> f x = [x]) \<Longrightarrow> concat (map f xs) = xs"
  by (induction xs) simp_all

lemma utf8_octets_high: "IsValidCodePoint cp \<Longrightarrow> 0x7F < cp \<Longrightarrow> k \<in> set (utf8_octets cp) \<Longrightarrow> 128 \<le> k \<and> k < 256"
  using valid_cases(1) [of cp] by (auto simp: utf8_octets_def split: if_splits)

lemma utf8_escaped:
  assumes "utf8_text s"
  shows "utf8_text (concat (map escaped_char s))"
proof -
  obtain cps where cps: "list_all IsValidCodePoint cps" "bytes_of s = concat (map put8 cps)" using assms by (auto simp: utf8_text_def)
  have "s = chars_of (concat (map put8 cps))" using arg_cong [OF cps(2), of chars_of] by simp
  moreover have "utf8_text (concat (map escaped_char (chars_of (concat (map put8 cps)))))" using cps(1)
  proof (induction cps)
    case Nil
    then show ?case by (simp add: chars_of_def utf8_text_Nil)
  next
    case (Cons cp cps)
    then have v: "IsValidCodePoint cp" by simp
    have "utf8_text (concat (map escaped_char (chars_of (put8 cp))))"
    proof (cases "cp \<le> 0x7F")
      case True
      then have "chars_of (put8 cp) = [chr cp]" by (simp add: put8_def utf8_octets_def chars_of_def unsigned_of_nat take_bit_nat_eq_self_iff)
      moreover have "ord (chr cp) < 128" using True by simp
      ultimately show ?thesis using ascii_utf8_text [OF escaped_char_ascii [of "chr cp"]] by simp
    next
      case False
      have "escaped_char c = [c]" if c: "c \<in> set (chars_of (put8 cp))" for c
      proof -
        obtain k where k: "k \<in> set (utf8_octets cp)" "c = chr (unat (to_byte k))" using c by (auto simp: put8_def chars_of_def)
        then have "128 \<le> k \<and> k < 256" using utf8_octets_high [OF v] False by simp
        then have "128 \<le> ord c" using k(2) by simp
        then show ?thesis by (rule escaped_char_high)
      qed
      then have "concat (map escaped_char (chars_of (put8 cp))) = chars_of (put8 cp)" by (rule concat_map_self)
      moreover have "utf8_text (chars_of (put8 cp))" unfolding utf8_text_def by (rule exI [of _ "[cp]"]) (simp add: v bytes_of_chars)
      ultimately show ?thesis by simp
    qed
    then show ?case using Cons by (simp add: utf8_text_append)
  qed
  ultimately show ?thesis by simp
qed

lemma number_text_ascii: "number_text s fl \<Longrightarrow> \<forall>c\<in>set s. ord c < 128"
proof -
  assume "number_text s fl"
  then obtain i f x where n: "s = i @ f @ x" "integer_text i" "fraction_text f" "exponent_text x" by (auto simp: number_text_def)
  have d: "ord c < 128" if "digits d" "c \<in> set d" for c d using that by (auto simp: digits_def list_all_iff digit_ord)
  have nat: "ord c < 128" if "natural_text d" "c \<in> set d" for c d using that d natural_digits by blast
  have "\<forall>c\<in>set i. ord c < 128" using n(2) nat by (auto simp: integer_text_def)
  moreover have "\<forall>c\<in>set f. ord c < 128" using n(3) d by (auto simp: fraction_text_def)
  moreover have "\<forall>c\<in>set x. ord c < 128" using n(4) d by (auto simp: exponent_text_def)
  ultimately show ?thesis using n(1) by auto
qed

lemma number_utf8: "number_value rlib s v \<Longrightarrow> utf8_text s"
  by (auto simp: number_value_def intro!: ascii_utf8_text dest: number_text_ascii)

lemma utf8_quoted: "utf8_text s \<Longrightarrow> utf8_text (quoted s)"
proof -
  assume s: "utf8_text s"
  have "utf8_text [CHR 0x22]" by (rule ascii_utf8_text) simp
  then have "utf8_text ([CHR 0x22] @ concat (map escaped_char s) @ [CHR 0x22])" by (intro utf8_text_append utf8_escaped s)
  then show ?thesis by (simp add: quoted_def)
qed

lemma utf8_layout: "utf8_text (indent op level)" "utf8_text (colon op)"
  by (auto simp: indent_def colon_def intro!: ascii_utf8_text)

lemma utf8_bracket: "utf8_text s \<Longrightarrow> utf8_text t \<Longrightarrow> \<forall>c\<in>set (o1 @ o2). ord c < 128 \<Longrightarrow> utf8_text (o1 @ s @ t @ o2)"
  by (intro utf8_text_append) (auto intro: ascii_utf8_text)

lemma print_utf8:
  fixes rlib :: "('r, 'f) library"
  assumes "float_texts rlib lib g"
  shows "readable op v \<Longrightarrow> writable lib wop level v \<Longrightarrow> utf8_text (print_json lib wop level v)"
  using assms
proof (induction lib wop level v rule: print_json.induct)
  case (3 lib wop level k)
  then show ?case using number_utf8 [OF number_int_chars [of k rlib]] by auto
next
  case (4 lib wop level x)
  then show ?case using number_utf8 [of rlib _ "g x"] by (auto simp: float_texts_def split: option.splits)
next
  case (5 lib wop level s)
  then show ?case by (simp add: utf8_quoted)
next
  case (6 lib wop level vs)
  then show ?case unfolding print_json.simps
    by (intro utf8_bracket utf8_joined) (auto simp: utf8_text_Nil utf8_layout intro!: utf8_text_append)
next
  case (7 lib wop level kvs)
  then show ?case unfolding print_json.simps
    by (intro utf8_bracket utf8_joined) (auto simp: utf8_text_Nil utf8_layout utf8_quoted intro!: utf8_text_append)
qed (auto intro!: ascii_utf8_text)

section \<open>Ordered members\<close>

lemma distinct_sort_key: "distinct (map g (sort_key f xs)) \<longleftrightarrow> distinct (map g xs)"
  by (rule mset_eq_imp_distinct_iff) simp

lemma arranged_writable: "writable lib op level (arranged wop v) \<longleftrightarrow> writable lib op level v"
  by (induction lib op level v rule: writable.induct) (auto simp: Let_def)

lemma arranged_readable: "readable op v \<Longrightarrow> readable op (arranged wop v)"
  by (induction op v rule: readable.induct) (auto simp: Let_def distinct_sort_key comp_def)


section \<open>Every call of the writer reports why it stops\<close>

lemma and_also_reports: "and_also m f = Refused \<longleftrightarrow> m = Refused \<or> (\<exists>c. m = Done c \<and> f c = Refused)"
  by (simp add: and_also_def split: step.split)

lemma or_limit_reports: "or_limit m \<noteq> Refused" "write_failure e t \<noteq> Refused"
  by (simp_all add: or_limit_def write_failure_def split: step.split)

lemma parts_report: "write_comma lib k ctx \<noteq> Refused" "write_key lib key level ctx \<noteq> Refused" "write_close lib none level close ctx \<noteq> Refused"
  "check_value st i level ctx \<noteq> Refused" "reserve_members lib n ctx \<noteq> Refused" "write_scalar lib st i ctx \<noteq> Refused"
  by (auto simp: write_comma_def write_key_def write_close_def check_value_def reserve_members_def write_scalar_def or_limit_reports
      and_also_reports split: option.split ValueKind.split)

lemma loops_report:
  assumes "\<And>i level ctx. wv i level ctx \<noteq> Refused"
  shows "write_elements lib st wv r idxs level ctx \<noteq> Refused" "write_members lib st wv ms index level ctx \<noteq> Refused"
proof -
  show "write_elements lib st wv r idxs level ctx \<noteq> Refused"
    by (induction idxs arbitrary: ctx) (auto simp: parts_report or_limit_reports assms and_also_reports)
  show "write_members lib st wv ms index level ctx \<noteq> Refused"
    by (induction ms arbitrary: ctx index) (auto simp: parts_report assms and_also_reports)
qed

lemma WriteValue_reports: "WriteValue lib st fuel i level ctx \<noteq> Refused"
proof (induction fuel arbitrary: i level ctx)
  case (Suc fuel)
  note loops = loops_report [of "WriteValue lib st fuel", OF Suc]
  show ?case unfolding WriteValue.simps Let_def by (auto simp: parts_report or_limit_reports loops and_also_reports split: option.split)
qed simp

lemma Append_reports: "Append lib s ctx \<noteq> Failed e"
  by (simp add: Append_def split: option.split)

lemma escape_loop_reports: "escape_loop lib s k r ctx \<noteq> Failed e"
proof (induction lib s k r ctx rule: escape_loop.induct)
  case (1 lib v index runStart ctx)
  then show ?case by (subst escape_loop.simps) (auto simp: and_also_def Append_reports Let_def split: step.splits)
qed

lemma Write_result:
  assumes "presents st i v"
  shows "case Write lib st i op u of
      None \<Rightarrow> False
    | Some (Inr s) \<Rightarrow> writable lib op 0 v \<and> s = print_json lib op 0 (arranged op v) \<and> length s \<le> maxOutputBytes op
    | Some (Inl e) \<Rightarrow> \<not> writable lib op 0 v \<or> maxOutputBytes op < length (print_json lib op 0 (arranged op v)) \<or>
        write_code e = WriteOutOfMemory \<and> \<not> never_refuses lib"
  using writes_value [OF assms, of "\<lparr>written = [], write_options = op, write_env = u\<rparr>" op 0 "maxWriteDepth op + 2" lib]
    WriteValue_reports [of lib st "maxWriteDepth op + 2" i 0 "\<lparr>written = [], write_options = op, write_env = u\<rparr>"]
  by (auto simp: Write_def writes_def Let_def split: step.splits)

text \<open>
  C40: writing a document always returns, and writes the whole text of the value or nothing. The text is the one of the reference definition, with the members in the order of
  the bytes of their keys if the options say so; a diagnostic means that the value has no text (a string that is not UTF-8, a number that is not finite, too many levels), that
  the text is longer than the limit, or that memory was refused.
\<close>

theorem Write_exact:
  assumes "presents st i v"
  shows "case Write lib st i op u of
      None \<Rightarrow> False
    | Some (Inr s) \<Rightarrow> writable lib op 0 v \<and> s = print_json lib op 0 (arranged op v) \<and> length s \<le> maxOutputBytes op
    | Some (Inl e) \<Rightarrow> \<not> writable lib op 0 v \<or> maxOutputBytes op < length (print_json lib op 0 (arranged op v)) \<or>
        write_code e = WriteOutOfMemory \<and> \<not> never_refuses lib"
  by (rule Write_result [OF assms])

text \<open>A string alone, with the limit of the default options.\<close>

lemma EscapeString_exact:
  "case EscapeString lib s u of
      None \<Rightarrow> False
    | Some (Inr t) \<Rightarrow> utf8_text s \<and> t = quoted s
    | Some (Inl e) \<Rightarrow> \<not> utf8_text s \<and> write_code e = InvalidValue \<or> utf8_text s \<and> 64 * 1024 * 1024 < length (quoted s) \<and> write_code e = OutputLimitExceeded \<or>
        write_code e = WriteOutOfMemory \<and> \<not> never_refuses lib"
proof -
  let ?ctx = "\<lparr>written = [], write_options = default_write, write_env = u\<rparr>"
  have "writes lib (utf8_text s) (quoted s) ?ctx (AppendEscaped lib s ?ctx)" by (rule writes_AppendEscaped) simp
  moreover have "AppendEscaped lib s ?ctx \<noteq> Failed e" for e
    by (simp add: AppendEscaped_def and_also_def Append_reports escape_loop_reports split: option.split step.split)
  ultimately show ?thesis
    by (auto simp: EscapeString_def writes_def IsValidUtf8_text default_write_def Let_def split: step.splits)
qed

section \<open>Writing and reading\<close>

lemma add_member_readable:
  assumes "add_member p ms kv = Some ms'" "p = PreserveDuplicates \<or> distinct (map fst ms)"
  shows "set ms' \<subseteq> insert kv (set ms)" "p = PreserveDuplicates \<or> distinct (map fst ms')"
proof -
  let ?i = "length (takeWhile (\<lambda>m. fst m \<noteq> fst kv) ms)"
  have hit: "fst (ms ! ?i) = fst kv" if "?i < length ms" using nth_length_takeWhile [OF that] by simp
  have miss: "fst kv \<notin> fst ` set ms" if "\<not> ?i < length ms"
  proof -
    have "takeWhile (\<lambda>m. fst m \<noteq> fst kv) ms = ms" using that length_takeWhile_le [of _ ms] by (metis linorder_le_less_linear takeWhile_eq_take take_all)
    then show ?thesis by (auto simp: takeWhile_eq_all_conv)
  qed
  have keys: "map fst (ms[?i := kv]) = map fst ms" if "?i < length ms"
    using hit [OF that] that by (simp add: map_update list_update_same_conv)
  show "set ms' \<subseteq> insert kv (set ms)" using assms(1) set_update_subset_insert [of ms ?i kv]
    by (auto simp: add_member_def Let_def split: if_splits DuplicateKeyPolicy.splits)
  show "p = PreserveDuplicates \<or> distinct (map fst ms')" using assms keys miss
    by (auto simp: add_member_def Let_def split: if_splits DuplicateKeyPolicy.splits)
qed

lemma merge_members_readable:
  assumes "merge_members p acc kvs = Some obj" "p = PreserveDuplicates \<or> distinct (map fst acc)"
  shows "set obj \<subseteq> set acc \<union> set kvs \<and> (p = PreserveDuplicates \<or> distinct (map fst obj))"
  using assms
proof (induction kvs arbitrary: acc)
  case (Cons kv kvs)
  then obtain ms where ms: "add_member p acc kv = Some ms" "merge_members p ms kvs = Some obj" by (auto split: option.splits)
  note r = add_member_readable [OF ms(1) Cons(3)]
  from Cons(1) [OF ms(2) r(2)] r(1) show ?case by auto
qed simp

lemma number_readable: "number_value lib s v \<Longrightarrow> readable op v"
  by (auto simp: number_value_def split: if_splits)

lemma value_text_readable:
  "value_text lib op s v \<Longrightarrow> readable op v"
  "elements_text lib op s vs \<Longrightarrow> \<forall>v\<in>set vs. readable op v"
  "members_text lib op s kvs \<Longrightarrow> \<forall>kv\<in>set kvs. readable op (snd kv)"
proof (induction rule: value_text_elements_text_members_text.inducts)
  case (text_object t ms kvs obj)
  then show ?case using merge_members_readable [OF text_object(4)] by auto
qed (auto intro: number_readable)

lemma print_document:
  assumes "float_texts rlib lib g" "readable op v" "writable lib wop 0 v"
  shows "json_document rlib op (print_json lib wop 0 (arranged wop v)) (reread g (arranged wop v))"
proof -
  have r: "readable op (arranged wop v)" "writable lib wop 0 (arranged wop v)" using arranged_readable assms arranged_writable by blast+
  have "trivia (comments op) []" "last_trivia (comments op) []" by (simp_all add: last_trivia_def trivia_nil)
  then show ?thesis unfolding json_document_def using print_value_text [OF assms(1) r] print_utf8 [OF assms(1) r] by (metis append_Nil append_Nil2)
qed

text \<open>
  C3: what the parser reads, the writer writes and the parser reads again: the text written of a parsed document is accepted under the same options, and the new document presents the value of the
  old one, with the members in the order of the writer and with every floating-point number as the number read from its own text.
\<close>

theorem JSON_roundtrip:
  assumes "Parse lib input sid op lim ib u = Some (Inr st)"
    and "Write wlib st (Root st) wop w = Some (Inr s)"
    and "float_texts lib wlib g"
    and "ample lib lim (max ib 256) (length s)"
  shows "\<exists>v st'. json_document lib op input v \<and> presents st (Root st) v \<and>
    Parse lib s sid' op lim ib u' = Some (Inr st') \<and> presents st' (Root st') (reread g (arranged wop v))"
proof -
  obtain v where v: "json_document lib op input v" "presents st (Root st) v"
    using entry_points_exact(1) [of lib op input sid lim ib u] assms(1) by (auto simp: exact_result_def)
  then have "readable op v" using value_text_readable(1) by (auto simp: json_document_def)
  moreover have "writable wlib wop 0 v" "s = print_json wlib wop 0 (arranged wop v)"
    using Write_result [OF v(2), of wlib wop w] assms(2) by auto
  ultimately have d: "json_document lib op s (reread g (arranged wop v))" using print_document [OF assms(3)] by blast
  then obtain st' where "Parse lib s sid' op lim ib u' = Some (Inr st')" using Parse_grants [OF assms(4)] by blast
  moreover from this d have "presents st' (Root st') (reread g (arranged wop v))"
    using entry_points_exact(1) [of lib op s sid' lim ib u'] by (auto simp: exact_result_def)
  ultimately show ?thesis using v by blast
qed

text \<open>Examples: a platform whose floating-point numbers are their texts, and a document whose members are written in another order.\<close>

definition plain_output :: "(unit, string) output_library" where
  "plain_output = \<lparr>string_grow = (\<lambda>_ u. Some u), vector_memory = (\<lambda>_ u. Some u), to_chars_f64 = Some, finite_f64 = (\<lambda>x. x = ''1.5''), f64_of_int = int_chars\<rparr>"

abbreviation pair_text :: string where
  "pair_text \<equiv> ''{\"b\":1.5,\"a\":null}''"

abbreviation pair_value :: "string json" where
  "pair_value \<equiv> JObject [(''b'', JDouble ''1.5''), (''a'', JNull)]"

lemma float_example: "number_value plain_library ''1.5'' (JDouble ''1.5'')"
proof -
  have "digits ''5''" "natural_text ''1''" by (simp_all add: digits_def natural_text_def IsDigit_def)
  then have "number_text ''1.5'' True" unfolding number_text_def integer_text_def fraction_text_def exponent_text_def
    by (intro exI [of _ "''1''"] exI [of _ "''.5''"] exI [of _ "[]"]) auto
  then show ?thesis by (simp add: number_value_def plain_library_def)
qed

lemma pair_document: "json_document plain_library strict_options pair_text pair_value"
proof -
  have k: "chars_text ''a'' ''a''" "chars_text ''b'' ''b''" by (intro chars_plain chars_nil; simp)+
  have "members_text plain_library strict_options (CHR 0x22 # ''b'' @ CHR 0x22 # [] @ '':'' @ [] @ ''1.5'' @ [] @ '','' @ [] @
      (CHR 0x22 # ''a'' @ CHR 0x22 # [] @ '':'' @ [] @ ''null'' @ [] @ ''}'')) [(''b'', JDouble ''1.5''), (''a'', JNull)]"
    by (intro members_more members_last trivia_nil text_null text_number float_example k)
  from text_object [OF trivia_nil this, of "[(''b'', JDouble ''1.5''), (''a'', JNull)]"]
  have "value_text plain_library strict_options pair_text pair_value" by (simp add: add_member_def strict_options_def)
  moreover have "utf8_text pair_text" by (rule ascii_utf8_text) simp
  ultimately show ?thesis unfolding json_document_def
    by (intro conjI impI exI [of _ "[]"] exI [of _ pair_text]) (auto simp: last_trivia_def trivia_nil)
qed

lemma pair_written: "writable plain_output (default_write\<lparr>sortObjectKeys := True\<rparr>) 0 pair_value"
  "print_json plain_output (default_write\<lparr>sortObjectKeys := True\<rparr>) 0 (arranged (default_write\<lparr>sortObjectKeys := True\<rparr>) pair_value) = ''{\"a\":null,\"b\":1.5}''"
proof -
  have "utf8_text ''a''" "utf8_text ''b''" by (rule ascii_utf8_text, simp)+
  then show "writable plain_output (default_write\<lparr>sortObjectKeys := True\<rparr>) 0 pair_value" by (simp add: plain_output_def default_write_def)
  show "print_json plain_output (default_write\<lparr>sortObjectKeys := True\<rparr>) 0 (arranged (default_write\<lparr>sortObjectKeys := True\<rparr>) pair_value) = ''{\"a\":null,\"b\":1.5}''"
    by (simp add: plain_output_def default_write_def sort_key_def insort_key.simps quoted_def escaped_char_def short_escape_def indent_def colon_def)
qed

lemma pair_parsed: "\<exists>st. Parse plain_library pair_text 0 strict_options default_limits 4096 () = Some (Inr st) \<and> presents st (Root st) pair_value"
proof -
  have am: "ample plain_library default_limits (max 4096 256) (length pair_text)" by (simp add: ample_def plain_library_def default_limits_def memory_needed_def)
  obtain st where st: "Parse plain_library pair_text 0 strict_options default_limits 4096 () = Some (Inr st)"
    using Parse_grants [OF am, of 0 strict_options "()"] pair_document by blast
  then have "presents st (Root st) pair_value"
    using entry_points_exact(1) [of plain_library strict_options pair_text 0 default_limits 4096 "()"] pair_document by (auto simp: exact_result_def)
  then show ?thesis using st by blast
qed

lemma written_result:
  assumes "case r of None \<Rightarrow> False | Some (Inr s) \<Rightarrow> W \<and> s = t \<and> length s \<le> n | Some (Inl e) \<Rightarrow> \<not> W \<or> n < length t \<or> C e \<and> \<not> N"
    and "W" "t = t'" "length t' \<le> n" "N"
  shows "r = Some (Inr t')"
  using assms by (auto split: option.splits sum.splits)

lemma pair_fits: "length ''{\"a\":null,\"b\":1.5}'' \<le> maxOutputBytes (default_write\<lparr>sortObjectKeys := True\<rparr>)" "never_refuses plain_output"
  by (simp_all add: default_write_def never_refuses_def plain_output_def)

theorem Write_exact_witness:
  "\<exists>st. presents st (Root st) pair_value \<and> Write plain_output st (Root st) (default_write\<lparr>sortObjectKeys := True\<rparr>) () = Some (Inr ''{\"a\":null,\"b\":1.5}'')"
proof -
  obtain st where st: "presents st (Root st) pair_value" using pair_parsed by blast
  from written_result [OF Write_exact [OF st, of plain_output "default_write\<lparr>sortObjectKeys := True\<rparr>" "()"] pair_written pair_fits]
  show ?thesis using st by blast
qed

theorem JSON_roundtrip_witness:
  "\<exists>st st'. Parse plain_library pair_text 0 strict_options default_limits 4096 () = Some (Inr st) \<and>
     Write plain_output st (Root st) (default_write\<lparr>sortObjectKeys := True\<rparr>) () = Some (Inr ''{\"a\":null,\"b\":1.5}'') \<and>
     Parse plain_library ''{\"a\":null,\"b\":1.5}'' 1 strict_options default_limits 4096 () = Some (Inr st') \<and>
     presents st' (Root st') (JObject [(''a'', JNull), (''b'', JDouble ''1.5'')])"
proof -
  let ?wop = "default_write\<lparr>sortObjectKeys := True\<rparr>" and ?out = "''{\"a\":null,\"b\":1.5}''"
  obtain st where st: "Parse plain_library pair_text 0 strict_options default_limits 4096 () = Some (Inr st)" "presents st (Root st) pair_value" using pair_parsed by blast
  note w = written_result [OF Write_result [OF st(2), of plain_output ?wop "()"] pair_written pair_fits]
  have f: "float_texts plain_library plain_output JDouble" using float_example by (simp add: float_texts_def plain_output_def)
  have "ample plain_library default_limits (max 4096 256) (length ?out)" by (simp add: ample_def plain_library_def default_limits_def memory_needed_def)
  from JSON_roundtrip [OF st(1) w f this, of 1 "()"] obtain v st' where r: "json_document plain_library strict_options pair_text v"
    "Parse plain_library ?out 1 strict_options default_limits 4096 () = Some (Inr st')" "presents st' (Root st') (reread JDouble (arranged ?wop v))" by blast
  have "v = pair_value" using entry_points_exact(1) [of plain_library strict_options pair_text 0 default_limits 4096 "()"] st(1) r(1) pair_document by (auto simp: exact_result_def)
  then have "reread JDouble (arranged ?wop v) = JObject [(''a'', JNull), (''b'', JDouble ''1.5'')]" by (simp add: default_write_def sort_key_def insort_key.simps)
  then show ?thesis using st(1) w r by auto
qed

end
