(* ===== verification/Spec2Isabelle.thy ===== *)
theory Spec2Isabelle
  imports Crypto_Base64Url Crypto_Der_Props Crypto_Pem_Props Text_Unicode_Props IO_Path_Props
    Net_Address_Props Containers_FlatHashMap_Props Math_BigInt_Props Hashing_CRC_Props
    Sync_TicketLock_Props Sync_SpinLock Memory_Tracking JSON_Writer_Props
begin

text \<open>
  \<^bold>\<open>NGIN.Base\<close> is a C++ foundation library: encodings and parsers for cryptographic formats,
  Unicode, paths, network addresses, containers, big integers, hashing, memory, synchronisation and,
  around them, system services. This development models the parts whose correctness is a matter of
  the library's own code, translated from the files under \<^verbatim>\<open>src/\<close>, and proves what they promise.

  \<^bold>\<open>How the code is translated.\<close> A struct or class is a record, an enumeration a datatype, an integer
  of fixed width a word (or an integer with its wrap-around written out, as in the big integers, by
  \<open>wrap32\<close> and \<open>wrap64\<close>). A span or array is a list with every access guarded: an access that the
  C++ code would make outside of it is \<^term>\<open>None\<close>, as is a loop that does not end
  (\<open>partial_function (option)\<close>), so that a theorem that a result is \<open>Some\<close> says that the code ends and
  stays in bounds. Errors are values of a sum type: \<open>Inl\<close> the error code, \<open>Inr\<close> the result. Text is a
  list of characters, bytes are 8-bit words. Functions the code gets from a client (a hash, an
  allocator) are arguments of the definitions.

  \<^bold>\<open>Shared theories.\<close>
  \<^item> \<open>NGIN_Prelude\<close>: types of bytes and words, guarded access to spans, lemma collections
    (\<open>bitarith\<close>, \<open>span_simps\<close>, \<open>char_arith\<close>).
  \<^item> \<open>Digits\<close>: numerals in a base and their values.
  \<^item> \<open>Codec_Spec\<close>: the interfaces \<open>codec\<close>, \<open>strict_codec\<close> (a decoder that accepts exactly the canonical
    encodings) and \<open>stream_codec\<close> (a reader of one item that leaves the rest), with the lemmas clients
    use: injectivity, exactness, reading of sequences.
  \<^item> \<open>Map_Spec\<close>: the interface \<open>finite_map\<close> and the simulation of operation sequences over it.

  \<^bold>\<open>Components.\<close>
  \<^item> \<open>Crypto_Hex\<close>, \<open>Crypto_Base64\<close>, \<open>Crypto_Base64Url\<close> (\<^verbatim>\<open>src/src/NGIN/Crypto/Encoding/{Hex,Base64,Base64Url}.cpp\<close>):
    encoders and strict decoders, with the \<open>Into\<close> variants that fill a caller's span. Each is an
    interpretation of \<open>strict_codec\<close>: the decoder returns bytes exactly for the encodings of those bytes
    up to the variation the format allows (letter case, padding); the span variants write the whole
    span or nothing.
  \<^item> \<open>Crypto_Der\<close>, \<open>Crypto_Der_Props\<close> (\<^verbatim>\<open>Der.cpp\<close>): the strict streaming reader with its offset and depth, the
    typed readers and the encoders. Reading is the exact inverse of encoding; every reader reachable
    from a document stays inside it (rule induction over the reading steps).
  \<^item> \<open>Crypto_Pem\<close>, \<open>Crypto_Pem_Props\<close> (\<^verbatim>\<open>Pem.cpp\<close>): the line-based parser on top of the Base64 model, against a
    grammar of PEM documents. Sizes are taken below \<open>2 ^ 62\<close>, above which the size check of the code wraps.
  \<^item> \<open>Text_Unicode\<close>, \<open>Text_Utf\<close>, \<open>Text_Unicode_Props\<close> (\<^verbatim>\<open>src/include/NGIN/Text/Unicode/\<close>): UTF-8, UTF-16 and
    UTF-32 decoding, encoding, conversion under the three error policies, views and byte order
    marks. The locale \<open>unit_decoder\<close> carries the properties of the conversions for both decoders.
  \<^item> \<open>IO_Path\<close>, \<open>IO_Path_Props\<close> (\<^verbatim>\<open>src/src/NGIN/IO/Path.cpp\<close>): lexical operations on paths; the components that
    normalisation writes lead to the same directory, relative paths join back, walking up ends.
  \<^item> \<open>Net_Charconv\<close>, \<open>Net_Address\<close>, \<open>Net_Address_Props\<close> (\<^verbatim>\<open>src/src/NGIN/Net/{IpAddress,Endpoint}.cpp\<close>): parsers with
    error offsets and formatters into fixed arrays; formatting stays inside the array and parses back.
  \<^item> \<open>Containers_FlatHashMap\<close>, \<open>Containers_FlatHashMap_Props\<close> (\<^verbatim>\<open>src/include/NGIN/Containers/FlatHashMap.hpp\<close>): the
    open-addressing table with linear probing and backward-shift deletion, growth and rehashing, for any
    hash function and an allocator that may fail. It interprets \<open>finite_map\<close>. The allocator is
    assumed to refuse more than \<open>2 ^ 62\<close> buckets, so that positions do not wrap, and the number of bytes of a request
    is taken not to wrap; the theorems say for every operation what it does to the entries and what a refused allocation leaves; load factors are computed
    exactly, as doubles are below \<open>2 ^ 50\<close>.
  \<^item> \<open>Math_BigInt\<close>, \<open>Math_BigInt_Props\<close> (\<^verbatim>\<open>src/include/NGIN/Math/BigInt.hpp\<close>): big integers in base \<open>10 ^ 9\<close> with
    schoolbook and Karatsuba multiplication and four division algorithms. The locale
    \<open>magnitude_divmod\<close> is interpreted by each of them and by their dispatcher.
  \<^item> \<open>Hashing_CRC\<close>, \<open>Hashing_CRC_Props\<close> (\<^verbatim>\<open>src/include/NGIN/Hashing/CRC.hpp\<close>): the bitwise, table-driven and slicing
    engines and the presets. All are interpretations of \<open>crc_engine\<close> and agree.
  \<^item> \<open>Sync_Spec\<close>, \<open>Sync_TicketLock\<close>, \<open>Sync_TicketLock_Props\<close>, \<open>Sync_SpinLock\<close> (\<^verbatim>\<open>src/include/NGIN/Sync/{TicketLock,SpinLock}.hpp\<close>): the
    locks as transition systems of any number of threads, one step per atomic operation, interleaved
    sequentially consistently. Both interpret \<open>mutex\<close>, in which a client that updates a protected variable
    loses no update; tickets are served in order across the wrap-around of the 32-bit counters, for fewer than
    \<open>2 ^ 32\<close> threads and a \<open>TryLock\<close> that is not overtaken \<open>2 ^ 32\<close> times; and in fair runs nobody waits forever.
  \<^item> \<open>Memory_Spec\<close>, \<open>Memory_Alignment\<close>, \<open>Memory_Pool\<close>, \<open>Memory_FixedBlock\<close>, \<open>Memory_Linear\<close>, \<open>Memory_Fallback\<close>, \<open>Memory_Tagged\<close>,
    \<open>Memory_Tracking\<close> (\<^verbatim>\<open>src/include/NGIN/Memory/\<close>): allocators over one memory of bytes, in which free blocks hold the links of the
    free list and headers stand in front of tagged blocks. The contract \<open>allocator\<close> says that blocks are apart, that operations write
    no byte of a held block and clients no byte of the allocator; the pool and the linear allocator interpret it, and the composite
    allocators keep it (\<open>routed\<close>, \<open>tagged_layer\<close>, \<open>tagged_pair\<close>, \<open>tracking_layer\<close>). Addresses are 64 bits wide, \<open>alignof(std::max_align_t)\<close>
    is 16.

  \<^item> \<open>SIMD_Scan\<close> (\<^verbatim>\<open>src/include/NGIN/SIMD/Scan.hpp\<close>): the vectorised searches for up to four bytes, for the lane counts of every backend. They find the
    first occurrence, as a loop over the bytes does.
  \<^item> \<open>Serialization_Core\<close> (\<^verbatim>\<open>src/include/NGIN/Serialization/Core/\<close>): cursor, positions, diagnostics, limits, the segmented arena and scratch storage. Memory comes
    from an allocator with a state of its own that may refuse any request.
  \<^item> \<open>JSON_Document\<close>, \<open>JSON_Parser\<close> (\<^verbatim>\<open>src/src/NGIN/Serialization/JSON/{JsonDocument,JsonParser}.cpp\<close>): the tables of a document, its views, and the recursive-descent
    parser with its three ways to store decoded strings. \<open>JSON_Grammar\<close> is the specification: the texts of JSON under the options of the parser and their values,
    including comments, trailing commas and the policies for repeated keys. \<open>JSON_Lexing\<close>, \<open>JSON_Strings\<close> and \<open>JSON_Numbers\<close> show that each scanner accepts exactly its
    production; \<open>JSON_Context\<close> that operations extend the document and leave the unread text and everything stored before alone, also when strings are decoded over the source;
    \<open>JSON_Soundness\<close> and \<open>JSON_Completeness\<close> that a parsed value is of the grammar and the other way round; \<open>JSON_Parser_Props\<close> puts both together for whole documents, seen
    through the views. The recursion takes the number of nested calls as an argument: \<open>3 n + 4\<close> for a text of \<open>n\<close> characters, since between two characters read there are at most three
    calls; that it is enough is part of the theorems. \<open>JSON_Resources\<close> bounds what a text can use of every limit and of the memory, and concludes that with that much no text of the
    grammar is refused. Texts of floating-point numbers are converted by a parameter.
  \<^item> \<open>JSON_Writer\<close> (\<^verbatim>\<open>src/src/NGIN/Serialization/JSON/JsonWriter.cpp\<close>): the writer over the views of a document, with its limits and orders. \<open>JSON_Writer_Props\<close>
    has the reference printer, shows that the writer writes its text or nothing, and that the parser reads the value back. The writer takes its number of nested calls from the
    depth limit, \<open>maxDepth + 2\<close>.

  \<^bold>\<open>Not modelled.\<close> Code whose meaning is a call of the operating system or of another library (files,
  processes, sockets, TLS, the backends of the cryptographic primitives), coroutines, fibers and
  the lock-free map, which rest on the C++ memory model, vector instructions, and wrappers whose
  content is the lifetime of C++ objects.

  The JSON event parser, builder and stream writer, XML, the further containers and allocators are not modelled either.
\<close>

end
